(* ===== verification/Ring.thy ===== *)
theory Ring
  imports Main
begin

text \<open>
  Circular doubly linked lists, as two functions: the rings that the lists of \<^verbatim>\<open>libpmemobj/list.c\<close> form in
  memory. Insertion next to an element, removal and moves are assignments to the two functions; the
  results are the corresponding changes of a list of elements.
\<close>

section \<open>Rings\<close>

text \<open>Successive elements of a ring point at each other, the last one and the first one too.\<close>

definition linked :: "('a \<Rightarrow> 'a) \<Rightarrow> ('a \<Rightarrow> 'a) \<Rightarrow> 'a list \<Rightarrow> bool" where
  "linked nx pv xs \<longleftrightarrow> successively (\<lambda>a b. nx a = b \<and> pv b = a) xs"

definition ring :: "('a \<Rightarrow> 'a) \<Rightarrow> ('a \<Rightarrow> 'a) \<Rightarrow> 'a list \<Rightarrow> bool" where
  "ring nx pv xs \<longleftrightarrow> xs = [] \<or> linked nx pv (xs @ [hd xs])"

lemma ring_Nil [simp]: "ring nx pv []"
  by (simp add: ring_def)

lemma ring_Cons: "ring nx pv (x # zs) \<longleftrightarrow> linked nx pv (x # zs) \<and> nx (last (x # zs)) = x \<and> pv x = last (x # zs)"
  by (auto simp: ring_def linked_def successively_append_iff simp del: append.append_Cons simp flip: append.append_Cons)

lemma linked_Cons: "linked nx pv (x # y # zs) \<longleftrightarrow> nx x = y \<and> pv y = x \<and> linked nx pv (y # zs)"
  by (auto simp: linked_def)

lemma linked_single [simp]: "linked nx pv [x]"
  by (simp add: linked_def)

lemma ring_swap_iff: "ring nx pv (xs @ ys) \<longleftrightarrow> ring nx pv (ys @ xs)"
  by (cases "xs = [] \<or> ys = []") (auto simp: ring_def linked_def successively_append_iff hd_append)

lemma linked_update:
  assumes "linked nx pv xs" and "\<And>a. a \<in> set (butlast xs) \<Longrightarrow> nx' a = nx a" and "\<And>a. a \<in> set (tl xs) \<Longrightarrow> pv' a = pv a"
  shows "linked nx' pv' xs"
  using assms
proof (induction xs rule: induct_list012)
  case (3 x y zs)
  have "linked nx' pv' (y # zs)"
    by (rule 3) (use "3.prems" in \<open>auto simp: linked_Cons split: if_splits dest: list.set_sel(2)\<close>)
  then show ?case using "3.prems" by (auto simp: linked_Cons)
qed (simp_all add: linked_def)

lemma ring_cong:
  assumes "ring nx pv xs" and "\<And>a. a \<in> set xs \<Longrightarrow> nx' a = nx a" and "\<And>a. a \<in> set xs \<Longrightarrow> pv' a = pv a"
  shows "ring nx' pv' xs"
proof (cases xs)
  case (Cons x zs)
  have "linked nx' pv' (x # zs)"
  proof (rule linked_update)
    show "linked nx pv (x # zs)" using assms(1) by (simp add: ring_Cons Cons)
    show "nx' a = nx a" if "a \<in> set (butlast (x # zs))" for a
      using in_set_butlastD [OF that] by (simp add: assms(2) Cons)
    show "pv' a = pv a" if "a \<in> set (tl (x # zs))" for a
      using that by (simp add: assms(3) Cons)
  qed
  moreover have "last (x # zs) \<in> set xs" by (simp only: Cons) (rule last_in_set, simp)
  ultimately show ?thesis using assms Cons by (auto simp: ring_Cons)
qed simp

lemma last_notin_butlast: "distinct xs \<Longrightarrow> xs \<noteq> [] \<Longrightarrow> last xs \<notin> set (butlast xs)"
  by (induction xs) auto

text \<open>Inserting before an element and taking an element out, with the assignments that the code makes.\<close>

lemma ring_insert:
  assumes "ring nx pv (d # zs)" and "distinct (x # d # zs)"
    and "nx' x = d" and "nx' (pv d) = x" and "\<And>a. a \<in> set (d # zs) \<Longrightarrow> a \<noteq> pv d \<Longrightarrow> nx' a = nx a"
    and "pv' x = pv d" and "pv' d = x" and "\<And>a. a \<in> set zs \<Longrightarrow> pv' a = pv a"
  shows "ring nx' pv' (x # d # zs)"
proof -
  have p: "pv d = last (d # zs)" using assms(1) by (simp add: ring_Cons)
  have "last (d # zs) \<notin> set (butlast (d # zs))"
    using assms(2) by (intro last_notin_butlast) auto
  then have l: "a \<noteq> pv d" if "a \<in> set (butlast (d # zs))" for a
    using that p by metis
  have "linked nx' pv' (d # zs)"
  proof (rule linked_update)
    show "linked nx pv (d # zs)" using assms(1) by (simp add: ring_Cons)
    show "nx' a = nx a" if "a \<in> set (butlast (d # zs))" for a
      using in_set_butlastD [OF that] l [OF that] by (rule assms(5))
    show "pv' a = pv a" if "a \<in> set (tl (d # zs))" for a
      using that by (simp add: assms(8))
  qed
  then show ?thesis using assms(3,4,6,7) p by (auto simp: ring_Cons linked_Cons)
qed

lemma ring_remove:
  assumes "ring nx pv (x # zs)" and "distinct (x # zs)" and "zs \<noteq> []"
    and "nx' (pv x) = nx x" and "\<And>a. a \<in> set zs \<Longrightarrow> a \<noteq> pv x \<Longrightarrow> nx' a = nx a"
    and "pv' (nx x) = pv x" and "\<And>a. a \<in> set zs \<Longrightarrow> a \<noteq> nx x \<Longrightarrow> pv' a = pv a"
  shows "ring nx' pv' zs"
proof -
  obtain y ys where zs: "zs = y # ys" using assms(3) by (cases zs) auto
  have p: "pv x = last zs" and n: "nx x = y" using assms(1) by (auto simp: ring_Cons linked_Cons zs)
  have l: "last zs \<notin> set (butlast zs)"
    using assms(2,3) by (intro last_notin_butlast) auto
  have "linked nx' pv' zs"
  proof (rule linked_update [of nx pv])
    show "linked nx pv zs" using assms(1) by (simp add: ring_Cons linked_Cons zs)
    show "nx' a = nx a" if "a \<in> set (butlast zs)" for a
      using that l p by (intro assms(5)) (auto dest: in_set_butlastD)
    show "pv' a = pv a" if "a \<in> set (tl zs)" for a
      using that assms(2) n by (intro assms(7)) (auto simp: zs)
  qed
  then show ?thesis using assms(4,6) p n by (auto simp: ring_Cons zs)
qed

section \<open>Insertion and moves on lists\<close>

fun ins_at :: "bool \<Rightarrow> 'a \<Rightarrow> 'a \<Rightarrow> 'a list \<Rightarrow> 'a list" where
  "ins_at b d x [] = [x]"
| "ins_at b d x (y # ys) = (if y = d then if b then x # y # ys else y # x # ys else y # ins_at b d x ys)"

lemma ins_at_split: "d \<notin> set ps \<Longrightarrow> ins_at b d x (ps @ d # qs) = (if b then ps @ x # d # qs else ps @ d # x # qs)"
  by (induction ps) auto

lemma set_ins_at [simp]: "set (ins_at b d x xs) = insert x (set xs)"
  by (induction xs) auto

lemma distinct_ins_at [simp]: "x \<notin> set xs \<Longrightarrow> distinct xs \<Longrightarrow> distinct (ins_at b d x xs)"
  by (induction xs) auto

lemma ring_in: "ring nx pv xs \<Longrightarrow> x \<in> set xs \<Longrightarrow> nx x \<in> set xs \<and> pv x \<in> set xs"
proof -
  assume r: "ring nx pv xs" and "x \<in> set xs"
  then obtain ps qs where xs: "xs = ps @ x # qs" by (meson split_list)
  then have "ring nx pv (x # (qs @ ps))" using r ring_swap_iff [of nx pv ps "x # qs"] by simp
  then have "nx x \<in> set (x # qs @ ps)" "pv x \<in> set (x # qs @ ps)"
    by (cases "qs @ ps"; auto simp: ring_Cons linked_Cons)+
  then show ?thesis by (auto simp: xs)
qed

text \<open>Insertion next to \<open>d\<close> in a ring, before or after it.\<close>

lemma ring_ins_at:
  assumes "ring nx pv xs" and "distinct (x # xs)" and "d \<in> set xs"
    and "p = (if b then pv d else d)" and "n = (if b then d else nx d)"
    and "nx' x = n" and "nx' p = x" and "\<And>a. a \<in> set xs \<Longrightarrow> a \<noteq> p \<Longrightarrow> nx' a = nx a"
    and "pv' x = p" and "pv' n = x" and "\<And>a. a \<in> set xs \<Longrightarrow> a \<noteq> n \<Longrightarrow> pv' a = pv a"
  shows "ring nx' pv' (ins_at b d x xs)"
proof -
  obtain ps qs where xs: "xs = ps @ d # qs" using assms(3) by (meson split_list)
  have ia: "ins_at b d x xs = (if b then ps @ x # d # qs else ps @ d # x # qs)"
    unfolding xs using assms(2) by (intro ins_at_split) (auto simp: xs)
  have r: "ring nx pv (d # (qs @ ps))" using assms(1) ring_swap_iff [of nx pv ps "d # qs"] by (simp add: xs)
  show ?thesis
  proof (cases b)
    case True
    have "ring nx' pv' (x # d # (qs @ ps))"
      by (rule ring_insert [OF r]) (use assms True xs in auto)
    then show ?thesis using ring_swap_iff [of nx' pv' ps "x # d # qs"] True ia by simp
  next
    case False
    define zs where "zs = qs @ ps @ [d]"
    have rz: "ring nx pv zs" using r ring_swap_iff [of nx pv "[d]" "qs @ ps"] by (simp add: zs_def)
    obtain y ys where zs: "zs = y # ys" by (cases zs) (auto simp: zs_def)
    have "last zs = d" by (simp add: zs_def)
    then have pv: "pv y = d" and nx: "nx d = y" using rz by (auto simp: zs ring_Cons)
    have "set zs = set xs" "distinct (x # zs)" using assms(2) by (auto simp: zs_def xs)
    then have "ring nx' pv' (x # y # ys)"
      using rz unfolding zs by (intro ring_insert [of nx pv]) (use assms False pv nx zs in auto)
    then have "ring nx' pv' ((x # qs) @ (ps @ [d]))" using zs by (simp add: zs_def)
    then show ?thesis using ring_swap_iff [of nx' pv' "ps @ [d]" "x # qs"] False ia by simp
  qed
qed


text \<open>Moving an element next to \<open>d\<close> within a list.\<close>

definition mv_at :: "bool \<Rightarrow> 'a \<Rightarrow> 'a \<Rightarrow> 'a list \<Rightarrow> 'a list" where
  "mv_at b d x xs = (if d = x then xs else ins_at b d x (remove1 x xs))"

lemma ring_ConsD:
  assumes "ring nx pv (x # zs)"
  shows "nx x = hd (zs @ [x])" and "pv x = last (x # zs)" and "pv (nx x) = x" and "nx (pv x) = x"
  using assms by (cases zs; auto simp: ring_Cons linked_Cons)+

lemma ring_neighbours:
  assumes "ring nx pv (ps @ x # qs)"
  shows "nx x = hd (qs @ ps @ [x])" and "pv x = last (x # qs @ ps)"
proof -
  have "ring nx pv (x # (qs @ ps))" using assms ring_swap_iff [of nx pv ps "x # qs"] by simp
  then show "nx x = hd (qs @ ps @ [x])" "pv x = last (x # qs @ ps)"
    using ring_ConsD [of nx pv x "qs @ ps"] by simp_all
qed

lemma ring_inverse:
  assumes "ring nx pv xs" and "x \<in> set xs"
  shows "pv (nx x) = x" and "nx (pv x) = x"
proof -
  obtain ps qs where xs: "xs = ps @ x # qs" using assms(2) by (meson split_list)
  have r: "ring nx pv (x # (qs @ ps))" using assms(1) ring_swap_iff [of nx pv ps "x # qs"] by (simp add: xs)
  show "pv (nx x) = x" "nx (pv x) = x" using ring_ConsD(3,4) [OF r] by auto
qed

text \<open>The cases that \<open>list_move\<close> handles without relinking: the element is next to \<open>d\<close> already, or the
  list only has to start at another element.\<close>

lemma mv_at_near:
  assumes "ring nx pv xs" and "distinct xs" and "x \<in> set xs" and "d \<in> set xs" and "d \<noteq> x"
  shows "pv d = x \<Longrightarrow> mv_at True d x xs = (if hd xs = d then x # butlast xs else xs)"
    and "pv d = x \<Longrightarrow> hd xs = d \<Longrightarrow> last xs = x"
    and "nx d = x \<Longrightarrow> mv_at False d x xs = (if hd xs = x then tl xs @ [x] else xs)"
proof -
  obtain ps qs where xs: "xs = ps @ x # qs" using assms(3) by (meson split_list)
  have x: "x \<notin> set ps" "x \<notin> set qs" using assms(2) by (auto simp: xs)
  have r1: "remove1 x xs = ps @ qs" using x by (simp add: xs remove1_append)
  note N = ring_neighbours [OF assms(1) [unfolded xs]]
  { assume "pv d = x"
    then have d: "d = hd (qs @ ps @ [x])" using ring_inverse(2) [OF assms(1,4)] N(1) by simp
    show "mv_at True d x xs = (if hd xs = d then x # butlast xs else xs)"
    proof (cases qs)
      case Nil
      then obtain ps' where "ps = d # ps'" using d assms(5) by (cases ps) auto
      then show ?thesis using Nil assms(5) x by (simp add: mv_at_def xs remove1_append butlast_append)
    next
      case (Cons y qs')
      then have q: "qs = d # qs'" using d by simp
      moreover from this have "d \<notin> set ps" "hd xs \<noteq> d" using assms(2,5) by (auto simp: xs hd_append)
      ultimately show ?thesis using assms(5) x by (simp add: mv_at_def xs remove1_append ins_at_split)
    qed
    show "last xs = x" if "hd xs = d"
    proof (cases qs)
      case (Cons y qs')
      then have "qs = d # qs'" using d by simp
      then show ?thesis using that assms(2,5) by (cases ps) (auto simp: xs)
    qed (simp add: xs)
  next
    assume "nx d = x"
    then have d: "d = last (x # qs @ ps)" using ring_inverse(1) [OF assms(1,4)] N(2) by simp
    show "mv_at False d x xs = (if hd xs = x then tl xs @ [x] else xs)"
    proof (cases "ps = []")
      case True
      then obtain qs' where "qs = qs' @ [d]" using d assms(5) by (cases qs rule: rev_cases) auto
      then show ?thesis using True assms(2,5) ins_at_split [of d qs' False x "[]"] by (auto simp: mv_at_def xs)
    next
      case False
      then obtain ps' where p: "ps = ps' @ [d]" using d by (cases ps rule: rev_cases) auto
      then have "hd xs \<noteq> x" "d \<notin> set ps'" using x False assms(2) by (auto simp: xs hd_append)
      then show ?thesis using assms(5) p x ins_at_split [of d ps' False x qs] by (simp add: mv_at_def xs remove1_append)
    qed
  }
qed

end
