(* ===== verification/Prelude.thy ===== *)
theory Prelude
  imports Main "HOL-Library.Word"
begin

text \<open>
  Shared material of the development: machine integer types, the byte-addressed memory that
  stands for mapped (persistent and volatile) memory, little-endian loads and stores, the C
  library's \<open>memcpy\<close> and \<open>memset\<close>, the alignment macros of \<^verbatim>\<open>common/util.h\<close>, and the lemmas
  about them that every component uses. A memory is a total function from addresses to bytes;
  an address is a natural number, and sizes that the code keeps in \<open>uint64_t\<close> fields stay
  64-bit words until they are used as addresses.
\<close>

unbundle bit_operations_syntax

section \<open>Types\<close>

type_synonym byte = "8 word"
type_synonym u16 = "16 word"
type_synonym u32 = "32 word"
type_synonym u64 = "64 word"
type_synonym addr = nat
type_synonym mem = "nat \<Rightarrow> byte"

text \<open>The \<open>errno\<close> values that the modelled code sets.\<close>

datatype errno = EINVAL | EIO | ENOMEM | EAGAIN | EEXIST | EROFS | ENOSPC | ENOTSUP

named_theorems mem_simps "loads after stores, at the same or at disjoint addresses"
named_theorems word_conv "moving words to natural numbers"

section \<open>Bounds of words\<close>

lemma unat_lt_byte: "unat (b :: byte) < 256"
  using unsigned_less [of b, where 'a = nat] by simp

lemma unat_lt_u16: "unat (h :: u16) < 65536"
  using unsigned_less [of h, where 'a = nat] by simp

lemma unat_lt_u32: "unat (v :: u32) < 4294967296"
  using unsigned_less [of v, where 'a = nat] by simp

lemma unat_lt_u64: "unat (w :: u64) < 18446744073709551616"
  using unsigned_less [of w, where 'a = nat] by simp

lemmas unat_bounds = unat_lt_byte unat_lt_u16 unat_lt_u32 unat_lt_u64

lemma unat_plus_u64: "unat a + unat b < 2 ^ 64 \<Longrightarrow> unat (a + b :: u64) = unat a + unat b"
  by (subst unat_add_lem [THEN iffD1]) simp_all

lemma unat_of_nat_u64: "n < 2 ^ 64 \<Longrightarrow> unat (of_nat n :: u64) = n"
  by (simp add: unat_of_nat)

section \<open>Little-endian numbers as byte lists\<close>

fun le_nat :: "byte list \<Rightarrow> nat" where
  "le_nat [] = 0"
| "le_nat (b # bs) = unat b + 256 * le_nat bs"

fun nat_bytes :: "nat \<Rightarrow> nat \<Rightarrow> byte list" where
  "nat_bytes 0 n = []"
| "nat_bytes (Suc k) n = of_nat n # nat_bytes k (n div 256)"

lemma length_nat_bytes [simp]: "length (nat_bytes k n) = k"
  by (induction k n rule: nat_bytes.induct) auto

lemma le_nat_bytes: "le_nat (nat_bytes k n) = n mod 256 ^ k"
proof (induction k n rule: nat_bytes.induct)
  case (1 n)
  then show ?case by simp
next
  case (2 k n)
  have "n mod 256 ^ Suc k = 256 * (n div 256 mod 256 ^ k) + n mod 256"
    by (simp add: mod_mult2_eq)
  then show ?case
    using "2.IH" by (simp add: unat_of_nat)
qed

lemma le_nat_bound: "le_nat bs < 256 ^ length bs"
proof (induction bs)
  case Nil
  then show ?case by simp
next
  case (Cons b bs)
  note unat_lt_byte [of b]
  with Cons show ?case by simp
qed

lemma nat_bytes_le_nat: "nat_bytes (length bs) (le_nat bs) = bs"
proof (induction bs)
  case Nil
  then show ?case by simp
next
  case (Cons b bs)
  note b = unat_lt_byte [of b]
  have "unat (of_nat (le_nat (b # bs)) :: byte) = le_nat (b # bs) mod 256"
    by (simp only: unat_of_nat) simp
  then have "of_nat (le_nat (b # bs)) = b"
    using b by (simp only: word_unat_eq_iff) simp
  moreover have "le_nat (b # bs) div 256 = le_nat bs"
    using b by simp
  ultimately show ?case
    using Cons by simp
qed

lemma nth_nat_bytes: "i < k \<Longrightarrow> nat_bytes k n ! i = of_nat (n div 256 ^ i)"
proof (induction k n arbitrary: i rule: nat_bytes.induct)
  case (1 n)
  then show ?case by simp
next
  case (2 k n)
  then show ?case
    by (cases i) (simp_all add: div_mult2_eq)
qed

section \<open>Memory: byte ranges\<close>

definition bytes_at :: "mem \<Rightarrow> addr \<Rightarrow> nat \<Rightarrow> byte list" where
  "bytes_at m a n = map (\<lambda>i. m (a + i)) [0..<n]"

definition store :: "mem \<Rightarrow> addr \<Rightarrow> byte list \<Rightarrow> mem" where
  "store m a bs = (\<lambda>x. if a \<le> x \<and> x < a + length bs then bs ! (x - a) else m x)"

text \<open>\<open>memcpy(dest, src, n)\<close> and \<open>memset(dest, c, n)\<close>; the source is read before anything is
  written, which is what \<open>memcpy\<close> promises for the ranges it is defined on.\<close>

definition mem_cpy :: "mem \<Rightarrow> addr \<Rightarrow> addr \<Rightarrow> nat \<Rightarrow> mem" where
  "mem_cpy m dest src n = store m dest (bytes_at m src n)"

definition mem_set :: "mem \<Rightarrow> addr \<Rightarrow> byte \<Rightarrow> nat \<Rightarrow> mem" where
  "mem_set m dest c n = store m dest (replicate n c)"

lemma length_bytes_at [simp]: "length (bytes_at m a n) = n"
  by (simp add: bytes_at_def)

lemma nth_bytes_at [simp]: "i < n \<Longrightarrow> bytes_at m a n ! i = m (a + i)"
  by (simp add: bytes_at_def)

lemma bytes_at_0 [simp]: "bytes_at m a 0 = []"
  by (simp add: bytes_at_def)

lemma bytes_at_Suc: "bytes_at m a (Suc n) = m a # bytes_at m (Suc a) n"
  by (rule nth_equalityI) (auto simp: nth_Cons split: nat.splits)

lemma bytes_at_eqI: "(\<And>x. a \<le> x \<Longrightarrow> x < a + n \<Longrightarrow> m x = m' x) \<Longrightarrow> bytes_at m a n = bytes_at m' a n"
  by (simp add: bytes_at_def)

lemma bytes_at_append: "bytes_at m a (i + j) = bytes_at m a i @ bytes_at m (a + i) j"
  by (rule nth_equalityI) (auto simp: nth_append)

lemma bytes_at_4: "bytes_at m a (4 + n) = m a # m (a + 1) # m (a + 2) # m (a + 3) # bytes_at m (a + 4) n"
proof -
  have "bytes_at m a 4 = [m a, m (a + 1), m (a + 2), m (a + 3)]"
    by (simp add: bytes_at_def upt_rec numeral_eq_Suc)
  then show ?thesis by (simp add: bytes_at_append)
qed

lemma take_bytes_at: "take k (bytes_at m a n) = bytes_at m a (min k n)"
  by (rule nth_equalityI) auto

lemma drop_bytes_at: "drop k (bytes_at m a n) = bytes_at m (a + k) (n - k)"
  by (rule nth_equalityI) (auto simp: ac_simps)

lemma store_in: "a \<le> x \<Longrightarrow> x < a + length bs \<Longrightarrow> store m a bs x = bs ! (x - a)"
  by (simp add: store_def)

lemma store_out: "x < a \<or> a + length bs \<le> x \<Longrightarrow> store m a bs x = m x"
  by (auto simp: store_def)

lemma store_Nil [simp]: "store m a [] = m"
  by (rule ext) (auto simp: store_def)

lemma bytes_at_store_same [mem_simps]: "n = length bs \<Longrightarrow> bytes_at (store m a bs) a n = bs"
  by (rule nth_equalityI) (auto simp: store_def)

lemma bytes_at_store_disjoint [mem_simps]:
  "a + n \<le> b \<or> b + length bs \<le> a \<Longrightarrow> bytes_at (store m b bs) a n = bytes_at m a n"
  by (rule bytes_at_eqI) (auto simp: store_def)

lemma bytes_at_store_inside:
  "b \<le> a \<Longrightarrow> a + n \<le> b + length bs \<Longrightarrow> bytes_at (store m b bs) a n = take n (drop (a - b) bs)"
  by (rule nth_equalityI) (auto simp: store_def)

lemma store_append: "store m a (bs @ cs) = store (store m a bs) (a + length bs) cs"
  by (rule ext) (auto simp: store_def nth_append)

lemma mem_cpy_out: "x < d \<or> d + n \<le> x \<Longrightarrow> mem_cpy m d s n x = m x"
  by (simp add: mem_cpy_def store_out)

lemma mem_set_out: "x < d \<or> d + n \<le> x \<Longrightarrow> mem_set m d c n x = m x"
  by (simp add: mem_set_def store_out)

lemma mem_set_in: "a \<le> x \<Longrightarrow> x < a + n \<Longrightarrow> mem_set m a v n x = v"
  by (simp add: mem_set_def store_def)

section \<open>Loads and stores of integers\<close>

definition rd16 :: "mem \<Rightarrow> addr \<Rightarrow> u16" where
  "rd16 m a = of_nat (le_nat (bytes_at m a 2))"

definition rd32 :: "mem \<Rightarrow> addr \<Rightarrow> u32" where
  "rd32 m a = of_nat (le_nat (bytes_at m a 4))"

definition rd64 :: "mem \<Rightarrow> addr \<Rightarrow> u64" where
  "rd64 m a = of_nat (le_nat (bytes_at m a 8))"

definition u16_bytes :: "u16 \<Rightarrow> byte list" where
  "u16_bytes w = nat_bytes 2 (unat w)"

definition u32_bytes :: "u32 \<Rightarrow> byte list" where
  "u32_bytes w = nat_bytes 4 (unat w)"

definition u64_bytes :: "u64 \<Rightarrow> byte list" where
  "u64_bytes w = nat_bytes 8 (unat w)"

definition wr32 :: "mem \<Rightarrow> addr \<Rightarrow> u32 \<Rightarrow> mem" where
  "wr32 m a v = store m a (u32_bytes v)"

definition wr64 :: "mem \<Rightarrow> addr \<Rightarrow> u64 \<Rightarrow> mem" where
  "wr64 m a v = store m a (u64_bytes v)"

lemma length_int_bytes [simp]:
  "length (u16_bytes h) = 2" "length (u32_bytes v) = 4" "length (u64_bytes w) = 8"
  by (simp_all add: u16_bytes_def u32_bytes_def u64_bytes_def)

lemma le_nat_int_bytes [simp]:
  "le_nat (u16_bytes h) = unat h" "le_nat (u32_bytes v) = unat v" "le_nat (u64_bytes w) = unat w"
proof -
  show "le_nat (u16_bytes h) = unat h"
    using unat_lt_u16 [of h] by (simp add: u16_bytes_def le_nat_bytes)
  show "le_nat (u32_bytes v) = unat v"
    using unat_lt_u32 [of v] by (simp add: u32_bytes_def le_nat_bytes)
  show "le_nat (u64_bytes w) = unat w"
    using unat_lt_u64 [of w] by (simp add: u64_bytes_def le_nat_bytes)
qed

lemma nat_bytes_0: "nat_bytes k 0 = replicate k 0"
  by (induction k) auto

lemma u64_bytes_0: "u64_bytes 0 = replicate 8 0"
  by (simp add: u64_bytes_def nat_bytes_0)

lemma rd64_conv: "rd64 m a = w \<longleftrightarrow> bytes_at m a 8 = u64_bytes w"
proof
  assume "rd64 m a = w"
  then have "unat w = le_nat (bytes_at m a 8)"
    using le_nat_bound [of "bytes_at m a 8"] by (auto simp: rd64_def unat_of_nat)
  then show "bytes_at m a 8 = u64_bytes w"
    using nat_bytes_le_nat [of "bytes_at m a 8"] by (simp add: u64_bytes_def)
next
  assume "bytes_at m a 8 = u64_bytes w"
  then show "rd64 m a = w" by (simp add: rd64_def)
qed

lemma rd32_conv: "rd32 m a = w \<longleftrightarrow> bytes_at m a 4 = u32_bytes w"
proof
  assume "rd32 m a = w"
  then have "unat w = le_nat (bytes_at m a 4)"
    using le_nat_bound [of "bytes_at m a 4"] by (auto simp: rd32_def unat_of_nat)
  then show "bytes_at m a 4 = u32_bytes w"
    using nat_bytes_le_nat [of "bytes_at m a 4"] by (simp add: u32_bytes_def)
next
  assume "bytes_at m a 4 = u32_bytes w"
  then show "rd32 m a = w" by (simp add: rd32_def)
qed

lemma bytes_at_const: "bytes_at (\<lambda>_. b) a n = replicate n b"
  by (rule nth_equalityI) auto

lemma rd64_const_0 [simp]: "rd64 (\<lambda>_. 0) a = 0"
  by (simp add: rd64_conv bytes_at_const u64_bytes_0 del: replicate.simps)

lemma rd64_store_inside:
  assumes "a \<le> p" and "p + 8 \<le> a + length bs" and "take 8 (drop (p - a) bs) = u64_bytes w"
  shows "rd64 (store m a bs) p = w"
  using assms by (simp add: rd64_conv bytes_at_store_inside)

lemma rd64_wr64_same [mem_simps, simp]: "rd64 (wr64 m a v) a = v"
  by (simp add: rd64_conv wr64_def mem_simps)

lemma rd32_wr32_same [mem_simps, simp]: "rd32 (wr32 m a v) a = v"
  by (simp add: rd32_conv wr32_def mem_simps)

lemma rd64_store_disjoint [mem_simps]:
  "a + 8 \<le> b \<or> b + length bs \<le> a \<Longrightarrow> rd64 (store m b bs) a = rd64 m a"
  by (simp add: rd64_def mem_simps)

lemma rd32_store_disjoint [mem_simps]:
  "a + 4 \<le> b \<or> b + length bs \<le> a \<Longrightarrow> rd32 (store m b bs) a = rd32 m a"
  by (simp add: rd32_def mem_simps)

lemma rd64_wr64_disjoint [mem_simps]:
  "a + 8 \<le> b \<or> b + 8 \<le> a \<Longrightarrow> rd64 (wr64 m b v) a = rd64 m a"
  by (simp add: wr64_def mem_simps)

lemma rd32_wr32_disjoint [mem_simps]:
  "a + 4 \<le> b \<or> b + 4 \<le> a \<Longrightarrow> rd32 (wr32 m b v) a = rd32 m a"
  by (simp add: wr32_def mem_simps)

lemma rd64_cong: "(\<And>x. a \<le> x \<Longrightarrow> x < a + 8 \<Longrightarrow> m x = m' x) \<Longrightarrow> rd64 m a = rd64 m' a"
  unfolding rd64_def by (metis bytes_at_eqI)

lemma rd16_cong: "(\<And>x. a \<le> x \<Longrightarrow> x < a + 2 \<Longrightarrow> m x = m' x) \<Longrightarrow> rd16 m a = rd16 m' a"
  unfolding rd16_def by (metis bytes_at_eqI)

lemma rd32_cong: "(\<And>x. a \<le> x \<Longrightarrow> x < a + 4 \<Longrightarrow> m x = m' x) \<Longrightarrow> rd32 m a = rd32 m' a"
  unfolding rd32_def by (metis bytes_at_eqI)

lemma rd64_mem_set_0: "a \<le> p \<Longrightarrow> p + 8 \<le> a + n \<Longrightarrow> rd64 (mem_set m a 0 n) p = 0"
  by (subst rd64_cong [where m' = "\<lambda>_. 0"]) (auto simp: mem_set_in)

lemma wr64_out: "x < a \<or> a + 8 \<le> x \<Longrightarrow> wr64 m a v x = m x"
  by (simp add: wr64_def store_out)

lemma nth_u64_bytes: "i < 8 \<Longrightarrow> u64_bytes w ! i = ucast (drop_bit (8 * i) w)"
proof -
  assume "i < 8"
  then have "u64_bytes w ! i = of_nat (unat w div 2 ^ (8 * i))"
    by (simp add: u64_bytes_def nth_nat_bytes power_mult)
  also have "unat w div 2 ^ (8 * i) = unat (drop_bit (8 * i) w)"
    by (subst unat_drop_bit_eq) (rule drop_bit_eq_div [symmetric])
  finally show ?thesis by simp
qed

section \<open>Alignment macros\<close>

text \<open>\<open>ALIGN_UP\<close>, \<open>ALIGN_DOWN\<close> and the cache line macros on 64-bit values, with the
  wrap-around of the C expressions.\<close>

definition CACHELINE_SIZE :: u64 where
  "CACHELINE_SIZE = 64"

definition ALIGN_UP :: "u64 \<Rightarrow> u64 \<Rightarrow> u64" where
  "ALIGN_UP sz al = (sz + al - 1) AND NOT (al - 1)"

definition ALIGN_DOWN :: "u64 \<Rightarrow> u64 \<Rightarrow> u64" where
  "ALIGN_DOWN sz al = sz AND NOT (al - 1)"

definition CACHELINE_ALIGN :: "u64 \<Rightarrow> u64" where
  "CACHELINE_ALIGN sz = ALIGN_UP sz CACHELINE_SIZE"

text \<open>\<open>roundup\<close> of the C library.\<close>

definition roundup :: "'a::len word \<Rightarrow> 'a word \<Rightarrow> 'a word" where
  "roundup x y = ((x + (y - 1)) div y) * y"

text \<open>The size of \<open>struct pool_hdr\<close>, which every pool begins with.\<close>

definition SIZEOF_POOL_HDR :: nat where "SIZEOF_POOL_HDR = 4096"

definition u64_min :: "u64 \<Rightarrow> u64 \<Rightarrow> u64" where
  "u64_min a b = (if a < b then a else b)"

lemma unat_u32_u64 [simp]: "unat (ucast (x :: u32) :: u64) = unat x"
  using unat_lt_u32 [of x] by (simp add: unsigned_ucast_eq take_bit_nat_eq_self)

lemma unat_u64_u32: "unat (x :: u64) < 2 ^ 32 \<Longrightarrow> unat (ucast x :: u32) = unat x"
  by (simp add: unsigned_ucast_eq take_bit_nat_eq_self)

lemma word_and_not_mask: "(x :: 'a::len word) AND NOT (mask n) = push_bit n (drop_bit n x)"
  by (rule bit_word_eqI) (auto simp: bit_simps)

lemma unat_and_m64: "unat ((x :: u64) AND - 64) = 64 * (unat x div 64)"
proof -
  have "x AND - 64 = push_bit 6 (drop_bit 6 x)"
    using word_and_not_mask [of x 6] by (simp add: mask_eq_exp_minus_1)
  also have "\<dots> = drop_bit 6 x * 2 ^ 6"
    by (rule push_bit_eq_mult)
  finally have "unat (x AND - 64) = unat (drop_bit 6 x) * 64 mod 2 ^ 64"
    by (simp add: unat_word_ariths)
  also have "unat (drop_bit 6 x) = unat x div 2 ^ 6"
    by (subst unat_drop_bit_eq) (rule drop_bit_eq_div)
  also have "unat x div 2 ^ 6 * 64 mod 2 ^ 64 = 64 * (unat x div 64) mod 2 ^ 64"
    by (simp add: mult.commute)
  also have "\<dots> = 64 * (unat x div 64)"
    using unat_lt_u64 [of x] by simp
  finally show ?thesis .
qed

lemma unat_ALIGN_DOWN_64: "unat (ALIGN_DOWN x 64) = 64 * (unat x div 64)"
  by (simp add: ALIGN_DOWN_def unat_and_m64)

lemma unat_CACHELINE_ALIGN:
  "unat x + 63 < 2 ^ 64 \<Longrightarrow> unat (CACHELINE_ALIGN x) = 64 * ((unat x + 63) div 64)"
proof -
  assume "unat x + 63 < 2 ^ 64"
  then have "unat (x + 63) = unat x + 63"
    by (simp add: unat_word_ariths)
  then show ?thesis
    by (simp add: CACHELINE_ALIGN_def ALIGN_UP_def CACHELINE_SIZE_def unat_and_m64 add.commute)
qed

lemma dvd_CACHELINE_ALIGN: "64 dvd unat (CACHELINE_ALIGN x)"
  by (simp add: CACHELINE_ALIGN_def ALIGN_UP_def CACHELINE_SIZE_def unat_and_m64)

lemma unat_u64_min: "unat (u64_min a b) = min (unat a) (unat b)"
  by (auto simp: u64_min_def word_less_nat_alt min_def)

lemma word_split_and: "(w :: 'a::len word) = (w AND v) + (w AND NOT v)"
proof -
  have "(w AND v) AND (w AND NOT v) = 0" by (rule bit_word_eqI) (simp add: bit_simps)
  then have "(w AND v) + (w AND NOT v) = (w AND v) OR (w AND NOT v)" by (rule disjunctive_add_eq_or)
  moreover have "(w AND v) OR (w AND NOT v) = w" by (rule bit_word_eqI) (auto simp: bit_simps)
  ultimately show ?thesis by simp
qed

text \<open>Rounding up, also to a number that is not a power of two, stays in the range of the alignment.\<close>

lemma ALIGN_UP_range:
  assumes "al \<noteq> 0" and "unat x + unat al \<le> 2 ^ 64"
  shows "unat x \<le> unat (ALIGN_UP x al)" and "unat (ALIGN_UP x al) < unat x + unat al"
proof -
  let ?v = "al - 1" and ?w = "x + (al - 1)"
  have v: "unat ?v = unat al - 1" "0 < unat al" using assms(1) by (simp_all add: unat_minus_one unat_gt_0)
  then have w: "unat ?w = unat x + (unat al - 1)" using assms(2) by (simp add: unat_word_ariths)
  have e: "ALIGN_UP x al = ?w AND NOT ?v" by (simp add: ALIGN_UP_def algebra_simps)
  have "unat ?w = unat (?w AND ?v) + unat (?w AND NOT ?v)"
    by (metis word_split_and word_and_le2 unat_plus_simple word_split_and no_olen_add_nat word_le_nat_alt le_add2 add.commute word_and_le1)
  moreover have "unat (?w AND ?v) \<le> unat ?v" using word_and_le1 [of ?w ?v] by (simp add: word_le_nat_alt)
  ultimately show "unat x \<le> unat (ALIGN_UP x al)" "unat (ALIGN_UP x al) < unat x + unat al"
    using v w unfolding e by linarith+
qed

lemma ALIGN_UP_dvd:
  assumes "unat al = 2 ^ k"
  shows "unat al dvd unat (ALIGN_UP x al)"
proof -
  have "al = of_nat (unat al)" by simp
  then have "al = 2 ^ k" unfolding assms by simp
  then have e: "ALIGN_UP x al = (x + al - 1) AND NOT (mask k)" by (simp add: ALIGN_UP_def mask_eq_exp_minus_1)
  have "ALIGN_UP x al AND mask k = 0" unfolding e by (rule bit_word_eqI) (simp add: bit_simps)
  then show ?thesis unfolding assms and_mask_dvd_nat .
qed

end
