(* ===== verification/Checksum.thy ===== *)
theory Checksum
  imports Prelude
begin

text \<open>
  The Fletcher64 checksum of \<^verbatim>\<open>common/util.c\<close>: \<open>util_checksum\<close>, which treats the 8 bytes that
  hold the checksum itself as zero, and \<open>util_checksum_seq\<close>, which continues the checksum of an
  earlier buffer. \<open>None\<close> is the \<open>abort()\<close> on a length that is no multiple of four.
\<close>

section \<open>Definitions\<close>

text \<open>The body of the \<open>while\<close> loop of \<open>util_checksum\<close>: \<open>p32\<close> runs up to \<open>p32end\<close>; at the
  checksum's own location, and from \<open>skip\<close> on, two 32-bit words count as zero.\<close>

function checksum_loop :: "mem \<Rightarrow> addr \<Rightarrow> addr \<Rightarrow> addr \<Rightarrow> addr \<Rightarrow> u32 \<Rightarrow> u32 \<Rightarrow> u32 \<times> u32" where
  "checksum_loop m p32 p32end csump skip lo32 hi32 =
     (if p32 < p32end then
        if p32 = csump \<or> skip \<le> p32
        then checksum_loop m (p32 + 8) p32end csump skip lo32 (hi32 + lo32 + lo32)
        else let lo' = lo32 + rd32 m p32
             in checksum_loop m (p32 + 4) p32end csump skip lo' (hi32 + lo')
      else (lo32, hi32))"
  by pat_completeness auto
termination
  by (relation "measure (\<lambda>(m, p, e, c, s, l, h). e - p)") auto

declare checksum_loop.simps [simp del]

definition csum_of :: "u32 \<times> u32 \<Rightarrow> u64" where
  "csum_of lh = (push_bit 32 (ucast (snd lh)) OR ucast (fst lh))"

definition util_checksum :: "mem \<Rightarrow> addr \<Rightarrow> nat \<Rightarrow> addr \<Rightarrow> bool \<Rightarrow> nat \<Rightarrow> (bool \<times> mem) option" where
  "util_checksum m a len csump ins skip_off =
     (if len mod 4 \<noteq> 0 then None
      else let skip = (if skip_off \<noteq> 0 then a + skip_off else a + len);
               csum = csum_of (checksum_loop m a (a + len) csump skip 0 0)
           in if ins then Some (True, wr64 m csump csum)
              else Some (rd64 m csump = csum, m))"

fun checksum_seq_loop :: "byte list \<Rightarrow> u32 \<Rightarrow> u32 \<Rightarrow> u32 \<times> u32" where
  "checksum_seq_loop (b0 # b1 # b2 # b3 # bs) lo32 hi32 =
     (let lo' = lo32 + of_nat (le_nat [b0, b1, b2, b3]) in checksum_seq_loop bs lo' (hi32 + lo'))"
| "checksum_seq_loop bs lo32 hi32 = (lo32, hi32)"

definition util_checksum_seq :: "byte list \<Rightarrow> u64 \<Rightarrow> u64 option" where
  "util_checksum_seq bs csum =
     (if length bs mod 4 \<noteq> 0 then None
      else Some (csum_of (checksum_seq_loop bs (ucast csum) (ucast (drop_bit 32 csum)))))"

section \<open>The two checksums agree\<close>

lemma csum_of_split: "ucast (csum_of (lo, hi)) = lo" "ucast (drop_bit 32 (csum_of (lo, hi))) = hi"
  by (rule bit_word_eqI, auto simp: csum_of_def bit_simps dest: bit_imp_le_length)+

lemma csum_of_inj: "csum_of x = csum_of y \<longleftrightarrow> x = y"
  by (metis csum_of_split prod.collapse)

lemma checksum_seq_loop_append:
  "length xs mod 4 = 0 \<Longrightarrow>
   checksum_seq_loop (xs @ ys) lo hi =
     (let (lo', hi') = checksum_seq_loop xs lo hi in checksum_seq_loop ys lo' hi')"
proof (induction xs lo hi rule: checksum_seq_loop.induct)
  case (1 b0 b1 b2 b3 bs lo hi)
  then show ?case by (simp add: Let_def)
qed (auto)

lemma util_checksum_seq_append:
  assumes "length xs mod 4 = 0" and "length ys mod 4 = 0"
  shows "util_checksum_seq (xs @ ys) c = Option.bind (util_checksum_seq xs c) (util_checksum_seq ys)"
proof -
  have "(length xs + length ys) mod 4 = 0"
    using assms by presburger
  then show ?thesis
    using assms
    by (auto simp: util_checksum_seq_def checksum_seq_loop_append csum_of_split split: prod.splits)
qed

text \<open>A range that neither meets the checksum field nor the skipped part is summed word by word.\<close>

lemma checksum_loop_plain:
  assumes "n mod 4 = 0" and "p + n \<le> e" and "p + n \<le> s" and "csump + 4 \<le> p \<or> p + n \<le> csump"
  shows "checksum_loop m p e csump s lo hi =
    (let (lo', hi') = checksum_seq_loop (bytes_at m p n) lo hi in checksum_loop m (p + n) e csump s lo' hi')"
  using assms
proof (induction n arbitrary: p lo hi rule: less_induct)
  case (less n)
  show ?case
  proof (cases "n = 0")
    case True
    then show ?thesis by simp
  next
    case False
    define k where "k = n - 4"
    from False less.prems(1) have n: "n = 4 + k" and k: "k mod 4 = 0"
      unfolding k_def by presburger+
    have b: "bytes_at m p n = m p # m (p + 1) # m (p + 2) # m (p + 3) # bytes_at m (p + 4) k"
      unfolding n by (rule bytes_at_4)
    have r: "rd32 m p = of_nat (le_nat [m p, m (p + 1), m (p + 2), m (p + 3)])"
      using bytes_at_4 [of m p 0] by (simp add: rd32_def del: le_nat.simps)
    have IH: "checksum_loop m (p + 4) e csump s lo' hi' =
        (let (lo'', hi'') = checksum_seq_loop (bytes_at m (p + 4) k) lo' hi'
         in checksum_loop m (p + 4 + k) e csump s lo'' hi'')" for lo' hi'
      by (rule less.IH) (use less.prems n k in auto)
    have loop: "checksum_loop m p e csump s lo hi =
        checksum_loop m (p + 4) e csump s (lo + rd32 m p) (hi + (lo + rd32 m p))"
      using less.prems n by (subst checksum_loop.simps) (auto simp: Let_def)
    have seq: "checksum_seq_loop (bytes_at m p n) lo hi =
        checksum_seq_loop (bytes_at m (p + 4) k) (lo + rd32 m p) (hi + (lo + rd32 m p))"
      by (simp only: b r checksum_seq_loop.simps Let_def)
    show ?thesis
      by (simp only: loop seq IH) (simp add: n add.assoc)
  qed
qed

lemma checksum_loop_end: "\<not> p < e \<Longrightarrow> checksum_loop m p e csump s lo hi = (lo, hi)"
  by (subst checksum_loop.simps) simp

lemma checksum_loop_field:
  assumes "csump < e"
  shows "checksum_loop m csump e csump s lo hi = checksum_loop m (csump + 8) e csump s lo (hi + lo + lo)"
  using assms by (subst checksum_loop.simps) simp

lemma checksum_seq_zeros: "checksum_seq_loop (replicate 8 0) lo hi = (lo, hi + lo + lo)"
  by (simp add: numeral_eq_Suc Let_def)

text \<open>
  The checksum of a range, with the field inside the range read as zero, is the sequential
  checksum of the same bytes with the field zeroed.
\<close>

lemma checksum_loop_eq_seq:
  assumes "k mod 4 = 0" and "n mod 4 = 0"
  shows "checksum_loop m a (a + k + 8 + n) (a + k) (a + k + 8 + n) lo hi =
    checksum_seq_loop (bytes_at m a k @ replicate 8 0 @ bytes_at m (a + k + 8) n) lo hi"
proof -
  have tail: "checksum_loop m (a + k + 8) (a + k + 8 + n) (a + k) (a + k + 8 + n) l h =
      checksum_seq_loop (bytes_at m (a + k + 8) n) l h" for l h
    using assms
    by (subst checksum_loop_plain [where n = n]) (auto simp: checksum_loop_end split: prod.splits)
  have mid: "checksum_loop m (a + k) (a + k + 8 + n) (a + k) (a + k + 8 + n) l h =
      checksum_seq_loop (replicate 8 0 @ bytes_at m (a + k + 8) n) l h" for l h
  proof -
    have "checksum_seq_loop (replicate 8 0 @ bytes_at m (a + k + 8) n) l h =
        checksum_seq_loop (bytes_at m (a + k + 8) n) l (h + l + l)"
      by (subst checksum_seq_loop_append) (simp_all only: checksum_seq_zeros length_replicate Let_def prod.case, simp)
    then show ?thesis
      by (simp add: checksum_loop_field tail del: replicate.simps)
  qed
  show ?thesis
    using assms
    by (subst checksum_loop_plain [where n = k])
      (auto simp: checksum_seq_loop_append mid simp del: replicate.simps split: prod.splits)
qed

text \<open>\<open>util_checksum\<close> on a range that contains its field: verification compares the field with
  the sequential checksum, insertion stores it.\<close>

definition field_zeroed :: "mem \<Rightarrow> addr \<Rightarrow> nat \<Rightarrow> nat \<Rightarrow> byte list" where
  "field_zeroed m a len k = bytes_at m a k @ replicate 8 0 @ bytes_at m (a + k + 8) (len - k - 8)"

lemma util_checksum_verify:
  assumes "len mod 4 = 0" and "k mod 4 = 0" and "k + 8 \<le> len"
  shows "util_checksum m a len (a + k) False 0 =
    Some (util_checksum_seq (field_zeroed m a len k) 0 = Some (rd64 m (a + k)), m)"
proof -
  define n where "n = len - k - 8"
  have len: "len = k + 8 + n" and "n mod 4 = 0"
    using assms unfolding n_def by presburger+
  then show ?thesis
    using assms checksum_loop_eq_seq [of k n m a 0 0]
    by (auto simp: util_checksum_def util_checksum_seq_def field_zeroed_def add.assoc
        simp del: replicate.simps)
qed

lemma util_checksum_insert:
  assumes "len mod 4 = 0" and "k mod 4 = 0" and "k + 8 \<le> len"
    and "util_checksum_seq (field_zeroed m a len k) 0 = Some c"
  shows "util_checksum m a len (a + k) True 0 = Some (True, wr64 m (a + k) c)"
proof -
  define n where "n = len - k - 8"
  have len: "len = k + 8 + n" and "n mod 4 = 0"
    using assms unfolding n_def by presburger+
  then show ?thesis
    using assms checksum_loop_eq_seq [of k n m a 0 0]
    by (auto simp: util_checksum_def util_checksum_seq_def field_zeroed_def add.assoc
        simp del: replicate.simps split: if_splits)
qed

lemma field_zeroed_cong:
  assumes "\<And>x. a \<le> x \<Longrightarrow> x < a + len \<Longrightarrow> \<not> (a + k \<le> x \<and> x < a + k + 8) \<Longrightarrow> m x = m' x"
    and "k + 8 \<le> len"
  shows "field_zeroed m a len k = field_zeroed m' a len k"
  using assms unfolding field_zeroed_def
  by (intro arg_cong2 [where f = append] refl bytes_at_eqI) auto

lemma length_field_zeroed: "k + 8 \<le> len \<Longrightarrow> length (field_zeroed m a len k) = len"
  by (simp add: field_zeroed_def)

lemma checksum_inserted:
  assumes "len mod 4 = 0" and "k mod 4 = 0" and "k + 8 \<le> len"
  obtains c where "util_checksum m a len (a + k) True 0 = Some (True, wr64 m (a + k) c)"
    and "util_checksum (wr64 m (a + k) c) a len (a + k) False 0 = Some (True, wr64 m (a + k) c)"
proof -
  obtain c where c: "util_checksum_seq (field_zeroed m a len k) 0 = Some c"
    using assms(1,3) by (simp add: util_checksum_seq_def length_field_zeroed)
  have "field_zeroed (wr64 m (a + k) c) a len k = field_zeroed m a len k"
    using assms(3) by (intro field_zeroed_cong) (auto simp: wr64_out)
  then show ?thesis
    using that [of c] c assms by (simp add: util_checksum_verify util_checksum_insert)
qed

text \<open>A checksum that \<open>util_checksum\<close> inserts is accepted by a later verification of the same
  range, and by one after any change outside the range, for every range whose length and field
  position are multiples of four.\<close>

lemma checksum_insert_verify:
  assumes "len mod 4 = 0" and "k mod 4 = 0" and "k + 8 \<le> len"
    and "util_checksum m a len (a + k) True 0 = Some (r, m')"
    and "\<And>x. a \<le> x \<Longrightarrow> x < a + len \<Longrightarrow> m'' x = m' x"
  shows "r \<and> util_checksum m'' a len (a + k) False 0 = Some (True, m'')"
proof -
  obtain c where "util_checksum m a len (a + k) True 0 = Some (True, wr64 m (a + k) c)"
    and v: "util_checksum (wr64 m (a + k) c) a len (a + k) False 0 = Some (True, wr64 m (a + k) c)"
    by (rule checksum_inserted [OF assms(1-3)])
  with assms(4) have r: r and m': "m' = wr64 m (a + k) c" by auto
  have "field_zeroed m'' a len k = field_zeroed m' a len k" "rd64 m'' (a + k) = rd64 m' (a + k)"
    using assms(3,5) by (auto intro!: field_zeroed_cong rd64_cong)
  with r v show ?thesis
    using assms(1-3) by (simp add: util_checksum_verify m')
qed

end
