(* ===== verification/Ulog.thy ===== *)
theory Ulog
  imports Checksum "HOL-Library.Monad_Syntax"
begin

text \<open>
  The unified log of \<^verbatim>\<open>libpmemobj/ulog.c\<close>: redo and undo logs of the transactional allocator.
  A log is a chain of \<open>struct ulog\<close> (64 bytes of metadata, then \<open>capacity\<close> bytes of entries);
  an entry is a value entry (set, and, or of a 64-bit word) or a checksummed buffer entry (set,
  copy). All of them live in one byte memory: a pointer is an address, \<open>base\<close> is
  \<open>p_ops->base\<close>, offsets are 64-bit words relative to it. Flushing and draining do not change
  the contents of memory and appear in the crash theorems, not in the operations.

  A loop that a corrupted log can keep from ending is a partial function into \<open>option\<close>;
  \<open>None\<close> is also the out-of-range read of the vector of next logs in \<open>ulog_store\<close>.
\<close>

section \<open>Layout and entry accessors\<close>

definition ULOG_OPERATION_SET :: u64 where "ULOG_OPERATION_SET = 0"
definition ULOG_OPERATION_AND :: u64 where "ULOG_OPERATION_AND = push_bit 61 1"
definition ULOG_OPERATION_OR :: u64 where "ULOG_OPERATION_OR = push_bit 61 2"
definition ULOG_OPERATION_BUF_SET :: u64 where "ULOG_OPERATION_BUF_SET = push_bit 61 5"
definition ULOG_OPERATION_BUF_CPY :: u64 where "ULOG_OPERATION_BUF_CPY = push_bit 61 6"
definition ULOG_OPERATION_MASK :: u64 where "ULOG_OPERATION_MASK = push_bit 61 7"

lemmas ulog_op_defs = ULOG_OPERATION_SET_def ULOG_OPERATION_AND_def ULOG_OPERATION_OR_def
  ULOG_OPERATION_BUF_SET_def ULOG_OPERATION_BUF_CPY_def ULOG_OPERATION_MASK_def

text \<open>Field addresses of \<open>struct ulog\<close>, \<open>struct ulog_entry_val\<close> and \<open>struct ulog_entry_buf\<close>.\<close>

abbreviation SIZEOF_STRUCT_ULOG :: nat where "SIZEOF_STRUCT_ULOG \<equiv> 64"

definition ulog_checksum_p :: "addr \<Rightarrow> addr" where "ulog_checksum_p u = u"
definition ulog_next_p :: "addr \<Rightarrow> addr" where "ulog_next_p u = u + 8"
definition ulog_capacity_p :: "addr \<Rightarrow> addr" where "ulog_capacity_p u = u + 16"
definition ulog_data :: "addr \<Rightarrow> addr" where "ulog_data u = u + 64"

lemmas ulog_field_defs = ulog_checksum_p_def ulog_next_p_def ulog_capacity_p_def ulog_data_def

definition ulog_by_offset :: "u64 \<Rightarrow> addr \<Rightarrow> addr option" where
  "ulog_by_offset off base =
     (if off = 0 then None else Some (base + unat (CACHELINE_ALIGN off)))"

definition ulog_next :: "mem \<Rightarrow> addr \<Rightarrow> addr \<Rightarrow> addr option" where
  "ulog_next m u base = ulog_by_offset (rd64 m (ulog_next_p u)) base"

definition ulog_entry_type :: "mem \<Rightarrow> addr \<Rightarrow> u64" where
  "ulog_entry_type m e = rd64 m e AND ULOG_OPERATION_MASK"

definition ulog_entry_offset :: "mem \<Rightarrow> addr \<Rightarrow> u64" where
  "ulog_entry_offset m e = rd64 m e AND NOT ULOG_OPERATION_MASK"

definition ulog_entry_size :: "mem \<Rightarrow> addr \<Rightarrow> u64" where
  "ulog_entry_size m e =
     (let t = ulog_entry_type m e in
      if t = ULOG_OPERATION_AND \<or> t = ULOG_OPERATION_OR \<or> t = ULOG_OPERATION_SET then 16
      else if t = ULOG_OPERATION_BUF_SET \<or> t = ULOG_OPERATION_BUF_CPY
      then CACHELINE_ALIGN (24 + rd64 m (e + 16))
      else 0)"

definition ulog_entry_valid :: "mem \<Rightarrow> addr \<Rightarrow> bool" where
  "ulog_entry_valid m e =
     (if rd64 m e = 0 then False
      else let t = ulog_entry_type m e in
        if t = ULOG_OPERATION_BUF_CPY \<or> t = ULOG_OPERATION_BUF_SET
        then (case util_checksum m e (unat (ulog_entry_size m e)) (e + 8) False 0 of
                None \<Rightarrow> False | Some (ok, _) \<Rightarrow> ok)
        else True)"

section \<open>Construction and traversal\<close>

text \<open>\<open>ulog_construct\<close>; the \<open>flush\<close> argument chooses between two ways of storing the same
  bytes. \<open>None\<close> is the null pointer of offset 0, which the code only asserts against.\<close>

definition ulog_construct :: "mem \<Rightarrow> u64 \<Rightarrow> u64 \<Rightarrow> addr \<Rightarrow> mem option" where
  "ulog_construct m off capacity base =
     do { u \<leftarrow> ulog_by_offset off base;
          let m = wr64 m (ulog_capacity_p u) capacity;
          let m = wr64 m (ulog_checksum_p u) 0;
          let m = wr64 m (ulog_next_p u) 0;
          let m = mem_set m (u + 24) 0 40;
          Some (mem_set m (ulog_data u) 0 (unat capacity)) }"

text \<open>\<open>ulog_foreach_entry\<close>: the outer loop over the chain and the inner loop over the entries
  of one log. The callback gets the memory and the entry's address and returns its result and the
  new memory; capacity, validity and entry size are read from the current memory each time.\<close>

type_synonym entry_cb = "mem \<Rightarrow> addr \<Rightarrow> int \<times> mem"

partial_function (option) foreach_loop ::
  "entry_cb \<Rightarrow> addr \<Rightarrow> mem \<Rightarrow> addr \<Rightarrow> u64 \<Rightarrow> (int \<times> mem) option" where
  "foreach_loop cb base m r off =
     (if off < rd64 m (ulog_capacity_p r) then
        let e = ulog_data r + unat off in
        if \<not> ulog_entry_valid m e then Some (0, m)
        else case cb m e of (ret, m') \<Rightarrow>
          if ret \<noteq> 0 then Some (ret, m')
          else foreach_loop cb base m' r (off + ulog_entry_size m' e)
      else case ulog_next m r base of
             None \<Rightarrow> Some (0, m)
           | Some r' \<Rightarrow> foreach_loop cb base m r' 0)"

definition ulog_foreach_entry :: "mem \<Rightarrow> addr \<Rightarrow> entry_cb \<Rightarrow> addr \<Rightarrow> (int \<times> mem) option" where
  "ulog_foreach_entry m ulog cb base = foreach_loop cb base m ulog 0"

partial_function (option) capacity_loop :: "mem \<Rightarrow> addr \<Rightarrow> addr \<Rightarrow> u64 \<Rightarrow> u64 option" where
  "capacity_loop m base ulog capacity =
     (case ulog_next m ulog base of
        None \<Rightarrow> Some capacity
      | Some u \<Rightarrow> capacity_loop m base u (capacity + rd64 m (ulog_capacity_p u)))"

definition ulog_capacity :: "mem \<Rightarrow> addr \<Rightarrow> u64 \<Rightarrow> addr \<Rightarrow> u64 option" where
  "ulog_capacity m ulog ulog_base_bytes base = capacity_loop m base ulog ulog_base_bytes"

text \<open>\<open>ulog_rebuild_next_vec\<close> appends to the vector it is given.\<close>

partial_function (option) rebuild_loop :: "mem \<Rightarrow> addr \<Rightarrow> addr \<Rightarrow> u64 list \<Rightarrow> u64 list option" where
  "rebuild_loop m base ulog nexts =
     (let n = rd64 m (ulog_next_p ulog);
          nexts' = (if n \<noteq> 0 then nexts @ [n] else nexts)
      in case ulog_next m ulog base of
           None \<Rightarrow> Some nexts'
         | Some u \<Rightarrow> rebuild_loop m base u nexts')"

definition ulog_rebuild_next_vec :: "mem \<Rightarrow> addr \<Rightarrow> u64 list \<Rightarrow> addr \<Rightarrow> u64 list option" where
  "ulog_rebuild_next_vec m ulog nexts base = rebuild_loop m base ulog nexts"

text \<open>\<open>ulog_reserve\<close>. \<open>extend\<close> is the callback that allocates another log and stores its
  offset in the \<open>next\<close> field it is pointed at; it returns its result code and the new memory.
  The result is the return code, the new capacity, the new vector and the new memory.\<close>

type_synonym extend_fn = "mem \<Rightarrow> addr \<Rightarrow> int \<times> mem"

fun reserve_scan :: "mem \<Rightarrow> addr \<Rightarrow> addr \<Rightarrow> u64 list \<Rightarrow> u64 \<Rightarrow> (addr \<times> u64) option" where
  "reserve_scan m base ulog [] capacity = Some (ulog, capacity)"
| "reserve_scan m base ulog (off # nexts) capacity =
     (case ulog_by_offset off base of
        None \<Rightarrow> None
      | Some u \<Rightarrow> reserve_scan m base u nexts (capacity + rd64 m (ulog_capacity_p u)))"

partial_function (option) reserve_loop ::
  "extend_fn \<Rightarrow> addr \<Rightarrow> u64 \<Rightarrow> mem \<Rightarrow> addr \<Rightarrow> u64 \<Rightarrow> u64 list \<Rightarrow> (int \<times> u64 \<times> u64 list \<times> mem) option" where
  "reserve_loop extend base new_capacity m ulog capacity nexts =
     (if capacity < new_capacity then
        case extend m (ulog_next_p ulog) of (r, m') \<Rightarrow>
          if r \<noteq> 0 then Some (- 1, new_capacity, nexts, m')
          else case ulog_next m' ulog base of
                 None \<Rightarrow> None
               | Some u \<Rightarrow> reserve_loop extend base new_capacity m' u
                   (capacity + rd64 m' (ulog_capacity_p u)) (nexts @ [rd64 m' (ulog_next_p ulog)])
      else Some (0, capacity, nexts, m))"

definition ulog_reserve ::
  "mem \<Rightarrow> addr \<Rightarrow> u64 \<Rightarrow> u64 \<Rightarrow> extend_fn \<Rightarrow> u64 list \<Rightarrow> addr \<Rightarrow> (int \<times> u64 \<times> u64 list \<times> mem) option" where
  "ulog_reserve m ulog ulog_base_nbytes new_capacity extend nexts base =
     (case reserve_scan m base ulog nexts ulog_base_nbytes of
        None \<Rightarrow> None
      | Some (u, capacity) \<Rightarrow> reserve_loop extend base new_capacity m u capacity nexts)"

section \<open>Storing and creating entries\<close>

definition ulog_checksum :: "mem \<Rightarrow> addr \<Rightarrow> u64 \<Rightarrow> bool \<Rightarrow> (bool \<times> mem) option" where
  "ulog_checksum m ulog ulog_base_bytes ins =
     util_checksum m ulog (SIZEOF_STRUCT_ULOG + unat ulog_base_bytes) (ulog_checksum_p ulog) ins 0"

text \<open>\<open>ulog_store\<close>: the loop that fills the next logs, then the checksummed base part. The
  index \<open>nlog\<close> into the vector of next logs is the rest of the list.\<close>

fun store_next_loop :: "addr \<Rightarrow> addr \<Rightarrow> u64 list \<Rightarrow> u64 \<Rightarrow> u64 \<Rightarrow> mem \<Rightarrow> mem option" where
  "store_next_loop base src [] next_nbytes off m =
     (if next_nbytes > 0 then None else Some m)"
| "store_next_loop base src (n # ns) next_nbytes off m =
     (if next_nbytes > 0 then
        case ulog_by_offset n base of
          None \<Rightarrow> None
        | Some u \<Rightarrow>
            let copy_nbytes = u64_min next_nbytes (rd64 m (ulog_capacity_p u))
            in store_next_loop base src ns (next_nbytes - copy_nbytes) (off + copy_nbytes)
                 (mem_cpy m (ulog_data u) (ulog_data src + unat off) (unat copy_nbytes))
      else Some m)"

definition ulog_store ::
  "mem \<Rightarrow> addr \<Rightarrow> addr \<Rightarrow> u64 \<Rightarrow> u64 \<Rightarrow> u64 list \<Rightarrow> addr \<Rightarrow> mem option" where
  "ulog_store m dest src nbytes ulog_base_nbytes nexts base =
     (let checksum_nbytes = u64_min ulog_base_nbytes nbytes;
          nbytes = CACHELINE_ALIGN (nbytes + 8);
          base_nbytes = u64_min ulog_base_nbytes nbytes;
          next_nbytes = nbytes - base_nbytes
      in do { m \<leftarrow> store_next_loop base src nexts next_nbytes ulog_base_nbytes m;
              let m = wr64 m (ulog_next_p src) (case nexts of [] \<Rightarrow> 0 | n # _ \<Rightarrow> n);
              (_, m) \<leftarrow> ulog_checksum m src checksum_nbytes True;
              Some (mem_cpy m dest src (SIZEOF_STRUCT_ULOG + unat base_nbytes)) })"

text \<open>The two creation functions return the address of the new entry and the new memory.\<close>

definition ulog_entry_val_create ::
  "mem \<Rightarrow> addr \<Rightarrow> u64 \<Rightarrow> addr \<Rightarrow> u64 \<Rightarrow> u64 \<Rightarrow> addr \<Rightarrow> addr \<times> mem" where
  "ulog_entry_val_create m ulog off dest v t base =
     (let e = ulog_data ulog + unat off;
          o' = (of_nat dest - of_nat base) OR t
      in (e, store m e (u64_bytes o' @ u64_bytes v @ u64_bytes 0)))"

definition ulog_entry_buf_create ::
  "mem \<Rightarrow> addr \<Rightarrow> u64 \<Rightarrow> addr \<Rightarrow> addr \<Rightarrow> u64 \<Rightarrow> u64 \<Rightarrow> addr \<Rightarrow> (addr \<times> mem) option" where
  "ulog_entry_buf_create m ulog off dest src sz t base =
     (let e = ulog_data ulog + unat off;
          o' = (of_nat dest - of_nat base) OR t;
          bdatasize = CACHELINE_SIZE - 24;
          ncopy = u64_min sz bdatasize;
          bdata = bytes_at m src (unat ncopy) @ replicate (unat (bdatasize - ncopy)) 0;
          remaining_size = (if ncopy > sz then 0 else sz - ncopy);
          srcof = src + unat ncopy;
          rcopy = ALIGN_DOWN remaining_size CACHELINE_SIZE;
          lcopy = remaining_size - rcopy;
          last_cacheline = bytes_at m (srcof + unat rcopy) (unat lcopy)
                             @ replicate (64 - unat lcopy) 0;
          m = (if rcopy \<noteq> 0 then mem_cpy m (e + 24 + unat ncopy) srcof (unat rcopy) else m);
          m = (if lcopy \<noteq> 0 then store m (e + 24 + unat ncopy + unat rcopy) last_cacheline else m)
      in do { c \<leftarrow> util_checksum_seq (u64_bytes o' @ u64_bytes 0 @ u64_bytes sz @ bdata) 0;
              c \<leftarrow> (if rcopy \<noteq> 0 then util_checksum_seq (bytes_at m srcof (unat rcopy)) c else Some c);
              c \<leftarrow> (if lcopy \<noteq> 0 then util_checksum_seq last_cacheline c else Some c);
              Some (e, store m e (u64_bytes o' @ u64_bytes c @ u64_bytes sz @ bdata)) })"

section \<open>Applying, clobbering, recovering\<close>

definition ulog_entry_apply :: "mem \<Rightarrow> addr \<Rightarrow> addr \<Rightarrow> mem" where
  "ulog_entry_apply m e base =
     (let t = ulog_entry_type m e;
          dst = base + unat (ulog_entry_offset m e)
      in if t = ULOG_OPERATION_AND then wr64 m dst (rd64 m dst AND rd64 m (e + 8))
         else if t = ULOG_OPERATION_OR then wr64 m dst (rd64 m dst OR rd64 m (e + 8))
         else if t = ULOG_OPERATION_SET then wr64 m dst (rd64 m (e + 8))
         else if t = ULOG_OPERATION_BUF_SET then mem_set m dst (m (e + 24)) (unat (rd64 m (e + 16)))
         else if t = ULOG_OPERATION_BUF_CPY then mem_cpy m dst (e + 24) (unat (rd64 m (e + 16)))
         else m)"

definition ulog_process_entry :: "addr \<Rightarrow> entry_cb" where
  "ulog_process_entry base m e = (0, ulog_entry_apply m e base)"

text \<open>\<open>ulog_clobber\<close> with its optional vector: without one the \<open>next\<close> field is kept.\<close>

definition ulog_clobber :: "mem \<Rightarrow> addr \<Rightarrow> u64 list option \<Rightarrow> mem" where
  "ulog_clobber m dest nexts =
     (let nxt = (case nexts of None \<Rightarrow> rd64 m (ulog_next_p dest)
                 | Some [] \<Rightarrow> 0 | Some (n # _) \<Rightarrow> n)
      in store m dest (u64_bytes 0 @ u64_bytes nxt @ replicate 48 0))"

text \<open>\<open>ulog_clobber_data\<close>: the zeroing loop stops after the first next log; then the logs past
  the first next one are collected and freed in reverse order. \<open>ulog_free\<close> is the callback that
  frees the log whose offset is in the field it is pointed at.\<close>

type_synonym free_fn = "mem \<Rightarrow> addr \<Rightarrow> mem"

definition clobber_zero :: "addr \<Rightarrow> mem \<Rightarrow> addr \<Rightarrow> u64 \<Rightarrow> u64 \<Rightarrow> u64 list \<Rightarrow> mem option" where
  "clobber_zero base m dest nbytes rcapacity nexts =
     (let nzero = u64_min nbytes rcapacity;
          m = mem_set m (ulog_data dest) 0 (unat nzero);
          nbytes = nbytes - nzero
      in if nbytes = 0 then Some m
         else case nexts of
           [] \<Rightarrow> None
         | n # ns \<Rightarrow> (case ulog_by_offset n base of
             None \<Rightarrow> None
           | Some r \<Rightarrow>
               let nzero = u64_min nbytes (rd64 m (ulog_capacity_p r));
                   m = mem_set m (ulog_data r) 0 (unat nzero)
               in if nbytes - nzero = 0 then Some m
                  else if ns = [] then None else Some m))"

partial_function (option) logs_past_first :: "mem \<Rightarrow> addr \<Rightarrow> addr \<Rightarrow> addr list \<Rightarrow> addr list option" where
  "logs_past_first m base u acc =
     (if rd64 m (ulog_next_p u) = 0 then Some acc
      else case ulog_by_offset (rd64 m (ulog_next_p u)) base of
             None \<Rightarrow> Some acc
           | Some u' \<Rightarrow> logs_past_first m base u' (acc @ [ulog_next_p u]))"

definition ulog_clobber_data ::
  "mem \<Rightarrow> addr \<Rightarrow> u64 \<Rightarrow> u64 \<Rightarrow> u64 list \<Rightarrow> free_fn \<Rightarrow> addr \<Rightarrow> mem option" where
  "ulog_clobber_data m dest nbytes ulog_base_nbytes nexts ulog_free base =
     do { m \<leftarrow> clobber_zero base m dest nbytes ulog_base_nbytes nexts;
          (case ulog_by_offset (rd64 m (ulog_next_p dest)) base of
             None \<Rightarrow> Some m
           | Some u \<Rightarrow> do { ps \<leftarrow> logs_past_first m base u [];
                            Some (fold (\<lambda>p m. ulog_free m p) (rev ps) m) }) }"

definition ulog_process :: "mem \<Rightarrow> addr \<Rightarrow> addr \<Rightarrow> mem option" where
  "ulog_process m ulog base = map_option snd (ulog_foreach_entry m ulog (ulog_process_entry base) base)"

partial_function (option) base_nbytes_loop :: "mem \<Rightarrow> addr \<Rightarrow> u64 \<Rightarrow> u64 option" where
  "base_nbytes_loop m ulog off =
     (if off < rd64 m (ulog_capacity_p ulog) \<and> ulog_entry_valid m (ulog_data ulog + unat off)
      then base_nbytes_loop m ulog (off + ulog_entry_size m (ulog_data ulog + unat off))
      else Some off)"

definition ulog_base_nbytes :: "mem \<Rightarrow> addr \<Rightarrow> u64 option" where
  "ulog_base_nbytes m ulog = base_nbytes_loop m ulog 0"

definition ulog_recovery_needed :: "mem \<Rightarrow> addr \<Rightarrow> bool \<Rightarrow> bool option" where
  "ulog_recovery_needed m ulog verify_checksum =
     do { n \<leftarrow> ulog_base_nbytes m ulog;
          let nbytes = u64_min n (rd64 m (ulog_capacity_p ulog));
          if nbytes = 0 then Some False
          else if verify_checksum
          then map_option fst (ulog_checksum m ulog nbytes False)
          else Some True }"

definition ulog_recover :: "mem \<Rightarrow> addr \<Rightarrow> addr \<Rightarrow> mem option" where
  "ulog_recover m ulog base =
     do { needed \<leftarrow> ulog_recovery_needed m ulog True;
          if needed
          then do { m \<leftarrow> ulog_process m ulog base; Some (ulog_clobber m ulog None) }
          else Some m }"

definition ulog_check_entry :: "(u64 \<Rightarrow> bool) \<Rightarrow> entry_cb" where
  "ulog_check_entry check m e =
     (let off = ulog_entry_offset m e
      in if \<not> check off then (- 1, m) else (if off = 0 then - 1 else 0, m))"

definition ulog_check :: "mem \<Rightarrow> addr \<Rightarrow> (u64 \<Rightarrow> bool) \<Rightarrow> addr \<Rightarrow> int option" where
  "ulog_check m ulog check base =
     map_option fst (ulog_foreach_entry m ulog (ulog_check_entry check) base)"

end
