(* ===== verification/Ulog_Recovery.thy ===== *)
theory Ulog_Recovery
  imports Ulog
begin

text \<open>
  What a log means and why recovery works. An abstract entry (\<open>uentry\<close>) is what one log entry
  asks for; \<open>entry_at\<close>, \<open>seg_at\<close> and \<open>log_at\<close> say which bytes represent entries, the entries
  of one \<open>struct ulog\<close>, and a whole chain; \<open>ue_apply\<close> is the effect of an entry. The lemmas
  show that \<open>ulog_process\<close> computes the effect of the represented list of entries, and that the
  result is the same from every memory image that a crash in the middle can leave.
\<close>

section \<open>Abstract entries\<close>

datatype uentry =
    UVal u64 u64 u64 \<comment> \<open>operation, offset, value\<close>
  | UBuf u64 u64 "byte list" \<comment> \<open>operation, offset, data\<close>

definition val_type :: "u64 \<Rightarrow> bool" where
  "val_type t \<longleftrightarrow> t = ULOG_OPERATION_AND \<or> t = ULOG_OPERATION_OR \<or> t = ULOG_OPERATION_SET"

definition buf_type :: "u64 \<Rightarrow> bool" where
  "buf_type t \<longleftrightarrow> t = ULOG_OPERATION_BUF_SET \<or> t = ULOG_OPERATION_BUF_CPY"

definition plain_offset :: "u64 \<Rightarrow> bool" where
  "plain_offset off \<longleftrightarrow> off AND ULOG_OPERATION_MASK = 0"

fun ue_off :: "uentry \<Rightarrow> u64" where
  "ue_off (UVal t off v) = off"
| "ue_off (UBuf t off bs) = off"

fun ue_size :: "uentry \<Rightarrow> nat" where
  "ue_size (UVal t off v) = 16"
| "ue_size (UBuf t off bs) = 64 * ((length bs + 87) div 64)"

fun ue_len :: "uentry \<Rightarrow> nat" where
  "ue_len (UVal t off v) = 8"
| "ue_len (UBuf t off bs) = length bs"

definition ue_target :: "addr \<Rightarrow> uentry \<Rightarrow> nat set" where
  "ue_target base x = {base + unat (ue_off x) ..< base + unat (ue_off x) + ue_len x}"

fun ue_apply :: "addr \<Rightarrow> uentry \<Rightarrow> mem \<Rightarrow> mem" where
  "ue_apply base (UVal t off v) m =
     (let dst = base + unat off
      in if t = ULOG_OPERATION_AND then wr64 m dst (rd64 m dst AND v)
         else if t = ULOG_OPERATION_OR then wr64 m dst (rd64 m dst OR v)
         else wr64 m dst v)"
| "ue_apply base (UBuf t off bs) m =
     store m (base + unat off)
       (if t = ULOG_OPERATION_BUF_SET then replicate (length bs) (hd bs) else bs)"

definition ue_apply_all :: "addr \<Rightarrow> uentry list \<Rightarrow> mem \<Rightarrow> mem" where
  "ue_apply_all base xs m = fold (ue_apply base) xs m"

section \<open>Representation in memory\<close>

fun entry_at :: "mem \<Rightarrow> addr \<Rightarrow> uentry \<Rightarrow> bool" where
  "entry_at m e (UVal t off v) \<longleftrightarrow>
     val_type t \<and> plain_offset off \<and> off OR t \<noteq> 0 \<and> rd64 m e = off OR t \<and> rd64 m (e + 8) = v"
| "entry_at m e (UBuf t off bs) \<longleftrightarrow>
     buf_type t \<and> plain_offset off \<and> length bs + 87 < 2 ^ 64 \<and> rd64 m e = off OR t \<and>
     rd64 m (e + 16) = of_nat (length bs) \<and> bytes_at m (e + 24) (length bs) = bs \<and>
     util_checksum m e (ue_size (UBuf t off bs)) (e + 8) False 0 = Some (True, m)"

fun seg_at :: "mem \<Rightarrow> addr \<Rightarrow> uentry list \<Rightarrow> bool" where
  "seg_at m e [] \<longleftrightarrow> True"
| "seg_at m e (x # xs) \<longleftrightarrow> entry_at m e x \<and> seg_at m (e + ue_size x) xs"

definition seg_size :: "uentry list \<Rightarrow> nat" where
  "seg_size xs = sum_list (map ue_size xs)"

abbreviation ulog_cap :: "mem \<Rightarrow> addr \<Rightarrow> nat" where
  "ulog_cap m r \<equiv> unat (rd64 m (ulog_capacity_p r))"

text \<open>A chain of logs holds a list of segments: every log but the last is full, the last one is
  full with no next log or ends with an entry whose offset field is zero.\<close>

fun log_at :: "addr \<Rightarrow> mem \<Rightarrow> addr \<Rightarrow> uentry list list \<Rightarrow> bool" where
  "log_at base m r [] \<longleftrightarrow> False"
| "log_at base m r [xs] \<longleftrightarrow>
     seg_at m (ulog_data r) xs \<and>
     (seg_size xs + 8 \<le> ulog_cap m r \<and> rd64 m (ulog_data r + seg_size xs) = 0 \<or>
      seg_size xs = ulog_cap m r \<and> rd64 m (ulog_next_p r) = 0)"
| "log_at base m r (xs # ys # xss) \<longleftrightarrow>
     seg_at m (ulog_data r) xs \<and> seg_size xs = ulog_cap m r \<and>
     (case ulog_next m r base of None \<Rightarrow> False | Some r' \<Rightarrow> log_at base m r' (ys # xss))"

text \<open>The addresses that a chain occupies.\<close>

fun log_foot :: "addr \<Rightarrow> mem \<Rightarrow> addr \<Rightarrow> uentry list list \<Rightarrow> nat set" where
  "log_foot base m r [] = {}"
| "log_foot base m r [xs] = {r ..< ulog_data r + ulog_cap m r}"
| "log_foot base m r (xs # ys # xss) = {r ..< ulog_data r + ulog_cap m r} \<union>
     (case ulog_next m r base of None \<Rightarrow> {} | Some r' \<Rightarrow> log_foot base m r' (ys # xss))"

definition targets_off :: "addr \<Rightarrow> uentry list \<Rightarrow> nat set \<Rightarrow> bool" where
  "targets_off base xs F \<longleftrightarrow> (\<forall>x\<in>set xs. ue_target base x \<inter> F = {})"

section \<open>Entries\<close>

lemma op_mask_values:
  "val_type t \<Longrightarrow> t AND ULOG_OPERATION_MASK = t"
  "buf_type t \<Longrightarrow> t AND ULOG_OPERATION_MASK = t"
  by (auto simp: val_type_def buf_type_def ulog_op_defs)

lemma buf_not_val: "buf_type t \<Longrightarrow> \<not> val_type t" "val_type t \<Longrightarrow> \<not> buf_type t"
  by (auto simp: val_type_def buf_type_def ulog_op_defs)

lemma type_of_entry:
  assumes "plain_offset off" and "t AND ULOG_OPERATION_MASK = t"
  shows "(off OR t) AND ULOG_OPERATION_MASK = t" and "(off OR t) AND NOT ULOG_OPERATION_MASK = off"
proof -
  show "(off OR t) AND ULOG_OPERATION_MASK = t"
    using assms by (simp add: plain_offset_def bit.conj_disj_distrib2)
  have "t AND NOT ULOG_OPERATION_MASK = (t AND ULOG_OPERATION_MASK) AND NOT ULOG_OPERATION_MASK"
    using assms(2) by simp
  then have "t AND NOT ULOG_OPERATION_MASK = 0"
    by (simp only: and.assoc bit.conj_cancel_right) simp
  moreover have "off AND NOT ULOG_OPERATION_MASK = off"
  proof (rule bit_word_eqI)
    fix n
    have "\<not> bit (off AND ULOG_OPERATION_MASK) n"
      using assms(1) by (simp add: plain_offset_def)
    then show "bit (off AND NOT ULOG_OPERATION_MASK) n \<longleftrightarrow> bit off n" if "n < LENGTH(64)"
      using that by (auto simp: bit_simps)
  qed
  ultimately show "(off OR t) AND NOT ULOG_OPERATION_MASK = off"
    by (simp add: bit.conj_disj_distrib2)
qed

lemma entry_at_decode:
  assumes "entry_at m e x"
  shows "ulog_entry_offset m e = ue_off x"
    and "ulog_entry_type m e = (case x of UVal t _ _ \<Rightarrow> t | UBuf t _ _ \<Rightarrow> t)"
  using assms
  by (cases x; auto simp: ulog_entry_offset_def ulog_entry_type_def type_of_entry op_mask_values)+

lemma entry_at_size:
  assumes "entry_at m e x"
  shows "unat (ulog_entry_size m e) = ue_size x"
proof (cases x)
  case (UVal t off v)
  then show ?thesis
    using assms entry_at_decode(2) [OF assms] by (auto simp: ulog_entry_size_def val_type_def)
next
  case (UBuf t off bs)
  with assms have b: "buf_type t" and len: "length bs + 87 < 2 ^ 64"
    and sz: "rd64 m (e + 16) = of_nat (length bs)"
    by auto
  have "unat (24 + of_nat (length bs) :: u64) = 24 + length bs"
    using len by (simp add: unat_word_ariths unat_of_nat)
  then have "unat (CACHELINE_ALIGN (24 + of_nat (length bs))) = ue_size x"
    using len UBuf by (subst unat_CACHELINE_ALIGN) (auto simp: add.commute)
  then show ?thesis
    using b UBuf entry_at_decode(2) [OF assms] buf_not_val(1) [OF b]
    by (auto simp: ulog_entry_size_def sz buf_type_def val_type_def)
qed

lemma entry_at_valid:
  assumes "entry_at m e x"
  shows "ulog_entry_valid m e"
proof (cases x)
  case (UVal t off v)
  then show ?thesis
    using assms entry_at_decode(2) [OF assms] buf_not_val(2) [of t]
    by (auto simp: ulog_entry_valid_def buf_type_def)
next
  case (UBuf t off bs)
  with assms have "buf_type t" "rd64 m e = off OR t" by auto
  moreover have "off OR t \<noteq> 0"
    using \<open>buf_type t\<close> type_of_entry(1) [of off t] op_mask_values(2) [of t] assms UBuf
    by (auto simp: buf_type_def ulog_op_defs)
  ultimately show ?thesis
    using assms UBuf entry_at_size [OF assms] by (simp add: ulog_entry_valid_def)
qed

lemma entry_at_apply:
  assumes "entry_at m e x"
  shows "ulog_entry_apply m e base = ue_apply base x m"
proof (cases x)
  case (UVal t off v)
  then show ?thesis
    using assms entry_at_decode [OF assms]
    by (auto simp: ulog_entry_apply_def val_type_def Let_def)
next
  case (UBuf t off bs)
  with assms have b: "buf_type t" and len: "length bs + 87 < 2 ^ 64"
    and sz: "rd64 m (e + 16) = of_nat (length bs)" and bs: "bytes_at m (e + 24) (length bs) = bs"
    by auto
  have n: "unat (rd64 m (e + 16)) = length bs"
    using len by (simp add: sz unat_of_nat)
  have hd: "replicate (length bs) (m (e + 24)) = replicate (length bs) (hd bs)"
    using bs by (cases bs) (auto simp: bytes_at_Suc)
  show ?thesis
    using b entry_at_decode [OF assms] buf_not_val(1) [OF b] UBuf
    by (auto simp: ulog_entry_apply_def Let_def n hd bs mem_set_def mem_cpy_def buf_type_def val_type_def)
qed

lemma ue_size_pos: "16 \<le> ue_size x"
  by (cases x) auto

lemma entry_at_cong:
  assumes "\<And>a. e \<le> a \<Longrightarrow> a < e + ue_size x \<Longrightarrow> m a = m' a" and "entry_at m e x"
  shows "entry_at m' e x"
proof (cases x)
  case (UVal t off v)
  have "rd64 m' e = rd64 m e" "rd64 m' (e + 8) = rd64 m (e + 8)"
    using assms(1) UVal by (auto intro!: rd64_cong)
  then show ?thesis using assms(2) UVal by simp
next
  case (UBuf t off bs)
  define n where "n = ue_size x"
  have n1: "24 + length bs \<le> n"
    using UBuf unfolding n_def by simp
  have n2: "n mod 4 = 0"
    using UBuf unfolding n_def by simp
  note n = n1 n2
  have eq: "rd64 m' e = rd64 m e" "rd64 m' (e + 8) = rd64 m (e + 8)" "rd64 m' (e + 16) = rd64 m (e + 16)"
    "bytes_at m' (e + 24) (length bs) = bytes_at m (e + 24) (length bs)"
    using assms(1) n unfolding n_def [symmetric] by (auto intro!: rd64_cong bytes_at_eqI)
  have "field_zeroed m' e n 8 = field_zeroed m e n 8"
    using assms(1) n unfolding n_def [symmetric] by (intro field_zeroed_cong) auto
  then show ?thesis
    using assms(2) UBuf n util_checksum_verify [of n 8 m e] util_checksum_verify [of n 8 m' e]
    unfolding n_def by (simp add: eq)
qed

lemma seg_size_simps [simp]:
  "seg_size [] = 0" "seg_size (x # xs) = ue_size x + seg_size xs"
  "seg_size (xs @ ys) = seg_size xs + seg_size ys"
  by (simp_all add: seg_size_def)

lemma seg_at_cong:
  assumes "\<And>a. e \<le> a \<Longrightarrow> a < e + seg_size xs \<Longrightarrow> m a = m' a" and "seg_at m e xs"
  shows "seg_at m' e xs"
  using assms
proof (induction xs arbitrary: e)
  case Nil
  then show ?case by simp
next
  case (Cons x xs)
  have "entry_at m' e x"
    by (rule entry_at_cong [of e x m]) (use Cons.prems in auto)
  moreover have "seg_at m' (e + ue_size x) xs"
    by (rule Cons.IH) (use Cons.prems in auto)
  ultimately show ?case by simp
qed

lemma seg_at_append:
  "seg_at m e (xs @ ys) \<longleftrightarrow> seg_at m e xs \<and> seg_at m (e + seg_size xs) ys"
  by (induction xs arbitrary: e) (auto simp: add.assoc)

lemma ue_apply_frame: "a \<notin> ue_target base x \<Longrightarrow> ue_apply base x m a = m a"
  by (cases x) (auto simp: ue_target_def Let_def wr64_def store_out)

lemma ue_apply_all_simps [simp]:
  "ue_apply_all base [] m = m"
  "ue_apply_all base (x # xs) m = ue_apply_all base xs (ue_apply base x m)"
  "ue_apply_all base (xs @ ys) m = ue_apply_all base ys (ue_apply_all base xs m)"
  by (simp_all add: ue_apply_all_def)

lemma ue_apply_all_frame:
  "targets_off base xs F \<Longrightarrow> a \<in> F \<Longrightarrow> ue_apply_all base xs m a = m a"
proof (induction xs arbitrary: m)
  case Nil
  then show ?case by simp
next
  case (Cons x xs)
  then have "a \<notin> ue_target base x" by (auto simp: targets_off_def)
  with Cons show ?case by (simp add: targets_off_def ue_apply_frame)
qed

lemma targets_off_simps [simp]:
  "targets_off base [] F"
  "targets_off base (x # xs) F \<longleftrightarrow> ue_target base x \<inter> F = {} \<and> targets_off base xs F"
  "targets_off base (xs @ ys) F \<longleftrightarrow> targets_off base xs F \<and> targets_off base ys F"
  by (auto simp: targets_off_def)

lemma targets_off_mono: "targets_off base xs F \<Longrightarrow> G \<subseteq> F \<Longrightarrow> targets_off base xs G"
  by (auto simp: targets_off_def)

section \<open>Processing a represented log\<close>

lemma foreach_seg:
  assumes "seg_at m (ulog_data r + unat off) xs"
    and "unat off + seg_size xs \<le> ulog_cap m r"
    and "targets_off base xs {r ..< ulog_data r + ulog_cap m r}"
  shows "foreach_loop (ulog_process_entry base) base m r off =
    foreach_loop (ulog_process_entry base) base (ue_apply_all base xs m) r (off + of_nat (seg_size xs))"
  using assms
proof (induction xs arbitrary: m off)
  case Nil
  then show ?case by simp
next
  case (Cons x xs)
  let ?e = "ulog_data r + unat off" and ?m' = "ue_apply base x m"
  have at: "entry_at m ?e x" using Cons.prems(1) by simp
  have lt: "unat off < ulog_cap m r"
    using Cons.prems(2) ue_size_pos [of x] by simp
  have frame: "?m' a = m a" if "r \<le> a" "a < ulog_data r + ulog_cap m r" for a
    using Cons.prems(3) that by (intro ue_apply_frame) auto
  have cap: "ulog_cap ?m' r = ulog_cap m r"
    using lt frame by (intro arg_cong [where f = unat] rd64_cong) (auto simp: ulog_field_defs)
  have at': "entry_at ?m' ?e x"
    using Cons.prems(2) frame by (intro entry_at_cong [OF _ at]) (auto simp: ulog_field_defs)
  have off: "unat (off + ulog_entry_size ?m' ?e) = unat off + ue_size x"
    using Cons.prems(2) unat_lt_u64 [of "rd64 m (ulog_capacity_p r)"] entry_at_size [OF at']
    by (simp add: unat_word_ariths)
  have sz: "ulog_entry_size ?m' ?e = of_nat (ue_size x)"
    using entry_at_size [OF at'] by (metis of_nat_unat ucast_id)
  have "foreach_loop (ulog_process_entry base) base m r off =
      foreach_loop (ulog_process_entry base) base ?m' r (off + ulog_entry_size ?m' ?e)"
    using lt entry_at_valid [OF at] entry_at_apply [OF at]
    by (subst foreach_loop.simps) (simp add: word_less_nat_alt ulog_process_entry_def)
  also have "\<dots> = foreach_loop (ulog_process_entry base) base (ue_apply_all base xs ?m') r
      (off + ulog_entry_size ?m' ?e + of_nat (seg_size xs))"
  proof (rule Cons.IH)
    have "seg_at m (?e + ue_size x) xs" using Cons.prems(1) by simp
    then have "seg_at ?m' (?e + ue_size x) xs"
      by (rule seg_at_cong [rotated])
        (use Cons.prems(2) frame in \<open>auto simp: ulog_field_defs intro!: frame [symmetric]\<close>)
    then show "seg_at ?m' (ulog_data r + unat (off + ulog_entry_size ?m' ?e)) xs"
      by (simp add: off add.assoc)
  qed (use Cons.prems in \<open>auto simp: off cap\<close>)
  finally show ?case
    by (simp add: sz add.assoc)
qed

lemma log_header_cong:
  assumes "\<And>a. r \<le> a \<Longrightarrow> a < ulog_data r \<Longrightarrow> m a = m' a"
  shows "rd64 m' (ulog_capacity_p r) = rd64 m (ulog_capacity_p r)"
    and "rd64 m' (ulog_next_p r) = rd64 m (ulog_next_p r)"
    and "ulog_next m' r base = ulog_next m r base"
proof -
  show "rd64 m' (ulog_capacity_p r) = rd64 m (ulog_capacity_p r)"
    and n: "rd64 m' (ulog_next_p r) = rd64 m (ulog_next_p r)"
    by (intro rd64_cong; use assms in \<open>auto simp: ulog_field_defs\<close>)+
  then show "ulog_next m' r base = ulog_next m r base"
    by (simp add: ulog_next_def)
qed

lemma log_at_cong:
  assumes "\<And>a. a \<in> log_foot base m r xss \<Longrightarrow> m a = m' a" and "log_at base m r xss"
  shows "log_at base m' r xss \<and> log_foot base m' r xss = log_foot base m r xss"
  using assms
proof (induction base m r xss rule: log_at.induct)
  case (1 base m r)
  then show ?case by simp
next
  case (2 base m r xs)
  note hdr = log_header_cong [of r m m']
  have eq: "rd64 m' (ulog_capacity_p r) = rd64 m (ulog_capacity_p r)"
    "rd64 m' (ulog_next_p r) = rd64 m (ulog_next_p r)"
    by (intro hdr; use "2.prems"(1) in auto)+
  have "seg_at m' (ulog_data r) xs"
    by (rule seg_at_cong [of _ _ m]) (use "2.prems" in \<open>auto simp: ulog_field_defs\<close>)
  moreover have "rd64 m' (ulog_data r + seg_size xs) = rd64 m (ulog_data r + seg_size xs)"
    if "seg_size xs + 8 \<le> ulog_cap m r"
    using that "2.prems"(1) by (intro rd64_cong) (auto simp: ulog_field_defs)
  ultimately show ?case
    using "2.prems"(2) by (auto simp: eq)
next
  case (3 base m r xs ys xss)
  then obtain r' where r': "ulog_next m r base = Some r'" and log': "log_at base m r' (ys # xss)"
    by (auto split: option.splits)
  note hdr = log_header_cong [of r m m']
  have eq: "rd64 m' (ulog_capacity_p r) = rd64 m (ulog_capacity_p r)"
    "ulog_next m' r base = ulog_next m r base"
    by (intro hdr; use "3.prems"(1) in auto)+
  have "seg_at m' (ulog_data r) xs"
    by (rule seg_at_cong [of _ _ m]) (use "3.prems" in \<open>auto simp: ulog_field_defs\<close>)
  moreover have "log_at base m' r' (ys # xss) \<and> log_foot base m' r' (ys # xss) = log_foot base m r' (ys # xss)"
    by (rule "3.IH" [OF r']) (use "3.prems"(1) r' log' in auto)
  ultimately show ?case
    using "3.prems"(2) r' by (auto simp: eq)
qed

lemma foreach_log:
  assumes "log_at base m r xss" and "targets_off base (concat xss) (log_foot base m r xss)"
  shows "foreach_loop (ulog_process_entry base) base m r 0 = Some (0, ue_apply_all base (concat xss) m)"
  using assms
proof (induction xss arbitrary: m r)
  case Nil
  then show ?case by simp
next
  case (Cons xs xss)
  let ?m' = "ue_apply_all base xs m" and ?F = "log_foot base m r (xs # xss)"
  have seg: "seg_at m (ulog_data r) xs" and sz: "seg_size xs \<le> ulog_cap m r"
    and foot: "{r ..< ulog_data r + ulog_cap m r} \<subseteq> ?F"
    using Cons.prems(1) by (cases xss; auto)+
  have off: "targets_off base xs ?F" "targets_off base (concat xss) ?F"
    using Cons.prems(2) by auto
  have frame: "?m' a = m a" if "a \<in> ?F" for a
    using off(1) that by (rule ue_apply_all_frame)
  have n: "unat (of_nat (seg_size xs) :: u64) = seg_size xs"
    using sz unat_lt_u64 [of "rd64 m (ulog_capacity_p r)"] by (simp add: unat_of_nat)
  have loop: "foreach_loop (ulog_process_entry base) base m r 0 =
      foreach_loop (ulog_process_entry base) base ?m' r (of_nat (seg_size xs))"
    using foreach_seg [of m r 0 xs base] seg sz targets_off_mono [OF off(1) foot] by simp
  have log': "log_at base ?m' r (xs # xss)" "log_foot base ?m' r (xs # xss) = ?F"
    using log_at_cong [of base m r "xs # xss" ?m'] frame Cons.prems(1) by auto
  have cap: "rd64 ?m' (ulog_capacity_p r) = rd64 m (ulog_capacity_p r)"
    by (rule log_header_cong) (use foot in \<open>auto intro!: frame [symmetric]\<close>)
  show ?case
  proof (cases xss)
    case Nil
    show ?thesis
    proof (cases "seg_size xs < ulog_cap m r")
      case True
      then have "\<not> ulog_entry_valid ?m' (ulog_data r + seg_size xs)"
        using log'(1) Nil by (auto simp: ulog_entry_valid_def cap)
      then show ?thesis
        using True Nil unfolding loop by (subst foreach_loop.simps) (simp add: word_less_nat_alt n cap)
    next
      case False
      then have "ulog_next ?m' r base = None"
        using log'(1) Nil by (auto simp: ulog_next_def ulog_by_offset_def cap)
      then show ?thesis
        using False Nil unfolding loop by (subst foreach_loop.simps) (simp add: word_less_nat_alt n cap)
    qed
  next
    case (Cons ys yss)
    with log'(1) obtain r' where r': "ulog_next ?m' r base = Some r'"
      and log2: "log_at base ?m' r' xss" and full: "seg_size xs = ulog_cap m r"
      by (auto simp: cap split: option.splits)
    have "foreach_loop (ulog_process_entry base) base ?m' r (of_nat (seg_size xs)) =
        foreach_loop (ulog_process_entry base) base ?m' r' 0"
      using r' full by (subst foreach_loop.simps) (simp add: word_less_nat_alt cap)
    also have "\<dots> = Some (0, ue_apply_all base (concat xss) ?m')"
      using log2 targets_off_mono [OF off(2), of "log_foot base ?m' r' xss"] log'(2) r' Cons
      by (intro Cons.IH) auto
    finally show ?thesis
      by (simp add: loop)
  qed
qed

lemma ulog_process_log:
  assumes "log_at base m r xss" and "targets_off base (concat xss) (log_foot base m r xss)"
  shows "ulog_process m r base = Some (ue_apply_all base (concat xss) m)"
  using foreach_log [OF assms] by (simp add: ulog_process_def ulog_foreach_entry_def)

section \<open>Crash images\<close>

text \<open>
  While a log is being applied, the stores of its entries reach the medium in any order and in
  any fragments. \<open>ue_mask\<close> is the set of bits that an entry can change, byte by byte (an AND
  entry only clears the bits that are zero in its value, an OR entry only sets those that are
  one), and \<open>agree_off\<close> relates a memory to every image that differs from it in those bits.
\<close>

fun ue_mask :: "addr \<Rightarrow> uentry \<Rightarrow> addr \<Rightarrow> byte" where
  "ue_mask base (UVal t off v) a =
     (if a \<in> ue_target base (UVal t off v) then
        let b = u64_bytes v ! (a - (base + unat off))
        in if t = ULOG_OPERATION_AND then NOT b else if t = ULOG_OPERATION_OR then b else - 1
      else 0)"
| "ue_mask base (UBuf t off bs) a = (if a \<in> ue_target base (UBuf t off bs) then - 1 else 0)"

definition log_mask :: "addr \<Rightarrow> uentry list \<Rightarrow> addr \<Rightarrow> byte" where
  "log_mask base xs a = foldr (\<lambda>x acc. ue_mask base x a OR acc) xs 0"

definition agree_off :: "(addr \<Rightarrow> byte) \<Rightarrow> mem \<Rightarrow> mem \<Rightarrow> bool" where
  "agree_off M m m' \<longleftrightarrow> (\<forall>a n. \<not> bit (M a) n \<longrightarrow> bit (m a) n = bit (m' a) n)"

lemma bytes_rd64: "i < 8 \<Longrightarrow> u64_bytes (rd64 m a) ! i = m (a + i)"
  using rd64_conv [of m a "rd64 m a"] by (metis nth_bytes_at)

lemma nth_u64_bytes_and: "i < 8 \<Longrightarrow> u64_bytes (v AND w) ! i = u64_bytes v ! i AND u64_bytes w ! i"
  by (simp add: nth_u64_bytes) (rule bit_word_eqI, simp add: bit_simps)

lemma nth_u64_bytes_or: "i < 8 \<Longrightarrow> u64_bytes (v OR w) ! i = u64_bytes v ! i OR u64_bytes w ! i"
  by (simp add: nth_u64_bytes) (rule bit_word_eqI, auto simp: bit_simps)

text \<open>Each byte after an entry is the old byte outside the mask and a fixed value inside it.\<close>

lemma ue_apply_agree:
  assumes "agree_off (\<lambda>a. ue_mask base x a OR M a) m m'"
  shows "agree_off M (ue_apply base x m) (ue_apply base x m')"
  unfolding agree_off_def
proof (intro allI impI)
  fix a n
  assume M: "\<not> bit (M a) n"
  have out: "bit (m a) n = bit (m' a) n" if "\<not> bit (ue_mask base x a) n"
    using assms that M by (simp add: agree_off_def bit_simps)
  show "bit (ue_apply base x m a) n = bit (ue_apply base x m' a) n"
  proof (cases "a \<in> ue_target base x")
    case False
    moreover from this have "ue_mask base x a = 0" by (cases x) auto
    ultimately show ?thesis using out by (simp add: ue_apply_frame)
  next
    case True
    show ?thesis
    proof (cases x)
      case (UBuf t off bs)
      with True have "base + unat off \<le> a" "a < base + unat off + length bs"
        by (auto simp: ue_target_def)
      with UBuf show ?thesis by (simp add: store_def)
    next
      case (UVal t off v)
      define i where "i = a - (base + unat off)"
      have i: "i < 8" and a: "a = base + unat off + i"
        using True UVal by (auto simp: ue_target_def i_def)
      have "ue_apply base x mm a = (if t = ULOG_OPERATION_AND then mm a AND u64_bytes v ! i
          else if t = ULOG_OPERATION_OR then mm a OR u64_bytes v ! i else u64_bytes v ! i)" for mm
        using i a UVal
        by (simp add: Let_def wr64_def store_in nth_u64_bytes_and nth_u64_bytes_or bytes_rd64)
      moreover have "ue_mask base x a = (if t = ULOG_OPERATION_AND then NOT (u64_bytes v ! i)
          else if t = ULOG_OPERATION_OR then u64_bytes v ! i else - 1)"
        using True UVal by (simp add: i_def Let_def)
      ultimately show ?thesis
        using out by (cases "n < 8") (auto simp: bit_simps dest: bit_imp_le_length)
    qed
  qed
qed

lemma ue_apply_all_agree:
  "agree_off (log_mask base xs) m m' \<Longrightarrow> ue_apply_all base xs m = ue_apply_all base xs m'"
proof (induction xs arbitrary: m m')
  case Nil
  then have "m a = m' a" for a
    by (intro bit_word_eqI) (simp add: agree_off_def log_mask_def)
  then show ?case by auto
next
  case (Cons x xs)
  then have "agree_off (\<lambda>a. ue_mask base x a OR log_mask base xs a) m m'"
    by (simp add: log_mask_def agree_off_def)
  then have "agree_off (log_mask base xs) (ue_apply base x m) (ue_apply base x m')"
    by (rule ue_apply_agree)
  then show ?case by (simp add: Cons.IH)
qed

lemma log_mask_off_targets:
  "targets_off base xs F \<Longrightarrow> a \<in> F \<Longrightarrow> log_mask base xs a = 0"
proof (induction xs)
  case Nil
  then show ?case by (simp add: log_mask_def)
next
  case (Cons x xs)
  then have "a \<notin> ue_target base x" by auto
  then have "ue_mask base x a = 0" by (cases x) auto
  with Cons show ?case by (simp add: log_mask_def)
qed

lemma agree_off_frame:
  assumes "agree_off M m m'" and "M a = 0"
  shows "m a = m' a"
  using assms by (intro bit_word_eqI) (simp add: agree_off_def)

text \<open>A crash image keeps the log, so it represents the same entries.\<close>

lemma crash_image_log:
  assumes "log_at base m r xss" and "targets_off base (concat xss) (log_foot base m r xss)"
    and "agree_off (log_mask base (concat xss)) m m'"
  shows "log_at base m' r xss" and "log_foot base m' r xss = log_foot base m r xss"
    and "\<And>a. a \<in> log_foot base m r xss \<Longrightarrow> m a = m' a"
proof -
  show eq: "m a = m' a" if "a \<in> log_foot base m r xss" for a
    using assms(3) log_mask_off_targets [OF assms(2) that] by (rule agree_off_frame)
  show "log_at base m' r xss" "log_foot base m' r xss = log_foot base m r xss"
    using log_at_cong [OF eq assms(1)] by auto
qed

lemma ulog_process_crash_image:
  assumes "log_at base m r xss" and "targets_off base (concat xss) (log_foot base m r xss)"
    and "agree_off (log_mask base (concat xss)) m m'"
  shows "ulog_process m' r base = Some (ue_apply_all base (concat xss) m)"
  using crash_image_log [OF assms] assms(2) ue_apply_all_agree [OF assms(3)]
  by (subst ulog_process_log [where xss = xss]) auto

section \<open>Recovery\<close>

lemma ulog_clobber_capacity: "rd64 (ulog_clobber m r nexts) (ulog_capacity_p r) = 0"
proof -
  let ?n = "case nexts of None \<Rightarrow> rd64 m (ulog_next_p r) | Some [] \<Rightarrow> 0 | Some (n # _) \<Rightarrow> n"
  have "bytes_at (ulog_clobber m r nexts) (r + 16) 8 =
      take 8 (drop 16 (u64_bytes 0 @ u64_bytes ?n @ replicate 48 0))"
    unfolding ulog_clobber_def Let_def by (subst bytes_at_store_inside) auto
  also have "\<dots> = u64_bytes 0"
    by (simp add: u64_bytes_0 take_replicate)
  finally show ?thesis
    by (simp add: ulog_capacity_p_def rd64_conv)
qed

lemma recovery_not_needed_empty:
  "rd64 m (ulog_capacity_p r) = 0 \<Longrightarrow> ulog_recovery_needed m r b = Some False"
  by (simp add: ulog_recovery_needed_def ulog_base_nbytes_def base_nbytes_loop.simps u64_min_def)

lemma base_nbytes_seg:
  assumes "seg_at m (ulog_data r + unat off) xs" and "unat off + seg_size xs \<le> ulog_cap m r"
  shows "base_nbytes_loop m r off = base_nbytes_loop m r (off + of_nat (seg_size xs))"
  using assms
proof (induction xs arbitrary: off)
  case Nil
  then show ?case by simp
next
  case (Cons x xs)
  let ?e = "ulog_data r + unat off"
  have at: "entry_at m ?e x" using Cons.prems(1) by simp
  have lt: "unat off < ulog_cap m r"
    using Cons.prems(2) ue_size_pos [of x] by simp
  have off: "unat (off + ulog_entry_size m ?e) = unat off + ue_size x"
    using Cons.prems(2) unat_lt_u64 [of "rd64 m (ulog_capacity_p r)"] entry_at_size [OF at]
    by (simp add: unat_word_ariths)
  have sz: "ulog_entry_size m ?e = of_nat (ue_size x)"
    using entry_at_size [OF at] by (metis of_nat_unat ucast_id)
  have "base_nbytes_loop m r off = base_nbytes_loop m r (off + ulog_entry_size m ?e)"
    using lt entry_at_valid [OF at] by (subst base_nbytes_loop.simps) (simp add: word_less_nat_alt)
  also have "\<dots> = base_nbytes_loop m r (off + ulog_entry_size m ?e + of_nat (seg_size xs))"
    using Cons.prems by (intro Cons.IH) (auto simp: off add.assoc)
  finally show ?case by (simp add: sz add.assoc)
qed

lemma base_nbytes_log:
  assumes "log_at base m r (xs # xss)"
  shows "ulog_base_nbytes m r = Some (of_nat (seg_size xs))"
proof -
  have seg: "seg_at m (ulog_data r) xs" and sz: "seg_size xs \<le> ulog_cap m r"
    using assms by (cases xss; auto)+
  have n: "unat (of_nat (seg_size xs) :: u64) = seg_size xs"
    using sz unat_lt_u64 [of "rd64 m (ulog_capacity_p r)"] by (simp add: unat_of_nat)
  have stop: "\<not> (seg_size xs < ulog_cap m r \<and> ulog_entry_valid m (ulog_data r + seg_size xs))"
    using assms by (cases xss) (auto simp: ulog_entry_valid_def)
  have "ulog_base_nbytes m r = base_nbytes_loop m r (of_nat (seg_size xs))"
    using base_nbytes_seg [of m r 0 xs] seg sz by (simp add: ulog_base_nbytes_def)
  also have "\<dots> = Some (of_nat (seg_size xs))"
    using stop by (subst base_nbytes_loop.simps) (auto simp: word_less_nat_alt n)
  finally show ?thesis .
qed

lemma recovery_needed_log:
  assumes "log_at base m r (xs # xss)"
  shows "ulog_recovery_needed m r True =
    (if xs = [] then Some False else map_option fst (ulog_checksum m r (of_nat (seg_size xs)) False))"
proof -
  have sz: "seg_size xs \<le> ulog_cap m r"
    using assms by (cases xss) auto
  have n: "unat (of_nat (seg_size xs) :: u64) = seg_size xs"
    using sz unat_lt_u64 [of "rd64 m (ulog_capacity_p r)"] by (simp add: unat_of_nat)
  have min: "u64_min (of_nat (seg_size xs)) (rd64 m (ulog_capacity_p r)) = of_nat (seg_size xs)"
    using sz n by (simp only: word_unat_eq_iff unat_u64_min)
  have z: "of_nat (seg_size xs) = (0 :: u64) \<longleftrightarrow> xs = []"
  proof -
    have "of_nat (seg_size xs) = (0 :: u64) \<longleftrightarrow> seg_size xs = 0"
      using n by (simp only: word_unat_eq_iff) simp
    also have "\<dots> \<longleftrightarrow> xs = []"
    proof (cases xs)
      case (Cons x ys)
      then show ?thesis using ue_size_pos [of x] by simp
    qed simp
    finally show ?thesis .
  qed
  show ?thesis
    unfolding ulog_recovery_needed_def base_nbytes_log [OF assms] by (simp add: min z)
qed

end
