(* ===== verification/Ulog_Theorems.thy ===== *)
theory Ulog_Theorems
  imports Ulog_Recovery
begin

text \<open>
  The theorems about the unified log: the two creation functions write entries that decode to
  what was asked for, \<open>ulog_store\<close> writes a log that recovery applies, recovery is atomic
  with respect to crashes and idempotent, reservation delivers the requested capacity, and a log
  with an undefined entry type keeps recovery from returning.
\<close>

section \<open>Moving bytes\<close>

lemma bytes_at_sub:
  assumes "bytes_at m e n = bytes_at m' e' n" and "i + k \<le> n"
  shows "bytes_at m (e + i) k = bytes_at m' (e' + i) k"
proof -
  have "take k (drop i (bytes_at m e n)) = take k (drop i (bytes_at m' e' n))"
    using assms(1) by simp
  then show ?thesis
    using assms(2) by (simp add: drop_bytes_at take_bytes_at min_absorb1 le_diff_conv2)
qed

lemma rd64_sub:
  assumes "bytes_at m e n = bytes_at m' e' n" and "i + 8 \<le> n"
  shows "rd64 m (e + i) = rd64 m' (e' + i)"
  using bytes_at_sub [OF assms] by (simp add: rd64_def)

lemma field_zeroed_sub:
  assumes "bytes_at m e n = bytes_at m' e' n" and "k + 8 \<le> l" and "l \<le> n"
  shows "field_zeroed m e l k = field_zeroed m' e' l k"
  using bytes_at_sub [OF assms(1), of 0 k] bytes_at_sub [OF assms(1), of "k + 8" "l - k - 8"] assms(2,3)
  by (simp add: field_zeroed_def add.assoc)

lemma entry_at_move:
  assumes "bytes_at m e (ue_size x) = bytes_at m' e' (ue_size x)" and "entry_at m e x"
  shows "entry_at m' e' x"
proof (cases x)
  case (UVal t off v)
  then show ?thesis
    using assms rd64_sub [OF assms(1), of 0] rd64_sub [OF assms(1), of 8] by simp
next
  case (UBuf t off bs)
  define n where "n = ue_size x"
  have n1: "24 + length bs \<le> n" and n2: "n mod 4 = 0"
    using UBuf unfolding n_def by simp_all
  note eq = assms(1) [folded n_def]
  have "rd64 m' e' = rd64 m e" "rd64 m' (e' + 8) = rd64 m (e + 8)" "rd64 m' (e' + 16) = rd64 m (e + 16)"
    "bytes_at m' (e' + 24) (length bs) = bytes_at m (e + 24) (length bs)"
    "field_zeroed m' e' n 8 = field_zeroed m e n 8"
    using rd64_sub [OF eq, of 0] rd64_sub [OF eq, of 8] rd64_sub [OF eq, of 16] n1
      bytes_at_sub [OF eq, of 24] field_zeroed_sub [OF eq, of 8 n] by simp_all
  then show ?thesis
    using assms(2) UBuf n1 n2 util_checksum_verify [of n 8 m e] util_checksum_verify [of n 8 m' e']
    unfolding n_def by simp
qed

lemma seg_at_move:
  assumes "bytes_at m e (seg_size xs) = bytes_at m' e' (seg_size xs)" and "seg_at m e xs"
  shows "seg_at m' e' xs"
  using assms
proof (induction xs arbitrary: e e')
  case Nil
  then show ?case by simp
next
  case (Cons x xs)
  have "bytes_at m e (ue_size x) = bytes_at m' e' (ue_size x)"
    using bytes_at_sub [OF Cons.prems(1), of 0 "ue_size x"] by simp
  then have "entry_at m' e' x"
    by (rule entry_at_move) (use Cons.prems(2) in simp)
  moreover have "seg_at m' (e' + ue_size x) xs"
    using bytes_at_sub [OF Cons.prems(1), of "ue_size x" "seg_size xs"] Cons.prems(2)
    by (intro Cons.IH) auto
  ultimately show ?case by simp
qed

lemma seg_size_mod4: "seg_size xs mod 4 = 0"
proof (induction xs)
  case (Cons x xs)
  moreover have "ue_size x mod 4 = 0" by (cases x) auto
  ultimately show ?case by (simp add: mod_add_eq [symmetric])
qed simp

section \<open>Creating entries\<close>

lemma store_commute:
  "a + length xs \<le> b \<or> b + length ys \<le> a \<Longrightarrow> store (store m a xs) b ys = store (store m b ys) a xs"
  by (rule ext) (auto simp: store_def)

lemma plain_offset_of_nat:
  assumes "n < 2 ^ 61"
  shows "plain_offset (of_nat n)"
  unfolding plain_offset_def
proof -
  let ?x = "of_nat n :: u64"
  have "unat ?x = n"
    using assms by (simp add: unat_of_nat)
  then have "unat (take_bit 61 ?x) = unat ?x"
    using assms by (subst unsigned_take_bit_eq) (simp only: take_bit_nat_eq_self_iff)
  then have "?x = take_bit 61 ?x"
    by (simp only: word_unat_eq_iff)
  then have "?x AND ULOG_OPERATION_MASK = take_bit 61 ?x AND ULOG_OPERATION_MASK"
    by simp
  also have "\<dots> = 0"
    by (rule bit_word_eqI) (simp add: ULOG_OPERATION_MASK_def bit_simps del: push_bit_numeral push_bit_of_1)
  finally show "?x AND ULOG_OPERATION_MASK = 0" .
qed

lemma val_create_entry:
  assumes "val_type t" and "base \<le> dest" and "dest < base + 2 ^ 61"
    and "dest \<noteq> base \<or> t \<noteq> ULOG_OPERATION_SET"
    and "ulog_entry_val_create m ulog off dest v t base = (e, m')"
  shows "entry_at m' e (UVal t (of_nat (dest - base)) v)" and "rd64 m' (e + 16) = 0"
    and "e = ulog_data ulog + unat off" and "\<And>a. a < e \<or> e + 24 \<le> a \<Longrightarrow> m' a = m a"
proof -
  let ?o = "of_nat (dest - base) :: u64"
  have o: "of_nat dest - of_nat base = ?o"
    using assms(2) by simp
  have m': "m' = store m e (u64_bytes (?o OR t) @ u64_bytes v @ u64_bytes 0)"
    and e: "e = ulog_data ulog + unat off"
    using assms(5) by (auto simp: ulog_entry_val_create_def Let_def o)
  show "e = ulog_data ulog + unat off" by (rule e)
  have rd: "rd64 m' e = ?o OR t" "rd64 m' (e + 8) = v" "rd64 m' (e + 16) = 0"
    unfolding m' by (rule rd64_store_inside; simp)+
  have p: "plain_offset ?o"
    using assms(2,3) by (intro plain_offset_of_nat) simp
  have "?o OR t \<noteq> 0"
  proof
    assume z: "?o OR t = 0"
    with type_of_entry [OF p op_mask_values(1) [OF assms(1)]] have t: "t = 0" and "?o = 0"
      by simp_all
    then have "unat ?o = 0" by simp
    then have "dest - base = 0"
      using assms(2,3) by (simp only: unat_of_nat) simp
    with t show False
      using assms(2,4) by (simp add: ULOG_OPERATION_SET_def)
  qed
  with rd p assms(1) show "entry_at m' e (UVal t ?o v)" by simp
  show "rd64 m' (e + 16) = 0" by (rule rd)
  show "m' a = m a" if "a < e \<or> e + 24 \<le> a" for a
    using that by (auto simp: m' store_out)
qed

lemma csum_of_join: "csum_of (ucast c, ucast (drop_bit 32 c)) = c"
  by (rule bit_word_eqI) (auto simp: csum_of_def bit_simps)

lemma buf_bytes_entry:
  assumes "buf_type t" and "plain_offset off" and "length bs + 87 < 2 ^ 64"
    and "length bs + length zs + 24 = ue_size (UBuf t off bs)"
    and "util_checksum_seq (u64_bytes (off OR t) @ u64_bytes 0 @ u64_bytes (of_nat (length bs)) @ bs @ zs) 0 = Some c"
  shows "entry_at (store m e (u64_bytes (off OR t) @ u64_bytes c @ u64_bytes (of_nat (length bs)) @ bs @ zs)) e
    (UBuf t off bs)"
proof -
  let ?B = "u64_bytes (off OR t) @ u64_bytes c @ u64_bytes (of_nat (length bs)) @ bs @ zs"
  let ?m = "store m e ?B" and ?S = "ue_size (UBuf t off bs)"
  have rd: "rd64 ?m e = off OR t" "rd64 ?m (e + 8) = c" "rd64 ?m (e + 16) = of_nat (length bs)"
    by (rule rd64_store_inside; simp)+
  have bs: "bytes_at ?m (e + 24) (length bs) = bs"
    by (subst bytes_at_store_inside) auto
  have S: "?S mod 4 = 0" "8 + 8 \<le> ?S" by simp_all
  have e0: "bytes_at ?m e 8 = u64_bytes (off OR t)"
    by (subst bytes_at_store_inside) auto
  have e16: "bytes_at ?m (e + 16) (?S - 16) = u64_bytes (of_nat (length bs)) @ bs @ zs"
    using assms(4) by (subst bytes_at_store_inside) auto
  have "field_zeroed ?m e ?S 8 = u64_bytes (off OR t) @ u64_bytes 0 @ u64_bytes (of_nat (length bs)) @ bs @ zs"
    using e0 e16 by (simp add: field_zeroed_def u64_bytes_0 add.commute del: replicate.simps ue_size.simps)
  then have "util_checksum ?m e ?S (e + 8) False 0 = Some (True, ?m)"
    using util_checksum_verify [of ?S 8 ?m e] S assms(5) rd(2) by simp
  then show ?thesis
    using assms(1-3) rd bs by simp
qed

lemma buf_create_small:
  assumes "unat sz \<le> 40" and e: "e = ulog_data ulog + unat off"
    and o': "o' = (of_nat dest - of_nat base) OR t"
  shows "\<exists>c zs. unat sz + length zs + 24 = 64 \<and>
    util_checksum_seq (u64_bytes o' @ u64_bytes 0 @ u64_bytes sz @ bytes_at m src (unat sz) @ zs) 0 = Some c \<and>
    ulog_entry_buf_create m ulog off dest src sz t base =
      Some (e, store m e (u64_bytes o' @ u64_bytes c @ u64_bytes sz @ bytes_at m src (unat sz) @ zs))"
proof -
  have nc: "u64_min sz 40 = sz"
    using assms(1) by (simp add: word_unat_eq_iff unat_u64_min)
  have d: "unat (40 - sz) = 40 - unat sz"
    using assms(1) by (simp add: unat_sub word_le_nat_alt)
  let ?zs = "replicate (40 - unat sz) 0 :: byte list"
  let ?B = "\<lambda>c. u64_bytes o' @ u64_bytes c @ u64_bytes sz @ bytes_at m src (unat sz) @ ?zs"
  obtain c where c: "util_checksum_seq (?B 0) 0 = Some c"
    using assms(1) by (simp add: util_checksum_seq_def)
  have "ulog_entry_buf_create m ulog off dest src sz t base = Some (e, store m e (?B c))"
    using c by (simp add: ulog_entry_buf_create_def Let_def CACHELINE_SIZE_def nc d e o' ALIGN_DOWN_def
        del: replicate.simps)
  then show ?thesis
    using c assms(1) by (intro exI [of _ c] exI [of _ ?zs]) simp
qed

text \<open>The sizes of the three copies of a large buffer: 40 bytes, whole cache lines, the rest.\<close>

lemma buf_parts:
  fixes sz :: u64
  assumes "40 < unat sz"
  defines "q \<equiv> (unat sz - 40) div 64" and "r \<equiv> (unat sz - 40) mod 64"
    and "rcw \<equiv> ALIGN_DOWN (sz - 40) 64"
  shows "unat sz = 40 + (64 * q + r)" and "r < 64" and "unat rcw = 64 * q"
    and "unat (sz - 40 - rcw) = r" and "\<not> sz < 40" and "u64_min sz 40 = 40"
    and "rcw = 0 \<longleftrightarrow> q = 0" and "sz - 40 - rcw = 0 \<longleftrightarrow> r = 0"
    and "64 * ((unat sz + 87) div 64) = 64 + 64 * q + (if r = 0 then 0 else 64)"
proof -
  have k: "unat sz - 40 = 64 * q + r" and r64: "r < 64" by (simp_all add: q_def r_def)
  then show n: "unat sz = 40 + (64 * q + r)" and "r < 64" using assms(1) by simp_all
  have rem: "unat (sz - 40) = 64 * q + r"
    using n by (simp add: unat_sub word_le_nat_alt)
  show rc: "unat rcw = 64 * q"
    using r64 by (simp add: rcw_def unat_ALIGN_DOWN_64 rem)
  show lc: "unat (sz - 40 - rcw) = r"
    using rem rc by (subst unat_sub) (simp_all add: word_le_nat_alt)
  show "\<not> sz < 40" "u64_min sz 40 = 40"
    using n by (simp_all add: word_less_nat_alt word_unat_eq_iff unat_u64_min)
  show "rcw = 0 \<longleftrightarrow> q = 0" using rc by (simp add: word_unat_eq_iff)
  show "sz - 40 - rcw = 0 \<longleftrightarrow> r = 0" using lc by (simp only: word_unat_eq_iff unat_0)
  have "(127 + r) div 64 = (if r = 0 then 1 else 2)"
    using r64 by (auto intro!: div_nat_eqI)
  moreover have "unat sz + 87 = 127 + r + q * 64"
    by (simp add: n)
  ultimately show "64 * ((unat sz + 87) div 64) = 64 + 64 * q + (if r = 0 then 0 else 64)"
    by (simp only: div_mult_self1) simp
qed

lemma store_before: "store (store m (a + length xs) ys) a xs = store m a (xs @ ys)"
  by (simp add: store_commute store_append)

lemma checksum_seq_empty: "util_checksum_seq [] c = Some c"
  by (simp add: util_checksum_seq_def csum_of_join)

lemma checksum_seq_total: "length bs mod 4 = 0 \<Longrightarrow> \<exists>c'. util_checksum_seq bs c = Some c'"
  by (simp add: util_checksum_seq_def)

lemma buf_create_large:
  fixes m :: mem
  assumes "40 < unat sz" and e: "e = ulog_data ulog + unat off"
    and disj: "src + unat sz \<le> e \<or> e + 64 * ((unat sz + 87) div 64) \<le> src"
    and o': "o' = (of_nat dest - of_nat base) OR t"
  shows "\<exists>c zs. unat sz + length zs + 24 = 64 * ((unat sz + 87) div 64) \<and>
    util_checksum_seq (u64_bytes o' @ u64_bytes 0 @ u64_bytes sz @ bytes_at m src (unat sz) @ zs) 0 = Some c \<and>
    ulog_entry_buf_create m ulog off dest src sz t base =
      Some (e, store m e (u64_bytes o' @ u64_bytes c @ u64_bytes sz @ bytes_at m src (unat sz) @ zs))"
proof -
  define q where "q = (unat sz - 40) div 64"
  define r where "r = (unat sz - 40) mod 64"
  define rcw where "rcw = ALIGN_DOWN (sz - 40) 64"
  define lcw where "lcw = sz - 40 - rcw"
  note p = buf_parts [OF assms(1), folded q_def r_def rcw_def lcw_def]
  define A where "A = (\<lambda>c. u64_bytes o' @ u64_bytes c @ u64_bytes sz @ bytes_at m src 40)"
  define R where "R = bytes_at m (src + 40) (64 * q)"
  define zs where "zs = replicate (if r = 0 then 0 else 64 - r) (0 :: byte)"
  define L where "L = bytes_at m (src + 40 + 64 * q) r @ zs"
  have len: "length L = (if r = 0 then 0 else 64)" "length (A c) = 64" "length R = 64 * q" for c
    using p(2) by (simp_all add: L_def zs_def A_def R_def)
  have AR: "A c @ R @ L = u64_bytes o' @ u64_bytes c @ u64_bytes sz @ bytes_at m src (unat sz) @ zs" for c
    by (simp add: A_def R_def L_def p(1) bytes_at_append add.assoc)
  have "length (A 0) mod 4 = 0" "length R mod 4 = 0" "length L mod 4 = 0"
    by (simp_all add: len)
  then obtain c1 c2 c3 where c: "util_checksum_seq (A 0) 0 = Some c1" "util_checksum_seq R c1 = Some c2"
      "util_checksum_seq L c2 = Some c3"
    using checksum_seq_total by metis
  have all: "util_checksum_seq (A 0 @ R @ L) 0 = Some c3"
    using c util_checksum_seq_append [of "A 0" "R @ L" 0] util_checksum_seq_append [of R L c1]
    by (simp add: len)
  have rd: "bytes_at (store m (e + 64) (R @ L)) (src + 40) (64 * q) = R"
    using disj p(1,9) by (subst bytes_at_store_disjoint) (auto simp: R_def len)
  have mem: "(if lcw \<noteq> 0 then store (if rcw \<noteq> 0 then mem_cpy m (e + 64) (src + 40) (64 * q) else m) (e + 64 + 64 * q)
        (bytes_at m (src + 40 + 64 * q) r @ replicate (64 - r) 0)
      else if rcw \<noteq> 0 then mem_cpy m (e + 64) (src + 40) (64 * q) else m) = store m (e + 64) (R @ L)"
    by (auto simp: p(7,8) R_def L_def zs_def mem_cpy_def store_append)
  have s1: "(if rcw \<noteq> 0 then util_checksum_seq R c else Some c) = util_checksum_seq R c" for c
    by (auto simp: p(7) R_def checksum_seq_empty)
  have s2: "(if lcw \<noteq> 0 then util_checksum_seq (bytes_at m (src + 40 + 64 * q) r @ replicate (64 - r) 0) c else Some c) =
      util_checksum_seq L c" for c
    by (auto simp: p(8) L_def zs_def checksum_seq_empty)
  have k40: "64 - 24 = (40 :: u64)" "40 - 40 = (0 :: u64)" "unat (40 :: u64) = 40" "unat (0 :: u64) = 0"
    "e + 24 + 40 = e + 64"
    by simp_all
  note fold_ = rcw_def [symmetric] lcw_def [symmetric] e [symmetric] o' [symmetric]
  have "ulog_entry_buf_create m ulog off dest src sz t base = Some (e, store m e (A c3 @ R @ L))"
    apply (simp only: ulog_entry_buf_create_def Let_def CACHELINE_SIZE_def k40 p(5,6) if_False)
    apply (simp only: fold_ p(3,4) k40 mem rd s1 s2 replicate_0 append_Nil2)
    using c store_before [of m e "A c3" "R @ L"] by (simp add: A_def)
  then show ?thesis
    using all p(1,2,9) unfolding AR by (intro exI [of _ c3] exI [of _ zs]) (simp add: zs_def)
qed

lemma buf_create_entry:
  fixes m :: mem
  assumes "buf_type t" and "base \<le> dest" and "dest < base + 2 ^ 61" and "unat sz + 87 < 2 ^ 64"
    and "e = ulog_data ulog + unat off"
    and "src + unat sz \<le> e \<or> e + 64 * ((unat sz + 87) div 64) \<le> src"
  defines "x \<equiv> UBuf t (of_nat (dest - base)) (bytes_at m src (unat sz))"
  shows "\<exists>m'. ulog_entry_buf_create m ulog off dest src sz t base = Some (e, m') \<and> entry_at m' e x \<and>
    (\<forall>a. a < e \<or> e + ue_size x \<le> a \<longrightarrow> m' a = m a)"
proof -
  let ?o = "of_nat (dest - base) :: u64" and ?D = "bytes_at m src (unat sz)"
  let ?B = "\<lambda>c zs. u64_bytes (?o OR t) @ u64_bytes c @ u64_bytes sz @ ?D @ zs"
  have o': "?o OR t = (of_nat dest - of_nat base) OR t" using assms(2) by simp
  have "\<exists>c zs. unat sz + length zs + 24 = 64 * ((unat sz + 87) div 64) \<and>
      util_checksum_seq (?B 0 zs) 0 = Some c \<and>
      ulog_entry_buf_create m ulog off dest src sz t base = Some (e, store m e (?B c zs))"
  proof (cases "unat sz \<le> 40")
    case True
    then have "64 * ((unat sz + 87) div 64) = 64" by simp
    with buf_create_small [OF True assms(5) o'] show ?thesis by simp
  next
    case False
    with buf_create_large [OF _ assms(5,6) o'] show ?thesis by simp
  qed
  then obtain c zs where c: "unat sz + length zs + 24 = ue_size x" "util_checksum_seq (?B 0 zs) 0 = Some c"
    "ulog_entry_buf_create m ulog off dest src sz t base = Some (e, store m e (?B c zs))"
    by (auto simp: x_def)
  have sz: "of_nat (length ?D) = sz" by simp
  have "plain_offset ?o"
    using assms(2,3) by (intro plain_offset_of_nat) simp
  then have "entry_at (store m e (?B c zs)) e x"
    using buf_bytes_entry [of t ?o ?D zs c m e] c(1,2) assms(1,4) unfolding sz by (simp add: x_def)
  with c(1,3) show ?thesis by (auto simp: store_out)
qed

text \<open>\<open>ulog_entry_val_create\<close> appends a value entry to the entries already in the log, at
  the byte offset where they end, and writes a zero after it so that no leftover of an earlier
  log is read as the next entry; only those 24 bytes change.\<close>

lemma val_create_appends:
  assumes "seg_at m (ulog_data u) xs" and "unat off = seg_size xs"
    and "val_type t" and "base \<le> dest" and "dest < base + 2 ^ 61"
    and "dest \<noteq> base \<or> t \<noteq> ULOG_OPERATION_SET"
    and "ulog_entry_val_create m u off dest v t base = (e, m')"
  shows "seg_at m' (ulog_data u) (xs @ [UVal t (of_nat (dest - base)) v]) \<and>
    rd64 m' (ulog_data u + seg_size xs + 16) = 0 \<and>
    (\<forall>a. a < ulog_data u + seg_size xs \<or> ulog_data u + seg_size xs + 24 \<le> a \<longrightarrow> m' a = m a)"
proof -
  note c = val_create_entry [OF assms(3-7)]
  have e: "e = ulog_data u + seg_size xs" using c(3) assms(2) by simp
  have "seg_at m' (ulog_data u) xs"
    by (rule seg_at_cong [OF _ assms(1)]) (use c(4) in \<open>simp add: e\<close>)
  then show ?thesis
    using c(1,2,4) by (simp add: seg_at_append e)
qed

text \<open>\<open>ulog_entry_buf_create\<close> appends a buffer entry whose checksum verifies and which decodes
  to the operation, the destination and the source bytes, whatever the size of the buffer (the
  three copies of up to 40 bytes, of whole cache lines and of the padded rest included).\<close>

lemma buf_create_appends:
  assumes "seg_at m (ulog_data u) xs" and "unat off = seg_size xs"
    and "buf_type t" and "base \<le> dest" and "dest < base + 2 ^ 61" and "unat sz + 87 < 2 ^ 64"
    and "src + unat sz \<le> ulog_data u + seg_size xs \<or>
         ulog_data u + seg_size xs + 64 * ((unat sz + 87) div 64) \<le> src"
  shows "\<exists>m'. ulog_entry_buf_create m u off dest src sz t base = Some (ulog_data u + seg_size xs, m') \<and>
    seg_at m' (ulog_data u) (xs @ [UBuf t (of_nat (dest - base)) (bytes_at m src (unat sz))])"
proof -
  let ?e = "ulog_data u + seg_size xs"
  obtain m' where m': "ulog_entry_buf_create m u off dest src sz t base = Some (?e, m')"
    "entry_at m' ?e (UBuf t (of_nat (dest - base)) (bytes_at m src (unat sz)))"
    "\<And>a. a < ?e \<Longrightarrow> m' a = m a"
    using buf_create_entry [OF assms(3-6), of ?e u off src m] assms(2,7) by auto
  have "seg_at m' (ulog_data u) xs"
    by (rule seg_at_cong [OF _ assms(1)]) (use m'(3) in simp)
  with m' show ?thesis by (auto simp: seg_at_append)
qed

section \<open>Storing a log\<close>

text \<open>What \<open>ulog_store\<close> leaves when the base log holds the whole log.\<close>

lemma ulog_store_base:
  assumes "unat nbytes mod 4 = 0" and "64 * ((unat nbytes + 71) div 64) \<le> unat bnb"
    and "src + 64 + unat bnb \<le> dest \<or> dest + 64 + unat bnb \<le> src"
  obtains c m2 where
    "util_checksum_seq (field_zeroed m2 src (64 + unat nbytes) 0) 0 = Some c" "rd64 m2 src = c"
    "ulog_store m dest src nbytes bnb nexts base =
       Some (mem_cpy m2 dest src (64 + 64 * ((unat nbytes + 71) div 64)))"
    "\<And>a. a < src \<or> src + 16 \<le> a \<Longrightarrow> m2 a = m a"
proof -
  define k where "k = 64 * ((unat nbytes + 71) div 64)"
  have k: "k \<le> unat nbytes + 71" "unat nbytes + 71 < k + 64"
    unfolding k_def using dividend_less_times_div [of 64 "unat nbytes + 71"] by simp_all
  have "(unat nbytes + 71) div 64 < 2 ^ 58"
    using assms(2) unat_lt_u64 [of bnb] by simp
  then have lt: "unat nbytes + 71 < 2 ^ 64"
    using k(2) unfolding k_def by simp
  have al: "unat (CACHELINE_ALIGN (nbytes + 8)) = k"
  proof -
    have "unat (nbytes + 8) = unat nbytes + 8"
      using lt by (simp add: unat_word_ariths)
    then show ?thesis
      using lt unat_CACHELINE_ALIGN [of "nbytes + 8"] by (simp add: k_def)
  qed
  have kge: "unat nbytes + 8 \<le> k" using k(2) by simp
  have b: "u64_min bnb (CACHELINE_ALIGN (nbytes + 8)) = CACHELINE_ALIGN (nbytes + 8)"
    "u64_min bnb nbytes = nbytes"
    using assms(2) al kge by (simp_all add: word_unat_eq_iff unat_u64_min k_def [symmetric])
  define m1 where "m1 = wr64 m (ulog_next_p src) (case nexts of [] \<Rightarrow> 0 | n # _ \<Rightarrow> n)"
  have l4: "(64 + unat nbytes) mod 4 = 0" using assms(1) by presburger
  obtain c where c: "util_checksum_seq (field_zeroed m1 src (64 + unat nbytes) 0) 0 = Some c"
    using l4 by (simp add: util_checksum_seq_def length_field_zeroed)
  define m2 where "m2 = wr64 m1 src c"
  have "ulog_checksum m1 src nbytes True = Some (True, m2)"
    using util_checksum_insert [of "64 + unat nbytes" 0 m1 src c] l4 c
    by (simp add: ulog_checksum_def ulog_checksum_p_def m2_def)
  moreover have "store_next_loop base src nexts 0 bnb m = Some m"
    by (cases nexts) auto
  ultimately have "ulog_store m dest src nbytes bnb nexts base = Some (mem_cpy m2 dest src (64 + k))"
    by (simp add: ulog_store_def Let_def b al m1_def)
  moreover have "field_zeroed m2 src (64 + unat nbytes) 0 = field_zeroed m1 src (64 + unat nbytes) 0"
    unfolding m2_def by (intro field_zeroed_cong) (auto simp: wr64_out)
  moreover have "m2 a = m a" if "a < src \<or> src + 16 \<le> a" for a
    using that by (auto simp: m2_def m1_def wr64_out ulog_next_p_def)
  ultimately show ?thesis
    using that [of m2 c] c by (simp add: k_def m2_def)
qed

lemma ulog_store_log:
  assumes "seg_at m (ulog_data src) xs" and "xs \<noteq> []" and "unat nbytes = seg_size xs"
    and "rd64 m (ulog_data src + seg_size xs) = 0" and "seg_size xs + 8 \<le> ulog_cap m src"
    and "64 * ((seg_size xs + 71) div 64) \<le> unat bnb"
    and "src + 64 + unat bnb \<le> dest \<or> dest + 64 + unat bnb \<le> src"
  shows "\<exists>m1. ulog_store m dest src nbytes bnb nexts base = Some m1 \<and>
    log_at base m1 dest [xs] \<and> ulog_checksum m1 dest nbytes False = Some (True, m1) \<and>
    ulog_cap m1 dest = ulog_cap m src"
proof -
  define k where "k = 64 * ((seg_size xs + 71) div 64)"
  define N where "N = seg_size xs"
  have N4: "N mod 4 = 0" by (simp add: N_def seg_size_mod4)
  have N: "unat nbytes = N" using assms(3) N_def by simp
  have Nk: "N + 8 \<le> k"
    using dividend_less_times_div [of 64 "N + 71"] by (simp add: k_def N_def)
  obtain c m2 where c: "util_checksum_seq (field_zeroed m2 src (64 + N) 0) 0 = Some c" "rd64 m2 src = c"
    and st: "ulog_store m dest src nbytes bnb nexts base = Some (mem_cpy m2 dest src (64 + k))"
    and fr: "\<And>a. a < src \<or> src + 16 \<le> a \<Longrightarrow> m2 a = m a"
    using ulog_store_base [of nbytes bnb src dest m nexts base] assms(6,7) N4 N
    by (metis N_def k_def)
  let ?m1 = "mem_cpy m2 dest src (64 + k)"
  have eq: "bytes_at ?m1 dest (64 + k) = bytes_at m2 src (64 + k)"
    by (simp add: mem_cpy_def bytes_at_store_same)
  have cap: "rd64 ?m1 (dest + 16) = rd64 m (src + 16)" and z: "rd64 ?m1 (dest + 64 + N) = rd64 m (src + 64 + N)"
    using rd64_sub [OF eq, of 16] rd64_sub [OF eq, of "64 + N"] Nk fr
    by (auto simp: add.assoc intro!: rd64_cong)
  have "bytes_at ?m1 (dest + 64) N = bytes_at m (src + 64) N"
    using bytes_at_sub [OF eq, of 64 N] Nk fr by (auto intro!: bytes_at_eqI)
  then have seg: "seg_at ?m1 (ulog_data dest) xs"
    using assms(1) seg_at_move [of m "src + 64" xs ?m1 "dest + 64"] by (simp add: ulog_data_def N_def)
  have log: "log_at base ?m1 dest [xs]"
    using seg cap z assms(4,5) by (simp add: ulog_field_defs N_def)
  have "ulog_checksum ?m1 dest nbytes False = Some (True, ?m1)"
    using util_checksum_verify [of "64 + N" 0 ?m1 dest] N4 c field_zeroed_sub [OF eq, of 0 "64 + N"]
      rd64_sub [OF eq, of 0] Nk
    by (simp add: ulog_checksum_def ulog_checksum_p_def N mod_add_eq [symmetric])
  then show ?thesis
    using st log cap by (auto simp: ulog_capacity_p_def)
qed

section \<open>Recovery\<close>

lemma recover_crash_image:
  assumes "log_at base m r (xs # xss)" and "xs \<noteq> []"
    and "ulog_checksum m r (of_nat (seg_size xs)) False = Some (True, m)"
    and "targets_off base (xs @ concat xss) (log_foot base m r (xs # xss))"
    and "agree_off (log_mask base (xs @ concat xss)) m m'"
  shows "ulog_recover m' r base = Some (ulog_clobber (ue_apply_all base (xs @ concat xss) m) r None)"
proof -
  let ?F = "log_foot base m r (xs # xss)"
  have img: "log_at base m' r (xs # xss)" "\<And>a. a \<in> ?F \<Longrightarrow> m a = m' a"
    using crash_image_log [of base m r "xs # xss" m'] assms by auto
  have sz: "seg_size xs \<le> ulog_cap m r" and sub: "{r ..< ulog_data r + ulog_cap m r} \<subseteq> ?F"
    using assms(1) by (cases xss; auto)+
  have n: "unat (of_nat (seg_size xs) :: u64) = seg_size xs"
    using sz unat_lt_u64 [of "rd64 m (ulog_capacity_p r)"] by (simp add: unat_of_nat)
  have s4: "seg_size xs mod 4 = 0"
    by (rule seg_size_mod4)
  have eq: "rd64 m' r = rd64 m r" "field_zeroed m r (64 + seg_size xs) 0 = field_zeroed m' r (64 + seg_size xs) 0"
    using img(2) sub sz
    by (intro rd64_cong field_zeroed_cong; auto simp: ulog_field_defs subset_iff)+
  have "ulog_checksum m' r (of_nat (seg_size xs)) False = Some (True, m')"
    using assms(3) eq s4 util_checksum_verify [of "64 + seg_size xs" 0 m r]
      util_checksum_verify [of "64 + seg_size xs" 0 m' r]
    by (simp add: ulog_checksum_def ulog_checksum_p_def n mod_add_eq [symmetric])
  then have "ulog_recovery_needed m' r True = Some True"
    using recovery_needed_log [OF img(1)] assms(2) by simp
  moreover have "ulog_process m' r base = Some (ue_apply_all base (xs @ concat xss) m)"
    using ulog_process_crash_image [of base m r "xs # xss" m'] assms by simp
  ultimately show ?thesis
    by (simp add: ulog_recover_def)
qed

text \<open>C4. Recovery is atomic: take a log whose checksum verifies and that holds at least one entry,
  and any memory image that a crash while its entries were being applied can leave (any mixture of
  old and new bits at the places that the entries modify). Recovering that image gives the memory
  in which every entry of the whole chain is applied, with the log cleared.\<close>

theorem ulog_recover_atomic:
  assumes "log_at base m r (xs # xss)" and "xs \<noteq> []"
    and "ulog_checksum m r (of_nat (seg_size xs)) False = Some (True, m)"
    and "targets_off base (xs @ concat xss) (log_foot base m r (xs # xss))"
    and "agree_off (log_mask base (xs @ concat xss)) m m'"
  shows "ulog_recover m' r base = Some (ulog_clobber (ue_apply_all base (xs @ concat xss) m) r None)"
  using assms by (rule recover_crash_image)


text \<open>Recovery is idempotent: recovering again after a completed recovery changes nothing.\<close>

lemma ulog_recover_idem:
  assumes "ulog_recover m r base = Some m'"
  shows "ulog_recover m' r base = Some m'"
proof -
  obtain b where b: "ulog_recovery_needed m r True = Some b"
    using assms by (auto simp: ulog_recover_def bind_eq_Some_conv)
  show ?thesis
  proof (cases b)
    case True
    with assms b obtain m1 where "m' = ulog_clobber m1 r None"
      by (auto simp: ulog_recover_def bind_eq_Some_conv)
    then have "ulog_recovery_needed m' r True = Some False"
      by (simp add: recovery_not_needed_empty ulog_clobber_capacity)
    then show ?thesis by (simp add: ulog_recover_def)
  next
    case False
    with assms b have "m' = m" by (auto simp: ulog_recover_def)
    with False b show ?thesis by (simp add: ulog_recover_def)
  qed
qed

text \<open>An entry whose operation bits are none of the defined operations keeps recovery from
  returning: \<open>ulog_entry_size\<close> is zero for it, and the loop of \<open>ulog_base_nbytes\<close>, which runs before
  the checksum is verified, does not advance.\<close>

lemma undefined_type_hangs:
  assumes "rd64 m (ulog_data r) \<noteq> 0" and "\<not> val_type (ulog_entry_type m (ulog_data r))"
    and "\<not> buf_type (ulog_entry_type m (ulog_data r))" and "0 < rd64 m (ulog_capacity_p r)"
  shows "ulog_recover m r base = None"
proof -
  let ?e = "ulog_data r"
  have step: "ulog_entry_valid m ?e" "ulog_entry_size m ?e = 0"
    using assms by (auto simp: ulog_entry_valid_def ulog_entry_size_def Let_def val_type_def buf_type_def)
  have "\<not> (m' = m \<and> u = r \<and> off = 0)" if "base_nbytes_loop m' u off = Some n" for m' u off n
    using that step assms(4)
    by (rule_tac base_nbytes_loop.raw_induct
        [where P = "\<lambda>m' u off n. \<not> (m' = m \<and> u = r \<and> off = 0)"]) (auto split: if_splits, blast)
  then have "base_nbytes_loop m r 0 = None"
    by (cases "base_nbytes_loop m r 0") auto
  then show ?thesis
    by (simp add: ulog_recover_def ulog_recovery_needed_def ulog_base_nbytes_def)
qed

text \<open>When \<open>ulog_reserve\<close> reports success the capacity it reports is at least the requested one,
  and the vector of next logs was only extended.\<close>

lemma ulog_reserve_enough:
  assumes "ulog_reserve m ulog b new_capacity extend nexts base = Some (0, cap, nexts', m')"
  shows "new_capacity \<le> cap \<and> (\<exists>ns. nexts' = nexts @ ns)"
proof -
  have "(fst y = 0 \<longrightarrow> nc \<le> fst (snd y)) \<and> (\<exists>zs. fst (snd (snd y)) = ns @ zs)"
    if "reserve_loop ex ba nc m u c ns = Some y" for ex ba nc m u c ns y
  proof (rule reserve_loop.raw_induct [OF _ that, where
      P = "\<lambda>ex ba nc m u c ns y. (fst y = 0 \<longrightarrow> nc \<le> fst (snd y)) \<and> (\<exists>zs. fst (snd (snd y)) = ns @ zs)"])
    fix f ex ba nc m u c ns and y :: "int \<times> u64 \<times> u64 list \<times> mem"
    assume "\<And>ex ba nc m u c ns y. f ex ba nc m u c ns = Some y \<Longrightarrow>
        (fst y = 0 \<longrightarrow> nc \<le> fst (snd y)) \<and> (\<exists>zs. fst (snd (snd y)) = ns @ zs)"
      "(if c < nc then case ex m (ulog_next_p u) of (r, m') \<Rightarrow>
          if r \<noteq> 0 then Some (- 1, nc, ns, m')
          else case ulog_next m' u ba of None \<Rightarrow> None
               | Some u' \<Rightarrow> f ex ba nc m' u' (c + rd64 m' (ulog_capacity_p u')) (ns @ [rd64 m' (ulog_next_p u)])
        else Some (0, c, ns, m)) = Some y"
    note IH = this(1) and body = this(2)
    show "(fst y = 0 \<longrightarrow> nc \<le> fst (snd y)) \<and> (\<exists>zs. fst (snd (snd y)) = ns @ zs)"
    proof (cases "c < nc \<and> fst (ex m (ulog_next_p u)) = 0")
      case True
      with body show ?thesis
        by (auto split: option.splits prod.splits dest!: IH)
    next
      case False
      with body show ?thesis by (auto simp: not_less split: if_splits prod.splits)
    qed
  qed
  from this [of extend base new_capacity m _ _ nexts "(0, cap, nexts', m')"] assms show ?thesis
    by (auto simp: ulog_reserve_def split: option.splits)
qed

text \<open>The vector that \<open>ulog_rebuild_next_vec\<close> builds is a faithful index of the chain: scanning
  it, as \<open>ulog_reserve\<close> does, ends at the last log of the chain with the same capacity that
  \<open>ulog_capacity\<close> computes by following the \<open>next\<close> fields.\<close>

lemma rebuild_next_vec_scan:
  assumes "ulog_rebuild_next_vec m ulog [] base = Some ns"
  shows "\<exists>last cap. reserve_scan m base ulog ns b = Some (last, cap) \<and>
    ulog_next m last base = None \<and> ulog_capacity m ulog b base = Some cap"
proof -
  have "\<exists>ns. y = acc @ ns \<and> (\<forall>b. \<exists>last cap. reserve_scan m ba u ns b = Some (last, cap) \<and>
       ulog_next m last ba = None \<and> capacity_loop m ba u b = Some cap)"
    if "rebuild_loop m ba u acc = Some y" for m ba u acc y
  proof (rule rebuild_loop.raw_induct [OF _ that, where P = "\<lambda>m ba u acc y. \<exists>ns. y = acc @ ns \<and> (\<forall>b. \<exists>last cap. reserve_scan m ba u ns b = Some (last, cap) \<and>
       ulog_next m last ba = None \<and> capacity_loop m ba u b = Some cap)"])
    fix f m ba u acc and y :: "u64 list"
    assume IH: "\<And>m ba u acc y. f m ba u acc = Some y \<Longrightarrow> 
        \<exists>ns. y = acc @ ns \<and> (\<forall>b. \<exists>last cap. reserve_scan m ba u ns b = Some (last, cap) \<and>
       ulog_next m last ba = None \<and> capacity_loop m ba u b = Some cap)"
      and prems: "(let n = rd64 m (ulog_next_p u); nexts' = (if n \<noteq> 0 then acc @ [n] else acc)
        in case ulog_next m u ba of None \<Rightarrow> Some nexts' | Some u' \<Rightarrow> f m ba u' nexts') = Some y"
    show "\<exists>ns. y = acc @ ns \<and> (\<forall>b. \<exists>last cap. reserve_scan m ba u ns b = Some (last, cap) \<and>
       ulog_next m last ba = None \<and> capacity_loop m ba u b = Some cap)"
    proof (cases "ulog_next m u ba")
      case None
      then have "rd64 m (ulog_next_p u) = 0"
        by (auto simp: ulog_next_def ulog_by_offset_def split: if_splits)
      then show ?thesis using prems None by (subst capacity_loop.simps) auto
    next
      case (Some v)
      then have nz: "rd64 m (ulog_next_p u) \<noteq> 0" and v: "ulog_by_offset (rd64 m (ulog_next_p u)) ba = Some v"
        by (auto simp: ulog_next_def ulog_by_offset_def split: if_splits)
      from prems Some nz have "f m ba v (acc @ [rd64 m (ulog_next_p u)]) = Some y"
        by (simp add: Let_def)
      from IH [OF this] obtain ns where ns: "y = acc @ [rd64 m (ulog_next_p u)] @ ns"
        "\<And>b. \<exists>last cap. reserve_scan m ba v ns b = Some (last, cap) \<and>
           ulog_next m last ba = None \<and> capacity_loop m ba v b = Some cap"
        by auto
      show ?thesis
        by (rule exI [of _ "rd64 m (ulog_next_p u) # ns"])
          (use ns v Some in \<open>auto simp: capacity_loop.simps [of m ba u]\<close>)
    qed
  qed
  from this [of m base ulog "[]" ns] assms show ?thesis
    by (simp add: ulog_rebuild_next_vec_def ulog_capacity_def)
qed

section \<open>Examples\<close>

text \<open>A concrete log for the examples: a value entry that sets the word at 4096 to 5, in a log
  of capacity 64 at address 0, without and with its checksum.\<close>

definition sample_shadow :: mem where
  "sample_shadow = store (\<lambda>_. 0) 0
     (u64_bytes 0 @ u64_bytes 0 @ u64_bytes 64 @ replicate 40 0 @ u64_bytes 4096 @ u64_bytes 5)"

definition sample_log :: mem where
  "sample_log = snd (the (ulog_checksum sample_shadow 0 16 True))"

lemma sample_shadow_read:
  "rd64 sample_shadow 8 = 0" "rd64 sample_shadow 16 = 64"
  "rd64 sample_shadow 64 = 4096" "rd64 sample_shadow 72 = 5" "rd64 sample_shadow 80 = 0"
proof -
  show "rd64 sample_shadow 8 = 0" "rd64 sample_shadow 16 = 64"
    "rd64 sample_shadow 64 = 4096" "rd64 sample_shadow 72 = 5"
    unfolding sample_shadow_def by (rule rd64_store_inside; simp)+
  show "rd64 sample_shadow 80 = 0"
    by (simp add: sample_shadow_def rd64_store_disjoint)
qed

lemma sample_log_checksum:
  "ulog_checksum sample_log 0 16 False = Some (True, sample_log) \<and> (\<exists>c. sample_log = wr64 sample_shadow 0 c)"
proof -
  obtain c where "util_checksum sample_shadow 0 80 (0 + 0) True 0 = Some (True, wr64 sample_shadow (0 + 0) c)"
    and "util_checksum (wr64 sample_shadow (0 + 0) c) 0 80 (0 + 0) False 0 = Some (True, wr64 sample_shadow (0 + 0) c)"
    by (rule checksum_inserted [of 80 0 sample_shadow 0]) auto
  then show ?thesis
    by (auto simp: sample_log_def ulog_checksum_def ulog_checksum_p_def)
qed

lemma sample_log_read:
  "rd64 sample_log 8 = 0" "rd64 sample_log 16 = 64"
  "rd64 sample_log 64 = 4096" "rd64 sample_log 72 = 5" "rd64 sample_log 80 = 0"
proof -
  obtain c where eq: "sample_log = wr64 sample_shadow 0 c"
    using sample_log_checksum by blast
  show "rd64 sample_log 8 = 0" "rd64 sample_log 16 = 64"
    "rd64 sample_log 64 = 4096" "rd64 sample_log 72 = 5" "rd64 sample_log 80 = 0"
    unfolding eq by (simp_all add: rd64_wr64_disjoint sample_shadow_read)
qed

lemma sample_log_at: "log_at 0 sample_log 0 [[UVal 0 4096 5]]"
  by (simp add: ulog_field_defs sample_log_read val_type_def plain_offset_def ulog_op_defs)

theorem ulog_recover_atomic_witness:
  "ulog_recover sample_log 0 0 = Some (ulog_clobber (ue_apply_all 0 [UVal 0 4096 5] sample_log) 0 None)"
  using ulog_recover_atomic [of 0 sample_log 0 "[UVal 0 4096 5]" "[]" sample_log]
    sample_log_at sample_log_checksum
  by (simp add: ulog_field_defs sample_log_read ue_target_def agree_off_def)


end
