(* ===== verification/Vecq.thy ===== *)
theory Vecq
  imports Prelude
begin

text \<open>
  The ring buffer of \<^verbatim>\<open>common/vecq.h\<close>. The macros are functions on a record that holds the
  buffer, its capacity and the two running indices; an index is reduced to a position by masking
  with \<open>capacity - 1\<close>. \<open>Realloc\<close> keeps the old cells and leaves the new ones as the allocator
  found them: the parameter \<open>g\<close> of the growing operations is \<open>None\<close> when the allocation fails and
  otherwise gives the contents of the cells that were never written.
\<close>

section \<open>Operations\<close>

record 'a vecq =
  vq_buffer :: "'a list"
  vq_capacity :: nat
  vq_front :: nat
  vq_back :: nat

type_synonym 'a fresh = "(nat \<Rightarrow> 'a) option"

definition VECQ_INIT_SIZE :: nat where "VECQ_INIT_SIZE = 64"

definition VECQ_INIT :: "'a vecq" where
  "VECQ_INIT = \<lparr>vq_buffer = [], vq_capacity = 0, vq_front = 0, vq_back = 0\<rparr>"

definition VECQ_REINIT :: "'a vecq \<Rightarrow> 'a vecq" where
  "VECQ_REINIT v = v\<lparr>vq_front := 0, vq_back := 0\<rparr>"

definition VECQ_CLEAR :: "'a vecq \<Rightarrow> 'a vecq" where
  "VECQ_CLEAR v = v\<lparr>vq_front := 0, vq_back := 0\<rparr>"

definition vecq_pos :: "'a vecq \<Rightarrow> nat \<Rightarrow> nat" where
  "vecq_pos v i = i AND (vq_capacity v - 1)"

definition VECQ_SIZE :: "'a vecq \<Rightarrow> nat" where
  "VECQ_SIZE v = vq_back v - vq_front v"

definition VECQ_DEQUEUE :: "'a vecq \<Rightarrow> 'a \<times> 'a vecq" where
  "VECQ_DEQUEUE v = (vq_buffer v ! vecq_pos v (vq_front v), v\<lparr>vq_front := vq_front v + 1\<rparr>)"

definition vecq_grow :: "'a fresh \<Rightarrow> 'a vecq \<Rightarrow> int \<times> 'a vecq" where
  "vecq_grow g v =
     (let ncapacity = (if vq_capacity v = 0 then VECQ_INIT_SIZE else vq_capacity v * 2)
      in case g of
           None \<Rightarrow> (- 1, v)
         | Some f \<Rightarrow> (0, v\<lparr>vq_buffer := vq_buffer v @ map f [vq_capacity v..<ncapacity], vq_capacity := ncapacity\<rparr>))"

definition VECQ_INSERT :: "'a \<Rightarrow> 'a vecq \<Rightarrow> int \<times> 'a vecq" where
  "VECQ_INSERT el v = (0, v\<lparr>vq_buffer := (vq_buffer v)[vecq_pos v (vq_back v) := el], vq_back := vq_back v + 1\<rparr>)"

definition VECQ_ENQUEUE :: "'a fresh \<Rightarrow> 'a \<Rightarrow> 'a vecq \<Rightarrow> int \<times> 'a vecq" where
  "VECQ_ENQUEUE g el v =
     (if vq_capacity v = VECQ_SIZE v
      then case vecq_grow g v of (r, v') \<Rightarrow> if r = 0 then VECQ_INSERT el v' else (- 1, v')
      else VECQ_INSERT el v)"

text \<open>The elements that the two iteration macros visit, in their order. Both run over the
  positions from 0 to the size, whatever \<open>front\<close> is.\<close>

definition VECQ_FOREACH :: "'a vecq \<Rightarrow> 'a list" where
  "VECQ_FOREACH v = map (\<lambda>i. vq_buffer v ! vecq_pos v i) [0..<VECQ_SIZE v]"

definition VECQ_FOREACH_REVERSE :: "'a vecq \<Rightarrow> 'a list" where
  "VECQ_FOREACH_REVERSE v = map (\<lambda>i. vq_buffer v ! vecq_pos v (i - 1)) (rev [1..<VECQ_SIZE v + 1])"

section \<open>Abstraction and invariant\<close>

definition vecq_list :: "'a vecq \<Rightarrow> 'a list" where
  "vecq_list v = map (\<lambda>i. vq_buffer v ! vecq_pos v i) [vq_front v..<vq_back v]"

definition pow2_or_0 :: "nat \<Rightarrow> bool" where
  "pow2_or_0 c \<longleftrightarrow> c = 0 \<or> (\<exists>k. c = 2 ^ k)"

definition vecq_ok :: "'a vecq \<Rightarrow> bool" where
  "vecq_ok v \<longleftrightarrow> length (vq_buffer v) = vq_capacity v \<and> pow2_or_0 (vq_capacity v) \<and>
     vq_front v \<le> vq_back v \<and> VECQ_SIZE v \<le> vq_capacity v"

text \<open>An element can be added without moving a stored one: there is a free cell, or the elements
  start at cell 0 of the grown buffer.\<close>

definition vecq_room :: "'a vecq \<Rightarrow> bool" where
  "vecq_room v \<longleftrightarrow> VECQ_SIZE v < vq_capacity v \<or> vq_capacity v = 0 \<or> vq_front v mod (2 * vq_capacity v) = 0"

lemma vecq_pos_mod: "vecq_ok v \<Longrightarrow> vq_capacity v \<noteq> 0 \<Longrightarrow> vecq_pos v i = i mod vq_capacity v"
proof -
  assume "vecq_ok v" and "vq_capacity v \<noteq> 0"
  then obtain k where k: "vq_capacity v = 2 ^ k" by (auto simp: vecq_ok_def pow2_or_0_def)
  have "vecq_pos v i = i AND mask k" by (simp add: vecq_pos_def k mask_eq_exp_minus_1)
  also have "\<dots> = i mod 2 ^ k" by (simp only: take_bit_eq_mask [symmetric] take_bit_eq_mod)
  finally show ?thesis by (simp add: k)
qed

lemma length_vecq_list [simp]: "length (vecq_list v) = VECQ_SIZE v"
  by (simp add: vecq_list_def VECQ_SIZE_def)

lemma nth_vecq_list: "i < VECQ_SIZE v \<Longrightarrow> vecq_list v ! i = vq_buffer v ! vecq_pos v (vq_front v + i)"
  by (simp add: vecq_list_def VECQ_SIZE_def)

lemma mod_window_inj:
  fixes a b c :: nat
  assumes "a mod c = b mod c" and "f \<le> a" and "a < f + c" and "f \<le> b" and "b < f + c"
  shows "a = b"
proof (rule ccontr)
  assume "a \<noteq> b"
  then consider "a < b" | "b < a" by linarith
  then show False
  proof cases
    case 1
    then have "c dvd b - a" using assms(1) [symmetric] by (simp add: mod_eq_dvd_iff_nat)
    with 1 assms show False by (auto dest: dvd_imp_le)
  next
    case 2
    then have "c dvd a - b" using assms(1) by (simp add: mod_eq_dvd_iff_nat)
    with 2 assms show False by (auto dest: dvd_imp_le)
  qed
qed

lemma insert_list:
  assumes "vecq_ok v" and "VECQ_SIZE v < vq_capacity v"
  shows "vecq_list (snd (VECQ_INSERT el v)) = vecq_list v @ [el]" and "vecq_ok (snd (VECQ_INSERT el v))"
proof -
  let ?v = "snd (VECQ_INSERT el v)" and ?c = "vq_capacity v"
  have c: "?c \<noteq> 0" and fb: "vq_front v \<le> vq_back v" and len: "length (vq_buffer v) = ?c"
    using assms by (auto simp: vecq_ok_def)
  show ok: "vecq_ok ?v"
    using assms by (auto simp: vecq_ok_def VECQ_INSERT_def VECQ_SIZE_def)
  have pos: "vecq_pos ?v i = i mod ?c" "vecq_pos v i = i mod ?c" for i
    using vecq_pos_mod [OF assms(1) c] by (simp_all add: VECQ_INSERT_def vecq_pos_def)
  show "vecq_list ?v = vecq_list v @ [el]"
  proof (rule nth_equalityI)
    show "length (vecq_list ?v) = length (vecq_list v @ [el])"
      using fb by (simp add: VECQ_INSERT_def VECQ_SIZE_def)
  next
    fix i assume "i < length (vecq_list ?v)"
    then have i: "i \<le> vq_back v - vq_front v"
      by (simp add: VECQ_INSERT_def VECQ_SIZE_def)
    have lt: "vq_back v mod ?c < ?c" using c by simp
    show "vecq_list ?v ! i = (vecq_list v @ [el]) ! i"
    proof (cases "i = vq_back v - vq_front v")
      case True
      then show ?thesis
        using fb len lt pos
        by (simp add: nth_vecq_list VECQ_INSERT_def VECQ_SIZE_def nth_append)
    next
      case False
      then have "(vq_front v + i) mod ?c \<noteq> vq_back v mod ?c"
        using mod_window_inj [of "vq_front v + i" ?c "vq_back v" "vq_front v"] i assms(2) fb
        unfolding VECQ_SIZE_def by linarith
      then show ?thesis
        using False i pos fb
        by (simp add: nth_vecq_list VECQ_INSERT_def VECQ_SIZE_def nth_append)
    qed
  qed
qed

lemma grow_list:
  assumes "vecq_ok v" and "vq_capacity v = VECQ_SIZE v" and "vecq_room v" and "vecq_grow (Some f) v = (r, v')"
  shows "r = 0" and "vecq_list v' = vecq_list v" and "vecq_ok v'" and "VECQ_SIZE v' < vq_capacity v'"
proof -
  let ?c = "vq_capacity v" and ?n = "if vq_capacity v = 0 then VECQ_INIT_SIZE else vq_capacity v * 2"
  have v': "v' = v\<lparr>vq_buffer := vq_buffer v @ map f [?c..<?n], vq_capacity := ?n\<rparr>" and r: "r = 0"
    using assms(4) by (auto simp: vecq_grow_def Let_def)
  have np: "pow2_or_0 ?n" "?c < ?n"
  proof -
    show "?c < ?n" by (simp add: VECQ_INIT_SIZE_def)
    show "pow2_or_0 ?n"
    proof (cases "?c = 0")
      case True
      have "(64 :: nat) = 2 ^ 6" by simp
      then show ?thesis using True unfolding pow2_or_0_def VECQ_INIT_SIZE_def by metis
    next
      case False
      then obtain k where "?c = 2 ^ k" using assms(1) by (auto simp: vecq_ok_def pow2_or_0_def)
      then have "?n = 2 ^ Suc k" by simp
      then show ?thesis unfolding pow2_or_0_def by blast
    qed
  qed
  show "r = 0" by (rule r)
  show ok: "vecq_ok v'"
    using assms(1,2) np by (auto simp: vecq_ok_def v' VECQ_SIZE_def)
  show "VECQ_SIZE v' < vq_capacity v'"
    using assms(2) np by (simp add: v' VECQ_SIZE_def)
  show "vecq_list v' = vecq_list v"
  proof (cases "?c = 0")
    case True
    then show ?thesis using assms(2) by (simp add: vecq_list_def v' VECQ_SIZE_def)
  next
    case False
    with assms(2,3) have fr: "vq_front v mod (2 * ?c) = 0"
      by (auto simp: vecq_room_def)
    have fr': "vq_front v mod ?c = 0"
    proof -
      have "2 * ?c dvd vq_front v" using fr by (simp add: mod_eq_0_iff_dvd)
      then have "?c dvd vq_front v" by (rule dvd_mult_right)
      then show ?thesis by (simp add: mod_eq_0_iff_dvd)
    qed
    show ?thesis
    proof (rule nth_equalityI)
      show "length (vecq_list v') = length (vecq_list v)"
        by (simp add: v' VECQ_SIZE_def)
      fix i assume "i < length (vecq_list v')"
      then have i: "i < VECQ_SIZE v" and ic: "i < ?c"
        using assms(2) by (simp_all add: v' VECQ_SIZE_def)
      have "vecq_pos v' (vq_front v + i) = (vq_front v + i) mod (2 * ?c)"
        using vecq_pos_mod [OF ok] False by (simp add: v' mult.commute)
      also have "\<dots> = i" using fr ic by (simp add: mod_add_left_eq [symmetric])
      finally have p': "vecq_pos v' (vq_front v + i) = i" .
      have p: "vecq_pos v (vq_front v + i) = i"
        using vecq_pos_mod [OF assms(1) False] fr' ic by (simp add: mod_add_left_eq [symmetric])
      show "vecq_list v' ! i = vecq_list v ! i"
        using i p p' ic assms(1) unfolding vecq_ok_def
        by (simp add: nth_vecq_list) (simp add: nth_vecq_list v' VECQ_SIZE_def nth_append)
    qed
  qed
qed

lemma enqueue_list:
  assumes "vecq_ok v" and "vecq_room v"
  shows "fst (VECQ_ENQUEUE (Some f) el v) = 0"
    and "vecq_list (snd (VECQ_ENQUEUE (Some f) el v)) = vecq_list v @ [el]"
    and "vecq_ok (snd (VECQ_ENQUEUE (Some f) el v))"
proof -
  obtain r v' where g: "vecq_grow (Some f) v = (r, v')" by fastforce
  have lt: "VECQ_SIZE v < vq_capacity v" if "vq_capacity v \<noteq> VECQ_SIZE v"
    using assms(1) that by (simp add: vecq_ok_def)
  note G = grow_list [OF assms(1) _ assms(2) g]
  show "fst (VECQ_ENQUEUE (Some f) el v) = 0"
    using g G(1) by (simp add: VECQ_ENQUEUE_def VECQ_INSERT_def)
  show "vecq_list (snd (VECQ_ENQUEUE (Some f) el v)) = vecq_list v @ [el]"
    using g G insert_list(1) [OF assms(1) lt] insert_list(1) [of v' el] by (simp add: VECQ_ENQUEUE_def)
  show "vecq_ok (snd (VECQ_ENQUEUE (Some f) el v))"
    using g G insert_list(2) [OF assms(1) lt] insert_list(2) [of v' el] by (simp add: VECQ_ENQUEUE_def)
qed

lemma dequeue_list:
  assumes "vecq_ok v" and "vecq_list v \<noteq> []"
  shows "fst (VECQ_DEQUEUE v) = hd (vecq_list v)" and "vecq_list (snd (VECQ_DEQUEUE v)) = tl (vecq_list v)"
    and "vecq_ok (snd (VECQ_DEQUEUE v))"
proof -
  have lt: "vq_front v < vq_back v"
    using assms(2) by (auto simp: vecq_list_def)
  then have up: "[vq_front v..<vq_back v] = vq_front v # [vq_front v + 1..<vq_back v]"
    by (simp add: upt_conv_Cons)
  show "fst (VECQ_DEQUEUE v) = hd (vecq_list v)"
    by (simp add: VECQ_DEQUEUE_def vecq_list_def up)
  show "vecq_list (snd (VECQ_DEQUEUE v)) = tl (vecq_list v)"
    unfolding vecq_list_def up by (simp add: VECQ_DEQUEUE_def vecq_pos_def)
  show "vecq_ok (snd (VECQ_DEQUEUE v))"
    using assms(1) lt by (auto simp: VECQ_DEQUEUE_def vecq_ok_def VECQ_SIZE_def)
qed

section \<open>The queue interface\<close>

text \<open>What a client of the queue relies on: \<open>add\<close> appends where there is \<open>room\<close>, \<open>take\<close>
  removes the first element.\<close>

locale fifo =
  fixes ok :: "'q \<Rightarrow> bool" and room :: "'q \<Rightarrow> bool" and elems :: "'q \<Rightarrow> 'a list"
    and add :: "'a \<Rightarrow> 'q \<Rightarrow> 'q" and pop :: "'q \<Rightarrow> 'a \<times> 'q"
  assumes add_elems: "ok q \<Longrightarrow> room q \<Longrightarrow> elems (add x q) = elems q @ [x]"
    and add_ok: "ok q \<Longrightarrow> room q \<Longrightarrow> ok (add x q)"
    and pop_fst: "ok q \<Longrightarrow> elems q \<noteq> [] \<Longrightarrow> fst (pop q) = hd (elems q)"
    and pop_elems: "ok q \<Longrightarrow> elems q \<noteq> [] \<Longrightarrow> elems (snd (pop q)) = tl (elems q)"
    and pop_ok: "ok q \<Longrightarrow> elems q \<noteq> [] \<Longrightarrow> ok (snd (pop q))"
begin

fun pops :: "nat \<Rightarrow> 'q \<Rightarrow> 'a list \<times> 'q" where
  "pops 0 q = ([], q)"
| "pops (Suc n) q = (let (x, q') = pop q; (xs, q'') = pops n q' in (x # xs, q''))"

lemma pops_prefix:
  "ok q \<Longrightarrow> n \<le> length (elems q) \<Longrightarrow>
   fst (pops n q) = take n (elems q) \<and> elems (snd (pops n q)) = drop n (elems q) \<and> ok (snd (pops n q))"
proof (induction n arbitrary: q)
  case 0
  then show ?case by simp
next
  case (Suc n)
  then have ne: "elems q \<noteq> []" by auto
  then obtain y ys where ys: "elems q = y # ys" by (cases "elems q") auto
  obtain x q' where q': "pop q = (x, q')" by fastforce
  have "x = y" "elems q' = ys" "ok q'"
    using pop_fst [OF Suc.prems(1) ne] pop_elems [OF Suc.prems(1) ne] pop_ok [OF Suc.prems(1) ne] q' ys
    by auto
  moreover from this have "fst (pops n q') = take n ys \<and> elems (snd (pops n q')) = drop n ys \<and> ok (snd (pops n q'))"
    using Suc.IH [of q'] Suc.prems(2) ys by simp
  ultimately show ?case
    by (auto simp: q' ys split: prod.splits)
qed

lemma add_then_pops:
  assumes "ok q" and "room q"
  shows "fst (pops (Suc (length (elems q))) (add x q)) = elems q @ [x]"
  using pops_prefix [of "add x q" "Suc (length (elems q))"] assms by (simp add: add_elems add_ok)

end

interpretation vq: fifo vecq_ok vecq_room vecq_list "\<lambda>x v. snd (VECQ_ENQUEUE (Some f) x v)" VECQ_DEQUEUE
  by unfold_locales (simp_all add: enqueue_list dequeue_list)

section \<open>Theorems\<close>

text \<open>C25. The ring buffer is a FIFO as long as it does not have to move elements when it grows:
  after \<open>VECQ_ENQUEUE\<close> of \<open>x\<close>, dequeuing everything gives the elements that were queued, in order,
  and then \<open>x\<close>; the invariant is kept.\<close>

theorem vecq_fifo:
  assumes "vecq_ok v" and "vecq_room v"
  shows "fst (VECQ_ENQUEUE (Some f) x v) = 0 \<and> vecq_ok (snd (VECQ_ENQUEUE (Some f) x v)) \<and>
    fst (vq.pops (Suc (VECQ_SIZE v)) (snd (VECQ_ENQUEUE (Some f) x v))) = vecq_list v @ [x]"
  using vq.add_then_pops [OF assms, of f x] enqueue_list [OF assms, of f x] by simp

theorem vecq_fifo_witness:
  "fst (vq.pops 1 (snd (VECQ_ENQUEUE (Some (\<lambda>_. 0)) (5 :: nat) VECQ_INIT))) = [5]"
  using vecq_fifo [of "VECQ_INIT :: nat vecq" "\<lambda>_. 0" 5]
  by (simp add: vecq_ok_def vecq_room_def VECQ_INIT_def pow2_or_0_def VECQ_SIZE_def vecq_list_def)

text \<open>\<open>vecq_grow\<close> loses elements of a ring that has wrapped: it doubles the buffer without
  moving anything, so when the queue is full and does not start at cell 0 of the grown buffer, some
  element that was queued is afterwards read from a cell that was never written.\<close>

lemma vecq_grow_loses:
  assumes "vecq_ok v" and "VECQ_SIZE v = vq_capacity v" and "vq_capacity v \<noteq> 0"
    and "vq_front v mod (2 * vq_capacity v) \<noteq> 0" and "vecq_grow (Some f) v = (r, v')"
  shows "\<exists>i < VECQ_SIZE v. \<exists>j \<ge> vq_capacity v. vecq_list v' ! i = f j"
proof -
  let ?c = "vq_capacity v"
  have v': "v' = v\<lparr>vq_buffer := vq_buffer v @ map f [?c..<?c * 2], vq_capacity := ?c * 2\<rparr>"
    using assms(3,5) by (auto simp: vecq_grow_def Let_def)
  have len: "length (vq_buffer v) = ?c" using assms(1) by (simp add: vecq_ok_def)
  obtain k where k: "?c = 2 ^ k" using assms(1,3) by (auto simp: vecq_ok_def pow2_or_0_def)
  have ok': "vecq_ok v'"
  proof -
    have "pow2_or_0 (?c * 2)"
      unfolding pow2_or_0_def by (rule disjI2, rule exI [of _ "Suc k"]) (simp add: k)
    then show ?thesis
      using assms(1,2) by (auto simp: v' vecq_ok_def VECQ_SIZE_def)
  qed
  have pos: "vecq_pos v' i = i mod (2 * ?c)" for i
    using vecq_pos_mod [OF ok'] assms(3) by (simp add: v' mult.commute)
  define p where "p = vq_front v mod (2 * ?c)"
  have p: "0 < p" "p < 2 * ?c" using assms(3,4) by (simp_all add: p_def)
  define i where "i = (if p < ?c then ?c - p else 0)"
  have i: "i < ?c" "?c \<le> p + i" "p + i < 2 * ?c" using p assms(3) by (auto simp: i_def)
  have "vecq_pos v' (vq_front v + i) = p + i"
  proof -
    have "(vq_front v + i) mod (2 * ?c) = (p + i) mod (2 * ?c)"
      unfolding p_def by (rule mod_add_left_eq [symmetric])
    then show ?thesis using i(3) by (simp only: pos mod_less)
  qed
  then have "vecq_list v' ! i = f (p + i)"
    using i len assms(2) by (simp add: nth_vecq_list v' VECQ_SIZE_def nth_append mult.commute)
  then show ?thesis using i assms(2) by auto
qed

text \<open>The reverse iteration visits the queue from the newest element to the oldest when the queue
  starts at cell 0.\<close>

lemma foreach_reverse_unwrapped: "vq_front v = 0 \<Longrightarrow> VECQ_FOREACH_REVERSE v = rev (vecq_list v)"
  by (simp add: VECQ_FOREACH_REVERSE_def vecq_list_def VECQ_SIZE_def rev_map [symmetric]
      map_Suc_upt [symmetric] comp_def del: upt_Suc)

text \<open>In a full ring that has wrapped, the reverse iteration does not start with the newest
  element: with the front at position \<open>p\<close> it starts with the element that is \<open>p\<close> places older, and
  the newest one is visited only after all of those.\<close>

lemma vecq_reverse_wrapped:
  assumes "vecq_ok v" and "VECQ_SIZE v = vq_capacity v" and "vq_capacity v \<noteq> 0"
    and "p = vq_front v mod vq_capacity v" and "p \<noteq> 0"
  shows "hd (VECQ_FOREACH_REVERSE v) = vecq_list v ! (vq_capacity v - 1 - p) \<and>
    VECQ_FOREACH_REVERSE v ! (vq_capacity v - p) = last (vecq_list v)"
proof -
  let ?c = "vq_capacity v"
  note pos = vecq_pos_mod [OF assms(1,3)]
  have p: "p < ?c" using assms(3,4) by simp
  have rev: "i < ?c \<Longrightarrow> VECQ_FOREACH_REVERSE v ! i = vq_buffer v ! (?c - 1 - i)" for i
    using assms(2) by (simp add: VECQ_FOREACH_REVERSE_def rev_nth pos del: upt_Suc)
  have ne: "VECQ_FOREACH_REVERSE v \<noteq> []" "vecq_list v \<noteq> []"
    using assms(2,3) length_vecq_list [of v] by (simp_all add: VECQ_FOREACH_REVERSE_def, metis list.size(3))
  have at: "i < ?c \<Longrightarrow> vecq_list v ! i = vq_buffer v ! ((p + i) mod ?c)" for i
    using assms(2,4) by (simp add: nth_vecq_list pos mod_add_left_eq)
  have "hd (VECQ_FOREACH_REVERSE v) = vq_buffer v ! (?c - 1)"
    using rev [of 0] ne assms(3) by (simp add: hd_conv_nth)
  also have "\<dots> = vecq_list v ! (?c - 1 - p)"
    using at [of "?c - 1 - p"] p by simp
  finally have A: "hd (VECQ_FOREACH_REVERSE v) = vecq_list v ! (?c - 1 - p)" .
  have "last (vecq_list v) = vq_buffer v ! ((p + (?c - 1)) mod ?c)"
    using at [of "?c - 1"] ne assms(2,3) by (simp add: last_conv_nth)
  also have "(p + (?c - 1)) mod ?c = p - 1"
  proof -
    have eq: "p + (?c - 1) = (p - 1) + ?c" using assms(3,5) by linarith
    have "p - 1 < ?c" using p by linarith
    then show ?thesis unfolding eq by (simp only: mod_add_self2 mod_less)
  qed
  also have "vq_buffer v ! (p - 1) = VECQ_FOREACH_REVERSE v ! (?c - p)"
    using rev [of "?c - p"] p assms(5) by simp
  finally show ?thesis using A by simp
qed

end
