(* ===== verification/Memops.thy ===== *)
theory Memops
  imports Ulog_Theorems Vecq
begin

text \<open>
  The operation context of \<^verbatim>\<open>libpmemobj/memops.c\<close>, which collects memory modifications in a
  shadow log and applies them together, through a redo log, or keeps them in an undo log. The
  context is a record and every function takes and returns it with the memory. Heap allocation
  is explicit: the answers of \<open>Zalloc\<close> and \<open>Realloc\<close> (an address, or \<open>None\<close> for failure) are
  arguments of the functions that allocate. \<open>None\<close> as a result is a loop that does not end, a
  null pointer or a vector index out of range, as in the log functions that are called.
\<close>

unbundle bit_operations_syntax

section \<open>Data\<close>

datatype log_type = LOG_TYPE_UNDO | LOG_TYPE_REDO

datatype operation_log_type = LOG_PERSISTENT | LOG_TRANSIENT

definition ULOG_BASE_SIZE :: u64 where "ULOG_BASE_SIZE = 1024"
definition OP_MERGE_SEARCH :: nat where "OP_MERGE_SEARCH = 64"

record operation_log =
  ol_capacity :: u64
  ol_offset :: u64
  ol_ulog :: addr

record operation_context =
  oc_type :: log_type
  oc_extend :: "extend_fn option"
  oc_ulog_free :: free_fn
  oc_base :: addr
  ulog_curr_offset :: u64
  ulog_curr_capacity :: u64
  ulog_curr :: "addr option"
  total_logged :: u64
  oc_ulog :: addr
  oc_base_nbytes :: u64
  oc_capacity :: u64
  oc_next :: "u64 list"
  in_progress :: bool
  pshadow_ops :: operation_log
  transient_ops :: operation_log
  merge_entries :: "addr vecq"

text \<open>The fields of \<open>PMEMobjpool\<close> that decide whether an offset belongs to the pool, with the
  offsets of \<open>root_offset\<close> and \<open>root_size\<close> and the size of \<open>struct lane_layout\<close>.\<close>

record obj_pool =
  lanes_offset :: u64
  nlanes :: u64
  heap_offset :: u64
  heap_size :: u64

definition OBJ_OFF_IS_VALID :: "obj_pool \<Rightarrow> u64 \<Rightarrow> bool" where
  "OBJ_OFF_IS_VALID pop off \<longleftrightarrow>
     heap_offset pop \<le> off \<and> off < heap_offset pop + heap_size pop \<or>
     off = 6144 \<or> off = 6160 \<or>
     lanes_offset pop \<le> off \<and> off < lanes_offset pop + nlanes pop * 3072"

section \<open>Creation\<close>

text \<open>\<open>Zalloc\<close> of \<open>n\<close> bytes at the address that the allocator answers.\<close>

definition Zalloc :: "addr option \<Rightarrow> nat \<Rightarrow> mem \<Rightarrow> addr option \<times> mem" where
  "Zalloc a n m = (case a of None \<Rightarrow> (None, m) | Some p \<Rightarrow> (Some p, mem_set m p 0 n))"

text \<open>\<open>Realloc\<close> of a block of \<open>n\<close> bytes: the contents are at the new address, the bytes past
  \<open>n\<close> are whatever is there.\<close>

definition Realloc :: "addr option \<Rightarrow> addr \<Rightarrow> nat \<Rightarrow> mem \<Rightarrow> addr option \<times> mem" where
  "Realloc a old n m = (case a of None \<Rightarrow> (None, m) | Some p \<Rightarrow> (Some p, mem_cpy m p old n))"

definition operation_log_transient_init :: "addr option \<Rightarrow> mem \<Rightarrow> operation_log option \<times> mem" where
  "operation_log_transient_init a m =
     (case Zalloc a (SIZEOF_STRUCT_ULOG + unat ULOG_BASE_SIZE) m of
        (None, m) \<Rightarrow> (None, m)
      | (Some src, m) \<Rightarrow>
          (Some \<lparr>ol_capacity = ULOG_BASE_SIZE, ol_offset = 0, ol_ulog = src\<rparr>,
           wr64 m (ulog_capacity_p src) ULOG_BASE_SIZE))"

definition operation_log_persistent_init :: "addr option \<Rightarrow> u64 \<Rightarrow> mem \<Rightarrow> operation_log option \<times> mem" where
  "operation_log_persistent_init a base_nbytes m =
     (case Zalloc a (SIZEOF_STRUCT_ULOG + unat ULOG_BASE_SIZE) m of
        (None, m) \<Rightarrow> (None, m)
      | (Some src, m) \<Rightarrow>
          (Some \<lparr>ol_capacity = ULOG_BASE_SIZE, ol_offset = 0, ol_ulog = src\<rparr>,
           mem_set (wr64 m (ulog_capacity_p src) base_nbytes) (src + 24) 0 40))"

text \<open>\<open>operation_new\<close>; \<open>ctx_ok\<close> is whether the context itself can be allocated, \<open>ta\<close> and \<open>pa\<close>
  the answers for the two logs. The null pointer is the inner \<open>None\<close>.\<close>

definition operation_new ::
  "bool \<Rightarrow> addr option \<Rightarrow> addr option \<Rightarrow> addr \<Rightarrow> u64 \<Rightarrow> extend_fn option \<Rightarrow> free_fn \<Rightarrow> addr \<Rightarrow> log_type \<Rightarrow>
   mem \<Rightarrow> (operation_context option \<times> mem) option" where
  "operation_new ctx_ok ta pa ulog base_nbytes ext ulog_free base type m =
     (if \<not> ctx_ok then Some (None, m)
      else do {
        cap \<leftarrow> ulog_capacity m ulog base_nbytes base;
        nexts \<leftarrow> ulog_rebuild_next_vec m ulog [] base;
        Some (case operation_log_transient_init ta m of
            (None, m) \<Rightarrow> (None, m)
          | (Some tlog, m) \<Rightarrow>
              (case operation_log_persistent_init pa base_nbytes m of
                 (None, m) \<Rightarrow> (None, m)
               | (Some plog, m) \<Rightarrow>
                   (Some \<lparr>oc_type = type, oc_extend = ext, oc_ulog_free = ulog_free, oc_base = base,
                      ulog_curr_offset = 0, ulog_curr_capacity = 0, ulog_curr = None, total_logged = 0,
                      oc_ulog = ulog, oc_base_nbytes = base_nbytes, oc_capacity = cap,
                      oc_next = nexts, in_progress = False, pshadow_ops = plog,
                      transient_ops = tlog, merge_entries = VECQ_INIT\<rparr>, m)))
      })"

section \<open>Adding value entries\<close>

definition operation_merge :: "mem \<Rightarrow> addr \<Rightarrow> u64 \<Rightarrow> u64 \<Rightarrow> mem" where
  "operation_merge m e v t =
     (if t = ULOG_OPERATION_AND then wr64 m (e + 8) (rd64 m (e + 8) AND v)
      else if t = ULOG_OPERATION_OR then wr64 m (e + 8) (rd64 m (e + 8) OR v)
      else if t = ULOG_OPERATION_SET then wr64 m (e + 8) v
      else m)"

fun try_merge_loop :: "mem \<Rightarrow> addr list \<Rightarrow> u64 \<Rightarrow> u64 \<Rightarrow> u64 \<Rightarrow> bool \<times> mem" where
  "try_merge_loop m [] off v t = (False, m)"
| "try_merge_loop m (e # es) off v t =
     (if ulog_entry_offset m e = off
      then if ulog_entry_type m e = t then (True, operation_merge m e v t) else (False, m)
      else try_merge_loop m es off v t)"

definition operation_try_merge_entry ::
  "operation_context \<Rightarrow> mem \<Rightarrow> addr \<Rightarrow> u64 \<Rightarrow> u64 \<Rightarrow> bool \<times> mem" where
  "operation_try_merge_entry ctx m ptr v t =
     try_merge_loop m (VECQ_FOREACH_REVERSE (merge_entries ctx)) (of_nat ptr - of_nat (oc_base ctx)) v t"

definition operation_merge_entry_add :: "addr fresh \<Rightarrow> operation_context \<Rightarrow> addr \<Rightarrow> operation_context" where
  "operation_merge_entry_add g ctx entry =
     (let q = (if VECQ_SIZE (merge_entries ctx) = OP_MERGE_SEARCH
               then snd (VECQ_DEQUEUE (merge_entries ctx)) else merge_entries ctx)
      in ctx\<lparr>merge_entries := snd (VECQ_ENQUEUE g entry q)\<rparr>)"

text \<open>The log of a context that an entry goes to, and the context with that log replaced.\<close>

definition oplog_of :: "operation_log_type \<Rightarrow> operation_context \<Rightarrow> operation_log" where
  "oplog_of lt ctx = (case lt of LOG_PERSISTENT \<Rightarrow> pshadow_ops ctx | LOG_TRANSIENT \<Rightarrow> transient_ops ctx)"

definition set_oplog :: "operation_log_type \<Rightarrow> operation_log \<Rightarrow> operation_context \<Rightarrow> operation_context" where
  "set_oplog lt l ctx =
     (case lt of LOG_PERSISTENT \<Rightarrow> ctx\<lparr>pshadow_ops := l\<rparr> | LOG_TRANSIENT \<Rightarrow> ctx\<lparr>transient_ops := l\<rparr>)"

text \<open>The first part of \<open>operation_add_typed_entry\<close>: making room. \<open>None\<close> is the failed
  \<open>Realloc\<close>.\<close>

definition oplog_make_room ::
  "addr option \<Rightarrow> operation_log_type \<Rightarrow> operation_context \<Rightarrow> mem \<Rightarrow> (operation_context \<times> mem) option" where
  "oplog_make_room ra lt ctx m =
     (let oplog = oplog_of lt ctx
      in if ol_offset oplog + CACHELINE_SIZE = ol_capacity oplog
         then case Realloc ra (ol_ulog oplog) (SIZEOF_STRUCT_ULOG + unat (ol_capacity oplog)) m of
                (None, m) \<Rightarrow> None
              | (Some u, m) \<Rightarrow>
                  Some ((set_oplog lt (oplog\<lparr>ol_capacity := ol_capacity oplog + ULOG_BASE_SIZE, ol_ulog := u\<rparr>) ctx)
                        \<lparr>merge_entries := VECQ_CLEAR (merge_entries ctx)\<rparr>, m)
         else Some (ctx, m))"

definition operation_add_typed_entry ::
  "addr option \<Rightarrow> addr fresh \<Rightarrow> operation_context \<Rightarrow> mem \<Rightarrow> addr \<Rightarrow> u64 \<Rightarrow> u64 \<Rightarrow> operation_log_type \<Rightarrow>
   int \<times> operation_context \<times> mem" where
  "operation_add_typed_entry ra g ctx m ptr v t lt =
     (case oplog_make_room ra lt ctx m of
        None \<Rightarrow> (- 1, ctx, m)
      | Some (ctx, m) \<Rightarrow>
          (let (merged, m) = (if lt = LOG_PERSISTENT then operation_try_merge_entry ctx m ptr v t else (False, m))
           in if merged then (0, ctx, m)
              else let oplog = oplog_of lt ctx;
                       (e, m) = ulog_entry_val_create m (ol_ulog oplog) (ol_offset oplog) ptr v t
                                  (if lt = LOG_TRANSIENT then 0 else oc_base ctx);
                       ctx = (if lt = LOG_PERSISTENT then operation_merge_entry_add g ctx e else ctx);
                       oplog = oplog\<lparr>ol_offset := ol_offset oplog + ulog_entry_size m e\<rparr>
                   in (0, set_oplog lt oplog ctx, m)))"

definition operation_add_entry ::
  "addr option \<Rightarrow> addr fresh \<Rightarrow> obj_pool \<Rightarrow> operation_context \<Rightarrow> mem \<Rightarrow> addr \<Rightarrow> u64 \<Rightarrow> u64 \<Rightarrow>
   int \<times> operation_context \<times> mem" where
  "operation_add_entry ra g pop ctx m ptr v t =
     (let from_pool = OBJ_OFF_IS_VALID pop (of_nat ptr - of_nat (oc_base ctx))
      in operation_add_typed_entry ra g ctx m ptr v t (if from_pool then LOG_PERSISTENT else LOG_TRANSIENT))"

section \<open>Adding buffer entries\<close>

definition operation_reserve ::
  "operation_context \<Rightarrow> mem \<Rightarrow> u64 \<Rightarrow> (int \<times> operation_context \<times> mem) option" where
  "operation_reserve ctx m new_capacity =
     (if new_capacity > oc_capacity ctx then
        case oc_extend ctx of
          None \<Rightarrow> Some (- 1, ctx, m)
        | Some ext \<Rightarrow>
            do { (r, cap, nexts, m) \<leftarrow> ulog_reserve m (oc_ulog ctx) (oc_base_nbytes ctx) new_capacity ext
                                         (oc_next ctx) (oc_base ctx);
                 Some (if r \<noteq> 0 then (- 1, ctx\<lparr>oc_next := nexts\<rparr>, m)
                       else (0, ctx\<lparr>oc_next := nexts, oc_capacity := cap\<rparr>, m)) }
      else Some (0, ctx, m))"

text \<open>The head of \<open>operation_add_buffer\<close>: moving on to the next log when the current one is full.\<close>

definition buffer_make_room ::
  "operation_context \<Rightarrow> mem \<Rightarrow> u64 \<Rightarrow> (int \<times> operation_context \<times> mem) option" where
  "buffer_make_room ctx m real_size =
     (if ulog_curr_capacity ctx = 0 then
        do { (r, ctx, m) \<leftarrow> operation_reserve ctx m (total_logged ctx + real_size);
             if r \<noteq> 0 then Some (- 1, ctx, m)
             else do { u \<leftarrow> (case ulog_curr ctx of None \<Rightarrow> Some (oc_ulog ctx)
                             | Some c \<Rightarrow> ulog_next m c (oc_base ctx));
                       Some (0, ctx\<lparr>ulog_curr := Some u, ulog_curr_offset := 0,
                                   ulog_curr_capacity := rd64 m (ulog_capacity_p u)\<rparr>, m) } }
      else Some (0, ctx, m))"

partial_function (option) operation_add_buffer ::
  "operation_context \<Rightarrow> mem \<Rightarrow> addr \<Rightarrow> addr \<Rightarrow> u64 \<Rightarrow> u64 \<Rightarrow> (int \<times> operation_context \<times> mem) option" where
  "operation_add_buffer ctx m dest src sz t =
     do { let real_size = sz + 24;
          (r, ctx, m) \<leftarrow> buffer_make_room ctx m real_size;
          if r \<noteq> 0 then Some (- 1, ctx, m)
          else do {
            curr \<leftarrow> ulog_curr ctx;
            let curr_size = u64_min real_size (ulog_curr_capacity ctx);
            let data_size = curr_size - 24;
            (e, m) \<leftarrow> ulog_entry_buf_create m curr (ulog_curr_offset ctx) dest src data_size t (oc_base ctx);
            let entry_size = ALIGN_UP curr_size CACHELINE_SIZE;
            let ctx = ctx\<lparr>total_logged := total_logged ctx + entry_size,
                          ulog_curr_offset := ulog_curr_offset ctx + entry_size,
                          ulog_curr_capacity := ulog_curr_capacity ctx - entry_size\<rparr>;
            if sz - data_size = 0 then Some (0, ctx, m)
            else operation_add_buffer ctx m (dest + unat data_size) (src + unat data_size) (sz - data_size) t } }"

section \<open>Processing\<close>

text \<open>The memory after each of the three calls of \<open>operation_process_persistent_redo\<close>, which a failure can
  interrupt.\<close>

definition redo_phases :: "operation_context \<Rightarrow> mem \<Rightarrow> mem list option" where
  "redo_phases ctx m =
     do { m1 \<leftarrow> ulog_store m (oc_ulog ctx) (ol_ulog (pshadow_ops ctx)) (ol_offset (pshadow_ops ctx))
                 (oc_base_nbytes ctx) (oc_next ctx) (oc_base ctx);
          m2 \<leftarrow> ulog_process m1 (ol_ulog (pshadow_ops ctx)) (oc_base ctx);
          Some [m1, m2, ulog_clobber m2 (oc_ulog ctx) (Some (oc_next ctx))] }"

definition operation_process_persistent_redo :: "operation_context \<Rightarrow> mem \<Rightarrow> mem option" where
  "operation_process_persistent_redo ctx m = map_option last (redo_phases ctx m)"

definition operation_process_persistent_undo :: "operation_context \<Rightarrow> mem \<Rightarrow> mem option" where
  "operation_process_persistent_undo ctx m = ulog_process m (oc_ulog ctx) (oc_base ctx)"

definition operation_init :: "operation_context \<Rightarrow> operation_context" where
  "operation_init ctx =
     ctx\<lparr>transient_ops := (transient_ops ctx)\<lparr>ol_offset := 0\<rparr>,
         pshadow_ops := (pshadow_ops ctx)\<lparr>ol_offset := 0\<rparr>,
         merge_entries := VECQ_REINIT (merge_entries ctx),
         ulog_curr_offset := 0, ulog_curr_capacity := 0, ulog_curr := None, total_logged := 0\<rparr>"

definition operation_start :: "operation_context \<Rightarrow> operation_context" where
  "operation_start ctx = (operation_init ctx)\<lparr>in_progress := True\<rparr>"

definition operation_resume :: "operation_context \<Rightarrow> mem \<Rightarrow> operation_context option" where
  "operation_resume ctx m =
     map_option (\<lambda>n. (operation_init ctx)\<lparr>in_progress := True, total_logged := n\<rparr>)
       (ulog_base_nbytes m (oc_ulog ctx))"

definition operation_cancel :: "operation_context \<Rightarrow> operation_context" where
  "operation_cancel ctx = ctx\<lparr>in_progress := False\<rparr>"

definition operation_process :: "operation_context \<Rightarrow> mem \<Rightarrow> mem option" where
  "operation_process ctx m =
     (let off = ol_offset (pshadow_ops ctx);
          redo_process = (oc_type ctx = LOG_TYPE_REDO \<and> off \<noteq> 0);
          e = ulog_data (ol_ulog (pshadow_ops ctx));
          t = ulog_entry_type m e;
          single = (redo_process \<and> off = 16 \<and>
            (t = ULOG_OPERATION_SET \<or> t = ULOG_OPERATION_AND \<or> t = ULOG_OPERATION_OR))
      in do { m \<leftarrow> (if single then Some (ulog_entry_apply m e (oc_base ctx))
                   else if redo_process then operation_process_persistent_redo ctx m
                   else if oc_type ctx = LOG_TYPE_UNDO then operation_process_persistent_undo ctx m
                   else Some m);
              if ol_offset (transient_ops ctx) \<noteq> 0
              then ulog_process m (ol_ulog (transient_ops ctx)) 0
              else Some m })"

definition operation_finish :: "operation_context \<Rightarrow> mem \<Rightarrow> (operation_context \<times> mem) option" where
  "operation_finish ctx m =
     (let ctx = ctx\<lparr>in_progress := False\<rparr>
      in if oc_type ctx = LOG_TYPE_REDO \<and> ol_offset (pshadow_ops ctx) \<noteq> 0
         then map_option (Pair ctx) (operation_process ctx m)
         else if oc_type ctx = LOG_TYPE_UNDO \<and> total_logged ctx \<noteq> 0
         then do { m \<leftarrow> ulog_clobber_data m (oc_ulog ctx) (total_logged ctx) (oc_base_nbytes ctx)
                         (oc_next ctx) (oc_ulog_free ctx) (oc_base ctx);
                   cap \<leftarrow> ulog_capacity m (oc_ulog ctx) (oc_base_nbytes ctx) (oc_base ctx);
                   nexts \<leftarrow> ulog_rebuild_next_vec m (oc_ulog ctx) [] (oc_base ctx);
                   Some (ctx\<lparr>oc_capacity := cap, oc_next := nexts\<rparr>, m) }
         else Some (ctx, m))"

end
