(* ===== verification/Memops_Theorems.thy ===== *)
theory Memops_Theorems
  imports Memops
begin

text \<open>
  The theorems about operation contexts: adding value entries to the shadow log means what
  appending them means although entries are merged (for contexts whose merge window has not
  wrapped), processing a redo context applies the collected entries atomically with respect to
  crashes, an undo context restores a snapshot, and the transient log applies at most the entries
  of its first 1024 bytes.
\<close>

unbundle bit_operations_syntax

section \<open>Merging value entries\<close>

definition merge_val :: "u64 \<Rightarrow> u64 \<Rightarrow> u64 \<Rightarrow> u64" where
  "merge_val t v0 v = (if t = ULOG_OPERATION_AND then v0 AND v
     else if t = ULOG_OPERATION_OR then v0 OR v else v)"

definition words_apart :: "u64 \<Rightarrow> u64 \<Rightarrow> bool" where
  "words_apart a b \<longleftrightarrow> unat a + 8 \<le> unat b \<or> unat b + 8 \<le> unat a"

lemma wr64_same: "wr64 (wr64 m a v) a w = wr64 m a w"
  by (rule ext) (simp add: wr64_def store_def)

lemma wr64_commute: "a + 8 \<le> b \<or> b + 8 \<le> a \<Longrightarrow> wr64 (wr64 m a v) b w = wr64 (wr64 m b w) a v"
  unfolding wr64_def by (rule store_commute) simp

lemma ue_apply_val:
  "ue_apply base (UVal t off v) m = wr64 m (base + unat off) (merge_val t (rd64 m (base + unat off)) v)"
  by (simp add: merge_val_def Let_def)

lemma ue_apply_val_commute:
  assumes "words_apart o1 o2"
  shows "ue_apply base (UVal t1 o1 v1) (ue_apply base (UVal t2 o2 v2) m) =
    ue_apply base (UVal t2 o2 v2) (ue_apply base (UVal t1 o1 v1) m)"
  using assms unfolding words_apart_def ue_apply_val
  by (subst (1 2) rd64_wr64_disjoint) (auto intro!: wr64_commute)

lemma merge_val_assoc: "merge_val t (merge_val t r v0) v = merge_val t r (merge_val t v0 v)"
  by (simp add: merge_val_def and.assoc or.assoc)

lemma ue_apply_merge:
  "ue_apply base (UVal t off v) (ue_apply base (UVal t off v0) m) = ue_apply base (UVal t off (merge_val t v0 v)) m"
  by (simp only: ue_apply_val rd64_wr64_same wr64_same merge_val_assoc)

fun is_val :: "uentry \<Rightarrow> bool" where
  "is_val (UVal t off v) = True"
| "is_val (UBuf t off bs) = False"

lemma ue_apply_all_commute:
  assumes "\<forall>z\<in>set zs. is_val z \<and> words_apart off (ue_off z)"
  shows "ue_apply_all base zs (ue_apply base (UVal t off v) m) = ue_apply base (UVal t off v) (ue_apply_all base zs m)"
  using assms
proof (induction zs arbitrary: m)
  case (Cons z zs)
  then obtain t2 o2 v2 where z: "z = UVal t2 o2 v2" by (cases z) auto
  have "ue_apply base z (ue_apply base (UVal t off v) m) = ue_apply base (UVal t off v) (ue_apply base z m)"
    using Cons.prems by (simp only: z) (rule ue_apply_val_commute [symmetric], simp add: z)
  then show ?case using Cons by (simp del: ue_apply.simps)
qed simp

lemma merge_in_log:
  assumes "\<forall>z\<in>set zs. is_val z \<and> words_apart off (ue_off z)"
  shows "ue_apply_all base (ys @ UVal t off (merge_val t v0 v) # zs) m =
    ue_apply_all base ((ys @ UVal t off v0 # zs) @ [UVal t off v]) m"
  using ue_apply_all_commute [OF assms, of base t v]
  by (simp del: ue_apply.simps add: ue_apply_merge [symmetric])

section \<open>The entries of a shadow log\<close>

lemma seg_size_vals: "\<forall>x\<in>set xs. is_val x \<Longrightarrow> seg_size xs = 16 * length xs"
proof (induction xs)
  case (Cons x xs)
  then show ?case by (cases x) auto
qed simp

lemma seg_at_nth:
  assumes "seg_at m D xs" and "\<forall>x\<in>set xs. is_val x" and "i < length xs"
  shows "entry_at m (D + 16 * i) (xs ! i)"
proof -
  have "xs = take i xs @ xs ! i # drop (Suc i) xs"
    using assms(3) by (rule id_take_nth_drop)
  moreover have "seg_size (take i xs) = 16 * i"
    using assms(2,3) by (subst seg_size_vals) (auto dest: in_set_takeD)
  ultimately show ?thesis
    using assms(1) by (metis seg_at.simps(2) seg_at_append)
qed

lemma seg_at_update:
  assumes "seg_at m D xs" and "\<forall>x\<in>set xs. is_val x" and "i < length xs" and "xs ! i = UVal t off v0"
  shows "seg_at (wr64 m (D + 16 * i + 8) v) D (xs[i := UVal t off v])"
proof -
  let ?ys = "take i xs" and ?zs = "drop (Suc i) xs" and ?m = "wr64 m (D + 16 * i + 8) v"
  have xs: "xs = ?ys @ xs ! i # ?zs"
    using assms(3) by (rule id_take_nth_drop)
  have sz: "seg_size ?ys = 16 * i"
    using assms(2,3) by (subst seg_size_vals) (auto dest: in_set_takeD)
  have at: "seg_at m D ?ys" "entry_at m (D + 16 * i) (UVal t off v0)" "seg_at m (D + 16 * i + 16) ?zs"
    using assms(1,4) sz by (subst (asm) xs, simp add: seg_at_append)+
  have "seg_at ?m D ?ys"
    by (rule seg_at_cong [OF _ at(1)]) (auto simp: sz wr64_out)
  moreover have "entry_at ?m (D + 16 * i) (UVal t off v)"
    using at(2) by (simp add: rd64_wr64_disjoint)
  moreover have "seg_at ?m (D + 16 * i + 16) ?zs"
    by (rule seg_at_cong [OF _ at(3)]) (auto simp: wr64_out)
  moreover have "xs[i := UVal t off v] = ?ys @ UVal t off v # ?zs"
    using assms(3) by (rule upd_conv_take_nth_drop)
  ultimately show ?thesis
    by (simp add: seg_at_append sz add.assoc)
qed

lemma operation_merge_val:
  "val_type t \<Longrightarrow> operation_merge m e v t = wr64 m (e + 8) (merge_val t (rd64 m (e + 8)) v)"
  by (auto simp: operation_merge_def merge_val_def val_type_def)

text \<open>The reverse search over the newest entries either finds the newest entry of the offset and
  merges into it, or changes nothing.\<close>

lemma try_merge_loop_spec:
  assumes "seg_at m D xs" and "\<forall>x\<in>set xs. is_val x" and "val_type t"
    and "n0 \<le> k" and "k \<le> length xs" and "\<forall>i. k \<le> i \<longrightarrow> i < length xs \<longrightarrow> ue_off (xs ! i) \<noteq> off"
    and "try_merge_loop m (rev (map (\<lambda>i. D + 16 * i) [n0..<k])) off v t = (b, m')"
  shows "\<not> b \<and> m' = m \<or>
    b \<and> (\<exists>i v0. i < length xs \<and> xs ! i = UVal t off v0 \<and>
      (\<forall>j. i < j \<longrightarrow> j < length xs \<longrightarrow> ue_off (xs ! j) \<noteq> off) \<and>
      m' = wr64 m (D + 16 * i + 8) (merge_val t v0 v))"
  using assms(4-7)
proof (induction k)
  case 0
  then show ?case by simp
next
  case (Suc k)
  show ?case
  proof (cases "n0 = Suc k")
    case True
    then show ?thesis using Suc.prems by simp
  next
    case False
    then have up: "[n0..<Suc k] = [n0..<k] @ [k]" and n0: "n0 \<le> k" using Suc.prems(1) by auto
    have k: "k < length xs" using Suc.prems(2) by simp
    have at: "entry_at m (D + 16 * k) (xs ! k)"
      using assms(1,2) k by (rule seg_at_nth)
    obtain t2 o2 v2 where x: "xs ! k = UVal t2 o2 v2"
      using assms(2) nth_mem [OF k] by (cases "xs ! k") fastforce+
    have dec: "ulog_entry_offset m (D + 16 * k) = o2" "ulog_entry_type m (D + 16 * k) = t2"
        "rd64 m (D + 16 * k + 8) = v2"
      using entry_at_decode [OF at] at x by auto
    show ?thesis
    proof (cases "o2 = off")
      case True
      show ?thesis
      proof (cases "t2 = t")
        case t: True
        have "b" "m' = wr64 m (D + 16 * k + 8) (merge_val t v2 v)"
          using Suc.prems(4) up dec True t assms(3) by (auto simp: operation_merge_val)
        moreover have "\<forall>j. k < j \<longrightarrow> j < length xs \<longrightarrow> ue_off (xs ! j) \<noteq> off"
          using Suc.prems(3) by auto
        ultimately show ?thesis using k x True t by blast
      next
        case t: False
        then show ?thesis using Suc.prems(4) up dec True by auto
      qed
    next
      case False
      then have "try_merge_loop m (rev (map (\<lambda>i. D + 16 * i) [n0..<k])) off v t = (b, m')"
        using Suc.prems(4) up dec by simp
      moreover have "\<forall>i. k \<le> i \<longrightarrow> i < length xs \<longrightarrow> ue_off (xs ! i) \<noteq> off"
        using Suc.prems(3) False x by (metis le_antisym not_less_eq_eq ue_off.simps(1))
      ultimately show ?thesis using Suc.IH n0 k by auto
    qed
  qed
qed

section \<open>The invariant of a shadow log\<close>

definition shadow_inv :: "operation_context \<Rightarrow> mem \<Rightarrow> uentry list \<Rightarrow> bool" where
  "shadow_inv ctx m xs \<longleftrightarrow>
     (let l = pshadow_ops ctx; q = merge_entries ctx; D = ulog_data (ol_ulog l); n = length xs
      in seg_at m D xs \<and> (\<forall>x\<in>set xs. is_val x) \<and>
         unat (ol_offset l) = 16 * n \<and> 16 * n + 64 \<le> unat (ol_capacity l) \<and> unat (ol_capacity l) mod 16 = 0 \<and>
         (xs \<noteq> [] \<longrightarrow> rd64 m (D + 16 * n) = 0) \<and>
         vecq_ok q \<and> vq_front q = 0 \<and> (vq_capacity q = 0 \<or> 64 \<le> vq_capacity q) \<and>
         (\<exists>n0 \<le> n. vecq_list q = map (\<lambda>i. D + 16 * i) [n0..<n]) \<and>
         16 * VECQ_SIZE q + unat (ol_capacity l) \<le> 1088 + 16 * n)"

lemma shadow_invD:
  assumes "shadow_inv ctx m xs"
  shows "seg_at m (ulog_data (ol_ulog (pshadow_ops ctx))) xs" and "\<forall>x\<in>set xs. is_val x"
    and "unat (ol_offset (pshadow_ops ctx)) = 16 * length xs"
    and "16 * length xs + 64 \<le> unat (ol_capacity (pshadow_ops ctx))"
    and "xs \<noteq> [] \<Longrightarrow> rd64 m (ulog_data (ol_ulog (pshadow_ops ctx)) + 16 * length xs) = 0"
  using assms by (simp_all add: shadow_inv_def Let_def)

lemma vecq_clear_ok: "vecq_ok q \<Longrightarrow> vecq_ok (VECQ_CLEAR q)"
  by (auto simp: vecq_ok_def VECQ_CLEAR_def VECQ_SIZE_def)

text \<open>Making room keeps the invariant and leaves at least one free entry before the spare line.\<close>

lemma make_room_inv:
  assumes "shadow_inv ctx m xs" and "unat (ol_capacity (pshadow_ops ctx)) < 2 ^ 62"
    and "oplog_make_room ra LOG_PERSISTENT ctx m = Some (ctx', m')"
  shows "shadow_inv ctx' m' xs" and "16 * length xs + 80 \<le> unat (ol_capacity (pshadow_ops ctx'))"
    and "oc_base ctx' = oc_base ctx"
proof -
  let ?l = "pshadow_ops ctx" and ?n = "length xs"
  let ?D = "ulog_data (ol_ulog ?l)" and ?C = "unat (ol_capacity ?l)"
  note inv = assms(1) [unfolded shadow_inv_def Let_def]
  have full: "ol_offset ?l + CACHELINE_SIZE = ol_capacity ?l \<longleftrightarrow> 16 * ?n + 64 = ?C"
  proof -
    have "unat (ol_offset ?l + CACHELINE_SIZE) = 16 * ?n + 64"
      using inv assms(2) by (simp add: unat_word_ariths CACHELINE_SIZE_def)
    then show ?thesis by (simp add: word_unat_eq_iff)
  qed
  have C16: "16 * ?n + 80 \<le> ?C" if "16 * ?n + 64 \<noteq> ?C"
  proof -
    obtain k where k: "?C = 16 * k" using inv by (metis mod_0_imp_dvd dvdE)
    have "16 * ?n + 64 \<le> 16 * k" using inv k by simp
    with that show ?thesis unfolding k by presburger
  qed
  have "shadow_inv ctx' m' xs \<and> 16 * ?n + 80 \<le> unat (ol_capacity (pshadow_ops ctx')) \<and> oc_base ctx' = oc_base ctx"
  proof (cases "16 * ?n + 64 = ?C")
    case False
    then show ?thesis
      using assms(1,3) full C16 by (simp add: oplog_make_room_def oplog_of_def)
  next
    case True
    then obtain u where u: "ra = Some u"
      and ctx': "ctx' = ctx\<lparr>pshadow_ops := ?l\<lparr>ol_capacity := ol_capacity ?l + ULOG_BASE_SIZE, ol_ulog := u\<rparr>,
        merge_entries := VECQ_CLEAR (merge_entries ctx)\<rparr>"
      and m': "m' = mem_cpy m u (ol_ulog ?l) (64 + ?C)"
      using assms(3) full
      by (auto simp: oplog_make_room_def oplog_of_def set_oplog_def Realloc_def Let_def split: option.splits)
    have cap: "unat (ol_capacity ?l + ULOG_BASE_SIZE) = ?C + 1024"
      using assms(2) by (simp add: unat_word_ariths ULOG_BASE_SIZE_def)
    have eq: "bytes_at m (ol_ulog ?l) (64 + ?C) = bytes_at m' u (64 + ?C)"
      by (simp add: m' mem_cpy_def bytes_at_store_same)
    have seg: "seg_at m' (ulog_data u) xs"
      by (rule seg_at_move [where m = m and e = ?D])
        (use bytes_at_sub [OF eq, of 64 "seg_size xs"] inv seg_size_vals [of xs] in \<open>auto simp: ulog_data_def\<close>)
    have z: "rd64 m' (ulog_data u + 16 * ?n) = rd64 m (?D + 16 * ?n)"
      using rd64_sub [OF eq, of "64 + 16 * ?n"] inv by (simp add: ulog_data_def add.assoc)
    have q: "VECQ_SIZE (VECQ_CLEAR (merge_entries ctx)) = 0" "vecq_list (VECQ_CLEAR (merge_entries ctx)) = []"
      "vq_front (VECQ_CLEAR (merge_entries ctx)) = 0"
      "vq_capacity (VECQ_CLEAR (merge_entries ctx)) = vq_capacity (merge_entries ctx)"
      by (simp_all add: VECQ_CLEAR_def VECQ_SIZE_def vecq_list_def)
    have "shadow_inv ctx' m' xs"
      unfolding shadow_inv_def Let_def
      using inv seg z cap True vecq_clear_ok [of "merge_entries ctx"] q
      by (auto simp: ctx' intro!: exI [of _ ?n])
    then show ?thesis using cap True by (simp add: ctx')
  qed
  then show "shadow_inv ctx' m' xs" "16 * length xs + 80 \<le> unat (ol_capacity (pshadow_ops ctx'))"
    "oc_base ctx' = oc_base ctx" by auto
qed

lemma merge_entry_add:
  assumes "vecq_ok q" and "vq_front q = 0" and "VECQ_SIZE q < 64" and "vq_capacity q = 0 \<or> 64 \<le> vq_capacity q"
    and "merge_entries ctx = q" and "q' = merge_entries (operation_merge_entry_add g ctx e)"
  shows "vecq_ok q'" and "vq_front q' = 0" and "vq_capacity q' = 0 \<or> 64 \<le> vq_capacity q'"
    and "vecq_list q' = vecq_list q @ [e] \<or> vecq_list q' = [] \<and> vecq_list q = []"
    and "VECQ_SIZE q' \<le> VECQ_SIZE q + 1"
proof -
  have q': "q' = snd (VECQ_ENQUEUE g e q)"
    using assms(3,5,6) by (simp add: operation_merge_entry_add_def OP_MERGE_SEARCH_def)
  have room: "vecq_room q" using assms(3,4) by (auto simp: vecq_room_def)
  show c: "vq_front q' = 0" "vq_capacity q' = 0 \<or> 64 \<le> vq_capacity q'"
    using assms(2-4) by (auto simp: q' VECQ_ENQUEUE_def vecq_grow_def VECQ_INSERT_def VECQ_INIT_SIZE_def Let_def
        split: option.splits)
  show sz: "VECQ_SIZE q' \<le> VECQ_SIZE q + 1"
    by (auto simp: q' VECQ_ENQUEUE_def vecq_grow_def VECQ_INSERT_def VECQ_SIZE_def Let_def split: option.splits)
  have "vecq_ok q' \<and> (vecq_list q' = vecq_list q @ [e] \<or> vecq_list q' = [] \<and> vecq_list q = [])"
  proof (cases g)
    case (Some f)
    then show ?thesis using enqueue_list [OF assms(1) room] q' by auto
  next
    case None
    show ?thesis
    proof (cases "vq_capacity q = VECQ_SIZE q")
      case True
      then have "VECQ_SIZE q = 0" "q' = q"
        using assms(3,4) None by (auto simp: q' VECQ_ENQUEUE_def vecq_grow_def)
      then show ?thesis using assms(1) length_vecq_list [of q] by (metis length_0_conv)
    next
      case False
      then show ?thesis
        using assms(1) insert_list [of q e] by (auto simp: q' VECQ_ENQUEUE_def vecq_ok_def)
    qed
  qed
  then show "vecq_ok q'" "vecq_list q' = vecq_list q @ [e] \<or> vecq_list q' = [] \<and> vecq_list q = []" by auto
qed

text \<open>Appending an entry at the end of the shadow log.\<close>

lemma append_inv:
  assumes inv: "shadow_inv ctx m xs" and room: "16 * length xs + 80 \<le> unat (ol_capacity (pshadow_ops ctx))"
    and "val_type t" and "oc_base ctx \<le> ptr" and "ptr < oc_base ctx + 2 ^ 61"
    and "ptr \<noteq> oc_base ctx \<or> t \<noteq> ULOG_OPERATION_SET"
    and cr: "ulog_entry_val_create m (ol_ulog (pshadow_ops ctx)) (ol_offset (pshadow_ops ctx)) ptr v t (oc_base ctx) = (e, m')"
  shows "shadow_inv ((operation_merge_entry_add g ctx e)\<lparr>pshadow_ops := (pshadow_ops ctx)
      \<lparr>ol_offset := ol_offset (pshadow_ops ctx) + ulog_entry_size m' e\<rparr>\<rparr>) m'
    (xs @ [UVal t (of_nat (ptr - oc_base ctx)) v])" (is "shadow_inv ?ctx m' ?xs")
proof -
  let ?l = "pshadow_ops ctx" and ?n = "length xs" and ?q = "merge_entries ctx"
  let ?D = "ulog_data (ol_ulog ?l)"
  note I = inv [unfolded shadow_inv_def Let_def]
  note c = val_create_entry [OF assms(3-6) cr]
  have e: "e = ?D + 16 * ?n" using c(3) I by simp
  have "seg_at m' ?D xs"
    by (rule seg_at_cong [of ?D xs m]) (use c(4) e I seg_size_vals [of xs] in auto)
  then have seg: "seg_at m' ?D ?xs"
    using c(1) e I seg_size_vals [of xs] by (simp add: seg_at_append del: entry_at.simps)
  have "unat (ulog_entry_size m' e) = 16"
    using entry_at_size [OF c(1)] by simp
  then have off: "unat (ol_offset ?l + ulog_entry_size m' e) = 16 * ?n + 16"
    using I room unat_lt_u64 [of "ol_capacity ?l"] by (simp add: unat_word_ariths)
  have qs: "VECQ_SIZE ?q < 64" using I room by simp
  define q' where "q' = merge_entries (operation_merge_entry_add g ctx e)"
  have me: "merge_entries ?ctx = q'" "pshadow_ops ?ctx = ?l\<lparr>ol_offset := ol_offset ?l + ulog_entry_size m' e\<rparr>"
    by (simp_all add: q'_def operation_merge_entry_add_def Let_def)
  have A: "vecq_ok ?q" "vq_front ?q = 0" "vq_capacity ?q = 0 \<or> 64 \<le> vq_capacity ?q" using I by auto
  note Q = merge_entry_add [OF A(1,2) qs A(3) refl q'_def]
  obtain n0 where n0: "n0 \<le> ?n" "vecq_list ?q = map (\<lambda>i. ?D + 16 * i) [n0..<?n]" using I by blast
  have "\<exists>n0 \<le> length ?xs. vecq_list q' = map (\<lambda>i. ?D + 16 * i) [n0..<length ?xs]"
    using Q(4)
  proof
    assume "vecq_list q' = vecq_list ?q @ [e]"
    with n0 e show ?thesis by (auto intro!: exI [of _ n0])
  next
    assume "vecq_list q' = [] \<and> vecq_list ?q = []"
    then show ?thesis by (auto intro!: exI [of _ "Suc ?n"])
  qed
  moreover have "rd64 m' (?D + 16 * length ?xs) = 0" using c(2) by (simp add: e add.assoc add.commute [of 16])
  moreover have "\<forall>x\<in>set ?xs. is_val x" using I by auto
  moreover have "16 * VECQ_SIZE q' + unat (ol_capacity ?l) \<le> 1088 + 16 * length ?xs" using I Q(5) by simp
  ultimately show ?thesis
    unfolding shadow_inv_def Let_def me using seg off I room Q(1-3) by simp
qed

lemma offset_of_ptr: "b \<le> p \<Longrightarrow> of_nat p - of_nat b = (of_nat (p - b) :: u64)"
  by simp

lemma try_merge_entry_spec:
  assumes "shadow_inv ctx m xs" and "val_type t" and "oc_base ctx \<le> ptr"
    and "operation_try_merge_entry ctx m ptr v t = (b, m')"
  shows "\<not> b \<and> m' = m \<or> b \<and> (\<exists>i v0. i < length xs \<and> xs ! i = UVal t (of_nat (ptr - oc_base ctx)) v0 \<and>
      (\<forall>j. i < j \<longrightarrow> j < length xs \<longrightarrow> ue_off (xs ! j) \<noteq> of_nat (ptr - oc_base ctx)) \<and>
      m' = wr64 m (ulog_data (ol_ulog (pshadow_ops ctx)) + 16 * i + 8) (merge_val t v0 v))"
proof -
  let ?D = "ulog_data (ol_ulog (pshadow_ops ctx))" and ?q = "merge_entries ctx"
  note I = assms(1) [unfolded shadow_inv_def Let_def]
  obtain n0 where n0: "n0 \<le> length xs" "vecq_list ?q = map (\<lambda>i. ?D + 16 * i) [n0..<length xs]" using I by blast
  have "VECQ_FOREACH_REVERSE ?q = rev (map (\<lambda>i. ?D + 16 * i) [n0..<length xs])"
    using I n0(2) foreach_reverse_unwrapped [of ?q] by simp
  then have loop: "try_merge_loop m (rev (map (\<lambda>i. ?D + 16 * i) [n0..<length xs])) (of_nat (ptr - oc_base ctx)) v t = (b, m')"
    using assms(4) offset_of_ptr [OF assms(3)] by (simp add: operation_try_merge_entry_def)
  then show ?thesis
    using try_merge_loop_spec [of m ?D xs t n0 "length xs" "of_nat (ptr - oc_base ctx)" v b m'] I assms(2) n0(1) by auto
qed

text \<open>With room in the log an addition succeeds, whatever the allocator answers, and writes only to the
  data of the log.\<close>

lemma add_typed_entry_room:
  assumes inv: "shadow_inv ctx m xs" and room: "16 * length xs + 80 \<le> unat (ol_capacity (pshadow_ops ctx))"
    and t: "val_type t" and p: "oc_base ctx \<le> ptr" "ptr < oc_base ctx + 2 ^ 61" "ptr \<noteq> oc_base ctx \<or> t \<noteq> ULOG_OPERATION_SET"
    and add: "operation_add_typed_entry ra g ctx m ptr v t LOG_PERSISTENT = (r, ctx', m')"
  shows "r = 0" and "\<exists>off q. ctx' = ctx\<lparr>pshadow_ops := (pshadow_ops ctx)\<lparr>ol_offset := off\<rparr>, merge_entries := q\<rparr>"
    and "\<And>a. a < ulog_data (ol_ulog (pshadow_ops ctx)) \<or>
      ulog_data (ol_ulog (pshadow_ops ctx)) + unat (ol_capacity (pshadow_ops ctx)) \<le> a \<Longrightarrow> m' a = m a"
proof -
  let ?l = "pshadow_ops ctx"
  let ?D = "ulog_data (ol_ulog ?l)"
  note I = shadow_invD [OF inv]
  have "unat (ol_offset ?l + CACHELINE_SIZE) = 16 * length xs + 64"
    using I(3) room unat_lt_u64 [of "ol_capacity ?l"] by (simp add: unat_word_ariths CACHELINE_SIZE_def)
  then have nofull: "ol_offset ?l + CACHELINE_SIZE \<noteq> ol_capacity ?l" using room by auto
  obtain b m2 where tm: "operation_try_merge_entry ctx m ptr v t = (b, m2)" by fastforce
  note S = try_merge_entry_spec [OF inv t p(1) tm]
  obtain e m3 where cr: "ulog_entry_val_create m (ol_ulog ?l) (ol_offset ?l) ptr v t (oc_base ctx) = (e, m3)" by fastforce
  note C = val_create_entry [OF t p cr]
  have res: "(r, ctx', m') = (if b then (0, ctx, m2) else (0, (operation_merge_entry_add g ctx e)\<lparr>pshadow_ops :=
      ?l\<lparr>ol_offset := ol_offset ?l + ulog_entry_size m3 e\<rparr>\<rparr>, m3))"
    using add nofull tm S cr
    by (auto simp: operation_add_typed_entry_def oplog_make_room_def oplog_of_def set_oplog_def Let_def)
  show "r = 0" using res by (auto split: if_splits)
  show "\<exists>off q. ctx' = ctx\<lparr>pshadow_ops := ?l\<lparr>ol_offset := off\<rparr>, merge_entries := q\<rparr>"
  proof (cases b)
    case True
    then have "ctx' = ctx\<lparr>pshadow_ops := ?l\<lparr>ol_offset := ol_offset ?l\<rparr>, merge_entries := merge_entries ctx\<rparr>"
      using res by simp
    then show ?thesis by blast
  next
    case False
    then have "ctx' = ctx\<lparr>pshadow_ops := ?l\<lparr>ol_offset := ol_offset ?l + ulog_entry_size m3 e\<rparr>,
        merge_entries := merge_entries (operation_merge_entry_add g ctx e)\<rparr>"
      using res by (simp add: operation_merge_entry_add_def Let_def)
    then show ?thesis by blast
  qed
  show "m' a = m a" if "a < ?D \<or> ?D + unat (ol_capacity ?l) \<le> a" for a
    using that res S C(3,4) I(3) room by (auto split: if_splits simp: wr64_out)
qed

text \<open>One addition: the invariant is kept and the new log means the old one followed by the new
  entry, merged or not.\<close>

lemma add_typed_entry_spec:
  assumes inv: "shadow_inv ctx m xs" and cap: "unat (ol_capacity (pshadow_ops ctx)) < 2 ^ 62"
    and "val_type t" and "oc_base ctx \<le> ptr" and "ptr < oc_base ctx + 2 ^ 61"
    and "ptr \<noteq> oc_base ctx \<or> t \<noteq> ULOG_OPERATION_SET"
    and apart: "\<forall>x\<in>set xs. ue_off x = of_nat (ptr - oc_base ctx) \<or> words_apart (of_nat (ptr - oc_base ctx)) (ue_off x)"
    and add: "operation_add_typed_entry ra g ctx m ptr v t LOG_PERSISTENT = (0, ctx', m')"
  shows "\<exists>xs'. shadow_inv ctx' m' xs' \<and> oc_base ctx' = oc_base ctx \<and> length xs' \<le> length xs + 1 \<and>
    ue_off ` set xs' = insert (of_nat (ptr - oc_base ctx)) (ue_off ` set xs) \<and>
    (\<forall>b mm. ue_apply_all b xs' mm = ue_apply_all b (xs @ [UVal t (of_nat (ptr - oc_base ctx)) v]) mm)"
proof -
  let ?o = "of_nat (ptr - oc_base ctx) :: u64"
  obtain c1 m1 where r: "oplog_make_room ra LOG_PERSISTENT ctx m = Some (c1, m1)"
    using add by (auto simp: operation_add_typed_entry_def split: option.splits)
  note R = make_room_inv [OF inv cap r]
  let ?D = "ulog_data (ol_ulog (pshadow_ops c1))"
  note I = R(1) [unfolded shadow_inv_def Let_def]
  obtain b m2 where tm: "operation_try_merge_entry c1 m1 ptr v t = (b, m2)" by fastforce
  have S: "\<not> b \<and> m2 = m1 \<or> b \<and> (\<exists>i v0. i < length xs \<and> xs ! i = UVal t ?o v0 \<and>
      (\<forall>j. i < j \<longrightarrow> j < length xs \<longrightarrow> ue_off (xs ! j) \<noteq> ?o) \<and> m2 = wr64 m1 (?D + 16 * i + 8) (merge_val t v0 v))"
    using try_merge_entry_spec [OF R(1) assms(3) _ tm] assms(4) R(3) by simp
  show ?thesis
  proof (cases b)
    case False
    with S have m2: "m2 = m1" by simp
    obtain e m3 where cr: "ulog_entry_val_create m1 (ol_ulog (pshadow_ops c1)) (ol_offset (pshadow_ops c1)) ptr v t
        (oc_base c1) = (e, m3)" by fastforce
    have ctx': "ctx' = (operation_merge_entry_add g c1 e)\<lparr>pshadow_ops := (pshadow_ops c1)
        \<lparr>ol_offset := ol_offset (pshadow_ops c1) + ulog_entry_size m3 e\<rparr>\<rparr>" "m' = m3"
      using add r tm False m2 cr by (auto simp: operation_add_typed_entry_def oplog_of_def set_oplog_def Let_def)
    have "shadow_inv ctx' m' (xs @ [UVal t ?o v])"
      using append_inv [OF R(1,2) assms(3) _ _ _ cr, of g] assms(4-6) R(3) by (simp add: ctx')
    moreover have "oc_base ctx' = oc_base ctx"
      using R(3) by (simp add: ctx' operation_merge_entry_add_def Let_def)
    ultimately show ?thesis by (intro exI [of _ "xs @ [UVal t ?o v]"]) auto
  next
    case True
    with S obtain i v0 where i: "i < length xs" "xs ! i = UVal t ?o v0"
      "\<And>j. i < j \<Longrightarrow> j < length xs \<Longrightarrow> ue_off (xs ! j) \<noteq> ?o"
      and m2: "m2 = wr64 m1 (?D + 16 * i + 8) (merge_val t v0 v)" by blast
    have c': "ctx' = c1" "m' = m2"
      using add r tm True by (auto simp: operation_add_typed_entry_def)
    let ?xs = "xs[i := UVal t ?o (merge_val t v0 v)]"
    have xs: "xs = take i xs @ UVal t ?o v0 # drop (Suc i) xs" "?xs = take i xs @ UVal t ?o (merge_val t v0 v) # drop (Suc i) xs"
      using id_take_nth_drop [OF i(1)] i(2) upd_conv_take_nth_drop [OF i(1)] by auto
    have later: "\<forall>z\<in>set (drop (Suc i) xs). is_val z \<and> words_apart ?o (ue_off z)"
    proof
      fix z assume "z \<in> set (drop (Suc i) xs)"
      then obtain j where j: "j < length (drop (Suc i) xs)" "z = drop (Suc i) xs ! j"
        by (metis in_set_conv_nth)
      then have "z = xs ! (Suc i + j)" "Suc i + j < length xs" by auto
      moreover from this have "z \<in> set xs" by simp
      ultimately show "is_val z \<and> words_apart ?o (ue_off z)"
        using i(3) [of "Suc i + j"] apart I by auto
    qed
    have "seg_at m2 ?D ?xs"
      using seg_at_update [of m1 ?D xs i t ?o v0] I i m2 by simp
    moreover have "rd64 m2 (?D + 16 * length xs) = 0"
      using I i by (subst m2, subst rd64_wr64_disjoint) auto
    moreover have "\<forall>x\<in>set ?xs. is_val x"
      using I by (auto dest!: set_update_subset_insert [THEN subsetD])
    ultimately have "shadow_inv ctx' m' ?xs"
      using I unfolding shadow_inv_def Let_def c' by simp
    moreover have "ue_off ` set ?xs = insert ?o (ue_off ` set xs)"
    proof -
      have "map ue_off ?xs = map ue_off xs" using i by (simp add: map_update list_update_same_conv)
      moreover have "?o \<in> set (map ue_off xs)" using i by (metis length_map nth_map nth_mem ue_off.simps(1))
      ultimately show ?thesis by (metis image_set insert_absorb)
    qed
    moreover have "ue_apply_all b ?xs mm = ue_apply_all b (xs @ [UVal t ?o v]) mm" for b mm
      using merge_in_log [OF later, of b "take i xs" t v0 v mm] xs by simp
    ultimately show ?thesis using R(3) c' by (intro exI [of _ ?xs]) simp
  qed
qed

section \<open>Processing a redo context\<close>

lemma ue_apply_outside:
  assumes "\<And>a. a \<notin> F \<Longrightarrow> m a = m' a" and "ue_target base x \<inter> F = {}" and "a \<notin> F"
  shows "ue_apply base x m a = ue_apply base x m' a"
proof (cases "a \<in> ue_target base x")
  case False
  then show ?thesis using assms(1,3) by (simp add: ue_apply_frame)
next
  case True
  show ?thesis
  proof (cases x)
    case (UVal t off v)
    have "rd64 m (base + unat off) = rd64 m' (base + unat off)"
      by (rule rd64_cong) (use assms(1,2) UVal in \<open>auto simp: ue_target_def disjoint_iff\<close>)
    then show ?thesis
      using assms(1,3) UVal by (simp add: wr64_def store_def Let_def)
  next
    case (UBuf t off bs)
    then show ?thesis using assms(1,3) by (simp add: store_def)
  qed
qed

lemma ue_apply_all_outside:
  assumes "\<And>a. a \<notin> F \<Longrightarrow> m a = m' a" and "targets_off base xs F" and "a \<notin> F"
  shows "ue_apply_all base xs m a = ue_apply_all base xs m' a"
  using assms
proof (induction xs arbitrary: m m')
  case (Cons x xs)
  have "ue_apply_all base xs (ue_apply base x m) a = ue_apply_all base xs (ue_apply base x m') a"
    by (rule Cons.IH) (use Cons.prems in \<open>auto intro!: ue_apply_outside [of F]\<close>)
  then show ?case by simp
qed simp

text \<open>Processing a redo context with two or more entries.\<close>

lemma process_redo_spec:
  assumes inv: "shadow_inv ctx m xs" and ty: "oc_type ctx = LOG_TYPE_REDO" and n: "2 \<le> length xs"
    and hdr: "rd64 m (ulog_capacity_p (ol_ulog (pshadow_ops ctx))) = oc_base_nbytes ctx"
    and fit: "64 * ((16 * length xs + 71) div 64) \<le> unat (oc_base_nbytes ctx)"
    and disj: "ol_ulog (pshadow_ops ctx) + 64 + unat (oc_base_nbytes ctx) \<le> oc_ulog ctx \<or>
       oc_ulog ctx + 64 + unat (oc_base_nbytes ctx) \<le> ol_ulog (pshadow_ops ctx)"
    and tp: "targets_off (oc_base ctx) xs {oc_ulog ctx ..< oc_ulog ctx + 64 + unat (oc_base_nbytes ctx)}"
    and ts: "targets_off (oc_base ctx) xs {ol_ulog (pshadow_ops ctx) ..<
       ol_ulog (pshadow_ops ctx) + 64 + unat (oc_base_nbytes ctx)}"
    and tr: "ol_offset (transient_ops ctx) = 0"
  shows "\<exists>m1. ulog_store m (oc_ulog ctx) (ol_ulog (pshadow_ops ctx)) (ol_offset (pshadow_ops ctx))
      (oc_base_nbytes ctx) (oc_next ctx) (oc_base ctx) = Some m1 \<and>
    (\<forall>m2. agree_off (log_mask (oc_base ctx) xs) m1 m2 \<longrightarrow>
      ulog_recover m2 (oc_ulog ctx) (oc_base ctx) =
        Some (ulog_clobber (ue_apply_all (oc_base ctx) xs m1) (oc_ulog ctx) None)) \<and>
    redo_phases ctx m = Some [m1, ue_apply_all (oc_base ctx) xs m1,
      ulog_clobber (ue_apply_all (oc_base ctx) xs m1) (oc_ulog ctx) (Some (oc_next ctx))] \<and>
    operation_process ctx m =
      Some (ulog_clobber (ue_apply_all (oc_base ctx) xs m1) (oc_ulog ctx) (Some (oc_next ctx))) \<and>
    (\<forall>a. a \<notin> {oc_ulog ctx ..< oc_ulog ctx + 64 + unat (oc_base_nbytes ctx)} \<longrightarrow>
         a \<notin> {ol_ulog (pshadow_ops ctx) ..< ol_ulog (pshadow_ops ctx) + 16} \<longrightarrow> m1 a = m a)"
proof -
  let ?s = "ol_ulog (pshadow_ops ctx)" and ?p = "oc_ulog ctx" and ?B = "oc_base_nbytes ctx"
  let ?b = "oc_base ctx" and ?off = "ol_offset (pshadow_ops ctx)"
  note I = shadow_invD [OF inv]
  have sz: "seg_size xs = 16 * length xs" using I(2) by (rule seg_size_vals)
  have ne: "xs \<noteq> []" using n by auto
  have fit8: "seg_size xs + 8 \<le> unat ?B"
    using fit dividend_less_times_div [of 64 "16 * length xs + 71"] sz by simp
  have z: "rd64 m (ulog_data ?s + seg_size xs) = 0" using I(5) [OF ne] sz by simp
  have off: "unat ?off = seg_size xs" using I(3) sz by simp
  have cap: "ulog_cap m ?s = unat ?B" using hdr by simp
  have base: "unat ?off mod 4 = 0" "64 * ((unat ?off + 71) div 64) \<le> unat ?B"
    using fit off sz by simp_all
  obtain m1 where m1: "ulog_store m ?p ?s ?off ?B (oc_next ctx) ?b = Some m1"
    "log_at ?b m1 ?p [xs]" "ulog_checksum m1 ?p ?off False = Some (True, m1)" "ulog_cap m1 ?p = unat ?B"
    using ulog_store_log [OF I(1) ne off z, of ?B ?p "oc_next ctx" ?b] fit8 fit disj cap sz by auto
  obtain c m2 where m2: "m1 = mem_cpy m2 ?p ?s (64 + 64 * ((unat ?off + 71) div 64))"
    "\<And>a. a < ?s \<or> ?s + 16 \<le> a \<Longrightarrow> m2 a = m a"
    using ulog_store_base [OF base disj, of m "oc_next ctx" ?b] m1(1) by (metis option.inject)
  have out: "m1 a = m a" if "a < ?p \<or> ?p + 64 + unat ?B \<le> a" "a < ?s \<or> ?s + 16 \<le> a" for a
    using that m2(2) [of a] base(2) by (auto simp: m2(1) mem_cpy_out)
  have rec: "ulog_recover mm ?p ?b = Some (ulog_clobber (ue_apply_all ?b xs m1) ?p None)"
    if "agree_off (log_mask ?b xs) m1 mm" for mm
  proof -
    have "of_nat (seg_size xs) = ?off" unfolding off [symmetric] by simp
    then show ?thesis
      using recover_crash_image [of ?b m1 ?p xs "[]" mm] m1(2-4) ne tp that
      by (simp add: ulog_data_def)
  qed
  have "seg_at m1 (ulog_data ?s) xs"
    by (rule seg_at_cong [OF _ I(1)]) (use out disj fit8 in \<open>auto simp: ulog_data_def\<close>)
  moreover have "rd64 m1 (ulog_data ?s + seg_size xs) = 0"
    by (subst rd64_cong [where m' = m]) (use out disj fit8 z in \<open>auto simp: ulog_data_def\<close>)
  moreover have "rd64 m1 (ulog_capacity_p ?s) = ?B"
    by (subst rd64_cong [where m' = m]) (use out disj fit8 hdr in \<open>auto simp: ulog_capacity_p_def\<close>)
  ultimately have "ulog_process m1 ?s ?b = Some (ue_apply_all ?b xs m1)"
    using ulog_process_log [of ?b m1 ?s "[xs]"] fit8 ts by (simp add: ulog_data_def)
  moreover have "?off \<noteq> 0" "?off \<noteq> 16"
    using I(3) n by (auto simp: word_unat_eq_iff)
  moreover have ph: "redo_phases ctx m = Some [m1, ue_apply_all ?b xs m1, ulog_clobber (ue_apply_all ?b xs m1) ?p (Some (oc_next ctx))]"
    using m1(1) calculation(1) by (simp add: redo_phases_def)
  ultimately have "operation_process ctx m = Some (ulog_clobber (ue_apply_all ?b xs m1) ?p (Some (oc_next ctx)))"
    using ty tr by (simp add: operation_process_def operation_process_persistent_redo_def Let_def)
  with m1(1) rec out ph show ?thesis by (intro exI [of _ m1]) auto
qed

text \<open>A single collected entry bypasses the redo log: it is applied in place with one store,
  and the persistent log is not touched.\<close>

lemma operation_single_entry:
  assumes "shadow_inv ctx m [x]" and "oc_type ctx = LOG_TYPE_REDO" and "ol_offset (transient_ops ctx) = 0"
  shows "operation_process ctx m = Some (ue_apply (oc_base ctx) x m)"
proof -
  let ?e = "ulog_data (ol_ulog (pshadow_ops ctx))"
  note I = shadow_invD [OF assms(1)]
  have at: "entry_at m ?e x" using I(1) by simp
  obtain t off v where x: "x = UVal t off v" using I(2) by (cases x) auto
  have "ol_offset (pshadow_ops ctx) = 16" using I(3) by (simp add: word_unat_eq_iff)
  moreover have "ulog_entry_type m ?e = t" "val_type t" using entry_at_decode(2) [OF at] at x by auto
  ultimately show ?thesis
    using assms(2,3) entry_at_apply [OF at] by (auto simp: operation_process_def val_type_def Let_def)
qed

text \<open>A batch of requests, each with the answers of the allocator: address, value, operation.\<close>

type_synonym request = "addr option \<times> addr fresh \<times> addr \<times> u64 \<times> u64"

fun add_requests :: "operation_context \<Rightarrow> mem \<Rightarrow> request list \<Rightarrow> (operation_context \<times> mem) option" where
  "add_requests ctx m [] = Some (ctx, m)"
| "add_requests ctx m ((ra, g, ptr, v, t) # rs) =
     (case operation_add_typed_entry ra g ctx m ptr v t LOG_PERSISTENT of
        (r, ctx', m') \<Rightarrow> if r = 0 then add_requests ctx' m' rs else None)"

fun request_ok :: "addr \<Rightarrow> request \<Rightarrow> bool" where
  "request_ok base (ra, g, ptr, v, t) \<longleftrightarrow>
     val_type t \<and> base < ptr \<and> ptr < base + 2 ^ 61 \<and> (ptr - base) mod 8 = 0"

fun request_entry :: "addr \<Rightarrow> request \<Rightarrow> uentry" where
  "request_entry base (ra, g, ptr, v, t) = UVal t (of_nat (ptr - base)) v"

lemma words_apart_aligned:
  assumes "unat a mod 8 = 0" and "unat b mod 8 = 0"
  shows "a = b \<or> words_apart b a"
proof -
  have "unat a = unat b \<or> unat a + 8 \<le> unat b \<or> unat b + 8 \<le> unat a"
    using assms by presburger
  then show ?thesis by (auto simp: words_apart_def word_unat_eq_iff)
qed

lemma batch_spec:
  assumes "shadow_inv ctx m xs" and "\<forall>x\<in>set xs. unat (ue_off x) mod 8 = 0"
    and "\<forall>r\<in>set rs. request_ok (oc_base ctx) r" and "length xs + length rs < 2 ^ 50"
    and "add_requests ctx m rs = Some (ctx', m')"
  shows "\<exists>xs'. shadow_inv ctx' m' xs' \<and> (\<forall>b mm. ue_apply_all b xs' mm =
    ue_apply_all b (xs @ map (request_entry (oc_base ctx)) rs) mm)"
  using assms
proof (induction rs arbitrary: ctx m xs)
  case Nil
  then show ?case by auto
next
  case (Cons r rs)
  obtain ra g ptr v t where r: "r = (ra, g, ptr, v, t)" by (cases r)
  let ?o = "of_nat (ptr - oc_base ctx) :: u64" and ?x = "request_entry (oc_base ctx) r"
  obtain c1 m1 where add: "operation_add_typed_entry ra g ctx m ptr v t LOG_PERSISTENT = (0, c1, m1)"
    and rest: "add_requests c1 m1 rs = Some (ctx', m')"
    using Cons.prems(5) by (auto simp: r split: prod.splits if_splits)
  have ok: "val_type t" "oc_base ctx < ptr" "ptr < oc_base ctx + 2 ^ 61" "(ptr - oc_base ctx) mod 8 = 0"
    using Cons.prems(3) by (auto simp: r)
  then have "unat ?o = ptr - oc_base ctx" by (simp only: unat_of_nat) simp
  then have o8: "unat ?o mod 8 = 0" using ok(4) by simp
  have "unat (ol_capacity (pshadow_ops ctx)) \<le> 1088 + 16 * length xs"
    using Cons.prems(1) by (simp add: shadow_inv_def Let_def)
  then have cap: "unat (ol_capacity (pshadow_ops ctx)) < 2 ^ 62"
    using Cons.prems(4) by simp
  have apart: "\<forall>x\<in>set xs. ue_off x = ?o \<or> words_apart ?o (ue_off x)"
  proof
    fix x assume "x \<in> set xs"
    with Cons.prems(2) have "unat (ue_off x) mod 8 = 0" by simp
    then show "ue_off x = ?o \<or> words_apart ?o (ue_off x)" using o8 by (rule words_apart_aligned)
  qed
  obtain xs1 where xs1: "shadow_inv c1 m1 xs1" "oc_base c1 = oc_base ctx" "length xs1 \<le> length xs + 1"
    "ue_off ` set xs1 = insert ?o (ue_off ` set xs)"
    "\<And>b mm. ue_apply_all b xs1 mm = ue_apply_all b (xs @ [?x]) mm"
    using add_typed_entry_spec [OF Cons.prems(1) cap ok(1) less_imp_le [OF ok(2)] ok(3) _ apart add] ok(2)
    by (simp add: r) blast
  have "unat (ue_off x) mod 8 = 0" if "x \<in> set xs1" for x
  proof -
    have "ue_off x \<in> insert ?o (ue_off ` set xs)" using that unfolding xs1(4) [symmetric] by (rule imageI)
    then show ?thesis using Cons.prems(2) o8 by fastforce
  qed
  then have "\<forall>x\<in>set xs1. unat (ue_off x) mod 8 = 0" by blast
  then obtain xs' where "shadow_inv ctx' m' xs'"
    "\<And>b mm. ue_apply_all b xs' mm = ue_apply_all b (xs1 @ map (request_entry (oc_base ctx)) rs) mm"
    using Cons.IH [OF xs1(1) _ _ _ rest] Cons.prems(3,4) xs1(2,3) by auto
  then show ?case using xs1(5) by (intro exI [of _ xs']) simp
qed

section \<open>The transient log\<close>

text \<open>Adding a transient entry appends it and leaves the header of the log as it is, also when the
  log is reallocated.\<close>

definition transient_inv :: "operation_context \<Rightarrow> mem \<Rightarrow> uentry list \<Rightarrow> bool" where
  "transient_inv ctx m xs \<longleftrightarrow>
     (let l = transient_ops ctx; u = ol_ulog l; n = length xs
      in seg_at m (ulog_data u) xs \<and> (\<forall>x\<in>set xs. is_val x) \<and>
         unat (ol_offset l) = 16 * n \<and> 16 * n + 64 \<le> unat (ol_capacity l) \<and> unat (ol_capacity l) mod 16 = 0 \<and>
         rd64 m (ulog_data u + 16 * n) = 0 \<and> rd64 m (ulog_capacity_p u) = 1024 \<and> rd64 m (ulog_next_p u) = 0)"

lemma process_transient_spec:
  assumes "transient_inv ctx m xs" and "oc_type ctx = LOG_TYPE_REDO" and "ol_offset (pshadow_ops ctx) = 0"
    and "targets_off 0 xs {ol_ulog (transient_ops ctx) ..< ol_ulog (transient_ops ctx) + 1088}"
  shows "operation_process ctx m = Some (ue_apply_all 0 (take 64 xs) m)"
proof (cases "xs = []")
  case True
  then have "ol_offset (transient_ops ctx) = 0"
    using assms(1) by (simp add: transient_inv_def Let_def word_unat_eq_iff)
  then show ?thesis using assms(2,3) True by (simp add: operation_process_def)
next
  case False
  let ?u = "ol_ulog (transient_ops ctx)" and ?ys = "take 64 xs"
  note I = assms(1) [unfolded transient_inv_def Let_def]
  have sz: "seg_size ?ys = 16 * min 64 (length xs)"
    using I by (subst seg_size_vals) (auto dest: in_set_takeD)
  have "seg_at m (ulog_data ?u) (?ys @ drop 64 xs)" using I by simp
  then have seg: "seg_at m (ulog_data ?u) ?ys"
    by (simp only: seg_at_append)
  have "log_at 0 m ?u [?ys]"
  proof (cases "64 \<le> length xs")
    case True
    then show ?thesis using seg sz I by simp
  next
    case False
    then show ?thesis using seg sz I by (auto simp: min_def)
  qed
  moreover have "targets_off 0 ?ys {?u ..< ?u + 1088}"
    using assms(4) unfolding targets_off_def by (meson in_set_takeD)
  ultimately have "ulog_process m ?u 0 = Some (ue_apply_all 0 ?ys m)"
    using ulog_process_log [of 0 m ?u "[?ys]"] I by (simp add: ulog_data_def add.commute [of 1088])
  moreover have "ol_offset (transient_ops ctx) \<noteq> 0"
    using I False by (auto simp: word_unat_eq_iff)
  ultimately show ?thesis
    using assms(2,3) by (simp add: operation_process_def Let_def)
qed

lemma add_transient_spec:
  assumes "transient_inv ctx m xs" and "unat (ol_capacity (transient_ops ctx)) < 2 ^ 62"
    and "val_type t" and "ptr < 2 ^ 61" and "ptr \<noteq> 0"
    and "operation_add_typed_entry ra g ctx m ptr v t LOG_TRANSIENT = (0, ctx', m')"
  shows "transient_inv ctx' m' (xs @ [UVal t (of_nat ptr) v])"
proof -
  let ?l = "transient_ops ctx" and ?n = "length xs"
  let ?D = "ulog_data (ol_ulog ?l)" and ?C = "unat (ol_capacity ?l)"
  note I = assms(1) [unfolded transient_inv_def Let_def]
  obtain c1 m1 where r: "oplog_make_room ra LOG_TRANSIENT ctx m = Some (c1, m1)"
    using assms(6) by (auto simp: operation_add_typed_entry_def split: option.splits)
  have full: "ol_offset ?l + CACHELINE_SIZE = ol_capacity ?l \<longleftrightarrow> 16 * ?n + 64 = ?C"
  proof -
    have "unat (ol_offset ?l + CACHELINE_SIZE) = 16 * ?n + 64"
      using I assms(2) by (simp add: unat_word_ariths CACHELINE_SIZE_def)
    then show ?thesis by (simp add: word_unat_eq_iff)
  qed
  have J: "transient_inv c1 m1 xs \<and> 16 * ?n + 80 \<le> unat (ol_capacity (transient_ops c1))"
  proof (cases "16 * ?n + 64 = ?C")
    case False
    have "?C mod 16 = 0" "16 * ?n + 64 \<le> ?C" using I by auto
    with False have "16 * ?n + 80 \<le> ?C" by presburger
    then show ?thesis using assms(1) r full False by (simp add: oplog_make_room_def oplog_of_def)
  next
    case True
    then obtain u where c1: "transient_ops c1 = ?l\<lparr>ol_capacity := ol_capacity ?l + ULOG_BASE_SIZE, ol_ulog := u\<rparr>"
      and m1: "m1 = mem_cpy m u (ol_ulog ?l) (64 + ?C)"
      using r full
      by (auto simp: oplog_make_room_def oplog_of_def set_oplog_def Realloc_def Let_def split: option.splits)
    have cap: "unat (ol_capacity ?l + ULOG_BASE_SIZE) = ?C + 1024"
      using assms(2) by (simp add: unat_word_ariths ULOG_BASE_SIZE_def)
    have eq: "bytes_at m (ol_ulog ?l) (64 + ?C) = bytes_at m1 u (64 + ?C)"
      by (simp add: m1 mem_cpy_def bytes_at_store_same)
    have "seg_at m1 (ulog_data u) xs"
      by (rule seg_at_move [where m = m and e = ?D])
        (use bytes_at_sub [OF eq, of 64 "seg_size xs"] I seg_size_vals [of xs] in \<open>auto simp: ulog_data_def\<close>)
    moreover have "rd64 m1 (ulog_data u + 16 * ?n) = 0" "rd64 m1 (ulog_capacity_p u) = 1024" "rd64 m1 (ulog_next_p u) = 0"
      using rd64_sub [OF eq, of "64 + 16 * ?n"] rd64_sub [OF eq, of 8] rd64_sub [OF eq, of 16] I
      by (simp_all add: ulog_field_defs add.assoc)
    moreover have "?C mod 16 = 0" using I by simp
    then have "(?C + 1024) mod 16 = 0" by presburger
    ultimately show ?thesis using I True by (simp add: transient_inv_def Let_def c1 cap)
  qed
  let ?l1 = "transient_ops c1"
  note K = J [THEN conjunct1, unfolded transient_inv_def Let_def]
  obtain e m3 where cr: "ulog_entry_val_create m1 (ol_ulog ?l1) (ol_offset ?l1) ptr v t 0 = (e, m3)" by fastforce
  have c': "transient_ops ctx' = ?l1\<lparr>ol_offset := ol_offset ?l1 + ulog_entry_size m3 e\<rparr>" "m' = m3"
    using assms(6) r cr by (auto simp: operation_add_typed_entry_def oplog_of_def set_oplog_def Let_def)
  have p2: "ptr < 0 + 2 ^ 61" using assms(4) by simp
  note c = val_create_entry [OF assms(3) le0 p2 disjI1 [OF assms(5)] cr, unfolded diff_zero]
  have e: "e = ulog_data (ol_ulog ?l1) + 16 * ?n" using c(3) K by simp
  have "seg_at m3 (ulog_data (ol_ulog ?l1)) xs"
    by (rule seg_at_cong [of _ xs m1]) (use c(4) e K seg_size_vals [of xs] in auto)
  then have "seg_at m3 (ulog_data (ol_ulog ?l1)) (xs @ [UVal t (of_nat ptr) v])"
    using c(1) e K seg_size_vals [of xs] by (simp add: seg_at_append del: entry_at.simps)
  moreover have "unat (ol_offset ?l1 + ulog_entry_size m3 e) = 16 * ?n + 16"
    using entry_at_size [OF c(1)] K J unat_lt_u64 [of "ol_capacity ?l1"] by (simp add: unat_word_ariths)
  moreover have "rd64 m3 (ulog_capacity_p (ol_ulog ?l1)) = 1024" "rd64 m3 (ulog_next_p (ol_ulog ?l1)) = 0"
    using K c(4) e by (auto simp: ulog_field_defs elim!: trans [OF rd64_cong, rotated])
  moreover have "rd64 m3 (ulog_data (ol_ulog ?l1) + (16 + 16 * ?n)) = 0"
    using c(2) e by (simp add: add.assoc add.commute [of 16])
  ultimately show ?thesis
    using K J by (auto simp: transient_inv_def Let_def c')
qed

section \<open>The undo log\<close>

text \<open>The undo log of a context whose snapshots so far are the entries \<open>xs\<close>: they are in the base
  log, the rest of the log is zero and there is no next log.\<close>

definition undo_inv :: "operation_context \<Rightarrow> mem \<Rightarrow> uentry list \<Rightarrow> bool" where
  "undo_inv ctx m xs \<longleftrightarrow>
     (let p = oc_ulog ctx; D = ulog_data p; cap = ulog_cap m p
      in oc_type ctx = LOG_TYPE_UNDO \<and> seg_at m D xs \<and> cap mod 64 = 0 \<and> seg_size xs mod 64 = 0 \<and>
         seg_size xs \<le> cap \<and> rd64 m (ulog_next_p p) = 0 \<and>
         (\<forall>a. D + seg_size xs \<le> a \<longrightarrow> a < D + cap \<longrightarrow> m a = 0) \<and>
         (xs = [] \<and> ulog_curr ctx = None \<and> ulog_curr_capacity ctx = 0 \<and> total_logged ctx = 0 \<and>
            unat (oc_capacity ctx) = cap \<or>
          ulog_curr ctx = Some p \<and> unat (ulog_curr_offset ctx) = seg_size xs \<and>
            unat (ulog_curr_capacity ctx) = cap - seg_size xs))"

text \<open>The current log has room for a snapshot of \<open>n\<close> bytes.\<close>

definition undo_room :: "operation_context \<Rightarrow> mem \<Rightarrow> uentry list \<Rightarrow> nat \<Rightarrow> bool" where
  "undo_room ctx m xs n \<longleftrightarrow> seg_size xs + n + 24 \<le> ulog_cap m (oc_ulog ctx)"

lemma mult64_gap:
  fixes a b :: nat
  assumes "a mod 64 = 0" and "b mod 64 = 0" and "a \<le> b" and "a \<noteq> b"
  shows "a + 64 \<le> b"
  using assms by presburger

lemma log_at_zero_tail:
  assumes "seg_at m (ulog_data p) xs" and "seg_size xs \<le> ulog_cap m p" and "rd64 m (ulog_next_p p) = 0"
    and "ulog_cap m p mod 64 = 0" and "seg_size xs mod 64 = 0"
    and "\<forall>a. ulog_data p + seg_size xs \<le> a \<longrightarrow> a < ulog_data p + ulog_cap m p \<longrightarrow> m a = 0"
  shows "log_at base m p [xs]"
proof (cases "seg_size xs = ulog_cap m p")
  case True
  then show ?thesis using assms by simp
next
  case False
  then have lt: "seg_size xs + 8 \<le> ulog_cap m p" using mult64_gap [OF assms(5,4,2)] by simp
  have "bytes_at m (ulog_data p + seg_size xs) 8 = replicate 8 0"
    using assms(6) lt by (intro nth_equalityI) (auto simp del: replicate.simps)
  then have "rd64 m (ulog_data p + seg_size xs) = 0"
    by (simp only: rd64_conv u64_bytes_0)
  then show ?thesis using assms(1) lt by simp
qed

lemma undo_process:
  assumes "undo_inv ctx m xs"
    and "\<And>a. a \<in> {oc_ulog ctx ..< ulog_data (oc_ulog ctx) + ulog_cap m (oc_ulog ctx)} \<Longrightarrow> m' a = m a"
    and "targets_off (oc_base ctx) xs {oc_ulog ctx ..< ulog_data (oc_ulog ctx) + ulog_cap m (oc_ulog ctx)}"
    and "ol_offset (transient_ops ctx) = 0"
  shows "operation_process ctx m' = Some (ue_apply_all (oc_base ctx) xs m')"
proof -
  let ?p = "oc_ulog ctx" and ?b = "oc_base ctx"
  note I = assms(1) [unfolded undo_inv_def Let_def]
  have log: "log_at ?b m ?p [xs]"
    by (rule log_at_zero_tail) (use I in auto)
  then have "log_at ?b m' ?p [xs]" "log_foot ?b m' ?p [xs] = log_foot ?b m ?p [xs]"
    using log_at_cong [of ?b m ?p "[xs]" m'] assms(2) by auto
  then have "ulog_process m' ?p ?b = Some (ue_apply_all ?b xs m')"
    using ulog_process_log [of ?b m' ?p "[xs]"] assms(3) by simp
  then show ?thesis
    using I assms(4) by (simp add: operation_process_def operation_process_persistent_undo_def Let_def)
qed

lemma buffer_make_room_undo:
  assumes "undo_inv ctx m xs" and "undo_room ctx m xs n" and "unat real = n + 24"
  shows "\<exists>ctx1. buffer_make_room ctx m real = Some (0, ctx1, m) \<and> ulog_curr ctx1 = Some (oc_ulog ctx) \<and>
    unat (ulog_curr_offset ctx1) = seg_size xs \<and>
    unat (ulog_curr_capacity ctx1) = ulog_cap m (oc_ulog ctx) - seg_size xs \<and>
    oc_ulog ctx1 = oc_ulog ctx \<and> oc_base ctx1 = oc_base ctx \<and> oc_type ctx1 = oc_type ctx \<and>
    transient_ops ctx1 = transient_ops ctx"
proof -
  note I = assms(1) [unfolded undo_inv_def Let_def]
  show ?thesis
  proof (cases "ulog_curr_capacity ctx = 0")
    case False
    then show ?thesis using I by (auto simp: buffer_make_room_def)
  next
    case True
    have "xs = [] \<and> ulog_curr ctx = None \<and> total_logged ctx = 0 \<and> unat (oc_capacity ctx) = ulog_cap m (oc_ulog ctx)"
      using I True assms(2) by (auto simp: undo_room_def)
    moreover from this have "\<not> oc_capacity ctx < real"
      using assms(2,3) by (simp add: undo_room_def word_less_nat_alt)
    ultimately show ?thesis
      using True by (simp add: buffer_make_room_def operation_reserve_def)
  qed
qed

lemma undo_add_buffer:
  assumes inv: "undo_inv ctx m xs" and room: "undo_room ctx m xs (unat sz)"
    and "oc_base ctx \<le> dest" and "dest < oc_base ctx + 2 ^ 61" and "unat sz + 87 < 2 ^ 64"
    and src: "src + unat sz \<le> oc_ulog ctx \<or> ulog_data (oc_ulog ctx) + ulog_cap m (oc_ulog ctx) \<le> src"
  defines "x \<equiv> UBuf ULOG_OPERATION_BUF_CPY (of_nat (dest - oc_base ctx)) (bytes_at m src (unat sz))"
  shows "\<exists>ctx' m'. operation_add_buffer ctx m dest src sz ULOG_OPERATION_BUF_CPY = Some (0, ctx', m') \<and>
    undo_inv ctx' m' (xs @ [x]) \<and> oc_ulog ctx' = oc_ulog ctx \<and> oc_base ctx' = oc_base ctx \<and>
    transient_ops ctx' = transient_ops ctx \<and>
    (\<forall>a. a < ulog_data (oc_ulog ctx) \<or> ulog_data (oc_ulog ctx) + ulog_cap m (oc_ulog ctx) \<le> a \<longrightarrow> m' a = m a)"
proof -
  let ?p = "oc_ulog ctx" and ?n = "unat sz"
  let ?D = "ulog_data ?p" and ?cap = "ulog_cap m ?p"
  note I = inv [unfolded undo_inv_def Let_def]
  have real: "unat (sz + 24) = ?n + 24" using assms(5) by (simp add: unat_word_ariths)
  obtain c1 where c1: "buffer_make_room ctx m (sz + 24) = Some (0, c1, m)" "ulog_curr c1 = Some ?p"
    "unat (ulog_curr_offset c1) = seg_size xs" "unat (ulog_curr_capacity c1) = ?cap - seg_size xs"
    "oc_ulog c1 = ?p" "oc_base c1 = oc_base ctx" "oc_type c1 = oc_type ctx" "transient_ops c1 = transient_ops ctx"
    using buffer_make_room_undo [OF inv room real] by blast
  have min: "u64_min (sz + 24) (ulog_curr_capacity c1) = sz + 24"
    using room c1(4) real by (simp only: word_unat_eq_iff unat_u64_min) (simp add: undo_room_def)
  define S where "S = 64 * ((?n + 87) div 64)"
  have S: "S = ue_size x" by (simp add: S_def x_def)
  have al: "unat (ALIGN_UP (sz + 24) CACHELINE_SIZE) = S"
    using unat_CACHELINE_ALIGN [of "sz + 24"] assms(5) real by (simp add: CACHELINE_ALIGN_def S_def)
  have Sle: "seg_size xs + S \<le> ?cap"
  proof -
    obtain k where k: "?cap - seg_size xs = 64 * k"
      using I by (metis dvd_diff_nat dvdE mod_0_imp_dvd)
    have "?n + 24 \<le> 64 * k" using room k by (simp add: undo_room_def)
    then have "(?n + 87) div 64 \<le> k" by simp
    then show ?thesis using k I by (simp add: S_def)
  qed
  have disj: "src + ?n \<le> ?D + seg_size xs \<or> ?D + seg_size xs + 64 * ((?n + 87) div 64) \<le> src"
    using src Sle by (auto simp: S_def ulog_data_def)
  have bt: "buf_type ULOG_OPERATION_BUF_CPY" by (simp add: buf_type_def)
  obtain m' where m': "ulog_entry_buf_create m ?p (ulog_curr_offset c1) dest src sz ULOG_OPERATION_BUF_CPY
      (oc_base ctx) = Some (?D + seg_size xs, m')" "entry_at m' (?D + seg_size xs) x"
    "\<And>a. a < ?D + seg_size xs \<or> ?D + seg_size xs + S \<le> a \<Longrightarrow> m' a = m a"
    using buf_create_entry [OF bt assms(3-5), of "?D + seg_size xs" ?p "ulog_curr_offset c1" src m]
      c1(3) disj by (auto simp: x_def S_def)
  define ctx' where "ctx' = c1\<lparr>total_logged := total_logged c1 + ALIGN_UP (sz + 24) CACHELINE_SIZE,
    ulog_curr_offset := ulog_curr_offset c1 + ALIGN_UP (sz + 24) CACHELINE_SIZE,
    ulog_curr_capacity := ulog_curr_capacity c1 - ALIGN_UP (sz + 24) CACHELINE_SIZE\<rparr>"
  have "sz + 24 - 24 = sz" by simp
  then have add: "operation_add_buffer ctx m dest src sz ULOG_OPERATION_BUF_CPY = Some (0, ctx', m')"
    using c1 m'(1) min by (subst operation_add_buffer.simps) (simp add: ctx'_def Let_def)
  have hdr: "rd64 m' (ulog_capacity_p ?p) = rd64 m (ulog_capacity_p ?p)" "rd64 m' (ulog_next_p ?p) = rd64 m (ulog_next_p ?p)"
    by (intro rd64_cong; use m'(3) in \<open>simp add: ulog_field_defs\<close>)+
  have "seg_at m' ?D xs"
    by (rule seg_at_cong [of ?D xs m]) (use m'(3) I in auto)
  then have seg: "seg_at m' ?D (xs @ [x])"
    using m'(2) by (simp add: seg_at_append)
  have off: "unat (ulog_curr_offset ctx') = seg_size (xs @ [x])"
    "unat (ulog_curr_capacity ctx') = ?cap - seg_size (xs @ [x])"
    using c1(3,4) al Sle S unat_lt_u64 [of "rd64 m (ulog_capacity_p ?p)"]
    by (simp_all add: ctx'_def unat_word_ariths unat_sub word_le_nat_alt)
  have "seg_size xs mod 64 = 0" "ue_size x mod 64 = 0"
    using I by (simp_all add: x_def)
  then have "seg_size (xs @ [x]) mod 64 = 0"
    by (simp add: mod_eq_0_iff_dvd)
  then have "undo_inv ctx' m' (xs @ [x])"
    unfolding undo_inv_def Let_def
    using seg off hdr I Sle S m'(3) c1 by (auto simp: ctx'_def)
  then show ?thesis
    using add m'(3) c1 Sle by (auto simp: ctx'_def)
qed

section \<open>Theorems\<close>



text \<open>C24. Only the first 64 entries of the transient log take effect: growing the log does not
  update the \<open>capacity\<close> field in its header, which stays 1024, so \<open>operation_process\<close> applies the
  entries of the first 1024 bytes and drops the others. The entries are those that successive
  calls of \<open>operation_add_typed_entry\<close> appended.\<close>

theorem transient_entries_dropped:
  assumes "transient_inv ctx m xs" and "unat (ol_capacity (transient_ops ctx)) < 2 ^ 62"
    and "val_type t" and "ptr < 2 ^ 61" and "ptr \<noteq> 0"
    and "operation_add_typed_entry ra g ctx m ptr v t LOG_TRANSIENT = (0, ctx', m')"
    and "oc_type ctx' = LOG_TYPE_REDO" and "ol_offset (pshadow_ops ctx') = 0"
    and "targets_off 0 (xs @ [UVal t (of_nat ptr) v])
      {ol_ulog (transient_ops ctx') ..< ol_ulog (transient_ops ctx') + 1088}"
  shows "operation_process ctx' m' = Some (ue_apply_all 0 (take 64 (xs @ [UVal t (of_nat ptr) v])) m')"
  using process_transient_spec [OF add_transient_spec [OF assms(1-6)] assms(7-9)] .


section \<open>Examples\<close>

definition sample_ctx :: "log_type \<Rightarrow> u64 \<Rightarrow> operation_context" where
  "sample_ctx ty off = \<lparr>oc_type = ty, oc_extend = None, oc_ulog_free = (\<lambda>m p. m), oc_base = 0,
     ulog_curr_offset = 0, ulog_curr_capacity = 0, ulog_curr = None, total_logged = 0, oc_ulog = 20000,
     oc_base_nbytes = 128, oc_capacity = 128, oc_next = [], in_progress = True,
     pshadow_ops = \<lparr>ol_capacity = 1024, ol_offset = off, ol_ulog = 10000\<rparr>,
     transient_ops = \<lparr>ol_capacity = 1024, ol_offset = 0, ol_ulog = 30000\<rparr>, merge_entries = VECQ_INIT\<rparr>"

definition sample_redo_mem :: mem where
  "sample_redo_mem = store (\<lambda>_. 0) 10000
     (u64_bytes 0 @ u64_bytes 0 @ u64_bytes 128 @ replicate 40 0 @
      u64_bytes 4096 @ u64_bytes 5 @ u64_bytes (4104 OR ULOG_OPERATION_OR) @ u64_bytes 6)"

lemma sample_redo_mem_read:
  "rd64 sample_redo_mem 10016 = 128" "rd64 sample_redo_mem 10064 = 4096" "rd64 sample_redo_mem 10072 = 5"
  "rd64 sample_redo_mem 10080 = 4104 OR ULOG_OPERATION_OR" "rd64 sample_redo_mem 10088 = 6"
  "rd64 sample_redo_mem 10096 = 0"
proof -
  show "rd64 sample_redo_mem 10016 = 128" "rd64 sample_redo_mem 10064 = 4096" "rd64 sample_redo_mem 10072 = 5"
    "rd64 sample_redo_mem 10080 = 4104 OR ULOG_OPERATION_OR" "rd64 sample_redo_mem 10088 = 6"
    unfolding sample_redo_mem_def by (rule rd64_store_inside; simp)+
  show "rd64 sample_redo_mem 10096 = 0"
    by (simp add: sample_redo_mem_def rd64_store_disjoint)
qed

lemma init_queue: "vecq_ok VECQ_INIT" "vq_front VECQ_INIT = 0" "vq_capacity VECQ_INIT = 0"
  "vecq_list VECQ_INIT = []" "VECQ_SIZE VECQ_INIT = 0"
  by (simp_all add: vecq_ok_def VECQ_INIT_def pow2_or_0_def VECQ_SIZE_def vecq_list_def)

lemma sample_redo_inv:
  "shadow_inv (sample_ctx LOG_TYPE_REDO 32) sample_redo_mem
     [UVal ULOG_OPERATION_SET 4096 5, UVal ULOG_OPERATION_OR 4104 6]"
  by (simp add: shadow_inv_def Let_def sample_ctx_def init_queue ulog_field_defs sample_redo_mem_read
      val_type_def plain_offset_def ulog_op_defs) presburger


lemma sample_empty_inv: "shadow_inv (sample_ctx ty 0) m []"
  by (simp add: shadow_inv_def Let_def sample_ctx_def init_queue)



theorem transient_entries_dropped_witness:
  "\<exists>ctx' m'. operation_add_typed_entry None None (sample_ctx LOG_TYPE_REDO 0) (wr64 (\<lambda>_. 0) 30016 1024) 4096 5
       ULOG_OPERATION_SET LOG_TRANSIENT = (0, ctx', m') \<and>
     operation_process ctx' m' = Some (ue_apply_all 0 [UVal ULOG_OPERATION_SET 4096 5] m')"
proof -
  let ?m = "wr64 (\<lambda>_. 0) 30016 1024 :: mem" and ?c = "sample_ctx LOG_TYPE_REDO 0"
  obtain e m' where cr: "ulog_entry_val_create ?m 30000 0 4096 5 ULOG_OPERATION_SET 0 = (e, m')" by fastforce
  define ctx' where "ctx' = set_oplog LOG_TRANSIENT
    \<lparr>ol_capacity = 1024, ol_offset = ulog_entry_size m' e, ol_ulog = 30000\<rparr> ?c"
  have a: "operation_add_typed_entry None None ?c ?m 4096 5 ULOG_OPERATION_SET LOG_TRANSIENT = (0, ctx', m')"
    using cr by (simp add: operation_add_typed_entry_def oplog_make_room_def oplog_of_def sample_ctx_def
        CACHELINE_SIZE_def Let_def ctx'_def)
  have "transient_inv ?c ?m []"
    by (simp add: transient_inv_def Let_def sample_ctx_def ulog_field_defs rd64_wr64_disjoint)
  from transient_entries_dropped [OF this _ _ _ _ a] a show ?thesis
    by (auto simp: sample_ctx_def val_type_def ctx'_def set_oplog_def ue_target_def)
qed

end
