(* ===== verification/Plist.thy ===== *)
theory Plist
  imports Memops
begin

text \<open>
  The persistent atomic lists of \<^verbatim>\<open>libpmemobj/list.c\<close>: circular doubly linked lists of objects in a pool,
  changed through the redo log of a lane. Pointers into the pool are addresses, object offsets are
  64-bit words relative to the pool. The state of an operation is the memory, the external
  operation context of the lane that the thread holds, and the list locks that are held. The
  answers of the heap allocator, one pair for each call of \<open>operation_add_entry\<close>, and the answers of
  the locking functions are arguments. \<open>None\<close> is a call that does not return: a list lock that the
  thread itself holds, or a log function that does not end.

  \<open>list_insert_new\<close> and \<open>list_remove_free\<close>, which also allocate and free the object, are not modelled.
\<close>

section \<open>Data\<close>

record PMEMobjpool =
  pop_addr :: addr
  uuid_lo :: u64
  pop_layout :: obj_pool

record PMEMoid =
  pool_uuid_lo :: u64
  oid_off :: u64

definition OID_NULL :: PMEMoid where
  "OID_NULL = \<lparr>pool_uuid_lo = 0, oid_off = 0\<rparr>"

text \<open>An object identifier in memory, \<open>struct list_entry\<close> and \<open>struct list_head\<close>.\<close>

definition rd_oid :: "mem \<Rightarrow> addr \<Rightarrow> PMEMoid" where
  "rd_oid m p = \<lparr>pool_uuid_lo = rd64 m p, oid_off = rd64 m (p + 8)\<rparr>"

definition pe_next_p :: "addr \<Rightarrow> addr" where "pe_next_p entry = entry"
definition pe_prev_p :: "addr \<Rightarrow> addr" where "pe_prev_p entry = entry + 16"
definition pe_first_p :: "addr \<Rightarrow> addr" where "pe_first_p head = head"
definition lock_p :: "addr \<Rightarrow> addr" where "lock_p head = head + 16"

definition NEXT_OFF :: u64 where "NEXT_OFF = 8"
definition PREV_OFF :: u64 where "PREV_OFF = 24"
definition POBJ_LIST_DEST_HEAD :: int where "POBJ_LIST_DEST_HEAD = 1"

definition OBJ_OFF_TO_PTR :: "PMEMobjpool \<Rightarrow> u64 \<Rightarrow> addr" where
  "OBJ_OFF_TO_PTR pop off = pop_addr pop + unat off"

record list_args_common =
  lac_pe_offset :: u64
  lac_obj_doffset :: u64
  lac_entry_ptr :: addr

record list_args_insert =
  lai_head :: addr
  lai_dest :: PMEMoid
  lai_dest_entry_ptr :: addr
  lai_before :: int

record list_args_remove =
  lar_pe_offset :: u64
  lar_obj_doffset :: u64
  lar_head :: addr
  lar_entry_ptr :: addr

record list_env =
  le_alloc :: "nat \<Rightarrow> addr option \<times> addr fresh"
  le_lock :: "addr \<Rightarrow> int"

record list_state =
  ls_mem :: mem
  ls_ctx :: operation_context
  ls_held :: "addr set"
  ls_calls :: nat

section \<open>Locks\<close>

definition mutex_lock :: "list_env \<Rightarrow> list_state \<Rightarrow> addr \<Rightarrow> (int \<times> list_state) option" where
  "mutex_lock env ls a =
     (if le_lock env a \<noteq> 0 then Some (le_lock env a, ls)
      else if a \<in> ls_held ls then None
      else Some (0, ls\<lparr>ls_held := insert a (ls_held ls)\<rparr>))"

definition mutex_unlock :: "list_state \<Rightarrow> addr \<Rightarrow> list_state" where
  "mutex_unlock ls a = ls\<lparr>ls_held := ls_held ls - {a}\<rparr>"

definition list_mutexes_lock :: "list_env \<Rightarrow> list_state \<Rightarrow> addr \<Rightarrow> addr option \<Rightarrow> (int \<times> list_state) option" where
  "list_mutexes_lock env ls head1 head2 =
     (case head2 of
        None \<Rightarrow> mutex_lock env ls (lock_p head1)
      | Some head2 \<Rightarrow>
          if head1 = head2 then mutex_lock env ls (lock_p head1)
          else let lock1 = min (lock_p head1) (lock_p head2);
                   lock2 = max (lock_p head1) (lock_p head2)
               in do { (r, ls) \<leftarrow> mutex_lock env ls lock1;
                       if r \<noteq> 0 then Some (r, ls)
                       else do { (r, ls) \<leftarrow> mutex_lock env ls lock2;
                                 Some (if r \<noteq> 0 then (r, mutex_unlock ls lock1) else (0, ls)) } })"

definition list_mutexes_unlock :: "list_state \<Rightarrow> addr \<Rightarrow> addr option \<Rightarrow> list_state" where
  "list_mutexes_unlock ls head1 head2 =
     (case head2 of
        None \<Rightarrow> mutex_unlock ls (lock_p head1)
      | Some head2 \<Rightarrow>
          if head1 = head2 then mutex_unlock ls (lock_p head1)
          else mutex_unlock (mutex_unlock ls (lock_p head1)) (lock_p head2))"

section \<open>Collecting the changes of an operation\<close>

text \<open>A call of \<open>operation_add_entry\<close>, whose result no function of \<^verbatim>\<open>list.c\<close> looks at.\<close>

definition list_add_entry :: "list_env \<Rightarrow> PMEMobjpool \<Rightarrow> list_state \<Rightarrow> addr \<Rightarrow> u64 \<Rightarrow> list_state" where
  "list_add_entry env pop ls ptr v =
     (let (ra, g) = le_alloc env (ls_calls ls);
          (r, ctx, m) = operation_add_entry ra g (pop_layout pop) (ls_ctx ls) (ls_mem ls) ptr v ULOG_OPERATION_SET
      in ls\<lparr>ls_ctx := ctx, ls_mem := m, ls_calls := ls_calls ls + 1\<rparr>)"

definition list_get_dest :: "PMEMobjpool \<Rightarrow> mem \<Rightarrow> addr \<Rightarrow> PMEMoid \<Rightarrow> u64 \<Rightarrow> int \<Rightarrow> PMEMoid" where
  "list_get_dest pop m head dest pe_offset before =
     (if oid_off dest \<noteq> 0 then dest
      else let first = rd_oid m (pe_first_p head)
           in if oid_off first = 0 \<or> (if before \<noteq> 0 then 1 else 0) = POBJ_LIST_DEST_HEAD then first
              else rd_oid m (pe_prev_p (OBJ_OFF_TO_PTR pop (oid_off first + pe_offset))))"

definition list_update_head :: "list_env \<Rightarrow> PMEMobjpool \<Rightarrow> list_state \<Rightarrow> addr \<Rightarrow> u64 \<Rightarrow> list_state" where
  "list_update_head env pop ls head first_offset =
     (let ls = list_add_entry env pop ls (pe_first_p head + 8) first_offset
      in if rd64 (ls_mem ls) (pe_first_p head) = 0
         then list_add_entry env pop ls (pe_first_p head) (uuid_lo pop)
         else ls)"

definition u64_add_offset :: "u64 \<Rightarrow> u64 \<Rightarrow> u64" where
  "u64_add_offset v off = (if sint off \<ge> 0 then v + off else v - (- off))"

definition list_fill_entry_redo_log ::
  "list_env \<Rightarrow> PMEMobjpool \<Rightarrow> list_state \<Rightarrow> list_args_common \<Rightarrow> u64 \<Rightarrow> u64 \<Rightarrow> bool \<Rightarrow> list_state" where
  "list_fill_entry_redo_log env pop ls args next_offset prev_offset set_uuid =
     (let e = lac_entry_ptr args;
          ls = (if set_uuid
                then ls\<lparr>ls_mem := wr64 (wr64 (ls_mem ls) (pe_next_p e) (uuid_lo pop)) (pe_prev_p e) (uuid_lo pop)\<rparr>
                else ls);
          next_off_off = u64_add_offset (lac_obj_doffset args + NEXT_OFF) (lac_pe_offset args);
          prev_off_off = u64_add_offset (lac_obj_doffset args + PREV_OFF) (lac_pe_offset args);
          ls = list_add_entry env pop ls (OBJ_OFF_TO_PTR pop next_off_off) next_offset
      in list_add_entry env pop ls (OBJ_OFF_TO_PTR pop prev_off_off) prev_offset)"

definition list_remove_single :: "list_env \<Rightarrow> PMEMobjpool \<Rightarrow> list_state \<Rightarrow> list_args_remove \<Rightarrow> list_state" where
  "list_remove_single env pop ls args =
     (let e = lar_entry_ptr args
      in if oid_off (rd_oid (ls_mem ls) (pe_next_p e)) = lar_obj_doffset args
         then list_update_head env pop ls (lar_head args) 0
         else
           let next_off = oid_off (rd_oid (ls_mem ls) (pe_next_p e));
               next_prev_off = u64_add_offset (next_off + PREV_OFF) (lar_pe_offset args);
               prev_off = oid_off (rd_oid (ls_mem ls) (pe_prev_p e));
               prev_next_off = u64_add_offset (prev_off + NEXT_OFF) (lar_pe_offset args);
               ls = list_add_entry env pop ls (OBJ_OFF_TO_PTR pop next_prev_off) prev_off;
               ls = list_add_entry env pop ls (OBJ_OFF_TO_PTR pop prev_next_off) next_off
           in if oid_off (rd_oid (ls_mem ls) (pe_first_p (lar_head args))) = lar_obj_doffset args
              then list_update_head env pop ls (lar_head args) next_off
              else ls)"

text \<open>The insertion functions answer the new \<open>next\<close> and \<open>prev\<close> offsets of the element.\<close>

definition list_insert_before ::
  "list_env \<Rightarrow> PMEMobjpool \<Rightarrow> list_state \<Rightarrow> list_args_insert \<Rightarrow> list_args_common \<Rightarrow> list_state \<times> u64 \<times> u64" where
  "list_insert_before env pop ls args args_common =
     (let next_offset = oid_off (lai_dest args);
          prev_offset = oid_off (rd_oid (ls_mem ls) (pe_prev_p (lai_dest_entry_ptr args)));
          dest_prev_off = u64_add_offset (oid_off (lai_dest args) + PREV_OFF) (lac_pe_offset args_common);
          dest_prev_next_off = u64_add_offset (prev_offset + NEXT_OFF) (lac_pe_offset args_common);
          ls = list_add_entry env pop ls (OBJ_OFF_TO_PTR pop dest_prev_off) (lac_obj_doffset args_common);
          ls = list_add_entry env pop ls (OBJ_OFF_TO_PTR pop dest_prev_next_off) (lac_obj_doffset args_common)
      in (ls, next_offset, prev_offset))"

definition list_insert_after ::
  "list_env \<Rightarrow> PMEMobjpool \<Rightarrow> list_state \<Rightarrow> list_args_insert \<Rightarrow> list_args_common \<Rightarrow> list_state \<times> u64 \<times> u64" where
  "list_insert_after env pop ls args args_common =
     (let next_offset = oid_off (rd_oid (ls_mem ls) (pe_next_p (lai_dest_entry_ptr args)));
          prev_offset = oid_off (lai_dest args);
          dest_next_off = u64_add_offset (oid_off (lai_dest args) + NEXT_OFF) (lac_pe_offset args_common);
          dest_next_prev_off = u64_add_offset (next_offset + PREV_OFF) (lac_pe_offset args_common);
          ls = list_add_entry env pop ls (OBJ_OFF_TO_PTR pop dest_next_off) (lac_obj_doffset args_common);
          ls = list_add_entry env pop ls (OBJ_OFF_TO_PTR pop dest_next_prev_off) (lac_obj_doffset args_common)
      in (ls, next_offset, prev_offset))"

definition list_insert_user ::
  "list_env \<Rightarrow> PMEMobjpool \<Rightarrow> list_state \<Rightarrow> list_args_insert \<Rightarrow> list_args_common \<Rightarrow> list_state \<times> u64 \<times> u64" where
  "list_insert_user env pop ls args args_common =
     (if oid_off (lai_dest args) = 0
      then (list_update_head env pop ls (lai_head args) (lac_obj_doffset args_common),
            lac_obj_doffset args_common, lac_obj_doffset args_common)
      else if lai_before args \<noteq> 0 then
        let (ls, next_offset, prev_offset) = list_insert_before env pop ls args args_common
        in if oid_off (lai_dest args) = oid_off (rd_oid (ls_mem ls) (pe_first_p (lai_head args)))
           then (list_update_head env pop ls (lai_head args) (lac_obj_doffset args_common), next_offset, prev_offset)
           else (ls, next_offset, prev_offset)
      else list_insert_after env pop ls args args_common)"

section \<open>Operations\<close>

text \<open>\<open>operation_start\<close> and \<open>operation_finish\<close> on the context of the lane.\<close>

definition list_start :: "list_state \<Rightarrow> list_state" where
  "list_start ls = ls\<lparr>ls_ctx := operation_start (ls_ctx ls)\<rparr>"

definition list_finish :: "list_state \<Rightarrow> list_state option" where
  "list_finish ls = map_option (\<lambda>(ctx, m). ls\<lparr>ls_ctx := ctx, ls_mem := m\<rparr>) (operation_finish (ls_ctx ls) (ls_mem ls))"

text \<open>What \<open>list_insert\<close> does between taking and releasing the lock, up to \<open>operation_finish\<close>.\<close>

definition list_insert_collect ::
  "list_env \<Rightarrow> PMEMobjpool \<Rightarrow> list_state \<Rightarrow> u64 \<Rightarrow> addr \<Rightarrow> PMEMoid \<Rightarrow> int \<Rightarrow> PMEMoid \<Rightarrow> list_state" where
  "list_insert_collect env pop ls pe_offset head dest before oid =
     (let ls = list_start ls;
          dest = list_get_dest pop (ls_mem ls) head dest pe_offset before;
          args = \<lparr>lai_head = head, lai_dest = dest,
                  lai_dest_entry_ptr = OBJ_OFF_TO_PTR pop (oid_off dest + pe_offset), lai_before = before\<rparr>;
          args_common = \<lparr>lac_pe_offset = pe_offset, lac_obj_doffset = oid_off oid,
                         lac_entry_ptr = OBJ_OFF_TO_PTR pop (oid_off oid + pe_offset)\<rparr>;
          (ls, next_offset, prev_offset) = list_insert_user env pop ls args args_common
      in list_fill_entry_redo_log env pop ls args_common next_offset prev_offset True)"

definition list_insert ::
  "list_env \<Rightarrow> PMEMobjpool \<Rightarrow> list_state \<Rightarrow> u64 \<Rightarrow> addr \<Rightarrow> PMEMoid \<Rightarrow> int \<Rightarrow> PMEMoid \<Rightarrow> (int \<times> list_state) option" where
  "list_insert env pop ls pe_offset head dest before oid =
     do { (r, ls) \<leftarrow> mutex_lock env ls (lock_p head);
          if r \<noteq> 0 then Some (- 1, ls)
          else do { ls \<leftarrow> list_finish (list_insert_collect env pop ls pe_offset head dest before oid);
                    Some (0, mutex_unlock ls (lock_p head)) } }"

definition list_remove_collect ::
  "list_env \<Rightarrow> PMEMobjpool \<Rightarrow> list_state \<Rightarrow> u64 \<Rightarrow> addr \<Rightarrow> PMEMoid \<Rightarrow> list_state" where
  "list_remove_collect env pop ls pe_offset head oid =
     (let ls = list_start ls;
          entry_ptr = OBJ_OFF_TO_PTR pop (oid_off oid + pe_offset);
          args = \<lparr>lar_pe_offset = pe_offset, lar_obj_doffset = oid_off oid, lar_head = head, lar_entry_ptr = entry_ptr\<rparr>;
          args_common = \<lparr>lac_pe_offset = pe_offset, lac_obj_doffset = oid_off oid, lac_entry_ptr = entry_ptr\<rparr>;
          ls = list_remove_single env pop ls args
      in list_fill_entry_redo_log env pop ls args_common 0 0 False)"

definition list_remove ::
  "list_env \<Rightarrow> PMEMobjpool \<Rightarrow> list_state \<Rightarrow> u64 \<Rightarrow> addr \<Rightarrow> PMEMoid \<Rightarrow> (int \<times> list_state) option" where
  "list_remove env pop ls pe_offset head oid =
     do { (r, ls) \<leftarrow> mutex_lock env ls (lock_p head);
          if r \<noteq> 0 then Some (- 1, ls)
          else do { ls \<leftarrow> list_finish (list_remove_collect env pop ls pe_offset head oid);
                    Some (0, mutex_unlock ls (lock_p head)) } }"

definition list_move_collect ::
  "list_env \<Rightarrow> PMEMobjpool \<Rightarrow> list_state \<Rightarrow> u64 \<Rightarrow> addr \<Rightarrow> u64 \<Rightarrow> addr \<Rightarrow> PMEMoid \<Rightarrow> int \<Rightarrow> PMEMoid \<Rightarrow> list_state" where
  "list_move_collect env pop ls pe_offset_old head_old pe_offset_new head_new dest before oid =
     (let ls = list_start ls;
          dest = list_get_dest pop (ls_mem ls) head_new dest pe_offset_new before;
          entry_ptr_old = OBJ_OFF_TO_PTR pop (oid_off oid + pe_offset_old);
          entry_ptr_new = OBJ_OFF_TO_PTR pop (oid_off oid + pe_offset_new);
          dest_entry_ptr = OBJ_OFF_TO_PTR pop (oid_off dest + pe_offset_new);
          first = oid_off (rd_oid (ls_mem ls) (pe_first_p head_old))
      in if head_old = head_new \<and> oid_off dest = oid_off oid then ls
         else if head_old = head_new \<and> before \<noteq> 0 \<and>
           oid_off (rd_oid (ls_mem ls) (pe_prev_p dest_entry_ptr)) = oid_off oid
         then if first \<noteq> oid_off dest then ls
              else list_update_head env pop ls head_old (oid_off oid)
         else if head_old = head_new \<and> before = 0 \<and>
           oid_off (rd_oid (ls_mem ls) (pe_next_p dest_entry_ptr)) = oid_off oid
         then if first \<noteq> oid_off oid then ls
              else list_update_head env pop ls head_old (oid_off (rd_oid (ls_mem ls) (pe_next_p entry_ptr_old)))
         else
           let args_remove = \<lparr>lar_pe_offset = pe_offset_old, lar_obj_doffset = oid_off oid,
                              lar_head = head_old, lar_entry_ptr = entry_ptr_old\<rparr>;
               args_insert = \<lparr>lai_head = head_new, lai_dest = dest,
                              lai_dest_entry_ptr = dest_entry_ptr, lai_before = before\<rparr>;
               args_common = \<lparr>lac_pe_offset = pe_offset_new, lac_obj_doffset = oid_off oid,
                              lac_entry_ptr = entry_ptr_new\<rparr>;
               ls = list_remove_single env pop ls args_remove;
               (ls, next_offset, prev_offset) = list_insert_user env pop ls args_insert args_common
           in list_fill_entry_redo_log env pop ls args_common next_offset prev_offset (pe_offset_new \<noteq> pe_offset_old))"

definition list_move ::
  "list_env \<Rightarrow> PMEMobjpool \<Rightarrow> list_state \<Rightarrow> u64 \<Rightarrow> addr \<Rightarrow> u64 \<Rightarrow> addr \<Rightarrow> PMEMoid \<Rightarrow> int \<Rightarrow> PMEMoid \<Rightarrow>
   (int \<times> list_state) option" where
  "list_move env pop ls pe_offset_old head_old pe_offset_new head_new dest before oid =
     do { (r, ls) \<leftarrow> list_mutexes_lock env ls head_new (Some head_old);
          if r \<noteq> 0 then Some (- 1, ls)
          else do { ls \<leftarrow> list_finish (list_move_collect env pop ls pe_offset_old head_old pe_offset_new head_new dest before oid);
                    Some (0, list_mutexes_unlock ls head_new (Some head_old)) } }"

section \<open>Walking a list\<close>

text \<open>The macros of \<^verbatim>\<open>lists_atomic.h\<close> for a list of objects of this pool. A loop is the list of the values
  that its variable takes; \<open>None\<close> is a loop that does not end.\<close>

definition POBJ_LIST_FIRST :: "mem \<Rightarrow> addr \<Rightarrow> PMEMoid" where
  "POBJ_LIST_FIRST m head = rd_oid m (pe_first_p head)"

definition POBJ_LIST_NEXT :: "PMEMobjpool \<Rightarrow> mem \<Rightarrow> u64 \<Rightarrow> PMEMoid \<Rightarrow> PMEMoid" where
  "POBJ_LIST_NEXT pop m field elm = rd_oid m (pe_next_p (OBJ_OFF_TO_PTR pop (oid_off elm + field)))"

definition POBJ_LIST_PREV :: "PMEMobjpool \<Rightarrow> mem \<Rightarrow> u64 \<Rightarrow> PMEMoid \<Rightarrow> PMEMoid" where
  "POBJ_LIST_PREV pop m field elm = rd_oid m (pe_prev_p (OBJ_OFF_TO_PTR pop (oid_off elm + field)))"

definition POBJ_LIST_LAST :: "PMEMobjpool \<Rightarrow> mem \<Rightarrow> u64 \<Rightarrow> addr \<Rightarrow> PMEMoid" where
  "POBJ_LIST_LAST pop m field head =
     (if oid_off (POBJ_LIST_FIRST m head) = 0 then POBJ_LIST_FIRST m head
      else POBJ_LIST_PREV pop m field (POBJ_LIST_FIRST m head))"

partial_function (option) foreach_from :: "(PMEMoid \<Rightarrow> PMEMoid) \<Rightarrow> PMEMoid \<Rightarrow> PMEMoid \<Rightarrow> PMEMoid list option" where
  "foreach_from step stop var =
     (if oid_off var = 0 then Some []
      else do { vs \<leftarrow> foreach_from step stop (if step var = stop then OID_NULL else step var);
                Some (var # vs) })"

definition POBJ_LIST_FOREACH :: "PMEMobjpool \<Rightarrow> mem \<Rightarrow> u64 \<Rightarrow> addr \<Rightarrow> PMEMoid list option" where
  "POBJ_LIST_FOREACH pop m field head =
     foreach_from (POBJ_LIST_NEXT pop m field) (POBJ_LIST_FIRST m head) (POBJ_LIST_FIRST m head)"

definition POBJ_LIST_FOREACH_REVERSE :: "PMEMobjpool \<Rightarrow> mem \<Rightarrow> u64 \<Rightarrow> addr \<Rightarrow> PMEMoid list option" where
  "POBJ_LIST_FOREACH_REVERSE pop m field head =
     foreach_from (POBJ_LIST_PREV pop m field) (POBJ_LIST_LAST pop m field head) (POBJ_LIST_LAST pop m field head)"

end
