(* ===== verification/Heap_Redo.thy ===== *)
theory Heap_Redo
  imports Memops_Theorems Plist
begin

text \<open>
  Operations on the heap through the redo log of a lane: the words that an operation has collected in
  its shadow log, each with the value and the way it is combined with the old contents, what finishing
  the operation makes of them, and what a failure and recovery can leave. An operation collects at most
  twelve words here and a shadow log has room for sixty, so no addition fails; callers that do not
  check the result of an addition rely on that.
\<close>

unbundle bit_operations_syntax

section \<open>Pool and lane\<close>

text \<open>The heap of a pool as a range of addresses, and spans of words in it.\<close>

definition heap_lo :: "PMEMobjpool \<Rightarrow> addr" where
  "heap_lo pop = pop_addr pop + unat (heap_offset (pop_layout pop))"

definition heap_hi :: "PMEMobjpool \<Rightarrow> addr" where
  "heap_hi pop = heap_lo pop + unat (heap_size (pop_layout pop))"

definition objpool_ok :: "PMEMobjpool \<Rightarrow> bool" where
  "objpool_ok pop \<longleftrightarrow> pop_addr pop < heap_lo pop \<and> heap_hi pop < pop_addr pop + 2 ^ 61"

definition heap_span :: "PMEMobjpool \<Rightarrow> addr \<Rightarrow> nat \<Rightarrow> bool" where
  "heap_span pop a n \<longleftrightarrow> heap_lo pop \<le> a \<and> a + n \<le> heap_hi pop \<and> (a - pop_addr pop) mod 8 = 0"

abbreviation shadow_addr :: "operation_context \<Rightarrow> addr" where
  "shadow_addr ctx \<equiv> ol_ulog (pshadow_ops ctx)"

text \<open>The external context of a lane: a redo context over the pool whose log is in front of the heap and
  has room for twelve entries, and whose shadow log is outside the pool.\<close>

definition lane_ok :: "PMEMobjpool \<Rightarrow> operation_context \<Rightarrow> mem \<Rightarrow> bool" where
  "lane_ok pop ctx m \<longleftrightarrow>
     oc_type ctx = LOG_TYPE_REDO \<and> oc_base ctx = pop_addr pop \<and>
     pop_addr pop \<le> oc_ulog ctx \<and> oc_ulog ctx + 64 + unat (oc_base_nbytes ctx) \<le> heap_lo pop \<and>
     256 \<le> unat (oc_base_nbytes ctx) \<and> ol_capacity (pshadow_ops ctx) = 1024 \<and>
     rd64 m (ulog_capacity_p (shadow_addr ctx)) = oc_base_nbytes ctx \<and>
     (shadow_addr ctx + 64 + max 1024 (unat (oc_base_nbytes ctx)) \<le> pop_addr pop \<or> heap_hi pop \<le> shadow_addr ctx) \<and>
     vecq_ok (merge_entries ctx) \<and> (vq_capacity (merge_entries ctx) = 0 \<or> 64 \<le> vq_capacity (merge_entries ctx))"

definition same_lane :: "operation_context \<Rightarrow> operation_context \<Rightarrow> bool" where
  "same_lane ctx ctx' \<longleftrightarrow>
     oc_type ctx' = oc_type ctx \<and> oc_base ctx' = oc_base ctx \<and> oc_ulog ctx' = oc_ulog ctx \<and>
     oc_base_nbytes ctx' = oc_base_nbytes ctx \<and> oc_next ctx' = oc_next ctx \<and>
     shadow_addr ctx' = shadow_addr ctx \<and> ol_capacity (pshadow_ops ctx') = ol_capacity (pshadow_ops ctx)"

lemma same_lane_refl [simp]: "same_lane ctx ctx"
  by (simp add: same_lane_def)

lemma heap_spanI: "heap_span pop a n \<Longrightarrow> k + l \<le> n \<Longrightarrow> k mod 8 = 0 \<Longrightarrow> objpool_ok pop \<Longrightarrow> heap_span pop (a + k) l"
  unfolding heap_span_def objpool_ok_def by (elim conjE, intro conjI) (linarith | presburger)+

lemma heap_word_off:
  assumes "objpool_ok pop" and "heap_span pop a 8"
  shows "unat (of_nat (a - pop_addr pop) :: u64) = a - pop_addr pop"
  using assms by (intro unat_of_nat_u64) (auto simp: objpool_ok_def heap_span_def)

lemma heap_word_valid:
  assumes "objpool_ok pop" and "heap_span pop a 8"
  shows "OBJ_OFF_IS_VALID (pop_layout pop) (of_nat a - of_nat (pop_addr pop))"
proof -
  let ?l = "pop_layout pop"
  have p: "pop_addr pop \<le> a" using assms by (auto simp: objpool_ok_def heap_span_def)
  have u: "unat (of_nat a - of_nat (pop_addr pop) :: u64) = a - pop_addr pop"
    using heap_word_off [OF assms] offset_of_ptr [OF p] by simp
  have s: "unat (heap_offset ?l + heap_size ?l) = unat (heap_offset ?l) + unat (heap_size ?l)"
    using assms(1) by (intro unat_plus_u64) (auto simp: objpool_ok_def heap_hi_def heap_lo_def)
  show ?thesis
    using assms(2) u s unfolding OBJ_OFF_IS_VALID_def heap_span_def heap_hi_def heap_lo_def
    by (intro disjI1) (auto simp: word_le_nat_alt word_less_nat_alt)
qed

section \<open>Gathered updates\<close>

text \<open>An update: address, value and operation; its entry in a log, and its effect on the memory.\<close>

type_synonym update = "addr \<times> u64 \<times> u64"

fun update_entry :: "PMEMobjpool \<Rightarrow> update \<Rightarrow> uentry" where
  "update_entry pop (a, v, t) = UVal t (of_nat (a - pop_addr pop)) v"

fun put_update :: "update \<Rightarrow> mem \<Rightarrow> mem" where
  "put_update (a, v, t) m = wr64 m a (merge_val t (rd64 m a) v)"

definition update_ok :: "PMEMobjpool \<Rightarrow> update \<Rightarrow> bool" where
  "update_ok pop u \<longleftrightarrow> heap_span pop (fst u) 8 \<and> val_type (snd (snd u))"

lemma put_update_entries:
  assumes "objpool_ok pop" and "\<forall>u\<in>set us. update_ok pop u"
  shows "ue_apply_all (pop_addr pop) (map (update_entry pop) us) m = fold put_update us m"
  using assms(2)
proof (induction us arbitrary: m)
  case (Cons u us)
  obtain a v t where u: "u = (a, v, t)" by (cases u)
  have h: "heap_span pop a 8" using Cons.prems by (simp add: u update_ok_def)
  then have "pop_addr pop \<le> a" using assms(1) by (auto simp: objpool_ok_def heap_span_def)
  then have "ue_apply (pop_addr pop) (update_entry pop u) m = put_update u m"
    using heap_word_off [OF assms(1) h] by (simp add: u merge_val_def Let_def)
  then show ?case using Cons by simp
qed simp

text \<open>The context and the memory while an operation that started with \<open>ctx0\<close> and \<open>m0\<close> has gathered
  the updates \<open>us\<close>.\<close>

definition gathered ::
  "PMEMobjpool \<Rightarrow> operation_context \<Rightarrow> mem \<Rightarrow> update list \<Rightarrow> operation_context \<Rightarrow> mem \<Rightarrow> bool" where
  "gathered pop ctx0 m0 us ctx m \<longleftrightarrow>
     (\<exists>xs. shadow_inv ctx m xs \<and> length xs \<le> length us \<and>
        ue_off ` set xs = (\<lambda>u. of_nat (fst u - pop_addr pop)) ` set us \<and>
        (\<forall>b m. ue_apply_all b xs m = ue_apply_all b (map (update_entry pop) us) m)) \<and>
     (\<forall>u\<in>set us. update_ok pop u) \<and> same_lane ctx0 ctx \<and> ol_offset (transient_ops ctx) = 0 \<and>
     (\<forall>a. a < ulog_data (shadow_addr ctx0) \<or> ulog_data (shadow_addr ctx0) + 1024 \<le> a \<longrightarrow> m a = m0 a)"

lemma gathered_start:
  assumes "lane_ok pop ctx m"
  shows "gathered pop ctx m [] (operation_start ctx) m"
proof -
  have "shadow_inv (operation_start ctx) m []"
    using assms by (auto simp: lane_ok_def shadow_inv_def Let_def operation_start_def operation_init_def VECQ_REINIT_def
        vecq_ok_def VECQ_SIZE_def vecq_list_def)
  then show ?thesis
    by (auto simp: gathered_def same_lane_def operation_start_def operation_init_def)
qed

text \<open>Adding a word of the heap to the operation.\<close>

lemma gathered_add:
  assumes lane: "lane_ok pop ctx0 m0" and pool: "objpool_ok pop" and ga: "gathered pop ctx0 m0 us ctx m"
    and p: "update_ok pop (ptr, v, t)" and n: "length us < 12"
    and add: "operation_add_entry ra g (pop_layout pop) ctx m ptr v t = (r, ctx', m')"
  shows "r = 0" and "gathered pop ctx0 m0 (us @ [(ptr, v, t)]) ctx' m'"
proof -
  let ?o = "of_nat (ptr - pop_addr pop) :: u64"
  obtain xs where inv: "shadow_inv ctx m xs" and len: "length xs \<le> length us"
    and offs: "ue_off ` set xs = (\<lambda>u. of_nat (fst u - pop_addr pop)) ` set us"
    and app: "\<And>b m. ue_apply_all b xs m = ue_apply_all b (map (update_entry pop) us) m"
    and us: "\<forall>u\<in>set us. update_ok pop u" and sl: "same_lane ctx0 ctx" and tr: "ol_offset (transient_ops ctx) = 0"
    and fr: "\<And>a. a < ulog_data (shadow_addr ctx0) \<or> ulog_data (shadow_addr ctx0) + 1024 \<le> a \<Longrightarrow> m a = m0 a"
    using ga unfolding gathered_def by blast
  have h: "heap_span pop ptr 8" and t: "val_type t" using p by (auto simp: update_ok_def)
  have b: "oc_base ctx = pop_addr pop" and cap: "ol_capacity (pshadow_ops ctx) = 1024"
    and sh: "shadow_addr ctx = shadow_addr ctx0"
    using lane sl by (auto simp: lane_ok_def same_lane_def)
  have add': "operation_add_typed_entry ra g ctx m ptr v t LOG_PERSISTENT = (r, ctx', m')"
    using add heap_word_valid [OF pool h] by (simp add: operation_add_entry_def b)
  have q: "pop_addr pop < ptr" "ptr < pop_addr pop + 2 ^ 61"
    using h pool by (auto simp: heap_span_def objpool_ok_def)
  have room: "16 * length xs + 80 \<le> unat (ol_capacity (pshadow_ops ctx))" using len n cap by simp
  have bq: "oc_base ctx \<le> ptr" "ptr < oc_base ctx + 2 ^ 61" "ptr \<noteq> oc_base ctx \<or> t \<noteq> ULOG_OPERATION_SET" using q b by auto
  have capl: "unat (ol_capacity (pshadow_ops ctx)) < 2 ^ 62" using cap by simp
  note R = add_typed_entry_room [OF inv room t bq add']
  show "r = 0" by (rule R(1))
  have apart: "\<forall>x\<in>set xs. ue_off x = of_nat (ptr - oc_base ctx) \<or> words_apart (of_nat (ptr - oc_base ctx)) (ue_off x)"
  proof
    fix x assume "x \<in> set xs"
    then obtain u where u: "u \<in> set us" "ue_off x = of_nat (fst u - pop_addr pop)" using offs by blast
    then have "unat (ue_off x) mod 8 = 0"
      using us heap_word_off [OF pool, of "fst u"] by (auto simp: heap_span_def update_ok_def)
    moreover have "unat ?o mod 8 = 0" using heap_word_off [OF pool h] h by (simp add: heap_span_def)
    ultimately show "ue_off x = of_nat (ptr - oc_base ctx) \<or> words_apart (of_nat (ptr - oc_base ctx)) (ue_off x)"
      unfolding b by (rule words_apart_aligned)
  qed
  obtain xs' where xs': "shadow_inv ctx' m' xs'" "length xs' \<le> length xs + 1" "ue_off ` set xs' = insert ?o (ue_off ` set xs)"
      "\<And>b mm. ue_apply_all b xs' mm = ue_apply_all b (xs @ [UVal t ?o v]) mm"
    using add_typed_entry_spec [OF inv capl t bq apart add' [unfolded R(1)]] unfolding b by blast
  obtain off q where c': "ctx' = ctx\<lparr>pshadow_ops := (pshadow_ops ctx)\<lparr>ol_offset := off\<rparr>, merge_entries := q\<rparr>"
    using R(2) by blast
  have "\<exists>xs. shadow_inv ctx' m' xs \<and> length xs \<le> length (us @ [(ptr, v, t)]) \<and>
        ue_off ` set xs = (\<lambda>u. of_nat (fst u - pop_addr pop)) ` set (us @ [(ptr, v, t)]) \<and>
        (\<forall>b m. ue_apply_all b xs m = ue_apply_all b (map (update_entry pop) (us @ [(ptr, v, t)])) m)"
    by (rule exI [of _ xs']) (use xs' len offs app in simp)
  moreover have "m' a = m0 a"
    if "a < ulog_data (shadow_addr ctx0) \<or> ulog_data (shadow_addr ctx0) + 1024 \<le> a" for a
    using R(3) [of a] fr [OF that] that cap sh by simp
  moreover have "same_lane ctx0 ctx'" "ol_offset (transient_ops ctx') = 0"
    using sl tr by (simp_all add: c' same_lane_def)
  ultimately show "gathered pop ctx0 m0 (us @ [(ptr, v, t)]) ctx' m'"
    unfolding gathered_def using us p by simp
qed

text \<open>Words of the heap are read as they were, and may be written directly.\<close>

lemma gathered_rd:
  assumes "lane_ok pop ctx0 m0" and "objpool_ok pop" and "gathered pop ctx0 m0 us ctx m"
    and "heap_lo pop \<le> a" and "a < heap_hi pop"
  shows "m a = m0 a"
  using assms by (auto simp: gathered_def lane_ok_def objpool_ok_def ulog_data_def)

lemma shadow_inv_cong:
  assumes "shadow_inv ctx m xs"
    and "\<And>a. ulog_data (shadow_addr ctx) \<le> a \<Longrightarrow> a < ulog_data (shadow_addr ctx) + unat (ol_capacity (pshadow_ops ctx)) \<Longrightarrow> m' a = m a"
  shows "shadow_inv ctx m' xs"
proof -
  note I = assms(1) [unfolded shadow_inv_def Let_def]
  have "seg_at m' (ulog_data (shadow_addr ctx)) xs"
    by (rule seg_at_cong [of _ _ m]) (use I assms(2) seg_size_vals [of xs] in auto)
  moreover have "rd64 m' (ulog_data (shadow_addr ctx) + 16 * length xs) = rd64 m (ulog_data (shadow_addr ctx) + 16 * length xs)"
    by (rule rd64_cong) (use I assms(2) in auto)
  ultimately show ?thesis unfolding shadow_inv_def Let_def using I by simp
qed

lemma gathered_write:
  assumes "lane_ok pop ctx0 m0" and "objpool_ok pop" and "gathered pop ctx0 m0 us ctx m" and "heap_span pop p 8"
  shows "gathered pop ctx0 (wr64 m0 p v) us ctx (wr64 m p v)"
    and "lane_ok pop ctx0 (wr64 m0 p v)"
proof -
  let ?s = "shadow_addr ctx0"
  have sp: "?s + 64 + max 1024 (unat (oc_base_nbytes ctx0)) \<le> p \<or> p + 8 \<le> ?s"
    using assms(1,2,4) by (auto simp: lane_ok_def objpool_ok_def heap_span_def)
  then show "lane_ok pop ctx0 (wr64 m0 p v)"
    using assms(1) unfolding lane_ok_def
    by (subst rd64_wr64_disjoint) (auto simp: ulog_capacity_p_def)
  have sh: "shadow_addr ctx = ?s" "ol_capacity (pshadow_ops ctx) = 1024"
    using assms(1,3) by (auto simp: gathered_def same_lane_def lane_ok_def)
  have "shadow_inv ctx (wr64 m p v) xs" if "shadow_inv ctx m xs" for xs
  proof (rule shadow_inv_cong [OF that])
    fix a assume "ulog_data (shadow_addr ctx) \<le> a" "a < ulog_data (shadow_addr ctx) + unat (ol_capacity (pshadow_ops ctx))"
    then have "a < p \<or> p + 8 \<le> a" using sp unfolding sh by (auto simp: ulog_data_def)
    then show "wr64 m p v a = m a" by (rule wr64_out)
  qed
  moreover have "wr64 m p v a = wr64 m0 p v a" if "m a = m0 a" for a
    using that by (simp add: wr64_def store_def)
  ultimately show "gathered pop ctx0 (wr64 m0 p v) us ctx (wr64 m p v)"
    using assms(3) unfolding gathered_def by (auto simp del: ue_apply_all_simps)
qed

section \<open>Finishing an operation\<close>

lemma shadow_inv_in_progress [simp]: "shadow_inv (ctx\<lparr>in_progress := b\<rparr>) m xs = shadow_inv ctx m xs"
  by (simp add: shadow_inv_def)

lemma update_targets:
  assumes "objpool_ok pop" and "\<forall>x\<in>set xs. is_val x"
    and "ue_off ` set xs = (\<lambda>u. of_nat (fst u - pop_addr pop)) ` set us" and "\<forall>u\<in>set us. update_ok pop u"
    and "\<And>a. a \<in> F \<Longrightarrow> \<not> (heap_lo pop \<le> a \<and> a < heap_hi pop)"
  shows "targets_off (pop_addr pop) xs F"
  unfolding targets_off_def
proof
  fix x assume x: "x \<in> set xs"
  then obtain u where u: "u \<in> set us" "ue_off x = of_nat (fst u - pop_addr pop)" using assms(3) by blast
  then have h: "heap_span pop (fst u) 8" and o: "unat (ue_off x) = fst u - pop_addr pop"
    using assms(4) heap_word_off [OF assms(1)] by (auto simp: update_ok_def)
  have "ue_len x = 8" using bspec [OF assms(2) x] by (cases x rule: uentry.exhaust) auto
  then have "ue_target (pop_addr pop) x = {fst u ..< fst u + 8}"
    using assms(1) h o by (auto simp: ue_target_def objpool_ok_def heap_span_def)
  moreover have "heap_lo pop \<le> a \<and> a < heap_hi pop" if "a \<in> {fst u ..< fst u + 8}" for a
    using that h by (auto simp: heap_span_def)
  ultimately show "ue_target (pop_addr pop) x \<inter> F = {}" using assms(5) by blast
qed

text \<open>Memories that agree on the heap, and images that mix two memories byte by byte.\<close>

definition heap_eq :: "PMEMobjpool \<Rightarrow> mem \<Rightarrow> mem \<Rightarrow> bool" where
  "heap_eq pop m m' \<longleftrightarrow> (\<forall>a. heap_lo pop \<le> a \<longrightarrow> a < heap_hi pop \<longrightarrow> m a = m' a)"

definition mixed :: "mem \<Rightarrow> mem \<Rightarrow> mem \<Rightarrow> bool" where
  "mixed m m' c \<longleftrightarrow> (\<forall>a. c a = m a \<or> c a = m' a)"

lemma ue_apply_mask: "\<not> bit (ue_mask base x a) n \<Longrightarrow> bit (ue_apply base x m a) n = bit (m a) n"
proof (cases "a \<in> ue_target base x")
  case True
  assume "\<not> bit (ue_mask base x a) n"
  moreover have "n < 8 \<or> \<not> bit (m a) n \<and> \<not> bit (ue_apply base x m a) n"
    by (auto dest: bit_imp_le_length)
  ultimately show ?thesis
  proof (cases x)
    case (UVal t off v)
    define i where "i = a - (base + unat off)"
    have i: "i < 8" and a: "a = base + unat off + i" using True UVal by (auto simp: ue_target_def i_def)
    show ?thesis if "\<not> bit (ue_mask base x a) n" "n < 8 \<or> \<not> bit (m a) n \<and> \<not> bit (ue_apply base x m a) n"
      using that True i a UVal
      by (auto simp: Let_def wr64_def store_in nth_u64_bytes_and nth_u64_bytes_or bytes_rd64 bit_simps split: if_splits)
  qed (use True in auto)
qed (simp add: ue_apply_frame)

lemma ue_apply_all_mask: "\<not> bit (log_mask base xs a) n \<Longrightarrow> bit (ue_apply_all base xs m a) n = bit (m a) n"
proof (induction xs arbitrary: m)
  case (Cons x xs)
  then show ?case by (simp add: log_mask_def bit_simps ue_apply_mask)
qed simp

lemma mixed_agree: "mixed m (ue_apply_all base xs m) c \<Longrightarrow> agree_off (log_mask base xs) m c"
  unfolding agree_off_def mixed_def by (metis ue_apply_all_mask)

lemma put_updates_heap:
  assumes "heap_eq pop m m'" and "\<forall>u\<in>set us. update_ok pop u"
  shows "heap_eq pop (fold put_update us m) (fold put_update us m')"
  using assms
proof (induction us arbitrary: m m')
  case (Cons u us)
  obtain a v t where u: "u = (a, v, t)" by (cases u)
  have "rd64 m a = rd64 m' a"
    using Cons.prems by (intro rd64_cong) (auto simp: heap_eq_def u update_ok_def heap_span_def)
  then have "heap_eq pop (put_update u m) (put_update u m')"
    using Cons.prems(1) by (simp add: u heap_eq_def wr64_def store_def)
  then show ?case using Cons by simp
qed simp

lemma gathered_entries:
  assumes pool: "objpool_ok pop" and ga: "gathered pop ctx0 m0 us ctx m"
  obtains xs where "shadow_inv ctx m xs" and "length xs \<le> length us"
    and "ue_off ` set xs = (\<lambda>u. of_nat (fst u - pop_addr pop)) ` set us"
    and "\<And>m. ue_apply_all (pop_addr pop) xs m = fold put_update us m"
    and "\<And>F. (\<And>a. a \<in> F \<Longrightarrow> \<not> (heap_lo pop \<le> a \<and> a < heap_hi pop)) \<Longrightarrow> targets_off (pop_addr pop) xs F"
proof -
  obtain xs where xs: "shadow_inv ctx m xs" "length xs \<le> length us"
    "ue_off ` set xs = (\<lambda>u. of_nat (fst u - pop_addr pop)) ` set us"
    "\<And>b m. ue_apply_all b xs m = ue_apply_all b (map (update_entry pop) us) m"
    and us: "\<forall>u\<in>set us. update_ok pop u"
    using ga unfolding gathered_def by blast
  show thesis
    by (rule that [OF xs(1-3)])
      (use xs(4) put_update_entries [OF pool us] update_targets [OF pool shadow_invD(2) [OF xs(1)] xs(3) us] in auto)
qed

lemma gathered_heap:
  assumes "lane_ok pop ctx0 m0" and "objpool_ok pop" and "gathered pop ctx0 m0 us ctx m"
  shows "heap_eq pop m m0"
  using gathered_rd [OF assms] by (simp add: heap_eq_def)

lemma heap_eq_trans: "heap_eq pop m m' \<Longrightarrow> heap_eq pop m' m'' \<Longrightarrow> heap_eq pop m m''"
  by (simp add: heap_eq_def)

lemma heap_eq_sym: "heap_eq pop m m' \<Longrightarrow> heap_eq pop m' m"
  by (simp add: heap_eq_def)

lemma clobber_heap: "r + 64 \<le> heap_lo pop \<Longrightarrow> heap_eq pop (ulog_clobber m r ns) m"
  by (auto simp: heap_eq_def ulog_clobber_def Let_def store_out)

lemma gathered_two:
  assumes pool: "objpool_ok pop" and ga: "gathered pop ctx0 m0 us ctx m" and two: "2 \<le> card (fst ` set us)"
  shows "32 \<le> unat (ol_offset (pshadow_ops ctx))"
proof -
  obtain xs where xs: "shadow_inv ctx m xs" "ue_off ` set xs = (\<lambda>u. of_nat (fst u - pop_addr pop)) ` set us"
    by (rule gathered_entries [OF pool ga])
  have us: "\<forall>u\<in>set us. heap_span pop (fst u) 8" using ga by (auto simp: gathered_def update_ok_def)
  have inj: "inj_on (\<lambda>a. of_nat (a - pop_addr pop) :: u64) (fst ` set us)"
  proof (rule inj_onI)
    fix a b assume a: "a \<in> fst ` set us" "b \<in> fst ` set us" "of_nat (a - pop_addr pop) = (of_nat (b - pop_addr pop) :: u64)"
    then have "a - pop_addr pop = b - pop_addr pop" using us heap_word_off [OF pool] by (metis imageE)
    moreover have "pop_addr pop \<le> a" "pop_addr pop \<le> b" using a us pool by (auto simp: objpool_ok_def heap_span_def)
    ultimately show "a = b" by simp
  qed
  have "card (fst ` set us) = card (ue_off ` set xs)"
    unfolding xs(2) using card_image [OF inj] by (simp add: image_image)
  also have "\<dots> \<le> length xs" using card_image_le card_length le_trans by (metis List.finite_set)
  finally show ?thesis using two shadow_invD(3) [OF xs(1)] by simp
qed

lemma gathered_redo:
  assumes lane: "lane_ok pop ctx0 m0" and pool: "objpool_ok pop" and ga: "gathered pop ctx0 m0 us ctx m"
    and len: "length us \<le> 12" and two: "32 \<le> unat (ol_offset (pshadow_ops ctx))"
  shows "\<exists>m1 m3. redo_phases ctx m = Some [m1, fold put_update us m1, m3] \<and>
      operation_process ctx m = Some m3 \<and>
      heap_eq pop m1 m0 \<and> heap_eq pop m3 (fold put_update us m0) \<and>
      rd64 m3 (ulog_capacity_p (shadow_addr ctx)) = oc_base_nbytes ctx \<and>
      heap_eq pop (ulog_clobber (fold put_update us m1) (oc_ulog ctx) None) (fold put_update us m0) \<and>
      (\<forall>c. mixed m1 (fold put_update us m1) c \<longrightarrow>
        ulog_recover c (oc_ulog ctx) (pop_addr pop) = Some (ulog_clobber (fold put_update us m1) (oc_ulog ctx) None)) \<and>
      (\<forall>a. a \<notin> {oc_ulog ctx ..< oc_ulog ctx + 64 + unat (oc_base_nbytes ctx)} \<longrightarrow>
        a \<notin> {shadow_addr ctx ..< shadow_addr ctx + 16} \<longrightarrow> m1 a = m a)"
proof -
  let ?s = "shadow_addr ctx" and ?p = "oc_ulog ctx"
  let ?B = "unat (oc_base_nbytes ctx)"
  obtain xs where xs: "shadow_inv ctx m xs" "length xs \<le> length us"
    "ue_off ` set xs = (\<lambda>u. of_nat (fst u - pop_addr pop)) ` set us"
    "\<And>m. ue_apply_all (pop_addr pop) xs m = fold put_update us m"
    "\<And>F. (\<And>a. a \<in> F \<Longrightarrow> \<not> (heap_lo pop \<le> a \<and> a < heap_hi pop)) \<Longrightarrow> targets_off (pop_addr pop) xs F"
    using gathered_entries [OF pool ga] by blast
  have us: "\<forall>u\<in>set us. update_ok pop u" and tr: "ol_offset (transient_ops ctx) = 0"
    and sl: "same_lane ctx0 ctx" using ga by (auto simp: gathered_def)
  note L = lane [unfolded lane_ok_def] sl [unfolded same_lane_def]
  have n: "2 \<le> length xs" using two shadow_invD(3) [OF xs(1)] by simp
  have hdr: "rd64 m (ulog_capacity_p ?s) = oc_base_nbytes ctx"
    using L by (subst rd64_cong [where m' = "m0"]) (use ga in \<open>auto simp: gathered_def ulog_capacity_p_def ulog_data_def\<close>)
  have fit: "64 * ((16 * length xs + 71) div 64) \<le> ?B"
  proof -
    have "(16 * length xs + 71) div 64 \<le> 263 div 64" by (rule div_le_mono) (use xs(2) len in simp)
    then show ?thesis using L by simp
  qed
  have out: "\<not> (heap_lo pop \<le> a \<and> a < heap_hi pop)" if "a \<in> {?p ..< ?p + 64 + ?B} \<or> a \<in> {?s ..< ?s + 64 + ?B}" for a
    using that L pool by (auto simp: objpool_ok_def)
  have b: "oc_base ctx = pop_addr pop" "oc_type ctx = LOG_TYPE_REDO" using L by auto
  have disj: "?s + 64 + ?B \<le> ?p \<or> ?p + 64 + ?B \<le> ?s" using L by (auto simp: heap_hi_def)
  obtain m1 where m1: "\<And>m2. agree_off (log_mask (pop_addr pop) xs) m1 m2 \<Longrightarrow>
      ulog_recover m2 ?p (pop_addr pop) = Some (ulog_clobber (fold put_update us m1) ?p None)"
    "redo_phases ctx m = Some [m1, fold put_update us m1, ulog_clobber (fold put_update us m1) ?p (Some (oc_next ctx))]"
    "operation_process ctx m = Some (ulog_clobber (fold put_update us m1) ?p (Some (oc_next ctx)))"
    "\<And>a. a \<notin> {?p ..< ?p + 64 + ?B} \<Longrightarrow> a \<notin> {?s ..< ?s + 16} \<Longrightarrow> m1 a = m a"
    using process_redo_spec [OF xs(1) b(2) n hdr fit disj _ _ tr] xs(5) out unfolding b xs(4) by blast
  have h1: "heap_eq pop m1 m0"
  proof (rule heap_eq_trans [OF _ gathered_heap [OF lane pool ga]])
    have "m1 a = m a" if "heap_lo pop \<le> a" "a < heap_hi pop" for a
      using that out [of a] by (intro m1(4)) auto
    then show "heap_eq pop m1 m" by (simp add: heap_eq_def)
  qed
  have pl: "?p + 64 \<le> heap_lo pop" using L by simp
  note h2 = put_updates_heap [OF h1 us]
  have h3: "heap_eq pop (ulog_clobber (fold put_update us m1) ?p ns) (fold put_update us m0)" for ns
    using clobber_heap [OF pl] h2 by (rule heap_eq_trans)
  have "rd64 (ulog_clobber (fold put_update us m1) ?p (Some (oc_next ctx))) (ulog_capacity_p ?s) = rd64 m (ulog_capacity_p ?s)"
  proof (rule rd64_cong)
    fix a assume "ulog_capacity_p ?s \<le> a" "a < ulog_capacity_p ?s + 8"
    then have a: "?s + 16 \<le> a" "a < ?s + 24" by (auto simp: ulog_capacity_p_def)
    then have off: "a < ?p \<or> ?p + 64 + ?B \<le> a" "a \<in> {?s ..< ?s + 64 + ?B}" using disj by auto
    have "targets_off (pop_addr pop) xs {?s ..< ?s + 64 + ?B}" by (rule xs(5)) (use out in blast)
    then have "fold put_update us m1 a = m1 a"
      unfolding xs(4) [symmetric] using off(2) by (rule ue_apply_all_frame)
    also have "\<dots> = m a" using a off by (intro m1(4)) auto
    finally show "ulog_clobber (fold put_update us m1) ?p (Some (oc_next ctx)) a = m a"
      using off(1) by (auto simp: ulog_clobber_def Let_def store_out)
  qed
  moreover have "ulog_recover c ?p (pop_addr pop) = Some (ulog_clobber (fold put_update us m1) ?p None)"
    if "mixed m1 (fold put_update us m1) c" for c
    using that mixed_agree [of m1 "pop_addr pop" xs c] m1(1) by (simp add: xs(4))
  ultimately show ?thesis
    using m1(2,3,4) h1 h3 hdr by (intro exI [of _ m1] exI [of _ "ulog_clobber (fold put_update us m1) ?p (Some (oc_next ctx))"]) simp
qed

text \<open>Finishing an operation puts the gathered updates into the heap, whatever their number is.\<close>

lemma lane_ok_after:
  assumes "lane_ok pop ctx0 m0" and "same_lane ctx0 ctx" and "shadow_inv ctx m xs"
    and "rd64 m' (ulog_capacity_p (shadow_addr ctx)) = oc_base_nbytes ctx"
  shows "lane_ok pop (ctx\<lparr>in_progress := b\<rparr>) m'"
  using assms by (auto simp: lane_ok_def same_lane_def shadow_inv_def Let_def)

lemma operation_finish_redo:
  assumes "oc_type ctx = LOG_TYPE_REDO" and "ol_offset (pshadow_ops ctx) \<noteq> 0"
  shows "operation_finish ctx m = map_option (Pair (ctx\<lparr>in_progress := False\<rparr>)) (operation_process ctx m)"
proof -
  have "operation_process (ctx\<lparr>in_progress := False\<rparr>) m = operation_process ctx m"
    by (simp add: operation_process_def operation_process_persistent_redo_def operation_process_persistent_undo_def
        redo_phases_def Let_def cong: if_cong)
  then show ?thesis using assms by (simp add: operation_finish_def Let_def)
qed

lemma gathered_finish:
  assumes lane: "lane_ok pop ctx0 m0" and pool: "objpool_ok pop" and ga: "gathered pop ctx0 m0 us ctx m"
    and len: "length us \<le> 12"
  shows "\<exists>ctx' m'. operation_finish ctx m = Some (ctx', m') \<and> lane_ok pop ctx' m' \<and>
    heap_eq pop m' (fold put_update us m0)"
proof -
  let ?s = "shadow_addr ctx"
  obtain xs where xs: "shadow_inv ctx m xs" "length xs \<le> length us"
    "ue_off ` set xs = (\<lambda>u. of_nat (fst u - pop_addr pop)) ` set us"
    "\<And>m. ue_apply_all (pop_addr pop) xs m = fold put_update us m"
    "\<And>F. (\<And>a. a \<in> F \<Longrightarrow> \<not> (heap_lo pop \<le> a \<and> a < heap_hi pop)) \<Longrightarrow> targets_off (pop_addr pop) xs F"
    using gathered_entries [OF pool ga] by blast
  have us: "\<forall>u\<in>set us. update_ok pop u" and tr: "ol_offset (transient_ops ctx) = 0"
    and sl: "same_lane ctx0 ctx" using ga by (auto simp: gathered_def)
  note L = lane [unfolded lane_ok_def] sl [unfolded same_lane_def]
  have hdr: "rd64 m (ulog_capacity_p ?s) = oc_base_nbytes ctx"
    using L by (subst rd64_cong [where m' = m0]) (use ga in \<open>auto simp: gathered_def ulog_capacity_p_def ulog_data_def\<close>)
  note h = gathered_heap [OF lane pool ga]
  have redo: "oc_type ctx = LOG_TYPE_REDO" "oc_base ctx = pop_addr pop" using L by auto
  have off: "unat (ol_offset (pshadow_ops ctx)) = 16 * length xs" using shadow_invD(3) [OF xs(1)] .
  have "\<exists>m'. operation_finish ctx m = Some (ctx\<lparr>in_progress := False\<rparr>, m') \<and>
    rd64 m' (ulog_capacity_p ?s) = oc_base_nbytes ctx \<and> heap_eq pop m' (fold put_update us m0)"
  proof (cases "xs = []")
    case True
    then have "us = []" "ol_offset (pshadow_ops ctx) = 0" using xs(3) off by (auto simp: word_unat_eq_iff)
    then show ?thesis
      using redo hdr h by (intro exI [of _ m]) (simp add: operation_finish_def)
  next
    case False
    then have "ol_offset (pshadow_ops ctx) \<noteq> 0" using off by (auto simp: word_unat_eq_iff)
    note fin = operation_finish_redo [OF redo(1) this]
    show ?thesis
    proof (cases "2 \<le> length xs")
      case two: True
      then have "32 \<le> unat (ol_offset (pshadow_ops ctx))" using off by simp
      then show ?thesis using gathered_redo [OF lane pool ga len] fin by auto
    next
      case one: False
      with False obtain x where x: "xs = [x]" by (cases xs) (auto simp: Suc_le_eq)
      have p: "operation_process ctx m = Some (fold put_update us m)"
        using operation_single_entry [of ctx m x] xs(1) xs(4) [of m] redo tr by (simp add: x)
      have "targets_off (pop_addr pop) xs {?s ..< ?s + 64}"
        by (rule xs(5)) (use L pool in \<open>auto simp: objpool_ok_def\<close>)
      then have "fold put_update us m a = m a" if "?s \<le> a" "a < ?s + 64" for a
        unfolding xs(4) [symmetric] using that by (intro ue_apply_all_frame) auto
      then have "rd64 (fold put_update us m) (ulog_capacity_p ?s) = rd64 m (ulog_capacity_p ?s)"
        by (intro rd64_cong) (auto simp: ulog_capacity_p_def)
      then show ?thesis using p fin hdr put_updates_heap [OF h us] by (intro exI [of _ "fold put_update us m"]) simp
    qed
  qed
  then show ?thesis using lane_ok_after [OF lane sl xs(1)] by auto
qed

end
