(* ===== verification/Plist_Log.thy ===== *)
theory Plist_Log
  imports Heap_Redo
begin

text \<open>
  List operations and the redo log: the words of the heap that an operation of \<^verbatim>\<open>list.c\<close> has collected
  in the shadow log of its lane, every one of them to be set, and what finishing the operation makes of
  them. An operation collects at most twelve words.
\<close>

section \<open>Collected words\<close>

definition set_update :: "addr \<times> u64 \<Rightarrow> update" where
  "set_update w = (fst w, snd w, ULOG_OPERATION_SET)"

definition put_words :: "(addr \<times> u64) list \<Rightarrow> mem \<Rightarrow> mem" where
  "put_words ws m = fold (\<lambda>(a, v) m. wr64 m a v) ws m"

lemma put_words_simps [simp]:
  "put_words [] m = m" "put_words (w # ws) m = put_words ws (wr64 m (fst w) (snd w))"
  "put_words (ws @ ws') m = put_words ws' (put_words ws m)"
  by (simp_all add: put_words_def split_def)

lemma put_set_updates: "fold put_update (map set_update ws) m = put_words ws m"
  by (induction ws arbitrary: m) (simp_all add: set_update_def merge_val_def ulog_op_defs)

text \<open>The state \<open>ls\<close> while an operation that started in \<open>ls0\<close> has collected the words \<open>ws\<close>.\<close>

definition collected :: "PMEMobjpool \<Rightarrow> list_state \<Rightarrow> (addr \<times> u64) list \<Rightarrow> list_state \<Rightarrow> bool" where
  "collected pop ls0 ws ls \<longleftrightarrow>
     gathered pop (ls_ctx ls0) (ls_mem ls0) (map set_update ws) (ls_ctx ls) (ls_mem ls) \<and> ls_held ls = ls_held ls0"

lemma collectedD:
  assumes "collected pop ls0 ws ls"
  shows "gathered pop (ls_ctx ls0) (ls_mem ls0) (map set_update ws) (ls_ctx ls) (ls_mem ls)"
    and "same_lane (ls_ctx ls0) (ls_ctx ls)" and "\<forall>w\<in>set ws. heap_span pop (fst w) 8" and "ls_held ls = ls_held ls0"
    and "\<forall>a. a < ulog_data (shadow_addr (ls_ctx ls0)) \<or> ulog_data (shadow_addr (ls_ctx ls0)) + 1024 \<le> a \<longrightarrow>
        ls_mem ls a = ls_mem ls0 a"
  using assms by (auto simp: collected_def gathered_def update_ok_def set_update_def)

lemma collected_start:
  "lane_ok pop (ls_ctx ls) (ls_mem ls) \<Longrightarrow> collected pop ls [] (list_start ls)"
  using gathered_start by (simp add: collected_def list_start_def)

lemma collected_add:
  assumes lane: "lane_ok pop (ls_ctx ls0) (ls_mem ls0)" and pool: "objpool_ok pop" and col: "collected pop ls0 ws ls"
    and p: "heap_span pop ptr 8" and n: "length ws < 12"
  shows "collected pop ls0 (ws @ [(ptr, v)]) (list_add_entry env pop ls ptr v)"
proof -
  obtain ra g where rg: "le_alloc env (ls_calls ls) = (ra, g)" by fastforce
  obtain r ctx' m' where add: "operation_add_entry ra g (pop_layout pop) (ls_ctx ls) (ls_mem ls) ptr v ULOG_OPERATION_SET
      = (r, ctx', m')" by (metis prod_cases3)
  have "update_ok pop (ptr, v, ULOG_OPERATION_SET)" using p by (simp add: update_ok_def val_type_def)
  then have "gathered pop (ls_ctx ls0) (ls_mem ls0) (map set_update ws @ [(ptr, v, ULOG_OPERATION_SET)]) ctx' m'"
    using gathered_add(2) [OF lane pool collectedD(1) [OF col] _ _ add] n by simp
  then show ?thesis
    using add rg collectedD(4) [OF col] by (simp add: collected_def list_add_entry_def set_update_def)
qed

text \<open>Words of the heap are read as they were, and may be written directly.\<close>

lemma collected_rd64:
  assumes "lane_ok pop (ls_ctx ls0) (ls_mem ls0)" and "objpool_ok pop" and "collected pop ls0 ws ls" and "heap_span pop a 8"
  shows "rd64 (ls_mem ls) a = rd64 (ls_mem ls0) a"
  using assms(4) by (intro rd64_cong gathered_rd [OF assms(1,2) collectedD(1) [OF assms(3)]]) (auto simp: heap_span_def)

lemma collected_write:
  assumes "lane_ok pop (ls_ctx ls0) (ls_mem ls0)" and "objpool_ok pop" and "collected pop ls0 ws ls" and "heap_span pop p 8"
  shows "collected pop (ls0\<lparr>ls_mem := wr64 (ls_mem ls0) p v\<rparr>) ws (ls\<lparr>ls_mem := wr64 (ls_mem ls) p v\<rparr>)"
    and "lane_ok pop (ls_ctx ls0) (wr64 (ls_mem ls0) p v)"
  using gathered_write [OF assms(1,2) collectedD(1) [OF assms(3)] assms(4)] collectedD(4) [OF assms(3)]
  by (simp_all add: collected_def)

lemma put_words_heap:
  assumes "heap_eq pop m m'" and "\<forall>w\<in>set ws. heap_span pop (fst w) 8"
  shows "heap_eq pop (put_words ws m) (put_words ws m')"
  using put_updates_heap [OF assms(1), of "map set_update ws"] assms(2)
  by (simp add: put_set_updates update_ok_def set_update_def val_type_def)

section \<open>Finishing an operation\<close>

lemma collected_heap:
  assumes "lane_ok pop (ls_ctx ls0) (ls_mem ls0)" and "objpool_ok pop" and "collected pop ls0 ws ls"
  shows "heap_eq pop (ls_mem ls) (ls_mem ls0)"
  by (rule gathered_heap [OF assms(1,2) collectedD(1) [OF assms(3)]])

lemma collected_two:
  assumes "objpool_ok pop" and "collected pop ls0 ws ls" and "2 \<le> card (fst ` set ws)"
  shows "32 \<le> unat (ol_offset (pshadow_ops (ls_ctx ls)))"
  using gathered_two [OF assms(1) collectedD(1) [OF assms(2)]] assms(3) by (simp add: image_image set_update_def)

text \<open>The three memories of processing, when two different words have been collected: the first has the
  old heap, and what recovery makes of an image that mixes the first two has the new one.\<close>

lemma lane_redo:
  assumes lane: "lane_ok pop (ls_ctx ls0) (ls_mem ls0)" and pool: "objpool_ok pop" and col: "collected pop ls0 ws ls"
    and len: "length ws \<le> 12" and two: "32 \<le> unat (ol_offset (pshadow_ops (ls_ctx ls)))"
  shows "\<exists>m1 m3. redo_phases (ls_ctx ls) (ls_mem ls) = Some [m1, put_words ws m1, m3] \<and>
      operation_process (ls_ctx ls) (ls_mem ls) = Some m3 \<and>
      heap_eq pop m1 (ls_mem ls0) \<and> heap_eq pop m3 (put_words ws (ls_mem ls0)) \<and>
      rd64 m3 (ulog_capacity_p (shadow_addr (ls_ctx ls))) = oc_base_nbytes (ls_ctx ls) \<and>
      heap_eq pop (ulog_clobber (put_words ws m1) (oc_ulog (ls_ctx ls)) None) (put_words ws (ls_mem ls0)) \<and>
      (\<forall>c. mixed m1 (put_words ws m1) c \<longrightarrow>
        ulog_recover c (oc_ulog (ls_ctx ls)) (pop_addr pop) = Some (ulog_clobber (put_words ws m1) (oc_ulog (ls_ctx ls)) None)) \<and>
      (\<forall>a. a \<notin> {oc_ulog (ls_ctx ls) ..< oc_ulog (ls_ctx ls) + 64 + unat (oc_base_nbytes (ls_ctx ls))} \<longrightarrow>
        a \<notin> {shadow_addr (ls_ctx ls) ..< shadow_addr (ls_ctx ls) + 16} \<longrightarrow> m1 a = ls_mem ls a)"
  using gathered_redo [OF lane pool collectedD(1) [OF col] _ two] len by (simp only: put_set_updates length_map)

lemma list_finish_redo:
  assumes "oc_type (ls_ctx ls) = LOG_TYPE_REDO" and "ol_offset (pshadow_ops (ls_ctx ls)) \<noteq> 0"
  shows "list_finish ls = map_option (\<lambda>m. ls\<lparr>ls_ctx := (ls_ctx ls)\<lparr>in_progress := False\<rparr>, ls_mem := m\<rparr>)
    (operation_process (ls_ctx ls) (ls_mem ls))"
  using operation_finish_redo [OF assms] by (simp add: list_finish_def option.map_comp comp_def)

lemma list_finish_collected:
  assumes lane: "lane_ok pop (ls_ctx ls0) (ls_mem ls0)" and pool: "objpool_ok pop" and col: "collected pop ls0 ws ls"
    and len: "length ws \<le> 12"
  shows "\<exists>ls'. list_finish ls = Some ls' \<and> lane_ok pop (ls_ctx ls') (ls_mem ls') \<and> ls_held ls' = ls_held ls0 \<and>
    heap_eq pop (ls_mem ls') (put_words ws (ls_mem ls0))"
  using gathered_finish [OF lane pool collectedD(1) [OF col]] len collectedD(4) [OF col]
  by (auto simp: list_finish_def put_set_updates)

end
