(* ===== verification/Plist_Words.thy ===== *)
theory Plist_Words
  imports Ring Plist_Log
begin

text \<open>
  The representation of a list in memory (\<open>plist\<close>), the words that insertion, removal and moves change,
  and the proofs that the functions of \<^verbatim>\<open>list.c\<close> collect these words and that putting them into memory
  changes the list as intended.
\<close>

section \<open>Lists in memory\<close>

text \<open>The four words of a list entry and the first two words of a list head.\<close>

definition link_p :: "PMEMobjpool \<Rightarrow> u64 \<Rightarrow> u64 \<Rightarrow> nat \<Rightarrow> addr" where
  "link_p pop pe x k = OBJ_OFF_TO_PTR pop (x + pe) + 8 * k"

definition head_p :: "addr \<Rightarrow> nat \<Rightarrow> addr" where
  "head_p head k = head + 8 * k"

abbreviation nxt :: "PMEMobjpool \<Rightarrow> u64 \<Rightarrow> mem \<Rightarrow> u64 \<Rightarrow> u64" where
  "nxt pop pe m x \<equiv> rd64 m (link_p pop pe x 1)"

abbreviation prv :: "PMEMobjpool \<Rightarrow> u64 \<Rightarrow> mem \<Rightarrow> u64 \<Rightarrow> u64" where
  "prv pop pe m x \<equiv> rd64 m (link_p pop pe x 3)"

text \<open>The head and the objects \<open>U\<close> that may be on the list lie in the heap, apart from each other.\<close>

definition place_ok :: "PMEMobjpool \<Rightarrow> u64 \<Rightarrow> addr \<Rightarrow> u64 set \<Rightarrow> bool" where
  "place_ok pop pe head U \<longleftrightarrow> objpool_ok pop \<and> heap_span pop head 16 \<and>
     (\<forall>x\<in>U. x \<noteq> 0 \<and> heap_span pop (link_p pop pe x 0) 32 \<and>
        (link_p pop pe x 0 + 32 \<le> head \<or> head + 16 \<le> link_p pop pe x 0) \<and>
        (\<forall>y\<in>U. x \<noteq> y \<longrightarrow> link_p pop pe x 0 + 32 \<le> link_p pop pe y 0 \<or> link_p pop pe y 0 + 32 \<le> link_p pop pe x 0))"

definition plist :: "PMEMobjpool \<Rightarrow> u64 \<Rightarrow> addr \<Rightarrow> mem \<Rightarrow> u64 list \<Rightarrow> bool" where
  "plist pop pe head m xs \<longleftrightarrow> distinct xs \<and>
     rd64 m (head_p head 1) = (if xs = [] then 0 else hd xs) \<and>
     (rd64 m (head_p head 0) = uuid_lo pop \<or> xs = [] \<and> rd64 m (head_p head 0) = 0) \<and>
     (\<forall>x\<in>set xs. rd64 m (link_p pop pe x 0) = uuid_lo pop \<and> rd64 m (link_p pop pe x 2) = uuid_lo pop) \<and>
     ring (nxt pop pe m) (prv pop pe m) xs"

lemma place_link_span:
  assumes "place_ok pop pe head U" and "x \<in> U" and "k < 4"
  shows "heap_span pop (link_p pop pe x k) 8"
  using heap_spanI [of pop "link_p pop pe x 0" 32 "8 * k" 8] assms by (simp add: place_ok_def link_p_def)

lemma place_head_span:
  assumes "place_ok pop pe head U" and "k < 2"
  shows "heap_span pop (head_p head k) 8"
  using heap_spanI [of pop head 16 "8 * k" 8] assms by (simp add: place_ok_def head_p_def)

lemma place_mono: "place_ok pop pe head U \<Longrightarrow> V \<subseteq> U \<Longrightarrow> place_ok pop pe head V"
  unfolding place_ok_def by blast

lemma rd64_wr64_span:
  assumes "objpool_ok pop" and "heap_span pop a 8" and "heap_span pop b 8"
  shows "rd64 (wr64 m a v) b = (if a = b then v else rd64 m b)"
proof (cases "a = b")
  case False
  have p: "pop_addr pop \<le> a" "pop_addr pop \<le> b" "(a - pop_addr pop) mod 8 = 0" "(b - pop_addr pop) mod 8 = 0"
    using assms by (auto simp: heap_span_def objpool_ok_def)
  then have "b + 8 \<le> a \<or> a + 8 \<le> b" using False by presburger
  then show ?thesis using False rd64_wr64_disjoint by simp
qed simp

lemma link_p_eq:
  assumes "place_ok pop pe head U" and "x \<in> U" and "y \<in> U" and "k < 4" and "l < 4"
  shows "link_p pop pe x k = link_p pop pe y l \<longleftrightarrow> x = y \<and> k = l"
proof (cases "x = y")
  case False
  then have "link_p pop pe x 0 + 32 \<le> link_p pop pe y 0 \<or> link_p pop pe y 0 + 32 \<le> link_p pop pe x 0"
    using assms(1-3) unfolding place_ok_def by blast
  then show ?thesis using False assms(4,5) by (auto simp: link_p_def)
qed (simp add: link_p_def)

lemma link_head_neq:
  assumes "place_ok pop pe head U" and "x \<in> U" and "k < 4" and "l < 2"
  shows "link_p pop pe x k \<noteq> head_p head l"
proof -
  have "link_p pop pe x 0 + 32 \<le> head \<or> head + 16 \<le> link_p pop pe x 0"
    using assms(1,2) unfolding place_ok_def by blast
  then show ?thesis using assms(3,4) by (auto simp: link_p_def head_p_def)
qed

text \<open>Reading a word of the list after writing one.\<close>

lemma list_word_rd:
  assumes P: "place_ok pop pe head U"
  shows "x \<in> U \<Longrightarrow> y \<in> U \<Longrightarrow> k < 4 \<Longrightarrow> l < 4 \<Longrightarrow>
      rd64 (wr64 m (link_p pop pe y l) v) (link_p pop pe x k) = (if x = y \<and> k = l then v else rd64 m (link_p pop pe x k))"
    and "x \<in> U \<Longrightarrow> k < 4 \<Longrightarrow> l < 2 \<Longrightarrow> rd64 (wr64 m (head_p head l) v) (link_p pop pe x k) = rd64 m (link_p pop pe x k)"
    and "x \<in> U \<Longrightarrow> k < 2 \<Longrightarrow> l < 4 \<Longrightarrow> rd64 (wr64 m (link_p pop pe x l) v) (head_p head k) = rd64 m (head_p head k)"
    and "k < 2 \<Longrightarrow> l < 2 \<Longrightarrow> rd64 (wr64 m (head_p head l) v) (head_p head k) = (if k = l then v else rd64 m (head_p head k))"
proof -
  have pool: "objpool_ok pop" using P by (simp add: place_ok_def)
  note S = place_link_span [OF P] place_head_span [OF P]
  show "x \<in> U \<Longrightarrow> y \<in> U \<Longrightarrow> k < 4 \<Longrightarrow> l < 4 \<Longrightarrow>
      rd64 (wr64 m (link_p pop pe y l) v) (link_p pop pe x k) = (if x = y \<and> k = l then v else rd64 m (link_p pop pe x k))"
    by (subst rd64_wr64_span [OF pool S(1) S(1)]) (auto simp: link_p_eq [OF P])
  show "x \<in> U \<Longrightarrow> k < 4 \<Longrightarrow> l < 2 \<Longrightarrow> rd64 (wr64 m (head_p head l) v) (link_p pop pe x k) = rd64 m (link_p pop pe x k)"
    by (subst rd64_wr64_span [OF pool S(2) S(1)]) (auto dest: link_head_neq [OF P] simp: eq_commute [of "head_p head l"])
  show "x \<in> U \<Longrightarrow> k < 2 \<Longrightarrow> l < 4 \<Longrightarrow> rd64 (wr64 m (link_p pop pe x l) v) (head_p head k) = rd64 m (head_p head k)"
    by (subst rd64_wr64_span [OF pool S(1) S(2)]) (auto dest: link_head_neq [OF P])
  show "k < 2 \<Longrightarrow> l < 2 \<Longrightarrow> rd64 (wr64 m (head_p head l) v) (head_p head k) = (if k = l then v else rd64 m (head_p head k))"
    by (subst rd64_wr64_span [OF pool S(2) S(2)]) (auto simp: head_p_def)
qed

section \<open>The words that the operations change\<close>

definition head_words :: "PMEMobjpool \<Rightarrow> addr \<Rightarrow> mem \<Rightarrow> u64 \<Rightarrow> (addr \<times> u64) list" where
  "head_words pop head m v =
     (head_p head 1, v) # (if rd64 m (head_p head 0) = 0 then [(head_p head 0, uuid_lo pop)] else [])"

definition fill_words :: "PMEMobjpool \<Rightarrow> u64 \<Rightarrow> u64 \<Rightarrow> u64 \<Rightarrow> u64 \<Rightarrow> (addr \<times> u64) list" where
  "fill_words pop pe x n p = [(link_p pop pe x 1, n), (link_p pop pe x 3, p)]"

definition insert_words :: "PMEMobjpool \<Rightarrow> u64 \<Rightarrow> addr \<Rightarrow> mem \<Rightarrow> u64 \<Rightarrow> bool \<Rightarrow> u64 \<Rightarrow> (addr \<times> u64) list" where
  "insert_words pop pe head m d b x =
     (if d = 0 then head_words pop head m x
      else if b then [(link_p pop pe d 3, x), (link_p pop pe (prv pop pe m d) 1, x)] @
        (if d = rd64 m (head_p head 1) then head_words pop head m x else [])
      else [(link_p pop pe d 1, x), (link_p pop pe (nxt pop pe m d) 3, x)])"

definition insert_links :: "PMEMobjpool \<Rightarrow> u64 \<Rightarrow> mem \<Rightarrow> u64 \<Rightarrow> bool \<Rightarrow> u64 \<Rightarrow> u64 \<times> u64" where
  "insert_links pop pe m d b x =
     (if d = 0 then (x, x) else if b then (d, prv pop pe m d) else (nxt pop pe m d, d))"

definition remove_words :: "PMEMobjpool \<Rightarrow> u64 \<Rightarrow> addr \<Rightarrow> mem \<Rightarrow> u64 \<Rightarrow> (addr \<times> u64) list" where
  "remove_words pop pe head m x =
     (if nxt pop pe m x = x then head_words pop head m 0
      else [(link_p pop pe (nxt pop pe m x) 3, prv pop pe m x), (link_p pop pe (prv pop pe m x) 1, nxt pop pe m x)] @
        (if rd64 m (head_p head 1) = x then head_words pop head m (nxt pop pe m x) else []))"

lemma u64_add_offset_plus: "u64_add_offset v off = v + off"
  by (simp add: u64_add_offset_def)

lemma link_ptr:
  assumes "place_ok pop pe head U" and "x \<in> U"
  shows "OBJ_OFF_TO_PTR pop (u64_add_offset (x + NEXT_OFF) pe) = link_p pop pe x 1"
    and "OBJ_OFF_TO_PTR pop (u64_add_offset (x + PREV_OFF) pe) = link_p pop pe x 3"
proof -
  have "heap_span pop (link_p pop pe x 0) 32" "objpool_ok pop" using assms by (auto simp: place_ok_def)
  then have "unat (x + pe) + 32 < 2 ^ 61"
    by (auto simp: heap_span_def objpool_ok_def link_p_def OBJ_OFF_TO_PTR_def)
  then have "unat ((x + pe) + 8) = unat (x + pe) + 8" "unat ((x + pe) + 24) = unat (x + pe) + 24"
    by (subst unat_plus_u64; simp)+
  moreover have "x + 8 + pe = (x + pe) + 8" "x + 24 + pe = (x + pe) + 24" by simp_all
  ultimately have "unat (x + 8 + pe) = unat (x + pe) + 8" "unat (x + 24 + pe) = unat (x + pe) + 24" by metis+
  then show "OBJ_OFF_TO_PTR pop (u64_add_offset (x + NEXT_OFF) pe) = link_p pop pe x 1"
    "OBJ_OFF_TO_PTR pop (u64_add_offset (x + PREV_OFF) pe) = link_p pop pe x 3"
    by (simp_all add: u64_add_offset_plus link_p_def OBJ_OFF_TO_PTR_def NEXT_OFF_def PREV_OFF_def)
qed

lemma list_ptr_simps:
  "oid_off (rd_oid m (link_p pop pe x 0)) = nxt pop pe m x"
  "oid_off (rd_oid m (link_p pop pe x 2)) = prv pop pe m x"
  "oid_off (rd_oid m (head_p head 0)) = rd64 m (head_p head 1)"
  "pe_next_p (OBJ_OFF_TO_PTR pop (x + pe)) = link_p pop pe x 0"
  "pe_prev_p (OBJ_OFF_TO_PTR pop (x + pe)) = link_p pop pe x 2"
  "head_p head 0 + 8 = head_p head 1"
  "pe_first_p head = head_p head 0"
  by (simp_all add: rd_oid_def pe_next_p_def pe_prev_p_def pe_first_p_def link_p_def head_p_def add.assoc)

section \<open>What the operations collect\<close>

definition list_area :: "PMEMobjpool \<Rightarrow> u64 \<Rightarrow> addr \<Rightarrow> u64 set \<Rightarrow> addr set" where
  "list_area pop pe head U = {head ..< head + 16} \<union> (\<Union>x\<in>U. {link_p pop pe x 0 ..< link_p pop pe x 0 + 32})"

lemma link_in_area: "x \<in> U \<Longrightarrow> k < 4 \<Longrightarrow> {link_p pop pe x k ..< link_p pop pe x k + 8} \<subseteq> list_area pop pe head U"
  by (rule subsetI, unfold list_area_def link_p_def, rule UnI2, rule UN_I, assumption) auto

lemma head_in_area: "k < 2 \<Longrightarrow> {head_p head k ..< head_p head k + 8} \<subseteq> list_area pop pe head U"
  by (rule subsetI) (auto simp: list_area_def head_p_def)

text \<open>A list operation in a lane: the place of the list, the area \<open>A\<close> that the operation may change and the
  state that it started from.\<close>

definition list_run :: "PMEMobjpool \<Rightarrow> u64 \<Rightarrow> addr \<Rightarrow> u64 set \<Rightarrow> addr set \<Rightarrow> list_state \<Rightarrow> (addr \<times> u64) list \<Rightarrow> list_state \<Rightarrow> bool" where
  "list_run pop pe head U A ls0 ws ls \<longleftrightarrow>
     place_ok pop pe head U \<and> lane_ok pop (ls_ctx ls0) (ls_mem ls0) \<and> collected pop ls0 ws ls \<and>
     list_area pop pe head U \<subseteq> A \<and> (\<forall>w\<in>set ws. {fst w ..< fst w + 8} \<subseteq> A)"

lemma list_run_add:
  assumes "list_run pop pe head U A ls0 ws ls" and "length ws < 12"
  shows "x \<in> U \<Longrightarrow> k < 4 \<Longrightarrow> list_run pop pe head U A ls0 (ws @ [(link_p pop pe x k, v)]) (list_add_entry env pop ls (link_p pop pe x k) v)"
    and "k < 2 \<Longrightarrow> list_run pop pe head U A ls0 (ws @ [(head_p head k, v)]) (list_add_entry env pop ls (head_p head k) v)"
proof -
  have pool: "objpool_ok pop" and R: "place_ok pop pe head U" "lane_ok pop (ls_ctx ls0) (ls_mem ls0)" "collected pop ls0 ws ls"
    "list_area pop pe head U \<subseteq> A" "\<forall>w\<in>set ws. {fst w ..< fst w + 8} \<subseteq> A"
    using assms(1) by (simp_all add: list_run_def place_ok_def)
  have add: "list_run pop pe head U A ls0 (ws @ [(a, v)]) (list_add_entry env pop ls a v)"
    if "heap_span pop a 8" "{a ..< a + 8} \<subseteq> A" for a
    using R collected_add [OF R(2) pool R(3) that(1) assms(2), of v env] that(2) by (simp add: list_run_def)
  show "x \<in> U \<Longrightarrow> k < 4 \<Longrightarrow> list_run pop pe head U A ls0 (ws @ [(link_p pop pe x k, v)]) (list_add_entry env pop ls (link_p pop pe x k) v)"
    by (intro add place_link_span [OF R(1)] subset_trans [OF link_in_area R(4)])
  show "k < 2 \<Longrightarrow> list_run pop pe head U A ls0 (ws @ [(head_p head k, v)]) (list_add_entry env pop ls (head_p head k) v)"
    by (intro add place_head_span [OF R(1)] subset_trans [OF head_in_area R(4)])
qed

lemma list_run_rd:
  assumes "list_run pop pe head U A ls0 ws ls"
  shows "x \<in> U \<Longrightarrow> k < 4 \<Longrightarrow> rd64 (ls_mem ls) (link_p pop pe x k) = rd64 (ls_mem ls0) (link_p pop pe x k)"
    and "k < 2 \<Longrightarrow> rd64 (ls_mem ls) (head_p head k) = rd64 (ls_mem ls0) (head_p head k)"
proof -
  have pool: "objpool_ok pop" and R: "place_ok pop pe head U" "lane_ok pop (ls_ctx ls0) (ls_mem ls0)" "collected pop ls0 ws ls"
    using assms(1) by (simp_all add: list_run_def place_ok_def)
  show "x \<in> U \<Longrightarrow> k < 4 \<Longrightarrow> rd64 (ls_mem ls) (link_p pop pe x k) = rd64 (ls_mem ls0) (link_p pop pe x k)"
    by (intro collected_rd64 [OF R(2) pool R(3)] place_link_span [OF R(1)])
  show "k < 2 \<Longrightarrow> rd64 (ls_mem ls) (head_p head k) = rd64 (ls_mem ls0) (head_p head k)"
    by (intro collected_rd64 [OF R(2) pool R(3)] place_head_span [OF R(1)])
qed

lemma update_head_run:
  assumes "list_run pop pe head U A ls0 ws ls" and "length ws < 11"
  shows "list_run pop pe head U A ls0 (ws @ head_words pop head (ls_mem ls0) v) (list_update_head env pop ls head v)"
proof -
  let ?ls = "list_add_entry env pop ls (head_p head 1) v"
  have r: "list_run pop pe head U A ls0 (ws @ [(head_p head 1, v)]) ?ls"
    using assms by (intro list_run_add) auto
  show ?thesis
    using r list_run_add(2) [OF r, of 0 "uuid_lo pop" env] list_run_rd(2) [OF r, of 0] assms(2)
    by (auto simp: list_update_head_def list_ptr_simps head_words_def Let_def)
qed

lemma remove_single_run:
  assumes "list_run pop pe head U A ls0 [] ls" and "x \<in> U"
    and "nxt pop pe (ls_mem ls0) x \<in> U" and "prv pop pe (ls_mem ls0) x \<in> U"
  shows "list_run pop pe head U A ls0 (remove_words pop pe head (ls_mem ls0) x)
    (list_remove_single env pop ls \<lparr>lar_pe_offset = pe, lar_obj_doffset = x, lar_head = head, lar_entry_ptr = OBJ_OFF_TO_PTR pop (x + pe)\<rparr>)"
proof -
  let ?m = "ls_mem ls0" let ?n = "nxt pop pe ?m x" and ?p = "prv pop pe ?m x"
  have P: "place_ok pop pe head U" using assms(1) by (simp add: list_run_def)
  note rd = list_run_rd [OF assms(1)]
  define l1 where "l1 = list_add_entry env pop ls (link_p pop pe ?n 3) ?p"
  define l2 where "l2 = list_add_entry env pop l1 (link_p pop pe ?p 1) ?n"
  have r1: "list_run pop pe head U A ls0 [(link_p pop pe ?n 3, ?p)] l1"
    using list_run_add(1) [OF assms(1) _ assms(3), of 3 ?p env] by (simp add: l1_def)
  have r2: "list_run pop pe head U A ls0 [(link_p pop pe ?n 3, ?p), (link_p pop pe ?p 1, ?n)] l2"
    using list_run_add(1) [OF r1 _ assms(4), of 1 ?n env] by (simp add: l2_def)
  show ?thesis
  proof (cases "?n = x")
    case True
    then show ?thesis
      using update_head_run [OF assms(1), of 0 env] rd(1) [OF assms(2), of 1]
      by (simp add: list_remove_single_def list_ptr_simps remove_words_def Let_def)
  next
    case False
    then have "list_remove_single env pop ls \<lparr>lar_pe_offset = pe, lar_obj_doffset = x, lar_head = head,
        lar_entry_ptr = OBJ_OFF_TO_PTR pop (x + pe)\<rparr> =
        (if rd64 ?m (head_p head 1) = x then list_update_head env pop l2 head ?n else l2)"
      using rd(1) [OF assms(2), of 1] rd(1) [OF assms(2), of 3] list_run_rd(2) [OF r2, of 1] assms(3,4)
      by (simp add: list_remove_single_def list_ptr_simps Let_def link_ptr [OF P] l1_def l2_def)
    then show ?thesis
      using False r2 update_head_run [OF r2, of ?n env] by (simp add: remove_words_def)
  qed
qed

lemma insert_user_run:
  assumes r: "list_run pop pe head U A ls0 ws ls" and len: "length ws \<le> 4"
    and d: "d \<noteq> 0 \<Longrightarrow> d \<in> U" "d \<noteq> 0 \<Longrightarrow> nxt pop pe (ls_mem ls0) d \<in> U" "d \<noteq> 0 \<Longrightarrow> prv pop pe (ls_mem ls0) d \<in> U"
    and "oid_off dest = d"
  shows "\<exists>ls'. list_insert_user env pop ls \<lparr>lai_head = head, lai_dest = dest,
      lai_dest_entry_ptr = OBJ_OFF_TO_PTR pop (d + pe), lai_before = before\<rparr>
      \<lparr>lac_pe_offset = pe, lac_obj_doffset = x, lac_entry_ptr = e\<rparr> = (ls', insert_links pop pe (ls_mem ls0) d (before \<noteq> 0) x) \<and>
    list_run pop pe head U A ls0 (ws @ insert_words pop pe head (ls_mem ls0) d (before \<noteq> 0) x) ls'"
proof (cases "d = 0")
  case True
  then show ?thesis
    using update_head_run [OF r, of x env] len assms(6)
    by (simp add: list_insert_user_def insert_words_def insert_links_def)
next
  case False
  let ?m = "ls_mem ls0" let ?n = "nxt pop pe ?m d" and ?p = "prv pop pe ?m d"
  note D = d [OF False]
  have P: "place_ok pop pe head U" using r by (simp add: list_run_def)
  note rd = list_run_rd(1) [OF r D(1)]
  show ?thesis
  proof (cases "before = 0")
    case True
    define l1 where "l1 = list_add_entry env pop ls (link_p pop pe d 1) x"
    define l2 where "l2 = list_add_entry env pop l1 (link_p pop pe ?n 3) x"
    have r1: "list_run pop pe head U A ls0 (ws @ [(link_p pop pe d 1, x)]) l1"
      using list_run_add(1) [OF r _ D(1), of 1 x env] len by (simp add: l1_def)
    have "list_run pop pe head U A ls0 (ws @ [(link_p pop pe d 1, x), (link_p pop pe ?n 3, x)]) l2"
      using list_run_add(1) [OF r1 _ D(2), of 3 x env] len by (simp add: l2_def)
    then show ?thesis
      using True False rd [of 1] assms(6) D
      by (simp add: list_insert_user_def list_insert_after_def list_ptr_simps Let_def link_ptr [OF P]
          insert_words_def insert_links_def l1_def l2_def)
  next
    case before: False
    define l1 where "l1 = list_add_entry env pop ls (link_p pop pe d 3) x"
    define l2 where "l2 = list_add_entry env pop l1 (link_p pop pe ?p 1) x"
    have r1: "list_run pop pe head U A ls0 (ws @ [(link_p pop pe d 3, x)]) l1"
      using list_run_add(1) [OF r _ D(1), of 3 x env] len by (simp add: l1_def)
    have r2: "list_run pop pe head U A ls0 (ws @ [(link_p pop pe d 3, x), (link_p pop pe ?p 1, x)]) l2"
      using list_run_add(1) [OF r1 _ D(3), of 1 x env] len by (simp add: l2_def)
    have ib: "list_insert_before env pop ls \<lparr>lai_head = head, lai_dest = dest,
        lai_dest_entry_ptr = OBJ_OFF_TO_PTR pop (d + pe), lai_before = before\<rparr>
        \<lparr>lac_pe_offset = pe, lac_obj_doffset = x, lac_entry_ptr = e\<rparr> = (l2, d, ?p)"
      using rd [of 3] assms(6) D
      by (simp add: list_insert_before_def list_ptr_simps Let_def link_ptr [OF P] l1_def l2_def)
    show ?thesis
      using False before r2 update_head_run [OF r2, of x env] list_run_rd(2) [OF r2, of 1] len assms(6)
      by (auto simp: list_insert_user_def ib list_ptr_simps insert_words_def insert_links_def)
  qed
qed

section \<open>The words and the list\<close>

lemma plist_insert:
  assumes P: "place_ok pop pe head U" and L: "plist pop pe head m xs" and U: "set xs \<subseteq> U" "x \<in> U" "x \<notin> set xs"
    and d: "if xs = [] then d = 0 else d \<in> set xs"
    and uu: "rd64 m (link_p pop pe x 0) = uuid_lo pop" "rd64 m (link_p pop pe x 2) = uuid_lo pop"
    and np: "insert_links pop pe m d b x = (n, p)"
  shows "plist pop pe head (put_words (insert_words pop pe head m d b x @ fill_words pop pe x n p) m) (ins_at b d x xs)"
proof -
  let ?m = "put_words (insert_words pop pe head m d b x @ fill_words pop pe x n p) m"
  note W = list_word_rd [OF P] and L' = L [unfolded plist_def]
  show ?thesis
  proof (cases "xs = []")
    case True
    then have "d = 0" using d by simp
    then show ?thesis
      using True L' U(2) uu np
      by (auto simp: plist_def insert_words_def insert_links_def head_words_def fill_words_def W ring_Cons)
  next
    case False
    then have dx: "d \<in> set xs" using d by simp
    then have d0: "d \<noteq> 0" "d \<in> U" using P U(1) by (auto simp: place_ok_def)
    have nb: "nxt pop pe m d \<in> set xs" "prv pop pe m d \<in> set xs" using ring_in [OF _ dx] L' by blast+
    then have nU: "nxt pop pe m d \<in> U" "prv pop pe m d \<in> U" using U(1) by auto
    have hd: "hd xs = d \<longleftrightarrow> rd64 m (head_p head 1) = d" using L' False by simp
    have np': "p = (if b then prv pop pe m d else d)" "n = (if b then d else nxt pop pe m d)"
      using np d0 by (auto simp: insert_links_def)
    have nx: "nxt pop pe ?m a = (if a = x then n else if a = p then x else nxt pop pe m a)"
      and pv: "prv pop pe ?m a = (if a = x then p else if a = n then x else prv pop pe m a)"
      and uu': "rd64 ?m (link_p pop pe a 0) = rd64 m (link_p pop pe a 0)" "rd64 ?m (link_p pop pe a 2) = rd64 m (link_p pop pe a 2)"
      if "a \<in> U" for a
      using that d0 nU U(2) by (auto simp: np' insert_words_def head_words_def fill_words_def W)
    have h1: "rd64 ?m (head_p head 1) = (if b \<and> d = hd xs then x else hd xs)"
      and h0: "rd64 ?m (head_p head 0) = uuid_lo pop"
      using d0 nU U(2) False L' by (auto simp: np' insert_words_def head_words_def fill_words_def W)
    have "hd (ins_at b d x xs) = (if b \<and> d = hd xs then x else hd xs)" using False by (cases xs) auto
    moreover have "ins_at b d x xs \<noteq> []" using False by (cases xs) auto
    moreover have "ring (nxt pop pe ?m) (prv pop pe ?m) (ins_at b d x xs)"
    proof (rule ring_ins_at [where p = p and n = n])
      show "ring (nxt pop pe m) (prv pop pe m) xs" "distinct (x # xs)" "d \<in> set xs" using L' U(3) dx by auto
      show "p = (if b then prv pop pe m d else d)" "n = (if b then d else nxt pop pe m d)" by (rule np')+
      have "p \<in> set xs" "n \<in> set xs" using np' nb dx by auto
      then have px: "p \<noteq> x" "n \<noteq> x" "p \<in> U" "n \<in> U" using U by auto
      show "nxt pop pe ?m x = n" "prv pop pe ?m x = p" using nx [OF U(2)] pv [OF U(2)] by auto
      show "nxt pop pe ?m p = x" "prv pop pe ?m n = x" using nx [OF px(3)] pv [OF px(4)] px by auto
      show "nxt pop pe ?m a = nxt pop pe m a" if "a \<in> set xs" "a \<noteq> p" for a using nx [of a] that U by auto
      show "prv pop pe ?m a = prv pop pe m a" if "a \<in> set xs" "a \<noteq> n" for a using pv [of a] that U by auto
    qed
    moreover have "\<forall>a\<in>set (ins_at b d x xs). rd64 ?m (link_p pop pe a 0) = uuid_lo pop \<and> rd64 ?m (link_p pop pe a 2) = uuid_lo pop"
      using uu' uu L' U by (auto simp: subset_iff)
    ultimately show ?thesis unfolding plist_def using L' U(3) h1 h0 by simp
  qed
qed

lemma plist_remove:
  assumes P: "place_ok pop pe head U" and L: "plist pop pe head m xs" and U: "set xs \<subseteq> U" "x \<in> set xs"
  shows "plist pop pe head (put_words (remove_words pop pe head m x) m) (remove1 x xs)"
proof -
  let ?m = "put_words (remove_words pop pe head m x) m" and ?n = "nxt pop pe m x" and ?p = "prv pop pe m x"
  note W = list_word_rd [OF P] and L' = L [unfolded plist_def]
  obtain ps qs where xs: "xs = ps @ x # qs" using U(2) by (meson split_list)
  have x: "x \<notin> set ps" "x \<notin> set qs" "distinct (x # (qs @ ps))" using L' by (auto simp: xs)
  have r1: "remove1 x xs = ps @ qs" using x by (simp add: xs remove1_append)
  have r: "ring (nxt pop pe m) (prv pop pe m) (x # (qs @ ps))"
    using L' ring_swap_iff [of _ _ ps "x # qs"] by (simp add: xs)
  have nb: "?n \<in> U" "?p \<in> U" "x \<in> U" using ring_in [OF _ U(2)] L' U by blast+
  show ?thesis
  proof (cases "qs @ ps = []")
    case True
    then have "?n = x" using r by (simp add: ring_Cons)
    then show ?thesis
      using L' True xs by (auto simp: plist_def r1 remove_words_def head_words_def W)
  next
    case False
    have nx: "?n \<in> set (qs @ ps)" using r False by (cases "qs @ ps") (auto simp: ring_Cons linked_Cons)
    then have "?n \<noteq> x" using x by auto
    then have ws: "remove_words pop pe head m x = [(link_p pop pe ?n 3, ?p), (link_p pop pe ?p 1, ?n)] @
        (if rd64 m (head_p head 1) = x then head_words pop head m ?n else [])" by (simp add: remove_words_def)
    have lk: "nxt pop pe ?m a = (if a = ?p then ?n else nxt pop pe m a)" "prv pop pe ?m a = (if a = ?n then ?p else prv pop pe m a)"
      "rd64 ?m (link_p pop pe a 0) = rd64 m (link_p pop pe a 0)" "rd64 ?m (link_p pop pe a 2) = rd64 m (link_p pop pe a 2)"
      if "a \<in> U" for a
      using that nb by (auto simp: ws head_words_def W)
    have h1: "rd64 ?m (head_p head 1) = (if hd xs = x then ?n else hd xs)" and h0: "rd64 ?m (head_p head 0) = uuid_lo pop"
      using nb L' U(2) by (auto simp: ws head_words_def W)
    have "hd (ps @ qs) = (if hd xs = x then ?n else hd xs)"
    proof (cases ps)
      case Nil
      then obtain y ys where "qs = y # ys" using False by (cases qs) auto
      then show ?thesis using r Nil by (simp add: xs ring_Cons linked_Cons)
    next
      case (Cons y ys)
      then show ?thesis using x by (auto simp: xs)
    qed
    moreover have "ring (nxt pop pe ?m) (prv pop pe ?m) (ps @ qs)"
    proof -
      have "ring (nxt pop pe ?m) (prv pop pe ?m) (qs @ ps)"
      proof (rule ring_remove [OF r x(3) False])
        show "nxt pop pe ?m ?p = ?n" "prv pop pe ?m ?n = ?p" using lk nb by auto
        show "nxt pop pe ?m a = nxt pop pe m a" if "a \<in> set (qs @ ps)" "a \<noteq> ?p" for a
          using that lk(1) [of a] U by (auto simp: xs)
        show "prv pop pe ?m a = prv pop pe m a" if "a \<in> set (qs @ ps)" "a \<noteq> ?n" for a
          using that lk(2) [of a] U by (auto simp: xs)
      qed
      then show ?thesis using ring_swap_iff by blast
    qed
    moreover have "\<forall>a\<in>set (ps @ qs). rd64 ?m (link_p pop pe a 0) = uuid_lo pop \<and> rd64 ?m (link_p pop pe a 2) = uuid_lo pop"
      using lk L' U by (auto simp: xs)
    ultimately show ?thesis unfolding plist_def r1 using x h1 h0 False by auto
  qed
qed

text \<open>Words of objects that are not on the list do not matter.\<close>

lemma plist_cong:
  assumes "plist pop pe head m xs"
    and "\<And>k. k < 2 \<Longrightarrow> rd64 m' (head_p head k) = rd64 m (head_p head k)"
    and "\<And>x k. x \<in> set xs \<Longrightarrow> k < 4 \<Longrightarrow> rd64 m' (link_p pop pe x k) = rd64 m (link_p pop pe x k)"
  shows "plist pop pe head m' xs"
proof -
  have "ring (nxt pop pe m') (prv pop pe m') xs"
    by (rule ring_cong [of "nxt pop pe m" "prv pop pe m"]) (use assms in \<open>auto simp: plist_def\<close>)
  then show ?thesis using assms by (auto simp: plist_def)
qed

section \<open>Operations on a list\<close>

text \<open>A list with the elements \<open>xs\<close>, among the objects \<open>U\<close>, and a lane to work on it.\<close>

definition list_ok :: "PMEMobjpool \<Rightarrow> u64 \<Rightarrow> addr \<Rightarrow> u64 set \<Rightarrow> list_state \<Rightarrow> u64 list \<Rightarrow> bool" where
  "list_ok pop pe head U ls xs \<longleftrightarrow> place_ok pop pe head U \<and> lane_ok pop (ls_ctx ls) (ls_mem ls) \<and>
     plist pop pe head (ls_mem ls) xs \<and> set xs \<subseteq> U"

definition resolve :: "u64 \<Rightarrow> bool \<Rightarrow> u64 list \<Rightarrow> u64" where
  "resolve d b xs = (if d \<noteq> 0 then d else if xs = [] then 0 else if b then hd xs else last xs)"

lemma resolve_in: "d = 0 \<or> d \<in> set xs \<Longrightarrow> if xs = [] then resolve d b xs = 0 else resolve d b xs \<in> set xs"
  by (auto simp: resolve_def)

lemma get_dest_resolve:
  assumes "plist pop pe head m xs" and "0 \<notin> set xs"
  shows "oid_off (list_get_dest pop m head dest pe before) = resolve (oid_off dest) (before \<noteq> 0) xs"
proof -
  have "hd xs \<noteq> 0" if "xs \<noteq> []" using that assms(2) hd_in_set by metis
  moreover  have "prv pop pe m (hd xs) = last xs" if "xs \<noteq> []"
    using that assms by (cases xs) (auto simp: plist_def ring_Cons)
  ultimately show ?thesis
    using assms by (auto simp: list_get_dest_def resolve_def list_ptr_simps plist_def POBJ_LIST_DEST_HEAD_def Let_def)
qed

lemma list_run_start:
  assumes "list_ok pop pe head U ls xs" and "list_area pop pe head U \<subseteq> A"
  shows "list_run pop pe head U A ls [] (list_start ls)" and "ls_mem (list_start ls) = ls_mem ls"
  using assms collected_start by (auto simp: list_ok_def list_run_def list_start_def)

lemma fill_run:
  assumes r: "list_run pop pe head U A ls0 ws ls" and len: "length ws \<le> 10" and x: "x \<in> U"
  defines "args \<equiv> \<lparr>lac_pe_offset = pe, lac_obj_doffset = x, lac_entry_ptr = OBJ_OFF_TO_PTR pop (x + pe)\<rparr>"
  shows "list_run pop pe head U A ls0 (ws @ fill_words pop pe x n p) (list_fill_entry_redo_log env pop ls args n p False)"
    and "list_run pop pe head U A (ls0\<lparr>ls_mem := wr64 (wr64 (ls_mem ls0) (link_p pop pe x 0) (uuid_lo pop)) (link_p pop pe x 2) (uuid_lo pop)\<rparr>)
      (ws @ fill_words pop pe x n p) (list_fill_entry_redo_log env pop ls args n p True)"
proof -
  have P: "place_ok pop pe head U" using r by (simp add: list_run_def)
  have two: "list_run pop pe head U A l0 (ws @ fill_words pop pe x n p)
      (list_add_entry env pop (list_add_entry env pop l (link_p pop pe x 1) n) (link_p pop pe x 3) p)"
    if "list_run pop pe head U A l0 ws l" for l0 l
  proof -
    have r1: "list_run pop pe head U A l0 (ws @ [(link_p pop pe x 1, n)]) (list_add_entry env pop l (link_p pop pe x 1) n)"
      using that x len by (intro list_run_add) auto
    show ?thesis using list_run_add(1) [OF r1 _ x, of 3 p env] len by (simp add: fill_words_def)
  qed
  show "list_run pop pe head U A ls0 (ws @ fill_words pop pe x n p) (list_fill_entry_redo_log env pop ls args n p False)"
    using two [OF r] x by (simp add: list_fill_entry_redo_log_def args_def link_ptr [OF P])
  let ?u = "\<lambda>l. l\<lparr>ls_mem := wr64 (wr64 (ls_mem l) (link_p pop pe x 0) (uuid_lo pop)) (link_p pop pe x 2) (uuid_lo pop)\<rparr>"
  let ?v = "\<lambda>l. l\<lparr>ls_mem := wr64 (ls_mem l) (link_p pop pe x 0) (uuid_lo pop)\<rparr>"
  have pool: "objpool_ok pop" and lane: "lane_ok pop (ls_ctx ls0) (ls_mem ls0)" and col: "collected pop ls0 ws ls"
    using r P by (auto simp: list_run_def place_ok_def)
  note sp = place_link_span [OF P x]
  note w1 = collected_write [OF lane pool col sp, of 0 "uuid_lo pop"]
  have "collected pop (?u ls0) ws (?u ls)" "lane_ok pop (ls_ctx ls0) (ls_mem (?u ls0))"
    using collected_write [of pop "?v ls0" ws "?v ls" "link_p pop pe x 2" "uuid_lo pop"] w1 pool sp [of 2] by simp_all
  then have "list_run pop pe head U A (?u ls0) ws (?u ls)" using P r by (simp add: list_run_def)
  from two [OF this] show "list_run pop pe head U A (?u ls0) (ws @ fill_words pop pe x n p)
      (list_fill_entry_redo_log env pop ls args n p True)"
    using x by (simp add: list_fill_entry_redo_log_def args_def link_ptr [OF P] list_ptr_simps)
qed

lemma insert_collect_run:
  assumes ok: "list_ok pop pe head U ls xs" and x: "oid_off oid \<in> U" "oid_off oid \<notin> set xs"
    and d: "oid_off dest = 0 \<or> oid_off dest \<in> set xs"
  shows "\<exists>ls0 ws. list_run pop pe head U (list_area pop pe head U) ls0 ws (list_insert_collect env pop ls pe head dest before oid) \<and>
    length ws \<le> 12 \<and> 2 \<le> card (fst ` set ws) \<and> ls_held ls0 = ls_held ls \<and> ls_ctx ls0 = ls_ctx ls \<and>
    (\<forall>a. a \<notin> list_area pop pe head U \<longrightarrow> ls_mem ls0 a = ls_mem ls a) \<and>
    plist pop pe head (ls_mem ls0) xs \<and>
    plist pop pe head (put_words ws (ls_mem ls0)) (ins_at (before \<noteq> 0) (resolve (oid_off dest) (before \<noteq> 0) xs) (oid_off oid) xs)"
proof -
  let ?x = "oid_off oid" and ?b = "before \<noteq> 0" let ?d = "resolve (oid_off dest) ?b xs"
  let ?u = "\<lambda>m. wr64 (wr64 m (link_p pop pe ?x 0) (uuid_lo pop)) (link_p pop pe ?x 2) (uuid_lo pop)"
  let ?ls0 = "ls\<lparr>ls_mem := ?u (ls_mem ls)\<rparr>"
  have P: "place_ok pop pe head U" and L: "plist pop pe head (ls_mem ls) xs" and U: "set xs \<subseteq> U"
    using ok by (auto simp: list_ok_def)
  note W = list_word_rd [OF P]
  have z: "0 \<notin> set xs" using P U by (auto simp: place_ok_def)
  have dd: "oid_off (list_get_dest pop (ls_mem ls) head dest pe before) = ?d" by (rule get_dest_resolve [OF L z])
  have din: "if xs = [] then ?d = 0 else ?d \<in> set xs" using resolve_in [OF d] .
  have nb: "?d \<in> U" "nxt pop pe (ls_mem ls) ?d \<in> U" "prv pop pe (ls_mem ls) ?d \<in> U" if "?d \<noteq> 0"
    using that din U ring_in [of "nxt pop pe (ls_mem ls)" "prv pop pe (ls_mem ls)" xs ?d] L by (auto simp: plist_def split: if_splits)
  obtain n p where np: "insert_links pop pe (ls_mem ls) ?d ?b ?x = (n, p)" by fastforce
  let ?ws = "insert_words pop pe head (ls_mem ls) ?d ?b ?x @ fill_words pop pe ?x n p"
  obtain l1 where l1: "list_insert_user env pop (list_start ls) \<lparr>lai_head = head, lai_dest = list_get_dest pop (ls_mem ls) head dest pe before,
      lai_dest_entry_ptr = OBJ_OFF_TO_PTR pop (?d + pe), lai_before = before\<rparr>
      \<lparr>lac_pe_offset = pe, lac_obj_doffset = ?x, lac_entry_ptr = OBJ_OFF_TO_PTR pop (?x + pe)\<rparr> = (l1, n, p)"
    "list_run pop pe head U (list_area pop pe head U) ls (insert_words pop pe head (ls_mem ls) ?d ?b ?x) l1"
    using insert_user_run [OF list_run_start(1) [OF ok subset_refl] _ nb dd,
        where before = before and x = ?x and env = env and e = "OBJ_OFF_TO_PTR pop (?x + pe)"] np by auto
  have len: "length (insert_words pop pe head (ls_mem ls) ?d ?b ?x) \<le> 10" by (simp add: insert_words_def head_words_def)
  have run: "list_run pop pe head U (list_area pop pe head U) ?ls0 ?ws (list_insert_collect env pop ls pe head dest before oid)"
    using fill_run(2) [OF l1(2) len x(1), of n p env] l1(1) dd list_run_start(2) [OF ok subset_refl]
    by (simp add: list_insert_collect_def Let_def)
  have m: "rd64 (?u (ls_mem ls)) (head_p head k) = rd64 (ls_mem ls) (head_p head k)" if "k < 2" for k
    using that x(1) by (simp add: W)
  have m2: "rd64 (?u (ls_mem ls)) (link_p pop pe a k) = rd64 (ls_mem ls) (link_p pop pe a k)" if "a \<in> set xs" "k < 4" for a k
    using that x U by (auto simp: W)
  have L0: "plist pop pe head (?u (ls_mem ls)) xs" using plist_cong [OF L m m2] .
  have iw: "insert_words pop pe head (?u (ls_mem ls)) ?d ?b ?x = insert_words pop pe head (ls_mem ls) ?d ?b ?x"
    "insert_links pop pe (?u (ls_mem ls)) ?d ?b ?x = (n, p)"
    using m m2 [of ?d] din np by (auto simp: insert_words_def insert_links_def head_words_def split: if_splits)
  have "plist pop pe head (put_words ?ws (?u (ls_mem ls))) (ins_at ?b ?d ?x xs)"
    using plist_insert [OF P L0 U x din _ _ iw(2)] x(1) iw(1) by (simp add: W)
  moreover have "2 \<le> card (fst ` set ?ws)"
  proof -
    have "card (fst ` set (fill_words pop pe ?x n p)) = 2" by (simp add: fill_words_def link_p_def)
    moreover have "card (fst ` set (fill_words pop pe ?x n p)) \<le> card (fst ` set ?ws)"
      by (intro card_mono) auto
    ultimately show ?thesis by simp
  qed
  moreover have "?u (ls_mem ls) a = ls_mem ls a" if "a \<notin> list_area pop pe head U" for a
  proof -
    have "a < link_p pop pe ?x k \<or> link_p pop pe ?x k + 8 \<le> a" if "k < 4" for k
      using link_in_area [OF x(1) that, of pop pe head] \<open>a \<notin> _\<close> by (meson atLeastLessThan_iff not_le subsetD)
    then show ?thesis by (simp add: wr64_out)
  qed
  ultimately show ?thesis
    using run L0 len by (intro exI [of _ ?ls0] exI [of _ ?ws]) (simp add: fill_words_def)
qed

lemma remove_collect_run:
  assumes ok: "list_ok pop pe head U ls xs" and x: "oid_off oid \<in> set xs"
  shows "\<exists>ws. list_run pop pe head U (list_area pop pe head U) ls ws (list_remove_collect env pop ls pe head oid) \<and>
    length ws \<le> 12 \<and> 2 \<le> card (fst ` set ws) \<and>
    plist pop pe head (put_words ws (ls_mem ls)) (remove1 (oid_off oid) xs)"
proof -
  let ?x = "oid_off oid" and ?m = "ls_mem ls"
  have P: "place_ok pop pe head U" and L: "plist pop pe head ?m xs" and U: "set xs \<subseteq> U"
    using ok by (auto simp: list_ok_def)
  note W = list_word_rd [OF P]
  have nb: "?x \<in> U" "nxt pop pe ?m ?x \<in> U" "prv pop pe ?m ?x \<in> U"
    using ring_in [of "nxt pop pe ?m" "prv pop pe ?m" xs ?x] L U x by (auto simp: plist_def)
  let ?rw = "remove_words pop pe head ?m ?x" let ?ws = "?rw @ fill_words pop pe ?x 0 0"
  have len: "length ?rw \<le> 10" by (simp add: remove_words_def head_words_def)
  have run: "list_run pop pe head U (list_area pop pe head U) ls ?ws (list_remove_collect env pop ls pe head oid)"
    using fill_run(1) [OF remove_single_run [OF list_run_start(1) [OF ok subset_refl] nb] len nb(1), of 0 0 env]
    by (simp add: list_remove_collect_def Let_def)
  have "plist pop pe head (put_words ?rw ?m) (remove1 ?x xs)" using plist_remove [OF P L U x] .
  then have "plist pop pe head (put_words ?ws ?m) (remove1 ?x xs)"
  proof (rule plist_cong)
    have d: "distinct xs" using L by (simp add: plist_def)
    show "rd64 (put_words ?ws ?m) (head_p head k) = rd64 (put_words ?rw ?m) (head_p head k)" if "k < 2" for k
      using that nb by (simp add: fill_words_def W)
    show "rd64 (put_words ?ws ?m) (link_p pop pe a k) = rd64 (put_words ?rw ?m) (link_p pop pe a k)"
      if "a \<in> set (remove1 ?x xs)" "k < 4" for a k
      using that nb U d by (auto simp: fill_words_def W)
  qed
  moreover have "card (fst ` set (fill_words pop pe ?x 0 0)) \<le> card (fst ` set ?ws)" by (intro card_mono) auto
  then have "2 \<le> card (fst ` set ?ws)" by (simp add: fill_words_def link_p_def)
  ultimately show ?thesis using run len by (intro exI [of _ ?ws]) (simp add: fill_words_def)
qed

lemma plist_rotate:
  assumes P: "place_ok pop pe head U" and L: "plist pop pe head m (ps @ qs)" and U: "set (ps @ qs) \<subseteq> U" and "qs \<noteq> []"
  shows "plist pop pe head (put_words (head_words pop head m (hd qs)) m) (qs @ ps)"
proof -
  let ?m = "put_words (head_words pop head m (hd qs)) m"
  note W = list_word_rd [OF P]
  have lk: "rd64 ?m (link_p pop pe a k) = rd64 m (link_p pop pe a k)" if "a \<in> set (qs @ ps)" "k < 4" for a k
    using that U by (auto simp: head_words_def W)
  have "ring (nxt pop pe m) (prv pop pe m) (qs @ ps)" using L ring_swap_iff by (auto simp: plist_def)
  then have "ring (nxt pop pe ?m) (prv pop pe ?m) (qs @ ps)" by (rule ring_cong) (use lk in auto)
  then show ?thesis using L lk assms(4) by (auto simp: plist_def head_words_def W)
qed

lemma move_words_plist:
  assumes P: "place_ok pop pe head U" and L: "plist pop pe head m xs" and U: "set xs \<subseteq> U"
    and x: "x \<in> set xs" and d: "d \<in> set xs" "d \<noteq> x" and far: "if b then prv pop pe m d \<noteq> x else nxt pop pe m d \<noteq> x"
    and np: "insert_links pop pe m d b x = (n, p)"
  shows "plist pop pe head (put_words (remove_words pop pe head m x @ insert_words pop pe head m d b x @ fill_words pop pe x n p) m)
    (ins_at b d x (remove1 x xs))"
proof -
  note W = list_word_rd [OF P] and L' = L [unfolded plist_def]
  let ?n = "nxt pop pe m x" and ?p = "prv pop pe m x"
  define m1 where "m1 = put_words (remove_words pop pe head m x) m"
  have r: "ring (nxt pop pe m) (prv pop pe m) xs" and dist: "distinct xs" using L' by auto
  have nb: "?n \<in> U" "?p \<in> U" "x \<in> U" "d \<in> U" using ring_in [OF r x] U x d by auto
  have d0: "d \<noteq> 0" using P nb by (auto simp: place_ok_def)
  have "?n \<noteq> x"
  proof
    assume "?n = x"
    obtain ps qs where xs: "xs = ps @ x # qs" using x by (meson split_list)
    then have "hd (qs @ ps @ [x]) = x" using ring_neighbours(1) [of _ _ ps x qs] r \<open>?n = x\<close> by simp
    moreover have "hd (qs @ ps @ [x]) = hd (qs @ ps)" if "qs @ ps \<noteq> []" using hd_append2 [OF that, of "[x]"] by simp
    ultimately have "qs @ ps = []" using dist hd_in_set [of "qs @ ps"] by (auto simp: xs)
    then show False using xs d by auto
  qed
  then have ws: "remove_words pop pe head m x = [(link_p pop pe ?n 3, ?p), (link_p pop pe ?p 1, ?n)] @
      (if rd64 m (head_p head 1) = x then head_words pop head m ?n else [])" by (simp add: remove_words_def)
  have L1: "plist pop pe head m1 (remove1 x xs)" unfolding m1_def by (rule plist_remove [OF P L U x])
  have dn: "b \<Longrightarrow> d \<noteq> ?n" "\<not> b \<Longrightarrow> d \<noteq> ?p" using far ring_inverse [OF r x] by (auto split: if_splits)
  have dy: "d \<in> set (remove1 x xs)" using d dist by simp
  then have ne: "remove1 x xs \<noteq> []" by auto
  have h0: "rd64 m1 (head_p head 0) = rd64 m (head_p head 0)" using L1 L' dy x by (metis empty_iff empty_set plist_def)
  have links: "b \<Longrightarrow> prv pop pe m1 d = prv pop pe m d" "\<not> b \<Longrightarrow> nxt pop pe m1 d = nxt pop pe m d"
    "rd64 m1 (link_p pop pe x 0) = rd64 m (link_p pop pe x 0)" "rd64 m1 (link_p pop pe x 2) = rd64 m (link_p pop pe x 2)"
    using nb dn by (auto simp: m1_def ws head_words_def W)
  have h1: "b \<Longrightarrow> d = rd64 m1 (head_p head 1) \<longleftrightarrow> d = rd64 m (head_p head 1)"
    using nb dn d by (auto simp: m1_def ws head_words_def W)
  have iw: "insert_words pop pe head m1 d b x = insert_words pop pe head m d b x" "insert_links pop pe m1 d b x = (n, p)"
    using links h0 h1 np d0 by (auto simp: insert_words_def insert_links_def head_words_def)
  have "plist pop pe head (put_words (insert_words pop pe head m1 d b x @ fill_words pop pe x n p) m1) (ins_at b d x (remove1 x xs))"
    by (rule plist_insert [OF P L1]) (use dist U x nb dy ne links iw(2) L' in \<open>auto dest: notin_set_remove1\<close>)
  then show ?thesis unfolding iw(1) by (simp add: m1_def)
qed

lemma move_collect_run:
  assumes ok: "list_ok pop pe head U ls xs" and x: "oid_off oid \<in> set xs"
    and d: "oid_off dest = 0 \<or> oid_off dest \<in> set xs"
  shows "\<exists>ws. list_run pop pe head U (list_area pop pe head U) ls ws (list_move_collect env pop ls pe head pe head dest before oid) \<and> length ws \<le> 12 \<and>
    plist pop pe head (put_words ws (ls_mem ls)) (mv_at (before \<noteq> 0) (resolve (oid_off dest) (before \<noteq> 0) xs) (oid_off oid) xs)"
proof -
  let ?x = "oid_off oid" and ?b = "before \<noteq> 0" and ?m = "ls_mem ls" let ?d = "resolve (oid_off dest) ?b xs"
  let ?c = "list_move_collect env pop ls pe head pe head dest before oid"
  have P: "place_ok pop pe head U" and L: "plist pop pe head ?m xs" and U: "set xs \<subseteq> U"
    using ok by (auto simp: list_ok_def)
  have r: "ring (nxt pop pe ?m) (prv pop pe ?m) xs" and dist: "distinct xs" using L by (auto simp: plist_def)
  have z: "0 \<notin> set xs" using P U by (auto simp: place_ok_def)
  have dd: "oid_off (list_get_dest pop ?m head dest pe before) = ?d" by (rule get_dest_resolve [OF L z])
  have din: "?d \<in> set xs" using resolve_in [OF d, of ?b] x by (auto split: if_splits)
  have h1: "rd64 ?m (head_p head 1) = hd xs" using L x by (auto simp: plist_def)
  note s = list_run_start [OF ok subset_refl]
  have hw: "length (head_words pop head ?m v) \<le> 12" for v by (simp add: head_words_def)
  have up: "list_run pop pe head U (list_area pop pe head U) ls (head_words pop head ?m v) (list_update_head env pop (list_start ls) head v)" for v
    using update_head_run [OF s(1), of v env] by simp
  note unf = list_move_collect_def Let_def s(2) get_dest_resolve [OF L z] list_ptr_simps h1 [unfolded One_nat_def]
  consider (same) "?d = ?x" | (before) "?d \<noteq> ?x" ?b "prv pop pe ?m ?d = ?x" | (after) "?d \<noteq> ?x" "\<not> ?b" "nxt pop pe ?m ?d = ?x"
    | (far) "?d \<noteq> ?x" "if ?b then prv pop pe ?m ?d \<noteq> ?x else nxt pop pe ?m ?d \<noteq> ?x" unfolding if_bool_eq_conj by blast
  then show ?thesis
  proof cases
    case same
    then have "?c = list_start ls" by (simp add: unf)
    then show ?thesis using s(1) L same by (intro exI [of _ "[]"]) (simp add: mv_at_def)
  next
    case before
    note N = mv_at_near [OF r dist x din before(1)]
    show ?thesis
    proof (cases "hd xs = ?d")
      case False
      then have "?c = list_start ls" using before by (simp add: unf)
      then show ?thesis using s(1) L N(1) before False by (intro exI [of _ "[]"]) simp
    next
      case True
      then have c: "?c = list_update_head env pop (list_start ls) head ?x" using before by (simp add: unf)
      have "xs = butlast xs @ [?x]" using N(2) [OF before(3) True] x append_butlast_last_id [of xs] by (cases "xs = []") auto
      then have "plist pop pe head (put_words (head_words pop head ?m ?x) ?m) (?x # butlast xs)"
        using plist_rotate [OF P, of ?m "butlast xs" "[?x]"] L U by simp
      then show ?thesis using c up hw N(1) [OF before(3)] before(2) True by (intro exI [of _ "head_words pop head ?m ?x"]) simp
    qed
  next
    case after
    note N = mv_at_near(3) [OF r dist x din after(1,3)]
    show ?thesis
    proof (cases "hd xs = ?x")
      case False
      then have "?c = list_start ls" using after by (simp add: unf)
      then show ?thesis using s(1) L N after False by (intro exI [of _ "[]"]) simp
    next
      case True
      then have xs: "xs = [?x] @ tl xs" using x by (cases xs) auto
      then have ne: "tl xs \<noteq> []" using din after(1) by (cases xs) auto
      have n: "nxt pop pe ?m ?x = hd (tl xs)"
        using ring_neighbours(1) [of _ _ "[]" ?x "tl xs"] r xs ne by (metis append.left_neutral append_Cons hd_append2)
      have c: "?c = list_update_head env pop (list_start ls) head (hd (tl xs))"
        using after True n by (simp add: unf)
      have "plist pop pe head (put_words (head_words pop head ?m (hd (tl xs))) ?m) (tl xs @ [?x])"
        using L U ne by (intro plist_rotate [OF P]) (simp_all only: xs [symmetric] not_False_eq_True)
      then show ?thesis using c up hw N after(2) True by (intro exI [of _ "head_words pop head ?m (hd (tl xs))"]) simp
    qed
  next
    case far
    have nb: "?x \<in> U" "nxt pop pe ?m ?x \<in> U" "prv pop pe ?m ?x \<in> U" "?d \<in> U" "nxt pop pe ?m ?d \<in> U" "prv pop pe ?m ?d \<in> U"
      using ring_in [OF r x] ring_in [OF r din] U x din by auto
    obtain n p where np: "insert_links pop pe ?m ?d ?b ?x = (n, p)" by fastforce
    let ?rw = "remove_words pop pe head ?m ?x" and ?iw = "insert_words pop pe head ?m ?d ?b ?x"
    have len: "length ?rw \<le> 4" "length (?rw @ ?iw) \<le> 10" by (auto simp: remove_words_def insert_words_def head_words_def)
    let ?l1 = "list_remove_single env pop (list_start ls) \<lparr>lar_pe_offset = pe, lar_obj_doffset = ?x, lar_head = head,
        lar_entry_ptr = OBJ_OFF_TO_PTR pop (?x + pe)\<rparr>"
    obtain l2 where l2: "list_insert_user env pop ?l1 \<lparr>lai_head = head, lai_dest = list_get_dest pop ?m head dest pe before,
        lai_dest_entry_ptr = OBJ_OFF_TO_PTR pop (?d + pe), lai_before = before\<rparr>
        \<lparr>lac_pe_offset = pe, lac_obj_doffset = ?x, lac_entry_ptr = OBJ_OFF_TO_PTR pop (?x + pe)\<rparr> = (l2, n, p)"
      "list_run pop pe head U (list_area pop pe head U) ls (?rw @ ?iw) l2"
      using insert_user_run [OF remove_single_run [OF s(1) nb(1-3)] len(1) nb(4-6) dd, where before = before and x = ?x and env = env
          and e = "OBJ_OFF_TO_PTR pop (?x + pe)"] np by auto
    have "?c = list_fill_entry_redo_log env pop l2 \<lparr>lac_pe_offset = pe, lac_obj_doffset = ?x,
        lac_entry_ptr = OBJ_OFF_TO_PTR pop (?x + pe)\<rparr> n p False"
      using far l2(1) by (auto simp: unf split: if_splits)
    then have "list_run pop pe head U (list_area pop pe head U) ls ((?rw @ ?iw) @ fill_words pop pe ?x n p) ?c"
      using fill_run(1) [OF l2(2) len(2) nb(1), of n p env] by simp
    moreover have "plist pop pe head (put_words ((?rw @ ?iw) @ fill_words pop pe ?x n p) ?m) (mv_at ?b ?d ?x xs)"
      using move_words_plist [OF P L U x din far np] far(1) by (simp add: mv_at_def)
    ultimately show ?thesis using len(2) by (intro exI [of _ "(?rw @ ?iw) @ fill_words pop pe ?x n p"]) (simp add: fill_words_def)
  qed
qed

end
