(* ===== verification/Simulation.thy ===== *)
theory Simulation
  imports Main
begin

text \<open>
  Sequences of operations, and the relation between the code's operations and a specification that
  several components share: an operation of the code returns, answers what the specification
  answers, and its new state stands for the new state of the specification.
\<close>

fun run_ops :: "('s \<Rightarrow> 'o \<Rightarrow> ('r \<times> 's) option) \<Rightarrow> 's \<Rightarrow> 'o list \<Rightarrow> ('r list \<times> 's) option" where
  "run_ops step s [] = Some ([], s)"
| "run_ops step s (op # ops) =
     (case step s op of None \<Rightarrow> None
      | Some (r, s) \<Rightarrow> map_option (\<lambda>(rs, s). (r # rs, s)) (run_ops step s ops))"

fun spec_run :: "('a \<Rightarrow> 'o \<Rightarrow> 'r \<times> 'a) \<Rightarrow> 'a \<Rightarrow> 'o list \<Rightarrow> 'r list \<times> 'a" where
  "spec_run astep a [] = ([], a)"
| "spec_run astep a (op # ops) = (let (r, a) = astep a op; (rs, a) = spec_run astep a ops in (r # rs, a))"

text \<open>\<open>op_ok\<close> is what the caller promises of an operation, given the state of the specification.\<close>

fun ops_ok :: "('a \<Rightarrow> 'o \<Rightarrow> 'r \<times> 'a) \<Rightarrow> ('a \<Rightarrow> 'o \<Rightarrow> bool) \<Rightarrow> 'a \<Rightarrow> 'o list \<Rightarrow> bool" where
  "ops_ok astep op_ok a [] = True"
| "ops_ok astep op_ok a (op # ops) = (op_ok a op \<and> ops_ok astep op_ok (snd (astep a op)) ops)"

locale guarded_simulation =
  fixes ok :: "'s \<Rightarrow> bool" and abs :: "'s \<Rightarrow> 'a" and step :: "'s \<Rightarrow> 'o \<Rightarrow> ('r \<times> 's) option"
    and astep :: "'a \<Rightarrow> 'o \<Rightarrow> 'r \<times> 'a" and op_ok :: "'a \<Rightarrow> 'o \<Rightarrow> bool"
  assumes sim_law: "ok s \<Longrightarrow> op_ok (abs s) op \<Longrightarrow>
      \<exists>s'. step s op = Some (fst (astep (abs s) op), s') \<and> ok s' \<and> abs s' = snd (astep (abs s) op)"
begin

lemma run_guarded:
  assumes "ok s" and "ops_ok astep op_ok (abs s) ops"
  shows "\<exists>s'. run_ops step s ops = Some (fst (spec_run astep (abs s) ops), s') \<and> ok s' \<and> abs s' = snd (spec_run astep (abs s) ops)"
  using assms
proof (induction ops arbitrary: s)
  case (Cons op ops)
  then obtain s1 where s1: "step s op = Some (fst (astep (abs s) op), s1)" "ok s1" "abs s1 = snd (astep (abs s) op)"
    using sim_law by fastforce
  then have "ops_ok astep op_ok (abs s1) ops" using Cons.prems(2) by simp
  from Cons.IH [OF s1(2) this] obtain s' where
    "run_ops step s1 ops = Some (fst (spec_run astep (abs s1) ops), s')" "ok s'" "abs s' = snd (spec_run astep (abs s1) ops)" by blast
  then show ?case using s1 by (auto simp: split_def Let_def)
qed simp
end

text \<open>Where the promise does not depend on what operations change, it can be given for each operation by itself.\<close>

locale simulation = guarded_simulation +
  assumes op_ok_law: "op_ok (snd (astep a op)) = op_ok a"
begin

lemma ops_ok_all: "\<forall>op \<in> set ops. op_ok a op \<Longrightarrow> ops_ok astep op_ok a ops"
  by (induction ops arbitrary: a) (auto simp: op_ok_law)

lemma run_refines:
  assumes "ok s" and "\<forall>op \<in> set ops. op_ok (abs s) op"
  shows "\<exists>s'. run_ops step s ops = Some (fst (spec_run astep (abs s) ops), s') \<and> ok s' \<and> abs s' = snd (spec_run astep (abs s) ops)"
  using assms(1) ops_ok_all [OF assms(2)] by (rule run_guarded)
end

section \<open>Step relations\<close>

text \<open>A step relation with an invariant of the initial states that its steps keep.\<close>

locale step_system =
  fixes init :: "'s \<Rightarrow> bool" and step :: "'s \<Rightarrow> 's \<Rightarrow> bool" and inv :: "'s \<Rightarrow> bool"
  assumes init_law: "init s \<Longrightarrow> inv s" and step_law: "step s s' \<Longrightarrow> inv s \<Longrightarrow> inv s'"
begin

lemma inv_steps: "step\<^sup>*\<^sup>* s s' \<Longrightarrow> inv s \<Longrightarrow> inv s'"
  by (induction rule: rtranclp_induct) (auto intro: step_law)

lemma inv_reachable: "init s0 \<Longrightarrow> step\<^sup>*\<^sup>* s0 s \<Longrightarrow> inv s"
  using inv_steps init_law by blast

end

end
