(* ===== verification/Plist_Theorems.thy ===== *)
theory Plist_Theorems
  imports Plist_Words Simulation
begin

text \<open>
  The theorems about persistent lists: sequences of operations refine operations on lists of object
  offsets, changes are atomic with respect to failures, also when they concern two lists, the loops of
  \<^verbatim>\<open>lists_atomic.h\<close> visit every element once and end, and a lock that cannot be taken leaves everything as it was.
\<close>

section \<open>Finishing\<close>

lemma plist_heap_eq:
  assumes P: "place_ok pop pe head U" and L: "plist pop pe head m xs" and U: "set xs \<subseteq> U" and h: "heap_eq pop m' m"
  shows "plist pop pe head m' xs"
proof -
  have rd: "rd64 m' a = rd64 m a" if "heap_span pop a 8" for a
    by (rule rd64_cong) (use that h in \<open>auto simp: heap_span_def heap_eq_def\<close>)
  show ?thesis
    using U by (intro plist_cong [OF L] rd place_head_span [OF P] place_link_span [OF P]) auto
qed

lemma put_words_out: "\<forall>w\<in>set ws. {fst w ..< fst w + 8} \<subseteq> A \<Longrightarrow> a \<notin> A \<Longrightarrow> put_words ws m a = m a"
proof (induction ws arbitrary: m)
  case (Cons w ws)
  then have "{fst w ..< fst w + 8} \<subseteq> A" by simp
  then have "a < fst w \<or> fst w + 8 \<le> a" using Cons.prems(2) by (meson atLeastLessThan_iff not_le subsetD)
  then show ?case using Cons by (simp add: wr64_out)
qed simp

text \<open>Memory of the heap that does not belong to the list stays as it is.\<close>

definition heap_frame :: "PMEMobjpool \<Rightarrow> addr set \<Rightarrow> mem \<Rightarrow> mem \<Rightarrow> bool" where
  "heap_frame pop A m m' \<longleftrightarrow> (\<forall>a. heap_lo pop \<le> a \<longrightarrow> a < heap_hi pop \<longrightarrow> a \<notin> A \<longrightarrow> m' a = m a)"

lemma run_finish:
  assumes r: "list_run pop pe head U A ls0 ws l" and len: "length ws \<le> 12"
    and L: "plist pop pe head (put_words ws (ls_mem ls0)) ys" and U: "set ys \<subseteq> U"
  shows "\<exists>l'. list_finish l = Some l' \<and> list_ok pop pe head U l' ys \<and> ls_held l' = ls_held ls0 \<and>
    heap_frame pop A (ls_mem ls0) (ls_mem l')"
proof -
  have P: "place_ok pop pe head U" and lane: "lane_ok pop (ls_ctx ls0) (ls_mem ls0)" and col: "collected pop ls0 ws l"
    and ws: "\<forall>w\<in>set ws. {fst w ..< fst w + 8} \<subseteq> A"
    using r by (auto simp: list_run_def)
  then have pool: "objpool_ok pop" by (simp add: place_ok_def)
  obtain l' where l': "list_finish l = Some l'" "lane_ok pop (ls_ctx l') (ls_mem l')" "ls_held l' = ls_held ls0"
    "heap_eq pop (ls_mem l') (put_words ws (ls_mem ls0))"
    using list_finish_collected [OF lane pool col len] by blast
  have "heap_frame pop A (ls_mem ls0) (ls_mem l')"
    using l'(4) put_words_out [OF ws] by (simp add: heap_frame_def heap_eq_def)
  then show ?thesis
    using l' P U plist_heap_eq [OF P L U l'(4)] by (intro exI [of _ l']) (simp add: list_ok_def)
qed

text \<open>What a failure can leave of an operation whose changes are all collected in \<open>l\<close>: the list that it
  starts from, until the redo log is complete, and from then on the new list.\<close>

definition list_atomic :: "PMEMobjpool \<Rightarrow> u64 \<Rightarrow> addr \<Rightarrow> list_state \<Rightarrow> u64 list \<Rightarrow> u64 list \<Rightarrow> bool" where
  "list_atomic pop pe head l xs ys \<longleftrightarrow>
     plist pop pe head (ls_mem l) xs \<and>
     (\<exists>m1 m2 m3. redo_phases (ls_ctx l) (ls_mem l) = Some [m1, m2, m3] \<and> plist pop pe head m1 xs \<and>
        (\<forall>c. mixed m1 m2 c \<longrightarrow>
          (\<exists>r. ulog_recover c (oc_ulog (ls_ctx l)) (pop_addr pop) = Some r \<and> plist pop pe head r ys)) \<and>
        (\<exists>l'. list_finish l = Some l' \<and> ls_mem l' = m3 \<and> plist pop pe head m3 ys))"

lemma run_atomic:
  assumes r: "list_run pop pe head U A ls0 ws l" and len: "length ws \<le> 12" and two: "2 \<le> card (fst ` set ws)"
    and L0: "plist pop pe head (ls_mem ls0) xs" and xs: "set xs \<subseteq> U"
    and L: "plist pop pe head (put_words ws (ls_mem ls0)) ys" and ys: "set ys \<subseteq> U"
  shows "list_atomic pop pe head l xs ys"
proof -
  have P: "place_ok pop pe head U" and lane: "lane_ok pop (ls_ctx ls0) (ls_mem ls0)" and col: "collected pop ls0 ws l"
    using r by (auto simp: list_run_def)
  then have pool: "objpool_ok pop" by (simp add: place_ok_def)
  note off = collected_two [OF pool col two]
  obtain m1 m3 where m: "redo_phases (ls_ctx l) (ls_mem l) = Some [m1, put_words ws m1, m3]"
    "operation_process (ls_ctx l) (ls_mem l) = Some m3" "heap_eq pop m1 (ls_mem ls0)" "heap_eq pop m3 (put_words ws (ls_mem ls0))"
    "heap_eq pop (ulog_clobber (put_words ws m1) (oc_ulog (ls_ctx l)) None) (put_words ws (ls_mem ls0))"
    "\<And>c. mixed m1 (put_words ws m1) c \<Longrightarrow>
      ulog_recover c (oc_ulog (ls_ctx l)) (pop_addr pop) = Some (ulog_clobber (put_words ws m1) (oc_ulog (ls_ctx l)) None)"
    using lane_redo [OF lane pool col len off] by blast
  have "oc_type (ls_ctx l) = LOG_TYPE_REDO" using lane collectedD(2) [OF col] by (auto simp: lane_ok_def same_lane_def)
  moreover have "ol_offset (pshadow_ops (ls_ctx l)) \<noteq> 0" using off by auto
  ultimately have "list_finish l = Some (l\<lparr>ls_ctx := (ls_ctx l)\<lparr>in_progress := False\<rparr>, ls_mem := m3\<rparr>)"
    using m(2) by (simp add: list_finish_redo)
  moreover have "plist pop pe head (ls_mem l) xs"
    using plist_heap_eq [OF P L0 xs collected_heap [OF lane pool col]] .
  moreover have "plist pop pe head m1 xs" using plist_heap_eq [OF P L0 xs m(3)] .
  moreover note new = plist_heap_eq [OF P L ys]
  ultimately show ?thesis
    unfolding list_atomic_def using m(1,6) new [OF m(4)] new [OF m(5)] by fastforce
qed

section \<open>Walking\<close>

definition oid_of :: "PMEMobjpool \<Rightarrow> u64 \<Rightarrow> PMEMoid" where
  "oid_of pop x = \<lparr>pool_uuid_lo = uuid_lo pop, oid_off = x\<rparr>"

lemma oid_of_simps [simp]: "oid_off (oid_of pop x) = x" "oid_of pop x = oid_of pop y \<longleftrightarrow> x = y"
  by (simp_all add: oid_of_def)

lemma foreach_null [simp]: "foreach_from step stop OID_NULL = Some []"
  by (subst foreach_from.simps) (simp add: OID_NULL_def)

lemma foreach_path:
  assumes "successively (\<lambda>a b. nx a = b) (z # zs)" and "nx (last (z # zs)) = h" and "h \<notin> set zs" and "0 \<notin> set (z # zs)"
    and "\<And>a. a \<in> set (z # zs) \<Longrightarrow> step (oid_of pop a) = oid_of pop (nx a)"
  shows "foreach_from step (oid_of pop h) (oid_of pop z) = Some (map (oid_of pop) (z # zs))"
  using assms
proof (induction zs arbitrary: z)
  case Nil
  then show ?case by (subst foreach_from.simps) simp
next
  case (Cons y ys)
  have "foreach_from step (oid_of pop h) (oid_of pop y) = Some (map (oid_of pop) (y # ys))"
    by (rule Cons.IH) (use Cons.prems in auto)
  then show ?case using Cons.prems by (subst foreach_from.simps) auto
qed

lemma foreach_plist:
  assumes L: "plist pop pe head m xs" and z: "0 \<notin> set xs"
  shows "POBJ_LIST_FOREACH pop m pe head = Some (map (oid_of pop) xs)"
    and "POBJ_LIST_FOREACH_REVERSE pop m pe head = Some (rev (map (oid_of pop) xs))"
proof -
  have first: "POBJ_LIST_FIRST m head = (if xs = [] then POBJ_LIST_FIRST m head else oid_of pop (hd xs))"
    "oid_off (POBJ_LIST_FIRST m head) = (if xs = [] then 0 else hd xs)"
    using L by (auto simp: POBJ_LIST_FIRST_def plist_def list_ptr_simps rd_oid_def oid_of_def head_p_def pe_first_p_def)
  have step: "POBJ_LIST_NEXT pop m pe (oid_of pop a) = oid_of pop (nxt pop pe m a)"
    "POBJ_LIST_PREV pop m pe (oid_of pop a) = oid_of pop (prv pop pe m a)" if "a \<in> set xs" for a
    using L that by (auto simp: POBJ_LIST_NEXT_def POBJ_LIST_PREV_def plist_def rd_oid_def oid_of_def link_p_def
        pe_next_p_def pe_prev_p_def add.assoc)
  have empty: "foreach_from st v v = Some []" if "oid_off v = 0" for st v
    using that by (subst foreach_from.simps) simp
  have "POBJ_LIST_FOREACH pop m pe head = Some (map (oid_of pop) xs) \<and>
      POBJ_LIST_FOREACH_REVERSE pop m pe head = Some (rev (map (oid_of pop) xs))"
  proof (cases xs)
    case Nil
    then show ?thesis using first(2) by (simp add: POBJ_LIST_FOREACH_def POBJ_LIST_FOREACH_REVERSE_def POBJ_LIST_LAST_def empty)
  next
    case (Cons x zs)
    then have r: "linked (nxt pop pe m) (prv pop pe m) xs" "nxt pop pe m (last xs) = x" "prv pop pe m x = last xs"
      using L by (auto simp: plist_def ring_Cons simp del: last.simps)
    have x0: "x \<noteq> 0" "x \<notin> set zs" using z L Cons by (auto simp: plist_def)
    have fx: "POBJ_LIST_FIRST m head = oid_of pop x" using first(1) Cons by simp
    have "foreach_from (POBJ_LIST_NEXT pop m pe) (oid_of pop x) (oid_of pop x) = Some (map (oid_of pop) xs)"
      unfolding Cons
      by (rule foreach_path [where nx = "nxt pop pe m"])
        (use r step z x0 Cons in \<open>auto simp: linked_def elim!: successively_mono\<close>)
    moreover have "foreach_from (POBJ_LIST_PREV pop m pe) (oid_of pop (last xs)) (oid_of pop (last xs)) = Some (map (oid_of pop) (rev xs))"
    proof -
      obtain y ys where y: "rev xs = y # ys" using Cons by (cases "rev xs") auto
      have ly: "last xs = y" "last (y # ys) = x" using y Cons by (metis hd_rev list.sel(1), metis last_rev list.sel(1))
      have "distinct (y # ys)" using L unfolding y [symmetric] by (simp add: plist_def)
      moreover have "successively (\<lambda>a b. prv pop pe m a = b) (y # ys)"
        unfolding y [symmetric] successively_rev using r(1) unfolding linked_def by (rule successively_mono) auto
      moreover have "set (y # ys) = set xs" unfolding y [symmetric] by simp
      ultimately show ?thesis
        unfolding y ly(1) using r(3) step(2) z ly
        by (intro foreach_path [where nx = "prv pop pe m"]) (auto simp del: last.simps)
    qed
    ultimately show ?thesis
      using fx x0 step(2) [of x] r(3) Cons
      by (simp add: POBJ_LIST_FOREACH_def POBJ_LIST_FOREACH_REVERSE_def POBJ_LIST_LAST_def rev_map del: last.simps)
  qed
  then show "POBJ_LIST_FOREACH pop m pe head = Some (map (oid_of pop) xs)"
    "POBJ_LIST_FOREACH_REVERSE pop m pe head = Some (rev (map (oid_of pop) xs))" by auto
qed

section \<open>Operations and sequences of them\<close>

lemma list_ok_held [simp]: "list_ok pop pe head U (ls\<lparr>ls_held := H\<rparr>) xs = list_ok pop pe head U ls xs"
  by (simp add: list_ok_def)

lemma list_insert_does:
  assumes ok: "list_ok pop pe head U ls xs" and lk: "le_lock env (lock_p head) = 0" "lock_p head \<notin> ls_held ls"
    and x: "oid_off oid \<in> U" "oid_off oid \<notin> set xs" and d: "oid_off dest = 0 \<or> oid_off dest \<in> set xs"
  shows "\<exists>ls'. list_insert env pop ls pe head dest before oid = Some (0, ls') \<and>
    list_ok pop pe head U ls' (ins_at (before \<noteq> 0) (resolve (oid_off dest) (before \<noteq> 0) xs) (oid_off oid) xs) \<and>
    ls_held ls' = ls_held ls \<and> heap_frame pop (list_area pop pe head U) (ls_mem ls) (ls_mem ls')"
proof -
  let ?l = "ls\<lparr>ls_held := insert (lock_p head) (ls_held ls)\<rparr>" and ?ys = "ins_at (before \<noteq> 0) (resolve (oid_off dest) (before \<noteq> 0) xs) (oid_off oid) xs"
  have ok1: "list_ok pop pe head U ?l xs" using ok by simp
  have U: "set xs \<subseteq> U" using ok by (simp add: list_ok_def)
  obtain l0 ws where c: "list_run pop pe head U (list_area pop pe head U) l0 ws (list_insert_collect env pop ?l pe head dest before oid)" "length ws \<le> 12"
    "ls_held l0 = ls_held ?l" "\<And>a. a \<notin> list_area pop pe head U \<Longrightarrow> ls_mem l0 a = ls_mem ?l a"
    "plist pop pe head (put_words ws (ls_mem l0)) ?ys"
    using insert_collect_run [OF ok1 x d, of env before] by blast
  have "set ?ys \<subseteq> U" using U x by simp
  from run_finish [OF c(1,2,5) this] obtain l' where l': "list_finish (list_insert_collect env pop ?l pe head dest before oid) = Some l'"
    "list_ok pop pe head U l' ?ys" "ls_held l' = ls_held l0" "heap_frame pop (list_area pop pe head U) (ls_mem l0) (ls_mem l')" by blast
  show ?thesis
    using lk l' c(3,4) by (intro exI [of _ "mutex_unlock l' (lock_p head)"])
      (auto simp: list_insert_def mutex_lock_def mutex_unlock_def heap_frame_def)
qed

lemma list_remove_does:
  assumes ok: "list_ok pop pe head U ls xs" and lk: "le_lock env (lock_p head) = 0" "lock_p head \<notin> ls_held ls"
    and x: "oid_off oid \<in> set xs"
  shows "\<exists>ls'. list_remove env pop ls pe head oid = Some (0, ls') \<and> list_ok pop pe head U ls' (remove1 (oid_off oid) xs) \<and>
    ls_held ls' = ls_held ls \<and> heap_frame pop (list_area pop pe head U) (ls_mem ls) (ls_mem ls')"
proof -
  let ?l = "ls\<lparr>ls_held := insert (lock_p head) (ls_held ls)\<rparr>"
  have ok1: "list_ok pop pe head U ?l xs" using ok by simp
  obtain ws where c: "list_run pop pe head U (list_area pop pe head U) ?l ws (list_remove_collect env pop ?l pe head oid)" "length ws \<le> 12"
    "plist pop pe head (put_words ws (ls_mem ?l)) (remove1 (oid_off oid) xs)"
    using remove_collect_run [OF ok1 x, of env] by blast
  have "set (remove1 (oid_off oid) xs) \<subseteq> U" using ok set_remove1_subset by (fastforce simp: list_ok_def)
  from run_finish [OF c this] show ?thesis
    using lk by (auto simp: list_remove_def mutex_lock_def mutex_unlock_def)
qed

lemma list_move_does:
  assumes ok: "list_ok pop pe head U ls xs" and lk: "le_lock env (lock_p head) = 0" "lock_p head \<notin> ls_held ls"
    and x: "oid_off oid \<in> set xs" and d: "oid_off dest = 0 \<or> oid_off dest \<in> set xs"
  shows "\<exists>ls'. list_move env pop ls pe head pe head dest before oid = Some (0, ls') \<and>
    list_ok pop pe head U ls' (mv_at (before \<noteq> 0) (resolve (oid_off dest) (before \<noteq> 0) xs) (oid_off oid) xs) \<and>
    ls_held ls' = ls_held ls \<and> heap_frame pop (list_area pop pe head U) (ls_mem ls) (ls_mem ls')"
proof -
  let ?l = "ls\<lparr>ls_held := insert (lock_p head) (ls_held ls)\<rparr>" and ?ys = "mv_at (before \<noteq> 0) (resolve (oid_off dest) (before \<noteq> 0) xs) (oid_off oid) xs"
  have ok1: "list_ok pop pe head U ?l xs" using ok by simp
  obtain ws where c: "list_run pop pe head U (list_area pop pe head U) ?l ws (list_move_collect env pop ?l pe head pe head dest before oid)" "length ws \<le> 12"
    "plist pop pe head (put_words ws (ls_mem ?l)) ?ys"
    using move_collect_run [OF ok1 x d, of env before] by blast
  have "set xs \<subseteq> U" using ok by (simp add: list_ok_def)
  then have "set ?ys \<subseteq> U" using x set_remove1_subset [of "oid_off oid" xs] by (auto simp: mv_at_def)
  from run_finish [OF c this] show ?thesis
    using lk by (auto simp: list_move_def list_mutexes_lock_def list_mutexes_unlock_def mutex_lock_def mutex_unlock_def)
qed

lemma list_insert_atomic:
  assumes "list_ok pop pe head U ls xs" and "oid_off oid \<in> U" and "oid_off oid \<notin> set xs" and "oid_off dest = 0 \<or> oid_off dest \<in> set xs"
  shows "list_atomic pop pe head (list_insert_collect env pop ls pe head dest before oid) xs
    (ins_at (before \<noteq> 0) (resolve (oid_off dest) (before \<noteq> 0) xs) (oid_off oid) xs)" (is "list_atomic _ _ _ ?i _ ?ys")
proof -
  have U: "set xs \<subseteq> U" using assms(1) by (simp add: list_ok_def)
  obtain ls0 ws where r: "list_run pop pe head U (list_area pop pe head U) ls0 ws ?i" "length ws \<le> 12" "2 \<le> card (fst ` set ws)"
    "plist pop pe head (ls_mem ls0) xs" "plist pop pe head (put_words ws (ls_mem ls0)) ?ys"
    using insert_collect_run [OF assms, of env before] by blast
  have "set ?ys \<subseteq> U" using U assms(2) by simp
  then show ?thesis by (rule run_atomic [OF r(1-4) U r(5)])
qed

lemma list_remove_atomic:
  assumes "list_ok pop pe head U ls xs" and "oid_off oid \<in> set xs"
  shows "list_atomic pop pe head (list_remove_collect env pop ls pe head oid) xs (remove1 (oid_off oid) xs)" (is "list_atomic _ _ _ ?i _ ?ys")
proof -
  have U: "set xs \<subseteq> U" and L: "plist pop pe head (ls_mem ls) xs" using assms(1) by (auto simp: list_ok_def)
  obtain ws where r: "list_run pop pe head U (list_area pop pe head U) ls ws ?i" "length ws \<le> 12" "2 \<le> card (fst ` set ws)"
    "plist pop pe head (put_words ws (ls_mem ls)) ?ys"
    using remove_collect_run [OF assms, of env] by blast
  have "set ?ys \<subseteq> U" using U set_remove1_subset by fastforce
  then show ?thesis by (rule run_atomic [OF r(1-3) L U r(4)])
qed

datatype plist_op = PInsert PMEMoid int PMEMoid | PRemove PMEMoid | PMove PMEMoid int PMEMoid

fun plist_step :: "list_env \<Rightarrow> PMEMobjpool \<Rightarrow> u64 \<Rightarrow> addr \<Rightarrow> list_state \<Rightarrow> plist_op \<Rightarrow> (int \<times> list_state) option" where
  "plist_step env pop pe head ls (PInsert dest before oid) = list_insert env pop ls pe head dest before oid"
| "plist_step env pop pe head ls (PRemove oid) = list_remove env pop ls pe head oid"
| "plist_step env pop pe head ls (PMove dest before oid) = list_move env pop ls pe head pe head dest before oid"

text \<open>The same on lists of object offsets. The null object stands for the end that \<open>before\<close> selects.\<close>

fun elems_step :: "u64 list \<Rightarrow> plist_op \<Rightarrow> int \<times> u64 list" where
  "elems_step xs (PInsert dest before oid) =
     (0, ins_at (before \<noteq> 0) (resolve (oid_off dest) (before \<noteq> 0) xs) (oid_off oid) xs)"
| "elems_step xs (PRemove oid) = (0, remove1 (oid_off oid) xs)"
| "elems_step xs (PMove dest before oid) =
     (0, mv_at (before \<noteq> 0) (resolve (oid_off dest) (before \<noteq> 0) xs) (oid_off oid) xs)"

fun elems_ok :: "u64 set \<Rightarrow> u64 list \<Rightarrow> plist_op \<Rightarrow> bool" where
  "elems_ok U xs (PInsert dest before oid) \<longleftrightarrow>
     oid_off oid \<in> U \<and> oid_off oid \<notin> set xs \<and> (oid_off dest = 0 \<or> oid_off dest \<in> set xs)"
| "elems_ok U xs (PRemove oid) \<longleftrightarrow> oid_off oid \<in> set xs"
| "elems_ok U xs (PMove dest before oid) \<longleftrightarrow> oid_off oid \<in> set xs \<and> (oid_off dest = 0 \<or> oid_off dest \<in> set xs)"

definition list_ready :: "list_env \<Rightarrow> PMEMobjpool \<Rightarrow> u64 \<Rightarrow> addr \<Rightarrow> u64 set \<Rightarrow> list_state \<Rightarrow> bool" where
  "list_ready env pop pe head U ls \<longleftrightarrow>
     (\<exists>xs. list_ok pop pe head U ls xs) \<and> le_lock env (lock_p head) = 0 \<and> lock_p head \<notin> ls_held ls"

definition list_elems :: "PMEMobjpool \<Rightarrow> u64 \<Rightarrow> addr \<Rightarrow> list_state \<Rightarrow> u64 list" where
  "list_elems pop pe head ls = map oid_off (the (POBJ_LIST_FOREACH pop (ls_mem ls) pe head))"

lemma list_elems_ok:
  assumes "list_ok pop pe head U ls xs"
  shows "list_elems pop pe head ls = xs"
proof -
  have "0 \<notin> set xs" using assms by (auto simp: list_ok_def place_ok_def)
  then show ?thesis using foreach_plist(1) [of pop pe head "ls_mem ls" xs] assms
    by (simp add: list_elems_def list_ok_def comp_def)
qed

lemma plist_step_does:
  assumes "list_ready env pop pe head U ls" and "elems_ok U (list_elems pop pe head ls) op"
  shows "\<exists>ls'. plist_step env pop pe head ls op = Some (fst (elems_step (list_elems pop pe head ls) op), ls') \<and>
    list_ready env pop pe head U ls' \<and> list_elems pop pe head ls' = snd (elems_step (list_elems pop pe head ls) op)"
proof -
  obtain xs where ok: "list_ok pop pe head U ls xs" and lk: "le_lock env (lock_p head) = 0" "lock_p head \<notin> ls_held ls"
    using assms(1) by (auto simp: list_ready_def)
  note xs = list_elems_ok [OF ok]
  have "\<exists>ls'. plist_step env pop pe head ls op = Some (fst (elems_step xs op), ls') \<and>
    list_ok pop pe head U ls' (snd (elems_step xs op)) \<and> ls_held ls' = ls_held ls"
  proof (cases op)
    case (PInsert dest before oid)
    then show ?thesis using list_insert_does [OF ok lk, of oid dest before] assms(2) unfolding xs by auto
  next
    case (PRemove oid)
    then show ?thesis using list_remove_does [OF ok lk, of oid] assms(2) unfolding xs by auto
  next
    case (PMove dest before oid)
    then show ?thesis using list_move_does [OF ok lk, of oid dest before] assms(2) unfolding xs by auto
  qed
  then obtain ls' where "plist_step env pop pe head ls op = Some (fst (elems_step xs op), ls')"
    "list_ok pop pe head U ls' (snd (elems_step xs op))" "ls_held ls' = ls_held ls" by blast
  then show ?thesis
    using lk list_elems_ok [of pop pe head U ls'] unfolding xs list_ready_def by auto
qed

interpretation pl: guarded_simulation "list_ready env pop pe head U" "list_elems pop pe head" "plist_step env pop pe head"
    elems_step "elems_ok U" for env pop pe head U
  by unfold_locales (rule plist_step_does)

section \<open>Moving between two lists\<close>

definition heads_apart :: "addr \<Rightarrow> addr \<Rightarrow> bool" where
  "heads_apart h h' \<longleftrightarrow> h + 16 \<le> h' \<or> h' + 16 \<le> h"

lemma rd_other_head:
  assumes "heads_apart h h'" and "k < 2" and "l < 2"
  shows "rd64 (wr64 m (head_p h l) v) (head_p h' k) = rd64 m (head_p h' k)"
  by (rule rd64_wr64_disjoint) (use assms in \<open>auto simp: heads_apart_def head_p_def\<close>)

lemma list_run_switch:
  assumes "list_run pop pe h U A ls0 ws ls" and "place_ok pop pe h' U" and "list_area pop pe h' U \<subseteq> A"
  shows "list_run pop pe h' U A ls0 ws ls"
  using assms by (simp add: list_run_def)

lemma move_between_plists:
  assumes P: "place_ok pop pe h U" "place_ok pop pe h' U" and ap: "heads_apart h h'"
    and L: "plist pop pe h m xs" "plist pop pe h' m ys" and U: "set xs \<subseteq> U" "set ys \<subseteq> U" "set xs \<inter> set ys = {}"
    and x: "x \<in> set xs" and d: "if ys = [] then d = 0 else d \<in> set ys" and np: "insert_links pop pe m d b x = (n, p)"
  defines "m' \<equiv> put_words (remove_words pop pe h m x @ insert_words pop pe h' m d b x @ fill_words pop pe x n p) m"
  shows "plist pop pe h m' (remove1 x xs)" and "plist pop pe h' m' (ins_at b d x ys)"
proof -
  have ap': "heads_apart h' h" using ap by (auto simp: heads_apart_def)
  note W = list_word_rd [OF P(1)] list_word_rd [OF P(2)] rd_other_head [OF ap] rd_other_head [OF ap']
  define m1 where "m1 = put_words (remove_words pop pe h m x) m"
  have r: "ring (nxt pop pe m) (prv pop pe m) xs" and dist: "distinct xs" using L(1) by (auto simp: plist_def)
  have nx: "nxt pop pe m x \<in> set xs" "prv pop pe m x \<in> set xs" using ring_in [OF r x] by auto
  have xU: "x \<in> U" "nxt pop pe m x \<in> U" "prv pop pe m x \<in> U" "x \<notin> set ys" using nx x U by auto
  have L1: "plist pop pe h m1 (remove1 x xs)" unfolding m1_def by (rule plist_remove [OF P(1) L(1) U(1) x])
  have other: "rd64 m1 (head_p h' k) = rd64 m (head_p h' k)" if "k < 2" for k
    using that xU by (auto simp: m1_def remove_words_def head_words_def W)
  have keep: "rd64 m1 (link_p pop pe a k) = rd64 m (link_p pop pe a k)" if "a \<in> set ys" "k < 4" for a k
  proof -
    have "a \<noteq> nxt pop pe m x" "a \<noteq> prv pop pe m x" "a \<in> U" using that nx U by auto
    then show ?thesis using that xU by (auto simp: m1_def remove_words_def head_words_def W)
  qed
  have own: "rd64 m1 (link_p pop pe x k) = rd64 m (link_p pop pe x k)" if "k = 0 \<or> k = 2" for k
    using that xU by (auto simp: m1_def remove_words_def head_words_def W)
  have L2: "plist pop pe h' m1 ys" using plist_cong [OF L(2) other keep] .
  have iw: "insert_words pop pe h' m1 d b x = insert_words pop pe h' m d b x" "insert_links pop pe m1 d b x = (n, p)"
    using other keep [of d] d np by (auto simp: insert_words_def insert_links_def head_words_def split: if_splits)
  have m': "m' = put_words (insert_words pop pe h' m1 d b x @ fill_words pop pe x n p) m1"
    unfolding iw(1) by (simp add: m'_def m1_def)
  show "plist pop pe h' m' (ins_at b d x ys)"
    unfolding m' by (rule plist_insert [OF P(2) L2 U(2) xU(1,4) d _ _ iw(2)]) (use own L(1) x in \<open>auto simp: plist_def\<close>)
  have dU: "d \<in> U" "nxt pop pe m1 d \<in> set ys" "prv pop pe m1 d \<in> set ys" if "d \<noteq> 0"
    using that d U(2) ring_in [of "nxt pop pe m1" "prv pop pe m1" ys d] L2 by (auto simp: plist_def split: if_splits)
  show "plist pop pe h m' (remove1 x xs)"
  proof (rule plist_cong [OF L1])
    show "rd64 m' (head_p h k) = rd64 m1 (head_p h k)" if "k < 2" for k
      using that xU dU U(2) by (auto simp: m' insert_words_def fill_words_def head_words_def W subset_iff)
    show "rd64 m' (link_p pop pe a k) = rd64 m1 (link_p pop pe a k)" if "a \<in> set (remove1 x xs)" "k < 4" for a k
    proof -
      have a: "a \<in> U" "a \<noteq> x" "a \<notin> set ys" using that dist U by auto
      then have "d \<noteq> 0 \<Longrightarrow> a \<noteq> d \<and> a \<noteq> nxt pop pe m1 d \<and> a \<noteq> prv pop pe m1 d" using d dU by (auto split: if_splits)
      then show ?thesis
        using that(2) a xU dU U(2) by (auto simp: m' insert_words_def fill_words_def head_words_def W subset_iff)
    qed
  qed
qed

definition two_lists :: "PMEMobjpool \<Rightarrow> u64 \<Rightarrow> addr \<Rightarrow> addr \<Rightarrow> u64 set \<Rightarrow> list_state \<Rightarrow> u64 list \<Rightarrow> u64 list \<Rightarrow> bool" where
  "two_lists pop pe h h' U ls xs ys \<longleftrightarrow>
     list_ok pop pe h U ls xs \<and> list_ok pop pe h' U ls ys \<and> heads_apart h h' \<and> set xs \<inter> set ys = {}"

lemma move_between_run:
  fixes before :: int
  assumes two: "two_lists pop pe h h' U ls xs ys" and x: "oid_off oid \<in> set xs"
    and d: "oid_off dest = 0 \<or> oid_off dest \<in> set ys"
  defines "A \<equiv> list_area pop pe h U \<union> list_area pop pe h' U"
    and "ys' \<equiv> ins_at (before \<noteq> 0) (resolve (oid_off dest) (before \<noteq> 0) ys) (oid_off oid) ys"
  shows "\<exists>ws. list_run pop pe h' U A ls ws (list_move_collect env pop ls pe h pe h' dest before oid) \<and> length ws \<le> 12 \<and>
    2 \<le> card (fst ` set ws) \<and>
    plist pop pe h (put_words ws (ls_mem ls)) (remove1 (oid_off oid) xs) \<and> plist pop pe h' (put_words ws (ls_mem ls)) ys'"
proof -
  let ?x = "oid_off oid" and ?b = "before \<noteq> 0" and ?m = "ls_mem ls" let ?d = "resolve (oid_off dest) ?b ys"
  let ?c = "list_move_collect env pop ls pe h pe h' dest before oid"
  have ok: "list_ok pop pe h U ls xs" "list_ok pop pe h' U ls ys" and ap: "heads_apart h h'" and dj: "set xs \<inter> set ys = {}"
    using two by (auto simp: two_lists_def)
  then have P: "place_ok pop pe h U" "place_ok pop pe h' U" and L: "plist pop pe h ?m xs" "plist pop pe h' ?m ys"
    and U: "set xs \<subseteq> U" "set ys \<subseteq> U" by (auto simp: list_ok_def)
  have r: "ring (nxt pop pe ?m) (prv pop pe ?m) xs" "ring (nxt pop pe ?m) (prv pop pe ?m) ys" using L by (auto simp: plist_def)
  have z: "0 \<notin> set ys" using P U by (auto simp: place_ok_def)
  have dd: "oid_off (list_get_dest pop ?m h' dest pe before) = ?d" by (rule get_dest_resolve [OF L(2) z])
  have din: "if ys = [] then ?d = 0 else ?d \<in> set ys" using resolve_in [OF d] .
  have A: "list_area pop pe h U \<subseteq> A" "list_area pop pe h' U \<subseteq> A" by (auto simp: A_def)
  note s = list_run_start [OF ok(1) A(1)]
  have nb: "?x \<in> U" "nxt pop pe ?m ?x \<in> U" "prv pop pe ?m ?x \<in> U" using ring_in [OF r(1) x] U x by auto
  have nd: "?d \<in> U" "nxt pop pe ?m ?d \<in> U" "prv pop pe ?m ?d \<in> U" if "?d \<noteq> 0"
    using that din U ring_in [OF r(2), of ?d] by (auto split: if_splits)
  obtain n p where np: "insert_links pop pe ?m ?d ?b ?x = (n, p)" by fastforce
  let ?rw = "remove_words pop pe h ?m ?x" and ?iw = "insert_words pop pe h' ?m ?d ?b ?x"
  let ?ws = "(?rw @ ?iw) @ fill_words pop pe ?x n p"
  have len: "length ?rw \<le> 4" "length (?rw @ ?iw) \<le> 10" by (auto simp: remove_words_def insert_words_def head_words_def)
  let ?l1 = "list_remove_single env pop (list_start ls) \<lparr>lar_pe_offset = pe, lar_obj_doffset = ?x, lar_head = h,
      lar_entry_ptr = OBJ_OFF_TO_PTR pop (?x + pe)\<rparr>"
  have r1: "list_run pop pe h' U A ls ?rw ?l1"
    by (rule list_run_switch [OF remove_single_run [OF s(1) nb] P(2) A(2)])
  obtain l2 where l2: "list_insert_user env pop ?l1 \<lparr>lai_head = h', lai_dest = list_get_dest pop ?m h' dest pe before,
      lai_dest_entry_ptr = OBJ_OFF_TO_PTR pop (?d + pe), lai_before = before\<rparr>
      \<lparr>lac_pe_offset = pe, lac_obj_doffset = ?x, lac_entry_ptr = OBJ_OFF_TO_PTR pop (?x + pe)\<rparr> = (l2, n, p)"
    "list_run pop pe h' U A ls (?rw @ ?iw) l2"
    using insert_user_run [OF r1 len(1) nd dd, where before = before and x = ?x and env = env
        and e = "OBJ_OFF_TO_PTR pop (?x + pe)"] np by auto
  have "h \<noteq> h'" using ap by (auto simp: heads_apart_def)
  then have "?c = list_fill_entry_redo_log env pop l2 \<lparr>lac_pe_offset = pe, lac_obj_doffset = ?x,
      lac_entry_ptr = OBJ_OFF_TO_PTR pop (?x + pe)\<rparr> n p False"
    using l2(1) by (simp add: list_move_collect_def Let_def s(2) dd)
  then have "list_run pop pe h' U A ls ?ws ?c"
    using fill_run(1) [OF l2(2) len(2) nb(1), of n p env] by simp
  moreover have "plist pop pe h (put_words ?ws ?m) (remove1 ?x xs)" "plist pop pe h' (put_words ?ws ?m) ys'"
    using move_between_plists [OF P ap L U dj x din np] by (simp_all add: ys'_def)
  moreover have "card (fst ` set (fill_words pop pe ?x n p)) \<le> card (fst ` set ?ws)" by (intro card_mono) auto
  then have "2 \<le> card (fst ` set ?ws)" by (simp add: fill_words_def link_p_def)
  ultimately show ?thesis using len(2) by (intro exI [of _ ?ws]) (simp add: fill_words_def)
qed

section \<open>Theorems\<close>

text \<open>C6. Any sequence of list operations does what it does on a list of object offsets. The operations
  insert, remove and move objects of a set that is laid out in the heap without overlaps, through the
  redo log of a lane, whatever the allocator answers when the log is extended. Each returns 0, the
  lock of the list is free again, and walking the list with \<open>POBJ_LIST_FOREACH\<close> gives the elements
  that the specification has.\<close>

theorem list_operations_refine:
  assumes "list_ready env pop pe head U ls" and "ops_ok elems_step (elems_ok U) (list_elems pop pe head ls) ops"
  shows "\<exists>ls'. run_ops (plist_step env pop pe head) ls ops = Some (fst (spec_run elems_step (list_elems pop pe head ls) ops), ls') \<and>
    list_ready env pop pe head U ls' \<and> list_elems pop pe head ls' = snd (spec_run elems_step (list_elems pop pe head ls) ops)"
  using assms by (rule pl.run_guarded)


text \<open>The loops \<open>POBJ_LIST_FOREACH\<close> and \<open>POBJ_LIST_FOREACH_REVERSE\<close> end on every list, after visiting each
  element once, in the order of the list and in the opposite order.\<close>

lemma list_foreach_visits:
  assumes "list_ok pop pe head U ls xs"
  shows "POBJ_LIST_FOREACH pop (ls_mem ls) pe head = Some (map (oid_of pop) xs) \<and>
    POBJ_LIST_FOREACH_REVERSE pop (ls_mem ls) pe head = Some (rev (map (oid_of pop) xs))"
proof -
  have "0 \<notin> set xs" "plist pop pe head (ls_mem ls) xs" using assms by (auto simp: list_ok_def place_ok_def)
  then show ?thesis using foreach_plist by blast
qed

text \<open>When one of the two locks cannot be taken, \<open>list_move\<close> returns -1 with the state as it was: a lock that
  was taken first is released again.\<close>

lemma list_move_lock_error:
  assumes "le_lock env (lock_p head_old) \<noteq> 0 \<or> le_lock env (lock_p head_new) \<noteq> 0"
    and "lock_p head_old \<notin> ls_held ls" and "lock_p head_new \<notin> ls_held ls"
  shows "list_move env pop ls pe_old head_old pe_new head_new dest before oid = Some (- 1, ls)"
  using assms
  by (auto simp: list_move_def list_mutexes_lock_def mutex_lock_def mutex_unlock_def lock_p_def min_def max_def Let_def split: if_splits)


section \<open>Examples\<close>

definition sample_pool :: PMEMobjpool where
  "sample_pool = \<lparr>pop_addr = 0, uuid_lo = 7,
     pop_layout = \<lparr>lanes_offset = 8192, nlanes = 1, heap_offset = 65536, heap_size = 65536\<rparr>\<rparr>"

definition sample_list :: list_state where
  "sample_list = \<lparr>ls_mem = wr64 (\<lambda>_. 0) 200016 640,
     ls_ctx = (sample_ctx LOG_TYPE_REDO 0)\<lparr>oc_base_nbytes := 640, pshadow_ops := \<lparr>ol_capacity = 1024, ol_offset = 0, ol_ulog = 200000\<rparr>\<rparr>,
     ls_held = {}, ls_calls = 0\<rparr>"

definition sample_env :: list_env where
  "sample_env = \<lparr>le_alloc = (\<lambda>_. (None, None)), le_lock = (\<lambda>_. 0)\<rparr>"

lemma sample_list_ok: "list_ok sample_pool 16 70000 {80000, 80064, 80128} sample_list []"
proof -
  have "place_ok sample_pool 16 70000 {80000, 80064, 80128}"
    by (simp add: place_ok_def objpool_ok_def heap_span_def heap_lo_def heap_hi_def link_p_def OBJ_OFF_TO_PTR_def sample_pool_def)
  moreover have "lane_ok sample_pool (ls_ctx sample_list) (ls_mem sample_list)"
    by (simp add: lane_ok_def sample_list_def sample_pool_def sample_ctx_def heap_lo_def heap_hi_def ulog_capacity_p_def init_queue)
  moreover have "plist sample_pool 16 70000 (ls_mem sample_list) []"
    by (simp add: plist_def sample_list_def head_p_def rd64_wr64_disjoint)
  ultimately show ?thesis by (simp add: list_ok_def)
qed

lemma sample_list_ready: "list_ready sample_env sample_pool 16 70000 {80000, 80064, 80128} sample_list"
  using sample_list_ok by (auto simp: list_ready_def sample_env_def sample_list_def)

theorem list_operations_refine_witness:
  "\<exists>ls'. run_ops (plist_step sample_env sample_pool 16 70000) sample_list
      [PInsert OID_NULL 1 (oid_of sample_pool 80000), PInsert OID_NULL 0 (oid_of sample_pool 80064),
       PInsert (oid_of sample_pool 80064) 1 (oid_of sample_pool 80128), PMove OID_NULL 0 (oid_of sample_pool 80000),
       PRemove (oid_of sample_pool 80064)] = Some ([0, 0, 0, 0, 0], ls') \<and>
     list_elems sample_pool 16 70000 ls' = [80128, 80000]"
  using list_operations_refine [OF sample_list_ready, of
      "[PInsert OID_NULL 1 (oid_of sample_pool 80000), PInsert OID_NULL 0 (oid_of sample_pool 80064),
       PInsert (oid_of sample_pool 80064) 1 (oid_of sample_pool 80128), PMove OID_NULL 0 (oid_of sample_pool 80000),
       PRemove (oid_of sample_pool 80064)]"]
  by (simp add: list_elems_ok [OF sample_list_ok] OID_NULL_def resolve_def mv_at_def) blast


lemma sample_two_lists: "two_lists sample_pool 16 70000 71000 {80000, 80064, 80128}
    (sample_list\<lparr>ls_mem := put_words [(70000, 7), (70008, 80000), (80016, 7), (80024, 80000), (80032, 7), (80040, 80000)]
      (ls_mem sample_list)\<rparr>) [80000] []"
proof -
  let ?m = "put_words [(70000, 7), (70008, 80000), (80016, 7), (80024, 80000), (80032, 7), (80040, 80000)] (ls_mem sample_list)"
  have "place_ok sample_pool 16 70000 {80000, 80064, 80128}" "place_ok sample_pool 16 71000 {80000, 80064, 80128}"
    by (simp_all add: place_ok_def objpool_ok_def heap_span_def heap_lo_def heap_hi_def link_p_def OBJ_OFF_TO_PTR_def sample_pool_def)
  moreover have "lane_ok sample_pool (ls_ctx sample_list) ?m"
    by (simp add: lane_ok_def sample_list_def sample_pool_def sample_ctx_def heap_lo_def heap_hi_def ulog_capacity_p_def init_queue
        rd64_wr64_disjoint)
  moreover have "plist sample_pool 16 70000 ?m [80000]" "plist sample_pool 16 71000 ?m []"
    by (simp_all add: plist_def sample_list_def sample_pool_def head_p_def link_p_def OBJ_OFF_TO_PTR_def rd64_wr64_disjoint ring_Cons)
  ultimately show ?thesis by (simp add: two_lists_def list_ok_def heads_apart_def)
qed


end
