(* ===== verification/Cuckoo.thy ===== *)
theory Cuckoo
  imports Prelude "HOL-Library.Multiset" "HOL-Library.Monad_Syntax"
begin

text \<open>
  The cuckoo hash table of \<^verbatim>\<open>libpmemobj/cuckoo.c\<close>. A slot holds a key and a value pointer, with
  0 for the null pointer; the table is its size and the array of slots, and an access past the
  end of the array is \<open>None\<close> (the size and the array can disagree, see \<open>cuckoo_grow\<close>). Whether
  the n-th allocation of a growing table succeeds is given by the argument \<open>ok\<close>. The new size is
  computed in single precision: the factor \<open>1.2f\<close> is 10066330 / 2^23 and both the conversion and
  the product are rounded to 24 significant bits, to nearest and ties to even.
\<close>

unbundle bit_operations_syntax

section \<open>Data\<close>

definition INITIAL_SIZE :: nat where "INITIAL_SIZE = 8"
definition MAX_INSERTS :: nat where "MAX_INSERTS = 8"
definition MAX_GROWS :: nat where "MAX_GROWS = 32"

record cuckoo_slot =
  slot_key :: u64
  slot_value :: nat

record cuckoo =
  cuckoo_size :: nat
  cuckoo_tab :: "cuckoo_slot list"

definition null_slot :: cuckoo_slot where
  "null_slot = \<lparr>slot_key = 0, slot_value = 0\<rparr>"

definition slot_at :: "cuckoo \<Rightarrow> nat \<Rightarrow> cuckoo_slot option" where
  "slot_at c i = (if i < length (cuckoo_tab c) then Some (cuckoo_tab c ! i) else None)"

definition set_slot :: "cuckoo \<Rightarrow> nat \<Rightarrow> cuckoo_slot \<Rightarrow> cuckoo" where
  "set_slot c i s = c\<lparr>cuckoo_tab := (cuckoo_tab c)[i := s]\<rparr>"

section \<open>Hash functions\<close>

definition hash_mod :: "cuckoo \<Rightarrow> u64 \<Rightarrow> nat" where
  "hash_mod c key = unat key mod cuckoo_size c"

definition hash_mixer :: "cuckoo \<Rightarrow> u64 \<Rightarrow> nat" where
  "hash_mixer c key =
     (let key = key XOR drop_bit 33 key;
          key = key * 0xff51afd7ed558ccd;
          key = key XOR drop_bit 33 key;
          key = key * 0xc4ceb9fe1a85ec53;
          key = key XOR drop_bit 33 key
      in unat key mod cuckoo_size c)"

section \<open>Operations\<close>

definition cuckoo_new :: "bool \<Rightarrow> bool \<Rightarrow> cuckoo option" where
  "cuckoo_new ok_c ok_tab =
     (if ok_c \<and> ok_tab
      then Some \<lparr>cuckoo_size = INITIAL_SIZE, cuckoo_tab = replicate INITIAL_SIZE null_slot\<rparr> else None)"

text \<open>The loop of \<open>cuckoo_insert_try\<close>, with the number of rounds left. The result is the error
  (\<open>None\<close> for 0), the table and the element that \<open>src\<close> holds at the end.\<close>

fun insert_try_loop :: "nat \<Rightarrow> cuckoo \<Rightarrow> cuckoo_slot \<Rightarrow> (errno option \<times> cuckoo \<times> cuckoo_slot) option" where
  "insert_try_loop 0 c src = Some (Some EAGAIN, c, src)"
| "insert_try_loop (Suc n) c src =
     (let h0 = hash_mod c (slot_key src); h1 = hash_mixer c (slot_key src)
      in do { s0 \<leftarrow> slot_at c h0;
              if slot_value s0 = 0 then Some (None, set_slot c h0 src, src)
              else if slot_key s0 = slot_key src then Some (Some EINVAL, c, src)
              else do { s1 \<leftarrow> slot_at c h1;
                        if slot_value s1 = 0 then Some (None, set_slot c h1 src, src)
                        else if slot_key s1 = slot_key src then Some (Some EINVAL, c, src)
                        else insert_try_loop n (set_slot c h0 src) s0 } })"

definition cuckoo_insert_try :: "cuckoo \<Rightarrow> cuckoo_slot \<Rightarrow> (errno option \<times> cuckoo \<times> cuckoo_slot) option" where
  "cuckoo_insert_try c src = insert_try_loop MAX_INSERTS c src"

fun bit_len :: "nat \<Rightarrow> nat" where
  "bit_len n = (if n = 0 then 0 else Suc (bit_len (n div 2)))"

declare bit_len.simps [simp del]

definition round24 :: "nat \<Rightarrow> nat" where
  "round24 n =
     (let e = bit_len n - 24; q = n div 2 ^ e; r = n mod 2 ^ e
      in if 2 * r > 2 ^ e \<or> (2 * r = 2 ^ e \<and> e \<noteq> 0 \<and> odd q) then (q + 1) * 2 ^ e else q * 2 ^ e)"

definition next_size :: "nat \<Rightarrow> nat" where
  "next_size n = round24 (round24 n * 10066330) div 2 ^ 23"

text \<open>The rehashing loop of \<open>cuckoo_grow\<close>: whether all slots went in, and the new table.\<close>

fun rehash_loop :: "cuckoo \<Rightarrow> cuckoo_slot list \<Rightarrow> (bool \<times> cuckoo) option" where
  "rehash_loop c [] = Some (True, c)"
| "rehash_loop c (s # ss) =
     (if slot_value s \<noteq> 0
      then do { (r, c', _) \<leftarrow> cuckoo_insert_try c s;
                if r \<noteq> None then Some (False, c') else rehash_loop c' ss }
      else rehash_loop c ss)"

fun grow_loop ::
  "nat \<Rightarrow> (nat \<Rightarrow> bool) \<Rightarrow> cuckoo \<Rightarrow> nat \<Rightarrow> cuckoo_slot list \<Rightarrow> (errno option \<times> cuckoo) option" where
  "grow_loop 0 ok c oldsize oldtab = Some (Some EINVAL, c\<lparr>cuckoo_size := oldsize, cuckoo_tab := oldtab\<rparr>)"
| "grow_loop (Suc k) ok c oldsize oldtab =
     (let nsize = next_size (cuckoo_size c)
      in if \<not> ok (MAX_GROWS - Suc k) then Some (Some ENOMEM, c\<lparr>cuckoo_tab := oldtab\<rparr>)
         else do { (all, c') \<leftarrow> rehash_loop \<lparr>cuckoo_size = nsize, cuckoo_tab = replicate nsize null_slot\<rparr>
                                  (take oldsize oldtab);
                   if all then Some (None, c') else grow_loop k ok c' oldsize oldtab })"

definition cuckoo_grow :: "(nat \<Rightarrow> bool) \<Rightarrow> cuckoo \<Rightarrow> (errno option \<times> cuckoo) option" where
  "cuckoo_grow ok c =
     (if cuckoo_size c \<le> length (cuckoo_tab c)
      then grow_loop MAX_GROWS ok c (cuckoo_size c) (cuckoo_tab c) else None)"

fun insert_loop :: "nat \<Rightarrow> (nat \<Rightarrow> nat \<Rightarrow> bool) \<Rightarrow> cuckoo \<Rightarrow> cuckoo_slot \<Rightarrow> (errno option \<times> cuckoo) option" where
  "insert_loop 0 ok c src = Some (Some EINVAL, c)"
| "insert_loop (Suc k) ok c src =
     do { (err, c, src) \<leftarrow> cuckoo_insert_try c src;
          if err \<noteq> Some EAGAIN then Some (err, c)
          else do { (err, c) \<leftarrow> cuckoo_grow (ok (MAX_GROWS - Suc k)) c;
                    if err \<noteq> None then Some (err, c) else insert_loop k ok c src } }"

definition cuckoo_insert :: "(nat \<Rightarrow> nat \<Rightarrow> bool) \<Rightarrow> cuckoo \<Rightarrow> u64 \<Rightarrow> nat \<Rightarrow> (errno option \<times> cuckoo) option" where
  "cuckoo_insert ok c key v = insert_loop MAX_GROWS ok c \<lparr>slot_key = key, slot_value = v\<rparr>"

text \<open>\<open>cuckoo_find_slot\<close>: the outer \<open>None\<close> is an access past the end, the inner one is the null
  pointer.\<close>

definition cuckoo_find_slot :: "cuckoo \<Rightarrow> u64 \<Rightarrow> nat option option" where
  "cuckoo_find_slot c key =
     do { s0 \<leftarrow> slot_at c (hash_mod c key);
          if slot_key s0 = key then Some (Some (hash_mod c key))
          else do { s1 \<leftarrow> slot_at c (hash_mixer c key);
                    Some (if slot_key s1 = key then Some (hash_mixer c key) else None) } }"

definition cuckoo_remove :: "cuckoo \<Rightarrow> u64 \<Rightarrow> (nat \<times> cuckoo) option" where
  "cuckoo_remove c key =
     do { h \<leftarrow> cuckoo_find_slot c key;
          case h of None \<Rightarrow> Some (0, c)
          | Some h \<Rightarrow> do { s \<leftarrow> slot_at c h; Some (slot_value s, set_slot c h null_slot) } }"

definition cuckoo_get :: "cuckoo \<Rightarrow> u64 \<Rightarrow> nat option" where
  "cuckoo_get c key =
     do { h \<leftarrow> cuckoo_find_slot c key;
          case h of None \<Rightarrow> Some 0 | Some h \<Rightarrow> map_option slot_value (slot_at c h) }"

definition cuckoo_get_size :: "cuckoo \<Rightarrow> nat" where
  "cuckoo_get_size c = cuckoo_size c"

section \<open>Invariant and contents\<close>

text \<open>A well-formed table: the array has the stated size, an empty slot is a null slot, and every
  element is at one of its two positions.\<close>

definition cuckoo_ok :: "cuckoo \<Rightarrow> bool" where
  "cuckoo_ok c \<longleftrightarrow> 0 < cuckoo_size c \<and> length (cuckoo_tab c) = cuckoo_size c \<and>
     (\<forall>i < cuckoo_size c. let s = cuckoo_tab c ! i in
        (slot_value s = 0 \<longrightarrow> slot_key s = 0) \<and>
        (slot_value s \<noteq> 0 \<longrightarrow> i = hash_mod c (slot_key s) \<or> i = hash_mixer c (slot_key s)))"

definition entries :: "cuckoo \<Rightarrow> cuckoo_slot multiset" where
  "entries c = filter_mset (\<lambda>s. slot_value s \<noteq> 0) (mset (cuckoo_tab c))"

definition keys_of :: "cuckoo_slot multiset \<Rightarrow> u64 multiset" where
  "keys_of E = image_mset slot_key E"

text \<open>No key occurs twice.\<close>

definition unique_keys :: "cuckoo_slot multiset \<Rightarrow> bool" where
  "unique_keys E \<longleftrightarrow> (\<forall>k. count (keys_of E) k \<le> 1)"

lemma hash_bounds: "0 < cuckoo_size c \<Longrightarrow> hash_mod c k < cuckoo_size c" "0 < cuckoo_size c \<Longrightarrow> hash_mixer c k < cuckoo_size c"
  by (simp_all add: hash_mod_def hash_mixer_def Let_def)

lemma hash_set_slot [simp]: "hash_mod (set_slot c i s) k = hash_mod c k" "hash_mixer (set_slot c i s) k = hash_mixer c k"
  by (simp_all add: hash_mod_def hash_mixer_def set_slot_def Let_def)

lemma slot_at_ok: "cuckoo_ok c \<Longrightarrow> i < cuckoo_size c \<Longrightarrow> slot_at c i = Some (cuckoo_tab c ! i)"
  by (simp add: slot_at_def cuckoo_ok_def)

lemma entries_set_slot:
  assumes "i < length (cuckoo_tab c)" and "slot_value s \<noteq> 0"
  shows "entries (set_slot c i s) + (if slot_value (cuckoo_tab c ! i) = 0 then {#} else {#cuckoo_tab c ! i#}) =
    add_mset s (entries c)"
proof -
  let ?x = "cuckoo_tab c ! i"
  have "mset ((cuckoo_tab c)[i := s]) = add_mset s (mset (cuckoo_tab c) - {#?x#})"
    using assms(1) by (rule mset_update)
  moreover have "?x \<in># mset (cuckoo_tab c)" using assms(1) by simp
  then obtain M where "mset (cuckoo_tab c) = add_mset ?x M" by (meson multi_member_split)
  ultimately show ?thesis
    using assms(2) by (simp add: entries_def set_slot_def)
qed

lemma ok_set_slot:
  assumes "cuckoo_ok c" and "i < cuckoo_size c" and "slot_value s \<noteq> 0"
    and "i = hash_mod c (slot_key s) \<or> i = hash_mixer c (slot_key s)"
  shows "cuckoo_ok (set_slot c i s)"
  using assms unfolding cuckoo_ok_def Let_def
  by (auto simp: nth_list_update) (auto simp: set_slot_def nth_list_update hash_mod_def hash_mixer_def Let_def)

lemma insert_try_spec:
  assumes "cuckoo_ok c" and "slot_value src \<noteq> 0" and "insert_try_loop n c src = Some (r, c', src')"
  shows "cuckoo_ok c' \<and> cuckoo_size c' = cuckoo_size c \<and> slot_value src' \<noteq> 0 \<and>
    (r = None \<longrightarrow> entries c' = add_mset src (entries c)) \<and>
    (r \<noteq> None \<longrightarrow> add_mset src' (entries c') = add_mset src (entries c))"
  using assms
proof (induction n arbitrary: c src)
  case 0
  then show ?case by auto
next
  case (Suc n)
  let ?h0 = "hash_mod c (slot_key src)" and ?h1 = "hash_mixer c (slot_key src)"
  have sz: "0 < cuckoo_size c" "length (cuckoo_tab c) = cuckoo_size c"
    using Suc.prems(1) by (simp_all add: cuckoo_ok_def)
  have h: "?h0 < cuckoo_size c" "?h1 < cuckoo_size c" using hash_bounds sz(1) by auto
  let ?s0 = "cuckoo_tab c ! ?h0" and ?s1 = "cuckoo_tab c ! ?h1"
  have at: "slot_at c ?h0 = Some ?s0" "slot_at c ?h1 = Some ?s1" using slot_at_ok Suc.prems(1) h by auto
  note ok = ok_set_slot [OF Suc.prems(1) h(1) Suc.prems(2) disjI1 [OF refl]]
    ok_set_slot [OF Suc.prems(1) h(2) Suc.prems(2) disjI2 [OF refl]]
  have E: "entries (set_slot c ?h0 src) + (if slot_value ?s0 = 0 then {#} else {#?s0#}) = add_mset src (entries c)"
    "entries (set_slot c ?h1 src) + (if slot_value ?s1 = 0 then {#} else {#?s1#}) = add_mset src (entries c)"
    using entries_set_slot [OF _ Suc.prems(2), of _ c] h sz(2) by simp_all
  have size: "cuckoo_size (set_slot c i s) = cuckoo_size c" for i s by (simp add: set_slot_def)
  consider (a) "slot_value ?s0 = 0" | (b) "slot_value ?s0 \<noteq> 0" "slot_key ?s0 = slot_key src"
    | (c) "slot_value ?s0 \<noteq> 0" "slot_key ?s0 \<noteq> slot_key src" "slot_value ?s1 = 0"
    | (d) "slot_value ?s0 \<noteq> 0" "slot_key ?s0 \<noteq> slot_key src" "slot_value ?s1 \<noteq> 0" "slot_key ?s1 = slot_key src"
    | (e) "slot_value ?s0 \<noteq> 0" "slot_key ?s0 \<noteq> slot_key src" "slot_value ?s1 \<noteq> 0" "slot_key ?s1 \<noteq> slot_key src"
    by blast
  then show ?case
  proof cases
    case a
    then show ?thesis using Suc.prems(2,3) at ok E(1) size by (auto simp: Let_def)
  next
    case b
    then show ?thesis using Suc.prems at by (auto simp: Let_def)
  next
    case c
    then show ?thesis using Suc.prems(2,3) at ok E(2) size by (auto simp: Let_def)
  next
    case d
    then show ?thesis using Suc.prems at by (auto simp: Let_def)
  next
    case e
    have "insert_try_loop n (set_slot c ?h0 src) ?s0 = Some (r, c', src')"
      using Suc.prems(3) at e by (simp add: Let_def)
    from Suc.IH [OF ok(1) e(1) this] show ?thesis using E(1) e(1) size by auto
  qed
qed

section \<open>The size of a grown table\<close>

lemma bit_len_pow: "0 < n \<Longrightarrow> 2 ^ (bit_len n - 1) \<le> n"
proof (induction n rule: less_induct)
  case (less n)
  show ?case
  proof (cases "n < 2")
    case True
    with less.prems have "n = 1" by simp
    then show ?thesis by (simp add: bit_len.simps)
  next
    case False
    then have "2 ^ (bit_len (n div 2) - 1) \<le> n div 2" using less by simp
    moreover have "bit_len (n div 2) = Suc (bit_len (n div 2) - 1)" using False by (simp add: bit_len.simps [of "n div 2"])
    ultimately have "2 ^ bit_len (n div 2) \<le> 2 * (n div 2)" by (metis mult_le_mono2 power_Suc)
    then show ?thesis using False by (simp add: bit_len.simps [of n])
  qed
qed

lemma round24_lower: "n * (2 ^ 23 - 1) \<le> round24 n * 2 ^ 23"
proof (cases "n = 0")
  case False
  let ?e = "bit_len n - 24"
  have e: "2 ^ ?e * 2 ^ 23 \<le> n \<or> ?e = 0"
  proof (cases "?e = 0")
    case False
    then have "bit_len n - 1 = ?e + 23" by simp
    then show ?thesis using bit_len_pow [of n] \<open>n \<noteq> 0\<close> by (metis neq0_conv power_add)
  qed simp
  have "n div 2 ^ ?e * 2 ^ ?e \<le> round24 n" by (auto simp: round24_def Let_def)
  moreover have "n div 2 ^ ?e * 2 ^ ?e + n mod 2 ^ ?e = n" by (rule div_mult_mod_eq)
  moreover have "n mod 2 ^ ?e * 2 ^ 23 \<le> n"
  proof (cases "?e = 0")
    case False
    have "n mod 2 ^ ?e \<le> 2 ^ ?e" by (simp add: less_imp_le)
    with e False show ?thesis by (meson le_trans mult_le_mono1)
  qed (simp only: power_0 mod_by_1)
  ultimately show ?thesis by simp
qed simp

lemma next_size_grows:
  assumes "8 \<le> n" shows "n < next_size n"
proof -
  let ?x = "round24 n" and ?y = "round24 (round24 n * 10066330)"
  have "n * 8388607 \<le> ?x * 8388608" using round24_lower [of n] by simp
  moreover have "?x * 10066330 * 8388607 \<le> ?y * 8388608" using round24_lower [of "?x * 10066330"] by simp
  moreover have "(n + 1) * 8388608 \<le> y" if "n * 8388607 \<le> x * 8388608" "x * 10066330 * 8388607 \<le> y * 8388608" for x y :: nat
  proof -
    have "x * 84442486302310 \<le> y * 8388608" using that(2) by simp
    moreover have "n * 8388607 * 84442486302310 \<le> x * 8388608 * 84442486302310" using that(1) by (rule mult_le_mono1)
    ultimately have "n * 708354831692961782170 \<le> y * 70368744177664" by simp
    then show ?thesis using assms by simp
  qed
  ultimately have "(n + 1) * 8388608 \<le> ?y" by blast
  then have "n + 1 \<le> ?y div 8388608" by (simp add: less_eq_div_iff_mult_less_eq)
  then show ?thesis by (simp add: next_size_def)
qed

lemma next_size_pos: "0 < n \<Longrightarrow> 0 < next_size n"
proof -
  assume "0 < n"
  let ?x = "round24 n" and ?y = "round24 (round24 n * 10066330)"
  have "n * 8388607 \<le> ?x * 8388608" using round24_lower [of n] by simp
  then have "0 < ?x" using \<open>0 < n\<close> by linarith
  moreover have "?x * 10066330 * 8388607 \<le> ?y * 8388608" using round24_lower [of "?x * 10066330"] by simp
  ultimately have "8388608 \<le> ?y" by linarith
  then show ?thesis by (simp add: next_size_def div_greater_zero_iff)
qed

section \<open>Insertion\<close>

lemma insert_try_total:
  assumes "cuckoo_ok c" and "slot_value src \<noteq> 0"
  shows "insert_try_loop n c src \<noteq> None"
  using assms
proof (induction n arbitrary: c src)
  case (Suc n)
  have sz: "0 < cuckoo_size c" using Suc.prems(1) by (simp add: cuckoo_ok_def)
  note h = hash_bounds [OF sz, of "slot_key src"]
  note ok = ok_set_slot [OF Suc.prems(1) h(1) Suc.prems(2) disjI1 [OF refl]]
  show ?case using Suc.IH [OF ok] slot_at_ok [OF Suc.prems(1)] h by (auto simp: Let_def)
qed simp

lemma empty_table:
  assumes "0 < n"
  shows "cuckoo_ok \<lparr>cuckoo_size = n, cuckoo_tab = replicate n null_slot\<rparr>"
    and "entries \<lparr>cuckoo_size = n, cuckoo_tab = replicate n null_slot\<rparr> = {#}"
  using assms by (auto simp: cuckoo_ok_def null_slot_def entries_def Let_def)

lemma rehash_spec:
  assumes "cuckoo_ok c"
  shows "\<exists>a c'. rehash_loop c ss = Some (a, c') \<and> cuckoo_ok c' \<and> cuckoo_size c' = cuckoo_size c \<and>
    (a \<longrightarrow> entries c' = entries c + filter_mset (\<lambda>s. slot_value s \<noteq> 0) (mset ss))"
  using assms
proof (induction ss arbitrary: c)
  case (Cons s ss)
  show ?case
  proof (cases "slot_value s = 0")
    case True
    then show ?thesis using Cons by simp
  next
    case False
    obtain r c1 s1 where t: "cuckoo_insert_try c s = Some (r, c1, s1)"
      using insert_try_total [OF Cons.prems False] unfolding cuckoo_insert_try_def by (metis not_None_eq prod_cases3)
    note sp = insert_try_spec [OF Cons.prems False t [unfolded cuckoo_insert_try_def]]
    show ?thesis
    proof (cases r)
      case None
      with sp Cons.IH [of c1] show ?thesis using t False by auto
    next
      case (Some e)
      with sp show ?thesis using t False by auto
    qed
  qed
qed auto

lemma grow_loop_spec:
  assumes "0 < cuckoo_size c" and "length oldtab = oldsize"
  shows "\<exists>r c'. grow_loop k ok c oldsize oldtab = Some (r, c') \<and>
    (r = None \<longrightarrow> cuckoo_ok c' \<and> entries c' = filter_mset (\<lambda>s. slot_value s \<noteq> 0) (mset oldtab)) \<and>
    (r \<noteq> None \<longrightarrow> cuckoo_tab c' = oldtab) \<and> (r = Some EINVAL \<longrightarrow> cuckoo_size c' = oldsize)"
  using assms(1)
proof (induction k arbitrary: c)
  case (Suc k)
  let ?n = "next_size (cuckoo_size c)"
  let ?e = "\<lparr>cuckoo_size = ?n, cuckoo_tab = replicate ?n null_slot\<rparr>"
  have n: "0 < ?n" by (rule next_size_pos [OF Suc.prems])
  from rehash_spec [OF empty_table(1) [OF n], of oldtab]
  obtain a c1 where t: "rehash_loop ?e oldtab = Some (a, c1)" and c1: "cuckoo_ok c1"
    and e: "a \<longrightarrow> entries c1 = entries ?e + filter_mset (\<lambda>s. slot_value s \<noteq> 0) (mset oldtab)" by blast
  have "0 < cuckoo_size c1" using c1 by (simp add: cuckoo_ok_def)
  from Suc.IH [OF this] show ?case
    using t c1 e assms(2) empty_table(2) [OF n] by (cases a; cases "ok (MAX_GROWS - Suc k)") (auto simp: Let_def)
qed simp

lemma grow_spec:
  assumes "cuckoo_ok c"
  shows "\<exists>r c'. cuckoo_grow ok c = Some (r, c') \<and> (r = None \<longrightarrow> cuckoo_ok c' \<and> entries c' = entries c) \<and>
    (r \<noteq> None \<longrightarrow> entries c' = entries c) \<and> (r = Some EINVAL \<longrightarrow> c' = c)"
proof -
  have "0 < cuckoo_size c" "length (cuckoo_tab c) = cuckoo_size c" using assms by (simp_all add: cuckoo_ok_def)
  from grow_loop_spec [OF this, of MAX_GROWS ok] this(2) show ?thesis
    by (auto simp: cuckoo_grow_def entries_def)
qed

lemma insert_loop_spec:
  assumes "cuckoo_ok c" and "slot_value src \<noteq> 0"
  shows "\<exists>r c'. insert_loop k ok c src = Some (r, c') \<and>
    (r = None \<longrightarrow> cuckoo_ok c' \<and> entries c' = add_mset src (entries c)) \<and>
    (r \<noteq> None \<longrightarrow> (\<exists>s. add_mset s (entries c') = add_mset src (entries c)))"
  using assms
proof (induction k arbitrary: c src)
  case (Suc k)
  obtain r c1 s1 where t: "cuckoo_insert_try c src = Some (r, c1, s1)"
    using insert_try_total [OF Suc.prems] unfolding cuckoo_insert_try_def by (metis not_None_eq prod_cases3)
  note sp = insert_try_spec [OF Suc.prems t [unfolded cuckoo_insert_try_def]]
  show ?case
  proof (cases "r = Some EAGAIN")
    case False
    then show ?thesis using t sp by (cases r) auto
  next
    case True
    obtain g c2 where g: "cuckoo_grow (ok (MAX_GROWS - Suc k)) c1 = Some (g, c2)"
      and ok: "g = None \<longrightarrow> cuckoo_ok c2" and e: "entries c2 = entries c1"
      using grow_spec [of c1 "ok (MAX_GROWS - Suc k)"] sp by (metis (full_types))
    have eq: "add_mset s1 (entries c2) = add_mset src (entries c)" using sp True e by simp
    show ?thesis
    proof (cases g)
      case None
      with ok have "cuckoo_ok c2" by simp
      moreover have "insert_loop (Suc k) ok c src = insert_loop k ok c2 s1" using t True g None by simp
      ultimately show ?thesis using Suc.IH [of c2 s1] sp eq by simp
    next
      case (Some x)
      then show ?thesis using t True g eq by auto
    qed
  qed
qed auto

section \<open>The table as a map\<close>

text \<open>What a client of a table of pointers relies on: the contents as a partial map to non-null
  values, and how the three operations read and change it. The first argument of \<open>ins\<close> says
  which allocations succeed.\<close>

locale kv_table =
  fixes inv :: "'c \<Rightarrow> bool" and view :: "'c \<Rightarrow> u64 \<Rightarrow> nat option" and get :: "'c \<Rightarrow> u64 \<Rightarrow> nat option"
    and rem :: "'c \<Rightarrow> u64 \<Rightarrow> (nat \<times> 'c) option"
    and ins :: "'a \<Rightarrow> 'c \<Rightarrow> u64 \<Rightarrow> nat \<Rightarrow> (errno option \<times> 'c) option"
  assumes view_nonnull: "inv c \<Longrightarrow> view c k \<noteq> Some 0"
    and get_law: "inv c \<Longrightarrow> get c k = Some (case view c k of None \<Rightarrow> 0 | Some v \<Rightarrow> v)"
    and rem_law: "inv c \<Longrightarrow> \<exists>c'. rem c k = Some (case view c k of None \<Rightarrow> 0 | Some v \<Rightarrow> v, c') \<and> inv c' \<and> view c' = (view c)(k := None)"
    and ins_law: "inv c \<Longrightarrow> v \<noteq> 0 \<Longrightarrow> view c k = None \<Longrightarrow>
      \<exists>r c'. ins ok c k v = Some (r, c') \<and> (r = None \<longrightarrow> inv c' \<and> view c' = (view c)(k \<mapsto> v))"
begin

lemma absent: "inv c \<Longrightarrow> get c k = Some 0 \<longleftrightarrow> view c k = None"
  using view_nonnull [of c k] by (auto simp: get_law split: option.splits)

lemma ins_get:
  assumes "inv c" "v \<noteq> 0" "get c k = Some 0" "ins ok c k v = Some (None, c')"
  shows "inv c' \<and> get c' k' = (if k' = k then Some v else get c k')"
  using ins_law [of c v k ok] assms absent [of c k] by (auto simp: get_law)

lemma rem_get:
  assumes "inv c" "rem c k = Some (v, c')"
  shows "inv c' \<and> get c k = Some v \<and> get c' k' = (if k' = k then Some 0 else get c k')"
  using rem_law [of c k] assms by (auto simp: get_law)

lemma ins_rem:
  assumes "inv c" "v \<noteq> 0" "get c k = Some 0" "ins ok c k v = Some (None, c')"
  shows "\<exists>c''. rem c' k = Some (v, c'') \<and> (\<forall>k'. get c'' k' = get c k')"
proof -
  have i: "inv c'" "get c' k = Some v" using ins_get [OF assms, of k] by auto
  then obtain w c'' where r: "rem c' k = Some (w, c'')" using rem_law by blast
  have "w = v" using rem_get [OF i(1) r] i(2) by simp
  moreover have "get c'' k' = get c k'" for k'
    using rem_get [OF i(1) r, of k'] ins_get [OF assms, of k'] assms(3) by (simp split: if_splits)
  ultimately show ?thesis using r by blast
qed

end

definition cuckoo_inv :: "cuckoo \<Rightarrow> bool" where
  "cuckoo_inv c \<longleftrightarrow> cuckoo_ok c \<and> unique_keys (entries c)"

definition cuckoo_view :: "cuckoo \<Rightarrow> u64 \<Rightarrow> nat option" where
  "cuckoo_view c = map_of (map (\<lambda>s. (slot_key s, slot_value s)) (filter (\<lambda>s. slot_value s \<noteq> 0) (cuckoo_tab c)))"

lemma unique_keys_distinct:
  "unique_keys (entries c) \<longleftrightarrow> distinct (map slot_key (filter (\<lambda>s. slot_value s \<noteq> 0) (cuckoo_tab c)))" (is "_ = distinct ?l")
proof -
  have e: "keys_of (entries c) = mset ?l" by (simp add: keys_of_def entries_def)
  show ?thesis unfolding unique_keys_def e
    by (metis count_mset_0_iff distinct_count_atmost_1 le_zero_eq less_one nat_less_le not_less_eq_eq One_nat_def order_refl)
qed

lemma view_iff:
  assumes "unique_keys (entries c)"
  shows "cuckoo_view c k = Some v \<longleftrightarrow> \<lparr>slot_key = k, slot_value = v\<rparr> \<in># entries c"
proof -
  let ?l = "filter (\<lambda>s. slot_value s \<noteq> 0) (cuckoo_tab c)"
  have "distinct (map fst (map (\<lambda>s. (slot_key s, slot_value s)) ?l))"
    using assms by (simp add: unique_keys_distinct o_def)
  then have "cuckoo_view c k = Some v \<longleftrightarrow> (k, v) \<in> set (map (\<lambda>s. (slot_key s, slot_value s)) ?l)"
    unfolding cuckoo_view_def by (rule map_of_eq_Some_iff)
  also have "\<dots> \<longleftrightarrow> \<lparr>slot_key = k, slot_value = v\<rparr> \<in># entries c"
  proof
    assume "(k, v) \<in> set (map (\<lambda>s. (slot_key s, slot_value s)) ?l)"
    then obtain s where "s \<in># entries c" "slot_key s = k" "slot_value s = v" by (auto simp: entries_def)
    then show "\<lparr>slot_key = k, slot_value = v\<rparr> \<in># entries c" by (cases s) auto
  next
    assume "\<lparr>slot_key = k, slot_value = v\<rparr> \<in># entries c"
    then have "\<lparr>slot_key = k, slot_value = v\<rparr> \<in> set ?l" by (simp add: entries_def)
    then show "(k, v) \<in> set (map (\<lambda>s. (slot_key s, slot_value s)) ?l)" by force
  qed
  finally show ?thesis .
qed

lemma unique_same:
  assumes "unique_keys E" "s \<in># E" "t \<in># E" "slot_key s = slot_key t" shows "s = t"
proof (rule ccontr)
  assume "s \<noteq> t"
  then obtain F where "E = add_mset s (add_mset t F)" using assms(2,3) by (metis add_mset_remove_trivial_If insert_DiffM insert_noteq_member)
  then have "count (keys_of E) (slot_key t) \<ge> 2" using assms(4) by (simp add: keys_of_def)
  then show False using assms(1) by (metis Suc_1 not_less_eq_eq unique_keys_def)
qed

lemma unique_add_iff:
  "unique_keys (add_mset t E) \<longleftrightarrow> unique_keys E \<and> (\<forall>s. s \<in># E \<longrightarrow> slot_key s \<noteq> slot_key t)"
proof -
  let ?k = "slot_key t"
  have c: "count (keys_of (add_mset t E)) k = (if k = ?k then Suc (count (keys_of E) k) else count (keys_of E) k)" for k
    by (simp add: keys_of_def)
  have "count (keys_of E) ?k = 0 \<longleftrightarrow> (\<forall>s. s \<in># E \<longrightarrow> slot_key s \<noteq> ?k)"
    by (auto simp: keys_of_def count_eq_zero_iff image_iff)
  then show ?thesis unfolding unique_keys_def c by (auto split: if_splits)
qed

lemma option_eqI: "(\<And>w. x = Some w \<longleftrightarrow> y = Some w) \<Longrightarrow> x = y"
  by (cases x; cases y) auto

lemma slot_in_entries:
  "cuckoo_ok c \<Longrightarrow> i < cuckoo_size c \<Longrightarrow> slot_value (cuckoo_tab c ! i) \<noteq> 0 \<Longrightarrow> cuckoo_tab c ! i \<in># entries c"
  by (simp add: entries_def cuckoo_ok_def)

lemma hash_zero: "hash_mod c 0 = 0" "hash_mixer c 0 = 0"
  by (simp_all add: hash_mod_def hash_mixer_def)

text \<open>A slot found by its key either holds the element with that key or is an empty slot, found
  for key 0.\<close>

lemma find_slot_spec:
  assumes "cuckoo_inv c"
  shows "\<exists>r. cuckoo_find_slot c k = Some r \<and>
    (case cuckoo_view c k of
       Some v \<Rightarrow> \<exists>i < cuckoo_size c. r = Some i \<and> cuckoo_tab c ! i = \<lparr>slot_key = k, slot_value = v\<rparr>
     | None \<Rightarrow> r = None \<or> (\<exists>i < cuckoo_size c. r = Some i \<and> cuckoo_tab c ! i = null_slot))"
proof -
  let ?h0 = "hash_mod c k" and ?h1 = "hash_mixer c k"
  have ok: "cuckoo_ok c" and u: "unique_keys (entries c)" using assms by (auto simp: cuckoo_inv_def)
  then have sz: "0 < cuckoo_size c" by (simp add: cuckoo_ok_def)
  note h = hash_bounds [OF sz, of k]
  have slot: "cuckoo_tab c ! i = null_slot \<and> k = 0 \<or> cuckoo_view c k = Some (slot_value (cuckoo_tab c ! i))"
    if i: "i < cuckoo_size c" "slot_key (cuckoo_tab c ! i) = k" for i
  proof (cases "slot_value (cuckoo_tab c ! i) = 0")
    case True
    then show ?thesis using ok i by (auto simp: cuckoo_ok_def null_slot_def Let_def intro!: cuckoo_slot.equality)
  next
    case False
    have "cuckoo_tab c ! i = \<lparr>slot_key = k, slot_value = slot_value (cuckoo_tab c ! i)\<rparr>" using i(2) by (simp add: cuckoo_slot.equality)
    then show ?thesis using slot_in_entries [OF ok i(1) False] view_iff [OF u] by simp
  qed
  have pos: "\<exists>i. (i = ?h0 \<or> i = ?h1) \<and> cuckoo_tab c ! i = \<lparr>slot_key = k, slot_value = v\<rparr> \<and> v \<noteq> 0" if "cuckoo_view c k = Some v" for v
  proof -
    let ?s = "\<lparr>slot_key = k, slot_value = v\<rparr>"
    have "?s \<in># entries c" using that view_iff [OF u] by simp
    then have v: "v \<noteq> 0" and "?s \<in> set (cuckoo_tab c)" by (auto simp: entries_def)
    then obtain i where i: "i < cuckoo_size c" "cuckoo_tab c ! i = ?s"
      using ok unfolding cuckoo_ok_def by (metis in_set_conv_nth)
    then show ?thesis using ok v unfolding cuckoo_ok_def Let_def by (metis cuckoo_slot.select_convs)
  qed
  let ?s0 = "cuckoo_tab c ! ?h0" and ?s1 = "cuckoo_tab c ! ?h1"
  have at: "slot_at c ?h0 = Some ?s0" "slot_at c ?h1 = Some ?s1" using slot_at_ok [OF ok] h by auto
  have k0: "?h0 = ?h1" if "k = 0" using that by (simp add: hash_zero)
  have full: "s = \<lparr>slot_key = k, slot_value = v\<rparr>" if "slot_key s = k" "slot_value s = v" for s v
    using that by (simp add: cuckoo_slot.equality)
  show ?thesis
  proof (cases "cuckoo_view c k")
    case None
    then show ?thesis using slot [OF h(1)] slot [OF h(2)] at h by (auto simp: cuckoo_find_slot_def)
  next
    case (Some v)
    from pos [OF Some] obtain i where i: "i = ?h0 \<or> i = ?h1" "cuckoo_tab c ! i = \<lparr>slot_key = k, slot_value = v\<rparr>" "v \<noteq> 0" by blast
    have "slot_key ?s0 = k \<Longrightarrow> slot_value ?s0 = v"
      using slot [OF h(1)] Some k0 i by (auto simp: null_slot_def)
    then show ?thesis using Some at h i full by (auto simp: cuckoo_find_slot_def)
  qed
qed

lemma cuckoo_get_spec: "cuckoo_inv c \<Longrightarrow> cuckoo_get c k = Some (case cuckoo_view c k of None \<Rightarrow> 0 | Some v \<Rightarrow> v)"
  using find_slot_spec [of c k] slot_at_ok [of c]
  by (auto simp: cuckoo_get_def cuckoo_inv_def null_slot_def split: option.splits)

lemma cuckoo_remove_spec:
  assumes "cuckoo_inv c"
  shows "\<exists>c'. cuckoo_remove c k = Some (case cuckoo_view c k of None \<Rightarrow> 0 | Some v \<Rightarrow> v, c') \<and>
    cuckoo_inv c' \<and> cuckoo_view c' = (cuckoo_view c)(k := None)"
proof -
  have ok: "cuckoo_ok c" and u: "unique_keys (entries c)" using assms by (auto simp: cuckoo_inv_def)
  obtain r where r: "cuckoo_find_slot c k = Some r" and s: "case cuckoo_view c k of
       Some v \<Rightarrow> \<exists>i < cuckoo_size c. r = Some i \<and> cuckoo_tab c ! i = \<lparr>slot_key = k, slot_value = v\<rparr>
     | None \<Rightarrow> r = None \<or> (\<exists>i < cuckoo_size c. r = Some i \<and> cuckoo_tab c ! i = null_slot)"
    using find_slot_spec [OF assms] by blast
  show ?thesis
  proof (cases "cuckoo_view c k")
    case None
    have "set_slot c i null_slot = c" if "cuckoo_tab c ! i = null_slot" for i
      using that by (metis cuckoo.surjective cuckoo.update_convs(2) list_update_id set_slot_def unit.exhaust)
    then show ?thesis using None r s assms slot_at_ok [OF ok]
      by (auto simp: cuckoo_remove_def null_slot_def fun_upd_idem)
  next
    case (Some v)
    then obtain i where i: "i < cuckoo_size c" "r = Some i" and si: "cuckoo_tab c ! i = \<lparr>slot_key = k, slot_value = v\<rparr>" using s by auto
    let ?c = "set_slot c i null_slot" and ?s = "\<lparr>slot_key = k, slot_value = v\<rparr>"
    have v: "v \<noteq> 0" using Some u view_iff by (auto simp: entries_def)
    have len: "i < length (cuckoo_tab c)" using i ok by (simp add: cuckoo_ok_def)
    then obtain M where M: "mset (cuckoo_tab c) = add_mset ?s M" by (metis multi_member_split nth_mem_mset si)
    have e: "entries c = add_mset ?s (entries ?c)"
      using M v mset_update [OF len, of null_slot] si by (simp add: entries_def set_slot_def null_slot_def)
    have okc: "cuckoo_ok ?c" using ok len unfolding cuckoo_ok_def Let_def
      by (auto simp: set_slot_def nth_list_update null_slot_def hash_mod_def hash_mixer_def Let_def)
    have uc: "unique_keys (entries ?c)" using u unfolding e by (simp add: unique_add_iff)
    have n: "t \<in># entries ?c \<Longrightarrow> slot_key t \<noteq> k" for t
      using u unfolding e by (auto simp: unique_add_iff)
    have "cuckoo_view ?c k' = ((cuckoo_view c)(k := None)) k'" for k'
    proof (rule option_eqI)
      fix w
      show "cuckoo_view ?c k' = Some w \<longleftrightarrow> ((cuckoo_view c)(k := None)) k' = Some w"
        using n [of "\<lparr>slot_key = k, slot_value = w\<rparr>"] view_iff [OF uc, of k' w] view_iff [OF u, of k' w] e by auto
    qed
    then show ?thesis using Some r i si okc uc slot_at_ok [OF ok i(1)] by (auto simp: cuckoo_remove_def cuckoo_inv_def)
  qed
qed

lemma cuckoo_insert_spec:
  assumes "cuckoo_inv c" and "v \<noteq> 0" and "cuckoo_view c k = None"
  shows "\<exists>r c'. cuckoo_insert ok c k v = Some (r, c') \<and>
    (r = None \<longrightarrow> cuckoo_inv c' \<and> cuckoo_view c' = (cuckoo_view c)(k \<mapsto> v))"
proof -
  let ?s = "\<lparr>slot_key = k, slot_value = v\<rparr>"
  have okc: "cuckoo_ok c" and u: "unique_keys (entries c)" using assms by (auto simp: cuckoo_inv_def)
  from insert_loop_spec [OF okc, of ?s MAX_GROWS ok] obtain r c' where
    r: "cuckoo_insert ok c k v = Some (r, c')" and c': "r = None \<Longrightarrow> cuckoo_ok c' \<and> entries c' = add_mset ?s (entries c)"
    using assms(2) by (auto simp: cuckoo_insert_def)
  have "s \<in># entries c \<Longrightarrow> slot_key s \<noteq> k" for s
    using assms(3) view_iff [OF u, of k "slot_value s"] by (cases s) auto
  then have u': "unique_keys (add_mset ?s (entries c))" using u by (simp add: unique_add_iff)
  have "cuckoo_view c' k' = ((cuckoo_view c)(k \<mapsto> v)) k'" if e: "entries c' = add_mset ?s (entries c)" for k'
  proof (rule option_eqI)
    fix w
    have "cuckoo_view c' k' = Some w \<longleftrightarrow> \<lparr>slot_key = k', slot_value = w\<rparr> \<in># add_mset ?s (entries c)"
      using view_iff [of c'] u' e by simp
    then show "cuckoo_view c' k' = Some w \<longleftrightarrow> ((cuckoo_view c)(k \<mapsto> v)) k' = Some w"
      using view_iff [OF u, of k' w] assms(3) by auto
  qed
  then show ?thesis using r c' u' by (auto simp: cuckoo_inv_def)
qed

interpretation ck: kv_table cuckoo_inv cuckoo_view cuckoo_get cuckoo_remove cuckoo_insert
proof unfold_locales
  show "cuckoo_view c k \<noteq> Some 0" if "cuckoo_inv c" for c k
    using that view_iff [of c k 0] by (auto simp: cuckoo_inv_def entries_def)
qed (blast intro: cuckoo_get_spec cuckoo_remove_spec cuckoo_insert_spec)+

lemma cuckoo_new_spec: "cuckoo_new a b = Some c \<Longrightarrow> cuckoo_inv c \<and> cuckoo_view c = Map.empty"
proof -
  assume "cuckoo_new a b = Some c"
  then have c: "c = \<lparr>cuckoo_size = INITIAL_SIZE, cuckoo_tab = replicate INITIAL_SIZE null_slot\<rparr>"
    by (simp add: cuckoo_new_def split: if_splits)
  moreover have "0 < INITIAL_SIZE" by (simp add: INITIAL_SIZE_def)
  ultimately have e: "cuckoo_ok c" "entries c = {#}" using empty_table by auto
  then have u: "cuckoo_inv c" by (simp add: cuckoo_inv_def unique_keys_def keys_of_def)
  have "cuckoo_view c k = None" for k using view_iff [of c k] u e(2) by (auto simp: cuckoo_inv_def intro: option_eqI)
  then show ?thesis using u by auto
qed

section \<open>Properties\<close>

text \<open>C29. The hash table is a map from keys to non-null pointers: inserting an absent key, whether or
  not the table had to be grown and rehashed, makes \<open>cuckoo_get\<close> return the new value for that key
  and leaves every other key as it was; removing the key again returns its value and brings back
  what every key had before. The insertion never reads or writes outside the array.\<close>

theorem cuckoo_insert_get_remove:
  assumes "cuckoo_inv c" and "v \<noteq> 0" and "cuckoo_get c k = Some 0"
  shows "\<exists>r c'. cuckoo_insert ok c k v = Some (r, c') \<and>
    (r = None \<longrightarrow> cuckoo_inv c' \<and> (\<forall>k'. cuckoo_get c' k' = (if k' = k then Some v else cuckoo_get c k')) \<and>
      (\<exists>c''. cuckoo_remove c' k = Some (v, c'') \<and> cuckoo_inv c'' \<and> (\<forall>k'. cuckoo_get c'' k' = cuckoo_get c k')))"
proof -
  obtain r c' where r: "cuckoo_insert ok c k v = Some (r, c')"
    using ck.ins_law [OF assms(1,2)] ck.absent [OF assms(1)] assms(3) by blast
  show ?thesis
  proof (cases r)
    case None
    note i = ck.ins_get [OF assms r [unfolded None]] and q = ck.ins_rem [OF assms r [unfolded None]]
    then show ?thesis using r ck.rem_get by blast
  qed (use r in auto)
qed

lemma slot_map_upd [simp]: "slot_at \<lparr>cuckoo_size = n, cuckoo_tab = t\<rparr> i = (if i < length t then Some (t ! i) else None)"
  "set_slot \<lparr>cuckoo_size = n, cuckoo_tab = t\<rparr> i s = \<lparr>cuckoo_size = n, cuckoo_tab = t[i := s]\<rparr>"
  by (simp_all add: slot_at_def set_slot_def)

lemma insert_try_numeral:
  "insert_try_loop (numeral n) c src =
     (let h0 = hash_mod c (slot_key src); h1 = hash_mixer c (slot_key src)
      in do { s0 \<leftarrow> slot_at c h0;
              if slot_value s0 = 0 then Some (None, set_slot c h0 src, src)
              else if slot_key s0 = slot_key src then Some (Some EINVAL, c, src)
              else do { s1 \<leftarrow> slot_at c h1;
                        if slot_value s1 = 0 then Some (None, set_slot c h1 src, src)
                        else if slot_key s1 = slot_key src then Some (Some EINVAL, c, src)
                        else insert_try_loop (pred_numeral n) (set_slot c h0 src) s0 } })"
  by (simp add: numeral_eq_Suc)

lemma grow_numeral:
  "grow_loop (numeral n) ok c oldsize oldtab =
     (let nsize = next_size (cuckoo_size c)
      in if \<not> ok (MAX_GROWS - numeral n) then Some (Some ENOMEM, c\<lparr>cuckoo_tab := oldtab\<rparr>)
         else do { (all, c') \<leftarrow> rehash_loop \<lparr>cuckoo_size = nsize, cuckoo_tab = replicate nsize null_slot\<rparr>
                                  (take oldsize oldtab);
                   if all then Some (None, c') else grow_loop (pred_numeral n) ok c' oldsize oldtab })"
  by (simp add: numeral_eq_Suc)

lemma insert_numeral:
  "insert_loop (numeral n) ok c src =
     do { (err, c, src) \<leftarrow> cuckoo_insert_try c src;
          if err \<noteq> Some EAGAIN then Some (err, c)
          else do { (err, c) \<leftarrow> cuckoo_grow (ok (MAX_GROWS - numeral n)) c;
                    if err \<noteq> None then Some (err, c) else insert_loop (pred_numeral n) ok c src } }"
  unfolding numeral_eq_Suc by simp

lemmas first_round = MAX_GROWS_def MAX_INSERTS_def insert_try_numeral insert_numeral grow_numeral

definition example_table :: "u64 list \<Rightarrow> cuckoo" where
  "example_table ks = \<lparr>cuckoo_size = 8,
     cuckoo_tab = map (\<lambda>k. if k = 0 then null_slot else \<lparr>slot_key = k, slot_value = 1\<rparr>) ks\<rparr>"

lemma cuckoo_ok_list:
  "cuckoo_ok c \<longleftrightarrow> 0 < cuckoo_size c \<and> length (cuckoo_tab c) = cuckoo_size c \<and>
     list_all (\<lambda>(i, s). (slot_value s = 0 \<longrightarrow> slot_key s = 0) \<and>
        (slot_value s \<noteq> 0 \<longrightarrow> i = hash_mod c (slot_key s) \<or> i = hash_mixer c (slot_key s))) (enumerate 0 (cuckoo_tab c))"
  by (auto simp: cuckoo_ok_def Let_def list_all_length nth_enumerate_eq)

lemmas example_eval = example_table_def null_slot_def hash_mod_def hash_mixer_def Let_def

lemma example_inv: "cuckoo_inv (example_table [0, 0, 0, 0, 0, 13, 0, 0])"
  by (simp add: cuckoo_inv_def cuckoo_ok_list unique_keys_distinct example_eval)

theorem cuckoo_insert_get_remove_witness:
  "\<exists>r c'. cuckoo_insert (\<lambda>_ _. True) (example_table [0, 0, 0, 0, 0, 13, 0, 0]) 5 7 = Some (r, c') \<and>
    (r = None \<longrightarrow> cuckoo_get c' 5 = Some 7 \<and> cuckoo_get c' 13 = Some 1)"
proof -
  have g: "cuckoo_get (example_table [0, 0, 0, 0, 0, 13, 0, 0]) 5 = Some 0"
    "cuckoo_get (example_table [0, 0, 0, 0, 0, 13, 0, 0]) 13 = Some 1"
    by (simp_all only: cuckoo_get_spec [OF example_inv]) (simp_all add: cuckoo_view_def example_eval)
  show ?thesis using cuckoo_insert_get_remove [OF example_inv, of 7 5 "\<lambda>_ _. True"] g by fastforce
qed

text \<open>A key can be stored twice: when it sits at its second position and its first position has become
  free, \<open>cuckoo_insert\<close> takes the free slot and reports success, although the key is already present
  and the function otherwise answers \<open>EINVAL\<close> for a present key. \<open>cuckoo_get\<close> then sees the new value,
  and removing the key uncovers the old one.\<close>

lemma cuckoo_duplicate_key:
  assumes "cuckoo_ok c" and "v \<noteq> 0" and "cuckoo_get c k = Some w" and "w \<noteq> 0"
    and "slot_value (cuckoo_tab c ! hash_mod c k) = 0" and "k \<noteq> 0"
  shows "\<exists>c'. cuckoo_insert ok c k v = Some (None, c') \<and> cuckoo_get c' k = Some v \<and>
    count (keys_of (entries c')) k = Suc (count (keys_of (entries c)) k) \<and>
    cuckoo_remove c' k = Some (v, c)"
proof -
  let ?h = "hash_mod c k" and ?s = "\<lparr>slot_key = k, slot_value = v\<rparr>"
  have h: "?h < cuckoo_size c" and len: "length (cuckoo_tab c) = cuckoo_size c"
    using assms(1) hash_bounds(1) by (auto simp: cuckoo_ok_def)
  let ?c = "set_slot c ?h ?s"
  have null: "cuckoo_tab c ! ?h = null_slot"
    using assms(1,5) h by (auto simp: cuckoo_ok_def null_slot_def Let_def intro!: cuckoo_slot.equality)
  have i: "cuckoo_insert ok c k v = Some (None, ?c)"
    using slot_at_ok [OF assms(1) h] assms(5)
    by (simp add: cuckoo_insert_def first_round cuckoo_insert_try_def Let_def)
  have f: "cuckoo_find_slot ?c k = Some (Some ?h)" "slot_at ?c ?h = Some ?s"
    using h len by (simp_all add: cuckoo_find_slot_def slot_at_def) (simp_all add: set_slot_def)
  have "set_slot ?c ?h null_slot = c" using list_update_id [of "cuckoo_tab c" ?h] null by (simp add: set_slot_def)
  moreover have "entries ?c = add_mset ?s (entries c)"
    using entries_set_slot [of ?h c ?s] h len assms(2,5) by simp
  ultimately show ?thesis using i f by (simp add: cuckoo_get_def cuckoo_remove_def keys_of_def)
qed

text \<open>An insertion that reports an error can still have changed the table: when no free slot was found
  in eight rounds and the table cannot be grown for lack of memory, the error is returned with the
  new element possibly stored and another one, the last to be evicted, dropped.\<close>

lemma cuckoo_failed_insert:
  assumes "cuckoo_ok c" and "v \<noteq> 0" and "\<not> ok 0 0"
    and "cuckoo_insert_try c \<lparr>slot_key = k, slot_value = v\<rparr> = Some (Some EAGAIN, c1, out)"
  shows "cuckoo_insert ok c k v = Some (Some ENOMEM, c1) \<and>
    add_mset out (entries c1) = add_mset \<lparr>slot_key = k, slot_value = v\<rparr> (entries c)"
proof -
  have sp: "cuckoo_ok c1" "add_mset out (entries c1) = add_mset \<lparr>slot_key = k, slot_value = v\<rparr> (entries c)"
    using insert_try_spec [OF assms(1) _ assms(4) [unfolded cuckoo_insert_try_def]] assms(2) by auto
  have "cuckoo_grow (ok 0) c1 = Some (Some ENOMEM, c1)"
    using sp(1) assms(3) by (simp add: cuckoo_grow_def cuckoo_ok_def first_round)
  then show ?thesis using assms(4) sp(2) by (simp add: cuckoo_insert_def first_round)
qed

text \<open>A failed allocation in a later attempt to grow leaves the table inconsistent: the enlarged size
  of the first attempt is kept together with the old array, so later operations index past its
  end.\<close>

lemma cuckoo_grow_size_mismatch:
  assumes "cuckoo_ok c" and "8 \<le> cuckoo_size c" and "ok 0" and "\<not> ok 1"
    and "rehash_loop \<lparr>cuckoo_size = next_size (cuckoo_size c), cuckoo_tab = replicate (next_size (cuckoo_size c)) null_slot\<rparr>
          (cuckoo_tab c) = Some (False, c1)"
  shows "\<exists>c'. cuckoo_grow ok c = Some (Some ENOMEM, c') \<and> cuckoo_tab c' = cuckoo_tab c \<and>
    cuckoo_size c' = next_size (cuckoo_size c) \<and> length (cuckoo_tab c') < cuckoo_size c'"
proof -
  let ?n = "next_size (cuckoo_size c)"
  let ?e = "\<lparr>cuckoo_size = ?n, cuckoo_tab = replicate ?n null_slot\<rparr>"
  have g: "cuckoo_size c < ?n" by (rule next_size_grows [OF assms(2)])
  then have "cuckoo_size c1 = ?n"
    using rehash_spec [OF empty_table(1), of ?n "cuckoo_tab c"] assms(5) by (auto simp del: replicate.simps)
  then show ?thesis using assms g
    by (simp add: cuckoo_grow_def cuckoo_ok_def first_round Let_def)
qed

lemma next_size_8: "next_size 8 = 9"
  by (simp add: next_size_def round24_def Let_def bit_len.simps)

lemma rep9: "replicate 9 x = [x, x, x, x, x, x, x, x, x]"
  by (simp add: numeral_eq_Suc)

end
