(* ===== verification/Lane.thy ===== *)
theory Lane
  imports Plist Cuckoo
begin

text \<open>
  The lanes of an object pool (\<^verbatim>\<open>libpmemobj/lane.c\<close>): the three logs that each lane has in the pool, their
  construction and recovery, the operation contexts of the lanes, and the assignment of lanes to
  threads. Thread-local data is a record with an explicit store of \<open>struct lane_info\<close> objects, whose
  addresses are the values of the thread's hash table; the null pointer is 0. The answers of the
  memory allocator, the functions of the persistent allocator that extend and free logs, and the boot
  of the heap are arguments. \<open>None\<close> is a call that does not return or a \<open>FATAL\<close> error.
\<close>

section \<open>Layout\<close>

definition LANE_UNDO_SIZE :: u64 where "LANE_UNDO_SIZE = 2048"
definition LANE_REDO_EXTERNAL_SIZE :: u64 where "LANE_REDO_EXTERNAL_SIZE = 640"
definition LANE_REDO_INTERNAL_SIZE :: u64 where "LANE_REDO_INTERNAL_SIZE = 192"
definition SIZEOF_LANE_LAYOUT :: u64 where "SIZEOF_LANE_LAYOUT = 3072"

definition lane_internal_p :: "addr \<Rightarrow> addr" where "lane_internal_p layout = layout"
definition lane_external_p :: "addr \<Rightarrow> addr" where "lane_external_p layout = layout + 256"
definition lane_undo_p :: "addr \<Rightarrow> addr" where "lane_undo_p layout = layout + 960"

definition lane_get_layout :: "PMEMobjpool \<Rightarrow> u64 \<Rightarrow> addr" where
  "lane_get_layout pop lane_idx =
     pop_addr pop + unat (lanes_offset (pop_layout pop) + SIZEOF_LANE_LAYOUT * lane_idx)"

definition OBJ_PTR_TO_OFF :: "PMEMobjpool \<Rightarrow> addr \<Rightarrow> u64" where
  "OBJ_PTR_TO_OFF pop p = of_nat p - of_nat (pop_addr pop)"

section \<open>Construction\<close>

fun init_data_loop :: "PMEMobjpool \<Rightarrow> nat list \<Rightarrow> mem \<Rightarrow> mem option" where
  "init_data_loop pop [] m = Some m"
| "init_data_loop pop (i # is) m =
     (let layout = lane_get_layout pop (of_nat i); b = pop_addr pop
      in do { m \<leftarrow> ulog_construct m (OBJ_PTR_TO_OFF pop (lane_internal_p layout)) LANE_REDO_INTERNAL_SIZE b;
              m \<leftarrow> ulog_construct m (OBJ_PTR_TO_OFF pop (lane_external_p layout)) LANE_REDO_EXTERNAL_SIZE b;
              m \<leftarrow> ulog_construct m (OBJ_PTR_TO_OFF pop (lane_undo_p layout)) LANE_UNDO_SIZE b;
              init_data_loop pop is m })"

definition lane_init_data :: "PMEMobjpool \<Rightarrow> mem \<Rightarrow> mem option" where
  "lane_init_data pop m = init_data_loop pop [0..<unat (nlanes (pop_layout pop))] m"

text \<open>The constructor of a log extension, and the two functions that allocate one with the given
  \<open>pmalloc_construct\<close>.\<close>

definition lane_ulog_constructor :: "PMEMobjpool \<Rightarrow> mem \<Rightarrow> addr \<Rightarrow> u64 \<Rightarrow> mem option" where
  "lane_ulog_constructor pop m p usable_size =
     ulog_construct m (OBJ_PTR_TO_OFF pop p) (ALIGN_DOWN (usable_size - 64) CACHELINE_SIZE) (pop_addr pop)"

definition SIZEOF_ALIGNED_ULOG :: "u64 \<Rightarrow> u64" where
  "SIZEOF_ALIGNED_ULOG base_capacity = 64 + base_capacity + CACHELINE_SIZE"

type_synonym pmalloc_construct = "u64 \<Rightarrow> (mem \<Rightarrow> addr \<Rightarrow> u64 \<Rightarrow> mem option) \<Rightarrow> extend_fn"

definition lane_undo_extend :: "pmalloc_construct \<Rightarrow> PMEMobjpool \<Rightarrow> u64 \<Rightarrow> extend_fn" where
  "lane_undo_extend pmc pop cache_size = pmc (SIZEOF_ALIGNED_ULOG cache_size) (lane_ulog_constructor pop)"

definition lane_redo_extend :: "pmalloc_construct \<Rightarrow> PMEMobjpool \<Rightarrow> extend_fn" where
  "lane_redo_extend pmc pop = pmc (SIZEOF_ALIGNED_ULOG LANE_REDO_EXTERNAL_SIZE) (lane_ulog_constructor pop)"

section \<open>Contexts\<close>

record lane =
  lane_layout :: addr
  lane_internal :: operation_context
  lane_external :: operation_context
  lane_undo :: operation_context

text \<open>The persistent allocator, the size of the transaction cache, and the answers of the volatile
  allocator to the calls of \<open>operation_new\<close>, for the context and its two logs.\<close>

record lane_env =
  ln_pmalloc_construct :: pmalloc_construct
  ln_pfree :: free_fn
  ln_cache_size :: u64
  ln_new :: "nat \<Rightarrow> bool \<times> addr option \<times> addr option"

definition new_internal :: "lane_env \<Rightarrow> nat \<Rightarrow> PMEMobjpool \<Rightarrow> addr \<Rightarrow> mem \<Rightarrow> (operation_context option \<times> mem) option" where
  "new_internal env k pop layout m =
     (case ln_new env k of (ok, ta, pa) \<Rightarrow>
        operation_new ok ta pa (lane_internal_p layout) LANE_REDO_INTERNAL_SIZE None (\<lambda>m p. m) (pop_addr pop) LOG_TYPE_REDO m)"

definition new_external :: "lane_env \<Rightarrow> nat \<Rightarrow> PMEMobjpool \<Rightarrow> addr \<Rightarrow> mem \<Rightarrow> (operation_context option \<times> mem) option" where
  "new_external env k pop layout m =
     (case ln_new env k of (ok, ta, pa) \<Rightarrow>
        operation_new ok ta pa (lane_external_p layout) LANE_REDO_EXTERNAL_SIZE
          (Some (lane_redo_extend (ln_pmalloc_construct env) pop)) (ln_pfree env) (pop_addr pop) LOG_TYPE_REDO m)"

definition new_undo :: "lane_env \<Rightarrow> nat \<Rightarrow> PMEMobjpool \<Rightarrow> addr \<Rightarrow> mem \<Rightarrow> (operation_context option \<times> mem) option" where
  "new_undo env k pop layout m =
     (case ln_new env k of (ok, ta, pa) \<Rightarrow>
        operation_new ok ta pa (lane_undo_p layout) LANE_UNDO_SIZE
          (Some (lane_undo_extend (ln_pmalloc_construct env) pop (ln_cache_size env))) (ln_pfree env) (pop_addr pop) LOG_TYPE_UNDO m)"

text \<open>\<open>lane_init\<close>: the lane, or \<open>None\<close> for the result -1. Deleting a context only frees volatile memory.\<close>

definition lane_init :: "lane_env \<Rightarrow> nat \<Rightarrow> PMEMobjpool \<Rightarrow> addr \<Rightarrow> mem \<Rightarrow> (lane option \<times> mem) option" where
  "lane_init env k pop layout m =
     do { (i, m) \<leftarrow> new_internal env k pop layout m;
          case i of None \<Rightarrow> Some (None, m)
          | Some i \<Rightarrow>
              do { (e, m) \<leftarrow> new_external env (k + 1) pop layout m;
                   case e of None \<Rightarrow> Some (None, m)
                   | Some e \<Rightarrow>
                       do { (u, m) \<leftarrow> new_undo env (k + 2) pop layout m;
                            Some (case u of None \<Rightarrow> (None, m)
                              | Some u \<Rightarrow> (Some \<lparr>lane_layout = layout, lane_internal = i, lane_external = e, lane_undo = u\<rparr>, m)) } } }"

record lanes_desc =
  runtime_nlanes :: u32
  next_lane_idx :: u32
  lane_locks :: "u64 list"
  lanes :: "lane list"

fun lane_boot_loop :: "lane_env \<Rightarrow> PMEMobjpool \<Rightarrow> nat list \<Rightarrow> lane list \<Rightarrow> mem \<Rightarrow> (int \<times> lane list option \<times> mem) option" where
  "lane_boot_loop env pop [] ls m = Some (0, Some ls, m)"
| "lane_boot_loop env pop (i # is) ls m =
     do { (l, m) \<leftarrow> lane_init env (3 * i) pop (lane_get_layout pop (of_nat i)) m;
          case l of None \<Rightarrow> Some (- 1, None, m)
          | Some l \<Rightarrow> lane_boot_loop env pop is (ls @ [l]) m }"

definition ENOMEM_NO :: int where "ENOMEM_NO = 12"

text \<open>\<open>lane_boot\<close>: the error code, and the descriptor with its two arrays, or \<open>None\<close> when these are null
  pointers. \<open>runtime_nlanes\<close> is set later by the caller.\<close>

definition lane_boot :: "lane_env \<Rightarrow> bool \<Rightarrow> bool \<Rightarrow> PMEMobjpool \<Rightarrow> lanes_desc \<Rightarrow> mem \<Rightarrow>
   (int \<times> lanes_desc option \<times> mem) option" where
  "lane_boot env lanes_ok locks_ok pop desc m =
     (if \<not> lanes_ok then Some (ENOMEM_NO, None, m)
      else if \<not> locks_ok then Some (0, None, m)
      else do { (err, ls, m) \<leftarrow> lane_boot_loop env pop [0..<unat (nlanes (pop_layout pop))] [] m;
                Some (err, map_option (\<lambda>ls. desc\<lparr>next_lane_idx := 0,
                    lane_locks := replicate (unat (nlanes (pop_layout pop))) 0, lanes := ls\<rparr>) ls, m) })"

section \<open>Recovery and check\<close>

fun recover_redo_loop :: "PMEMobjpool \<Rightarrow> nat list \<Rightarrow> mem \<Rightarrow> mem option" where
  "recover_redo_loop pop [] m = Some m"
| "recover_redo_loop pop (i # is) m =
     (let layout = lane_get_layout pop (of_nat i)
      in do { m \<leftarrow> ulog_recover m (lane_internal_p layout) (pop_addr pop);
              m \<leftarrow> ulog_recover m (lane_external_p layout) (pop_addr pop);
              recover_redo_loop pop is m })"

text \<open>Rolling back: a failed \<open>operation_new\<close> ends the loop with the error code of the heap, which is 0.\<close>

fun recover_undo_loop :: "lane_env \<Rightarrow> PMEMobjpool \<Rightarrow> nat list \<Rightarrow> int \<Rightarrow> mem \<Rightarrow> (int \<times> mem) option" where
  "recover_undo_loop env pop [] err m = Some (0, m)"
| "recover_undo_loop env pop (i # is) err m =
     do { (ctx, m) \<leftarrow> new_undo env i pop (lane_get_layout pop (of_nat i)) m;
          case ctx of None \<Rightarrow> Some (err, m)
          | Some ctx \<Rightarrow>
              do { ctx \<leftarrow> operation_resume ctx m;
                   m \<leftarrow> operation_process ctx m;
                   (ctx, m) \<leftarrow> operation_finish ctx m;
                   recover_undo_loop env pop is err m } }"

definition lane_recover_and_section_boot :: "lane_env \<Rightarrow> (mem \<Rightarrow> int \<times> mem) \<Rightarrow> PMEMobjpool \<Rightarrow> mem \<Rightarrow> (int \<times> mem) option" where
  "lane_recover_and_section_boot env pmalloc_boot pop m =
     (let is = [0..<unat (nlanes (pop_layout pop))]
      in do { m \<leftarrow> recover_redo_loop pop is m;
              let (err, m) = pmalloc_boot m;
              if err \<noteq> 0 then Some (err, m) else recover_undo_loop env pop is err m })"

fun lane_check_loop :: "PMEMobjpool \<Rightarrow> nat list \<Rightarrow> int \<Rightarrow> mem \<Rightarrow> int option" where
  "lane_check_loop pop [] err m = Some 0"
| "lane_check_loop pop (j # js) err m =
     do { r \<leftarrow> ulog_check m (lane_internal_p (lane_get_layout pop (of_nat j))) (OBJ_OFF_IS_VALID (pop_layout pop)) (pop_addr pop);
          if r \<noteq> 0 then Some err else lane_check_loop pop js err m }"

definition lane_check :: "PMEMobjpool \<Rightarrow> mem \<Rightarrow> int option" where
  "lane_check pop m = lane_check_loop pop [0..<unat (nlanes (pop_layout pop))] 0 m"

section \<open>Lanes of threads\<close>

definition LANE_JUMP :: u32 where "LANE_JUMP = 8"
definition LANE_PRIMARY_ATTEMPTS :: int where "LANE_PRIMARY_ATTEMPTS = 128"
definition RLANE_DEFAULT :: u32 where "RLANE_DEFAULT = 0"

record lane_info =
  pop_uuid_lo :: u64
  lane_idx :: u64
  nest_count :: u64
  primary :: u64
  primary_attempts :: int
  li_prev :: addr
  li_next :: addr

record lane_tls =
  Lane_info_ht :: "cuckoo option"
  Lane_info_records :: addr
  Lane_info_cache :: addr
  li_store :: "addr \<Rightarrow> lane_info"

definition upd_info :: "addr \<Rightarrow> (lane_info \<Rightarrow> lane_info) \<Rightarrow> lane_tls \<Rightarrow> lane_tls" where
  "upd_info p f t = t\<lparr>li_store := (li_store t)(p := f (li_store t p))\<rparr>"

text \<open>The answers of the system to one call of \<open>get_lane_info_record\<close>: those of \<open>cuckoo_new\<close>, of
  \<open>os_tls_set\<close>, of the allocation of a record and of \<open>cuckoo_insert\<close>.\<close>

record info_env =
  ie_new :: "bool \<times> bool"
  ie_tls_set :: int
  ie_malloc :: addr
  ie_grow :: "nat \<Rightarrow> nat \<Rightarrow> bool"

definition lane_info_create :: "info_env \<Rightarrow> lane_tls \<Rightarrow> lane_tls option" where
  "lane_info_create ie t =
     map_option (\<lambda>c. t\<lparr>Lane_info_ht := Some c\<rparr>) (cuckoo_new (fst (ie_new ie)) (snd (ie_new ie)))"

definition lane_info_ht_boot :: "info_env \<Rightarrow> lane_tls \<Rightarrow> lane_tls option" where
  "lane_info_ht_boot ie t =
     do { t \<leftarrow> lane_info_create ie t; if ie_tls_set ie \<noteq> 0 then None else Some t }"

definition new_lane_info :: "u64 \<Rightarrow> addr \<Rightarrow> lane_info" where
  "new_lane_info uuid next = \<lparr>pop_uuid_lo = uuid, lane_idx = - 1, nest_count = 0, primary = 0,
     primary_attempts = LANE_PRIMARY_ATTEMPTS, li_prev = 0, li_next = next\<rparr>"

definition get_lane_info_record :: "info_env \<Rightarrow> PMEMobjpool \<Rightarrow> lane_tls \<Rightarrow> (addr \<times> lane_tls) option" where
  "get_lane_info_record ie pop t =
     (if Lane_info_cache t \<noteq> 0 \<and> pop_uuid_lo (li_store t (Lane_info_cache t)) = uuid_lo pop
      then Some (Lane_info_cache t, t)
      else do {
        t \<leftarrow> (if Lane_info_ht t = None then lane_info_ht_boot ie t else Some t);
        ht \<leftarrow> Lane_info_ht t;
        info \<leftarrow> cuckoo_get ht (uuid_lo pop);
        (info, t) \<leftarrow>
          (if info \<noteq> 0 then Some (info, t)
           else if ie_malloc ie = 0 then None
           else do {
             let p = ie_malloc ie;
             let t = t\<lparr>li_store := (li_store t)(p := new_lane_info (uuid_lo pop) (Lane_info_records t))\<rparr>;
             let t = (if Lane_info_records t \<noteq> 0
                      then upd_info (Lane_info_records t) (\<lambda>i. i\<lparr>li_prev := p\<rparr>) t else t);
             let t = t\<lparr>Lane_info_records := p\<rparr>;
             (r, ht) \<leftarrow> cuckoo_insert (ie_grow ie) ht (uuid_lo pop) p;
             if r \<noteq> None then None else Some (p, t\<lparr>Lane_info_ht := Some ht\<rparr>) });
        Some (info, t\<lparr>Lane_info_cache := info\<rparr>) })"

text \<open>One round of the inner loop of \<open>get_lane\<close>: whether a lane was taken, the locks and the record. The
  inner loop and the loop around it repeat it; \<open>None\<close> is a division by 0 or an index out of range.\<close>

definition get_lane_try :: "u64 list \<Rightarrow> lane_info \<Rightarrow> u64 \<Rightarrow> (bool \<times> u64 list \<times> lane_info) option" where
  "get_lane_try locks info nlocks =
     (let info = info\<lparr>lane_idx := lane_idx info mod nlocks\<rparr>;
          i = unat (lane_idx info)
      in if nlocks = 0 \<or> i \<ge> length locks then None
         else if locks ! i = 0 then
           Some (True, locks[i := 1],
             if lane_idx info = primary info then info\<lparr>primary_attempts := LANE_PRIMARY_ATTEMPTS\<rparr>
             else if primary_attempts info = 0
             then info\<lparr>primary := lane_idx info, primary_attempts := LANE_PRIMARY_ATTEMPTS\<rparr>
             else info)
         else Some (False, locks,
           (if lane_idx info = primary info \<and> primary_attempts info > 0
            then info\<lparr>primary_attempts := primary_attempts info - 1\<rparr> else info)
             \<lparr>lane_idx := lane_idx info + 1\<rparr>))"

partial_function (option) get_lane_loop :: "u64 list \<Rightarrow> lane_info \<Rightarrow> u64 \<Rightarrow> (u64 list \<times> lane_info) option" where
  "get_lane_loop locks info nlocks =
     do { (got, locks, info) \<leftarrow> get_lane_try locks info nlocks;
          if got then Some (locks, info) else get_lane_loop locks info nlocks }"

definition get_lane :: "u64 list \<Rightarrow> lane_info \<Rightarrow> u64 \<Rightarrow> (u64 list \<times> lane_info) option" where
  "get_lane locks info nlocks = get_lane_loop locks (info\<lparr>lane_idx := primary info\<rparr>) nlocks"

text \<open>The start of \<open>lane_hold\<close>: a thread that has no lane yet takes the next index.\<close>

definition first_lane :: "lanes_desc \<Rightarrow> lane_info \<Rightarrow> lanes_desc \<times> lane_info" where
  "first_lane desc info =
     (if lane_idx info = - 1
      then (desc\<lparr>next_lane_idx := next_lane_idx desc + LANE_JUMP\<rparr>,
            info\<lparr>primary := ucast (next_lane_idx desc), lane_idx := ucast (next_lane_idx desc)\<rparr>)
      else (desc, info))"

definition init_contexts :: "lane \<Rightarrow> lane" where
  "init_contexts l =
     l\<lparr>lane_external := operation_init (lane_external l), lane_internal := operation_init (lane_internal l),
       lane_undo := operation_init (lane_undo l)\<rparr>"

definition lane_hold :: "info_env \<Rightarrow> PMEMobjpool \<Rightarrow> bool \<Rightarrow> lanes_desc \<Rightarrow> lane_tls \<Rightarrow> (u32 \<times> lanes_desc \<times> lane_tls) option" where
  "lane_hold ie pop lanep desc t =
     (if runtime_nlanes desc = 0 then (if lanep then None else Some (RLANE_DEFAULT, desc, t))
      else do {
        (p, t) \<leftarrow> get_lane_info_record ie pop t;
        let (desc, info) = first_lane desc (li_store t p);
        let nested = nest_count info;
        let info = info\<lparr>nest_count := nested + 1\<rparr>;
        (locks, info) \<leftarrow> (if nested = 0 then get_lane (lane_locks desc) info (ucast (runtime_nlanes desc))
                          else Some (lane_locks desc, info));
        let desc = desc\<lparr>lane_locks := locks\<rparr>;
        let t = upd_info p (\<lambda>_. info) t;
        let i = unat (lane_idx info);
        if i \<ge> length (lanes desc) then None
        else Some (ucast (lane_idx info),
          (if lanep \<and> nest_count info = 1 then desc\<lparr>lanes := (lanes desc)[i := init_contexts (lanes desc ! i)]\<rparr> else desc), t) })"

text \<open>Giving a lane to another thread: it stays locked, and the record of the thread changes.\<close>

definition attach_info :: "u32 \<Rightarrow> lane_info \<Rightarrow> lane_info" where
  "attach_info l i = i\<lparr>nest_count := 1, lane_idx := ucast l\<rparr>"

definition detach_info :: "lane_info \<Rightarrow> u32 \<times> lane_info" where
  "detach_info i = (ucast (lane_idx i), i\<lparr>nest_count := nest_count i - 1\<rparr>)"

definition lane_attach :: "info_env \<Rightarrow> PMEMobjpool \<Rightarrow> u32 \<Rightarrow> lane_tls \<Rightarrow> lane_tls option" where
  "lane_attach ie pop l t =
     do { (p, t) \<leftarrow> get_lane_info_record ie pop t;
          Some (upd_info p (attach_info l) t) }"

definition lane_detach :: "info_env \<Rightarrow> PMEMobjpool \<Rightarrow> lane_tls \<Rightarrow> (u32 \<times> lane_tls) option" where
  "lane_detach ie pop t =
     do { (p, t) \<leftarrow> get_lane_info_record ie pop t;
          let (l, info) = detach_info (li_store t p);
          Some (l, upd_info p (\<lambda>_. info) t) }"

text \<open>Giving up one hold: the last one unlocks the lane. \<open>None\<close> is one of the two \<open>FATAL\<close> errors.\<close>

definition release_info :: "u64 list \<Rightarrow> lane_info \<Rightarrow> (u64 list \<times> lane_info) option" where
  "release_info locks info =
     (if nest_count info = 0 then None
      else let info = info\<lparr>nest_count := nest_count info - 1\<rparr>; i = unat (lane_idx info)
           in if nest_count info \<noteq> 0 then Some (locks, info)
              else if i < length locks \<and> locks ! i = 1 then Some (locks[i := 0], info) else None)"

definition lane_release :: "info_env \<Rightarrow> PMEMobjpool \<Rightarrow> lanes_desc \<Rightarrow> lane_tls \<Rightarrow> (lanes_desc \<times> lane_tls) option" where
  "lane_release ie pop desc t =
     (if runtime_nlanes desc = 0 then Some (desc, t)
      else do { (p, t) \<leftarrow> get_lane_info_record ie pop t;
                (locks, info) \<leftarrow> release_info (lane_locks desc) (li_store t p);
                Some (desc\<lparr>lane_locks := locks\<rparr>, upd_info p (\<lambda>_. info) t) })"

text \<open>Taking the record at \<open>p\<close> out of the doubly linked list, and out of the data of the thread.\<close>

definition unlink :: "addr \<Rightarrow> (addr \<Rightarrow> lane_info) \<Rightarrow> addr \<Rightarrow> lane_info" where
  "unlink p st =
     (let st = (if li_prev (st p) \<noteq> 0 then st(li_prev (st p) := (st (li_prev (st p)))\<lparr>li_next := li_next (st p)\<rparr>) else st)
      in if li_next (st p) \<noteq> 0 then st(li_next (st p) := (st (li_next (st p)))\<lparr>li_prev := li_prev (st p)\<rparr>) else st)"

definition lane_info_cleanup :: "PMEMobjpool \<Rightarrow> lane_tls \<Rightarrow> lane_tls option" where
  "lane_info_cleanup pop t =
     (case Lane_info_ht t of None \<Rightarrow> Some t
      | Some ht \<Rightarrow>
          do { (p, ht) \<leftarrow> cuckoo_remove ht (uuid_lo pop);
               let t = t\<lparr>Lane_info_ht := Some ht\<rparr>;
               if p = 0 then Some t
               else do {
                 let t = t\<lparr>li_store := unlink p (li_store t)\<rparr>;
                 let t = (if Lane_info_cache t = p then t\<lparr>Lane_info_cache := 0\<rparr> else t);
                 Some (if Lane_info_records t = p then t\<lparr>Lane_info_records := li_next (li_store t p)\<rparr> else t) } })"

text \<open>The end of a thread: all its records are freed, in the order of the list, and its data is reset.\<close>

partial_function (option) free_records :: "(addr \<Rightarrow> lane_info) \<Rightarrow> addr \<Rightarrow> addr list option" where
  "free_records st head =
     (if head = 0 then Some []
      else do { freed \<leftarrow> free_records st (li_next (st head)); Some (head # freed) })"

definition lane_info_delete :: "lane_tls \<Rightarrow> (addr list \<times> lane_tls) option" where
  "lane_info_delete t =
     (if Lane_info_ht t = None then Some ([], t)
      else map_option (\<lambda>freed. (freed, t\<lparr>Lane_info_ht := None, Lane_info_records := 0, Lane_info_cache := 0\<rparr>))
             (free_records (li_store t) (Lane_info_records t)))"

text \<open>The end of a pool: the descriptor loses its arrays, and the thread its record of the pool.\<close>

definition lane_cleanup :: "PMEMobjpool \<Rightarrow> lanes_desc \<Rightarrow> lane_tls \<Rightarrow> (lanes_desc \<times> lane_tls) option" where
  "lane_cleanup pop desc t =
     map_option (\<lambda>t. (desc\<lparr>lanes := [], lane_locks := []\<rparr>, t)) (lane_info_cleanup pop t)"

end
