(* ===== verification/Lane_Logs.thy ===== *)
theory Lane_Logs
  imports Plist_Log Lane
begin

text \<open>
  The logs of the lanes in a pool: where they are, how recovery passes over the idle ones, what a new pool
  has in them, and the operation contexts that \<open>lane_boot\<close> makes for them. Volatile blocks of the allocator
  are outside the pool.
\<close>


section \<open>Where the logs are\<close>

abbreviation n_lanes :: "PMEMobjpool \<Rightarrow> nat" where
  "n_lanes pop \<equiv> unat (nlanes (pop_layout pop))"

abbreviation lane_at :: "PMEMobjpool \<Rightarrow> nat \<Rightarrow> addr" where
  "lane_at pop i \<equiv> lane_get_layout pop (of_nat i)"

definition lanes_place :: "PMEMobjpool \<Rightarrow> bool" where
  "lanes_place pop \<longleftrightarrow> objpool_ok pop \<and>
     unat (lanes_offset (pop_layout pop)) + 3072 * n_lanes pop \<le> unat (heap_offset (pop_layout pop))"

lemma lane_at_eq:
  assumes "lanes_place pop" and "i < n_lanes pop"
  shows "lane_at pop i = pop_addr pop + unat (lanes_offset (pop_layout pop)) + 3072 * i"
proof -
  let ?l = "pop_layout pop"
  have le: "unat (lanes_offset ?l) + 3072 * i < 2 ^ 64"
    using assms unat_lt_u64 [of "heap_offset ?l"] by (auto simp: lanes_place_def)
  have i: "unat (of_nat i :: u64) = i" using le by (intro unat_of_nat_u64) simp
  have m: "unat (3072 * of_nat i :: u64) = 3072 * i"
    using le i by (subst unat_mult_lem [THEN iffD1]) simp_all
  have "unat (lanes_offset ?l + 3072 * of_nat i) = unat (lanes_offset ?l) + 3072 * i"
    using le m by (subst unat_plus_u64) simp_all
  then show ?thesis by (simp add: lane_get_layout_def SIZEOF_LANE_LAYOUT_def)
qed

text \<open>The log number \<open>k\<close> of a lane, with 0 for the internal, 1 for the external and 2 for the undo log.\<close>

definition lane_log :: "PMEMobjpool \<Rightarrow> nat \<Rightarrow> nat \<Rightarrow> addr" where
  "lane_log pop i k = (if k = 0 then lane_internal_p (lane_at pop i) else if k = 1 then lane_external_p (lane_at pop i)
     else lane_undo_p (lane_at pop i))"

lemmas lane_ptr_defs = lane_internal_p_def lane_external_p_def lane_undo_p_def

definition log_size :: "nat \<Rightarrow> u64" where
  "log_size k = (if k = 0 then LANE_REDO_INTERNAL_SIZE else if k = 1 then LANE_REDO_EXTERNAL_SIZE else LANE_UNDO_SIZE)"

lemmas log_size_defs = log_size_def LANE_REDO_INTERNAL_SIZE_def LANE_REDO_EXTERNAL_SIZE_def LANE_UNDO_SIZE_def

lemma lane_log_eq:
  assumes "lanes_place pop" and "i < n_lanes pop"
  shows "lane_log pop i k = pop_addr pop + (unat (lanes_offset (pop_layout pop)) + 3072 * i + (if k = 0 then 0 else if k = 1 then 256 else 960))"
  by (simp add: lane_log_def lane_ptr_defs lane_at_eq [OF assms])

lemma lane_log_span:
  assumes "lanes_place pop" and "i < n_lanes pop"
  shows "pop_addr pop \<le> lane_log pop i k" "lane_log pop i k + 64 + unat (log_size k) \<le> heap_lo pop"
proof -
  have "3072 * i + 3072 \<le> 3072 * n_lanes pop" using assms(2) by (auto simp: Suc_le_eq)
  then show "pop_addr pop \<le> lane_log pop i k" "lane_log pop i k + 64 + unat (log_size k) \<le> heap_lo pop"
    using assms(1) by (auto simp: lane_log_eq [OF assms] log_size_defs lanes_place_def heap_lo_def)
qed

lemma log_size_room: "128 \<le> unat (log_size k)"
  by (simp add: log_size_defs)

lemma lane_logs_apart:
  assumes "lanes_place pop" and "i < n_lanes pop" and "j < n_lanes pop" and "k < 3" and "l < 3" and "(i, k) \<noteq> (j, l)"
  shows "lane_log pop i k + 64 + unat (log_size k) \<le> lane_log pop j l \<or> lane_log pop j l + 64 + unat (log_size l) \<le> lane_log pop i k"
proof -
  have k: "k = 0 \<or> k = 1 \<or> k = 2" "l = 0 \<or> l = 1 \<or> l = 2" using assms(4,5) by auto
  note eq = lane_log_eq [OF assms(1,2)] lane_log_eq [OF assms(1,3)] log_size_defs
  have "i < j \<or> i = j \<or> j < i" by auto
  then show ?thesis
  proof (elim disjE)
    assume "i < j"
    then have "3072 * i + 3072 \<le> 3072 * j" by (auto simp: Suc_le_eq)
    then show ?thesis using k by (auto simp: eq)
  next
    assume "i = j"
    then show ?thesis using k assms(6) by (auto simp: eq)
  next
    assume "j < i"
    then have "3072 * j + 3072 \<le> 3072 * i" by (auto simp: Suc_le_eq)
    then show ?thesis using k by (auto simp: eq)
  qed
qed

section \<open>Idle logs\<close>

text \<open>A log that holds nothing: it was cleared, or it has no first entry. It is empty when it is not continued
  in another log either.\<close>

definition log_idle :: "mem \<Rightarrow> addr \<Rightarrow> bool" where
  "log_idle m u \<longleftrightarrow> rd64 m (ulog_capacity_p u) = 0 \<or> rd64 m (ulog_data u) = 0"

definition log_empty :: "mem \<Rightarrow> addr \<Rightarrow> bool" where
  "log_empty m u \<longleftrightarrow> log_idle m u \<and> rd64 m (ulog_next_p u) = 0"

lemma log_idle_cong:
  assumes "\<And>a. u \<le> a \<Longrightarrow> a < u + 72 \<Longrightarrow> m' a = m a"
  shows "log_idle m' u = log_idle m u" "log_empty m' u = log_empty m u"
proof -
  have "rd64 m' (ulog_capacity_p u) = rd64 m (ulog_capacity_p u)" "rd64 m' (ulog_data u) = rd64 m (ulog_data u)"
    "rd64 m' (ulog_next_p u) = rd64 m (ulog_next_p u)"
    by (rule rd64_cong, use assms in \<open>auto simp: ulog_field_defs\<close>)+
  then show "log_idle m' u = log_idle m u" "log_empty m' u = log_empty m u" by (simp_all add: log_idle_def log_empty_def)
qed

lemma idle_no_entry: "log_idle m u \<Longrightarrow> \<not> (0 < rd64 m (ulog_capacity_p u) \<and> ulog_entry_valid m (ulog_data u))"
  by (auto simp: log_idle_def ulog_entry_valid_def)

lemma idle_base_nbytes: "log_idle m u \<Longrightarrow> ulog_base_nbytes m u = Some 0"
  using idle_no_entry [of m u] unfolding ulog_base_nbytes_def by (subst base_nbytes_loop.simps) auto

lemma idle_recover: "log_idle m u \<Longrightarrow> ulog_recover m u b = Some m"
  by (simp add: ulog_recover_def ulog_recovery_needed_def idle_base_nbytes u64_min_def Let_def word_gt_0)

lemma empty_next: "log_empty m u \<Longrightarrow> ulog_next m u b = None"
  by (simp add: log_empty_def ulog_next_def ulog_by_offset_def)

lemma empty_process: "log_empty m u \<Longrightarrow> ulog_process m u b = Some m"
  using idle_no_entry [of m u] empty_next [of m u b] unfolding ulog_process_def ulog_foreach_entry_def
  by (subst foreach_loop.simps) (auto simp: Let_def log_empty_def)

section \<open>Recovery of the redo logs\<close>

lemma recover_redo_append:
  "recover_redo_loop pop (is @ js) = (\<lambda>m. recover_redo_loop pop is m \<bind> recover_redo_loop pop js)"
  by (induction "is") (rule ext, simp add: Let_def)+

lemma recover_redo_idle:
  assumes "\<forall>i\<in>set is. log_idle m (lane_log pop i 0) \<and> log_idle m (lane_log pop i 1)"
  shows "recover_redo_loop pop is m = Some m"
  using assms by (induction "is") (simp_all add: Let_def idle_recover lane_log_def)

text \<open>Only the external log of lane \<open>j\<close> holds something.\<close>

lemma recover_redo_one:
  assumes j: "j < n_lanes pop" and rec: "ulog_recover m (lane_log pop j 1) (pop_addr pop) = Some r"
    and before: "\<And>i k. i < n_lanes pop \<Longrightarrow> k < 2 \<Longrightarrow> (i, k) \<noteq> (j, 1) \<Longrightarrow> log_idle m (lane_log pop i k)"
    and after: "\<And>i k. i < n_lanes pop \<Longrightarrow> k < 2 \<Longrightarrow> log_idle r (lane_log pop i k)"
  shows "recover_redo_loop pop [0..<n_lanes pop] m = Some r"
proof -
  have "[0..<n_lanes pop] = [0..<j] @ j # [Suc j..<n_lanes pop]"
    using j by (metis less_imp_le_nat upt_add_eq_append upt_conv_Cons le_add_diff_inverse le0 plus_nat.add_0)
  moreover have "recover_redo_loop pop [0..<j] m = Some m"
    by (rule recover_redo_idle) (use before j in auto)
  moreover have "recover_redo_loop pop [Suc j..<n_lanes pop] r = Some r"
    by (rule recover_redo_idle) (use after in auto)
  moreover have "ulog_recover m (lane_log pop j 0) (pop_addr pop) = Some m"
    by (rule idle_recover) (use before j in auto)
  ultimately show ?thesis using rec by (simp add: recover_redo_append Let_def lane_log_def)
qed

section \<open>Rolling back\<close>

text \<open>The memory of one call of \<open>operation_new\<close> outside its two blocks is kept.\<close>

definition outside :: "addr \<Rightarrow> addr \<Rightarrow> bool" where
  "outside p a \<longleftrightarrow> a < p \<or> p + 1088 \<le> a"

lemma operation_new_empty:
  assumes log: "log_empty m u"
  shows "\<exists>ctx m'. operation_new True (Some ta) (Some pa) u nb ext fr base ty m = Some (Some ctx, m') \<and>
    oc_type ctx = ty \<and> oc_base ctx = base \<and> oc_ulog ctx = u \<and> oc_base_nbytes ctx = nb \<and> oc_next ctx = [] \<and>
    merge_entries ctx = VECQ_INIT \<and> pshadow_ops ctx = \<lparr>ol_capacity = 1024, ol_offset = 0, ol_ulog = pa\<rparr> \<and>
    transient_ops ctx = \<lparr>ol_capacity = 1024, ol_offset = 0, ol_ulog = ta\<rparr> \<and>
    rd64 m' (ulog_capacity_p pa) = nb \<and> (\<forall>a. outside ta a \<longrightarrow> outside pa a \<longrightarrow> m' a = m a)"
proof -
  have n: "ulog_next m u b = None" "rd64 m (ulog_next_p u) = 0" for b
    using log empty_next by (auto simp: log_empty_def)
  have c: "capacity_loop m base u c = Some c" "rebuild_loop m base u [] = Some []" for c
    by (subst capacity_loop.simps, simp add: n, subst rebuild_loop.simps, simp add: n)
  let ?m = "mem_set (wr64 (mem_set (wr64 (mem_set m ta 0 1088) (ta + 16) 1024) pa 0 1088) (pa + 16) nb) (pa + 24) 0 40"
  have "rd64 ?m (pa + 16) = nb"
    by (subst rd64_cong [where m' = "wr64 (mem_set (wr64 (mem_set m ta 0 1088) (ta + 16) 1024) pa 0 1088) (pa + 16) nb"])
      (simp_all add: mem_set_out)
  moreover have "?m a = m a" if "outside ta a" "outside pa a" for a
    using that by (auto simp: outside_def mem_set_out wr64_out)
  ultimately show ?thesis
    by (simp add: operation_new_def c ulog_capacity_def ulog_rebuild_next_vec_def operation_log_transient_init_def
        operation_log_persistent_init_def Zalloc_def ulog_capacity_p_def ULOG_BASE_SIZE_def)
qed

text \<open>What the volatile allocator answers while the undo logs are processed: blocks that are outside the pool.\<close>

definition volatile_block :: "PMEMobjpool \<Rightarrow> addr \<Rightarrow> bool" where
  "volatile_block pop p \<longleftrightarrow> p + 1088 \<le> pop_addr pop \<or> heap_hi pop \<le> p"

definition allocs_ok :: "PMEMobjpool \<Rightarrow> lane_env \<Rightarrow> bool" where
  "allocs_ok pop env \<longleftrightarrow> (\<forall>i < n_lanes pop. \<exists>ta pa. ln_new env i = (True, Some ta, Some pa) \<and> volatile_block pop ta \<and> volatile_block pop pa)"

definition pool_eq :: "PMEMobjpool \<Rightarrow> mem \<Rightarrow> mem \<Rightarrow> bool" where
  "pool_eq pop m m' \<longleftrightarrow> (\<forall>a. pop_addr pop \<le> a \<longrightarrow> a < heap_hi pop \<longrightarrow> m a = m' a)"

lemma log_empty_pool:
  assumes "lanes_place pop" and "pool_eq pop m' m" and "i < n_lanes pop"
  shows "log_empty m' (lane_log pop i k) = log_empty m (lane_log pop i k)" "log_idle m' (lane_log pop i k) = log_idle m (lane_log pop i k)"
  using log_idle_cong [of "lane_log pop i k" m' m] assms(2) lane_log_span [OF assms(1,3), of k] log_size_room [of k]
  by (auto simp: pool_eq_def heap_hi_def)

lemma new_undo_pool:
  assumes alloc: "ln_new env i = (True, Some ta, Some pa)" "volatile_block pop ta" "volatile_block pop pa"
    and log: "log_empty m (lane_undo_p layout)"
  shows "\<exists>ctx m'. new_undo env i pop layout m = Some (Some ctx, m') \<and> pool_eq pop m' m \<and> oc_type ctx = LOG_TYPE_UNDO \<and>
    oc_ulog ctx = lane_undo_p layout \<and> oc_base ctx = pop_addr pop"
proof -
  obtain ctx m' where "new_undo env i pop layout m = Some (Some ctx, m')" "oc_type ctx = LOG_TYPE_UNDO"
    "oc_ulog ctx = lane_undo_p layout" "oc_base ctx = pop_addr pop" "\<And>a. outside ta a \<Longrightarrow> outside pa a \<Longrightarrow> m' a = m a"
    using operation_new_empty [OF log, of ta pa LANE_UNDO_SIZE _ _ "pop_addr pop" LOG_TYPE_UNDO]
    unfolding new_undo_def alloc(1) prod.case by blast
  moreover from this have "pool_eq pop m' m"
    using alloc(2,3) unfolding pool_eq_def volatile_block_def outside_def by (meson le_trans not_le)
  ultimately show ?thesis by blast
qed

lemma undo_lane:
  assumes alloc: "ln_new env i = (True, Some ta, Some pa)" "volatile_block pop ta" "volatile_block pop pa"
    and place: "lanes_place pop" "i < n_lanes pop" and log: "log_empty m (lane_log pop i 2)"
  shows "\<exists>m'. recover_undo_loop env pop (i # is) err m = recover_undo_loop env pop is err m' \<and> pool_eq pop m' m"
proof -
  let ?u = "lane_undo_p (lane_at pop i)"
  have u: "lane_log pop i 2 = ?u" by (simp add: lane_log_def)
  obtain ctx m' where c: "new_undo env i pop (lane_at pop i) m = Some (Some ctx, m')" "pool_eq pop m' m" "oc_type ctx = LOG_TYPE_UNDO"
    "oc_ulog ctx = ?u" "oc_base ctx = pop_addr pop"
    using new_undo_pool [OF alloc log [unfolded u]] by blast
  have "log_empty m' ?u" using log_empty_pool(1) [OF place(1) c(2) place(2), of 2] log unfolding u by simp
  then show ?thesis
    using c by (intro exI [of _ m'])
      (simp add: operation_resume_def idle_base_nbytes log_empty_def [of _ ?u] operation_process_def operation_init_def
        operation_process_persistent_undo_def empty_process operation_finish_def Let_def)
qed

lemma undo_empty:
  assumes place: "lanes_place pop" and alloc: "allocs_ok pop env" and "\<forall>i\<in>set is. i < n_lanes pop \<and> log_empty m (lane_log pop i 2)"
  shows "\<exists>m'. recover_undo_loop env pop is err m = Some (0, m') \<and> pool_eq pop m' m"
  using assms(3)
proof (induction "is" arbitrary: m)
  case Nil
  then show ?case by (simp add: pool_eq_def)
next
  case (Cons i "is")
  obtain m1 where m1: "recover_undo_loop env pop (i # is) err m = recover_undo_loop env pop is err m1" "pool_eq pop m1 m"
  proof -
    have i: "i < n_lanes pop" "log_empty m (lane_log pop i 2)" using Cons.prems by auto
    then obtain ta pa where "ln_new env i = (True, Some ta, Some pa)" "volatile_block pop ta" "volatile_block pop pa"
      using alloc unfolding allocs_ok_def by blast
    from undo_lane [OF this place i] that show thesis by blast
  qed
  have "log_empty m1 (lane_log pop a 2) = log_empty m (lane_log pop a 2)" if "a < n_lanes pop" for a
    using log_empty_pool(1) [OF place m1(2) that] .
  then have "\<forall>a\<in>set is. a < n_lanes pop \<and> log_empty m1 (lane_log pop a 2)" using Cons.prems by simp
  then obtain m' where "recover_undo_loop env pop is err m1 = Some (0, m')" "pool_eq pop m' m1"
    using Cons.IH by blast
  then show ?case using m1 by (auto simp: pool_eq_def)
qed

section \<open>Recovery of a pool\<close>

text \<open>A pool in which the logs of all lanes are idle.\<close>

definition pool_idle :: "PMEMobjpool \<Rightarrow> mem \<Rightarrow> bool" where
  "pool_idle pop m \<longleftrightarrow> (\<forall>i < n_lanes pop. log_idle m (lane_log pop i 0) \<and> log_idle m (lane_log pop i 1) \<and> log_empty m (lane_log pop i 2))"

text \<open>What the code relies on when it boots the heap of a pool: the boot succeeds and does not change the pool.\<close>

definition boot_keeps :: "PMEMobjpool \<Rightarrow> (mem \<Rightarrow> int \<times> mem) \<Rightarrow> bool" where
  "boot_keeps pop boot \<longleftrightarrow> (\<forall>m. fst (boot m) = 0 \<and> pool_eq pop (snd (boot m)) m)"

lemma pool_idle_log:
  assumes "pool_idle pop m" and "i < n_lanes pop" and "k < 3"
  shows "log_idle m (lane_log pop i k)" and "k = 2 \<Longrightarrow> log_empty m (lane_log pop i k)"
proof -
  have "k = 0 \<or> k = 1 \<or> k = 2" using assms(3) by auto
  then show "log_idle m (lane_log pop i k)" "k = 2 \<Longrightarrow> log_empty m (lane_log pop i k)"
    using assms(1,2) by (auto simp: pool_idle_def log_empty_def)
qed

lemma pool_idle_eq:
  assumes "lanes_place pop" and "pool_eq pop m' m"
  shows "pool_idle pop m' = pool_idle pop m"
  using log_empty_pool [OF assms] by (simp add: pool_idle_def)

lemma boot_recovered:
  assumes place: "lanes_place pop" and alloc: "allocs_ok pop env" and boot: "boot_keeps pop boot"
    and redo: "recover_redo_loop pop [0..<n_lanes pop] c = Some r" and idle: "pool_idle pop r"
  shows "\<exists>m. lane_recover_and_section_boot env boot pop c = Some (0, m) \<and> pool_eq pop m r \<and> pool_idle pop m"
proof -
  obtain b where b: "boot r = (0, b)" "pool_eq pop b r" using boot by (cases "boot r") (auto simp: boot_keeps_def dest: spec [of _ r])
  have "pool_idle pop b" using pool_idle_eq [OF place b(2)] idle by simp
  then have "\<forall>i\<in>set [0..<n_lanes pop]. i < n_lanes pop \<and> log_empty b (lane_log pop i 2)" by (simp add: pool_idle_def)
  then obtain m where m: "recover_undo_loop env pop [0..<n_lanes pop] 0 b = Some (0, m)" "pool_eq pop m b"
    using undo_empty [OF place alloc] by blast
  have e: "pool_eq pop m r" using m(2) b(2) by (simp add: pool_eq_def)
  show ?thesis
    using m(1) redo b(1) e pool_idle_eq [OF place e] idle by (simp add: lane_recover_and_section_boot_def Let_def)
qed

section \<open>A new pool\<close>

lemma cacheline_align_id:
  assumes "n mod 64 = 0" and "n + 63 < 2 ^ 64"
  shows "unat (CACHELINE_ALIGN (of_nat n)) = n"
proof -
  have u: "unat (of_nat n :: u64) = n" using assms(2) by (intro unat_of_nat_u64) simp
  obtain q where q: "n = 64 * q" using assms(1) by (auto elim: dvdE)
  have "(64 * q + 63) div 64 = q" by simp
  then show ?thesis using unat_CACHELINE_ALIGN [of "of_nat n"] assms(2) u q by simp
qed

lemma ulog_construct_log:
  assumes d: "d mod 64 = 0" "0 < d" "d < 2 ^ 61" and cap: "8 \<le> unat cap"
  shows "\<exists>m'. ulog_construct m (OBJ_PTR_TO_OFF pop (pop_addr pop + d)) cap (pop_addr pop) = Some m' \<and>
    log_empty m' (pop_addr pop + d) \<and> rd64 m' (ulog_capacity_p (pop_addr pop + d)) = cap \<and>
    (\<forall>a. a < pop_addr pop + d \<or> pop_addr pop + d + 64 + unat cap \<le> a \<longrightarrow> m' a = m a)"
proof -
  let ?u = "pop_addr pop + d"
  have o: "OBJ_PTR_TO_OFF pop ?u = of_nat d" by (simp add: OBJ_PTR_TO_OFF_def)
  have "unat (of_nat d :: u64) = d" using d(3) by (intro unat_of_nat_u64) simp
  then have "(of_nat d :: u64) \<noteq> 0" using d(2) by (auto simp: unat_eq_zero)
  then have u: "ulog_by_offset (OBJ_PTR_TO_OFF pop ?u) (pop_addr pop) = Some ?u"
    using cacheline_align_id [OF d(1)] d(3) by (simp add: ulog_by_offset_def o)
  let ?m1 = "mem_set (wr64 (wr64 (wr64 m (?u + 16) cap) ?u 0) (?u + 8) 0) (?u + 24) 0 40"
  let ?m = "mem_set ?m1 (?u + 64) 0 (unat cap)"
  have "ulog_construct m (OBJ_PTR_TO_OFF pop ?u) cap (pop_addr pop) = Some ?m"
    by (simp add: ulog_construct_def u ulog_field_defs)
  moreover have "rd64 ?m (?u + 64) = 0" using cap by (intro rd64_mem_set_0) auto
  moreover have "rd64 ?m (?u + 8) = 0" "rd64 ?m (?u + 16) = cap"
    by (subst rd64_cong [where m' = "wr64 (wr64 (wr64 m (?u + 16) cap) ?u 0) (?u + 8) 0"];
        simp add: mem_set_out rd64_wr64_disjoint)+
  moreover have "?m a = m a" if "a < ?u \<or> ?u + 64 + unat cap \<le> a" for a
    using that by (subst mem_set_out, force)+ (auto simp: wr64_out)
  ultimately show ?thesis by (intro exI [of _ ?m]) (simp add: log_empty_def log_idle_def ulog_field_defs)
qed

definition log_new :: "PMEMobjpool \<Rightarrow> mem \<Rightarrow> nat \<Rightarrow> nat \<Rightarrow> bool" where
  "log_new pop m i k \<longleftrightarrow> log_empty m (lane_log pop i k) \<and> rd64 m (ulog_capacity_p (lane_log pop i k)) = log_size k"

lemma log_new_cong:
  assumes "\<And>a. lane_log pop i k \<le> a \<Longrightarrow> a < lane_log pop i k + 72 \<Longrightarrow> m' a = m a"
  shows "log_new pop m' i k = log_new pop m i k"
proof -
  have "rd64 m' (ulog_capacity_p (lane_log pop i k)) = rd64 m (ulog_capacity_p (lane_log pop i k))"
    by (rule rd64_cong) (use assms in \<open>auto simp: ulog_capacity_p_def\<close>)
  then show ?thesis using log_idle_cong(2) [of "lane_log pop i k" m' m] assms by (simp add: log_new_def)
qed

definition lanes_aligned :: "PMEMobjpool \<Rightarrow> bool" where
  "lanes_aligned pop \<longleftrightarrow> lanes_place pop \<and> 0 < unat (lanes_offset (pop_layout pop)) \<and> unat (lanes_offset (pop_layout pop)) mod 64 = 0"

lemma construct_lane_log:
  assumes al: "lanes_aligned pop" and i: "i < n_lanes pop" and k: "k < 3"
  shows "\<exists>m'. ulog_construct m (OBJ_PTR_TO_OFF pop (lane_log pop i k)) (log_size k) (pop_addr pop) = Some m' \<and> log_new pop m' i k \<and>
    (\<forall>a. a < lane_log pop i k \<or> lane_log pop i k + 64 + unat (log_size k) \<le> a \<longrightarrow> m' a = m a)"
proof -
  let ?d = "lane_log pop i k - pop_addr pop"
  have place: "lanes_place pop" using al by (simp add: lanes_aligned_def)
  note sp = lane_log_span [OF place i, of k]
  have d: "lane_log pop i k = pop_addr pop + ?d" using sp by simp
  have o: "?d = unat (lanes_offset (pop_layout pop)) + 3072 * i + (if k = 0 then 0 else if k = 1 then 256 else 960)"
    by (simp add: lane_log_eq [OF place i])
  have "(3072 * i) mod 64 = 0" by simp
  then have q: "?d mod 64 = 0" "0 < ?d" using al unfolding o lanes_aligned_def by (auto simp: mod_add_eq [symmetric])
  have r: "?d < 2 ^ 61" using sp place by (auto simp: lanes_place_def objpool_ok_def heap_hi_def)
  have "8 \<le> unat (log_size k)" using log_size_room [of k] by simp
  from ulog_construct_log [OF q r this, of m pop] show ?thesis unfolding log_new_def d [symmetric] conj_assoc .
qed

lemma init_data_lane:
  assumes al: "lanes_aligned pop" and i: "i < n_lanes pop"
  shows "\<exists>m'. init_data_loop pop (i # is) m = init_data_loop pop is m' \<and> (\<forall>k<3. log_new pop m' i k) \<and>
    (\<forall>a. a < lane_at pop i \<or> lane_at pop i + 3072 \<le> a \<longrightarrow> m' a = m a)"
proof -
  have place: "lanes_place pop" using al by (simp add: lanes_aligned_def)
  note C = construct_lane_log [OF al i]
  obtain m0 where m0: "ulog_construct m (OBJ_PTR_TO_OFF pop (lane_log pop i 0)) (log_size 0) (pop_addr pop) = Some m0" "log_new pop m0 i 0"
    "\<And>a. a < lane_log pop i 0 \<or> lane_log pop i 0 + 64 + unat (log_size 0) \<le> a \<Longrightarrow> m0 a = m a" using C [of 0 m] by auto
  obtain m1 where m1: "ulog_construct m0 (OBJ_PTR_TO_OFF pop (lane_log pop i 1)) (log_size 1) (pop_addr pop) = Some m1" "log_new pop m1 i 1"
    "\<And>a. a < lane_log pop i 1 \<or> lane_log pop i 1 + 64 + unat (log_size 1) \<le> a \<Longrightarrow> m1 a = m0 a" using C [of 1 m0] by auto
  obtain m2 where m2: "ulog_construct m1 (OBJ_PTR_TO_OFF pop (lane_log pop i 2)) (log_size 2) (pop_addr pop) = Some m2" "log_new pop m2 i 2"
    "\<And>a. a < lane_log pop i 2 \<or> lane_log pop i 2 + 64 + unat (log_size 2) \<le> a \<Longrightarrow> m2 a = m1 a" using C [of 2 m1] by auto
  note pos = lane_log_def lane_ptr_defs log_size_defs
  have "log_new pop m2 i 1" using m1(2) by (subst log_new_cong [of _ _ _ _ m1]) (auto simp: m2(3) pos)
  moreover have "log_new pop m1 i 0" using m0(2) by (subst log_new_cong [of _ _ _ _ m0]) (auto simp: m1(3) pos)
  then have "log_new pop m2 i 0" by (subst log_new_cong [of _ _ _ _ m1]) (auto simp: m2(3) pos)
  moreover have "k < 3 \<longleftrightarrow> k = 0 \<or> k = 1 \<or> k = 2" for k :: nat by auto
  moreover have "m2 a = m a" if "a < lane_at pop i \<or> lane_at pop i + 3072 \<le> a" for a
    using that m0(3) [of a] m1(3) [of a] m2(3) [of a] by (auto simp: pos)
  moreover have "init_data_loop pop (i # is) m = init_data_loop pop is m2"
    using m0(1) m1(1) m2(1) by (simp add: lane_log_def log_size_def Let_def)
  ultimately show ?thesis using m2(2) by (intro exI [of _ m2]) auto
qed

lemma lane_log_in_lane: "lane_at pop i \<le> lane_log pop i k" "lane_log pop i k + 72 \<le> lane_at pop i + 3072"
  by (auto simp: lane_log_def lane_ptr_defs)

lemma lanes_apart:
  assumes "lanes_place pop" and "i < n_lanes pop" and "j < n_lanes pop" and "i \<noteq> j"
  shows "lane_at pop i + 3072 \<le> lane_at pop j \<or> lane_at pop j + 3072 \<le> lane_at pop i"
proof -
  have "3072 * i + 3072 \<le> 3072 * j \<or> 3072 * j + 3072 \<le> 3072 * i" using assms(4) by (auto simp: nat_neq_iff Suc_le_eq)
  then show ?thesis by (auto simp: lane_at_eq [OF assms(1,2)] lane_at_eq [OF assms(1,3)])
qed

lemma init_data_lanes:
  assumes al: "lanes_aligned pop" and "distinct is" and "set is \<subseteq> {..<n_lanes pop}"
  shows "\<exists>m'. init_data_loop pop is m = Some m' \<and> (\<forall>i\<in>set is. \<forall>k<3. log_new pop m' i k) \<and>
    (\<forall>a. (\<forall>i\<in>set is. a < lane_at pop i \<or> lane_at pop i + 3072 \<le> a) \<longrightarrow> m' a = m a)"
  using assms(2,3)
proof (induction "is" arbitrary: m)
  case (Cons i "is")
  have place: "lanes_place pop" using al by (simp add: lanes_aligned_def)
  have i: "i < n_lanes pop" "i \<notin> set is" using Cons.prems by auto
  obtain m1 where m1: "init_data_loop pop (i # is) m = init_data_loop pop is m1" "\<forall>k<3. log_new pop m1 i k"
    "\<And>a. a < lane_at pop i \<or> lane_at pop i + 3072 \<le> a \<Longrightarrow> m1 a = m a" using init_data_lane [OF al i(1)] by blast
  obtain m' where m': "init_data_loop pop is m1 = Some m'" "\<forall>i\<in>set is. \<forall>k<3. log_new pop m' i k"
    "\<And>a. (\<forall>i\<in>set is. a < lane_at pop i \<or> lane_at pop i + 3072 \<le> a) \<Longrightarrow> m' a = m1 a" using Cons by fastforce
  have "log_new pop m' i k" if "k < 3" for k
  proof -
    have "m' a = m1 a" if a: "lane_log pop i k \<le> a" "a < lane_log pop i k + 72" for a
    proof (rule m'(3), rule ballI)
      fix j assume "j \<in> set is"
      then have "lane_at pop i + 3072 \<le> lane_at pop j \<or> lane_at pop j + 3072 \<le> lane_at pop i"
        using Cons.prems i by (intro lanes_apart [OF place]) auto
      then show "a < lane_at pop j \<or> lane_at pop j + 3072 \<le> a" using a lane_log_in_lane [of pop i k] by auto
    qed
    then show ?thesis using m1(2) that log_new_cong [of pop i k m' m1] by blast
  qed
  then show ?case using m1(1,3) m' by auto
qed simp

text \<open>A new pool: every log of every lane is empty and has its size, and nothing outside the lanes changed.\<close>

lemma init_data_spec:
  assumes al: "lanes_aligned pop"
  shows "\<exists>m'. lane_init_data pop m = Some m' \<and> (\<forall>i<n_lanes pop. \<forall>k<3. log_new pop m' i k) \<and> pool_idle pop m' \<and> heap_eq pop m' m"
proof -
  have place: "lanes_place pop" using al by (simp add: lanes_aligned_def)
  obtain m' where m': "lane_init_data pop m = Some m'" "\<forall>i<n_lanes pop. \<forall>k<3. log_new pop m' i k"
    "\<And>a. (\<forall>i<n_lanes pop. a < lane_at pop i \<or> lane_at pop i + 3072 \<le> a) \<Longrightarrow> m' a = m a"
    using init_data_lanes [OF al, of "[0..<n_lanes pop]" m] by (auto simp: lane_init_data_def atLeast0LessThan)
  have "lane_at pop i + 3072 \<le> heap_lo pop" if "i < n_lanes pop" for i
    using lane_log_span(2) [OF place that, of 2] by (simp add: lane_log_def lane_ptr_defs log_size_defs)
  then have "heap_eq pop m' m" using m'(3) unfolding heap_eq_def by (meson le_trans)
  moreover have "log_new pop m' i 0" "log_new pop m' i 1" "log_new pop m' i 2" if "i < n_lanes pop" for i using m'(2) that by auto
  then have "pool_idle pop m'" by (simp add: pool_idle_def log_new_def log_empty_def)
  ultimately show ?thesis using m'(1,2) by blast
qed

section \<open>The contexts of the lanes\<close>

text \<open>What \<open>lane_boot\<close> gets from the volatile allocator: blocks outside the pool that do not overlap. The block of
  number \<open>2 k\<close> is the first of call \<open>k\<close>, that of number \<open>2 k + 1\<close> the second.\<close>

definition boot_block :: "lane_env \<Rightarrow> nat \<Rightarrow> addr" where
  "boot_block env b = the ((if even b then fst else snd) (snd (ln_new env (b div 2))))"

definition boot_allocs :: "PMEMobjpool \<Rightarrow> lane_env \<Rightarrow> bool" where
  "boot_allocs pop env \<longleftrightarrow>
     (\<forall>k < 3 * n_lanes pop. ln_new env k = (True, Some (boot_block env (2 * k)), Some (boot_block env (2 * k + 1)))) \<and>
     (\<forall>b < 6 * n_lanes pop. volatile_block pop (boot_block env b) \<and>
        (\<forall>c < 6 * n_lanes pop. b \<noteq> c \<longrightarrow> boot_block env b + 1088 \<le> boot_block env c \<or> boot_block env c + 1088 \<le> boot_block env b))"

definition ctx_ready :: "PMEMobjpool \<Rightarrow> lane_env \<Rightarrow> mem \<Rightarrow> nat \<Rightarrow> nat \<Rightarrow> operation_context \<Rightarrow> bool" where
  "ctx_ready pop env m i k ctx \<longleftrightarrow>
     oc_type ctx = (if k = 2 then LOG_TYPE_UNDO else LOG_TYPE_REDO) \<and> oc_base ctx = pop_addr pop \<and>
     oc_ulog ctx = lane_log pop i k \<and> oc_base_nbytes ctx = log_size k \<and> oc_next ctx = [] \<and> merge_entries ctx = VECQ_INIT \<and>
     pshadow_ops ctx = \<lparr>ol_capacity = 1024, ol_offset = 0, ol_ulog = boot_block env (2 * (3 * i + k) + 1)\<rparr> \<and>
     ol_offset (transient_ops ctx) = 0 \<and>
     rd64 m (ulog_capacity_p (boot_block env (2 * (3 * i + k) + 1))) = log_size k"

definition call_off :: "lane_env \<Rightarrow> nat \<Rightarrow> addr \<Rightarrow> bool" where
  "call_off env c a \<longleftrightarrow> outside (boot_block env (2 * c)) a \<and> outside (boot_block env (2 * c + 1)) a"

lemma call_off_block:
  assumes "boot_allocs pop env" and "b < 6 * n_lanes pop" and "c < 3 * n_lanes pop" and "b div 2 \<noteq> c"
    and "boot_block env b \<le> a" and "a < boot_block env b + 1088"
  shows "call_off env c a"
proof -
  have "outside (boot_block env d) a" if "d = 2 * c \<or> d = 2 * c + 1" for d
  proof -
    have "d < 6 * n_lanes pop" "b \<noteq> d" using that assms(3,4) by auto
    then have "boot_block env b + 1088 \<le> boot_block env d \<or> boot_block env d + 1088 \<le> boot_block env b"
      using assms(1,2) by (auto simp: boot_allocs_def)
    then show ?thesis using assms(5,6) by (auto simp: outside_def)
  qed
  then show ?thesis by (simp add: call_off_def)
qed

lemma ctx_ready_frame:
  assumes "ctx_ready pop env m i k ctx" and "boot_allocs pop env" and "i < n_lanes pop" and "k < 3" and "c < 3 * n_lanes pop" and "c \<noteq> 3 * i + k"
    and "\<And>a. call_off env c a \<Longrightarrow> m' a = m a"
  shows "ctx_ready pop env m' i k ctx"
proof -
  let ?b = "2 * (3 * i + k) + 1"
  have "3 * i + k < 3 * n_lanes pop" using assms(3,4) by simp
  then have b: "?b < 6 * n_lanes pop" by simp
  have "rd64 m' (ulog_capacity_p (boot_block env ?b)) = rd64 m (ulog_capacity_p (boot_block env ?b))"
    by (rule rd64_cong, rule assms(7), rule call_off_block [OF assms(2) b assms(5)]) (use assms(6) in \<open>auto simp: ulog_capacity_p_def\<close>)
  then show ?thesis using assms(1) by (simp add: ctx_ready_def)
qed

lemma call_pool:
  assumes "boot_allocs pop env" and "c < 3 * n_lanes pop" and "\<And>a. call_off env c a \<Longrightarrow> m' a = m a"
  shows "pool_eq pop m' m"
  unfolding pool_eq_def
proof (intro allI impI)
  fix a assume a: "pop_addr pop \<le> a" "a < heap_hi pop"
  have "2 * c < 6 * n_lanes pop" "2 * c + 1 < 6 * n_lanes pop" using assms(2) by auto
  then have "volatile_block pop (boot_block env (2 * c))" "volatile_block pop (boot_block env (2 * c + 1))"
    using assms(1) unfolding boot_allocs_def by blast+
  then have "call_off env c a" using a by (auto simp: call_off_def outside_def volatile_block_def)
  then show "m' a = m a" by (rule assms(3))
qed

lemma new_ready:
  assumes al: "boot_allocs pop env" and i: "i < n_lanes pop" "k < 3" and log: "log_empty m (lane_log pop i k)"
  shows "\<exists>ctx m'. (case ln_new env (3 * i + k) of (ok, ta, pa) \<Rightarrow>
      operation_new ok ta pa (lane_log pop i k) (log_size k) ext fr (pop_addr pop) (if k = 2 then LOG_TYPE_UNDO else LOG_TYPE_REDO) m) =
      Some (Some ctx, m') \<and> ctx_ready pop env m' i k ctx \<and> (\<forall>a. call_off env (3 * i + k) a \<longrightarrow> m' a = m a)"
proof -
  let ?c = "3 * i + k"
  have "?c < 3 * n_lanes pop" using i by simp
  then have n: "ln_new env ?c = (True, Some (boot_block env (2 * ?c)), Some (boot_block env (2 * ?c + 1)))"
    using al unfolding boot_allocs_def by blast
  show ?thesis unfolding n prod.case
    using operation_new_empty [OF log, of "boot_block env (2 * ?c)" "boot_block env (2 * ?c + 1)" "log_size k" ext fr "pop_addr pop"
        "if k = 2 then LOG_TYPE_UNDO else LOG_TYPE_REDO"]
    by (auto simp: ctx_ready_def call_off_def)
qed

definition lane_ready :: "PMEMobjpool \<Rightarrow> lane_env \<Rightarrow> mem \<Rightarrow> nat \<Rightarrow> lane \<Rightarrow> bool" where
  "lane_ready pop env m i l \<longleftrightarrow> lane_layout l = lane_at pop i \<and> ctx_ready pop env m i 0 (lane_internal l) \<and>
     ctx_ready pop env m i 1 (lane_external l) \<and> ctx_ready pop env m i 2 (lane_undo l)"

lemma lane_init_ready:
  assumes al: "boot_allocs pop env" and place: "lanes_place pop" and i: "i < n_lanes pop" and logs: "\<forall>k<3. log_empty m (lane_log pop i k)"
  shows "\<exists>l m'. lane_init env (3 * i) pop (lane_at pop i) m = Some (Some l, m') \<and> lane_ready pop env m' i l \<and>
    (\<forall>a. (\<forall>k<3. call_off env (3 * i + k) a) \<longrightarrow> m' a = m a)"
proof -
  have c: "3 * i + k < 3 * n_lanes pop" if "k < 3" for k using i that by simp
  note keep = log_empty_pool(1) [OF place _ i]
  note N = new_ready [OF al i]
  have l0: "log_empty m (lane_log pop i 0)" using logs by simp
  obtain x0 m0 where x0: "new_internal env (3 * i) pop (lane_at pop i) m = Some (Some x0, m0)" "ctx_ready pop env m0 i 0 x0"
    "\<And>a. call_off env (3 * i + 0) a \<Longrightarrow> m0 a = m a"
    using N [of 0 m None "\<lambda>m p. m"] l0 unfolding new_internal_def by (auto simp: lane_log_def log_size_def)
  have p0: "pool_eq pop m0 m" by (rule call_pool [OF al c [of 0] x0(3)]) simp_all
  have l1: "log_empty m0 (lane_log pop i 1)" using keep [OF p0, of 1] logs by simp
  obtain x1 m1 where x1: "new_external env (3 * i + 1) pop (lane_at pop i) m0 = Some (Some x1, m1)" "ctx_ready pop env m1 i 1 x1"
    "\<And>a. call_off env (3 * i + 1) a \<Longrightarrow> m1 a = m0 a"
    using N [of 1 m0 "Some (lane_redo_extend (ln_pmalloc_construct env) pop)" "ln_pfree env"] l1
    unfolding new_external_def by (auto simp: lane_log_def log_size_def)
  have p1: "pool_eq pop m1 m0" by (rule call_pool [OF al c [of 1] x1(3)]) simp_all
  have l2: "log_empty m1 (lane_log pop i 2)" using keep [OF p1, of 2] keep [OF p0, of 2] logs by simp
  obtain x2 m2 where x2: "new_undo env (3 * i + 2) pop (lane_at pop i) m1 = Some (Some x2, m2)" "ctx_ready pop env m2 i 2 x2"
    "\<And>a. call_off env (3 * i + 2) a \<Longrightarrow> m2 a = m1 a"
    using N [of 2 m1 "Some (lane_undo_extend (ln_pmalloc_construct env) pop (ln_cache_size env))" "ln_pfree env"] l2
    unfolding new_undo_def by (auto simp: lane_log_def log_size_def)
  have r0: "ctx_ready pop env m2 i 0 x0"
    by (rule ctx_ready_frame [OF ctx_ready_frame [OF x0(2) al i _ c [of 1] _ x1(3)] al i _ c [of 2] _ x2(3)]) auto
  have r1: "ctx_ready pop env m2 i 1 x1"
    by (rule ctx_ready_frame [OF x1(2) al i _ c [of 2] _ x2(3)]) auto
  have "m2 a = m a" if "\<forall>k<3. call_off env (3 * i + k) a" for a
  proof -
    have "call_off env (3 * i + 0) a" "call_off env (3 * i + 1) a" "call_off env (3 * i + 2) a"
      by (rule that [rule_format]; simp)+
    then show ?thesis using x0(3) x1(3) x2(3) by simp
  qed
  then show ?thesis
    using x0(1) x1(1) x2(1,2) r0 r1 by (simp add: lane_init_def lane_ready_def)
qed

lemma lane_ready_frame:
  assumes "lane_ready pop env m i l" and "boot_allocs pop env" and "i < n_lanes pop" and "j < n_lanes pop" and "i \<noteq> j"
    and "\<And>a. (\<forall>k<3. call_off env (3 * j + k) a) \<Longrightarrow> m' a = m a"
  shows "lane_ready pop env m' i l"
proof -
  have "ctx_ready pop env m' i k ctx" if k: "k < 3" and r: "ctx_ready pop env m i k ctx" for k ctx
  proof -
    let ?b = "2 * (3 * i + k) + 1"
    have "3 * i + k < 3 * n_lanes pop" using assms(3) k by simp
    then have b: "?b < 6 * n_lanes pop" by simp
    have off: "call_off env (3 * j + n) a" if "n < 3" "boot_block env ?b \<le> a" "a < boot_block env ?b + 1088" for n a
    proof (rule call_off_block [OF assms(2) b _ _ that(2,3)])
      show "3 * j + n < 3 * n_lanes pop" using assms(4) that(1) by simp
      have "3 * i + k \<noteq> 3 * j + n" using k that(1) assms(5) by presburger
      then show "?b div 2 \<noteq> 3 * j + n" by simp
    qed
    have "rd64 m' (ulog_capacity_p (boot_block env ?b)) = rd64 m (ulog_capacity_p (boot_block env ?b))"
      by (rule rd64_cong, rule assms(6)) (use off in \<open>auto simp: ulog_capacity_p_def\<close>)
    then show ?thesis using r by (simp add: ctx_ready_def)
  qed
  then show ?thesis using assms(1) by (simp add: lane_ready_def)
qed

lemma boot_loop_ready:
  assumes al: "boot_allocs pop env" and place: "lanes_place pop"
    and "\<forall>i<n_lanes pop. \<forall>k<3. log_empty m (lane_log pop i k)" and "length ls \<le> n_lanes pop" and "\<forall>i<length ls. lane_ready pop env m i (ls ! i)"
  shows "\<exists>ls' m'. lane_boot_loop env pop [length ls..<n_lanes pop] ls m = Some (0, Some ls', m') \<and> length ls' = n_lanes pop \<and>
    (\<forall>i<n_lanes pop. lane_ready pop env m' i (ls' ! i)) \<and> pool_eq pop m' m"
  using assms(3-)
proof (induction "n_lanes pop - length ls" arbitrary: ls m)
  case 0
  then show ?case by (simp add: pool_eq_def)
next
  case (Suc d)
  let ?i = "length ls"
  have i: "?i < n_lanes pop" using Suc.hyps(2) by simp
  obtain l m1 where l: "lane_init env (3 * ?i) pop (lane_at pop ?i) m = Some (Some l, m1)" "lane_ready pop env m1 ?i l"
    "\<And>a. (\<forall>k<3. call_off env (3 * ?i + k) a) \<Longrightarrow> m1 a = m a"
    using lane_init_ready [OF al place i] Suc.prems(1) i by blast
  have eq: "pool_eq pop m1 m"
    unfolding pool_eq_def
  proof (intro allI impI, rule l(3), intro allI impI)
    fix a k :: nat assume a: "pop_addr pop \<le> a" "a < heap_hi pop" "k < 3"
    have "2 * (3 * ?i + k) < 6 * n_lanes pop" "2 * (3 * ?i + k) + 1 < 6 * n_lanes pop" using a(3) i by auto
    then have "volatile_block pop (boot_block env (2 * (3 * ?i + k)))" "volatile_block pop (boot_block env (2 * (3 * ?i + k) + 1))"
      using al unfolding boot_allocs_def by blast+
    then show "call_off env (3 * ?i + k) a" using a by (auto simp: call_off_def outside_def volatile_block_def)
  qed
  have logs: "\<forall>i<n_lanes pop. \<forall>k<3. log_empty m1 (lane_log pop i k)"
  proof (intro allI impI)
    fix j k :: nat assume jk: "j < n_lanes pop" "k < 3"
    have "log_empty m1 (lane_log pop j k) = log_empty m (lane_log pop j k)" using log_empty_pool(1) [OF place eq jk(1)] .
    then show "log_empty m1 (lane_log pop j k)" using Suc.prems(1) jk by simp
  qed
  have ready: "\<forall>j<length (ls @ [l]). lane_ready pop env m1 j ((ls @ [l]) ! j)"
  proof (intro allI impI)
    fix j assume j: "j < length (ls @ [l])"
    show "lane_ready pop env m1 j ((ls @ [l]) ! j)"
    proof (cases "j = ?i")
      case True
      then show ?thesis using l(2) by simp
    next
      case False
      then have "j < ?i" using j by simp
      then have "lane_ready pop env m1 j (ls ! j)"
        using Suc.prems(3) i by (intro lane_ready_frame [OF _ al _ i _ l(3)]) auto
      then show ?thesis using \<open>j < ?i\<close> by (simp add: nth_append)
    qed
  qed
  have "\<exists>ls' m'. lane_boot_loop env pop [length (ls @ [l])..<n_lanes pop] (ls @ [l]) m1 = Some (0, Some ls', m') \<and> length ls' = n_lanes pop \<and>
    (\<forall>i<n_lanes pop. lane_ready pop env m' i (ls' ! i)) \<and> pool_eq pop m' m1"
    by (rule Suc.hyps(1)) (use Suc.hyps(2) i logs ready in auto)
  then show ?case using l(1) eq i by (auto simp: upt_conv_Cons pool_eq_def)
qed

text \<open>The external context of a booted lane is ready for the operations on lists.\<close>

lemma lane_ready_ok:
  assumes "lane_ready pop env m i l" and "boot_allocs pop env" and "lanes_place pop" and "i < n_lanes pop"
  shows "lane_ok pop (lane_external l) m"
proof -
  let ?b = "2 * (3 * i + 1) + 1"
  have "3 * i + 1 < 3 * n_lanes pop" using assms(4) by simp
  then have "?b < 6 * n_lanes pop" by simp
  then have "volatile_block pop (boot_block env ?b)" using assms(2) unfolding boot_allocs_def by blast
  then show ?thesis
    using assms(1) lane_log_span [OF assms(3,4), of 1] init_queue
    by (auto simp: lane_ready_def ctx_ready_def lane_ok_def volatile_block_def log_size_defs)
qed

lemma lane_boot_ready:
  assumes al: "boot_allocs pop env" and place: "lanes_place pop" and logs: "\<forall>i<n_lanes pop. \<forall>k<3. log_empty m (lane_log pop i k)"
  shows "\<exists>d m'. lane_boot env True True pop desc m = Some (0, Some d, m') \<and> length (lanes d) = n_lanes pop \<and>
    lane_locks d = replicate (n_lanes pop) 0 \<and> pool_eq pop m' m \<and>
    (\<forall>j<n_lanes pop. lane_ready pop env m' j (lanes d ! j) \<and> lane_ok pop (lane_external (lanes d ! j)) m')"
proof -
  obtain ls m' where "lane_boot_loop env pop [0..<n_lanes pop] [] m = Some (0, Some ls, m')" "length ls = n_lanes pop"
    "\<forall>i<n_lanes pop. lane_ready pop env m' i (ls ! i)" "pool_eq pop m' m"
    using boot_loop_ready [OF al place logs, of "[]"] by auto
  moreover from this have "\<forall>j<n_lanes pop. lane_ok pop (lane_external (ls ! j)) m'" using lane_ready_ok [OF _ al place] by blast
  ultimately show ?thesis by (simp add: lane_boot_def)
qed

end
