(* ===== verification/Lane_Recovery.thy ===== *)
theory Lane_Recovery
  imports Plist_Theorems Lane_Logs
begin

text \<open>
  Lists and lanes together: when the power fails during an operation on a list, recovering all lanes of the pool
  as \<open>lane_recover_and_section_boot\<close> does gives the list from before or after the operation. The lanes that a new
  pool has and that \<open>lane_boot\<close> makes contexts for are as this needs them.
\<close>

section \<open>Recovery during a list operation\<close>

text \<open>The lane \<open>j\<close> is used for an operation: its external context is \<open>ctx\<close>, and the logs of all lanes are idle.\<close>

definition in_lane :: "PMEMobjpool \<Rightarrow> nat \<Rightarrow> operation_context \<Rightarrow> mem \<Rightarrow> bool" where
  "in_lane pop j ctx m \<longleftrightarrow> lanes_place pop \<and> j < n_lanes pop \<and> oc_ulog ctx = lane_log pop j 1 \<and>
     oc_base_nbytes ctx = LANE_REDO_EXTERNAL_SIZE \<and> pool_idle pop m"

lemma run_recovers:
  assumes r: "list_run pop pe head U A ls0 ws l" and len: "length ws \<le> 12" and two: "2 \<le> card (fst ` set ws)"
    and L: "plist pop pe head (put_words ws (ls_mem ls0)) ys" and ys: "set ys \<subseteq> U" and lane: "in_lane pop j (ls_ctx ls0) (ls_mem ls0)"
    and env: "allocs_ok pop lenv" "boot_keeps pop boot"
    and ph: "redo_phases (ls_ctx l) (ls_mem l) = Some [m1, m2, m3]" and c: "mixed m1 m2 c"
  shows "\<exists>m. lane_recover_and_section_boot lenv boot pop c = Some (0, m) \<and> plist pop pe head m ys \<and> pool_idle pop m"
proof -
  have P: "place_ok pop pe head U" and lk: "lane_ok pop (ls_ctx ls0) (ls_mem ls0)" and col: "collected pop ls0 ws l"
    using r by (auto simp: list_run_def)
  then have pool: "objpool_ok pop" by (simp add: place_ok_def)
  note off = collected_two [OF pool col two]
  let ?p = "lane_log pop j 1" and ?s = "shadow_addr (ls_ctx l)"
  have sl: "same_lane (ls_ctx ls0) (ls_ctx l)" and ws: "\<forall>w\<in>set ws. heap_span pop (fst w) 8"
    using collectedD [OF col] by auto
  have p: "oc_ulog (ls_ctx l) = ?p" "oc_base_nbytes (ls_ctx l) = 640"
    using sl lane by (auto simp: same_lane_def in_lane_def LANE_REDO_EXTERNAL_SIZE_def)
  let ?r = "ulog_clobber (put_words ws m1) ?p None"
  have m2: "m2 = put_words ws m1"
    and new: "heap_eq pop ?r (put_words ws (ls_mem ls0))"
    and rec: "ulog_recover c ?p (pop_addr pop) = Some ?r"
    and fr: "\<And>a. a \<notin> {?p ..< ?p + 704} \<Longrightarrow> a \<notin> {?s ..< ?s + 16} \<Longrightarrow> m1 a = ls_mem l a"
    using lane_redo [OF lk pool col len off] ph c unfolding p by auto
  have place: "lanes_place pop" and j: "j < n_lanes pop" and idle: "pool_idle pop (ls_mem ls0)" using lane by (auto simp: in_lane_def)
  have log: "m1 a = ls_mem ls0 a" "put_words ws m1 a = m1 a" "c a = m1 a" "?r a = m1 a"
    if a: "lane_log pop i k \<le> a" "a < lane_log pop i k + 72" and ik: "i < n_lanes pop" "k < 3" "(i, k) \<noteq> (j, 1)" for a i k
  proof -
    have "log_size 1 = 640" by (simp add: log_size_defs)
    then have "lane_log pop i k + 72 \<le> ?p \<or> ?p + 704 \<le> lane_log pop i k"
      using lane_logs_apart [OF place ik(1) j ik(2) _ ik(3)] log_size_room [of k] by simp linarith
    then have h: "a < heap_lo pop" "pop_addr pop \<le> a" "a \<notin> {?p ..< ?p + 704}"
      using a lane_log_span [OF place ik(1), of k] log_size_room [of k] by auto
    have s: "a < shadow_addr (ls_ctx ls0) \<or> shadow_addr (ls_ctx ls0) + 64 + 1024 \<le> a"
      using h lk by (auto simp: lane_ok_def heap_hi_def)
    have "?s = shadow_addr (ls_ctx ls0)" using sl by (simp add: same_lane_def)
    then have "m1 a = ls_mem l a" using fr [OF h(3)] s by auto
    also have "\<dots> = ls_mem ls0 a" using collectedD(5) [OF col] s by (auto simp: ulog_data_def)
    finally show "m1 a = ls_mem ls0 a" .
    have "\<forall>w\<in>set ws. {fst w ..< fst w + 8} \<subseteq> {heap_lo pop ..< heap_hi pop}" using ws by (auto simp: heap_span_def)
    then show q: "put_words ws m1 a = m1 a" by (rule put_words_out) (use h in auto)
    then show "c a = m1 a" using c by (auto simp: mixed_def m2)
    show "?r a = m1 a" using q h(3) by (auto simp: ulog_clobber_def Let_def store_out)
  qed
  have before: "log_idle c (lane_log pop i k)" if "i < n_lanes pop" "k < 2" "(i, k) \<noteq> (j, 1)" for i k
    using that pool_idle_log(1) [OF idle, of i k] log by (subst log_idle_cong(1) [of _ _ "ls_mem ls0"]) auto
  have after: "log_idle ?r (lane_log pop i k) \<and> (k = 2 \<longrightarrow> log_empty ?r (lane_log pop i k))" if "i < n_lanes pop" "k < 3" for i k
  proof (cases "(i, k) = (j, 1)")
    case True
    then show ?thesis by (simp add: log_idle_def ulog_clobber_capacity)
  next
    case False
    then show ?thesis
      using that pool_idle_log [OF idle that] log log_idle_cong [of "lane_log pop i k" ?r "ls_mem ls0"] by auto
  qed
  have "recover_redo_loop pop [0..<n_lanes pop] c = Some ?r"
    by (rule recover_redo_one [OF j rec before]) (use after in auto)
  moreover have "pool_idle pop ?r" using after [of _ 0] after [of _ 1] after [of _ 2] by (simp add: pool_idle_def)
  ultimately obtain m where m: "lane_recover_and_section_boot lenv boot pop c = Some (0, m)" "pool_eq pop m ?r" "pool_idle pop m"
    using boot_recovered [OF place env] by blast
  have "heap_eq pop m ?r" using m(2) by (auto simp: pool_eq_def heap_eq_def heap_lo_def)
  then have "plist pop pe head m ys" using plist_heap_eq [OF P L ys heap_eq_trans [OF _ new]] by blast
  then show ?thesis using m by blast
qed

text \<open>What recovery of the whole pool makes of a failure during an operation whose changes are all collected in
  \<open>l\<close>: the list that it starts from, when the redo log was not yet written, and the new list, when the redo log
  was being applied.\<close>

definition recovers :: "lane_env \<Rightarrow> (mem \<Rightarrow> int \<times> mem) \<Rightarrow> PMEMobjpool \<Rightarrow> u64 \<Rightarrow> addr \<Rightarrow> mem \<Rightarrow> u64 list \<Rightarrow> bool" where
  "recovers lenv boot pop pe head c xs \<longleftrightarrow>
     (\<exists>m. lane_recover_and_section_boot lenv boot pop c = Some (0, m) \<and> plist pop pe head m xs \<and> pool_idle pop m)"

definition pool_atomic :: "lane_env \<Rightarrow> (mem \<Rightarrow> int \<times> mem) \<Rightarrow> PMEMobjpool \<Rightarrow> u64 \<Rightarrow> addr \<Rightarrow> list_state \<Rightarrow> u64 list \<Rightarrow> u64 list \<Rightarrow> bool" where
  "pool_atomic lenv boot pop pe head l xs ys \<longleftrightarrow> recovers lenv boot pop pe head (ls_mem l) xs \<and>
     (\<exists>m1 m2 m3. redo_phases (ls_ctx l) (ls_mem l) = Some [m1, m2, m3] \<and>
        (\<forall>c. mixed m1 m2 c \<longrightarrow> recovers lenv boot pop pe head c ys))"

lemma idle_recovers:
  assumes "lanes_place pop" and "allocs_ok pop lenv" and "boot_keeps pop boot" and idle: "pool_idle pop c"
    and "place_ok pop pe head U" and "plist pop pe head c xs" and "set xs \<subseteq> U"
  shows "recovers lenv boot pop pe head c xs"
proof -
  have "recover_redo_loop pop [0..<n_lanes pop] c = Some c"
    by (rule recover_redo_idle) (use idle in \<open>auto simp: pool_idle_def\<close>)
  from boot_recovered [OF assms(1-3) this idle]
  obtain m where m: "lane_recover_and_section_boot lenv boot pop c = Some (0, m)" "pool_eq pop m c" "pool_idle pop m" by blast
  have "heap_eq pop m c" using m(2) by (auto simp: pool_eq_def heap_eq_def heap_lo_def)
  then show ?thesis using m plist_heap_eq [OF assms(5-7)] by (auto simp: recovers_def)
qed

lemma collected_idle:
  assumes "lanes_place pop" and "lane_ok pop (ls_ctx ls0) (ls_mem ls0)" and "collected pop ls0 ws l" and "pool_idle pop (ls_mem ls0)"
  shows "pool_idle pop (ls_mem l)"
proof -
  have "pool_eq pop (ls_mem l) (ls_mem ls0)"
    using assms(2) collectedD(5) [OF assms(3)] by (auto simp: pool_eq_def lane_ok_def ulog_data_def)
  then show ?thesis using pool_idle_eq [OF assms(1)] assms(4) by simp
qed

lemma run_pool_atomic:
  assumes r: "list_run pop pe head U A ls0 ws l" and len: "length ws \<le> 12" and two: "2 \<le> card (fst ` set ws)"
    and L0: "plist pop pe head (ls_mem ls0) xs" and xs: "set xs \<subseteq> U"
    and L: "plist pop pe head (put_words ws (ls_mem ls0)) ys" and ys: "set ys \<subseteq> U" and lane: "in_lane pop j (ls_ctx ls0) (ls_mem ls0)"
    and env: "allocs_ok pop lenv" "boot_keeps pop boot"
  shows "pool_atomic lenv boot pop pe head l xs ys"
proof -
  have P: "place_ok pop pe head U" and lk: "lane_ok pop (ls_ctx ls0) (ls_mem ls0)" and col: "collected pop ls0 ws l"
    using r by (auto simp: list_run_def)
  have at: "list_atomic pop pe head l xs ys" by (rule run_atomic [OF r len two L0 xs L ys])
  have place: "lanes_place pop" and idle: "pool_idle pop (ls_mem ls0)" using lane by (auto simp: in_lane_def)
  have "recovers lenv boot pop pe head (ls_mem l) xs"
    by (rule idle_recovers [OF place env collected_idle [OF place lk col idle] P _ xs]) (use at in \<open>simp add: list_atomic_def\<close>)
  moreover obtain m1 m2 m3 where ph: "redo_phases (ls_ctx l) (ls_mem l) = Some [m1, m2, m3]" using at by (auto simp: list_atomic_def)
  ultimately show ?thesis
    using run_recovers [OF r len two L ys lane env ph] unfolding pool_atomic_def recovers_def by blast
qed

lemma area_in_heap: "place_ok pop pe head U \<Longrightarrow> a \<in> list_area pop pe head U \<Longrightarrow> heap_lo pop \<le> a \<and> a < heap_hi pop"
  by (auto simp: place_ok_def list_area_def heap_span_def)

lemma idle_outside_heap:
  assumes place: "lanes_place pop" and idle: "pool_idle pop m" and eq: "\<And>a. a < heap_lo pop \<Longrightarrow> m' a = m a"
  shows "pool_idle pop m'"
proof -
  have "log_idle m' (lane_log pop i k) = log_idle m (lane_log pop i k) \<and> log_empty m' (lane_log pop i k) = log_empty m (lane_log pop i k)"
    if "i < n_lanes pop" for i k
    using log_idle_cong [of "lane_log pop i k" m' m] eq lane_log_span(2) [OF place that, of k] log_size_room [of k] by auto
  then show ?thesis using idle by (simp add: pool_idle_def)
qed

lemma insert_pool_atomic:
  assumes ok: "list_ok pop pe head U ls xs" and lane: "in_lane pop j (ls_ctx ls) (ls_mem ls)" and env: "allocs_ok pop lenv" "boot_keeps pop boot"
    and x: "oid_off oid \<in> U" "oid_off oid \<notin> set xs" "oid_off dest = 0 \<or> oid_off dest \<in> set xs"
  shows "pool_atomic lenv boot pop pe head (list_insert_collect env pop ls pe head dest before oid) xs
    (ins_at (before \<noteq> 0) (resolve (oid_off dest) (before \<noteq> 0) xs) (oid_off oid) xs)" (is "pool_atomic _ _ _ _ _ ?i _ ?ys")
proof -
  have U: "set xs \<subseteq> U" and P: "place_ok pop pe head U" using ok by (auto simp: list_ok_def)
  obtain ls0 ws where r: "list_run pop pe head U (list_area pop pe head U) ls0 ws ?i" "length ws \<le> 12" "2 \<le> card (fst ` set ws)"
    "ls_ctx ls0 = ls_ctx ls" "\<And>a. a \<notin> list_area pop pe head U \<Longrightarrow> ls_mem ls0 a = ls_mem ls a"
    "plist pop pe head (ls_mem ls0) xs" "plist pop pe head (put_words ws (ls_mem ls0)) ?ys"
    using insert_collect_run [OF ok x, of env before] by blast
  have "ls_mem ls0 a = ls_mem ls a" if "a < heap_lo pop" for a
    using that area_in_heap [OF P, of a] by (intro r(5)) auto
  then have "in_lane pop j (ls_ctx ls0) (ls_mem ls0)"
    using lane idle_outside_heap [of pop "ls_mem ls" "ls_mem ls0"] by (simp add: in_lane_def r(4))
  moreover have "set ?ys \<subseteq> U" using U x by simp
  ultimately show ?thesis by (intro run_pool_atomic [OF r(1-3,6) U r(7) _ _ env])
qed

lemma remove_pool_atomic:
  assumes ok: "list_ok pop pe head U ls xs" and lane: "in_lane pop j (ls_ctx ls) (ls_mem ls)" and env: "allocs_ok pop lenv" "boot_keeps pop boot"
    and x: "oid_off oid \<in> set xs"
  shows "pool_atomic lenv boot pop pe head (list_remove_collect env pop ls pe head oid) xs (remove1 (oid_off oid) xs)"
    (is "pool_atomic _ _ _ _ _ ?i _ ?ys")
proof -
  have U: "set xs \<subseteq> U" and L: "plist pop pe head (ls_mem ls) xs" using ok by (auto simp: list_ok_def)
  obtain ws where r: "list_run pop pe head U (list_area pop pe head U) ls ws ?i" "length ws \<le> 12" "2 \<le> card (fst ` set ws)"
    "plist pop pe head (put_words ws (ls_mem ls)) ?ys"
    using remove_collect_run [OF ok x, of env] by blast
  have "set ?ys \<subseteq> U" using U set_remove1_subset by fastforce
  then show ?thesis by (rule run_pool_atomic [OF r(1-3) L U r(4) _ lane env])
qed

section \<open>Errors\<close>

text \<open>\<open>lane_check\<close> reports success also for a pool in which the internal log of a lane does not verify: the variable
  that it returns is never set.\<close>

lemma lane_check_always_ok: "lane_check pop m = Some r \<Longrightarrow> r = 0"
proof -
  have "lane_check_loop pop js 0 m = Some r \<Longrightarrow> r = 0" for js
    by (induction js) (auto simp: bind_eq_Some_conv split: if_splits)
  then show "lane_check pop m = Some r \<Longrightarrow> r = 0" by (simp add: lane_check_def)
qed

text \<open>When there is no memory for the context of an undo log, recovery reports success without having rolled
  back this and the following lanes.\<close>

lemma undo_recovery_lost:
  assumes "recover_redo_loop pop [0..<n_lanes pop] m = Some r" and "boot r = (0, b)" and "0 < n_lanes pop" and "fst (ln_new env 0) = False"
  shows "lane_recover_and_section_boot env boot pop m = Some (0, b)"
proof -
  have "[0..<n_lanes pop] = 0 # [1..<n_lanes pop]" using assms(3) by (simp add: upt_conv_Cons)
  moreover have "new_undo env 0 pop l b = Some (None, b)" for l
    using assms(4) by (cases "ln_new env 0") (simp add: new_undo_def operation_new_def)
  ultimately have "recover_undo_loop env pop [0..<n_lanes pop] 0 b = Some (0, b)" by simp
  then show ?thesis using assms(1,2) by (simp add: lane_recover_and_section_boot_def Let_def)
qed

text \<open>\<open>lane_boot\<close> reports success when the array of locks cannot be allocated, and leaves null pointers behind.\<close>

lemma lane_boot_no_locks: "lane_boot env True False pop desc m = Some (0, None, m)"
  by (simp add: lane_boot_def)

section \<open>Properties\<close>



section \<open>Examples\<close>

definition sample_lane_env :: lane_env where
  "sample_lane_env = \<lparr>ln_pmalloc_construct = (\<lambda>_ _ m p. (- 1, m)), ln_pfree = (\<lambda>m p. m), ln_cache_size = 32768,
     ln_new = (\<lambda>k. (True, Some (300000 + 4096 * k), Some (302048 + 4096 * k)))\<rparr>"

definition sample_lane_list :: list_state where
  "sample_lane_list = sample_list\<lparr>ls_ctx := (ls_ctx sample_list)\<lparr>oc_ulog := 8448\<rparr>\<rparr>"

lemma sample_blocks: "boot_block sample_lane_env b = 300000 + 2048 * b"
  by (cases "even b") (auto simp: boot_block_def sample_lane_env_def elim!: evenE oddE)

lemma sample_place: "lanes_aligned sample_pool" "lanes_place sample_pool"
  by (simp_all add: lanes_aligned_def lanes_place_def objpool_ok_def heap_lo_def heap_hi_def sample_pool_def)

lemma sample_volatile: "heap_hi sample_pool \<le> p \<Longrightarrow> volatile_block sample_pool p"
  by (simp add: volatile_block_def)

lemma sample_allocs: "allocs_ok sample_pool sample_lane_env" "boot_allocs sample_pool sample_lane_env"
proof -
  have hi: "heap_hi sample_pool = 131072" by (simp add: heap_hi_def heap_lo_def sample_pool_def)
  show "allocs_ok sample_pool sample_lane_env"
    by (auto simp: allocs_ok_def sample_lane_env_def hi intro!: sample_volatile)
  show "boot_allocs sample_pool sample_lane_env"
    unfolding boot_allocs_def sample_blocks
    by (auto simp: sample_lane_env_def hi intro!: sample_volatile)
qed

lemma sample_boot: "boot_keeps sample_pool (Pair 0)"
  by (simp add: boot_keeps_def pool_eq_def)

lemma sample_in_lane: "in_lane sample_pool 0 (ls_ctx sample_lane_list) (ls_mem sample_lane_list)"
proof -
  have n: "n_lanes sample_pool = 1" by (simp add: sample_pool_def)
  have log: "lane_log sample_pool 0 k = 8192 + (if k = 0 then 0 else if k = 1 then 256 else 960)" for k
    by (simp add: lane_log_eq [OF sample_place(2)] n) (simp add: sample_pool_def)
  have z: "rd64 (ls_mem sample_list) a = 0" if "a + 8 \<le> 200016" for a
    using that by (simp add: sample_list_def rd64_wr64_disjoint)
  have "pool_idle sample_pool (ls_mem sample_list)"
    by (simp add: pool_idle_def n log log_idle_def log_empty_def ulog_field_defs z)
  then show ?thesis
    by (simp add: in_lane_def sample_place n log sample_lane_list_def) (simp add: sample_list_def LANE_REDO_EXTERNAL_SIZE_def)
qed

lemma sample_lane_list_ok: "list_ok sample_pool 16 70000 {80000, 80064, 80128} sample_lane_list []"
  using sample_list_ok by (auto simp: list_ok_def lane_ok_def sample_lane_list_def sample_pool_def heap_lo_def heap_hi_def sample_list_def)



end
