(* ===== verification/Lane_Threads.thy ===== *)
theory Lane_Threads
  imports Lane Memops_Theorems Simulation
begin

text \<open>
  Threads that take and release lanes: the search for a free lane, the interleaving of the threads as a step
  relation with its invariant, and the calls of \<^verbatim>\<open>lane.c\<close> as sequences of these steps.
\<close>

section \<open>Finding a free lane\<close>

lemma unat_mod_u64: "unat ((x::u64) mod n) = unat x mod unat n"
  by (rule unat_mod_distrib)

text \<open>What one round does at the lane \<open>i\<close>, and the record with which the search ends there.\<close>

definition missed :: "u64 \<Rightarrow> lane_info \<Rightarrow> lane_info" where
  "missed i info = (if i = primary info \<and> primary_attempts info > 0
     then info\<lparr>primary_attempts := primary_attempts info - 1\<rparr> else info)"

definition taken :: "u64 \<Rightarrow> lane_info \<Rightarrow> lane_info" where
  "taken i info =
     (if i = primary info then info\<lparr>lane_idx := i, primary_attempts := LANE_PRIMARY_ATTEMPTS\<rparr>
      else if primary_attempts info = 0 then info\<lparr>lane_idx := i, primary := i, primary_attempts := LANE_PRIMARY_ATTEMPTS\<rparr>
      else info\<lparr>lane_idx := i\<rparr>)"

lemma get_lane_try_eq:
  assumes "nlocks \<noteq> 0" and "unat nlocks \<le> length locks"
  shows "get_lane_try locks info nlocks =
    (let i = lane_idx info mod nlocks
     in Some (if locks ! unat i = 0 then (True, locks[unat i := 1], taken i info)
              else (False, locks, (missed i info)\<lparr>lane_idx := i + 1\<rparr>)))"
proof -
  have "unat (lane_idx info mod nlocks) < unat nlocks"
    using assms(1) by (simp add: unat_mod_u64 unat_gt_0)
  then have "unat (lane_idx info mod nlocks) < length locks" using assms(2) by simp
  then show ?thesis using assms(1) by (simp add: get_lane_try_def Let_def taken_def missed_def)
qed

lemma missed_simps [simp]:
  "lane_idx (missed i info) = lane_idx info" "nest_count (missed i info) = nest_count info" "primary (missed i info) = primary info"
  "pop_uuid_lo (missed i info) = pop_uuid_lo info" "li_prev (missed i info) = li_prev info" "li_next (missed i info) = li_next info"
  by (simp_all add: missed_def)

lemma taken_simps [simp]:
  "lane_idx (taken i info) = i" "nest_count (taken i info) = nest_count info"
  "pop_uuid_lo (taken i info) = pop_uuid_lo info" "li_prev (taken i info) = li_prev info" "li_next (taken i info) = li_next info"
  "taken i (info\<lparr>lane_idx := j\<rparr>) = taken i info"
  by (simp_all add: taken_def)

lemma missed_idx [simp]: "missed i (info\<lparr>lane_idx := j\<rparr>) = (missed i info)\<lparr>lane_idx := j\<rparr>"
  by (simp add: missed_def)

text \<open>The lane that is \<open>d\<close> lanes after the place of the search, modulo their number.\<close>

definition lane_after :: "u64 \<Rightarrow> u64 \<Rightarrow> nat \<Rightarrow> nat" where
  "lane_after nlocks i d = (unat i + d) mod unat nlocks"

lemma lane_after_lt: "nlocks \<noteq> 0 \<Longrightarrow> lane_after nlocks i d < unat nlocks"
  by (simp add: lane_after_def unat_gt_0)

lemma lane_after_0: "lane_after nlocks i 0 = unat (i mod nlocks)"
  by (simp add: lane_after_def unat_mod_u64)

lemma lane_after_step:
  assumes "nlocks \<noteq> 0"
  shows "lane_after nlocks (i mod nlocks + 1) d = lane_after nlocks i (Suc d)"
proof -
  have "unat (i mod nlocks) < unat nlocks" using assms by (simp add: unat_mod_u64 unat_gt_0)
  then have "unat (i mod nlocks) + 1 < 2 ^ 64" using unsigned_less [of nlocks, where 'a = nat] by simp
  then have "unat (i mod nlocks + 1) = unat i mod unat nlocks + 1"
    by (subst unat_plus_u64) (simp_all add: unat_mod_u64)
  then have "lane_after nlocks (i mod nlocks + 1) d = (unat i mod unat nlocks + (1 + d)) mod unat nlocks"
    by (simp add: lane_after_def)
  also have "\<dots> = lane_after nlocks i (Suc d)" unfolding mod_add_left_eq by (simp add: lane_after_def)
  finally show ?thesis .
qed

lemma get_lane_loop_free:
  assumes n: "nlocks \<noteq> 0" "unat nlocks \<le> length locks"
    and "locks ! lane_after nlocks (lane_idx info) d = 0" and "\<forall>e<d. locks ! lane_after nlocks (lane_idx info) e \<noteq> 0"
    and "\<forall>e<d. lane_after nlocks (lane_idx info) e \<noteq> unat (primary info)"
  shows "get_lane_loop locks info nlocks =
    (let k = lane_after nlocks (lane_idx info) d in Some (locks[k := 1], taken (of_nat k) info))"
  using assms(3-)
proof (induction d arbitrary: info)
  case 0
  then show ?case
    by (subst get_lane_loop.simps) (simp add: get_lane_try_eq [OF n] lane_after_0 Let_def)
next
  case (Suc d)
  let ?i = "lane_idx info mod nlocks"
  let ?info = "info\<lparr>lane_idx := ?i + 1\<rparr>"
  have ne: "locks ! unat ?i \<noteq> 0" "unat ?i \<noteq> unat (primary info)"
    using Suc.prems(2,3) lane_after_0 [of nlocks "lane_idx info"] by (metis zero_less_Suc)+
  then have "missed ?i info = info" by (auto simp: missed_def)
  then have "get_lane_loop locks info nlocks = get_lane_loop locks ?info nlocks"
    by (subst get_lane_loop.simps) (use ne in \<open>simp add: get_lane_try_eq [OF n] Let_def\<close>)
  also have "\<dots> = (let k = lane_after nlocks (lane_idx info) (Suc d) in Some (locks[k := 1], taken (of_nat k) info))"
    using Suc.IH [of ?info] Suc.prems lane_after_step [OF n(1), of "lane_idx info"] by (simp add: Let_def)
  finally show ?case .
qed

lemma get_lane_loop_Some:
  assumes "get_lane_loop locks info nlocks = Some r" and "nlocks \<noteq> 0" and "unat nlocks \<le> length locks"
  shows "\<exists>k < unat nlocks. locks ! k = 0"
proof -
  have "nlocks \<noteq> 0 \<longrightarrow> unat nlocks \<le> length locks \<longrightarrow> (\<exists>k < unat nlocks. locks ! k = 0)"
  proof (rule get_lane_loop.raw_induct [OF _ assms(1), where
      P = "\<lambda>locks info nlocks r. nlocks \<noteq> 0 \<longrightarrow> unat nlocks \<le> length locks \<longrightarrow> (\<exists>k < unat nlocks. locks ! k = 0)"])
    fix loop locks info nlocks and r :: "u64 list \<times> lane_info"
    assume "\<And>locks info nlocks (r :: u64 list \<times> lane_info). loop locks info nlocks = Some r \<Longrightarrow>
        nlocks \<noteq> 0 \<longrightarrow> unat nlocks \<le> length locks \<longrightarrow> (\<exists>k < unat nlocks. locks ! k = 0)"
      "get_lane_try locks info nlocks \<bind> (\<lambda>(got, locks, info). if got then Some (locks, info) else loop locks info nlocks) = Some r"
    note IH = this(1) and body = this(2)
    show "nlocks \<noteq> 0 \<longrightarrow> unat nlocks \<le> length locks \<longrightarrow> (\<exists>k < unat nlocks. locks ! k = 0)"
    proof (intro impI)
      assume n: "nlocks \<noteq> 0" "unat nlocks \<le> length locks"
      let ?i = "unat (lane_idx info mod nlocks)"
      have "?i < unat nlocks" using lane_after_lt [OF n(1), of "lane_idx info" 0] by (simp add: lane_after_0)
      then show "\<exists>k < unat nlocks. locks ! k = 0"
        using body IH n by (cases "locks ! ?i = 0") (auto simp: get_lane_try_eq [OF n] Let_def)
    qed
  qed
  then show ?thesis using assms by blast
qed

definition lanes_from :: "u64 \<Rightarrow> u64 \<Rightarrow> nat list" where
  "lanes_from nlocks i = map (lane_after nlocks i) [0..<unat nlocks]"

lemma lanes_from_set:
  assumes "nlocks \<noteq> 0"
  shows "set (lanes_from nlocks i) = {..<unat nlocks}"
proof -
  have "k \<in> lane_after nlocks i ` {..<unat nlocks}" if "k < unat nlocks" for k
  proof -
    let ?N = "unat nlocks"
    let ?d = "(k + (?N - unat i mod ?N)) mod ?N"
    have "unat i mod ?N < ?N" using that by simp
    then have e: "unat i mod ?N + (k + (?N - unat i mod ?N)) = k + ?N" by linarith
    have "lane_after nlocks i ?d = (unat i mod ?N + (k + (?N - unat i mod ?N))) mod ?N"
      by (simp add: lane_after_def mod_simps)
    also have "\<dots> = k" unfolding e using that by simp
    finally have "k = lane_after nlocks i ?d" by simp
    moreover have "?d < ?N" using that by simp
    ultimately show ?thesis by blast
  qed
  then show ?thesis using lane_after_lt [OF assms] by (auto simp: lanes_from_def atLeast0LessThan)
qed

lemma find_lane:
  assumes "find P (map f [0..<n]) = Some k"
  obtains d where "d < n" "k = f d" "P (f d)" "\<forall>e<d. \<not> P (f e)"
  using assms by (auto simp: find_Some_iff)

lemma get_lane_first:
  assumes n: "nlocks \<noteq> 0" "unat nlocks \<le> length locks" and k: "find (\<lambda>k. locks ! k = 0) (lanes_from nlocks (primary info)) = Some k"
  shows "get_lane locks info nlocks = Some (locks[k := 1], taken (of_nat k)
      (if k = unat (primary info mod nlocks) then info else missed (primary info mod nlocks) info))"
proof -
  let ?p = "primary info" and ?L = "lane_after nlocks (primary info)" and ?info = "info\<lparr>lane_idx := primary info\<rparr>"
  obtain d where d: "d < unat nlocks" "k = ?L d" "locks ! ?L d = 0" "\<forall>e<d. locks ! ?L e \<noteq> 0"
    using k unfolding lanes_from_def by (rule find_lane)
  show ?thesis
  proof (cases d)
    case 0
    then show ?thesis
      using get_lane_loop_free [OF n, of ?info 0] d by (simp add: get_lane_def Let_def lane_after_0)
  next
    case (Suc c)
    let ?i = "?p mod nlocks"
    let ?next = "(missed ?i info)\<lparr>lane_idx := ?i + 1\<rparr>"
    have shift: "lane_after nlocks (?i + 1) e = ?L (Suc e)" for e by (rule lane_after_step [OF n(1)])
    have inj: "?L e \<noteq> ?L 0" if "0 < e" "e < unat nlocks" for e
    proof
      assume "?L e = ?L 0"
      then have "unat nlocks dvd (unat ?p + e) - (unat ?p + 0)"
        unfolding lane_after_def by (subst mod_eq_dvd_iff_nat [symmetric]) simp_all
      then show False using that by (auto dest: dvd_imp_le)
    qed
    have np: "?L e \<noteq> unat ?p" if "0 < e" "e < unat nlocks" for e
      using inj [OF that] lane_after_lt [OF n(1), of ?p e] by (auto simp: lane_after_def)
    have "locks ! unat ?i \<noteq> 0" using d(4) Suc lane_after_0 [of nlocks ?p] by (metis zero_less_Suc)
    then have "get_lane locks info nlocks = get_lane_loop locks ?next nlocks"
      unfolding get_lane_def by (subst get_lane_loop.simps) (simp add: get_lane_try_eq [OF n] Let_def)
    also have "\<dots> = Some (locks[k := 1], taken (of_nat k) ?next)"
      using get_lane_loop_free [OF n, of ?next c] d Suc np by (simp add: shift Let_def)
    finally show ?thesis using inj [of d] d Suc by (simp add: lane_after_0)
  qed
qed

lemma get_lane_cases:
  assumes n: "nlocks \<noteq> 0" "unat nlocks \<le> length locks"
  shows "get_lane locks info nlocks =
    (case find (\<lambda>k. locks ! k = 0) (lanes_from nlocks (primary info)) of None \<Rightarrow> None
     | Some k \<Rightarrow> Some (locks[k := 1], taken (of_nat k)
         (if k = unat (primary info mod nlocks) then info else missed (primary info mod nlocks) info)))"
proof (cases "find (\<lambda>k. locks ! k = 0) (lanes_from nlocks (primary info))")
  case None
  then have "\<forall>k < unat nlocks. locks ! k \<noteq> 0" using lanes_from_set [OF n(1)] by (auto simp: find_None_iff)
  then have "get_lane locks info nlocks = None"
    using get_lane_loop_Some [OF _ n] unfolding get_lane_def by (metis option.exhaust)
  then show ?thesis using None by simp
next
  case (Some k)
  then show ?thesis using get_lane_first [OF n] by simp
qed

section \<open>Threads\<close>

text \<open>The lanes of one pool with the threads that use them: the shared descriptor, the record of every
  thread, the threads inside the loop of \<open>get_lane\<close>, and the lanes that were detached from their
  threads.\<close>

record 't lane_sys =
  sys_desc :: lanes_desc
  sys_info :: "'t \<Rightarrow> lane_info"
  sys_spin :: "'t set"
  sys_detached :: "u32 set"

abbreviation sys_locks :: "'t lane_sys \<Rightarrow> u64 list" where
  "sys_locks s \<equiv> lane_locks (sys_desc s)"

abbreviation sys_nlanes :: "'t lane_sys \<Rightarrow> u64" where
  "sys_nlanes s \<equiv> ucast (runtime_nlanes (sys_desc s))"

text \<open>The steps of the threads. Each has at most one access to shared data, which is atomic in the code: a
  fetch-and-add of the next index, or a compare-and-swap of a lock.\<close>

inductive lane_step :: "'t lane_sys \<Rightarrow> 't lane_sys \<Rightarrow> bool" where
  hold_outer: "t \<notin> sys_spin s \<Longrightarrow> nest_count (sys_info s t) = 0 \<Longrightarrow> first_lane (sys_desc s) (sys_info s t) = (desc, i) \<Longrightarrow>
    lane_step s (s\<lparr>sys_desc := desc, sys_info := (sys_info s)(t := i\<lparr>nest_count := 1, lane_idx := primary i\<rparr>),
      sys_spin := insert t (sys_spin s)\<rparr>)"
| hold_nested: "t \<notin> sys_spin s \<Longrightarrow> nest_count (sys_info s t) \<noteq> 0 \<Longrightarrow> nest_count (sys_info s t) \<noteq> - 1 \<Longrightarrow>
    lane_step s (s\<lparr>sys_info := (sys_info s)(t := (sys_info s t)\<lparr>nest_count := nest_count (sys_info s t) + 1\<rparr>)\<rparr>)"
| try_lane: "t \<in> sys_spin s \<Longrightarrow> get_lane_try (sys_locks s) (sys_info s t) (sys_nlanes s) = Some (got, locks, i) \<Longrightarrow>
    lane_step s (s\<lparr>sys_desc := (sys_desc s)\<lparr>lane_locks := locks\<rparr>, sys_info := (sys_info s)(t := i),
      sys_spin := (if got then sys_spin s - {t} else sys_spin s)\<rparr>)"
| release: "t \<notin> sys_spin s \<Longrightarrow> release_info (sys_locks s) (sys_info s t) = Some (locks, i) \<Longrightarrow>
    lane_step s (s\<lparr>sys_desc := (sys_desc s)\<lparr>lane_locks := locks\<rparr>, sys_info := (sys_info s)(t := i)\<rparr>)"
| detach: "t \<notin> sys_spin s \<Longrightarrow> nest_count (sys_info s t) = 1 \<Longrightarrow> detach_info (sys_info s t) = (l, i) \<Longrightarrow>
    lane_step s (s\<lparr>sys_info := (sys_info s)(t := i), sys_detached := insert l (sys_detached s)\<rparr>)"
| attach: "t \<notin> sys_spin s \<Longrightarrow> nest_count (sys_info s t) = 0 \<Longrightarrow> l \<in> sys_detached s \<Longrightarrow>
    lane_step s (s\<lparr>sys_info := (sys_info s)(t := attach_info l (sys_info s t)), sys_detached := sys_detached s - {l}\<rparr>)"

text \<open>Whether a thread has the lane \<open>k\<close>, whether somebody owns it, and the state after \<open>lane_boot\<close>.\<close>

definition holds :: "'t lane_sys \<Rightarrow> 't \<Rightarrow> nat \<Rightarrow> bool" where
  "holds s t k \<longleftrightarrow> t \<notin> sys_spin s \<and> nest_count (sys_info s t) \<noteq> 0 \<and> unat (lane_idx (sys_info s t)) = k"

definition owned :: "'t lane_sys \<Rightarrow> nat \<Rightarrow> bool" where
  "owned s k \<longleftrightarrow> (\<exists>t. holds s t k) \<or> (\<exists>l\<in>sys_detached s. unat l = k)"

definition lanes_initial :: "'t lane_sys \<Rightarrow> bool" where
  "lanes_initial s \<longleftrightarrow> runtime_nlanes (sys_desc s) \<noteq> 0 \<and> unat (runtime_nlanes (sys_desc s)) \<le> length (sys_locks s) \<and>
     set (sys_locks s) \<subseteq> {0} \<and> (\<forall>t. nest_count (sys_info s t) = 0) \<and> sys_spin s = {} \<and> sys_detached s = {}"

definition lanes_inv :: "'t lane_sys \<Rightarrow> bool" where
  "lanes_inv s \<longleftrightarrow> runtime_nlanes (sys_desc s) \<noteq> 0 \<and> unat (runtime_nlanes (sys_desc s)) \<le> length (sys_locks s) \<and>
     (\<forall>k < unat (runtime_nlanes (sys_desc s)). sys_locks s ! k = (if owned s k then 1 else 0)) \<and>
     (\<forall>k. owned s k \<longrightarrow> k < unat (runtime_nlanes (sys_desc s))) \<and>
     (\<forall>t u k. holds s t k \<and> holds s u k \<longrightarrow> t = u) \<and>
     (\<forall>t. \<forall>l\<in>sys_detached s. \<not> holds s t (unat l)) \<and>
     (\<forall>t\<in>sys_spin s. nest_count (sys_info s t) = 1)"

lemma nlanes_nonzero [simp]: "ucast (w :: u32) = (0 :: u64) \<longleftrightarrow> w = 0"
  by (metis unat_u32_u64 unat_eq_zero)

lemma unat_ucast_lane: "unat (x :: u64) < unat (n :: u32) \<Longrightarrow> unat (ucast x :: u32) = unat x"
  using unsigned_less [of n, where 'a = nat] by (simp add: unsigned_ucast_eq take_bit_nat_eq_self)

lemma lanes_inv_initial: "lanes_initial s \<Longrightarrow> lanes_inv s"
  by (auto simp: lanes_initial_def lanes_inv_def holds_def owned_def) (meson nth_mem order_less_le_trans singletonD subsetD)

text \<open>The invariant depends on the state only through who has which lane.\<close>

lemma lanes_inv_cong:
  assumes "lanes_inv s" and "\<And>t k. holds s' t k = holds s t k" and "sys_detached s' = sys_detached s"
    and "sys_locks s' = sys_locks s" and "runtime_nlanes (sys_desc s') = runtime_nlanes (sys_desc s)"
    and "\<forall>t\<in>sys_spin s'. nest_count (sys_info s' t) = 1"
  shows "lanes_inv s'"
proof -
  have "owned s' k = owned s k" for k by (simp add: owned_def assms(2,3))
  then show ?thesis using assms by (simp add: lanes_inv_def)
qed

lemma lanes_invD:
  assumes "lanes_inv s"
  shows "runtime_nlanes (sys_desc s) \<noteq> 0" "unat (runtime_nlanes (sys_desc s)) \<le> length (sys_locks s)"
    "k < unat (runtime_nlanes (sys_desc s)) \<Longrightarrow> sys_locks s ! k = (if owned s k then 1 else 0)"
    "owned s k \<Longrightarrow> k < unat (runtime_nlanes (sys_desc s))" "holds s t k \<Longrightarrow> holds s u k \<Longrightarrow> t = u"
    "l \<in> sys_detached s \<Longrightarrow> \<not> holds s t (unat l)" "t \<in> sys_spin s \<Longrightarrow> nest_count (sys_info s t) = 1"
  using assms unfolding lanes_inv_def by blast+

lemma lanes_invI:
  assumes "lanes_inv s" and "runtime_nlanes (sys_desc s') = runtime_nlanes (sys_desc s)" and "length (sys_locks s') = length (sys_locks s)"
    and "\<And>k. k < unat (runtime_nlanes (sys_desc s)) \<Longrightarrow> sys_locks s' ! k = (if owned s' k then 1 else 0)"
    and "\<And>k. owned s' k \<Longrightarrow> k < unat (runtime_nlanes (sys_desc s))"
    and "\<And>t u k. holds s' t k \<Longrightarrow> holds s' u k \<Longrightarrow> t = u" and "\<And>l t. l \<in> sys_detached s' \<Longrightarrow> \<not> holds s' t (unat l)"
    and "\<forall>t\<in>sys_spin s'. nest_count (sys_info s' t) = 1"
  shows "lanes_inv s'"
  unfolding lanes_inv_def assms(2,3) using assms(4-) lanes_invD(1,2) [OF assms(1)] by blast

lemma lanes_inv_take:
  assumes inv: "lanes_inv s" and h: "\<And>u j. holds s' u j \<longleftrightarrow> holds s u j \<or> u = t \<and> j = k" and d: "sys_detached s' = sys_detached s"
    and l: "sys_locks s' = (sys_locks s)[k := 1]" and n: "runtime_nlanes (sys_desc s') = runtime_nlanes (sys_desc s)"
    and "\<forall>t\<in>sys_spin s'. nest_count (sys_info s' t) = 1"
    and k: "k < unat (runtime_nlanes (sys_desc s))" and free: "sys_locks s ! k = 0"
  shows "lanes_inv s'"
proof (rule lanes_invI [OF inv n])
  note I = lanes_invD [OF inv]
  have o: "owned s' j \<longleftrightarrow> owned s j \<or> j = k" for j by (auto simp: owned_def h d)
  have no: "\<not> owned s k" using I(3) [OF k] free by auto
  show "length (sys_locks s') = length (sys_locks s)" by (simp add: l)
  show "sys_locks s' ! j = (if owned s' j then 1 else 0)" if "j < unat (runtime_nlanes (sys_desc s))" for j
    using that I(2) I(3) [OF that] by (cases "j = k") (auto simp: l o)
  show "j < unat (runtime_nlanes (sys_desc s))" if "owned s' j" for j using that k I(4) by (auto simp: o)
  show "a = b" if "holds s' a j" "holds s' b j" for a b j using that no I(5) by (auto simp: h owned_def)
  show "\<not> holds s' a (unat b)" if "b \<in> sys_detached s'" for a b using that no I(6) by (auto simp: h d owned_def)
qed (rule assms(6))

lemma lanes_inv_drop:
  assumes inv: "lanes_inv s" and t: "holds s t k" and h: "\<And>u j. holds s' u j \<longleftrightarrow> holds s u j \<and> u \<noteq> t" and d: "sys_detached s' = sys_detached s"
    and l: "sys_locks s' = (sys_locks s)[k := 0]" and n: "runtime_nlanes (sys_desc s') = runtime_nlanes (sys_desc s)"
    and "\<forall>t\<in>sys_spin s'. nest_count (sys_info s' t) = 1"
  shows "lanes_inv s'"
proof (rule lanes_invI [OF inv n])
  note I = lanes_invD [OF inv]
  have only: "holds s t j \<longleftrightarrow> j = k" for j using t by (auto simp: holds_def)
  have o: "owned s' j \<longleftrightarrow> owned s j \<and> j \<noteq> k" for j
    using t only I(5,6) unfolding owned_def h d by metis
  show "length (sys_locks s') = length (sys_locks s)" by (simp add: l)
  show "sys_locks s' ! j = (if owned s' j then 1 else 0)" if "j < unat (runtime_nlanes (sys_desc s))" for j
    using that I(2) I(3) [OF that] by (cases "j = k") (auto simp: l o)
  show "j < unat (runtime_nlanes (sys_desc s))" if "owned s' j" for j using that I(4) by (auto simp: o)
  show "a = b" if "holds s' a j" "holds s' b j" for a b j using that I(5) by (auto simp: h)
  show "\<not> holds s' a (unat b)" if "b \<in> sys_detached s'" for a b using that I(6) by (auto simp: h d)
qed (rule assms(7))

text \<open>A lane that changes its owner stays locked.\<close>

lemma lanes_inv_hand_over:
  assumes inv: "lanes_inv s" and o: "\<And>j. owned s' j \<longleftrightarrow> owned s j" and e: "sys_desc s' = sys_desc s"
    and "\<And>t u k. holds s' t k \<Longrightarrow> holds s' u k \<Longrightarrow> t = u" and "\<And>l t. l \<in> sys_detached s' \<Longrightarrow> \<not> holds s' t (unat l)"
    and "\<forall>t\<in>sys_spin s'. nest_count (sys_info s' t) = 1"
  shows "lanes_inv s'"
  by (rule lanes_invI [OF inv]) (use lanes_invD(3,4) [OF inv] assms(4-) in \<open>auto simp: o e\<close>)

lemma lanes_inv_detach:
  assumes inv: "lanes_inv s" and t: "holds s t (unat l)" and h: "\<And>u j. holds s' u j \<longleftrightarrow> holds s u j \<and> u \<noteq> t"
    and d: "sys_detached s' = insert l (sys_detached s)" and "sys_desc s' = sys_desc s"
    and "\<forall>t\<in>sys_spin s'. nest_count (sys_info s' t) = 1"
  shows "lanes_inv s'"
proof (rule lanes_inv_hand_over [OF inv _ assms(5)])
  note I = lanes_invD [OF inv]
  have only: "holds s t j \<longleftrightarrow> j = unat l" for j using t by (auto simp: holds_def)
  show "owned s' j \<longleftrightarrow> owned s j" for j unfolding owned_def h d using only by auto
  show "a = b" if "holds s' a j" "holds s' b j" for a b j using that I(5) by (auto simp: h)
  show "\<not> holds s' a (unat b)" if "b \<in> sys_detached s'" for a b using that t I(5,6) by (auto simp: h d)
qed (rule assms(6))

lemma lanes_inv_attach:
  assumes inv: "lanes_inv s" and l: "l \<in> sys_detached s" and h: "\<And>u j. holds s' u j \<longleftrightarrow> holds s u j \<or> u = t \<and> j = unat l"
    and d: "sys_detached s' = sys_detached s - {l}" and "sys_desc s' = sys_desc s"
    and "\<forall>t\<in>sys_spin s'. nest_count (sys_info s' t) = 1"
  shows "lanes_inv s'"
proof (rule lanes_inv_hand_over [OF inv _ assms(5)])
  note I = lanes_invD [OF inv]
  show "owned s' j \<longleftrightarrow> owned s j" for j unfolding owned_def h d using l by auto
  show "a = b" if "holds s' a j" "holds s' b j" for a b j using that l I(5,6) by (auto simp: h)
  show "\<not> holds s' a (unat b)" if "b \<in> sys_detached s'" for a b using that I(6) by (auto simp: h d word_unat_eq_iff)
qed (rule assms(6))

text \<open>Giving up a hold never runs into one of the two fatal errors.\<close>

lemma holds_lock:
  assumes "lanes_inv s" and "holds s t k"
  shows "k < unat (runtime_nlanes (sys_desc s))" "k < length (sys_locks s)" "sys_locks s ! k = 1"
proof -
  have "owned s k" using assms(2) by (auto simp: owned_def)
  then show "k < unat (runtime_nlanes (sys_desc s))" "k < length (sys_locks s)" "sys_locks s ! k = 1"
    using lanes_invD [OF assms(1)] by (metis order_less_le_trans)+
qed

lemma release_held:
  assumes "lanes_inv s" and "holds s t k"
  shows "release_info (sys_locks s) (sys_info s t) =
    Some (if nest_count (sys_info s t) = 1 then (sys_locks s)[k := 0] else sys_locks s,
          (sys_info s t)\<lparr>nest_count := nest_count (sys_info s t) - 1\<rparr>)"
  using holds_lock [OF assms] assms(2) by (auto simp: release_info_def holds_def Let_def)

lemma try_spinning:
  assumes "lanes_inv s"
  shows "get_lane_try (sys_locks s) i (sys_nlanes s) =
    (let l = lane_idx i mod sys_nlanes s
     in Some (if sys_locks s ! unat l = 0 then (True, (sys_locks s)[unat l := 1], taken l i)
              else (False, sys_locks s, (missed l i)\<lparr>lane_idx := l + 1\<rparr>)))"
  by (rule get_lane_try_eq) (use lanes_invD(1,2) [OF assms] in auto)

lemma lanes_inv_step: "lane_step s s' \<Longrightarrow> lanes_inv s \<Longrightarrow> lanes_inv s'"
proof (induction rule: lane_step.induct)
  case (hold_outer t s desc i)
  then have "runtime_nlanes desc = runtime_nlanes (sys_desc s)" "lane_locks desc = sys_locks s"
    by (auto simp: first_lane_def split: if_splits)
  then show ?case
    by (intro lanes_inv_cong [OF hold_outer.prems]) (use hold_outer lanes_invD(7) in \<open>auto simp: holds_def\<close>)
next
  case (hold_nested t s)
  then show ?case
    by (intro lanes_inv_cong [OF hold_nested.prems]) (use lanes_invD(7) in \<open>auto simp: holds_def eq_neg_iff_add_eq_0\<close>)
next
  case (try_lane t s got locks i)
  let ?l = "lane_idx (sys_info s t) mod sys_nlanes s"
  have l: "unat ?l < unat (runtime_nlanes (sys_desc s))"
    using lane_after_lt [of "sys_nlanes s" "lane_idx (sys_info s t)" 0] lanes_invD(1) [OF try_lane.prems] by (simp add: lane_after_0)
  have n: "nest_count (sys_info s t) = 1" using lanes_invD(7) [OF try_lane.prems try_lane.hyps(1)] .
  show ?case
  proof (cases "sys_locks s ! unat ?l = 0")
    case True
    then have "got" "locks = (sys_locks s)[unat ?l := 1]" "i = taken ?l (sys_info s t)"
      using try_lane.hyps(2) by (simp_all add: try_spinning [OF try_lane.prems] Let_def)
    then show ?thesis
      by (intro lanes_inv_take [OF try_lane.prems, where t = t and k = "unat ?l"])
        (use try_lane.hyps(1) lanes_invD(7) [OF try_lane.prems] l True n in \<open>auto simp: holds_def\<close>)
  next
    case False
    then have "\<not> got" "locks = sys_locks s" "nest_count i = 1"
      using try_lane.hyps(2) n by (auto simp: try_spinning [OF try_lane.prems] Let_def)
    then show ?thesis
      by (intro lanes_inv_cong [OF try_lane.prems])
        (use try_lane.hyps(1) lanes_invD(7) [OF try_lane.prems] in \<open>auto simp: holds_def\<close>)
  qed
next
  case (release t s locks i)
  then have nz: "nest_count (sys_info s t) \<noteq> 0" by (auto simp: release_info_def)
  then have h: "holds s t (unat (lane_idx (sys_info s t)))" using release.hyps(1) by (simp add: holds_def)
  note r = release_held [OF release.prems h]
  show ?case
  proof (cases "nest_count (sys_info s t) = 1")
    case True
    then have "locks = (sys_locks s)[unat (lane_idx (sys_info s t)) := 0]" "nest_count i = 0"
      using release.hyps(2) r by auto
    then show ?thesis
      by (intro lanes_inv_drop [OF release.prems h]) (use release.hyps(1) lanes_invD(7) [OF release.prems] in \<open>auto simp: holds_def\<close>)
  next
    case False
    then have "locks = sys_locks s" "lane_idx i = lane_idx (sys_info s t)" "nest_count i \<noteq> 0"
      using release.hyps(2) r by auto
    then show ?thesis
      by (intro lanes_inv_cong [OF release.prems]) (use release.hyps(1) nz lanes_invD(7) [OF release.prems] in \<open>auto simp: holds_def\<close>)
  qed
next
  case (detach t s l i)
  have h: "holds s t (unat (lane_idx (sys_info s t)))" using detach.hyps by (simp add: holds_def)
  have i: "l = ucast (lane_idx (sys_info s t))" "nest_count i = 0" using detach.hyps by (auto simp: detach_info_def)
  have "unat l = unat (lane_idx (sys_info s t))"
    unfolding i(1) by (rule unat_ucast_lane) (rule holds_lock(1) [OF detach.prems h])
  then show ?case
    by (intro lanes_inv_detach [OF detach.prems, where t = t and l = l])
      (use h i detach.hyps(1) lanes_invD(7) [OF detach.prems] in \<open>auto simp: holds_def\<close>)
next
  case (attach t s l)
  then show ?case
    by (intro lanes_inv_attach [OF attach.prems, where t = t and l = l])
      (use lanes_invD(7) [OF attach.prems] in \<open>auto simp: holds_def attach_info_def\<close>)
qed

text \<open>A thread that runs alone from the loop of \<open>get_lane\<close> on, when a lane is free.\<close>

definition takes :: "'t \<Rightarrow> 't lane_sys \<Rightarrow> 't lane_sys \<Rightarrow> bool" where
  "takes t s s' \<longleftrightarrow> (\<exists>i. sys_locks s ! unat (lane_idx i) = 0 \<and> nest_count i = 1 \<and>
     s' = s\<lparr>sys_desc := (sys_desc s)\<lparr>lane_locks := (sys_locks s)[unat (lane_idx i) := 1]\<rparr>, sys_info := (sys_info s)(t := i),
        sys_spin := sys_spin s - {t}\<rparr>)"

lemma spin_take:
  assumes "lanes_inv s" and "t \<in> sys_spin s" and "sys_locks s ! unat (lane_idx (sys_info s t) mod sys_nlanes s) = 0"
  shows "\<exists>s'. lane_step s s' \<and> takes t s s'"
proof -
  let ?i = "taken (lane_idx (sys_info s t) mod sys_nlanes s) (sys_info s t)"
  have "lane_step s (s\<lparr>sys_desc := (sys_desc s)\<lparr>lane_locks := (sys_locks s)[unat (lane_idx ?i) := 1]\<rparr>,
      sys_info := (sys_info s)(t := ?i), sys_spin := sys_spin s - {t}\<rparr>)"
    using lane_step.try_lane [OF assms(2), of True] assms(3) by (simp add: try_spinning [OF assms(1)] Let_def)
  moreover have "sys_locks s ! unat (lane_idx ?i) = 0" "nest_count ?i = 1"
    using assms(3) lanes_invD(7) [OF assms(1,2)] by simp_all
  ultimately show ?thesis unfolding takes_def by blast
qed

lemma spin_alone:
  assumes "lanes_inv s" and "t \<in> sys_spin s" and "sys_locks s ! lane_after (sys_nlanes s) (lane_idx (sys_info s t)) d = 0"
  shows "\<exists>s'. lane_step\<^sup>*\<^sup>* s s' \<and> takes t s s'"
  using assms
proof (induction d arbitrary: s)
  case 0
  then show ?case using spin_take [OF 0(1,2)] by (auto simp: lane_after_0)
next
  case (Suc d)
  let ?l = "lane_idx (sys_info s t) mod sys_nlanes s"
  show ?case
  proof (cases "sys_locks s ! unat ?l = 0")
    case True
    then show ?thesis using spin_take [OF Suc.prems(1,2)] by blast
  next
    case False
    let ?i = "(missed ?l (sys_info s t))\<lparr>lane_idx := ?l + 1\<rparr>"
    let ?s = "s\<lparr>sys_info := (sys_info s)(t := ?i)\<rparr>"
    have st: "lane_step s ?s"
      using lane_step.try_lane [OF Suc.prems(2), of False] False by (simp add: try_spinning [OF Suc.prems(1)] Let_def)
    have "sys_locks ?s ! lane_after (sys_nlanes ?s) (lane_idx (sys_info ?s t)) d = 0"
      using Suc.prems(3) lane_after_step [of "sys_nlanes s"] lanes_invD(1) [OF Suc.prems(1)] by simp
    from Suc.IH [OF lanes_inv_step [OF st Suc.prems(1)] _ this] Suc.prems(2)
    obtain s' where "lane_step\<^sup>*\<^sup>* ?s s'" "takes t ?s s'" by auto
    moreover have "takes t ?s s' \<Longrightarrow> takes t s s'" by (simp add: takes_def)
    ultimately show ?thesis using converse_rtranclp_into_rtranclp [of lane_step, OF st] by blast
  qed
qed

lemma spin_progress:
  assumes inv: "lanes_inv s" and t: "t \<in> sys_spin s" and k: "k < unat (runtime_nlanes (sys_desc s))" "\<not> owned s k"
  shows "\<exists>s'. lane_step\<^sup>*\<^sup>* s s' \<and> takes t s s'"
proof -
  have n: "sys_nlanes s \<noteq> 0" using lanes_invD(1) [OF inv] by simp
  have "k \<in> set (lanes_from (sys_nlanes s) (lane_idx (sys_info s t)))" using k(1) by (simp add: lanes_from_set [OF n])
  then obtain d where "k = lane_after (sys_nlanes s) (lane_idx (sys_info s t)) d" by (auto simp: lanes_from_def)
  then show ?thesis using spin_alone [OF inv t] lanes_invD(3) [OF inv k(1)] k(2) by simp
qed

text \<open>The invariant holds in every state that the threads can reach.\<close>

interpretation lt: step_system lanes_initial lane_step lanes_inv
  by unfold_locales (rule lanes_inv_initial, assumption, rule lanes_inv_step)

section \<open>The calls as steps\<close>

lemma try_steps:
  assumes "t \<in> sys_spin s" and "get_lane_loop (sys_locks s) (sys_info s t) (sys_nlanes s) = Some (locks, i)"
  shows "lane_step\<^sup>*\<^sup>* s (s\<lparr>sys_desc := (sys_desc s)\<lparr>lane_locks := locks\<rparr>, sys_info := (sys_info s)(t := i), sys_spin := sys_spin s - {t}\<rparr>)"
proof -
  let ?fin = "\<lambda>s r. s\<lparr>sys_desc := (sys_desc s)\<lparr>lane_locks := fst r\<rparr>, sys_info := (sys_info s)(t := snd r), sys_spin := sys_spin s - {t}\<rparr>"
  let ?P = "\<lambda>l info n r. \<forall>s. t \<in> sys_spin s \<and> sys_locks s = l \<and> sys_info s t = info \<and> sys_nlanes s = n \<longrightarrow> lane_step\<^sup>*\<^sup>* s (?fin s r)"
  have "?P (sys_locks s) (sys_info s t) (sys_nlanes s) (locks, i)"
  proof (rule get_lane_loop.raw_induct [OF _ assms(2), where P = ?P])
    fix loop l info n r
    assume "\<And>l info n r. loop l info n = Some r \<Longrightarrow> ?P l info n r"
      and "get_lane_try l info n \<bind> (\<lambda>(got, l, info). if got then Some (l, info) else loop l info n) = Some r"
    note IH = this(1) and body = this(2)
    obtain got l' info' where tr: "get_lane_try l info n = Some (got, l', info')"
      and r: "if got then r = (l', info') else loop l' info' n = Some r"
      using body by (auto simp: bind_eq_Some_conv split: if_splits)
    show "?P l info n r"
    proof (intro allI impI, elim conjE)
      fix s assume s: "t \<in> sys_spin s" "sys_locks s = l" "sys_info s t = info" "sys_nlanes s = n"
      let ?s = "s\<lparr>sys_desc := (sys_desc s)\<lparr>lane_locks := l'\<rparr>, sys_info := (sys_info s)(t := info'),
        sys_spin := (if got then sys_spin s - {t} else sys_spin s)\<rparr>"
      have st: "lane_step s ?s" using tr s by (intro lane_step.try_lane) simp_all
      show "lane_step\<^sup>*\<^sup>* s (?fin s r)"
      proof (cases got)
        case True
        then show ?thesis using st r by simp
      next
        case False
        then have "?P l' info' n r" using IH r by simp
        then have "lane_step\<^sup>*\<^sup>* ?s (?fin ?s r)" by (rule allE [of _ ?s]) (use s False in simp)
        moreover have "?fin ?s r = ?fin s r" using False by simp
        ultimately show ?thesis using converse_rtranclp_into_rtranclp [of lane_step, OF st] by metis
      qed
    qed
  qed
  then show ?thesis using assms(1) by simp
qed

text \<open>The state of the lanes after a call of a thread that left \<open>desc\<close> and the record \<open>i\<close>.\<close>

definition after_call :: "'t \<Rightarrow> lanes_desc \<Rightarrow> lane_info \<Rightarrow> 't lane_sys \<Rightarrow> 't lane_sys" where
  "after_call t desc i s = s\<lparr>sys_desc := desc\<lparr>lanes := lanes (sys_desc s)\<rparr>, sys_info := (sys_info s)(t := i)\<rparr>"

lemma lane_hold_steps:
  assumes hold: "lane_hold ie pop lanep (sys_desc s) T = Some (l, desc, T')" and rec: "get_lane_info_record ie pop T = Some (p, T1)"
    and inv: "lanes_inv s" and t: "t \<notin> sys_spin s" "li_store T1 p = sys_info s t" "nest_count (sys_info s t) \<noteq> - 1"
  shows "lane_step\<^sup>*\<^sup>* s (after_call t desc (li_store T' p) s) \<and> holds (after_call t desc (li_store T' p) s) t (unat l)"
proof -
  let ?s' = "after_call t desc (li_store T' p) s"
  obtain d1 i1 where f: "first_lane (sys_desc s) (sys_info s t) = (d1, i1)" by fastforce
  then have d1: "runtime_nlanes d1 = runtime_nlanes (sys_desc s)" "lane_locks d1 = sys_locks s" "lanes d1 = lanes (sys_desc s)"
    "nest_count i1 = nest_count (sys_info s t)"
    by (auto simp: first_lane_def split: if_splits)
  have n: "runtime_nlanes (sys_desc s) \<noteq> 0" "unat (sys_nlanes s) \<le> length (sys_locks s)" using lanes_invD(1,2) [OF inv] by auto
  obtain locks i2 where g: "(if nest_count i1 = 0 then get_lane (sys_locks s) (i1\<lparr>nest_count := nest_count i1 + 1\<rparr>) (sys_nlanes s)
        else Some (sys_locks s, i1\<lparr>nest_count := nest_count i1 + 1\<rparr>)) = Some (locks, i2)"
      and l: "l = ucast (lane_idx i2)" and T': "li_store T' p = i2" and desc: "desc\<lparr>lanes := lanes (sys_desc s)\<rparr> = d1\<lparr>lane_locks := locks\<rparr>"
    using hold rec n t(2) f d1 unfolding lane_hold_def
    by (auto simp: bind_eq_Some_conv Let_def upd_info_def split: if_splits)
  have s': "?s' = s\<lparr>sys_desc := d1\<lparr>lane_locks := locks\<rparr>, sys_info := (sys_info s)(t := i2)\<rparr>"
    by (simp add: after_call_def T' desc)
  have st: "lane_step\<^sup>*\<^sup>* s ?s' \<and> nest_count i2 \<noteq> 0"
  proof (cases "nest_count i1 = 0")
    case True
    let ?i = "i1\<lparr>nest_count := 1, lane_idx := primary i1\<rparr>"
    let ?s1 = "s\<lparr>sys_desc := d1, sys_info := (sys_info s)(t := ?i), sys_spin := insert t (sys_spin s)\<rparr>"
    have g1: "get_lane (sys_locks s) (i1\<lparr>nest_count := 1\<rparr>) (sys_nlanes s) = Some (locks, i2)" using g True by simp
    have one: "lane_step s ?s1" using True t f d1 by (intro lane_step.hold_outer) simp_all
    have "lane_step\<^sup>*\<^sup>* ?s1 (?s1\<lparr>sys_desc := (sys_desc ?s1)\<lparr>lane_locks := locks\<rparr>, sys_info := (sys_info ?s1)(t := i2), sys_spin := sys_spin ?s1 - {t}\<rparr>)"
      by (rule try_steps) (use g1 d1 in \<open>simp_all add: get_lane_def\<close>)
    moreover have "?s1\<lparr>sys_desc := (sys_desc ?s1)\<lparr>lane_locks := locks\<rparr>, sys_info := (sys_info ?s1)(t := i2), sys_spin := sys_spin ?s1 - {t}\<rparr> = ?s'"
      using t(1) by (simp add: s')
    ultimately have "lane_step\<^sup>*\<^sup>* s ?s'" using converse_rtranclp_into_rtranclp [of lane_step, OF one] by metis
    moreover have "nest_count i2 = 1"
      using g1 n by (auto simp: get_lane_cases split: option.splits if_splits)
    ultimately show ?thesis by simp
  next
    case False
    then have h: "holds s t (unat (lane_idx (sys_info s t)))" using t(1) d1(4) by (simp add: holds_def)
    have "lane_idx (sys_info s t) \<noteq> - 1"
      using holds_lock(1) [OF inv h] unsigned_less [of "runtime_nlanes (sys_desc s)", where 'a = nat]
      by (auto simp: unsigned_minus_1_eq_mask mask_eq_exp_minus_1)
    then have "d1 = sys_desc s" "i1 = sys_info s t" using f by (auto simp: first_lane_def split: if_splits)
    moreover have "locks = sys_locks s" "i2 = i1\<lparr>nest_count := nest_count i1 + 1\<rparr>" using g False by auto
    ultimately show ?thesis
      using lane_step.hold_nested [of t s] False t by (auto simp: s' eq_neg_iff_add_eq_0)
  qed
  then have inv': "lanes_inv ?s'" using inv lt.inv_steps by blast
  have h: "holds ?s' t (unat (lane_idx i2))" using st t(1) by (simp add: s' holds_def)
  show ?thesis using st h unat_ucast_lane [OF holds_lock(1) [OF inv' h]] by (simp add: l)
qed

lemma lane_release_step:
  assumes rec: "get_lane_info_record ie pop T = Some (p, T1)"
    and inv: "lanes_inv s" and t: "li_store T1 p = sys_info s t" "holds s t k"
  shows "\<exists>desc T'. lane_release ie pop (sys_desc s) T = Some (desc, T') \<and> lane_step s (after_call t desc (li_store T' p) s) \<and>
    (holds (after_call t desc (li_store T' p) s) t k \<longleftrightarrow> nest_count (sys_info s t) \<noteq> 1)"
proof -
  obtain locks i where r: "release_info (sys_locks s) (sys_info s t) = Some (locks, i)"
      "i = (sys_info s t)\<lparr>nest_count := nest_count (sys_info s t) - 1\<rparr>"
    using release_held [OF inv t(2)] by simp
  have "t \<notin> sys_spin s" "unat (lane_idx (sys_info s t)) = k" using t(2) by (simp_all add: holds_def)
  moreover have "runtime_nlanes (sys_desc s) \<noteq> 0" using lanes_invD(1) [OF inv] .
  ultimately show ?thesis
    using lane_step.release [of t s locks i] rec t(1) r
    by (auto simp: lane_release_def upd_info_def after_call_def holds_def)
qed

text \<open>A call of \<open>lane_hold\<close> returns when the thread has a lane already or a lane is free.\<close>

lemma lane_hold_returns:
  assumes inv: "lanes_inv s" and rec: "get_lane_info_record ie pop T = Some (p, T1)" and t: "t \<notin> sys_spin s" "li_store T1 p = sys_info s t"
    and room: "unat (runtime_nlanes (sys_desc s)) \<le> length (lanes (sys_desc s))"
    and free: "nest_count (sys_info s t) \<noteq> 0 \<or> (\<exists>k < unat (runtime_nlanes (sys_desc s)). \<not> owned s k)"
  shows "lane_hold ie pop lanep (sys_desc s) T \<noteq> None"
proof -
  obtain d1 i1 where f: "first_lane (sys_desc s) (sys_info s t) = (d1, i1)" by fastforce
  then have d1: "runtime_nlanes d1 = runtime_nlanes (sys_desc s)" "lane_locks d1 = sys_locks s" "lanes d1 = lanes (sys_desc s)"
    "nest_count i1 = nest_count (sys_info s t)"
    by (auto simp: first_lane_def split: if_splits)
  have n: "runtime_nlanes (sys_desc s) \<noteq> 0" "sys_nlanes s \<noteq> 0" "unat (sys_nlanes s) \<le> length (sys_locks s)"
    using lanes_invD(1,2) [OF inv] by auto
  show ?thesis
  proof (cases "nest_count (sys_info s t) = 0")
    case True
    with free obtain k where k: "k < unat (runtime_nlanes (sys_desc s))" "\<not> owned s k" by blast
    then have "sys_locks s ! k = 0" using lanes_invD(3) [OF inv k(1)] by simp
    moreover have "k \<in> set (lanes_from (sys_nlanes s) (primary i1))" using k(1) by (simp add: lanes_from_set [OF n(2)])
    ultimately obtain j where j: "find (\<lambda>k. sys_locks s ! k = 0) (lanes_from (sys_nlanes s) (primary i1)) = Some j"
      by (cases "find (\<lambda>k. sys_locks s ! k = 0) (lanes_from (sys_nlanes s) (primary i1))") (auto simp: find_None_iff)
    then have "j < unat (runtime_nlanes (sys_desc s))"
      using lanes_from_set [OF n(2), of "primary i1"] by (auto simp: find_Some_iff)
    moreover from this have "unat (of_nat j :: u64) = j"
      using unsigned_less [of "runtime_nlanes (sys_desc s)", where 'a = nat] by (intro unat_of_nat_u64) simp
    ultimately show ?thesis
      using rec t f n d1 True j room by (simp add: lane_hold_def Let_def get_lane_cases)
  next
    case False
    then have h: "holds s t (unat (lane_idx (sys_info s t)))" using t(1) by (simp add: holds_def)
    note l = holds_lock(1) [OF inv h]
    have "lane_idx (sys_info s t) \<noteq> - 1"
      using l unsigned_less [of "runtime_nlanes (sys_desc s)", where 'a = nat]
      by (auto simp: unsigned_minus_1_eq_mask mask_eq_exp_minus_1)
    then have "d1 = sys_desc s" "i1 = sys_info s t" using f by (auto simp: first_lane_def split: if_splits)
    then show ?thesis using rec t f n d1 False l room by (simp add: lane_hold_def Let_def)
  qed
qed

section \<open>Properties\<close>

text \<open>C12. In every state that threads reach by holding lanes, nested or not, trying locks, releasing, detaching and
  attaching, no two threads have the same lane, a lane is locked exactly when a thread has it or it is
  detached, releasing a lane that a thread has never runs into a fatal error, and no attempt to take a lane
  accesses a lock that does not exist.\<close>

theorem lanes_exclusive:
  assumes "lanes_initial s0" and "lane_step\<^sup>*\<^sup>* s0 s"
  shows "(\<forall>t u k. holds s t k \<and> holds s u k \<longrightarrow> t = u) \<and>
    (\<forall>k < unat (runtime_nlanes (sys_desc s)). sys_locks s ! k = (if owned s k then 1 else 0)) \<and>
    (\<forall>t k. holds s t k \<longrightarrow> k < unat (runtime_nlanes (sys_desc s)) \<and> release_info (sys_locks s) (sys_info s t) \<noteq> None) \<and>
    (\<forall>t. get_lane_try (sys_locks s) (sys_info s t) (sys_nlanes s) \<noteq> None)"
proof -
  have inv: "lanes_inv s" using assms by (rule lt.inv_reachable)
  then show ?thesis
    using lanes_invD(3,5) [OF inv] holds_lock(1) [OF inv] release_held [OF inv] by (auto simp: try_spinning Let_def)
qed

text \<open>\<open>get_lane\<close> takes the first free lane in the cyclic order that starts at the primary lane of the thread, and
  counts a miss of the primary lane; it spins forever exactly when all lanes are locked and nobody unlocks one.
  The thread gives up its primary lane after the last attempt, except when the index of the primary lane is
  not below the number of lanes: then misses are not counted.\<close>

lemma get_lane_first_free:
  assumes "nlocks \<noteq> 0" and "unat nlocks \<le> length locks"
  shows "get_lane locks info nlocks =
    (case find (\<lambda>k. locks ! k = 0) (lanes_from nlocks (primary info)) of None \<Rightarrow> None
     | Some k \<Rightarrow> Some (locks[k := 1], taken (of_nat k)
         (if k = unat (primary info mod nlocks) then info else missed (primary info mod nlocks) info))) \<and>
    (get_lane locks info nlocks = None \<longleftrightarrow> (\<forall>k < unat nlocks. locks ! k \<noteq> 0))"
proof -
  have "find (\<lambda>k. locks ! k = 0) (lanes_from nlocks (primary info)) = None \<longleftrightarrow> (\<forall>k < unat nlocks. locks ! k \<noteq> 0)"
    using lanes_from_set [OF assms(1)] by (auto simp: find_None_iff)
  then show ?thesis using get_lane_cases [OF assms] by (auto split: option.splits)
qed

text \<open>C14. A thread that waits in \<open>get_lane\<close> while some lane is not owned gets a lane that nobody owned, by steps of its own
  alone, in every reachable state.\<close>

theorem lane_waiting_progress:
  assumes "lanes_initial s0" and "lane_step\<^sup>*\<^sup>* s0 s" and "t \<in> sys_spin s"
    and "k < unat (runtime_nlanes (sys_desc s))" and "\<not> owned s k"
  shows "\<exists>s' j. lane_step\<^sup>*\<^sup>* s s' \<and> holds s' t j \<and> \<not> owned s j \<and> (\<forall>u. u \<noteq> t \<longrightarrow> sys_info s' u = sys_info s u)"
proof -
  have inv: "lanes_inv s" using assms(1,2) by (rule lt.inv_reachable)
  obtain s' where s': "lane_step\<^sup>*\<^sup>* s s'" "takes t s s'" using spin_progress [OF inv assms(3-5)] by blast
  then obtain i where i: "sys_locks s ! unat (lane_idx i) = 0" "nest_count i = 1" "sys_info s' = (sys_info s)(t := i)" "t \<notin> sys_spin s'"
    by (auto simp: takes_def)
  then have h: "holds s' t (unat (lane_idx i))" by (simp add: holds_def)
  have "runtime_nlanes (sys_desc s') = runtime_nlanes (sys_desc s)" using s'(2) by (auto simp: takes_def)
  then have "unat (lane_idx i) < unat (runtime_nlanes (sys_desc s))" using holds_lock(1) [OF lt.inv_steps [OF s'(1) inv] h] by simp
  then have "\<not> owned s (unat (lane_idx i))" using lanes_invD(3) [OF inv] i(1) by force
  then show ?thesis using s'(1) h i(3) by (intro exI [of _ s'] exI [of _ "unat (lane_idx i)"]) simp
qed

text \<open>C13. The calls of \<open>lane.c\<close> are sequences of the steps, in every reachable state: \<open>lane_hold\<close> returns when the thread has a lane
  or a lane is free, what it does to the locks and the record of the thread are steps of this thread, and the
  thread then has the lane that is returned; \<open>lane_release\<close> by a thread that has a lane returns, is one
  step, and the thread keeps the lane exactly when this was not its last hold.\<close>

theorem lane_calls_are_steps:
  assumes "lanes_initial s0" and "lane_step\<^sup>*\<^sup>* s0 s" and "t \<notin> sys_spin s"
    and "get_lane_info_record ie pop T = Some (p, T1)" and "li_store T1 p = sys_info s t"
    and "unat (runtime_nlanes (sys_desc s)) \<le> length (lanes (sys_desc s))" and "nest_count (sys_info s t) \<noteq> - 1"
  shows "(nest_count (sys_info s t) \<noteq> 0 \<or> (\<exists>k < unat (runtime_nlanes (sys_desc s)). \<not> owned s k) \<longrightarrow>
      (\<exists>l desc T'. lane_hold ie pop lanep (sys_desc s) T = Some (l, desc, T') \<and>
        lane_step\<^sup>*\<^sup>* s (after_call t desc (li_store T' p) s) \<and> holds (after_call t desc (li_store T' p) s) t (unat l))) \<and>
    (\<forall>k. holds s t k \<longrightarrow> (\<exists>desc T'. lane_release ie pop (sys_desc s) T = Some (desc, T') \<and>
        lane_step s (after_call t desc (li_store T' p) s) \<and>
        (holds (after_call t desc (li_store T' p) s) t k \<longleftrightarrow> nest_count (sys_info s t) \<noteq> 1)))"
proof -
  have inv: "lanes_inv s" using assms(1,2) by (rule lt.inv_reachable)
  show ?thesis
    using lane_hold_returns [OF inv assms(4,3,5,6)] lane_hold_steps [OF _ assms(4) inv assms(3,5,7)]
      lane_release_step [OF assms(4) inv assms(5)] by (metis not_None_eq prod_cases3)
qed

section \<open>Examples\<close>

definition sample_lane :: lane where
  "sample_lane = \<lparr>lane_layout = 0, lane_internal = sample_ctx LOG_TYPE_REDO 0, lane_external = sample_ctx LOG_TYPE_REDO 0,
     lane_undo = sample_ctx LOG_TYPE_UNDO 0\<rparr>"

definition sample_sys :: "bool lane_sys" where
  "sample_sys = \<lparr>sys_desc = \<lparr>runtime_nlanes = 2, next_lane_idx = 0, lane_locks = [0, 0], lanes = [sample_lane, sample_lane]\<rparr>,
     sys_info = (\<lambda>_. new_lane_info 7 0), sys_spin = {}, sys_detached = {}\<rparr>"

lemma sample_initial: "lanes_initial sample_sys"
  by (simp add: lanes_initial_def sample_sys_def new_lane_info_def)

text \<open>The first thread enters \<open>get_lane\<close>, and takes the lane 0.\<close>

definition sample_waits :: "bool lane_sys" where
  "sample_waits = sample_sys\<lparr>sys_desc := (sys_desc sample_sys)\<lparr>next_lane_idx := 8\<rparr>,
     sys_info := (sys_info sample_sys)(True := (new_lane_info 7 0)\<lparr>nest_count := 1, lane_idx := 0\<rparr>), sys_spin := {True}\<rparr>"

definition sample_holds :: "bool lane_sys" where
  "sample_holds = sample_waits\<lparr>sys_desc := (sys_desc sample_waits)\<lparr>lane_locks := [1, 0]\<rparr>, sys_spin := {}\<rparr>"

lemma sample_waits_step: "lane_step sample_sys sample_waits"
  using lane_step.hold_outer [of True sample_sys "(sys_desc sample_sys)\<lparr>next_lane_idx := 8\<rparr>" "(new_lane_info 7 0)\<lparr>lane_idx := 0\<rparr>"]
  by (simp add: sample_waits_def sample_sys_def new_lane_info_def first_lane_def LANE_JUMP_def)

lemma sample_holds_step: "lane_step sample_waits sample_holds"
proof -
  have "get_lane_try [0, 0] ((new_lane_info 7 0)\<lparr>nest_count := 1, lane_idx := 0\<rparr>) 2 =
      Some (True, [1, 0], (new_lane_info 7 0)\<lparr>nest_count := 1, lane_idx := 0\<rparr>)"
    by (simp add: get_lane_try_def new_lane_info_def Let_def)
  then show ?thesis
    using lane_step.try_lane [of True sample_waits True "[1, 0]" "(new_lane_info 7 0)\<lparr>nest_count := 1, lane_idx := 0\<rparr>"]
    by (simp add: sample_holds_def sample_waits_def sample_sys_def)
qed

lemma sample_reachable: "lane_step\<^sup>*\<^sup>* sample_sys sample_waits" "lane_step\<^sup>*\<^sup>* sample_sys sample_holds"
  using sample_waits_step sample_holds_step by auto

theorem lanes_exclusive_witness:
  "holds sample_holds True 0 \<and> sys_locks sample_holds ! 0 = 1 \<and> \<not> holds sample_holds False 0 \<and>
     release_info (sys_locks sample_holds) (sys_info sample_holds True) \<noteq> None"
proof -
  note L = lanes_exclusive [OF sample_initial sample_reachable(2)]
  have h: "holds sample_holds True 0" by (simp add: holds_def sample_holds_def sample_waits_def)
  then have o: "owned sample_holds 0" by (auto simp: owned_def)
  have n: "(0 :: nat) < unat (runtime_nlanes (sys_desc sample_holds))" by (simp add: sample_holds_def sample_waits_def sample_sys_def)
  have "sys_locks sample_holds ! 0 = 1" using L n o by simp
  moreover have "\<not> holds sample_holds False 0" using L h by blast
  ultimately show ?thesis using L h by blast
qed

theorem lane_waiting_progress_witness:
  "\<exists>s j. lane_step\<^sup>*\<^sup>* sample_waits s \<and> holds s True j \<and> sys_info s False = sys_info sample_waits False"
proof -
  have "\<not> owned sample_waits 1"
    by (auto simp: owned_def holds_def sample_waits_def sample_sys_def new_lane_info_def)
  then show ?thesis
    using lane_waiting_progress [OF sample_initial sample_reachable(1), of True 1]
    by (auto simp: sample_waits_def sample_sys_def)
qed

definition sample_thread :: lane_tls where
  "sample_thread = \<lparr>Lane_info_ht = None, Lane_info_records = 0, Lane_info_cache = 8, li_store = (\<lambda>_. new_lane_info 7 0)\<rparr>"

theorem lane_calls_are_steps_witness:
  "\<exists>l desc T'. lane_hold \<lparr>ie_new = (True, True), ie_tls_set = 0, ie_malloc = 0, ie_grow = (\<lambda>_ _. True)\<rparr>
       \<lparr>pop_addr = 0, uuid_lo = 7, pop_layout = \<lparr>lanes_offset = 8192, nlanes = 2, heap_offset = 65536, heap_size = 65536\<rparr>\<rparr>
       True (sys_desc sample_sys) sample_thread = Some (l, desc, T') \<and>
     lane_step\<^sup>*\<^sup>* sample_sys (after_call True desc (li_store T' 8) sample_sys) \<and>
     holds (after_call True desc (li_store T' 8) sample_sys) True (unat l)"
proof -
  have "\<exists>k < unat (runtime_nlanes (sys_desc sample_sys)). \<not> owned sample_sys k"
    by (intro exI [of _ 0]) (simp add: owned_def holds_def sample_sys_def new_lane_info_def)
  then show ?thesis
    using lane_calls_are_steps [OF sample_initial rtranclp.rtrancl_refl, of True
      "\<lparr>ie_new = (True, True), ie_tls_set = 0, ie_malloc = 0, ie_grow = (\<lambda>_ _. True)\<rparr>"
      "\<lparr>pop_addr = 0, uuid_lo = 7, pop_layout = \<lparr>lanes_offset = 8192, nlanes = 2, heap_offset = 65536, heap_size = 65536\<rparr>\<rparr>"
      sample_thread 8 sample_thread True]
    by (simp add: get_lane_info_record_def sample_thread_def sample_sys_def new_lane_info_def)
qed

end
