(* ===== verification/Lane_Records.thy ===== *)
theory Lane_Records
  imports Lane
begin

text \<open>
  The thread-local records of lanes: a doubly linked list of records, one for each pool that the thread uses,
  the hash table that finds them, and the record used last.
\<close>

section \<open>The records of a thread\<close>

text \<open>A segment of the doubly linked list of records: it starts at \<open>p\<close> after \<open>q\<close>, ends with \<open>l\<close> and goes on at \<open>e\<close>.\<close>

fun rec_seg :: "(addr \<Rightarrow> lane_info) \<Rightarrow> addr \<Rightarrow> addr \<Rightarrow> addr list \<Rightarrow> addr \<Rightarrow> addr \<Rightarrow> bool" where
  "rec_seg st q p [] e l \<longleftrightarrow> p = e \<and> q = l"
| "rec_seg st q p (x # xs) e l \<longleftrightarrow> p = x \<and> x \<noteq> 0 \<and> li_prev (st x) = q \<and> rec_seg st x (li_next (st x)) xs e l"

lemma rec_seg_append:
  "rec_seg st q p (xs @ ys) e l \<longleftrightarrow> (\<exists>m k. rec_seg st q p xs m k \<and> rec_seg st k m ys e l)"
  by (induction xs arbitrary: q p) auto

lemma rec_seg_cong:
  "(\<And>x. x \<in> set xs \<Longrightarrow> li_prev (st' x) = li_prev (st x) \<and> li_next (st' x) = li_next (st x)) \<Longrightarrow>
    rec_seg st' q p xs e l = rec_seg st q p xs e l"
  by (induction xs arbitrary: q p) auto

lemma seg_nonnull: "rec_seg st q p xs e l \<Longrightarrow> 0 \<notin> set xs"
  by (induction xs arbitrary: q p) auto

text \<open>Redirecting the two links around a hole.\<close>

lemma rec_seg_out: "k \<notin> set xs \<Longrightarrow> rec_seg (st(k := i)) q p xs e l = rec_seg st q p xs e l"
  by (rule rec_seg_cong) auto

lemma rec_seg_set_next:
  assumes "rec_seg st q p (xs @ [k]) e l" and "distinct (xs @ [k])"
  shows "rec_seg (st(k := (st k)\<lparr>li_next := n\<rparr>)) q p (xs @ [k]) n k"
  using assms by (auto simp: rec_seg_append rec_seg_out)

lemma rec_seg_set_prev:
  assumes "rec_seg st q p (x # xs) e l" and "distinct (x # xs)"
  shows "rec_seg (st(x := (st x)\<lparr>li_prev := k\<rparr>)) k p (x # xs) e l"
  using assms by (simp add: rec_seg_out)

section \<open>Thread-local data\<close>

definition tls_map :: "lane_tls \<Rightarrow> u64 \<Rightarrow> addr option" where
  "tls_map t = (case Lane_info_ht t of None \<Rightarrow> Map.empty | Some ht \<Rightarrow> cuckoo_view ht)"

definition tls_ok :: "lane_tls \<Rightarrow> bool" where
  "tls_ok t \<longleftrightarrow> (case Lane_info_ht t of None \<Rightarrow> True | Some ht \<Rightarrow> cuckoo_inv ht) \<and>
     (\<exists>xs l. rec_seg (li_store t) 0 (Lane_info_records t) xs 0 l \<and> distinct xs \<and> set xs = ran (tls_map t)) \<and>
     (\<forall>k p. tls_map t k = Some p \<longrightarrow> pop_uuid_lo (li_store t p) = k) \<and>
     (Lane_info_cache t = 0 \<or> Lane_info_cache t \<in> ran (tls_map t))"

text \<open>The fields of a record that are not links of the list.\<close>

definition same_info :: "lane_info \<Rightarrow> lane_info \<Rightarrow> bool" where
  "same_info i j \<longleftrightarrow> i\<lparr>li_prev := 0, li_next := 0\<rparr> = j\<lparr>li_prev := 0, li_next := 0\<rparr>"

lemma same_info_refl [simp]: "same_info i i"
  by (simp add: same_info_def)

lemma same_info_links [simp]: "same_info i (j\<lparr>li_prev := p\<rparr>) = same_info i j" "same_info i (j\<lparr>li_next := p\<rparr>) = same_info i j"
  by (simp_all add: same_info_def)

lemma same_info_uuid: "same_info i j \<Longrightarrow> pop_uuid_lo j = pop_uuid_lo i"
  by (cases i; cases j) (simp add: same_info_def)

lemma tls_ok_nonnull: "tls_ok t \<Longrightarrow> tls_map t k \<noteq> Some 0"
  using ck.view_nonnull by (auto simp: tls_ok_def tls_map_def split: option.splits)

lemma tls_cached:
  assumes "tls_ok t" and "Lane_info_cache t \<noteq> 0" and "pop_uuid_lo (li_store t (Lane_info_cache t)) = k"
  shows "tls_map t k = Some (Lane_info_cache t)"
  using assms by (auto simp: tls_ok_def ran_def)

lemma tls_ok_cache: "tls_ok t \<Longrightarrow> c \<in> ran (tls_map t) \<Longrightarrow> tls_ok (t\<lparr>Lane_info_cache := c\<rparr>)"
  by (simp add: tls_ok_def tls_map_def cong: option.case_cong)

lemma tls_map_cong [simp]: "tls_map (t\<lparr>Lane_info_cache := c\<rparr>) = tls_map t" "tls_map (t\<lparr>Lane_info_records := r\<rparr>) = tls_map t"
  "tls_map (t\<lparr>li_store := st\<rparr>) = tls_map t" "tls_map (upd_info q f t) = tls_map t" "tls_map (t\<lparr>Lane_info_ht := Some ht\<rparr>) = cuckoo_view ht"
  by (simp_all add: tls_map_def upd_info_def)

text \<open>A thread that has a record of the pool gets that one.\<close>

lemma tls_boot:
  assumes "tls_ok t" and "(if Lane_info_ht t = None then lane_info_ht_boot ie t else Some t) = Some t'"
  shows "tls_ok t'" "tls_map t' = tls_map t" "\<exists>ht. Lane_info_ht t' = Some ht \<and> cuckoo_inv ht \<and> tls_map t = cuckoo_view ht"
    "li_store t' = li_store t" "Lane_info_records t' = Lane_info_records t" "Lane_info_cache t' = Lane_info_cache t"
proof -
  have "\<exists>c. t' = t\<lparr>Lane_info_ht := Some c\<rparr> \<and> cuckoo_inv c \<and> cuckoo_view c = tls_map t"
  proof (cases "Lane_info_ht t")
    case None
    then show ?thesis using assms(2)
      by (auto simp: lane_info_ht_boot_def lane_info_create_def tls_map_def bind_eq_Some_conv dest: cuckoo_new_spec split: if_splits)
  next
    case (Some ht)
    then have "t' = t\<lparr>Lane_info_ht := Some ht\<rparr>" using assms(2) by (cases t) auto
    then show ?thesis using Some assms(1) by (intro exI [of _ ht]) (simp add: tls_ok_def tls_map_def)
  qed
  then obtain c where c: "t' = t\<lparr>Lane_info_ht := Some c\<rparr>" "cuckoo_inv c" "cuckoo_view c = tls_map t" by blast
  show "tls_ok t'" using assms(1) c by (simp add: tls_ok_def)
  show "tls_map t' = tls_map t" "\<exists>ht. Lane_info_ht t' = Some ht \<and> cuckoo_inv ht \<and> tls_map t = cuckoo_view ht"
    "li_store t' = li_store t" "Lane_info_records t' = Lane_info_records t" "Lane_info_cache t' = Lane_info_cache t" using c by auto
qed

text \<open>The new record goes to the front of the list.\<close>

lemma rec_seg_push:
  assumes "rec_seg st 0 r xs 0 l" and "p \<notin> set xs" and "p \<noteq> 0" and "distinct xs" and "li_prev i = 0" and "li_next i = r"
  shows "\<exists>l. rec_seg (if r \<noteq> 0 then (st(p := i))(r := (st r)\<lparr>li_prev := p\<rparr>) else st(p := i)) 0 p (p # xs) 0 l"
proof (cases xs)
  case Nil
  then show ?thesis using assms by auto
next
  case (Cons x ys)
  then have r: "r = x" "r \<noteq> 0" "p \<noteq> r" using assms by auto
  have "rec_seg (st(p := i)) 0 r (x # ys) 0 l" using assms Cons by (simp add: rec_seg_out)
  from rec_seg_set_prev [OF this, of p] have "rec_seg ((st(p := i))(r := (st r)\<lparr>li_prev := p\<rparr>)) p r xs 0 l"
    using assms(4) Cons r by simp
  then show ?thesis using r assms Cons by auto
qed

lemma get_record_spec:
  assumes ok: "tls_ok t" and fresh: "ie_malloc ie \<notin> ran (tls_map t)" and get: "get_lane_info_record ie pop t = Some (p, t')"
  shows "tls_ok t'" "tls_map t' = (tls_map t)(uuid_lo pop \<mapsto> p)" "Lane_info_cache t' = p"
    "tls_map t (uuid_lo pop) = Some q \<Longrightarrow> q = p \<and> li_store t' = li_store t"
    "tls_map t (uuid_lo pop) = None \<Longrightarrow> same_info (new_lane_info (uuid_lo pop) 0) (li_store t' p)"
    "a \<noteq> p \<Longrightarrow> same_info (li_store t a) (li_store t' a)"
proof -
  have "tls_ok t' \<and> tls_map t' = (tls_map t)(uuid_lo pop \<mapsto> p) \<and> Lane_info_cache t' = p \<and>
    (\<forall>q. tls_map t (uuid_lo pop) = Some q \<longrightarrow> q = p \<and> li_store t' = li_store t) \<and>
    (tls_map t (uuid_lo pop) = None \<longrightarrow> same_info (new_lane_info (uuid_lo pop) 0) (li_store t' p)) \<and>
    (\<forall>a. a \<noteq> p \<longrightarrow> same_info (li_store t a) (li_store t' a))"
  proof (cases "Lane_info_cache t \<noteq> 0 \<and> pop_uuid_lo (li_store t (Lane_info_cache t)) = uuid_lo pop")
    case True
    then show ?thesis
      using get ok tls_cached [OF ok] by (auto simp: get_lane_info_record_def)
  next
    case False
    then obtain t1 ht v where t1: "(if Lane_info_ht t = None then lane_info_ht_boot ie t else Some t) = Some t1"
      and ht: "Lane_info_ht t1 = Some ht" and v: "cuckoo_get ht (uuid_lo pop) = Some v"
      using get by (auto simp: get_lane_info_record_def bind_eq_Some_conv)
    note B = tls_boot [OF ok t1]
    have inv: "cuckoo_inv ht" "tls_map t = cuckoo_view ht" using B(3) ht by auto
    show ?thesis
    proof (cases "tls_map t (uuid_lo pop)")
      case (Some q)
      then have "v = q" "q \<noteq> 0" using ck.get_law [OF inv(1)] v inv(2) tls_ok_nonnull [OF ok, of "uuid_lo pop"] by auto
      then have "t' = t1\<lparr>Lane_info_cache := q\<rparr>" "p = q"
        using get False t1 ht v by (auto simp: get_lane_info_record_def)
      then show ?thesis
        using Some tls_ok_cache [OF B(1), of q] B by (auto simp: ranI fun_upd_idem)
    next
      case None
      let ?r = "Lane_info_records t" and ?st = "li_store t" and ?k = "uuid_lo pop"
      have v0: "v = 0" using None ck.get_law [OF inv(1)] v inv(2) by simp
      note body = get [unfolded get_lane_info_record_def if_not_P [OF False] t1 bind.bind_lunit ht v v0]
      have nz: "ie_malloc ie \<noteq> 0" using body by (cases "ie_malloc ie = 0") simp_all
      obtain err ht' where ins: "cuckoo_insert (ie_grow ie) ht ?k (ie_malloc ie) = Some (err, ht')"
        using ck.ins_law [OF inv(1) nz] None inv(2) by metis
      have "err = None" using body nz by (cases err) (simp_all add: ins Let_def)
      note ins = ins [unfolded this]
      have p: "p = ie_malloc ie" "p \<noteq> 0" using body nz by (auto simp: Let_def ins)
      have t': "Lane_info_ht t' = Some ht'" "Lane_info_records t' = p" "Lane_info_cache t' = p"
          "li_store t' = (if ?r \<noteq> 0 then (?st(p := new_lane_info ?k ?r))(?r := ((?st(p := new_lane_info ?k ?r)) ?r)\<lparr>li_prev := p\<rparr>)
             else ?st(p := new_lane_info ?k ?r))"
        using body nz B(4,5) unfolding p(1) by (cases "?r = 0"; auto simp: Let_def upd_info_def ins)+
      note ins = ins [folded p(1)]
      have map': "cuckoo_inv ht'" "tls_map t' = (tls_map t)(?k \<mapsto> p)"
        using ck.ins_law [OF inv(1) p(2), of ?k "ie_grow ie"] ins None inv(2) by (simp_all add: tls_map_def t'(1))
      obtain xs l where xs: "rec_seg ?st 0 ?r xs 0 l" "distinct xs" "set xs = ran (tls_map t)" using ok by (auto simp: tls_ok_def)
      have px: "p \<notin> set xs" using fresh p xs(3) by simp
      have rp: "?r \<noteq> p" using xs(1) px p(2) by (cases xs) auto
      then have st': "li_store t' = (if ?r \<noteq> 0 then (?st(p := new_lane_info ?k ?r))(?r := (?st ?r)\<lparr>li_prev := p\<rparr>)
             else ?st(p := new_lane_info ?k ?r))" using t'(4) by simp
      obtain l' where l': "rec_seg (li_store t') 0 p (p # xs) 0 l'"
        using rec_seg_push [OF xs(1) px p(2) xs(2), of "new_lane_info ?k ?r"] unfolding st' by (auto simp: new_lane_info_def)
      have rest: "same_info (?st a) (li_store t' a)" if "a \<noteq> p" for a using that by (simp add: st')
      have new: "same_info (new_lane_info ?k 0) (li_store t' p)" using rp by (simp add: st' same_info_def new_lane_info_def)
      have "pop_uuid_lo (li_store t' a) = k'" if "tls_map t' k' = Some a" for k' a
      proof (cases "a = p")
        case True
        then have "k' = ?k" using that fresh p(1) by (auto simp: map' ranI split: if_splits)
        then show ?thesis using True same_info_uuid [OF new] by (simp add: new_lane_info_def)
      next
        case False
        then have "tls_map t k' = Some a" using that by (simp add: map' split: if_splits)
        then show ?thesis using ok same_info_uuid [OF rest [OF False]] by (simp add: tls_ok_def)
      qed
      moreover have "set (p # xs) = ran (tls_map t')" using None xs(3) by (simp add: map')
      moreover have "distinct (p # xs)" using px xs(2) by simp
      moreover have "p \<in> ran (tls_map t')" by (auto simp: map' ran_def)
      ultimately have "tls_ok t'" unfolding tls_ok_def using l' map'(1) t' by (metis option.simps(5))
      then show ?thesis using map' t' rest new None by simp
    qed
  qed
  then show "tls_ok t'" "tls_map t' = (tls_map t)(uuid_lo pop \<mapsto> p)" "Lane_info_cache t' = p"
    "tls_map t (uuid_lo pop) = Some q \<Longrightarrow> q = p \<and> li_store t' = li_store t"
    "tls_map t (uuid_lo pop) = None \<Longrightarrow> same_info (new_lane_info (uuid_lo pop) 0) (li_store t' p)"
    "a \<noteq> p \<Longrightarrow> same_info (li_store t a) (li_store t' a)" by blast+
qed

text \<open>Taking a record out of the list.\<close>

lemma rec_seg_unlink:
  assumes seg: "rec_seg st 0 r (xs @ p # ys) 0 l" and dist: "distinct (xs @ p # ys)"
  shows "\<exists>l. rec_seg (unlink p st) 0 (if r = p then li_next (st p) else r) (xs @ ys) 0 l"
    and "li_prev (unlink p st p) = li_prev (st p)" and "li_next (unlink p st p) = li_next (st p)"
proof -
  let ?k = "li_prev (st p)" and ?n = "li_next (st p)"
  have s: "rec_seg st 0 r xs p ?k" "rec_seg st p ?n ys 0 l" "p \<noteq> 0" using seg by (auto simp: rec_seg_append)
  let ?st1 = "if ?k \<noteq> 0 then st(?k := (st ?k)\<lparr>li_next := ?n\<rparr>) else st"
  have one: "rec_seg ?st1 0 (if r = p then ?n else r) xs ?n ?k \<and> ?st1 p = st p \<and> (\<forall>y\<in>set ys. ?st1 y = st y) \<and> ?k \<notin> set ys"
  proof (cases xs rule: rev_cases)
    case Nil
    then show ?thesis using s seg_nonnull [OF s(2)] by auto
  next
    case (snoc zs k)
    then have k: "k = ?k" "k \<noteq> 0" "k \<noteq> p" "k \<notin> set ys" using s(1) dist by (auto simp: rec_seg_append)
    have "r \<noteq> p" using s(1) snoc dist by (cases zs) auto
    moreover have "rec_seg (st(k := (st k)\<lparr>li_next := ?n\<rparr>)) 0 r (zs @ [k]) ?n k"
      by (rule rec_seg_set_next) (use s(1) snoc dist in auto)
    ultimately show ?thesis using k snoc by auto
  qed
  then have s2: "rec_seg ?st1 p ?n ys 0 l" using s(2) by (subst rec_seg_cong) auto
  have e: "?st1 p = st p" using one by blast
  have u: "unlink p st = (if ?n \<noteq> 0 then ?st1(?n := (?st1 ?n)\<lparr>li_prev := ?k\<rparr>) else ?st1)"
    by (simp only: unlink_def Let_def e)
  have two: "rec_seg (unlink p st) ?k ?n ys 0 (if ys = [] then ?k else l) \<and> (\<forall>x\<in>set xs. unlink p st x = ?st1 x) \<and> unlink p st p = st p"
  proof (cases ys)
    case Nil
    then have n0: "?n = 0" using s2 by auto
    then have "unlink p st = ?st1" using u by simp
    then show ?thesis using Nil n0 e by simp
  next
    case (Cons y zs)
    then have y: "?n = y" "y \<noteq> 0" "y \<notin> set xs" "y \<noteq> p" using s(2) dist by auto
    have "rec_seg (?st1(y := (?st1 y)\<lparr>li_prev := ?k\<rparr>)) ?k ?n (y # zs) 0 l"
      by (rule rec_seg_set_prev) (use s2 Cons dist in auto)
    then show ?thesis using y one Cons unfolding u by auto
  qed
  then have "rec_seg (unlink p st) 0 (if r = p then ?n else r) xs ?n ?k" using one by (subst rec_seg_cong) auto
  then show "\<exists>l. rec_seg (unlink p st) 0 (if r = p then ?n else r) (xs @ ys) 0 l" unfolding rec_seg_append using two by blast
  show "li_prev (unlink p st p) = ?k" "li_next (unlink p st p) = ?n" using two by simp_all
qed

lemma unlink_same: "same_info (st a) (unlink p st a)"
  by (simp add: unlink_def Let_def)

lemma ran_remove:
  assumes "m k = Some p" and "\<And>j. m j = Some p \<Longrightarrow> j = k"
  shows "ran (m(k := None)) = ran m - {p}"
proof (rule set_eqI, rule iffI)
  fix q assume "q \<in> ran (m(k := None))"
  then obtain j where "j \<noteq> k" "m j = Some q" by (auto simp: ran_def split: if_splits)
  then have "q \<in> ran m" "q \<noteq> p" using assms(2) by (blast intro: ranI)+
  then show "q \<in> ran m - {p}" by blast
next
  fix q assume "q \<in> ran m - {p}"
  then obtain j where "m j = Some q" "q \<noteq> p" by (auto simp: ran_def)
  then have "(m(k := None)) j = Some q" using assms(1) by auto
  then show "q \<in> ran (m(k := None))" by (rule ranI)
qed

lemma cleanup_spec:
  assumes ok: "tls_ok t"
  shows "\<exists>t'. lane_info_cleanup pop t = Some t' \<and> tls_ok t' \<and> tls_map t' = (tls_map t)(uuid_lo pop := None) \<and>
    (\<forall>a. same_info (li_store t a) (li_store t' a))"
proof (cases "Lane_info_ht t")
  case None
  then show ?thesis using ok by (auto simp: lane_info_cleanup_def tls_map_def)
next
  case (Some ht)
  let ?k = "uuid_lo pop"
  have inv: "cuckoo_inv ht" and m: "tls_map t = cuckoo_view ht" using ok Some by (auto simp: tls_ok_def tls_map_def)
  obtain ht' where rem: "cuckoo_remove ht ?k = Some (case cuckoo_view ht ?k of None \<Rightarrow> 0 | Some v \<Rightarrow> v, ht')"
    and ht': "cuckoo_inv ht'" "cuckoo_view ht' = (cuckoo_view ht)(?k := None)"
    using ck.rem_law [OF inv] by blast
  show ?thesis
  proof (cases "tls_map t ?k")
    case None
    then have same: "cuckoo_view ht' = cuckoo_view ht" using ht'(2) m by (simp add: fun_upd_idem)
    have "lane_info_cleanup pop t = Some (t\<lparr>Lane_info_ht := Some ht'\<rparr>)"
      using Some rem None m by (simp add: lane_info_cleanup_def)
    moreover have "tls_ok (t\<lparr>Lane_info_ht := Some ht'\<rparr>)"
      using ok ht'(1) by (simp add: tls_ok_def same m)
    ultimately show ?thesis using None m by (simp add: same fun_upd_idem)
  next
    case p: (Some p)
    let ?st = "unlink p (li_store t)"
    let ?t = "t\<lparr>Lane_info_ht := Some ht', li_store := ?st, Lane_info_cache := (if Lane_info_cache t = p then 0 else Lane_info_cache t),
        Lane_info_records := (if Lane_info_records t = p then li_next (li_store t p) else Lane_info_records t)\<rparr>"
    obtain xs l where xs: "rec_seg (li_store t) 0 (Lane_info_records t) xs 0 l" "distinct xs" "set xs = ran (tls_map t)"
      using ok by (auto simp: tls_ok_def)
    have "p \<in> set xs" using p xs(3) by (auto simp: ran_def)
    then obtain as bs where split: "xs = as @ p # bs" by (meson split_list)
    note U = rec_seg_unlink [OF xs(1,2) [unfolded split]]
    have p0: "p \<noteq> 0" using tls_ok_nonnull [OF ok] p by metis
    have c: "lane_info_cleanup pop t = Some ?t"
      using Some rem p p0 m U(2,3) by (simp add: lane_info_cleanup_def Let_def)
    have keys: "pop_uuid_lo (li_store t q) = k'" if "tls_map t k' = Some q" for k' q using ok that by (simp add: tls_ok_def)
    have m': "tls_map ?t = (tls_map t)(?k := None)" using ht'(2) m by (simp add: tls_map_def)
    have only: "tls_map t k' = Some p \<longleftrightarrow> k' = ?k" for k' using keys [of k' p] keys [OF p] p by auto
    have "ran ((tls_map t)(?k := None)) = ran (tls_map t) - {p}"
      by (rule ran_remove) (simp_all only: only p)
    then have r: "set (as @ bs) = ran (tls_map ?t)" using xs(2,3) split unfolding m' by auto
    have d: "distinct (as @ bs)" using xs(2) split by simp
    have u: "\<forall>k' q. tls_map ?t k' = Some q \<longrightarrow> pop_uuid_lo (?st q) = k'"
      using keys same_info_uuid [OF unlink_same] unfolding m' by (auto split: if_splits)
    have h: "Lane_info_cache ?t = 0 \<or> Lane_info_cache ?t \<in> ran (tls_map ?t)"
      using ok r xs(3) split by (auto simp: tls_ok_def)
    obtain l' where "rec_seg (li_store ?t) 0 (Lane_info_records ?t) (as @ bs) 0 l'" using U(1) by auto
    then have "tls_ok ?t" using r d u h ht'(1) unfolding tls_ok_def by (intro conjI exI) auto
    then show ?thesis using c ht'(2) m unlink_same by auto
  qed
qed

text \<open>The records that the end of a thread frees.\<close>

lemma free_records_seg: "rec_seg st q p xs 0 l \<Longrightarrow> free_records st p = Some xs"
  by (induction xs arbitrary: q p) (subst free_records.simps, auto)+

lemma delete_spec:
  assumes "tls_ok t"
  shows "\<exists>freed t'. lane_info_delete t = Some (freed, t') \<and> distinct freed \<and> set freed = ran (tls_map t) \<and>
    tls_ok t' \<and> tls_map t' = Map.empty"
proof -
  obtain xs l where xs: "rec_seg (li_store t) 0 (Lane_info_records t) xs 0 l" "distinct xs" "set xs = ran (tls_map t)"
    using assms by (auto simp: tls_ok_def)
  show ?thesis
  proof (cases "Lane_info_ht t")
    case None
    then show ?thesis using assms by (simp add: lane_info_delete_def tls_map_def)
  next
    case (Some ht)
    then show ?thesis
      using xs free_records_seg [OF xs(1)] by (auto simp: lane_info_delete_def tls_ok_def tls_map_def)
  qed
qed

lemma get_record_known:
  assumes ok: "tls_ok t" and m: "tls_map t (uuid_lo pop) = Some q"
  shows "\<exists>t'. get_lane_info_record ie pop t = Some (q, t')"
proof (cases "Lane_info_cache t \<noteq> 0 \<and> pop_uuid_lo (li_store t (Lane_info_cache t)) = uuid_lo pop")
  case True
  then show ?thesis using tls_cached [OF ok] m by (simp add: get_lane_info_record_def)
next
  case False
  obtain ht where ht: "Lane_info_ht t = Some ht" "cuckoo_inv ht" "cuckoo_view ht (uuid_lo pop) = Some q"
    using m ok by (auto simp: tls_map_def tls_ok_def split: option.splits)
  then have "cuckoo_get ht (uuid_lo pop) = Some q" "q \<noteq> 0" using ck.get_law [OF ht(2)] tls_ok_nonnull [OF ok, of "uuid_lo pop"] m ht(3) by auto
  then show ?thesis using False ht(1) by (auto simp: get_lane_info_record_def)
qed

section \<open>Properties\<close>

text \<open>C34. The data of a thread stays consistent: the hash table finds one record for each pool that the thread uses, all
  records and only they are in the doubly linked list, and the cached record is one of them.
  \<open>get_lane_info_record\<close> returns the record of the pool when there is one, unchanged, and otherwise a new one
  that holds no lane; it changes no other record, links apart. \<open>lane_info_cleanup\<close> returns and takes out just the record
  of the pool, and at the end of the thread every record is freed exactly once.\<close>

theorem thread_records_consistent:
  assumes "tls_ok t" and "ie_malloc ie \<notin> ran (tls_map t)"
  shows "(\<forall>q. tls_map t (uuid_lo pop) = Some q \<longrightarrow> (\<exists>t'. get_lane_info_record ie pop t = Some (q, t') \<and> li_store t' = li_store t)) \<and>
    (\<forall>p t'. get_lane_info_record ie pop t = Some (p, t') \<longrightarrow> tls_ok t' \<and> tls_map t' = (tls_map t)(uuid_lo pop \<mapsto> p) \<and>
      (tls_map t (uuid_lo pop) = None \<longrightarrow> same_info (new_lane_info (uuid_lo pop) 0) (li_store t' p)) \<and>
      (\<forall>a. a \<noteq> p \<longrightarrow> same_info (li_store t a) (li_store t' a))) \<and>
    (\<exists>t'. lane_info_cleanup pop t = Some t' \<and> tls_ok t' \<and> tls_map t' = (tls_map t)(uuid_lo pop := None) \<and>
      (\<forall>a. same_info (li_store t a) (li_store t' a))) \<and>
    (\<exists>freed t'. lane_info_delete t = Some (freed, t') \<and> distinct freed \<and> set freed = ran (tls_map t) \<and>
      tls_ok t' \<and> tls_map t' = Map.empty)"
proof -
  note get = get_record_spec [OF assms]
  have "\<forall>q. tls_map t (uuid_lo pop) = Some q \<longrightarrow> (\<exists>t'. get_lane_info_record ie pop t = Some (q, t') \<and> li_store t' = li_store t)"
    using get_record_known [OF assms(1)] get(4) by blast
  then show ?thesis using get(1,2,5,6) cleanup_spec [OF assms(1)] delete_spec [OF assms(1)] by blast
qed

section \<open>Examples\<close>

definition sample_tls :: lane_tls where
  "sample_tls = \<lparr>Lane_info_ht = None, Lane_info_records = 0, Lane_info_cache = 0, li_store = (\<lambda>_. new_lane_info 0 0)\<rparr>"

definition sample_info_env :: info_env where
  "sample_info_env = \<lparr>ie_new = (True, True), ie_tls_set = 0, ie_malloc = 8, ie_grow = (\<lambda>_ _. True)\<rparr>"

definition sample_obj :: PMEMobjpool where
  "sample_obj = \<lparr>pop_addr = 0, uuid_lo = 7, pop_layout = \<lparr>lanes_offset = 8192, nlanes = 2, heap_offset = 65536, heap_size = 65536\<rparr>\<rparr>"

lemma sample_tls_ok: "tls_ok sample_tls" "tls_map sample_tls = Map.empty"
proof -
  have "rec_seg (li_store sample_tls) 0 (Lane_info_records sample_tls) [] 0 0" by (simp add: sample_tls_def)
  then show "tls_ok sample_tls" unfolding tls_ok_def by (intro conjI exI) (auto simp: tls_map_def sample_tls_def)
  show "tls_map sample_tls = Map.empty" by (simp add: tls_map_def sample_tls_def)
qed

lemma sample_record: "\<exists>t. get_lane_info_record sample_info_env sample_obj sample_tls = Some (8, t)"
  by (simp add: get_lane_info_record_def sample_info_env_def sample_obj_def sample_tls_def lane_info_ht_boot_def lane_info_create_def
     cuckoo_new_def INITIAL_SIZE_def cuckoo_get_def cuckoo_find_slot_def null_slot_def hash_mod_def hash_mixer_def Let_def
     cuckoo_insert_def cuckoo_insert_try_def first_round upd_info_def)

theorem thread_records_consistent_witness:
  "\<exists>t1 t2. get_lane_info_record sample_info_env sample_obj sample_tls = Some (8, t1) \<and> tls_ok t1 \<and> tls_map t1 = [7 \<mapsto> 8] \<and>
     lane_idx (li_store t1 8) = - 1 \<and> lane_info_cleanup sample_obj t1 = Some t2 \<and> tls_map t2 = Map.empty"
proof -
  obtain t1 where t1: "get_lane_info_record sample_info_env sample_obj sample_tls = Some (8, t1)" using sample_record by blast
  have f: "ie_malloc sample_info_env \<notin> ran (tls_map sample_tls)" by (simp add: sample_tls_ok)
  have k: "uuid_lo sample_obj = 7" by (simp add: sample_obj_def)
  have r: "tls_ok t1" "tls_map t1 = [7 \<mapsto> 8]" "same_info (new_lane_info 7 0) (li_store t1 8)"
    using thread_records_consistent [OF sample_tls_ok(1) f, of sample_obj] t1 by (auto simp: k sample_tls_ok)
  have f1: "ie_malloc (sample_info_env\<lparr>ie_malloc := 16\<rparr>) \<notin> ran (tls_map t1)" by (simp add: r)
  obtain t2 where "lane_info_cleanup sample_obj t1 = Some t2" "tls_map t2 = Map.empty"
    using thread_records_consistent [OF r(1) f1, of sample_obj] by (auto simp: k r)
  moreover have "lane_idx (li_store t1 8) = - 1"
    using r(3) by (cases "li_store t1 8") (simp add: same_info_def new_lane_info_def)
  ultimately show ?thesis using t1 r by blast
qed

end
