(* ===== verification/Ravl.thy ===== *)
theory Ravl
  imports Prelude
begin

text \<open>
  The relaxed AVL tree of \<^verbatim>\<open>libpmemobj/ravl.c\<close>. A node is a constructor with its two slots, its
  data and its rank; the null pointer is \<open>RNull\<close>. A pointer to a node inside the tree is a
  location: the subtree that starts at the node and the path to the root, whose elements hold
  what the parent pointers lead to (which slot of the parent the node is in, the parent's data
  and rank, and the other slot). Writing through a pointer is rebuilding the tree along the path
  (\<open>plug\<close>). The compare callback is an argument of every operation that uses it.
\<close>

section \<open>Data\<close>

datatype ravl_slot_type = RAVL_LEFT | RAVL_RIGHT | RAVL_ROOT

datatype 'a ravl_node = RNull | RNode (lslot: "'a ravl_node") (rdata: 'a) (rrank: int) (rslot: "'a ravl_node")

datatype 'a crumb = Crumb ravl_slot_type 'a int "'a ravl_node"

type_synonym 'a loc = "'a ravl_node \<times> 'a crumb list"
type_synonym 'a compare_fn = "'a \<Rightarrow> 'a \<Rightarrow> int"

text \<open>The parent node that an element of the path stands for, with \<open>n\<close> in its slot.\<close>

fun close_crumb :: "'a ravl_node \<Rightarrow> 'a crumb \<Rightarrow> 'a ravl_node" where
  "close_crumb n (Crumb t x r s) = (if t = RAVL_LEFT then RNode n x r s else RNode s x r n)"

definition plug :: "'a loc \<Rightarrow> 'a ravl_node" where
  "plug l = fold (\<lambda>c n. close_crumb n c) (snd l) (fst l)"

text \<open>Following a slot pointer and a parent pointer.\<close>

fun go_slot :: "ravl_slot_type \<Rightarrow> 'a loc \<Rightarrow> 'a loc" where
  "go_slot t (RNode a x r b, path) = (if t = RAVL_LEFT then (a, Crumb RAVL_LEFT x r b # path)
     else (b, Crumb RAVL_RIGHT x r a # path))"
| "go_slot t (RNull, path) = (RNull, path)"

fun go_parent :: "'a loc \<Rightarrow> 'a loc option" where
  "go_parent (n, []) = None"
| "go_parent (n, c # path) = Some (close_crumb n c, path)"

fun slot_of :: "ravl_slot_type \<Rightarrow> 'a ravl_node \<Rightarrow> 'a ravl_node" where
  "slot_of t RNull = RNull"
| "slot_of t (RNode a x r b) = (if t = RAVL_LEFT then a else b)"

section \<open>Node helpers\<close>

fun ravl_clear_node :: "'a ravl_node \<Rightarrow> 'a list" where
  "ravl_clear_node RNull = []"
| "ravl_clear_node (RNode a x r b) = ravl_clear_node a @ x # ravl_clear_node b"

definition ravl_clear :: "'a ravl_node \<Rightarrow> 'a ravl_node" where
  "ravl_clear root = RNull"

definition ravl_empty :: "'a ravl_node \<Rightarrow> bool" where
  "ravl_empty root \<longleftrightarrow> root = RNull"

definition ravl_new_node :: "bool \<Rightarrow> 'a \<Rightarrow> 'a ravl_node" where
  "ravl_new_node alloc_ok x = (if alloc_ok then RNode RNull x 0 RNull else RNull)"

definition ravl_slot_opposite :: "ravl_slot_type \<Rightarrow> ravl_slot_type" where
  "ravl_slot_opposite t = (if t = RAVL_LEFT then RAVL_RIGHT else RAVL_LEFT)"

fun ravl_node_slot_type :: "'a loc \<Rightarrow> ravl_slot_type" where
  "ravl_node_slot_type (n, []) = RAVL_ROOT"
| "ravl_node_slot_type (n, Crumb t x r s # path) = (if t = RAVL_LEFT then RAVL_LEFT else RAVL_RIGHT)"

fun ravl_node_sibling :: "'a loc \<Rightarrow> 'a ravl_node" where
  "ravl_node_sibling (n, []) = RNull"
| "ravl_node_sibling (n, Crumb t x r s # path) = s"

text \<open>\<open>ravl_rotate\<close>: the node takes the place of its parent; the result is the node's new
  location.\<close>

fun ravl_rotate :: "'a loc \<Rightarrow> 'a loc" where
  "ravl_rotate (RNode a x r b, Crumb t y q s # path) =
     (if t = RAVL_LEFT then (RNode a x r (RNode b y q s), path) else (RNode (RNode s y q a) x r b, path))"
| "ravl_rotate l = l"

fun ravl_node_rank :: "'a ravl_node \<Rightarrow> int" where
  "ravl_node_rank RNull = - 1"
| "ravl_node_rank (RNode a x r b) = r"

definition ravl_node_rank_difference_parent :: "'a ravl_node \<Rightarrow> 'a ravl_node \<Rightarrow> int" where
  "ravl_node_rank_difference_parent p n = ravl_node_rank p - ravl_node_rank n"

definition parent_node :: "'a loc \<Rightarrow> 'a ravl_node" where
  "parent_node l = (case go_parent l of None \<Rightarrow> RNull | Some (p, _) \<Rightarrow> p)"

definition ravl_node_rank_difference :: "'a loc \<Rightarrow> int" where
  "ravl_node_rank_difference l = ravl_node_rank_difference_parent (parent_node l) (fst l)"

definition ravl_node_is_i_j :: "'a ravl_node \<Rightarrow> int \<Rightarrow> int \<Rightarrow> bool" where
  "ravl_node_is_i_j n i j \<longleftrightarrow>
     ravl_node_rank_difference_parent n (slot_of RAVL_LEFT n) = i \<and>
     ravl_node_rank_difference_parent n (slot_of RAVL_RIGHT n) = j"

definition ravl_node_is :: "'a ravl_node \<Rightarrow> int \<Rightarrow> int \<Rightarrow> bool" where
  "ravl_node_is n i j \<longleftrightarrow> ravl_node_is_i_j n i j \<or> ravl_node_is_i_j n j i"

fun ravl_node_promote :: "'a ravl_node \<Rightarrow> 'a ravl_node" where
  "ravl_node_promote RNull = RNull"
| "ravl_node_promote (RNode a x r b) = RNode a x (r + 1) b"

fun ravl_node_demote :: "'a ravl_node \<Rightarrow> 'a ravl_node" where
  "ravl_node_demote RNull = RNull"
| "ravl_node_demote (RNode a x r b) = RNode a x (r - 1) b"

text \<open>A change of the node in one slot of a node.\<close>

fun map_slot :: "ravl_slot_type \<Rightarrow> ('a ravl_node \<Rightarrow> 'a ravl_node) \<Rightarrow> 'a ravl_node \<Rightarrow> 'a ravl_node" where
  "map_slot t f RNull = RNull"
| "map_slot t f (RNode a x r b) = (if t = RAVL_LEFT then RNode (f a) x r b else RNode a x r (f b))"

section \<open>Insertion\<close>

text \<open>The loop of \<open>ravl_balance\<close> that walks up the tree, promoting nodes.\<close>

fun balance_walk :: "'a ravl_node \<Rightarrow> 'a crumb list \<Rightarrow> 'a loc" where
  "balance_walk n [] = (n, [])"
| "balance_walk n (c # path) =
     (let p = close_crumb n c
      in if ravl_node_is p 0 1 then balance_walk (ravl_node_promote p) path else (n, c # path))"

definition ravl_balance :: "'a loc \<Rightarrow> 'a ravl_node" where
  "ravl_balance l =
     (let l = balance_walk (fst l) (snd l);
          s = ravl_node_sibling l
      in if \<not> (ravl_node_rank_difference l = 0 \<and> ravl_node_rank_difference_parent (parent_node l) s > 1)
         then plug l
         else let t = ravl_slot_opposite (ravl_node_slot_type l);
                  z = go_slot t l
              in if fst z = RNull \<or> ravl_node_rank_difference z = 2
                 then let (n, path) = ravl_rotate l
                      in plug (map_slot t ravl_node_demote n, path)
                 else if ravl_node_rank_difference z = 1
                 then let (z, path) = ravl_rotate (ravl_rotate z)
                      in plug (map_slot RAVL_LEFT ravl_node_demote
                                (map_slot RAVL_RIGHT ravl_node_demote (ravl_node_promote z)), path)
                 else plug l)"

text \<open>The walk down of \<open>ravl_emplace\<close>: the location of the missing slot, or \<open>None\<close> when the data
  is already there.\<close>

fun emplace_walk :: "'a compare_fn \<Rightarrow> 'a \<Rightarrow> 'a ravl_node \<Rightarrow> 'a crumb list \<Rightarrow> 'a crumb list option" where
  "emplace_walk compare d RNull path = Some path"
| "emplace_walk compare d (RNode a x r b) path =
     (let cmp_result = compare d x
      in if cmp_result = 0 then None
         else if cmp_result > 0 then emplace_walk compare d b (Crumb RAVL_RIGHT x r a # path)
         else emplace_walk compare d a (Crumb RAVL_LEFT x r b # path))"

definition ravl_emplace :: "'a compare_fn \<Rightarrow> bool \<Rightarrow> 'a ravl_node \<Rightarrow> 'a \<Rightarrow> errno option \<times> 'a ravl_node" where
  "ravl_emplace compare alloc_ok root d =
     (let n = ravl_new_node alloc_ok d
      in if n = RNull then (Some ENOMEM, root)
         else case emplace_walk compare d root [] of
                None \<Rightarrow> (Some EEXIST, root)
              | Some path \<Rightarrow> (None, ravl_balance (n, path)))"

section \<open>Search\<close>

fun type_most :: "ravl_slot_type \<Rightarrow> 'a ravl_node \<Rightarrow> 'a crumb list \<Rightarrow> 'a loc" where
  "type_most t RNull path = (RNull, path)"
| "type_most t (RNode a x r b) path =
     (if slot_of t (RNode a x r b) = RNull then (RNode a x r b, path)
      else if t = RAVL_LEFT then type_most t a (Crumb RAVL_LEFT x r b # path)
      else type_most t b (Crumb RAVL_RIGHT x r a # path))"

definition ravl_node_type_most :: "'a loc \<Rightarrow> ravl_slot_type \<Rightarrow> 'a loc" where
  "ravl_node_type_most l t = type_most t (fst l) (snd l)"

text \<open>The loop that looks for the first parent on the \<open>t\<close> path.\<close>

fun cessor_up :: "ravl_slot_type \<Rightarrow> 'a ravl_node \<Rightarrow> 'a crumb list \<Rightarrow> 'a loc option" where
  "cessor_up t n [] = None"
| "cessor_up t n (Crumb t' x r s # path) =
     (if ravl_node_slot_type (n, Crumb t' x r s # path) = t then cessor_up t (close_crumb n (Crumb t' x r s)) path
      else Some (close_crumb n (Crumb t' x r s), path))"

definition ravl_node_cessor :: "'a loc \<Rightarrow> ravl_slot_type \<Rightarrow> 'a loc option" where
  "ravl_node_cessor l t =
     (if slot_of t (fst l) \<noteq> RNull
      then Some (ravl_node_type_most (go_slot t l) (ravl_slot_opposite t))
      else cessor_up t (fst l) (snd l))"

definition ravl_node_successor :: "'a loc \<Rightarrow> 'a loc option" where
  "ravl_node_successor l = ravl_node_cessor l RAVL_RIGHT"

definition ravl_node_predecessor :: "'a loc \<Rightarrow> 'a loc option" where
  "ravl_node_predecessor l = ravl_node_cessor l RAVL_LEFT"

record ravl_predicate =
  pred_equal :: bool
  pred_greater :: bool
  pred_less :: bool

definition ravl_predicate_holds ::
  "int \<Rightarrow> 'a loc option \<Rightarrow> 'a loc \<Rightarrow> ravl_predicate \<Rightarrow> bool \<times> 'a loc option" where
  "ravl_predicate_holds result ret n flags =
     (if pred_equal flags \<and> result = 0 then (True, Some n)
      else if pred_greater flags \<and> result < 0 then (False, Some n)
      else if pred_greater flags \<and> result = 0 then (True, ravl_node_successor n)
      else if pred_less flags \<and> result > 0 then (False, Some n)
      else if pred_less flags \<and> result = 0 then (True, ravl_node_predecessor n)
      else (False, ret))"

fun find_loop :: "'a compare_fn \<Rightarrow> 'a \<Rightarrow> ravl_predicate \<Rightarrow> 'a loc option \<Rightarrow> 'a ravl_node \<Rightarrow> 'a crumb list \<Rightarrow> 'a loc option" where
  "find_loop compare d flags r RNull path = r"
| "find_loop compare d flags r (RNode a x k b) path =
     (let result = compare d x;
          (stop, r) = ravl_predicate_holds result r (RNode a x k b, path) flags
      in if stop then r
         else if result > 0 then find_loop compare d flags r b (Crumb RAVL_RIGHT x k a # path)
         else find_loop compare d flags r a (Crumb RAVL_LEFT x k b # path))"

definition ravl_find :: "'a compare_fn \<Rightarrow> 'a ravl_node \<Rightarrow> 'a \<Rightarrow> ravl_predicate \<Rightarrow> 'a loc option" where
  "ravl_find compare root d flags = find_loop compare d flags None root []"

definition ravl_data :: "'a loc \<Rightarrow> 'a" where
  "ravl_data l = rdata (fst l)"

section \<open>Removal\<close>

lemma type_most_slot: "n \<noteq> RNull \<Longrightarrow> slot_of t (fst (type_most t n path)) = RNull \<and> fst (type_most t n path) \<noteq> RNull"
  by (induction t n path rule: type_most.induct) auto

lemma type_most_size: "size (fst (type_most t n path)) \<le> size n"
  by (induction t n path rule: type_most.induct) auto

text \<open>\<open>ravl_remove\<close>: with both children present the successor's data is copied into the node and
  the successor is removed instead; it has no left child, so the recursion is one level deep.\<close>

function ravl_remove :: "'a loc \<Rightarrow> 'a ravl_node" where
  "ravl_remove (RNull, path) = plug (RNull, path)"
| "ravl_remove (RNode a x r b, path) =
     (if a \<noteq> RNull \<and> b \<noteq> RNull
      then let s = ravl_node_type_most (go_slot RAVL_RIGHT (RNode a x r b, path)) RAVL_LEFT
           in ravl_remove (ravl_node_type_most (go_slot RAVL_RIGHT (RNode a (ravl_data s) r b, path)) RAVL_LEFT)
      else plug (if a \<noteq> RNull then a else b, path))"
  by pat_completeness auto

termination
proof (relation "measure (\<lambda>l. size (fst l))", goal_cases)
  case 1
  show ?case by simp
next
  case (2 a x r b path s)
  then show ?case
    using type_most_size [of RAVL_LEFT b "Crumb RAVL_RIGHT (ravl_data s) r a # path"]
    by (simp add: ravl_node_type_most_def)
qed

end
