(* ===== verification/Ravl_Theorems.thy ===== *)
theory Ravl_Theorems
  imports Ravl
begin

text \<open>
  Correctness of the tree: its in-order contents against sorted lists (insertion, the five search
  predicates, removal), and the rank rule (every rank difference positive), which bounds the
  height by the rank of the root. The compare callback is only assumed to order the data by some
  key, in the locale \<open>ravl_order\<close>; the locale \<open>ordered_set\<close> is the interface that the users of
  the tree rely on.
\<close>

section \<open>In-order contents\<close>

abbreviation inorder :: "'a ravl_node \<Rightarrow> 'a list" where
  "inorder \<equiv> ravl_clear_node"

fun path_l :: "'a crumb list \<Rightarrow> 'a list" where
  "path_l [] = []"
| "path_l (Crumb t x r s # path) = path_l path @ (if t = RAVL_LEFT then [] else inorder s @ [x])"

fun path_r :: "'a crumb list \<Rightarrow> 'a list" where
  "path_r [] = []"
| "path_r (Crumb t x r s # path) = (if t = RAVL_LEFT then x # inorder s else []) @ path_r path"

lemma plug_simps [simp]:
  "plug (n, []) = n"
  "plug (n, c # path) = plug (close_crumb n c, path)"
  by (simp_all add: plug_def)

lemma inorder_plug: "inorder (plug (n, path)) = path_l path @ inorder n @ path_r path"
proof (induction path arbitrary: n)
  case (Cons c path)
  then show ?case by (cases c) simp
qed simp

lemma inorder_promote [simp]: "inorder (ravl_node_promote n) = inorder n"
  by (cases n) auto

lemma inorder_demote [simp]: "inorder (ravl_node_demote n) = inorder n"
  by (cases n) auto

lemma inorder_map_slot: "(\<And>m. inorder (f m) = inorder m) \<Longrightarrow> inorder (map_slot t f n) = inorder n"
  by (cases n) auto

lemma inorder_rotate: "inorder (plug (ravl_rotate l)) = inorder (plug l)"
proof (cases l rule: ravl_rotate.cases)
  case (1 a x r b t y q s path)
  then show ?thesis by (simp add: inorder_plug)
qed auto

lemma plug_go_slot [simp]: "plug (go_slot t l) = plug l"
  by (cases "(t, l)" rule: go_slot.cases) auto

lemma inorder_walk: "inorder (plug (balance_walk n path)) = inorder (plug (n, path))"
proof (induction n path rule: balance_walk.induct)
  case (2 n c path)
  then show ?case by (simp add: Let_def) (simp add: inorder_plug)
qed simp

lemma inorder_plug_cong: "inorder n = inorder m \<Longrightarrow> inorder (plug (n, path)) = inorder (plug (m, path))"
  by (simp add: inorder_plug)

lemma inorder_balance: "inorder (ravl_balance l) = inorder (plug l)"
proof -
  obtain n path where l: "l = (n, path)" by fastforce
  define w where "w = balance_walk n path"
  have w: "inorder (plug w) = inorder (plug l)"
    by (simp add: w_def l inorder_walk)
  obtain n1 p1 where r1: "ravl_rotate w = (n1, p1)" by fastforce
  have e1: "inorder (plug (map_slot t ravl_node_demote n1, p1)) = inorder (plug l)" for t
    using inorder_rotate [of w] w r1
    by (simp add: inorder_plug_cong [OF inorder_map_slot])
  have e2: "inorder (plug (map_slot RAVL_LEFT ravl_node_demote (map_slot RAVL_RIGHT ravl_node_demote
      (ravl_node_promote z)), p2)) = inorder (plug l)"
    if "ravl_rotate (ravl_rotate (go_slot t w)) = (z, p2)" for t z p2
  proof -
    have "inorder (plug (z, p2)) = inorder (plug w)"
      using inorder_rotate [of "ravl_rotate (go_slot t w)"] inorder_rotate [of "go_slot t w"] that by simp
    then show ?thesis
      using w by (simp add: inorder_plug inorder_map_slot)
  qed
  show ?thesis
    unfolding ravl_balance_def Let_def l fst_conv snd_conv w_def [symmetric]
    using w e1 e2 r1 by (auto simp: l split: prod.splits)
qed

section \<open>The rank rule\<close>

fun rank_ok :: "'a ravl_node \<Rightarrow> bool" where
  "rank_ok RNull = True"
| "rank_ok (RNode a x r b) = (ravl_node_rank a < r \<and> ravl_node_rank b < r \<and> rank_ok a \<and> rank_ok b)"

fun path_ok :: "int \<Rightarrow> 'a crumb list \<Rightarrow> bool" where
  "path_ok k [] = True"
| "path_ok k (Crumb t x r s # path) = (k < r \<and> ravl_node_rank s < r \<and> rank_ok s \<and> path_ok r path)"

lemma rank_ok_plug: "rank_ok (plug (n, path)) \<longleftrightarrow> rank_ok n \<and> path_ok (ravl_node_rank n) path"
proof (induction path arbitrary: n)
  case (Cons c path)
  then show ?case by (cases c) auto
qed simp

lemma path_ok_mono: "path_ok k path \<Longrightarrow> k' \<le> k \<Longrightarrow> path_ok k' path"
proof (cases path)
  case (Cons c p)
  assume "path_ok k path" and "k' \<le> k"
  with Cons show ?thesis by (cases c) auto
qed simp

lemma rank_ge: "rank_ok n \<Longrightarrow> - 1 \<le> ravl_node_rank n"
  by (induction n) auto

lemmas ravl_diff_defs = ravl_node_is_def ravl_node_is_i_j_def ravl_node_rank_difference_parent_def
  ravl_node_rank_difference_def parent_node_def

text \<open>The node that the walk carries up: a new leaf, or a node that was just promoted.\<close>

definition walk_node :: "'a ravl_node \<Rightarrow> bool" where
  "walk_node n \<longleftrightarrow> (\<exists>x. n = RNode RNull x 0 RNull) \<or> (n \<noteq> RNull \<and> ravl_node_is n 1 2)"

lemma walk_inv:
  assumes "rank_ok n" and "path_ok (ravl_node_rank n - 1) path" and "walk_node n"
    and "balance_walk n path = (n', path')"
  shows "rank_ok n' \<and> path_ok (ravl_node_rank n' - 1) path' \<and> walk_node n' \<and>
    (\<forall>c p. path' = c # p \<longrightarrow> \<not> ravl_node_is (close_crumb n' c) 0 1)"
  using assms
proof (induction n path rule: balance_walk.induct)
  case (1 n)
  then show ?case by simp
next
  case (2 n c path)
  let ?p = "close_crumb n c"
  obtain t x r s where c: "c = Crumb t x r s" by (cases c)
  show ?case
  proof (cases "ravl_node_is ?p 0 1")
    case True
    have d: "ravl_node_rank n = r" "ravl_node_rank s = r - 1"
      using True "2.prems"(2) by (auto simp: c ravl_diff_defs split: if_splits)
    have "rank_ok (ravl_node_promote ?p)" "walk_node (ravl_node_promote ?p)"
      "path_ok (ravl_node_rank (ravl_node_promote ?p) - 1) path"
      using "2.prems" d by (auto simp: c walk_node_def ravl_diff_defs)
    then show ?thesis
      using "2.IH" [OF refl True] "2.prems"(4) True by (simp add: Let_def)
  next
    case False
    then show ?thesis using "2.prems" by (auto simp: Let_def)
  qed
qed

lemma rank_ok_balance:
  assumes "rank_ok n" and "path_ok (ravl_node_rank n - 1) path" and "walk_node n"
  shows "rank_ok (ravl_balance (n, path))"
proof -
  obtain n' path' where w: "balance_walk n path = (n', path')" by fastforce
  note W = walk_inv [OF assms w]
  show ?thesis
  proof (cases path')
    case Nil
    then show ?thesis
      using W w rank_ge [of n'] by (simp add: ravl_balance_def Let_def ravl_diff_defs)
  next
    case (Cons c p)
    obtain t x r s where c: "c = Crumb t x r s" by (cases c)
    obtain a y k b where n': "n' = RNode a y k b"
      using W by (cases n') (auto simp: walk_node_def)
    have s: "ravl_node_rank s < r" "rank_ok s" "path_ok r p" "k \<le> r"
      using W Cons c n' by auto
    have ab: "rank_ok a" "rank_ok b" "ravl_node_rank a < k" "ravl_node_rank b < k" using W n' by auto
    have ge: "- 1 \<le> ravl_node_rank a" "- 1 \<le> ravl_node_rank b" "- 1 \<le> ravl_node_rank s"
      using ab s rank_ge by auto
    have not01: "\<not> ravl_node_is (close_crumb n' c) 0 1" using W Cons by blast
    show ?thesis
    proof (cases "k = r \<and> r - ravl_node_rank s > 1")
      case False
      have "k < r"
      proof (rule ccontr)
        assume "\<not> k < r"
        with False s ge have "k = r" "ravl_node_rank s = r - 1" by auto
        with not01 show False by (cases "t = RAVL_LEFT") (auto simp: n' c ravl_diff_defs)
      qed
      then have "rank_ok (plug (n', path'))"
        using W s Cons c by (simp add: rank_ok_plug n')
      then show ?thesis
        using False w Cons c n' by (auto simp: ravl_balance_def Let_def ravl_diff_defs)
    next
      case True
      have wn: "walk_node (RNode a y k b)" using W n' by simp
      have two: "(a = RNull \<and> b = RNull) \<or>
          (ravl_node_rank a = k - 1 \<and> ravl_node_rank b = k - 2) \<or> (ravl_node_rank a = k - 2 \<and> ravl_node_rank b = k - 1)"
        using wn by (auto simp: walk_node_def ravl_diff_defs)
      show ?thesis
        using w Cons c n' True two s ab ge
        by (cases a; cases b; cases "t = RAVL_LEFT")
          (auto simp: ravl_balance_def Let_def ravl_diff_defs ravl_slot_opposite_def rank_ok_plug)
    qed
  qed
qed


lemma rank_ok_emplace_walk:
  assumes "emplace_walk compare d t path = Some p" and "rank_ok t" and "path_ok (ravl_node_rank t) path"
  shows "path_ok (- 1) p"
  using assms by (induction compare d t path rule: emplace_walk.induct) (auto simp: Let_def split: if_splits)

lemma rank_ok_emplace:
  assumes "rank_ok root" and "ravl_emplace compare ok root d = (e, root')"
  shows "rank_ok root'"
proof (cases "ok \<and> emplace_walk compare d root [] \<noteq> None")
  case False
  then show ?thesis
    using assms by (auto simp: ravl_emplace_def ravl_new_node_def split: if_splits option.splits)
next
  case True
  then obtain p where p: "emplace_walk compare d root [] = Some p" by auto
  then have "path_ok (- 1) p" using assms(1) by (intro rank_ok_emplace_walk) auto
  then have "rank_ok (ravl_balance (RNode RNull d 0 RNull, p))"
    by (intro rank_ok_balance) (auto simp: walk_node_def)
  then show ?thesis
    using assms(2) True p by (simp add: ravl_emplace_def ravl_new_node_def)
qed

text \<open>The height is bounded by the rank.\<close>

fun height :: "'a ravl_node \<Rightarrow> nat" where
  "height RNull = 0"
| "height (RNode a x r b) = Suc (max (height a) (height b))"

lemma height_le_rank: "rank_ok n \<Longrightarrow> int (height n) \<le> ravl_node_rank n + 1"
  by (induction n) auto

lemma type_most_rank:
  assumes "rank_ok n" and "path_ok (ravl_node_rank n) path" and "n \<noteq> RNull"
  shows "rank_ok (fst (type_most t n path)) \<and>
    path_ok (ravl_node_rank (fst (type_most t n path))) (snd (type_most t n path))"
  using assms by (induction t n path rule: type_most.induct) (auto split: if_splits)

lemma rank_ok_remove:
  assumes "rank_ok n" and "path_ok (ravl_node_rank n) path"
  shows "rank_ok (ravl_remove (n, path))"
  using assms
proof (induction "(n, path)" arbitrary: n path rule: ravl_remove.induct)
  case (1 path)
  then show ?case by (simp add: rank_ok_plug)
next
  case (2 a x r b path)
  show ?case
  proof (cases "a \<noteq> RNull \<and> b \<noteq> RNull")
    case False
    then show ?thesis
      using "2.prems" rank_ge [of a] rank_ge [of b]
      by (auto simp: rank_ok_plug intro: path_ok_mono)
  next
    case True
    define s where "s = ravl_node_type_most (go_slot RAVL_RIGHT (RNode a x r b, path)) RAVL_LEFT"
    define l where "l = ravl_node_type_most (go_slot RAVL_RIGHT (RNode a (ravl_data s) r b, path)) RAVL_LEFT"
    have "rank_ok (fst l) \<and> path_ok (ravl_node_rank (fst l)) (snd l)"
      using type_most_rank [of b "Crumb RAVL_RIGHT (ravl_data s) r a # path" RAVL_LEFT] "2.prems" True
      by (simp add: l_def ravl_node_type_most_def)
    then have "rank_ok (ravl_remove (fst l, snd l))"
      using "2.hyps" [OF True s_def, of "fst l" "snd l"] l_def by simp
    then show ?thesis
      using True by (simp add: s_def l_def Let_def)
  qed
qed

section \<open>Neighbours\<close>

text \<open>\<open>is_at root ys r\<close>: the pointer \<open>r\<close> is null when \<open>ys\<close> is empty and otherwise points to a node of
  the tree \<open>root\<close> that holds the head of \<open>ys\<close>.\<close>

definition is_at :: "'a ravl_node \<Rightarrow> 'a list \<Rightarrow> 'a loc option \<Rightarrow> bool" where
  "is_at root ys r \<longleftrightarrow>
     (case ys of [] \<Rightarrow> r = None
      | y # _ \<Rightarrow> \<exists>l. r = Some l \<and> fst l \<noteq> RNull \<and> ravl_data l = y \<and> plug l = root)"

lemma plug_type_most: "plug (type_most t n path) = plug (n, path)"
  by (induction t n path rule: type_most.induct) auto

lemma type_most_left:
  assumes "n \<noteq> RNull"
  obtains y r b p where "type_most RAVL_LEFT n path = (RNode RNull y r b, p)"
    and "path_l p = path_l path" and "inorder n @ path_r path = y # inorder b @ path_r p"
  using assms
proof (induction n arbitrary: path thesis)
  case (RNode a x r b)
  show ?case
  proof (cases "a = RNull")
    case True
    then show ?thesis using RNode.prems(1) [of x r b path] by simp
  next
    case False
    obtain y r' b' p where p: "type_most RAVL_LEFT a (Crumb RAVL_LEFT x r b # path) = (RNode RNull y r' b', p)"
      "path_l p = path_l (Crumb RAVL_LEFT x r b # path)"
      "inorder a @ path_r (Crumb RAVL_LEFT x r b # path) = y # inorder b' @ path_r p"
      using RNode.IH(1) [OF _ False] by metis
    then show ?thesis
      using RNode.prems(1) [of y r' b' p] False by simp
  qed
qed simp

lemma type_most_right:
  assumes "n \<noteq> RNull"
  obtains y r a p where "type_most RAVL_RIGHT n path = (RNode a y r RNull, p)"
    and "path_r p = path_r path" and "path_l path @ inorder n = path_l p @ inorder a @ [y]"
  using assms
proof (induction n arbitrary: path thesis)
  case (RNode a x r b)
  show ?case
  proof (cases "b = RNull")
    case True
    then show ?thesis using RNode.prems(1) [of a x r path] by simp
  next
    case False
    obtain y r' a' p where p: "type_most RAVL_RIGHT b (Crumb RAVL_RIGHT x r a # path) = (RNode a' y r' RNull, p)"
      "path_r p = path_r (Crumb RAVL_RIGHT x r a # path)"
      "path_l (Crumb RAVL_RIGHT x r a # path) @ inorder b = path_l p @ inorder a' @ [y]"
      using RNode.IH(2) [OF _ False] by metis
    then show ?thesis
      using RNode.prems(1) [of a' y r' p] False by simp
  qed
qed simp

lemma cessor_up_right: "is_at (plug (n, path)) (path_r path) (cessor_up RAVL_RIGHT n path)"
proof (induction path arbitrary: n)
  case (Cons c path)
  obtain t x r s where c: "c = Crumb t x r s" by (cases c)
  show ?case
    using Cons [of "close_crumb n c"] by (cases t) (auto simp: c is_at_def ravl_data_def)
qed (simp add: is_at_def)

lemma cessor_up_left: "is_at (plug (n, path)) (rev (path_l path)) (cessor_up RAVL_LEFT n path)"
proof (induction path arbitrary: n)
  case (Cons c path)
  obtain t x r s where c: "c = Crumb t x r s" by (cases c)
  show ?case
    using Cons [of "close_crumb n c"] by (cases t) (auto simp: c is_at_def ravl_data_def)
qed (simp add: is_at_def)

lemma successor_at:
  "is_at (plug (RNode a x r b, path)) (inorder b @ path_r path) (ravl_node_successor (RNode a x r b, path))"
proof (cases "b = RNull")
  case True
  then show ?thesis
    using cessor_up_right [of "RNode a x r b" path] by (simp add: ravl_node_successor_def ravl_node_cessor_def)
next
  case False
  obtain y r' b' p where "type_most RAVL_LEFT b (Crumb RAVL_RIGHT x r a # path) = (RNode RNull y r' b', p)"
    "inorder b @ path_r (Crumb RAVL_RIGHT x r a # path) = y # inorder b' @ path_r p"
    using type_most_left [OF False] by metis
  then show ?thesis
    using False plug_type_most [of RAVL_LEFT b "Crumb RAVL_RIGHT x r a # path"]
    by (simp add: ravl_node_successor_def ravl_node_cessor_def ravl_node_type_most_def ravl_slot_opposite_def
        is_at_def ravl_data_def)
qed

lemma predecessor_at:
  "is_at (plug (RNode a x r b, path)) (rev (path_l path @ inorder a)) (ravl_node_predecessor (RNode a x r b, path))"
proof (cases "a = RNull")
  case True
  then show ?thesis
    using cessor_up_left [of "RNode a x r b" path] by (simp add: ravl_node_predecessor_def ravl_node_cessor_def)
next
  case False
  obtain y r' a' p where e: "type_most RAVL_RIGHT a (Crumb RAVL_LEFT x r b # path) = (RNode a' y r' RNull, p)"
    "path_l (Crumb RAVL_LEFT x r b # path) @ inorder a = path_l p @ inorder a' @ [y]"
    using type_most_right [OF False] by metis
  have "rev (path_l path @ inorder a) = y # rev (path_l p @ inorder a')" using e(2) by simp
  then show ?thesis
    using False e(1) plug_type_most [of RAVL_RIGHT a "Crumb RAVL_LEFT x r b # path"]
    by (simp add: ravl_node_predecessor_def ravl_node_cessor_def ravl_node_type_most_def ravl_slot_opposite_def
        is_at_def ravl_data_def)
qed

lemma inorder_remove: "inorder (ravl_remove (RNode a x r b, path)) = path_l path @ inorder a @ inorder b @ path_r path"
proof (cases "a \<noteq> RNull \<and> b \<noteq> RNull")
  case False
  then show ?thesis by (auto simp: inorder_plug)
next
  case True
  define s where "s = ravl_node_type_most (go_slot RAVL_RIGHT (RNode a x r b, path)) RAVL_LEFT"
  obtain y r1 b1 p1 where 1: "s = (RNode RNull y r1 b1, p1)"
    "inorder b @ path_r (Crumb RAVL_RIGHT x r a # path) = y # inorder b1 @ path_r p1"
  proof -
    obtain y r1 b1 p1 where "type_most RAVL_LEFT b (Crumb RAVL_RIGHT x r a # path) = (RNode RNull y r1 b1, p1)"
      "inorder b @ path_r (Crumb RAVL_RIGHT x r a # path) = y # inorder b1 @ path_r p1"
      using type_most_left [of b "Crumb RAVL_RIGHT x r a # path"] True by metis
    then show ?thesis using that by (simp add: s_def ravl_node_type_most_def)
  qed
  obtain y' r2 b2 p2 where 2: "type_most RAVL_LEFT b (Crumb RAVL_RIGHT y r a # path) = (RNode RNull y' r2 b2, p2)"
    "path_l p2 = path_l (Crumb RAVL_RIGHT y r a # path)"
    "inorder b @ path_r (Crumb RAVL_RIGHT y r a # path) = y' # inorder b2 @ path_r p2"
    using type_most_left [of b "Crumb RAVL_RIGHT y r a # path"] True by metis
  have y: "y' = y" using 1(2) 2(3) by simp
  have "ravl_remove (RNode a x r b, path) = ravl_remove (RNode RNull y' r2 b2, p2)"
    using True 1(1) 2(1) by (simp add: ravl_data_def ravl_node_type_most_def Let_def s_def)
  also have "inorder \<dots> = path_l path @ inorder a @ [y] @ inorder b2 @ path_r p2"
    using 2(2) by (simp add: inorder_plug)
  also have "\<dots> = path_l path @ inorder a @ inorder b @ path_r path"
    using 2(3) y by simp
  finally show ?thesis .
qed

section \<open>Ordered contents\<close>

definition keys_sorted :: "('a \<Rightarrow> 'k::linorder) \<Rightarrow> 'a list \<Rightarrow> bool" where
  "keys_sorted key xs = sorted_wrt (\<lambda>x y. key x < key y) xs"

definition ins_key :: "('a \<Rightarrow> 'k::linorder) \<Rightarrow> 'a \<Rightarrow> 'a list \<Rightarrow> 'a list" where
  "ins_key key d xs = takeWhile (\<lambda>y. key y < key d) xs @ d # dropWhile (\<lambda>y. key y < key d) xs"

lemma keys_sorted_append:
  "keys_sorted key (xs @ ys) \<longleftrightarrow> keys_sorted key xs \<and> keys_sorted key ys \<and> (\<forall>x\<in>set xs. \<forall>y\<in>set ys. key x < key y)"
  by (simp add: keys_sorted_def sorted_wrt_append)

lemma keys_sorted_Cons: "keys_sorted key (x # xs) \<longleftrightarrow> (\<forall>y\<in>set xs. key x < key y) \<and> keys_sorted key xs"
  by (simp add: keys_sorted_def)

lemmas keys_sorted_simps = keys_sorted_append keys_sorted_Cons

lemma ins_key_split:
  assumes "\<forall>y\<in>set xs. key y < key d" and "\<forall>y\<in>set ys. key d < key y"
  shows "ins_key key d (xs @ ys) = xs @ d # ys"
proof -
  have "takeWhile (\<lambda>y. key y < key d) ys = []" "dropWhile (\<lambda>y. key y < key d) ys = ys"
    using assms(2) by (cases ys; auto)+
  then show ?thesis
    using assms(1) by (simp add: ins_key_def takeWhile_append2 dropWhile_append2)
qed

text \<open>The compare callback orders the data by a key.\<close>

locale ravl_order =
  fixes compare :: "'a compare_fn" and key :: "'a \<Rightarrow> 'k::linorder"
  assumes cmp_less: "compare x y < 0 \<longleftrightarrow> key x < key y"
    and cmp_equal: "compare x y = 0 \<longleftrightarrow> key x = key y"
begin

lemma cmp_greater: "compare x y > 0 \<longleftrightarrow> key y < key x"
  using cmp_less [of x y] cmp_equal [of x y] by (metis less_linear not_less_iff_gr_or_eq)

lemma emplace_walk_spec:
  assumes "keys_sorted key (path_l path @ inorder t @ path_r path)"
    and "\<forall>y\<in>set (path_l path). key y < key d" and "\<forall>y\<in>set (path_r path). key d < key y"
  shows "case emplace_walk compare d t path of
      None \<Rightarrow> \<exists>y\<in>set (inorder t). key y = key d
    | Some p \<Rightarrow> (\<forall>y\<in>set (inorder t). key y \<noteq> key d) \<and>
        path_l p @ path_r p = path_l path @ inorder t @ path_r path \<and>
        (\<forall>y\<in>set (path_l p). key y < key d) \<and> (\<forall>y\<in>set (path_r p). key d < key y)"
  using assms
proof (induction t arbitrary: path)
  case (RNode a x r b)
  consider "key d = key x" | "key x < key d" | "key d < key x" by (rule linorder_cases) auto
  then show ?case
  proof cases
    case 1
    then show ?thesis by (simp add: Let_def cmp_equal)
  next
    case 2
    then have c: "compare d x > 0" "compare d x \<noteq> 0" using cmp_greater [of d x] cmp_equal [of d x] by auto
    have a: "\<forall>y\<in>set (inorder a). key y < key d" and l: "\<forall>y\<in>set (path_l (Crumb RAVL_RIGHT x r a # path)). key y < key d"
      using RNode.prems(1,2) 2 by (auto simp: keys_sorted_simps intro: order.strict_trans)
    show ?thesis
      using RNode.IH(2) [OF _ l] RNode.prems(1,3) 2 c a
      by (auto simp: Let_def split: option.splits)
  next
    case 3
    then have c: "\<not> compare d x > 0" "compare d x \<noteq> 0" using cmp_greater [of d x] cmp_equal [of d x] by auto
    have b: "\<forall>y\<in>set (inorder b). key d < key y" and l: "\<forall>y\<in>set (path_r (Crumb RAVL_LEFT x r b # path)). key d < key y"
      using RNode.prems(1,3) 3 by (auto simp: keys_sorted_simps intro: order.strict_trans)
    show ?thesis
      using RNode.IH(1) [OF _ _ l] RNode.prems(1,2) 3 c b
      by (auto simp: Let_def split: option.splits)
  qed
qed simp

lemma emplace_spec:
  assumes "keys_sorted key (inorder root)"
  shows "ravl_emplace compare False root d = (Some ENOMEM, root)"
    and "key d \<in> key ` set (inorder root) \<Longrightarrow> ravl_emplace compare True root d = (Some EEXIST, root)"
    and "key d \<notin> key ` set (inorder root) \<Longrightarrow>
      \<exists>root'. ravl_emplace compare True root d = (None, root') \<and>
        inorder root' = ins_key key d (inorder root) \<and> keys_sorted key (inorder root')"
proof -
  note W = emplace_walk_spec [of "[]" root d]
  show "ravl_emplace compare False root d = (Some ENOMEM, root)"
    by (simp add: ravl_emplace_def ravl_new_node_def)
  show "ravl_emplace compare True root d = (Some EEXIST, root)" if "key d \<in> key ` set (inorder root)"
    using W assms that by (auto simp: ravl_emplace_def ravl_new_node_def split: option.splits)
  show "\<exists>root'. ravl_emplace compare True root d = (None, root') \<and>
        inorder root' = ins_key key d (inorder root) \<and> keys_sorted key (inorder root')"
    if new: "key d \<notin> key ` set (inorder root)"
  proof (cases "emplace_walk compare d root []")
    case None
    then show ?thesis using W assms new by (auto simp: image_iff)
  next
    case (Some p)
    let ?t = "ravl_balance (RNode RNull d 0 RNull, p)"
    have p: "path_l p @ path_r p = inorder root" "\<forall>y\<in>set (path_l p). key y < key d" "\<forall>y\<in>set (path_r p). key d < key y"
      using W assms Some by auto
    have "inorder ?t = path_l p @ d # path_r p"
      by (simp add: inorder_balance inorder_plug)
    moreover have "ins_key key d (inorder root) = path_l p @ d # path_r p"
      using p ins_key_split by metis
    moreover have "keys_sorted key (path_l p @ d # path_r p)"
      using assms p(2,3) unfolding p(1) [symmetric] keys_sorted_simps by (auto intro: order.strict_trans)
    ultimately show ?thesis
      using Some by (simp add: ravl_emplace_def ravl_new_node_def)
  qed
qed

definition sel :: "ravl_predicate \<Rightarrow> 'a \<Rightarrow> 'a list \<Rightarrow> 'a list" where
  "sel flags d xs =
     (if pred_greater flags then filter (\<lambda>y. key d < key y \<or> pred_equal flags \<and> key y = key d) xs
      else if pred_less flags then rev (filter (\<lambda>y. key y < key d \<or> pred_equal flags \<and> key y = key d) xs)
      else filter (\<lambda>y. pred_equal flags \<and> key y = key d) xs)"

lemma sel_outside:
  assumes "\<forall>y\<in>set xs. key y < key d" and "\<forall>y\<in>set ys. key d < key y"
  shows "sel flags d (xs @ ys) = (if pred_greater flags then ys else if pred_less flags then rev xs else [])"
proof -
  have "filter (\<lambda>y. key d < key y \<or> pred_equal flags \<and> key y = key d) xs = []"
    "filter (\<lambda>y. key y < key d \<or> pred_equal flags \<and> key y = key d) ys = []"
    "filter (\<lambda>y. key d < key y \<or> pred_equal flags \<and> key y = key d) ys = ys"
    "filter (\<lambda>y. key y < key d \<or> pred_equal flags \<and> key y = key d) xs = xs"
    "filter (\<lambda>y. pred_equal flags \<and> key y = key d) (xs @ ys) = []"
    using assms by (auto simp: filter_empty_conv filter_id_conv)
  then show ?thesis by (simp add: sel_def)
qed

lemma sel_found:
  assumes "\<forall>y\<in>set xs. key y < key d" and "\<forall>y\<in>set ys. key d < key y" and "key x = key d"
  shows "sel flags d (xs @ x # ys) =
    (if pred_greater flags then (if pred_equal flags then [x] else []) @ ys
     else if pred_less flags then (if pred_equal flags then [x] else []) @ rev xs
     else if pred_equal flags then [x] else [])"
proof -
  have "filter (\<lambda>y. key d < key y \<or> pred_equal flags \<and> key y = key d) xs = []"
    "filter (\<lambda>y. key y < key d \<or> pred_equal flags \<and> key y = key d) ys = []"
    "filter (\<lambda>y. key d < key y \<or> pred_equal flags \<and> key y = key d) ys = ys"
    "filter (\<lambda>y. key y < key d \<or> pred_equal flags \<and> key y = key d) xs = xs"
    "filter (\<lambda>y. pred_equal flags \<and> key y = key d) xs = []"
    "filter (\<lambda>y. pred_equal flags \<and> key y = key d) ys = []"
    using assms by (auto simp: filter_empty_conv filter_id_conv)
  then show ?thesis using assms(3)
    by (cases "pred_equal flags"; cases "pred_greater flags"; cases "pred_less flags") (simp_all add: sel_def)
qed

lemma find_loop_spec:
  assumes "keys_sorted key (path_l path @ inorder t @ path_r path)"
    and "\<forall>y\<in>set (path_l path). key y < key d" and "\<forall>y\<in>set (path_r path). key d < key y"
    and "\<not> (pred_greater flags \<and> pred_less flags)" and "pred_equal flags \<or> pred_greater flags \<or> pred_less flags"
    and "is_at (plug (t, path)) (if pred_greater flags then path_r path else if pred_less flags then rev (path_l path) else []) r"
  shows "is_at (plug (t, path)) (sel flags d (path_l path @ inorder t @ path_r path)) (find_loop compare d flags r t path)"
  using assms(1-3,6)
proof (induction t arbitrary: path r)
  case RNull
  then show ?case by (simp add: sel_outside)
next
  case (RNode a x k b)
  let ?n = "(RNode a x k b, path)"
  have ra: "is_at (plug ?n) (x # ys) (Some ?n)" for ys
    by (simp add: is_at_def ravl_data_def)
  consider "key d = key x" | "key x < key d" | "key d < key x" by (rule linorder_cases) auto
  then show ?case
  proof cases
    case 1
    then have c: "compare d x = 0" by (simp add: cmp_equal)
    have "\<forall>y\<in>set (path_l path @ inorder a). key y < key d" "\<forall>y\<in>set (inorder b @ path_r path). key d < key y"
      using RNode.prems(1-3) 1 by (auto simp: keys_sorted_simps)
    from sel_found [OF this, of x flags] 1
    have S: "sel flags d (path_l path @ inorder (RNode a x k b) @ path_r path) =
      (if pred_greater flags then (if pred_equal flags then [x] else []) @ inorder b @ path_r path
     else if pred_less flags then (if pred_equal flags then [x] else []) @ rev (path_l path @ inorder a)
     else if pred_equal flags then [x] else [])" by simp
    show ?thesis
      unfolding S using c ra successor_at [of a x k b path] predecessor_at [of a x k b path] assms(4,5)
      by (auto simp: ravl_predicate_holds_def Let_def)
  next
    case 2
    then have c: "compare d x > 0" using cmp_greater by simp
    let ?p = "Crumb RAVL_RIGHT x k a # path"
    have l: "\<forall>y\<in>set (path_l ?p). key y < key d"
      using RNode.prems(1,2) 2 by (auto simp: keys_sorted_simps intro: order.strict_trans)
    have at: "is_at (plug (b, ?p)) (if pred_greater flags then path_r ?p else if pred_less flags then rev (path_l ?p) else [])
        (snd (ravl_predicate_holds (compare d x) r ?n flags))"
      using RNode.prems(4) ra c assms(4) by (auto simp: ravl_predicate_holds_def)
    have "find_loop compare d flags r (RNode a x k b) path =
        find_loop compare d flags (snd (ravl_predicate_holds (compare d x) r ?n flags)) b ?p"
      using c by (auto simp: ravl_predicate_holds_def Let_def)
    then show ?thesis
      using RNode.IH(2) [OF _ l _ at] RNode.prems(1,3) by simp
  next
    case 3
    then have c: "compare d x < 0" using cmp_less by simp
    let ?p = "Crumb RAVL_LEFT x k b # path"
    have l: "\<forall>y\<in>set (path_r ?p). key d < key y"
      using RNode.prems(1,3) 3 by (auto simp: keys_sorted_simps intro: order.strict_trans)
    have at: "is_at (plug (a, ?p)) (if pred_greater flags then path_r ?p else if pred_less flags then rev (path_l ?p) else [])
        (snd (ravl_predicate_holds (compare d x) r ?n flags))"
      using RNode.prems(4) ra c assms(4) by (auto simp: ravl_predicate_holds_def)
    have "find_loop compare d flags r (RNode a x k b) path =
        find_loop compare d flags (snd (ravl_predicate_holds (compare d x) r ?n flags)) a ?p"
      using c by (auto simp: ravl_predicate_holds_def Let_def)
    then show ?thesis
      using RNode.IH(1) [OF _ _ l at] RNode.prems(1,2) by simp
  qed
qed

lemma find_spec:
  assumes "keys_sorted key (inorder root)" and "\<not> (pred_greater flags \<and> pred_less flags)"
    and "pred_equal flags \<or> pred_greater flags \<or> pred_less flags"
  shows "is_at root (sel flags d (inorder root)) (ravl_find compare root d flags)"
  using find_loop_spec [of "[]" root d flags None] assms by (simp add: ravl_find_def is_at_def)

text \<open>Removing a node of a tree removes its data.\<close>

lemma remove_spec:
  assumes "keys_sorted key (inorder root)" and "plug l = root" and "fst l \<noteq> RNull"
  shows "inorder (ravl_remove l) = filter (\<lambda>y. key y \<noteq> key (ravl_data l)) (inorder root)"
    and "keys_sorted key (inorder (ravl_remove l))"
proof -
  obtain a x r b path where l: "l = (RNode a x r b, path)"
    using assms(3) by (cases l; cases "fst l") auto
  let ?xs = "path_l path @ inorder a" and ?ys = "inorder b @ path_r path"
  have io: "inorder root = ?xs @ x # ?ys" using assms(2) by (auto simp: l inorder_plug)
  have "\<forall>y\<in>set ?xs. key y \<noteq> key x" "\<forall>y\<in>set ?ys. key y \<noteq> key x"
    using assms(1) unfolding io keys_sorted_append [of key ?xs] keys_sorted_Cons by (metis list.set_intros(1) less_irrefl)+
  then have "filter (\<lambda>y. key y \<noteq> key x) (?xs @ x # ?ys) = ?xs @ ?ys"
    by (simp only: filter_append filter.simps filter_True) simp
  then show eq: "inorder (ravl_remove l) = filter (\<lambda>y. key y \<noteq> key (ravl_data l)) (inorder root)"
    unfolding io by (simp add: l inorder_remove ravl_data_def del: filter_append ravl_remove.simps)
  show "keys_sorted key (inorder (ravl_remove l))"
    unfolding eq using assms(1) by (simp add: keys_sorted_def sorted_wrt_filter)
qed

end

section \<open>The ordered-set interface\<close>

text \<open>What the users of the tree rely on: a set of elements in the order of their keys, insertion that
  refuses a key that is present, search for the first element with a key at least (or equal to)
  the given one, and removal of the element a search returned.\<close>

locale ordered_set =
  fixes key :: "'a \<Rightarrow> 'k::linorder" and ok :: "'t \<Rightarrow> bool" and elems :: "'t \<Rightarrow> 'a list"
    and add :: "'t \<Rightarrow> 'a \<Rightarrow> errno option \<times> 't" and find_ge :: "'t \<Rightarrow> 'a \<Rightarrow> 'p option"
    and find_eq :: "'t \<Rightarrow> 'a \<Rightarrow> 'p option" and get :: "'p \<Rightarrow> 'a" and del :: "'p \<Rightarrow> 't"
    and valid :: "'t \<Rightarrow> 'p \<Rightarrow> bool"
  assumes elems_sorted: "ok t \<Longrightarrow> keys_sorted key (elems t)"
    and add_dup: "ok t \<Longrightarrow> key d \<in> key ` set (elems t) \<Longrightarrow> add t d = (Some EEXIST, t)"
    and add_new: "ok t \<Longrightarrow> key d \<notin> key ` set (elems t) \<Longrightarrow>
      \<exists>t'. add t d = (None, t') \<and> ok t' \<and> elems t' = ins_key key d (elems t)"
    and ge_none: "ok t \<Longrightarrow> find_ge t d = None \<longleftrightarrow> filter (\<lambda>y. key d \<le> key y) (elems t) = []"
    and ge_some: "ok t \<Longrightarrow> find_ge t d = Some p \<Longrightarrow>
      valid t p \<and> get p = hd (filter (\<lambda>y. key d \<le> key y) (elems t))"
    and eq_none: "ok t \<Longrightarrow> find_eq t d = None \<longleftrightarrow> key d \<notin> key ` set (elems t)"
    and eq_some: "ok t \<Longrightarrow> find_eq t d = Some p \<Longrightarrow>
      valid t p \<and> get p \<in> set (elems t) \<and> key (get p) = key d"
    and del_elems: "ok t \<Longrightarrow> valid t p \<Longrightarrow> elems (del p) = filter (\<lambda>y. key y \<noteq> key (get p)) (elems t)"
    and del_ok: "ok t \<Longrightarrow> valid t p \<Longrightarrow> ok (del p)"
begin

lemma key_inj: "ok t \<Longrightarrow> x \<in> set (elems t) \<Longrightarrow> y \<in> set (elems t) \<Longrightarrow> key x = key y \<Longrightarrow> x = y"
proof -
  assume "ok t" and "x \<in> set (elems t)" and "y \<in> set (elems t)" and "key x = key y"
  moreover from \<open>ok t\<close> have "sorted_wrt (\<lambda>x y. key x < key y) (elems t)"
    using elems_sorted by (simp add: keys_sorted_def)
  ultimately show "x = y"
    by (metis in_set_conv_nth linorder_neqE_nat less_irrefl sorted_wrt_nth_less)
qed

lemma elems_distinct: "ok t \<Longrightarrow> distinct (elems t)"
proof -
  have "keys_sorted key xs \<Longrightarrow> distinct xs" for xs :: "'a list"
    by (induction xs) (auto simp: keys_sorted_Cons)
  then show "ok t \<Longrightarrow> distinct (elems t)" using elems_sorted by blast
qed

lemma set_ins_key: "set (ins_key key d xs) = insert d (set xs)"
  by (auto simp: ins_key_def dest: set_takeWhileD set_dropWhileD)
    (metis UnE set_append takeWhile_dropWhile_id)

text \<open>Best fit: the element found is the least one that is large enough, and removing it removes
  nothing else.\<close>

lemma best_fit:
  assumes "ok t" and "find_ge t d = Some p"
  shows "get p \<in> set (elems t)" and "key d \<le> key (get p)"
    and "\<forall>y\<in>set (elems t). key d \<le> key y \<longrightarrow> key (get p) \<le> key y"
    and "set (elems (del p)) = set (elems t) - {get p}" and "ok (del p)"
proof -
  let ?f = "filter (\<lambda>y. key d \<le> key y) (elems t)"
  have ne: "?f \<noteq> []" using ge_none [OF assms(1), of d] assms(2) by auto
  then obtain ys where f: "?f = get p # ys"
    using ge_some [OF assms] by (cases ?f) auto
  then have "get p \<in> set ?f" by simp
  then show g: "get p \<in> set (elems t)" "key d \<le> key (get p)" by auto
  have "keys_sorted key ?f"
    using elems_sorted [OF assms(1)] by (simp add: keys_sorted_def sorted_wrt_filter)
  then have "\<forall>y\<in>set ys. key (get p) < key y" unfolding f by (simp add: keys_sorted_Cons)
  moreover have "set (elems t) \<inter> {y. key d \<le> key y} = insert (get p) (set ys)"
    using arg_cong [OF f, of set] by auto
  ultimately show "\<forall>y\<in>set (elems t). key d \<le> key y \<longrightarrow> key (get p) \<le> key y"
    by (metis (mono_tags, lifting) IntI insert_iff mem_Collect_eq order.order_iff_strict)
  show "set (elems (del p)) = set (elems t) - {get p}"
    using del_elems [OF assms(1)] ge_some [OF assms] key_inj [OF assms(1) _ g(1)] by auto
  show "ok (del p)"
    using del_ok [OF assms(1)] ge_some [OF assms] by blast
qed

end

definition RAVL_PREDICATE_EQUAL :: ravl_predicate where
  "RAVL_PREDICATE_EQUAL = \<lparr>pred_equal = True, pred_greater = False, pred_less = False\<rparr>"

definition RAVL_PREDICATE_GREATER_EQUAL :: ravl_predicate where
  "RAVL_PREDICATE_GREATER_EQUAL = \<lparr>pred_equal = True, pred_greater = True, pred_less = False\<rparr>"

sublocale ravl_order \<subseteq> rs: ordered_set key "\<lambda>t. keys_sorted key (inorder t) \<and> rank_ok t" inorder
  "ravl_emplace compare True" "\<lambda>t d. ravl_find compare t d RAVL_PREDICATE_GREATER_EQUAL"
  "\<lambda>t d. ravl_find compare t d RAVL_PREDICATE_EQUAL" ravl_data ravl_remove
  "\<lambda>t l. plug l = t \<and> fst l \<noteq> RNull"
proof unfold_locales
  have ge: "sel RAVL_PREDICATE_GREATER_EQUAL d xs = filter (\<lambda>y. key d \<le> key y) xs" for d xs
    by (auto simp: sel_def RAVL_PREDICATE_GREATER_EQUAL_def intro!: filter_cong)
  have eq: "sel RAVL_PREDICATE_EQUAL d xs = filter (\<lambda>y. key y = key d) xs" for d xs
    by (simp add: sel_def RAVL_PREDICATE_EQUAL_def)
  fix t d p
  assume ok: "keys_sorted key (inorder t) \<and> rank_ok t"
  have G: "is_at t (filter (\<lambda>y. key d \<le> key y) (inorder t)) (ravl_find compare t d RAVL_PREDICATE_GREATER_EQUAL)"
    using find_spec [of t RAVL_PREDICATE_GREATER_EQUAL d] ok by (simp add: ge) (simp add: RAVL_PREDICATE_GREATER_EQUAL_def)
  have E: "is_at t (filter (\<lambda>y. key y = key d) (inorder t)) (ravl_find compare t d RAVL_PREDICATE_EQUAL)"
    using find_spec [of t RAVL_PREDICATE_EQUAL d] ok by (simp add: eq) (simp add: RAVL_PREDICATE_EQUAL_def)
  show "keys_sorted key (inorder t)" using ok by simp
  show "key d \<in> key ` set (inorder t) \<Longrightarrow> ravl_emplace compare True t d = (Some EEXIST, t)"
    using emplace_spec(2) ok by blast
  show "\<exists>t'. ravl_emplace compare True t d = (None, t') \<and> (keys_sorted key (inorder t') \<and> rank_ok t') \<and>
      inorder t' = ins_key key d (inorder t)" if "key d \<notin> key ` set (inorder t)"
    using emplace_spec(3) [OF _ that] ok rank_ok_emplace [of t compare True d] by blast
  show "ravl_find compare t d RAVL_PREDICATE_GREATER_EQUAL = None \<longleftrightarrow> filter (\<lambda>y. key d \<le> key y) (inorder t) = []"
    using G by (auto simp: is_at_def split: list.splits)
  show "(plug p = t \<and> fst p \<noteq> RNull) \<and> ravl_data p = hd (filter (\<lambda>y. key d \<le> key y) (inorder t))"
    if "ravl_find compare t d RAVL_PREDICATE_GREATER_EQUAL = Some p"
    using G that by (auto simp: is_at_def split: list.splits)
  show "ravl_find compare t d RAVL_PREDICATE_EQUAL = None \<longleftrightarrow> key d \<notin> key ` set (inorder t)"
  proof (cases "filter (\<lambda>y. key y = key d) (inorder t)")
    case Nil
    then show ?thesis using E by (auto simp: is_at_def filter_empty_conv)
  next
    case (Cons y ys)
    then have "y \<in> set (filter (\<lambda>y. key y = key d) (inorder t))" by simp
    then have "key d \<in> key ` set (inorder t)" by (auto intro: rev_image_eqI)
    then show ?thesis using E Cons by (auto simp: is_at_def)
  qed
  show "(plug p = t \<and> fst p \<noteq> RNull) \<and> ravl_data p \<in> set (inorder t) \<and> key (ravl_data p) = key d"
    if "ravl_find compare t d RAVL_PREDICATE_EQUAL = Some p"
  proof (cases "filter (\<lambda>y. key y = key d) (inorder t)")
    case Nil
    then show ?thesis using E that by (simp add: is_at_def)
  next
    case (Cons y ys)
    then have "y \<in> set (filter (\<lambda>y. key y = key d) (inorder t))" by simp
    then have "y \<in> set (inorder t)" "key y = key d" by simp_all
    with E Cons that show ?thesis by (auto simp: is_at_def)
  qed
  show "inorder (ravl_remove p) = filter (\<lambda>y. key y \<noteq> key (ravl_data p)) (inorder t)"
    if "plug p = t \<and> fst p \<noteq> RNull"
    using remove_spec(1) [of t p] ok that by simp
  show "keys_sorted key (inorder (ravl_remove p)) \<and> rank_ok (ravl_remove p)"
    if "plug p = t \<and> fst p \<noteq> RNull"
    using remove_spec(2) [of t p] ok that rank_ok_remove [of "fst p" "snd p"] rank_ok_plug [of "fst p" "snd p"] by auto
qed

end
