(* ===== verification/Containers.thy ===== *)
theory Containers
  imports Ravl_Theorems Vecq "HOL-Library.Product_Lexorder" "HOL-Library.Multiset"
begin

text \<open>
  The two block containers of the heap, \<^verbatim>\<open>libpmemobj/container_ravl.c\<close> (a tree ordered by size
  and address) and \<^verbatim>\<open>libpmemobj/container_seglists.c\<close> (one queue per size, with a bitmap of the
  non-empty queues), the comparators of the other users of the tree, and the contract that
  \<open>struct block_container_ops\<close> stands for: insertion adds a block, best fit removes a smallest
  block that is large enough. The fields of \<open>struct memory_block\<close> that
  \<open>memblock_rebuild_state\<close> derives from the others are left out.
\<close>

unbundle bit_operations_syntax

section \<open>Blocks and comparators\<close>

record memory_block =
  chunk_id :: u32
  zone_id :: u32
  size_idx :: u32
  block_off :: u32

text \<open>The difference of two \<open>uint32_t\<close> values as \<open>int64_t\<close>.\<close>

definition diff64 :: "u32 \<Rightarrow> u32 \<Rightarrow> int" where
  "diff64 a b = int (unat a) - int (unat b)"

text \<open>One comparison of a chain: \<open>if (diff != 0) return diff > 0 ? 1 : -1;\<close> and otherwise the rest.\<close>

definition cmp_step :: "int \<Rightarrow> int \<Rightarrow> int" where
  "cmp_step diff rest = (if diff \<noteq> 0 then (if diff > 0 then 1 else - 1) else rest)"

definition container_compare_memblocks :: "memory_block compare_fn" where
  "container_compare_memblocks l r =
     cmp_step (diff64 (size_idx l) (size_idx r))
       (cmp_step (diff64 (zone_id l) (zone_id r))
         (cmp_step (diff64 (chunk_id l) (chunk_id r))
           (cmp_step (diff64 (block_off l) (block_off r)) 0)))"

record recycler_element =
  max_free_block :: u32
  free_space :: u32
  re_chunk_id :: u32
  re_zone_id :: u32

definition recycler_element_cmp :: "recycler_element compare_fn" where
  "recycler_element_cmp l r =
     cmp_step (diff64 (max_free_block l) (max_free_block r))
       (cmp_step (diff64 (free_space l) (free_space r))
         (cmp_step (diff64 (re_zone_id l) (re_zone_id r))
           (cmp_step (diff64 (re_chunk_id l) (re_chunk_id r)) 0)))"

record tx_range_def =
  range_offset :: u64
  range_size :: u64
  range_flags :: u64

definition tx_range_def_cmp :: "tx_range_def compare_fn" where
  "tx_range_def_cmp l r =
     (if range_offset l > range_offset r then 1 else if range_offset l < range_offset r then - 1 else 0)"

definition mb_key :: "memory_block \<Rightarrow> nat \<times> nat \<times> nat \<times> nat" where
  "mb_key m = (unat (size_idx m), unat (zone_id m), unat (chunk_id m), unat (block_off m))"

definition re_key :: "recycler_element \<Rightarrow> nat \<times> nat \<times> nat \<times> nat" where
  "re_key m = (unat (max_free_block m), unat (free_space m), unat (re_zone_id m), unat (re_chunk_id m))"

lemma cmp_step_diff64:
  "cmp_step (diff64 a b) r < 0 \<longleftrightarrow> unat a < unat b \<or> unat a = unat b \<and> r < 0"
  "cmp_step (diff64 a b) r = 0 \<longleftrightarrow> unat a = unat b \<and> r = 0"
  unfolding cmp_step_def diff64_def by (auto simp del: of_nat_unat)

interpretation mb: ravl_order container_compare_memblocks mb_key
  by unfold_locales
    (simp_all only: container_compare_memblocks_def mb_key_def cmp_step_diff64 less_prod_simp prod.inject, auto)

interpretation re: ravl_order recycler_element_cmp re_key
  by unfold_locales
    (simp_all only: recycler_element_cmp_def re_key_def cmp_step_diff64 less_prod_simp prod.inject, auto)

interpretation tr: ravl_order tx_range_def_cmp range_offset
  by unfold_locales (auto simp: tx_range_def_cmp_def)

lemma mb_key_inj: "mb_key (l :: memory_block) = mb_key r \<longleftrightarrow> l = r"
  by (auto simp: mb_key_def word_unat_eq_iff intro: memory_block.equality)

section \<open>The tree container\<close>

type_synonym block_container_ravl = "memory_block ravl_node"

definition container_ravl_insert_block ::
  "bool \<Rightarrow> block_container_ravl \<Rightarrow> memory_block \<Rightarrow> errno option \<times> block_container_ravl" where
  "container_ravl_insert_block alloc_ok c m = ravl_emplace container_compare_memblocks alloc_ok c m"

definition container_ravl_get_rm_block_bestfit ::
  "block_container_ravl \<Rightarrow> memory_block \<Rightarrow> errno option \<times> memory_block \<times> block_container_ravl" where
  "container_ravl_get_rm_block_bestfit c m =
     (case ravl_find container_compare_memblocks c m RAVL_PREDICATE_GREATER_EQUAL of
        None \<Rightarrow> (Some ENOMEM, m, c)
      | Some n \<Rightarrow> (None, ravl_data n, ravl_remove n))"

definition container_ravl_get_rm_block_exact ::
  "block_container_ravl \<Rightarrow> memory_block \<Rightarrow> errno option \<times> block_container_ravl" where
  "container_ravl_get_rm_block_exact c m =
     (case ravl_find container_compare_memblocks c m RAVL_PREDICATE_EQUAL of
        None \<Rightarrow> (Some ENOMEM, c)
      | Some n \<Rightarrow> (None, ravl_remove n))"

definition container_ravl_get_block_exact :: "block_container_ravl \<Rightarrow> memory_block \<Rightarrow> errno option" where
  "container_ravl_get_block_exact c m =
     (if ravl_find container_compare_memblocks c m RAVL_PREDICATE_EQUAL \<noteq> None then None else Some ENOMEM)"

definition container_ravl_is_empty :: "block_container_ravl \<Rightarrow> bool" where
  "container_ravl_is_empty c = ravl_empty c"

definition container_ravl_rm_all :: "block_container_ravl \<Rightarrow> block_container_ravl" where
  "container_ravl_rm_all c = ravl_clear c"

definition container_new_ravl :: "bool \<Rightarrow> block_container_ravl option" where
  "container_new_ravl alloc_ok = (if alloc_ok then Some RNull else None)"

section \<open>The segregated lists container\<close>

definition SEGLIST_BLOCK_LISTS :: nat where "SEGLIST_BLOCK_LISTS = 64"

record block_container_seglists =
  sl_m :: memory_block
  sl_blocks :: "u32 vecq list"
  nonempty_lists :: u64

text \<open>\<open>__builtin_ctzll\<close> on a non-zero value.\<close>

definition util_lssb_index64 :: "u64 \<Rightarrow> nat" where
  "util_lssb_index64 v = length (takeWhile (\<lambda>i. \<not> bit v i) [0..<64])"

definition container_seglists_insert_block ::
  "u32 fresh \<Rightarrow> block_container_seglists \<Rightarrow> memory_block \<Rightarrow> int \<times> block_container_seglists" where
  "container_seglists_insert_block g c m =
     (let c = (if nonempty_lists c = 0 then c\<lparr>sl_m := m\<rparr> else c);
          i = unat (size_idx m - 1);
          (r, q) = VECQ_ENQUEUE g (block_off m) (sl_blocks c ! i);
          c = c\<lparr>sl_blocks := (sl_blocks c)[i := q]\<rparr>
      in if r \<noteq> 0 then (- 1, c)
         else (0, c\<lparr>nonempty_lists := nonempty_lists c OR push_bit i 1\<rparr>))"

definition container_seglists_get_rm_block_bestfit ::
  "block_container_seglists \<Rightarrow> memory_block \<Rightarrow> errno option \<times> memory_block \<times> block_container_seglists" where
  "container_seglists_get_rm_block_bestfit c m =
     (let size_mask = push_bit (unat (size_idx m - 1)) 1 - 1;
          v = nonempty_lists c AND NOT size_mask
      in if v = 0 then (Some ENOMEM, m, c)
         else let i = util_lssb_index64 v;
                  (block_offset, q) = VECQ_DEQUEUE (sl_blocks c ! i);
                  c = c\<lparr>sl_blocks := (sl_blocks c)[i := q]\<rparr>;
                  c = (if VECQ_SIZE q = 0 then c\<lparr>nonempty_lists := nonempty_lists c AND NOT (push_bit i 1)\<rparr> else c)
              in (None, (sl_m c)\<lparr>block_off := block_offset, size_idx := of_nat i + 1\<rparr>, c))"

definition container_seglists_is_empty :: "block_container_seglists \<Rightarrow> bool" where
  "container_seglists_is_empty c \<longleftrightarrow> nonempty_lists c = 0"

definition container_seglists_rm_all :: "block_container_seglists \<Rightarrow> block_container_seglists" where
  "container_seglists_rm_all c = c\<lparr>sl_blocks := map VECQ_CLEAR (sl_blocks c), nonempty_lists := 0\<rparr>"

definition container_new_seglists :: "bool \<Rightarrow> memory_block \<Rightarrow> block_container_seglists option" where
  "container_new_seglists alloc_ok m0 =
     (if alloc_ok
      then Some \<lparr>sl_m = m0, sl_blocks = replicate SEGLIST_BLOCK_LISTS VECQ_INIT, nonempty_lists = 0\<rparr>
      else None)"

section \<open>The container contract\<close>

locale block_container =
  fixes ok :: "'c \<Rightarrow> bool" and blocks :: "'c \<Rightarrow> memory_block multiset"
    and room :: "'c \<Rightarrow> memory_block \<Rightarrow> bool" and ins :: "'c \<Rightarrow> memory_block \<Rightarrow> 'c"
    and bestfit :: "'c \<Rightarrow> memory_block \<Rightarrow> errno option \<times> memory_block \<times> 'c"
    and empty :: "'c \<Rightarrow> bool" and clear :: "'c \<Rightarrow> 'c" and request :: "memory_block \<Rightarrow> bool"
  assumes ins_ok: "ok c \<Longrightarrow> room c m \<Longrightarrow> ok (ins c m)"
    and ins_blocks: "ok c \<Longrightarrow> room c m \<Longrightarrow> blocks (ins c m) = add_mset m (blocks c)"
    and fit_none: "ok c \<Longrightarrow> request m \<Longrightarrow> bestfit c m = (Some e, b, c') \<Longrightarrow>
      e = ENOMEM \<and> b = m \<and> c' = c \<and> (\<forall>x\<in>#blocks c. size_idx x < size_idx m)"
    and fit_some: "ok c \<Longrightarrow> request m \<Longrightarrow> bestfit c m = (None, b, c') \<Longrightarrow>
      ok c' \<and> blocks c = add_mset b (blocks c') \<and> size_idx m \<le> size_idx b \<and>
      (\<forall>x\<in>#blocks c. size_idx m \<le> size_idx x \<longrightarrow> size_idx b \<le> size_idx x)"
    and empty_blocks: "ok c \<Longrightarrow> empty c \<longleftrightarrow> blocks c = {#}"
    and clear_ok: "ok c \<Longrightarrow> ok (clear c) \<and> blocks (clear c) = {#}"
begin

text \<open>Allocation: the best fit for a request is found whenever there is a block that is large
  enough, and a block that was just inserted is found unless a smaller one also fits.\<close>

lemma fit_exists:
  assumes "ok c" and "request m" and "x \<in># blocks c" and "size_idx m \<le> size_idx x"
  shows "\<exists>b c'. bestfit c m = (None, b, c') \<and> b \<in># blocks c \<and> size_idx m \<le> size_idx b \<and> size_idx b \<le> size_idx x"
proof -
  obtain e b c' where f: "bestfit c m = (e, b, c')" by (cases "bestfit c m")
  have "e = None"
  proof (rule ccontr)
    assume "e \<noteq> None"
    then have "size_idx x < size_idx m" using fit_none [OF assms(1,2)] f assms(3) by blast
    with assms(4) show False by simp
  qed
  then show ?thesis using fit_some [OF assms(1,2)] f assms(3,4) by auto
qed

lemma ins_then_fit:
  assumes "ok c" and "room c m" and "request r" and "size_idx r = size_idx m"
  shows "\<exists>b c'. bestfit (ins c m) r = (None, b, c') \<and> size_idx b = size_idx m \<and>
    add_mset b (blocks c') = add_mset m (blocks c)"
proof -
  have "m \<in># blocks (ins c m)" using ins_blocks assms by simp
  then obtain b c' where f: "bestfit (ins c m) r = (None, b, c')" "size_idx b = size_idx m"
    using fit_exists [OF ins_ok [OF assms(1,2)] assms(3)] assms(4) by force
  then have "blocks (ins c m) = add_mset b (blocks c')"
    using fit_some [OF ins_ok [OF assms(1,2)] assms(3) f(1)] by blast
  then have "add_mset b (blocks c') = add_mset m (blocks c)"
    using ins_blocks [OF assms(1,2)] by simp
  with f show ?thesis by blast
qed

end

section \<open>The tree container meets the contract\<close>

definition request_ravl :: "memory_block \<Rightarrow> bool" where
  "request_ravl m \<longleftrightarrow> zone_id m = 0 \<and> chunk_id m = 0 \<and> block_off m = 0"

definition cravl_ok :: "block_container_ravl \<Rightarrow> bool" where
  "cravl_ok c \<longleftrightarrow> keys_sorted mb_key (inorder c) \<and> rank_ok c"

lemma request_key: "request_ravl m \<Longrightarrow> mb_key m \<le> mb_key x \<longleftrightarrow> size_idx m \<le> size_idx x"
  by (auto simp: request_ravl_def mb_key_def less_eq_prod_simp word_le_nat_alt word_less_nat_alt)

lemma key_size: "mb_key x \<le> mb_key y \<Longrightarrow> size_idx x \<le> size_idx y"
  by (auto simp: mb_key_def less_eq_prod_simp word_le_nat_alt)

lemma mset_remove_one: "distinct xs \<Longrightarrow> distinct ys \<Longrightarrow> b \<in> set xs \<Longrightarrow> set ys = set xs - {b} \<Longrightarrow> mset xs = add_mset b (mset ys)"
proof -
  assume d: "distinct xs" "distinct ys" and b: "b \<in> set xs" and s: "set ys = set xs - {b}"
  have "mset ys = mset_set (set ys)" using d(2) by (simp add: mset_set_set)
  also have "add_mset b \<dots> = mset_set (insert b (set ys))"
  proof -
    have "b \<notin> set ys" using s by simp
    then show ?thesis by simp
  qed
  also have "insert b (set ys) = set xs" using b s by auto
  also have "mset_set (set xs) = mset xs" using d(1) by (simp add: mset_set_set)
  finally show ?thesis by simp
qed

interpretation rc: block_container cravl_ok "\<lambda>c. mset (inorder c)" "\<lambda>c m. m \<notin> set (inorder c)"
  "\<lambda>c m. snd (container_ravl_insert_block True c m)" container_ravl_get_rm_block_bestfit
  container_ravl_is_empty container_ravl_rm_all request_ravl
proof unfold_locales
  fix c c' :: block_container_ravl and m b e
  assume ok: "cravl_ok c"
  then have ok': "keys_sorted mb_key (inorder c) \<and> rank_ok c" by (simp add: cravl_ok_def)
  have new: "\<exists>t'. container_ravl_insert_block True c m = (None, t') \<and> cravl_ok t' \<and> inorder t' = ins_key mb_key m (inorder c)"
    if "m \<notin> set (inorder c)"
    using mb.rs.add_new [OF ok', of m] that
    by (auto simp: container_ravl_insert_block_def cravl_ok_def image_iff mb_key_inj)
  show "m \<notin> set (inorder c) \<Longrightarrow> cravl_ok (snd (container_ravl_insert_block True c m))"
    using new by auto
  show "mset (inorder (snd (container_ravl_insert_block True c m))) = add_mset m (mset (inorder c))"
    if "m \<notin> set (inorder c)"
  proof -
    have "mset (ins_key mb_key m xs) = add_mset m (mset xs)" for xs
      by (simp add: ins_key_def) (metis mset_append takeWhile_dropWhile_id)
    then show ?thesis using new [OF that] by auto
  qed
  assume req: "request_ravl m"
  show "e = ENOMEM \<and> b = m \<and> c' = c \<and> (\<forall>x\<in>#mset (inorder c). size_idx x < size_idx m)"
    if "container_ravl_get_rm_block_bestfit c m = (Some e, b, c')"
    using that mb.rs.ge_none [OF ok', of m] request_key [OF req]
    by (auto simp: container_ravl_get_rm_block_bestfit_def filter_empty_conv not_le split: option.splits)
  show "cravl_ok c' \<and> mset (inorder c) = add_mset b (mset (inorder c')) \<and> size_idx m \<le> size_idx b \<and>
      (\<forall>x\<in>#mset (inorder c). size_idx m \<le> size_idx x \<longrightarrow> size_idx b \<le> size_idx x)"
    if f: "container_ravl_get_rm_block_bestfit c m = (None, b, c')"
  proof -
    obtain p where p: "ravl_find container_compare_memblocks c m RAVL_PREDICATE_GREATER_EQUAL = Some p"
      and b: "b = ravl_data p" and c': "c' = ravl_remove p"
      using f by (auto simp: container_ravl_get_rm_block_bestfit_def split: option.splits)
    note B = mb.rs.best_fit [OF ok' p]
    have "distinct (inorder c)" "distinct (inorder c')"
      using mb.rs.elems_distinct ok' B(5) c' by blast+
    then have "mset (inorder c) = add_mset b (mset (inorder c'))"
      using mset_remove_one [of "inorder c" "inorder c'" b] B(1,4) b c' by simp
    then show ?thesis
      using B request_key [OF req] key_size b c' by (auto simp: cravl_ok_def)
  qed
next
  fix c :: block_container_ravl
  show "container_ravl_is_empty c \<longleftrightarrow> mset (inorder c) = {#}"
    by (cases c) (auto simp: container_ravl_is_empty_def ravl_empty_def)
  show "cravl_ok (container_ravl_rm_all c) \<and> mset (inorder (container_ravl_rm_all c)) = {#}"
    by (simp add: container_ravl_rm_all_def ravl_clear_def cravl_ok_def keys_sorted_def)
qed

section \<open>The segregated lists container meets the contract\<close>

definition seg_list :: "block_container_seglists \<Rightarrow> nat \<Rightarrow> memory_block list" where
  "seg_list c i = map (\<lambda>off. (sl_m c)\<lparr>block_off := off, size_idx := of_nat i + 1\<rparr>) (vecq_list (sl_blocks c ! i))"

definition seg_blocks :: "block_container_seglists \<Rightarrow> memory_block multiset" where
  "seg_blocks c = (\<Sum>i<64. mset (seg_list c i))"

definition seg_ok :: "block_container_seglists \<Rightarrow> bool" where
  "seg_ok c \<longleftrightarrow> length (sl_blocks c) = 64 \<and>
     (\<forall>i<64. vecq_ok (sl_blocks c ! i) \<and> (bit (nonempty_lists c) i \<longleftrightarrow> vecq_list (sl_blocks c ! i) \<noteq> []))"

definition request_seg :: "memory_block \<Rightarrow> bool" where
  "request_seg m \<longleftrightarrow> 1 \<le> unat (size_idx m) \<and> unat (size_idx m) \<le> 64"

definition seg_room :: "block_container_seglists \<Rightarrow> memory_block \<Rightarrow> bool" where
  "seg_room c m \<longleftrightarrow> request_seg m \<and> vecq_room (sl_blocks c ! (unat (size_idx m) - 1)) \<and>
     (nonempty_lists c \<noteq> 0 \<longrightarrow> chunk_id m = chunk_id (sl_m c) \<and> zone_id m = zone_id (sl_m c))"

lemma size_minus_1: "request_seg m \<Longrightarrow> unat (size_idx m - 1) = unat (size_idx m) - 1"
  by (simp add: request_seg_def unat_sub word_le_nat_alt)

lemma seg_blocks_cong_but:
  assumes "i < 64" and "\<And>j. j < 64 \<Longrightarrow> j \<noteq> i \<Longrightarrow> seg_list c' j = seg_list c j"
  shows "seg_blocks c' = mset (seg_list c' i) + (\<Sum>j\<in>{..<64} - {i}. mset (seg_list c j))"
    and "seg_blocks c = mset (seg_list c i) + (\<Sum>j\<in>{..<64} - {i}. mset (seg_list c j))"
proof -
  show "seg_blocks c = mset (seg_list c i) + (\<Sum>j\<in>{..<64} - {i}. mset (seg_list c j))"
    unfolding seg_blocks_def using assms(1) by (intro sum.remove) auto
  have "seg_blocks c' = mset (seg_list c' i) + (\<Sum>j\<in>{..<64} - {i}. mset (seg_list c' j))"
    unfolding seg_blocks_def using assms(1) by (intro sum.remove) auto
  also have "(\<Sum>j\<in>{..<64} - {i}. mset (seg_list c' j)) = (\<Sum>j\<in>{..<64} - {i}. mset (seg_list c j))"
    using assms(2) by (intro sum.cong) auto
  finally show "seg_blocks c' = mset (seg_list c' i) + (\<Sum>j\<in>{..<64} - {i}. mset (seg_list c j))" .
qed

lemma seg_empty: "seg_ok c \<Longrightarrow> nonempty_lists c = 0 \<longleftrightarrow> seg_blocks c = {#}"
proof -
  assume ok: "seg_ok c"
  have "nonempty_lists c = 0 \<longleftrightarrow> (\<forall>i<64. \<not> bit (nonempty_lists c) i)"
    by (auto intro!: bit_word_eqI)
  also have "\<dots> \<longleftrightarrow> (\<forall>i<64. seg_list c i = [])"
    using ok by (auto simp: seg_ok_def seg_list_def)
  also have "\<dots> \<longleftrightarrow> seg_blocks c = {#}"
    by (auto simp: seg_blocks_def sum_eq_empty_iff)
  finally show ?thesis .
qed

lemma seg_insert:
  assumes ok: "seg_ok c" and room: "seg_room c m"
  shows "fst (container_seglists_insert_block (Some f) c m) = 0"
    and "seg_ok (snd (container_seglists_insert_block (Some f) c m))"
    and "seg_blocks (snd (container_seglists_insert_block (Some f) c m)) = add_mset m (seg_blocks c)"
proof -
  let ?i = "unat (size_idx m) - 1"
  have req: "request_seg m" and i: "?i < 64" using room by (auto simp: seg_room_def request_seg_def)
  define c1 where "c1 = (if nonempty_lists c = 0 then c\<lparr>sl_m := m\<rparr> else c)"
  have q: "vecq_ok (sl_blocks c ! ?i)" "vecq_room (sl_blocks c ! ?i)"
    using ok room i by (auto simp: seg_ok_def seg_room_def)
  note E = enqueue_list [OF q, of f "block_off m"]
  define q' where "q' = snd (VECQ_ENQUEUE (Some f) (block_off m) (sl_blocks c ! ?i))"
  define c2 where "c2 = c1\<lparr>sl_blocks := (sl_blocks c)[?i := q'], nonempty_lists := nonempty_lists c OR push_bit ?i 1\<rparr>"
  have res: "container_seglists_insert_block (Some f) c m = (0, c2)"
    using E(1) size_minus_1 [OF req]
    by (auto simp: container_seglists_insert_block_def Let_def c1_def c2_def q'_def split: prod.splits)
  then show "fst (container_seglists_insert_block (Some f) c m) = 0" by simp
  have len: "length (sl_blocks c) = 64" using ok by (simp add: seg_ok_def)
  have "seg_ok c2"
    unfolding seg_ok_def
  proof (intro conjI allI impI)
    show "length (sl_blocks c2) = 64" by (simp add: c2_def len)
    fix j :: nat assume j: "j < 64"
    show "vecq_ok (sl_blocks c2 ! j)" "bit (nonempty_lists c2) j \<longleftrightarrow> vecq_list (sl_blocks c2 ! j) \<noteq> []"
      using ok E j i len by (cases "j = ?i"; simp add: c2_def seg_ok_def q'_def bit_simps)+
  qed
  with res show "seg_ok (snd (container_seglists_insert_block (Some f) c m))" by simp
  have same1: "seg_list c1 j = seg_list c j" if "j < 64" for j
  proof (cases "nonempty_lists c = 0")
    case True
    then have "vecq_list (sl_blocks c ! j) = []" using ok that by (auto simp: seg_ok_def)
    then show ?thesis using True by (simp add: seg_list_def c1_def)
  qed (simp add: c1_def)
  have other: "seg_list c2 j = seg_list c j" if "j < 64" "j \<noteq> ?i" for j
  proof -
    have "sl_blocks c1 = sl_blocks c" by (simp add: c1_def)
    then have "seg_list c2 j = seg_list c1 j" using that(2) by (simp add: seg_list_def c2_def)
    then show ?thesis using same1 [OF that(1)] by simp
  qed
  have m: "(sl_m c1)\<lparr>block_off := block_off m, size_idx := of_nat ?i + 1\<rparr> = m"
  proof -
    have "of_nat ?i + 1 = size_idx m"
      using req i by (auto simp: word_unat_eq_iff unat_word_ariths unat_of_nat request_seg_def)
    moreover have "chunk_id (sl_m c1) = chunk_id m" "zone_id (sl_m c1) = zone_id m"
      using room by (auto simp: c1_def seg_room_def)
    ultimately show ?thesis by (intro memory_block.equality) auto
  qed
  have "seg_list c2 ?i = seg_list c1 ?i @ [m]"
    using E(2) i len m by (simp add: seg_list_def c2_def q'_def) (simp add: c1_def)
  then have "seg_list c2 ?i = seg_list c ?i @ [m]" using same1 [OF i] by simp
  then have "seg_blocks c2 = add_mset m (seg_blocks c)"
    using seg_blocks_cong_but [OF i other] by simp
  with res show "seg_blocks (snd (container_seglists_insert_block (Some f) c m)) = add_mset m (seg_blocks c)" by simp
qed

lemma lssb_index:
  assumes "v \<noteq> (0 :: u64)"
  shows "bit v (util_lssb_index64 v)" and "util_lssb_index64 v < 64" and "\<And>j. j < util_lssb_index64 v \<Longrightarrow> \<not> bit v j"
proof -
  let ?n = "util_lssb_index64 v"
  have "\<exists>k<64. bit v k"
  proof (rule ccontr)
    assume "\<not> (\<exists>k<64. bit v k)"
    then have "v = 0" by (intro bit_word_eqI) simp
    with assms show False by simp
  qed
  then obtain k where k: "k < 64" "bit v k" by blast
  have len: "?n \<le> 64"
    using length_takeWhile_le [of "\<lambda>i. \<not> bit v i" "[0..<64]"] by (simp add: util_lssb_index64_def)
  have ne: "?n \<noteq> 64"
  proof
    assume "?n = 64"
    then have "takeWhile (\<lambda>i. \<not> bit v i) [0..<64] = [0..<64]"
      unfolding util_lssb_index64_def by (metis length_upt diff_zero takeWhile_eq_all_conv takeWhile_eq_take take_all order_refl)
    then show False using k by (simp add: takeWhile_eq_all_conv)
  qed
  with len show lt: "?n < 64" by simp
  then show "bit v ?n"
    using nth_length_takeWhile [of "\<lambda>i. \<not> bit v i" "[0..<64]"] by (simp add: util_lssb_index64_def)
  show "\<not> bit v j" if "j < ?n" for j
  proof -
    have "takeWhile (\<lambda>i. \<not> bit v i) [0..<64] ! j = [0..<64] ! j"
      using that by (simp add: util_lssb_index64_def takeWhile_nth)
    then have "j \<in> set (takeWhile (\<lambda>i. \<not> bit v i) [0..<64])"
      using that lt by (metis util_lssb_index64_def nth_mem nth_upt add_0 less_trans)
    then show ?thesis by (auto dest: set_takeWhileD)
  qed
qed

lemma seg_mask_bits:
  assumes "request_seg m" and "j < 64"
  shows "bit (nonempty_lists c AND NOT (push_bit (unat (size_idx m - 1)) 1 - 1)) j \<longleftrightarrow>
    bit (nonempty_lists c) j \<and> unat (size_idx m) - 1 \<le> j"
proof -
  let ?k = "unat (size_idx m) - 1"
  have "push_bit (unat (size_idx m - 1)) 1 - 1 = (mask ?k :: u64)"
    by (simp add: size_minus_1 [OF assms(1)] mask_eq_exp_minus_1 push_bit_eq_mult)
  then show ?thesis using assms(2) by (simp add: bit_simps not_less)
qed

lemma seg_list_size: "i < 64 \<Longrightarrow> x \<in> set (seg_list c i) \<Longrightarrow> unat (size_idx x) = i + 1"
  by (auto simp: seg_list_def unat_word_ariths unat_of_nat)

lemma seg_member: "x \<in># seg_blocks c \<longleftrightarrow> (\<exists>i<64. x \<in> set (seg_list c i))"
  by (auto simp: seg_blocks_def set_mset_sum)

lemma seg_fit:
  assumes ok: "seg_ok c" and req: "request_seg m"
  shows "container_seglists_get_rm_block_bestfit c m = (Some e, b, c') \<Longrightarrow>
      e = ENOMEM \<and> b = m \<and> c' = c \<and> (\<forall>x\<in>#seg_blocks c. size_idx x < size_idx m)"
    and "container_seglists_get_rm_block_bestfit c m = (None, b, c') \<Longrightarrow>
      seg_ok c' \<and> seg_blocks c = add_mset b (seg_blocks c') \<and> size_idx m \<le> size_idx b \<and>
      (\<forall>x\<in>#seg_blocks c. size_idx m \<le> size_idx x \<longrightarrow> size_idx b \<le> size_idx x)"
proof -
  let ?v = "nonempty_lists c AND NOT (push_bit (unat (size_idx m - 1)) 1 - 1)"
  have ne: "bit (nonempty_lists c) j \<longleftrightarrow> seg_list c j \<noteq> []" if "j < 64" for j
    using ok that by (simp add: seg_ok_def seg_list_def)
  have low: "size_idx m \<le> size_idx x \<longleftrightarrow> unat (size_idx m) - 1 \<le> j" if "j < 64" "x \<in> set (seg_list c j)" for x j
    using seg_list_size [OF that] req by (auto simp: word_le_nat_alt request_seg_def)
  {
    assume "container_seglists_get_rm_block_bestfit c m = (Some e, b, c')"
    then have v: "?v = 0" and r: "e = ENOMEM \<and> b = m \<and> c' = c"
      by (auto simp: container_seglists_get_rm_block_bestfit_def Let_def split: if_splits prod.splits)
    have "\<not> size_idx m \<le> size_idx x" if "j < 64" "x \<in> set (seg_list c j)" for x j
      using low [OF that] seg_mask_bits [OF req that(1), of c] v ne [OF that(1)] that(2) by auto
    then show "e = ENOMEM \<and> b = m \<and> c' = c \<and> (\<forall>x\<in>#seg_blocks c. size_idx x < size_idx m)"
      using r by (auto simp: seg_member not_le)
  }
  assume f: "container_seglists_get_rm_block_bestfit c m = (None, b, c')"
  then have v: "?v \<noteq> 0"
    by (auto simp: container_seglists_get_rm_block_bestfit_def Let_def split: if_splits)
  let ?i = "util_lssb_index64 ?v"
  note L = lssb_index [OF v]
  have i: "?i < 64" by (rule L(2))
  have bi: "bit (nonempty_lists c) ?i" "unat (size_idx m) - 1 \<le> ?i"
    using L(1) seg_mask_bits [OF req i, of c] by auto
  have q: "vecq_ok (sl_blocks c ! ?i)" "vecq_list (sl_blocks c ! ?i) \<noteq> []"
    using ok i bi(1) by (auto simp: seg_ok_def)
  note D = dequeue_list [OF q]
  define q' where "q' = snd (VECQ_DEQUEUE (sl_blocks c ! ?i))"
  define w where "w = (if VECQ_SIZE q' = 0 then nonempty_lists c AND NOT (push_bit ?i 1) else nonempty_lists c)"
  have c': "c' = c\<lparr>sl_blocks := (sl_blocks c)[?i := q'], nonempty_lists := w\<rparr>"
    and b: "b = (sl_m c)\<lparr>block_off := hd (vecq_list (sl_blocks c ! ?i)), size_idx := of_nat ?i + 1\<rparr>"
    using f v D(1) by (auto simp: container_seglists_get_rm_block_bestfit_def Let_def q'_def w_def split: prod.splits if_splits)
  have len: "length (sl_blocks c) = 64" using ok by (simp add: seg_ok_def)
  have q0: "VECQ_SIZE q' = 0 \<longleftrightarrow> vecq_list q' = []"
    using length_vecq_list [of q'] by (metis length_0_conv)
  have okc': "seg_ok c'"
    unfolding seg_ok_def
  proof (intro conjI allI impI)
    show "length (sl_blocks c') = 64" by (simp add: c' len)
    fix j :: nat assume j: "j < 64"
    show "vecq_ok (sl_blocks c' ! j)"
      using ok D(3) j i len by (cases "j = ?i") (simp_all add: c' seg_ok_def q'_def)
    show "bit (nonempty_lists c') j \<longleftrightarrow> vecq_list (sl_blocks c' ! j) \<noteq> []"
      using ok j i len q0 bi(1) by (cases "j = ?i") (auto simp: c' seg_ok_def w_def bit_simps)
  qed
  have hd: "seg_list c ?i = b # seg_list c' ?i"
    using q(2) D(2) i len by (cases "vecq_list (sl_blocks c ! ?i)") (auto simp: seg_list_def c' b q'_def)
  have other: "seg_list c' j = seg_list c j" if "j < 64" "j \<noteq> ?i" for j
    using that by (simp add: seg_list_def c')
  have "seg_blocks c = add_mset b (seg_blocks c')"
    using seg_blocks_cong_but [OF i other] hd by simp
  moreover have bs: "unat (size_idx b) = ?i + 1"
    using seg_list_size [OF i, of b c] hd by simp
  moreover have "size_idx b \<le> size_idx x" if x: "x \<in># seg_blocks c" and mx: "size_idx m \<le> size_idx x" for x
  proof -
    obtain j where j: "j < 64" "x \<in> set (seg_list c j)" using x by (auto simp: seg_member)
    then have "bit ?v j"
      using low [OF j] mx seg_mask_bits [OF req j(1), of c] ne [OF j(1)] by auto
    then have "?i \<le> j" using L(3) by (meson not_le)
    then show ?thesis using seg_list_size [OF j] bs by (simp add: word_le_nat_alt)
  qed
  moreover have "size_idx m \<le> size_idx b" using bi(2) bs by (simp add: word_le_nat_alt)
  ultimately show "seg_ok c' \<and> seg_blocks c = add_mset b (seg_blocks c') \<and> size_idx m \<le> size_idx b \<and>
      (\<forall>x\<in>#seg_blocks c. size_idx m \<le> size_idx x \<longrightarrow> size_idx b \<le> size_idx x)"
    using okc' by blast
qed

lemma seg_clear:
  assumes "seg_ok c"
  shows "seg_ok (container_seglists_rm_all c) \<and> seg_blocks (container_seglists_rm_all c) = {#}"
proof -
  have q: "vecq_ok (VECQ_CLEAR q) \<and> vecq_list (VECQ_CLEAR q) = []" if "vecq_ok q" for q :: "u32 vecq"
    using that by (auto simp: vecq_ok_def VECQ_CLEAR_def VECQ_SIZE_def vecq_list_def)
  have ok: "seg_ok (container_seglists_rm_all c)"
    using assms q by (auto simp: seg_ok_def container_seglists_rm_all_def)
  moreover have "nonempty_lists (container_seglists_rm_all c) = 0" by (simp add: container_seglists_rm_all_def)
  ultimately show ?thesis using seg_empty by blast
qed

interpretation sc: block_container seg_ok seg_blocks seg_room
  "\<lambda>c m. snd (container_seglists_insert_block (Some f) c m)" container_seglists_get_rm_block_bestfit
  container_seglists_is_empty container_seglists_rm_all request_seg
proof unfold_locales
  fix c c' m b e
  assume ok: "seg_ok c"
  show "seg_ok (snd (container_seglists_insert_block (Some f) c m))" if "seg_room c m"
    using ok that by (rule seg_insert(2))
  show "seg_blocks (snd (container_seglists_insert_block (Some f) c m)) = add_mset m (seg_blocks c)" if "seg_room c m"
    using ok that by (rule seg_insert(3))
  show "e = ENOMEM \<and> b = m \<and> c' = c \<and> (\<forall>x\<in>#seg_blocks c. size_idx x < size_idx m)"
    if "request_seg m" "container_seglists_get_rm_block_bestfit c m = (Some e, b, c')"
    using ok that by (rule seg_fit(1))
  show "seg_ok c' \<and> seg_blocks c = add_mset b (seg_blocks c') \<and> size_idx m \<le> size_idx b \<and>
      (\<forall>x\<in>#seg_blocks c. size_idx m \<le> size_idx x \<longrightarrow> size_idx b \<le> size_idx x)"
    if "request_seg m" "container_seglists_get_rm_block_bestfit c m = (None, b, c')"
    using ok that by (rule seg_fit(2))
  show "container_seglists_is_empty c \<longleftrightarrow> seg_blocks c = {#}"
    using seg_empty [OF ok] by (simp add: container_seglists_is_empty_def)
  show "seg_ok (container_seglists_rm_all c) \<and> seg_blocks (container_seglists_rm_all c) = {#}"
    using ok by (rule seg_clear)
qed

section \<open>Theorems\<close>

text \<open>Insertion into the tree: for a compare callback that orders the data by a key, and a tree
  whose contents are in key order and that satisfies the rank rule, \<open>ravl_emplace\<close> of a key that
  is present fails with \<open>EEXIST\<close> and leaves the tree as it is; of a new key it succeeds, puts the
  data at its place in the order, and the rank rule holds again, so that the height is at most the
  rank of the root plus one.\<close>

lemma ravl_emplace_correct:
  fixes compare :: "'a compare_fn" and key :: "'a \<Rightarrow> 'k::linorder"
  assumes "\<And>x y. compare x y < 0 \<longleftrightarrow> key x < key y" and "\<And>x y. compare x y = 0 \<longleftrightarrow> key x = key y"
    and "keys_sorted key (inorder root)" and "rank_ok root"
  shows "if key d \<in> key ` set (inorder root)
    then ravl_emplace compare True root d = (Some EEXIST, root)
    else \<exists>root'. ravl_emplace compare True root d = (None, root') \<and>
      inorder root' = ins_key key d (inorder root) \<and> keys_sorted key (inorder root') \<and>
      rank_ok root' \<and> int (height root') \<le> ravl_node_rank root' + 1"
proof -
  note o = ravl_order.intro [of compare key, OF assms(1,2)]
  show ?thesis
    using ravl_order.emplace_spec [OF o assms(3), of d] rank_ok_emplace [OF assms(4)] height_le_rank by fastforce
qed

text \<open>Search: \<open>ravl_find\<close> with each of the five predicates points to the data in the tree that is
  equal to, the least that is greater than (or equal), or the greatest that is less than (or
  equal to) the key searched for, and is null when there is none.\<close>

lemma ravl_find_correct:
  fixes compare :: "'a compare_fn" and key :: "'a \<Rightarrow> 'k::linorder"
  assumes "\<And>x y. compare x y < 0 \<longleftrightarrow> key x < key y" and "\<And>x y. compare x y = 0 \<longleftrightarrow> key x = key y"
    and "keys_sorted key (inorder root)" and "\<not> (pred_greater flags \<and> pred_less flags)"
    and "pred_equal flags \<or> pred_greater flags \<or> pred_less flags"
  shows "is_at root
    (if pred_greater flags then filter (\<lambda>y. key d < key y \<or> pred_equal flags \<and> key y = key d) (inorder root)
     else if pred_less flags
     then rev (filter (\<lambda>y. key y < key d \<or> pred_equal flags \<and> key y = key d) (inorder root))
     else filter (\<lambda>y. pred_equal flags \<and> key y = key d) (inorder root))
    (ravl_find compare root d flags)"
proof -
  note o = ravl_order.intro [of compare key, OF assms(1,2)]
  show ?thesis
    using ravl_order.find_spec [OF o assms(3-5), of d] unfolding ravl_order.sel_def [OF o] .
qed

text \<open>C26. Removal: removing the node that a search for a key returned takes exactly the data with
  that key out of the tree and keeps the order and the rank rule.\<close>

theorem ravl_remove_correct:
  fixes compare :: "'a compare_fn" and key :: "'a \<Rightarrow> 'k::linorder"
  assumes "\<And>x y. compare x y < 0 \<longleftrightarrow> key x < key y" and "\<And>x y. compare x y = 0 \<longleftrightarrow> key x = key y"
    and "keys_sorted key (inorder root)" and "rank_ok root"
    and "ravl_find compare root d RAVL_PREDICATE_EQUAL = Some n"
  shows "inorder (ravl_remove n) = filter (\<lambda>y. key y \<noteq> key d) (inorder root) \<and>
    keys_sorted key (inorder (ravl_remove n)) \<and> rank_ok (ravl_remove n)"
proof -
  note o = ravl_order.intro [of compare key, OF assms(1,2)]
  have P: "is_at root (filter (\<lambda>y. key y = key d) (inorder root)) (Some n)"
    using ravl_order.find_spec [OF o assms(3), of RAVL_PREDICATE_EQUAL d] assms(5)
    by (simp add: ravl_order.sel_def [OF o]) (simp add: RAVL_PREDICATE_EQUAL_def)
  then obtain y ys where f: "filter (\<lambda>y. key y = key d) (inorder root) = y # ys"
    by (cases "filter (\<lambda>y. key y = key d) (inorder root)") (auto simp: is_at_def)
  then have "y \<in> set (filter (\<lambda>y. key y = key d) (inorder root))" by simp
  then have "key y = key d" by simp
  with P f have n: "plug n = root" "fst n \<noteq> RNull" "key (ravl_data n) = key d" by (auto simp: is_at_def)
  show ?thesis
    using ravl_order.remove_spec [OF o assms(3) n(1,2)] n(3) assms(4)
      rank_ok_remove [of "fst n" "snd n"] rank_ok_plug [of "fst n" "snd n"] n(1) by auto
qed

text \<open>C27. The tree container gives a best fit: for a request by size, it reports \<open>ENOMEM\<close> only when
  every stored block is too small, and otherwise hands out and removes a block of the least
  sufficient size.\<close>

theorem container_ravl_bestfit:
  assumes "cravl_ok c" and "request_ravl m"
  shows "case container_ravl_get_rm_block_bestfit c m of
      (Some e, b, c') \<Rightarrow> e = ENOMEM \<and> c' = c \<and> (\<forall>x\<in>#mset (inorder c). size_idx x < size_idx m)
    | (None, b, c') \<Rightarrow> cravl_ok c' \<and> mset (inorder c) = add_mset b (mset (inorder c')) \<and> size_idx m \<le> size_idx b \<and>
        (\<forall>x\<in>#mset (inorder c). size_idx m \<le> size_idx x \<longrightarrow> size_idx b \<le> size_idx x)"
proof -
  obtain e b c' where f: "container_ravl_get_rm_block_bestfit c m = (e, b, c')"
    by (cases "container_ravl_get_rm_block_bestfit c m")
  show ?thesis
  proof (cases e)
    case None
    with f have f': "container_ravl_get_rm_block_bestfit c m = (None, b, c')" by simp
    show ?thesis using rc.fit_some [OF assms f'] unfolding f' prod.case option.case .
  next
    case (Some e')
    with f have f': "container_ravl_get_rm_block_bestfit c m = (Some e', b, c')" by simp
    show ?thesis using rc.fit_none [OF assms f'] unfolding f' prod.case option.case by blast
  qed
qed

text \<open>C28. The segregated lists container gives a best fit too: it finds the first non-empty list of a
  sufficient size through the bitmap and hands out the oldest block of that list.\<close>

theorem container_seglists_bestfit:
  assumes "seg_ok c" and "request_seg m"
  shows "case container_seglists_get_rm_block_bestfit c m of
      (Some e, b, c') \<Rightarrow> e = ENOMEM \<and> c' = c \<and> (\<forall>x\<in>#seg_blocks c. size_idx x < size_idx m)
    | (None, b, c') \<Rightarrow> seg_ok c' \<and> seg_blocks c = add_mset b (seg_blocks c') \<and> size_idx m \<le> size_idx b \<and>
        (\<forall>x\<in>#seg_blocks c. size_idx m \<le> size_idx x \<longrightarrow> size_idx b \<le> size_idx x)"
  using sc.fit_none [OF assms] sc.fit_some [OF assms] by (auto split: prod.splits option.splits)

text \<open>A block that is put into the segregated lists (with room in its queue) can be allocated
  again: the next request of its size succeeds with a block of that size, and one block stays in
  the container for every other block that was there.\<close>

lemma container_seglists_insert_then_fit:
  assumes "seg_ok c" and "seg_room c m" and "request_seg r" and "size_idx r = size_idx m"
  shows "\<exists>c1 b c2. container_seglists_insert_block (Some f) c m = (0, c1) \<and>
    container_seglists_get_rm_block_bestfit c1 r = (None, b, c2) \<and> size_idx b = size_idx m \<and>
    add_mset b (seg_blocks c2) = add_mset m (seg_blocks c)"
  using sc.ins_then_fit [OF assms, of f] seg_insert(1) [OF assms(1,2), of f] by (metis prod.collapse)

section \<open>Examples\<close>

theorem ravl_remove_correct_witness:
  "inorder (ravl_remove (the (ravl_find (\<lambda>x y. x - y) (RNode RNull 3 1 (RNode RNull (5 :: int) 0 RNull)) 3
     RAVL_PREDICATE_EQUAL))) = [5]"
proof -
  let ?t = "RNode RNull 3 1 (RNode RNull (5 :: int) 0 RNull)"
  obtain n where "ravl_find (\<lambda>x y. x - y) ?t 3 RAVL_PREDICATE_EQUAL = Some n"
    by (simp add: ravl_find_def ravl_predicate_holds_def RAVL_PREDICATE_EQUAL_def)
  then show ?thesis
    using ravl_remove_correct [of "\<lambda>x y. x - y" "\<lambda>x. x" ?t 3 n] by (simp add: keys_sorted_def)
qed

definition sample_block :: "u32 \<Rightarrow> u32 \<Rightarrow> memory_block" where
  "sample_block sz off = \<lparr>chunk_id = 0, zone_id = 0, size_idx = sz, block_off = off\<rparr>"

theorem container_ravl_bestfit_witness:
  "case container_ravl_get_rm_block_bestfit (RNode RNull (sample_block 4 0) 0 RNull) (sample_block 9 0) of
     (Some e, b, c') \<Rightarrow> e = ENOMEM | (None, b, c') \<Rightarrow> size_idx b \<ge> 9"
  using container_ravl_bestfit [of "RNode RNull (sample_block 4 0) 0 RNull" "sample_block 9 0"]
  by (auto simp: cravl_ok_def keys_sorted_def request_ravl_def sample_block_def split: prod.splits option.splits)

lemma new_seglists_ok: "seg_ok (the (container_new_seglists True m0))"
  by (simp add: container_new_seglists_def seg_ok_def SEGLIST_BLOCK_LISTS_def vecq_ok_def VECQ_INIT_def
      pow2_or_0_def VECQ_SIZE_def vecq_list_def)

theorem container_seglists_bestfit_witness:
  "case container_seglists_get_rm_block_bestfit (the (container_new_seglists True (sample_block 1 0))) (sample_block 9 0) of
     (Some e, b, c') \<Rightarrow> e = ENOMEM | (None, b, c') \<Rightarrow> size_idx b \<ge> 9"
  using container_seglists_bestfit [OF new_seglists_ok, of "sample_block 9 0" "sample_block 1 0"]
  by (auto simp: request_seg_def sample_block_def split: prod.splits option.splits)

end
