(* ===== verification/Memblock.thy ===== *)
theory Memblock
  imports Memops Containers
begin

text \<open>
  Memory blocks of the persistent heap: \<^verbatim>\<open>libpmemobj/memblock.c\<close> with the layout of
  \<^verbatim>\<open>heap_layout.h\<close>. A zone is a table of chunk headers followed by its chunks; a chunk is free or
  used as a whole (a huge block, which may span several chunks) or is a run, which starts with a
  bitmap of its units. The persistent structures are in the byte memory at the addresses the layout
  gives them. Fields and locals keep their C widths, addresses are natural numbers.

  The result \<open>None\<close> is a call through the null \<open>m_ops\<close> of a block whose type is not set, an index
  past \<open>memblock_header_ops\<close>, or the \<open>FATAL\<close> of \<open>memblock_detect_type\<close>. Assertions, which only debug
  builds check, and the hints to Valgrind are not part of the model. Persisting a range changes no
  byte of the memory.
\<close>

unbundle bit_operations_syntax

section \<open>Layout\<close>

definition MAX_CHUNK :: nat where "MAX_CHUNK = 65528"
definition CHUNKSIZE :: u64 where "CHUNKSIZE = 1024 * 256"
definition SIZEOF_ZONE :: u64 where "SIZEOF_ZONE = 64 + 8 * of_nat MAX_CHUNK"
definition ZONE_MAX_SIZE :: u64 where "ZONE_MAX_SIZE = SIZEOF_ZONE + CHUNKSIZE * of_nat MAX_CHUNK"
definition SIZEOF_HEAP_HEADER :: nat where "SIZEOF_HEAP_HEADER = 1024"

definition RUN_BITS_PER_VALUE :: u32 where "RUN_BITS_PER_VALUE = 64"
definition RUN_BASE_METADATA_VALUES :: u32 where "RUN_BASE_METADATA_VALUES = 2"
definition RUN_BASE_METADATA_SIZE :: u64 where "RUN_BASE_METADATA_SIZE = 16"
definition RUN_CONTENT_SIZE :: u64 where "RUN_CONTENT_SIZE = CHUNKSIZE - RUN_BASE_METADATA_SIZE"

definition RUN_CONTENT_SIZE_BYTES :: "u32 \<Rightarrow> u64" where
  "RUN_CONTENT_SIZE_BYTES sidx = RUN_CONTENT_SIZE + ucast (sidx - 1) * CHUNKSIZE"

definition RUN_DEFAULT_METADATA_VALUES :: u32 where "RUN_DEFAULT_METADATA_VALUES = 40"
definition RUN_DEFAULT_BITMAP_VALUES :: u32 where
  "RUN_DEFAULT_BITMAP_VALUES = RUN_DEFAULT_METADATA_VALUES - RUN_BASE_METADATA_VALUES"
definition RUN_DEFAULT_BITMAP_SIZE :: u64 where
  "RUN_DEFAULT_BITMAP_SIZE = 8 * ucast RUN_DEFAULT_BITMAP_VALUES"
definition RUN_DEFAULT_BITMAP_NBITS :: u32 where
  "RUN_DEFAULT_BITMAP_NBITS = RUN_BITS_PER_VALUE * RUN_DEFAULT_BITMAP_VALUES"
definition RUN_DEFAULT_SIZE :: u64 where
  "RUN_DEFAULT_SIZE = CHUNKSIZE - RUN_BASE_METADATA_SIZE - RUN_DEFAULT_BITMAP_SIZE"

definition RUN_DEFAULT_SIZE_BYTES :: "u32 \<Rightarrow> u64" where
  "RUN_DEFAULT_SIZE_BYTES sidx = RUN_DEFAULT_SIZE + ucast (sidx - 1) * CHUNKSIZE"

definition CHUNK_FLAG_COMPACT_HEADER :: u16 where "CHUNK_FLAG_COMPACT_HEADER = 1"
definition CHUNK_FLAG_HEADER_NONE :: u16 where "CHUNK_FLAG_HEADER_NONE = 2"
definition CHUNK_FLAG_ALIGNED :: u16 where "CHUNK_FLAG_ALIGNED = 4"
definition CHUNK_FLAG_FLEX_BITMAP :: u16 where "CHUNK_FLAG_FLEX_BITMAP = 8"

definition CHUNK_TYPE_FOOTER :: u16 where "CHUNK_TYPE_FOOTER = 1"
definition CHUNK_TYPE_FREE :: u16 where "CHUNK_TYPE_FREE = 2"
definition CHUNK_TYPE_USED :: u16 where "CHUNK_TYPE_USED = 3"
definition CHUNK_TYPE_RUN :: u16 where "CHUNK_TYPE_RUN = 4"
definition CHUNK_TYPE_RUN_DATA :: u16 where "CHUNK_TYPE_RUN_DATA = 5"

definition ALLOC_HDR_SIZE_SHIFT :: nat where "ALLOC_HDR_SIZE_SHIFT = 48"
definition ALLOC_HDR_FLAGS_MASK :: u64 where "ALLOC_HDR_FLAGS_MASK = push_bit ALLOC_HDR_SIZE_SHIFT 1 - 1"

datatype header_type = HEADER_LEGACY | HEADER_COMPACT | HEADER_NONE | MAX_HEADER_TYPES
datatype memory_block_type = MEMORY_BLOCK_HUGE | MEMORY_BLOCK_RUN | MAX_MEMORY_BLOCK
text \<open>\<open>MAX_MEMBLOCK_STATE\<close>, the number of states, is not used by the code.\<close>

datatype memblock_state = MEMBLOCK_STATE_UNKNOWN | MEMBLOCK_ALLOCATED | MEMBLOCK_FREE

fun header_type_to_size :: "header_type \<Rightarrow> u64 option" where
  "header_type_to_size HEADER_LEGACY = Some 64"
| "header_type_to_size HEADER_COMPACT = Some 16"
| "header_type_to_size HEADER_NONE = Some 0"
| "header_type_to_size MAX_HEADER_TYPES = None"

fun header_type_to_flag :: "header_type \<Rightarrow> u16 option" where
  "header_type_to_flag HEADER_LEGACY = Some 0"
| "header_type_to_flag HEADER_COMPACT = Some CHUNK_FLAG_COMPACT_HEADER"
| "header_type_to_flag HEADER_NONE = Some CHUNK_FLAG_HEADER_NONE"
| "header_type_to_flag MAX_HEADER_TYPES = None"

text \<open>A memory block with the fields that \<open>memblock_rebuild_state\<close> fills in; \<open>m_ops\<close> is the table of the
  type, and the heap is an argument of the functions.\<close>

record rt_block = memory_block +
  mb_header_type :: header_type
  mb_type :: memory_block_type

definition MEMORY_BLOCK_NONE :: rt_block where
  "MEMORY_BLOCK_NONE = \<lparr>chunk_id = 0, zone_id = 0, size_idx = 0, block_off = 0,
     mb_header_type = MAX_HEADER_TYPES, mb_type = MAX_MEMORY_BLOCK\<rparr>"

record palloc_heap =
  ph_layout :: addr
  ph_base :: addr

definition zone0 :: "palloc_heap \<Rightarrow> addr" where
  "zone0 h = ph_layout h + SIZEOF_HEAP_HEADER"

definition ZID_TO_ZONE :: "palloc_heap \<Rightarrow> u32 \<Rightarrow> addr" where
  "ZID_TO_ZONE h z = zone0 h + unat ZONE_MAX_SIZE * unat z"

definition GET_CHUNK_HDR :: "palloc_heap \<Rightarrow> u32 \<Rightarrow> u32 \<Rightarrow> addr" where
  "GET_CHUNK_HDR h z c = ZID_TO_ZONE h z + 64 + 8 * unat c"

definition GET_CHUNK :: "palloc_heap \<Rightarrow> u32 \<Rightarrow> u32 \<Rightarrow> addr" where
  "GET_CHUNK h z c = ZID_TO_ZONE h z + unat SIZEOF_ZONE + unat CHUNKSIZE * unat c"

definition heap_get_chunk_hdr :: "palloc_heap \<Rightarrow> rt_block \<Rightarrow> addr" where
  "heap_get_chunk_hdr h b = GET_CHUNK_HDR h (zone_id b) (chunk_id b)"

definition heap_get_chunk :: "palloc_heap \<Rightarrow> rt_block \<Rightarrow> addr" where
  "heap_get_chunk h b = GET_CHUNK h (zone_id b) (chunk_id b)"

definition heap_get_chunk_run :: "palloc_heap \<Rightarrow> rt_block \<Rightarrow> addr" where
  "heap_get_chunk_run h b = GET_CHUNK h (zone_id b) (chunk_id b)"

text \<open>\<open>struct chunk_header\<close>: type, flags and size index in eight bytes; \<open>struct chunk_run\<close>: block size,
  alignment, and the content at offset 16.\<close>

definition hdr_type :: "mem \<Rightarrow> addr \<Rightarrow> u16" where "hdr_type m a = rd16 m a"
definition hdr_flags :: "mem \<Rightarrow> addr \<Rightarrow> u16" where "hdr_flags m a = rd16 m (a + 2)"
definition hdr_size_idx :: "mem \<Rightarrow> addr \<Rightarrow> u32" where "hdr_size_idx m a = rd32 m (a + 4)"

definition chunk_header_bytes :: "u16 \<Rightarrow> u16 \<Rightarrow> u32 \<Rightarrow> byte list" where
  "chunk_header_bytes t f s = u16_bytes t @ u16_bytes f @ u32_bytes s"

definition write_chunk_header :: "mem \<Rightarrow> addr \<Rightarrow> u16 \<Rightarrow> u16 \<Rightarrow> u32 \<Rightarrow> mem" where
  "write_chunk_header m a t f s = store m a (chunk_header_bytes t f s)"

definition run_hdr_block_size :: "mem \<Rightarrow> addr \<Rightarrow> u64" where "run_hdr_block_size m run = rd64 m run"
definition run_hdr_alignment :: "mem \<Rightarrow> addr \<Rightarrow> u64" where "run_hdr_alignment m run = rd64 m (run + 8)"
definition run_content :: "addr \<Rightarrow> addr" where "run_content run = run + 16"

section \<open>Bit operations of the compiler\<close>

definition util_popcount64 :: "u64 \<Rightarrow> nat" where
  "util_popcount64 v = length (filter (bit v) [0..<64])"

definition util_div_ceil :: "u32 \<Rightarrow> u32 \<Rightarrow> u32" where
  "util_div_ceil a b = ucast ((ucast a + ucast b - 1 :: u64) div ucast b)"

definition CALC_SIZE_IDX :: "u64 \<Rightarrow> u64 \<Rightarrow> u32" where
  "CALC_SIZE_IDX unit_size sz = (if sz = 0 then 0 else ucast ((sz - 1) div unit_size + 1))"

definition BIT_IS_CLR :: "u64 \<Rightarrow> nat \<Rightarrow> bool" where
  "BIT_IS_CLR a i \<longleftrightarrow> a AND push_bit i 1 = 0"

section \<open>Bitmap of a run\<close>

record run_bitmap =
  nvalues :: u32
  nbits :: u32
  rb_size :: u64
  rb_values :: addr

text \<open>The loop of \<open>memblock_run_default_nallocs\<close>, which takes chunks off a run that has more units than
  the fixed bitmap has bits. The results are the size index and the number of units.\<close>

function default_nallocs_loop :: "u64 \<Rightarrow> u32 \<Rightarrow> u32 \<Rightarrow> u32 \<times> u32" where
  "default_nallocs_loop unit_size sidx nallocs =
     (if nallocs > RUN_DEFAULT_BITMAP_NBITS then
        if sidx > 1
        then default_nallocs_loop unit_size (sidx - 1) (ucast (RUN_DEFAULT_SIZE_BYTES (sidx - 1) div unit_size))
        else (sidx, RUN_DEFAULT_BITMAP_NBITS)
      else (sidx, nallocs))"
  by pat_completeness auto
termination
proof (relation "measure (\<lambda>(u, s, n). unat s)")
  fix unit_size :: u64 and sidx nallocs :: u32
  assume "sidx > 1"
  then have "sidx \<noteq> 0" by auto
  then have "unat (sidx - 1) < unat sidx" by (simp add: unat_minus_one unat_gt_0)
  then show "((unit_size, sidx - 1, ucast (RUN_DEFAULT_SIZE_BYTES (sidx - 1) div unit_size)), unit_size, sidx, nallocs)
      \<in> measure (\<lambda>(u, s, n). unat s)" by simp
qed simp

declare default_nallocs_loop.simps [simp del]

definition memblock_run_default_nallocs :: "u32 \<Rightarrow> u16 \<Rightarrow> u64 \<Rightarrow> u64 \<Rightarrow> u32 \<times> u32" where
  "memblock_run_default_nallocs sidx flags unit_size alignment =
     (let nallocs = ucast (RUN_DEFAULT_SIZE_BYTES sidx div unit_size);
          (sidx, nallocs) = default_nallocs_loop unit_size sidx nallocs
      in (sidx, nallocs - (if alignment \<noteq> 0 then 1 else 0)))"

text \<open>\<open>ALIGN_UP\<close> on \<open>unsigned\<close>.\<close>

definition ALIGN_UP32 :: "u32 \<Rightarrow> u32 \<Rightarrow> u32" where
  "ALIGN_UP32 sz al = (sz + al - 1) AND NOT (al - 1)"

definition memblock_run_bitmap :: "u32 \<Rightarrow> u16 \<Rightarrow> u64 \<Rightarrow> u64 \<Rightarrow> addr \<Rightarrow> u32 \<times> run_bitmap" where
  "memblock_run_bitmap sidx flags unit_size alignment content =
     (if flags AND CHUNK_FLAG_FLEX_BITMAP \<noteq> 0 then
        let content_size = RUN_CONTENT_SIZE_BYTES sidx;
            bits0 = ucast (content_size div unit_size);
            vals0 = util_div_ceil bits0 RUN_BITS_PER_VALUE;
            vals = ALIGN_UP32 (vals0 + RUN_BASE_METADATA_VALUES) 8 - RUN_BASE_METADATA_VALUES;
            sz = ucast vals * 8;
            bits = ucast ((content_size - sz) div unit_size) - (if alignment \<noteq> 0 then 1 else 0);
            unused_bits = vals * RUN_BITS_PER_VALUE - bits;
            unused_values = unused_bits div RUN_BITS_PER_VALUE
        in (sidx, \<lparr>nvalues = vals - unused_values, nbits = bits, rb_size = sz, rb_values = content\<rparr>)
      else
        let (sidx, bits) = memblock_run_default_nallocs sidx flags unit_size alignment;
            unused_bits = RUN_DEFAULT_BITMAP_NBITS - bits;
            unused_values = unused_bits div RUN_BITS_PER_VALUE
        in (sidx, \<lparr>nvalues = RUN_DEFAULT_BITMAP_VALUES - unused_values, nbits = bits,
              rb_size = RUN_DEFAULT_BITMAP_SIZE, rb_values = content\<rparr>))"

definition run_get_bitmap :: "palloc_heap \<Rightarrow> mem \<Rightarrow> rt_block \<Rightarrow> run_bitmap" where
  "run_get_bitmap h m b =
     (let hdr = heap_get_chunk_hdr h b; run = heap_get_chunk_run h b
      in snd (memblock_run_bitmap (hdr_size_idx m hdr) (hdr_flags m hdr) (run_hdr_block_size m run)
                (run_hdr_alignment m run) (run_content run)))"

section \<open>Sizes and places\<close>

definition memblock_header_type :: "palloc_heap \<Rightarrow> mem \<Rightarrow> rt_block \<Rightarrow> header_type" where
  "memblock_header_type h m b =
     (let flags = hdr_flags m (heap_get_chunk_hdr h b)
      in if flags AND CHUNK_FLAG_COMPACT_HEADER \<noteq> 0 then HEADER_COMPACT
         else if flags AND CHUNK_FLAG_HEADER_NONE \<noteq> 0 then HEADER_NONE
         else HEADER_LEGACY)"

definition huge_block_size :: "rt_block \<Rightarrow> u64" where
  "huge_block_size b = CHUNKSIZE"

definition run_block_size :: "palloc_heap \<Rightarrow> mem \<Rightarrow> rt_block \<Rightarrow> u64" where
  "run_block_size h m b = run_hdr_block_size m (heap_get_chunk_run h b)"

definition huge_get_real_data :: "palloc_heap \<Rightarrow> rt_block \<Rightarrow> addr" where
  "huge_get_real_data h b = heap_get_chunk h b"

definition run_get_data_start :: "palloc_heap \<Rightarrow> mem \<Rightarrow> rt_block \<Rightarrow> addr option" where
  "run_get_data_start h m b =
     (let hdr = heap_get_chunk_hdr h b; run = heap_get_chunk_run h b; bm = run_get_bitmap h m b
      in if hdr_flags m hdr AND CHUNK_FLAG_ALIGNED \<noteq> 0
         then map_option (\<lambda>hsize.
                unat (ALIGN_UP (of_nat (run_content run) + rb_size bm + hsize) (run_hdr_alignment m run) - hsize))
                (header_type_to_size (mb_header_type b))
         else Some (run_content run + unat (rb_size bm)))"

definition run_get_data_offset :: "palloc_heap \<Rightarrow> mem \<Rightarrow> rt_block \<Rightarrow> u64 option" where
  "run_get_data_offset h m b =
     map_option (\<lambda>start. of_nat start - of_nat (run_content (heap_get_chunk_run h b))) (run_get_data_start h m b)"

definition run_get_real_data :: "palloc_heap \<Rightarrow> mem \<Rightarrow> rt_block \<Rightarrow> addr option" where
  "run_get_real_data h m b =
     map_option (\<lambda>start. start + unat (run_hdr_block_size m (heap_get_chunk_run h b) * ucast (block_off b)))
       (run_get_data_start h m b)"

text \<open>The operations that are reached through \<open>m_ops\<close>.\<close>

definition mops_block_size :: "palloc_heap \<Rightarrow> mem \<Rightarrow> rt_block \<Rightarrow> u64 option" where
  "mops_block_size h m b =
     (case mb_type b of MEMORY_BLOCK_HUGE \<Rightarrow> Some (huge_block_size b)
      | MEMORY_BLOCK_RUN \<Rightarrow> Some (run_block_size h m b) | MAX_MEMORY_BLOCK \<Rightarrow> None)"

definition mops_get_real_data :: "palloc_heap \<Rightarrow> mem \<Rightarrow> rt_block \<Rightarrow> addr option" where
  "mops_get_real_data h m b =
     (case mb_type b of MEMORY_BLOCK_HUGE \<Rightarrow> Some (huge_get_real_data h b)
      | MEMORY_BLOCK_RUN \<Rightarrow> run_get_real_data h m b | MAX_MEMORY_BLOCK \<Rightarrow> None)"

definition block_get_user_data :: "palloc_heap \<Rightarrow> mem \<Rightarrow> rt_block \<Rightarrow> addr option" where
  "block_get_user_data h m b =
     do { p \<leftarrow> mops_get_real_data h m b;
          hsize \<leftarrow> header_type_to_size (mb_header_type b);
          Some (p + unat hsize) }"

section \<open>Allocation headers\<close>

text \<open>The size, the extra field and the flags that an object stores about itself.\<close>

definition header_get_size :: "palloc_heap \<Rightarrow> mem \<Rightarrow> rt_block \<Rightarrow> u64 option" where
  "header_get_size h m b =
     (case mb_header_type b of
        HEADER_LEGACY \<Rightarrow> map_option (\<lambda>p. rd64 m (p + 8)) (mops_get_real_data h m b)
      | HEADER_COMPACT \<Rightarrow> map_option (\<lambda>p. rd64 m p AND ALLOC_HDR_FLAGS_MASK) (mops_get_real_data h m b)
      | HEADER_NONE \<Rightarrow> mops_block_size h m b
      | MAX_HEADER_TYPES \<Rightarrow> None)"

definition header_get_extra :: "palloc_heap \<Rightarrow> mem \<Rightarrow> rt_block \<Rightarrow> u64 option" where
  "header_get_extra h m b =
     (case mb_header_type b of
        HEADER_LEGACY \<Rightarrow> map_option (\<lambda>p. rd64 m (p + 56)) (mops_get_real_data h m b)
      | HEADER_COMPACT \<Rightarrow> map_option (\<lambda>p. rd64 m (p + 8)) (mops_get_real_data h m b)
      | HEADER_NONE \<Rightarrow> Some 0
      | MAX_HEADER_TYPES \<Rightarrow> None)"

definition header_get_flags :: "palloc_heap \<Rightarrow> mem \<Rightarrow> rt_block \<Rightarrow> u16 option" where
  "header_get_flags h m b =
     (case mb_header_type b of
        HEADER_LEGACY \<Rightarrow> map_option (\<lambda>p. ucast (drop_bit ALLOC_HDR_SIZE_SHIFT (rd64 m (p + 48)))) (mops_get_real_data h m b)
      | HEADER_COMPACT \<Rightarrow> map_option (\<lambda>p. ucast (drop_bit ALLOC_HDR_SIZE_SHIFT (rd64 m p))) (mops_get_real_data h m b)
      | HEADER_NONE \<Rightarrow> Some 0
      | MAX_HEADER_TYPES \<Rightarrow> None)"

text \<open>Writing a header copies a local structure, of which some bytes are never set: \<open>junk\<close> is what the
  stack has there.\<close>

definition legacy_header_bytes :: "(nat \<Rightarrow> byte) \<Rightarrow> u64 \<Rightarrow> u64 \<Rightarrow> u16 \<Rightarrow> byte list" where
  "legacy_header_bytes junk sz extra flags =
     map junk [0..<8] @ u64_bytes sz @ map junk [16..<48] @
     u64_bytes (push_bit ALLOC_HDR_SIZE_SHIFT (ucast flags)) @ u64_bytes extra"

definition compact_header_bytes :: "(nat \<Rightarrow> byte) \<Rightarrow> addr \<Rightarrow> u64 \<Rightarrow> u64 \<Rightarrow> u16 \<Rightarrow> byte list" where
  "compact_header_bytes junk hdrp sz extra flags =
     u64_bytes (sz OR push_bit ALLOC_HDR_SIZE_SHIFT (ucast flags)) @ u64_bytes extra @
     (if hdrp mod 64 = 0 \<and> sz \<ge> 64 then map junk [16..<64] else [])"

definition header_write :: "(nat \<Rightarrow> byte) \<Rightarrow> palloc_heap \<Rightarrow> mem \<Rightarrow> rt_block \<Rightarrow> u64 \<Rightarrow> u64 \<Rightarrow> u16 \<Rightarrow> mem option" where
  "header_write junk h m b sz extra flags =
     (case mb_header_type b of
        HEADER_LEGACY \<Rightarrow> map_option (\<lambda>p. store m p (legacy_header_bytes junk sz extra flags)) (mops_get_real_data h m b)
      | HEADER_COMPACT \<Rightarrow> map_option (\<lambda>p. store m p (compact_header_bytes junk p sz extra flags)) (mops_get_real_data h m b)
      | HEADER_NONE \<Rightarrow> Some m
      | MAX_HEADER_TYPES \<Rightarrow> None)"

definition block_get_real_size :: "palloc_heap \<Rightarrow> mem \<Rightarrow> rt_block \<Rightarrow> u64 option" where
  "block_get_real_size h m b =
     (if size_idx b \<noteq> 0 then map_option (\<lambda>u. u * ucast (size_idx b)) (mops_block_size h m b)
      else header_get_size h m b)"

definition block_get_user_size :: "palloc_heap \<Rightarrow> mem \<Rightarrow> rt_block \<Rightarrow> u64 option" where
  "block_get_user_size h m b =
     do { sz \<leftarrow> block_get_real_size h m b;
          hsize \<leftarrow> header_type_to_size (mb_header_type b);
          Some (sz - hsize) }"

definition block_write_header :: "(nat \<Rightarrow> byte) \<Rightarrow> palloc_heap \<Rightarrow> mem \<Rightarrow> rt_block \<Rightarrow> u64 \<Rightarrow> u16 \<Rightarrow> mem option" where
  "block_write_header junk h m b extra_field flags =
     do { sz \<leftarrow> block_get_real_size h m b; header_write junk h m b sz extra_field flags }"

section \<open>State of a block\<close>

definition chunk_get_chunk_hdr_value :: "u16 \<Rightarrow> u16 \<Rightarrow> u32 \<Rightarrow> u64" where
  "chunk_get_chunk_hdr_value t f s = of_nat (le_nat (chunk_header_bytes t f s))"

text \<open>The new header of a huge block: stored directly without a context, and otherwise added to the
  operation, with the footer as a transient entry. \<open>a1\<close> and \<open>a2\<close> are the answers of the allocator to
  the two additions, whose results the code ignores.\<close>

definition huge_prep_operation_hdr ::
  "addr option \<times> addr fresh \<Rightarrow> addr option \<times> addr fresh \<Rightarrow> obj_pool \<Rightarrow> palloc_heap \<Rightarrow> rt_block \<Rightarrow> memblock_state \<Rightarrow>
   operation_context option \<Rightarrow> mem \<Rightarrow> operation_context option \<times> mem" where
  "huge_prep_operation_hdr a1 a2 pop h b op ctx m =
     (let hdr = heap_get_chunk_hdr h b;
          val = chunk_get_chunk_hdr_value (if op = MEMBLOCK_ALLOCATED then CHUNK_TYPE_USED else CHUNK_TYPE_FREE)
                  (hdr_flags m hdr) (size_idx b);
          footer = hdr + 8 * unat (size_idx b) - 8;
          fval = chunk_get_chunk_hdr_value CHUNK_TYPE_FOOTER 0 (size_idx b)
      in case ctx of
           None \<Rightarrow> (None, let m = wr64 m hdr val in if size_idx b = 1 then m else wr64 m footer fval)
         | Some ctx \<Rightarrow>
             (let (_, ctx, m) = operation_add_entry (fst a1) (snd a1) pop ctx m hdr val ULOG_OPERATION_SET
              in if size_idx b = 1 then (Some ctx, m)
                 else let (_, ctx, m) = operation_add_typed_entry (fst a2) (snd a2) ctx m footer fval
                                          ULOG_OPERATION_SET LOG_TRANSIENT
                      in (Some ctx, m)))"

definition run_block_mask :: "rt_block \<Rightarrow> u64" where
  "run_block_mask b =
     (if size_idx b = RUN_BITS_PER_VALUE then - 1
      else push_bit (unat (block_off b mod RUN_BITS_PER_VALUE)) (push_bit (unat (size_idx b)) 1 - 1))"

definition run_prep_operation_hdr ::
  "addr option \<times> addr fresh \<Rightarrow> obj_pool \<Rightarrow> palloc_heap \<Rightarrow> rt_block \<Rightarrow> memblock_state \<Rightarrow>
   operation_context \<Rightarrow> mem \<Rightarrow> operation_context \<times> mem" where
  "run_prep_operation_hdr a pop h b op ctx m =
     (let bmask = run_block_mask b;
          bpos = unat (block_off b div RUN_BITS_PER_VALUE);
          p = rb_values (run_get_bitmap h m b) + 8 * bpos
      in case op of
           MEMBLOCK_ALLOCATED \<Rightarrow> snd (operation_add_entry (fst a) (snd a) pop ctx m p bmask ULOG_OPERATION_OR)
         | MEMBLOCK_FREE \<Rightarrow> snd (operation_add_entry (fst a) (snd a) pop ctx m p (NOT bmask) ULOG_OPERATION_AND)
         | MEMBLOCK_STATE_UNKNOWN \<Rightarrow> (ctx, m))"

definition huge_get_state :: "palloc_heap \<Rightarrow> mem \<Rightarrow> rt_block \<Rightarrow> memblock_state" where
  "huge_get_state h m b =
     (let t = hdr_type m (heap_get_chunk_hdr h b)
      in if t = CHUNK_TYPE_USED then MEMBLOCK_ALLOCATED
         else if t = CHUNK_TYPE_FREE then MEMBLOCK_FREE else MEMBLOCK_STATE_UNKNOWN)"

definition run_get_state :: "palloc_heap \<Rightarrow> mem \<Rightarrow> rt_block \<Rightarrow> memblock_state" where
  "run_get_state h m b =
     (let v = unat (block_off b div RUN_BITS_PER_VALUE);
          bitmap = rd64 m (rb_values (run_get_bitmap h m b) + 8 * v);
          first = unat (block_off b mod RUN_BITS_PER_VALUE);
          bit_last = unat (block_off b mod RUN_BITS_PER_VALUE + size_idx b)
      in if \<exists>i\<in>set [first..<bit_last]. \<not> BIT_IS_CLR bitmap i then MEMBLOCK_ALLOCATED else MEMBLOCK_FREE)"

definition huge_ensure_header_type :: "palloc_heap \<Rightarrow> mem \<Rightarrow> rt_block \<Rightarrow> header_type \<Rightarrow> mem option" where
  "huge_ensure_header_type h m b t =
     (let hdr = heap_get_chunk_hdr h b
      in map_option (\<lambda>f. if hdr_flags m hdr AND f = 0
                         then store m (hdr + 2) (u16_bytes (hdr_flags m hdr OR f)) else m)
           (header_type_to_flag t))"

section \<open>Runtime state of a block\<close>

definition memblock_detect_type :: "palloc_heap \<Rightarrow> mem \<Rightarrow> rt_block \<Rightarrow> memory_block_type option" where
  "memblock_detect_type h m b =
     (let t = hdr_type m (heap_get_chunk_hdr h b)
      in if t = CHUNK_TYPE_RUN \<or> t = CHUNK_TYPE_RUN_DATA then Some MEMORY_BLOCK_RUN
         else if t = CHUNK_TYPE_FREE \<or> t = CHUNK_TYPE_USED \<or> t = CHUNK_TYPE_FOOTER then Some MEMORY_BLOCK_HUGE
         else None)"

definition memblock_rebuild_state :: "palloc_heap \<Rightarrow> mem \<Rightarrow> rt_block \<Rightarrow> rt_block option" where
  "memblock_rebuild_state h m b =
     map_option (\<lambda>t. b\<lparr>mb_header_type := memblock_header_type h m b, mb_type := t\<rparr>) (memblock_detect_type h m b)"

section \<open>Scanning a run\<close>

text \<open>A callback gets a block and its argument, and returns a result code and the new argument. The
  scans that call it read the heap only.\<close>

type_synonym 's object_callback = "rt_block \<Rightarrow> 's \<Rightarrow> int \<times> 's"

lemma lssb_zero: "util_lssb_index64 v = 0 \<Longrightarrow> 0 < util_lssb_index64 (NOT v)"
proof -
  have u: "[0..<64] = (0::nat) # [1..<64]" by (simp add: upt_conv_Cons)
  show "util_lssb_index64 v = 0 \<Longrightarrow> 0 < util_lssb_index64 (NOT v)"
    unfolding util_lssb_index64_def u by (simp add: bit_not_iff del: upt_Suc split: if_splits)
qed

lemma drop_nonzero_lt: "drop_bit n (v :: u64) \<noteq> 0 \<Longrightarrow> n < 64"
proof (rule ccontr)
  assume "\<not> n < 64" and nz: "drop_bit n v \<noteq> 0"
  then have "drop_bit n v = 0"
    by (intro bit_word_eqI) (auto simp: bit_drop_bit_eq dest: bit_imp_le_length)
  with nz show False by simp
qed

function process_value_loop ::
  "palloc_heap \<Rightarrow> mem \<Rightarrow> u64 \<Rightarrow> u32 \<Rightarrow> 's object_callback \<Rightarrow> nat \<Rightarrow> rt_block \<Rightarrow> 's \<Rightarrow> (int \<times> 's) option" where
  "process_value_loop h m value base_offset cb shift s arg =
     (let shifted = drop_bit shift value
      in if shifted = 0 then
           Some (cb (s\<lparr>block_off := base_offset + of_nat shift, size_idx := of_nat (64 - shift)\<rparr>) arg)
         else if shifted = - 1 then Some (0, arg)
         else let off = util_lssb_index64 (NOT shifted);
                  sz = util_lssb_index64 shifted;
                  shift = shift + (off + sz)
              in if sz \<noteq> 0 then
                   do { s \<leftarrow> memblock_rebuild_state h m
                                (s\<lparr>block_off := base_offset + of_nat (shift - sz), size_idx := of_nat sz\<rparr>);
                        let (ret, arg) = cb s arg;
                        if ret \<noteq> 0 then Some (ret, arg)
                        else if shift \<noteq> 64 then process_value_loop h m value base_offset cb shift s arg
                        else Some (0, arg) }
                 else if shift \<noteq> 64 then process_value_loop h m value base_offset cb shift s arg
                 else Some (0, arg))"
  by pat_completeness auto
termination
  by (relation "measure (\<lambda>(h, m, value, base_offset, cb, shift, s, arg). 64 - shift)")
    (auto intro!: diff_less_mono2 simp: lssb_zero dest: drop_nonzero_lt)

declare process_value_loop.simps [simp del]

definition run_process_bitmap_value ::
  "palloc_heap \<Rightarrow> mem \<Rightarrow> rt_block \<Rightarrow> u64 \<Rightarrow> u32 \<Rightarrow> 's object_callback \<Rightarrow> 's \<Rightarrow> (int \<times> 's) option" where
  "run_process_bitmap_value h m b value base_offset cb arg = process_value_loop h m value base_offset cb 0 b arg"

fun iterate_values ::
  "palloc_heap \<Rightarrow> mem \<Rightarrow> rt_block \<Rightarrow> addr \<Rightarrow> 's object_callback \<Rightarrow> nat list \<Rightarrow> 's \<Rightarrow> (int \<times> 's) option" where
  "iterate_values h m b values cb [] arg = Some (0, arg)"
| "iterate_values h m b values cb (i # is) arg =
     do { (ret, arg) \<leftarrow> run_process_bitmap_value h m b (rd64 m (values + 8 * i)) (RUN_BITS_PER_VALUE * of_nat i) cb arg;
          if ret \<noteq> 0 then Some (ret, arg) else iterate_values h m b values cb is arg }"

definition run_iterate_free ::
  "palloc_heap \<Rightarrow> mem \<Rightarrow> rt_block \<Rightarrow> 's object_callback \<Rightarrow> 's \<Rightarrow> (int \<times> 's) option" where
  "run_iterate_free h m b cb arg =
     (let bm = run_get_bitmap h m b
      in iterate_values h m b (rb_values bm) cb [0..<unat (nvalues bm)] arg)"

text \<open>The inner loop of \<open>run_iterate_used\<close>, over one value of the bitmap. It advances by the size that
  the header of the object gives; a header with size zero makes it spin. The result is the code to
  return and the block used for the iteration.\<close>

partial_function (option) used_value_loop ::
  "palloc_heap \<Rightarrow> mem \<Rightarrow> u64 \<Rightarrow> u32 \<Rightarrow> u64 \<Rightarrow> u32 \<Rightarrow> (rt_block \<Rightarrow> 's \<Rightarrow> int \<times> 's) \<Rightarrow> u32 \<Rightarrow> rt_block \<Rightarrow> 's \<Rightarrow>
   (int \<times> rt_block \<times> 's) option" where
  "used_value_loop h m unit_size bits v boff cb j iter arg =
     (if j < RUN_BITS_PER_VALUE then
        if boff + j \<ge> bits then Some (0, iter, arg)
        else if \<not> BIT_IS_CLR v (unat j) then
          do { let iter = iter\<lparr>block_off := boff + j, size_idx := 0\<rparr>;
               let (ret, arg) = cb iter arg;
               if ret \<noteq> 0 then Some (1, iter, arg)
               else do { sz \<leftarrow> block_get_real_size h m iter;
                         let n = CALC_SIZE_IDX unit_size sz;
                         used_value_loop h m unit_size bits v boff cb (j + n) (iter\<lparr>size_idx := n\<rparr>) arg } }
        else used_value_loop h m unit_size bits v boff cb (j + 1) iter arg
      else Some (0, iter, arg))"

fun iterate_used_values ::
  "palloc_heap \<Rightarrow> mem \<Rightarrow> u64 \<Rightarrow> run_bitmap \<Rightarrow> 's object_callback \<Rightarrow> nat list \<Rightarrow> u32 \<Rightarrow> rt_block \<Rightarrow> 's \<Rightarrow> (int \<times> 's) option" where
  "iterate_used_values h m unit_size bm cb [] block_start iter arg = Some (0, arg)"
| "iterate_used_values h m unit_size bm cb (i # is) block_start iter arg =
     do { (ret, iter, arg) \<leftarrow> used_value_loop h m unit_size (nbits bm) (rd64 m (rb_values bm + 8 * i))
                                (RUN_BITS_PER_VALUE * of_nat i) cb block_start iter arg;
          if ret \<noteq> 0 then Some (1, arg) else iterate_used_values h m unit_size bm cb is 0 iter arg }"

definition run_iterate_used ::
  "palloc_heap \<Rightarrow> mem \<Rightarrow> rt_block \<Rightarrow> 's object_callback \<Rightarrow> 's \<Rightarrow> (int \<times> 's) option" where
  "run_iterate_used h m b cb arg =
     (let bm = run_get_bitmap h m b; i = unat (block_off b div RUN_BITS_PER_VALUE);
          block_start = block_off b mod RUN_BITS_PER_VALUE
      in iterate_used_values h m (run_hdr_block_size m (heap_get_chunk_run h b)) bm cb [i..<unat (nvalues bm)] block_start b arg)"

definition huge_iterate_free :: "palloc_heap \<Rightarrow> mem \<Rightarrow> rt_block \<Rightarrow> 's object_callback \<Rightarrow> 's \<Rightarrow> int \<times> 's" where
  "huge_iterate_free h m b cb arg =
     (if hdr_type m (heap_get_chunk_hdr h b) = CHUNK_TYPE_FREE then cb b arg else (0, arg))"

definition huge_iterate_used :: "palloc_heap \<Rightarrow> mem \<Rightarrow> rt_block \<Rightarrow> 's object_callback \<Rightarrow> 's \<Rightarrow> int \<times> 's" where
  "huge_iterate_used h m b cb arg =
     (if hdr_type m (heap_get_chunk_hdr h b) = CHUNK_TYPE_USED then cb b arg else (0, arg))"

text \<open>\<open>run_calc_free\<close>: the loop that finds the longest block of a value, the step for one value, and
  the loop over the values, which updates the caller's two counters.\<close>

lemma bit_and_shift: "bit (v AND push_bit 1 v) n \<longleftrightarrow> bit (v :: u64) n \<and> 0 < n \<and> bit v (n - 1)"
  by (simp only: bit_and_iff bit_push_bit_iff) (auto dest: bit_imp_le_length)

lemma popcount_card: "util_popcount64 v = card {i. i < 64 \<and> bit v i}"
proof -
  have "set (filter (bit v) [0..<64]) = {i. i < 64 \<and> bit v i}" by auto
  then show ?thesis unfolding util_popcount64_def by (metis distinct_card distinct_filter distinct_upt)
qed

lemma popcount_step:
  assumes "v \<noteq> 0"
  shows "util_popcount64 (v AND push_bit 1 v) < util_popcount64 v"
proof -
  let ?w = "v AND push_bit 1 v"
  note L = lssb_index [OF assms]
  have "\<not> bit ?w (util_lssb_index64 v)"
    using L(3) [of "util_lssb_index64 v - 1"] unfolding bit_and_shift by auto
  then have "{i. i < 64 \<and> bit ?w i} \<subset> {i. i < 64 \<and> bit v i}"
    using L(1,2) unfolding bit_and_shift by blast
  then show ?thesis unfolding popcount_card by (simp add: psubset_card_mono)
qed

function longest_loop :: "u64 \<Rightarrow> u16 \<Rightarrow> u16" where
  "longest_loop value n = (if value \<noteq> 0 then longest_loop (value AND push_bit 1 value) (n + 1) else n)"
  by pat_completeness auto
termination
  by (relation "measure (\<lambda>(value, n). util_popcount64 value)") (use popcount_step in auto)

declare longest_loop.simps [simp del]

definition calc_free_value :: "u64 \<Rightarrow> u32 \<times> u32 \<Rightarrow> u32 \<times> u32" where
  "calc_free_value bits_v = (\<lambda>(free, max_free).
     let value = NOT bits_v
     in if value = 0 then (free, max_free)
        else let free_in_value = of_nat (util_popcount64 value);
                 free = free + free_in_value
             in if free_in_value < max_free then (free, max_free)
                else if free_in_value = RUN_BITS_PER_VALUE then (free, RUN_BITS_PER_VALUE)
                else if max_free = RUN_BITS_PER_VALUE then (free, max_free)
                else let n = ucast (longest_loop value 0)
                     in (free, if n > max_free then n else max_free))"

definition run_calc_free :: "palloc_heap \<Rightarrow> mem \<Rightarrow> rt_block \<Rightarrow> u32 \<times> u32 \<Rightarrow> u32 \<times> u32" where
  "run_calc_free h m b s =
     (let bm = run_get_bitmap h m b
      in fold (\<lambda>i. calc_free_value (rd64 m (rb_values bm + 8 * i))) [0..<unat (nvalues bm)] s)"

section \<open>Creating and finding blocks\<close>

definition huge_write_footer :: "mem \<Rightarrow> addr \<Rightarrow> u32 \<Rightarrow> mem" where
  "huge_write_footer m hdr sidx =
     (if sidx = 1 then m
      else write_chunk_header m (hdr + 8 * unat sidx - 8) CHUNK_TYPE_FOOTER (hdr_flags m hdr) sidx)"

definition huge_reinit_chunk :: "palloc_heap \<Rightarrow> mem \<Rightarrow> rt_block \<Rightarrow> mem" where
  "huge_reinit_chunk h m b =
     (let hdr = heap_get_chunk_hdr h b
      in if hdr_type m hdr = CHUNK_TYPE_USED then huge_write_footer m hdr (hdr_size_idx m hdr) else m)"

definition memblock_huge_init :: "palloc_heap \<Rightarrow> mem \<Rightarrow> u32 \<Rightarrow> u32 \<Rightarrow> u32 \<Rightarrow> (rt_block \<times> mem) option" where
  "memblock_huge_init h m c z sidx =
     (let b = MEMORY_BLOCK_NONE\<lparr>chunk_id := c, zone_id := z, size_idx := sidx\<rparr>;
          hdr = heap_get_chunk_hdr h b;
          m = write_chunk_header m hdr CHUNK_TYPE_FREE 0 sidx;
          m = huge_write_footer m hdr sidx
      in map_option (\<lambda>b. (b, m)) (memblock_rebuild_state h m b))"

text \<open>The bitmap of a new run: every bit of the bitmap and its padding is set, then the values in front
  of the last are cleared, and the last gets clear bits for the units that are left.\<close>

definition init_run_bitmap :: "run_bitmap \<Rightarrow> mem \<Rightarrow> mem" where
  "init_run_bitmap bm m =
     (let m = mem_set m (rb_values bm) (- 1) (unat (rb_size bm));
          m = mem_set m (rb_values bm) 0 (unat (8 * ucast (nvalues bm - 1) :: u64));
          trailing_bits = nbits bm mod RUN_BITS_PER_VALUE
      in wr64 m (rb_values bm + 8 * unat (nvalues bm - 1)) (push_bit (unat trailing_bits) (- 1)))"

definition init_run_data_headers :: "palloc_heap \<Rightarrow> u32 \<Rightarrow> u32 \<Rightarrow> u32 \<Rightarrow> mem \<Rightarrow> mem" where
  "init_run_data_headers h c z sidx m =
     fold (\<lambda>i m. write_chunk_header m (GET_CHUNK_HDR h z (c + of_nat i)) CHUNK_TYPE_RUN_DATA 0 (of_nat i))
       [1..<unat sidx] m"

definition memblock_run_init ::
  "palloc_heap \<Rightarrow> mem \<Rightarrow> u32 \<Rightarrow> u32 \<Rightarrow> u32 \<Rightarrow> u16 \<Rightarrow> u64 \<Rightarrow> u64 \<Rightarrow> (rt_block \<times> mem) option" where
  "memblock_run_init h m c z sidx flags unit_size alignment =
     (let b = MEMORY_BLOCK_NONE\<lparr>chunk_id := c, zone_id := z, size_idx := sidx\<rparr>;
          run = heap_get_chunk_run h b;
          m = wr64 m run unit_size;
          m = wr64 m (run + 8) alignment;
          (sidx, bm) = memblock_run_bitmap sidx flags unit_size alignment (run_content run);
          m = init_run_bitmap bm m;
          m = init_run_data_headers h c z sidx m;
          hdr = GET_CHUNK_HDR h z c;
          m = write_chunk_header m hdr CHUNK_TYPE_RUN flags (hdr_size_idx m hdr)
      in map_option (\<lambda>b. (b, m)) (memblock_rebuild_state h m b))"

definition HEAP_PTR_TO_OFF :: "palloc_heap \<Rightarrow> addr \<Rightarrow> u64" where
  "HEAP_PTR_TO_OFF h p = of_nat p - of_nat (ph_base h)"

definition HEAP_OFF_TO_PTR :: "palloc_heap \<Rightarrow> u64 \<Rightarrow> addr" where
  "HEAP_OFF_TO_PTR h off = ph_base h + unat off"

definition memblock_from_offset_opt :: "palloc_heap \<Rightarrow> mem \<Rightarrow> u64 \<Rightarrow> bool \<Rightarrow> rt_block option" where
  "memblock_from_offset_opt h m off0 with_size =
     do { let off = off0 - HEAP_PTR_TO_OFF h (zone0 h);
          let z = ucast (off div ZONE_MAX_SIZE);
          let off = off - (ZONE_MAX_SIZE * ucast z + SIZEOF_ZONE);
          let c = ucast (off div CHUNKSIZE);
          let hdr = GET_CHUNK_HDR h z c;
          let c = (if hdr_type m hdr = CHUNK_TYPE_RUN_DATA then c - hdr_size_idx m hdr else c);
          let off = off - CHUNKSIZE * ucast c;
          let b = MEMORY_BLOCK_NONE\<lparr>chunk_id := c, zone_id := z\<rparr>;
          let b = b\<lparr>mb_header_type := memblock_header_type h m b\<rparr>;
          hsize \<leftarrow> header_type_to_size (mb_header_type b);
          let off = off - hsize;
          let b = b\<lparr>mb_type := (if off \<noteq> 0 then MEMORY_BLOCK_RUN else MEMORY_BLOCK_HUGE)\<rparr>;
          unit_size \<leftarrow> mops_block_size h m b;
          b \<leftarrow> (if off \<noteq> 0
               then map_option (\<lambda>data_offset.
                      b\<lparr>block_off := ucast (ucast ((off - data_offset - RUN_BASE_METADATA_SIZE) div unit_size) :: u16)\<rparr>)
                      (run_get_data_offset h m b)
               else Some b);
          if with_size
          then map_option (\<lambda>sz. b\<lparr>size_idx := CALC_SIZE_IDX unit_size sz\<rparr>) (header_get_size h m b)
          else Some (b\<lparr>size_idx := 0\<rparr>) }"

definition memblock_from_offset :: "palloc_heap \<Rightarrow> mem \<Rightarrow> u64 \<Rightarrow> rt_block option" where
  "memblock_from_offset h m off = memblock_from_offset_opt h m off True"

end
