(* ===== verification/Memblock_Bitmap.thy ===== *)
theory Memblock_Bitmap
  imports Memblock Heap_Redo
begin

text \<open>
  The bitmap of a run. The calculation of its parameters gives one bit per unit and keeps the units
  inside the chunks of the run; a new bitmap has its units free; and the entries that allocate and
  free blocks change the set of used units as the abstract operations do.
\<close>

unbundle bit_operations_syntax

section \<open>Geometry\<close>

lemma unat_minus_one32: "1 \<le> unat (s :: u32) \<Longrightarrow> unat (s - 1) = unat s - 1"
  by (subst unat_minus_one) (auto simp: unat_gt_0)

lemma unat_chunks:
  fixes a :: u64
  assumes "1 \<le> unat (s :: u32)" and "unat s \<le> 65535" and "unat a \<le> 262144"
  shows "unat (a + ucast (s - 1) * CHUNKSIZE) = unat a + (unat s - 1) * 262144"
proof -
  have "unat (ucast (s - 1) * CHUNKSIZE :: u64) = (unat s - 1) * 262144"
    using assms(1,2) by (subst unat_mult_lem [THEN iffD1]) (simp_all add: CHUNKSIZE_def unat_minus_one32)
  then show ?thesis using assms by (subst unat_plus_simple [THEN iffD1]) (simp_all add: word_le_nat_alt unat_word_ariths)
qed

lemma unat_content:
  "1 \<le> unat s \<Longrightarrow> unat s \<le> 65535 \<Longrightarrow> unat (RUN_CONTENT_SIZE_BYTES s) = 262144 * unat s - 16"
  "1 \<le> unat s \<Longrightarrow> unat s \<le> 65535 \<Longrightarrow> unat (RUN_DEFAULT_SIZE_BYTES s) = 262144 * unat s - 320"
  unfolding RUN_CONTENT_SIZE_BYTES_def RUN_DEFAULT_SIZE_BYTES_def
  by (subst unat_chunks; simp add: RUN_CONTENT_SIZE_def RUN_DEFAULT_SIZE_def RUN_BASE_METADATA_SIZE_def
      RUN_DEFAULT_BITMAP_SIZE_def RUN_DEFAULT_BITMAP_VALUES_def RUN_DEFAULT_METADATA_VALUES_def RUN_BASE_METADATA_VALUES_def CHUNKSIZE_def)+

lemma unat_ALIGN_UP32_8: "unat x + 7 < 2 ^ 32 \<Longrightarrow> unat (ALIGN_UP32 x 8) = 8 * ((unat x + 7) div 8)"
proof -
  assume a: "unat x + 7 < 2 ^ 32"
  have "ALIGN_UP32 x 8 = push_bit 3 (drop_bit 3 (x + 7))"
    using word_and_not_mask [of "x + 7" 3] by (simp add: ALIGN_UP32_def mask_eq_exp_minus_1 add.commute)
  also have "\<dots> = drop_bit 3 (x + 7) * 2 ^ 3" by (rule push_bit_eq_mult)
  finally have "unat (ALIGN_UP32 x 8) = unat (drop_bit 3 (x + 7)) * 8 mod 2 ^ 32"
    by (simp add: unat_word_ariths)
  also have "unat (drop_bit 3 (x + 7)) = (unat x + 7) div 8"
    using a by (simp add: unat_drop_bit_eq drop_bit_eq_div unat_word_ariths)
  also have "(unat x + 7) div 8 * 8 mod 2 ^ 32 = 8 * ((unat x + 7) div 8)" using a by simp
  finally show ?thesis .
qed

lemma unat_div_ceil_64: "unat (util_div_ceil x 64) = (unat x + 63) div 64"
proof -
  have "unat (ucast x + ucast (64 :: u32) - 1 :: u64) = unat x + 63"
    using unat_lt_u32 [of x] by (simp add: unat_word_ariths)
  then show ?thesis
    using unat_lt_u32 [of x] unfolding util_div_ceil_def
    by (subst unat_u64_u32) (simp_all add: unat_div)
qed
lemma flex_bitmap_nat:
  fixes u C al n0 v0 v :: nat
  assumes u: "8 \<le> u" and C: "262128 \<le> C" and room: "(al + 1) * u + 48 \<le> C" and al: "al \<le> 1"
    and n0: "n0 = C div u" and v0: "v0 = (n0 + 63) div 64" and v: "v = 8 * ((v0 + 9) div 8) - 2"
  shows "8 * v \<le> C" and "al + 1 \<le> (C - 8 * v) div u" and "n0 \<le> 64 * v" and "v \<le> v0 + 7"
proof -
  show "v \<le> v0 + 7" using v by simp
  have "v0 \<le> v" using v by linarith
  moreover have "n0 \<le> 64 * v0" using v0 by linarith
  ultimately show "n0 \<le> 64 * v" by linarith
  have nu: "n0 * u \<le> C" unfolding n0 by simp
  have "8 * v \<le> C \<and> (al + 1) * u \<le> C - 8 * v"
  proof (cases "n0 \<le> 384")
    case True
    then have "v0 \<le> 6" using v0 by linarith
    then have "(v0 + 9) div 8 = 1" by linarith
    then have "v = 6" using v by simp
    with room show ?thesis by simp
  next
    case False
    have "n0 * 8 \<le> C" using nu u by (meson mult_le_mono2 order_trans)
    moreover have "64 * v \<le> n0 + 511" using \<open>v \<le> v0 + 7\<close> v0 by linarith
    moreover have "385 * u \<le> C" using False by (intro order_trans [OF mult_le_mono1 nu]) simp
    moreover have "(al + 1) * u \<le> 2 * u" using al by simp
    ultimately show ?thesis using C by linarith
  qed
  then show "8 * v \<le> C" and "al + 1 \<le> (C - 8 * v) div u"
    using u by (simp_all add: less_eq_div_iff_mult_less_eq)
qed

lemma ceil_values:
  assumes "n \<le> 64 * v"
  shows "v - (64 * v - n) div 64 = (n + 63) div (64 :: nat)"
proof -
  let ?c = "(n + 63) div 64"
  have c: "n \<le> 64 * ?c" "64 * ?c \<le> n + 63" "?c \<le> v" using assms by linarith+
  have "64 * (v - ?c) \<le> 64 * v - n" "64 * v - n < 64 * Suc (v - ?c)" using c by (simp_all add: diff_mult_distrib2)
  then have "(64 * v - n) div 64 = v - ?c" by (rule div_nat_eqI)
  then show ?thesis using c by simp
qed

text \<open>What the calculation promises: the bitmap has one bit per unit, and its last value is used.\<close>

definition run_bitmap_ok :: "run_bitmap \<Rightarrow> bool" where
  "run_bitmap_ok bm \<longleftrightarrow> 0 < unat (nbits bm) \<and> unat (nvalues bm) = (unat (nbits bm) + 63) div 64 \<and>
     8 * unat (nvalues bm) \<le> unat (rb_size bm) \<and> (unat (rb_size bm) + 16) mod 64 = 0 \<and> 64 * unat (nvalues bm) < 2 ^ 32"

lemma flex_values:
  assumes s: "1 \<le> unat sidx" "unat sidx \<le> 65535" and u: "8 \<le> unat unit_size"
    and room: "((if alignment \<noteq> 0 then 1 else 0) + 1) * unat unit_size + 48 \<le> 262144 * unat sidx - 16"
    and fl: "flags AND CHUNK_FLAG_FLEX_BITMAP \<noteq> 0"
    and bm: "memblock_run_bitmap sidx flags unit_size alignment content = (sidx', bm)"
  defines "C \<equiv> 262144 * unat sidx - 16" and "al \<equiv> if alignment \<noteq> 0 then 1 else 0 :: nat"
  shows "sidx' = sidx" and "rb_values bm = content" and "run_bitmap_ok bm"
    and "unat (rb_size bm) \<le> C" and "unat (nbits bm) + al = (C - unat (rb_size bm)) div unat unit_size"
proof -
  let ?u = "unat unit_size"
  define n0 where "n0 = C div ?u"
  define v0 where "v0 = (n0 + 63) div 64"
  define v where "v = 8 * ((v0 + 9) div 8) - 2"
  have al1: "al \<le> 1" and Cb: "262128 \<le> C" "C < 2 ^ 34" using s by (auto simp: al_def C_def)
  note F = flex_bitmap_nat [OF u Cb(1) room [folded C_def al_def] al1 n0_def v0_def v_def]
  have "n0 \<le> C div 8" using u unfolding n0_def by (simp add: div_le_mono2)
  then have n0b: "n0 < 2 ^ 31" using Cb(2) by simp
  then have vb: "64 * v < 2 ^ 31 + 600" using F(4) v0_def by simp
  note c = unat_content(1) [OF s, folded C_def]
  let ?bits0 = "ucast (RUN_CONTENT_SIZE_BYTES sidx div unit_size) :: u32"
  let ?v0 = "util_div_ceil ?bits0 RUN_BITS_PER_VALUE"
  have "unat (RUN_CONTENT_SIZE_BYTES sidx div unit_size) = n0" by (simp add: unat_div c n0_def)
  then have b0: "unat ?bits0 = n0" using n0b by (subst unat_u64_u32) simp_all
  then have w0: "unat ?v0 = v0" by (simp add: RUN_BITS_PER_VALUE_def unat_div_ceil_64 v0_def)
  define w where "w = ALIGN_UP32 (?v0 + RUN_BASE_METADATA_VALUES) 8 - RUN_BASE_METADATA_VALUES"
  have v0b: "v0 < 2 ^ 26" using n0b v0_def by simp
  then have "unat (?v0 + RUN_BASE_METADATA_VALUES) = v0 + 2"
    by (simp add: RUN_BASE_METADATA_VALUES_def unat_word_ariths w0)
  then have "unat (ALIGN_UP32 (?v0 + RUN_BASE_METADATA_VALUES) 8) = 8 * ((v0 + 9) div 8)"
    using v0b by (subst unat_ALIGN_UP32_8) simp_all
  then have wv: "unat w = v"
    unfolding w_def v_def by (subst unat_sub) (simp_all add: RUN_BASE_METADATA_VALUES_def word_le_nat_alt)
  have szv: "unat (ucast w * 8 :: u64) = 8 * v"
    using vb by (simp add: unat_word_ariths wv)
  let ?q = "(RUN_CONTENT_SIZE_BYTES sidx - ucast w * 8) div unit_size"
  have "unat (RUN_CONTENT_SIZE_BYTES sidx - ucast w * 8) = C - 8 * v"
    by (subst unat_sub) (simp_all add: word_le_nat_alt c szv F(1))
  then have q: "unat ?q = (C - 8 * v) div ?u" by (simp add: unat_div)
  have qn: "(C - 8 * v) div ?u \<le> n0" unfolding n0_def by (simp add: div_le_mono)
  then have q32: "unat (ucast ?q :: u32) = (C - 8 * v) div ?u" using n0b q by (subst unat_u64_u32) simp_all
  let ?bits = "ucast ?q - (if alignment \<noteq> 0 then 1 else 0) :: u32"
  have bits: "unat ?bits = (C - 8 * v) div ?u - al"
    using F(2) q32 by (auto simp: al_def unat_sub word_le_nat_alt)
  let ?ub = "w * RUN_BITS_PER_VALUE - ?bits"
  have bv: "unat ?bits \<le> 64 * v" using bits qn F(3) by linarith
  have "unat (w * RUN_BITS_PER_VALUE) = 64 * v"
    using vb by (simp add: unat_word_ariths wv RUN_BITS_PER_VALUE_def)
  then have "unat ?ub = 64 * v - unat ?bits" using bv by (subst unat_sub) (simp_all add: word_le_nat_alt)
  then have "unat (?ub div RUN_BITS_PER_VALUE) = (64 * v - unat ?bits) div 64"
    by (simp add: unat_div RUN_BITS_PER_VALUE_def)
  then have nv: "unat (w - ?ub div RUN_BITS_PER_VALUE) = v - (64 * v - unat ?bits) div 64"
    by (subst unat_sub) (simp_all add: word_le_nat_alt wv)
  have bmv: "sidx' = sidx \<and> bm = \<lparr>nvalues = w - ?ub div RUN_BITS_PER_VALUE, nbits = ?bits, rb_size = ucast w * 8, rb_values = content\<rparr>"
    using bm [symmetric] fl by (simp add: memblock_run_bitmap_def Let_def w_def split del: if_split)
  then show "sidx' = sidx" and "rb_values bm = content" by simp_all
  show "unat (rb_size bm) \<le> C" using bmv szv F(1) by simp
  show "unat (nbits bm) + al = (C - unat (rb_size bm)) div ?u" using bmv szv bits F(2) by simp
  have "8 * v + 16 = 64 * ((v0 + 9) div 8)" unfolding v_def by (simp add: diff_mult_distrib2)
  then have "(8 * v + 16) mod 64 = 0" by simp
  moreover have "(unat ?bits + 63) div 64 \<le> v" using bv by linarith
  moreover have "0 < unat ?bits" using bits F(2) by linarith
  ultimately show "run_bitmap_ok bm"
    using bmv szv vb nv ceil_values [OF bv] by (simp add: run_bitmap_ok_def)
qed
lemmas default_bitmap_defs = RUN_DEFAULT_BITMAP_NBITS_def RUN_DEFAULT_BITMAP_VALUES_def RUN_DEFAULT_BITMAP_SIZE_def
  RUN_DEFAULT_METADATA_VALUES_def RUN_BASE_METADATA_VALUES_def RUN_BITS_PER_VALUE_def

lemma default_units:
  assumes "1 \<le> unat s" and "unat s \<le> 65535" and "8 \<le> unat unit_size"
  shows "unat (ucast (RUN_DEFAULT_SIZE_BYTES s div unit_size) :: u32) = (262144 * unat s - 320) div unat unit_size"
proof -
  have "(262144 * unat s - 320) div unat unit_size \<le> (262144 * unat s - 320) div 8" using assms(3) by (simp add: div_le_mono2)
  then have "unat (RUN_DEFAULT_SIZE_BYTES s div unit_size) < 2 ^ 32"
    using assms(2) by (simp add: unat_div unat_content(2) [OF assms(1,2)])
  then show ?thesis by (subst unat_u64_u32) (simp_all add: unat_div unat_content(2) [OF assms(1,2)])
qed

lemma default_loop:
  assumes "default_nallocs_loop unit_size sidx n = (sidx', n')" and "1 \<le> unat sidx" and "unat sidx \<le> 65535"
    and "8 \<le> unat unit_size" and "unat n = (262144 * unat sidx - 320) div unat unit_size" and "k \<le> unat n" and "k \<le> 2"
  shows "1 \<le> unat sidx' \<and> unat sidx' \<le> unat sidx \<and> k \<le> unat n' \<and> unat n' \<le> 2432 \<and>
     unat n' * unat unit_size \<le> 262144 * unat sidx' - 320 \<and>
     default_nallocs_loop unit_size sidx' (ucast (RUN_DEFAULT_SIZE_BYTES sidx' div unit_size)) = (sidx', n')"
  using assms
proof (induction unit_size sidx n rule: default_nallocs_loop.induct)
  case (1 unit_size sidx n)
  let ?N = "RUN_DEFAULT_BITMAP_NBITS" and ?u = "unat unit_size"
  have N: "unat ?N = 2432" by (simp add: default_bitmap_defs)
  have dn: "unat n * ?u \<le> 262144 * unat sidx - 320" using "1.prems"(5) by simp
  have nn: "ucast (RUN_DEFAULT_SIZE_BYTES sidx div unit_size) = n"
    using default_units [OF "1.prems"(2-4)] "1.prems"(5) by (simp add: word_unat_eq_iff)
  consider (low) "\<not> n > ?N" | (last) "n > ?N" "\<not> sidx > 1" | (down) "n > ?N" "sidx > 1" by blast
  then show ?case
  proof cases
    case low
    then have e: "sidx' = sidx" "n' = n"
      using "1.prems"(1) by (simp_all add: default_nallocs_loop.simps [of unit_size sidx n])
    show ?thesis
      unfolding e nn using "1.prems"(2,6) dn N low by (simp add: default_nallocs_loop.simps [of unit_size sidx n] word_less_nat_alt)
  next
    case last
    then have "2432 \<le> unat n" using N by (simp add: word_less_nat_alt)
    then have "2432 * ?u \<le> 262144 * unat sidx - 320" by (intro order_trans [OF mult_le_mono1 dn]) simp
    moreover have e: "sidx' = sidx" "n' = ?N"
      using "1.prems"(1) last by (simp_all add: default_nallocs_loop.simps [of unit_size sidx n])
    ultimately show ?thesis
      unfolding e nn using "1.prems"(2,7) N last by (simp add: default_nallocs_loop.simps [of unit_size sidx n])
  next
    case down
    then have s2: "2 \<le> unat sidx" by (simp add: word_less_nat_alt)
    then have s1: "unat (sidx - 1) = unat sidx - 1" by (intro unat_minus_one32) simp
    have b: "1 \<le> unat (sidx - 1)" "unat (sidx - 1) \<le> 65535" using s1 s2 "1.prems"(3) by simp_all
    let ?n = "ucast (RUN_DEFAULT_SIZE_BYTES (sidx - 1) div unit_size) :: u32"
    note un = default_units [OF b "1.prems"(4)]
    have "2432 < unat n" using down N by (simp add: word_less_nat_alt)
    then have "2433 * ?u \<le> 262144 * unat sidx - 320" by (intro order_trans [OF mult_le_mono1 dn]) simp
    then have "2 * ?u \<le> 262144 * unat (sidx - 1) - 320" using s1 s2 by linarith
    then have "2 \<le> unat ?n" using un "1.prems"(4) by (simp add: less_eq_div_iff_mult_less_eq)
    then have "k \<le> unat ?n" using "1.prems"(7) by simp
    moreover have "default_nallocs_loop unit_size (sidx - 1) ?n = (sidx', n')"
      using "1.prems"(1) down by (simp add: default_nallocs_loop.simps [of unit_size sidx])
    ultimately show ?thesis
      using "1.IH" [OF down _ b "1.prems"(4) un _ "1.prems"(7)] s1 by auto
  qed
qed

lemma default_values:
  assumes s: "1 \<le> unat sidx" "unat sidx \<le> 65535" and u: "8 \<le> unat unit_size"
    and room: "((if alignment \<noteq> 0 then 1 else 0) + 1) * unat unit_size \<le> 262144 * unat sidx - 320"
    and fl: "flags AND CHUNK_FLAG_FLEX_BITMAP = 0"
    and bm: "memblock_run_bitmap sidx flags unit_size alignment content = (sidx', bm)"
  defines "al \<equiv> if alignment \<noteq> 0 then 1 else 0 :: nat"
  shows "1 \<le> unat sidx' \<and> unat sidx' \<le> unat sidx" and "rb_values bm = content" and "run_bitmap_ok bm"
    and "unat (rb_size bm) = 304" and "(unat (nbits bm) + al) * unat unit_size \<le> 262144 * unat sidx' - 320"
    and "memblock_run_bitmap sidx' flags unit_size alignment content = (sidx', bm)"
proof -
  let ?u = "unat unit_size" and ?al = "if alignment \<noteq> 0 then 1 else 0 :: u32"
  let ?n = "ucast (RUN_DEFAULT_SIZE_BYTES sidx div unit_size) :: u32"
  have al1: "al + 1 \<le> 2" "unat ?al = al" by (auto simp: al_def)
  obtain s' n' where lp: "default_nallocs_loop unit_size sidx ?n = (s', n')" by fastforce
  note un = default_units [OF s u]
  have "al + 1 \<le> unat ?n" using room u unfolding al_def un by (simp add: less_eq_div_iff_mult_less_eq)
  note L = default_loop [OF lp s u un this al1(1)]
  have bmv: "sidx' = s'" "bm = \<lparr>nvalues = RUN_DEFAULT_BITMAP_VALUES - (RUN_DEFAULT_BITMAP_NBITS - (n' - ?al)) div RUN_BITS_PER_VALUE,
      nbits = n' - ?al, rb_size = RUN_DEFAULT_BITMAP_SIZE, rb_values = content\<rparr>"
    using bm [symmetric] fl lp
    by (simp_all add: memblock_run_bitmap_def memblock_run_default_nallocs_def Let_def split del: if_split)
  have nb: "unat (n' - ?al) = unat n' - al" using L al1(2) by (subst unat_sub) (auto simp: word_le_nat_alt)
  have nv: "unat (nvalues bm) = (unat (nbits bm) + 63) div 64"
  proof -
    have "unat (RUN_DEFAULT_BITMAP_NBITS - (n' - ?al)) = 64 * 38 - (unat n' - al)"
      using L nb by (subst unat_sub) (auto simp: word_le_nat_alt default_bitmap_defs)
    then have "unat (nvalues bm) = 38 - (64 * 38 - (unat n' - al)) div 64"
      using bmv(2) by (simp add: default_bitmap_defs unat_sub word_le_nat_alt unat_div)
    moreover have "unat n' - al \<le> 64 * 38" using L by auto
    ultimately show ?thesis using ceil_values [of "unat n' - al" 38] bmv(2) nb by simp
  qed
  show "1 \<le> unat sidx' \<and> unat sidx' \<le> unat sidx" using L bmv(1) by simp
  show "rb_values bm = content" using bmv(2) by simp
  show rs: "unat (rb_size bm) = 304" using bmv(2) by (simp add: default_bitmap_defs)
  show "run_bitmap_ok bm" using L nv rs bmv(2) nb al1 unfolding run_bitmap_ok_def by simp linarith
  show "(unat (nbits bm) + al) * ?u \<le> 262144 * unat sidx' - 320" using L bmv nb by simp
  show "memblock_run_bitmap sidx' flags unit_size alignment content = (sidx', bm)"
    using L fl bmv by (simp add: memblock_run_bitmap_def memblock_run_default_nallocs_def Let_def split del: if_split)
qed

section \<open>Units\<close>

lemma div64E:
  obtains q r where "(i :: nat) = 64 * q + r" and "r < 64" and "i div 64 = q" and "i mod 64 = r"
  by (metis mult_div_mod_eq mod_less_divisor zero_less_numeral)

text \<open>The bit of a unit, the units in use, and the bits past the last unit, which are always set so
  that no search takes them for free units.\<close>

definition run_bit :: "mem \<Rightarrow> run_bitmap \<Rightarrow> nat \<Rightarrow> bool" where
  "run_bit m bm i \<longleftrightarrow> bit (rd64 m (rb_values bm + 8 * (i div 64))) (i mod 64)"

definition used_units :: "mem \<Rightarrow> run_bitmap \<Rightarrow> nat set" where
  "used_units m bm = {i. i < unat (nbits bm) \<and> run_bit m bm i}"

definition padding_set :: "mem \<Rightarrow> run_bitmap \<Rightarrow> bool" where
  "padding_set m bm \<longleftrightarrow> (\<forall>i. unat (nbits bm) \<le> i \<longrightarrow> i < 64 * unat (nvalues bm) \<longrightarrow> run_bit m bm i)"

lemma run_bitmap_okD:
  assumes "run_bitmap_ok bm"
  shows "0 < unat (nbits bm)" and "unat (nvalues bm) = (unat (nbits bm) + 63) div 64"
    and "unat (nbits bm) \<le> 64 * unat (nvalues bm)" and "64 * unat (nvalues bm) < unat (nbits bm) + 64"
    and "0 < unat (nvalues bm)" and "8 * unat (nvalues bm) \<le> unat (rb_size bm)" and "64 * unat (nvalues bm) < 2 ^ 32"
  using assms unfolding run_bitmap_ok_def by linarith+

lemma init_bitmap_word:
  assumes "run_bitmap_ok bm" and "k < unat (nvalues bm)"
  shows "rd64 (init_run_bitmap bm m) (rb_values bm + 8 * k) =
    (if k < unat (nvalues bm) - 1 then 0 else push_bit (unat (nbits bm) mod 64) (- 1))"
proof -
  note B = run_bitmap_okD [OF assms(1)]
  have nv: "unat (nvalues bm - 1) = unat (nvalues bm) - 1" using B(5) by (intro unat_minus_one32) simp
  have "unat (8 * ucast (nvalues bm - 1) :: u64) = 8 * (unat (nvalues bm) - 1)"
    using unat_lt_u32 [of "nvalues bm"] nv by (simp add: unat_word_ariths)
  moreover have "unat (nbits bm mod RUN_BITS_PER_VALUE) = unat (nbits bm) mod 64"
    by (simp add: RUN_BITS_PER_VALUE_def unat_mod)
  ultimately show ?thesis
    using assms(2) less_antisym [of k "unat (nvalues bm) - 1"]
    by (cases "k = unat (nvalues bm) - 1") (auto simp: init_run_bitmap_def Let_def nv rd64_wr64_disjoint rd64_mem_set_0)
qed

lemma init_bits:
  assumes "run_bitmap_ok bm" and "i < 64 * unat (nvalues bm)"
  shows "run_bit (init_run_bitmap bm m) bm i \<longleftrightarrow> 64 * (unat (nvalues bm) - 1) + unat (nbits bm) mod 64 \<le> i"
proof -
  note B = run_bitmap_okD [OF assms(1)]
  obtain q r where q: "i = 64 * q + r" "r < 64" "i div 64 = q" "i mod 64 = r" by (rule div64E)
  have k: "q < unat (nvalues bm)" using assms(2) q by linarith
  show ?thesis
  proof (cases "q < unat (nvalues bm) - 1")
    case True
    then show ?thesis
      unfolding run_bit_def q(3,4) init_bitmap_word [OF assms(1) k] using q(1,2) by simp
  next
    case False
    then have "q = unat (nvalues bm) - 1" using k by simp
    then show ?thesis
      unfolding run_bit_def q(3,4) init_bitmap_word [OF assms(1) k] using q(1,2) by (auto simp: bit_not_iff bit_mask_iff)
  qed
qed

lemma init_used:
  assumes "run_bitmap_ok bm"
  shows "used_units (init_run_bitmap bm m) bm = (if unat (nbits bm) mod 64 = 0 then {unat (nbits bm) - 64..<unat (nbits bm)} else {})"
    and "padding_set (init_run_bitmap bm m) bm"
proof -
  note B = run_bitmap_okD [OF assms]
  have e: "64 * (unat (nvalues bm) - 1) + unat (nbits bm) mod 64 = (if unat (nbits bm) mod 64 = 0 then unat (nbits bm) - 64 else unat (nbits bm))"
  proof -
    obtain q r where q: "unat (nbits bm) = 64 * q + r" "r < 64" "unat (nbits bm) mod 64 = r" by (rule div64E)
    have "(64 * q + r + 63) div 64 = (if r = 0 then q else Suc q)"
      using q(2) by (intro div_nat_eqI) auto
    then show ?thesis using B(1,2) q by auto
  qed
  have b: "run_bit (init_run_bitmap bm m) bm i \<longleftrightarrow> (if unat (nbits bm) mod 64 = 0 then unat (nbits bm) - 64 else unat (nbits bm)) \<le> i"
    if "i < 64 * unat (nvalues bm)" for i
    using init_bits [OF assms that, of m] unfolding e .
  show "padding_set (init_run_bitmap bm m) bm"
    using b unfolding padding_set_def by auto
  have "i < 64 * unat (nvalues bm)" if "i < unat (nbits bm)" for i using that B(3) by linarith
  then show "used_units (init_run_bitmap bm m) bm = (if unat (nbits bm) mod 64 = 0 then {unat (nbits bm) - 64..<unat (nbits bm)} else {})"
    using b unfolding used_units_def by (auto split: if_splits)
qed

section \<open>Blocks of units\<close>

text \<open>A block of a run lies in one value of the bitmap.\<close>

definition block_units :: "rt_block \<Rightarrow> nat set" where
  "block_units b = {unat (block_off b)..<unat (block_off b) + unat (size_idx b)}"

definition run_block_ok :: "run_bitmap \<Rightarrow> rt_block \<Rightarrow> bool" where
  "run_block_ok bm b \<longleftrightarrow> 0 < unat (size_idx b) \<and> unat (block_off b) mod 64 + unat (size_idx b) \<le> 64 \<and>
     unat (block_off b) + unat (size_idx b) \<le> unat (nbits bm)"

lemma block_mask_bit:
  assumes "run_block_ok bm b" and "j < 64"
  shows "bit (run_block_mask b) j \<longleftrightarrow> unat (block_off b) mod 64 \<le> j \<and> j < unat (block_off b) mod 64 + unat (size_idx b)"
proof (cases "unat (size_idx b) = 64")
  case True
  then have "size_idx b = RUN_BITS_PER_VALUE" by (simp add: word_unat_eq_iff RUN_BITS_PER_VALUE_def)
  then show ?thesis using assms True by (simp add: run_block_mask_def run_block_ok_def)
next
  case False
  then have "size_idx b \<noteq> RUN_BITS_PER_VALUE" by (auto simp: RUN_BITS_PER_VALUE_def)
  moreover have "push_bit n (1 :: u64) - 1 = mask n" for n by (simp add: mask_eq_exp_minus_1)
  ultimately show ?thesis
    using assms by (auto simp: run_block_mask_def run_block_ok_def RUN_BITS_PER_VALUE_def unat_mod bit_push_bit_iff bit_mask_iff)
qed

lemma block_unit_iff:
  assumes "run_block_ok bm b" and "i div 64 = unat (block_off b) div 64"
  shows "bit (run_block_mask b) (i mod 64) \<longleftrightarrow> i \<in> block_units b"
proof -
  obtain q r where q: "i = 64 * q + r" "r < 64" "i div 64 = q" "i mod 64 = r" by (rule div64E)
  obtain q' r' where q': "unat (block_off b) = 64 * q' + r'" "unat (block_off b) div 64 = q'" "unat (block_off b) mod 64 = r'"
    by (rule div64E)
  show ?thesis
    using assms(2) block_mask_bit [OF assms(1) q(2)] unfolding q(3,4) q'(2,3) block_units_def by (auto simp: q(1) q'(1))
qed

lemma block_unit_value:
  assumes "run_block_ok bm b" and "i \<in> block_units b"
  shows "i div 64 = unat (block_off b) div 64"
proof -
  obtain q r where q: "unat (block_off b) = 64 * q + r" "unat (block_off b) div 64 = q" "unat (block_off b) mod 64 = r"
    by (rule div64E)
  have "64 * q \<le> i" "i < 64 * Suc q"
    using assms q unfolding run_block_ok_def block_units_def by auto
  then show ?thesis unfolding q(2) by (rule div_nat_eqI)
qed

lemma run_get_state_spec:
  assumes "run_block_ok (run_get_bitmap h m b) b"
  shows "run_get_state h m b =
    (if block_units b \<inter> used_units m (run_get_bitmap h m b) = {} then MEMBLOCK_FREE else MEMBLOCK_ALLOCATED)"
proof -
  let ?bm = "run_get_bitmap h m b" and ?o = "unat (block_off b)"
  note ok = assms [unfolded run_block_ok_def]
  have last: "unat (block_off b mod RUN_BITS_PER_VALUE + size_idx b) = ?o mod 64 + unat (size_idx b)"
    using ok by (simp add: RUN_BITS_PER_VALUE_def unat_word_ariths unat_mod)
  have v: "unat (block_off b div RUN_BITS_PER_VALUE) = ?o div 64" "unat (block_off b mod RUN_BITS_PER_VALUE) = ?o mod 64"
    by (simp_all add: RUN_BITS_PER_VALUE_def unat_div unat_mod)
  have clr: "\<not> BIT_IS_CLR w i \<longleftrightarrow> bit w i" for w i
    by (auto simp: BIT_IS_CLR_def bit_simps and_exp_eq_0_iff_not_bit)
  have "(\<exists>i\<in>{?o mod 64..<?o mod 64 + unat (size_idx b)}. bit (rd64 m (rb_values ?bm + 8 * (?o div 64))) i) \<longleftrightarrow>
      block_units b \<inter> used_units m ?bm \<noteq> {}"
  proof
    assume "\<exists>i\<in>{?o mod 64..<?o mod 64 + unat (size_idx b)}. bit (rd64 m (rb_values ?bm + 8 * (?o div 64))) i"
    then obtain i where i: "?o mod 64 \<le> i" "i < ?o mod 64 + unat (size_idx b)" "bit (rd64 m (rb_values ?bm + 8 * (?o div 64))) i" by auto
    let ?j = "64 * (?o div 64) + i"
    have "i < 64" using i ok by linarith
    then have "?j div 64 = ?o div 64" "?j mod 64 = i" by simp_all
    then have "run_bit m ?bm ?j" using i by (simp add: run_bit_def)
    moreover have "?j \<in> block_units b" "?j < unat (nbits ?bm)"
      using i ok by (rule_tac div64E [of ?o]; auto simp: block_units_def)+
    ultimately show "block_units b \<inter> used_units m ?bm \<noteq> {}" by (auto simp: used_units_def)
  next
    assume "block_units b \<inter> used_units m ?bm \<noteq> {}"
    then obtain j where j: "j \<in> block_units b" "run_bit m ?bm j" by (auto simp: used_units_def)
    have "j div 64 = ?o div 64" by (rule block_unit_value [OF assms j(1)])
    moreover have "bit (run_block_mask b) (j mod 64)" using block_unit_iff [OF assms calculation] j(1) by simp
    ultimately show "\<exists>i\<in>{?o mod 64..<?o mod 64 + unat (size_idx b)}. bit (rd64 m (rb_values ?bm + 8 * (?o div 64))) i"
      using j(2) block_mask_bit [OF assms, of "j mod 64"] unfolding run_bit_def by auto
  qed
  then show ?thesis unfolding run_get_state_def Let_def last v clr by simp
qed

section \<open>Places of runs\<close>

lemma zone_sizes: "unat SIZEOF_ZONE = 524288" "unat CHUNKSIZE = 262144" "unat ZONE_MAX_SIZE = 524288 + 262144 * 65528"
  by (simp_all add: SIZEOF_ZONE_def CHUNKSIZE_def ZONE_MAX_SIZE_def MAX_CHUNK_def)

text \<open>A run whose chunks are in its zone and whose bitmap is in its chunks.\<close>

definition run_chunks :: "palloc_heap \<Rightarrow> mem \<Rightarrow> rt_block \<Rightarrow> nat" where
  "run_chunks h m b = unat (hdr_size_idx m (heap_get_chunk_hdr h b))"

definition run_place :: "palloc_heap \<Rightarrow> mem \<Rightarrow> rt_block \<Rightarrow> bool" where
  "run_place h m b \<longleftrightarrow> 0 < run_chunks h m b \<and> unat (chunk_id b) + run_chunks h m b \<le> MAX_CHUNK \<and>
     run_bitmap_ok (run_get_bitmap h m b) \<and> 16 + 8 * unat (nvalues (run_get_bitmap h m b)) \<le> 262144 * run_chunks h m b"

definition same_run :: "rt_block \<Rightarrow> rt_block \<Rightarrow> bool" where
  "same_run b c \<longleftrightarrow> zone_id b = zone_id c \<and> chunk_id b = chunk_id c"

definition runs_apart :: "palloc_heap \<Rightarrow> mem \<Rightarrow> rt_block \<Rightarrow> rt_block \<Rightarrow> bool" where
  "runs_apart h m b c \<longleftrightarrow> same_run b c \<or> zone_id b \<noteq> zone_id c \<or>
     unat (chunk_id b) + run_chunks h m b \<le> unat (chunk_id c) \<or> unat (chunk_id c) + run_chunks h m c \<le> unat (chunk_id b)"

definition bitmap_area :: "palloc_heap \<Rightarrow> mem \<Rightarrow> rt_block \<Rightarrow> nat set" where
  "bitmap_area h m b = {rb_values (run_get_bitmap h m b) ..< rb_values (run_get_bitmap h m b) + 8 * unat (nvalues (run_get_bitmap h m b))}"

definition run_meta :: "palloc_heap \<Rightarrow> rt_block \<Rightarrow> nat set" where
  "run_meta h b = {heap_get_chunk_hdr h b ..< heap_get_chunk_hdr h b + 8} \<union> {heap_get_chunk_run h b ..< heap_get_chunk_run h b + 16}"

lemma bitmap_values: "rb_values (run_get_bitmap h m b) = heap_get_chunk_run h b + 16"
  by (simp add: run_get_bitmap_def memblock_run_bitmap_def Let_def run_content_def split: prod.splits)

lemma bitmap_frame:
  assumes "\<And>a. a \<in> run_meta h b \<Longrightarrow> m' a = m a"
  shows "run_get_bitmap h m' b = run_get_bitmap h m b" and "run_chunks h m' b = run_chunks h m b"
proof -
  let ?hdr = "heap_get_chunk_hdr h b" and ?run = "heap_get_chunk_run h b"
  have s: "hdr_size_idx m' ?hdr = hdr_size_idx m ?hdr"
    unfolding hdr_size_idx_def by (rule rd32_cong) (rule assms, simp add: run_meta_def)
  moreover have "hdr_flags m' ?hdr = hdr_flags m ?hdr"
    unfolding hdr_flags_def by (rule rd16_cong) (rule assms, simp add: run_meta_def)
  moreover have "run_hdr_block_size m' ?run = run_hdr_block_size m ?run" "run_hdr_alignment m' ?run = run_hdr_alignment m ?run"
    unfolding run_hdr_block_size_def run_hdr_alignment_def by (rule rd64_cong, rule assms, simp add: run_meta_def)+
  ultimately show "run_get_bitmap h m' b = run_get_bitmap h m b" by (simp add: run_get_bitmap_def Let_def)
  show "run_chunks h m' b = run_chunks h m b" using s by (simp add: run_chunks_def)
qed

lemma same_run_bitmap: "same_run b c \<Longrightarrow> run_get_bitmap h m b = run_get_bitmap h m c"
  by (simp add: same_run_def run_get_bitmap_def heap_get_chunk_hdr_def heap_get_chunk_run_def)

lemma bitmap_area_span:
  assumes "run_place h m b"
  shows "bitmap_area h m b \<subseteq> {heap_get_chunk_run h b + 16 ..< heap_get_chunk_run h b + 262144 * run_chunks h m b}"
  using assms unfolding run_place_def bitmap_area_def bitmap_values by auto

lemma zone_le: "unat y < unat z \<Longrightarrow> ZID_TO_ZONE h y + unat ZONE_MAX_SIZE \<le> ZID_TO_ZONE h z"
proof -
  assume "unat y < unat z"
  then have "unat ZONE_MAX_SIZE * Suc (unat y) \<le> unat ZONE_MAX_SIZE * unat z" by (intro mult_le_mono2) simp
  then show ?thesis by (simp add: ZID_TO_ZONE_def)
qed

text \<open>The bitmap of a run is apart from the metadata of every run, and from the bitmaps of the others.\<close>

lemma runs_disjoint:
  assumes b: "run_place h m b" and c: "run_place h m c" and ap: "runs_apart h m b c"
  shows "bitmap_area h m b \<inter> run_meta h c = {}" and "\<not> same_run b c \<Longrightarrow> bitmap_area h m b \<inter> bitmap_area h m c = {}"
proof -
  let ?lo = "\<lambda>x. ZID_TO_ZONE h (zone_id x)"
  have pl: "heap_get_chunk_hdr h x = ?lo x + 64 + 8 * unat (chunk_id x)"
    "heap_get_chunk_run h x = ?lo x + 524288 + 262144 * unat (chunk_id x)" for x :: rt_block
    by (simp_all add: heap_get_chunk_hdr_def heap_get_chunk_run_def GET_CHUNK_HDR_def GET_CHUNK_def zone_sizes)
  have nb: "unat (chunk_id b) + run_chunks h m b \<le> 65528" "0 < run_chunks h m b"
    "unat (chunk_id c) + run_chunks h m c \<le> 65528" "0 < run_chunks h m c"
    using b c by (simp_all add: run_place_def MAX_CHUNK_def)
  have ends: "heap_get_chunk_run h b + 262144 * run_chunks h m b \<le> ?lo b + unat ZONE_MAX_SIZE"
    "heap_get_chunk_run h c + 262144 * run_chunks h m c \<le> ?lo c + unat ZONE_MAX_SIZE"
    using nb unfolding pl zone_sizes by linarith+
  have zones: "zone_id b = zone_id c \<or> ?lo b + unat ZONE_MAX_SIZE \<le> ?lo c \<or> ?lo c + unat ZONE_MAX_SIZE \<le> ?lo b"
    using zone_le [of "zone_id b" "zone_id c" h] zone_le [of "zone_id c" "zone_id b" h]
    by (cases "unat (zone_id b)" "unat (zone_id c)" rule: linorder_cases) (auto simp: word_unat_eq_iff)
  have lo: "?lo b + 524288 \<le> heap_get_chunk_run h b" "?lo c + 524288 \<le> heap_get_chunk_run h c"
    "heap_get_chunk_hdr h c + 8 \<le> ?lo c + 524288" "?lo c \<le> heap_get_chunk_hdr h c"
    using nb unfolding pl by linarith+
  have big: "524288 \<le> unat ZONE_MAX_SIZE" by (simp add: zone_sizes)
  have chunks: "heap_get_chunk_run h b + 262144 * run_chunks h m b \<le> heap_get_chunk_run h c \<or>
      heap_get_chunk_run h c + 262144 * run_chunks h m c \<le> heap_get_chunk_run h b" if "\<not> same_run b c"
  proof (cases "zone_id b = zone_id c")
    case True
    then have "unat (chunk_id b) + run_chunks h m b \<le> unat (chunk_id c) \<or> unat (chunk_id c) + run_chunks h m c \<le> unat (chunk_id b)"
      using ap that by (auto simp: runs_apart_def)
    then show ?thesis unfolding pl True by linarith
  next
    case False
    then show ?thesis using zones ends lo big by linarith
  qed
  note spans = bitmap_area_span [OF b] bitmap_area_span [OF c]
  show "bitmap_area h m b \<inter> bitmap_area h m c = {}" if "\<not> same_run b c"
    using chunks [OF that] spans by (fastforce simp: subset_iff)
  have "a \<notin> run_meta h c" if "a \<in> bitmap_area h m b" for a
  proof -
    have a: "heap_get_chunk_run h b + 16 \<le> a" "a < heap_get_chunk_run h b + 262144 * run_chunks h m b" using that spans(1) by auto
    have "a < heap_get_chunk_hdr h c \<or> heap_get_chunk_hdr h c + 8 \<le> a"
    proof (cases "zone_id b = zone_id c")
      case True
      then show ?thesis using a lo by simp
    next
      case False
      then show ?thesis using zones ends lo big a by linarith
    qed
    moreover have "a < heap_get_chunk_run h c \<or> heap_get_chunk_run h c + 16 \<le> a"
    proof (cases "same_run b c")
      case True
      then show ?thesis using a by (simp add: same_run_def heap_get_chunk_run_def)
    next
      case False
      then show ?thesis using chunks a nb(4) by linarith
    qed
    ultimately show ?thesis by (auto simp: run_meta_def)
  qed
  then show "bitmap_area h m b \<inter> run_meta h c = {}" by blast
qed

section \<open>Updates of the bitmap\<close>

text \<open>What the new state of a block means for the set of used units, and the update that
  \<open>run_prep_operation_hdr\<close> adds to the operation for it.\<close>

fun apply_block :: "rt_block \<times> memblock_state \<Rightarrow> nat set \<Rightarrow> nat set" where
  "apply_block (b, MEMBLOCK_ALLOCATED) U = U \<union> block_units b"
| "apply_block (b, MEMBLOCK_FREE) U = U - block_units b"
| "apply_block (b, MEMBLOCK_STATE_UNKNOWN) U = U"

fun block_update :: "palloc_heap \<Rightarrow> rt_block \<times> memblock_state \<Rightarrow> update" where
  "block_update h (b, op) =
     (heap_get_chunk_run h b + 16 + 8 * (unat (block_off b) div 64),
      if op = MEMBLOCK_ALLOCATED then (run_block_mask b, ULOG_OPERATION_OR) else (NOT (run_block_mask b), ULOG_OPERATION_AND))"

lemma ulog_ops_distinct: "ULOG_OPERATION_OR \<noteq> ULOG_OPERATION_AND" by (simp add: ulog_op_defs)

lemma update_word:
  assumes "op \<noteq> MEMBLOCK_STATE_UNKNOWN"
  shows "put_update (block_update h (b, op)) m =
    wr64 m (heap_get_chunk_run h b + 16 + 8 * (unat (block_off b) div 64))
      (let w = rd64 m (heap_get_chunk_run h b + 16 + 8 * (unat (block_off b) div 64))
       in if op = MEMBLOCK_ALLOCATED then w OR run_block_mask b else w AND NOT (run_block_mask b))"
  using assms ulog_ops_distinct by (simp add: merge_val_def Let_def)

lemma update_bit:
  assumes ok: "run_block_ok (run_get_bitmap h m0 b) b" and op: "op \<noteq> MEMBLOCK_STATE_UNKNOWN"
  shows "run_bit (put_update (block_update h (b, op)) m) (run_get_bitmap h m0 b) i \<longleftrightarrow>
    (if op = MEMBLOCK_ALLOCATED then run_bit m (run_get_bitmap h m0 b) i \<or> i \<in> block_units b
     else run_bit m (run_get_bitmap h m0 b) i \<and> i \<notin> block_units b)"
proof (cases "i div 64 = unat (block_off b) div 64")
  case True
  have "i mod 64 < 64" by simp
  then show ?thesis
    unfolding update_word [OF op] run_bit_def bitmap_values Let_def True
    using block_unit_iff [OF ok True] by (simp add: bit_or_iff bit_and_iff bit_not_iff)
next
  case False
  then have "i \<notin> block_units b" using block_unit_value [OF ok] by auto
  moreover have "rd64 (put_update (block_update h (b, op)) m) (heap_get_chunk_run h b + 16 + 8 * (i div 64)) =
      rd64 m (heap_get_chunk_run h b + 16 + 8 * (i div 64))"
    using False unfolding update_word [OF op] by (intro rd64_wr64_disjoint) linarith
  ultimately show ?thesis unfolding run_bit_def bitmap_values by auto
qed

lemma update_used:
  assumes ok: "run_block_ok (run_get_bitmap h m0 b) b" and op: "op \<noteq> MEMBLOCK_STATE_UNKNOWN"
  shows "used_units (put_update (block_update h (b, op)) m) (run_get_bitmap h m0 b) = apply_block (b, op) (used_units m (run_get_bitmap h m0 b))"
    and "padding_set m (run_get_bitmap h m0 b) \<Longrightarrow> padding_set (put_update (block_update h (b, op)) m) (run_get_bitmap h m0 b)"
proof -
  have in_units: "i < unat (nbits (run_get_bitmap h m0 b))" if "i \<in> block_units b" for i
    using ok that by (auto simp: run_block_ok_def block_units_def)
  show "used_units (put_update (block_update h (b, op)) m) (run_get_bitmap h m0 b) = apply_block (b, op) (used_units m (run_get_bitmap h m0 b))"
    using op in_units unfolding used_units_def update_bit [OF ok op] by (cases op) auto
  show "padding_set (put_update (block_update h (b, op)) m) (run_get_bitmap h m0 b)" if "padding_set m (run_get_bitmap h m0 b)"
    using that in_units unfolding padding_set_def update_bit [OF ok op] by (fastforce simp: not_le)
qed
end
