(* ===== verification/Memblock_Ops.thy ===== *)
theory Memblock_Ops
  imports Memblock_Bitmap
begin

text \<open>
  Allocating and freeing blocks of runs in one operation. The entries that \<open>run_prep_operation_hdr\<close> adds
  for the blocks go through the redo log of the lane; when the operation finishes, the used units of
  every run have changed as the abstract operations say, and a failure leaves all of them or none.
\<close>

unbundle bit_operations_syntax

section \<open>Blocks of one operation\<close>

text \<open>The blocks that one operation allocates and frees, each in its run; different runs have different
  chunks.\<close>

definition blocks_ok :: "palloc_heap \<Rightarrow> mem \<Rightarrow> (rt_block \<times> memblock_state) list \<Rightarrow> bool" where
  "blocks_ok h m bs \<longleftrightarrow>
     (\<forall>(b, op)\<in>set bs. op \<noteq> MEMBLOCK_STATE_UNKNOWN \<and> run_place h m b \<and> run_block_ok (run_get_bitmap h m b) b) \<and>
     (\<forall>x\<in>set bs. \<forall>y\<in>set bs. runs_apart h m (fst x) (fst y))"

definition run_effect :: "rt_block \<Rightarrow> (rt_block \<times> memblock_state) list \<Rightarrow> nat set \<Rightarrow> nat set" where
  "run_effect c bs U = fold (\<lambda>x. if same_run (fst x) c then apply_block x else id) bs U"

lemma run_effect_simps [simp]:
  "run_effect c [] U = U"
  "run_effect c (x # bs) U = run_effect c bs (if same_run (fst x) c then apply_block x U else U)"
  by (simp_all add: run_effect_def)

lemma update_area:
  assumes "run_place h m b" and "run_block_ok (run_get_bitmap h m b) b" and "fst (block_update h (b, op)) \<le> a" and "a < fst (block_update h (b, op)) + 8"
  shows "a \<in> bitmap_area h m b"
proof -
  let ?bm = "run_get_bitmap h m b"
  obtain q r where q: "unat (block_off b) = 64 * q + r" "unat (block_off b) div 64 = q" by (rule div64E)
  have "unat (block_off b) < unat (nbits ?bm)" "unat (nbits ?bm) \<le> 64 * unat (nvalues ?bm)"
    using assms(1,2) run_bitmap_okD(3) [of ?bm] by (auto simp: run_block_ok_def run_place_def)
  then have "q < unat (nvalues ?bm)" using q(1) by linarith
  then show ?thesis using assms(3,4) q(2) by (auto simp: bitmap_area_def bitmap_values)
qed

lemma update_frame:
  assumes "run_place h m0 b" and "run_block_ok (run_get_bitmap h m0 b) b" and "op \<noteq> MEMBLOCK_STATE_UNKNOWN" and "a \<notin> bitmap_area h m0 b"
  shows "put_update (block_update h (b, op)) m a = m a"
proof -
  have "\<not> (fst (block_update h (b, op)) \<le> a \<and> a < fst (block_update h (b, op)) + 8)"
    using update_area [OF assms(1,2)] assms(4) by blast
  then show ?thesis unfolding update_word [OF assms(3)] by (intro wr64_out) auto
qed

lemma updates_run:
  assumes "blocks_ok h m0 bs" and c: "run_place h m0 c" and ap: "\<forall>x\<in>set bs. runs_apart h m0 (fst x) c"
  shows "used_units (fold put_update (map (block_update h) bs) m) (run_get_bitmap h m0 c) = run_effect c bs (used_units m (run_get_bitmap h m0 c)) \<and>
    (padding_set m (run_get_bitmap h m0 c) \<longrightarrow> padding_set (fold put_update (map (block_update h) bs) m) (run_get_bitmap h m0 c)) \<and>
    (\<forall>a\<in>run_meta h c. fold put_update (map (block_update h) bs) m a = m a)"
  using assms(1) ap
proof (induction bs arbitrary: m)
  case (Cons x bs)
  obtain b op where x: "x = (b, op)" by (cases x)
  let ?bm = "run_get_bitmap h m0 c" and ?m = "put_update (block_update h x) m"
  have ok: "op \<noteq> MEMBLOCK_STATE_UNKNOWN" "run_place h m0 b" "run_block_ok (run_get_bitmap h m0 b) b" "runs_apart h m0 b c"
    and rest: "blocks_ok h m0 bs" using Cons.prems by (auto simp: blocks_ok_def x)
  have step: "used_units ?m ?bm = (if same_run b c then apply_block x (used_units m ?bm) else used_units m ?bm) \<and>
      (padding_set m ?bm \<longrightarrow> padding_set ?m ?bm)"
  proof (cases "same_run b c")
    case True
    then show ?thesis using update_used [OF ok(3,1), of m] by (simp add: x same_run_bitmap [OF True, of h m0])
  next
    case False
    have words: "rd64 ?m (rb_values ?bm + 8 * k) = rd64 m (rb_values ?bm + 8 * k)" if "k < unat (nvalues ?bm)" for k
    proof (rule rd64_cong)
      fix a assume "rb_values ?bm + 8 * k \<le> a" "a < rb_values ?bm + 8 * k + 8"
      then have "a \<in> bitmap_area h m0 c" using that by (auto simp: bitmap_area_def)
      then show "?m a = m a" unfolding x using runs_disjoint(2) [OF ok(2) c ok(4) False] by (intro update_frame [OF ok(2,3,1)]) blast
    qed
    have "run_bit ?m ?bm i = run_bit m ?bm i" if "i < 64 * unat (nvalues ?bm)" for i
    proof -
      have "i div 64 < unat (nvalues ?bm)" using that by linarith
      then show ?thesis using words by (simp add: run_bit_def)
    qed
    moreover have "i < 64 * unat (nvalues ?bm)" if "i < unat (nbits ?bm)" for i
      using that c run_bitmap_okD(3) [of ?bm] by (simp add: run_place_def)
    ultimately show ?thesis using False by (auto simp: used_units_def padding_set_def)
  qed
  moreover have "\<forall>a\<in>run_meta h c. ?m a = m a"
    using runs_disjoint(1) [OF ok(2) c ok(4)] unfolding x by (blast intro: update_frame [OF ok(2,3,1)])
  ultimately show ?case using Cons.IH [OF rest, of ?m] Cons.prems(2) by (simp add: x)
qed simp

text \<open>The calls of \<open>prep_hdr\<close> for the blocks of an operation, as the execution of its actions makes them;
  \<open>al\<close> has the answers of the allocator to the additions.\<close>

fun prep_blocks ::
  "(nat \<Rightarrow> addr option \<times> addr fresh) \<Rightarrow> obj_pool \<Rightarrow> palloc_heap \<Rightarrow> (rt_block \<times> memblock_state) list \<Rightarrow>
   operation_context \<times> mem \<Rightarrow> operation_context \<times> mem" where
  "prep_blocks al pop h [] s = s"
| "prep_blocks al pop h ((b, op) # bs) s =
     prep_blocks (al \<circ> Suc) pop h bs (run_prep_operation_hdr (al 0) pop h b op (fst s) (snd s))"

definition blocks_in_heap :: "PMEMobjpool \<Rightarrow> palloc_heap \<Rightarrow> mem \<Rightarrow> (rt_block \<times> memblock_state) list \<Rightarrow> bool" where
  "blocks_in_heap pop h m bs \<longleftrightarrow> (\<forall>x\<in>set bs. heap_span pop (heap_get_chunk_hdr h (fst x)) 8 \<and>
     heap_span pop (heap_get_chunk_run h (fst x)) (262144 * run_chunks h m (fst x)))"

lemma block_update_ok:
  assumes "objpool_ok pop" and "run_place h m b" and "run_block_ok (run_get_bitmap h m b) b" and "op \<noteq> MEMBLOCK_STATE_UNKNOWN"
    and "heap_span pop (heap_get_chunk_run h b) (262144 * run_chunks h m b)"
  shows "update_ok pop (block_update h (b, op))"
proof -
  let ?p = "heap_get_chunk_run h b + (16 + 8 * (unat (block_off b) div 64))"
  have "?p + 7 \<in> bitmap_area h m b" by (rule update_area [OF assms(2,3), of op]) auto
  then have "?p + 7 < heap_get_chunk_run h b + 262144 * run_chunks h m b"
    using bitmap_area_span [OF assms(2)] by (meson atLeastLessThan_iff subsetD)
  then have "16 + 8 * (unat (block_off b) div 64) + 8 \<le> 262144 * run_chunks h m b" by linarith
  then have "heap_span pop ?p 8" using assms(1) by (intro heap_spanI [OF assms(5)]) simp_all
  then show ?thesis by (simp add: update_ok_def val_type_def add.assoc)
qed

lemma prep_update:
  assumes "op \<noteq> MEMBLOCK_STATE_UNKNOWN" and "block_update h (b, op) = (p, v, t)"
  shows "run_prep_operation_hdr a pop h b op ctx m = snd (operation_add_entry (fst a) (snd a) pop ctx m p v t)"
proof -
  have "unat (block_off b div RUN_BITS_PER_VALUE) = unat (block_off b) div 64"
    by (simp add: RUN_BITS_PER_VALUE_def unat_div)
  then show ?thesis
    using assms by (cases op) (auto simp: run_prep_operation_hdr_def Let_def bitmap_values)
qed

lemma prep_gathered:
  assumes lane: "lane_ok pop ctx0 m0" and pool: "objpool_ok pop"
    and "gathered pop ctx0 m0 us (fst s) (snd s)" and "blocks_ok h m0 bs" and "blocks_in_heap pop h m0 bs"
    and "length us + length bs \<le> 12"
  shows "gathered pop ctx0 m0 (us @ map (block_update h) bs)
    (fst (prep_blocks al (pop_layout pop) h bs s)) (snd (prep_blocks al (pop_layout pop) h bs s))"
  using assms(3-)
proof (induction bs arbitrary: al us s)
  case (Cons x bs)
  obtain b op where x: "x = (b, op)" by (cases x)
  obtain p v t where u: "block_update h (b, op) = (p, v, t)" by (metis prod_cases3)
  have ok: "op \<noteq> MEMBLOCK_STATE_UNKNOWN" "update_ok pop (p, v, t)"
    using Cons.prems(2,3) block_update_ok [OF pool, of h m0 b op, unfolded u] by (auto simp: blocks_ok_def blocks_in_heap_def x)
  obtain r ctx' m' where add: "operation_add_entry (fst (al 0)) (snd (al 0)) (pop_layout pop) (fst s) (snd s) p v t = (r, ctx', m')"
    by (metis prod_cases3)
  have "gathered pop ctx0 m0 (us @ [(p, v, t)]) ctx' m'"
    using gathered_add(2) [OF lane pool Cons.prems(1) ok(2) _ add] Cons.prems(4) by simp
  moreover have "blocks_ok h m0 bs" "blocks_in_heap pop h m0 bs"
    using Cons.prems(2,3) by (auto simp: blocks_ok_def blocks_in_heap_def)
  ultimately show ?case
    using Cons.IH [of "us @ [(p, v, t)]" "(ctx', m')" "al \<circ> Suc"] Cons.prems(4) prep_update [OF ok(1) u] add
    by (simp add: x u comp_def del: block_update.simps)
qed simp

text \<open>Memories that agree on the heap have the same bits.\<close>

lemma heap_eq_bits:
  assumes pl: "run_place h m b" and sp: "heap_span pop (heap_get_chunk_run h b) (262144 * run_chunks h m b)"
    and eq: "heap_eq pop m1 m2" and i: "i < 64 * unat (nvalues (run_get_bitmap h m b))"
  shows "run_bit m1 (run_get_bitmap h m b) i = run_bit m2 (run_get_bitmap h m b) i"
proof -
  let ?bm = "run_get_bitmap h m b"
  have area: "m1 a = m2 a" if "a \<in> bitmap_area h m b" for a
  proof -
    have "heap_get_chunk_run h b \<le> a" "a < heap_get_chunk_run h b + 262144 * run_chunks h m b"
      using that bitmap_area_span [OF pl] by auto
    then show ?thesis using eq sp unfolding heap_eq_def heap_span_def by auto
  qed
  have k: "i div 64 < unat (nvalues ?bm)" using i by linarith
  have "rd64 m1 (rb_values ?bm + 8 * (i div 64)) = rd64 m2 (rb_values ?bm + 8 * (i div 64))"
    by (rule rd64_cong, rule area) (use k in \<open>auto simp: bitmap_area_def\<close>)
  then show ?thesis by (simp add: run_bit_def)
qed

lemma heap_eq_used:
  assumes "blocks_ok h m bs" and "blocks_in_heap pop h m bs" and "x \<in> set bs" and eq: "heap_eq pop m1 m2"
  shows "used_units m1 (run_get_bitmap h m (fst x)) = used_units m2 (run_get_bitmap h m (fst x))"
proof -
  let ?bm = "run_get_bitmap h m (fst x)"
  have pl: "run_place h m (fst x)" using assms(1,3) by (auto simp: blocks_ok_def)
  have sp: "heap_span pop (heap_get_chunk_run h (fst x)) (262144 * run_chunks h m (fst x))"
    using assms(2,3) by (auto simp: blocks_in_heap_def)
  have "i < 64 * unat (nvalues ?bm)" if "i < unat (nbits ?bm)" for i
    using that pl run_bitmap_okD(3) [of ?bm] by (simp add: run_place_def)
  then show ?thesis using heap_eq_bits [OF pl sp eq] by (auto simp: used_units_def)
qed

lemma blocks_effect:
  assumes bs: "blocks_ok h m bs" and hp: "blocks_in_heap pop h m bs" and b: "(b, op) \<in> set bs"
    and eq: "heap_eq pop m' (fold put_update (map (block_update h) bs) m)"
  shows "run_get_bitmap h m' b = run_get_bitmap h m b"
    and "used_units m' (run_get_bitmap h m b) = run_effect b bs (used_units m (run_get_bitmap h m b))"
    and "padding_set m (run_get_bitmap h m b) \<Longrightarrow> padding_set m' (run_get_bitmap h m b)"
proof -
  let ?m = "fold put_update (map (block_update h) bs) m" and ?bm = "run_get_bitmap h m b"
  have pl: "run_place h m b" using bs b by (auto simp: blocks_ok_def)
  have ap: "\<forall>x\<in>set bs. runs_apart h m (fst x) b" using bs b unfolding blocks_ok_def by (metis fst_conv)
  have sp: "heap_span pop (heap_get_chunk_hdr h b) 8" "heap_span pop (heap_get_chunk_run h b) (262144 * run_chunks h m b)"
    using hp b by (auto simp: blocks_in_heap_def)
  note U = updates_run [OF bs pl ap, of m]
  have ch: "0 < run_chunks h m b" using pl by (simp add: run_place_def)
  have meta: "m' a = ?m a" if "a \<in> run_meta h b" for a
    using that eq sp ch unfolding heap_eq_def run_meta_def heap_span_def by auto
  then show "run_get_bitmap h m' b = ?bm" by (intro bitmap_frame) (use U in auto)
  have "used_units m' ?bm = used_units ?m ?bm" using heap_eq_used [OF bs hp b eq] by simp
  then show "used_units m' ?bm = run_effect b bs (used_units m ?bm)" using U by simp
  show "padding_set m' ?bm" if "padding_set m ?bm"
    using that U heap_eq_bits [OF pl sp(2) eq] by (simp add: padding_set_def)
qed

section \<open>Disjoint blocks\<close>

definition blocks_disjoint :: "(rt_block \<times> memblock_state) list \<Rightarrow> bool" where
  "blocks_disjoint bs \<longleftrightarrow>
     sorted_wrt (\<lambda>x y. same_run (fst x) (fst y) \<longrightarrow> block_units (fst x) \<inter> block_units (fst y) = {}) bs"

lemma run_effect_append: "run_effect c (xs @ ys) U = run_effect c ys (run_effect c xs U)"
  by (simp add: run_effect_def)

lemma run_effect_untouched:
  assumes "\<forall>x\<in>set bs. same_run (fst x) c \<longrightarrow> V \<inter> block_units (fst x) = {}"
  shows "V \<inter> run_effect c bs U = V \<inter> U"
  using assms
proof (induction bs arbitrary: U)
  case (Cons x bs)
  obtain b op where x: "x = (b, op)" by (cases x)
  have "V \<inter> apply_block (b, op) U = V \<inter> U" if "same_run b c"
    using that Cons.prems by (cases op) (auto simp: x)
  then show ?case using Cons by (simp add: x)
qed simp

lemma run_effect_block:
  assumes "blocks_disjoint bs" and "(b, op) \<in> set bs" and "op \<noteq> MEMBLOCK_STATE_UNKNOWN"
  shows "block_units b \<inter> run_effect b bs U = (if op = MEMBLOCK_ALLOCATED then block_units b else {})"
proof -
  obtain xs ys where bs: "bs = xs @ (b, op) # ys" using assms(2) by (auto dest: split_list)
  have "\<forall>x\<in>set ys. same_run (fst x) b \<longrightarrow> block_units b \<inter> block_units (fst x) = {}"
    using assms(1) unfolding blocks_disjoint_def bs sorted_wrt_append by (auto simp: same_run_def)
  then have "block_units b \<inter> run_effect b bs U = block_units b \<inter> apply_block (b, op) (run_effect b xs U)"
    unfolding bs run_effect_append by (simp add: run_effect_untouched same_run_def)
  then show ?thesis using assms(3) by (cases op) auto
qed

section \<open>Properties\<close>


text \<open>Blocks that do not overlap end in the state that was asked for. After the operation,
  \<open>run_get_state\<close> of each block answers the state it was prepared with.\<close>

lemma run_blocks_states:
  assumes "lane_ok pop ctx m" and "objpool_ok pop" and "blocks_ok h m bs" and "blocks_in_heap pop h m bs" and "length bs \<le> 12"
    and "blocks_disjoint bs" and "prep_blocks al (pop_layout pop) h bs (operation_start ctx, m) = (ctx1, m1)"
  shows "\<exists>ctx' m'. operation_finish ctx1 m1 = Some (ctx', m') \<and> (\<forall>(b, op)\<in>set bs. run_get_state h m' b = op)"
proof -
  have ga: "gathered pop ctx m (map (block_update h) bs) ctx1 m1"
    using prep_gathered [OF assms(1,2) _ assms(3,4), of "[]" "(operation_start ctx, m)" al] gathered_start [OF assms(1)] assms(5,7)
    by simp
  obtain ctx' m' where m': "operation_finish ctx1 m1 = Some (ctx', m')" "heap_eq pop m' (fold put_update (map (block_update h) bs) m)"
    using gathered_finish [OF assms(1,2) ga] assms(5) by auto
  have "run_get_state h m' b = op" if "(b, op) \<in> set bs" for b op
  proof -
    note E = blocks_effect [OF assms(3,4) that m'(2)]
    have ok: "run_block_ok (run_get_bitmap h m b) b" "op \<noteq> MEMBLOCK_STATE_UNKNOWN" using assms(3) that by (auto simp: blocks_ok_def)
    have "block_units b \<noteq> {}" using ok(1) by (auto simp: run_block_ok_def block_units_def)
    then show ?thesis
      using run_get_state_spec [of h m' b] run_effect_block [OF assms(6) that ok(2), of "used_units m (run_get_bitmap h m b)"] E(1,2) ok
      by (cases op) auto
  qed
  then show ?thesis using m'(1) by blast
qed


section \<open>A concrete run\<close>

text \<open>A pool whose heap has a run of one chunk with units of 128 bytes, all of them free.\<close>

definition sample_heap_pool :: PMEMobjpool where
  "sample_heap_pool = \<lparr>pop_addr = 0, uuid_lo = 7,
     pop_layout = \<lparr>lanes_offset = 8192, nlanes = 1, heap_offset = 65536, heap_size = 2097152\<rparr>\<rparr>"

definition sample_heap :: palloc_heap where
  "sample_heap = \<lparr>ph_layout = 65536, ph_base = 0\<rparr>"

definition sample_run_mem :: mem where
  "sample_run_mem = store (wr64 (wr64 (\<lambda>_. 0) 4000016 640) 590848 128) 66624 (chunk_header_bytes CHUNK_TYPE_RUN 9 1)"

definition sample_run_ctx :: operation_context where
  "sample_run_ctx = (sample_ctx LOG_TYPE_REDO 0)\<lparr>oc_base_nbytes := 640, pshadow_ops := \<lparr>ol_capacity = 1024, ol_offset = 0, ol_ulog = 4000000\<rparr>\<rparr>"

definition sample_run_block :: "u32 \<Rightarrow> u32 \<Rightarrow> rt_block" where
  "sample_run_block off n = \<lparr>chunk_id = 0, zone_id = 0, size_idx = n, block_off = off,
     mb_header_type = HEADER_COMPACT, mb_type = MEMORY_BLOCK_RUN\<rparr>"

lemma sample_places:
  "heap_get_chunk_hdr sample_heap (sample_run_block off n) = 66624"
  "heap_get_chunk_run sample_heap (sample_run_block off n) = 590848"
  by (simp_all add: heap_get_chunk_hdr_def heap_get_chunk_run_def GET_CHUNK_HDR_def GET_CHUNK_def ZID_TO_ZONE_def zone0_def
      SIZEOF_HEAP_HEADER_def sample_heap_def sample_run_block_def zone_sizes)

lemma chunk_header_read:
  "hdr_type (store m a (chunk_header_bytes t f s)) a = t" "hdr_flags (store m a (chunk_header_bytes t f s)) a = f"
  "hdr_size_idx (store m a (chunk_header_bytes t f s)) a = s"
  by (simp_all add: hdr_type_def hdr_flags_def hdr_size_idx_def rd16_def rd32_def chunk_header_bytes_def bytes_at_store_inside)

lemma sample_run_read:
  "rd64 sample_run_mem 4000016 = 640" "rd64 sample_run_mem 590848 = 128"
  "hdr_size_idx sample_run_mem 66624 = 1" "hdr_flags sample_run_mem 66624 = 9"
  "590856 \<le> a \<Longrightarrow> a < 600000 \<Longrightarrow> rd64 sample_run_mem a = 0"
  by (simp_all add: sample_run_mem_def chunk_header_read rd64_store_disjoint rd64_wr64_disjoint) (simp_all add: chunk_header_bytes_def rd64_store_disjoint rd64_wr64_disjoint)

lemma sample_bitmap:
  "run_get_bitmap sample_heap sample_run_mem (sample_run_block off n) = \<lparr>nvalues = 32, nbits = 2045, rb_size = 304, rb_values = 590864\<rparr>"
  by (simp add: run_get_bitmap_def Let_def sample_places sample_run_read run_hdr_block_size_def run_hdr_alignment_def run_content_def
      memblock_run_bitmap_def CHUNK_FLAG_FLEX_BITMAP_def RUN_CONTENT_SIZE_BYTES_def RUN_CONTENT_SIZE_def CHUNKSIZE_def
      RUN_BASE_METADATA_SIZE_def util_div_ceil_def RUN_BITS_PER_VALUE_def ALIGN_UP32_def RUN_BASE_METADATA_VALUES_def)

lemma sample_lane: "lane_ok sample_heap_pool sample_run_ctx sample_run_mem" "objpool_ok sample_heap_pool"
  by (simp_all add: lane_ok_def objpool_ok_def sample_heap_pool_def sample_run_ctx_def sample_ctx_def heap_lo_def heap_hi_def
      ulog_capacity_p_def init_queue sample_run_read)

definition sample_blocks :: "(rt_block \<times> memblock_state) list" where
  "sample_blocks = [(sample_run_block 0 2, MEMBLOCK_ALLOCATED), (sample_run_block 66 3, MEMBLOCK_ALLOCATED),
     (sample_run_block 2 1, MEMBLOCK_FREE)]"

lemma sample_blocks_ok:
  "blocks_ok sample_heap sample_run_mem sample_blocks" "blocks_in_heap sample_heap_pool sample_heap sample_run_mem sample_blocks"
  "blocks_disjoint sample_blocks" "length sample_blocks \<le> 12"
proof -
  have pl: "run_place sample_heap sample_run_mem (sample_run_block off n)" for off n
    by (simp add: run_place_def run_chunks_def sample_places sample_run_read sample_bitmap run_bitmap_ok_def MAX_CHUNK_def)
       (simp add: sample_run_block_def)
  have sr: "same_run (sample_run_block off n) (sample_run_block off' n')" for off n off' n'
    by (simp add: same_run_def sample_run_block_def)
  have "run_block_ok (run_get_bitmap sample_heap sample_run_mem b) b" if "b \<in> fst ` set sample_blocks" for b
    using that by (auto simp: sample_blocks_def sample_bitmap) (simp_all add: run_block_ok_def sample_run_block_def)
  then show "blocks_ok sample_heap sample_run_mem sample_blocks"
    unfolding blocks_ok_def by (auto simp: sample_blocks_def pl runs_apart_def sr)
  show "blocks_in_heap sample_heap_pool sample_heap sample_run_mem sample_blocks"
    by (simp add: blocks_in_heap_def sample_blocks_def sample_places run_chunks_def sample_run_read heap_span_def
        heap_lo_def heap_hi_def sample_heap_pool_def)
  show "blocks_disjoint sample_blocks" "length sample_blocks \<le> 12"
    by (auto simp: blocks_disjoint_def sample_blocks_def block_units_def sample_run_block_def)
qed

lemma sample_used: "used_units sample_run_mem (run_get_bitmap sample_heap sample_run_mem (sample_run_block off n)) = {}"
proof -
  have "rd64 sample_run_mem (590864 + 8 * (i div 64)) = 0" if "i < 2045" for i :: nat
    using that by (intro sample_run_read(5)) simp_all
  then show ?thesis by (auto simp: used_units_def run_bit_def sample_bitmap)
qed


end
