(* ===== verification/Memblock_Scan.thy ===== *)
theory Memblock_Scan
  imports Memblock_Ops
begin

text \<open>
  Scanning the bitmap of a run: \<open>run_calc_free\<close> measures the free space exactly, \<open>run_iterate_free\<close>
  visits the free blocks and nothing else, and \<open>run_iterate_used\<close> visits the objects.
\<close>

unbundle bit_operations_syntax

section \<open>Largest block of a value\<close>

text \<open>A block of \<open>n\<close> set bits, and the length of the longest one.\<close>

definition ones_at :: "u64 \<Rightarrow> nat \<Rightarrow> nat \<Rightarrow> bool" where
  "ones_at v s n \<longleftrightarrow> s + n \<le> 64 \<and> (\<forall>i. s \<le> i \<longrightarrow> i < s + n \<longrightarrow> bit v i)"

definition longest_ones :: "u64 \<Rightarrow> nat" where
  "longest_ones v = Max {n. \<exists>s. ones_at v s n}"

lemma ones_finite: "finite {n. \<exists>s. ones_at v s n}" "0 \<in> {n. \<exists>s. ones_at v s n}"
proof -
  show "finite {n. \<exists>s. ones_at v s n}" by (rule finite_subset [of _ "{..64}"]) (auto simp: ones_at_def)
  show "0 \<in> {n. \<exists>s. ones_at v s n}" by (auto simp: ones_at_def intro: exI [of _ 0])
qed

lemma longest_ones_ge: "ones_at v s n \<Longrightarrow> n \<le> longest_ones v"
  unfolding longest_ones_def by (rule Max_ge [OF ones_finite(1)]) auto

lemma longest_ones_at: "\<exists>s. ones_at v s (longest_ones v)"
  unfolding longest_ones_def using Max_in [OF ones_finite(1)] ones_finite(2) by blast

lemma ones_shorter: "ones_at v s n \<Longrightarrow> k \<le> n \<Longrightarrow> ones_at v s k"
  by (simp add: ones_at_def)

lemma longest_le_popcount: "longest_ones v \<le> util_popcount64 v" "longest_ones v \<le> 64"
proof -
  obtain s where s: "ones_at v s (longest_ones v)" using longest_ones_at by blast
  then show "longest_ones v \<le> 64" by (simp add: ones_at_def)
  have "{s..<s + longest_ones v} \<subseteq> {i. i < 64 \<and> bit v i}" using s by (auto simp: ones_at_def)
  then have "card {s..<s + longest_ones v} \<le> card {i. i < 64 \<and> bit v i}" by (intro card_mono) auto
  then show "longest_ones v \<le> util_popcount64 v" by (simp add: popcount_card)
qed

text \<open>The value after \<open>k\<close> rounds of \<open>value &= value << 1\<close>.\<close>

primrec shrink :: "nat \<Rightarrow> u64 \<Rightarrow> u64" where
  "shrink 0 v = v"
| "shrink (Suc k) v = shrink k v AND push_bit 1 (shrink k v)"

lemma bit_shrink: "bit (shrink k v) n \<longleftrightarrow> k \<le> n \<and> (\<forall>j\<le>k. bit v (n - j))"
proof (induction k arbitrary: n)
  case (Suc k)
  have "(\<forall>j\<le>Suc k. bit v (n - j)) \<longleftrightarrow> (\<forall>j\<le>k. bit v (n - j)) \<and> (\<forall>j\<le>k. bit v (n - 1 - j))" if "0 < n"
  proof
    assume b: "(\<forall>j\<le>k. bit v (n - j)) \<and> (\<forall>j\<le>k. bit v (n - 1 - j))"
    show "\<forall>j\<le>Suc k. bit v (n - j)"
    proof (intro allI impI)
      fix j assume "j \<le> Suc k"
      then show "bit v (n - j)" using b by (cases "j = Suc k") auto
    qed
  qed (auto simp del: diff_Suc_1)
  then show ?case unfolding shrink.simps bit_and_shift Suc by auto
qed simp

lemma shrink_0: "shrink k v = 0 \<longleftrightarrow> longest_ones v \<le> k"
proof
  assume z: "shrink k v = 0"
  show "longest_ones v \<le> k"
  proof (rule ccontr)
    assume "\<not> longest_ones v \<le> k"
    then obtain s where s: "ones_at v s (Suc k)" using longest_ones_at ones_shorter by (metis not_less_eq_eq)
    then have "bit (shrink k v) (s + k)" unfolding bit_shrink by (auto simp: ones_at_def)
    with z show False by simp
  qed
next
  assume l: "longest_ones v \<le> k"
  show "shrink k v = 0"
  proof (rule bit_word_eqI)
    fix n assume n: "n < LENGTH(64)"
    have "\<not> bit (shrink k v) n"
    proof
      assume b: "bit (shrink k v) n"
      have "ones_at v (n - k) (Suc k)"
      proof -
        have "bit v i" if "n - k \<le> i" "i < n - k + Suc k" for i
          using b that unfolding bit_shrink by (metis (no_types) diff_diff_cancel diff_le_mono2 less_Suc_eq_le add_Suc_right le_add_diff_inverse2)
        then show ?thesis using b n unfolding bit_shrink ones_at_def by auto
      qed
      then show False using longest_ones_ge l by fastforce
    qed
    then show "bit (shrink k v) n = bit (0 :: u64) n" by simp
  qed
qed

lemma longest_loop_spec: "unat (longest_loop v 0) = longest_ones v"
proof -
  have "longest_loop (shrink k v) (of_nat k) = of_nat (longest_ones v)" if "k \<le> longest_ones v" for k
    using that
  proof (induction "longest_ones v - k" arbitrary: k)
    case 0
    then show ?case using shrink_0 [of k v] by (simp add: longest_loop.simps)
  next
    case (Suc d)
    then have "shrink k v \<noteq> 0" using shrink_0 [of k v] by simp
    then have "longest_loop (shrink k v) (of_nat k) = longest_loop (shrink (Suc k) v) (of_nat (Suc k))"
      by (subst longest_loop.simps) (simp add: add.commute del: push_bit_Suc)
    also have "\<dots> = of_nat (longest_ones v)" by (rule Suc.hyps(1)) (use Suc.hyps(2) Suc.prems in simp_all)
    finally show ?case .
  qed
  from this [of 0] have "longest_loop v 0 = of_nat (longest_ones v)" by simp
  then show ?thesis using longest_le_popcount(2) [of v] by (simp add: unat_of_nat)
qed

section \<open>Free space of a run\<close>

lemma calc_free_value_spec:
  assumes "unat mx \<le> 64" and "calc_free_value v (free, mx) = (free', mx')"
  shows "free' = free + of_nat (util_popcount64 (NOT v)) \<and> unat mx' = max (unat mx) (longest_ones (NOT v))"
proof -
  let ?w = "NOT v" and ?p = "util_popcount64 (NOT v)"
  have p64: "?p \<le> 64" unfolding util_popcount64_def by (metis length_filter_le length_upt diff_zero)
  then have up: "unat (of_nat ?p :: u32) = ?p" by (simp add: unat_of_nat)
  note l = longest_le_popcount [of ?w]
  have n: "unat (ucast (longest_loop ?w 0) :: u32) = longest_ones ?w"
    using longest_loop_spec [of ?w] l(2) by (simp add: unsigned_ucast_eq take_bit_nat_eq_self)
  consider (zero) "?w = 0" | (less) "?w \<noteq> 0" "of_nat ?p < mx" | (full) "?w \<noteq> 0" "\<not> of_nat ?p < mx" "?p = 64"
    | (top) "?w \<noteq> 0" "\<not> of_nat ?p < mx" "?p \<noteq> 64" "mx = 64" | (calc) "?w \<noteq> 0" "\<not> of_nat ?p < mx" "?p \<noteq> 64" "mx \<noteq> 64" by blast
  then show ?thesis
  proof cases
    case zero
    then have "?p = 0" by (simp add: popcount_card)
    then show ?thesis using assms zero l by (simp add: calc_free_value_def)
  next
    case less
    then have "?p < unat mx" using up by (simp add: word_less_nat_alt)
    then show ?thesis using assms less l by (simp add: calc_free_value_def Let_def)
  next
    case full
    have "{i. i < 64 \<and> bit ?w i} = {..<64}" using full(3) unfolding popcount_card by (intro card_subset_eq) auto
    then have "ones_at ?w 0 64" by (auto simp: ones_at_def)
    then have "longest_ones ?w = 64" using longest_ones_ge l(2) by (simp add: antisym)
    then show ?thesis using assms full by (simp add: calc_free_value_def Let_def RUN_BITS_PER_VALUE_def)
  next
    case top
    then have "?p < 64" using p64 by simp
    then show ?thesis using assms top up l by (simp add: word_less_nat_alt)
  next
    case calc
    have "of_nat ?p \<noteq> (64 :: u32)"
    proof
      assume "of_nat ?p = (64 :: u32)"
      then show False using up calc(3) by simp
    qed
    then show ?thesis
      using assms calc n by (auto simp: calc_free_value_def Let_def RUN_BITS_PER_VALUE_def word_less_nat_alt)
  qed
qed

lemma calc_free_fold:
  assumes "fold (\<lambda>i. calc_free_value (w i)) is (free, mx) = (free', mx')" and "unat mx \<le> 64"
  shows "free' = free + of_nat (sum_list (map (\<lambda>i. util_popcount64 (NOT (w i))) is)) \<and>
    unat mx \<le> unat mx' \<and> (\<forall>i\<in>set is. longest_ones (NOT (w i)) \<le> unat mx') \<and>
    (mx' = mx \<or> (\<exists>i\<in>set is. longest_ones (NOT (w i)) = unat mx'))"
  using assms
proof (induction "is" arbitrary: free mx)
  case (Cons i "is")
  obtain f1 mx1 where c: "calc_free_value (w i) (free, mx) = (f1, mx1)" by fastforce
  note S = calc_free_value_spec [OF Cons.prems(2) c]
  have "unat mx1 \<le> 64" using S Cons.prems(2) longest_le_popcount(2) [of "NOT (w i)"] by simp
  note IH = Cons.IH [OF _ this, of f1] 
  have f: "fold (\<lambda>i. calc_free_value (w i)) is (f1, mx1) = (free', mx')" using Cons.prems(1) c by simp
  have "mx1 = mx \<or> longest_ones (NOT (w i)) = unat mx1" using S by (auto simp: max_def word_unat_eq_iff split: if_splits)
  then show ?case using IH [OF f] S by (auto simp: add.assoc)
qed simp

lemma card_by_value:
  "card {i. i < 64 * n \<and> P (i div 64) (i mod 64)} = sum_list (map (\<lambda>k. card {j. j < 64 \<and> P k j}) [0..<n])"
proof (induction n)
  case (Suc n)
  have "{i. i < 64 * Suc n \<and> P (i div 64) (i mod 64)} =
      {i. i < 64 * n \<and> P (i div 64) (i mod 64)} \<union> (\<lambda>j. 64 * n + j) ` {j. j < 64 \<and> P n j}" (is "?A = ?B \<union> ?C")
  proof
    show "?A \<subseteq> ?B \<union> ?C"
    proof
      fix i assume i: "i \<in> ?A"
      obtain q r where q: "i = 64 * q + r" "r < 64" "i div 64 = q" "i mod 64 = r" by (rule div64E)
      show "i \<in> ?B \<union> ?C"
      proof (cases "i < 64 * n")
        case False
        then have "q = n" using i q by auto
        then show ?thesis using i q by auto
      qed (use i in auto)
    qed
    show "?B \<union> ?C \<subseteq> ?A" by auto
  qed
  moreover have "card ?C = card {j. j < 64 \<and> P n j}" by (rule card_image) (simp add: inj_on_def)
  moreover have "card (?B \<union> ?C) = card ?B + card ?C" by (rule card_Un_disjoint) auto
  ultimately show ?case using Suc by simp
qed simp

definition free_units :: "mem \<Rightarrow> run_bitmap \<Rightarrow> nat set" where
  "free_units m bm = {i. i < unat (nbits bm) \<and> \<not> run_bit m bm i}"

lemma free_units_values:
  assumes "run_bitmap_ok bm" and "padding_set m bm"
  shows "i \<in> free_units m bm \<longleftrightarrow> i < 64 * unat (nvalues bm) \<and> \<not> run_bit m bm i"
  using assms run_bitmap_okD(3) [OF assms(1)] by (auto simp: free_units_def padding_set_def not_le)

lemma ones_free:
  assumes "run_bitmap_ok bm" and "padding_set m bm" and "k < unat (nvalues bm)" and "n \<le> 64"
  shows "ones_at (NOT (rd64 m (rb_values bm + 8 * k))) s n \<longleftrightarrow> s + n \<le> 64 \<and> {64 * k + s..<64 * k + s + n} \<subseteq> free_units m bm"
proof -
  have "bit (NOT (rd64 m (rb_values bm + 8 * k))) j \<longleftrightarrow> 64 * k + j \<in> free_units m bm" if "j < 64" for j
    using that assms(3) unfolding free_units_values [OF assms(1,2)] run_bit_def by (simp add: bit_not_iff)
  then have a: "ones_at (NOT (rd64 m (rb_values bm + 8 * k))) s n \<longleftrightarrow>
      s + n \<le> 64 \<and> (\<forall>i. s \<le> i \<longrightarrow> i < s + n \<longrightarrow> 64 * k + i \<in> free_units m bm)"
    unfolding ones_at_def by (metis order_less_le_trans)
  have "(\<forall>i. s \<le> i \<longrightarrow> i < s + n \<longrightarrow> 64 * k + i \<in> free_units m bm) \<longleftrightarrow> {64 * k + s..<64 * k + s + n} \<subseteq> free_units m bm"
  proof
    assume f: "\<forall>i. s \<le> i \<longrightarrow> i < s + n \<longrightarrow> 64 * k + i \<in> free_units m bm"
    show "{64 * k + s..<64 * k + s + n} \<subseteq> free_units m bm"
    proof
      fix x assume "x \<in> {64 * k + s..<64 * k + s + n}"
      then show "x \<in> free_units m bm" using f [rule_format, of "x - 64 * k"] by auto
    qed
  qed auto
  then show ?thesis using a by simp
qed

text \<open>C36. \<open>run_calc_free\<close> measures a run exactly. On a run whose padding bits are set, started with both
  counters at zero, the first result is the number of free units, and the second is the size of the
  largest free block that lies in one value of the bitmap: no free block is larger, and there is one of
  that size unless the run is full. The shortcuts of the loop lose nothing.\<close>

theorem run_calc_free_exact:
  assumes "run_bitmap_ok (run_get_bitmap h m b)" and "padding_set m (run_get_bitmap h m b)"
    and "run_calc_free h m b (0, 0) = (free, mx)"
  shows "unat free = card (free_units m (run_get_bitmap h m b)) \<and>
    (\<forall>c. run_block_ok (run_get_bitmap h m b) c \<longrightarrow> block_units c \<subseteq> free_units m (run_get_bitmap h m b) \<longrightarrow> size_idx c \<le> mx) \<and>
    (mx \<noteq> 0 \<longrightarrow> (\<exists>c. run_block_ok (run_get_bitmap h m b) c \<and> block_units c \<subseteq> free_units m (run_get_bitmap h m b) \<and> size_idx c = mx))"
proof (intro conjI allI impI)
  let ?bm = "run_get_bitmap h m b"
  let ?w = "\<lambda>i. rd64 m (rb_values ?bm + 8 * i)" and ?n = "unat (nvalues ?bm)"
  note B = run_bitmap_okD [OF assms(1)] and ones = ones_free [OF assms(1,2)]
  have "fold (\<lambda>i. calc_free_value (?w i)) [0..<?n] (0, 0) = (free, mx)" using assms(3) by (simp add: run_calc_free_def Let_def)
  note F = calc_free_fold [OF this, simplified]
  have "card (free_units m ?bm) = card {i. i < 64 * ?n \<and> \<not> bit (?w (i div 64)) (i mod 64)}"
    using free_units_values [OF assms(1,2)] unfolding run_bit_def by (intro arg_cong [of _ _ card]) auto
  also have "\<dots> = sum_list (map (\<lambda>i. util_popcount64 (NOT (?w i))) [0..<?n])"
    using card_by_value [of ?n "\<lambda>k j. \<not> bit (?w k) j"] unfolding popcount_card by (simp add: bit_not_iff cong: conj_cong)
  finally have "free = of_nat (card (free_units m ?bm))" using F by simp
  moreover have "card (free_units m ?bm) \<le> unat (nbits ?bm)"
    using card_mono [of "{..<unat (nbits ?bm)}" "free_units m ?bm"] by (auto simp: free_units_def)
  ultimately show "unat free = card (free_units m ?bm)"
    using unat_lt_u32 [of "nbits ?bm"] by (simp add: unat_of_nat)
  show "size_idx c \<le> mx" if c: "run_block_ok ?bm c" "block_units c \<subseteq> free_units m ?bm" for c
  proof -
    obtain q r where q: "unat (block_off c) = 64 * q + r" "unat (block_off c) mod 64 = r" by (rule div64E)
    have k: "q < ?n" "r + unat (size_idx c) \<le> 64" using c(1) q B(3) by (auto simp: run_block_ok_def)
    then have "ones_at (NOT (?w q)) r (unat (size_idx c))" using c(2) q(1) ones [OF k(1)] by (auto simp: block_units_def)
    then have "unat (size_idx c) \<le> longest_ones (NOT (?w q))" by (rule longest_ones_ge)
    also have "\<dots> \<le> unat mx" using F k(1) by simp
    finally show ?thesis by (simp add: word_le_nat_alt)
  qed
  assume "mx \<noteq> 0"
  then obtain k where k: "k < ?n" "longest_ones (NOT (?w k)) = unat mx" using F by auto
  obtain s where s: "ones_at (NOT (?w k)) s (unat mx)" using longest_ones_at [of "NOT (?w k)"] k(2) by auto
  have mx: "0 < unat mx" "unat mx \<le> 64" using \<open>mx \<noteq> 0\<close> longest_le_popcount(2) [of "NOT (?w k)"] k(2) by (auto simp: unat_gt_0)
  let ?c = "b\<lparr>block_off := of_nat (64 * k + s), size_idx := mx\<rparr>"
  have sub: "s + unat mx \<le> 64" "{64 * k + s..<64 * k + s + unat mx} \<subseteq> free_units m ?bm"
    using ones [OF k(1) mx(2), of s] s by auto
  have "64 * k + s + unat mx - 1 \<in> free_units m ?bm" using sub(2) mx(1) by (auto intro!: subsetD [OF sub(2)])
  then have e: "64 * k + s + unat mx \<le> unat (nbits ?bm)" by (auto simp: free_units_def)
  then have o: "unat (of_nat (64 * k + s) :: u32) = 64 * k + s" using unat_lt_u32 [of "nbits ?bm"] by (simp add: unat_of_nat del: of_nat_add of_nat_mult)
  have "(64 * k + s) mod 64 = s" using sub(1) mx(1) by simp
  then show "\<exists>c. run_block_ok ?bm c \<and> block_units c \<subseteq> free_units m ?bm \<and> size_idx c = mx"
    using o e sub mx(1) by (intro exI [of _ ?c]) (simp add: run_block_ok_def block_units_def del: of_nat_add of_nat_mult)
qed
section \<open>Free blocks\<close>

text \<open>The reference: where the maximal blocks of clear bits of a value start, and how long they are. A
  scan calls back for each of them in order and stops at the first nonzero result.\<close>

definition free_start :: "u64 \<Rightarrow> nat \<Rightarrow> bool" where
  "free_start v s \<longleftrightarrow> \<not> bit v s \<and> (s = 0 \<or> bit v (s - 1))"

definition zero_len :: "u64 \<Rightarrow> nat \<Rightarrow> nat" where
  "zero_len v s = length (takeWhile (\<lambda>i. \<not> bit v i) [s..<64])"

definition free_block :: "rt_block \<Rightarrow> u32 \<Rightarrow> u64 \<Rightarrow> nat \<Rightarrow> rt_block" where
  "free_block b base v s = b\<lparr>block_off := base + of_nat s, size_idx := of_nat (zero_len v s)\<rparr>"

fun iter_blocks :: "(rt_block \<Rightarrow> 's \<Rightarrow> int \<times> 's) \<Rightarrow> rt_block list \<Rightarrow> 's \<Rightarrow> int \<times> 's" where
  "iter_blocks cb [] arg = (0, arg)"
| "iter_blocks cb (b # bs) arg =
     (let (ret, arg) = cb b arg in if ret \<noteq> 0 then (ret, arg) else iter_blocks cb bs arg)"

lemma iter_blocks_append:
  "iter_blocks cb (xs @ ys) arg = (let (ret, arg) = iter_blocks cb xs arg in if ret \<noteq> 0 then (ret, arg) else iter_blocks cb ys arg)"
  by (induction xs arbitrary: arg) (auto split: prod.splits)

lemma zero_lenI:
  assumes "\<And>i. s \<le> i \<Longrightarrow> i < s + n \<Longrightarrow> \<not> bit v i" and "s + n \<le> 64" and "s + n = 64 \<or> bit v (s + n)"
  shows "zero_len v s = n"
proof -
  have "[s..<64] = [s..<s + n] @ [s + n..<64]" using assms(2) by (metis le_add1 le_add_diff_inverse upt_add_eq_append)
  moreover have "takeWhile (\<lambda>i. \<not> bit v i) [s + n..<64] = []"
    using assms(2,3) by (cases "s + n = 64") (simp_all add: upt_conv_Cons)
  moreover have "takeWhile (\<lambda>i. \<not> bit v i) ([s..<s + n] @ ys) = [s..<s + n] @ takeWhile (\<lambda>i. \<not> bit v i) ys" for ys
    using assms(1) by (intro takeWhile_append2) auto
  ultimately show ?thesis by (simp add: zero_len_def)
qed

lemma filter_upt_skip:
  assumes "\<And>i. a \<le> i \<Longrightarrow> i < c \<Longrightarrow> \<not> P i" and "a \<le> c" and "c \<le> d"
  shows "filter P [a..<d] = filter P [c..<d]"
proof -
  have "[a..<d] = [a..<c] @ [c..<d]" using assms(2,3) by (metis le_add_diff_inverse upt_add_eq_append)
  moreover have "filter P [a..<c] = []" using assms(1) by (auto simp: filter_empty_conv)
  ultimately show ?thesis by simp
qed

text \<open>A block that already has its runtime state.\<close>

definition rebuilt :: "palloc_heap \<Rightarrow> mem \<Rightarrow> rt_block \<Rightarrow> bool" where
  "rebuilt h m b \<longleftrightarrow> mb_header_type b = memblock_header_type h m b \<and> memblock_detect_type h m b = Some (mb_type b)"

lemma rebuilt_place:
  assumes "rebuilt h m b"
  shows "memblock_rebuild_state h m (b\<lparr>block_off := x, size_idx := y\<rparr>) = Some (b\<lparr>block_off := x, size_idx := y\<rparr>)"
proof -
  have "memblock_header_type h m (b\<lparr>block_off := x, size_idx := y\<rparr>) = memblock_header_type h m b"
    "memblock_detect_type h m (b\<lparr>block_off := x, size_idx := y\<rparr>) = memblock_detect_type h m b"
    by (simp_all add: memblock_header_type_def memblock_detect_type_def heap_get_chunk_hdr_def)
  then show ?thesis using assms by (cases b) (simp add: rebuilt_def memblock_rebuild_state_def)
qed

lemma process_value:
  assumes "rebuilt h m b" and "shift < 64" and "shift = 0 \<or> bit v (shift - 1) \<noteq> bit v shift" and "\<exists>x y. s = b\<lparr>block_off := x, size_idx := y\<rparr>"
  shows "process_value_loop h m v base cb shift s arg =
    Some (iter_blocks cb (map (free_block b base v) (filter (free_start v) [shift..<64])) arg)"
  using assms(2-)
proof (induction "64 - shift" arbitrary: shift s arg rule: less_induct)
  case less
  let ?d = "drop_bit shift v"
  have bit_d: "bit ?d i \<longleftrightarrow> bit v (shift + i)" for i by (simp add: bit_drop_bit_eq)
  have mk: "s\<lparr>block_off := base + of_nat shift, size_idx := of_nat (zero_len v shift)\<rparr> = free_block b base v shift"
    using less.prems(3) by (auto simp: free_block_def)
  consider (rest) "?d = 0" | (full) "?d = - 1" | (ones) "?d \<noteq> 0" "?d \<noteq> - 1" "bit v shift" | (zeros) "?d \<noteq> 0" "?d \<noteq> - 1" "\<not> bit v shift" by blast
  then show ?case
  proof cases
    case rest
    then have z: "\<not> bit v i" if "shift \<le> i" for i using bit_d [of "i - shift"] that by simp
    then have "zero_len v shift = 64 - shift" using less.prems(1) by (intro zero_lenI) auto
    moreover have "filter (free_start v) [shift..<64] = [shift]"
    proof -
      have "filter (free_start v) [Suc shift..<64] = []" using z by (auto simp: filter_empty_conv free_start_def)
      moreover have "free_start v shift" using z [of shift] less.prems(2) by (auto simp: free_start_def)
      ultimately show ?thesis using less.prems(1) by (simp add: upt_conv_Cons)
    qed
    ultimately show ?thesis
      using rest mk by (simp add: process_value_loop.simps [of h m v base cb shift] split: prod.splits)
  next
    case full
    have "shift = 0"
    proof (rule ccontr)
      assume "shift \<noteq> 0"
      then have "\<not> bit ?d 63" using bit_d [of 63] by (auto dest: bit_imp_le_length)
      with full show False by simp
    qed
    then have "filter (free_start v) [shift..<64] = []" using full by (auto simp: filter_empty_conv free_start_def)
    then show ?thesis using full by (simp add: process_value_loop.simps [of h m v base cb shift])
  next
    case ones
    let ?off = "util_lssb_index64 (NOT ?d)"
    have nz: "NOT ?d \<noteq> 0" using ones(2) by (metis bit.double_compl bit.compl_zero)
    note L = lssb_index [OF nz]
    have sz: "util_lssb_index64 ?d = 0"
      using lssb_index(3) [OF ones(1), of 0] ones(3) bit_d [of 0] by (cases "util_lssb_index64 ?d") auto
    have off0: "0 < ?off" using lssb_zero [OF sz] .
    have one: "bit v i" if "shift \<le> i" "i < shift + ?off" for i
      using L(3) [of "i - shift"] that bit_d [of "i - shift"] by (simp add: bit_not_iff) (metis L(2) less_trans less_diff_conv2 add.commute bit_imp_le_length)
    have le: "shift + ?off \<le> 64"
    proof (rule ccontr)
      assume "\<not> shift + ?off \<le> 64"
      then have "bit v 64" using less.prems(1) by (intro one) auto
      then show False by (auto dest: bit_imp_le_length)
    qed
    have skip: "filter (free_start v) [shift..<64] = filter (free_start v) [shift + ?off..<64]"
      using one le by (intro filter_upt_skip) (auto simp: free_start_def)
    show ?thesis
    proof (cases "shift + ?off = 64")
      case True
      then show ?thesis using ones sz skip by (simp add: process_value_loop.simps [of h m v base cb shift])
    next
      case False
      have "\<not> bit v (shift + ?off)" using L(1) bit_d [of ?off] by (simp add: bit_not_iff)
      moreover have "bit v (shift + ?off - 1)" using off0 by (intro one) auto
      ultimately show ?thesis
        using less.hyps [of "shift + ?off" s arg] off0 le False ones sz skip less.prems(1,3)
        by (simp add: process_value_loop.simps [of h m v base cb shift])
    qed
  next
    case zeros
    let ?sz = "util_lssb_index64 ?d"
    note L = lssb_index [OF zeros(1)]
    have off: "util_lssb_index64 (NOT ?d) = 0"
    proof -
      have "NOT ?d \<noteq> 0" using zeros(2) by (metis bit.double_compl bit.compl_zero)
      then show ?thesis
        using lssb_index(3) [of "NOT ?d" 0] zeros(3) bit_d [of 0] by (cases "util_lssb_index64 (NOT ?d)") (auto simp: bit_not_iff)
    qed
    have sz0: "0 < ?sz" using L(1) zeros(3) bit_d [of 0] by (cases ?sz) auto
    have set: "bit v (shift + ?sz)" using L(1) bit_d [of ?sz] by simp
    have lt: "shift + ?sz < 64" using set by (auto dest: bit_imp_le_length)
    have clr: "\<not> bit v i" if "shift \<le> i" "i < shift + ?sz" for i
      using L(3) [of "i - shift"] that bit_d [of "i - shift"] by simp
    have len: "zero_len v shift = ?sz" using clr set lt by (intro zero_lenI) auto
    have st: "free_start v shift" using zeros(3) less.prems(2) by (auto simp: free_start_def)
    have "filter (free_start v) [shift..<64] = shift # filter (free_start v) [Suc shift..<64]"
      using st less.prems(1) by (simp add: upt_conv_Cons)
    also have "filter (free_start v) [Suc shift..<64] = filter (free_start v) [shift + ?sz..<64]"
      using clr lt sz0 by (intro filter_upt_skip) (auto simp: free_start_def)
    finally have fs: "filter (free_start v) [shift..<64] = shift # filter (free_start v) [shift + ?sz..<64]" .
    have "\<not> bit v (shift + ?sz - 1)" using sz0 by (intro clr) auto
    then have rec: "process_value_loop h m v base cb (shift + ?sz) (free_block b base v shift) arg' =
        Some (iter_blocks cb (map (free_block b base v) (filter (free_start v) [shift + ?sz..<64])) arg')" for arg'
      using set sz0 lt by (intro less.hyps) (auto simp: free_block_def)
    have mk': "memblock_rebuild_state h m (s\<lparr>block_off := base + of_nat shift, size_idx := of_nat ?sz\<rparr>) = Some (free_block b base v shift)"
      using mk len rebuilt_place [OF assms(1)] less.prems(3) by (auto simp: free_block_def)
    show ?thesis
      using zeros off sz0 lt rec mk' fs
      by (simp add: process_value_loop.simps [of h m v base cb shift] split: prod.splits)
  qed
qed

definition value_blocks :: "palloc_heap \<Rightarrow> mem \<Rightarrow> rt_block \<Rightarrow> nat \<Rightarrow> rt_block list" where
  "value_blocks h m b k =
     (let v = rd64 m (rb_values (run_get_bitmap h m b) + 8 * k)
      in map (free_block b (RUN_BITS_PER_VALUE * of_nat k) v) (filter (free_start v) [0..<64]))"

definition free_blocks :: "palloc_heap \<Rightarrow> mem \<Rightarrow> rt_block \<Rightarrow> rt_block list" where
  "free_blocks h m b = concat (map (value_blocks h m b) [0..<unat (nvalues (run_get_bitmap h m b))])"

lemma iterate_values_spec:
  assumes "rebuilt h m b"
  shows "iterate_values h m b (rb_values (run_get_bitmap h m b)) cb ks arg = Some (iter_blocks cb (concat (map (value_blocks h m b) ks)) arg)"
proof (induction ks arbitrary: arg)
  case (Cons k ks)
  have "b = b\<lparr>block_off := block_off b, size_idx := size_idx b\<rparr>" by simp
  then have "\<exists>x y. b = b\<lparr>block_off := x, size_idx := y\<rparr>" by blast
  then have "run_process_bitmap_value h m b (rd64 m (rb_values (run_get_bitmap h m b) + 8 * k)) (RUN_BITS_PER_VALUE * of_nat k) cb arg =
      Some (iter_blocks cb (value_blocks h m b k) arg)"
    using process_value [OF assms, of 0] by (simp add: run_process_bitmap_value_def value_blocks_def Let_def)
  then show ?case using Cons by (simp add: iter_blocks_append split: prod.splits)
qed simp

lemma zero_len_spec:
  assumes "free_start v s" and "s < 64"
  shows "0 < zero_len v s" and "s + zero_len v s \<le> 64" and "\<And>i. s \<le> i \<Longrightarrow> i < s + zero_len v s \<Longrightarrow> \<not> bit v i"
    and "s + zero_len v s < 64 \<Longrightarrow> bit v (s + zero_len v s)"
proof -
  let ?n = "zero_len v s" and ?t = "takeWhile (\<lambda>i. \<not> bit v i) [s..<64]"
  show "0 < ?n" using assms by (simp add: zero_len_def upt_conv_Cons free_start_def)
  have le: "?n \<le> 64 - s" unfolding zero_len_def by (metis length_takeWhile_le length_upt)
  then show "s + ?n \<le> 64" using assms(2) by simp
  show "\<not> bit v i" if i: "s \<le> i" "i < s + ?n" for i
  proof -
    have k: "i - s < length ?t" using i by (simp add: zero_len_def)
    then have "?t ! (i - s) = i" using i le by (subst takeWhile_nth) auto
    then show ?thesis using nth_mem [OF k] by (auto dest: set_takeWhileD)
  qed
  show "bit v (s + ?n)" if "s + ?n < 64"
    using nth_length_takeWhile [of "\<lambda>i. \<not> bit v i" "[s..<64]"] that by (simp add: zero_len_def)
qed

lemma free_start_before:
  assumes "j < 64" and "\<not> bit v j"
  shows "\<exists>s\<le>j. free_start v s \<and> j < s + zero_len v s"
  using assms
proof (induction j)
  case 0
  then show ?case using zero_len_spec(1) [of v 0] by (auto simp: free_start_def)
next
  case (Suc j)
  show ?case
  proof (cases "bit v j")
    case True
    then have "free_start v (Suc j)" using Suc.prems by (simp add: free_start_def)
    then show ?thesis using zero_len_spec(1) [of v "Suc j"] Suc.prems(1) by auto
  next
    case False
    then obtain s where s: "s \<le> j" "free_start v s" "j < s + zero_len v s" using Suc by auto
    have "Suc j \<noteq> s + zero_len v s" using zero_len_spec(4) [OF s(2)] s Suc.prems by auto
    then show ?thesis using s by (intro exI [of _ s]) auto
  qed
qed

lemma free_starts_apart:
  assumes "free_start v s" and "free_start v t" and "s < t" and "t < 64"
  shows "s + zero_len v s \<le> t"
proof (rule ccontr)
  assume "\<not> s + zero_len v s \<le> t"
  then have "\<not> bit v (t - 1)" using assms by (intro zero_len_spec(3) [OF assms(1)]) auto
  then show False using assms(2,3) by (auto simp: free_start_def)
qed

text \<open>The units of a block that the reference has for a value.\<close>

lemma value_block_units:
  assumes ok: "run_bitmap_ok (run_get_bitmap h m b)" and pad: "padding_set m (run_get_bitmap h m b)"
    and k: "k < unat (nvalues (run_get_bitmap h m b))" and s: "s < 64"
    and v: "v = rd64 m (rb_values (run_get_bitmap h m b) + 8 * k)" and st: "free_start v s"
    and c: "c = free_block b (RUN_BITS_PER_VALUE * of_nat k) v s"
  shows "unat (block_off c) = 64 * k + s" and "unat (size_idx c) = zero_len v s" and "run_block_ok (run_get_bitmap h m b) c"
    and "block_units c \<subseteq> free_units m (run_get_bitmap h m b)"
proof -
  let ?bm = "run_get_bitmap h m b" and ?n = "zero_len v s"
  note Z = zero_len_spec [OF st s]
  have "ones_at (NOT v) s ?n" using Z(2,3) by (auto simp: ones_at_def bit_not_iff)
  then have sub: "{64 * k + s..<64 * k + s + ?n} \<subseteq> free_units m ?bm" using ones_free [OF ok pad k, of ?n s] Z(2) v by simp
  have "64 * k + s + ?n - 1 \<in> free_units m ?bm" using Z(1) by (intro subsetD [OF sub]) auto
  then have e: "64 * k + s + ?n \<le> unat (nbits ?bm)" by (auto simp: free_units_def)
  then have lt: "64 * k + s < 2 ^ 32" using unat_lt_u32 [of "nbits ?bm"] Z(1) by simp
  have off: "block_off c = of_nat (64 * k + s)" by (simp add: c free_block_def RUN_BITS_PER_VALUE_def)
  show o: "unat (block_off c) = 64 * k + s" unfolding off using lt by (simp only: unat_of_nat) simp
  show n: "unat (size_idx c) = ?n" using Z(2) by (simp add: c free_block_def unat_of_nat)
  show "block_units c \<subseteq> free_units m ?bm" using sub by (simp add: block_units_def o n)
  have "(64 * k + s) mod 64 = s" using s by simp
  then show "run_block_ok ?bm c" using Z(1,2) e by (simp add: run_block_ok_def o n)
qed

lemma in_value_blocks:
  "c \<in> set (value_blocks h m b k) \<longleftrightarrow> (\<exists>s<64. free_start (rd64 m (rb_values (run_get_bitmap h m b) + 8 * k)) s \<and>
     c = free_block b (RUN_BITS_PER_VALUE * of_nat k) (rd64 m (rb_values (run_get_bitmap h m b) + 8 * k)) s)"
  by (auto simp: value_blocks_def Let_def)

lemma in_free_blocks:
  "c \<in> set (free_blocks h m b) \<longleftrightarrow> (\<exists>k<unat (nvalues (run_get_bitmap h m b)). c \<in> set (value_blocks h m b k))"
  by (auto simp: free_blocks_def)

definition before :: "rt_block \<Rightarrow> rt_block \<Rightarrow> bool" where
  "before c d \<longleftrightarrow> unat (block_off c) + unat (size_idx c) \<le> unat (block_off d)"

lemma free_blocks_sorted:
  assumes ok: "run_bitmap_ok (run_get_bitmap h m b)" and pad: "padding_set m (run_get_bitmap h m b)"
  shows "sorted_wrt before (free_blocks h m b)"
proof -
  have "sorted_wrt before (concat (map (value_blocks h m b) [0..<n]))" if "n \<le> unat (nvalues (run_get_bitmap h m b))" for n
    using that
  proof (induction n)
    case (Suc n)
    let ?v = "rd64 m (rb_values (run_get_bitmap h m b) + 8 * n)"
    have n: "n < unat (nvalues (run_get_bitmap h m b))" using Suc.prems by simp
    note U = value_block_units [OF ok pad _ _ refl _ refl]
    have "sorted_wrt before (value_blocks h m b n)"
      unfolding value_blocks_def Let_def sorted_wrt_map
    proof (rule sorted_wrt_mono_rel [of _ "(<)"])
      fix s t assume "s \<in> set (filter (free_start ?v) [0..<64])" "t \<in> set (filter (free_start ?v) [0..<64])" "s < t"
      then show "before (free_block b (RUN_BITS_PER_VALUE * of_nat n) ?v s) (free_block b (RUN_BITS_PER_VALUE * of_nat n) ?v t)"
        using U(1,2) [OF n] free_starts_apart [of ?v s t] by (auto simp: before_def)
    qed (intro sorted_wrt_filter sorted_wrt_upt)
    moreover have "before c d" if c: "c \<in> set (value_blocks h m b k)" and kn: "k < n" and d: "d \<in> set (value_blocks h m b n)" for c d k
    proof -
      obtain s where s: "s < 64" "free_start (rd64 m (rb_values (run_get_bitmap h m b) + 8 * k)) s"
        "c = free_block b (RUN_BITS_PER_VALUE * of_nat k) (rd64 m (rb_values (run_get_bitmap h m b) + 8 * k)) s"
        using c unfolding in_value_blocks by blast
      obtain t where t: "t < 64" "free_start ?v t" "d = free_block b (RUN_BITS_PER_VALUE * of_nat n) ?v t"
        using d unfolding in_value_blocks by blast
      have "unat (block_off c) + unat (size_idx c) \<le> 64 * k + 64"
        using U(1,2) [OF order.strict_trans [OF kn n] s(1,2)] zero_len_spec(2) [OF s(2,1)] s(3) by simp
      moreover have "64 * n \<le> unat (block_off d)" using U(1) [OF n t(1,2)] t(3) by simp
      ultimately show ?thesis using kn by (simp add: before_def)
    qed
    ultimately show ?case using Suc by (auto simp: sorted_wrt_append)
  qed simp
  then show ?thesis by (simp add: free_blocks_def)
qed

text \<open>C37. \<open>run_iterate_free\<close> visits exactly the free blocks. It calls back for the blocks of a list in
  order, stopping at the first nonzero result, which it returns. Each block of the list lies in one
  value of the bitmap, all its units are free, and it cannot be extended in its value; the blocks are in
  increasing order, do not overlap, and together have every free unit of the run.\<close>

theorem run_iterate_free_exact:
  assumes "rebuilt h m b" and "run_bitmap_ok (run_get_bitmap h m b)" and "padding_set m (run_get_bitmap h m b)"
  shows "run_iterate_free h m b cb arg = Some (iter_blocks cb (free_blocks h m b) arg) \<and>
    sorted_wrt before (free_blocks h m b) \<and> (\<Union>c\<in>set (free_blocks h m b). block_units c) = free_units m (run_get_bitmap h m b) \<and>
    (\<forall>c\<in>set (free_blocks h m b). run_block_ok (run_get_bitmap h m b) c \<and>
       (unat (block_off c) mod 64 \<noteq> 0 \<longrightarrow> unat (block_off c) - 1 \<notin> free_units m (run_get_bitmap h m b)) \<and>
       ((unat (block_off c) + unat (size_idx c)) mod 64 \<noteq> 0 \<longrightarrow> unat (block_off c) + unat (size_idx c) \<notin> free_units m (run_get_bitmap h m b)))"
proof (intro conjI ballI)
  let ?bm = "run_get_bitmap h m b"
  let ?v = "\<lambda>k. rd64 m (rb_values ?bm + 8 * k)"
  note U = value_block_units [OF assms(2,3) _ _ refl _ refl] and F = free_units_values [OF assms(2,3)]
  show "run_iterate_free h m b cb arg = Some (iter_blocks cb (free_blocks h m b) arg)"
    using iterate_values_spec [OF assms(1)] by (simp add: run_iterate_free_def free_blocks_def Let_def)
  show "sorted_wrt before (free_blocks h m b)" by (rule free_blocks_sorted [OF assms(2,3)])
  have block: "\<exists>k<unat (nvalues ?bm). \<exists>s<64. free_start (?v k) s \<and> c = free_block b (RUN_BITS_PER_VALUE * of_nat k) (?v k) s"
    if "c \<in> set (free_blocks h m b)" for c using that unfolding in_free_blocks in_value_blocks .
  show "(\<Union>c\<in>set (free_blocks h m b). block_units c) = free_units m ?bm"
  proof
    show "(\<Union>c\<in>set (free_blocks h m b). block_units c) \<subseteq> free_units m ?bm" using block U(4) by blast
    show "free_units m ?bm \<subseteq> (\<Union>c\<in>set (free_blocks h m b). block_units c)"
    proof
      fix i assume i: "i \<in> free_units m ?bm"
      obtain q r where q: "i = 64 * q + r" "r < 64" "i div 64 = q" "i mod 64 = r" by (rule div64E)
      have qn: "q < unat (nvalues ?bm)" and "\<not> bit (?v q) r" using i q unfolding F run_bit_def by auto
      then obtain s where s: "s \<le> r" "free_start (?v q) s" "r < s + zero_len (?v q) s" using free_start_before [OF q(2)] by blast
      let ?c = "free_block b (RUN_BITS_PER_VALUE * of_nat q) (?v q) s"
      have s64: "s < 64" using s(1) q(2) by simp
      have "i \<in> block_units ?c" using U(1,2) [OF qn s64 s(2)] s q(1) by (simp add: block_units_def)
      moreover have "?c \<in> set (free_blocks h m b)" using qn s64 s(2) unfolding in_free_blocks in_value_blocks by blast
      ultimately show "i \<in> (\<Union>c\<in>set (free_blocks h m b). block_units c)" by blast
    qed
  qed
  fix c assume "c \<in> set (free_blocks h m b)"
  then obtain k s where ks: "k < unat (nvalues ?bm)" "s < 64" "free_start (?v k) s" "c = free_block b (RUN_BITS_PER_VALUE * of_nat k) (?v k) s"
    using block by blast
  note c = U [OF ks(1-3), folded ks(4)] and Z = zero_len_spec [OF ks(3,2)]
  show "run_block_ok ?bm c" by (rule c(3))
  have bit: "64 * k + j \<notin> free_units m ?bm" if "j < 64" "bit (?v k) j" for j
    using that unfolding F run_bit_def by simp
  show "unat (block_off c) mod 64 \<noteq> 0 \<longrightarrow> unat (block_off c) - 1 \<notin> free_units m ?bm"
  proof
    assume "unat (block_off c) mod 64 \<noteq> 0"
    then have "0 < s" using ks(2) by (simp add: c(1))
    then have "bit (?v k) (s - 1)" "unat (block_off c) - 1 = 64 * k + (s - 1)" using ks(3) by (auto simp: free_start_def c(1))
    then show "unat (block_off c) - 1 \<notin> free_units m ?bm" using bit [of "s - 1"] ks(2) by simp
  qed
  show "(unat (block_off c) + unat (size_idx c)) mod 64 \<noteq> 0 \<longrightarrow> unat (block_off c) + unat (size_idx c) \<notin> free_units m ?bm"
  proof
    assume e: "(unat (block_off c) + unat (size_idx c)) mod 64 \<noteq> 0"
    have eq: "unat (block_off c) + unat (size_idx c) = 64 * k + (s + zero_len (?v k) s)" by (simp add: c(1,2))
    moreover have "s + zero_len (?v k) s \<noteq> 64"
    proof
      assume "s + zero_len (?v k) s = 64"
      then show False using e unfolding eq by simp
    qed
    ultimately show "unat (block_off c) + unat (size_idx c) \<notin> free_units m ?bm"
      using bit [of "s + zero_len (?v k) s"] Z(2,4) by simp
  qed
qed

section \<open>Used blocks\<close>

text \<open>The objects of a run: \<open>st\<close> has the units where they start and \<open>sz\<close> their sizes in units. Their units
  are the used ones, none overlaps another or leaves its value, and the header of each gives its size.\<close>

definition object_at :: "rt_block \<Rightarrow> nat \<Rightarrow> rt_block" where
  "object_at b i = b\<lparr>block_off := of_nat i, size_idx := 0\<rparr>"

definition objects_ok :: "palloc_heap \<Rightarrow> mem \<Rightarrow> rt_block \<Rightarrow> (nat \<Rightarrow> bool) \<Rightarrow> (nat \<Rightarrow> nat) \<Rightarrow> bool" where
  "objects_ok h m b st sz \<longleftrightarrow>
     used_units m (run_get_bitmap h m b) = (\<Union>i\<in>{i. st i}. {i..<i + sz i}) \<and>
     (\<forall>i. st i \<longrightarrow> 0 < sz i \<and> i mod 64 + sz i \<le> 64 \<and> i + sz i \<le> unat (nbits (run_get_bitmap h m b)) \<and>
        (\<forall>j. i < j \<longrightarrow> j < i + sz i \<longrightarrow> \<not> st j) \<and>
        (\<exists>s. block_get_real_size h m (object_at b i) = Some s \<and>
           unat (CALC_SIZE_IDX (run_hdr_block_size m (heap_get_chunk_run h b)) s) = sz i))"

lemma objects_okD:
  assumes "objects_ok h m b st sz" and "st i"
  shows "0 < sz i \<and> i mod 64 + sz i \<le> 64 \<and> i + sz i \<le> unat (nbits (run_get_bitmap h m b)) \<and>
        (\<forall>j. i < j \<longrightarrow> j < i + sz i \<longrightarrow> \<not> st j)"
    and "\<exists>s. block_get_real_size h m (object_at b i) = Some s \<and>
           unat (CALC_SIZE_IDX (run_hdr_block_size m (heap_get_chunk_run h b)) s) = sz i"
  using assms unfolding objects_ok_def by simp_all

lemma bit_clear: "\<not> BIT_IS_CLR w i \<longleftrightarrow> bit w i"
  by (auto simp: BIT_IS_CLR_def bit_simps and_exp_eq_0_iff_not_bit)

text \<open>The loop over one value, from a position that no object straddles.\<close>

lemma used_value:
  assumes ok: "run_bitmap_ok (run_get_bitmap h m b)" and ob: "objects_ok h m b st sz"
    and k: "k < unat (nvalues (run_get_bitmap h m b))" and j: "j \<le> 64"
    and p: "\<forall>i<64 * k + j. st i \<longrightarrow> i + sz i \<le> 64 * k + j" and it: "\<exists>x y. iter = b\<lparr>block_off := x, size_idx := y\<rparr>"
  shows "\<exists>iter'. (\<exists>x y. iter' = b\<lparr>block_off := x, size_idx := y\<rparr>) \<and>
    used_value_loop h m (run_hdr_block_size m (heap_get_chunk_run h b)) (nbits (run_get_bitmap h m b))
      (rd64 m (rb_values (run_get_bitmap h m b) + 8 * k)) (RUN_BITS_PER_VALUE * of_nat k) cb (of_nat j) iter arg =
    Some (let (r, a) = iter_blocks cb (map (object_at b) (filter st [64 * k + j..<64 * k + 64])) arg in (if r \<noteq> 0 then 1 else 0, iter', a))"
  using j p it
proof (induction "64 - j" arbitrary: j iter arg rule: less_induct)
  case less
  let ?bm = "run_get_bitmap h m b" and ?u = "run_hdr_block_size m (heap_get_chunk_run h b)"
  let ?w = "rd64 m (rb_values ?bm + 8 * k)" and ?base = "RUN_BITS_PER_VALUE * of_nat k :: u32"
  note B = run_bitmap_okD [OF ok] and ol = used_value_loop.simps [of h m ?u "nbits ?bm" ?w ?base cb "of_nat j" iter arg]
  have uj: "unat (of_nat j :: u32) = j" using less.prems(1) by (simp add: unat_of_nat)
  have j64: "of_nat j < RUN_BITS_PER_VALUE \<longleftrightarrow> j < 64" by (simp add: word_less_nat_alt uj RUN_BITS_PER_VALUE_def)
  have pos: "?base + of_nat j = of_nat (64 * k + j)" by (simp add: RUN_BITS_PER_VALUE_def)
  have upos: "unat (?base + of_nat j) = 64 * k + j" if "j < 64"
    unfolding pos using that k B(7) by (simp only: unat_of_nat) simp
  have bitj: "bit ?w j \<longleftrightarrow> run_bit m ?bm (64 * k + j)" if "j < 64" using that by (simp add: run_bit_def)
  consider (fin) "j = 64" | (past) "j < 64" "unat (nbits ?bm) \<le> 64 * k + j"
    | (obj) "j < 64" "64 * k + j < unat (nbits ?bm)" "bit ?w j" | (free) "j < 64" "64 * k + j < unat (nbits ?bm)" "\<not> bit ?w j"
    using less.prems(1) by linarith
  then show ?case
  proof cases
    case fin
    then show ?thesis unfolding ol using less.prems(3) by (intro exI [of _ iter]) (simp add: RUN_BITS_PER_VALUE_def)
  next
    case past
    have "filter st [64 * k + j..<64 * k + 64] = []"
      using past(2) ob by (fastforce simp: filter_empty_conv objects_ok_def)
    then show ?thesis
      unfolding ol using past less.prems(3) by (intro exI [of _ iter]) (simp add: j64 word_le_nat_alt upos)
  next
    case obj
    have "64 * k + j \<in> used_units m ?bm" using obj bitj by (simp add: used_units_def)
    then obtain i where i: "st i" "i \<le> 64 * k + j" "64 * k + j < i + sz i" using ob by (auto simp: objects_ok_def)
    then have e: "i = 64 * k + j" using less.prems(2) by (metis le_eq_less_or_eq not_le)
    note O = objects_okD [OF ob i(1)]
    obtain s where s: "0 < sz i" "i mod 64 + sz i \<le> 64" "\<And>l. i < l \<Longrightarrow> l < i + sz i \<Longrightarrow> \<not> st l"
      "block_get_real_size h m (object_at b i) = Some s" "unat (CALC_SIZE_IDX ?u s) = sz i"
      using O(1) O(2) by auto
    have jn: "j + sz i \<le> 64" using s(2) obj(1) by (simp add: e)
    have n: "of_nat j + CALC_SIZE_IDX ?u s = of_nat (j + sz i)" by (simp add: s(5) [symmetric])
    have "filter st [64 * k + j..<64 * k + 64] = i # filter st [Suc i..<64 * k + 64]"
      using i(1) obj(1) by (simp add: e upt_conv_Cons)
    also have "filter st [Suc i..<64 * k + 64] = filter st [64 * k + (j + sz i)..<64 * k + 64]"
      using s(1,3) jn by (intro filter_upt_skip) (auto simp: e)
    finally have f: "filter st [64 * k + j..<64 * k + 64] = i # filter st [64 * k + (j + sz i)..<64 * k + 64]" .
    have nx: "\<forall>l<64 * k + (j + sz i). st l \<longrightarrow> l + sz l \<le> 64 * k + (j + sz i)"
    proof (intro allI impI)
      fix l assume l: "l < 64 * k + (j + sz i)" "st l"
      consider "l < i" | "l = i" | "i < l" by linarith
      then show "l + sz l \<le> 64 * k + (j + sz i)"
      proof cases
        case 1
        then show ?thesis using less.prems(2) l(2) by (force simp: e)
      next
        case 3
        then show ?thesis using s(3) [of l] l by (simp add: e)
      qed (simp add: e)
    qed
    have it: "iter\<lparr>block_off := ?base + of_nat j, size_idx := 0\<rparr> = object_at b i"
      using less.prems(3) by (auto simp: object_at_def e pos)
    obtain r a where cb: "cb (object_at b i) arg = (r, a)" by fastforce
    show ?thesis
    proof (cases "r = 0")
      case True
      have "\<exists>x y. (object_at b i)\<lparr>size_idx := CALC_SIZE_IDX ?u s\<rparr> = b\<lparr>block_off := x, size_idx := y\<rparr>"
        by (auto simp: object_at_def)
      from less.hyps [OF _ jn nx this, of a] s(1) obj(1) show ?thesis
        unfolding ol using obj True cb s(4) it by (simp add: j64 uj bit_clear word_le_nat_alt upos n f)
    next
      case False
      have "\<exists>x y. object_at b i = b\<lparr>block_off := x, size_idx := y\<rparr>" by (auto simp: object_at_def)
      with False show ?thesis
        unfolding ol using obj cb it by (intro exI [of _ "object_at b i"]) (simp add: j64 uj bit_clear word_le_nat_alt upos f)
    qed
  next
    case free
    have "\<not> st (64 * k + j)"
    proof
      assume "st (64 * k + j)"
      then have "64 * k + j \<in> used_units m ?bm" using ob by (fastforce simp: objects_ok_def)
      then show False using free bitj by (simp add: used_units_def)
    qed
    then have f: "filter st [64 * k + j..<64 * k + 64] = filter st [64 * k + Suc j..<64 * k + 64]"
      using free(1) by (intro filter_upt_skip) (auto simp: less_Suc_eq)
    have nx: "\<forall>l<64 * k + Suc j. st l \<longrightarrow> l + sz l \<le> 64 * k + Suc j"
      using less.prems(2) \<open>\<not> st (64 * k + j)\<close> by (auto simp: less_Suc_eq)
    have s: "of_nat j + 1 = (of_nat (Suc j) :: u32)" by simp
    from less.hyps [of "Suc j" iter arg] free(1) nx less.prems(3) show ?thesis
      unfolding ol using free by (simp add: j64 uj bit_clear word_le_nat_alt upos f s del: of_nat_Suc)
  qed
qed

lemma objects_in_value:
  assumes "objects_ok h m b st sz" and "st i" and "i < 64 * k"
  shows "i + sz i \<le> 64 * k"
proof -
  obtain q r where q: "i = 64 * q + r" "r < 64" "i mod 64 = r" by (rule div64E)
  have "q < k" "r + sz i \<le> 64" using objects_okD(1) [OF assms(1,2)] assms(3) q by simp_all
  then show ?thesis unfolding q(1) by simp
qed

lemma used_values:
  assumes ok: "run_bitmap_ok (run_get_bitmap h m b)" and ob: "objects_ok h m b st sz"
    and "n \<le> unat (nvalues (run_get_bitmap h m b))" and "j < 64"
    and "\<forall>i<64 * k + j. st i \<longrightarrow> i + sz i \<le> 64 * k + j" and "\<exists>x y. iter = b\<lparr>block_off := x, size_idx := y\<rparr>"
  shows "iterate_used_values h m (run_hdr_block_size m (heap_get_chunk_run h b)) (run_get_bitmap h m b) cb [k..<n] (of_nat j) iter arg =
    Some (let (r, a) = iter_blocks cb (map (object_at b) (filter st [64 * k + j..<64 * n])) arg in (if r \<noteq> 0 then 1 else 0, a))"
  using assms(4-)
proof (induction "n - k" arbitrary: k j iter arg)
  case 0
  then show ?case by simp
next
  case (Suc d)
  then have k: "k < n" by simp
  have up: "[k..<n] = k # [Suc k..<n]" using k by (simp add: upt_conv_Cons)
  obtain iter' where v: "\<exists>x y. iter' = b\<lparr>block_off := x, size_idx := y\<rparr>"
    "used_value_loop h m (run_hdr_block_size m (heap_get_chunk_run h b)) (nbits (run_get_bitmap h m b))
      (rd64 m (rb_values (run_get_bitmap h m b) + 8 * k)) (RUN_BITS_PER_VALUE * of_nat k) cb (of_nat j) iter arg =
    Some (let (r, a) = iter_blocks cb (map (object_at b) (filter st [64 * k + j..<64 * k + 64])) arg in (if r \<noteq> 0 then 1 else 0, iter', a))"
    using used_value [OF ok ob _ less_imp_le [OF Suc.prems(1)] Suc.prems(2,3), of cb arg] k assms(3) by auto
  have IH: "iterate_used_values h m (run_hdr_block_size m (heap_get_chunk_run h b)) (run_get_bitmap h m b) cb [Suc k..<n] 0 iter' a =
      Some (let (r, a) = iter_blocks cb (map (object_at b) (filter st [64 * k + 64..<64 * n])) a in (if r \<noteq> 0 then 1 else 0, a))" for a
    using Suc.hyps(1) [of "Suc k" 0 iter' a] Suc.hyps(2) v(1) objects_in_value [OF ob, of _ "Suc k"] by (simp add: add.commute)
  have "64 * Suc k \<le> 64 * n" using k by (intro mult_le_mono2) simp
  then have "[64 * k + j..<64 * n] = [64 * k + j..<64 * k + 64] @ [64 * k + 64..<64 * n]"
    using Suc.prems(1) upt_add_eq_append [of "64 * k + j" "64 * k + 64" "64 * n - (64 * k + 64)"] by simp
  then show ?case
    unfolding up using v(2) IH by (simp add: iter_blocks_append split: prod.splits)
qed

text \<open>C38. \<open>run_iterate_used\<close> visits the objects of a run in order and terminates. For a run whose used
  units are those of its objects, with the size of each in its header, the scan from an offset that no
  object straddles calls back once for each object from there on, with the unit where it starts, and
  steps over its other units; it returns 1 after the first nonzero answer and 0 otherwise.\<close>

theorem run_iterate_used_exact:
  assumes "run_bitmap_ok (run_get_bitmap h m b)" and "objects_ok h m b st sz"
    and "\<forall>i<unat (block_off b). st i \<longrightarrow> i + sz i \<le> unat (block_off b)"
  shows "run_iterate_used h m b cb arg =
    Some (let (r, a) = iter_blocks cb (map (object_at b) (filter st [unat (block_off b)..<unat (nbits (run_get_bitmap h m b))])) arg
          in (if r \<noteq> 0 then 1 else 0, a))"
proof -
  let ?bm = "run_get_bitmap h m b"
  obtain q r where q: "unat (block_off b) = 64 * q + r" "r < 64" "unat (block_off b) div 64 = q" "unat (block_off b) mod 64 = r"
    by (rule div64E)
  have "unat (block_off b div RUN_BITS_PER_VALUE) = q" "block_off b mod RUN_BITS_PER_VALUE = of_nat r"
    using q(2-4) by (simp_all add: RUN_BITS_PER_VALUE_def unat_div unat_mod word_unat_eq_iff unat_of_nat)
  moreover have "b = b\<lparr>block_off := block_off b, size_idx := size_idx b\<rparr>" by simp
  then have "\<exists>x y. b = b\<lparr>block_off := x, size_idx := y\<rparr>" by blast
  moreover have "filter st [64 * q + r..<64 * unat (nvalues ?bm)] = filter st [64 * q + r..<unat (nbits ?bm)]"
  proof (cases "64 * q + r \<le> unat (nbits ?bm)")
    case True
    have "[64 * q + r..<64 * unat (nvalues ?bm)] = [64 * q + r..<unat (nbits ?bm)] @ [unat (nbits ?bm)..<64 * unat (nvalues ?bm)]"
      using upt_add_eq_append [OF True, of "64 * unat (nvalues ?bm) - unat (nbits ?bm)"] run_bitmap_okD(3) [OF assms(1)] by simp
    moreover have "filter st [unat (nbits ?bm)..<64 * unat (nvalues ?bm)] = []"
      using objects_okD(1) [OF assms(2)] by (fastforce simp: filter_empty_conv)
    ultimately show ?thesis by simp
  next
    case False
    then show ?thesis using objects_okD(1) [OF assms(2)] by (fastforce simp: filter_empty_conv)
  qed
  ultimately show ?thesis
    using used_values [OF assms(1,2) order_refl q(2), of q b cb arg] assms(3) unfolding q(1)
    by (simp add: run_iterate_used_def Let_def)
qed

section \<open>A concrete scan\<close>

text \<open>The run of the concrete pool with its padding bits set and one object of two units.\<close>

definition sample_object_mem :: mem where
  "sample_object_mem = wr64 (wr64 (wr64 sample_run_mem 591112 (push_bit 61 (- 1))) 590864 3) 591168 256"

lemma sample_object_read:
  "a + 8 \<le> 590864 \<Longrightarrow> rd64 sample_object_mem a = rd64 sample_run_mem a"
  "a + 4 \<le> 590864 \<Longrightarrow> rd32 sample_object_mem a = rd32 sample_run_mem a"
  "a + 2 \<le> 590864 \<Longrightarrow> rd16 sample_object_mem a = rd16 sample_run_mem a"
  "rd64 sample_object_mem 591168 = 256"
  by (auto simp: sample_object_mem_def wr64_out intro!: rd64_cong rd32_cong rd16_cong)

lemma sample_object_word:
  "k < 32 \<Longrightarrow> rd64 sample_object_mem (590864 + 8 * k) = (if k = 0 then 3 else if k = 31 then push_bit 61 (- 1) else 0)"
  using sample_run_read(5) [of "590864 + 8 * k"]
  by (cases "k = 0"; cases "k = 31") (auto simp: sample_object_mem_def rd64_wr64_disjoint)

lemma sample_object_bitmap:
  "run_get_bitmap sample_heap sample_object_mem (sample_run_block off n) = \<lparr>nvalues = 32, nbits = 2045, rb_size = 304, rb_values = 590864\<rparr>"
  "run_hdr_block_size sample_object_mem 590848 = 128"
  "hdr_flags sample_object_mem 66624 = 9" "hdr_type sample_object_mem 66624 = CHUNK_TYPE_RUN"
proof -
  have "run_get_bitmap sample_heap sample_object_mem (sample_run_block off n) = run_get_bitmap sample_heap sample_run_mem (sample_run_block off n)"
    by (rule bitmap_frame) (auto simp: run_meta_def sample_places sample_object_mem_def wr64_out)
  then show "run_get_bitmap sample_heap sample_object_mem (sample_run_block off n) = \<lparr>nvalues = 32, nbits = 2045, rb_size = 304, rb_values = 590864\<rparr>"
    by (simp add: sample_bitmap)
  show "run_hdr_block_size sample_object_mem 590848 = 128" "hdr_flags sample_object_mem 66624 = 9"
    using sample_run_read(2,4) by (simp_all add: run_hdr_block_size_def hdr_flags_def sample_object_read)
  show "hdr_type sample_object_mem 66624 = CHUNK_TYPE_RUN"
    unfolding hdr_type_def by (simp add: sample_object_read) (simp add: sample_run_mem_def chunk_header_read flip: hdr_type_def)
qed

lemma sample_object_bits:
  assumes "i < 2048"
  shows "run_bit sample_object_mem (run_get_bitmap sample_heap sample_object_mem (sample_run_block off n)) i \<longleftrightarrow> i < 2 \<or> 2045 \<le> i"
proof -
  obtain q r where q: "i = 64 * q + r" "r < 64" "i div 64 = q" "i mod 64 = r" by (rule div64E)
  have "q < 32" using assms q by simp
  moreover have "bit (3 :: u64) r \<longleftrightarrow> r < 2" if "r < 64"
  proof -
    have m: "(3 :: u64) = mask 2" by (simp add: mask_eq_exp_minus_1)
    show ?thesis unfolding m bit_mask_iff using that by simp
  qed
  moreover have "bit (push_bit 61 (- 1) :: u64) r \<longleftrightarrow> 61 \<le> r" using q(2) by (simp add: bit_not_iff bit_mask_iff not_less)
  ultimately show ?thesis
    using q sample_object_word [of q] unfolding run_bit_def q(3,4) sample_object_bitmap by (auto split: if_splits)
qed

lemma sample_object_ok:
  "rebuilt sample_heap sample_object_mem (sample_run_block 0 0)"
  "run_bitmap_ok (run_get_bitmap sample_heap sample_object_mem (sample_run_block 0 0))"
  "padding_set sample_object_mem (run_get_bitmap sample_heap sample_object_mem (sample_run_block 0 0))"
  "free_units sample_object_mem (run_get_bitmap sample_heap sample_object_mem (sample_run_block 0 0)) = {2..<2045}"
  "used_units sample_object_mem (run_get_bitmap sample_heap sample_object_mem (sample_run_block 0 0)) = {0..<2}"
proof -
  let ?bm = "run_get_bitmap sample_heap sample_object_mem (sample_run_block 0 0)"
  have n: "unat (nbits ?bm) = 2045" "unat (nvalues ?bm) = 32" by (simp_all add: sample_object_bitmap)
  show "rebuilt sample_heap sample_object_mem (sample_run_block 0 0)"
    unfolding rebuilt_def memblock_header_type_def memblock_detect_type_def Let_def sample_places sample_object_bitmap
    by (simp add: sample_run_block_def CHUNK_FLAG_COMPACT_HEADER_def)
  show "run_bitmap_ok ?bm" by (simp add: run_bitmap_ok_def sample_object_bitmap)
  show "padding_set sample_object_mem ?bm" unfolding padding_set_def n using sample_object_bits by simp
  show "free_units sample_object_mem ?bm = {2..<2045}" unfolding free_units_def n using sample_object_bits by auto
  show "used_units sample_object_mem ?bm = {0..<2}" unfolding used_units_def n using sample_object_bits by auto
qed

theorem run_calc_free_exact_witness:
  "\<exists>free mx. run_calc_free sample_heap sample_object_mem (sample_run_block 0 0) (0, 0) = (free, mx) \<and> unat free = 2043"
proof -
  obtain free mx where r: "run_calc_free sample_heap sample_object_mem (sample_run_block 0 0) (0, 0) = (free, mx)" by fastforce
  then show ?thesis using run_calc_free_exact [OF sample_object_ok(2,3) r] sample_object_ok(4) by simp
qed

theorem run_iterate_free_exact_witness:
  "\<exists>n. run_iterate_free sample_heap sample_object_mem (sample_run_block 0 0) (\<lambda>c n. (0, n + unat (size_idx c))) 0 = Some n \<and>
     (\<Union>c\<in>set (free_blocks sample_heap sample_object_mem (sample_run_block 0 0)). block_units c) = {2..<2045}"
  using run_iterate_free_exact [OF sample_object_ok(1-3), of "\<lambda>c n. (0, n + unat (size_idx c))" 0] sample_object_ok(4) by simp

theorem run_iterate_used_exact_witness:
  "run_iterate_used sample_heap sample_object_mem (sample_run_block 0 0) (\<lambda>c xs. (0, xs @ [unat (block_off c)])) [] = Some (0, [0])"
proof -
  let ?b = "sample_run_block 0 0"
  have p: "mops_get_real_data sample_heap sample_object_mem (object_at ?b 0) = Some 591168"
  proof -
    have "object_at ?b 0 = ?b" "mb_type ?b = MEMORY_BLOCK_RUN" "block_off ?b = 0"
      by (simp_all add: object_at_def sample_run_block_def)
    then show ?thesis
      using sample_object_bitmap(1) [of 0 0] sample_object_bitmap(3) sample_places [of 0 0]
      by (simp add: mops_get_real_data_def run_get_real_data_def run_get_data_start_def Let_def CHUNK_FLAG_ALIGNED_def run_content_def)
  qed
  then have "block_get_real_size sample_heap sample_object_mem (object_at ?b 0) = Some 256"
    by (simp add: block_get_real_size_def header_get_size_def)
      (simp add: object_at_def sample_run_block_def sample_object_read ALLOC_HDR_FLAGS_MASK_def ALLOC_HDR_SIZE_SHIFT_def)
  moreover have two: "{0..<2 :: nat} = {0..<Suc (Suc 0)}" by auto
  ultimately have "objects_ok sample_heap sample_object_mem ?b (\<lambda>i. i = 0) (\<lambda>_. 2)"
    using sample_object_ok(5) two unfolding objects_ok_def sample_places
    by (simp add: CALC_SIZE_IDX_def sample_object_bitmap)
  note run_iterate_used_exact [OF sample_object_ok(2) this, of "\<lambda>c xs. (0, xs @ [unat (block_off c)])" "[]"]
  moreover have "filter (\<lambda>i. i = 0) [0..<2045] = [0 :: nat]" by (subst upt_conv_Cons) (auto simp: filter_empty_conv)
  moreover have "unat (block_off ?b) = 0" "unat (block_off (object_at ?b 0)) = 0" by (simp_all add: object_at_def sample_run_block_def)
  ultimately show ?thesis by (simp add: sample_object_bitmap)
qed
end
