(* ===== verification/Memblock_Blocks.thy ===== *)
theory Memblock_Blocks
  imports Memblock_Scan
begin

text \<open>Blocks, offsets and headers: \<open>memblock_from_offset\<close> is the inverse of taking the offset of an
  object in a run, and an object's header reads back as it was written.\<close>

unbundle bit_operations_syntax

section \<open>Blocks and offsets\<close>

text \<open>A run in its zone: the first chunk header says so, the others point back to it.\<close>

definition run_headers :: "palloc_heap \<Rightarrow> mem \<Rightarrow> u32 \<Rightarrow> u32 \<Rightarrow> nat \<Rightarrow> bool" where
  "run_headers h m z c n \<longleftrightarrow> unat c + n \<le> MAX_CHUNK \<and> hdr_type m (GET_CHUNK_HDR h z c) = CHUNK_TYPE_RUN \<and>
     (\<forall>i. 0 < i \<longrightarrow> i < n \<longrightarrow> hdr_type m (GET_CHUNK_HDR h z (c + of_nat i)) = CHUNK_TYPE_RUN_DATA \<and>
        hdr_size_idx m (GET_CHUNK_HDR h z (c + of_nat i)) = of_nat i)"

lemma word_sub_of_nat: "b \<le> a \<Longrightarrow> of_nat a - of_nat b = (of_nat (a - b) :: 'a::len word)"
  by simp

lemma of_nat_div_u64: "a < 2 ^ 64 \<Longrightarrow> (of_nat a :: u64) div k = of_nat (a div unat k)"
  by (simp add: word_unat_eq_iff unat_div unat_of_nat_u64 le_less_trans [OF div_le_dividend])

lemma ucast_u64_u32 [simp]: "ucast (ucast (z :: u32) :: u64) = z"
  using unat_lt_u32 [of z] by (simp add: word_unat_eq_iff unat_u64_u32)

text \<open>The first steps of \<open>memblock_from_offset\<close>: zone and chunk of an address in a zone.\<close>

lemma zone_of_offset:
  assumes p: "ZID_TO_ZONE h z + 524288 \<le> p" "p < ZID_TO_ZONE h z + unat ZONE_MAX_SIZE" and "p < 2 ^ 63"
  defines "off \<equiv> HEAP_PTR_TO_OFF h p - HEAP_PTR_TO_OFF h (zone0 h)"
  shows "ucast (off div ZONE_MAX_SIZE) = z"
    and "off - (ZONE_MAX_SIZE * ucast z + SIZEOF_ZONE) = of_nat (p - (ZID_TO_ZONE h z + 524288))"
proof -
  let ?Z = "unat ZONE_MAX_SIZE"
  have z0: "ZID_TO_ZONE h z = zone0 h + ?Z * unat z" by (simp add: ZID_TO_ZONE_def)
  have "zone0 h \<le> p" using p(1) z0 by linarith
  moreover have "off = of_nat p - of_nat (zone0 h)" unfolding off_def HEAP_PTR_TO_OFF_def by simp
  ultimately have off: "off = of_nat (p - zone0 h)" using word_sub_of_nat by metis
  have lt: "p - zone0 h < 2 ^ 64" using assms(3) by simp
  have "(p - zone0 h) div ?Z = unat z"
    using p unfolding z0 by (intro div_nat_eqI) (simp_all add: mult.commute)
  then have "off div ZONE_MAX_SIZE = of_nat (unat z)" unfolding off using of_nat_div_u64 [OF lt, of ZONE_MAX_SIZE] by simp
  then show "ucast (off div ZONE_MAX_SIZE) = z" by simp
  have "(of_nat (?Z * unat z + 524288) :: u64) = ZONE_MAX_SIZE * ucast z + SIZEOF_ZONE"
  proof -
    have "(of_nat (?Z * unat z + 524288) :: u64) = of_nat ?Z * of_nat (unat z) + of_nat (unat SIZEOF_ZONE)"
      unfolding zone_sizes(1) by (simp only: of_nat_add of_nat_mult)
    then show ?thesis by simp
  qed
  moreover have "?Z * unat z + 524288 \<le> p - zone0 h" "p - zone0 h - (?Z * unat z + 524288) = p - (ZID_TO_ZONE h z + 524288)"
    using p(1) unfolding z0 by linarith+
  ultimately show "off - (ZONE_MAX_SIZE * ucast z + SIZEOF_ZONE) = of_nat (p - (ZID_TO_ZONE h z + 524288))"
    unfolding off by (metis word_sub_of_nat)
qed

lemma chunk_place: "GET_CHUNK h z c = ZID_TO_ZONE h z + 524288 + 262144 * unat c"
  by (simp add: GET_CHUNK_def zone_sizes)

text \<open>The chunk that the search for the head of the run ends with.\<close>

lemma chunk_of_offset:
  assumes hd: "run_headers h m z c n" and p: "GET_CHUNK h z c \<le> p" "p < GET_CHUNK h z c + 262144 * n" and "p < 2 ^ 63"
  defines "d \<equiv> ucast ((of_nat (p - (ZID_TO_ZONE h z + 524288)) :: u64) div CHUNKSIZE) :: u32"
  shows "(if hdr_type m (GET_CHUNK_HDR h z d) = CHUNK_TYPE_RUN_DATA then d - hdr_size_idx m (GET_CHUNK_HDR h z d) else d) = c"
proof -
  define i where "i = (p - GET_CHUNK h z c) div 262144"
  have e: "p - (ZID_TO_ZONE h z + 524288) = 262144 * unat c + (p - GET_CHUNK h z c)" using p(1) unfolding chunk_place by linarith
  have i: "i < n" using p unfolding i_def by (intro less_mult_imp_div_less) (simp add: mult.commute)
  have ci: "unat c + i < 65528" using hd i by (simp add: run_headers_def MAX_CHUNK_def)
  have "(p - (ZID_TO_ZONE h z + 524288)) div 262144 = unat c + i" unfolding e i_def by simp
  moreover have "p - (ZID_TO_ZONE h z + 524288) < 2 ^ 64" using assms(4) by simp
  ultimately have "(of_nat (p - (ZID_TO_ZONE h z + 524288)) :: u64) div CHUNKSIZE = of_nat (unat c + i)"
    using of_nat_div_u64 [of "p - (ZID_TO_ZONE h z + 524288)" CHUNKSIZE] unfolding zone_sizes by presburger
  then have "unat d = unat c + i"
    unfolding d_def using ci by (subst unat_u64_u32) (simp_all add: unat_of_nat_u64 del: of_nat_add)
  then have d: "d = c + of_nat i" using ci by (simp add: word_unat_eq_iff unat_word_ariths unat_of_nat)
  show ?thesis
  proof (cases "i = 0")
    case True
    then show ?thesis using hd by (simp add: d run_headers_def CHUNK_TYPE_RUN_def CHUNK_TYPE_RUN_DATA_def)
  next
    case False
    then show ?thesis using hd i by (simp add: d run_headers_def)
  qed
qed

lemma rebuilt_header_size: "rebuilt h m b \<Longrightarrow> \<exists>hs. header_type_to_size (mb_header_type b) = Some hs \<and> unat hs \<le> 64"
  by (auto simp: rebuilt_def memblock_header_type_def Let_def)

lemma from_offset_run:
  assumes hd: "run_headers h m (zone_id b) (chunk_id b) n" and rb: "rebuilt h m b" and ty: "mb_type b = MEMORY_BLOCK_RUN"
    and D: "run_get_data_start h m b = Some D" "heap_get_chunk_run h b + 16 \<le> D"
    and u: "0 < unat (run_block_size h m b)" and mul: "unat (run_block_size h m b) * unat (block_off b) < 2 ^ 63"
    and up: "block_get_user_data h m b = Some p" and pl: "p < heap_get_chunk_run h b + 262144 * n" and p63: "p < 2 ^ 63"
  defines "B \<equiv> b\<lparr>block_off := of_nat (unat (block_off b) mod 65536), size_idx := 0\<rparr>"
  shows "memblock_from_offset_opt h m (HEAP_PTR_TO_OFF h p) with_size =
    (if with_size then map_option (\<lambda>sz. B\<lparr>size_idx := CALC_SIZE_IDX (run_block_size h m b) sz\<rparr>) (header_get_size h m B) else Some B)"
proof -
  let ?z = "zone_id b" and ?c = "chunk_id b" and ?R = "heap_get_chunk_run h b" and ?u = "run_block_size h m b"
  obtain hs where hs: "header_type_to_size (mb_header_type b) = Some hs" "unat hs \<le> 64" using rebuilt_header_size [OF rb] by blast
  have um: "unat (?u * ucast (block_off b)) = unat ?u * unat (block_off b)"
    using mul by (subst unat_mult_lem [THEN iffD1]) simp_all
  have p: "p = D + unat ?u * unat (block_off b) + unat hs"
    using up D(1) hs(1) ty um by (simp add: block_get_user_data_def mops_get_real_data_def run_get_real_data_def run_block_size_def)
  have R: "?R = GET_CHUNK h ?z ?c" by (simp add: heap_get_chunk_run_def)
  have n: "unat ?c + n \<le> 65528" using hd by (simp add: run_headers_def MAX_CHUNK_def)
  have zp: "ZID_TO_ZONE h ?z + 524288 \<le> p" "p < ZID_TO_ZONE h ?z + unat ZONE_MAX_SIZE"
    using D(2) p pl n unfolding R chunk_place zone_sizes by linarith+
  note Z = zone_of_offset [OF zp p63]
  have Rp: "?R \<le> p" using D(2) p by linarith
  note C = chunk_of_offset [OF hd Rp [unfolded R] pl [unfolded R] p63]
  define b1 where "b1 = MEMORY_BLOCK_NONE\<lparr>chunk_id := ?c, zone_id := ?z, mb_header_type := mb_header_type b, mb_type := MEMORY_BLOCK_RUN\<rparr>"
  have ht: "memblock_header_type h m (MEMORY_BLOCK_NONE\<lparr>chunk_id := ?c, zone_id := ?z\<rparr>) = mb_header_type b"
    using rb by (simp add: rebuilt_def memblock_header_type_def heap_get_chunk_hdr_def)
  have same: "heap_get_chunk_run h b1 = ?R" "run_get_data_start h m b1 = Some D" "mops_block_size h m b1 = Some ?u"
    using D(1) by (simp_all add: b1_def MEMORY_BLOCK_NONE_def Let_def heap_get_chunk_run_def run_get_data_start_def run_get_bitmap_def heap_get_chunk_hdr_def
        mops_block_size_def run_block_size_def cong: if_cong)
  have o2: "(of_nat (p - (ZID_TO_ZONE h ?z + 524288)) :: u64) - CHUNKSIZE * ucast ?c = of_nat (p - ?R)"
  proof -
    have "CHUNKSIZE * ucast ?c = (of_nat (262144 * unat ?c) :: u64)"
      unfolding zone_sizes(2) [symmetric] by simp
    moreover have "262144 * unat ?c \<le> p - (ZID_TO_ZONE h ?z + 524288)"
      "p - (ZID_TO_ZONE h ?z + 524288) - 262144 * unat ?c = p - ?R" using Rp unfolding R chunk_place by linarith+
    ultimately show ?thesis by (metis word_sub_of_nat)
  qed
  have o3: "(of_nat (p - ?R) :: u64) - hs = of_nat (D - ?R + unat ?u * unat (block_off b))"
  proof -
    have "hs = of_nat (unat hs)" by simp
    moreover have "unat hs \<le> p - ?R" "p - ?R - unat hs = D - ?R + unat ?u * unat (block_off b)" using p D(2) by linarith+
    ultimately show ?thesis by (metis word_sub_of_nat)
  qed
  have nz: "(of_nat (D - ?R + unat ?u * unat (block_off b)) :: u64) \<noteq> 0"
  proof
    assume "(of_nat (D - ?R + unat ?u * unat (block_off b)) :: u64) = 0"
    then have "unat (of_nat (D - ?R + unat ?u * unat (block_off b)) :: u64) = 0" by (simp only: unat_0)
    moreover have "D - ?R + unat ?u * unat (block_off b) \<le> p" using p by linarith
    then have "D - ?R + unat ?u * unat (block_off b) < 2 ^ 64" using p63 by simp
    then have "unat (of_nat (D - ?R + unat ?u * unat (block_off b)) :: u64) = D - ?R + unat ?u * unat (block_off b)"
      by (rule unat_of_nat_u64)
    ultimately show False using D(2) by linarith
  qed
  have o4: "(of_nat (D - ?R + unat ?u * unat (block_off b)) :: u64) - (of_nat D - of_nat (?R + 16)) - RUN_BASE_METADATA_SIZE =
      of_nat (unat ?u * unat (block_off b))"
  proof -
    have "(of_nat D :: u64) - of_nat (?R + 16) = of_nat (D - (?R + 16))" using D(2) by (intro word_sub_of_nat) simp
    moreover have "(of_nat (D - ?R + unat ?u * unat (block_off b)) :: u64) = of_nat (D - (?R + 16)) + 16 + of_nat (unat ?u * unat (block_off b))"
    proof -
      have "D - ?R + unat ?u * unat (block_off b) = D - (?R + 16) + 16 + unat ?u * unat (block_off b)" using D(2) by linarith
      then show ?thesis by (simp only: of_nat_add of_nat_numeral)
    qed
    ultimately show ?thesis by (simp add: RUN_BASE_METADATA_SIZE_def)
  qed
  have q: "(of_nat (unat ?u * unat (block_off b)) :: u64) div ?u = of_nat (unat (block_off b))"
    using of_nat_div_u64 [of "unat ?u * unat (block_off b)" ?u] mul u by (simp del: of_nat_mult)
  have cast: "ucast (ucast (of_nat x :: u64) :: u16) = (of_nat (x mod 65536) :: u32)" for x
    by (simp add: word_unat_eq_iff unsigned_ucast_eq unsigned_of_nat take_bit_nat_def mod_mod_cancel)
  have fin: "b1\<lparr>block_off := of_nat (unat (block_off b) mod 65536)\<rparr> = B"
    using ty by (cases b) (simp add: B_def b1_def MEMORY_BLOCK_NONE_def)
  define X where "X = (of_nat (D - ?R + unat ?u * unat (block_off b)) :: u64)"
  have ne: "(of_nat (p - ?R) :: u64) \<noteq> hs" using nz o3 by auto
  have dd: "run_get_data_offset h m b1 = Some (of_nat D - of_nat (?R + 16))"
    by (simp add: run_get_data_offset_def same run_content_def)
  let ?b = "b1\<lparr>block_off := ucast (ucast ((X - (of_nat D - of_nat (?R + 16)) - RUN_BASE_METADATA_SIZE) div ?u) :: u16)\<rparr>"
  have fb: "?b = B" unfolding X_def o4 q cast fin ..
  have "memblock_from_offset_opt h m (HEAP_PTR_TO_OFF h p) with_size =
      (if with_size then map_option (\<lambda>sz. ?b\<lparr>size_idx := CALC_SIZE_IDX ?u sz\<rparr>) (header_get_size h m ?b) else Some (?b\<lparr>size_idx := 0\<rparr>))"
    unfolding memblock_from_offset_opt_def Let_def Z C o2
    using ne nz [folded X_def] same(3) hs(1) dd by (simp add: ht o3 [folded X_def] b1_def [symmetric])
  then show ?thesis unfolding fb by (simp add: B_def)
qed

section \<open>Headers of objects\<close>

lemma legacy_header_read:
  "rd64 (store m p (legacy_header_bytes junk sz extra flags)) (p + 8) = sz"
  "rd64 (store m p (legacy_header_bytes junk sz extra flags)) (p + 48) = push_bit 48 (ucast flags)"
  "rd64 (store m p (legacy_header_bytes junk sz extra flags)) (p + 56) = extra"
  by (rule rd64_store_inside; simp add: legacy_header_bytes_def ALLOC_HDR_SIZE_SHIFT_def)+

lemma compact_header_read:
  "rd64 (store m p (compact_header_bytes junk q sz extra flags)) p = sz OR push_bit 48 (ucast flags)"
  "rd64 (store m p (compact_header_bytes junk q sz extra flags)) (p + 8) = extra"
  by (rule rd64_store_inside; simp add: compact_header_bytes_def ALLOC_HDR_SIZE_SHIFT_def)+

lemma header_length: "length (legacy_header_bytes junk sz extra flags) = 64" "length (compact_header_bytes junk' q sz' extra' flags') \<le> 64"
  by (simp_all add: legacy_header_bytes_def compact_header_bytes_def)

lemma size_flags:
  assumes "unat sz < 2 ^ 48"
  shows "(sz OR push_bit 48 (ucast (f :: u16))) AND ALLOC_HDR_FLAGS_MASK = sz"
    and "ucast (drop_bit 48 (sz OR push_bit 48 (ucast (f :: u16) :: u64))) = f" and "ucast (drop_bit 48 (push_bit 48 (ucast f :: u64))) = f"
proof -
  have hi: "\<not> bit sz n" if "48 \<le> n" for n
  proof -
    have "sz = take_bit 48 sz" using assms by (simp add: word_unat_eq_iff unsigned_take_bit_eq take_bit_nat_eq_self)
    then show ?thesis using that by (metis bit_take_bit_iff not_le)
  qed
  then have lo: "n < 48" if "bit sz n" for n using that not_less by blast
  have mask: "ALLOC_HDR_FLAGS_MASK = mask 48" by (simp add: ALLOC_HDR_FLAGS_MASK_def ALLOC_HDR_SIZE_SHIFT_def mask_eq_exp_minus_1)
  show "(sz OR push_bit 48 (ucast f)) AND ALLOC_HDR_FLAGS_MASK = sz"
    unfolding mask by (rule bit_word_eqI) (auto simp: bit_simps dest: lo)
  show "ucast (drop_bit 48 (sz OR push_bit 48 (ucast f :: u64))) = f" "ucast (drop_bit 48 (push_bit 48 (ucast f :: u64))) = f"
    by (rule bit_word_eqI; use hi in \<open>auto simp: bit_simps\<close>)+
qed

text \<open>Writing the header of an object leaves the metadata of its run, and the size, the extra field and
  the flags are read back.\<close>

lemma header_write_spec:
  assumes w: "header_write junk h m b sz extra flags = Some m'" and real: "mops_get_real_data h m b = Some q"
    and t: "mb_header_type b = HEADER_LEGACY \<or> mb_header_type b = HEADER_COMPACT" and sz: "unat sz < 2 ^ 48"
  shows "\<And>a. a < q \<or> q + 64 \<le> a \<Longrightarrow> m' a = m a"
    and "mops_get_real_data h m' b = Some q \<Longrightarrow> header_get_size h m' b = Some sz"
    and "mops_get_real_data h m' b = Some q \<Longrightarrow> header_get_extra h m' b = Some extra"
    and "mops_get_real_data h m' b = Some q \<Longrightarrow> header_get_flags h m' b = Some flags"
proof -
  have m': "m' = store m q (if mb_header_type b = HEADER_LEGACY then legacy_header_bytes junk sz extra flags
      else compact_header_bytes junk q sz extra flags)"
    using w real t by (auto simp: header_write_def)
  show "m' a = m a" if "a < q \<or> q + 64 \<le> a" for a
    using that header_length(1) [of junk sz extra flags] header_length(2) [of junk q sz extra flags]
    unfolding m' by (intro store_out) (auto split: if_splits)
  assume r: "mops_get_real_data h m' b = Some q"
  show "header_get_size h m' b = Some sz" "header_get_extra h m' b = Some extra" "header_get_flags h m' b = Some flags"
    using t r size_flags(2) [OF sz, of flags] unfolding header_get_size_def header_get_extra_def header_get_flags_def m'
    by (auto simp: legacy_header_read compact_header_read size_flags [OF sz] ALLOC_HDR_SIZE_SHIFT_def)
qed

text \<open>An object of a run: its block, with the runtime state filled in, and the address of its data.\<close>

definition run_object :: "palloc_heap \<Rightarrow> mem \<Rightarrow> rt_block \<Rightarrow> addr \<Rightarrow> bool" where
  "run_object h m b p \<longleftrightarrow> run_headers h m (zone_id b) (chunk_id b) (run_chunks h m b) \<and> rebuilt h m b \<and> mb_type b = MEMORY_BLOCK_RUN \<and>
     0 < run_chunks h m b \<and> (\<exists>D. run_get_data_start h m b = Some D \<and> heap_get_chunk_run h b + 16 \<le> D) \<and> 0 < unat (run_block_size h m b) \<and>
     unat (run_block_size h m b) * unat (block_off b) < 2 ^ 63 \<and>
     block_get_user_data h m b = Some p \<and> p < heap_get_chunk_run h b + 262144 * run_chunks h m b \<and> p < 2 ^ 63"

lemma chunk_hdr_low: "unat c < 65528 \<Longrightarrow> GET_CHUNK_HDR h z c + 8 \<le> ZID_TO_ZONE h z + 524288"
  by (simp add: GET_CHUNK_HDR_def)

text \<open>Memories that agree on the chunk headers of the zone and on the header of the run have the same
  objects, if the data pointers agree.\<close>

lemma run_object_frame:
  assumes o: "run_object h m b p" and eq: "\<And>a. a < heap_get_chunk_run h b + 16 \<Longrightarrow> m' a = m a"
  shows "run_object h m' b p" and "mops_get_real_data h m' b = mops_get_real_data h m b" and "run_block_size h m' b = run_block_size h m b"
proof -
  let ?R = "heap_get_chunk_run h b"
  note O = o [unfolded run_object_def]
  have R: "ZID_TO_ZONE h (zone_id b) + 524288 \<le> ?R" by (simp add: heap_get_chunk_run_def chunk_place)
  have n: "unat (chunk_id b) + run_chunks h m b \<le> 65528" "0 < run_chunks h m b"
    using O by (auto simp: run_headers_def MAX_CHUNK_def)
  have hd: "hdr_type m' (GET_CHUNK_HDR h (zone_id b) c) = hdr_type m (GET_CHUNK_HDR h (zone_id b) c)"
    "hdr_flags m' (GET_CHUNK_HDR h (zone_id b) c) = hdr_flags m (GET_CHUNK_HDR h (zone_id b) c)"
    "hdr_size_idx m' (GET_CHUNK_HDR h (zone_id b) c) = hdr_size_idx m (GET_CHUNK_HDR h (zone_id b) c)" if "unat c < 65528" for c
    using chunk_hdr_low [OF that, of h "zone_id b"] R unfolding hdr_type_def hdr_flags_def hdr_size_idx_def
    by (auto intro!: rd16_cong rd32_cong eq)
  have c: "unat (chunk_id b) < 65528" using n by simp
  have ci: "unat (chunk_id b + of_nat i) < 65528" if "i < run_chunks h m b" for i
    using that n by (simp add: unat_word_ariths unat_of_nat)
  have rh: "run_hdr_block_size m' ?R = run_hdr_block_size m ?R" "run_hdr_alignment m' ?R = run_hdr_alignment m ?R"
    unfolding run_hdr_block_size_def run_hdr_alignment_def by (auto intro!: rd64_cong eq)
  have hb: "heap_get_chunk_hdr h b = GET_CHUNK_HDR h (zone_id b) (chunk_id b)" by (simp add: heap_get_chunk_hdr_def)
  have bm: "run_get_bitmap h m' b = run_get_bitmap h m b" "run_chunks h m' b = run_chunks h m b"
    by (simp_all add: run_get_bitmap_def run_chunks_def Let_def hb hd [OF c] rh)
  have st: "run_get_data_start h m' b = run_get_data_start h m b"
    by (simp add: run_get_data_start_def Let_def hb hd [OF c] rh bm)
  show rb: "run_block_size h m' b = run_block_size h m b" by (simp add: run_block_size_def rh)
  show rd: "mops_get_real_data h m' b = mops_get_real_data h m b"
    using O by (simp add: mops_get_real_data_def run_get_real_data_def st rh)
  have "rebuilt h m' b" using O by (simp add: rebuilt_def memblock_header_type_def memblock_detect_type_def Let_def hb hd [OF c])
  moreover have "run_headers h m' (zone_id b) (chunk_id b) (run_chunks h m b)" using O ci c by (simp add: run_headers_def hd)
  ultimately show "run_object h m' b p" using O by (simp add: run_object_def st rb bm block_get_user_data_def rd)
qed

lemma header_size_fields:
  "header_get_size h m (b\<lparr>size_idx := x\<rparr>) = header_get_size h m b" "mops_get_real_data h m (b\<lparr>size_idx := x\<rparr>) = mops_get_real_data h m b"
  by (simp_all add: header_get_size_def mops_get_real_data_def mops_block_size_def run_block_size_def heap_get_chunk_run_def
      huge_block_size_def huge_get_real_data_def heap_get_chunk_def run_get_real_data_def run_get_data_start_def run_get_bitmap_def
      heap_get_chunk_hdr_def Let_def cong: header_type.case_cong memory_block_type.case_cong)

lemma calc_size_idx:
  assumes "0 < unat u" and "0 < unat n" and "unat u * unat n < 2 ^ 64"
  shows "CALC_SIZE_IDX u (u * ucast (n :: u32)) = n"
proof -
  let ?p = "u * ucast n"
  have p: "unat ?p = unat u * unat n" using assms(3) by (subst unat_mult_lem [THEN iffD1]) simp_all
  then have nz: "?p \<noteq> 0" using assms(1,2) by (auto simp: word_unat_eq_iff)
  have "unat (?p - 1) = unat u * unat n - 1" using nz p by (simp add: unat_minus_one)
  moreover have "(unat u * unat n - 1) div unat u = unat n - 1"
    using assms(1,2) by (intro div_nat_eqI) (auto simp: diff_mult_distrib2)
  ultimately have d: "unat ((?p - 1) div u) = unat n - 1" by (simp add: unat_div)
  have "unat ((?p - 1) div u + 1) = unat n"
    using d assms(2) unat_lt_u32 [of n] by (simp add: unat_word_ariths)
  then show ?thesis
    using nz unat_lt_u32 [of n] by (simp add: CALC_SIZE_IDX_def word_unat_eq_iff unat_u64_u32)
qed

text \<open>C35. An object is found again from its offset. Writing the header of a block of a run, legacy or
  compact, and then resolving the offset of the object's data with \<open>memblock_from_offset\<close> gives the
  block back, its chunk, position and size, also when the data is in a later chunk of the run; the
  header has the extra field and the flags. The block must be among the first 65536 of its run.\<close>

theorem memblock_offset_roundtrip:
  assumes "run_object h m b p" and "unat (block_off b) < 65536"
    and "mb_header_type b = HEADER_LEGACY \<or> mb_header_type b = HEADER_COMPACT"
    and "0 < unat (size_idx b)" and "unat (run_block_size h m b) * unat (size_idx b) < 2 ^ 48"
    and "block_write_header junk h m b extra flags = Some m'"
  shows "memblock_from_offset h m' (HEAP_PTR_TO_OFF h p) = Some b \<and>
    header_get_extra h m' b = Some extra \<and> header_get_flags h m' b = Some flags"
proof -
  let ?u = "run_block_size h m b" and ?R = "heap_get_chunk_run h b"
  note O = assms(1) [unfolded run_object_def]
  obtain D where D: "run_get_data_start h m b = Some D" "?R + 16 \<le> D" using O by blast
  obtain q where q: "mops_get_real_data h m b = Some q" "?R + 16 \<le> q"
    using O D by (auto simp: mops_get_real_data_def run_get_real_data_def)
  let ?sz = "?u * ucast (size_idx b)"
  have sz: "unat ?sz = unat ?u * unat (size_idx b)" using assms(5) by (subst unat_mult_lem [THEN iffD1]) simp_all
  have "block_get_real_size h m b = Some ?sz"
    using assms(4) O by (auto simp: block_get_real_size_def mops_block_size_def)
  then have w: "header_write junk h m b ?sz extra flags = Some m'" using assms(6) by (simp add: block_write_header_def)
  note W = header_write_spec [OF w q(1) assms(3)]
  have sz48: "unat ?sz < 2 ^ 48" using sz assms(5) by simp
  have fr: "m' a = m a" if "a < ?R + 16" for a using W(1) [OF sz48] that q(2) by simp
  note F = run_object_frame [OF assms(1) fr]
  note O' = F(1) [unfolded run_object_def]
  have real: "mops_get_real_data h m' b = Some q" using F(2) q(1) by simp
  obtain D' where D': "run_get_data_start h m' b = Some D'" "?R + 16 \<le> D'" using O' by blast
  have bo: "b\<lparr>block_off := of_nat (unat (block_off b) mod 65536), size_idx := 0\<rparr> = b\<lparr>size_idx := 0\<rparr>"
    using assms(2) by simp
  have "memblock_from_offset_opt h m' (HEAP_PTR_TO_OFF h p) True =
      map_option (\<lambda>sz. b\<lparr>size_idx := CALC_SIZE_IDX (run_block_size h m' b) sz\<rparr>) (header_get_size h m' (b\<lparr>size_idx := 0\<rparr>))"
    using from_offset_run [of h m' b "run_chunks h m' b" D' p True] O' D' unfolding bo by simp
  also have "header_get_size h m' (b\<lparr>size_idx := 0\<rparr>) = Some ?sz" using W(2) [OF sz48 real] by (simp add: header_size_fields)
  finally have "memblock_from_offset h m' (HEAP_PTR_TO_OFF h p) = Some (b\<lparr>size_idx := CALC_SIZE_IDX ?u ?sz\<rparr>)"
    by (simp add: memblock_from_offset_def F(3))
  moreover have "CALC_SIZE_IDX ?u ?sz = size_idx b" using O assms(4,5) by (intro calc_size_idx) auto
  ultimately show ?thesis using W(3,4) [OF sz48 real] by simp
qed

text \<open>Blocks past the first 65536 are not: the position is cut to sixteen bits.\<close>

lemma memblock_offset_truncated:
  assumes "run_object h m b p" and "65536 \<le> unat (block_off b)"
  shows "\<exists>c. memblock_from_offset_opt h m (HEAP_PTR_TO_OFF h p) False = Some c \<and> unat (block_off c) = unat (block_off b) mod 65536 \<and>
    block_off c \<noteq> block_off b"
proof -
  note O = assms(1) [unfolded run_object_def]
  obtain D where D: "run_get_data_start h m b = Some D" "heap_get_chunk_run h b + 16 \<le> D" using O by blast
  let ?c = "b\<lparr>block_off := of_nat (unat (block_off b) mod 65536), size_idx := 0\<rparr>"
  have "memblock_from_offset_opt h m (HEAP_PTR_TO_OFF h p) False = Some ?c"
    using from_offset_run [of h m b "run_chunks h m b" D p False] O D by simp
  moreover have o: "unat (block_off ?c) = unat (block_off b) mod 65536" by (simp add: unat_of_nat)
  moreover have "unat (block_off ?c) < 65536" unfolding o by simp
  then have "block_off ?c \<noteq> block_off b" using assms(2) by (metis not_le)
  ultimately show ?thesis by blast
qed

section \<open>A concrete object\<close>

text \<open>The object of the concrete run: a compact header at the start of the data, then the user's bytes.\<close>

lemma sample_object_data: "run_get_data_start sample_heap sample_object_mem (sample_run_block 0 2) = Some 591168"
  using sample_object_bitmap(1) [of 0 2] sample_object_bitmap(3) sample_places [of 0 2]
  by (simp add: run_get_data_start_def Let_def CHUNK_FLAG_ALIGNED_def run_content_def)

lemma sample_object_run: "run_object sample_heap sample_object_mem (sample_run_block 0 2) 591184"
proof -
  let ?b = "sample_run_block 0 2"
  have "hdr_size_idx sample_object_mem 66624 = 1"
    using sample_run_read(3) by (simp add: hdr_size_idx_def sample_object_read)
  then have n: "run_chunks sample_heap sample_object_mem ?b = 1" by (simp add: run_chunks_def sample_places)
  have u: "run_block_size sample_heap sample_object_mem ?b = 128"
    by (simp add: run_block_size_def sample_places sample_object_bitmap)
  have f: "chunk_id ?b = 0" "zone_id ?b = 0" "mb_type ?b = MEMORY_BLOCK_RUN" "block_off ?b = 0" "mb_header_type ?b = HEADER_COMPACT"
    by (simp_all add: sample_run_block_def)
  have hd: "GET_CHUNK_HDR sample_heap 0 0 = 66624" using sample_places(1) [of 0 2] f by (simp add: heap_get_chunk_hdr_def)
  have "rebuilt sample_heap sample_object_mem ?b"
    unfolding rebuilt_def memblock_header_type_def memblock_detect_type_def Let_def sample_places sample_object_bitmap
    by (simp add: sample_run_block_def CHUNK_FLAG_COMPACT_HEADER_def)
  moreover have "run_headers sample_heap sample_object_mem 0 0 1"
    by (simp add: run_headers_def MAX_CHUNK_def hd sample_object_bitmap)
  moreover have "block_get_user_data sample_heap sample_object_mem ?b = Some 591184"
    by (simp add: block_get_user_data_def mops_get_real_data_def run_get_real_data_def sample_object_data f)
  ultimately show ?thesis by (simp add: run_object_def n u f sample_places sample_object_data)
qed

theorem memblock_offset_roundtrip_witness:
  "\<exists>m'. block_write_header (\<lambda>_. 0) sample_heap sample_object_mem (sample_run_block 0 2) 42 5 = Some m' \<and>
     memblock_from_offset sample_heap m' 591184 = Some (sample_run_block 0 2) \<and>
     header_get_extra sample_heap m' (sample_run_block 0 2) = Some 42"
proof -
  let ?b = "sample_run_block 0 2"
  have f: "unat (block_off ?b) < 65536" "mb_header_type ?b = HEADER_LEGACY \<or> mb_header_type ?b = HEADER_COMPACT"
    "0 < unat (size_idx ?b)" "unat (run_block_size sample_heap sample_object_mem ?b) * unat (size_idx ?b) < 2 ^ 48"
    by (simp_all add: sample_run_block_def run_block_size_def heap_get_chunk_run_def)
      (use sample_object_bitmap(2) sample_places(2) in \<open>simp add: sample_run_block_def heap_get_chunk_run_def\<close>)
  have g: "mb_type ?b = MEMORY_BLOCK_RUN" "mb_header_type ?b = HEADER_COMPACT" "size_idx ?b = 2"
    by (simp_all add: sample_run_block_def)
  obtain m' where w: "block_write_header (\<lambda>_. 0) sample_heap sample_object_mem ?b 42 5 = Some m'"
    by (simp add: block_write_header_def block_get_real_size_def mops_block_size_def header_write_def mops_get_real_data_def
        run_get_real_data_def sample_object_data g)
  moreover have "HEAP_PTR_TO_OFF sample_heap 591184 = 591184" by (simp add: HEAP_PTR_TO_OFF_def sample_heap_def)
  ultimately show ?thesis using memblock_offset_roundtrip [OF sample_object_run f w] by auto
qed

end
