(* ===== verification/Memblock_Init.thy ===== *)
theory Memblock_Init
  imports Memblock_Blocks
begin

text \<open>Runs and their units: every unit of a run is inside the run and aligned as asked for, and
  \<open>memblock_run_init\<close> makes a run that satisfies what the other theories of the component assume.\<close>

unbundle bit_operations_syntax

section \<open>Units in their run\<close>

text \<open>The sizes of a run that leave room for one unit past the metadata, which is 64 bytes with a flexible
  bitmap for one unit and always 320 with a fixed one, with a spare unit when the data is aligned.\<close>

definition run_fits :: "nat \<Rightarrow> u16 \<Rightarrow> u64 \<Rightarrow> u64 \<Rightarrow> bool" where
  "run_fits n flags unit_size alignment \<longleftrightarrow> 8 \<le> unat unit_size \<and>
     (if alignment \<noteq> 0 then 2 else 1) * unat unit_size + (if flags AND CHUNK_FLAG_FLEX_BITMAP \<noteq> 0 then 64 else 320) \<le> 262144 * n \<and>
     (flags AND CHUNK_FLAG_ALIGNED \<noteq> 0 \<longleftrightarrow> alignment \<noteq> 0) \<and> unat alignment dvd (if alignment \<noteq> 0 then unat unit_size else 0)"

lemma run_geometry:
  assumes s: "unat sidx \<le> 65535" and fit: "run_fits (unat sidx) flags unit_size alignment"
    and bm: "memblock_run_bitmap sidx flags unit_size alignment content = (sidx', bm)"
  shows "1 \<le> unat sidx' \<and> unat sidx' \<le> unat sidx" and "rb_values bm = content" and "run_bitmap_ok bm"
    and "16 + unat (rb_size bm) + (unat (nbits bm) + (if alignment \<noteq> 0 then 1 else 0)) * unat unit_size \<le> 262144 * unat sidx'"
proof -
  have u: "8 \<le> unat unit_size" and room: "((if alignment \<noteq> 0 then 1 else 0) + 1) * unat unit_size +
      (if flags AND CHUNK_FLAG_FLEX_BITMAP \<noteq> 0 then 64 else 320) \<le> 262144 * unat sidx"
    using fit by (auto simp: run_fits_def)
  have s1: "1 \<le> unat sidx" using room u by (cases "unat sidx") auto
  have "(1 \<le> unat sidx' \<and> unat sidx' \<le> unat sidx) \<and> rb_values bm = content \<and> run_bitmap_ok bm \<and>
    16 + unat (rb_size bm) + (unat (nbits bm) + (if alignment \<noteq> 0 then 1 else 0)) * unat unit_size \<le> 262144 * unat sidx'"
  proof (cases "flags AND CHUNK_FLAG_FLEX_BITMAP = 0")
    case True
    have r: "((if alignment \<noteq> 0 then 1 else 0) + 1) * unat unit_size \<le> 262144 * unat sidx - 320" using room True by simp
    note D = default_values [OF s1 s u r True bm]
    have "320 \<le> 262144 * unat sidx'" using D(1) by simp
    then show ?thesis using D(1-3) by (intro conjI) (use D(4,5) in linarith)+
  next
    case False
    have r: "((if alignment \<noteq> 0 then 1 else 0) + 1) * unat unit_size + 48 \<le> 262144 * unat sidx - 16" using room False by simp
    note F = flex_values [OF s1 s u r False bm]
    have "(unat (nbits bm) + (if alignment \<noteq> 0 then 1 else 0)) * unat unit_size \<le> 262144 * unat sidx - 16 - unat (rb_size bm)"
      unfolding F(5) by simp
    moreover have "16 \<le> 262144 * unat sidx" using s1 by simp
    ultimately have "16 + unat (rb_size bm) + (unat (nbits bm) + (if alignment \<noteq> 0 then 1 else 0)) * unat unit_size \<le> 262144 * unat sidx"
      using F(4) by linarith
    then show ?thesis using F(1-3) s1 by simp
  qed
  then show "1 \<le> unat sidx' \<and> unat sidx' \<le> unat sidx" "rb_values bm = content" "run_bitmap_ok bm"
    "16 + unat (rb_size bm) + (unat (nbits bm) + (if alignment \<noteq> 0 then 1 else 0)) * unat unit_size \<le> 262144 * unat sidx'"
    by blast+
qed

definition run_sound :: "palloc_heap \<Rightarrow> mem \<Rightarrow> rt_block \<Rightarrow> bool" where
  "run_sound h m b \<longleftrightarrow> run_fits (run_chunks h m b) (hdr_flags m (heap_get_chunk_hdr h b)) (run_block_size h m b)
       (run_hdr_alignment m (heap_get_chunk_run h b)) \<and> rebuilt h m b \<and> mb_type b = MEMORY_BLOCK_RUN \<and>
     unat (chunk_id b) + run_chunks h m b \<le> MAX_CHUNK \<and> heap_get_chunk_run h b + 262144 * run_chunks h m b < 2 ^ 63"

lemma run_sound_bitmap:
  assumes "run_sound h m b"
  defines "bm \<equiv> run_get_bitmap h m b"
  shows "rb_values bm = heap_get_chunk_run h b + 16" and "run_bitmap_ok bm"
    and "16 + unat (rb_size bm) + (unat (nbits bm) + (if run_hdr_alignment m (heap_get_chunk_run h b) \<noteq> 0 then 1 else 0)) *
      unat (run_block_size h m b) \<le> 262144 * run_chunks h m b"
    and "run_place h m b"
proof -
  note S = assms(1) [unfolded run_sound_def run_chunks_def run_block_size_def]
  obtain s' bm' where e: "memblock_run_bitmap (hdr_size_idx m (heap_get_chunk_hdr h b)) (hdr_flags m (heap_get_chunk_hdr h b))
    (run_hdr_block_size m (heap_get_chunk_run h b)) (run_hdr_alignment m (heap_get_chunk_run h b)) (run_content (heap_get_chunk_run h b)) = (s', bm')"
    by fastforce
  have bm: "bm = bm'" by (simp add: bm_def run_get_bitmap_def Let_def e)
  have "unat (hdr_size_idx m (heap_get_chunk_hdr h b)) \<le> 65535" using S by (simp add: MAX_CHUNK_def)
  note G = run_geometry [OF this conjunct1 [OF S] e]
  show "rb_values bm = heap_get_chunk_run h b + 16" "run_bitmap_ok bm"
    using G by (simp_all add: bm run_content_def)
  show sz: "16 + unat (rb_size bm) + (unat (nbits bm) + (if run_hdr_alignment m (heap_get_chunk_run h b) \<noteq> 0 then 1 else 0)) *
      unat (run_block_size h m b) \<le> 262144 * run_chunks h m b"
    using G(1,4) unfolding bm run_block_size_def run_chunks_def by linarith
  show "run_place h m b"
    using G(1,3) sz run_bitmap_okD(6) [OF G(3)] assms(1) unfolding run_place_def run_sound_def
    by (simp add: bm_def [symmetric] bm run_chunks_def)
qed

text \<open>The start of the data of a run.\<close>

lemma run_data_start:
  assumes "run_sound h m b" and hs: "header_type_to_size (mb_header_type b) = Some hs"
  defines "bm \<equiv> run_get_bitmap h m b" and "R \<equiv> heap_get_chunk_run h b"
  obtains D where "run_get_data_start h m b = Some D" and "R + 16 + unat (rb_size bm) \<le> D"
    and "D + unat (nbits bm) * unat (run_block_size h m b) \<le> R + 262144 * run_chunks h m b"
    and "run_hdr_alignment m R \<noteq> 0 \<Longrightarrow> unat (run_hdr_alignment m R) = 2 ^ k \<Longrightarrow> unat (run_hdr_alignment m R) dvd D + unat hs"
proof -
  let ?al = "run_hdr_alignment m R" and ?u = "unat (run_block_size h m b)" and ?n = "run_chunks h m b"
  note S = assms(1) [unfolded run_sound_def run_fits_def, folded R_def] and B = run_sound_bitmap [OF assms(1), folded bm_def R_def]
  show thesis
  proof (cases "?al = 0")
    case True
    then have "run_get_data_start h m b = Some (R + 16 + unat (rb_size bm))"
      using S by (simp add: run_get_data_start_def Let_def bm_def R_def run_content_def)
    moreover have "R + 16 + unat (rb_size bm) + unat (nbits bm) * ?u \<le> R + 262144 * ?n" using B(3) True by simp
    ultimately show thesis using that True by simp
  next
    case False
    let ?base = "of_nat (run_content R) + rb_size bm + hs"
    have h64: "unat hs \<le> 64" using hs by (cases "mb_header_type b") auto
    have al: "unat ?al \<le> ?u" using S False by (auto dest: dvd_imp_le)
    have nb: "16 + unat (rb_size bm) + unat (nbits bm) * ?u + ?u \<le> 262144 * ?n" using B(3) False by (simp add: algebra_simps)
    have rb: "R + (16 + unat (rb_size bm)) + ?u < 2 ^ 63" using nb S by linarith
    have base: "unat ?base = R + 16 + unat (rb_size bm) + unat hs"
      using rb h64 by (simp add: run_content_def unat_word_ariths unat_of_nat)
    have "?al \<noteq> 0" "unat ?base + unat ?al \<le> 2 ^ 64" using False base h64 rb al by simp_all
    note A = ALIGN_UP_range [OF this]
    let ?D = "unat (ALIGN_UP ?base ?al) - unat hs"
    have D: "unat (ALIGN_UP ?base ?al - hs) = ?D"
      using A(1) base by (intro unat_sub) (simp add: word_le_nat_alt)
    have "run_get_data_start h m b = Some ?D"
      using S False hs unfolding D [symmetric] by (simp add: run_get_data_start_def Let_def bm_def R_def)
    moreover have "R + 16 + unat (rb_size bm) \<le> ?D" "?D + unat (nbits bm) * ?u \<le> R + 262144 * ?n"
      using A base al nb by linarith+
    moreover have "?D + unat hs = unat (ALIGN_UP ?base ?al)" using A(1) base by linarith
    ultimately show thesis using that ALIGN_UP_dvd by metis
  qed
qed

lemma run_meta_fields:
  "run_get_data_start h m (b\<lparr>block_off := x\<rparr>) = run_get_data_start h m b"
  "heap_get_chunk_run h (b\<lparr>block_off := x\<rparr>) = heap_get_chunk_run h b"
  by (simp_all add: run_get_data_start_def run_get_bitmap_def heap_get_chunk_hdr_def heap_get_chunk_run_def Let_def cong: if_cong)

text \<open>C16. Every unit of a run lies between the bitmap and the end of the last chunk of the run, the
  units follow one another without overlap, and when the class asks for a power of two as alignment
  the data behind the header of an object is aligned. The run can span several chunks, have a fixed or
  a flexible bitmap and any kind of header.\<close>

theorem run_units_in_run:
  assumes "run_sound h m b" and "header_type_to_size (mb_header_type b) = Some hs"
  shows "\<exists>D. heap_get_chunk_run h b + 16 + unat (rb_size (run_get_bitmap h m b)) \<le> D \<and>
    (\<forall>i < unat (nbits (run_get_bitmap h m b)).
       mops_get_real_data h m (b\<lparr>block_off := of_nat i\<rparr>) = Some (D + i * unat (run_block_size h m b)) \<and>
       D + Suc i * unat (run_block_size h m b) \<le> heap_get_chunk_run h b + 262144 * run_chunks h m b \<and>
       (\<forall>k. unat (run_hdr_alignment m (heap_get_chunk_run h b)) = 2 ^ k \<longrightarrow>
          2 ^ k dvd D + i * unat (run_block_size h m b) + unat hs))"
proof -
  let ?R = "heap_get_chunk_run h b" and ?u = "unat (run_block_size h m b)" and ?bm = "run_get_bitmap h m b"
  let ?al = "run_hdr_alignment m ?R"
  note S = assms(1) [unfolded run_sound_def run_fits_def]
  obtain K where K: "(\<exists>k. unat ?al = 2 ^ k) \<Longrightarrow> unat ?al = 2 ^ K" by blast
  obtain D where D: "run_get_data_start h m b = Some D" "?R + 16 + unat (rb_size ?bm) \<le> D"
    "D + unat (nbits ?bm) * ?u \<le> ?R + 262144 * run_chunks h m b" "?al \<noteq> 0 \<Longrightarrow> unat ?al = 2 ^ K \<Longrightarrow> unat ?al dvd D + unat hs"
    using run_data_start [OF assms] by metis
  have "mops_get_real_data h m (b\<lparr>block_off := of_nat i\<rparr>) = Some (D + i * ?u) \<and>
       D + Suc i * ?u \<le> ?R + 262144 * run_chunks h m b \<and> (\<forall>k. unat ?al = 2 ^ k \<longrightarrow> 2 ^ k dvd D + i * ?u + unat hs)"
    if i: "i < unat (nbits ?bm)" for i
  proof -
    have le: "Suc i * ?u \<le> unat (nbits ?bm) * ?u" using i by (intro mult_le_mono1) simp
    then have fit: "D + Suc i * ?u \<le> ?R + 262144 * run_chunks h m b" using D(3) by linarith
    have "i < 2 ^ 32" using i unat_lt_u32 [of "nbits ?bm"] by simp
    then have u32: "unat (ucast (of_nat i :: u32) :: u64) = i" by (simp add: unat_of_nat)
    have "?u * i < 2 ^ 64" using fit S by (simp add: mult.commute) 
    then have "unat (run_block_size h m b * ucast (of_nat i :: u32)) = i * ?u"
      using u32 by (subst unat_mult_lem [THEN iffD1]) (simp_all add: mult.commute)
    then have "mops_get_real_data h m (b\<lparr>block_off := of_nat i\<rparr>) = Some (D + i * ?u)"
      using S D(1) by (simp add: mops_get_real_data_def run_get_real_data_def run_meta_fields run_block_size_def)
    moreover have "2 ^ k dvd D + i * ?u + unat hs" if k: "unat ?al = 2 ^ k" for k
    proof -
      have nz: "?al \<noteq> 0" using k by auto
      have "unat ?al dvd D + unat hs" using D(4) [OF nz] K k by blast
      moreover have "unat ?al dvd i * ?u" using S nz by simp
      ultimately have "unat ?al dvd (D + unat hs) + i * ?u" by (rule dvd_add)
      then show ?thesis unfolding k by (simp add: add_ac)
    qed
    ultimately show ?thesis using fit by blast
  qed
  then show ?thesis using D(2) by blast
qed

section \<open>New runs\<close>

lemma init_bitmap_out:
  assumes "run_bitmap_ok bm" and "a < rb_values bm \<or> rb_values bm + unat (rb_size bm) \<le> a"
  shows "init_run_bitmap bm m a = m a"
proof -
  note B = run_bitmap_okD [OF assms(1)]
  have nv: "unat (nvalues bm - 1) = unat (nvalues bm) - 1" using B(5) by (intro unat_minus_one32) simp
  then have "unat (8 * ucast (nvalues bm - 1) :: u64) = 8 * (unat (nvalues bm) - 1)"
    using unat_lt_u32 [of "nvalues bm"] by (simp add: unat_word_ariths)
  then show ?thesis
    using assms(2) B(5,6) unfolding init_run_bitmap_def Let_def nv by (subst wr64_out, linarith)+ (auto simp: mem_set_out)
qed

lemma chunk_hdr_index: "unat c + i < 65528 \<Longrightarrow> GET_CHUNK_HDR h z (c + of_nat i) = GET_CHUNK_HDR h z c + 8 * i"
  by (simp add: GET_CHUNK_HDR_def unat_word_ariths unat_of_nat)

lemma chunk_header_length [simp]: "length (chunk_header_bytes t f s) = 8"
  by (simp add: chunk_header_bytes_def)

lemma data_headers_fold:
  fixes h :: palloc_heap and z c :: u32 and m :: mem
  assumes "unat c + n \<le> 65528"
  defines "m' \<equiv> fold (\<lambda>i m. write_chunk_header m (GET_CHUNK_HDR h z (c + of_nat i)) CHUNK_TYPE_RUN_DATA 0 (of_nat i)) [1..<n] m"
  shows "(\<forall>a. a < GET_CHUNK_HDR h z c + 8 \<or> GET_CHUNK_HDR h z c + 8 * n \<le> a \<longrightarrow> m' a = m a) \<and>
    (\<forall>i. 0 < i \<longrightarrow> i < n \<longrightarrow> bytes_at m' (GET_CHUNK_HDR h z c + 8 * i) 8 = chunk_header_bytes CHUNK_TYPE_RUN_DATA 0 (of_nat i))"
  using assms(1) unfolding m'_def
proof (induction n)
  case (Suc n)
  let ?f = "\<lambda>i m. write_chunk_header m (GET_CHUNK_HDR h z (c + of_nat i)) CHUNK_TYPE_RUN_DATA 0 (of_nat i)"
  let ?H = "GET_CHUNK_HDR h z c" and ?m = "fold ?f [1..<n] m"
  have st: "fold ?f [1..<Suc n] m = (if n = 0 then m else store ?m (?H + 8 * n) (chunk_header_bytes CHUNK_TYPE_RUN_DATA 0 (of_nat n)))"
    using Suc.prems by (simp add: write_chunk_header_def chunk_hdr_index)
  have IH: "a < ?H + 8 \<or> ?H + 8 * n \<le> a \<Longrightarrow> ?m a = m a"
    "0 < i \<Longrightarrow> i < n \<Longrightarrow> bytes_at ?m (?H + 8 * i) 8 = chunk_header_bytes CHUNK_TYPE_RUN_DATA 0 (of_nat i)" for a i
    using Suc by auto
  have "fold ?f [1..<Suc n] m a = m a" if "a < ?H + 8 \<or> ?H + 8 * Suc n \<le> a" for a
    using that IH(1) [of a] unfolding st by (auto simp: store_out)
  moreover have "bytes_at (fold ?f [1..<Suc n] m) (?H + 8 * i) 8 = chunk_header_bytes CHUNK_TYPE_RUN_DATA 0 (of_nat i)"
    if i: "0 < i" "i < Suc n" for i
  proof (cases "i = n")
    case True
    then show ?thesis using i unfolding st by (simp add: bytes_at_store_inside)
  next
    case False
    then have "bytes_at (store ?m (?H + 8 * n) (chunk_header_bytes CHUNK_TYPE_RUN_DATA 0 (of_nat n))) (?H + 8 * i) 8 = bytes_at ?m (?H + 8 * i) 8"
      using i by (intro bytes_at_eqI store_out) auto
    then show ?thesis using False i IH(2) [of i] unfolding st by simp
  qed
  ultimately show ?case by blast
qed simp

text \<open>Chunk headers are read from eight bytes.\<close>

lemma chunk_header_fields:
  assumes "bytes_at m a 8 = chunk_header_bytes t f s"
  shows "hdr_type m a = t" and "hdr_flags m a = f" and "hdr_size_idx m a = s"
proof -
  have "rd16 m a = rd16 (store m a (chunk_header_bytes t f s)) a" "rd16 m (a + 2) = rd16 (store m a (chunk_header_bytes t f s)) (a + 2)"
    "rd32 m (a + 4) = rd32 (store m a (chunk_header_bytes t f s)) (a + 4)"
    unfolding assms [symmetric] by (auto intro!: rd16_cong rd32_cong simp: store_def bytes_at_def)
  then show "hdr_type m a = t" "hdr_flags m a = f" "hdr_size_idx m a = s"
    unfolding hdr_type_def hdr_flags_def hdr_size_idx_def
    by (simp_all only: chunk_header_read [unfolded hdr_type_def hdr_flags_def hdr_size_idx_def])
qed

text \<open>The memory after the steps of \<open>memblock_run_init\<close>.\<close>

lemma run_init_mem:
  fixes m :: mem
  assumes fit: "run_fits (unat sidx) flags unit_size alignment" and c: "unat c + unat sidx \<le> MAX_CHUNK"
    and bm: "memblock_run_bitmap sidx flags unit_size alignment (GET_CHUNK h z c + 16) = (s', bm)"
  defines "H \<equiv> GET_CHUNK_HDR h z c" and "R \<equiv> GET_CHUNK h z c"
  defines "m1 \<equiv> wr64 (wr64 m R unit_size) (R + 8) alignment"
  defines "m' \<equiv> init_run_data_headers h c z s' (init_run_bitmap bm m1)"
  defines "m'' \<equiv> write_chunk_header m' H CHUNK_TYPE_RUN flags (hdr_size_idx m' H)"
  shows "\<And>a. a < H \<or> H + 8 * unat s' \<le> a \<and> a < R \<or> R + 16 + unat (rb_size bm) \<le> a \<Longrightarrow> m'' a = m a"
    and "\<And>a. R + 16 \<le> a \<Longrightarrow> m'' a = init_run_bitmap bm m1 a"
    and "rd64 m'' R = unit_size" and "rd64 m'' (R + 8) = alignment"
    and "bytes_at m'' H 8 = chunk_header_bytes CHUNK_TYPE_RUN flags (hdr_size_idx m H)"
    and "\<And>i. 0 < i \<Longrightarrow> i < unat s' \<Longrightarrow> bytes_at m'' (H + 8 * i) 8 = chunk_header_bytes CHUNK_TYPE_RUN_DATA 0 (of_nat i)"
proof -
  have s: "unat sidx \<le> 65535" using c by (simp add: MAX_CHUNK_def)
  note G = run_geometry [OF s fit bm, folded R_def]
  have cs: "unat c + unat s' \<le> 65528" using c G(1) by (simp add: MAX_CHUNK_def)
  have HR: "H + 8 * unat s' \<le> R" using cs by (simp add: H_def R_def GET_CHUNK_HDR_def chunk_place)
  note F = data_headers_fold [OF cs, where h = h and z = z and m = "init_run_bitmap bm m1", folded init_run_data_headers_def, folded m'_def H_def,
      THEN conjunct1, rule_format]
    data_headers_fold [OF cs, where h = h and z = z and m = "init_run_bitmap bm m1", folded init_run_data_headers_def, folded m'_def H_def,
      THEN conjunct2, rule_format]
  have m'': "m'' = store m' H (chunk_header_bytes CHUNK_TYPE_RUN flags (hdr_size_idx m' H))" by (simp add: m''_def write_chunk_header_def)
  have out: "m'' a = m' a" if "a < H \<or> H + 8 \<le> a" for a unfolding m'' using that by (simp add: store_out)
  have s1: "1 \<le> unat s'" using G(1) by simp
  have hi: "m'' a = init_run_bitmap bm m1 a" if "a < H \<or> H + 8 * unat s' \<le> a" for a
  proof -
    have "a < H \<or> H + 8 \<le> a" "a < H + 8 \<or> H + 8 * unat s' \<le> a" using that s1 by linarith+
    then show ?thesis using out F(1) by simp
  qed
  show a2: "m'' a = init_run_bitmap bm m1 a" if "R + 16 \<le> a" for a using hi [of a] that HR by linarith
  have mid: "m'' a = m1 a" if "H + 8 * unat s' \<le> a" "a < R + 16" for a
    using hi [of a] that init_bitmap_out [OF G(3), of a m1] G(2) by simp
  show "m'' a = m a" if "a < H \<or> H + 8 * unat s' \<le> a \<and> a < R \<or> R + 16 + unat (rb_size bm) \<le> a" for a
  proof -
    have "m'' a = init_run_bitmap bm m1 a" using that HR by (intro hi) linarith
    also have "\<dots> = m1 a" using that HR G(2) by (intro init_bitmap_out [OF G(3)]) linarith
    also have "\<dots> = m a" using that HR unfolding m1_def by (subst wr64_out, linarith)+ simp
    finally show ?thesis .
  qed
  have "rd64 m'' R = rd64 m1 R" "rd64 m'' (R + 8) = rd64 m1 (R + 8)" using HR by (auto intro!: rd64_cong mid)
  then show "rd64 m'' R = unit_size" "rd64 m'' (R + 8) = alignment" by (simp_all add: m1_def rd64_wr64_disjoint)
  have "m' a = m a" if "a < H + 8" for a
  proof -
    have "m' a = init_run_bitmap bm m1 a" using that F(1) [of a] by simp
    also have "\<dots> = m1 a" using that HR G(2) s1 by (intro init_bitmap_out [OF G(3)]) linarith
    also have "\<dots> = m a" using that HR s1 unfolding m1_def by (subst wr64_out, linarith)+ simp
    finally show ?thesis .
  qed
  then have "hdr_size_idx m' H = hdr_size_idx m H" unfolding hdr_size_idx_def by (intro rd32_cong) simp
  then show "bytes_at m'' H 8 = chunk_header_bytes CHUNK_TYPE_RUN flags (hdr_size_idx m H)"
    unfolding m'' by (simp add: bytes_at_store_inside)
  show "bytes_at m'' (H + 8 * i) 8 = chunk_header_bytes CHUNK_TYPE_RUN_DATA 0 (of_nat i)" if "0 < i" "i < unat s'" for i
  proof -
    have "bytes_at m'' (H + 8 * i) 8 = bytes_at m' (H + 8 * i) 8" using that by (intro bytes_at_eqI out) simp
    then show ?thesis using F(2) that by simp
  qed
qed

text \<open>C15. A new run is ready for allocation. For every size, alignment, bitmap layout and kind of header
  that leaves room for a unit, \<open>memblock_run_init\<close> returns a block for a run whose headers and sizes are
  consistent, whose further chunks point back to the first, and whose padding bits are set; no unit is
  in use, except the last 64 when the number of units is a multiple of 64. Outside the chunk headers
  and the metadata of the run the heap is unchanged.\<close>

theorem memblock_run_init_ready:
  assumes "run_fits (unat sidx) flags unit_size alignment" and "unat c + unat sidx \<le> MAX_CHUNK"
    and "hdr_size_idx m (GET_CHUNK_HDR h z c) = sidx" and "GET_CHUNK h z c + 262144 * unat sidx < 2 ^ 63"
  shows "\<exists>b m' n. memblock_run_init h m c z sidx flags unit_size alignment = Some (b, m') \<and>
    chunk_id b = c \<and> zone_id b = z \<and> size_idx b = sidx \<and> run_block_size h m' b = unit_size \<and>
    run_sound h m' b \<and> 1 \<le> n \<and> n \<le> unat sidx \<and> (flags AND CHUNK_FLAG_FLEX_BITMAP \<noteq> 0 \<longrightarrow> n = unat sidx) \<and> run_headers h m' z c n \<and>
    (let bm = run_get_bitmap h m' b in padding_set m' bm \<and>
       used_units m' bm = (if unat (nbits bm) mod 64 = 0 then {unat (nbits bm) - 64..<unat (nbits bm)} else {}) \<and>
       (\<forall>a. a < GET_CHUNK_HDR h z c \<or> GET_CHUNK_HDR h z c + 8 * n \<le> a \<and> a < GET_CHUNK h z c \<or>
          GET_CHUNK h z c + 16 + unat (rb_size bm) \<le> a \<longrightarrow> m' a = m a))"
proof -
  let ?H = "GET_CHUNK_HDR h z c" and ?R = "GET_CHUNK h z c"
  obtain s' bm where bm: "memblock_run_bitmap sidx flags unit_size alignment (?R + 16) = (s', bm)" by fastforce
  have s: "unat sidx \<le> 65535" using assms(2) by (simp add: MAX_CHUNK_def)
  note G = run_geometry [OF s assms(1) bm]
  define m1 where "m1 = wr64 (wr64 m ?R unit_size) (?R + 8) alignment"
  define m3 where "m3 = init_run_data_headers h c z s' (init_run_bitmap bm m1)"
  define m' where "m' = write_chunk_header m3 ?H CHUNK_TYPE_RUN flags (hdr_size_idx m3 ?H)"
  note I = run_init_mem [OF assms(1,2) bm, where m = m, folded m1_def, folded m3_def, folded m'_def, unfolded assms(3)]
  note hd = chunk_header_fields [OF I(5)]
  let ?b = "MEMORY_BLOCK_NONE\<lparr>chunk_id := c, zone_id := z, size_idx := sidx\<rparr>"
  define b where "b = ?b\<lparr>mb_header_type := memblock_header_type h m' ?b, mb_type := MEMORY_BLOCK_RUN\<rparr>"
  have pl: "heap_get_chunk_hdr h ?b = ?H" "heap_get_chunk_run h ?b = ?R" "heap_get_chunk_hdr h b = ?H" "heap_get_chunk_run h b = ?R"
    by (simp_all add: heap_get_chunk_hdr_def heap_get_chunk_run_def b_def)
  have f: "chunk_id b = c" "zone_id b = z" "size_idx b = sidx" "mb_type b = MEMORY_BLOCK_RUN"
    by (simp_all add: b_def)
  have det: "memblock_detect_type h m' ?b = Some MEMORY_BLOCK_RUN" "memblock_detect_type h m' b = Some MEMORY_BLOCK_RUN"
    by (simp_all add: memblock_detect_type_def Let_def pl hd)
  have init: "memblock_run_init h m c z sidx flags unit_size alignment = Some (b, m')"
    unfolding memblock_run_init_def Let_def pl run_content_def bm
    by (simp add: memblock_rebuild_state_def det b_def flip: m1_def m3_def m'_def)
  have fields: "run_chunks h m' b = unat sidx" "run_hdr_block_size m' ?R = unit_size" "run_hdr_alignment m' ?R = alignment"
    by (simp_all add: run_chunks_def pl hd run_hdr_block_size_def run_hdr_alignment_def I)
  have gb: "run_get_bitmap h m' b = bm" by (simp add: run_get_bitmap_def Let_def pl hd fields run_content_def bm)
  have "memblock_header_type h m' b = mb_header_type b"
    unfolding memblock_header_type_def Let_def pl by (simp add: b_def memblock_header_type_def pl)
  then have sound: "run_sound h m' b"
    using assms(1,2,4) by (simp add: run_sound_def rebuilt_def det f pl fields hd run_block_size_def)
  have cs: "unat c + unat s' \<le> 65528" using assms(2) G(1) by (simp add: MAX_CHUNK_def)
  have heads: "run_headers h m' z c (unat s')"
    unfolding run_headers_def
  proof (intro conjI allI impI)
    fix i :: nat assume i: "0 < i" "i < unat s'"
    have "GET_CHUNK_HDR h z (c + of_nat i) = ?H + 8 * i" using i cs by (intro chunk_hdr_index) simp
    then show "hdr_type m' (GET_CHUNK_HDR h z (c + of_nat i)) = CHUNK_TYPE_RUN_DATA"
      "hdr_size_idx m' (GET_CHUNK_HDR h z (c + of_nat i)) = of_nat i"
      using chunk_header_fields [OF I(6) [OF i]] by simp_all
  qed (use cs hd in \<open>simp_all add: MAX_CHUNK_def\<close>)
  have bits: "run_bit m' bm i = run_bit (init_run_bitmap bm m1) bm i" for i
    unfolding run_bit_def by (intro arg_cong2 [where f = bit] rd64_cong refl) (simp add: I(2) G(2))
  have pad: "padding_set m' bm" "used_units m' bm = used_units (init_run_bitmap bm m1) bm"
    using init_used(2) [OF G(3), of m1] by (simp_all add: padding_set_def used_units_def bits)
  have flex: "flags AND CHUNK_FLAG_FLEX_BITMAP \<noteq> 0 \<longrightarrow> s' = sidx"
    using bm by (auto simp: memblock_run_bitmap_def Let_def)
  have "run_block_size h m' b = unit_size" by (simp add: run_block_size_def pl fields)
  then show ?thesis
    using init f sound heads G(1) pad init_used(1) [OF G(3), of m1] I(1) flex
    by (intro exI [of _ b] exI [of _ m'] exI [of _ "unat s'"]) (auto simp: gb Let_def)
qed

text \<open>A class without room for a unit, here units of 262128 bytes in one chunk, has no units and no values
  in the bitmap, and the bitmap of such a run is cleared far past the end of the run.\<close>

lemma run_no_units:
  "memblock_run_bitmap 1 9 262128 0 p = (1, \<lparr>nvalues = 0, nbits = 0, rb_size = 48, rb_values = p\<rparr>)"
  "p \<le> a \<Longrightarrow> a < p + 34359738360 \<Longrightarrow> init_run_bitmap \<lparr>nvalues = 0, nbits = 0, rb_size = 48, rb_values = p\<rparr> m a = 0"
proof -
  show "memblock_run_bitmap 1 9 262128 0 p = (1, \<lparr>nvalues = 0, nbits = 0, rb_size = 48, rb_values = p\<rparr>)"
    by (simp add: memblock_run_bitmap_def CHUNK_FLAG_FLEX_BITMAP_def RUN_CONTENT_SIZE_BYTES_def RUN_CONTENT_SIZE_def CHUNKSIZE_def
        RUN_BASE_METADATA_SIZE_def util_div_ceil_def RUN_BITS_PER_VALUE_def ALIGN_UP32_def RUN_BASE_METADATA_VALUES_def)
  have u: "unat (- 1 :: u32) = 4294967295" by (simp add: unsigned_minus_1_eq_mask mask_eq_exp_minus_1)
  then have "unat (8 * ucast (- 1 :: u32) :: u64) = 34359738360" by (simp add: unat_word_ariths)
  then show "init_run_bitmap \<lparr>nvalues = 0, nbits = 0, rb_size = 48, rb_values = p\<rparr> m a = 0" if "p \<le> a" "a < p + 34359738360"
    using that u by (simp add: init_run_bitmap_def Let_def wr64_out mem_set_in)
qed

section \<open>Concrete runs\<close>

lemma sample_object_sound: "run_sound sample_heap sample_object_mem (sample_run_block 0 0)"
proof -
  have "hdr_size_idx sample_object_mem 66624 = 1" "rd64 sample_object_mem 590856 = 0"
    using sample_run_read(3,5) by (simp_all add: hdr_size_idx_def sample_object_read)
  moreover have "mb_type (sample_run_block 0 0) = MEMORY_BLOCK_RUN" "chunk_id (sample_run_block 0 0) = 0"
    by (simp_all add: sample_run_block_def)
  ultimately show ?thesis
    using sample_object_ok(1) by (simp add: run_sound_def run_fits_def run_chunks_def sample_places sample_object_bitmap
        run_block_size_def run_hdr_alignment_def CHUNK_FLAG_ALIGNED_def MAX_CHUNK_def)
qed

theorem run_units_in_run_witness:
  "\<exists>D. mops_get_real_data sample_heap sample_object_mem ((sample_run_block 0 0)\<lparr>block_off := of_nat 2044\<rparr>) = Some (D + 2044 * 128) \<and>
     D + 2045 * 128 \<le> 590848 + 262144"
proof -
  have hs: "header_type_to_size (mb_header_type (sample_run_block 0 0)) = Some 16" by (simp add: sample_run_block_def)
  have u: "run_block_size sample_heap sample_object_mem (sample_run_block 0 0) = 128"
    "run_chunks sample_heap sample_object_mem (sample_run_block 0 0) = 1"
    using sample_run_read(3) by (simp_all add: run_block_size_def run_chunks_def sample_places sample_object_bitmap hdr_size_idx_def sample_object_read)
  obtain D where "\<forall>i < 2045. mops_get_real_data sample_heap sample_object_mem ((sample_run_block 0 0)\<lparr>block_off := of_nat i\<rparr>) = Some (D + i * 128) \<and>
      D + Suc i * 128 \<le> 590848 + 262144"
    using run_units_in_run [OF sample_object_sound hs] unfolding u sample_object_bitmap sample_places by auto
  then show ?thesis by (intro exI [of _ D]) (auto dest!: spec [of _ 2044])
qed

text \<open>Two free chunks become a run with units of 1024 bytes, aligned to 256.\<close>

definition sample_free_mem :: mem where
  "sample_free_mem = write_chunk_header (\<lambda>_. 0) 66624 CHUNK_TYPE_FREE 0 2"

theorem memblock_run_init_ready_witness:
  "\<exists>b m'. memblock_run_init sample_heap sample_free_mem 0 0 2 13 1024 256 = Some (b, m') \<and>
     run_sound sample_heap m' b \<and> run_headers sample_heap m' 0 0 2"
proof -
  have hd: "GET_CHUNK_HDR sample_heap 0 0 = 66624" "GET_CHUNK sample_heap 0 0 = 590848"
    using sample_places [of 0 0] by (simp_all add: heap_get_chunk_hdr_def heap_get_chunk_run_def sample_run_block_def)
  have a: "run_fits (unat (2 :: u32)) 13 1024 256" "unat (0 :: u32) + unat (2 :: u32) \<le> MAX_CHUNK"
    "hdr_size_idx sample_free_mem (GET_CHUNK_HDR sample_heap 0 0) = 2" "GET_CHUNK sample_heap 0 0 + 262144 * unat (2 :: u32) < 2 ^ 63"
    by (simp_all add: run_fits_def CHUNK_FLAG_ALIGNED_def MAX_CHUNK_def hd sample_free_mem_def write_chunk_header_def chunk_header_read)
  have fl: "(13 :: u16) AND CHUNK_FLAG_FLEX_BITMAP \<noteq> 0" by (simp add: CHUNK_FLAG_FLEX_BITMAP_def)
  show ?thesis using memblock_run_init_ready [OF a] fl by auto
qed
end
