(* ===== verification/Alloc_Class.thy ===== *)
theory Alloc_Class
  imports Memblock Cuckoo
begin

text \<open>
  Allocation classes: \<^verbatim>\<open>libpmemobj/alloc_class.c\<close>. A collection has at most 255 classes, a map from
  allocation sizes to classes that is filled while it is used, and a hash table from the parameters of
  a run to its class. The classes are separate allocations: \<open>ac_store\<close> is the memory that they are in,
  and pointers to them are numbers, with 0 for the null pointer. The answers of the C library's
  allocator, and the old contents of the memory that it returns, are arguments.

  The result \<open>None\<close> stands for a call that crashes or does not end: an access through a null, reserved
  or dangling pointer, an index outside of an array, or a division by zero.
\<close>

unbundle bit_operations_syntax

section \<open>Data\<close>

definition RUN_CLASS_KEY_PACK :: "u32 \<Rightarrow> u16 \<Rightarrow> u16 \<Rightarrow> u64" where
  "RUN_CLASS_KEY_PACK map_idx_s flags_s size_idx_s =
     push_bit 32 (ucast map_idx_s) OR push_bit 16 (ucast flags_s) OR ucast size_idx_s"

definition ACLASS_RESERVED :: addr where "ACLASS_RESERVED = 4294967295"
definition MAX_RUN_SIZE :: u64 where "MAX_RUN_SIZE = CHUNKSIZE * 10"
definition MAX_RUN_WASTED_BYTES :: u64 where "MAX_RUN_WASTED_BYTES = 1024"
definition MAX_ALLOC_CATEGORIES :: nat where "MAX_ALLOC_CATEGORIES = 9"
definition FIRST_GENERATED_CLASS_SIZE :: u64 where "FIRST_GENERATED_CLASS_SIZE = 128"
definition ALLOC_BLOCK_SIZE_GEN :: u64 where "ALLOC_BLOCK_SIZE_GEN = 64"
definition MIN_UNIT_SIZE :: u64 where "MIN_UNIT_SIZE = 128"

text \<open>The sizes of the categories; the step of each of them is \<open>0.05f\<close>.\<close>

definition categories :: "u64 list" where
  "categories = [FIRST_GENERATED_CLASS_SIZE, 1024, 2048, 4096, 8192, 16384, 32768, 131072, 393216]"

definition RUN_UNIT_MAX_ALLOC :: u64 where "RUN_UNIT_MAX_ALLOC = 8"
definition ALLOC_BLOCK_SIZE :: u64 where "ALLOC_BLOCK_SIZE = 16"
definition SIZE_TO_CLASS_MAP_INDEX :: "u64 \<Rightarrow> u64 \<Rightarrow> u64" where
  "SIZE_TO_CLASS_MAP_INDEX s g = 1 + (s - 1) div g"
definition RUN_MIN_NALLOCS :: u64 where "RUN_MIN_NALLOCS = 200"
definition RUN_SIZE_IDX_CAP :: u32 where "RUN_SIZE_IDX_CAP = 16"
definition ALLOC_CLASS_DEFAULT_FLAGS :: u16 where "ALLOC_CLASS_DEFAULT_FLAGS = CHUNK_FLAG_FLEX_BITMAP"

definition MAX_ALLOCATION_CLASSES :: nat where "MAX_ALLOCATION_CLASSES = 255"
definition DEFAULT_ALLOC_CLASS_ID :: nat where "DEFAULT_ALLOC_CLASS_ID = 0"
definition RUN_UNIT_MAX :: u32 where "RUN_UNIT_MAX = RUN_BITS_PER_VALUE"

datatype alloc_class_type = CLASS_UNKNOWN | CLASS_HUGE | CLASS_RUN | MAX_ALLOC_CLASS_TYPES

record alloc_class =
  ac_id :: byte
  ac_flags :: u16
  ac_unit_size :: u64
  ac_header_type :: header_type
  ac_type :: alloc_class_type
  run_size_idx :: u32
  run_alignment :: u64
  run_nallocs :: u32

record alloc_class_collection =
  granularity :: u64
  aclasses :: "addr list"
  last_run_max_size :: u64
  class_map_by_alloc_size :: "byte list"
  class_map_by_unit_size :: cuckoo
  fail_on_missing_class :: bool
  autogenerate_on_missing_class :: bool
  ac_store :: "addr \<Rightarrow> alloc_class option"

text \<open>The environment of the creation of a class: the address that \<open>Malloc\<close> returns (0 if it fails), the
  old contents of that memory, and the answers of the allocator to the hash table.\<close>

record class_env =
  ce_malloc :: addr
  ce_old :: alloc_class
  ce_grow :: "nat \<Rightarrow> nat \<Rightarrow> bool"

definition set_slot_class :: "nat \<Rightarrow> addr \<Rightarrow> alloc_class_collection \<Rightarrow> alloc_class_collection" where
  "set_slot_class i p ac = ac\<lparr>aclasses := (aclasses ac)[i := p]\<rparr>"

section \<open>Slots\<close>

definition alloc_class_find_first_free_slot :: "alloc_class_collection \<Rightarrow> nat option \<times> alloc_class_collection" where
  "alloc_class_find_first_free_slot ac =
     (case find (\<lambda>n. aclasses ac ! n = 0) [0..<MAX_ALLOCATION_CLASSES] of
        Some n \<Rightarrow> (Some n, set_slot_class n ACLASS_RESERVED ac)
      | None \<Rightarrow> (None, ac))"

definition alloc_class_reserve :: "alloc_class_collection \<Rightarrow> nat \<Rightarrow> bool \<times> alloc_class_collection" where
  "alloc_class_reserve ac i =
     (if aclasses ac ! i = 0 then (True, set_slot_class i ACLASS_RESERVED ac) else (False, ac))"

definition alloc_class_reservation_clear :: "alloc_class_collection \<Rightarrow> nat \<Rightarrow> alloc_class_collection" where
  "alloc_class_reservation_clear ac i =
     (if aclasses ac ! i = ACLASS_RESERVED then set_slot_class i 0 ac else ac)"

section \<open>Creating and deleting a class\<close>

text \<open>The key of a class in the hash table.\<close>

definition class_key :: "u64 \<Rightarrow> u64 \<Rightarrow> u16 \<Rightarrow> u32 \<Rightarrow> u64" where
  "class_key unit_size g flags sidx =
     RUN_CLASS_KEY_PACK (ucast (SIZE_TO_CLASS_MAP_INDEX unit_size g)) flags (ucast sidx)"

text \<open>The label \<open>error_class_alloc\<close>: the reservation of a given class id is dropped.\<close>

definition class_error :: "int \<Rightarrow> alloc_class_collection \<Rightarrow> addr \<times> alloc_class_collection" where
  "class_error i ac = (0, if i \<ge> 0 then alloc_class_reservation_clear ac (nat i) else ac)"

text \<open>The part of \<open>alloc_class_new\<close> for runs, with the new structure filled in so far. The results are the
  error of the hash table or of the search for a slot, and otherwise the id.\<close>

definition alloc_class_new_run ::
  "class_env \<Rightarrow> int \<Rightarrow> alloc_class_collection \<Rightarrow> alloc_class \<Rightarrow> u64 \<Rightarrow> u32 \<Rightarrow>
   (int option \<times> int \<times> alloc_class \<times> alloc_class_collection) option" where
  "alloc_class_new_run env i ac c alignment sidx =
     (let c = c\<lparr>run_alignment := alignment\<rparr>;
          (sidx, b) = memblock_run_bitmap sidx (ac_flags c) (ac_unit_size c) alignment 0;
          c = c\<lparr>run_nallocs := nbits b, run_size_idx := sidx\<rparr>;
          (slot, ac) = (if i < 0 then alloc_class_find_first_free_slot ac else (Some (nat (i mod 256)), ac))
      in case slot of
           None \<Rightarrow> Some (None, i, c, ac)
         | Some slot \<Rightarrow>
             do { (r, t) \<leftarrow> cuckoo_insert (ce_grow env) (class_map_by_unit_size ac)
                             (class_key (ac_unit_size c) (granularity ac) (ac_flags c) sidx) (ce_malloc env);
                  let ac = ac\<lparr>class_map_by_unit_size := t\<rparr>;
                  Some (if r \<noteq> None then None else Some (int slot), int slot, c, ac) })"

definition alloc_class_new ::
  "class_env \<Rightarrow> int \<Rightarrow> alloc_class_collection \<Rightarrow> alloc_class_type \<Rightarrow> header_type \<Rightarrow> u64 \<Rightarrow> u64 \<Rightarrow> u32 \<Rightarrow>
   (addr \<times> alloc_class_collection) option" where
  "alloc_class_new env i ac type htype unit_size alignment sidx =
     (if ce_malloc env = 0 then Some (class_error i ac)
      else
        do { hflag \<leftarrow> header_type_to_flag htype;
             let c = (ce_old env)\<lparr>ac_unit_size := unit_size, ac_header_type := htype, ac_type := type,
                       ac_flags := (hflag OR (if alignment \<noteq> 0 then CHUNK_FLAG_ALIGNED else 0)) OR ALLOC_CLASS_DEFAULT_FLAGS\<rparr>;
             (i', e, c, ac) \<leftarrow>
               (case type of
                  CLASS_HUGE \<Rightarrow> Some (Some (int DEFAULT_ALLOC_CLASS_ID), i, c, ac)
                | CLASS_RUN \<Rightarrow> alloc_class_new_run env i ac c alignment sidx
                | _ \<Rightarrow> Some (Some i, i, c, ac));
             (case i' of
                None \<Rightarrow> Some (class_error e ac)
              | Some i' \<Rightarrow>
                  let c = c\<lparr>ac_id := of_int i'\<rparr>; n = unat (ac_id c)
                  in if n < MAX_ALLOCATION_CLASSES
                     then Some (ce_malloc env, (set_slot_class n (ce_malloc env) ac)\<lparr>ac_store := (ac_store ac)(ce_malloc env \<mapsto> c)\<rparr>)
                     else None) })"

definition alloc_class_delete :: "alloc_class_collection \<Rightarrow> addr \<Rightarrow> alloc_class_collection option" where
  "alloc_class_delete ac p =
     do { c \<leftarrow> ac_store ac p;
          if unat (ac_id c) < MAX_ALLOCATION_CLASSES
          then Some ((set_slot_class (unat (ac_id c)) 0 ac)\<lparr>ac_store := (ac_store ac)(p := None)\<rparr>) else None }"

section \<open>Generating classes\<close>

text \<open>The two searches of \<open>alloc_class_find_or_create\<close>; the result 0 is that no class was found.\<close>

fun find_dividing :: "alloc_class_collection \<Rightarrow> u64 \<Rightarrow> u32 \<Rightarrow> nat list \<Rightarrow> addr option" where
  "find_dividing ac n required_size_idx [] = Some 0"
| "find_dividing ac n required_size_idx (i # is) =
     (if aclasses ac ! i = 0 then find_dividing ac n required_size_idx is
      else do { c \<leftarrow> ac_store ac (aclasses ac ! i);
                if ac_type c = CLASS_HUGE \<or> run_size_idx c < required_size_idx then find_dividing ac n required_size_idx is
                else if ac_unit_size c = 0 then None
                else if n mod ac_unit_size c = 0 \<and> n div ac_unit_size c \<le> RUN_UNIT_MAX_ALLOC then Some (aclasses ac ! i)
                else find_dividing ac n required_size_idx is })"

fun find_duplicate :: "alloc_class_collection \<Rightarrow> u64 \<Rightarrow> nat list \<Rightarrow> addr option" where
  "find_duplicate ac n [] = Some 0"
| "find_duplicate ac n (i # is) =
     (if aclasses ac ! i = 0 then find_duplicate ac n is
      else do { c \<leftarrow> ac_store ac (aclasses ac ! i);
                if ac_type c = CLASS_HUGE then find_duplicate ac n is
                else if ac_unit_size c = 0 then None
                else if n div ac_unit_size c \<le> RUN_UNIT_MAX_ALLOC \<and> n mod ac_unit_size c = 0 then Some (aclasses ac ! i)
                else if ac_unit_size c = n then Some (aclasses ac ! i)
                else find_duplicate ac n is })"

definition required_size_idx :: "u64 \<Rightarrow> u32" where
  "required_size_idx n =
     (let required_size_bytes = n * RUN_MIN_NALLOCS
      in if required_size_bytes > RUN_DEFAULT_SIZE
         then let idx = 1 + CALC_SIZE_IDX CHUNKSIZE (required_size_bytes - RUN_DEFAULT_SIZE)
              in if idx > RUN_SIZE_IDX_CAP then RUN_SIZE_IDX_CAP else idx
         else 1)"

text \<open>The loop that increases the unit size until a run wastes little space at its end.\<close>

partial_function (option) unit_size_loop :: "u32 \<Rightarrow> u64 \<Rightarrow> u64 \<Rightarrow> u64 option" where
  "unit_size_loop req n runsize_bytes =
     (let n = (if runsize_bytes \<noteq> 0 then n + ALLOC_BLOCK_SIZE_GEN else n);
          (sidx, b) = memblock_run_bitmap req ALLOC_CLASS_DEFAULT_FLAGS n 0 0;
          runsize_bytes = RUN_CONTENT_SIZE_BYTES sidx - rb_size b
      in if n = 0 then None
         else if runsize_bytes mod n > MAX_RUN_WASTED_BYTES then unit_size_loop req n runsize_bytes
         else Some n)"

definition alloc_class_find_or_create ::
  "class_env \<Rightarrow> alloc_class_collection \<Rightarrow> u64 \<Rightarrow> (addr \<times> alloc_class_collection) option" where
  "alloc_class_find_or_create env ac n =
     do { let req = required_size_idx n;
          p \<leftarrow> find_dividing ac n req (rev [0..<MAX_ALLOCATION_CLASSES]);
          if p \<noteq> 0 then Some (p, ac)
          else do { n \<leftarrow> unit_size_loop req n 0;
                    p \<leftarrow> find_duplicate ac n [1..<MAX_ALLOCATION_CLASSES];
                    if p \<noteq> 0 then Some (p, ac)
                    else alloc_class_new env (- 1) ac CLASS_RUN HEADER_COMPACT n 0 req } }"

section \<open>The best class for a size\<close>

text \<open>The waste that \<open>alloc_class_find_min_frag\<close> attributes to a class.\<close>

definition class_waste :: "alloc_class \<Rightarrow> u64 \<Rightarrow> u64 \<Rightarrow> u64 option" where
  "class_waste c units real_size =
     (let waste = ac_unit_size c * units - real_size
      in if ac_type c = CLASS_RUN
         then if units = 0 \<or> run_nallocs c = 0 then None
              else let wasted_units = ucast (run_nallocs c) mod units;
                       wasted_bytes = wasted_units * ac_unit_size c
                   in Some (waste + wasted_bytes div ucast (run_nallocs c))
         else Some waste)"

fun min_frag_loop :: "alloc_class_collection \<Rightarrow> u64 \<Rightarrow> nat list \<Rightarrow> addr \<Rightarrow> u64 \<Rightarrow> addr option" where
  "min_frag_loop ac n [] best_c lowest_waste = Some best_c"
| "min_frag_loop ac n (i # is) best_c lowest_waste =
     (if aclasses ac ! i = 0 then min_frag_loop ac n is best_c lowest_waste
      else do { c \<leftarrow> ac_store ac (aclasses ac ! i);
                if ac_header_type c = HEADER_NONE then min_frag_loop ac n is best_c lowest_waste
                else if ac_unit_size c = 0 then None
                else do { hsize \<leftarrow> header_type_to_size (ac_header_type c);
                          let real_size = n + hsize;
                          let units = ucast (CALC_SIZE_IDX (ac_unit_size c) real_size);
                          if ac_type c = CLASS_RUN \<and> units > RUN_UNIT_MAX_ALLOC then min_frag_loop ac n is best_c lowest_waste
                          else if ac_unit_size c * units = real_size then Some (aclasses ac ! i)
                          else do { waste \<leftarrow> class_waste c units real_size;
                                    if best_c = 0 \<or> lowest_waste > waste
                                    then min_frag_loop ac n is (aclasses ac ! i) waste
                                    else min_frag_loop ac n is best_c lowest_waste } } })"

definition alloc_class_find_min_frag :: "alloc_class_collection \<Rightarrow> u64 \<Rightarrow> addr option" where
  "alloc_class_find_min_frag ac n = min_frag_loop ac n (rev [0..<MAX_ALLOCATION_CLASSES]) 0 (- 1)"

section \<open>Collections\<close>

text \<open>The step from one size to the next: \<open>(float)n * 0.05f\<close>, where \<open>0.05f\<close> is 13421773 / 2^28, rounded up
  unless it is within \<open>FLT_EPSILON\<close>, 2^-23, of an integer.\<close>

definition size_step :: "u64 \<Rightarrow> u64" where
  "size_step n =
     (let stepf = round24 (round24 (unat n) * 13421773);
          stepi = stepf div 2 ^ 28
      in of_nat (if stepf - stepi * 2 ^ 28 < 32 then stepi else stepi + 1))"

definition next_class_size :: "u64 \<Rightarrow> u64" where
  "next_class_size n = n + ((size_step n + (ALLOC_BLOCK_SIZE_GEN - 1)) AND NOT (ALLOC_BLOCK_SIZE_GEN - 1))"

text \<open>The inner loop over the sizes of a category. The number of rounds so far selects the answers of the
  allocator; the flag of the result tells success.\<close>

partial_function (option) category_loop ::
  "(nat \<Rightarrow> class_env) \<Rightarrow> u64 \<Rightarrow> u64 \<Rightarrow> nat \<Rightarrow> alloc_class_collection \<Rightarrow> (bool \<times> nat \<times> alloc_class_collection) option" where
  "category_loop env sz n k ac =
     do { (p, ac) \<leftarrow> alloc_class_find_or_create (env k) ac n;
          if p = 0 then Some (False, Suc k, ac)
          else let n = next_class_size n
               in if n \<le> sz then category_loop env sz n (Suc k) ac else Some (True, Suc k, ac) }"

fun categories_loop ::
  "(nat \<Rightarrow> class_env) \<Rightarrow> (u64 \<times> u64) list \<Rightarrow> nat \<Rightarrow> alloc_class_collection \<Rightarrow> (bool \<times> alloc_class_collection) option" where
  "categories_loop env [] k ac = Some (True, ac)"
| "categories_loop env ((prev, sz) # cs) k ac =
     do { (ok, k, ac) \<leftarrow> category_loop env sz (prev + ALLOC_BLOCK_SIZE_GEN) k ac;
          if ok then categories_loop env cs k ac else Some (False, ac) }"

text \<open>Deleting a collection returns when every pointer in it is valid; a null hash table is not.\<close>

fun delete_classes :: "nat list \<Rightarrow> alloc_class_collection \<Rightarrow> alloc_class_collection option" where
  "delete_classes [] ac = Some ac"
| "delete_classes (i # is) ac =
     (if aclasses ac ! i \<noteq> 0
      then do { ac \<leftarrow> alloc_class_delete ac (aclasses ac ! i); delete_classes is ac }
      else delete_classes is ac)"

definition alloc_class_collection_delete :: "alloc_class_collection \<Rightarrow> bool \<Rightarrow> unit option" where
  "alloc_class_collection_delete ac has_table =
     do { delete_classes [0..<MAX_ALLOCATION_CLASSES] ac;
          if has_table then Some () else None }"

definition largest_slot :: "addr list \<Rightarrow> nat" where
  "largest_slot cs = (case find (\<lambda>i. i = 0 \<or> cs ! i \<noteq> 0) (rev [0..<MAX_ALLOCATION_CLASSES]) of Some i \<Rightarrow> i | None \<Rightarrow> 0)"

definition run_max_size :: "alloc_class \<Rightarrow> u64" where
  "run_max_size c =
     (let real_unit_max = (if ucast (run_nallocs c) < RUN_UNIT_MAX_ALLOC then ucast (run_nallocs c) else RUN_UNIT_MAX_ALLOC);
          theoretical_run_max_size = ac_unit_size c * real_unit_max
      in if MAX_RUN_SIZE > theoretical_run_max_size then theoretical_run_max_size else MAX_RUN_SIZE)"

text \<open>The answers to the allocations of the collection, of the size map and of the hash table, and to
  those of the classes: the one of the huge class, the predefined one, and the generated ones.\<close>

record collection_env =
  co_ac :: bool
  co_map :: bool
  co_table :: "bool \<times> bool"
  co_huge :: class_env
  co_first :: class_env
  co_next :: "nat \<Rightarrow> class_env"

definition null_table :: cuckoo where
  "null_table = \<lparr>cuckoo_size = 0, cuckoo_tab = []\<rparr>"

definition new_collection :: alloc_class_collection where
  "new_collection = \<lparr>granularity = ALLOC_BLOCK_SIZE, aclasses = replicate MAX_ALLOCATION_CLASSES 0,
     last_run_max_size = MAX_RUN_SIZE, class_map_by_alloc_size = [], class_map_by_unit_size = null_table,
     fail_on_missing_class = False, autogenerate_on_missing_class = True, ac_store = Map.empty\<rparr>"

text \<open>The result is the collection, with the inner \<open>None\<close> for the null pointer.\<close>

definition collection_error :: "alloc_class_collection \<Rightarrow> bool \<Rightarrow> alloc_class_collection option option" where
  "collection_error ac has_table = do { alloc_class_collection_delete ac has_table; Some None }"

definition alloc_class_collection_new :: "collection_env \<Rightarrow> alloc_class_collection option option" where
  "alloc_class_collection_new e =
     (if \<not> co_ac e then Some None
      else let ac = new_collection; maps_size = unat (MAX_RUN_SIZE div granularity ac + 1)
           in if \<not> co_map e then collection_error ac False
              else case cuckoo_new (fst (co_table e)) (snd (co_table e)) of
                None \<Rightarrow> collection_error ac False
              | Some t \<Rightarrow>
                  let ac = ac\<lparr>class_map_by_alloc_size := replicate maps_size (- 1), class_map_by_unit_size := t\<rparr>
                  in do { (p, ac) \<leftarrow> alloc_class_new (co_huge e) (- 1) ac CLASS_HUGE HEADER_COMPACT CHUNKSIZE 0 1;
                          if p = 0 then collection_error ac True
                          else do { (p, ac) \<leftarrow> alloc_class_new (co_first e) (- 1) ac CLASS_RUN HEADER_COMPACT MIN_UNIT_SIZE 0 1;
                                    if p = 0 then collection_error ac True
                                    else do { c \<leftarrow> ac_store ac p;
                                              let ac = fold (\<lambda>i ac. ac\<lparr>class_map_by_alloc_size := (class_map_by_alloc_size ac)[i := ac_id c]\<rparr>)
                                                         [0..<unat (FIRST_GENERATED_CLASS_SIZE div granularity ac)] ac;
                                              (ok, ac) \<leftarrow> categories_loop (co_next e) (zip categories (tl categories)) 0 ac;
                                              if \<not> ok then collection_error ac True
                                              else do { c \<leftarrow> ac_store ac (aclasses ac ! largest_slot (aclasses ac));
                                                        Some (Some (ac\<lparr>last_run_max_size := run_max_size c\<rparr>)) } } } })"

section \<open>Finding classes\<close>

definition alloc_class_assign_by_size :: "alloc_class_collection \<Rightarrow> u64 \<Rightarrow> (addr \<times> alloc_class_collection) option" where
  "alloc_class_assign_by_size ac sz =
     do { let class_map_index = SIZE_TO_CLASS_MAP_INDEX sz (granularity ac);
          p \<leftarrow> alloc_class_find_min_frag ac (class_map_index * granularity ac);
          c \<leftarrow> ac_store ac p;
          let i = unat class_map_index;
          if i < length (class_map_by_alloc_size ac)
          then Some (p, if class_map_by_alloc_size ac ! i = of_nat MAX_ALLOCATION_CLASSES
                        then ac\<lparr>class_map_by_alloc_size := (class_map_by_alloc_size ac)[i := ac_id c]\<rparr> else ac)
          else None }"

definition alloc_class_by_alloc_size :: "alloc_class_collection \<Rightarrow> u64 \<Rightarrow> (addr \<times> alloc_class_collection) option" where
  "alloc_class_by_alloc_size ac sz =
     (if sz < last_run_max_size ac then
        let i = unat (SIZE_TO_CLASS_MAP_INDEX sz (granularity ac))
        in if i < length (class_map_by_alloc_size ac) then
             let class_id = class_map_by_alloc_size ac ! i
             in if class_id = of_nat MAX_ALLOCATION_CLASSES then
                  if fail_on_missing_class ac then Some (0, ac)
                  else if autogenerate_on_missing_class ac then alloc_class_assign_by_size ac sz
                  else Some (aclasses ac ! DEFAULT_ALLOC_CLASS_ID, ac)
                else Some (aclasses ac ! unat class_id, ac)
           else None
      else Some (aclasses ac ! DEFAULT_ALLOC_CLASS_ID, ac))"

definition alloc_class_by_run :: "alloc_class_collection \<Rightarrow> u64 \<Rightarrow> u16 \<Rightarrow> u32 \<Rightarrow> addr option" where
  "alloc_class_by_run ac unit_size flags sidx =
     cuckoo_get (class_map_by_unit_size ac) (class_key unit_size (granularity ac) flags sidx)"

definition alloc_class_by_id :: "alloc_class_collection \<Rightarrow> nat \<Rightarrow> addr option" where
  "alloc_class_by_id ac i = (if i < length (aclasses ac) then Some (aclasses ac ! i) else None)"

definition alloc_class_calc_size_idx :: "alloc_class \<Rightarrow> u64 \<Rightarrow> int option" where
  "alloc_class_calc_size_idx c sz =
     map_option (\<lambda>hsize.
        let sidx = CALC_SIZE_IDX (ac_unit_size c) (sz + hsize)
        in if ac_type c = CLASS_RUN \<and>
              (ac_header_type c = HEADER_NONE \<and> sidx \<noteq> 1 \<or> sidx > RUN_UNIT_MAX \<or> sidx > run_nallocs c)
           then - 1 else int (unat sidx))
       (header_type_to_size (ac_header_type c))"

end
