(* ===== verification/Alloc_Class_Inv.thy ===== *)
theory Alloc_Class_Inv
  imports Memblock_Init Alloc_Class
begin

text \<open>
  Collections of allocation classes in a consistent state, and the creation of classes. The hash table is
  used through the laws of the locale \<open>kv_table\<close>, as interpreted on \<^verbatim>\<open>cuckoo.c\<close>.
\<close>

unbundle bit_operations_syntax

section \<open>Keys\<close>

lemma key_parts:
  "drop_bit 32 (RUN_CLASS_KEY_PACK a b c) = ucast a"
  "ucast (drop_bit 16 (RUN_CLASS_KEY_PACK a b c)) = b"
  "ucast (RUN_CLASS_KEY_PACK a b c) = c"
  by (rule bit_word_eqI; auto simp: RUN_CLASS_KEY_PACK_def bit_simps dest: bit_imp_le_length)+

lemma key_inject: "RUN_CLASS_KEY_PACK a b c = RUN_CLASS_KEY_PACK a' b' c' \<longleftrightarrow> a = a' \<and> b = b' \<and> c = c'"
  by (metis key_parts ucast_u64_u32)

text \<open>Classes whose unit sizes are multiples of the granularity have different keys.\<close>

lemma class_index:
  assumes "0 < unat u" and "unat u < 2 ^ 34"
  shows "unat (ucast (SIZE_TO_CLASS_MAP_INDEX u 16) :: u32) = (unat u + 15) div 16"
proof -
  have "unat (u - 1) = unat u - 1" using assms(1) by (intro unat_minus_one) auto
  then have d: "unat ((u - 1) div 16) = (unat u - 1) div 16" by (simp add: unat_div)
  moreover have "(unat u - 1) div 16 + 1 = (unat u + 15) div 16" using assms(1) by (cases "unat u") auto
  ultimately have "unat (SIZE_TO_CLASS_MAP_INDEX u 16) = (unat u + 15) div 16"
    using assms(2) unfolding SIZE_TO_CLASS_MAP_INDEX_def by (subst unat_word_ariths) simp
  then show ?thesis using assms(2) by (subst unat_u64_u32) simp_all
qed

lemma class_key_unit:
  assumes "class_key u 16 f s = class_key u' 16 f' s'" and "0 < unat u" "0 < unat u'" "unat u < 2 ^ 34" "unat u' < 2 ^ 34"
    and "16 dvd unat u" "16 dvd unat u'"
  shows "u = u'"
proof -
  have "(unat u + 15) div 16 = (unat u' + 15) div 16"
    using assms(1) class_index [OF assms(2,4)] class_index [OF assms(3,5)] by (simp add: class_key_def key_inject)
  moreover obtain a b where "unat u = 16 * a" "unat u' = 16 * b" using assms(6,7) by (auto elim!: dvdE)
  ultimately show ?thesis by (simp add: word_unat_eq_iff)
qed

section \<open>Invariant\<close>

text \<open>A class of the collection that can serve allocations.\<close>

definition class_ok :: "alloc_class \<Rightarrow> bool" where
  "class_ok c \<longleftrightarrow> 0 < unat (ac_unit_size c) \<and> unat (ac_unit_size c) < 2 ^ 34 \<and> ac_header_type c \<noteq> MAX_HEADER_TYPES \<and>
     (ac_type c = CLASS_HUGE \<or> ac_type c = CLASS_RUN \<and> run_nallocs c \<noteq> 0)"

definition class_at :: "alloc_class_collection \<Rightarrow> nat \<Rightarrow> alloc_class option" where
  "class_at ac i = ac_store ac (aclasses ac ! i)"

definition key_of :: "alloc_class_collection \<Rightarrow> alloc_class \<Rightarrow> u64" where
  "key_of ac c = class_key (ac_unit_size c) (granularity ac) (ac_flags c) (run_size_idx c)"

text \<open>The slots: every pointer in them is null, the mark of a reservation, or a class that has the index
  of the slot as its id, and there are no other classes.\<close>

definition slots_ok :: "alloc_class_collection \<Rightarrow> bool" where
  "slots_ok ac \<longleftrightarrow> length (aclasses ac) = MAX_ALLOCATION_CLASSES \<and> ac_store ac 0 = None \<and> ac_store ac ACLASS_RESERVED = None \<and>
     (\<forall>i < MAX_ALLOCATION_CLASSES. aclasses ac ! i = 0 \<or> aclasses ac ! i = ACLASS_RESERVED \<or> (\<exists>c. class_at ac i = Some c \<and> unat (ac_id c) = i)) \<and>
     (\<forall>p c. ac_store ac p = Some c \<longrightarrow> class_ok c \<and> unat (ac_id c) < MAX_ALLOCATION_CLASSES \<and> aclasses ac ! unat (ac_id c) = p)"

text \<open>The hash table: exactly the classes for runs, under their keys.\<close>

definition keys_ok :: "alloc_class_collection \<Rightarrow> bool" where
  "keys_ok ac \<longleftrightarrow> cuckoo_inv (class_map_by_unit_size ac) \<and>
     (\<forall>k p. cuckoo_view (class_map_by_unit_size ac) k = Some p \<longleftrightarrow>
        (\<exists>c. ac_store ac p = Some c \<and> ac_type c = CLASS_RUN \<and> key_of ac c = k))"

text \<open>A class suits a size when it has a header and, for runs, needs at most eight units.\<close>

definition class_units :: "alloc_class \<Rightarrow> nat \<Rightarrow> nat \<Rightarrow> nat" where
  "class_units c hsize n = (n + hsize + unat (ac_unit_size c) - 1) div unat (ac_unit_size c)"

definition hsize_of :: "alloc_class \<Rightarrow> nat" where
  "hsize_of c = (case header_type_to_size (ac_header_type c) of Some h \<Rightarrow> unat h | None \<Rightarrow> 0)"

definition suits :: "alloc_class \<Rightarrow> nat \<Rightarrow> bool" where
  "suits c n \<longleftrightarrow> ac_header_type c \<noteq> HEADER_NONE \<and> (ac_type c = CLASS_RUN \<longrightarrow> class_units c (hsize_of c) n \<le> 8)"

definition sizes_ok :: "alloc_class_collection \<Rightarrow> bool" where
  "sizes_ok ac \<longleftrightarrow> granularity ac = ALLOC_BLOCK_SIZE \<and> length (class_map_by_alloc_size ac) = 163841 \<and>
     last_run_max_size ac \<le> MAX_RUN_SIZE \<and>
     (\<forall>i < 163841. class_map_by_alloc_size ac ! i \<noteq> - 1 \<longrightarrow>
        (\<exists>c. class_at ac (unat (class_map_by_alloc_size ac ! i)) = Some c \<and> suits c (16 * i)))"

definition ac_inv :: "alloc_class_collection \<Rightarrow> bool" where
  "ac_inv ac \<longleftrightarrow> slots_ok ac \<and> keys_ok ac \<and> sizes_ok ac \<and>
     (\<exists>c. class_at ac DEFAULT_ALLOC_CLASS_ID = Some c \<and> ac_type c = CLASS_HUGE \<and> ac_header_type c \<noteq> HEADER_NONE)"

lemma slot_id:
  assumes "slots_ok ac" and "i < MAX_ALLOCATION_CLASSES" and "class_at ac i = Some c"
  shows "aclasses ac ! i \<noteq> 0" and "aclasses ac ! i \<noteq> ACLASS_RESERVED" and "class_ok c" and "unat (ac_id c) = i"
proof -
  show nz: "aclasses ac ! i \<noteq> 0" "aclasses ac ! i \<noteq> ACLASS_RESERVED" using assms by (metis slots_ok_def class_at_def option.distinct(1))+
  show "class_ok c" using assms by (auto simp: slots_ok_def class_at_def)
  show "unat (ac_id c) = i" using assms nz by (fastforce simp: slots_ok_def)
qed

lemma by_run_spec:
  assumes "keys_ok ac"
  shows "alloc_class_by_run ac u f s = Some p \<longleftrightarrow>
    (if p = 0 then \<forall>q c. ac_store ac q = Some c \<and> ac_type c = CLASS_RUN \<longrightarrow> key_of ac c \<noteq> class_key u (granularity ac) f s
     else \<exists>c. ac_store ac p = Some c \<and> ac_type c = CLASS_RUN \<and> key_of ac c = class_key u (granularity ac) f s)"
proof -
  let ?t = "class_map_by_unit_size ac" and ?k = "class_key u (granularity ac) f s"
  have inv: "cuckoo_inv ?t" using assms by (simp add: keys_ok_def)
  have v: "cuckoo_view ?t ?k = Some q \<longleftrightarrow> (\<exists>c. ac_store ac q = Some c \<and> ac_type c = CLASS_RUN \<and> key_of ac c = ?k)" for q
    using assms by (simp add: keys_ok_def)
  have g: "alloc_class_by_run ac u f s = Some (case cuckoo_view ?t ?k of None \<Rightarrow> 0 | Some v \<Rightarrow> v)"
    unfolding alloc_class_by_run_def by (rule ck.get_law [OF inv])
  show ?thesis
  proof (cases "cuckoo_view ?t ?k")
    case None
    then show ?thesis using v g by (auto split: if_splits)
  next
    case (Some q)
    then have "q \<noteq> 0" using ck.view_nonnull [OF inv] by metis
    then show ?thesis using v [of q] v [of p] g Some by (auto split: if_splits)
  qed
qed

section \<open>New classes\<close>

definition class_flags :: "header_type \<Rightarrow> u64 \<Rightarrow> u16" where
  "class_flags htype alignment =
     ((case header_type_to_flag htype of Some f \<Rightarrow> f | None \<Rightarrow> 0) OR (if alignment \<noteq> 0 then CHUNK_FLAG_ALIGNED else 0)) OR ALLOC_CLASS_DEFAULT_FLAGS"

lemma class_flags_flex: "class_flags htype alignment AND CHUNK_FLAG_FLEX_BITMAP \<noteq> 0"
proof -
  have "bit (class_flags htype alignment AND CHUNK_FLAG_FLEX_BITMAP) 3"
    by (simp add: class_flags_def ALLOC_CLASS_DEFAULT_FLAGS_def CHUNK_FLAG_FLEX_BITMAP_def bit_simps)
  then show ?thesis by (metis bit_0_eq bot_apply bot_bool_def)
qed

lemma set_slot_simps [simp]:
  "aclasses (set_slot_class n p ac) = (aclasses ac)[n := p]" "ac_store (set_slot_class n p ac) = ac_store ac"
  "class_map_by_unit_size (set_slot_class n p ac) = class_map_by_unit_size ac"
  "class_map_by_alloc_size (set_slot_class n p ac) = class_map_by_alloc_size ac"
  "granularity (set_slot_class n p ac) = granularity ac" "last_run_max_size (set_slot_class n p ac) = last_run_max_size ac"
  "fail_on_missing_class (set_slot_class n p ac) = fail_on_missing_class ac"
  "autogenerate_on_missing_class (set_slot_class n p ac) = autogenerate_on_missing_class ac"
  by (simp_all add: set_slot_class_def)

text \<open>Putting a new class into a slot without one.\<close>

lemma install_slots:
  assumes ok: "slots_ok ac" and n: "n < MAX_ALLOCATION_CLASSES" "ac_store ac (aclasses ac ! n) = None"
    and p: "ac_store ac p = None" "p \<noteq> 0" "p \<noteq> ACLASS_RESERVED" and c: "class_ok c" "unat (ac_id c) = n"
    and ac': "aclasses ac' = (aclasses ac)[n := p]" "ac_store ac' = (ac_store ac)(p \<mapsto> c)"
  shows "slots_ok ac'" and "\<And>i d. class_at ac i = Some d \<Longrightarrow> i < MAX_ALLOCATION_CLASSES \<Longrightarrow> class_at ac' i = Some d"
proof -
  note S = ok [unfolded slots_ok_def]
  have len: "length (aclasses ac) = MAX_ALLOCATION_CLASSES" using S by simp
  have other: "aclasses ac' ! i = aclasses ac ! i" if "i \<noteq> n" for i using that by (simp add: ac')
  have at: "class_at ac' i = class_at ac i" if "i \<noteq> n" "aclasses ac ! i \<noteq> p" for i
    using that by (simp add: class_at_def ac')
  show kept: "class_at ac' i = Some d" if "class_at ac i = Some d" "i < MAX_ALLOCATION_CLASSES" for i d
    using that n(2) p(1) by (metis at class_at_def option.distinct(1))
  have "aclasses ac' ! i = 0 \<or> aclasses ac' ! i = ACLASS_RESERVED \<or> (\<exists>d. class_at ac' i = Some d \<and> unat (ac_id d) = i)"
    if i: "i < MAX_ALLOCATION_CLASSES" for i
  proof (cases "i = n")
    case True
    then show ?thesis using c(2) len n by (simp add: class_at_def ac')
  next
    case False
    then show ?thesis using S i kept other by metis
  qed
  moreover have "class_ok d \<and> unat (ac_id d) < MAX_ALLOCATION_CLASSES \<and> aclasses ac' ! unat (ac_id d) = q" if "ac_store ac' q = Some d" for q d
  proof (cases "q = p")
    case True
    then show ?thesis using that c n len by (simp add: ac')
  next
    case False
    then have q: "ac_store ac q = Some d" using that by (simp add: ac')
    then have d: "class_ok d" "unat (ac_id d) < MAX_ALLOCATION_CLASSES" "aclasses ac ! unat (ac_id d) = q" using S by auto
    then have "unat (ac_id d) \<noteq> n" using q n(2) by auto
    then show ?thesis using d other by simp
  qed
  ultimately show "slots_ok ac'"
    using S p unfolding slots_ok_def by (simp add: ac')
qed

lemma install_keys:
  assumes ok: "keys_ok ac" and p: "ac_store ac p = None" and c: "ac_type c = CLASS_RUN"
    and view: "cuckoo_inv t" "cuckoo_view t = (cuckoo_view (class_map_by_unit_size ac))(key_of ac c \<mapsto> p)"
    and new: "cuckoo_view (class_map_by_unit_size ac) (key_of ac c) = None"
    and ac': "class_map_by_unit_size ac' = t" "ac_store ac' = (ac_store ac)(p \<mapsto> c)" "granularity ac' = granularity ac"
  shows "keys_ok ac'"
proof -
  have k: "key_of ac' d = key_of ac d" for d by (simp add: key_of_def ac')
  have "cuckoo_view t k = Some q \<longleftrightarrow> (\<exists>d. ac_store ac' q = Some d \<and> ac_type d = CLASS_RUN \<and> key_of ac d = k)" for k q
  proof -
    have v: "cuckoo_view (class_map_by_unit_size ac) k = Some q \<longleftrightarrow> (\<exists>d. ac_store ac q = Some d \<and> ac_type d = CLASS_RUN \<and> key_of ac d = k)" for k q
      using ok by (simp add: keys_ok_def)
    show ?thesis
      using v [of k q] v [of "key_of ac c" q] p c new by (auto simp: view(2) ac' split: if_splits)
  qed
  then show ?thesis using view(1) by (simp add: keys_ok_def ac' k)
qed

text \<open>The outcome of creating a class for runs: \<open>i\<close> is the requested id, or negative.\<close>

definition class_failed :: "int \<Rightarrow> alloc_class_collection \<Rightarrow> alloc_class_collection \<Rightarrow> bool" where
  "class_failed i ac ac' \<longleftrightarrow> (\<exists>t. ac' = ac\<lparr>aclasses := (if i < 0 then aclasses ac else (aclasses ac)[nat i := 0]), class_map_by_unit_size := t\<rparr>)"

definition class_made :: "int \<Rightarrow> alloc_class_collection \<Rightarrow> addr \<Rightarrow> nat \<Rightarrow> alloc_class \<Rightarrow> alloc_class_collection \<Rightarrow> bool" where
  "class_made i ac p n c ac' \<longleftrightarrow> n < MAX_ALLOCATION_CLASSES \<and> (if i < 0 then aclasses ac ! n = 0 else n = nat i) \<and> unat (ac_id c) = n \<and>
     slots_ok ac' \<and> keys_ok ac' \<and>
     (\<exists>t. ac' = ac\<lparr>aclasses := (aclasses ac)[n := p], class_map_by_unit_size := t, ac_store := (ac_store ac)(p \<mapsto> c)\<rparr>)"

definition may_create :: "class_env \<Rightarrow> int \<Rightarrow> alloc_class_collection \<Rightarrow> bool" where
  "may_create env i ac \<longleftrightarrow> ac_store ac (ce_malloc env) = None \<and> ce_malloc env \<noteq> ACLASS_RESERVED \<and>
     (i = - 1 \<or> 0 \<le> i \<and> i < 255 \<and> aclasses ac ! nat i = ACLASS_RESERVED)"

lemma first_free_slot:
  assumes "slots_ok ac"
  shows "alloc_class_find_first_free_slot ac = (None, ac) \<or>
    (\<exists>n < MAX_ALLOCATION_CLASSES. aclasses ac ! n = 0 \<and> alloc_class_find_first_free_slot ac = (Some n, set_slot_class n ACLASS_RESERVED ac))"
  by (auto simp: alloc_class_find_first_free_slot_def find_Some_iff split: option.splits)

lemma list_update_id': "xs ! k = x \<Longrightarrow> xs[k := x] = xs"
  by auto

lemma id_of_slot: "n < 255 \<Longrightarrow> unat (of_int (int n) :: byte) = n"
  by (simp add: unat_of_nat)

lemma alloc_class_new_run_spec:
  assumes ok: "slots_ok ac" "keys_ok ac" and env: "may_create env i ac"
    and ht: "htype \<noteq> MAX_HEADER_TYPES" and u: "unat u < 2 ^ 34" and s: "unat sidx \<le> 65535"
    and fit: "run_fits (unat sidx) (class_flags htype al) u al"
    and new: "alloc_class_by_run ac u (class_flags htype al) sidx = Some 0"
  shows "\<exists>q ac'. alloc_class_new env i ac CLASS_RUN htype u al sidx = Some (q, ac') \<and>
    (if q = 0 then class_failed i ac ac'
     else q = ce_malloc env \<and> (\<exists>n c. class_made i ac q n c ac' \<and> ac_unit_size c = u \<and> ac_header_type c = htype \<and> ac_type c = CLASS_RUN \<and>
       ac_flags c = class_flags htype al \<and> run_alignment c = al \<and> run_size_idx c = sidx \<and>
       run_nallocs c = nbits (snd (memblock_run_bitmap sidx (class_flags htype al) u al 0))))"
proof -
  let ?p = "ce_malloc env" and ?f = "class_flags htype al"
  note S = ok(1) [unfolded slots_ok_def]
  have len: "length (aclasses ac) = 255" using S by (simp add: MAX_ALLOCATION_CLASSES_def)
  obtain hf where hf: "header_type_to_flag htype = Some hf" using ht by (cases htype) auto
  have fl: "(hf OR (if al \<noteq> 0 then CHUNK_FLAG_ALIGNED else 0)) OR ALLOC_CLASS_DEFAULT_FLAGS = ?f" by (simp add: class_flags_def hf)
  obtain b where b: "memblock_run_bitmap sidx ?f u al 0 = (sidx, b)"
    using class_flags_flex [of htype al] by (simp add: memblock_run_bitmap_def Let_def)
  note G = run_geometry [OF s fit b]
  have nb: "nbits b \<noteq> 0" using run_bitmap_okD(1) [OF G(3)] by auto
  have un: "0 < unat u" using fit by (simp add: run_fits_def)
  define c where "c = (ce_old env)\<lparr>ac_unit_size := u, ac_header_type := htype, ac_type := CLASS_RUN, ac_flags := ?f,
    run_alignment := al, run_nallocs := nbits b, run_size_idx := sidx\<rparr>"
  have cf: "ac_unit_size c = u" "ac_header_type c = htype" "ac_type c = CLASS_RUN" "ac_flags c = ?f" "run_alignment c = al"
    "run_size_idx c = sidx" "run_nallocs c = nbits b" by (simp_all add: c_def)
  have key: "key_of ac c = class_key u (granularity ac) ?f sidx" by (simp add: key_of_def cf)
  have inv: "cuckoo_inv (class_map_by_unit_size ac)" using ok(2) by (simp add: keys_ok_def)
  have absent: "cuckoo_view (class_map_by_unit_size ac) (key_of ac c) = None"
    using new ck.absent [OF inv] unfolding key alloc_class_by_run_def by simp
  show ?thesis
  proof (cases "?p = 0")
    case True
    then show ?thesis using env S
      by (auto simp: alloc_class_new_def class_error_def class_failed_def may_create_def alloc_class_reservation_clear_def set_slot_class_def
          intro!: exI [of _ "class_map_by_unit_size ac"])
  next
    case False
    obtain r t where ins: "cuckoo_insert (ce_grow env) (class_map_by_unit_size ac) (key_of ac c) ?p = Some (r, t)"
      "r = None \<Longrightarrow> cuckoo_inv t \<and> cuckoo_view t = (cuckoo_view (class_map_by_unit_size ac))(key_of ac c \<mapsto> ?p)"
      using ck.ins_law [OF inv False absent] by blast
    define c0 where "c0 = (ce_old env)\<lparr>ac_unit_size := u, ac_header_type := htype, ac_type := CLASS_RUN, ac_flags := ?f\<rparr>"
    have c0: "c0\<lparr>run_alignment := al, run_nallocs := nbits b, run_size_idx := sidx\<rparr> = c" by (simp add: c0_def c_def)
    obtain n ac1 where slot: "(if i < 0 then alloc_class_find_first_free_slot ac else (Some (nat (i mod 256)), ac)) = (n, ac1)" by fastforce
    have ac1: "class_map_by_unit_size ac1 = class_map_by_unit_size ac" "granularity ac1 = granularity ac" "ac_store ac1 = ac_store ac"
      using slot first_free_slot [OF ok(1)] by (auto split: if_splits)
    have "alloc_class_new_run env i ac c0 al sidx = (case n of None \<Rightarrow> Some (None, i, c, ac1)
        | Some n \<Rightarrow> Some (if r \<noteq> None then None else Some (int n), int n, c, ac1\<lparr>class_map_by_unit_size := t\<rparr>))"
      unfolding alloc_class_new_run_def Let_def slot
      by (simp add: c0_def c_def b ac1 ins(1) [unfolded key] split: option.splits)
    then have run: "alloc_class_new env i ac CLASS_RUN htype u al sidx = (case n of None \<Rightarrow> Some (class_error i ac1)
        | Some n \<Rightarrow> if r \<noteq> None then Some (class_error (int n) (ac1\<lparr>class_map_by_unit_size := t\<rparr>))
            else let c = c\<lparr>ac_id := of_int (int n)\<rparr>; n = unat (ac_id c) in
              if n < MAX_ALLOCATION_CLASSES
              then Some (?p, (set_slot_class n ?p (ac1\<lparr>class_map_by_unit_size := t\<rparr>))\<lparr>ac_store := (ac_store ac)(?p \<mapsto> c)\<rparr>) else None)"
      using False unfolding alloc_class_new_def hf
      by (simp add: fl c0_def [symmetric] ac1 Let_def split del: if_split split: option.split) (simp add: ac1 split: option.split)
    consider "n = None" "ac1 = ac" "i < 0" | k where "n = Some k" "k < 255" "if i < 0 then aclasses ac ! k = 0 else k = nat i"
        "aclasses ac1 ! k = ACLASS_RESERVED" "\<And>q. (aclasses ac1)[k := q] = (aclasses ac)[k := q]" "ac1 = ac\<lparr>aclasses := aclasses ac1\<rparr>"
        "ac_store ac (aclasses ac ! k) = None"
      using slot first_free_slot [OF ok(1)] env S len
      by (auto simp: may_create_def MAX_ALLOCATION_CLASSES_def set_slot_class_def split: if_splits)
    then show ?thesis
    proof cases
      case 1
      then show ?thesis by (auto simp: run class_error_def class_failed_def intro!: exI [of _ "class_map_by_unit_size ac"])
    next
      case (2 k)
      show ?thesis
      proof (cases "r = None")
        case False
        have "(aclasses ac)[k := 0] = (if i < 0 then aclasses ac else (aclasses ac)[nat i := 0])"
          using 2(3) by (auto split: if_splits intro: list_update_id')
        then have "class_failed i ac (ac1\<lparr>class_map_by_unit_size := t, aclasses := (aclasses ac1)[k := 0]\<rparr>)"
          unfolding class_failed_def 2(5) by (subst 2(6)) (auto intro!: exI [of _ t])
        then show ?thesis using False 2(1,4)
          by (simp add: run class_error_def alloc_class_reservation_clear_def set_slot_class_def)
      next
        case True
        let ?c = "c\<lparr>ac_id := of_int (int k)\<rparr>"
        let ?ac = "ac\<lparr>aclasses := (aclasses ac)[k := ?p], class_map_by_unit_size := t, ac_store := (ac_store ac)(?p \<mapsto> ?c)\<rparr>"
        have id: "unat (ac_id ?c) = k" using id_of_slot [OF 2(2)] by simp
        have ce: "(set_slot_class k ?p (ac1\<lparr>class_map_by_unit_size := t\<rparr>))\<lparr>ac_store := (ac_store ac)(?p \<mapsto> ?c)\<rparr> = ?ac"
          unfolding set_slot_class_def by (simp add: 2(5)) (subst 2(6), simp)
        have cok: "class_ok ?c" using ht un u nb by (simp add: class_ok_def cf)
        have fresh: "ac_store ac ?p = None" "?p \<noteq> ACLASS_RESERVED" using env by (simp_all add: may_create_def)
        have k255: "k < MAX_ALLOCATION_CLASSES" using 2(2) by (simp add: MAX_ALLOCATION_CLASSES_def)
        have "slots_ok ?ac" by (rule install_slots [OF ok(1) k255 2(7) fresh(1) \<open>?p \<noteq> 0\<close> fresh(2) cok id]) simp_all
        moreover have "key_of ac ?c = key_of ac c" by (simp add: key_of_def)
        then have "keys_ok ?ac"
          using ins(2) [OF True] absent by (intro install_keys [OF ok(2) fresh(1), of ?c t]) (simp_all add: cf)
        ultimately have "class_made i ac ?p k ?c ?ac" using k255 2(3) id by (auto simp: class_made_def)
        moreover have "alloc_class_new env i ac CLASS_RUN htype u al sidx = Some (?p, ?ac)"
          using k255 id unfolding run 2(1) Let_def ce [symmetric] by (simp add: True)
        ultimately show ?thesis using \<open>?p \<noteq> 0\<close> b cf by (intro exI [of _ ?p] exI [of _ ?ac]) (auto intro!: exI [of _ k] exI [of _ ?c])
      qed
    qed
  qed
qed

lemma class_made_keeps:
  assumes "class_made i ac p n c ac'" and "slots_ok ac" and "ac_store ac p = None" and "ac_store ac (aclasses ac ! n) = None"
  shows "j < MAX_ALLOCATION_CLASSES \<Longrightarrow> class_at ac j = Some d \<Longrightarrow> class_at ac' j = Some d" and "ac_store ac' p = Some c"
    and "aclasses ac' ! n = p" and "j \<noteq> n \<Longrightarrow> aclasses ac' ! j = aclasses ac ! j"
proof -
  obtain t where e: "ac' = ac\<lparr>aclasses := (aclasses ac)[n := p], class_map_by_unit_size := t, ac_store := (ac_store ac)(p \<mapsto> c)\<rparr>"
    and n: "n < MAX_ALLOCATION_CLASSES" using assms(1) unfolding class_made_def by blast
  have len: "length (aclasses ac) = MAX_ALLOCATION_CLASSES" using assms(2) by (simp add: slots_ok_def)
  show "ac_store ac' p = Some c" "aclasses ac' ! n = p" using n len by (simp_all add: e)
  show o: "aclasses ac' ! j = aclasses ac ! j" if "j \<noteq> n" using that by (simp add: e)
  show "class_at ac' j = Some d" if "class_at ac j = Some d"
  proof -
    have "j \<noteq> n" "aclasses ac ! j \<noteq> p" using that assms(3,4) by (auto simp: class_at_def)
    then show ?thesis using that o by (simp add: class_at_def) (simp add: e)
  qed
qed

lemma byte_id: "b \<noteq> - 1 \<Longrightarrow> unat (b :: byte) < 255"
proof -
  assume "b \<noteq> - 1"
  then have "unat b \<noteq> unat (- 1 :: byte)" by (simp add: word_unat_eq_iff)
  then have "unat b \<noteq> 255" by (simp add: unsigned_minus_1_eq_mask mask_eq_exp_minus_1)
  moreover have "unat b < 2 ^ LENGTH(8)" by (rule unsigned_less)
  ultimately show ?thesis by simp
qed

lemma sizes_frame:
  assumes "sizes_ok ac" and "\<And>j d. j < MAX_ALLOCATION_CLASSES \<Longrightarrow> class_at ac j = Some d \<Longrightarrow> class_at ac' j = Some d"
    and "granularity ac' = granularity ac" "class_map_by_alloc_size ac' = class_map_by_alloc_size ac" "last_run_max_size ac' = last_run_max_size ac"
  shows "sizes_ok ac'"
  using assms byte_id unfolding sizes_ok_def MAX_ALLOCATION_CLASSES_def by (metis (no_types, lifting))

lemma free_slot_store:
  assumes "slots_ok ac" and "may_create env i ac" and "class_made i ac p n c ac'"
  shows "ac_store ac (aclasses ac ! n) = None"
  using assms by (auto simp: slots_ok_def may_create_def class_made_def split: if_splits)

text \<open>C39. A class that is created is registered under its parameters and its id. With a collection in a
  consistent state, a slot reserved by the caller or any free one, and parameters that fit a run and that
  no class has yet, \<open>alloc_class_new\<close> returns; when it fails the slots are as before without the
  reservation, and when it succeeds the collection is consistent, the class is found by its run and by
  its id, it has the number of units of its bitmap, and no other lookup changes.\<close>

theorem alloc_class_registered:
  assumes "ac_inv ac" and "may_create env i ac" and "htype \<noteq> MAX_HEADER_TYPES" and "unat u < 2 ^ 34" and "unat sidx \<le> 65535"
    and "run_fits (unat sidx) (class_flags htype al) u al" and "alloc_class_by_run ac u (class_flags htype al) sidx = Some 0"
  shows "\<exists>p ac'. alloc_class_new env i ac CLASS_RUN htype u al sidx = Some (p, ac') \<and>
    (if p = 0 then ac_store ac' = ac_store ac \<and> aclasses ac' = (if i < 0 then aclasses ac else (aclasses ac)[nat i := 0])
     else ac_inv ac' \<and> alloc_class_by_run ac' u (class_flags htype al) sidx = Some p \<and>
       (\<forall>u' f' s'. class_key u' 16 f' s' \<noteq> class_key u 16 (class_flags htype al) sidx \<longrightarrow>
          alloc_class_by_run ac' u' f' s' = alloc_class_by_run ac u' f' s') \<and>
       (\<exists>n c. (i < 0 \<or> n = nat i) \<and> alloc_class_by_id ac' n = Some p \<and> ac_store ac' p = Some c \<and> unat (ac_id c) = n \<and>
          ac_unit_size c = u \<and> ac_header_type c = htype \<and>
          run_nallocs c = nbits (snd (memblock_run_bitmap sidx (class_flags htype al) u al 0)) \<and>
          (\<forall>m. m \<noteq> n \<longrightarrow> alloc_class_by_id ac' m = alloc_class_by_id ac m)))"
proof -
  let ?f = "class_flags htype al"
  note I = assms(1) [unfolded ac_inv_def]
  have g: "granularity ac = 16" using I by (simp add: sizes_ok_def ALLOC_BLOCK_SIZE_def)
  obtain q ac' where run: "alloc_class_new env i ac CLASS_RUN htype u al sidx = Some (q, ac')" and
    res: "if q = 0 then class_failed i ac ac' else q = ce_malloc env \<and> (\<exists>n c. class_made i ac q n c ac' \<and> ac_unit_size c = u \<and>
       ac_header_type c = htype \<and> ac_type c = CLASS_RUN \<and> ac_flags c = ?f \<and> run_alignment c = al \<and> run_size_idx c = sidx \<and>
       run_nallocs c = nbits (snd (memblock_run_bitmap sidx ?f u al 0)))"
    using alloc_class_new_run_spec [OF _ _ assms(2-7)] I by blast
  show ?thesis
  proof (cases "q = 0")
    case True
    then show ?thesis using run res by (auto simp: class_failed_def)
  next
    case False
    then obtain n c where made: "class_made i ac q n c ac'" and q: "q = ce_malloc env" and c: "ac_unit_size c = u" "ac_header_type c = htype"
      "ac_type c = CLASS_RUN" "ac_flags c = ?f" "run_size_idx c = sidx" "run_nallocs c = nbits (snd (memblock_run_bitmap sidx ?f u al 0))"
      using res unfolding if_not_P [OF False] by blast
    have fresh: "ac_store ac q = None" using assms(2) q by (simp add: may_create_def)
    note free = free_slot_store [OF conjunct1 [OF I] assms(2) made]
    note K = class_made_keeps [OF made conjunct1 [OF I] fresh free]
    have fr: "granularity ac' = granularity ac" "class_map_by_alloc_size ac' = class_map_by_alloc_size ac"
      "last_run_max_size ac' = last_run_max_size ac" "ac_store ac' = (ac_store ac)(q \<mapsto> c)" "length (aclasses ac') = length (aclasses ac)"
    proof -
      obtain t where "ac' = ac\<lparr>aclasses := (aclasses ac)[n := q], class_map_by_unit_size := t, ac_store := (ac_store ac)(q \<mapsto> c)\<rparr>"
        using made unfolding class_made_def by blast
      then show "granularity ac' = granularity ac" "class_map_by_alloc_size ac' = class_map_by_alloc_size ac"
        "last_run_max_size ac' = last_run_max_size ac" "ac_store ac' = (ac_store ac)(q \<mapsto> c)" "length (aclasses ac') = length (aclasses ac)"
        by simp_all
    qed
    have sk: "slots_ok ac'" "keys_ok ac'" "n < MAX_ALLOCATION_CLASSES" "unat (ac_id c) = n" "i < 0 \<or> n = nat i"
      using made unfolding class_made_def by (auto split: if_splits)
    have len: "length (aclasses ac) = MAX_ALLOCATION_CLASSES" using I by (simp add: slots_ok_def)
    have "sizes_ok ac'" using sizes_frame [OF _ K(1) fr(1-3)] I by blast
    moreover have "DEFAULT_ALLOC_CLASS_ID < MAX_ALLOCATION_CLASSES" by (simp add: DEFAULT_ALLOC_CLASS_ID_def MAX_ALLOCATION_CLASSES_def)
    ultimately have inv: "ac_inv ac'" using sk K(1) I unfolding ac_inv_def by blast
    have key: "key_of ac' d = key_of ac d" for d by (simp add: key_of_def fr)
    have kc: "key_of ac c = class_key u 16 ?f sidx" by (simp add: key_of_def c g)
    have "alloc_class_by_run ac' u ?f sidx = Some q"
      using False by (subst by_run_spec [OF sk(2)]) (simp add: fr key kc c g)
    moreover have "alloc_class_by_run ac' u' f' s' = alloc_class_by_run ac u' f' s'" if ne: "class_key u' 16 f' s' \<noteq> class_key u 16 ?f sidx" for u' f' s'
    proof -
      have ck: "keys_ok ac" using I by blast
      obtain p where p: "alloc_class_by_run ac u' f' s' = Some p"
        unfolding alloc_class_by_run_def using ck.get_law ck by (auto simp: keys_ok_def)
      have "alloc_class_by_run ac' u' f' s' = Some p"
        using p ne fresh kc by (subst by_run_spec [OF sk(2)], subst (asm) by_run_spec [OF ck]) (auto simp: fr key g split: if_splits)
      then show ?thesis using p by simp
    qed
    moreover have "\<exists>n c. (i < 0 \<or> n = nat i) \<and> alloc_class_by_id ac' n = Some q \<and> ac_store ac' q = Some c \<and> unat (ac_id c) = n \<and>
        ac_unit_size c = u \<and> ac_header_type c = htype \<and> run_nallocs c = nbits (snd (memblock_run_bitmap sidx ?f u al 0)) \<and>
        (\<forall>m. m \<noteq> n \<longrightarrow> alloc_class_by_id ac' m = alloc_class_by_id ac m)"
      using K(2-4) sk(3-5) c fr(5) len by (intro exI [of _ n] exI [of _ c]) (simp add: alloc_class_by_id_def)
    ultimately show ?thesis using run False inv by auto
  qed
qed

section \<open>A concrete collection\<close>

definition no_reservation :: "alloc_class_collection \<Rightarrow> bool" where
  "no_reservation ac \<longleftrightarrow> (\<forall>i < MAX_ALLOCATION_CLASSES. aclasses ac ! i \<noteq> ACLASS_RESERVED)"

lemma empty_slots:
  assumes "aclasses ac = replicate MAX_ALLOCATION_CLASSES 0" "ac_store ac = Map.empty"
  shows "slots_ok ac" "no_reservation ac"
  using assms by (simp_all add: slots_ok_def no_reservation_def ACLASS_RESERVED_def)

lemma compact_flags: "class_flags HEADER_COMPACT 0 = 9"
  by (simp add: class_flags_def CHUNK_FLAG_COMPACT_HEADER_def ALLOC_CLASS_DEFAULT_FLAGS_def CHUNK_FLAG_FLEX_BITMAP_def)

lemma compact_fits: "8 \<le> unat n \<Longrightarrow> unat n + 64 \<le> 262144 * unat r \<Longrightarrow> run_fits (unat r) (class_flags HEADER_COMPACT 0) n 0"
  by (simp add: run_fits_def compact_flags CHUNK_FLAG_FLEX_BITMAP_def CHUNK_FLAG_ALIGNED_def)

definition sample_class :: alloc_class where
  "sample_class = \<lparr>ac_id = 0, ac_flags = 9, ac_unit_size = CHUNKSIZE, ac_header_type = HEADER_COMPACT, ac_type = CLASS_HUGE,
     run_size_idx = 0, run_alignment = 0, run_nallocs = 0\<rparr>"

definition sample_class_env :: "addr \<Rightarrow> class_env" where
  "sample_class_env p = \<lparr>ce_malloc = p, ce_old = sample_class, ce_grow = (\<lambda>_ _. True)\<rparr>"

definition sample_table :: cuckoo where
  "sample_table = \<lparr>cuckoo_size = INITIAL_SIZE, cuckoo_tab = replicate INITIAL_SIZE null_slot\<rparr>"

text \<open>A collection with the class of huge blocks only.\<close>

definition sample_classes :: alloc_class_collection where
  "sample_classes = \<lparr>granularity = ALLOC_BLOCK_SIZE, aclasses = (replicate MAX_ALLOCATION_CLASSES 0)[0 := 1], last_run_max_size = MAX_RUN_SIZE,
     class_map_by_alloc_size = replicate 163841 (- 1), class_map_by_unit_size = sample_table,
     fail_on_missing_class = False, autogenerate_on_missing_class = True, ac_store = [1 \<mapsto> sample_class]\<rparr>"

lemma sample_classes_ok: "ac_inv sample_classes" "\<forall>i < MAX_ALLOCATION_CLASSES. aclasses sample_classes ! i \<noteq> ACLASS_RESERVED"
proof -
  let ?e = "sample_classes\<lparr>aclasses := replicate MAX_ALLOCATION_CLASSES 0, ac_store := Map.empty\<rparr>"
  have t: "cuckoo_inv sample_table \<and> cuckoo_view sample_table = Map.empty"
    by (rule cuckoo_new_spec [of True True]) (simp add: cuckoo_new_def sample_table_def)
  have n: "0 < MAX_ALLOCATION_CLASSES" by (simp add: MAX_ALLOCATION_CLASSES_def)
  have c: "class_ok sample_class" "unat (ac_id sample_class) = 0" by (simp_all add: class_ok_def sample_class_def CHUNKSIZE_def)
  have "slots_ok sample_classes"
    by (rule install_slots(1) [OF empty_slots(1) [of ?e] n, of 1 sample_class]) (simp_all add: sample_classes_def ACLASS_RESERVED_def c)
  moreover have "keys_ok sample_classes" using t by (auto simp: keys_ok_def sample_classes_def sample_class_def)
  moreover have "sizes_ok sample_classes" by (simp add: sizes_ok_def sample_classes_def)
  ultimately show "ac_inv sample_classes"
    by (auto simp: ac_inv_def class_at_def sample_classes_def DEFAULT_ALLOC_CLASS_ID_def MAX_ALLOCATION_CLASSES_def) (auto simp: sample_class_def)
  show "\<forall>i < MAX_ALLOCATION_CLASSES. aclasses sample_classes ! i \<noteq> ACLASS_RESERVED"
    by (auto simp: sample_classes_def nth_list_update ACLASS_RESERVED_def)
qed

theorem alloc_class_registered_witness:
  "\<exists>p ac'. alloc_class_new (sample_class_env 2) (- 1) sample_classes CLASS_RUN HEADER_COMPACT 128 0 1 = Some (p, ac') \<and>
     (p \<noteq> 0 \<longrightarrow> ac_inv ac' \<and> alloc_class_by_run ac' 128 (class_flags HEADER_COMPACT 0) 1 = Some p)"
proof -
  have a: "may_create (sample_class_env 2) (- 1) sample_classes" "HEADER_COMPACT \<noteq> MAX_HEADER_TYPES" "unat (128 :: u64) < 2 ^ 34" "unat (1 :: u32) \<le> 65535"
    by (simp_all add: may_create_def sample_class_env_def sample_classes_def ACLASS_RESERVED_def)
  have f: "run_fits (unat (1 :: u32)) (class_flags HEADER_COMPACT 0) 128 0" by (rule compact_fits) simp_all
  have k: "keys_ok sample_classes" using sample_classes_ok(1) by (simp add: ac_inv_def)
  have b: "alloc_class_by_run sample_classes 128 (class_flags HEADER_COMPACT 0) 1 = Some 0"
    by (subst by_run_spec [OF k]) (simp add: sample_classes_def sample_class_def)
  obtain p ac' where n: "alloc_class_new (sample_class_env 2) (- 1) sample_classes CLASS_RUN HEADER_COMPACT 128 0 1 = Some (p, ac')"
    "p \<noteq> 0 \<longrightarrow> ac_inv ac' \<and> alloc_class_by_run ac' 128 (class_flags HEADER_COMPACT 0) 1 = Some p"
    using alloc_class_registered [OF sample_classes_ok(1) a f b] by (metis (full_types))
  then show ?thesis by blast
qed

end
