(* ===== verification/Alloc_Class_Sizes.thy ===== *)
theory Alloc_Class_Sizes
  imports Alloc_Class_Inv
begin

text \<open>
  The class for an allocation size: the search for the class with the least waste against its definition
  over numbers, and the map that remembers its results.
\<close>

unbundle bit_operations_syntax

section \<open>Fragmentation\<close>

text \<open>What an allocation wastes in a class, as a number: the rest of its last unit, and for runs its share
  of the units that are left over when a run is filled with such allocations.\<close>

definition class_frag :: "alloc_class \<Rightarrow> nat \<Rightarrow> nat" where
  "class_frag c n =
     (let k = class_units c (hsize_of c) n
      in k * unat (ac_unit_size c) - (n + hsize_of c) +
         (if ac_type c = CLASS_RUN then unat (run_nallocs c) mod k * unat (ac_unit_size c) div unat (run_nallocs c) else 0))"

definition fits_exactly :: "alloc_class \<Rightarrow> nat \<Rightarrow> bool" where
  "fits_exactly c n \<longleftrightarrow> class_units c (hsize_of c) n * unat (ac_unit_size c) = n + hsize_of c"

lemma hsize_le: "header_type_to_size t = Some h \<Longrightarrow> unat h \<le> 64"
  by (cases t) auto

lemma hsize_of_ok: "class_ok c \<Longrightarrow> \<exists>h. header_type_to_size (ac_header_type c) = Some h \<and> unat h = hsize_of c \<and> hsize_of c \<le> 64"
  by (cases "ac_header_type c") (auto simp: class_ok_def hsize_of_def)

lemma class_units_bounds:
  assumes "0 < unat (ac_unit_size c)" and "0 < n"
  shows "n + h \<le> class_units c h n * unat (ac_unit_size c)" and "class_units c h n * unat (ac_unit_size c) < n + h + unat (ac_unit_size c)"
    and "0 < class_units c h n" and "class_units c h n \<le> n + h"
proof -
  let ?u = "unat (ac_unit_size c)"
  define q where "q = (n + h + ?u - 1) div ?u"
  define r where "r = (n + h + ?u - 1) mod ?u"
  have e: "q * ?u + r = n + h + ?u - 1" "r < ?u" unfolding q_def r_def using assms(1) by simp_all
  have q: "class_units c h n = q" by (simp add: class_units_def q_def)
  show a: "n + h \<le> class_units c h n * ?u" "class_units c h n * ?u < n + h + ?u" using e assms unfolding q by linarith+
  then show "0 < class_units c h n" using assms by (cases "class_units c h n") auto
  show "class_units c h n \<le> n + h"
  proof (rule ccontr)
    assume "\<not> class_units c h n \<le> n + h"
    then have "Suc (n + h) * ?u \<le> class_units c h n * ?u" by (intro mult_le_mono1) simp
    moreover have "n + h \<le> (n + h) * ?u" using assms(1) by (cases ?u) auto
    ultimately show False using a(2) by (simp del: mult_Suc_right)
  qed
qed

lemma calc_units:
  assumes "0 < unat u" and "0 < unat r" and "unat r < 2 ^ 32"
  shows "unat (CALC_SIZE_IDX u r) = (unat r + unat u - 1) div unat u"
proof -
  define q where "q = (unat r - 1) div unat u"
  have "unat (r - 1) = unat r - 1" using assms(2) by (intro unat_minus_one) auto
  then have d: "unat ((r - 1) div u) = q" by (simp add: unat_div q_def)
  have "q \<le> unat r - 1" unfolding q_def by (rule div_le_dividend)
  then have q: "q + 1 < 2 ^ 32" using assms(2,3) by simp
  then have "unat ((r - 1) div u + 1) = q + 1" using d by (simp add: unat_word_ariths)
  moreover have "q + 1 = (unat r + unat u - 1) div unat u"
  proof -
    have "unat r + unat u - 1 = (unat r - 1) + unat u" using assms(2) by simp
    moreover have "((unat r - 1) + unat u) div unat u = q + 1" using assms(1) unfolding q_def by (intro div_add_self2) simp
    ultimately show ?thesis by presburger
  qed
  ultimately show ?thesis using assms(2) q unfolding CALC_SIZE_IDX_def by (auto simp: unat_u64_u32)
qed

text \<open>The words that \<open>alloc_class_find_min_frag\<close> computes for a class.\<close>

lemma frag_words:
  assumes ok: "class_ok c" and n: "0 < n" "n < 2 ^ 31" and h: "header_type_to_size (ac_header_type c) = Some h"
  defines "r \<equiv> of_nat n + h" and "k \<equiv> class_units c (hsize_of c) n"
  defines "w \<equiv> ucast (CALC_SIZE_IDX (ac_unit_size c) r) :: u64"
  shows "unat w = k" and "ac_unit_size c * w = r \<longleftrightarrow> fits_exactly c n"
    and "(ac_type c = CLASS_RUN \<longrightarrow> k \<le> 8) \<Longrightarrow> \<exists>x. class_waste c w r = Some x \<and> unat x = class_frag c n"
proof -
  let ?u = "unat (ac_unit_size c)" and ?a = "unat (run_nallocs c)"
  have u: "0 < ?u" "?u < 2 ^ 34" using ok by (simp_all add: class_ok_def)
  have hs: "unat h = hsize_of c" "hsize_of c \<le> 64" using h hsize_le [OF h] by (simp_all add: hsize_of_def)
  have r: "unat r = n + hsize_of c" using n(2) hs by (simp add: r_def unat_word_ariths unat_of_nat)
  have "unat (CALC_SIZE_IDX (ac_unit_size c) r) = (unat r + ?u - 1) div ?u" using n hs r by (intro calc_units [OF u(1)]) simp_all
  then have ci: "unat (CALC_SIZE_IDX (ac_unit_size c) r) = k" by (simp add: r k_def class_units_def)
  then show w: "unat w = k" by (simp add: w_def)
  note B = class_units_bounds [OF u(1) n(1), of "hsize_of c", folded k_def]
  have "k * ?u < 2 ^ 36" using B(2) u(2) n(2) hs(2) by simp
  then have m: "unat (ac_unit_size c * w) = k * ?u" using w by (simp add: unat_word_ariths mult.commute)
  show "ac_unit_size c * w = r \<longleftrightarrow> fits_exactly c n"
    by (simp add: word_unat_eq_iff m r fits_exactly_def k_def)
  have d: "unat (ac_unit_size c * w - r) = k * ?u - (n + hsize_of c)"
    using m r B(1) by (subst unat_sub) (simp_all add: word_le_nat_alt)
  assume k8: "ac_type c = CLASS_RUN \<longrightarrow> k \<le> 8"
  show "\<exists>x. class_waste c w r = Some x \<and> unat x = class_frag c n"
  proof (cases "ac_type c = CLASS_RUN")
    case False
    then show ?thesis using d by (simp add: class_waste_def class_frag_def Let_def k_def)
  next
    case True
    then have a: "run_nallocs c \<noteq> 0" "w \<noteq> 0" using ok B(3) w by (auto simp: class_ok_def)
    have "?a mod k < k" using B(3) by simp
    then have "?a mod k * ?u < 8 * 2 ^ 34" using k8 True u(2) by (intro mult_strict_mono) simp_all
    then have wm: "?a mod k * ?u < 2 ^ 37" by simp
    have um: "unat ((ucast (run_nallocs c) :: u64) mod w) = ?a mod k" by (simp add: unat_mod w)
    then have "unat ((ucast (run_nallocs c) :: u64) mod w * ac_unit_size c) = ?a mod k * ?u"
      using wm by (simp add: unat_word_ariths)
    then have q: "unat ((ucast (run_nallocs c) :: u64) mod w * ac_unit_size c div ucast (run_nallocs c)) = ?a mod k * ?u div ?a"
      by (simp add: unat_div)
    have "?a mod k * ?u div ?a < 2 ^ 37" by (rule le_less_trans [OF div_le_dividend wm])
    moreover have "k * ?u - (n + hsize_of c) < 2 ^ 36" using \<open>k * ?u < 2 ^ 36\<close> by simp
    ultimately have "unat (ac_unit_size c * w - r + (ucast (run_nallocs c) :: u64) mod w * ac_unit_size c div ucast (run_nallocs c)) =
        k * ?u - (n + hsize_of c) + ?a mod k * ?u div ?a"
      using d q by (subst unat_add_lem [THEN iffD1]) simp_all
    then show ?thesis using True a by (simp add: class_waste_def class_frag_def Let_def k_def)
  qed
qed

section \<open>The search\<close>

definition candidate :: "alloc_class_collection \<Rightarrow> nat \<Rightarrow> nat \<Rightarrow> alloc_class \<Rightarrow> bool" where
  "candidate ac n i c \<longleftrightarrow> class_at ac i = Some c \<and> suits c n"

text \<open>The result \<open>p\<close> of the search in the slots \<open>is\<close>, which starts with the class \<open>best\<close> of waste \<open>low\<close>.\<close>

definition search_result :: "alloc_class_collection \<Rightarrow> nat \<Rightarrow> nat list \<Rightarrow> addr \<Rightarrow> nat \<Rightarrow> addr \<Rightarrow> bool" where
  "search_result ac n is best low p \<longleftrightarrow>
     (\<exists>i\<in>set is. \<exists>c. candidate ac n i c \<and> p = aclasses ac ! i \<and> fits_exactly c n) \<or>
     (\<forall>i\<in>set is. \<forall>c. candidate ac n i c \<longrightarrow> \<not> fits_exactly c n) \<and>
       ((\<exists>i\<in>set is. \<exists>c. candidate ac n i c \<and> p = aclasses ac ! i \<and> (best \<noteq> 0 \<longrightarrow> class_frag c n < low) \<and>
           (\<forall>j\<in>set is. \<forall>d. candidate ac n j d \<longrightarrow> class_frag c n \<le> class_frag d n)) \<or>
        p = best \<and> (\<forall>j\<in>set is. \<forall>d. candidate ac n j d \<longrightarrow> best \<noteq> 0 \<and> low \<le> class_frag d n))"

lemma search_skip: "(\<And>c. \<not> candidate ac n i c) \<Longrightarrow> search_result ac n (i # is) best low p \<longleftrightarrow> search_result ac n is best low p"
  by (simp add: search_result_def)

lemma search_exact: "candidate ac n i c \<Longrightarrow> fits_exactly c n \<Longrightarrow> search_result ac n (i # is) best low (aclasses ac ! i)"
  by (auto simp: search_result_def)

text \<open>The three ways a search can end.\<close>

lemma search_cases:
  assumes "search_result ac n is best low p"
  obtains (exact) j d where "j \<in> set is" "candidate ac n j d" "p = aclasses ac ! j" "fits_exactly d n"
    | (least) j d where "\<forall>i\<in>set is. \<forall>c. candidate ac n i c \<longrightarrow> \<not> fits_exactly c n" "j \<in> set is" "candidate ac n j d" "p = aclasses ac ! j"
        "best \<noteq> 0 \<longrightarrow> class_frag d n < low" "\<forall>k\<in>set is. \<forall>e. candidate ac n k e \<longrightarrow> class_frag d n \<le> class_frag e n"
    | (old) "\<forall>i\<in>set is. \<forall>c. candidate ac n i c \<longrightarrow> \<not> fits_exactly c n" "p = best"
        "\<forall>k\<in>set is. \<forall>e. candidate ac n k e \<longrightarrow> best \<noteq> 0 \<and> low \<le> class_frag e n"
  using assms unfolding search_result_def by blast

lemma search_leastI:
  assumes "\<forall>i\<in>set is. \<forall>c. candidate ac n i c \<longrightarrow> \<not> fits_exactly c n" "j \<in> set is" "candidate ac n j d" "p = aclasses ac ! j"
    "best \<noteq> 0 \<longrightarrow> class_frag d n < low" "\<forall>k\<in>set is. \<forall>e. candidate ac n k e \<longrightarrow> class_frag d n \<le> class_frag e n"
  shows "search_result ac n is best low p"
  using assms unfolding search_result_def by blast

lemma candidate_unique: "candidate ac n i c \<Longrightarrow> candidate ac n i d \<longleftrightarrow> d = c"
  by (auto simp: candidate_def)

lemma search_better:
  assumes c: "candidate ac n i c" "\<not> fits_exactly c n" "aclasses ac ! i \<noteq> 0" and b: "best = 0 \<or> class_frag c n < low"
    and r: "search_result ac n is (aclasses ac ! i) (class_frag c n) p"
  shows "search_result ac n (i # is) best low p"
  using r
proof (cases rule: search_cases)
  case (exact j d)
  then show ?thesis unfolding search_result_def by (intro disjI1 bexI [of _ j] exI [of _ d]) simp_all
next
  case (least j d)
  then show ?thesis using c b by (intro search_leastI [of _ _ _ j d]) (auto simp: candidate_unique [OF c(1)])
next
  case old
  then show ?thesis using c b by (intro search_leastI [of _ _ _ i c]) (auto simp: candidate_unique [OF c(1)])
qed

lemma search_worse:
  assumes c: "candidate ac n i c" "\<not> fits_exactly c n" and b: "best \<noteq> 0" "low \<le> class_frag c n" and r: "search_result ac n is best low p"
  shows "search_result ac n (i # is) best low p"
  using r
proof (cases rule: search_cases)
  case (exact j d)
  then show ?thesis unfolding search_result_def by (intro disjI1 bexI [of _ j] exI [of _ d]) simp_all
next
  case (least j d)
  then show ?thesis using c b by (intro search_leastI [of _ _ _ j d]) (auto simp: candidate_unique [OF c(1)])
next
  case old
  then show ?thesis using c b unfolding search_result_def by (auto simp: candidate_unique [OF c(1)])
qed

lemma min_frag_loop_spec:
  assumes ok: "slots_ok ac" and n: "0 < n" "n < 2 ^ 31"
    and slots: "\<And>i. i \<in> set is \<Longrightarrow> i < MAX_ALLOCATION_CLASSES \<and> aclasses ac ! i \<noteq> ACLASS_RESERVED"
  shows "\<exists>p. min_frag_loop ac (of_nat n) is best low = Some p \<and> search_result ac n is best (unat low) p"
  using slots
proof (induction "is" arbitrary: best low)
  case Nil
  then show ?case by (simp add: search_result_def)
next
  case (Cons i "is")
  have IH: "\<exists>p. min_frag_loop ac (of_nat n) is best low = Some p \<and> search_result ac n is best (unat low) p" for best low
    using Cons by simp
  have i: "i < MAX_ALLOCATION_CLASSES" "aclasses ac ! i \<noteq> ACLASS_RESERVED" using Cons.prems by simp_all
  show ?case
  proof (cases "aclasses ac ! i = 0")
    case True
    then have "\<not> candidate ac n i c" for c using ok by (simp add: candidate_def class_at_def slots_ok_def)
    then show ?thesis using IH True by (simp add: search_skip)
  next
    case False
    then obtain c where c: "class_at ac i = Some c" using ok i unfolding slots_ok_def by metis
    have cok: "class_ok c" by (rule slot_id(3) [OF ok i(1) c])
    obtain h where h: "header_type_to_size (ac_header_type c) = Some h" using hsize_of_ok [OF cok] by blast
    define r where "r = of_nat n + h"
    define w where "w = (ucast (CALC_SIZE_IDX (ac_unit_size c) r) :: u64)"
    note W = frag_words [OF cok n h, folded r_def, folded w_def]
    have s: "ac_store ac (aclasses ac ! i) = Some c" using c by (simp add: class_at_def)
    have u: "ac_unit_size c \<noteq> 0" using cok by (auto simp: class_ok_def)
    have w8: "w > RUN_UNIT_MAX_ALLOC \<longleftrightarrow> \<not> class_units c (hsize_of c) n \<le> 8"
      by (simp add: word_less_nat_alt RUN_UNIT_MAX_ALLOC_def W(1) not_le)
    have step: "min_frag_loop ac (of_nat n) (i # is) best low =
       (if ac_header_type c = HEADER_NONE \<or> ac_type c = CLASS_RUN \<and> w > RUN_UNIT_MAX_ALLOC then min_frag_loop ac (of_nat n) is best low
        else if ac_unit_size c * w = r then Some (aclasses ac ! i)
        else do { waste \<leftarrow> class_waste c w r;
                  if best = 0 \<or> low > waste then min_frag_loop ac (of_nat n) is (aclasses ac ! i) waste
                  else min_frag_loop ac (of_nat n) is best low })"
      using False u by (simp add: s h Let_def r_def w_def)
    show ?thesis
    proof (cases "suits c n")
      case False
      then have "\<not> candidate ac n i d" for d using c by (auto simp: candidate_def)
      moreover have "ac_header_type c = HEADER_NONE \<or> ac_type c = CLASS_RUN \<and> w > RUN_UNIT_MAX_ALLOC"
        using False w8 by (auto simp: suits_def)
      ultimately show ?thesis using IH unfolding step by (simp add: search_skip)
    next
      case True
      then have cand: "candidate ac n i c" using c by (simp add: candidate_def)
      have go: "\<not> (ac_header_type c = HEADER_NONE \<or> ac_type c = CLASS_RUN \<and> w > RUN_UNIT_MAX_ALLOC)" "ac_type c = CLASS_RUN \<longrightarrow> class_units c (hsize_of c) n \<le> 8"
        using True w8 by (auto simp: suits_def)
      show ?thesis
      proof (cases "fits_exactly c n")
        case True
        then show ?thesis using W(2) search_exact [OF cand] unfolding step if_not_P [OF go(1)] by simp
      next
        case ex: False
        obtain x where x: "class_waste c w r = Some x" "unat x = class_frag c n" using W(3) [OF go(2)] by blast
        have st: "min_frag_loop ac (of_nat n) (i # is) best low =
           (if best = 0 \<or> low > x then min_frag_loop ac (of_nat n) is (aclasses ac ! i) x else min_frag_loop ac (of_nat n) is best low)"
          using ex W(2) x(1) unfolding step if_not_P [OF go(1)] by simp
        show ?thesis
        proof (cases "best = 0 \<or> low > x")
          case True
          obtain p where p: "min_frag_loop ac (of_nat n) is (aclasses ac ! i) x = Some p" "search_result ac n is (aclasses ac ! i) (class_frag c n) p"
            using IH [of "aclasses ac ! i" x] x(2) by auto
          have "best = 0 \<or> class_frag c n < unat low" using True x(2) by (simp add: word_less_nat_alt)
          then show ?thesis using search_better [OF cand ex \<open>aclasses ac ! i \<noteq> 0\<close> _ p(2)] p(1) True unfolding st by simp
        next
          case False
          then have "best \<noteq> 0" "unat low \<le> class_frag c n" using x(2) by (simp_all add: word_less_nat_alt not_less)
          then show ?thesis using IH [of best low] search_worse [OF cand ex] False unfolding st by auto
        qed
      qed
    qed
  qed
qed

lemma huge_candidate:
  assumes "ac_inv ac"
  obtains c where "candidate ac n DEFAULT_ALLOC_CLASS_ID c"
  using assms by (auto simp: ac_inv_def candidate_def suits_def)

text \<open>C18. The class that the search returns is the best one. For every consistent collection in which no
  slot is reserved and every size below 2 GB, \<open>alloc_class_find_min_frag\<close> returns a class with headers
  that needs at most eight units of a run; it fits the size exactly, or no such class does and its waste,
  with the share of the units that are left over in a run, is the least of all of them.\<close>

theorem alloc_class_least_waste:
  assumes "ac_inv ac" and "\<forall>i < MAX_ALLOCATION_CLASSES. aclasses ac ! i \<noteq> ACLASS_RESERVED" and "0 < n" and "n < 2 ^ 31"
  shows "\<exists>i c. i < MAX_ALLOCATION_CLASSES \<and> alloc_class_find_min_frag ac (of_nat n) = Some (aclasses ac ! i) \<and> candidate ac n i c \<and>
    (fits_exactly c n \<or> (\<forall>j < MAX_ALLOCATION_CLASSES. \<forall>d. candidate ac n j d \<longrightarrow> \<not> fits_exactly d n \<and> class_frag c n \<le> class_frag d n))"
proof -
  have ok: "slots_ok ac" using assms(1) by (simp add: ac_inv_def)
  let ?is = "rev [0..<MAX_ALLOCATION_CLASSES]"
  obtain p where p: "alloc_class_find_min_frag ac (of_nat n) = Some p" "search_result ac n ?is 0 (unat (- 1 :: u64)) p"
    using min_frag_loop_spec [OF ok assms(3,4), of ?is 0 "- 1"] assms(2) by (auto simp: alloc_class_find_min_frag_def)
  obtain c0 where c0: "candidate ac n DEFAULT_ALLOC_CLASS_ID c0" by (rule huge_candidate [OF assms(1)])
  have in0: "DEFAULT_ALLOC_CLASS_ID \<in> set ?is" by (simp add: DEFAULT_ALLOC_CLASS_ID_def MAX_ALLOCATION_CLASSES_def)
  from p(2) show ?thesis
  proof (cases rule: search_cases)
    case (exact j d)
    then show ?thesis using p(1) by (intro exI [of _ j] exI [of _ d]) simp
  next
    case (least j d)
    then show ?thesis using p(1) by (intro exI [of _ j] exI [of _ d]) simp
  next
    case old
    then show ?thesis using c0 in0 by blast
  qed
qed

text \<open>A slot that another thread has reserved and not filled yet is dereferenced by the search.\<close>

lemma reserved_slot_crashes:
  assumes "slots_ok ac" and "aclasses ac ! (MAX_ALLOCATION_CLASSES - 1) = ACLASS_RESERVED"
  shows "alloc_class_find_min_frag ac n = None"
proof -
  have "rev [0..<MAX_ALLOCATION_CLASSES] = (MAX_ALLOCATION_CLASSES - 1) # rev [0..<MAX_ALLOCATION_CLASSES - 1]"
  proof -
    have "MAX_ALLOCATION_CLASSES = Suc 254" by (simp add: MAX_ALLOCATION_CLASSES_def)
    then show ?thesis by (metis diff_Suc_1 le0 rev_append rev_singleton_conv append_Cons append_Nil upt_Suc_append)
  qed
  moreover have "ACLASS_RESERVED \<noteq> 0" "ac_store ac ACLASS_RESERVED = None" using assms(1) by (simp_all add: ACLASS_RESERVED_def slots_ok_def)
  ultimately show ?thesis using assms(2) by (simp add: alloc_class_find_min_frag_def)
qed

section \<open>Classes for sizes\<close>

lemma min_frag_candidate:
  assumes "ac_inv ac" and "\<forall>i < MAX_ALLOCATION_CLASSES. aclasses ac ! i \<noteq> ACLASS_RESERVED" and "0 < n" and "n < 2 ^ 31"
  obtains i c where "i < MAX_ALLOCATION_CLASSES" "alloc_class_find_min_frag ac (of_nat n) = Some (aclasses ac ! i)" "candidate ac n i c"
proof -
  have ok: "slots_ok ac" using assms(1) by (simp add: ac_inv_def)
  let ?is = "rev [0..<MAX_ALLOCATION_CLASSES]"
  obtain p where p: "alloc_class_find_min_frag ac (of_nat n) = Some p" "search_result ac n ?is 0 (unat (- 1 :: u64)) p"
    using min_frag_loop_spec [OF ok assms(3,4), of ?is 0 "- 1"] assms(2) by (auto simp: alloc_class_find_min_frag_def)
  obtain c0 where c0: "candidate ac n DEFAULT_ALLOC_CLASS_ID c0" by (rule huge_candidate [OF assms(1)])
  have in0: "DEFAULT_ALLOC_CLASS_ID \<in> set ?is" by (simp add: DEFAULT_ALLOC_CLASS_ID_def MAX_ALLOCATION_CLASSES_def)
  from p(2) show thesis
    by (cases rule: search_cases) (use that p(1) c0 in0 in auto)
qed

lemma class_units_mono: "n \<le> m \<Longrightarrow> class_units c h n \<le> class_units c h m"
  unfolding class_units_def by (intro div_le_mono) simp

lemma suits_mono: "suits c m \<Longrightarrow> n \<le> m \<Longrightarrow> suits c n"
  unfolding suits_def using class_units_mono le_trans by blast

lemma map_index:
  assumes "0 < unat s" and "unat s < 2621440"
  defines "i \<equiv> unat (SIZE_TO_CLASS_MAP_INDEX s 16)"
  shows "i = (unat s + 15) div 16" and "i < 163841" and "unat s \<le> 16 * i" and "0 < i"
    and "SIZE_TO_CLASS_MAP_INDEX s 16 * 16 = of_nat (16 * i)"
proof -
  have "unat (s - 1) = unat s - 1" using assms(1) by (intro unat_minus_one) auto
  then have d: "unat ((s - 1) div 16) = (unat s - 1) div 16" by (simp add: unat_div)
  moreover have "(unat s - 1) div 16 + 1 = (unat s + 15) div 16" using assms(1) by (cases "unat s") auto
  ultimately show i: "i = (unat s + 15) div 16"
    using assms(2) unfolding i_def SIZE_TO_CLASS_MAP_INDEX_def by (subst unat_word_ariths) simp
  show "i < 163841" "unat s \<le> 16 * i" "0 < i" using assms(1,2) unfolding i by linarith+
  show "SIZE_TO_CLASS_MAP_INDEX s 16 * 16 = of_nat (16 * i)" unfolding i_def by (simp add: mult.commute)
qed


theorem alloc_class_least_waste_witness: "alloc_class_find_min_frag sample_classes 100 = Some 1"
proof -
  obtain i c where i: "alloc_class_find_min_frag sample_classes (of_nat 100) = Some (aclasses sample_classes ! i)" "candidate sample_classes 100 i c" "i < MAX_ALLOCATION_CLASSES"
    using alloc_class_least_waste [OF sample_classes_ok, of 100] by auto
  then have "aclasses sample_classes ! i = 1"
    by (auto simp: candidate_def class_at_def sample_classes_def nth_list_update split: if_splits)
  then show ?thesis using i(1) by simp
qed


end
