(* ===== verification/Alloc_Class_Gen.thy ===== *)
theory Alloc_Class_Gen
  imports Alloc_Class_Sizes
begin

text \<open>
  New collections: the search for a unit size, the steps from one size to the next and the loops over the
  categories end, and what they produce is a consistent collection.
\<close>

unbundle bit_operations_syntax

section \<open>Unit sizes\<close>

lemma unit_size_step:
  assumes r: "1 \<le> unat r" "unat r \<le> 16" and n: "64 dvd unat n" "64 \<le> unat n" "unat n + 64 \<le> 262144 * unat r"
    and bm: "memblock_run_bitmap r ALLOC_CLASS_DEFAULT_FLAGS n 0 0 = (s, b)"
  defines "x \<equiv> RUN_CONTENT_SIZE_BYTES s - rb_size b"
  shows "s = r" and "unat n + 64 = 262144 * unat r \<Longrightarrow> x mod n = 0"
proof -
  have fl: "ALLOC_CLASS_DEFAULT_FLAGS AND CHUNK_FLAG_FLEX_BITMAP \<noteq> 0"
    by (simp add: ALLOC_CLASS_DEFAULT_FLAGS_def CHUNK_FLAG_FLEX_BITMAP_def)
  have rm: "((if (0 :: u64) \<noteq> 0 then 1 else 0) + 1) * unat n + 48 \<le> 262144 * unat r - 16" using n(3) by simp
  have r2: "unat r \<le> 65535" and u8: "8 \<le> unat n" using r n by simp_all
  note F = flex_values [OF r(1) r2 u8 rm fl bm]
  show s: "s = r" by (rule F(1))
  have sz: "48 \<le> unat (rb_size b)"
  proof -
    have "(unat (rb_size b) + 16) mod 64 = 0" "8 \<le> unat (rb_size b)"
      using F(3) run_bitmap_okD(5,6) [OF F(3)] by (auto simp: run_bitmap_ok_def)
    then show ?thesis by presburger
  qed
  have x: "unat x = 262144 * unat r - 16 - unat (rb_size b)"
    using unat_content(1) [OF r(1) r2] F(4) unfolding x_def s by (subst unat_sub) (simp_all add: word_le_nat_alt)
  assume e: "unat n + 64 = 262144 * unat r"
  have "0 < (262144 * unat r - 16 - unat (rb_size b)) div unat n" using run_bitmap_okD(1) [OF F(3)] F(5) by simp
  then have "unat n \<le> 262144 * unat r - 16 - unat (rb_size b)" by (metis div_less gr_implies_not_zero not_le)
  then have "unat x = unat n" using e sz x by linarith
  then show "x mod n = 0" by (simp add: word_unat_eq_iff unat_mod)
qed

lemma unit_size_next:
  assumes "x \<noteq> 0"
  shows "unit_size_loop r n x = unit_size_loop r (n + ALLOC_BLOCK_SIZE_GEN) 0"
  using assms by (subst (1 2) unit_size_loop.simps) simp

text \<open>The loop ends: a unit that fills the run after the smallest bitmap wastes nothing.\<close>

lemma unit_size_loop_ends:
  assumes r: "1 \<le> unat r" "unat r \<le> 16" and n: "64 dvd unat n" "64 \<le> unat n" "unat n + 64 \<le> 262144 * unat r"
  shows "\<exists>n'. unit_size_loop r n 0 = Some n' \<and> 64 dvd unat n' \<and> unat n \<le> unat n' \<and> unat n' + 64 \<le> 262144 * unat r"
  using n
proof (induction "262144 * unat r - unat n" arbitrary: n rule: less_induct)
  case (less n)
  obtain s b where bm: "memblock_run_bitmap r ALLOC_CLASS_DEFAULT_FLAGS n 0 0 = (s, b)" by fastforce
  let ?x = "RUN_CONTENT_SIZE_BYTES s - rb_size b"
  note S = unit_size_step [OF r less.prems bm]
  have nz: "n \<noteq> 0" using less.prems(2) by auto
  show ?case
  proof (cases "?x mod n > MAX_RUN_WASTED_BYTES")
    case False
    then show ?thesis using nz less.prems by (subst unit_size_loop.simps) (simp add: bm)
  next
    case True
    then have "0 < unat (?x mod n)" unfolding word_less_nat_alt by simp
    then have x2: "?x mod n \<noteq> 0" by (metis less_irrefl unat_0)
    then have x: "?x \<noteq> 0" "?x mod n \<noteq> 0" by auto
    have lt: "unat n + 64 < 262144 * unat r" using S(2) x(2) less.prems(3) by linarith
    have dv: "64 dvd 262144 * unat r" by (simp add: dvd_mult2)
    have big: "262144 * unat r \<le> 4194304" using r(2) by simp
    have n2: "unat (n + ALLOC_BLOCK_SIZE_GEN) = unat n + 64"
      using lt big by (simp add: ALLOC_BLOCK_SIZE_GEN_def unat_word_ariths)
    have "unat n + 64 + 64 \<le> 262144 * unat r"
    proof -
      obtain a c where ac: "unat n = 64 * a" "262144 * unat r = 64 * c" using less.prems(1) dv by (auto elim!: dvdE)
      then have "a + 1 < c" using lt by linarith
      then show ?thesis using ac by linarith
    qed
    then obtain n' where "unit_size_loop r (n + ALLOC_BLOCK_SIZE_GEN) 0 = Some n'" "64 dvd unat n'" "unat n + 64 \<le> unat n'" "unat n' + 64 \<le> 262144 * unat r"
    proof -
      have "262144 * unat r - unat (n + ALLOC_BLOCK_SIZE_GEN) < 262144 * unat r - unat n" using lt unfolding n2 by linarith
      moreover have "64 dvd unat (n + ALLOC_BLOCK_SIZE_GEN)" "64 \<le> unat (n + ALLOC_BLOCK_SIZE_GEN)"
        "unat (n + ALLOC_BLOCK_SIZE_GEN) + 64 \<le> 262144 * unat r" if "unat n + 64 + 64 \<le> 262144 * unat r"
        using less.prems that unfolding n2 by simp_all
      ultimately show thesis
        using less.hyps [of "n + ALLOC_BLOCK_SIZE_GEN"] that \<open>unat n + 64 + 64 \<le> 262144 * unat r\<close> n2 by auto
    qed
    moreover have "unit_size_loop r n 0 = unit_size_loop r (n + ALLOC_BLOCK_SIZE_GEN) 0"
      using True nz unit_size_next [OF x(1)] by (subst unit_size_loop.simps) (simp add: bm)
    ultimately show ?thesis by auto
  qed
qed

lemma required_size:
  assumes "unat n \<le> 393216"
  shows "1 \<le> unat (required_size_idx n)" and "unat (required_size_idx n) \<le> 16" and "64 dvd unat n \<Longrightarrow> unat n + 64 \<le> 262144 * unat (required_size_idx n)"
proof -
  have p: "unat (n * RUN_MIN_NALLOCS) = 200 * unat n" using assms by (simp add: RUN_MIN_NALLOCS_def unat_word_ariths)
  have d: "unat RUN_DEFAULT_SIZE = 261824"
    by (simp add: RUN_DEFAULT_SIZE_def CHUNKSIZE_def RUN_BASE_METADATA_SIZE_def RUN_DEFAULT_BITMAP_SIZE_def default_bitmap_defs)
  have "1 \<le> unat (required_size_idx n) \<and> unat (required_size_idx n) \<le> 16 \<and> (64 dvd unat n \<longrightarrow> unat n + 64 \<le> 262144 * unat (required_size_idx n))"
  proof (cases "n * RUN_MIN_NALLOCS > RUN_DEFAULT_SIZE")
    case False
    then have "200 * unat n \<le> 261824" by (simp add: word_less_nat_alt p d)
    then show ?thesis using False by (simp add: required_size_idx_def Let_def)
  next
    case True
    let ?b = "n * RUN_MIN_NALLOCS - RUN_DEFAULT_SIZE"
    have g: "261824 < 200 * unat n" using True by (simp add: word_less_nat_alt p d)
    then have b: "unat ?b = 200 * unat n - 261824" using p d by (subst unat_sub) (simp_all add: word_le_nat_alt)
    have "unat (CALC_SIZE_IDX CHUNKSIZE ?b) = (unat ?b + unat CHUNKSIZE - 1) div unat CHUNKSIZE"
      using g b assms by (intro calc_units) (simp_all add: zone_sizes)
    then have c: "unat (CALC_SIZE_IDX CHUNKSIZE ?b) = (200 * unat n - 261824 + 262143) div 262144" using b by (simp add: zone_sizes)
    let ?i = "1 + CALC_SIZE_IDX CHUNKSIZE ?b"
    define q where "q = (200 * unat n - 261824 + 262143) div 262144"
    have "200 * unat n - 261824 + 262143 < 262144 * Suc q" 
      using mult_div_mod_eq [of 262144 "200 * unat n - 261824 + 262143"] mod_less_divisor [of 262144 "200 * unat n - 261824 + 262143"]
      unfolding q_def by simp
    then have lo: "200 * unat n + 320 \<le> 262144 * (1 + q)" using g by simp
    have "q \<le> 78643519 div 262144" unfolding q_def using assms by (intro div_le_mono) simp
    then have i: "unat ?i = 1 + q" using c by (simp add: q_def [symmetric] unat_word_ariths)
    show ?thesis
    proof (cases "?i > RUN_SIZE_IDX_CAP")
      case True
      then show ?thesis using \<open>n * RUN_MIN_NALLOCS > RUN_DEFAULT_SIZE\<close> assms
        by (simp add: required_size_idx_def Let_def RUN_SIZE_IDX_CAP_def)
    next
      case False
      then have "unat ?i \<le> 16" by (simp add: RUN_SIZE_IDX_CAP_def word_less_nat_alt)
      moreover have "required_size_idx n = ?i" using \<open>n * RUN_MIN_NALLOCS > RUN_DEFAULT_SIZE\<close> False
        by (simp add: required_size_idx_def Let_def)
      ultimately show ?thesis using lo i by simp
    qed
  qed
  then show "1 \<le> unat (required_size_idx n)" "unat (required_size_idx n) \<le> 16" "64 dvd unat n \<Longrightarrow> unat n + 64 \<le> 262144 * unat (required_size_idx n)"
    by blast+
qed

section \<open>Steps between sizes\<close>

lemma round24_upper: "round24 n \<le> 2 * n"
proof -
  let ?e = "bit_len n - 24"
  have e: "n div 2 ^ ?e * 2 ^ ?e + n mod 2 ^ ?e = n" by (rule div_mult_mod_eq)
  show ?thesis
  proof (cases "2 * (n mod 2 ^ ?e) > 2 ^ ?e \<or> (2 * (n mod 2 ^ ?e) = 2 ^ ?e \<and> ?e \<noteq> 0 \<and> odd (n div 2 ^ ?e))")
    case True
    then have "round24 n = (n div 2 ^ ?e + 1) * 2 ^ ?e" "2 ^ ?e \<le> 2 * (n mod 2 ^ ?e)" by (auto simp: round24_def Let_def)
    moreover have "(n div 2 ^ ?e + 1) * 2 ^ ?e = n div 2 ^ ?e * 2 ^ ?e + 2 ^ ?e" by (rule distrib_right [THEN trans]) simp
    ultimately show ?thesis using e by linarith
  next
    case False
    then have "round24 n = n div 2 ^ ?e * 2 ^ ?e" by (auto simp: round24_def Let_def)
    then show ?thesis using e by linarith
  qed
qed

lemma size_step_bounds:
  assumes "64 \<le> unat n" and "unat n \<le> 393216"
  shows "1 \<le> unat (size_step n)" and "unat (size_step n) \<le> unat n"
proof -
  let ?x = "round24 (unat n)"
  define f where "f = round24 (?x * 13421773)"
  have x: "unat n * 8388607 \<le> ?x * 8388608" "?x \<le> 2 * unat n" using round24_lower [of "unat n"] round24_upper [of "unat n"] by simp_all
  have f: "?x * 13421773 * 8388607 \<le> f * 8388608" "f \<le> 2 * (?x * 13421773)"
    using round24_lower [of "?x * 13421773"] round24_upper [of "?x * 13421773"] by (simp_all add: f_def)
  have f32: "32 \<le> f" and fle: "f \<le> 53687092 * unat n" using x f assms(1) by linarith+
  define s where "s = (if f - f div 2 ^ 28 * 2 ^ 28 < 32 then f div 2 ^ 28 else f div 2 ^ 28 + 1)"
  have st: "size_step n = of_nat s" by (simp add: size_step_def Let_def f_def s_def)
  have d: "f div 2 ^ 28 * 2 ^ 28 \<le> f" by (rule div_times_less_eq_dividend)
  have "s \<le> f div 2 ^ 28 + 1" by (simp add: s_def)
  moreover have "f div 2 ^ 28 + 1 \<le> unat n" using d fle assms(1) by simp
  ultimately have le: "s \<le> unat n" by linarith
  then have u: "unat (size_step n) = s" using assms(2) unfolding st by (intro unat_of_nat_u64) simp
  show "unat (size_step n) \<le> unat n" using le u by simp
  show "1 \<le> unat (size_step n)" unfolding u s_def using f32 by (cases "f div 2 ^ 28 = 0") auto
qed

lemma next_size_bounds:
  assumes "64 \<le> unat n" and "unat n \<le> 393216" and "64 dvd unat n"
  shows "unat n + 64 \<le> unat (next_class_size n)" and "unat (next_class_size n) \<le> 2 * unat n + 63" and "64 dvd unat (next_class_size n)"
proof -
  note B = size_step_bounds [OF assms(1,2)]
  let ?a = "ALIGN_UP (size_step n) 64"
  have e: "next_class_size n = n + ?a" by (simp add: next_class_size_def ALIGN_UP_def ALLOC_BLOCK_SIZE_GEN_def add_ac)
  have "(64 :: u64) \<noteq> 0" "unat (size_step n) + unat (64 :: u64) \<le> 2 ^ 64" using B assms(2) by simp_all
  note A = ALIGN_UP_range [OF this]
  have dv: "64 dvd unat ?a" using ALIGN_UP_dvd [of 64 6 "size_step n"] by simp
  have "0 < unat ?a" using A(1) B(1) by linarith
  then have lo: "64 \<le> unat ?a" using dv by (rule dvd_imp_le [rotated])
  have hi: "unat ?a \<le> unat n + 63" using A(2) B(2) by simp
  have u: "unat (next_class_size n) = unat n + unat ?a" using hi assms(2) unfolding e by (simp add: unat_word_ariths)
  show "unat n + 64 \<le> unat (next_class_size n)" "unat (next_class_size n) \<le> 2 * unat n + 63" "64 dvd unat (next_class_size n)"
    using lo hi dv assms(3) unfolding u by simp_all
qed

section \<open>Generating classes\<close>

text \<open>A collection while its classes are generated, with the memory in \<open>U\<close> used for them.\<close>

definition gen_inv :: "addr set \<Rightarrow> alloc_class_collection \<Rightarrow> bool" where
  "gen_inv U ac \<longleftrightarrow> ac_inv ac \<and> no_reservation ac \<and> dom (ac_store ac) \<subseteq> U \<and> \<not> fail_on_missing_class ac \<and> autogenerate_on_missing_class ac \<and>
     (\<forall>p c. ac_store ac p = Some c \<longrightarrow> ac_type c = CLASS_RUN \<longrightarrow> 64 dvd unat (ac_unit_size c))"

lemma slot_cases:
  assumes "slots_ok ac" and "no_reservation ac" and "i < MAX_ALLOCATION_CLASSES"
  obtains "aclasses ac ! i = 0" | c where "aclasses ac ! i \<noteq> 0" "ac_store ac (aclasses ac ! i) = Some c" "ac_unit_size c \<noteq> 0"
proof (cases "aclasses ac ! i = 0")
  case False
  then obtain c where c: "class_at ac i = Some c" using assms unfolding slots_ok_def no_reservation_def by metis
  then have "class_ok c" using slot_id(3) assms by blast
  then have "ac_unit_size c \<noteq> 0" unfolding class_ok_def by (metis less_irrefl unat_0)
  then show ?thesis using that(2) False c by (simp add: class_at_def)
qed (rule that(1))

lemma find_dividing_returns:
  assumes "slots_ok ac" "no_reservation ac" and "\<And>i. i \<in> set is \<Longrightarrow> i < MAX_ALLOCATION_CLASSES"
  shows "\<exists>p. find_dividing ac n req is = Some p"
  using assms(3)
proof (induction "is")
  case (Cons i "is")
  then have "i < MAX_ALLOCATION_CLASSES" by simp
  from slot_cases [OF assms(1,2) this] show ?case using Cons by cases auto
qed simp

lemma find_duplicate_returns:
  assumes "slots_ok ac" "no_reservation ac" and "\<And>i. i \<in> set is \<Longrightarrow> i < MAX_ALLOCATION_CLASSES"
  shows "\<exists>p. find_duplicate ac n is = Some p \<and>
    (p = 0 \<longrightarrow> (\<forall>i\<in>set is. \<forall>c. class_at ac i = Some c \<longrightarrow> ac_type c = CLASS_RUN \<longrightarrow> ac_unit_size c \<noteq> n))"
  using assms(3)
proof (induction "is")
  case (Cons i "is")
  then have i: "i < MAX_ALLOCATION_CLASSES" by simp
  obtain p where IH: "find_duplicate ac n is = Some p"
    "p = 0 \<longrightarrow> (\<forall>i\<in>set is. \<forall>c. class_at ac i = Some c \<longrightarrow> ac_type c = CLASS_RUN \<longrightarrow> ac_unit_size c \<noteq> n)"
    using Cons by auto
  from slot_cases [OF assms(1,2) i] show ?case
  proof cases
    case 1
    then have "class_at ac i = None" using assms(1) by (simp add: class_at_def slots_ok_def)
    then show ?thesis using 1 IH by auto
  next
    case (2 c)
    then show ?thesis using IH by (auto simp: class_at_def)
  qed
qed simp

lemma gen_invD:
  assumes "gen_inv U ac"
  shows "ac_inv ac" "slots_ok ac" "keys_ok ac" "no_reservation ac" "granularity ac = 16"
  using assms by (auto simp: gen_inv_def ac_inv_def sizes_ok_def ALLOC_BLOCK_SIZE_def)

text \<open>The failure of the creation of a class leaves valid slots.\<close>

lemma failed_slots: "class_failed (- 1) ac ac' \<Longrightarrow> slots_ok ac \<Longrightarrow> no_reservation ac \<Longrightarrow> slots_ok ac' \<and> no_reservation ac'"
proof -
  assume f: "class_failed (- 1) ac ac'" and ok: "slots_ok ac" "no_reservation ac"
  then obtain t where "ac' = ac\<lparr>class_map_by_unit_size := t\<rparr>" by (auto simp: class_failed_def)
  then have e: "aclasses ac' = aclasses ac" "ac_store ac' = ac_store ac" by simp_all
  show ?thesis using ok unfolding slots_ok_def class_at_def no_reservation_def e by (rule conjI)
qed

lemma made_gen:
  assumes gen: "gen_inv U ac" and env: "may_create env (- 1) ac" and made: "class_made (- 1) ac p n c ac'" and p: "p = ce_malloc env" "p \<notin> U"
    and c: "64 dvd unat (ac_unit_size c)"
  shows "gen_inv (insert p U) ac'"
proof -
  note G = gen_invD [OF gen]
  have fresh: "ac_store ac p = None" using env p by (simp add: may_create_def)
  note K = class_made_keeps [OF made G(2) fresh free_slot_store [OF G(2) env made]]
  obtain t where e: "ac' = ac\<lparr>aclasses := (aclasses ac)[n := p], class_map_by_unit_size := t, ac_store := (ac_store ac)(p \<mapsto> c)\<rparr>"
    and s: "slots_ok ac'" "keys_ok ac'" using made unfolding class_made_def by blast
  have d0: "DEFAULT_ALLOC_CLASS_ID < MAX_ALLOCATION_CLASSES" by (simp add: DEFAULT_ALLOC_CLASS_ID_def MAX_ALLOCATION_CLASSES_def)
  have "granularity ac' = granularity ac" "class_map_by_alloc_size ac' = class_map_by_alloc_size ac" "last_run_max_size ac' = last_run_max_size ac"
    by (simp_all add: e)
  then have "sizes_ok ac'" using sizes_frame [OF _ K(1)] G(1) unfolding ac_inv_def by blast
  then have inv: "ac_inv ac'" using s K(1) [OF d0] G(1) unfolding ac_inv_def by blast
  have "no_reservation ac'" unfolding no_reservation_def
  proof (intro allI impI)
    fix i assume "i < MAX_ALLOCATION_CLASSES"
    then show "aclasses ac' ! i \<noteq> ACLASS_RESERVED"
      using G(4) K(3,4) env p by (cases "i = n") (auto simp: no_reservation_def may_create_def)
  qed
  then show ?thesis using inv gen c by (auto simp: gen_inv_def e)
qed

lemma find_or_create_spec:
  assumes gen: "gen_inv U ac" and env: "ce_malloc env \<noteq> 0 \<Longrightarrow> ce_malloc env \<notin> U" "ce_malloc env \<noteq> ACLASS_RESERVED"
    and n: "64 dvd unat n" "64 \<le> unat n" "unat n \<le> 393216"
  shows "\<exists>p ac'. alloc_class_find_or_create env ac n = Some (p, ac') \<and>
    (if p = 0 then slots_ok ac' \<and> no_reservation ac' else gen_inv (insert (ce_malloc env) U) ac')"
proof -
  note G = gen_invD [OF gen]
  let ?r = "required_size_idx n"
  have "ac_store ac (ce_malloc env) = None"
  proof (cases "ce_malloc env = 0")
    case True
    then show ?thesis using G(2) by (simp add: slots_ok_def)
  next
    case False
    then show ?thesis using env(1) gen by (auto simp: gen_inv_def)
  qed
  then have may: "may_create env (- 1) ac" using env(2) by (simp add: may_create_def)
  have mono: "gen_inv (insert x U) ac" for x using gen by (auto simp: gen_inv_def)
  obtain p1 where p1: "find_dividing ac n ?r (rev [0..<MAX_ALLOCATION_CLASSES]) = Some p1"
    using find_dividing_returns [OF G(2,4), of "rev [0..<MAX_ALLOCATION_CLASSES]" n ?r] by auto
  note R = required_size [OF n(3)]
  obtain m where m: "unit_size_loop ?r n 0 = Some m" "64 dvd unat m" "unat n \<le> unat m" "unat m + 64 \<le> 262144 * unat ?r"
    using unit_size_loop_ends [OF R(1,2) n(1,2) R(3) [OF n(1)]] by blast
  obtain p2 where p2: "find_duplicate ac m [1..<MAX_ALLOCATION_CLASSES] = Some p2"
    "p2 = 0 \<longrightarrow> (\<forall>i\<in>set [1..<MAX_ALLOCATION_CLASSES]. \<forall>c. class_at ac i = Some c \<longrightarrow> ac_type c = CLASS_RUN \<longrightarrow> ac_unit_size c \<noteq> m)"
    using find_duplicate_returns [OF G(2,4), of "[1..<MAX_ALLOCATION_CLASSES]" m] by auto
  have foc: "alloc_class_find_or_create env ac n = (if p1 \<noteq> 0 then Some (p1, ac) else if p2 \<noteq> 0 then Some (p2, ac)
      else alloc_class_new env (- 1) ac CLASS_RUN HEADER_COMPACT m 0 ?r)"
    unfolding alloc_class_find_or_create_def Let_def p1 bind.bind_lunit m(1) p2(1) by simp
  show ?thesis
  proof (cases "p1 \<noteq> 0 \<or> p2 \<noteq> 0")
    case True
    then show ?thesis using foc mono by auto
  next
    case False
    have m34: "unat m < 2 ^ 34" "0 < unat m" "8 \<le> unat m" using m(3,4) R(2) n(2) by simp_all
    have ne: "ac_unit_size c \<noteq> m" if c: "ac_store ac q = Some c" "ac_type c = CLASS_RUN" for q c
    proof -
      have id: "unat (ac_id c) < MAX_ALLOCATION_CLASSES" "aclasses ac ! unat (ac_id c) = q" using c G(2) by (auto simp: slots_ok_def)
      then have at: "class_at ac (unat (ac_id c)) = Some c" using c by (simp add: class_at_def)
      have "unat (ac_id c) \<noteq> 0"
      proof
        assume "unat (ac_id c) = 0"
        then show False using at c(2) G(1) by (auto simp: ac_inv_def DEFAULT_ALLOC_CLASS_ID_def)
      qed
      then show ?thesis using p2(2) False at c(2) id(1) by auto
    qed
    have "key_of ac c \<noteq> class_key m (granularity ac) (class_flags HEADER_COMPACT 0) ?r" if c: "ac_store ac q = Some c" "ac_type c = CLASS_RUN" for q c
    proof
      assume k: "key_of ac c = class_key m (granularity ac) (class_flags HEADER_COMPACT 0) ?r"
      have d: "64 dvd unat (ac_unit_size c)" "class_ok c" using c gen G(2) by (auto simp: gen_inv_def slots_ok_def)
      have "16 dvd unat (ac_unit_size c)" "16 dvd unat m" using d(1) m(2) by (auto intro: dvd_trans [of 16 64])
      then have "ac_unit_size c = m"
        using k d(2) m34 class_key_unit unfolding key_of_def G(5) class_ok_def by blast
      with ne c show False by blast
    qed
    then have new: "alloc_class_by_run ac m (class_flags HEADER_COMPACT 0) ?r = Some 0" using by_run_spec [OF G(3)] by auto
    have r16: "unat ?r \<le> 65535" using R(2) by simp
    have ht: "HEADER_COMPACT \<noteq> MAX_HEADER_TYPES" by simp
    from alloc_class_new_run_spec [OF G(2,3) may ht m34(1) r16 compact_fits [OF m34(3) m(4)] new]
    obtain q ac' where q: "alloc_class_new env (- 1) ac CLASS_RUN HEADER_COMPACT m 0 ?r = Some (q, ac')"
      "q = 0 \<Longrightarrow> class_failed (- 1) ac ac'" "q \<noteq> 0 \<Longrightarrow> q = ce_malloc env \<and> (\<exists>n c. class_made (- 1) ac q n c ac' \<and> ac_unit_size c = m)"
      by (metis (full_types))
    show ?thesis
    proof (cases "q = 0")
      case True
      then show ?thesis using q(1) foc False failed_slots [OF q(2) G(2,4)] by auto
    next
      case nz: False
      then obtain k c where "class_made (- 1) ac q k c ac'" "ac_unit_size c = m" "q = ce_malloc env" using q(3) by blast
      then have "gen_inv (insert (ce_malloc env) U) ac'" using made_gen [OF gen may] env(1) m(2) nz by blast
      then show ?thesis using q(1) foc False nz by auto
    qed
  qed
qed

text \<open>The loops over the sizes of a category and over the categories end.\<close>

definition env_fresh :: "(nat \<Rightarrow> class_env) \<Rightarrow> addr set \<Rightarrow> nat \<Rightarrow> bool" where
  "env_fresh env U k \<longleftrightarrow> (\<forall>j \<ge> k. (ce_malloc (env j) \<noteq> 0 \<longrightarrow> ce_malloc (env j) \<notin> U) \<and> ce_malloc (env j) \<noteq> ACLASS_RESERVED) \<and>
     (\<forall>i \<ge> k. \<forall>j > i. ce_malloc (env j) \<noteq> 0 \<longrightarrow> ce_malloc (env j) \<noteq> ce_malloc (env i))"

lemma env_fresh_step: "env_fresh env U k \<Longrightarrow> env_fresh env (insert (ce_malloc (env k)) U) (Suc k)"
  by (auto simp: env_fresh_def Suc_le_eq)

lemma category_loop_ends:
  assumes "gen_inv U ac" and "env_fresh env U k" and "64 dvd unat n" "64 \<le> unat n" "unat n \<le> unat s" "unat s \<le> 393216"
  shows "\<exists>ok k' ac' U'. category_loop env s n k ac = Some (ok, k', ac') \<and> env_fresh env U' k' \<and>
    (if ok then gen_inv U' ac' else slots_ok ac' \<and> no_reservation ac')"
  using assms
proof (induction "unat s - unat n" arbitrary: n k ac U rule: less_induct)
  case less
  have n: "unat n \<le> 393216" using less.prems by simp
  obtain p ac1 where p: "alloc_class_find_or_create (env k) ac n = Some (p, ac1)"
    "if p = 0 then slots_ok ac1 \<and> no_reservation ac1 else gen_inv (insert (ce_malloc (env k)) U) ac1"
    using find_or_create_spec [OF less.prems(1) _ _ less.prems(3,4) n, of "env k"] less.prems(2) by (auto simp: env_fresh_def)
  note fr = env_fresh_step [OF less.prems(2)]
  have step: "category_loop env s n k ac = (if p = 0 then Some (False, Suc k, ac1)
      else if next_class_size n \<le> s then category_loop env s (next_class_size n) (Suc k) ac1 else Some (True, Suc k, ac1))"
    by (subst category_loop.simps) (simp add: p(1) Let_def)
  show ?case
  proof (cases "p \<noteq> 0 \<and> next_class_size n \<le> s")
    case False
    show ?thesis
    proof (cases "p = 0")
      case True
      then show ?thesis using p(2) fr unfolding step by (intro exI [of _ False] exI [of _ "Suc k"] exI [of _ ac1] exI) auto
    next
      case nz: False
      then show ?thesis using p(2) fr False unfolding step by (intro exI [of _ True] exI [of _ "Suc k"] exI [of _ ac1] exI) auto
    qed
  next
    case True
    note N = next_size_bounds [OF less.prems(4) n less.prems(3)]
    have le: "unat (next_class_size n) \<le> unat s" using True by (simp add: word_le_nat_alt)
    have "unat s - unat (next_class_size n) < unat s - unat n" using N(1) le by linarith
    moreover have "gen_inv (insert (ce_malloc (env k)) U) ac1" using p(2) True by simp
    moreover have "64 \<le> unat (next_class_size n)" using N(1) by linarith
    ultimately show ?thesis using less.hyps [of "next_class_size n"] fr N(3) le less.prems(6) True unfolding step by simp
  qed
qed

lemma categories_loop_ends:
  assumes "gen_inv U ac" and "env_fresh env U k"
    and "\<And>a s. (a, s) \<in> set cs \<Longrightarrow> 64 dvd unat a \<and> unat a + 64 \<le> unat s \<and> unat s \<le> 393216"
  shows "\<exists>ok ac'. categories_loop env cs k ac = Some (ok, ac') \<and> (if ok then \<exists>U. gen_inv U ac' else slots_ok ac' \<and> no_reservation ac')"
  using assms
proof (induction cs arbitrary: U ac k)
  case (Cons x cs)
  obtain a s where x: "x = (a, s)" by fastforce
  have as: "64 dvd unat a" "unat a + 64 \<le> unat s" "unat s \<le> 393216" using Cons.prems(3) [of a s] x by auto
  have u: "unat (a + ALLOC_BLOCK_SIZE_GEN) = unat a + 64" using as(2,3) by (simp add: ALLOC_BLOCK_SIZE_GEN_def unat_word_ariths)
  have d: "64 dvd unat (a + ALLOC_BLOCK_SIZE_GEN)" "64 \<le> unat (a + ALLOC_BLOCK_SIZE_GEN)" "unat (a + ALLOC_BLOCK_SIZE_GEN) \<le> unat s"
    unfolding u using as by simp_all
  obtain ok k' ac' U' where l: "category_loop env s (a + ALLOC_BLOCK_SIZE_GEN) k ac = Some (ok, k', ac')" "env_fresh env U' k'"
    "if ok then gen_inv U' ac' else slots_ok ac' \<and> no_reservation ac'"
    using category_loop_ends [OF Cons.prems(1,2) d as(3)] by blast
  show ?case
  proof (cases ok)
    case True
    have "gen_inv U' ac'" using l(3) True by simp
    then obtain ok2 ac2 where "categories_loop env cs k' ac' = Some (ok2, ac2)"
      "if ok2 then \<exists>U. gen_inv U ac2 else slots_ok ac2 \<and> no_reservation ac2"
      using Cons.IH [OF _ l(2)] Cons.prems(3) by (meson list.set_intros(2))
    then show ?thesis using l(1) x True by auto
  next
    case False
    then show ?thesis using l x by (intro exI [of _ False] exI [of _ ac']) simp
  qed
qed auto

section \<open>Collections\<close>

lemma delete_classes_returns:
  assumes "\<And>i. i \<in> set is \<Longrightarrow> i < MAX_ALLOCATION_CLASSES \<and>
      (aclasses ac ! i = 0 \<or> (\<exists>c. ac_store ac (aclasses ac ! i) = Some c \<and> unat (ac_id c) = i))" and "distinct is"
  shows "\<exists>ac'. delete_classes is ac = Some ac'"
  using assms
proof (induction "is" arbitrary: ac)
  case (Cons i "is")
  have i: "i < MAX_ALLOCATION_CLASSES" "aclasses ac ! i = 0 \<or> (\<exists>c. ac_store ac (aclasses ac ! i) = Some c \<and> unat (ac_id c) = i)"
    using Cons.prems(1) [of i] by auto
  show ?case
  proof (cases "aclasses ac ! i = 0")
    case True
    then show ?thesis using Cons by simp
  next
    case False
    then obtain c where c: "ac_store ac (aclasses ac ! i) = Some c" "unat (ac_id c) = i" using i(2) by metis
    let ?ac = "(set_slot_class i 0 ac)\<lparr>ac_store := (ac_store ac)(aclasses ac ! i := None)\<rparr>"
    have del: "alloc_class_delete ac (aclasses ac ! i) = Some ?ac" using c i(1) by (simp add: alloc_class_delete_def)
    have "\<exists>ac'. delete_classes is ?ac = Some ac'"
    proof (rule Cons.IH)
      fix j assume j: "j \<in> set is"
      then have ij: "j \<noteq> i" using Cons.prems(2) by auto
      have jp: "j < MAX_ALLOCATION_CLASSES" "aclasses ac ! j = 0 \<or> (\<exists>c. ac_store ac (aclasses ac ! j) = Some c \<and> unat (ac_id c) = j)"
        using Cons.prems(1) [of j] j by auto
      have e: "aclasses ?ac ! j = aclasses ac ! j" using ij by simp
      have "ac_store ?ac (aclasses ac ! j) = Some d" if "ac_store ac (aclasses ac ! j) = Some d" "unat (ac_id d) = j" for d
      proof -
        have "aclasses ac ! j \<noteq> aclasses ac ! i" using that c ij by (metis option.inject)
        then show ?thesis using that(1) by simp
      qed
      then show "j < MAX_ALLOCATION_CLASSES \<and> (aclasses ?ac ! j = 0 \<or> (\<exists>c. ac_store ?ac (aclasses ?ac ! j) = Some c \<and> unat (ac_id c) = j))"
        using jp unfolding e by metis
    qed (use Cons.prems(2) in simp)
    then show ?thesis using False del by simp
  qed
qed simp

lemma collection_error_returns: "slots_ok ac \<Longrightarrow> no_reservation ac \<Longrightarrow> collection_error ac True = Some None"
proof -
  assume ok: "slots_ok ac" "no_reservation ac"
  have "\<exists>ac'. delete_classes [0..<MAX_ALLOCATION_CLASSES] ac = Some ac'"
  proof (rule delete_classes_returns)
    fix i assume "i \<in> set [0..<MAX_ALLOCATION_CLASSES]"
    then show "i < MAX_ALLOCATION_CLASSES \<and> (aclasses ac ! i = 0 \<or> (\<exists>c. ac_store ac (aclasses ac ! i) = Some c \<and> unat (ac_id c) = i))"
      using ok unfolding slots_ok_def no_reservation_def class_at_def by simp
  qed simp
  then show ?thesis by (auto simp: collection_error_def alloc_class_collection_delete_def)
qed

text \<open>The class of huge blocks comes first.\<close>

lemma new_huge:
  assumes ac: "aclasses ac = replicate MAX_ALLOCATION_CLASSES 0" "ac_store ac = Map.empty"
    and t: "cuckoo_inv (class_map_by_unit_size ac)" "cuckoo_view (class_map_by_unit_size ac) = Map.empty"
    and env: "ce_malloc env \<noteq> ACLASS_RESERVED"
  shows "\<exists>p ac'. alloc_class_new env (- 1) ac CLASS_HUGE HEADER_COMPACT CHUNKSIZE 0 1 = Some (p, ac') \<and>
    (if p = 0 then ac' = ac
     else p = ce_malloc env \<and> slots_ok ac' \<and> keys_ok ac' \<and> no_reservation ac' \<and>
       (\<exists>c. ac' = ac\<lparr>aclasses := (replicate MAX_ALLOCATION_CLASSES 0)[0 := p], ac_store := [p \<mapsto> c]\<rparr> \<and> ac_type c = CLASS_HUGE \<and> ac_header_type c = HEADER_COMPACT))"
proof (cases "ce_malloc env = 0")
  case True
  then show ?thesis by (simp add: alloc_class_new_def class_error_def)
next
  case False
  let ?p = "ce_malloc env"
  define c where "c = (ce_old env)\<lparr>ac_unit_size := CHUNKSIZE, ac_header_type := HEADER_COMPACT, ac_type := CLASS_HUGE,
     ac_flags := (CHUNK_FLAG_COMPACT_HEADER OR 0) OR ALLOC_CLASS_DEFAULT_FLAGS, ac_id := 0\<rparr>"
  let ?ac = "ac\<lparr>aclasses := (replicate MAX_ALLOCATION_CLASSES 0)[0 := ?p], ac_store := [?p \<mapsto> c]\<rparr>"
  have run: "alloc_class_new env (- 1) ac CLASS_HUGE HEADER_COMPACT CHUNKSIZE 0 1 = Some (?p, ?ac)"
    using False ac by (simp add: alloc_class_new_def Let_def DEFAULT_ALLOC_CLASS_ID_def MAX_ALLOCATION_CLASSES_def set_slot_class_def c_def)
  have c: "ac_type c = CLASS_HUGE" "ac_header_type c = HEADER_COMPACT" "unat (ac_id c) = 0" "class_ok c"
    by (simp_all add: c_def class_ok_def CHUNKSIZE_def)
  have n: "0 < MAX_ALLOCATION_CLASSES" by (simp add: MAX_ALLOCATION_CLASSES_def)
  have "slots_ok ?ac"
    by (rule install_slots(1) [OF empty_slots(1) [OF ac] n _ _ False env c(4,3)]) (simp_all add: ac)
  moreover have "keys_ok ?ac" using t c(1) by (auto simp: keys_ok_def)
  moreover have "no_reservation ?ac" using env by (auto simp: no_reservation_def nth_list_update ACLASS_RESERVED_def)
  ultimately show ?thesis using run False c(1,2) by auto
qed

text \<open>The first class for runs serves the smallest sizes.\<close>

definition mark_small :: "byte \<Rightarrow> alloc_class_collection \<Rightarrow> alloc_class_collection" where
  "mark_small x ac = fold (\<lambda>i ac. ac\<lparr>class_map_by_alloc_size := (class_map_by_alloc_size ac)[i := x]\<rparr>) [0..<8] ac"

lemma mark_small_map:
  "mark_small x ac = ac\<lparr>class_map_by_alloc_size := fold (\<lambda>i m. m[i := x]) [0..<8] (class_map_by_alloc_size ac)\<rparr>"
proof -
  have "fold (\<lambda>i ac. ac\<lparr>class_map_by_alloc_size := (class_map_by_alloc_size ac)[i := x]\<rparr>) is ac =
      ac\<lparr>class_map_by_alloc_size := fold (\<lambda>i m. m[i := x]) is (class_map_by_alloc_size ac)\<rparr>" for "is" and ac :: alloc_class_collection
    by (induction "is" arbitrary: ac) simp_all
  then show ?thesis unfolding mark_small_def .
qed

lemma fold_update_nth: "j < length m \<Longrightarrow> fold (\<lambda>i m. m[i := x]) is m ! j = (if j \<in> set is then x else m ! j)"
  and fold_update_length: "length (fold (\<lambda>i m. m[i := x]) is m) = length m"
  by (induction "is" arbitrary: m) (auto simp: nth_list_update)

lemma mark_small_sizes:
  assumes "granularity ac = ALLOC_BLOCK_SIZE" "class_map_by_alloc_size ac = replicate 163841 (- 1)" "last_run_max_size ac \<le> MAX_RUN_SIZE"
    and c: "class_at ac (unat (ac_id c)) = Some c" "ac_header_type c = HEADER_COMPACT" "ac_unit_size c = 128"
  shows "sizes_ok (mark_small (ac_id c) ac)"
proof -
  have at: "class_at (mark_small (ac_id c) ac) i = class_at ac i" for i by (simp add: class_at_def mark_small_map)
  have "suits c (16 * i)" if "i < 8" for i
  proof -
    have "(16 * i + 16 + 128 - 1) div 128 \<le> (1023 :: nat) div 128" using that by (intro div_le_mono) simp
    then show ?thesis using c by (simp add: suits_def class_units_def hsize_of_def)
  qed
  then show ?thesis
    using assms(1-3) c(1) unfolding sizes_ok_def at
    by (auto simp: mark_small_map fold_update_nth fold_update_length split: if_splits)
qed

definition collection_env_ok :: "collection_env \<Rightarrow> bool" where
  "collection_env_ok e \<longleftrightarrow> (co_ac e \<longrightarrow> co_map e \<and> fst (co_table e) \<and> snd (co_table e)) \<and>
     ce_malloc (co_huge e) \<noteq> ACLASS_RESERVED \<and> ce_malloc (co_first e) \<noteq> ACLASS_RESERVED \<and>
     ce_malloc (co_first e) \<noteq> ce_malloc (co_huge e) \<and> env_fresh (co_next e) {ce_malloc (co_huge e), ce_malloc (co_first e)} 0"

text \<open>The collection after the two predefined classes.\<close>

lemma predefined_classes:
  assumes ac: "aclasses ac = replicate MAX_ALLOCATION_CLASSES 0" "ac_store ac = Map.empty" "granularity ac = ALLOC_BLOCK_SIZE"
      "class_map_by_alloc_size ac = replicate 163841 (- 1)" "last_run_max_size ac = MAX_RUN_SIZE"
      "\<not> fail_on_missing_class ac" "autogenerate_on_missing_class ac"
    and t: "cuckoo_inv (class_map_by_unit_size ac)" "cuckoo_view (class_map_by_unit_size ac) = Map.empty"
    and e: "ce_malloc e1 \<noteq> ACLASS_RESERVED" "ce_malloc e2 \<noteq> ACLASS_RESERVED" "ce_malloc e2 \<noteq> ce_malloc e1"
    and huge: "alloc_class_new e1 (- 1) ac CLASS_HUGE HEADER_COMPACT CHUNKSIZE 0 1 = Some (p1, ac1)" "p1 \<noteq> 0"
  shows "\<exists>p2 ac2. alloc_class_new e2 (- 1) ac1 CLASS_RUN HEADER_COMPACT MIN_UNIT_SIZE 0 1 = Some (p2, ac2) \<and>
    (if p2 = 0 then slots_ok ac2 \<and> no_reservation ac2
     else \<exists>c. ac_store ac2 p2 = Some c \<and> gen_inv {ce_malloc e1, ce_malloc e2} (mark_small (ac_id c) ac2) \<and> granularity ac2 = ALLOC_BLOCK_SIZE)"
proof -
  obtain c1 where h: "p1 = ce_malloc e1" "slots_ok ac1" "keys_ok ac1" "no_reservation ac1"
    "ac1 = ac\<lparr>aclasses := (replicate MAX_ALLOCATION_CLASSES 0)[0 := p1], ac_store := [p1 \<mapsto> c1]\<rparr>" "ac_type c1 = CLASS_HUGE" "ac_header_type c1 = HEADER_COMPACT"
    using new_huge [OF ac(1,2) t e(1)] huge by auto
  have s0: "ac_store ac1 0 = None" using h(2) by (simp add: slots_ok_def)
  have may: "may_create e2 (- 1) ac1" using e h(1,5) by (simp add: may_create_def)
  have u: "unat MIN_UNIT_SIZE < 2 ^ 34" "unat (1 :: u32) \<le> 65535" "8 \<le> unat MIN_UNIT_SIZE" "unat MIN_UNIT_SIZE + 64 \<le> 262144 * unat (1 :: u32)"
    "HEADER_COMPACT \<noteq> MAX_HEADER_TYPES" by (simp_all add: MIN_UNIT_SIZE_def)
  have absent: "alloc_class_by_run ac1 MIN_UNIT_SIZE (class_flags HEADER_COMPACT 0) 1 = Some 0"
    using h(6) by (subst by_run_spec [OF h(3)]) (simp add: h(5))
  from alloc_class_new_run_spec [OF h(2,3) may u(5,1,2) compact_fits [OF u(3,4)] absent]
  obtain p2 ac2 where p2: "alloc_class_new e2 (- 1) ac1 CLASS_RUN HEADER_COMPACT MIN_UNIT_SIZE 0 1 = Some (p2, ac2)"
    "p2 = 0 \<Longrightarrow> class_failed (- 1) ac1 ac2"
    "p2 \<noteq> 0 \<Longrightarrow> p2 = ce_malloc e2 \<and> (\<exists>n c. class_made (- 1) ac1 p2 n c ac2 \<and> ac_unit_size c = MIN_UNIT_SIZE \<and> ac_header_type c = HEADER_COMPACT \<and> ac_type c = CLASS_RUN)"
    by (metis (full_types))
  show ?thesis
  proof (cases "p2 = 0")
    case True
    then show ?thesis using p2(1) failed_slots [OF p2(2) h(2,4)] by auto
  next
    case False
    then obtain n c where made: "class_made (- 1) ac1 p2 n c ac2" and pe: "p2 = ce_malloc e2"
      and c: "ac_unit_size c = MIN_UNIT_SIZE" "ac_header_type c = HEADER_COMPACT" "ac_type c = CLASS_RUN" using p2(3) by blast
    have fresh: "ac_store ac1 p2 = None" using e h(1,5) pe by simp
    note K = class_made_keeps [OF made h(2) fresh free_slot_store [OF h(2) may made]]
    obtain tb where m: "ac2 = ac1\<lparr>aclasses := (aclasses ac1)[n := p2], class_map_by_unit_size := tb, ac_store := (ac_store ac1)(p2 \<mapsto> c)\<rparr>"
      "slots_ok ac2" "keys_ok ac2" "unat (ac_id c) = n" "n < MAX_ALLOCATION_CLASSES" using made unfolding class_made_def by blast
    let ?a = "mark_small (ac_id c) ac2"
    have at: "class_at ?a i = class_at ac2 i" for i by (simp add: class_at_def mark_small_map)
    have d0: "DEFAULT_ALLOC_CLASS_ID < MAX_ALLOCATION_CLASSES" by (simp add: DEFAULT_ALLOC_CLASS_ID_def MAX_ALLOCATION_CLASSES_def)
    have "class_at ac1 DEFAULT_ALLOC_CLASS_ID = Some c1" by (simp add: class_at_def h(5) DEFAULT_ALLOC_CLASS_ID_def MAX_ALLOCATION_CLASSES_def)
    then have c0: "class_at ?a DEFAULT_ALLOC_CLASS_ID = Some c1" using K(1) [OF d0] at by simp
    have "class_at ac2 (unat (ac_id c)) = Some c" using K(2,3) m(4) by (simp add: class_at_def)
    then have "sizes_ok ?a" using c(1,2) ac(3-5) by (intro mark_small_sizes) (simp_all add: m(1) h(5) MIN_UNIT_SIZE_def)
    moreover have "slots_ok ?a" "keys_ok ?a" using m(2,3) by (simp_all add: slots_ok_def keys_ok_def key_of_def at) (simp_all add: mark_small_map)
    ultimately have inv: "ac_inv ?a" using c0 h(6,7) unfolding ac_inv_def by auto
    have "no_reservation ac2" unfolding no_reservation_def
    proof (intro allI impI)
      fix i assume "i < MAX_ALLOCATION_CLASSES"
      then show "aclasses ac2 ! i \<noteq> ACLASS_RESERVED" using h(4) K(3,4) e pe by (cases "i = n") (auto simp: no_reservation_def)
    qed
    then have "gen_inv {ce_malloc e1, ce_malloc e2} ?a"
      using inv c(1) h(1,6) pe ac(6,7) by (auto simp: gen_inv_def mark_small_map m(1) h(5) no_reservation_def MIN_UNIT_SIZE_def split: if_splits)
    then show ?thesis using p2(1) False K(2) m(1) h(5) ac(3) by auto
  qed
qed

lemma largest_slot_used:
  assumes "aclasses ac ! 0 \<noteq> 0"
  shows "largest_slot (aclasses ac) < MAX_ALLOCATION_CLASSES \<and> aclasses ac ! largest_slot (aclasses ac) \<noteq> 0"
proof (cases "find (\<lambda>i. i = 0 \<or> aclasses ac ! i \<noteq> 0) (rev [0..<MAX_ALLOCATION_CLASSES])")
  case None
  then show ?thesis using assms by (simp add: largest_slot_def MAX_ALLOCATION_CLASSES_def)
next
  case (Some i)
  then obtain j where j: "j < length (rev [0..<MAX_ALLOCATION_CLASSES])" "i = rev [0..<MAX_ALLOCATION_CLASSES] ! j" "i = 0 \<or> aclasses ac ! i \<noteq> 0"
    unfolding find_Some_iff by blast
  have "i \<in> set (rev [0..<MAX_ALLOCATION_CLASSES])" unfolding j(2) by (rule nth_mem [OF j(1)])
  moreover have "aclasses ac ! i \<noteq> 0" using j(3) assms by metis
  ultimately show ?thesis using Some by (simp add: largest_slot_def)
qed

text \<open>C17. Creating a collection returns. When the collection and its two maps can be allocated,
  \<open>alloc_class_collection_new\<close> ends for every answer of the allocator to the classes: the searches for unit
  sizes and the loops over the categories end, every key is new in the hash table, and the result is the
  null pointer or a consistent collection without reservations, with the class of huge blocks and with
  unit sizes that are multiples of 64.\<close>

theorem alloc_class_collection_ready:
  assumes "collection_env_ok e"
  shows "\<exists>r. alloc_class_collection_new e = Some r \<and>
    (\<forall>ac. r = Some ac \<longrightarrow> ac_inv ac \<and> no_reservation ac \<and> autogenerate_on_missing_class ac \<and> \<not> fail_on_missing_class ac \<and>
       (\<forall>p c. ac_store ac p = Some c \<and> ac_type c = CLASS_RUN \<longrightarrow> 64 dvd unat (ac_unit_size c)))"
proof (cases "co_ac e")
  case False
  then show ?thesis by (simp add: alloc_class_collection_new_def)
next
  case True
  note E = assms [unfolded collection_env_ok_def]
  have ok: "co_map e" "fst (co_table e)" "snd (co_table e)" using E True by simp_all
  obtain t where t: "cuckoo_new (fst (co_table e)) (snd (co_table e)) = Some t" using ok by (simp add: cuckoo_new_def)
  note T = cuckoo_new_spec [OF t]
  have ms: "unat (MAX_RUN_SIZE div granularity new_collection + 1) = 163841"
    by (simp add: new_collection_def ALLOC_BLOCK_SIZE_def MAX_RUN_SIZE_def CHUNKSIZE_def)
  define ac where "ac = new_collection\<lparr>class_map_by_alloc_size := replicate 163841 (- 1), class_map_by_unit_size := t\<rparr>"
  have ac: "aclasses ac = replicate MAX_ALLOCATION_CLASSES 0" "ac_store ac = Map.empty" "granularity ac = ALLOC_BLOCK_SIZE"
    "class_map_by_alloc_size ac = replicate 163841 (- 1)" "last_run_max_size ac = MAX_RUN_SIZE"
    "\<not> fail_on_missing_class ac" "autogenerate_on_missing_class ac" "class_map_by_unit_size ac = t"
    by (simp_all add: ac_def new_collection_def)
  have tt: "cuckoo_inv (class_map_by_unit_size ac)" "cuckoo_view (class_map_by_unit_size ac) = Map.empty" using T ac(8) by simp_all
  obtain p1 ac1 where p1: "alloc_class_new (co_huge e) (- 1) ac CLASS_HUGE HEADER_COMPACT CHUNKSIZE 0 1 = Some (p1, ac1)" "p1 = 0 \<Longrightarrow> ac1 = ac"
    using new_huge [OF ac(1,2) tt] E by (metis (full_types))
  note new = alloc_class_collection_new_def [of e] True ok(1) t ms ac_def [symmetric] p1(1) Let_def
  show ?thesis
  proof (cases "p1 = 0")
    case p10: True
    then show ?thesis using collection_error_returns [OF empty_slots [OF ac(1,2)]] p1(2) by (simp add: new)
  next
    case nz1: False
    obtain p2 ac2 where p2: "alloc_class_new (co_first e) (- 1) ac1 CLASS_RUN HEADER_COMPACT MIN_UNIT_SIZE 0 1 = Some (p2, ac2)"
      "if p2 = 0 then slots_ok ac2 \<and> no_reservation ac2
       else \<exists>c. ac_store ac2 p2 = Some c \<and> gen_inv {ce_malloc (co_huge e), ce_malloc (co_first e)} (mark_small (ac_id c) ac2) \<and> granularity ac2 = ALLOC_BLOCK_SIZE"
      using predefined_classes [OF ac(1-7) tt _ _ _ p1(1) nz1] E by blast
    show ?thesis
    proof (cases "p2 = 0")
      case True
      then show ?thesis using p2 collection_error_returns [of ac2] nz1 by (simp add: new)
    next
      case nz2: False
      then obtain c where c: "ac_store ac2 p2 = Some c" "gen_inv {ce_malloc (co_huge e), ce_malloc (co_first e)} (mark_small (ac_id c) ac2)"
        "granularity ac2 = ALLOC_BLOCK_SIZE" using p2(2) by (metis (full_types))
      have g: "unat (FIRST_GENERATED_CLASS_SIZE div granularity ac2) = 8" by (simp add: c(3) ALLOC_BLOCK_SIZE_def FIRST_GENERATED_CLASS_SIZE_def)
      have cs: "64 dvd unat a \<and> unat a + 64 \<le> unat s \<and> unat s \<le> 393216" if "(a, s) \<in> set (zip categories (tl categories))" for a s
        using that by (auto simp: categories_def FIRST_GENERATED_CLASS_SIZE_def)
      have fr: "env_fresh (co_next e) {ce_malloc (co_huge e), ce_malloc (co_first e)} 0" using E by blast
      obtain okc ac3 where l: "categories_loop (co_next e) (zip categories (tl categories)) 0 (mark_small (ac_id c) ac2) = Some (okc, ac3)"
        "if okc then \<exists>U. gen_inv U ac3 else slots_ok ac3 \<and> no_reservation ac3"
        using categories_loop_ends [OF c(2) fr cs] by blast
      have run: "alloc_class_collection_new e = (if \<not> okc then collection_error ac3 True
          else do { c \<leftarrow> ac_store ac3 (aclasses ac3 ! largest_slot (aclasses ac3)); Some (Some (ac3\<lparr>last_run_max_size := run_max_size c\<rparr>)) })"
        using p2(1) nz1 nz2 c(1) l(1) unfolding mark_small_def by (simp add: new g)
      show ?thesis
      proof (cases okc)
        case False
        then show ?thesis using l(2) collection_error_returns [of ac3] run by simp
      next
        case True
        then obtain U where gen: "gen_inv U ac3" using l(2) by auto
        note G = gen_invD [OF gen]
        have "aclasses ac3 ! 0 \<noteq> 0"
          using G(1) slot_id(1) [OF G(2), of 0] by (auto simp: ac_inv_def DEFAULT_ALLOC_CLASS_ID_def MAX_ALLOCATION_CLASSES_def)
        note big = largest_slot_used [OF this]
        obtain d where d: "ac_store ac3 (aclasses ac3 ! largest_slot (aclasses ac3)) = Some d"
          using slot_cases [OF G(2,4) conjunct1 [OF big]] big by metis
        let ?a = "ac3\<lparr>last_run_max_size := run_max_size d\<rparr>"
        have at: "class_at ?a i = class_at ac3 i" for i by (simp add: class_at_def)
        have "run_max_size d \<le> MAX_RUN_SIZE" by (simp add: run_max_size_def Let_def not_less less_imp_le)
        then have "sizes_ok ?a" using G(1) by (simp add: ac_inv_def sizes_ok_def at)
        moreover have "slots_ok ?a" "keys_ok ?a" using G(2,3) by (simp_all add: slots_ok_def keys_ok_def key_of_def at)
        ultimately have "ac_inv ?a" using G(1) by (simp add: ac_inv_def at)
        moreover have "\<forall>p c. ac_store ac3 p = Some c \<and> ac_type c = CLASS_RUN \<longrightarrow> 64 dvd unat (ac_unit_size c)"
          using gen unfolding gen_inv_def by blast
        ultimately show ?thesis using gen run True d by (simp add: gen_inv_def no_reservation_def)
      qed
    qed
  qed
qed

text \<open>When the size map or the hash table can not be allocated, the clean-up reads through the null pointer
  that stands for the hash table.\<close>

lemma collection_new_null_table:
  assumes "co_ac e" and "\<not> co_map e \<or> \<not> fst (co_table e) \<or> \<not> snd (co_table e)"
  shows "alloc_class_collection_new e = None"
proof -
  have "slots_ok new_collection" "no_reservation new_collection" by (rule empty_slots; simp add: new_collection_def)+
  then have "collection_error new_collection False = None"
    by (simp add: collection_error_def alloc_class_collection_delete_def bind_eq_None_conv)
  then show ?thesis using assms by (auto simp: alloc_class_collection_new_def Let_def cuckoo_new_def)
qed

text \<open>Deleting one class leaves it in the hash table.\<close>

lemma deleted_class_found:
  assumes "ac_inv ac" and "ac_store ac p = Some c" and "ac_type c = CLASS_RUN" and "alloc_class_delete ac p = Some ac'"
  shows "alloc_class_by_run ac' (ac_unit_size c) (ac_flags c) (run_size_idx c) = Some p \<and> ac_store ac' p = None"
proof -
  have k: "keys_ok ac" "p \<noteq> 0" using assms(1,2) unfolding ac_inv_def slots_ok_def by (blast, metis option.distinct(1))
  have "alloc_class_by_run ac (ac_unit_size c) (ac_flags c) (run_size_idx c) = Some p"
    using k(2) assms(2,3) by (subst by_run_spec [OF k(1)]) (auto simp: key_of_def)
  moreover have "class_map_by_unit_size ac' = class_map_by_unit_size ac" "granularity ac' = granularity ac" "ac_store ac' p = None"
    using assms(2,4) by (auto simp: alloc_class_delete_def split: if_splits)
  ultimately show ?thesis by (simp add: alloc_class_by_run_def)
qed

text \<open>A class without units makes the search divide by zero.\<close>

lemma empty_class_divides: "run_nallocs c = 0 \<Longrightarrow> ac_type c = CLASS_RUN \<Longrightarrow> class_waste c k r = None"
  by (simp add: class_waste_def Let_def)

theorem alloc_class_collection_ready_witness:
  "\<exists>r. alloc_class_collection_new \<lparr>co_ac = True, co_map = True, co_table = (True, True), co_huge = sample_class_env 1,
      co_first = sample_class_env 2, co_next = (\<lambda>k. sample_class_env (2 * k + 4))\<rparr> = Some r \<and> (\<forall>ac. r = Some ac \<longrightarrow> ac_inv ac)"
proof -
  let ?e = "\<lparr>co_ac = True, co_map = True, co_table = (True, True), co_huge = sample_class_env 1,
      co_first = sample_class_env 2, co_next = (\<lambda>k. sample_class_env (2 * k + 4))\<rparr>"
  have odd: "2 * j + 4 \<noteq> ACLASS_RESERVED" for j :: nat unfolding ACLASS_RESERVED_def by presburger
  have "collection_env_ok ?e"
    using odd by (auto simp: collection_env_ok_def sample_class_env_def env_fresh_def) (simp_all add: ACLASS_RESERVED_def)
  then show ?thesis using alloc_class_collection_ready [of ?e] by blast
qed

end
