(* ===== verification/Btt_Layout.thy ===== *)
theory Btt_Layout
  imports Checksum
begin

text \<open>
  The on-media layout of the block translation table, \<^verbatim>\<open>libpmemblk/btt_layout.h\<close>, and the part of
  \<^verbatim>\<open>libpmemblk/btt.c\<close> that computes it. An info block and a flog entry are records; the
  conversions to and from little-endian byte order turn them into the bytes that are written to
  and read from the namespace. Sizes and offsets keep the widths they have in C, so that the
  lemmas about them are also about the absence of wrap-around.
\<close>

unbundle bit_operations_syntax

section \<open>Constants\<close>

definition BTT_ALIGNMENT :: u64 where "BTT_ALIGNMENT = 4096"
definition BTT_FLOG_PAIR_ALIGN :: u64 where "BTT_FLOG_PAIR_ALIGN = 64"
definition BTT_MAP_LOCK_ALIGN :: u64 where "BTT_MAP_LOCK_ALIGN = 64"
definition BTT_MAP_ENTRY_SIZE :: u32 where "BTT_MAP_ENTRY_SIZE = 4"
definition BTT_MAP_ENTRY_ERROR :: u32 where "BTT_MAP_ENTRY_ERROR = 0x40000000"
definition BTT_MAP_ENTRY_ZERO :: u32 where "BTT_MAP_ENTRY_ZERO = 0x80000000"
definition BTT_MAP_ENTRY_NORMAL :: u32 where "BTT_MAP_ENTRY_NORMAL = 0xC0000000"
definition BTT_MAP_ENTRY_LBA_MASK :: u32 where "BTT_MAP_ENTRY_LBA_MASK = 0x3fffffff"
definition BTT_MIN_SIZE :: u64 where "BTT_MIN_SIZE = 0x1000000"
definition BTT_MAX_ARENA :: u64 where "BTT_MAX_ARENA = 0x8000000000"
definition BTT_MIN_LBA_SIZE :: u32 where "BTT_MIN_LBA_SIZE = 512"
definition BTT_INTERNAL_LBA_ALIGNMENT :: u32 where "BTT_INTERNAL_LBA_ALIGNMENT = 256"
definition BTT_DEFAULT_NFREE :: u32 where "BTT_DEFAULT_NFREE = 256"
definition BTTINFO_FLAG_ERROR :: u32 where "BTTINFO_FLAG_ERROR = 1"
definition BTTINFO_FLAG_ERROR_MASK :: u32 where "BTTINFO_FLAG_ERROR_MASK = 1"

text \<open>\<open>BTT_ARENA_INFO\<close> and two zero bytes.\<close>

definition Sig :: "byte list" where
  "Sig = [0x42, 0x54, 0x54, 0x5f, 0x41, 0x52, 0x45, 0x4e, 0x41, 0x5f, 0x49, 0x4e, 0x46, 0x4f, 0, 0]"

section \<open>Info blocks and flog entries\<close>

record btt_info =
  bi_sig :: "byte list"
  bi_uuid :: "byte list"
  bi_parent_uuid :: "byte list"
  bi_flags :: u32
  bi_major :: u16
  bi_minor :: u16
  bi_external_lbasize :: u32
  bi_external_nlba :: u32
  bi_internal_lbasize :: u32
  bi_internal_nlba :: u32
  bi_nfree :: u32
  bi_infosize :: u32
  bi_nextoff :: u64
  bi_dataoff :: u64
  bi_mapoff :: u64
  bi_flogoff :: u64
  bi_infooff :: u64
  bi_unused :: "byte list"
  bi_checksum :: u64

definition SIZEOF_BTT_INFO :: nat where "SIZEOF_BTT_INFO = 4096"

text \<open>An info block cleared by \<open>memset\<close>.\<close>

definition zero_info :: btt_info where
  "zero_info = \<lparr>bi_sig = replicate 16 0, bi_uuid = replicate 16 0, bi_parent_uuid = replicate 16 0,
     bi_flags = 0, bi_major = 0, bi_minor = 0, bi_external_lbasize = 0, bi_external_nlba = 0,
     bi_internal_lbasize = 0, bi_internal_nlba = 0, bi_nfree = 0, bi_infosize = 0, bi_nextoff = 0,
     bi_dataoff = 0, bi_mapoff = 0, bi_flogoff = 0, bi_infooff = 0, bi_unused = replicate 3968 0,
     bi_checksum = 0\<rparr>"

definition btt_info_convert2le :: "btt_info \<Rightarrow> byte list" where
  "btt_info_convert2le i =
     bi_sig i @ bi_uuid i @ bi_parent_uuid i @ u32_bytes (bi_flags i) @ u16_bytes (bi_major i) @
     u16_bytes (bi_minor i) @ u32_bytes (bi_external_lbasize i) @ u32_bytes (bi_external_nlba i) @
     u32_bytes (bi_internal_lbasize i) @ u32_bytes (bi_internal_nlba i) @ u32_bytes (bi_nfree i) @
     u32_bytes (bi_infosize i) @ u64_bytes (bi_nextoff i) @ u64_bytes (bi_dataoff i) @
     u64_bytes (bi_mapoff i) @ u64_bytes (bi_flogoff i) @ u64_bytes (bi_infooff i) @
     bi_unused i @ u64_bytes (bi_checksum i)"

definition info_at :: "mem \<Rightarrow> addr \<Rightarrow> btt_info" where
  "info_at m a = \<lparr>bi_sig = bytes_at m a 16, bi_uuid = bytes_at m (a + 16) 16,
     bi_parent_uuid = bytes_at m (a + 32) 16, bi_flags = rd32 m (a + 48), bi_major = rd16 m (a + 52),
     bi_minor = rd16 m (a + 54), bi_external_lbasize = rd32 m (a + 56),
     bi_external_nlba = rd32 m (a + 60), bi_internal_lbasize = rd32 m (a + 64),
     bi_internal_nlba = rd32 m (a + 68), bi_nfree = rd32 m (a + 72), bi_infosize = rd32 m (a + 76),
     bi_nextoff = rd64 m (a + 80), bi_dataoff = rd64 m (a + 88), bi_mapoff = rd64 m (a + 96),
     bi_flogoff = rd64 m (a + 104), bi_infooff = rd64 m (a + 112),
     bi_unused = bytes_at m (a + 120) 3968, bi_checksum = rd64 m (a + 4088)\<rparr>"

text \<open>A map entry or another 32-bit value in the order of the host.\<close>

definition le32toh :: "byte list \<Rightarrow> u32" where
  "le32toh bs = of_nat (le_nat bs)"

text \<open>A buffer that holds the given bytes, at address 0.\<close>

definition buffer :: "byte list \<Rightarrow> mem" where
  "buffer bs = store (\<lambda>_. 0) 0 bs"

definition btt_info_convert2h :: "byte list \<Rightarrow> btt_info" where
  "btt_info_convert2h bs = info_at (buffer bs) 0"

record btt_flog =
  fl_lba :: u32
  fl_old_map :: u32
  fl_new_map :: u32
  fl_seq :: u32

definition Zflog :: btt_flog where
  "Zflog = \<lparr>fl_lba = 0, fl_old_map = 0, fl_new_map = 0, fl_seq = 0\<rparr>"

definition btt_flog_convert2le :: "btt_flog \<Rightarrow> byte list" where
  "btt_flog_convert2le f =
     u32_bytes (fl_lba f) @ u32_bytes (fl_old_map f) @ u32_bytes (fl_new_map f) @ u32_bytes (fl_seq f)"

definition btt_flog_convert2h :: "byte list \<Rightarrow> btt_flog" where
  "btt_flog_convert2h bs =
     \<lparr>fl_lba = rd32 (buffer bs) 0, fl_old_map = rd32 (buffer bs) 4,
      fl_new_map = rd32 (buffer bs) 8, fl_seq = rd32 (buffer bs) 12\<rparr>"

text \<open>Checksum of an info block: insertion and verification.\<close>

definition info_checksum_insert :: "btt_info \<Rightarrow> btt_info" where
  "info_checksum_insert i =
     (case util_checksum (buffer (btt_info_convert2le i)) 0 SIZEOF_BTT_INFO 4088 True 0 of
        Some (_, m) \<Rightarrow> info_at m 0 | None \<Rightarrow> i)"

definition info_checksum_verify :: "byte list \<Rightarrow> bool" where
  "info_checksum_verify bs =
     (case util_checksum (buffer bs) 0 SIZEOF_BTT_INFO 4088 False 0 of
        Some (ok, _) \<Rightarrow> ok | None \<Rightarrow> False)"

text \<open>\<open>read_info\<close>, for the parent UUID of the namespace: the info block in host order, or \<open>None\<close>
  when it is not valid.\<close>

definition read_info :: "byte list \<Rightarrow> byte list \<Rightarrow> btt_info option" where
  "read_info parent_uuid bs =
     (let i = btt_info_convert2h bs
      in if bi_sig i \<noteq> Sig then None
         else if bi_parent_uuid i \<noteq> parent_uuid then None
         else if \<not> info_checksum_verify bs then None
         else if bi_major i = 0 then None
         else Some i)"

section \<open>Map entries and sequence numbers\<close>

definition map_entry_is_zero :: "u32 \<Rightarrow> bool" where
  "map_entry_is_zero e \<longleftrightarrow> e AND NOT BTT_MAP_ENTRY_LBA_MASK = BTT_MAP_ENTRY_ZERO"

definition map_entry_is_error :: "u32 \<Rightarrow> bool" where
  "map_entry_is_error e \<longleftrightarrow> e AND NOT BTT_MAP_ENTRY_LBA_MASK = BTT_MAP_ENTRY_ERROR"

definition map_entry_is_initial :: "u32 \<Rightarrow> bool" where
  "map_entry_is_initial e \<longleftrightarrow> e AND NOT BTT_MAP_ENTRY_LBA_MASK = 0"

definition map_entry_is_zero_or_initial :: "u32 \<Rightarrow> bool" where
  "map_entry_is_zero_or_initial e \<longleftrightarrow>
     (let f = e AND NOT BTT_MAP_ENTRY_LBA_MASK in f = 0 \<or> f = BTT_MAP_ENTRY_ZERO)"

definition NSEQ :: "u32 \<Rightarrow> u32" where
  "NSEQ s = [0, 2, 3, 1] ! unat (s AND 3)"

text \<open>The current entry of a flog pair and the index of the next one to write; \<open>None\<close> is the null
  pointer.\<close>

definition btt_flog_get_valid :: "btt_flog \<Rightarrow> btt_flog \<Rightarrow> (btt_flog \<times> nat) option" where
  "btt_flog_get_valid f0 f1 =
     (if fl_seq f0 = fl_seq f1 then None
      else if fl_seq f0 = 0 then Some (f1, 0)
      else if fl_seq f1 = 0 then Some (f0, 1)
      else if NSEQ (fl_seq f0) = fl_seq f1 then Some (f1, 0)
      else Some (f0, 1))"

definition get_map_lock_num :: "u32 \<Rightarrow> u32 \<Rightarrow> u32" where
  "get_map_lock_num premap_lba nfree =
     ucast (ucast (premap_lba * BTT_MAP_ENTRY_SIZE) div BTT_MAP_LOCK_ALIGN) mod nfree"

section \<open>Sizes\<close>

text \<open>0 stands for an invalid size, as in the code.\<close>

definition internal_lbasize :: "u32 \<Rightarrow> u32" where
  "internal_lbasize external_lbasize =
     (let sz = (if external_lbasize < BTT_MIN_LBA_SIZE then BTT_MIN_LBA_SIZE else external_lbasize);
          sz = roundup sz BTT_INTERNAL_LBA_ALIGNMENT
      in if sz < BTT_INTERNAL_LBA_ALIGNMENT then 0 else sz)"

definition btt_flog_size :: "u32 \<Rightarrow> u64" where
  "btt_flog_size nfree = roundup (ucast nfree * roundup 32 BTT_FLOG_PAIR_ALIGN) BTT_ALIGNMENT"

definition btt_map_size :: "u32 \<Rightarrow> u64" where
  "btt_map_size external_nlba = roundup (ucast (external_nlba * BTT_MAP_ENTRY_SIZE)) BTT_ALIGNMENT"

definition btt_arena_datasize :: "u64 \<Rightarrow> u32 \<Rightarrow> u64" where
  "btt_arena_datasize arena_size nfree = arena_size - 2 * of_nat SIZEOF_BTT_INFO - btt_flog_size nfree"

definition btt_info_set_params :: "btt_info \<Rightarrow> u32 \<Rightarrow> u32 \<Rightarrow> u32 \<Rightarrow> u64 \<Rightarrow> errno + btt_info" where
  "btt_info_set_params info external_lbasize ilbasize nfree arena_size =
     (let arena_data_size = btt_arena_datasize arena_size nfree;
          internal_nlba = (arena_data_size - BTT_ALIGNMENT) div ucast (ilbasize + BTT_MAP_ENTRY_SIZE)
      in if internal_nlba < ucast (2 * nfree) then Inl EINVAL
         else Inr (info\<lparr>bi_external_lbasize := external_lbasize, bi_internal_lbasize := ilbasize,
                bi_nfree := nfree, bi_infosize := of_nat SIZEOF_BTT_INFO,
                bi_internal_nlba := ucast internal_nlba,
                bi_external_nlba := ucast internal_nlba - nfree\<rparr>))"

definition btt_info_set_offs :: "btt_info \<Rightarrow> u64 \<Rightarrow> u64 \<Rightarrow> btt_info" where
  "btt_info_set_offs info arena_size space_left =
     (let infooff = arena_size - of_nat SIZEOF_BTT_INFO;
          flogoff = infooff - btt_flog_size (bi_nfree info)
      in info\<lparr>bi_dataoff := ucast (bi_infosize info),
           bi_nextoff := (if space_left \<ge> BTT_MIN_SIZE then arena_size else 0),
           bi_infooff := infooff, bi_flogoff := flogoff,
           bi_mapoff := flogoff - btt_map_size (bi_external_nlba info)\<rparr>)"

definition btt_info_set :: "btt_info \<Rightarrow> u32 \<Rightarrow> u32 \<Rightarrow> u64 \<Rightarrow> u64 \<Rightarrow> errno + btt_info" where
  "btt_info_set info external_lbasize nfree arena_size space_left =
     (let internal_lba_size = internal_lbasize external_lbasize
      in if internal_lba_size = 0 then Inl EINVAL
         else case btt_info_set_params info external_lbasize internal_lba_size nfree arena_size of
                Inl e \<Rightarrow> Inl e
              | Inr info \<Rightarrow> Inr (btt_info_set_offs info arena_size space_left))"

end
