(* ===== verification/Btt.thy ===== *)
theory Btt
  imports Btt_Layout
begin

text \<open>
  The block translation table of \<^verbatim>\<open>libpmemblk/btt.c\<close>. The handle \<open>struct btt\<close> and its arenas are
  records; an arena pointer is an index into the list of arenas. The namespace is reached only
  through the callbacks of \<open>struct ns_callback\<close>, which are a record of functions on a namespace of
  any type, so that everything here holds for every provider of such callbacks.

  An operation returns an error number or a value together with the new handle. Its result is
  \<open>None\<close> when the calling thread can not go on by itself: when it waits for a mutex that is held,
  or for a reader to leave the block it wants to write; the same value stands for an access past the
  end of an array. The answers of the allocator are a list in the handle (an empty list: success).
\<close>

unbundle bit_operations_syntax

section \<open>Data\<close>

record 'ns ns_callback =
  cb_nsread :: "'ns \<Rightarrow> nat \<Rightarrow> nat \<Rightarrow> u64 \<Rightarrow> errno + byte list"
  cb_nswrite :: "'ns \<Rightarrow> nat \<Rightarrow> byte list \<Rightarrow> u64 \<Rightarrow> errno option \<times> 'ns"
  cb_nszero :: "'ns \<Rightarrow> nat \<Rightarrow> u64 \<Rightarrow> u64 \<Rightarrow> errno option \<times> 'ns"
  cb_nsmap :: "'ns \<Rightarrow> nat \<Rightarrow> nat \<Rightarrow> u64 \<Rightarrow> errno + byte list"
  cb_ns_is_zeroed :: bool

record flog_runtime =
  fr_flog :: btt_flog
  fr_entries :: "u64 \<times> u64"
  fr_next :: nat

record arena =
  ar_flags :: u32
  ar_external_nlba :: u32
  ar_internal_lbasize :: u32
  ar_internal_nlba :: u32
  ar_startoff :: u64
  ar_dataoff :: u64
  ar_mapoff :: u64
  ar_flogoff :: u64
  ar_nextoff :: u64
  ar_flogs :: "flog_runtime list"
  ar_rtt :: "u32 list"
  ar_map_locks :: "bool list"
  ar_info_lock :: bool

record 'ns btt =
  bt_nlane :: u32
  bt_layout_write_mutex :: bool
  bt_laidout :: bool
  bt_uuid :: "byte list"
  bt_parent_uuid :: "byte list"
  bt_rawsize :: u64
  bt_lbasize :: u32
  bt_nfree :: u32
  bt_nlba :: u64
  bt_narena :: u32
  bt_arenas :: "arena list"
  bt_ns :: 'ns
  bt_oom :: "bool list"

type_synonym ('ns, 'a) bres = "((errno + 'a) \<times> 'ns btt) option"

definition seqE :: "('ns, 'a) bres \<Rightarrow> ('a \<Rightarrow> 'ns btt \<Rightarrow> ('ns, 'b) bres) \<Rightarrow> ('ns, 'b) bres" where
  "seqE r f = (case r of None \<Rightarrow> None | Some (Inl e, s) \<Rightarrow> Some (Inl e, s) | Some (Inr x, s) \<Rightarrow> f x s)"

text \<open>Namespace access through the callbacks.\<close>

definition ns_read :: "'ns ns_callback \<Rightarrow> 'ns btt \<Rightarrow> nat \<Rightarrow> nat \<Rightarrow> u64 \<Rightarrow> ('ns, byte list) bres" where
  "ns_read cb s lane count off = Some (cb_nsread cb (bt_ns s) lane count off, s)"

definition ns_write :: "'ns ns_callback \<Rightarrow> 'ns btt \<Rightarrow> nat \<Rightarrow> byte list \<Rightarrow> u64 \<Rightarrow> ('ns, unit) bres" where
  "ns_write cb s lane bs off =
     (case cb_nswrite cb (bt_ns s) lane bs off of
        (None, ns) \<Rightarrow> Some (Inr (), s\<lparr>bt_ns := ns\<rparr>) | (Some e, ns) \<Rightarrow> Some (Inl e, s\<lparr>bt_ns := ns\<rparr>))"

definition ns_zero :: "'ns ns_callback \<Rightarrow> 'ns btt \<Rightarrow> nat \<Rightarrow> u64 \<Rightarrow> u64 \<Rightarrow> ('ns, unit) bres" where
  "ns_zero cb s lane count off =
     (case cb_nszero cb (bt_ns s) lane count off of
        (None, ns) \<Rightarrow> Some (Inr (), s\<lparr>bt_ns := ns\<rparr>) | (Some e, ns) \<Rightarrow> Some (Inl e, s\<lparr>bt_ns := ns\<rparr>))"

definition the_arena :: "'ns btt \<Rightarrow> nat \<Rightarrow> arena" where
  "the_arena s a = bt_arenas s ! a"

definition upd_arena :: "'ns btt \<Rightarrow> nat \<Rightarrow> (arena \<Rightarrow> arena) \<Rightarrow> 'ns btt" where
  "upd_arena s a f = s\<lparr>bt_arenas := (bt_arenas s)[a := f (bt_arenas s ! a)]\<rparr>"

definition upd_flog :: "'ns btt \<Rightarrow> nat \<Rightarrow> nat \<Rightarrow> (flog_runtime \<Rightarrow> flog_runtime) \<Rightarrow> 'ns btt" where
  "upd_flog s a i f = upd_arena s a (ar_flogs_update (\<lambda>fs. fs[i := f (fs ! i)]))"

definition bt_malloc :: "'ns btt \<Rightarrow> bool \<times> 'ns btt" where
  "bt_malloc s = (case bt_oom s of [] \<Rightarrow> (True, s) | b # bs \<Rightarrow> (b, s\<lparr>bt_oom := bs\<rparr>))"

definition invalid_lba :: "'ns btt \<Rightarrow> u64 \<Rightarrow> bool" where
  "invalid_lba s lba \<longleftrightarrow> bt_nlba s \<le> lba"

definition map_entry_off :: "arena \<Rightarrow> u32 \<Rightarrow> u64" where
  "map_entry_off ar premap_lba = ar_mapoff ar + ucast (BTT_MAP_ENTRY_SIZE * premap_lba)"

definition data_block_off :: "arena \<Rightarrow> u32 \<Rightarrow> u64" where
  "data_block_off ar e = ar_dataoff ar + ucast (e AND BTT_MAP_ENTRY_LBA_MASK) * ucast (ar_internal_lbasize ar)"

section \<open>Loading the flog\<close>

definition read_flog_pair :: "'ns ns_callback \<Rightarrow> 'ns btt \<Rightarrow> nat \<Rightarrow> nat \<Rightarrow> u64 \<Rightarrow> nat \<Rightarrow> ('ns, unit) bres" where
  "read_flog_pair cb s lane a flog_off i =
     (let s = upd_flog s a i (fr_entries_update (\<lambda>_. (flog_off, flog_off + 16)))
      in if unat (bt_nfree s) \<le> lane then Some (Inl EINVAL, s)
         else if flog_off = 0 then Some (Inl EINVAL, s)
         else seqE (ns_read cb s lane 32 flog_off) (\<lambda>bs s.
           let f0 = btt_flog_convert2h (take 16 bs); f1 = btt_flog_convert2h (drop 16 bs)
           in if invalid_lba s (ucast (fl_lba f0)) then Some (Inl EINVAL, s)
              else if invalid_lba s (ucast (fl_lba f1)) then Some (Inl EINVAL, s)
              else case btt_flog_get_valid f0 f1 of
                None \<Rightarrow> Some (Inr (), upd_arena s a (ar_flags_update (\<lambda>f. f OR BTTINFO_FLAG_ERROR)))
              | Some (cur, nxt) \<Rightarrow>
                  let s = upd_flog s a i (\<lambda>fr. fr\<lparr>fr_flog := cur, fr_next := nxt\<rparr>)
                  in if fl_old_map cur = fl_new_map cur then Some (Inr (), s)
                     else let off = map_entry_off (the_arena s a) (fl_lba cur)
                          in seqE (ns_read cb s lane 4 off) (\<lambda>bs s.
                               let e = le32toh bs;
                                   e = (if map_entry_is_initial e then fl_lba cur OR BTT_MAP_ENTRY_NORMAL else e)
                               in if fl_new_map cur \<noteq> e \<and> fl_old_map cur = e
                                  then ns_write cb s lane (u32_bytes (fl_new_map cur)) off
                                  else Some (Inr (), s))))"

section \<open>Writing the flog and the arena flags\<close>

definition flog_update ::
  "'ns ns_callback \<Rightarrow> 'ns btt \<Rightarrow> nat \<Rightarrow> nat \<Rightarrow> u32 \<Rightarrow> u32 \<Rightarrow> u32 \<Rightarrow> ('ns, unit) bres" where
  "flog_update cb s lane a lba old_map new_map =
     (let fr = ar_flogs (the_arena s a) ! lane;
          new_flog = \<lparr>fl_lba = lba, fl_old_map = old_map, fl_new_map = new_map, fl_seq = NSEQ (fl_seq (fr_flog fr))\<rparr>;
          bs = btt_flog_convert2le new_flog;
          off = (if fr_next fr = 0 then fst (fr_entries fr) else snd (fr_entries fr))
      in seqE (ns_write cb s lane (take 8 bs) off) (\<lambda>_ s.
         seqE (ns_write cb s lane (drop 8 bs) (off + 8)) (\<lambda>_ s.
           Some (Inr (), upd_flog s a lane (\<lambda>fr. fr\<lparr>fr_next := 1 - fr_next fr, fr_flog := new_flog\<rparr>)))))"

text \<open>\<open>arena_setf\<close>: the label \<open>err\<close> unlocks and returns the error.\<close>

definition arena_setf :: "'ns ns_callback \<Rightarrow> 'ns btt \<Rightarrow> nat \<Rightarrow> nat \<Rightarrow> u32 \<Rightarrow> ('ns, unit) bres" where
  "arena_setf cb s a lane setf =
     (let s = upd_arena s a (ar_flags_update (\<lambda>f. f OR setf));
          arena_off = ar_startoff (the_arena s a);
          unlock = (\<lambda>s. upd_arena s a (ar_info_lock_update (\<lambda>_. False)))
      in if \<not> bt_laidout s then Some (Inr (), s)
         else if ar_info_lock (the_arena s a) then None
         else map_option (\<lambda>(r, s). (r, unlock s))
           (let s = upd_arena s a (ar_info_lock_update (\<lambda>_. True))
            in seqE (ns_read cb s lane SIZEOF_BTT_INFO arena_off) (\<lambda>bs s.
                 let info = btt_info_convert2h bs; infooff = bi_infooff info;
                     info = info_checksum_insert (info\<lparr>bi_flags := bi_flags info OR setf\<rparr>);
                     bs = btt_info_convert2le info
                 in seqE (ns_write cb s lane bs arena_off) (\<lambda>_ s.
                    ns_write cb s lane bs (arena_off + infooff)))))"

definition set_arena_error :: "'ns ns_callback \<Rightarrow> 'ns btt \<Rightarrow> nat \<Rightarrow> nat \<Rightarrow> ('ns, unit) bres" where
  "set_arena_error cb s a lane = arena_setf cb s a lane BTTINFO_FLAG_ERROR"

section \<open>Loading arenas\<close>

definition zero_flog_runtime :: flog_runtime where
  "zero_flog_runtime = \<lparr>fr_flog = Zflog, fr_entries = (0, 0), fr_next = 0\<rparr>"

fun read_flogs_loop :: "'ns ns_callback \<Rightarrow> 'ns btt \<Rightarrow> nat \<Rightarrow> nat \<Rightarrow> nat list \<Rightarrow> u64 \<Rightarrow> ('ns, unit) bres" where
  "read_flogs_loop cb s lane a [] flog_off = Some (Inr (), s)"
| "read_flogs_loop cb s lane a (i # is) flog_off =
     (case read_flog_pair cb s lane a flog_off i of
        None \<Rightarrow> None
      | Some (Inl e, s) \<Rightarrow> seqE (set_arena_error cb s a lane) (\<lambda>_ s. Some (Inl e, s))
      | Some (Inr _, s) \<Rightarrow> read_flogs_loop cb s lane a is (flog_off + roundup 32 BTT_FLOG_PAIR_ALIGN))"

definition read_flogs :: "'ns ns_callback \<Rightarrow> 'ns btt \<Rightarrow> nat \<Rightarrow> nat \<Rightarrow> ('ns, unit) bres" where
  "read_flogs cb s lane a =
     (case bt_malloc s of
        (False, s) \<Rightarrow> Some (Inl ENOMEM, s)
      | (True, s) \<Rightarrow>
          let s = upd_arena s a (ar_flogs_update (\<lambda>_. replicate (unat (bt_nfree s)) zero_flog_runtime))
          in read_flogs_loop cb s lane a [0..<unat (bt_nfree s)] (ar_flogoff (the_arena s a)))"

definition build_rtt :: "'ns btt \<Rightarrow> nat \<Rightarrow> ('ns, unit) bres" where
  "build_rtt s a =
     (case bt_malloc s of
        (False, s) \<Rightarrow> Some (Inl ENOMEM, s)
      | (True, s) \<Rightarrow> Some (Inr (), upd_arena s a (ar_rtt_update (\<lambda>_. replicate (unat (bt_nfree s)) BTT_MAP_ENTRY_ERROR))))"

definition build_map_locks :: "'ns btt \<Rightarrow> nat \<Rightarrow> ('ns, unit) bres" where
  "build_map_locks s a =
     (case bt_malloc s of
        (False, s) \<Rightarrow> Some (Inl ENOMEM, s)
      | (True, s) \<Rightarrow> Some (Inr (), upd_arena s a (ar_map_locks_update (\<lambda>_. replicate (unat (bt_nfree s)) False))))"

definition read_arena :: "'ns ns_callback \<Rightarrow> 'ns btt \<Rightarrow> nat \<Rightarrow> u64 \<Rightarrow> nat \<Rightarrow> ('ns, unit) bres" where
  "read_arena cb s lane arena_off a =
     seqE (ns_read cb s lane SIZEOF_BTT_INFO arena_off) (\<lambda>bs s.
       let info = btt_info_convert2h bs;
           s = upd_arena s a (\<lambda>ar. ar\<lparr>ar_flags := bi_flags info, ar_external_nlba := bi_external_nlba info,
                 ar_internal_lbasize := bi_internal_lbasize info, ar_internal_nlba := bi_internal_nlba info,
                 ar_startoff := arena_off, ar_dataoff := arena_off + bi_dataoff info,
                 ar_mapoff := arena_off + bi_mapoff info, ar_flogoff := arena_off + bi_flogoff info,
                 ar_nextoff := arena_off + bi_nextoff info\<rparr>)
       in seqE (read_flogs cb s lane a) (\<lambda>_ s.
          seqE (build_rtt s a) (\<lambda>_ s.
          seqE (build_map_locks s a) (\<lambda>_ s.
            Some (Inr (), upd_arena s a (ar_info_lock_update (\<lambda>_. False)))))))"

definition zero_arena :: arena where
  "zero_arena = \<lparr>ar_flags = 0, ar_external_nlba = 0, ar_internal_lbasize = 0, ar_internal_nlba = 0,
     ar_startoff = 0, ar_dataoff = 0, ar_mapoff = 0, ar_flogoff = 0, ar_nextoff = 0, ar_flogs = [],
     ar_rtt = [], ar_map_locks = [], ar_info_lock = False\<rparr>"

fun read_arenas_loop :: "'ns ns_callback \<Rightarrow> 'ns btt \<Rightarrow> nat \<Rightarrow> nat list \<Rightarrow> u64 \<Rightarrow> ('ns, unit) bres" where
  "read_arenas_loop cb s lane [] arena_off = Some (Inr (), s)"
| "read_arenas_loop cb s lane (a # as) arena_off =
     seqE (read_arena cb s lane arena_off a) (\<lambda>_ s.
       read_arenas_loop cb s lane as (ar_nextoff (the_arena s a)))"

text \<open>The label \<open>err\<close> frees what was allocated and clears \<open>bttp->arenas\<close>.\<close>

definition read_arenas :: "'ns ns_callback \<Rightarrow> 'ns btt \<Rightarrow> nat \<Rightarrow> u32 \<Rightarrow> ('ns, unit) bres" where
  "read_arenas cb s lane narena =
     (case bt_malloc s of
        (False, s) \<Rightarrow> Some (Inl ENOMEM, s\<lparr>bt_arenas := []\<rparr>)
      | (True, s) \<Rightarrow>
          map_option (\<lambda>(r, s). case r of
              Inl e \<Rightarrow> (Inl e, s\<lparr>bt_arenas := []\<rparr>)
            | Inr _ \<Rightarrow> (Inr (), s\<lparr>bt_laidout := True\<rparr>))
            (read_arenas_loop cb (s\<lparr>bt_arenas := replicate (unat narena) zero_arena\<rparr>) lane [0..<unat narena] 0))"

section \<open>Writing the initial layout\<close>

fun write_flogs_loop :: "'ns ns_callback \<Rightarrow> 'ns btt \<Rightarrow> nat \<Rightarrow> nat list \<Rightarrow> u64 \<Rightarrow> u32 \<Rightarrow> ('ns, unit) bres" where
  "write_flogs_loop cb s lane [] off next_free_lba = Some (Inr (), s)"
| "write_flogs_loop cb s lane (i # is) off next_free_lba =
     (let e = next_free_lba OR BTT_MAP_ENTRY_ZERO;
          flog = \<lparr>fl_lba = of_nat i, fl_old_map = e, fl_new_map = e, fl_seq = 1\<rparr>
      in seqE (ns_write cb s lane (btt_flog_convert2le flog) off) (\<lambda>_ s.
         seqE (ns_write cb s lane (btt_flog_convert2le Zflog) (off + 16)) (\<lambda>_ s.
           write_flogs_loop cb s lane is (roundup (off + 32) BTT_FLOG_PAIR_ALIGN) (next_free_lba + 1))))"

text \<open>The part of the loop body of \<open>write_layout\<close> that runs when \<open>write\<close> is set.\<close>

definition write_arena ::
  "'ns ns_callback \<Rightarrow> 'ns btt \<Rightarrow> nat \<Rightarrow> btt_info \<Rightarrow> u64 \<Rightarrow> u64 \<Rightarrow> u64 \<Rightarrow> ('ns, u64) bres" where
  "write_arena cb s lane info arena_rawsize rawsize arena_off =
     (let info = btt_info_set_offs info arena_rawsize rawsize
      in seqE (if cb_ns_is_zeroed cb then Some (Inr (), s)
               else ns_zero cb s lane (btt_map_size (bi_external_nlba info)) (bi_mapoff info)) (\<lambda>_ s.
         seqE (write_flogs_loop cb s lane [0..<unat (bt_nfree s)] (arena_off + bi_flogoff info) (bi_external_nlba info)) (\<lambda>_ s.
           let info = info_checksum_insert (info\<lparr>bi_sig := Sig, bi_uuid := bt_uuid s,
                        bi_parent_uuid := bt_parent_uuid s, bi_major := 1, bi_minor := 1\<rparr>);
               bs = btt_info_convert2le info
           in seqE (ns_write cb s lane bs arena_off) (\<lambda>_ s.
              seqE (ns_write cb s lane bs (arena_off + bi_infooff info)) (\<lambda>_ s.
                Some (Inr (arena_off + bi_nextoff info), s))))))"

text \<open>The loop over the arenas; the result is \<open>total_nlba\<close>.\<close>

function layout_loop ::
  "'ns ns_callback \<Rightarrow> 'ns btt \<Rightarrow> nat \<Rightarrow> bool \<Rightarrow> u32 \<Rightarrow> u64 \<Rightarrow> u64 \<Rightarrow> u64 \<Rightarrow> ('ns, u64) bres" where
  "layout_loop cb s lane wr internal_lba_size rawsize total_nlba arena_off =
     (if rawsize < BTT_MIN_SIZE then Some (Inr total_nlba, s)
      else let arena_rawsize = (if rawsize > BTT_MAX_ARENA then BTT_MAX_ARENA else rawsize);
               rawsize = rawsize - arena_rawsize
           in case btt_info_set_params zero_info (bt_lbasize s) internal_lba_size (bt_nfree s) arena_rawsize of
                Inl e \<Rightarrow> Some (Inl e, s)
              | Inr info \<Rightarrow>
                  let total_nlba = total_nlba + ucast (bi_external_nlba info)
                  in if \<not> wr then layout_loop cb s lane wr internal_lba_size rawsize total_nlba arena_off
                     else case write_arena cb s lane info arena_rawsize rawsize arena_off of
                            None \<Rightarrow> None
                          | Some (Inl e, s) \<Rightarrow> Some (Inl e, s)
                          | Some (Inr arena_off, s) \<Rightarrow>
                              layout_loop cb s lane wr internal_lba_size rawsize total_nlba arena_off)"
  by pat_completeness auto
termination
  by (relation "measure (\<lambda>(cb, s, lane, wr, ils, rawsize, t, off). unat rawsize)")
     (auto simp: BTT_MIN_SIZE_def BTT_MAX_ARENA_def word_less_nat_alt word_le_nat_alt unat_sub split: if_splits)

text \<open>\<open>write_layout\<close>; \<open>gen\<close> is what \<open>util_uuid_generate\<close> answers.\<close>

definition write_layout :: "(errno + byte list) \<Rightarrow> 'ns ns_callback \<Rightarrow> 'ns btt \<Rightarrow> nat \<Rightarrow> bool \<Rightarrow> ('ns, unit) bres" where
  "write_layout gen cb s lane wr =
     seqE (if wr then case gen of Inl e \<Rightarrow> Some (Inl e, s) | Inr u \<Rightarrow> Some (Inr (), s\<lparr>bt_uuid := u\<rparr>)
           else Some (Inr (), s)) (\<lambda>_ s.
       let s = s\<lparr>bt_narena := ucast (bt_rawsize s div BTT_MAX_ARENA) +
                   (if bt_rawsize s mod BTT_MAX_ARENA \<ge> BTT_MIN_SIZE then 1 else 0)\<rparr>;
           internal_lba_size = internal_lbasize (bt_lbasize s)
       in if internal_lba_size = 0 then Some (Inl EINVAL, s)
          else seqE (layout_loop cb s lane wr internal_lba_size (bt_rawsize s) 0 0) (\<lambda>total_nlba s.
            let s = s\<lparr>bt_nlba := total_nlba\<rparr>
            in if wr then read_arenas cb s lane (bt_narena s) else Some (Inr (), s)))"

section \<open>Opening\<close>

text \<open>The loop of \<open>read_layout\<close>. The result is \<open>None\<close> when an info block is not valid and otherwise
  the number of arenas, the smallest \<open>nfree\<close> and the total number of blocks.\<close>

function read_layout_loop ::
  "'ns ns_callback \<Rightarrow> 'ns btt \<Rightarrow> nat \<Rightarrow> u64 \<Rightarrow> u32 \<Rightarrow> u32 \<Rightarrow> u64 \<Rightarrow> u64 \<Rightarrow> errno + (u32 \<times> u32 \<times> u64) option" where
  "read_layout_loop cb s lane rawsize narena smallest_nfree total_nlba arena_off =
     (if rawsize < BTT_MIN_SIZE then Inr (Some (narena, smallest_nfree, total_nlba))
      else case cb_nsread cb (bt_ns s) lane SIZEOF_BTT_INFO arena_off of
        Inl e \<Rightarrow> Inl e
      | Inr bs \<Rightarrow>
          (case read_info (bt_parent_uuid s) bs of
             None \<Rightarrow> Inr None
           | Some info \<Rightarrow>
               if bi_external_lbasize info \<noteq> bt_lbasize s then Inl EINVAL
               else if bi_nfree info = 0 then Inl EINVAL
               else if bi_external_nlba info = 0 then Inl EINVAL
               else if bi_nextoff info \<noteq> 0 \<and> bi_nextoff info \<noteq> BTT_MAX_ARENA then Inl EINVAL
               else let narena = narena + 1; smallest_nfree = min smallest_nfree (bi_nfree info);
                        total_nlba = total_nlba + ucast (bi_external_nlba info)
                    in if bi_nextoff info = 0 then Inr (Some (narena, smallest_nfree, total_nlba))
                       else if bi_nextoff info > rawsize then Inl EINVAL
                       else read_layout_loop cb s lane (rawsize - bi_nextoff info) narena smallest_nfree
                              total_nlba (arena_off + bi_nextoff info)))"
  by pat_completeness auto
termination
  by (relation "measure (\<lambda>(cb, s, lane, rawsize, n, f, t, off). unat rawsize)")
     (auto simp: BTT_MAX_ARENA_def word_less_nat_alt word_le_nat_alt unat_sub)

declare layout_loop.simps [simp del] read_layout_loop.simps [simp del]

definition read_layout :: "(errno + byte list) \<Rightarrow> 'ns ns_callback \<Rightarrow> 'ns btt \<Rightarrow> nat \<Rightarrow> ('ns, unit) bres" where
  "read_layout gen cb s lane =
     (let s = s\<lparr>bt_nfree := BTT_DEFAULT_NFREE\<rparr>
      in case read_layout_loop cb s lane (bt_rawsize s) 0 (- 1) 0 0 of
           Inl e \<Rightarrow> Some (Inl e, s)
         | Inr None \<Rightarrow> write_layout gen cb s lane False
         | Inr (Some (narena, smallest_nfree, total_nlba)) \<Rightarrow>
             let s = s\<lparr>bt_narena := narena, bt_nlba := total_nlba, bt_nfree := min (bt_nfree s) smallest_nfree\<rparr>
             in read_arenas cb s lane narena)"

text \<open>\<open>btt_init\<close>; the outer \<open>None\<close> can not happen, since no mutex is taken while a table is opened.\<close>

definition btt_init ::
  "(errno + byte list) \<Rightarrow> u64 \<Rightarrow> u32 \<Rightarrow> byte list \<Rightarrow> nat \<Rightarrow> bool list \<Rightarrow> 'ns \<Rightarrow> 'ns ns_callback \<Rightarrow> (errno + 'ns btt) option" where
  "btt_init gen rawsize lbasize parent_uuid maxlane oom ns cb =
     (if rawsize < BTT_MIN_SIZE then Some (Inl EINVAL)
      else let s = \<lparr>bt_nlane = 0, bt_layout_write_mutex = False, bt_laidout = False,
                     bt_uuid = replicate 16 0, bt_parent_uuid = parent_uuid, bt_rawsize = rawsize,
                     bt_lbasize = lbasize, bt_nfree = 0, bt_nlba = 0, bt_narena = 0, bt_arenas = [],
                     bt_ns = ns, bt_oom = oom\<rparr>
           in case bt_malloc s of
                (False, _) \<Rightarrow> Some (Inl ENOMEM)
              | (True, s) \<Rightarrow>
                  map_option (\<lambda>(r, s). case r of
                      Inl e \<Rightarrow> Inl e
                    | Inr _ \<Rightarrow> Inr (s\<lparr>bt_nlane := (if maxlane \<noteq> 0 \<and> unat (bt_nfree s) > maxlane
                                                     then of_nat maxlane else bt_nfree s)\<rparr>))
                    (read_layout gen cb s 0))"

definition btt_nlane :: "'ns btt \<Rightarrow> u32" where
  "btt_nlane s = bt_nlane s"

definition btt_nlba :: "'ns btt \<Rightarrow> u64" where
  "btt_nlba s = bt_nlba s"

section \<open>Reading\<close>

definition zero_block :: "'ns btt \<Rightarrow> byte list" where
  "zero_block s = replicate (unat (bt_lbasize s)) 0"

fun lba_walk :: "arena list \<Rightarrow> nat \<Rightarrow> u64 \<Rightarrow> (nat \<times> u32) option" where
  "lba_walk [] a lba = None"
| "lba_walk (ar # ars) a lba =
     (if lba < ucast (ar_external_nlba ar) then Some (a, ucast lba)
      else lba_walk ars (Suc a) (lba - ucast (ar_external_nlba ar)))"

definition lba_to_arena_lba :: "'ns btt \<Rightarrow> u64 \<Rightarrow> (nat \<times> u32) option" where
  "lba_to_arena_lba s lba = lba_walk (take (unat (bt_narena s)) (bt_arenas s)) 0 lba"

definition set_rtt :: "'ns btt \<Rightarrow> nat \<Rightarrow> nat \<Rightarrow> u32 \<Rightarrow> 'ns btt" where
  "set_rtt s a lane e = upd_arena s a (ar_rtt_update (\<lambda>r. r[lane := e]))"

text \<open>The loop of \<open>btt_read\<close> that enters the block in the read tracking table and looks at the map
  again; \<open>Inl\<close> is the block of zeros.\<close>

partial_function (option) read_track_loop ::
  "'ns ns_callback \<Rightarrow> 'ns btt \<Rightarrow> nat \<Rightarrow> nat \<Rightarrow> u64 \<Rightarrow> u32 \<Rightarrow> ('ns, byte list + u32) bres" where
  "read_track_loop cb s lane a off e =
     (if map_entry_is_error e then Some (Inl EIO, s)
      else if map_entry_is_zero_or_initial e then Some (Inr (Inl (zero_block s)), s)
      else let s = set_rtt s a lane e
           in case cb_nsread cb (bt_ns s) lane 4 off of
                Inl err \<Rightarrow> Some (Inl err, set_rtt s a lane BTT_MAP_ENTRY_ERROR)
              | Inr bs \<Rightarrow>
                  let latest_entry = le32toh bs
                  in if e = latest_entry then Some (Inr (Inr e), s)
                     else read_track_loop cb s lane a off latest_entry)"

definition btt_read :: "'ns ns_callback \<Rightarrow> 'ns btt \<Rightarrow> nat \<Rightarrow> u64 \<Rightarrow> ('ns, byte list) bres" where
  "btt_read cb s lane lba =
     (if invalid_lba s lba then Some (Inl EINVAL, s)
      else if \<not> bt_laidout s then Some (Inr (zero_block s), s)
      else case lba_to_arena_lba s lba of
        None \<Rightarrow> None
      | Some (a, premap_lba) \<Rightarrow>
          let off = map_entry_off (the_arena s a) premap_lba
          in seqE (ns_read cb s lane 4 off) (\<lambda>bs s.
             seqE (read_track_loop cb s lane a off (le32toh bs)) (\<lambda>r s.
               case r of
                 Inl zeros \<Rightarrow> Some (Inr zeros, s)
               | Inr e \<Rightarrow>
                   Some (cb_nsread cb (bt_ns s) lane (unat (bt_lbasize s)) (data_block_off (the_arena s a) e),
                         set_rtt s a lane BTT_MAP_ENTRY_ERROR))))"

section \<open>Writing\<close>

definition set_map_lock :: "'ns btt \<Rightarrow> nat \<Rightarrow> u32 \<Rightarrow> bool \<Rightarrow> 'ns btt" where
  "set_map_lock s a premap_lba b =
     upd_arena s a (ar_map_locks_update (\<lambda>l. l[unat (get_map_lock_num premap_lba (bt_nfree s)) := b]))"

definition map_lock :: "'ns ns_callback \<Rightarrow> 'ns btt \<Rightarrow> nat \<Rightarrow> nat \<Rightarrow> u32 \<Rightarrow> ('ns, u32) bres" where
  "map_lock cb s lane a premap_lba =
     (if ar_map_locks (the_arena s a) ! unat (get_map_lock_num premap_lba (bt_nfree s)) then None
      else let s = set_map_lock s a premap_lba True
           in case cb_nsread cb (bt_ns s) lane 4 (map_entry_off (the_arena s a) premap_lba) of
                Inl e \<Rightarrow> Some (Inl e, set_map_lock s a premap_lba False)
              | Inr bs \<Rightarrow>
                  let e = le32toh bs
                  in Some (Inr (if map_entry_is_initial e then premap_lba OR BTT_MAP_ENTRY_NORMAL else e), s))"

definition map_abort :: "'ns btt \<Rightarrow> nat \<Rightarrow> u32 \<Rightarrow> 'ns btt" where
  "map_abort s a premap_lba = set_map_lock s a premap_lba False"

definition map_unlock :: "'ns ns_callback \<Rightarrow> 'ns btt \<Rightarrow> nat \<Rightarrow> nat \<Rightarrow> u32 \<Rightarrow> u32 \<Rightarrow> ('ns, unit) bres" where
  "map_unlock cb s lane a e premap_lba =
     map_option (\<lambda>(r, s). (r, set_map_lock s a premap_lba False))
       (ns_write cb s lane (u32_bytes e) (map_entry_off (the_arena s a) premap_lba))"

text \<open>The first write of a table writes its layout, under \<open>layout_write_mutex\<close>.\<close>

definition first_layout :: "(errno + byte list) \<Rightarrow> 'ns ns_callback \<Rightarrow> 'ns btt \<Rightarrow> nat \<Rightarrow> ('ns, unit) bres" where
  "first_layout gen cb s lane =
     (if bt_laidout s then Some (Inr (), s)
      else if bt_layout_write_mutex s then None
      else map_option (\<lambda>(r, s). (r, s\<lparr>bt_layout_write_mutex := False\<rparr>))
             (write_layout gen cb (s\<lparr>bt_layout_write_mutex := True\<rparr>) lane True))"

definition free_entry_of :: "arena \<Rightarrow> nat \<Rightarrow> u32" where
  "free_entry_of ar lane =
     (fl_old_map (fr_flog (ar_flogs ar ! lane)) AND BTT_MAP_ENTRY_LBA_MASK) OR BTT_MAP_ENTRY_NORMAL"

text \<open>\<open>btt_write\<close> after the layout exists. A critical error of the map update puts the arena into the
  error state.\<close>

definition write_block :: "'ns ns_callback \<Rightarrow> 'ns btt \<Rightarrow> nat \<Rightarrow> u64 \<Rightarrow> byte list \<Rightarrow> ('ns, unit) bres" where
  "write_block cb s lane lba buf =
     (case lba_to_arena_lba s lba of
        None \<Rightarrow> None
      | Some (a, premap_lba) \<Rightarrow>
          let ar = the_arena s a; free_entry = free_entry_of ar lane
          in if ar_flags ar AND BTTINFO_FLAG_ERROR_MASK \<noteq> 0 then Some (Inl EIO, s)
             else if \<exists>i \<in> set [0..<unat (bt_nlane s)]. ar_rtt ar ! i = free_entry then None
             else seqE (ns_write cb s lane buf (data_block_off ar free_entry)) (\<lambda>_ s.
                  seqE (map_lock cb s lane a premap_lba) (\<lambda>old_entry s.
                    case flog_update cb s lane a premap_lba old_entry free_entry of
                      None \<Rightarrow> None
                    | Some (Inl e, s) \<Rightarrow> Some (Inl e, map_abort s a premap_lba)
                    | Some (Inr _, s) \<Rightarrow>
                        (case map_unlock cb s lane a free_entry premap_lba of
                           None \<Rightarrow> None
                         | Some (Inr _, s) \<Rightarrow> Some (Inr (), s)
                         | Some (Inl e, s) \<Rightarrow>
                             map_option (\<lambda>(_, s). (Inl EIO, s)) (set_arena_error cb s a lane)))))"

definition btt_write ::
  "(errno + byte list) \<Rightarrow> 'ns ns_callback \<Rightarrow> 'ns btt \<Rightarrow> nat \<Rightarrow> u64 \<Rightarrow> byte list \<Rightarrow> ('ns, unit) bres" where
  "btt_write gen cb s lane lba buf =
     (if invalid_lba s lba then Some (Inl EINVAL, s)
      else seqE (first_layout gen cb s lane) (\<lambda>_ s. write_block cb s lane lba buf))"

section \<open>Zero and error states\<close>

definition map_entry_setf ::
  "(errno + byte list) \<Rightarrow> 'ns ns_callback \<Rightarrow> 'ns btt \<Rightarrow> nat \<Rightarrow> u64 \<Rightarrow> u32 \<Rightarrow> ('ns, unit) bres" where
  "map_entry_setf gen cb s lane lba setf =
     (if invalid_lba s lba then Some (Inl EINVAL, s)
      else if \<not> bt_laidout s \<and> setf = BTT_MAP_ENTRY_ZERO then Some (Inr (), s)
      else seqE (first_layout gen cb s lane) (\<lambda>_ s.
        case lba_to_arena_lba s lba of
          None \<Rightarrow> None
        | Some (a, premap_lba) \<Rightarrow>
            if ar_flags (the_arena s a) AND BTTINFO_FLAG_ERROR_MASK \<noteq> 0 then Some (Inl EIO, s)
            else seqE (map_lock cb s lane a premap_lba) (\<lambda>old_entry s.
              if setf = BTT_MAP_ENTRY_ZERO \<and> map_entry_is_zero_or_initial old_entry
              then Some (Inr (), map_abort s a premap_lba)
              else map_unlock cb s lane a ((old_entry AND BTT_MAP_ENTRY_LBA_MASK) OR setf) premap_lba)))"

definition btt_set_zero :: "(errno + byte list) \<Rightarrow> 'ns ns_callback \<Rightarrow> 'ns btt \<Rightarrow> nat \<Rightarrow> u64 \<Rightarrow> ('ns, unit) bres" where
  "btt_set_zero gen cb s lane lba = map_entry_setf gen cb s lane lba BTT_MAP_ENTRY_ZERO"

definition btt_set_error :: "(errno + byte list) \<Rightarrow> 'ns ns_callback \<Rightarrow> 'ns btt \<Rightarrow> nat \<Rightarrow> u64 \<Rightarrow> ('ns, unit) bres" where
  "btt_set_error gen cb s lane lba = map_entry_setf gen cb s lane lba BTT_MAP_ENTRY_ERROR"

section \<open>Consistency check\<close>

text \<open>The first loop of \<open>check_arena\<close>. \<open>mapped\<close> holds the mapped bytes not looked at yet. A map entry
  of a bitmap that is not in it is an access past the end. The value is the bitmap and whether no
  duplicate was found.\<close>

fun check_map_loop ::
  "'ns ns_callback \<Rightarrow> 'ns btt \<Rightarrow> arena \<Rightarrow> nat list \<Rightarrow> byte list \<Rightarrow> u64 \<Rightarrow> bool list \<Rightarrow> bool \<Rightarrow>
   (errno + bool list \<times> bool) option" where
  "check_map_loop cb s ar [] mapped off bitmap consistent = Some (Inr (bitmap, consistent))"
| "check_map_loop cb s ar (i # is) mapped off bitmap consistent =
     (case (if mapped = [] then cb_nsmap cb (bt_ns s) 0 ((unat (ar_external_nlba ar) - i) * 4) off else Inr mapped) of
        Inl e \<Rightarrow> Some (Inl e)
      | Inr mapped \<Rightarrow>
          if length mapped < 4 then None
          else let e = le32toh (take 4 mapped);
                   e = (if map_entry_is_initial e then of_nat i else e AND BTT_MAP_ENTRY_LBA_MASK)
               in if ar_internal_nlba ar \<le> e then Some (Inl EINVAL)
                  else if bitmap ! unat e then check_map_loop cb s ar is (drop 4 mapped) (off + 4) bitmap False
                  else check_map_loop cb s ar is (drop 4 mapped) (off + 4) (bitmap[unat e := True]) consistent)"

fun check_flog_loop :: "arena \<Rightarrow> nat list \<Rightarrow> bool list \<Rightarrow> bool \<Rightarrow> (bool list \<times> bool) option" where
  "check_flog_loop ar [] bitmap consistent = Some (bitmap, consistent)"
| "check_flog_loop ar (i # is) bitmap consistent =
     (let e = unat (fl_old_map (fr_flog (ar_flogs ar ! i)) AND BTT_MAP_ENTRY_LBA_MASK)
      in if length bitmap \<le> e then None
         else if bitmap ! e then check_flog_loop ar is bitmap False
         else check_flog_loop ar is (bitmap[e := True]) consistent)"

text \<open>\<open>howmany(n, 8)\<close> bytes of bits.\<close>

definition bitmap_bits :: "u32 \<Rightarrow> nat" where
  "bitmap_bits n = 8 * unat ((n + 7) div 8)"

definition check_arena :: "'ns ns_callback \<Rightarrow> 'ns btt \<Rightarrow> arena \<Rightarrow> bool \<Rightarrow> (errno + bool) option" where
  "check_arena cb s ar alloc_ok =
     (if \<not> alloc_ok then Some (Inl ENOMEM)
      else case check_map_loop cb s ar [0..<unat (ar_external_nlba ar)] [] (ar_mapoff ar)
                  (replicate (bitmap_bits (ar_internal_nlba ar)) False) True of
        None \<Rightarrow> None
      | Some (Inl e) \<Rightarrow> Some (Inl e)
      | Some (Inr (bitmap, consistent)) \<Rightarrow>
          (case check_flog_loop ar [0..<unat (bt_nfree s)] bitmap consistent of
             None \<Rightarrow> None
           | Some (bitmap, consistent) \<Rightarrow>
               Some (Inr (consistent \<and> list_all (\<lambda>i. bitmap ! i) [0..<unat (ar_internal_nlba ar)]))))"

fun check_loop :: "'ns ns_callback \<Rightarrow> 'ns btt \<Rightarrow> arena list \<Rightarrow> bool list \<Rightarrow> bool \<Rightarrow> (errno + bool) option" where
  "check_loop cb s [] oom consistent = Some (Inr consistent)"
| "check_loop cb s (ar # ars) oom consistent =
     (case check_arena cb s ar (case oom of [] \<Rightarrow> True | b # _ \<Rightarrow> b) of
        None \<Rightarrow> None
      | Some (Inl e) \<Rightarrow> Some (Inl e)
      | Some (Inr ok) \<Rightarrow> check_loop cb s ars (tl oom) (consistent \<and> ok))"

definition btt_check :: "'ns ns_callback \<Rightarrow> 'ns btt \<Rightarrow> (errno + bool) option" where
  "btt_check cb s =
     (if \<not> bt_laidout s then Some (Inr True)
      else check_loop cb s (take (unat (bt_narena s)) (bt_arenas s)) (bt_oom s) True)"

end
