(* ===== verification/Btt_Layout_Theorems.thy ===== *)
theory Btt_Layout_Theorems
  imports Btt_Layout
begin

text \<open>
  The layout of the block translation table fits: what \<open>btt_info_set\<close> and its parts compute, over the
  natural numbers, and that the regions of an arena follow each other without overlap. The second
  part holds the facts about info blocks, flog entries and map entries that the proofs about the
  table use: the byte order conversions are inverse to each other, the sequence numbers of a flog
  pair select the entry written last.
\<close>

unbundle bit_operations_syntax

section \<open>Arithmetic of the layout\<close>

lemma unat_roundup_u64:
  fixes x :: u64
  assumes "0 < unat y" and "unat x + unat y \<le> 2 ^ 64"
  shows "unat (roundup x y) = (unat x + (unat y - 1)) div unat y * unat y"
proof -
  have y: "unat (y - 1) = unat y - 1" using assms(1) by (simp add: unat_minus_one unat_gt_0)
  have s: "unat (x + (y - 1)) = unat x + (unat y - 1)"
    using assms by (subst unat_add_lem [THEN iffD1]) (auto simp: y)
  have "(unat x + (unat y - 1)) div unat y * unat y \<le> unat x + (unat y - 1)" by (rule div_times_less_eq_dividend)
  then have "(unat x + (unat y - 1)) div unat y * unat y < 2 ^ 64" using assms by linarith
  then show ?thesis
    unfolding roundup_def by (subst unat_mult_lem [THEN iffD1]) (simp_all add: unat_div s)
qed

lemma roundup_bounds:
  fixes n y :: nat
  assumes "0 < y"
  shows "n \<le> (n + (y - 1)) div y * y" and "(n + (y - 1)) div y * y \<le> n + (y - 1)"
proof -
  have "n + (y - 1) = (n + (y - 1)) div y * y + (n + (y - 1)) mod y" by simp
  moreover have "(n + (y - 1)) mod y \<le> y - 1" using assms by (simp add: less_Suc_eq_le [symmetric])
  ultimately show "n \<le> (n + (y - 1)) div y * y" by linarith
qed (rule div_times_less_eq_dividend)

lemma flog_size_nat:
  "unat (btt_flog_size nfree) = (64 * unat nfree + 4095) div 4096 * 4096"
proof -
  have r: "roundup 32 BTT_FLOG_PAIR_ALIGN = (64 :: u64)" by (simp add: roundup_def BTT_FLOG_PAIR_ALIGN_def)
  have n: "unat nfree < 4294967296" by (rule unat_lt_u32)
  have "unat (ucast nfree * 64 :: u64) = 64 * unat nfree"
    using n by (subst unat_mult_lem [THEN iffD1]) (simp_all add: unat_u32_u64)
  then show ?thesis
    using n by (simp add: btt_flog_size_def r unat_roundup_u64 BTT_ALIGNMENT_def)
qed

lemma map_size_nat:
  assumes "unat nlba < 2 ^ 30"
  shows "unat (btt_map_size nlba) = (4 * unat nlba + 4095) div 4096 * 4096"
proof -
  have "unat (nlba * 4) = 4 * unat nlba" using assms by (subst unat_mult_lem [THEN iffD1]) simp_all
  then have "unat (ucast (nlba * 4) :: u64) = 4 * unat nlba" by (simp add: unat_u32_u64)
  then show ?thesis using assms by (simp add: btt_map_size_def unat_roundup_u64 BTT_ALIGNMENT_def BTT_MAP_ENTRY_SIZE_def)
qed

lemma flog_size_bounds: "64 * unat nfree \<le> unat (btt_flog_size nfree)" "4096 dvd unat (btt_flog_size nfree)"
  using roundup_bounds [of 4096 "64 * unat nfree"] by (simp_all add: flog_size_nat)

lemma map_size_bounds:
  assumes "unat nlba < 2 ^ 30"
  shows "4 * unat nlba \<le> unat (btt_map_size nlba)" "unat (btt_map_size nlba) \<le> 4 * unat nlba + 4095"
    "4096 dvd unat (btt_map_size nlba)"
  using roundup_bounds [of 4096 "4 * unat nlba"] by (simp_all add: map_size_nat [OF assms])

lemma internal_lbasize_bounds:
  assumes "internal_lbasize ext \<noteq> 0"
  shows "512 \<le> unat (internal_lbasize ext)" "unat (internal_lbasize ext) \<le> 4294967040" "unat ext \<le> unat (internal_lbasize ext)"
proof -
  let ?s = "if ext < 512 then 512 else ext"
  have b: "unat ext < 4294967296" by (rule unat_lt_u32)
  have big: "unat ?s \<le> 4294967040"
  proof (rule ccontr)
    assume h: "\<not> ?thesis"
    then have s: "4294967041 \<le> unat ?s" by simp
    have "unat (?s + 255) = unat ?s + 255 - 4294967296"
      using s unat_lt_u32 [of ?s] by (simp add: unat_word_ariths mod_if)
    then have "unat (?s + 255) < 256" using unat_lt_u32 [of ?s] by linarith
    then have "roundup ?s 256 = 0" by (simp add: roundup_def unat_eq_0 [symmetric] unat_word_ariths unat_div)
    then show False using assms unfolding internal_lbasize_def Let_def BTT_MIN_LBA_SIZE_def BTT_INTERNAL_LBA_ALIGNMENT_def by simp
  qed
  have s1: "unat (?s + 255) = unat ?s + 255" using big by (subst unat_add_lem [THEN iffD1]) simp_all
  have m: "(unat ?s + 255) div 256 * 256 \<le> 4294967040" using big by simp
  have r: "unat (roundup ?s 256) = (unat ?s + 255) div 256 * 256"
    unfolding roundup_def using m
    by (subst unat_mult_lem [THEN iffD1]) (simp_all add: unat_div s1)
  have e: "internal_lbasize ext = roundup ?s 256"
    using assms unfolding internal_lbasize_def Let_def BTT_MIN_LBA_SIZE_def BTT_INTERNAL_LBA_ALIGNMENT_def by (metis (full_types))
  have "512 \<le> unat ?s" "unat ext \<le> unat ?s" by (auto simp: word_less_nat_alt)
  moreover have "unat ?s \<le> (unat ?s + 255) div 256 * 256" using roundup_bounds(1) [of 256 "unat ?s"] by simp
  ultimately show "512 \<le> unat (internal_lbasize ext)" "unat (internal_lbasize ext) \<le> 4294967040"
    "unat ext \<le> unat (internal_lbasize ext)" unfolding e r using m by linarith+
qed

text \<open>What \<open>btt_info_set_params\<close> computes, over the natural numbers.\<close>

lemma set_params_nat:
  assumes set: "btt_info_set_params info ext ils nfree asz = Inr i"
    and asz: "unat asz \<le> 2 ^ 39" "12288 + unat (btt_flog_size nfree) \<le> unat asz"
    and ils: "512 \<le> unat ils" "unat ils \<le> 4294967040" and nfree: "unat nfree < 2 ^ 31"
  defines "n \<equiv> (unat asz - 12288 - unat (btt_flog_size nfree)) div (unat ils + 4)"
  shows "unat (bi_internal_nlba i) = n" "n < 2 ^ 30" "2 * unat nfree \<le> n"
    "unat (bi_external_nlba i) = n - unat nfree" "bi_nfree i = nfree" "bi_internal_lbasize i = ils"
    "bi_external_lbasize i = ext" "bi_infosize i = 4096"
proof -
  let ?fs = "btt_flog_size nfree"
  have d1: "unat (asz - 8192) = unat asz - 8192" using asz by (subst unat_sub) (simp_all add: word_le_nat_alt)
  have d: "unat (btt_arena_datasize asz nfree) = unat asz - 8192 - unat ?fs"
    unfolding btt_arena_datasize_def using asz d1 by (subst unat_sub) (simp_all add: word_le_nat_alt SIZEOF_BTT_INFO_def)
  have d2: "unat (btt_arena_datasize asz nfree - BTT_ALIGNMENT) = unat asz - 12288 - unat ?fs"
    using asz d by (subst unat_sub) (simp_all add: word_le_nat_alt BTT_ALIGNMENT_def)
  have l: "unat (ils + BTT_MAP_ENTRY_SIZE) = unat ils + 4"
    using ils by (subst unat_add_lem [THEN iffD1]) (simp_all add: BTT_MAP_ENTRY_SIZE_def)
  let ?q = "(btt_arena_datasize asz nfree - BTT_ALIGNMENT) div ucast (ils + BTT_MAP_ENTRY_SIZE)"
  have q: "unat ?q = n" by (simp add: unat_div d2 unat_u32_u64 l n_def)
  have "n \<le> (2 ^ 39) div (unat ils + 4)" unfolding n_def using asz by (intro div_le_mono) simp
  also have "\<dots> \<le> (2 ^ 39) div 516" using ils by (intro div_le_mono2) simp_all
  finally show n: "n < 2 ^ 30" by simp
  have f2: "unat (2 * nfree) = 2 * unat nfree" using nfree by (subst unat_mult_lem [THEN iffD1]) simp_all
  have ge: "\<not> ?q < ucast (2 * nfree)" and i: "i = info\<lparr>bi_external_lbasize := ext, bi_internal_lbasize := ils,
      bi_nfree := nfree, bi_infosize := of_nat SIZEOF_BTT_INFO, bi_internal_nlba := ucast ?q, bi_external_nlba := ucast ?q - nfree\<rparr>"
    using set by (auto simp: btt_info_set_params_def Let_def split: if_splits)
  from ge show ge': "2 * unat nfree \<le> n" by (simp add: word_less_nat_alt q unat_u32_u64 f2)
  have uq: "unat (ucast ?q :: u32) = n" using n by (simp add: unsigned_ucast_eq take_bit_nat_eq_self q)
  then show "unat (bi_internal_nlba i) = n" by (simp add: i)
  show "unat (bi_external_nlba i) = n - unat nfree"
    using ge' by (simp add: i unat_sub word_le_nat_alt uq)
  show "bi_nfree i = nfree" "bi_internal_lbasize i = ils" "bi_external_lbasize i = ext" "bi_infosize i = 4096"
    by (simp_all add: i SIZEOF_BTT_INFO_def)
qed

text \<open>The regions of an arena, as its info block describes them.\<close>

definition info_regions :: "btt_info \<Rightarrow> nat \<Rightarrow> bool" where
  "info_regions i asz \<longleftrightarrow>
     unat (bi_dataoff i) = 4096 \<and>
     unat (bi_dataoff i) + unat (bi_internal_nlba i) * unat (bi_internal_lbasize i) \<le> unat (bi_mapoff i) \<and>
     unat (bi_mapoff i) + 4 * unat (bi_external_nlba i) \<le> unat (bi_flogoff i) \<and>
     unat (bi_flogoff i) + 64 * unat (bi_nfree i) \<le> unat (bi_infooff i) \<and>
     unat (bi_infooff i) + 4096 = asz \<and>
     unat (bi_external_nlba i) + unat (bi_nfree i) = unat (bi_internal_nlba i) \<and>
     unat (bi_nfree i) \<le> unat (bi_external_nlba i) \<and> unat (bi_internal_nlba i) < 2 ^ 30"

lemma layout_arith:
  fixes a :: nat
  assumes "p + ms + 8193 + fs \<le> a" "4 * e \<le> ms" "64 * nf \<le> fs" "e = n - nf" "2 * nf \<le> n" "n < 2 ^ 30"
  shows "4096 + p \<le> a - 4096 - fs - ms \<and> a - 4096 - fs - ms + 4 * e \<le> a - 4096 - fs \<and>
    a - 4096 - fs + 64 * nf \<le> a - 4096 \<and> a - 4096 + 4096 = a \<and> e + nf = n \<and> nf \<le> e \<and> n < 2 ^ 30"
  using assms by (intro conjI) linarith+

lemma set_offs_regions:
  assumes set: "btt_info_set_params info ext ils nfree asz = Inr i"
    and asz: "unat asz \<le> 2 ^ 39" "16384 + 64 * unat nfree \<le> unat asz"
    and ils: "512 \<le> unat ils" "unat ils \<le> 4294967040" and nfree: "unat nfree < 2 ^ 31"
  shows "info_regions (btt_info_set_offs i asz left) (unat asz)"
    "unat (bi_mapoff (btt_info_set_offs i asz left)) = unat asz - 4096 - unat (btt_flog_size nfree) - unat (btt_map_size (bi_external_nlba i))"
    "unat (bi_flogoff (btt_info_set_offs i asz left)) = unat asz - 4096 - unat (btt_flog_size nfree)"
proof -
  let ?fs = "unat (btt_flog_size nfree)" and ?o = "btt_info_set_offs i asz left"
  have fs: "64 * unat nfree \<le> ?fs" "?fs \<le> 64 * unat nfree + 4095"
    using roundup_bounds [of 4096 "64 * unat nfree"] by (simp_all add: flog_size_nat)
  have a2: "12288 + ?fs \<le> unat asz" using asz(2) fs by linarith
  note p = set_params_nat [OF set asz(1) a2 ils nfree]
  let ?n = "(unat asz - 12288 - ?fs) div (unat ils + 4)" and ?e = "bi_external_nlba i"
  let ?ms = "unat (btt_map_size ?e)"
  have e: "unat ?e = ?n - unat nfree" "unat ?e < 2 ^ 30" using p by simp_all
  note ms = map_size_bounds [OF e(2)]
  have "?n * (unat ils + 4) \<le> unat asz - 12288 - ?fs" by (rule div_times_less_eq_dividend)
  then have n: "?n * unat ils + 4 * ?n \<le> unat asz - 12288 - ?fs" by (simp add: algebra_simps)
  have ms2: "?ms \<le> 4 * ?n + 4095" using ms(2) e(1) by linarith
  have k: "?n * unat ils + ?ms + 8193 + ?fs \<le> unat asz" using n ms2 a2 by linarith
  have io: "unat (asz - 4096) = unat asz - 4096" using asz by (subst unat_sub) (simp_all add: word_le_nat_alt)
  have fo: "unat (asz - 4096 - btt_flog_size nfree) = unat asz - 4096 - ?fs"
    using a2 io by (subst unat_sub) (simp_all add: word_le_nat_alt)
  have mo: "unat (asz - 4096 - btt_flog_size nfree - btt_map_size ?e) = unat asz - 4096 - ?fs - ?ms"
    using k fo by (subst unat_sub) (simp_all add: word_le_nat_alt)
  show mo': "unat (bi_mapoff ?o) = unat asz - 4096 - ?fs - ?ms"
    using mo p(5) by (simp add: btt_info_set_offs_def Let_def SIZEOF_BTT_INFO_def)
  show fo': "unat (bi_flogoff ?o) = unat asz - 4096 - ?fs"
    using fo p(5) by (simp add: btt_info_set_offs_def Let_def SIZEOF_BTT_INFO_def)
  have io': "unat (bi_infooff ?o) = unat asz - 4096"
    using io by (simp add: btt_info_set_offs_def Let_def SIZEOF_BTT_INFO_def)
  have same: "bi_internal_nlba ?o = bi_internal_nlba i" "bi_external_nlba ?o = ?e" "bi_nfree ?o = nfree"
    "bi_internal_lbasize ?o = ils" "bi_dataoff ?o = 4096"
    using p by (simp_all add: btt_info_set_offs_def Let_def)
  show "info_regions ?o (unat asz)"
    unfolding info_regions_def same io' mo' fo' p(1)
    using layout_arith [OF k ms(1) fs(1) e(1) p(3,2)] by simp
qed

text \<open>C32. The layout that \<open>btt_info_set\<close> computes for an arena fits: the data blocks, the map, the
  flog and the backup info block follow each other without overlap between the info block and the
  end of the arena, there is a free block for every lane besides those of the map, and block numbers
  fit into the bits that a map entry has for them. None of the 32- and 64-bit computations wraps.\<close>

theorem btt_layout_fits:
  assumes "btt_info_set info ext nfree asz left = Inr i"
    and "unat asz \<le> 2 ^ 39" and "16384 + 64 * unat nfree \<le> unat asz" and "unat nfree < 2 ^ 31"
  shows "info_regions i (unat asz) \<and> unat ext \<le> unat (bi_internal_lbasize i)"
proof -
  obtain j where nz: "internal_lbasize ext \<noteq> 0"
    and j: "btt_info_set_params info ext (internal_lbasize ext) nfree asz = Inr j" "i = btt_info_set_offs j asz left"
    using assms(1) by (auto simp: btt_info_set_def Let_def split: if_splits sum.splits)
  note l = internal_lbasize_bounds [OF nz]
  have "bi_internal_lbasize i = internal_lbasize ext"
    using j by (auto simp: btt_info_set_params_def btt_info_set_offs_def Let_def split: if_splits)
  then show ?thesis using set_offs_regions(1) [OF j(1) assms(2,3) l(1,2) assms(4)] j(2) l(3) by simp
qed

theorem btt_layout_fits_witness:
  "\<exists>i. btt_info_set zero_info 512 256 0x1000000 0 = Inr i \<and> info_regions i 16777216"
proof -
  obtain i where i: "btt_info_set zero_info 512 256 0x1000000 0 = Inr i"
    by (simp add: btt_info_set_def btt_info_set_params_def internal_lbasize_def roundup_def BTT_MIN_LBA_SIZE_def
        BTT_INTERNAL_LBA_ALIGNMENT_def btt_arena_datasize_def btt_flog_size_def BTT_FLOG_PAIR_ALIGN_def
        BTT_ALIGNMENT_def SIZEOF_BTT_INFO_def BTT_MAP_ENTRY_SIZE_def Let_def)
  with btt_layout_fits [OF i] show ?thesis by auto
qed

section \<open>Map entries\<close>

text \<open>The block number of a map entry.\<close>

definition blk :: "u32 \<Rightarrow> nat" where
  "blk e = unat (e AND BTT_MAP_ENTRY_LBA_MASK)"

lemma entry_consts:
  "BTT_MAP_ENTRY_LBA_MASK = mask 30" "BTT_MAP_ENTRY_NORMAL = push_bit 30 3" "BTT_MAP_ENTRY_ERROR = push_bit 30 1"
  "BTT_MAP_ENTRY_ZERO = push_bit 30 2"
  by (simp_all add: BTT_MAP_ENTRY_LBA_MASK_def BTT_MAP_ENTRY_NORMAL_def BTT_MAP_ENTRY_ERROR_def
      BTT_MAP_ENTRY_ZERO_def mask_eq_exp_minus_1 push_bit_eq_mult)

lemma entry_bits:
  fixes x k :: u32
  shows "((x AND mask 30) OR push_bit 30 k) AND NOT (mask 30) = push_bit 30 k"
    and "(x OR push_bit 30 k) AND mask 30 = x AND mask 30"
  by (rule bit_word_eqI; auto simp: bit_simps)+

lemma blk_mod: "blk e = unat e mod 2 ^ 30"
  by (simp only: blk_def entry_consts take_bit_eq_mask [symmetric] unsigned_take_bit_eq) (simp only: take_bit_eq_mod)

lemma blk_bound: "blk e < 2 ^ 30"
  by (simp add: blk_mod)

lemma blk_of_small: "unat p < 2 ^ 30 \<Longrightarrow> blk p = unat p"
  by (simp add: blk_mod)

lemma blk_set [simp]:
  "blk ((x AND BTT_MAP_ENTRY_LBA_MASK) OR BTT_MAP_ENTRY_NORMAL) = blk x"
  "blk ((x AND BTT_MAP_ENTRY_LBA_MASK) OR BTT_MAP_ENTRY_ZERO) = blk x"
  "blk ((x AND BTT_MAP_ENTRY_LBA_MASK) OR BTT_MAP_ENTRY_ERROR) = blk x"
  "blk (x OR BTT_MAP_ENTRY_NORMAL) = blk x"
  unfolding blk_def entry_consts entry_bits by simp_all

lemma push_bit_30: "push_bit 30 (1 :: u32) = 0x40000000" "push_bit 30 (2 :: u32) = 0x80000000" "push_bit 30 (3 :: u32) = 0xC0000000"
  by (simp_all add: push_bit_eq_mult)

lemma entry_normal:
  defines "e x \<equiv> (x AND BTT_MAP_ENTRY_LBA_MASK) OR BTT_MAP_ENTRY_NORMAL"
  shows "\<not> map_entry_is_error (e x)" "\<not> map_entry_is_zero_or_initial (e x)" "\<not> map_entry_is_initial (e x)"
  unfolding e_def map_entry_is_error_def map_entry_is_zero_or_initial_def map_entry_is_initial_def Let_def entry_consts entry_bits by (simp_all add: push_bit_30)

lemma entry_zero:
  defines "e x \<equiv> (x AND BTT_MAP_ENTRY_LBA_MASK) OR BTT_MAP_ENTRY_ZERO"
  shows "\<not> map_entry_is_error (e x)" "map_entry_is_zero_or_initial (e x)" "\<not> map_entry_is_initial (e x)"
  unfolding e_def map_entry_is_error_def map_entry_is_zero_or_initial_def map_entry_is_initial_def Let_def entry_consts entry_bits by (simp_all add: push_bit_30)

lemma entry_error:
  defines "e x \<equiv> (x AND BTT_MAP_ENTRY_LBA_MASK) OR BTT_MAP_ENTRY_ERROR"
  shows "map_entry_is_error (e x)" "\<not> map_entry_is_initial (e x)"
  unfolding e_def map_entry_is_error_def map_entry_is_initial_def Let_def entry_consts entry_bits by (simp_all add: push_bit_30)

lemma initial_not_error: "map_entry_is_initial e \<Longrightarrow> \<not> map_entry_is_error e" "map_entry_is_initial e \<Longrightarrow> map_entry_is_zero_or_initial e"
  by (simp_all add: map_entry_is_error_def map_entry_is_zero_or_initial_def map_entry_is_initial_def entry_consts push_bit_30 Let_def)

section \<open>Sequence numbers\<close>

definition seq_ok :: "u32 \<Rightarrow> bool" where
  "seq_ok q \<longleftrightarrow> q = 1 \<or> q = 2 \<or> q = 3"

text \<open>The current entry of a flog pair and the index of the other one, which is either unused or the
  predecessor of the current entry.\<close>

definition flog_pair_ok :: "btt_flog \<Rightarrow> btt_flog \<Rightarrow> btt_flog \<Rightarrow> nat \<Rightarrow> bool" where
  "flog_pair_ok f0 f1 cur nxt \<longleftrightarrow>
     (let old = (if nxt = 0 then f0 else f1)
      in cur = (if nxt = 0 then f1 else f0) \<and> nxt < 2 \<and> seq_ok (fl_seq cur) \<and>
         (fl_seq old = 0 \<or> seq_ok (fl_seq old) \<and> NSEQ (fl_seq old) = fl_seq cur))"

lemma NSEQ_simps [simp]: "NSEQ 1 = 2" "NSEQ 2 = 3" "NSEQ 3 = 1"
  by (simp_all add: NSEQ_def)

lemma flog_pair_ok_get: "flog_pair_ok f0 f1 cur nxt \<Longrightarrow> btt_flog_get_valid f0 f1 = Some (cur, nxt)"
  by (auto simp: flog_pair_ok_def btt_flog_get_valid_def seq_ok_def Let_def less_2_cases_iff split: if_splits)

lemma flog_pair_ok_step:
  assumes "flog_pair_ok f0 f1 cur nxt" and "fl_seq f = NSEQ (fl_seq cur)"
  shows "flog_pair_ok (if nxt = 0 then f else f0) (if nxt = 0 then f1 else f) f (1 - nxt)"
  using assms by (auto simp: flog_pair_ok_def seq_ok_def Let_def less_2_cases_iff split: if_splits)

lemma flog_pair_ok_same_seq:
  assumes "flog_pair_ok f0 f1 cur nxt" and "fl_seq f = fl_seq (if nxt = 0 then f0 else f1)"
  shows "flog_pair_ok (if nxt = 0 then f else f0) (if nxt = 0 then f1 else f) cur nxt"
  using assms by (auto simp: flog_pair_ok_def seq_ok_def Let_def less_2_cases_iff split: if_splits)

section \<open>Byte order conversions\<close>

lemma rd32_buffer: "a + 4 \<le> length bs \<Longrightarrow> rd32 (buffer bs) a = le32toh (take 4 (drop a bs))"
  by (simp add: rd32_def buffer_def bytes_at_store_inside le32toh_def)

lemma le32toh_bytes [simp]: "le32toh (u32_bytes e) = e"
  by (simp add: le32toh_def)

lemma le32toh_bytes_at: "le32toh (bytes_at m a 4) = rd32 m a"
  by (simp add: le32toh_def rd32_def)

lemma flog_convert_inverse [simp]: "btt_flog_convert2h (btt_flog_convert2le f) = f"
  by (simp add: btt_flog_convert2h_def btt_flog_convert2le_def rd32_buffer)

lemma length_flog_bytes [simp]: "length (btt_flog_convert2le f) = 16"
  by (simp add: btt_flog_convert2le_def)

definition flog_at :: "mem \<Rightarrow> nat \<Rightarrow> btt_flog" where
  "flog_at m a = \<lparr>fl_lba = rd32 m a, fl_old_map = rd32 m (a + 4), fl_new_map = rd32 m (a + 8), fl_seq = rd32 m (a + 12)\<rparr>"

lemma flog_convert_bytes_at: "btt_flog_convert2h (bytes_at m a 16) = flog_at m a"
  by (simp add: btt_flog_convert2h_def flog_at_def rd32_buffer drop_bytes_at take_bytes_at le32toh_bytes_at)

lemma flog_at_store: "flog_at (store m a (btt_flog_convert2le f)) a = f"
  by (simp add: flog_convert_bytes_at [symmetric] bytes_at_store_same)

end
