(* ===== verification/Btt_Arena.thy ===== *)
theory Btt_Arena
  imports Btt Btt_Layout_Theorems
begin

text \<open>
  The contract between the block translation table and its namespace, as the locale \<open>namespace\<close>, and
  the state of an arena on media. Consistent media (\<open>media_ok\<close>) has a current entry in every flog pair,
  and the blocks of the map together with the free blocks of the lanes are all different. The section
  on writes shows what each of the four stores of a write does to it, and the section on recovery that
  loading the flogs finishes a write whose flog entry has reached the media.
\<close>

unbundle bit_operations_syntax

section \<open>Namespaces that can fail\<close>

text \<open>An interrupted write: every aligned 8-byte word has either its old or its new contents.\<close>

definition torn :: "mem \<Rightarrow> nat \<Rightarrow> byte list \<Rightarrow> mem \<Rightarrow> bool" where
  "torn m off bs m' \<longleftrightarrow>
     (\<forall>w. (\<forall>x. x div 8 = w \<longrightarrow> m' x = m x) \<or> (\<forall>x. x div 8 = w \<longrightarrow> m' x = store m off bs x))"

lemma torn_word:
  assumes "torn m off bs m'" and "off div 8 = (off + length bs - 1) div 8" and "bs \<noteq> []"
  shows "m' = m \<or> m' = store m off bs"
proof -
  let ?w = "off div 8"
  have out: "store m off bs x = m x" if "x div 8 \<noteq> ?w" for x
  proof (rule ccontr)
    assume "store m off bs x \<noteq> m x"
    then have "off \<le> x" "x \<le> off + length bs - 1" by (auto simp: store_def split: if_splits)
    then have "?w \<le> x div 8" "x div 8 \<le> (off + length bs - 1) div 8" by (simp_all add: div_le_mono)
    with assms(2) that show False by simp
  qed
  have other: "m' x = m x" if "x div 8 \<noteq> ?w" for x
    using assms(1) out [OF that] unfolding torn_def by metis
  consider "\<forall>x. x div 8 = ?w \<longrightarrow> m' x = m x" | "\<forall>x. x div 8 = ?w \<longrightarrow> m' x = store m off bs x"
    using assms(1) unfolding torn_def by metis
  then show ?thesis
  proof cases
    case 1
    with other have "m' = m" by (intro ext) metis
    then show ?thesis ..
  next
    case 2
    with other out have "m' = store m off bs" by (intro ext) metis
    then show ?thesis ..
  qed
qed

lemma torn_outside: "torn m off bs m' \<Longrightarrow> x < off \<or> off + length bs \<le> x \<Longrightarrow> m' x = m x"
  unfolding torn_def by (metis store_out)

text \<open>What the block translation table relies on: reads and writes inside the namespace have their
  effect, and a write that fails is the last one: it leaves its range torn, and later writes do
  nothing.\<close>

locale namespace =
  fixes cb :: "'ns ns_callback" and content :: "'ns \<Rightarrow> mem" and nssize :: nat and dead :: "'ns \<Rightarrow> bool"
  assumes nssize: "nssize < 2 ^ 64"
    and nsread_law: "unat off + n \<le> nssize \<Longrightarrow> cb_nsread cb ns lane n off = Inr (bytes_at (content ns) (unat off) n)"
    and nswrite_law: "unat off + length bs \<le> nssize \<Longrightarrow> cb_nswrite cb ns lane bs off = (r, ns') \<Longrightarrow>
      r = None \<and> \<not> dead ns \<and> \<not> dead ns' \<and> content ns' = store (content ns) (unat off) bs \<or>
      r \<noteq> None \<and> dead ns' \<and> (if dead ns then content ns' = content ns else torn (content ns) (unat off) bs (content ns'))"

text \<open>A namespace whose writes do not fail, with direct access to its contents. A mapping has to end
  before the last byte.\<close>

locale reliable_namespace = namespace cb content nssize dead
  for cb :: "'ns ns_callback" and content nssize dead +
  assumes nswrite_ok: "unat off + length bs \<le> nssize \<Longrightarrow> fst (cb_nswrite cb ns lane bs off) = None"
    and nsmap_law: "unat off + n < nssize \<Longrightarrow> cb_nsmap cb ns lane n off = Inr (bytes_at (content ns) (unat off) n)"
    and nszero_law: "unat off + unat k \<le> nssize \<Longrightarrow>
      \<exists>ns'. cb_nszero cb ns lane k off = (None, ns') \<and> content ns' = store (content ns) (unat off) (replicate (unat k) 0)"

section \<open>Arenas\<close>

abbreviation "a_ext ar \<equiv> unat (ar_external_nlba ar)"
abbreviation "a_int ar \<equiv> unat (ar_internal_nlba ar)"
abbreviation "a_lbs ar \<equiv> unat (ar_internal_lbasize ar)"
abbreviation "a_start ar \<equiv> unat (ar_startoff ar)"
abbreviation "a_data ar \<equiv> unat (ar_dataoff ar)"
abbreviation "a_map ar \<equiv> unat (ar_mapoff ar)"
abbreviation "a_flog ar \<equiv> unat (ar_flogoff ar)"

text \<open>The regions of an arena inside a namespace, for \<open>F\<close> lanes and blocks of \<open>lbs\<close> bytes.\<close>

definition geom :: "nat \<Rightarrow> nat \<Rightarrow> nat \<Rightarrow> arena \<Rightarrow> bool" where
  "geom sz F lbs ar \<longleftrightarrow>
     a_start ar + 4096 \<le> a_data ar \<and> a_data ar + a_int ar * a_lbs ar \<le> a_map ar \<and>
     a_map ar + 4 * a_ext ar \<le> a_flog ar \<and> a_flog ar + 64 * F \<le> sz \<and> sz < 2 ^ 64 \<and>
     a_ext ar \<le> a_int ar \<and> a_int ar \<le> 2 ^ 30 \<and> lbs \<le> a_lbs ar \<and> 4 dvd a_map ar \<and> 8 dvd a_flog ar"

text \<open>The map entry of a block, and the entry that it stands for: an entry in its initial state maps
  a block to itself.\<close>

definition mapent :: "mem \<Rightarrow> arena \<Rightarrow> nat \<Rightarrow> u32" where
  "mapent m ar p = rd32 m (a_map ar + 4 * p)"

definition effective :: "nat \<Rightarrow> u32 \<Rightarrow> u32" where
  "effective p e = (if map_entry_is_initial e then of_nat p OR BTT_MAP_ENTRY_NORMAL else e)"

text \<open>The internal blocks of the map, followed by the free blocks of the lanes.\<close>

definition phys :: "mem \<Rightarrow> arena \<Rightarrow> (btt_flog \<times> nat) list \<Rightarrow> nat list" where
  "phys m ar fls = map (\<lambda>p. blk (effective p (mapent m ar p))) [0..<a_ext ar] @ map (\<lambda>f. blk (fl_old_map (fst f))) fls"

definition pairs_ok :: "mem \<Rightarrow> arena \<Rightarrow> (btt_flog \<times> nat) list \<Rightarrow> bool" where
  "pairs_ok m ar fls \<longleftrightarrow>
     (\<forall>i < length fls.
        let f0 = flog_at m (a_flog ar + 64 * i); f1 = flog_at m (a_flog ar + 64 * i + 16)
        in flog_pair_ok f0 f1 (fst (fls ! i)) (snd (fls ! i)) \<and>
           unat (fl_lba f0) < a_ext ar \<and> unat (fl_lba f1) < a_ext ar)"

definition media_ok :: "nat \<Rightarrow> mem \<Rightarrow> arena \<Rightarrow> (btt_flog \<times> nat) list \<Rightarrow> bool" where
  "media_ok F m ar fls \<longleftrightarrow>
     length fls = F \<and> pairs_ok m ar fls \<and> distinct (phys m ar fls) \<and> (\<forall>b \<in> set (phys m ar fls). b < a_int ar)"

definition runtime_flogs :: "arena \<Rightarrow> (btt_flog \<times> nat) list" where
  "runtime_flogs ar = map (\<lambda>fr. (fr_flog fr, fr_next fr)) (ar_flogs ar)"

definition arena_ok :: "nat \<Rightarrow> nat \<Rightarrow> nat \<Rightarrow> mem \<Rightarrow> arena \<Rightarrow> bool" where
  "arena_ok sz F lbs m ar \<longleftrightarrow>
     geom sz F lbs ar \<and> media_ok F m ar (runtime_flogs ar) \<and>
     (\<forall>i < F. fr_entries (ar_flogs ar ! i) = (ar_flogoff ar + of_nat (64 * i), ar_flogoff ar + of_nat (64 * i) + 16)) \<and>
     ar_rtt ar = replicate F BTT_MAP_ENTRY_ERROR \<and> ar_map_locks ar = replicate F False \<and> \<not> ar_info_lock ar"

text \<open>What a block of the arena holds.\<close>

datatype block = BZero | BError | BData "byte list"

definition block_of :: "nat \<Rightarrow> mem \<Rightarrow> arena \<Rightarrow> nat \<Rightarrow> block" where
  "block_of lbs m ar p =
     (let e = mapent m ar p
      in if map_entry_is_error e then BError
         else if map_entry_is_zero_or_initial e then BZero
         else BData (bytes_at m (a_data ar + blk e * a_lbs ar) lbs))"

section \<open>Offsets\<close>

lemma map_entry_off_nat:
  assumes "geom sz F lbs ar" and "unat p < a_ext ar"
  shows "unat (map_entry_off ar p) = a_map ar + 4 * unat p"
proof -
  have "unat p < 2 ^ 30" using assms by (simp add: geom_def)
  then have m: "unat (BTT_MAP_ENTRY_SIZE * p) = 4 * unat p"
    by (subst unat_mult_lem [THEN iffD1]) (simp_all add: BTT_MAP_ENTRY_SIZE_def)
  have "a_map ar + 4 * unat p < 2 ^ 64" using assms by (simp add: geom_def)
  then show ?thesis by (simp add: map_entry_off_def unat_plus_u64 m)
qed

lemma data_block_off_nat:
  assumes "geom sz F lbs ar" and "blk e < a_int ar"
  shows "unat (data_block_off ar e) = a_data ar + blk e * a_lbs ar"
    and "a_data ar + blk e * a_lbs ar + lbs \<le> a_map ar"
proof -
  have "Suc (blk e) * a_lbs ar \<le> a_int ar * a_lbs ar" using assms(2) by (intro mult_le_mono1) simp
  then have le: "blk e * a_lbs ar + a_lbs ar \<le> a_int ar * a_lbs ar" by simp
  have g: "a_data ar + a_int ar * a_lbs ar \<le> a_map ar" "a_map ar < 2 ^ 64" "lbs \<le> a_lbs ar"
    using assms(1) unat_lt_u64 [of "ar_mapoff ar"] by (auto simp: geom_def)
  from le g show "a_data ar + blk e * a_lbs ar + lbs \<le> a_map ar" by linarith
  have b: "blk e * a_lbs ar < 2 ^ 64" "a_data ar + blk e * a_lbs ar < 2 ^ 64" using le g by linarith+
  have "unat (ucast (e AND BTT_MAP_ENTRY_LBA_MASK) * ucast (ar_internal_lbasize ar) :: u64) = blk e * a_lbs ar"
    using b(1) by (subst unat_mult_lem [THEN iffD1]) (simp_all add: blk_def)
  then show "unat (data_block_off ar e) = a_data ar + blk e * a_lbs ar"
    using b(2) by (simp add: data_block_off_def unat_plus_u64)
qed

lemma flog_off_nat:
  assumes "geom sz F lbs ar" and "i < F"
  shows "unat (ar_flogoff ar + of_nat (64 * i)) = a_flog ar + 64 * i"
    "unat (ar_flogoff ar + of_nat (64 * i) + 16) = a_flog ar + 64 * i + 16"
proof -
  have b: "a_flog ar + 64 * i + 64 \<le> sz" "sz < 2 ^ 64" using assms by (auto simp: geom_def)
  then have i: "unat (of_nat (64 * i) :: u64) = 64 * i" by (intro unat_of_nat_u64) linarith
  have "unat (ar_flogoff ar) + unat (of_nat (64 * i) :: u64) < 2 ^ 64" unfolding i using b by linarith
  from unat_plus_u64 [OF this] show 1: "unat (ar_flogoff ar + of_nat (64 * i)) = a_flog ar + 64 * i" unfolding i .
  have "unat (ar_flogoff ar + of_nat (64 * i)) + unat (16 :: u64) < 2 ^ 64" unfolding 1 using b by simp
  from unat_plus_u64 [OF this] show "unat (ar_flogoff ar + of_nat (64 * i) + 16) = a_flog ar + 64 * i + 16"
    unfolding 1 by simp
qed

lemma blocks_apart:
  fixes L :: nat
  assumes "b \<noteq> c" and "n \<le> L"
  shows "d + b * L + n \<le> d + c * L \<or> d + c * L + n \<le> d + b * L"
proof (cases "b < c")
  case True
  then have "Suc b * L \<le> c * L" by (intro mult_le_mono1) simp
  then show ?thesis using assms(2) by simp
next
  case False
  then have "Suc c * L \<le> b * L" using assms(1) by (intro mult_le_mono1) simp
  then show ?thesis using assms(2) by simp
qed

section \<open>How media changes\<close>

lemma length_phys [simp]: "length (phys m ar fls) = a_ext ar + length fls"
  by (simp add: phys_def)

lemma nth_phys:
  "p < a_ext ar \<Longrightarrow> phys m ar fls ! p = blk (effective p (mapent m ar p))"
  "i < length fls \<Longrightarrow> phys m ar fls ! (a_ext ar + i) = blk (fl_old_map (fst (fls ! i)))"
  by (simp_all add: phys_def nth_append)

lemma phys_distinct:
  assumes "media_ok F m ar fls" and "j < a_ext ar + F" and "k < a_ext ar + F" and "phys m ar fls ! j = phys m ar fls ! k"
  shows "j = k"
  using assms by (simp add: media_ok_def nth_eq_iff_index_eq)

lemma phys_bound:
  assumes "media_ok F m ar fls"
  shows "p < a_ext ar \<Longrightarrow> blk (effective p (mapent m ar p)) < a_int ar"
    and "i < F \<Longrightarrow> blk (fl_old_map (fst (fls ! i))) < a_int ar"
proof -
  have l: "length fls = F" and b: "\<forall>b \<in> set (phys m ar fls). b < a_int ar" using assms by (auto simp: media_ok_def)
  show "blk (effective p (mapent m ar p)) < a_int ar" if "p < a_ext ar"
    using b nth_mem [of p "phys m ar fls"] that by (simp add: nth_phys)
  show "blk (fl_old_map (fst (fls ! i))) < a_int ar" if "i < F"
    using b nth_mem [of "a_ext ar + i" "phys m ar fls"] that l by (simp add: nth_phys)
qed

lemma mapent_cong:
  "p < a_ext ar \<Longrightarrow> (\<And>x. a_map ar \<le> x \<Longrightarrow> x < a_map ar + 4 * a_ext ar \<Longrightarrow> m x = m' x) \<Longrightarrow> mapent m ar p = mapent m' ar p"
  unfolding mapent_def by (rule rd32_cong) auto

lemma flog_at_cong: "(\<And>x. a \<le> x \<Longrightarrow> x < a + 16 \<Longrightarrow> m x = m' x) \<Longrightarrow> flog_at m a = flog_at m' a"
  unfolding flog_at_def by (intro btt_flog.equality) (auto intro!: rd32_cong)

lemma phys_cong:
  assumes "\<And>x. a_map ar \<le> x \<Longrightarrow> x < a_map ar + 4 * a_ext ar \<Longrightarrow> m x = m' x"
  shows "phys m ar fls = phys m' ar fls"
  using mapent_cong [OF _ assms] by (auto simp: phys_def)

lemma pairs_ok_cong:
  assumes "\<And>x. a_flog ar \<le> x \<Longrightarrow> x < a_flog ar + 64 * length fls \<Longrightarrow> m x = m' x"
  shows "pairs_ok m ar fls = pairs_ok m' ar fls"
proof -
  have "flog_at m (a_flog ar + 64 * i) = flog_at m' (a_flog ar + 64 * i)"
    "flog_at m (a_flog ar + 64 * i + 16) = flog_at m' (a_flog ar + 64 * i + 16)" if "i < length fls" for i
    using that by (auto intro!: flog_at_cong assms)
  then show ?thesis by (simp add: pairs_ok_def)
qed

lemma media_ok_cong:
  assumes "\<And>x. a_map ar \<le> x \<Longrightarrow> x < a_map ar + 4 * a_ext ar \<Longrightarrow> m x = m' x"
    and "\<And>x. a_flog ar \<le> x \<Longrightarrow> x < a_flog ar + 64 * F \<Longrightarrow> m x = m' x"
  shows "media_ok F m ar fls = media_ok F m' ar fls"
  using phys_cong [where m = m and m' = m' and ar = ar and fls = fls, OF assms(1)]
    pairs_ok_cong [where m = m and m' = m' and ar = ar and fls = fls] assms(2) by (auto simp: media_ok_def)

text \<open>The four steps of a write.\<close>

definition step_data :: "mem \<Rightarrow> arena \<Rightarrow> nat \<Rightarrow> byte list \<Rightarrow> mem" where
  "step_data m ar b buf = store m (a_data ar + b * a_lbs ar) buf"

definition step_flog1 :: "mem \<Rightarrow> arena \<Rightarrow> nat \<Rightarrow> nat \<Rightarrow> btt_flog \<Rightarrow> mem" where
  "step_flog1 m ar l nxt f = store m (a_flog ar + 64 * l + 16 * nxt) (take 8 (btt_flog_convert2le f))"

definition step_flog2 :: "mem \<Rightarrow> arena \<Rightarrow> nat \<Rightarrow> nat \<Rightarrow> btt_flog \<Rightarrow> mem" where
  "step_flog2 m ar l nxt f = store m (a_flog ar + 64 * l + 16 * nxt + 8) (drop 8 (btt_flog_convert2le f))"

definition step_map :: "mem \<Rightarrow> arena \<Rightarrow> nat \<Rightarrow> u32 \<Rightarrow> mem" where
  "step_map m ar p e = wr32 m (a_map ar + 4 * p) e"

lemma take_flog_bytes: "take 8 (btt_flog_convert2le f) = u32_bytes (fl_lba f) @ u32_bytes (fl_old_map f)"
  "drop 8 (btt_flog_convert2le f) = u32_bytes (fl_new_map f) @ u32_bytes (fl_seq f)"
  by (simp_all add: btt_flog_convert2le_def)

text \<open>A free block can be written, completely or in part, without an effect on the arena.\<close>

lemma free_block_frame:
  assumes g: "geom sz F lbs ar" and ok: "media_ok F m ar fls" and l: "l < F"
  defines "d \<equiv> a_data ar + blk (fl_old_map (fst (fls ! l))) * a_lbs ar"
  assumes same: "\<And>x. x < d \<or> d + lbs \<le> x \<Longrightarrow> m' x = m x"
  shows "media_ok F m' ar fls" and "p < a_ext ar \<Longrightarrow> mapent m' ar p = mapent m ar p"
    and "p < a_ext ar \<Longrightarrow> block_of lbs m' ar p = block_of lbs m ar p"
proof -
  let ?b = "blk (fl_old_map (fst (fls ! l)))"
  have b: "?b < a_int ar" by (rule phys_bound(2) [OF ok l])
  note off = data_block_off_nat(2) [OF g b]
  have same': "x \<ge> a_map ar \<Longrightarrow> m' x = m x" for x using off by (intro same) (auto simp: d_def)
  have fl: "a_map ar \<le> a_flog ar" using g by (simp add: geom_def)
  show "media_ok F m' ar fls" using ok fl same' media_ok_cong [of ar m' m F fls] by auto
  show me: "mapent m' ar p = mapent m ar p" if "p < a_ext ar" for p
    using that same' by (intro mapent_cong) auto
  show "block_of lbs m' ar p = block_of lbs m ar p" if p: "p < a_ext ar"
  proof (cases "map_entry_is_error (mapent m ar p) \<or> map_entry_is_zero_or_initial (mapent m ar p)")
    case True
    then show ?thesis by (auto simp: block_of_def me [OF p] Let_def)
  next
    case False
    let ?c = "blk (mapent m ar p)"
    have "effective p (mapent m ar p) = mapent m ar p"
      using False initial_not_error by (auto simp: effective_def)
    then have "?c \<noteq> ?b"
      using phys_distinct [OF ok, of p "a_ext ar + l"] p l ok nth_phys by (auto simp: media_ok_def)
    moreover have "lbs \<le> a_lbs ar" using g by (simp add: geom_def)
    ultimately have "d + lbs \<le> a_data ar + ?c * a_lbs ar \<or> a_data ar + ?c * a_lbs ar + lbs \<le> d"
      unfolding d_def using blocks_apart [of ?b ?c lbs "a_lbs ar" "a_data ar"] by metis
    then have "bytes_at m' (a_data ar + ?c * a_lbs ar) lbs = bytes_at m (a_data ar + ?c * a_lbs ar) lbs"
      using same by (intro bytes_at_eqI) auto
    then show ?thesis by (simp add: block_of_def me [OF p] Let_def)
  qed
qed

text \<open>A step that leaves the map and the data blocks alone does not change what the blocks hold.\<close>

lemma block_of_frame:
  assumes g: "geom sz F lbs ar" and ok: "media_ok F m ar fls" and p: "p < a_ext ar"
    and same: "\<And>x. x < a_flog ar \<Longrightarrow> m' x = m x"
  shows "block_of lbs m' ar p = block_of lbs m ar p" "mapent m' ar p = mapent m ar p"
proof -
  have mf: "a_map ar + 4 * a_ext ar \<le> a_flog ar" using g by (simp add: geom_def)
  show me: "mapent m' ar p = mapent m ar p" using p mf same by (intro mapent_cong) auto
  show "block_of lbs m' ar p = block_of lbs m ar p"
  proof (cases "map_entry_is_error (mapent m ar p) \<or> map_entry_is_zero_or_initial (mapent m ar p)")
    case True
    then show ?thesis by (auto simp: block_of_def me Let_def)
  next
    case False
    then have "effective p (mapent m ar p) = mapent m ar p"
      using initial_not_error by (auto simp: effective_def)
    then have "blk (mapent m ar p) < a_int ar" using phys_bound(1) [OF ok p] by simp
    from data_block_off_nat(2) [OF g this] mf
    have "bytes_at m' (a_data ar + blk (mapent m ar p) * a_lbs ar) lbs = bytes_at m (a_data ar + blk (mapent m ar p) * a_lbs ar) lbs"
      using same by (intro bytes_at_eqI) auto
    then show ?thesis by (simp add: block_of_def me Let_def)
  qed
qed

section \<open>Writing the flog entry\<close>

lemma flog_slots:
  fixes i l :: nat
  assumes "nxt < 2" and "k < 2" and "i \<noteq> l \<or> k \<noteq> nxt"
  shows "a + 64 * i + 16 * k + 16 \<le> a + 64 * l + 16 * nxt \<or> a + 64 * l + 16 * nxt + 16 \<le> a + 64 * i + 16 * k"
proof -
  have "nxt = 0 \<or> nxt = 1" "k = 0 \<or> k = 1" using assms by auto
  moreover have "i < l \<or> l < i \<or> i = l \<and> k \<noteq> nxt" using assms(3) by auto
  ultimately show ?thesis by (elim disjE) auto
qed

lemma flog_at_store_other:
  assumes "nxt < 2" and "k < 2" and "i \<noteq> l \<or> k \<noteq> nxt"
  shows "flog_at (step_flog1 m ar l nxt f) (a_flog ar + 64 * i + 16 * k) = flog_at m (a_flog ar + 64 * i + 16 * k)"
    and "flog_at (step_flog2 m ar l nxt f) (a_flog ar + 64 * i + 16 * k) = flog_at m (a_flog ar + 64 * i + 16 * k)"
  using flog_slots [OF assms, of "a_flog ar"]
  by (auto simp: step_flog1_def step_flog2_def intro!: flog_at_cong store_out)

lemma flog_at_step1:
  "flog_at (step_flog1 m ar l nxt f) (a_flog ar + 64 * l + 16 * nxt) =
     (flog_at m (a_flog ar + 64 * l + 16 * nxt))\<lparr>fl_lba := fl_lba f, fl_old_map := fl_old_map f\<rparr>"
  by (simp add: flog_at_def step_flog1_def take_flog_bytes rd32_store_disjoint)
     (simp add: rd32_conv bytes_at_store_inside)

lemma flog_at_step2:
  "flog_at (step_flog2 (step_flog1 m ar l nxt f) ar l nxt f) (a_flog ar + 64 * l + 16 * nxt) = f"
proof -
  let ?a = "a_flog ar + 64 * l + 16 * nxt"
  have "step_flog2 (step_flog1 m ar l nxt f) ar l nxt f = store m ?a (btt_flog_convert2le f)"
    unfolding step_flog1_def step_flog2_def
    using store_append [of m ?a "take 8 (btt_flog_convert2le f)" "drop 8 (btt_flog_convert2le f)"] by simp
  then show ?thesis by (simp add: flog_at_store)
qed

text \<open>The first half of a new entry goes to the unused or outdated entry of the pair and has no
  effect; the second half makes it the current one.\<close>

lemma step_flog1_ok:
  assumes ok: "media_ok F m ar fls" and g: "geom sz F lbs ar" and l: "l < F" and lba: "unat (fl_lba f) < a_ext ar"
  defines "m' \<equiv> step_flog1 m ar l (snd (fls ! l)) f"
  shows "media_ok F m' ar fls" and "\<And>x. x < a_flog ar \<Longrightarrow> m' x = m x"
proof -
  let ?n = "snd (fls ! l)"
  have len: "length fls = F" and pr: "pairs_ok m ar fls" using ok by (auto simp: media_ok_def)
  have n: "?n < 2" using pr l len by (auto simp: pairs_ok_def flog_pair_ok_def Let_def)
  show low: "m' x = m x" if "x < a_flog ar" for x using that by (simp add: m'_def step_flog1_def store_out)
  have "pairs_ok m' ar fls"
    unfolding pairs_ok_def Let_def
  proof (intro allI impI)
    fix i assume i: "i < length fls"
    let ?f = "\<lambda>m k. flog_at m (a_flog ar + 64 * i + 16 * k)"
    have old: "flog_pair_ok (?f m 0) (?f m 1) (fst (fls ! i)) (snd (fls ! i))"
      "unat (fl_lba (?f m 0)) < a_ext ar" "unat (fl_lba (?f m 1)) < a_ext ar"
      using pr i by (auto simp: pairs_ok_def Let_def)
    have "flog_pair_ok (?f m' 0) (?f m' 1) (fst (fls ! i)) (snd (fls ! i)) \<and>
      unat (fl_lba (?f m' 0)) < a_ext ar \<and> unat (fl_lba (?f m' 1)) < a_ext ar"
    proof (cases "i = l")
      case False
      then show ?thesis using old flog_at_store_other(1) [OF n, of 0 i l m ar f] flog_at_store_other(1) [OF n, of 1 i l m ar f]
        by (simp add: m'_def)
    next
      case True
      have k: "?f m' k = (if k = ?n then (?f m k)\<lparr>fl_lba := fl_lba f, fl_old_map := fl_old_map f\<rparr> else ?f m k)" if "k < 2" for k
        using flog_at_step1 [of m ar l ?n f] flog_at_store_other(1) [OF n that, of l l m ar f] True by (auto simp: m'_def)
      let ?g = "(?f m ?n)\<lparr>fl_lba := fl_lba f, fl_old_map := fl_old_map f\<rparr>"
      have f01: "?f m' 0 = (if ?n = 0 then ?g else ?f m 0)" "?f m' 1 = (if ?n = 0 then ?f m 1 else ?g)"
        using k [of 0] k [of 1] n by (auto simp: less_2_cases_iff)
      have "fl_seq ?g = fl_seq (if snd (fls ! i) = 0 then ?f m 0 else ?f m 1)"
        using n True by (auto simp: less_2_cases_iff)
      from flog_pair_ok_same_seq [OF old(1) this] show ?thesis
        unfolding f01 using old(2,3) lba True by (simp split: if_split)
    qed
    then show "flog_pair_ok (flog_at m' (a_flog ar + 64 * i)) (flog_at m' (a_flog ar + 64 * i + 16)) (fst (fls ! i)) (snd (fls ! i)) \<and>
      unat (fl_lba (flog_at m' (a_flog ar + 64 * i))) < a_ext ar \<and> unat (fl_lba (flog_at m' (a_flog ar + 64 * i + 16))) < a_ext ar"
      by simp
  qed
  moreover have "phys m' ar fls = phys m ar fls" using g low by (intro phys_cong) (auto simp: geom_def)
  ultimately show "media_ok F m' ar fls" using ok by (simp add: media_ok_def)
qed

lemma step_flog2_pairs:
  assumes pr: "pairs_ok m ar fls" and l: "l < length fls" and lba: "unat (fl_lba f) < a_ext ar"
    and seq: "fl_seq f = NSEQ (fl_seq (fst (fls ! l)))"
  defines "n \<equiv> snd (fls ! l)"
  defines "m' \<equiv> step_flog2 (step_flog1 m ar l n f) ar l n f"
  shows "pairs_ok m' ar (fls[l := (f, 1 - n)])" and "\<And>x. x < a_flog ar \<Longrightarrow> m' x = m x"
proof -
  have n: "n < 2" using pr l by (auto simp: pairs_ok_def flog_pair_ok_def Let_def n_def)
  show "m' x = m x" if "x < a_flog ar" for x using that by (simp add: m'_def step_flog1_def step_flog2_def store_out)
  show "pairs_ok m' ar (fls[l := (f, 1 - n)])"
    unfolding pairs_ok_def Let_def
  proof (intro allI impI)
    fix i assume "i < length (fls[l := (f, 1 - n)])"
    then have i: "i < length fls" by simp
    let ?f = "\<lambda>m k. flog_at m (a_flog ar + 64 * i + 16 * k)" and ?c = "fls[l := (f, 1 - n)] ! i"
    have old: "flog_pair_ok (?f m 0) (?f m 1) (fst (fls ! i)) (snd (fls ! i))"
      "unat (fl_lba (?f m 0)) < a_ext ar" "unat (fl_lba (?f m 1)) < a_ext ar"
      using pr i by (auto simp: pairs_ok_def Let_def)
    have "flog_pair_ok (?f m' 0) (?f m' 1) (fst ?c) (snd ?c) \<and>
      unat (fl_lba (?f m' 0)) < a_ext ar \<and> unat (fl_lba (?f m' 1)) < a_ext ar"
    proof (cases "i = l")
      case False
      then show ?thesis using old flog_at_store_other [OF n, of 0 i l _ ar f] flog_at_store_other [OF n, of 1 i l _ ar f]
        by (simp add: m'_def)
    next
      case True
      have k: "?f m' k = (if k = n then f else ?f m k)" if "k < 2" for k
        using flog_at_step2 [of m ar l n f] flog_at_store_other [OF n that, of l l _ ar f] True by (auto simp: m'_def)
      have f01: "?f m' 0 = (if n = 0 then f else ?f m 0)" "?f m' 1 = (if n = 0 then ?f m 1 else f)"
        using k [of 0] k [of 1] n by (auto simp: less_2_cases_iff)
      have c: "?c = (f, 1 - n)" using True l by simp
      have sd: "snd (fls ! i) = n" "fl_seq f = NSEQ (fl_seq (fst (fls ! i)))" using True seq by (simp_all add: n_def)
      from flog_pair_ok_step [OF old(1) sd(2)] show ?thesis
        unfolding f01 c sd(1) using old(2,3) lba by (simp split: if_split)
    qed
    then show "flog_pair_ok (flog_at m' (a_flog ar + 64 * i)) (flog_at m' (a_flog ar + 64 * i + 16)) (fst ?c) (snd ?c) \<and>
      unat (fl_lba (flog_at m' (a_flog ar + 64 * i))) < a_ext ar \<and> unat (fl_lba (flog_at m' (a_flog ar + 64 * i + 16))) < a_ext ar"
      by simp
  qed
qed

section \<open>Updating the map\<close>

lemma mapent_step_map:
  assumes "q < a_ext ar" and "p < a_ext ar"
  shows "mapent (step_map m ar p e) ar q = (if q = p then e else mapent m ar q)"
proof (cases "q = p")
  case False
  then have "a_map ar + 4 * q + 4 \<le> a_map ar + 4 * p \<or> a_map ar + 4 * p + 4 \<le> a_map ar + 4 * q" by auto
  then show ?thesis using False by (simp add: mapent_def step_map_def rd32_wr32_disjoint)
qed (simp add: mapent_def step_map_def)

lemma step_map_other:
  "x < a_map ar + 4 * p \<or> a_map ar + 4 * p + 4 \<le> x \<Longrightarrow> step_map m ar p e x = m x"
  by (simp add: step_map_def wr32_def store_out)

text \<open>A change of one map entry changes no other block; the data area stays.\<close>

lemma block_of_step_map:
  assumes g: "geom sz F lbs ar" and ok: "blk (effective q (mapent m ar q)) < a_int ar"
    and p: "p < a_ext ar" and q: "q < a_ext ar" "q \<noteq> p"
  shows "block_of lbs (step_map m ar p e) ar q = block_of lbs m ar q"
proof -
  have me: "mapent (step_map m ar p e) ar q = mapent m ar q" using mapent_step_map [OF q(1) p] q(2) by simp
  show ?thesis
  proof (cases "map_entry_is_error (mapent m ar q) \<or> map_entry_is_zero_or_initial (mapent m ar q)")
    case False
    then have "effective q (mapent m ar q) = mapent m ar q"
      using initial_not_error by (auto simp: effective_def)
    then have "blk (mapent m ar q) < a_int ar" using ok by simp
    note o = data_block_off_nat(2) [OF g this]
    have "bytes_at (step_map m ar p e) (a_data ar + blk (mapent m ar q) * a_lbs ar) lbs =
      bytes_at m (a_data ar + blk (mapent m ar q) * a_lbs ar) lbs"
      using o by (intro bytes_at_eqI step_map_other) auto
    then show ?thesis by (simp add: block_of_def me Let_def)
  qed (auto simp: block_of_def me Let_def)
qed

section \<open>A complete write\<close>

definition new_flog :: "mem \<Rightarrow> arena \<Rightarrow> (btt_flog \<times> nat) list \<Rightarrow> nat \<Rightarrow> nat \<Rightarrow> btt_flog" where
  "new_flog m ar fls l p =
     \<lparr>fl_lba = of_nat p, fl_old_map = effective p (mapent m ar p),
      fl_new_map = (fl_old_map (fst (fls ! l)) AND BTT_MAP_ENTRY_LBA_MASK) OR BTT_MAP_ENTRY_NORMAL,
      fl_seq = NSEQ (fl_seq (fst (fls ! l)))\<rparr>"

definition new_flogs :: "mem \<Rightarrow> arena \<Rightarrow> (btt_flog \<times> nat) list \<Rightarrow> nat \<Rightarrow> nat \<Rightarrow> (btt_flog \<times> nat) list" where
  "new_flogs m ar fls l p = fls[l := (new_flog m ar fls l p, 1 - snd (fls ! l))]"

text \<open>The media after the first, second, third and fourth step.\<close>

definition w1 :: "mem \<Rightarrow> arena \<Rightarrow> (btt_flog \<times> nat) list \<Rightarrow> nat \<Rightarrow> byte list \<Rightarrow> mem" where
  "w1 m ar fls l buf = step_data m ar (blk (fl_old_map (fst (fls ! l)))) buf"

definition w2 :: "mem \<Rightarrow> arena \<Rightarrow> (btt_flog \<times> nat) list \<Rightarrow> nat \<Rightarrow> nat \<Rightarrow> byte list \<Rightarrow> mem" where
  "w2 m ar fls l p buf = step_flog1 (w1 m ar fls l buf) ar l (snd (fls ! l)) (new_flog m ar fls l p)"

definition w3 :: "mem \<Rightarrow> arena \<Rightarrow> (btt_flog \<times> nat) list \<Rightarrow> nat \<Rightarrow> nat \<Rightarrow> byte list \<Rightarrow> mem" where
  "w3 m ar fls l p buf = step_flog2 (w2 m ar fls l p buf) ar l (snd (fls ! l)) (new_flog m ar fls l p)"

definition w4 :: "mem \<Rightarrow> arena \<Rightarrow> (btt_flog \<times> nat) list \<Rightarrow> nat \<Rightarrow> nat \<Rightarrow> byte list \<Rightarrow> mem" where
  "w4 m ar fls l p buf = step_map (w3 m ar fls l p buf) ar p (fl_new_map (new_flog m ar fls l p))"

text \<open>The situation in which a write takes place.\<close>

definition write_pre :: "nat \<Rightarrow> nat \<Rightarrow> nat \<Rightarrow> mem \<Rightarrow> arena \<Rightarrow> (btt_flog \<times> nat) list \<Rightarrow> nat \<Rightarrow> nat \<Rightarrow> byte list \<Rightarrow> bool" where
  "write_pre sz F lbs m ar fls l p buf \<longleftrightarrow>
     geom sz F lbs ar \<and> media_ok F m ar fls \<and> l < F \<and> p < a_ext ar \<and> length buf = lbs"

lemma write_preD:
  assumes "write_pre sz F lbs m ar fls l p buf"
  shows "geom sz F lbs ar" "media_ok F m ar fls" "l < F" "p < a_ext ar" "length buf = lbs" "length fls = F"
    "p < 2 ^ 30" "unat (of_nat p :: u32) = p"
proof -
  show g: "geom sz F lbs ar" "media_ok F m ar fls" "l < F" "p < a_ext ar" "length buf = lbs" "length fls = F"
    using assms by (auto simp: write_pre_def media_ok_def)
  from g(1,4) show "p < 2 ^ 30" by (simp add: geom_def)
  then show "unat (of_nat p :: u32) = p" by (simp add: unat_of_nat)
qed

lemma w1_ok:
  assumes "write_pre sz F lbs m ar fls l p buf"
  shows "media_ok F (w1 m ar fls l buf) ar fls" "q < a_ext ar \<Longrightarrow> mapent (w1 m ar fls l buf) ar q = mapent m ar q"
    "q < a_ext ar \<Longrightarrow> block_of lbs (w1 m ar fls l buf) ar q = block_of lbs m ar q"
  using free_block_frame [OF write_preD(1,2,3) [OF assms], of "w1 m ar fls l buf"] write_preD(5) [OF assms]
  by (auto simp: w1_def step_data_def store_out)

lemma w2_ok:
  assumes "write_pre sz F lbs m ar fls l p buf"
  shows "media_ok F (w2 m ar fls l p buf) ar fls" "\<And>x. x < a_flog ar \<Longrightarrow> w2 m ar fls l p buf x = w1 m ar fls l buf x"
    "q < a_ext ar \<Longrightarrow> block_of lbs (w2 m ar fls l p buf) ar q = block_of lbs m ar q"
proof -
  note pre = write_preD [OF assms]
  have "unat (fl_lba (new_flog m ar fls l p)) < a_ext ar" using pre by (simp add: new_flog_def)
  note s = step_flog1_ok [OF w1_ok(1) [OF assms] pre(1,3) this]
  from s show "media_ok F (w2 m ar fls l p buf) ar fls" "\<And>x. x < a_flog ar \<Longrightarrow> w2 m ar fls l p buf x = w1 m ar fls l buf x"
    by (simp_all add: w2_def)
  with block_of_frame(1) [OF pre(1) w1_ok(1) [OF assms], of q "w2 m ar fls l p buf"] w1_ok(3) [OF assms, of q]
  show "q < a_ext ar \<Longrightarrow> block_of lbs (w2 m ar fls l p buf) ar q = block_of lbs m ar q" by simp
qed

lemma w3_ok:
  assumes "write_pre sz F lbs m ar fls l p buf"
  shows "pairs_ok (w3 m ar fls l p buf) ar (new_flogs m ar fls l p)"
    "\<And>x. x < a_flog ar \<Longrightarrow> w3 m ar fls l p buf x = w1 m ar fls l buf x"
    "q < a_ext ar \<Longrightarrow> mapent (w3 m ar fls l p buf) ar q = mapent m ar q"
    "q < a_ext ar \<Longrightarrow> block_of lbs (w3 m ar fls l p buf) ar q = block_of lbs m ar q"
proof -
  note pre = write_preD [OF assms]
  have lba: "unat (fl_lba (new_flog m ar fls l p)) < a_ext ar" using pre by (simp add: new_flog_def)
  have pr: "pairs_ok (w1 m ar fls l buf) ar fls" using w1_ok(1) [OF assms] by (simp add: media_ok_def)
  note s = step_flog2_pairs [OF pr _ lba, of l]
  from s pre show "pairs_ok (w3 m ar fls l p buf) ar (new_flogs m ar fls l p)"
    by (simp add: w3_def w2_def new_flogs_def new_flog_def)
  from s pre show low: "\<And>x. x < a_flog ar \<Longrightarrow> w3 m ar fls l p buf x = w1 m ar fls l buf x"
    by (simp add: w3_def w2_def new_flog_def)
  show "q < a_ext ar \<Longrightarrow> mapent (w3 m ar fls l p buf) ar q = mapent m ar q"
    "q < a_ext ar \<Longrightarrow> block_of lbs (w3 m ar fls l p buf) ar q = block_of lbs m ar q"
    using block_of_frame [OF pre(1) w1_ok(1) [OF assms], of q "w3 m ar fls l p buf"] low w1_ok(2,3) [OF assms, of q] by auto
qed

lemma blk_mask [simp]: "blk (x AND BTT_MAP_ENTRY_LBA_MASK) = blk x"
  by (simp add: blk_def and.assoc)

lemma effective_normal [simp]:
  "effective p ((x AND BTT_MAP_ENTRY_LBA_MASK) OR BTT_MAP_ENTRY_NORMAL) = (x AND BTT_MAP_ENTRY_LBA_MASK) OR BTT_MAP_ENTRY_NORMAL"
  by (simp add: effective_def entry_normal)

text \<open>The write exchanges the block of the map entry with the free block of the lane.\<close>

lemma w4_phys:
  assumes "write_pre sz F lbs m ar fls l p buf"
  defines "xs \<equiv> phys m ar fls"
  shows "phys (w4 m ar fls l p buf) ar (new_flogs m ar fls l p) = xs[p := xs ! (a_ext ar + l), a_ext ar + l := xs ! p]"
proof (rule nth_equalityI)
  note pre = write_preD [OF assms(1)]
  show "length (phys (w4 m ar fls l p buf) ar (new_flogs m ar fls l p)) = length (xs[p := xs ! (a_ext ar + l), a_ext ar + l := xs ! p])"
    by (simp add: xs_def new_flogs_def)
  fix j assume "j < length (phys (w4 m ar fls l p buf) ar (new_flogs m ar fls l p))"
  then have j: "j < a_ext ar + F" using pre by (simp add: new_flogs_def)
  show "phys (w4 m ar fls l p buf) ar (new_flogs m ar fls l p) ! j = xs[p := xs ! (a_ext ar + l), a_ext ar + l := xs ! p] ! j"
  proof (cases "j < a_ext ar")
    case True
    then have "mapent (w4 m ar fls l p buf) ar j = (if j = p then fl_new_map (new_flog m ar fls l p) else mapent m ar j)"
      using mapent_step_map [OF True pre(4)] w3_ok(3) [OF assms(1)] by (simp add: w4_def)
    then show ?thesis using True pre by (auto simp: nth_phys xs_def nth_list_update new_flog_def)
  next
    case False
    then obtain i where "j = a_ext ar + i" "i < F" using j by (metis add_less_cancel_left le_Suc_ex not_less)
    then show ?thesis using pre by (auto simp: nth_phys xs_def nth_list_update new_flogs_def new_flog_def)
  qed
qed

lemma w4_ok:
  assumes "write_pre sz F lbs m ar fls l p buf"
  shows "media_ok F (w4 m ar fls l p buf) ar (new_flogs m ar fls l p)"
    and "block_of lbs (w4 m ar fls l p buf) ar p = BData buf"
    and "q < a_ext ar \<Longrightarrow> q \<noteq> p \<Longrightarrow> block_of lbs (w4 m ar fls l p buf) ar q = block_of lbs m ar q"
proof -
  note pre = write_preD [OF assms]
  let ?m3 = "w3 m ar fls l p buf" and ?m4 = "w4 m ar fls l p buf" and ?fls = "new_flogs m ar fls l p"
  let ?xs = "phys m ar fls" and ?b = "blk (fl_old_map (fst (fls ! l)))"
  have ix: "p < length ?xs" "a_ext ar + l < length ?xs" using pre by simp_all
  have d: "distinct ?xs" "\<forall>b \<in> set ?xs. b < a_int ar" using pre(2) by (auto simp: media_ok_def)
  have "distinct (phys ?m4 ar ?fls)" "set (phys ?m4 ar ?fls) = set ?xs"
    using d(1) ix w4_phys [OF assms] by (simp_all add: distinct_swap set_swap)
  moreover have "pairs_ok ?m4 ar ?fls"
  proof -
    have "a_map ar + 4 * p + 4 \<le> a_flog ar" using pre(1,4) by (simp add: geom_def)
    then have "pairs_ok ?m4 ar ?fls = pairs_ok ?m3 ar ?fls"
      by (intro pairs_ok_cong) (simp add: w4_def step_map_other)
    then show ?thesis using w3_ok(1) [OF assms] by simp
  qed
  ultimately show "media_ok F ?m4 ar ?fls" using d(2) pre(6) by (simp add: media_ok_def new_flogs_def)
  have me: "mapent ?m4 ar q = (if q = p then fl_new_map (new_flog m ar fls l p) else mapent m ar q)" if "q < a_ext ar" for q
    using mapent_step_map [OF that pre(4)] w3_ok(3) [OF assms that] by (simp add: w4_def)
  have b: "?b < a_int ar" by (rule phys_bound(2) [OF pre(2,3)])
  note off = data_block_off_nat(2) [OF pre(1) b]
  have mf: "a_map ar \<le> a_flog ar" using pre(1) by (simp add: geom_def)
  have "bytes_at ?m4 (a_data ar + ?b * a_lbs ar) lbs = bytes_at (w1 m ar fls l buf) (a_data ar + ?b * a_lbs ar) lbs"
    using off mf w3_ok(2) [OF assms] by (intro bytes_at_eqI) (auto simp: w4_def step_map_other)
  also have "\<dots> = buf" using pre(5) by (simp add: w1_def step_data_def bytes_at_store_same)
  finally show "block_of lbs ?m4 ar p = BData buf"
    using me [OF pre(4)] by (simp add: block_of_def new_flog_def entry_normal)
  show "block_of lbs ?m4 ar q = block_of lbs m ar q" if q: "q < a_ext ar" "q \<noteq> p"
  proof -
    have "blk (effective q (mapent ?m3 ar q)) < a_int ar"
      using phys_bound(1) [OF pre(2) q(1)] w3_ok(3) [OF assms q(1)] by simp
    from block_of_step_map [OF pre(1) this pre(4) q] show ?thesis
      using w3_ok(4) [OF assms q(1)] by (simp add: w4_def)
  qed
qed

section \<open>Recovery on media\<close>

text \<open>What loading a flog pair does to the map: an update that is in the flog and not in the map is
  completed.\<close>

definition recover1 :: "arena \<Rightarrow> btt_flog \<Rightarrow> mem \<Rightarrow> mem" where
  "recover1 ar cur m =
     (let e = effective (unat (fl_lba cur)) (mapent m ar (unat (fl_lba cur)))
      in if fl_old_map cur \<noteq> fl_new_map cur \<and> fl_new_map cur \<noteq> e \<and> fl_old_map cur = e
         then step_map m ar (unat (fl_lba cur)) (fl_new_map cur) else m)"

definition recover_all :: "arena \<Rightarrow> (btt_flog \<times> nat) list \<Rightarrow> mem \<Rightarrow> mem" where
  "recover_all ar fls m = fold (\<lambda>f. recover1 ar (fst f)) fls m"

lemma pairs_ok_lba: "pairs_ok m ar fls \<Longrightarrow> i < length fls \<Longrightarrow> unat (fl_lba (fst (fls ! i))) < a_ext ar"
  by (auto simp: pairs_ok_def flog_pair_ok_def Let_def split: if_splits)

lemma fold_fixed: "\<forall>x \<in> set xs. g x m = m \<Longrightarrow> fold g xs m = m"
  by (induction xs) auto

text \<open>Nothing is left to do on consistent media.\<close>

lemma recover1_settled:
  assumes ok: "media_ok F m ar fls" and i: "i < F"
  shows "recover1 ar (fst (fls ! i)) m = m"
proof -
  let ?f = "fst (fls ! i)" and ?q = "unat (fl_lba (fst (fls ! i)))"
  have q: "?q < a_ext ar" using ok i pairs_ok_lba [of m ar fls i] by (simp add: media_ok_def)
  have "blk (fl_old_map ?f) \<noteq> blk (effective ?q (mapent m ar ?q))"
    using phys_distinct [OF ok, of ?q "a_ext ar + i"] q i ok by (auto simp: nth_phys media_ok_def)
  then show ?thesis by (auto simp: recover1_def Let_def)
qed

lemma recover_all_settled:
  assumes "media_ok F m ar fls"
  shows "recover_all ar fls m = m"
proof -
  have "\<forall>f \<in> set fls. recover1 ar (fst f) m = m"
    using assms recover1_settled by (metis in_set_conv_nth media_ok_def)
  then show ?thesis unfolding recover_all_def by (rule fold_fixed)
qed

text \<open>An interrupted write whose flog entry is complete is finished by the recovery.\<close>

lemma recover_all_pending:
  assumes "write_pre sz F lbs m ar fls l p buf"
  shows "recover_all ar (new_flogs m ar fls l p) (w3 m ar fls l p buf) = w4 m ar fls l p buf"
proof -
  note pre = write_preD [OF assms]
  let ?m3 = "w3 m ar fls l p buf" and ?m4 = "w4 m ar fls l p buf" and ?fls = "new_flogs m ar fls l p"
  let ?f = "new_flog m ar fls l p"
  have len: "length ?fls = F" and fl: "?fls ! l = (?f, 1 - snd (fls ! l))" using pre by (simp_all add: new_flogs_def)
  note ok4 = w4_ok(1) [OF assms]
  have other: "recover1 ar (fst (?fls ! i)) ?m3 = ?m3" if i: "i < F" "i \<noteq> l" for i
  proof -
    let ?g = "fst (?fls ! i)" and ?q = "unat (fl_lba (fst (?fls ! i)))"
    have q: "?q < a_ext ar" using pairs_ok_lba [OF w3_ok(1) [OF assms]] i len by simp
    show ?thesis
    proof (cases "?q = p")
      case True
      have "blk (fl_old_map ?g) \<noteq> blk (fl_old_map ?f)"
        using phys_distinct [OF ok4, of "a_ext ar + i" "a_ext ar + l"] i pre(3) len fl by (auto simp: nth_phys)
      then show ?thesis using True w3_ok(3) [OF assms pre(4)] by (auto simp: recover1_def new_flog_def Let_def)
    next
      case False
      have "mapent ?m4 ar ?q = mapent ?m3 ar ?q" using False mapent_step_map [OF q pre(4)] by (simp add: w4_def)
      moreover have "blk (fl_old_map ?g) \<noteq> blk (effective ?q (mapent ?m4 ar ?q))"
        using phys_distinct [OF ok4, of ?q "a_ext ar + i"] q i len by (auto simp: nth_phys)
      ultimately show ?thesis by (auto simp: recover1_def Let_def)
    qed
  qed
  have "blk (fl_new_map ?f) \<noteq> blk (fl_old_map ?f)"
    using phys_distinct [OF pre(2), of p "a_ext ar + l"] pre by (auto simp: nth_phys new_flog_def)
  then have self: "recover1 ar ?f ?m3 = ?m4"
    using w3_ok(3) [OF assms pre(4)] pre(8) by (auto simp: recover1_def Let_def w4_def) (auto simp: new_flog_def)
  have "fold (\<lambda>f. recover1 ar (fst f)) (take l ?fls) ?m3 = ?m3"
  proof -
    have "\<forall>f \<in> set (take l ?fls). recover1 ar (fst f) ?m3 = ?m3"
      using other pre(3) len by (auto simp: in_set_conv_nth) (metis fst_conv less_trans nat_neq_iff)
    then show ?thesis by (rule fold_fixed)
  qed
  moreover have "fold (\<lambda>f. recover1 ar (fst f)) (drop (Suc l) ?fls) ?m4 = ?m4"
  proof -
    have "\<forall>f \<in> set (drop (Suc l) ?fls). recover1 ar (fst f) ?m4 = ?m4"
      using recover1_settled [OF ok4] len by (auto simp: in_set_conv_nth) (metis fst_conv less_diff_conv2 add.commute not_less_eq_eq add_Suc_right less_diff_conv linorder_not_le Suc_leI add_Suc)
    then show ?thesis by (rule fold_fixed)
  qed
  moreover have "?fls = take l ?fls @ (?fls ! l) # drop (Suc l) ?fls" using id_take_nth_drop [of l ?fls] pre(3) len by simp
  ultimately show ?thesis
    using self fl unfolding recover_all_def by (metis (no_types, lifting) comp_apply fold_append fold_simps(2) fst_conv)
qed

end
