(* ===== verification/Btt_Ops.thy ===== *)
theory Btt_Ops
  imports Btt_Arena
begin

text \<open>
  Reading and writing blocks. \<open>btt_ok\<close> is the invariant of a handle over the contents of its namespace:
  every arena is consistent, the arenas do not overlap, and no lock is held. \<open>btt_view\<close> is the abstract
  state: what each external block holds. Inside the locale \<open>namespace\<close> the operations are shown to read
  and change that state; a write that fails leaves one of the media of \<open>crash_image\<close>.
\<close>

unbundle bit_operations_syntax

section \<open>Handles\<close>

named_theorems btt_state "updates of the handle and of its arenas"

lemma upd_arena_simps [btt_state]:
  "bt_ns (upd_arena s a f) = bt_ns s" "bt_nfree (upd_arena s a f) = bt_nfree s" "bt_nlane (upd_arena s a f) = bt_nlane s"
  "bt_lbasize (upd_arena s a f) = bt_lbasize s" "bt_laidout (upd_arena s a f) = bt_laidout s"
  "bt_nlba (upd_arena s a f) = bt_nlba s" "bt_narena (upd_arena s a f) = bt_narena s"
  "bt_layout_write_mutex (upd_arena s a f) = bt_layout_write_mutex s" "bt_oom (upd_arena s a f) = bt_oom s"
  "bt_parent_uuid (upd_arena s a f) = bt_parent_uuid s" "bt_rawsize (upd_arena s a f) = bt_rawsize s"
  "bt_uuid (upd_arena s a f) = bt_uuid s"
  "length (bt_arenas (upd_arena s a f)) = length (bt_arenas s)"
  by (simp_all add: upd_arena_def)

lemma the_arena_upd [btt_state]:
  "a < length (bt_arenas s) \<Longrightarrow> the_arena (upd_arena s a f) b = (if b = a then f (the_arena s a) else the_arena s b)"
  by (auto simp: the_arena_def upd_arena_def nth_list_update)

lemma upd_arena_twice [btt_state]:
  "a < length (bt_arenas s) \<Longrightarrow> upd_arena (upd_arena s a f) a g = upd_arena s a (\<lambda>ar. g (f ar))"
  by (simp add: upd_arena_def)

lemma upd_arena_ns [btt_state]: "(upd_arena s a f)\<lparr>bt_ns := ns\<rparr> = upd_arena (s\<lparr>bt_ns := ns\<rparr>) a f"
  by (simp add: upd_arena_def)

lemma upd_arena_id: "a < length (bt_arenas s) \<Longrightarrow> f (the_arena s a) = the_arena s a \<Longrightarrow> upd_arena s a f = s"
  by (simp add: upd_arena_def the_arena_def)

lemma upd_arena_cong: "a < length (bt_arenas s) \<Longrightarrow> f (the_arena s a) = g (the_arena s a) \<Longrightarrow> upd_arena s a f = upd_arena s a g"
  by (simp add: upd_arena_def the_arena_def)

lemma the_arena_ns [btt_state]: "the_arena (s\<lparr>bt_ns := ns\<rparr>) a = the_arena s a"
  by (simp add: the_arena_def)

section \<open>External blocks\<close>

lemma lba_walk_spec:
  assumes "unat lba < sum_list (map a_ext ars)"
  shows "\<exists>a p. lba_walk ars k lba = Some (k + a, p) \<and> a < length ars \<and> unat p < a_ext (ars ! a) \<and>
    unat lba = sum_list (map a_ext (take a ars)) + unat p"
  using assms
proof (induction ars arbitrary: k lba)
  case (Cons ar ars)
  show ?case
  proof (cases "lba < ucast (ar_external_nlba ar)")
    case True
    then have lt: "unat lba < a_ext ar" by (simp add: word_less_nat_alt)
    then have "unat (ucast lba :: u32) = unat lba"
      using unat_lt_u32 [of "ar_external_nlba ar"] by (simp add: unsigned_ucast_eq take_bit_nat_eq_self)
    then show ?thesis using True lt by (auto intro!: exI [of _ 0])
  next
    case False
    then have ge: "a_ext ar \<le> unat lba" by (simp add: word_less_nat_alt)
    then have d: "unat (lba - ucast (ar_external_nlba ar)) = unat lba - a_ext ar"
      by (simp add: unat_sub word_le_nat_alt)
    with Cons.prems ge have "unat (lba - ucast (ar_external_nlba ar)) < sum_list (map a_ext ars)" by simp
    from Cons.IH [OF this, of "Suc k"] obtain a p where
      "lba_walk ars (Suc k) (lba - ucast (ar_external_nlba ar)) = Some (Suc k + a, p)" "a < length ars"
      "unat p < a_ext (ars ! a)" "unat lba - a_ext ar = sum_list (map a_ext (take a ars)) + unat p" using d by auto
    then show ?thesis using False ge by (intro exI [of _ "Suc a"] exI [of _ p]) auto
  qed
qed simp

text \<open>A handle that is in order, for a namespace of the given size and contents.\<close>

definition btt_ok :: "nat \<Rightarrow> mem \<Rightarrow> 'ns btt \<Rightarrow> bool" where
  "btt_ok sz m s \<longleftrightarrow>
     bt_laidout s \<and> \<not> bt_layout_write_mutex s \<and> 0 < unat (bt_nfree s) \<and> unat (bt_nlane s) \<le> unat (bt_nfree s) \<and>
     length (bt_arenas s) = unat (bt_narena s) \<and>
     (\<forall>a < length (bt_arenas s). arena_ok sz (unat (bt_nfree s)) (unat (bt_lbasize s)) m (the_arena s a)) \<and>
     (\<forall>a b. a < b \<longrightarrow> b < length (bt_arenas s) \<longrightarrow>
        a_flog (the_arena s a) + 64 * unat (bt_nfree s) \<le> a_start (the_arena s b)) \<and>
     unat (bt_nlba s) = sum_list (map a_ext (bt_arenas s))"

lemma btt_ok_arena:
  "btt_ok sz m s \<Longrightarrow> a < length (bt_arenas s) \<Longrightarrow> arena_ok sz (unat (bt_nfree s)) (unat (bt_lbasize s)) m (the_arena s a)"
  by (simp add: btt_ok_def)

lemma lba_to_arena:
  assumes "btt_ok sz m s" and "\<not> invalid_lba s lba"
  obtains a p where "lba_to_arena_lba s lba = Some (a, p)" "a < length (bt_arenas s)" "unat p < a_ext (the_arena s a)"
    "unat lba = sum_list (map a_ext (take a (bt_arenas s))) + unat p"
proof -
  have "take (unat (bt_narena s)) (bt_arenas s) = bt_arenas s" using assms(1) by (simp add: btt_ok_def)
  moreover have "unat lba < sum_list (map a_ext (bt_arenas s))"
    using assms by (simp add: btt_ok_def invalid_lba_def word_le_nat_alt)
  ultimately show ?thesis
    using lba_walk_spec [of lba "bt_arenas s" 0] that by (auto simp: lba_to_arena_lba_def the_arena_def)
qed

text \<open>Different external blocks live in different places.\<close>

lemma lba_to_arena_inj:
  assumes "btt_ok sz m s" and "\<not> invalid_lba s lba" and "\<not> invalid_lba s lba'"
    and "lba_to_arena_lba s lba = Some (a, p)" and "lba_to_arena_lba s lba' = Some (a, p)"
  shows "lba = lba'"
proof -
  have "unat lba = unat lba'"
    using lba_to_arena [OF assms(1,2)] lba_to_arena [OF assms(1,3)] assms(4,5) by (metis Pair_inject option.inject)
  then show ?thesis by (simp add: word_unat_eq_iff)
qed

definition btt_view :: "mem \<Rightarrow> 'ns btt \<Rightarrow> u64 \<Rightarrow> block" where
  "btt_view m s lba =
     (case lba_to_arena_lba s lba of
        None \<Rightarrow> BZero | Some (a, p) \<Rightarrow> block_of (unat (bt_lbasize s)) m (the_arena s a) (unat p))"

section \<open>Arenas that a change does not reach\<close>

lemma arena_frame:
  assumes "geom sz F lbs ar" and "media_ok F m ar fls"
    and same: "\<And>x. a_start ar \<le> x \<Longrightarrow> x < a_flog ar + 64 * F \<Longrightarrow> m' x = m x"
  shows "media_ok F m' ar fls" and "p < a_ext ar \<Longrightarrow> block_of lbs m' ar p = block_of lbs m ar p"
proof -
  have o: "a_start ar \<le> a_data ar" "a_data ar \<le> a_map ar" "a_map ar + 4 * a_ext ar \<le> a_flog ar" "a_map ar \<le> a_flog ar"
    using assms(1) by (auto simp: geom_def)
  show "media_ok F m' ar fls" using assms(2) media_ok_cong [of ar m' m F fls] same o by auto
  show "block_of lbs m' ar p = block_of lbs m ar p" if p: "p < a_ext ar"
  proof -
    have me: "mapent m' ar p = mapent m ar p" using o by (intro mapent_cong [OF p] same) auto
    show ?thesis
    proof (cases "map_entry_is_error (mapent m ar p) \<or> map_entry_is_zero_or_initial (mapent m ar p)")
      case False
      then have "effective p (mapent m ar p) = mapent m ar p"
        using initial_not_error by (auto simp: effective_def)
      then have "blk (mapent m ar p) < a_int ar" using phys_bound(1) [OF assms(2) p] by simp
      from data_block_off_nat(2) [OF assms(1) this] o
      have "bytes_at m' (a_data ar + blk (mapent m ar p) * a_lbs ar) lbs = bytes_at m (a_data ar + blk (mapent m ar p) * a_lbs ar) lbs"
        by (intro bytes_at_eqI same) auto
      then show ?thesis by (simp add: block_of_def me Let_def)
    qed (auto simp: block_of_def me Let_def)
  qed
qed

section \<open>Reading\<close>

definition read_result :: "'ns btt \<Rightarrow> block \<Rightarrow> errno + byte list" where
  "read_result s b = (case b of BError \<Rightarrow> Inl EIO | BZero \<Rightarrow> Inr (zero_block s) | BData bs \<Rightarrow> Inr bs)"

lemma set_rtt_back:
  assumes "arena_ok sz F lbs m (the_arena s a)" and "a < length (bt_arenas s)" and "lane < F"
  shows "set_rtt (set_rtt s a lane e) a lane BTT_MAP_ENTRY_ERROR = s"
proof -
  have "(ar_rtt (the_arena s a))[lane := BTT_MAP_ENTRY_ERROR] = ar_rtt (the_arena s a)"
    using assms by (simp add: arena_ok_def list_update_same_conv)
  then show ?thesis
    using assms(2) by (simp add: set_rtt_def btt_state) (simp add: upd_arena_id)
qed

lemma set_rtt_simps [btt_state]:
  "bt_ns (set_rtt s a l e) = bt_ns s" "bt_lbasize (set_rtt s a l e) = bt_lbasize s"
  "zero_block (set_rtt s a l e) = zero_block s"
  by (simp_all add: set_rtt_def btt_state zero_block_def)

context namespace
begin

lemma nsread_map:
  assumes "geom nssize F lbs ar" and "unat p < a_ext ar"
  shows "cb_nsread cb ns lane 4 (map_entry_off ar p) = Inr (bytes_at (content ns) (a_map ar + 4 * unat p) 4)"
proof -
  have "a_map ar + 4 * unat p + 4 \<le> nssize" using assms by (simp add: geom_def)
  then show ?thesis using nsread_law [of "map_entry_off ar p" 4] map_entry_off_nat [OF assms] by simp
qed

lemma btt_read_spec:
  assumes ok: "btt_ok nssize (content (bt_ns s)) s" and lane: "lane < unat (bt_nlane s)" and lba: "\<not> invalid_lba s lba"
  shows "btt_read cb s lane lba = Some (read_result s (btt_view (content (bt_ns s)) s lba), s)"
proof -
  let ?m = "content (bt_ns s)" and ?F = "unat (bt_nfree s)" and ?lbs = "unat (bt_lbasize s)"
  obtain a p where ap: "lba_to_arena_lba s lba = Some (a, p)" "a < length (bt_arenas s)" "unat p < a_ext (the_arena s a)"
    using lba_to_arena [OF ok lba] by metis
  let ?ar = "the_arena s a" and ?e = "mapent (content (bt_ns s)) (the_arena s a) (unat p)"
  note ao = btt_ok_arena [OF ok ap(2)]
  then have g: "geom nssize ?F ?lbs ?ar" and mo: "media_ok ?F ?m ?ar (runtime_flogs ?ar)" by (auto simp: arena_ok_def)
  have l: "lane < ?F" "bt_laidout s" using ok lane by (auto simp: btt_ok_def)
  note rd = nsread_map [OF g ap(3)]
  have e: "le32toh (bytes_at ?m (a_map ?ar + 4 * unat p) 4) = ?e" by (simp add: le32toh_bytes_at mapent_def)
  show ?thesis
  proof (cases "map_entry_is_error ?e \<or> map_entry_is_zero_or_initial ?e")
    case True
    then show ?thesis using lba l ap rd e
      by (subst btt_read_def, subst read_track_loop.simps)
         (auto simp: ns_read_def seqE_def btt_view_def block_of_def read_result_def Let_def)
  next
    case False
    then have "effective (unat p) ?e = ?e" using initial_not_error by (auto simp: effective_def)
    then have b: "blk ?e < a_int ?ar" using phys_bound(1) [OF mo ap(3)] by simp
    note off = data_block_off_nat [OF g b]
    have mf: "a_map ?ar \<le> nssize" using g by (simp add: geom_def)
    have data: "cb_nsread cb (bt_ns s) lane ?lbs (data_block_off ?ar ?e) = Inr (bytes_at ?m (a_data ?ar + blk ?e * a_lbs ?ar) ?lbs)"
      using off mf by (subst nsread_law) simp_all
    have same: "the_arena (set_rtt s a lane ?e) a = ?ar\<lparr>ar_rtt := (ar_rtt ?ar)[lane := ?e]\<rparr>"
      using ap(2) by (simp add: set_rtt_def btt_state)
    have "data_block_off (the_arena (set_rtt s a lane ?e) a) ?e = data_block_off ?ar ?e"
      by (simp add: same data_block_off_def)
    then show ?thesis using False lba l ap rd e data set_rtt_back [OF ao ap(2) l(1), of ?e]
      by (subst btt_read_def, subst read_track_loop.simps)
         (simp add: ns_read_def seqE_def btt_view_def block_of_def read_result_def Let_def btt_state)
  qed
qed

end

section \<open>Writing\<close>

text \<open>The media that a failure can leave while a block is written.\<close>

definition crash_image :: "mem \<Rightarrow> arena \<Rightarrow> (btt_flog \<times> nat) list \<Rightarrow> nat \<Rightarrow> nat \<Rightarrow> byte list \<Rightarrow> mem \<Rightarrow> bool" where
  "crash_image m ar fls l p buf m' \<longleftrightarrow>
     torn m (a_data ar + blk (fl_old_map (fst (fls ! l))) * a_lbs ar) buf m' \<or> m' = w1 m ar fls l buf \<or>
     m' = w2 m ar fls l p buf \<or> m' = w3 m ar fls l p buf \<or> m' = w4 m ar fls l p buf"

lemma runtime_flogs_nth: "i < length (ar_flogs ar) \<Longrightarrow> runtime_flogs ar ! i = (fr_flog (ar_flogs ar ! i), fr_next (ar_flogs ar ! i))"
  by (simp add: runtime_flogs_def)

lemma length_runtime_flogs [simp]: "length (runtime_flogs ar) = length (ar_flogs ar)"
  by (simp add: runtime_flogs_def)

lemma map_lock_index:
  assumes "0 < unat nfree"
  shows "unat (get_map_lock_num p nfree) < unat nfree"
  using assms by (simp add: get_map_lock_num_def unat_mod)

definition lane_written :: "nat \<Rightarrow> btt_flog \<Rightarrow> arena \<Rightarrow> arena" where
  "lane_written l f = ar_flogs_update (\<lambda>fs. fs[l := (fs ! l)\<lparr>fr_next := 1 - fr_next (fs ! l), fr_flog := f\<rparr>])"

context namespace
begin

lemma ns_write_cases:
  assumes "unat off + length bs \<le> nssize"
  obtains (ok) ns' where "ns_write cb s lane bs off = Some (Inr (), s\<lparr>bt_ns := ns'\<rparr>)" "\<not> dead (bt_ns s)" "\<not> dead ns'"
      "content ns' = store (content (bt_ns s)) (unat off) bs"
    | (fail) ns' e where "ns_write cb s lane bs off = Some (Inl e, s\<lparr>bt_ns := ns'\<rparr>)" "dead ns'"
      "if dead (bt_ns s) then content ns' = content (bt_ns s) else torn (content (bt_ns s)) (unat off) bs (content ns')"
proof -
  obtain r ns' where w: "cb_nswrite cb (bt_ns s) lane bs off = (r, ns')" by force
  show thesis
  proof (cases r)
    case None
    with nswrite_law [OF assms w] w ok show thesis by (simp add: ns_write_def)
  next
    case (Some e)
    with nswrite_law [OF assms w] w fail show thesis by (simp add: ns_write_def)
  qed
qed

lemma set_arena_error_dead:
  assumes "dead (bt_ns s)" and "a < length (bt_arenas s)" and "bt_laidout s" and "\<not> ar_info_lock (the_arena s a)"
    and "a_start (the_arena s a) + 4096 \<le> nssize"
  shows "\<exists>r s'. set_arena_error cb s a lane = Some (r, s') \<and> dead (bt_ns s') \<and> content (bt_ns s') = content (bt_ns s)"
proof -
  let ?ar = "the_arena s a"
  let ?t = "upd_arena (upd_arena s a (ar_flags_update (\<lambda>f. f OR BTTINFO_FLAG_ERROR))) a (ar_info_lock_update (\<lambda>_. True))"
  have t: "bt_ns ?t = bt_ns s" by (simp add: btt_state)
  have rd: "cb_nsread cb (bt_ns s) lane SIZEOF_BTT_INFO (ar_startoff ?ar) = Inr (bytes_at (content (bt_ns s)) (a_start ?ar) 4096)"
    using assms(5) by (subst nsread_law) (simp_all add: SIZEOF_BTT_INFO_def)
  let ?i = "btt_info_convert2h (bytes_at (content (bt_ns s)) (a_start ?ar) 4096)"
  let ?bs = "btt_info_convert2le (info_checksum_insert (?i\<lparr>bi_flags := bi_flags ?i OR BTTINFO_FLAG_ERROR\<rparr>))"
  have len: "length ?bs = 4096"
    by (simp add: btt_info_convert2le_def info_checksum_insert_def util_checksum_def SIZEOF_BTT_INFO_def info_at_def Let_def)
  have "unat (ar_startoff ?ar) + length ?bs \<le> nssize" using assms(5) by (simp only: len)
  then show ?thesis
  proof (cases rule: ns_write_cases [of "ar_startoff ?ar" ?bs ?t lane])
    case (ok ns')
    then show ?thesis using assms(1) t by simp
  next
    case (fail ns' e)
    then have c: "content ns' = content (bt_ns s)" using assms(1) t by simp
    have fl: "the_arena (upd_arena s a (ar_flags_update (\<lambda>f. f OR BTTINFO_FLAG_ERROR))) a =
      ?ar\<lparr>ar_flags := ar_flags ?ar OR BTTINFO_FLAG_ERROR\<rparr>" using assms(2) by (simp add: btt_state)
    have rd': "ns_read cb ?t lane SIZEOF_BTT_INFO (ar_startoff ?ar) = Some (Inr (bytes_at (content (bt_ns s)) (a_start ?ar) 4096), ?t)"
      using rd by (simp add: ns_read_def t)
    show ?thesis unfolding set_arena_error_def arena_setf_def Let_def fl
      using fail(1,2) c assms(3,4) rd' by (simp add: seqE_def btt_state)
  qed
qed

lemma map_lock_spec:
  assumes ok: "arena_ok nssize F lbs (content (bt_ns s)) (the_arena s a)" and F: "F = unat (bt_nfree s)" "0 < F"
    and m: "mapent (content (bt_ns t)) (the_arena s a) (unat p) = mapent (content (bt_ns s)) (the_arena s a) (unat p)"
    and t: "t = s\<lparr>bt_ns := ns\<rparr>" and a: "a < length (bt_arenas s)" and p: "unat p < a_ext (the_arena s a)"
  shows "map_lock cb t lane a p =
    Some (Inr (effective (unat p) (mapent (content (bt_ns s)) (the_arena s a) (unat p))), set_map_lock t a p True)"
proof -
  let ?ar = "the_arena s a" and ?k = "unat (get_map_lock_num p (bt_nfree s))"
  have g: "geom nssize F lbs ?ar" using ok by (simp add: arena_ok_def)
  have k: "?k < F" using F map_lock_index by simp
  have tar: "the_arena t a = ?ar" "bt_nfree t = bt_nfree s" using t by (simp_all add: btt_state)
  have free: "\<not> ar_map_locks (the_arena t a) ! ?k" using ok k by (simp add: arena_ok_def tar)
  let ?t = "set_map_lock t a p True"
  have off: "map_entry_off (the_arena ?t a) p = map_entry_off ?ar p"
    using a t by (simp add: set_map_lock_def btt_state map_entry_off_def)
  have "cb_nsread cb (bt_ns ?t) lane 4 (map_entry_off (the_arena ?t a) p) = Inr (bytes_at (content (bt_ns t)) (a_map ?ar + 4 * unat p) 4)"
    unfolding off using nsread_map [OF g p] by (simp add: set_map_lock_def btt_state)
  moreover have "le32toh (bytes_at (content (bt_ns t)) (a_map ?ar + 4 * unat p) 4) = mapent (content (bt_ns s)) ?ar (unat p)"
    using m by (simp add: le32toh_bytes_at mapent_def)
  ultimately show ?thesis using free tar(2) by (simp add: map_lock_def effective_def)
qed

text \<open>The entry of a flog pair that is written next, and that its two halves are aligned words.\<close>

lemma flog_target:
  assumes ok: "arena_ok nssize F lbs m ar" and l: "lane < F"
  defines "fr \<equiv> ar_flogs ar ! lane"
  defines "off \<equiv> if fr_next fr = 0 then fst (fr_entries fr) else snd (fr_entries fr)"
  shows "unat off = a_flog ar + 64 * lane + 16 * fr_next fr" "unat (off + 8) = a_flog ar + 64 * lane + 16 * fr_next fr + 8"
    "unat off + 16 \<le> nssize" "8 dvd unat off" "fr_next fr < 2" "length (ar_flogs ar) = F"
proof -
  have g: "geom nssize F lbs ar" and mo: "media_ok F m ar (runtime_flogs ar)" using ok by (auto simp: arena_ok_def)
  show len: "length (ar_flogs ar) = F" using mo by (simp add: media_ok_def)
  have "flog_pair_ok (flog_at m (a_flog ar + 64 * lane)) (flog_at m (a_flog ar + 64 * lane + 16)) (fr_flog fr) (fr_next fr)"
    using mo l len by (auto simp: media_ok_def pairs_ok_def runtime_flogs_nth fr_def Let_def)
  then show n: "fr_next fr < 2" by (simp add: flog_pair_ok_def Let_def)
  have e: "fr_entries fr = (ar_flogoff ar + of_nat (64 * lane), ar_flogoff ar + of_nat (64 * lane) + 16)"
    using ok l by (simp add: arena_ok_def fr_def del: of_nat_mult)
  show o: "unat off = a_flog ar + 64 * lane + 16 * fr_next fr"
    using n flog_off_nat [OF g l] by (auto simp: off_def e less_2_cases_iff simp del: of_nat_mult)
  have b: "a_flog ar + 64 * lane + 64 \<le> nssize" "nssize < 2 ^ 64" "8 dvd a_flog ar" using g l by (auto simp: geom_def)
  show le: "unat off + 16 \<le> nssize" using o n b(1) by linarith
  have "unat off + unat (8 :: u64) < 2 ^ 64" using le b(2) by simp
  from unat_plus_u64 [OF this] show "unat (off + 8) = a_flog ar + 64 * lane + 16 * fr_next fr + 8" using o by simp
  show "8 dvd unat off" unfolding o using b(3) by (intro dvd_add) auto
qed

lemma aligned_torn:
  assumes "torn m off bs m'" and "8 dvd off" and "length bs \<le> 8" and "bs \<noteq> []"
  shows "m' = m \<or> m' = store m off bs"
proof (rule torn_word [OF assms(1) _ assms(4)])
  obtain k where "off = 8 * k" using assms(2) by blast
  moreover have "1 \<le> length bs" using assms(4) by (simp add: Suc_leI)
  ultimately show "off div 8 = (off + length bs - 1) div 8" using assms(3) by (intro sym [OF div_nat_eqI]) auto
qed

lemma word_half: "4 dvd n \<Longrightarrow> n div 8 = (n + 3) div 8" for n :: nat
  by presburger

lemma flog_update_cases:
  fixes lba old new :: u32
  assumes ao: "arena_ok nssize F lbs m ar" and l: "lane < F" and ar: "ar_flogs (the_arena t a) = ar_flogs ar"
  defines "f \<equiv> \<lparr>fl_lba = lba, fl_old_map = old, fl_new_map = new, fl_seq = NSEQ (fl_seq (fr_flog (ar_flogs ar ! lane)))\<rparr>"
    and "n \<equiv> fr_next (ar_flogs ar ! lane)"
  defines "m1 \<equiv> step_flog1 (content (bt_ns t)) ar lane n f"
  assumes alive: "\<not> dead (bt_ns t)"
  obtains (ok) ns' where "flog_update cb t lane a lba old new =
      Some (Inr (), upd_flog (t\<lparr>bt_ns := ns'\<rparr>) a lane (\<lambda>fr. fr\<lparr>fr_next := 1 - fr_next fr, fr_flog := f\<rparr>))"
      "\<not> dead ns'" "content ns' = step_flog2 m1 ar lane n f"
    | (fail) ns' e where "flog_update cb t lane a lba old new = Some (Inl e, t\<lparr>bt_ns := ns'\<rparr>)" "dead ns'"
      "content ns' \<in> {content (bt_ns t), m1, step_flog2 m1 ar lane n f}"
proof -
  let ?fr = "ar_flogs ar ! lane"
  let ?off = "if fr_next ?fr = 0 then fst (fr_entries ?fr) else snd (fr_entries ?fr)"
  let ?bs = "btt_flog_convert2le f"
  note tg = flog_target [OF ao l]
  have fu: "flog_update cb t lane a lba old new =
      seqE (ns_write cb t lane (take 8 ?bs) ?off) (\<lambda>_ s. seqE (ns_write cb s lane (drop 8 ?bs) (?off + 8)) (\<lambda>_ s.
        Some (Inr (), upd_flog s a lane (\<lambda>fr. fr\<lparr>fr_next := 1 - fr_next fr, fr_flog := f\<rparr>))))"
    by (simp only: flog_update_def ar f_def Let_def)
  have r1: "unat ?off + length (take 8 ?bs) \<le> nssize" using tg(3) by simp
  have r2: "unat (?off + 8) + length (drop 8 ?bs) \<le> nssize" using tg(1,2,3) by simp
  have "length (take 8 ?bs) = 8" "length (drop 8 ?bs) = 8" by simp_all
  then have ne: "take 8 ?bs \<noteq> []" "drop 8 ?bs \<noteq> []" by (metis list.size(3) zero_neq_numeral)+
  have st1: "store (content (bt_ns t)) (unat ?off) (take 8 ?bs) = m1" by (simp only: m1_def step_flog1_def n_def tg(1))
  from r1 show thesis
  proof (cases rule: ns_write_cases [where s = t and lane = lane])
    case (fail ns' e)
    have "torn (content (bt_ns t)) (unat ?off) (take 8 ?bs) (content ns')" using fail(3) alive by simp
    from aligned_torn [OF this tg(4) _ ne(1)] st1 have "content ns' = content (bt_ns t) \<or> content ns' = m1" by simp
    then show thesis using fail(1,2) that(2) by (auto simp: fu seqE_def)
  next
    case (ok ns1)
    let ?t = "t\<lparr>bt_ns := ns1\<rparr>"
    have c1: "content ns1 = m1" using ok(4) st1 by simp
    have st2: "store m1 (unat (?off + 8)) (drop 8 ?bs) = step_flog2 m1 ar lane n f"
      by (simp only: step_flog2_def n_def tg(2))
    from r2 show thesis
    proof (cases rule: ns_write_cases [where s = ?t and lane = lane])
      case (fail ns' e)
      have "torn m1 (unat (?off + 8)) (drop 8 ?bs) (content ns')" using fail(3) ok(3) c1 by simp
      moreover have "8 dvd unat (?off + 8)" using tg(1,2,4) by simp
      ultimately have "content ns' = m1 \<or> content ns' = step_flog2 m1 ar lane n f"
        using aligned_torn [OF _ _ _ ne(2)] st2 by force
      then show thesis using fail(1,2) ok(1) that(2) by (auto simp: fu seqE_def)
    next
      case (ok ns')
      then show thesis using \<open>ns_write cb t lane (take 8 ?bs) ?off = _\<close> that(1) c1 st2 by (simp add: fu seqE_def)
    qed
  qed
qed
lemma write_block_spec:
  assumes ok: "btt_ok nssize (content (bt_ns s)) s" and lane: "lane < unat (bt_nlane s)"
    and ap: "lba_to_arena_lba s lba = Some (a, p)" "a < length (bt_arenas s)" "unat p < a_ext (the_arena s a)"
    and buf: "length buf = unat (bt_lbasize s)" and alive: "\<not> dead (bt_ns s)"
    and fl: "ar_flags (the_arena s a) AND BTTINFO_FLAG_ERROR_MASK = 0"
  defines "m \<equiv> content (bt_ns s)" and "ar \<equiv> the_arena s a"
  defines "fls \<equiv> runtime_flogs ar" and "q \<equiv> unat p"
  shows "\<exists>r s'. write_block cb s lane lba buf = Some (r, s') \<and>
    (case r of
       Inr _ \<Rightarrow> \<not> dead (bt_ns s') \<and> content (bt_ns s') = w4 m ar fls lane q buf \<and>
         s' = upd_arena (s\<lparr>bt_ns := bt_ns s'\<rparr>) a (lane_written lane (new_flog m ar fls lane q))
     | Inl e \<Rightarrow> dead (bt_ns s') \<and> crash_image m ar fls lane q buf (content (bt_ns s')))"
proof -
  let ?F = "unat (bt_nfree s)" and ?lbs = "unat (bt_lbasize s)"
  have ao: "arena_ok nssize ?F ?lbs m ar" unfolding m_def ar_def by (rule btt_ok_arena [OF ok ap(2)])
  then have g: "geom nssize ?F ?lbs ar" and mo: "media_ok ?F m ar fls" by (auto simp: arena_ok_def fls_def)
  have l: "lane < ?F" "0 < ?F" "bt_laidout s" using ok lane by (auto simp: btt_ok_def)
  have len: "length (ar_flogs ar) = ?F" using flog_target(6) [OF ao l(1)] .
  have pre: "write_pre nssize ?F ?lbs m ar fls lane q buf"
    using g mo l ap(3) buf by (simp add: write_pre_def ar_def q_def)
  note preD = write_preD [OF pre]
  have fl0: "fls ! lane = (fr_flog (ar_flogs ar ! lane), fr_next (ar_flogs ar ! lane))"
    using l len by (simp add: fls_def runtime_flogs_nth)
  let ?fe = "free_entry_of ar lane" and ?f = "new_flog m ar fls lane q"
  have fe: "?fe = fl_new_map ?f" "blk ?fe = blk (fl_old_map (fst (fls ! lane)))"
    by (simp_all add: free_entry_of_def new_flog_def fl0)
  have b: "blk ?fe < a_int ar" using phys_bound(2) [OF mo l(1)] fe(2) by simp
  note off = data_block_off_nat [OF g b]
  have mf: "a_map ar + 4 * a_ext ar \<le> nssize" "a_map ar \<le> nssize" using g by (auto simp: geom_def)
  have r1: "unat (data_block_off ar ?fe) + length buf \<le> nssize" using off mf(2) buf by simp
  have rtt: "\<not> (\<exists>i \<in> set [0..<unat (bt_nlane s)]. ar_rtt ar ! i = ?fe)"
  proof -
    have "ar_rtt ar ! i = BTT_MAP_ENTRY_ERROR" if "i < unat (bt_nlane s)" for i
      using ao that ok by (auto simp: arena_ok_def btt_ok_def)
    moreover have "?fe \<noteq> BTT_MAP_ENTRY_ERROR"
      using entry_normal(1) [of "fl_old_map (fr_flog (ar_flogs ar ! lane))"] entry_error(1) [of 0]
      by (auto simp: free_entry_of_def)
    ultimately show ?thesis by auto
  qed
  have wb: "write_block cb s lane lba buf =
     seqE (ns_write cb s lane buf (data_block_off ar ?fe)) (\<lambda>_ s.
     seqE (map_lock cb s lane a p) (\<lambda>old_entry s.
       case flog_update cb s lane a p old_entry ?fe of None \<Rightarrow> None
       | Some (Inl e, s) \<Rightarrow> Some (Inl e, map_abort s a p)
       | Some (Inr _, s) \<Rightarrow>
           (case map_unlock cb s lane a ?fe p of None \<Rightarrow> None
            | Some (Inr _, s) \<Rightarrow> Some (Inr (), s)
            | Some (Inl e, s) \<Rightarrow> map_option (\<lambda>(_, s). (Inl EIO, s)) (set_arena_error cb s a lane))))"
    unfolding write_block_def ar_def ap(1) using rtt [unfolded ar_def] fl by (simp add: Let_def)
  have w1: "store m (unat (data_block_off ar ?fe)) buf = w1 m ar fls lane buf"
    using off(1) fe(2) by (simp add: w1_def step_data_def)
  from r1 show ?thesis
  proof (cases rule: ns_write_cases [where s = s and lane = lane])
    case (fail ns' e)
    then have "torn m (unat (data_block_off ar ?fe)) buf (content ns')" using alive by (simp add: m_def)
    then have "crash_image m ar fls lane q buf (content ns')" using off(1) fe(2) by (simp add: crash_image_def)
    then show ?thesis using fail(1,2) by (simp add: wb seqE_def)
  next
    case (ok ns1)
    note data = this
    let ?s1 = "s\<lparr>bt_ns := ns1\<rparr>"
    have c1: "content ns1 = w1 m ar fls lane buf" using data(4) w1 by (simp add: m_def)
    have me1: "mapent (content (bt_ns ?s1)) (the_arena s a) (unat p) = mapent (content (bt_ns s)) (the_arena s a) (unat p)"
      using w1_ok(2) [OF pre preD(4)] c1 by (simp add: m_def ar_def q_def)
    let ?old = "fl_old_map ?f" and ?s2 = "set_map_lock ?s1 a p True"
    have ml: "map_lock cb ?s1 lane a p = Some (Inr ?old, ?s2)"
      using map_lock_spec [OF ao [unfolded m_def ar_def] refl l(2) me1 refl ap(2) ap(3)]
      by (simp add: new_flog_def m_def ar_def q_def)
    have s2: "ar_flogs (the_arena ?s2 a) = ar_flogs ar" "bt_ns ?s2 = ns1"
      using ap(2) by (simp_all add: set_map_lock_def btt_state ar_def)
    have fq: "\<lparr>fl_lba = p, fl_old_map = ?old, fl_new_map = ?fe, fl_seq = NSEQ (fl_seq (fr_flog (ar_flogs ar ! lane)))\<rparr> = ?f"
      using fe(1) by (simp add: new_flog_def fl0 q_def)
    have w23: "step_flog1 (content (bt_ns ?s2)) ar lane (fr_next (ar_flogs ar ! lane)) ?f = w2 m ar fls lane q buf"
      "step_flog2 (w2 m ar fls lane q buf) ar lane (fr_next (ar_flogs ar ! lane)) ?f = w3 m ar fls lane q buf"
      using c1 s2(2) by (simp_all add: w2_def w3_def fl0)
    have alive2: "\<not> dead (bt_ns ?s2)" using data(3) s2(2) by simp
    from ao l(1) s2(1) alive2 show ?thesis
    proof (cases rule: flog_update_cases [where t = ?s2 and a = a and ar = ar and lane = lane and lba = p and old = ?old
        and new = ?fe])
      case (fail ns' e)
      note fail = fail [unfolded fq w23]
      then have "crash_image m ar fls lane q buf (content ns')" using c1 s2(2) by (auto simp: crash_image_def)
      then show ?thesis using fail(1,2) data(1) ml
        by (simp add: wb seqE_def map_abort_def) (simp add: set_map_lock_def btt_state)
    next
      case (ok ns3)
      note ok = ok [unfolded fq w23]
      note fu = ok(1)
      let ?s3 = "upd_flog (?s2\<lparr>bt_ns := ns3\<rparr>) a lane (\<lambda>fr. fr\<lparr>fr_next := 1 - fr_next fr, fr_flog := ?f\<rparr>)"
      have s3: "bt_ns ?s3 = ns3" "ar_mapoff (the_arena ?s3 a) = ar_mapoff ar"
        unfolding upd_flog_def set_map_lock_def using ap(2) by (simp_all add: btt_state) (simp_all add: ar_def)
      have mo3: "map_entry_off (the_arena ?s3 a) p = map_entry_off ar p" by (simp only: map_entry_off_def s3(2))
      have mn: "unat (map_entry_off ar p) = a_map ar + 4 * q"
        using map_entry_off_nat [OF g, of p] ap(3) by (simp add: q_def ar_def)
      have r4: "unat (map_entry_off ar p) + length (u32_bytes ?fe) \<le> nssize" using mn mf(1) preD(4) by simp
      have w4: "store (content ns3) (unat (map_entry_off ar p)) (u32_bytes ?fe) = w4 m ar fls lane q buf"
        using ok(3) mn fe(1) by (simp add: w4_def step_map_def wr32_def)
      from r4 show ?thesis
      proof (cases rule: ns_write_cases [where s = ?s3 and lane = lane])
        case (fail ns' e)
        have "torn (content ns3) (unat (map_entry_off ar p)) (u32_bytes ?fe) (content ns')" using fail(3) ok(2) s3 by simp
        moreover have "unat (map_entry_off ar p) div 8 = (unat (map_entry_off ar p) + length (u32_bytes ?fe) - 1) div 8"
          using word_half [of "unat (map_entry_off ar p)"] mn g by (simp add: geom_def)
        moreover have "u32_bytes ?fe \<noteq> []" by (metis length_int_bytes(2) list.size(3) zero_neq_numeral)
        ultimately have "content ns' = content ns3 \<or> content ns' = w4 m ar fls lane q buf" using torn_word w4 by metis
        then have img: "crash_image m ar fls lane q buf (content ns')" using ok(3) by (auto simp: crash_image_def)
        let ?s4 = "set_map_lock (?s3\<lparr>bt_ns := ns'\<rparr>) a p False"
        have mu: "map_unlock cb ?s3 lane a ?fe p = Some (Inl e, ?s4)"
          unfolding map_unlock_def mo3 fail(1) by simp
        have s4: "bt_ns ?s4 = ns'" "a < length (bt_arenas ?s4)" "bt_laidout ?s4" "\<not> ar_info_lock (the_arena ?s4 a)"
          "ar_startoff (the_arena ?s4 a) = ar_startoff ar"
          unfolding upd_flog_def set_map_lock_def using ap(2) l(3) ao by (simp_all add: btt_state) (simp_all add: ar_def arena_ok_def)
        have "a_start (the_arena ?s4 a) + 4096 \<le> nssize" using g s4(5) by (auto simp: geom_def)
        from set_arena_error_dead [OF _ s4(2-4) this] fail(2) s4(1)
        obtain r s' where "set_arena_error cb ?s4 a lane = Some (r, s')" "dead (bt_ns s')" "content (bt_ns s') = content ns'" by metis
        then show ?thesis using data(1) ml ok(1) mu img by (simp add: wb seqE_def)
      next
        case (ok ns')
        let ?s4 = "set_map_lock (?s3\<lparr>bt_ns := ns'\<rparr>) a p False"
        have mu: "map_unlock cb ?s3 lane a ?fe p = Some (Inr (), ?s4)"
          unfolding map_unlock_def mo3 ok(1) by simp
        let ?k = "unat (get_map_lock_num p (bt_nfree s))"
        have "(ar_map_locks ar)[?k := False] = ar_map_locks ar"
          using ao map_lock_index [OF l(2)] by (simp add: arena_ok_def list_update_same_conv)
        then have "?s4 = upd_arena (s\<lparr>bt_ns := ns'\<rparr>) a (lane_written lane ?f)"
          unfolding upd_flog_def set_map_lock_def using ap(2)
          by (simp add: btt_state) (rule upd_arena_cong, simp, rule arena.equality, simp_all add: lane_written_def ar_def btt_state)
        moreover have "content ns' = w4 m ar fls lane q buf" using ok(4) w4 s3(1) by simp
        ultimately show ?thesis using data(1) ml fu mu ok(3)
          by (simp add: wb seqE_def btt_state)
      qed
    qed
  qed
qed
end

section \<open>Changes inside one arena\<close>

definition same_geom :: "arena \<Rightarrow> arena \<Rightarrow> bool" where
  "same_geom ar ar' \<longleftrightarrow>
     ar_external_nlba ar' = ar_external_nlba ar \<and> ar_internal_nlba ar' = ar_internal_nlba ar \<and>
     ar_internal_lbasize ar' = ar_internal_lbasize ar \<and> ar_startoff ar' = ar_startoff ar \<and>
     ar_dataoff ar' = ar_dataoff ar \<and> ar_mapoff ar' = ar_mapoff ar \<and> ar_flogoff ar' = ar_flogoff ar"

lemma same_geom_cong:
  assumes "same_geom ar ar'"
  shows "geom sz F lbs ar' = geom sz F lbs ar" "mapent m ar' p = mapent m ar p" "block_of lbs m ar' p = block_of lbs m ar p"
    "media_ok F m ar' fls = media_ok F m ar fls"
  using assms by (simp_all add: same_geom_def geom_def mapent_def block_of_def media_ok_def phys_def pairs_ok_def Let_def)

text \<open>Whether a change stays inside an arena.\<close>

definition inside :: "nat \<Rightarrow> arena \<Rightarrow> mem \<Rightarrow> mem \<Rightarrow> bool" where
  "inside F ar m m' \<longleftrightarrow> (\<forall>x. x < a_data ar \<or> a_flog ar + 64 * F \<le> x \<longrightarrow> m' x = m x)"

lemma inside_trans: "inside F ar m m' \<Longrightarrow> inside F ar m' m'' \<Longrightarrow> inside F ar m m''"
  by (simp add: inside_def)

lemma lba_walk_cong:
  assumes "map ar_external_nlba ars = map ar_external_nlba ars'"
  shows "lba_walk ars k lba = lba_walk ars' k lba"
  using assms
proof (induction ars arbitrary: ars' k lba)
  case (Cons ar ars)
  then show ?case by (cases ars') auto
qed simp

lemma ext_upd_arena:
  assumes "a < length (bt_arenas s)" and "same_geom (the_arena s a) (f (the_arena s a))"
  shows "map ar_external_nlba (bt_arenas (upd_arena s a f)) = map ar_external_nlba (bt_arenas s)"
  using assms by (intro nth_equalityI) (auto simp: upd_arena_def nth_list_update same_geom_def the_arena_def)

lemma outside_arena:
  assumes ok: "btt_ok sz m s" and a: "a < length (bt_arenas s)"
    and i: "inside (unat (bt_nfree s)) (the_arena s a) m m'" and b: "b < length (bt_arenas s)" "b \<noteq> a"
    and x: "a_start (the_arena s b) \<le> x" "x < a_flog (the_arena s b) + 64 * unat (bt_nfree s)"
  shows "m' x = m x"
proof -
  let ?F = "unat (bt_nfree s)"
  have order: "a_flog (the_arena s x) + 64 * ?F \<le> a_start (the_arena s y)" if "x < y" "y < length (bt_arenas s)" for x y
    using ok that by (simp add: btt_ok_def)
  have "a_start (the_arena s a) + 4096 \<le> a_data (the_arena s a)"
    using btt_ok_arena [OF ok a] by (auto simp: arena_ok_def geom_def)
  then have "x < a_data (the_arena s a) \<or> a_flog (the_arena s a) + 64 * ?F \<le> x"
    using order [OF _ b(1), of a] order [OF _ a, of b] b(2) x by (cases "a < b") auto
  then show ?thesis using i by (auto simp: inside_def)
qed

lemma others_ok:
  assumes ok: "btt_ok sz m s" and a: "a < length (bt_arenas s)"
    and i: "inside (unat (bt_nfree s)) (the_arena s a) m m'" and b: "b < length (bt_arenas s)" "b \<noteq> a"
  shows "arena_ok sz (unat (bt_nfree s)) (unat (bt_lbasize s)) m' (the_arena s b)"
    "p < a_ext (the_arena s b) \<Longrightarrow>
      block_of (unat (bt_lbasize s)) m' (the_arena s b) p = block_of (unat (bt_lbasize s)) m (the_arena s b) p"
proof -
  note ao = btt_ok_arena [OF ok b(1)]
  then have gm: "geom sz (unat (bt_nfree s)) (unat (bt_lbasize s)) (the_arena s b)"
    "media_ok (unat (bt_nfree s)) m (the_arena s b) (runtime_flogs (the_arena s b))" by (auto simp: arena_ok_def)
  note f = arena_frame [OF gm outside_arena [OF ok a i b]]
  from f(1) ao show "arena_ok sz (unat (bt_nfree s)) (unat (bt_lbasize s)) m' (the_arena s b)" by (simp add: arena_ok_def)
  from f(2) show "p < a_ext (the_arena s b) \<Longrightarrow>
      block_of (unat (bt_lbasize s)) m' (the_arena s b) p = block_of (unat (bt_lbasize s)) m (the_arena s b) p" .
qed

lemma btt_ok_change:
  assumes ok: "btt_ok sz m s" and a: "a < length (bt_arenas s)" and g: "same_geom (the_arena s a) (f (the_arena s a))"
    and i: "inside (unat (bt_nfree s)) (the_arena s a) m m'"
    and ar: "arena_ok sz (unat (bt_nfree s)) (unat (bt_lbasize s)) m' (f (the_arena s a))"
  shows "btt_ok sz m' (upd_arena s a f)"
    and "lba_to_arena_lba (upd_arena s a f) = lba_to_arena_lba s"
    and "b < length (bt_arenas s) \<Longrightarrow> b \<noteq> a \<Longrightarrow> p < a_ext (the_arena s b) \<Longrightarrow>
      block_of (unat (bt_lbasize s)) m' (the_arena s b) p = block_of (unat (bt_lbasize s)) m (the_arena s b) p"
proof -
  let ?s = "upd_arena s a f" and ?F = "unat (bt_nfree s)" and ?lbs = "unat (bt_lbasize s)"
  note e = ext_upd_arena [where f = f, OF a g]
  show lba: "lba_to_arena_lba ?s = lba_to_arena_lba s"
    using lba_walk_cong [of "take (unat (bt_narena s)) (bt_arenas ?s)" "take (unat (bt_narena s)) (bt_arenas s)"] e
    by (intro ext) (simp add: lba_to_arena_lba_def btt_state take_map [symmetric])
  show "block_of ?lbs m' (the_arena s b) p = block_of ?lbs m (the_arena s b) p"
    if "b < length (bt_arenas s)" "b \<noteq> a" "p < a_ext (the_arena s b)" for b p
    using others_ok(2) [OF ok a i that] .
  note others_ok(1) [OF ok a i]
  then have "\<forall>b < length (bt_arenas ?s). arena_ok sz ?F ?lbs m' (the_arena ?s b)"
    using ar a by (simp add: btt_state)
  moreover have "a_flog (the_arena ?s x) = a_flog (the_arena s x)" "a_start (the_arena ?s x) = a_start (the_arena s x)" for x
    using g a by (simp_all add: btt_state same_geom_def)
  moreover have "map a_ext (bt_arenas ?s) = map a_ext (bt_arenas s)" using arg_cong [OF e, of "map unat"] by (simp add: comp_def)
  ultimately show "btt_ok sz m' ?s" using ok by (simp add: btt_ok_def btt_state)
qed

text \<open>So a change of one block of one arena is a change of one external block.\<close>

lemma btt_view_change:
  assumes ok: "btt_ok sz m s" and ap: "lba_to_arena_lba s lba = Some (a, p)" and lba: "\<not> invalid_lba s lba"
    and g: "same_geom (the_arena s a) (f (the_arena s a))"
    and i: "inside (unat (bt_nfree s)) (the_arena s a) m m'"
    and ar: "arena_ok sz (unat (bt_nfree s)) (unat (bt_lbasize s)) m' (f (the_arena s a))"
    and new: "block_of (unat (bt_lbasize s)) m' (the_arena s a) (unat p) = b"
    and other: "\<And>q. q < a_ext (the_arena s a) \<Longrightarrow> q \<noteq> unat p \<Longrightarrow>
      block_of (unat (bt_lbasize s)) m' (the_arena s a) q = block_of (unat (bt_lbasize s)) m (the_arena s a) q"
    and x: "\<not> invalid_lba s x"
  shows "btt_view m' (upd_arena s a f) x = (if x = lba then b else btt_view m s x)"
proof -
  let ?lbs = "unat (bt_lbasize s)"
  have a: "a < length (bt_arenas s)" "unat p < a_ext (the_arena s a)"
    using lba_to_arena [OF ok lba] ap by (metis Pair_inject option.inject)+
  note ch = btt_ok_change [where f = f, OF ok a(1) g i ar]
  obtain c q where cq: "lba_to_arena_lba s x = Some (c, q)" "c < length (bt_arenas s)" "unat q < a_ext (the_arena s c)"
    using lba_to_arena [OF ok x] by metis
  have "btt_view m' (upd_arena s a f) x = block_of ?lbs m' (the_arena s c) (unat q)"
    using cq a(1) g ch(2) same_geom_cong(3) [OF g] by (auto simp: btt_view_def btt_state)
  also have "\<dots> = (if x = lba then b else btt_view m s x)"
  proof (cases "c = a \<and> q = p")
    case True
    then have "x = lba" using lba_to_arena_inj [OF ok x lba] cq(1) ap by simp
    then show ?thesis using True new by simp
  next
    case False
    then have "x \<noteq> lba" using cq(1) ap by auto
    moreover have "block_of ?lbs m' (the_arena s c) (unat q) = block_of ?lbs m (the_arena s c) (unat q)"
    proof (cases "c = a")
      case True
      then have "unat q \<noteq> unat p" using False by (auto simp: word_unat_eq_iff)
      then show ?thesis using other cq(3) True by simp
    qed (use ch(3) [OF cq(2) _ cq(3)] in simp)
    ultimately show ?thesis using cq(1) by (simp add: btt_view_def)
  qed
  finally show ?thesis .
qed

section \<open>A write as a change of the abstract state\<close>

lemma step_map_inside:
  assumes "geom sz F lbs ar" and "p < a_ext ar"
  shows "inside F ar m (step_map m ar p e)"
  using assms by (auto simp: inside_def geom_def intro!: step_map_other)

lemma w1_inside:
  assumes "write_pre sz F lbs m ar fls l p buf"
  shows "inside F ar m (w1 m ar fls l buf)"
proof -
  note pre = write_preD [OF assms]
  note o = data_block_off_nat(2) [OF pre(1) phys_bound(2) [OF pre(2,3)]]
  have "a_map ar \<le> a_flog ar" using pre(1) by (simp add: geom_def)
  then show ?thesis using o pre(5) by (auto simp: inside_def w1_def step_data_def intro!: store_out)
qed

lemma w4_inside:
  assumes "write_pre sz F lbs m ar fls l p buf"
  shows "inside F ar m (w4 m ar fls l p buf)"
proof -
  note pre = write_preD [OF assms]
  have n: "snd (fls ! l) < 2" using pre by (auto simp: media_ok_def pairs_ok_def flog_pair_ok_def Let_def)
  have d: "a_data ar \<le> a_flog ar" using pre(1) by (simp add: geom_def)
  have "inside F ar (w1 m ar fls l buf) (w2 m ar fls l p buf)"
    using pre(3) n d by (auto simp: inside_def w2_def step_flog1_def intro!: store_out)
  moreover have "inside F ar (w2 m ar fls l p buf) (w3 m ar fls l p buf)"
    using pre(3) n d by (auto simp: inside_def w3_def step_flog2_def intro!: store_out)
  moreover have "inside F ar (w3 m ar fls l p buf) (w4 m ar fls l p buf)"
    unfolding w4_def by (rule step_map_inside [OF pre(1,4)])
  ultimately show ?thesis using w1_inside [OF assms] inside_trans by blast
qed

lemma runtime_flogs_written:
  assumes "l < length (ar_flogs ar)"
  shows "runtime_flogs (lane_written l (new_flog m ar (runtime_flogs ar) l p) ar) = new_flogs m ar (runtime_flogs ar) l p"
  using assms by (intro nth_equalityI) (auto simp: runtime_flogs_def lane_written_def new_flogs_def nth_list_update)

lemma written_arena_ok:
  assumes "arena_ok sz F lbs m ar" and "write_pre sz F lbs m ar (runtime_flogs ar) l p buf"
  defines "fls \<equiv> runtime_flogs ar"
  shows "arena_ok sz F lbs (w4 m ar fls l p buf) (lane_written l (new_flog m ar fls l p) ar)"
    and "same_geom ar (lane_written l f ar)"
proof -
  note pre = write_preD [OF assms(2)]
  show g: "same_geom ar (lane_written l f ar)" for f by (simp add: same_geom_def lane_written_def)
  let ?ar = "lane_written l (new_flog m ar fls l p) ar"
  have "media_ok F (w4 m ar fls l p buf) ?ar (runtime_flogs ?ar)"
    using w4_ok(1) [OF assms(2)] runtime_flogs_written pre(3,6) same_geom_cong(4) [OF g] by (simp add: fls_def)
  moreover have "geom sz F lbs ?ar" using pre(1) same_geom_cong(1) [OF g] by simp
  moreover have "fr_entries (ar_flogs ?ar ! i) = fr_entries (ar_flogs ar ! i)" if "i < F" for i
    using pre(3,6) that by (auto simp: lane_written_def nth_list_update)
  moreover have "ar_flogoff ?ar = ar_flogoff ar" "ar_rtt ?ar = ar_rtt ar" "ar_map_locks ?ar = ar_map_locks ar" "ar_info_lock ?ar = ar_info_lock ar"
    by (simp_all add: lane_written_def)
  ultimately show "arena_ok sz F lbs (w4 m ar fls l p buf) ?ar" using assms(1) by (simp add: arena_ok_def del: of_nat_mult)
qed

text \<open>The effect of the four steps on handle and media.\<close>

lemma write_effect:
  assumes ok: "btt_ok sz m s" and lane: "lane < unat (bt_nlane s)" and lba: "\<not> invalid_lba s lba"
    and ap: "lba_to_arena_lba s lba = Some (a, p)" and buf: "length buf = unat (bt_lbasize s)"
  defines "ar \<equiv> the_arena s a"
  defines "fls \<equiv> runtime_flogs ar"
  defines "m' \<equiv> w4 m ar fls lane (unat p) buf"
    and "s' \<equiv> upd_arena s a (lane_written lane (new_flog m ar fls lane (unat p)))"
  shows "btt_ok sz m' s'" and "\<not> invalid_lba s x \<Longrightarrow> btt_view m' s' x = (if x = lba then BData buf else btt_view m s x)"
    and "write_pre sz (unat (bt_nfree s)) (unat (bt_lbasize s)) m ar fls lane (unat p) buf"
proof -
  let ?F = "unat (bt_nfree s)" and ?lbs = "unat (bt_lbasize s)"
  have a: "a < length (bt_arenas s)" "unat p < a_ext (the_arena s a)"
    using lba_to_arena [OF ok lba] ap by (metis Pair_inject option.inject)+
  note ao = btt_ok_arena [OF ok a(1)]
  have l: "lane < ?F" using ok lane by (auto simp: btt_ok_def)
  show pre: "write_pre sz ?F ?lbs m ar fls lane (unat p) buf"
    using ao l a(2) buf by (simp add: write_pre_def ar_def fls_def arena_ok_def)
  note w = written_arena_ok [OF ao pre [unfolded fls_def ar_def]]
  let ?f = "lane_written lane (new_flog m (the_arena s a) (runtime_flogs (the_arena s a)) lane (unat p))"
  note i = w4_inside [OF pre [unfolded fls_def ar_def]] and v = w4_ok(2,3) [OF pre [unfolded fls_def ar_def]]
  show "btt_ok sz m' s'" unfolding m'_def s'_def fls_def ar_def by (rule btt_ok_change(1) [where f = ?f, OF ok a(1) w(2) i w(1)])
  show "btt_view m' s' x = (if x = lba then BData buf else btt_view m s x)" if "\<not> invalid_lba s x"
    unfolding m'_def s'_def fls_def ar_def by (rule btt_view_change [where f = ?f, OF ok ap lba w(2) i w(1) v that])
qed

end
