(* ===== verification/Btt_Recovery.thy ===== *)
theory Btt_Recovery
  imports Btt_Ops
begin

text \<open>
  Opening a block translation table. Loading the flogs of an arena rebuilds its run-time state and
  finishes the writes that the flogs record; opening formatted media brings back the handle that
  wrote it. Together with the crash images of a write this gives the atomicity of writes: after a
  failure at any point the table reopens with either the old or the new contents of the block.
\<close>

unbundle bit_operations_syntax

section \<open>Loading a flog pair\<close>

lemma seqE_simps:
  "seqE None f = None" "seqE (Some (Inl e, s)) f = Some (Inl e, s)" "seqE (Some (Inr x, s)) f = f x s"
  by (simp_all add: seqE_def)

lemma flog_pair_size: "roundup 32 BTT_FLOG_PAIR_ALIGN = (64 :: u64)"
  by (simp add: roundup_def BTT_FLOG_PAIR_ALIGN_def)

definition loaded :: "arena \<Rightarrow> nat \<Rightarrow> btt_flog \<times> nat \<Rightarrow> flog_runtime" where
  "loaded ar i f = \<lparr>fr_flog = fst f, fr_entries = (ar_flogoff ar + of_nat (64 * i), ar_flogoff ar + of_nat (64 * i) + 16),
     fr_next = snd f\<rparr>"

lemma flog_runtime_full: "fr\<lparr>fr_entries := e, fr_flog := f, fr_next := n\<rparr> = \<lparr>fr_flog = f, fr_entries = e, fr_next = n\<rparr>"
  for fr :: flog_runtime
  by (rule flog_runtime.equality) simp_all

lemma upd_flog_twice:
  "a < length (bt_arenas s) \<Longrightarrow> i < length (ar_flogs (the_arena s a)) \<Longrightarrow>
   upd_flog (upd_flog s a i f) a i g = upd_flog s a i (\<lambda>fr. g (f fr))"
  unfolding upd_flog_def by (simp add: btt_state) (rule upd_arena_cong, simp, rule arena.equality, simp_all)

context reliable_namespace
begin

lemma ns_write_reliable:
  assumes "unat off + length bs \<le> nssize"
  obtains ns' where "ns_write cb s lane bs off = Some (Inr (), s\<lparr>bt_ns := ns'\<rparr>)" "content ns' = store (content (bt_ns s)) (unat off) bs"
proof (cases rule: ns_write_cases [where s = s and lane = lane and thesis = thesis, OF assms])
  case (2 ns' e)
  then show ?thesis using nswrite_ok [OF assms, of "bt_ns s" lane] by (simp add: ns_write_def split: prod.splits option.splits)
qed (use that in blast)

lemma read_flog_pair_spec:
  assumes a: "a < length (bt_arenas t)" and i: "i < F" "length (ar_flogs (the_arena t a)) = F"
    and g: "geom nssize F lbs (the_arena t a)" and lane: "lane < unat (bt_nfree t)"
    and nlba: "a_ext (the_arena t a) \<le> unat (bt_nlba t)"
    and pr: "pairs_ok (content (bt_ns t)) (the_arena t a) fls" "i < length fls"
  defines "ar \<equiv> the_arena t a" and "off \<equiv> ar_flogoff (the_arena t a) + of_nat (64 * i)"
  shows "\<exists>ns'. read_flog_pair cb t lane a off i = Some (Inr (), upd_flog (t\<lparr>bt_ns := ns'\<rparr>) a i (\<lambda>_. loaded ar i (fls ! i))) \<and>
    content ns' = recover1 ar (fst (fls ! i)) (content (bt_ns t))"
proof -
  let ?m = "content (bt_ns t)" and ?cur = "fst (fls ! i)" and ?n = "snd (fls ! i)"
  let ?f0 = "flog_at ?m (a_flog ar + 64 * i)" and ?f1 = "flog_at ?m (a_flog ar + 64 * i + 16)"
  have p: "flog_pair_ok ?f0 ?f1 ?cur ?n" "unat (fl_lba ?f0) < a_ext ar" "unat (fl_lba ?f1) < a_ext ar"
    using pr by (auto simp: pairs_ok_def Let_def ar_def)
  have cl: "unat (fl_lba ?cur) < a_ext ar" using pairs_ok_lba [OF pr] by (simp add: ar_def)
  note off = flog_off_nat(1) [OF g i(1)]
  have b: "a_flog ar + 64 * i + 64 \<le> nssize" "a_map ar + 4 * a_ext ar \<le> nssize" "0 < a_flog ar" using g i(1) by (auto simp: geom_def ar_def)
  have off0: "off \<noteq> 0" using off b(3) by (auto simp: off_def ar_def simp del: of_nat_mult)
  let ?t1 = "upd_flog t a i (fr_entries_update (\<lambda>_. (off, off + 16)))"
  have t1: "bt_ns ?t1 = bt_ns t" "bt_nfree ?t1 = bt_nfree t" "bt_nlba ?t1 = bt_nlba t" by (simp_all add: upd_flog_def btt_state)
  have rd: "ns_read cb ?t1 lane 32 off = Some (Inr (bytes_at ?m (a_flog ar + 64 * i) 32), ?t1)"
    unfolding ns_read_def t1(1) using off b(1) nsread_law [of off 32 "bt_ns t" lane] by (simp add: off_def ar_def del: of_nat_mult)
  have split: "btt_flog_convert2h (take 16 (bytes_at ?m (a_flog ar + 64 * i) 32)) = ?f0"
    "btt_flog_convert2h (drop 16 (bytes_at ?m (a_flog ar + 64 * i) 32)) = ?f1"
    by (simp_all add: take_bytes_at drop_bytes_at flog_convert_bytes_at)
  have val: "\<not> invalid_lba ?t1 (ucast (fl_lba ?f0))" "\<not> invalid_lba ?t1 (ucast (fl_lba ?f1))"
    using p(2,3) nlba by (auto simp: invalid_lba_def t1 word_le_nat_alt ar_def)
  let ?t2 = "upd_flog ?t1 a i (\<lambda>fr. fr\<lparr>fr_flog := ?cur, fr_next := ?n\<rparr>)"
  have t2: "?t2 = upd_flog t a i (\<lambda>_. loaded ar i (fls ! i))"
    using a i by (subst upd_flog_twice) (simp_all add: flog_runtime_full loaded_def off_def ar_def)
  have unf: "read_flog_pair cb t lane a off i =
     (if fl_old_map ?cur = fl_new_map ?cur then Some (Inr (), ?t2)
      else seqE (ns_read cb ?t2 lane 4 (map_entry_off (the_arena ?t2 a) (fl_lba ?cur))) (\<lambda>bs s.
        let e = le32toh bs; e = (if map_entry_is_initial e then fl_lba ?cur OR BTT_MAP_ENTRY_NORMAL else e)
        in if fl_new_map ?cur \<noteq> e \<and> fl_old_map ?cur = e
           then ns_write cb s lane (u32_bytes (fl_new_map ?cur)) (map_entry_off (the_arena ?t2 a) (fl_lba ?cur))
           else Some (Inr (), s)))"
  proof (cases "fls ! i")
    case (Pair c n)
    show ?thesis unfolding Pair fst_conv snd_conv
      using lane off0 val rd flog_pair_ok_get [OF p(1)] by (simp add: read_flog_pair_def Let_def t1 seqE_simps split Pair)
  qed
  have mo: "map_entry_off (the_arena ?t2 a) (fl_lba ?cur) = map_entry_off ar (fl_lba ?cur)"
    using a by (simp add: upd_flog_def btt_state map_entry_off_def ar_def)
  have g': "geom nssize F lbs ar" using g by (simp add: ar_def)
  note mn = map_entry_off_nat [OF g' cl]
  let ?q = "unat (fl_lba ?cur)"
  have rd2: "ns_read cb ?t2 lane 4 (map_entry_off ar (fl_lba ?cur)) = Some (Inr (bytes_at ?m (a_map ar + 4 * ?q) 4), ?t2)"
    using nsread_map [OF g' cl] by (simp add: ns_read_def upd_flog_def btt_state)
  have e: "le32toh (bytes_at ?m (a_map ar + 4 * ?q) 4) = mapent ?m ar ?q" by (simp add: le32toh_bytes_at mapent_def)
  let ?e = "effective ?q (mapent ?m ar ?q)"
  have ee: "(if map_entry_is_initial (mapent ?m ar ?q) then fl_lba ?cur OR BTT_MAP_ENTRY_NORMAL else mapent ?m ar ?q) = ?e"
    by (simp add: effective_def)
  have unf2: "read_flog_pair cb t lane a off i =
     (if fl_old_map ?cur \<noteq> fl_new_map ?cur \<and> fl_new_map ?cur \<noteq> ?e \<and> fl_old_map ?cur = ?e
      then ns_write cb ?t2 lane (u32_bytes (fl_new_map ?cur)) (map_entry_off ar (fl_lba ?cur)) else Some (Inr (), ?t2))"
    unfolding unf mo rd2 seqE_simps Let_def e ee by auto
  show ?thesis
  proof (cases "fl_old_map ?cur \<noteq> fl_new_map ?cur \<and> fl_new_map ?cur \<noteq> ?e \<and> fl_old_map ?cur = ?e")
    case True
    have "unat (map_entry_off ar (fl_lba ?cur)) + length (u32_bytes (fl_new_map ?cur)) \<le> nssize" using mn b(2) cl by simp
    from ns_write_reliable [OF this] obtain ns' where
      w: "ns_write cb ?t2 lane (u32_bytes (fl_new_map ?cur)) (map_entry_off ar (fl_lba ?cur)) = Some (Inr (), ?t2\<lparr>bt_ns := ns'\<rparr>)"
      "content ns' = store (content (bt_ns ?t2)) (unat (map_entry_off ar (fl_lba ?cur))) (u32_bytes (fl_new_map ?cur))" by metis
    have "content ns' = recover1 ar ?cur ?m"
      using True w(2) mn by (auto simp: recover1_def Let_def step_map_def wr32_def upd_flog_def btt_state)
    moreover have "?t2\<lparr>bt_ns := ns'\<rparr> = upd_flog (t\<lparr>bt_ns := ns'\<rparr>) a i (\<lambda>_. loaded ar i (fls ! i))"
      unfolding t2 by (simp add: upd_flog_def btt_state)
    ultimately show ?thesis unfolding unf2 if_P [OF True] w(1) by (intro exI [of _ ns']) simp
  next
    case False
    have "recover1 ar ?cur ?m = ?m" using False by (auto simp: recover1_def Let_def)
    then show ?thesis unfolding unf2 if_not_P [OF False] t2 by (intro exI [of _ "bt_ns t"]) simp
  qed
qed

lemma read_flogs_loop_spec:
  assumes "a < length (bt_arenas t)" and "i \<le> F" and "length fls = F" and "F \<le> unat (bt_nfree t)" and "lane < unat (bt_nfree t)"
    and "geom nssize F lbs ar" and "a_ext ar \<le> unat (bt_nlba t)" and "pairs_ok (content (bt_ns t)) ar fls"
    and "the_arena t a = ar\<lparr>ar_flogs := xs @ replicate (F - i) zero_flog_runtime\<rparr>" and "length xs = i"
  shows "\<exists>ns'. read_flogs_loop cb t lane a [i..<F] (ar_flogoff ar + of_nat (64 * i)) =
      Some (Inr (), upd_arena (t\<lparr>bt_ns := ns'\<rparr>) a (\<lambda>_. ar\<lparr>ar_flogs := xs @ map (\<lambda>j. loaded ar j (fls ! j)) [i..<F]\<rparr>)) \<and>
    content ns' = fold (\<lambda>j. recover1 ar (fst (fls ! j))) [i..<F] (content (bt_ns t))"
  using assms
proof (induction "F - i" arbitrary: i t xs)
  case 0
  then have "upd_arena t a (\<lambda>_. ar\<lparr>ar_flogs := xs\<rparr>) = t" by (intro upd_arena_id) simp_all
  then show ?case using 0 by (intro exI [of _ "bt_ns t"]) simp
next
  case (Suc k)
  then have i: "i < F" by simp
  note pm = Suc.prems
  let ?ar = "the_arena t a" and ?off = "ar_flogoff ar + of_nat (64 * i)"
  have sg: "same_geom ar ?ar" using pm(9) by (simp add: same_geom_def)
  have g: "geom nssize F lbs ?ar" using pm(6) same_geom_cong(1) [OF sg] by simp
  have prs: "pairs_ok (content (bt_ns t)) ?ar fls" using pm(8) pm(9) by (simp add: pairs_ok_def)
  have off: "ar_flogoff ?ar = ar_flogoff ar" "a_ext ?ar = a_ext ar" "ar_mapoff ?ar = ar_mapoff ar" using pm(9) by simp_all
  have "length (ar_flogs ?ar) = F" using pm(9,10) i by simp
  from read_flog_pair_spec [OF pm(1) i this g pm(5) _ prs] pm(3,7) i off obtain ns1 where
    r: "read_flog_pair cb t lane a ?off i = Some (Inr (), upd_flog (t\<lparr>bt_ns := ns1\<rparr>) a i (\<lambda>_. loaded ?ar i (fls ! i)))"
    and c1: "content ns1 = recover1 ?ar (fst (fls ! i)) (content (bt_ns t))" by (auto simp del: of_nat_mult)
  let ?t = "upd_flog (t\<lparr>bt_ns := ns1\<rparr>) a i (\<lambda>_. loaded ?ar i (fls ! i))"
  have rc: "recover1 ?ar f m = recover1 ar f m" for f m
    unfolding recover1_def step_map_def same_geom_cong(2) [OF sg] off(3) ..
  have ld: "loaded ?ar i f = loaded ar i f" for f using off by (simp add: loaded_def)
  have suc: "ar_flogs ?ar = xs @ zero_flog_runtime # replicate (F - Suc i) zero_flog_runtime"
    using pm(9) i by (simp add: replicate_Suc [symmetric] Suc_diff_Suc del: replicate_Suc)
  have t': "the_arena ?t a = ar\<lparr>ar_flogs := (xs @ [loaded ar i (fls ! i)]) @ replicate (F - Suc i) zero_flog_runtime\<rparr>"
  proof -
    have "the_arena ?t a = ?ar\<lparr>ar_flogs := (ar_flogs ?ar)[i := loaded ar i (fls ! i)]\<rparr>"
      using pm(1) by (simp add: upd_flog_def btt_state ld)
    also have "\<dots> = ar\<lparr>ar_flogs := (ar_flogs ?ar)[i := loaded ar i (fls ! i)]\<rparr>" by (subst pm(9)) simp
    also have "(ar_flogs ?ar)[i := loaded ar i (fls ! i)] = (xs @ [loaded ar i (fls ! i)]) @ replicate (F - Suc i) zero_flog_runtime"
      unfolding suc pm(10) [symmetric] by simp
    finally show ?thesis .
  qed
  have pr1: "pairs_ok (content (bt_ns ?t)) ar fls"
  proof -
    have "unat (fl_lba (fst (fls ! i))) < a_ext ar" using pairs_ok_lba [OF pm(8)] i pm(3) by simp
    then have "x \<ge> a_flog ar \<Longrightarrow> content ns1 x = content (bt_ns t) x" for x
      unfolding c1 rc using pm(6) by (auto simp: recover1_def Let_def geom_def intro!: step_map_other)
    then show ?thesis using pm(8) pairs_ok_cong [of ar fls "content ns1" "content (bt_ns t)"] by (simp add: upd_flog_def btt_state)
  qed
  have hyp: "k = F - Suc i" "a < length (bt_arenas ?t)" "Suc i \<le> F" "length fls = F" "F \<le> unat (bt_nfree ?t)" "lane < unat (bt_nfree ?t)"
    "a_ext ar \<le> unat (bt_nlba ?t)" "length (xs @ [loaded ar i (fls ! i)]) = Suc i"
    using pm i Suc.hyps(2) by (simp_all add: upd_flog_def btt_state)
  from Suc.hyps(1) [OF hyp(1-6) pm(6) hyp(7) pr1 t' hyp(8)] obtain ns' where
    l: "read_flogs_loop cb ?t lane a [Suc i..<F] (ar_flogoff ar + of_nat (64 * Suc i)) =
      Some (Inr (), upd_arena (?t\<lparr>bt_ns := ns'\<rparr>) a (\<lambda>_. ar\<lparr>ar_flogs := (xs @ [loaded ar i (fls ! i)]) @ map (\<lambda>j. loaded ar j (fls ! j)) [Suc i..<F]\<rparr>))"
    and c: "content ns' = fold (\<lambda>j. recover1 ar (fst (fls ! j))) [Suc i..<F] (content (bt_ns ?t))" by blast
  have up: "[i..<F] = i # [Suc i..<F]" using i by (rule upt_conv_Cons)
  have o2: "?off + roundup 32 BTT_FLOG_PAIR_ALIGN = ar_flogoff ar + of_nat (64 * Suc i)"
    unfolding flog_pair_size by (simp add: algebra_simps)
  have ups: "upd_arena (?t\<lparr>bt_ns := ns'\<rparr>) a h = upd_arena (t\<lparr>bt_ns := ns'\<rparr>) a h" if "h = (\<lambda>_. x)" for h x
    using pm(1) that by (simp add: upd_flog_def btt_state)
  have "read_flogs_loop cb t lane a [i..<F] ?off =
      Some (Inr (), upd_arena (t\<lparr>bt_ns := ns'\<rparr>) a (\<lambda>_. ar\<lparr>ar_flogs := xs @ map (\<lambda>j. loaded ar j (fls ! j)) [i..<F]\<rparr>))"
    unfolding up read_flogs_loop.simps(2) r option.case prod.case sum.case o2 l by (simp add: ups)
  moreover have "content (bt_ns ?t) = recover1 ar (fst (fls ! i)) (content (bt_ns t))" using c1 rc by (simp add: upd_flog_def btt_state)
  ultimately show ?case using c up by (intro exI [of _ ns']) simp
qed
end

section \<open>Loading an arena\<close>

text \<open>The fields of an arena that come from its info block.\<close>

definition describes :: "btt_info \<Rightarrow> arena \<Rightarrow> bool" where
  "describes i ar \<longleftrightarrow>
     ar_flags ar = bi_flags i \<and> ar_external_nlba ar = bi_external_nlba i \<and>
     ar_internal_lbasize ar = bi_internal_lbasize i \<and> ar_internal_nlba ar = bi_internal_nlba i \<and>
     ar_dataoff ar = ar_startoff ar + bi_dataoff i \<and> ar_mapoff ar = ar_startoff ar + bi_mapoff i \<and>
     ar_flogoff ar = ar_startoff ar + bi_flogoff i \<and> ar_nextoff ar = ar_startoff ar + bi_nextoff i"

text \<open>The run-time state that is built for an arena.\<close>

definition quiet :: "nat \<Rightarrow> arena \<Rightarrow> bool" where
  "quiet F ar \<longleftrightarrow> ar_flogs ar = map (\<lambda>j. loaded ar j (runtime_flogs ar ! j)) [0..<F] \<and> length (ar_flogs ar) = F \<and>
     ar_rtt ar = replicate F BTT_MAP_ENTRY_ERROR \<and> ar_map_locks ar = replicate F False \<and> \<not> ar_info_lock ar"

lemma arena_ok_quiet: "arena_ok sz F lbs m ar \<Longrightarrow> quiet F ar"
  by (auto simp: arena_ok_def quiet_def media_ok_def loaded_def runtime_flogs_def simp del: of_nat_mult
      intro!: nth_equalityI flog_runtime.equality)

lemma fold_upt_nth: "fold (\<lambda>j. g (xs ! j)) [0..<length xs] y = fold g xs y"
proof -
  have "fold g (map ((!) xs) [0..<length xs]) y = fold (\<lambda>j. g (xs ! j)) [0..<length xs] y" by (simp add: fold_map comp_def)
  then show ?thesis by (simp add: map_nth)
qed

context reliable_namespace
begin

lemma read_arena_spec:
  assumes a: "a < length (bt_arenas t)" and F: "unat (bt_nfree t) = F" "lane < F"
    and g: "geom nssize F lbs ar" and nlba: "a_ext ar \<le> unat (bt_nlba t)"
    and pr: "pairs_ok (content (bt_ns t)) ar (runtime_flogs ar)" and q: "quiet F ar"
    and i: "describes (btt_info_convert2h (bytes_at (content (bt_ns t)) (a_start ar) 4096)) ar"
    and oom: "bt_oom t = []"
    and z: "the_arena t a = zero_arena"
  shows "\<exists>ns'. read_arena cb t lane (ar_startoff ar) a = Some (Inr (), upd_arena (t\<lparr>bt_ns := ns'\<rparr>) a (\<lambda>_. ar)) \<and>
    content ns' = recover_all ar (runtime_flogs ar) (content (bt_ns t))"
proof -
  let ?m = "content (bt_ns t)" and ?fls = "runtime_flogs ar"
  let ?i = "btt_info_convert2h (bytes_at ?m (a_start ar) 4096)"
  have "a_start ar + 4096 \<le> nssize" using g by (simp add: geom_def)
  then have rd: "ns_read cb t lane SIZEOF_BTT_INFO (ar_startoff ar) = Some (Inr (bytes_at ?m (a_start ar) 4096), t)"
    using nsread_law [of "ar_startoff ar" 4096] by (simp add: ns_read_def SIZEOF_BTT_INFO_def)
  let ?t1 = "upd_arena t a (\<lambda>ar'. ar'\<lparr>ar_flags := bi_flags ?i, ar_external_nlba := bi_external_nlba ?i,
                 ar_internal_lbasize := bi_internal_lbasize ?i, ar_internal_nlba := bi_internal_nlba ?i,
                 ar_startoff := ar_startoff ar, ar_dataoff := ar_startoff ar + bi_dataoff ?i,
                 ar_mapoff := ar_startoff ar + bi_mapoff ?i, ar_flogoff := ar_startoff ar + bi_flogoff ?i,
                 ar_nextoff := ar_startoff ar + bi_nextoff ?i\<rparr>)"
  let ?x = "ar\<lparr>ar_flogs := [], ar_rtt := [], ar_map_locks := []\<rparr>"
  have len: "length (ar_flogs ar) = F" using q by (simp add: quiet_def)
  have t1: "the_arena ?t1 a = ?x"
    using a z i q by (simp add: btt_state zero_arena_def describes_def quiet_def)
  let ?t2 = "upd_arena ?t1 a (ar_flogs_update (\<lambda>_. replicate F zero_flog_runtime))"
  have t2: "the_arena ?t2 a = ?x\<lparr>ar_flogs := [] @ replicate (F - 0) zero_flog_runtime\<rparr>"
    using a t1 by (simp add: btt_state)
  have "geom nssize F lbs ?x" "pairs_ok (content (bt_ns ?t2)) ?x ?fls"
    using g pr by (simp_all add: geom_def pairs_ok_def btt_state)
  from read_flogs_loop_spec [of a ?t2 0 F ?fls lane lbs ?x "[]", OF _ _ _ _ _ this(1) _ this(2) t2] obtain ns' where
    l: "read_flogs_loop cb ?t2 lane a [0..<F] (ar_flogoff ar) =
      Some (Inr (), upd_arena (?t2\<lparr>bt_ns := ns'\<rparr>) a (\<lambda>_. ?x\<lparr>ar_flogs := map (\<lambda>j. loaded ?x j (?fls ! j)) [0..<F]\<rparr>))"
    and c: "content ns' = fold (\<lambda>j. recover1 ?x (fst (?fls ! j))) [0..<F] ?m"
    using a F nlba len by (auto simp: btt_state)
  have ld: "map (\<lambda>j. loaded ?x j (?fls ! j)) [0..<F] = ar_flogs ar"
    using q by (simp add: quiet_def) (simp add: loaded_def)
  let ?t3 = "upd_arena (t\<lparr>bt_ns := ns'\<rparr>) a (\<lambda>_. ?x\<lparr>ar_flogs := ar_flogs ar\<rparr>)"
  have rf: "read_flogs cb ?t1 lane a = Some (Inr (), ?t3)"
    using l ld a F oom t1 by (simp add: read_flogs_def bt_malloc_def btt_state)
  have t3: "bt_oom ?t3 = []" "bt_nfree ?t3 = bt_nfree t" "a < length (bt_arenas ?t3)" using oom a by (simp_all add: btt_state)
  have fin: "upd_arena (upd_arena (upd_arena ?t3 a (ar_rtt_update (\<lambda>_. replicate F BTT_MAP_ENTRY_ERROR))) a
      (ar_map_locks_update (\<lambda>_. replicate F False))) a (ar_info_lock_update (\<lambda>_. False)) = upd_arena (t\<lparr>bt_ns := ns'\<rparr>) a (\<lambda>_. ar)"
    using a q by (simp add: btt_state) (rule upd_arena_cong, simp, rule arena.equality, simp_all add: quiet_def)
  have "read_arena cb t lane (ar_startoff ar) a = Some (Inr (), upd_arena (t\<lparr>bt_ns := ns'\<rparr>) a (\<lambda>_. ar))"
    unfolding read_arena_def rd seqE_simps Let_def rf
    using t3 F fin by (simp add: build_rtt_def build_map_locks_def bt_malloc_def seqE_simps btt_state)
  moreover have "content ns' = recover_all ar ?fls ?m"
  proof -
    have mo: "ar_mapoff ?x = ar_mapoff ar" by simp
    have "recover1 ?x f m = recover1 ar f m" for f m unfolding recover1_def mapent_def step_map_def mo ..
    then have rc: "recover1 ?x = recover1 ar" by (simp add: fun_eq_iff)
    show ?thesis using c [unfolded rc] fold_upt_nth [of "\<lambda>f. recover1 ar (fst f)" ?fls ?m] len by (simp add: recover_all_def)
  qed
  ultimately show ?thesis by blast
qed
end

section \<open>Loading all arenas\<close>

text \<open>What the loading of an arena needs of the media, and what all of them together do to it.\<close>

definition loadable :: "nat \<Rightarrow> nat \<Rightarrow> nat \<Rightarrow> mem \<Rightarrow> arena \<Rightarrow> bool" where
  "loadable sz F lbs m ar \<longleftrightarrow>
     geom sz F lbs ar \<and> pairs_ok m ar (runtime_flogs ar) \<and> quiet F ar \<and>
     describes (btt_info_convert2h (bytes_at m (a_start ar) 4096)) ar"

definition apart :: "nat \<Rightarrow> arena list \<Rightarrow> bool" where
  "apart F ars \<longleftrightarrow> sorted_wrt (\<lambda>ar ar'. a_flog ar + 64 * F \<le> a_start ar') ars"

definition recover_arenas :: "arena list \<Rightarrow> mem \<Rightarrow> mem" where
  "recover_arenas ars m = fold (\<lambda>ar. recover_all ar (runtime_flogs ar)) ars m"

lemma recover1_inside:
  assumes "geom sz F lbs ar" and "unat (fl_lba f) < a_ext ar"
  shows "inside F ar m (recover1 ar f m)"
proof (cases "recover1 ar f m = m")
  case False
  then have "recover1 ar f m = step_map m ar (unat (fl_lba f)) (fl_new_map f)" by (auto simp: recover1_def Let_def split: if_splits)
  then show ?thesis using step_map_inside [OF assms] by simp
qed (simp add: inside_def)

lemma recover_all_inside:
  assumes "geom sz F lbs ar" and "pairs_ok m ar fls"
  shows "inside F ar m (recover_all ar fls m)"
proof -
  have "inside F ar m (fold (\<lambda>f. recover1 ar (fst f)) fs m)" if "\<forall>f \<in> set fs. unat (fl_lba (fst f)) < a_ext ar" for fs m
    using that
  proof (induction fs arbitrary: m)
    case (Cons f fs)
    then show ?case using inside_trans [OF recover1_inside [OF assms(1), of "fst f" m]] by simp
  qed (simp add: inside_def)
  moreover have "\<forall>f \<in> set fls. unat (fl_lba (fst f)) < a_ext ar"
    using pairs_ok_lba [OF assms(2)] by (metis in_set_conv_nth)
  ultimately show ?thesis by (simp add: recover_all_def)
qed

lemma length_quiet: "quiet F ar \<Longrightarrow> length (ar_flogs ar) = F"
  by (simp add: quiet_def)

lemma loadable_cong:
  assumes "loadable sz F lbs m ar" and same: "\<And>x. a_start ar \<le> x \<Longrightarrow> x < a_flog ar + 64 * F \<Longrightarrow> m' x = m x"
  shows "loadable sz F lbs m' ar"
proof -
  have g: "a_start ar + 4096 \<le> a_flog ar" using assms(1) by (auto simp: loadable_def geom_def)
  have len: "length (ar_flogs ar) = F" using assms(1) by (simp add: loadable_def length_quiet)
  have "bytes_at m' (a_start ar) 4096 = bytes_at m (a_start ar) 4096" using g same by (intro bytes_at_eqI) auto
  moreover have "pairs_ok m' ar (runtime_flogs ar) = pairs_ok m ar (runtime_flogs ar)"
    using g same len by (intro pairs_ok_cong) auto
  ultimately show ?thesis using assms(1) by (simp add: loadable_def)
qed

text \<open>Each arena begins where its predecessor says.\<close>

fun chained :: "u64 \<Rightarrow> arena list \<Rightarrow> bool" where
  "chained off [] \<longleftrightarrow> True"
| "chained off (ar # ars) \<longleftrightarrow> ar_startoff ar = off \<and> chained (ar_nextoff ar) ars"

context reliable_namespace
begin

lemma read_arenas_loop_spec:
  assumes "bt_arenas t = xs @ replicate (length ars) zero_arena" and "unat (bt_nfree t) = F" and "lane < F"
    and "\<forall>ar \<in> set ars. loadable nssize F lbs (content (bt_ns t)) ar \<and> a_ext ar \<le> unat (bt_nlba t)"
    and "apart F ars" and "chained off ars" and "bt_oom t = []"
  shows "\<exists>ns'. read_arenas_loop cb t lane [length xs..<length xs + length ars] off =
      Some (Inr (), t\<lparr>bt_ns := ns', bt_arenas := xs @ ars\<rparr>) \<and>
    content ns' = recover_arenas ars (content (bt_ns t))"
  using assms
proof (induction ars arbitrary: t xs off)
  case Nil
  then show ?case by (intro exI [of _ "bt_ns t"]) (simp add: recover_arenas_def)
next
  case (Cons ar ars)
  note pm = Cons.prems
  let ?a = "length xs" and ?m = "content (bt_ns t)"
  have ld: "loadable nssize F lbs ?m ar" "a_ext ar \<le> unat (bt_nlba t)" using pm(4) by simp_all
  have off: "off = ar_startoff ar" using pm(6) by simp
  have a: "?a < length (bt_arenas t)" "the_arena t ?a = zero_arena" using pm(1) by (simp_all add: the_arena_def)
  from read_arena_spec [OF a(1) pm(2,3) _ ld(2) _ _ _ pm(7) a(2)] ld(1) obtain ns1 where
    r: "read_arena cb t lane off ?a = Some (Inr (), upd_arena (t\<lparr>bt_ns := ns1\<rparr>) ?a (\<lambda>_. ar))"
    and c1: "content ns1 = recover_all ar (runtime_flogs ar) ?m" unfolding loadable_def off by blast
  let ?t = "upd_arena (t\<lparr>bt_ns := ns1\<rparr>) ?a (\<lambda>_. ar)"
  have t: "bt_arenas ?t = (xs @ [ar]) @ replicate (length ars) zero_arena" "bt_ns ?t = ns1"
    "?t = t\<lparr>bt_ns := ns1, bt_arenas := (xs @ [ar]) @ replicate (length ars) zero_arena\<rparr>"
    using pm(1) by (simp_all add: upd_arena_def)
  have ins: "inside F ar ?m (content ns1)"
    unfolding c1 using recover_all_inside ld(1) by (auto simp: loadable_def)
  have ld': "\<forall>ar' \<in> set ars. loadable nssize F lbs (content (bt_ns ?t)) ar' \<and> a_ext ar' \<le> unat (bt_nlba ?t)"
  proof
    fix ar' assume ar': "ar' \<in> set ars"
    have "a_flog ar + 64 * F \<le> a_start ar'" using pm(5) ar' by (simp add: apart_def)
    then have "loadable nssize F lbs (content ns1) ar'"
      using pm(4) ar' ins by (auto simp: inside_def intro: loadable_cong)
    then show "loadable nssize F lbs (content (bt_ns ?t)) ar' \<and> a_ext ar' \<le> unat (bt_nlba ?t)"
      using pm(4) ar' by (simp add: btt_state)
  qed
  have "apart F ars" "chained (ar_nextoff ar) ars" using pm(5,6) by (simp_all add: apart_def)
  from Cons.IH [OF t(1) _ pm(3) ld' this] pm(2,7) obtain ns' where
    l: "read_arenas_loop cb ?t lane [length (xs @ [ar])..<length (xs @ [ar]) + length ars] (ar_nextoff ar) =
      Some (Inr (), ?t\<lparr>bt_ns := ns', bt_arenas := (xs @ [ar]) @ ars\<rparr>)"
    and c: "content ns' = recover_arenas ars (content (bt_ns ?t))" by (auto simp: btt_state)
  have up: "[?a..<?a + length (ar # ars)] = ?a # [length (xs @ [ar])..<length (xs @ [ar]) + length ars]"
    using upt_conv_Cons [of ?a "?a + length (ar # ars)"] by simp
  have nx: "ar_nextoff (the_arena ?t ?a) = ar_nextoff ar" using a(1) by (simp add: btt_state)
  have "read_arenas_loop cb t lane [?a..<?a + length (ar # ars)] off = Some (Inr (), t\<lparr>bt_ns := ns', bt_arenas := xs @ ar # ars\<rparr>)"
    unfolding up read_arenas_loop.simps r seqE_simps nx l by (simp add: t(3))
  moreover have "content ns' = recover_arenas (ar # ars) ?m" using c c1 t(2) by (simp add: recover_arenas_def)
  ultimately show ?case by blast
qed

lemma read_arenas_spec:
  assumes "unat narena = length ars" and "unat (bt_nfree t) = F" and "lane < F"
    and "\<forall>ar \<in> set ars. loadable nssize F lbs (content (bt_ns t)) ar \<and> a_ext ar \<le> unat (bt_nlba t)"
    and "apart F ars" and "chained 0 ars" and "bt_oom t = []"
  shows "\<exists>ns'. read_arenas cb t lane narena = Some (Inr (), t\<lparr>bt_ns := ns', bt_arenas := ars, bt_laidout := True\<rparr>) \<and>
    content ns' = recover_arenas ars (content (bt_ns t))"
  using read_arenas_loop_spec [of "t\<lparr>bt_arenas := replicate (length ars) zero_arena\<rparr>" "[]" ars F lane lbs 0] assms
  by (auto simp: read_arenas_def bt_malloc_def)
end

section \<open>Recognising the layout\<close>

text \<open>Media that carries the info blocks of the arenas, for a namespace with \<open>raw\<close> bytes left from
  the offset \<open>off\<close> on.\<close>

fun formatted :: "mem \<Rightarrow> byte list \<Rightarrow> u32 \<Rightarrow> u32 \<Rightarrow> u64 \<Rightarrow> u64 \<Rightarrow> arena list \<Rightarrow> bool" where
  "formatted m uuid lbs nfree raw off [] \<longleftrightarrow> False"
| "formatted m uuid lbs nfree raw off (ar # ars) \<longleftrightarrow>
     ar_startoff ar = off \<and> BTT_MIN_SIZE \<le> raw \<and>
     (let bs = bytes_at m (unat off) 4096; i = btt_info_convert2h bs
      in read_info uuid bs = Some i \<and> describes i ar \<and> bi_external_lbasize i = lbs \<and> bi_nfree i = nfree \<and>
         bi_external_nlba i \<noteq> 0 \<and>
         (if ars = [] then bi_nextoff i = 0
          else bi_nextoff i = BTT_MAX_ARENA \<and> BTT_MAX_ARENA \<le> raw \<and>
               formatted m uuid lbs nfree (raw - BTT_MAX_ARENA) (off + BTT_MAX_ARENA) ars))"

declare formatted.simps [simp del]

lemma formatted_chained: "formatted m uuid lbs nfree raw off ars \<Longrightarrow> chained off ars"
proof (induction ars arbitrary: raw off)
  case (Cons ar ars)
  note f = Cons.prems [unfolded formatted.simps(2) Let_def]
  show ?case using f Cons.IH by (cases "ars = []") (auto simp: describes_def)
qed simp

lemma formatted_describes:
  "formatted m uuid lbs nfree raw off ars \<Longrightarrow> ar \<in> set ars \<Longrightarrow> describes (btt_info_convert2h (bytes_at m (a_start ar) 4096)) ar"
proof (induction ars arbitrary: raw off)
  case (Cons a ars)
  note f = Cons.prems(1) [unfolded formatted.simps(2) Let_def]
  show ?case using f Cons.IH Cons.prems(2) by (cases "ars = []") auto
qed simp

text \<open>The info blocks are all that matters, and of the arenas only what the info blocks describe.\<close>

definition header :: "arena \<Rightarrow> arena" where
  "header ar = ar\<lparr>ar_flogs := [], ar_rtt := [], ar_map_locks := [], ar_info_lock := False\<rparr>"

lemma formatted_cong:
  assumes "map header ars = map header ars'"
    and "\<And>ar. ar \<in> set ars \<Longrightarrow> bytes_at m (a_start ar) 4096 = bytes_at m' (a_start ar) 4096"
    and "formatted m uuid lbs nfree raw off ars"
  shows "formatted m' uuid lbs nfree raw off ars'"
  using assms
proof (induction ars arbitrary: ars' raw off)
  case (Cons ar ars)
  then obtain ar' as' where ars': "ars' = ar' # as'" and h: "header ar = header ar'" and t: "map header ars = map header as'" by (cases ars') auto
  have "describes i (header x) = describes i x" "ar_startoff (header x) = ar_startoff x" for i x by (simp_all add: describes_def header_def)
  with h have d: "describes i ar = describes i ar'" "ar_startoff ar = ar_startoff ar'" for i by metis+
  have n: "ars = [] \<longleftrightarrow> as' = []" using t by auto
  have b: "bytes_at m (a_start ar) 4096 = bytes_at m' (a_start ar) 4096" using Cons.prems(2) by simp
  have f: "formatted m uuid lbs nfree (raw - BTT_MAX_ARENA) (off + BTT_MAX_ARENA) ars \<Longrightarrow>
    formatted m' uuid lbs nfree (raw - BTT_MAX_ARENA) (off + BTT_MAX_ARENA) as'"
    using Cons.IH [OF t] Cons.prems(2) by simp
  show ?case using Cons.prems(3) f b unfolding ars' formatted.simps(2) [of _ _ _ _ _ _ ar ars] formatted.simps(2) [of _ _ _ _ _ _ ar' as'] Let_def d n
    by (auto split: if_splits)
qed (simp add: formatted.simps)

context reliable_namespace
begin

lemma read_layout_loop_spec:
  assumes "formatted (content (bt_ns t)) (bt_parent_uuid t) (bt_lbasize t) nfree raw off ars"
    and "\<forall>ar \<in> set ars. a_start ar + 4096 \<le> nssize" and "nfree \<noteq> 0" and "nfree \<le> sm"
  shows "read_layout_loop cb t lane raw n sm tot off =
    Inr (Some (n + of_nat (length ars), nfree, tot + sum_list (map (\<lambda>ar. ucast (ar_external_nlba ar)) ars)))"
  using assms
proof (induction ars arbitrary: raw off n sm tot)
  case (Cons ar ars)
  let ?bs = "bytes_at (content (bt_ns t)) (unat off) 4096"
  let ?i = "btt_info_convert2h ?bs"
  note f = Cons.prems(1) [unfolded formatted.simps(2) Let_def]
  have rd: "cb_nsread cb (bt_ns t) lane SIZEOF_BTT_INFO off = Inr ?bs"
    using f Cons.prems(2) by (subst nsread_law) (auto simp: SIZEOF_BTT_INFO_def)
  have x: "bi_external_nlba ?i = ar_external_nlba ar" using f by (simp add: describes_def)
  have step: "read_layout_loop cb t lane raw n sm tot off =
    (if bi_nextoff ?i = 0 then Inr (Some (n + 1, nfree, tot + ucast (ar_external_nlba ar)))
     else if bi_nextoff ?i > raw then Inl EINVAL
     else read_layout_loop cb t lane (raw - bi_nextoff ?i) (n + 1) nfree (tot + ucast (ar_external_nlba ar)) (off + bi_nextoff ?i))"
    using f rd x Cons.prems(3,4) by (subst read_layout_loop.simps) (auto simp: Let_def min_def split: if_splits)
  show ?case
  proof (cases "ars = []")
    case True
    then show ?thesis using f by (simp add: step)
  next
    case False
    then have "bi_nextoff ?i = BTT_MAX_ARENA" "BTT_MAX_ARENA \<le> raw" "formatted (content (bt_ns t)) (bt_parent_uuid t) (bt_lbasize t) nfree (raw - BTT_MAX_ARENA) (off + BTT_MAX_ARENA) ars"
      using f by auto
    moreover have "BTT_MAX_ARENA \<noteq> 0" by (simp add: BTT_MAX_ARENA_def)
    ultimately show ?thesis using Cons.IH [where sm = nfree] Cons.prems(2,3) by (simp add: step algebra_simps)
  qed
qed (simp add: formatted.simps)
end

section \<open>Reopening\<close>

text \<open>A handle whose media is formatted for it.\<close>

definition durable :: "nat \<Rightarrow> mem \<Rightarrow> 'ns btt \<Rightarrow> bool" where
  "durable sz m s \<longleftrightarrow>
     btt_ok sz m s \<and> bt_nfree s \<le> BTT_DEFAULT_NFREE \<and>
     formatted m (bt_parent_uuid s) (bt_lbasize s) (bt_nfree s) (bt_rawsize s) 0 (bt_arenas s)"

text \<open>The handle after the table was opened again.\<close>

definition reopened :: "nat \<Rightarrow> 'ns \<Rightarrow> 'm btt \<Rightarrow> 'ns btt" where
  "reopened maxlane ns s =
     \<lparr>bt_nlane = (if maxlane \<noteq> 0 \<and> unat (bt_nfree s) > maxlane then of_nat maxlane else bt_nfree s),
      bt_layout_write_mutex = False, bt_laidout = True, bt_uuid = replicate 16 0,
      bt_parent_uuid = bt_parent_uuid s, bt_rawsize = bt_rawsize s, bt_lbasize = bt_lbasize s,
      bt_nfree = bt_nfree s, bt_nlba = bt_nlba s, bt_narena = bt_narena s, bt_arenas = bt_arenas s,
      bt_ns = ns, bt_oom = []\<rparr>"

lemma reopened_simps:
  "bt_lbasize (reopened maxlane ns s) = bt_lbasize s" "bt_nfree (reopened maxlane ns s) = bt_nfree s"
  "bt_nlba (reopened maxlane ns s) = bt_nlba s" "bt_narena (reopened maxlane ns s) = bt_narena s"
  "bt_arenas (reopened maxlane ns s) = bt_arenas s" "bt_ns (reopened maxlane ns s) = ns"
  by (simp_all add: reopened_def)

lemma reopened_durable:
  assumes "durable sz m s"
  shows "durable sz m (reopened maxlane ns s)" "btt_view m (reopened maxlane ns s) = btt_view m s"
proof -
  have "unat (of_nat maxlane :: u32) \<le> unat (bt_nfree s)" if "maxlane < unat (bt_nfree s)"
  proof -
    have "maxlane < 2 ^ 32" using that unat_lt_u32 [of "bt_nfree s"] by simp
    then show ?thesis using that by (simp add: unat_of_nat)
  qed
  then show "durable sz m (reopened maxlane ns s)"
    using assms by (simp add: durable_def btt_ok_def reopened_def the_arena_def)
  show "btt_view m (reopened maxlane ns s) = btt_view m s"
    by (intro ext) (auto simp: btt_view_def lba_to_arena_lba_def the_arena_def reopened_simps split: option.split)
qed

lemma of_nat_sum_ext: "of_nat (sum_list (map a_ext ars)) = sum_list (map (\<lambda>ar. ucast (ar_external_nlba ar) :: u64) ars)"
  by (induction ars) simp_all

lemma btt_ok_words:
  assumes "btt_ok sz m s"
  shows "bt_narena s = of_nat (length (bt_arenas s))"
    "bt_nlba s = sum_list (map (\<lambda>ar. ucast (ar_external_nlba ar)) (bt_arenas s))"
    "apart (unat (bt_nfree s)) (bt_arenas s)"
proof -
  have ok: "length (bt_arenas s) = unat (bt_narena s)" "unat (bt_nlba s) = sum_list (map a_ext (bt_arenas s))"
    using assms by (simp_all add: btt_ok_def)
  from ok(1) show "bt_narena s = of_nat (length (bt_arenas s))" by simp
  from arg_cong [OF ok(2), of "of_nat :: nat \<Rightarrow> u64"] show "bt_nlba s = sum_list (map (\<lambda>ar. ucast (ar_external_nlba ar)) (bt_arenas s))"
    by (simp only: of_nat_sum_ext) simp
  show "apart (unat (bt_nfree s)) (bt_arenas s)"
    using assms by (simp add: apart_def sorted_wrt_iff_nth_less btt_ok_def the_arena_def)
qed

lemma ext_le_nlba:
  assumes "btt_ok sz m s" and "ar \<in> set (bt_arenas s)"
  shows "a_ext ar \<le> unat (bt_nlba s)"
proof -
  have "a_ext ar \<le> sum_list (map a_ext (bt_arenas s))" using assms(2) by (intro member_le_sum_list) auto
  then show ?thesis using assms(1) by (simp add: btt_ok_def)
qed

lemma BTT_DEFAULT_NFREE_pos: "0 < unat BTT_DEFAULT_NFREE"
  by (simp add: BTT_DEFAULT_NFREE_def)

context reliable_namespace
begin

text \<open>Opening a table whose recovered media is in order for a handle gives that handle back.\<close>

lemma btt_init_reopens:
  assumes ok: "btt_ok nssize (recover_arenas (bt_arenas s) m) s" and nf: "bt_nfree s \<le> BTT_DEFAULT_NFREE"
    and ld: "\<And>ar. ar \<in> set (bt_arenas s) \<Longrightarrow> loadable nssize (unat (bt_nfree s)) (unat (bt_lbasize s)) m ar"
    and fm: "formatted m (bt_parent_uuid s) (bt_lbasize s) (bt_nfree s) (bt_rawsize s) 0 (bt_arenas s)"
    and ns: "content ns = m"
  shows "\<exists>ns'. btt_init gen (bt_rawsize s) (bt_lbasize s) (bt_parent_uuid s) maxlane [] ns cb = Some (Inr (reopened maxlane ns' s)) \<and>
    content ns' = recover_arenas (bt_arenas s) m"
proof -
  let ?ars = "bt_arenas s" and ?F = "unat (bt_nfree s)"
  have F: "0 < ?F" using ok by (simp add: btt_ok_def)
  then have F0: "bt_nfree s \<noteq> 0" by auto
  obtain ar0 ars where ars: "?ars = ar0 # ars" using fm by (cases ?ars) (auto simp: formatted.simps)
  have raw: "\<not> bt_rawsize s < BTT_MIN_SIZE" using fm by (auto simp: ars formatted.simps Let_def)
  let ?s0 = "\<lparr>bt_nlane = 0, bt_layout_write_mutex = False, bt_laidout = False, bt_uuid = replicate 16 0,
     bt_parent_uuid = bt_parent_uuid s, bt_rawsize = bt_rawsize s, bt_lbasize = bt_lbasize s, bt_nfree = BTT_DEFAULT_NFREE,
     bt_nlba = 0, bt_narena = 0, bt_arenas = [], bt_ns = ns, bt_oom = []\<rparr>"
  note w = btt_ok_words [OF ok]
  have "\<forall>ar \<in> set ?ars. a_start ar + 4096 \<le> nssize" 
  proof
    fix ar assume "ar \<in> set ?ars"
    then have "geom nssize ?F (unat (bt_lbasize s)) ar" using ld by (simp add: loadable_def)
    then show "a_start ar + 4096 \<le> nssize" by (simp add: geom_def)
  qed
  from read_layout_loop_spec [where t = ?s0 and lane = 0 and n = 0 and tot = 0 and sm = "-1", OF _ this F0] fm ns
  have l: "read_layout_loop cb ?s0 0 (bt_rawsize s) 0 (- 1) 0 0 = Inr (Some (bt_narena s, bt_nfree s, bt_nlba s))"
    unfolding w(1,2) by simp
  let ?s1 = "?s0\<lparr>bt_narena := bt_narena s, bt_nlba := bt_nlba s, bt_nfree := bt_nfree s\<rparr>"
  have "unat (bt_narena s) = length ?ars" using ok by (simp add: btt_ok_def)
  from read_arenas_spec [where t = ?s1 and lane = 0 and F = ?F and lbs = "unat (bt_lbasize s)", OF this _ F _ w(3) formatted_chained [OF fm]]
  obtain ns' where r: "read_arenas cb ?s1 0 (bt_narena s) = Some (Inr (), ?s1\<lparr>bt_ns := ns', bt_arenas := ?ars, bt_laidout := True\<rparr>)"
    and c: "content ns' = recover_arenas ?ars m"
    using ld ext_le_nlba [OF ok] ns by auto
  have mn: "min BTT_DEFAULT_NFREE (bt_nfree s) = bt_nfree s" using nf by (simp add: min_def)
  have "read_layout gen cb (?s0\<lparr>bt_nfree := 0\<rparr>) 0 = Some (Inr (), ?s1\<lparr>bt_ns := ns', bt_arenas := ?ars, bt_laidout := True\<rparr>)"
    using l r mn by (simp add: read_layout_def Let_def)
  then have "btt_init gen (bt_rawsize s) (bt_lbasize s) (bt_parent_uuid s) maxlane [] ns cb = Some (Inr (reopened maxlane ns' s))"
    unfolding btt_init_def using raw by (simp add: bt_malloc_def reopened_def)
  with c show ?thesis by blast
qed
end

lemma arena_ok_loadable:
  assumes "arena_ok sz F lbs m ar" and "describes (btt_info_convert2h (bytes_at m (a_start ar) 4096)) ar"
  shows "loadable sz F lbs m ar" "recover_all ar (runtime_flogs ar) m = m"
  using assms arena_ok_quiet [OF assms(1)] recover_all_settled [of F m ar "runtime_flogs ar"]
  by (auto simp: loadable_def arena_ok_def media_ok_def)

lemma durable_loadable:
  assumes "durable sz m s"
  shows "ar \<in> set (bt_arenas s) \<Longrightarrow> loadable sz (unat (bt_nfree s)) (unat (bt_lbasize s)) m ar"
    "recover_arenas (bt_arenas s) m = m"
proof -
  have ok: "arena_ok sz (unat (bt_nfree s)) (unat (bt_lbasize s)) m ar"
    "describes (btt_info_convert2h (bytes_at m (a_start ar) 4096)) ar" if "ar \<in> set (bt_arenas s)" for ar
  proof -
    show "arena_ok sz (unat (bt_nfree s)) (unat (bt_lbasize s)) m ar"
      using assms that by (auto simp: durable_def btt_ok_def the_arena_def in_set_conv_nth)
    show "describes (btt_info_convert2h (bytes_at m (a_start ar) 4096)) ar"
      using assms that unfolding durable_def by (blast intro: formatted_describes)
  qed
  show "ar \<in> set (bt_arenas s) \<Longrightarrow> loadable sz (unat (bt_nfree s)) (unat (bt_lbasize s)) m ar" using arena_ok_loadable(1) [OF ok] .
  show "recover_arenas (bt_arenas s) m = m"
    unfolding recover_arenas_def using arena_ok_loadable(2) [OF ok] by (intro fold_fixed) blast
qed

context reliable_namespace
begin

lemma durable_reopens:
  assumes "durable nssize (content ns) s"
  shows "\<exists>ns'. btt_init gen (bt_rawsize s) (bt_lbasize s) (bt_parent_uuid s) maxlane [] ns cb = Some (Inr (reopened maxlane ns' s)) \<and>
    content ns' = content ns"
  using btt_init_reopens [OF _ _ durable_loadable(1) [OF assms] _ refl] durable_loadable(2) [OF assms] assms
  by (simp add: durable_def)
end

section \<open>Media after a failure\<close>

lemma header_geom: "header ar' = header ar \<Longrightarrow> same_geom ar ar'"
  by (cases ar; cases ar') (simp add: header_def same_geom_def)

lemma info_untouched:
  assumes ok: "btt_ok sz m s" and a: "a < length (bt_arenas s)"
    and i: "inside (unat (bt_nfree s)) (the_arena s a) m m'" and ar: "ar \<in> set (bt_arenas s)"
  shows "bytes_at m (a_start ar) 4096 = bytes_at m' (a_start ar) 4096"
proof -
  obtain b where b: "b < length (bt_arenas s)" "ar = the_arena s b" using ar by (auto simp: in_set_conv_nth the_arena_def)
  have g: "a_start ar + 4096 \<le> a_data ar" "a_data ar \<le> a_flog ar"
    using btt_ok_arena [OF ok b(1)] b(2) by (auto simp: arena_ok_def geom_def)
  show ?thesis
  proof (rule bytes_at_eqI)
    fix x assume x: "a_start ar \<le> x" "x < a_start ar + 4096"
    show "m x = m' x"
    proof (cases "b = a")
      case True
      then show ?thesis using i b(2) g x by (auto simp: inside_def)
    next
      case False
      then show ?thesis using outside_arena [OF ok a i b(1)] b(2) g x by simp
    qed
  qed
qed

text \<open>A change inside one arena keeps the format.\<close>

lemma formatted_change:
  assumes ok: "btt_ok sz m s" and a: "a < length (bt_arenas s)" and h: "header (f (the_arena s a)) = header (the_arena s a)"
    and i: "inside (unat (bt_nfree s)) (the_arena s a) m m'"
    and fm: "formatted m uuid lbs nfree raw off (bt_arenas s)"
  shows "formatted m' uuid lbs nfree raw off (bt_arenas (upd_arena s a f))"
proof (rule formatted_cong [OF _ info_untouched [OF ok a i] fm])
  show "map header (bt_arenas s) = map header (bt_arenas (upd_arena s a f))"
    using h a by (intro nth_equalityI) (auto simp: upd_arena_def the_arena_def nth_list_update)
qed

lemma durable_change:
  assumes d: "durable sz m s" and a: "a < length (bt_arenas s)" and h: "header (f (the_arena s a)) = header (the_arena s a)"
    and i: "inside (unat (bt_nfree s)) (the_arena s a) m m'"
    and ar: "arena_ok sz (unat (bt_nfree s)) (unat (bt_lbasize s)) m' (f (the_arena s a))"
  shows "durable sz m' (upd_arena s a f)"
proof -
  have ok: "btt_ok sz m s" and fm: "formatted m (bt_parent_uuid s) (bt_lbasize s) (bt_nfree s) (bt_rawsize s) 0 (bt_arenas s)"
    using d by (simp_all add: durable_def)
  from btt_ok_change(1) [where f = f, OF ok a header_geom [OF h] i ar] formatted_change [where f = f, OF ok a h i fm] d
  show ?thesis by (simp add: durable_def btt_state)
qed

text \<open>A write keeps a table durable.\<close>

lemma header_written: "header (lane_written l f ar) = header ar"
  by (simp add: header_def lane_written_def)

lemma write_durable:
  assumes d: "durable sz m s" and lane: "lane < unat (bt_nlane s)" and lba: "\<not> invalid_lba s lba"
    and ap: "lba_to_arena_lba s lba = Some (a, p)" and buf: "length buf = unat (bt_lbasize s)"
  defines "ar \<equiv> the_arena s a"
  defines "fls \<equiv> runtime_flogs ar"
  shows "durable sz (w4 m ar fls lane (unat p) buf) (upd_arena s a (lane_written lane (new_flog m ar fls lane (unat p))))"
proof -
  have ok: "btt_ok sz m s" using d by (simp add: durable_def)
  have a: "a < length (bt_arenas s)" using lba_to_arena [OF ok lba] ap by (metis Pair_inject option.inject)
  note pre = write_effect(3) [OF ok lane lba ap buf]
  show ?thesis unfolding fls_def ar_def
    by (rule durable_change [where f = "lane_written lane (new_flog m (the_arena s a) (runtime_flogs (the_arena s a)) lane (unat p))",
          OF d a header_written w4_inside [OF pre] written_arena_ok(1) [OF btt_ok_arena [OF ok a] pre]])
qed

text \<open>A change that does not reach the metadata, such as a write to a free block.\<close>

lemma same_view_durable:
  assumes d: "durable sz m s" and a: "a < length (bt_arenas s)"
    and i: "inside (unat (bt_nfree s)) (the_arena s a) m m'"
    and mo: "media_ok (unat (bt_nfree s)) m' (the_arena s a) (runtime_flogs (the_arena s a))"
    and bl: "\<And>q. q < a_ext (the_arena s a) \<Longrightarrow>
      block_of (unat (bt_lbasize s)) m' (the_arena s a) q = block_of (unat (bt_lbasize s)) m (the_arena s a) q"
  shows "durable sz m' s" "\<not> invalid_lba s x \<Longrightarrow> btt_view m' s x = btt_view m s x"
proof -
  have ok: "btt_ok sz m s" using d by (simp add: durable_def)
  have ar: "arena_ok sz (unat (bt_nfree s)) (unat (bt_lbasize s)) m' (the_arena s a)"
    using btt_ok_arena [OF ok a] mo by (simp add: arena_ok_def)
  from durable_change [where f = id, OF d a _ i] ar upd_arena_id [OF a, of id] show "durable sz m' s" by simp
  show "btt_view m' s x = btt_view m s x" if x: "\<not> invalid_lba s x"
  proof -
    obtain c q where cq: "lba_to_arena_lba s x = Some (c, q)" "c < length (bt_arenas s)" "unat q < a_ext (the_arena s c)"
      using lba_to_arena [OF ok x] by metis
    then show ?thesis using others_ok(2) [OF ok a i cq(2) _ cq(3)] bl by (cases "c = a") (auto simp: btt_view_def)
  qed
qed

text \<open>Recovery of a table in which one write is recorded in the flog and not yet in the map.\<close>

lemma recover_arenas_pending:
  assumes d: "durable sz m4 t" and a: "a < length (bt_arenas t)"
    and i: "inside (unat (bt_nfree t)) (the_arena t a) m4 m3"
    and r: "recover_all (the_arena t a) (runtime_flogs (the_arena t a)) m3 = m4"
  shows "recover_arenas (bt_arenas t) m3 = m4"
proof -
  let ?ars = "bt_arenas t" and ?g = "\<lambda>ar. recover_all ar (runtime_flogs ar)"
  have ok: "btt_ok sz m4 t" using d by (simp add: durable_def)
  have fix3: "?g (?ars ! b) m3 = m3" if "b < length ?ars" "b \<noteq> a" for b
    using others_ok(1) [OF ok a i that] recover_all_settled by (auto simp: arena_ok_def the_arena_def)
  have fix4: "?g (?ars ! b) m4 = m4" if "b < length ?ars" for b
    using btt_ok_arena [OF ok that] recover_all_settled by (auto simp: arena_ok_def the_arena_def)
  have "?ars = take a ?ars @ ?ars ! a # drop (Suc a) ?ars" by (rule id_take_nth_drop [OF a])
  then have "recover_arenas ?ars m3 = fold ?g (drop (Suc a) ?ars) (?g (?ars ! a) (fold ?g (take a ?ars) m3))"
    unfolding recover_arenas_def by (metis (no_types, lifting) comp_apply fold_append fold_simps(2))
  moreover have "fold ?g (take a ?ars) m3 = m3"
  proof (rule fold_fixed, rule ballI)
    fix ar assume "ar \<in> set (take a ?ars)"
    then obtain b where "b < a" "ar = ?ars ! b" using a by (auto simp: in_set_conv_nth)
    then show "?g ar m3 = m3" using fix3 [of b] a by simp
  qed
  moreover have "fold ?g (drop (Suc a) ?ars) m4 = m4"
    by (rule fold_fixed) (use fix4 in \<open>auto simp: in_set_conv_nth\<close>)
  ultimately show ?thesis using r by (simp add: the_arena_def)
qed

section \<open>Failure atomicity of a write\<close>

lemma inside_sym: "inside F ar m m' \<Longrightarrow> inside F ar m' m"
  by (simp add: inside_def)

lemma recover_all_written: "recover_all (lane_written l f ar) fls m = recover_all ar fls m"
proof -
  have "ar_mapoff (lane_written l f ar) = ar_mapoff ar" by (simp add: lane_written_def)
  then have "recover1 (lane_written l f ar) = recover1 ar"
    by (intro ext) (simp only: recover1_def mapent_def step_map_def)
  then show ?thesis by (simp add: recover_all_def)
qed

text \<open>Failures before the flog entry is complete leave every block as it was.\<close>

lemma early_crash:
  assumes pre: "write_pre sz F lbs m ar fls l p buf"
    and img: "torn m (a_data ar + blk (fl_old_map (fst (fls ! l))) * a_lbs ar) buf m' \<or> m' = w1 m ar fls l buf \<or> m' = w2 m ar fls l p buf"
  shows "inside F ar m m'" "media_ok F m' ar fls" "q < a_ext ar \<Longrightarrow> block_of lbs m' ar q = block_of lbs m ar q"
proof -
  note preD = write_preD [OF pre]
  have n: "snd (fls ! l) < 2" using preD by (auto simp: media_ok_def pairs_ok_def flog_pair_ok_def Let_def)
  note o = data_block_off_nat(2) [OF preD(1) phys_bound(2) [OF preD(2,3)]]
  have d: "a_map ar \<le> a_flog ar" "a_data ar \<le> a_flog ar" using preD(1) by (auto simp: geom_def)
  let ?d = "a_data ar + blk (fl_old_map (fst (fls ! l))) * a_lbs ar"
  have "inside F ar m m' \<and> media_ok F m' ar fls \<and> (q < a_ext ar \<longrightarrow> block_of lbs m' ar q = block_of lbs m ar q)"
  proof (cases "m' = w2 m ar fls l p buf")
    case True
    have "inside F ar (w1 m ar fls l buf) (w2 m ar fls l p buf)"
      using preD(3) n d(2) by (auto simp: inside_def w2_def step_flog1_def intro!: store_out)
    then show ?thesis using True w2_ok(1,3) [OF pre] inside_trans [OF w1_inside [OF pre]] by simp
  next
    case False
    then have same: "m' x = m x" if "x < ?d \<or> ?d + lbs \<le> x" for x
      using img that preD(5) torn_outside by (auto simp: w1_def step_data_def store_out)
    from free_block_frame [OF preD(1,2,3) same] o d show ?thesis by (auto simp: inside_def intro!: same)
  qed
  then show "inside F ar m m'" "media_ok F m' ar fls" "q < a_ext ar \<Longrightarrow> block_of lbs m' ar q = block_of lbs m ar q" by auto
qed

context reliable_namespace
begin

lemma pending_reopens:
  assumes d: "durable nssize m s" and lane: "lane < unat (bt_nlane s)" and lba: "\<not> invalid_lba s lba"
    and ap: "lba_to_arena_lba s lba = Some (a, p)" and buf: "length buf = unat (bt_lbasize s)"
  defines "ar \<equiv> the_arena s a"
  defines "fls \<equiv> runtime_flogs ar"
  defines "t \<equiv> upd_arena s a (lane_written lane (new_flog m ar fls lane (unat p)))"
  assumes ns: "content ns = w3 m ar fls lane (unat p) buf"
  shows "\<exists>ns'. btt_init gen (bt_rawsize s) (bt_lbasize s) (bt_parent_uuid s) maxlane [] ns cb = Some (Inr (reopened maxlane ns' t)) \<and>
    content ns' = w4 m ar fls lane (unat p) buf"
proof -
  let ?m3 = "w3 m ar fls lane (unat p) buf" and ?m4 = "w4 m ar fls lane (unat p) buf"
  let ?F = "unat (bt_nfree s)" and ?lbs = "unat (bt_lbasize s)"
  have ok: "btt_ok nssize m s" using d by (simp add: durable_def)
  have a: "a < length (bt_arenas s)" using lba_to_arena [OF ok lba] ap by (metis Pair_inject option.inject)
  have dt: "durable nssize ?m4 t" unfolding t_def fls_def ar_def by (rule write_durable [OF d lane lba ap buf])
  then have okt: "btt_ok nssize ?m4 t" by (simp add: durable_def)
  have pre: "write_pre nssize ?F ?lbs m ar fls lane (unat p) buf"
    using write_effect(3) [OF ok lane lba ap buf] by (simp add: ar_def fls_def)
  note preD = write_preD [OF pre]
  have t: "a < length (bt_arenas t)" "bt_nfree t = bt_nfree s" "bt_lbasize t = bt_lbasize s" "bt_rawsize t = bt_rawsize s"
    "bt_parent_uuid t = bt_parent_uuid s" using a by (simp_all add: t_def btt_state)
  have ta: "the_arena t a = lane_written lane (new_flog m ar fls lane (unat p)) ar" using a by (simp add: t_def btt_state ar_def)
  have len: "lane < length (ar_flogs ar)" using preD(3,6) by (simp add: fls_def)
  have rf: "runtime_flogs (the_arena t a) = new_flogs m ar fls lane (unat p)"
    unfolding ta fls_def by (rule runtime_flogs_written [OF len])
  have g: "same_geom ar (the_arena t a)" unfolding ta by (simp add: same_geom_def lane_written_def)
  have i: "inside (unat (bt_nfree t)) (the_arena t a) ?m4 ?m3"
  proof -
    have "inside ?F ar ?m4 ?m3" unfolding w4_def by (rule inside_sym [OF step_map_inside [OF preD(1,4)]])
    then show ?thesis using g t(2) by (simp add: inside_def same_geom_def)
  qed
  have rec: "recover_all (the_arena t a) (runtime_flogs (the_arena t a)) ?m3 = ?m4"
    by (subst rf) (simp only: ta recover_all_written recover_all_pending [OF pre])
  have all: "recover_arenas (bt_arenas t) ?m3 = ?m4" by (rule recover_arenas_pending [OF dt t(1) i rec])
  have fm: "formatted ?m3 (bt_parent_uuid t) (bt_lbasize t) (bt_nfree t) (bt_rawsize t) 0 (bt_arenas t)"
    using formatted_change [where f = id, OF okt t(1) _ i] dt upd_arena_id [OF t(1), of id] by (simp add: durable_def)
  have ld: "loadable nssize (unat (bt_nfree t)) (unat (bt_lbasize t)) ?m3 x" if x: "x \<in> set (bt_arenas t)" for x
  proof -
    obtain b where b: "b < length (bt_arenas t)" "x = the_arena t b" using x by (auto simp: in_set_conv_nth the_arena_def)
    note de = formatted_describes [OF fm x]
    show ?thesis
    proof (cases "b = a")
      case False
      show ?thesis using arena_ok_loadable(1) [OF others_ok(1) [OF okt t(1) i b(1) False]] de b(2) by simp
    next
      case True
      have "pairs_ok ?m3 x (runtime_flogs x)"
        using w3_ok(1) [OF pre] rf True b(2) ta by (simp add: pairs_ok_def lane_written_def)
      then show ?thesis
        using btt_ok_arena [OF okt t(1)] arena_ok_quiet [OF btt_ok_arena [OF okt t(1)]] de b(2) True by (simp add: loadable_def arena_ok_def)
    qed
  qed
  from btt_init_reopens [OF _ _ ld fm ns] okt all dt t show ?thesis by (simp add: durable_def)
qed

lemma crash_reopens:
  assumes d: "durable nssize m s" and lane: "lane < unat (bt_nlane s)" and lba: "\<not> invalid_lba s lba"
    and ap: "lba_to_arena_lba s lba = Some (a, p)" and buf: "length buf = unat (bt_lbasize s)"
    and img: "crash_image m (the_arena s a) (runtime_flogs (the_arena s a)) lane (unat p) buf (content ns)"
  shows "\<exists>t. btt_init gen (bt_rawsize s) (bt_lbasize s) (bt_parent_uuid s) maxlane [] ns cb = Some (Inr t) \<and>
    durable nssize (content (bt_ns t)) t \<and> bt_nlba t = bt_nlba s \<and>
    ((\<forall>x. \<not> invalid_lba s x \<longrightarrow> btt_view (content (bt_ns t)) t x = btt_view m s x) \<or>
     (\<forall>x. \<not> invalid_lba s x \<longrightarrow> btt_view (content (bt_ns t)) t x = (if x = lba then BData buf else btt_view m s x)))"
proof -
  let ?ar = "the_arena s a" and ?fls = "runtime_flogs (the_arena s a)"
  have ok: "btt_ok nssize m s" using d by (simp add: durable_def)
  have a: "a < length (bt_arenas s)" using lba_to_arena [OF ok lba] ap by (metis Pair_inject option.inject)
  note we = write_effect [OF ok lane lba ap buf]
  note dt = write_durable [OF d lane lba ap buf]
  let ?t = "upd_arena s a (lane_written lane (new_flog m ?ar ?fls lane (unat p)))" and ?m4 = "w4 m ?ar ?fls lane (unat p) buf"
  consider "torn m (a_data ?ar + blk (fl_old_map (fst (?fls ! lane))) * a_lbs ?ar) buf (content ns) \<or>
      content ns = w1 m ?ar ?fls lane buf \<or> content ns = w2 m ?ar ?fls lane (unat p) buf"
    | "content ns = w3 m ?ar ?fls lane (unat p) buf" | "content ns = ?m4"
    using img by (auto simp: crash_image_def)
  then show ?thesis
  proof cases
    case 1
    note sv = same_view_durable [OF d a early_crash [OF we(3) 1]]
    obtain ns' where "btt_init gen (bt_rawsize s) (bt_lbasize s) (bt_parent_uuid s) maxlane [] ns cb = Some (Inr (reopened maxlane ns' s))"
      "content ns' = content ns" using durable_reopens [OF sv(1)] by blast
    then show ?thesis using sv reopened_durable [OF sv(1), of maxlane ns'] by (auto simp: reopened_simps)
  next
    case 2
    obtain ns' where "btt_init gen (bt_rawsize s) (bt_lbasize s) (bt_parent_uuid s) maxlane [] ns cb = Some (Inr (reopened maxlane ns' ?t))"
      "content ns' = ?m4" using pending_reopens [OF d lane lba ap buf 2] by blast
    then show ?thesis using we(2) reopened_durable [OF dt, of maxlane ns'] by (auto simp: reopened_simps btt_state)
  next
    case 3
    from durable_reopens [of ns ?t gen maxlane] dt 3 obtain ns' where
      "btt_init gen (bt_rawsize s) (bt_lbasize s) (bt_parent_uuid s) maxlane [] ns cb = Some (Inr (reopened maxlane ns' ?t))"
      "content ns' = ?m4" by (auto simp: btt_state)
    then show ?thesis using we(2) reopened_durable [OF dt, of maxlane ns'] by (auto simp: reopened_simps btt_state)
  qed
qed
end

end
