(* ===== verification/Btt_Format.thy ===== *)
theory Btt_Format
  imports Btt_Recovery
begin

text \<open>
  Formatting. The first write to a namespace without a layout runs \<open>write_layout\<close>; here it is shown
  that this gives a durable handle all of whose blocks are zero: the info blocks are accepted when
  they are read back, the flogs record the free blocks, and the maps are in their initial state.
\<close>

unbundle bit_operations_syntax

section \<open>Info blocks on media\<close>

definition info_wf :: "btt_info \<Rightarrow> bool" where
  "info_wf i \<longleftrightarrow> length (bi_sig i) = 16 \<and> length (bi_uuid i) = 16 \<and> length (bi_parent_uuid i) = 16 \<and> length (bi_unused i) = 3968"

lemma length_info_bytes: "info_wf i \<Longrightarrow> length (btt_info_convert2le i) = 4096"
  by (simp add: info_wf_def btt_info_convert2le_def)

lemma rd64_buffer: "take 8 (drop a bs) = u64_bytes w \<Longrightarrow> a + 8 \<le> length bs \<Longrightarrow> rd64 (buffer bs) a = w"
  by (simp add: buffer_def rd64_conv bytes_at_store_inside)

lemma rd16_buffer: "take 2 (drop a bs) = u16_bytes w \<Longrightarrow> a + 2 \<le> length bs \<Longrightarrow> rd16 (buffer bs) a = w"
  by (simp add: buffer_def rd16_def bytes_at_store_inside)

lemma rd32_buffer_eq: "take 4 (drop a bs) = u32_bytes w \<Longrightarrow> a + 4 \<le> length bs \<Longrightarrow> rd32 (buffer bs) a = w"
  by (simp add: buffer_def rd32_conv bytes_at_store_inside)

lemma bytes_buffer: "take n (drop a bs) = xs \<Longrightarrow> a + n \<le> length bs \<Longrightarrow> bytes_at (buffer bs) a n = xs"
  by (simp add: buffer_def bytes_at_store_inside)

lemma info_convert_inverse:
  assumes "info_wf i"
  shows "btt_info_convert2h (btt_info_convert2le i) = i"
  unfolding btt_info_convert2h_def info_at_def
  using length_info_bytes [OF assms] assms
  by (intro btt_info.equality; simp; (intro rd64_buffer rd32_buffer_eq rd16_buffer bytes_buffer)?; simp add: info_wf_def btt_info_convert2le_def)

lemma wr64_buffer_checksum:
  assumes "info_wf i"
  shows "wr64 (buffer (btt_info_convert2le i)) 4088 c = buffer (btt_info_convert2le (i\<lparr>bi_checksum := c\<rparr>))"
proof -
  define pre where "pre = take 4088 (btt_info_convert2le i)"
  have l: "btt_info_convert2le (i\<lparr>bi_checksum := x\<rparr>) = pre @ u64_bytes x" for x
    using assms by (simp add: pre_def btt_info_convert2le_def info_wf_def)
  have len: "length pre = 4088" using length_info_bytes [OF assms] by (simp add: pre_def)
  have "btt_info_convert2le i = pre @ u64_bytes (bi_checksum i)" using l [of "bi_checksum i"] by simp
  then show ?thesis unfolding l
    by (intro ext) (auto simp: wr64_def buffer_def store_def nth_append len)
qed

text \<open>An info block with an inserted checksum is accepted when it is read back.\<close>

lemma info_checksum_inserted:
  assumes wf: "info_wf i"
  obtains c where "info_checksum_insert i = i\<lparr>bi_checksum := c\<rparr>" "info_checksum_verify (btt_info_convert2le (i\<lparr>bi_checksum := c\<rparr>))"
proof -
  let ?m = "buffer (btt_info_convert2le i)"
  obtain c where c: "util_checksum ?m 0 4096 (0 + 4088) True 0 = Some (True, wr64 ?m (0 + 4088) c)"
    "util_checksum (wr64 ?m (0 + 4088) c) 0 4096 (0 + 4088) False 0 = Some (True, wr64 ?m (0 + 4088) c)"
    using checksum_inserted [of 4096 4088 ?m 0] by auto
  let ?i = "i\<lparr>bi_checksum := c\<rparr>"
  have wf': "info_wf ?i" using wf by (simp add: info_wf_def)
  have b: "wr64 ?m 4088 c = buffer (btt_info_convert2le ?i)" by (rule wr64_buffer_checksum [OF wf])
  have "info_checksum_insert i = btt_info_convert2h (btt_info_convert2le ?i)"
    using c(1) b by (simp add: info_checksum_insert_def SIZEOF_BTT_INFO_def btt_info_convert2h_def)
  then have "info_checksum_insert i = ?i" using info_convert_inverse [OF wf'] by simp
  moreover have "info_checksum_verify (btt_info_convert2le ?i)"
    using c(2) b by (simp add: info_checksum_verify_def SIZEOF_BTT_INFO_def)
  ultimately show thesis by (rule that)
qed

lemma read_info_inserted:
  assumes wf: "info_wf i" and "bi_sig i = Sig" and "bi_parent_uuid i = uuid" and "bi_major i \<noteq> 0"
  shows "read_info uuid (btt_info_convert2le (info_checksum_insert i)) = Some (info_checksum_insert i)"
    and "btt_info_convert2h (btt_info_convert2le (info_checksum_insert i)) = info_checksum_insert i"
    and "length (btt_info_convert2le (info_checksum_insert i)) = 4096"
proof -
  obtain c where c: "info_checksum_insert i = i\<lparr>bi_checksum := c\<rparr>" "info_checksum_verify (btt_info_convert2le (i\<lparr>bi_checksum := c\<rparr>))"
    using info_checksum_inserted [OF wf] .
  have wf': "info_wf (i\<lparr>bi_checksum := c\<rparr>)" using wf by (simp add: info_wf_def)
  note inv = info_convert_inverse [OF wf']
  show "btt_info_convert2h (btt_info_convert2le (info_checksum_insert i)) = info_checksum_insert i" using inv c(1) by simp
  show "length (btt_info_convert2le (info_checksum_insert i)) = 4096" using length_info_bytes [OF wf'] c(1) by simp
  show "read_info uuid (btt_info_convert2le (info_checksum_insert i)) = Some (info_checksum_insert i)"
    unfolding read_info_def c(1) inv Let_def using c(2) assms by simp
qed

section \<open>Initial flogs\<close>

definition init_flog :: "u32 \<Rightarrow> nat \<Rightarrow> btt_flog" where
  "init_flog ext j =
     \<lparr>fl_lba = of_nat j, fl_old_map = (ext + of_nat j) OR BTT_MAP_ENTRY_ZERO,
      fl_new_map = (ext + of_nat j) OR BTT_MAP_ENTRY_ZERO, fl_seq = 1\<rparr>"

definition has_init_flogs :: "mem \<Rightarrow> nat \<Rightarrow> u32 \<Rightarrow> nat \<Rightarrow> nat \<Rightarrow> bool" where
  "has_init_flogs m base ext i F \<longleftrightarrow>
     (\<forall>j. i \<le> j \<longrightarrow> j < F \<longrightarrow> flog_at m (base + 64 * j) = init_flog ext j \<and> flog_at m (base + 64 * j + 16) = Zflog)"

lemma roundup_pair:
  assumes "64 dvd unat off" and "unat off + 96 \<le> 2 ^ 64"
  shows "roundup (off + 32) BTT_FLOG_PAIR_ALIGN = off + 64"
proof -
  obtain k where k: "unat off = 64 * k" using assms(1) by blast
  have a: "unat (off + 32) = unat off + 32" "unat (off + 64) = unat off + 64"
    using assms(2) by (simp_all add: unat_plus_u64)
  have "unat (roundup (off + 32) BTT_FLOG_PAIR_ALIGN) = (unat (off + 32) + 63) div 64 * 64"
    using a assms(2) by (subst unat_roundup_u64) (simp_all add: BTT_FLOG_PAIR_ALIGN_def)
  also have "\<dots> = unat (off + 64)" unfolding a k by simp
  finally show ?thesis by (simp add: word_unat_eq_iff)
qed

lemma store_flog_other: "b + 16 \<le> a \<or> a + 16 \<le> b \<Longrightarrow> flog_at (store m a (btt_flog_convert2le f)) b = flog_at m b"
  by (intro flog_at_cong) (auto intro!: store_out)

context reliable_namespace
begin

lemma write_flogs_spec:
  assumes "i \<le> F" and "64 dvd unat base" and "unat base + 64 * F \<le> nssize" and "unat off = unat base + 64 * i"
  shows "\<exists>ns'. write_flogs_loop cb s lane [i..<F] off (ext + of_nat i) = Some (Inr (), s\<lparr>bt_ns := ns'\<rparr>) \<and>
    (\<forall>x. x < unat base + 64 * i \<or> unat base + 64 * F \<le> x \<longrightarrow> content ns' x = content (bt_ns s) x) \<and>
    has_init_flogs (content ns') (unat base) ext i F"
  using assms
proof (induction "F - i" arbitrary: i off s)
  case 0
  then show ?case by (intro exI [of _ "bt_ns s"]) (simp add: has_init_flogs_def)
next
  case (Suc k)
  then have i: "i < F" by simp
  note pm = Suc.prems
  have bd: "unat off + 64 \<le> nssize" using pm(3,4) i by simp
  have sz: "nssize < 2 ^ 64" by (rule nssize)
  have o16: "unat (off + 16) = unat off + 16" "unat (off + 64) = unat off + 64 \<or> unat off + 64 = 2 ^ 64"
    using bd sz by (simp_all add: unat_plus_u64)
  let ?m = "content (bt_ns s)" and ?f = "init_flog ext i"
  have f: "\<lparr>fl_lba = of_nat i, fl_old_map = ext + of_nat i OR BTT_MAP_ENTRY_ZERO, fl_new_map = ext + of_nat i OR BTT_MAP_ENTRY_ZERO, fl_seq = 1\<rparr> = ?f"
    by (simp add: init_flog_def)
  obtain ns1 where w1: "ns_write cb s lane (btt_flog_convert2le ?f) off = Some (Inr (), s\<lparr>bt_ns := ns1\<rparr>)"
    "content ns1 = store ?m (unat off) (btt_flog_convert2le ?f)"
    using ns_write_reliable [of off "btt_flog_convert2le ?f" s lane] bd by auto
  let ?s1 = "s\<lparr>bt_ns := ns1\<rparr>"
  obtain ns2 where w2: "ns_write cb ?s1 lane (btt_flog_convert2le Zflog) (off + 16) = Some (Inr (), ?s1\<lparr>bt_ns := ns2\<rparr>)"
    "content ns2 = store (content ns1) (unat off + 16) (btt_flog_convert2le Zflog)"
    using ns_write_reliable [of "off + 16" "btt_flog_convert2le Zflog" ?s1 lane] bd o16(1) by auto
  let ?s2 = "s\<lparr>bt_ns := ns2\<rparr>"
  have al: "64 dvd unat off" unfolding pm(4) using pm(2) by simp
  have up: "[i..<F] = i # [Suc i..<F]" using i by (rule upt_conv_Cons)
  have ru: "[Suc i..<F] \<noteq> [] \<Longrightarrow> roundup (off + 32) BTT_FLOG_PAIR_ALIGN = off + 64"
    using al pm(3,4) sz by (intro roundup_pair) auto
  have step: "write_flogs_loop cb s lane [i..<F] off (ext + of_nat i) =
      write_flogs_loop cb ?s2 lane [Suc i..<F] (roundup (off + 32) BTT_FLOG_PAIR_ALIGN) (ext + of_nat (Suc i))"
    unfolding up write_flogs_loop.simps Let_def f w1(1) seqE_simps w2(1) by (simp add: algebra_simps)
  have m2: "x < unat off \<or> unat off + 32 \<le> x \<Longrightarrow> content ns2 x = ?m x" for x
    unfolding w2(2) w1(2) by (auto simp: store_out)
  have f2: "flog_at (content ns2) (unat off) = ?f" "flog_at (content ns2) (unat off + 16) = Zflog"
    unfolding w2(2) w1(2) by (simp_all add: store_flog_other flog_at_store)
  show ?case
  proof (cases "Suc i = F")
    case True
    then have "write_flogs_loop cb s lane [i..<F] off (ext + of_nat i) = Some (Inr (), ?s2)" using step by simp
    moreover have "has_init_flogs (content ns2) (unat base) ext i F"
      unfolding has_init_flogs_def using f2 pm(4) True by (auto simp: less_Suc_eq_le dest!: le_antisym)
    moreover have "\<forall>x. x < unat base + 64 * i \<or> unat base + 64 * F \<le> x \<longrightarrow> content ns2 x = ?m x"
      using m2 pm(4) True by auto
    ultimately show ?thesis by blast
  next
    case False
    then have lt: "Suc i < F" using i by simp
    then have r: "roundup (off + 32) BTT_FLOG_PAIR_ALIGN = off + 64" using ru by simp
    have "unat off + 64 < 2 ^ 64" using lt pm(3,4) sz by linarith
    then have "unat (off + 64) = unat base + 64 * Suc i" using o16(2) pm(4) by simp
    moreover have "k = F - Suc i" "Suc i \<le> F" using Suc.hyps(2) lt by simp_all
    ultimately obtain ns' where
      l: "write_flogs_loop cb ?s2 lane [Suc i..<F] (off + 64) (ext + of_nat (Suc i)) = Some (Inr (), ?s2\<lparr>bt_ns := ns'\<rparr>)"
      and out: "\<forall>x. x < unat base + 64 * Suc i \<or> unat base + 64 * F \<le> x \<longrightarrow> content ns' x = content ns2 x"
      and fl: "has_init_flogs (content ns') (unat base) ext (Suc i) F"
      using Suc.hyps(1) [of "Suc i" "off + 64" ?s2] pm(2,3) by (auto simp del: of_nat_Suc)
    have "flog_at (content ns') (unat off) = flog_at (content ns2) (unat off)"
      "flog_at (content ns') (unat off + 16) = flog_at (content ns2) (unat off + 16)"
      using out pm(4) by (auto intro!: flog_at_cong)
    then have "has_init_flogs (content ns') (unat base) ext i F"
      using fl f2 pm(4) unfolding has_init_flogs_def by (metis Suc_leI le_neq_implies_less)
    moreover have "\<forall>x. x < unat base + 64 * i \<or> unat base + 64 * F \<le> x \<longrightarrow> content ns' x = ?m x"
    proof (intro allI impI)
      fix x assume x: "x < unat base + 64 * i \<or> unat base + 64 * F \<le> x"
      have "64 * Suc i \<le> 64 * F" using lt by simp
      then have "x < unat off \<or> unat off + 32 \<le> x" "x < unat base + 64 * Suc i \<or> unat base + 64 * F \<le> x" using x pm(4) by auto
      then show "content ns' x = ?m x" using out m2 by metis
    qed
    ultimately show ?thesis using step r l by auto
  qed
qed
end

section \<open>Fresh arenas\<close>

definition fresh_arena :: "u64 \<Rightarrow> btt_info \<Rightarrow> nat \<Rightarrow> arena" where
  "fresh_arena off i F =
     \<lparr>ar_flags = bi_flags i, ar_external_nlba = bi_external_nlba i, ar_internal_lbasize = bi_internal_lbasize i,
      ar_internal_nlba = bi_internal_nlba i, ar_startoff = off, ar_dataoff = off + bi_dataoff i,
      ar_mapoff = off + bi_mapoff i, ar_flogoff = off + bi_flogoff i, ar_nextoff = off + bi_nextoff i,
      ar_flogs = map (\<lambda>j. \<lparr>fr_flog = init_flog (bi_external_nlba i) j,
        fr_entries = (off + bi_flogoff i + of_nat (64 * j), off + bi_flogoff i + of_nat (64 * j) + 16), fr_next = 1\<rparr>) [0..<F],
      ar_rtt = replicate F BTT_MAP_ENTRY_ERROR, ar_map_locks = replicate F False, ar_info_lock = False\<rparr>"

lemma fresh_describes: "describes i (fresh_arena off i F)"
  by (simp add: describes_def fresh_arena_def)

lemma rd32_zero: "(\<And>x. a \<le> x \<Longrightarrow> x < a + 4 \<Longrightarrow> m x = 0) \<Longrightarrow> rd32 m a = 0"
proof -
  assume "\<And>x. a \<le> x \<Longrightarrow> x < a + 4 \<Longrightarrow> m x = 0"
  then have "rd32 m a = rd32 (\<lambda>_. 0) a" by (intro rd32_cong)
  also have "\<dots> = 0" by (simp add: rd32_conv bytes_at_const u32_bytes_def nat_bytes_0 del: replicate.simps)
  finally show ?thesis .
qed

lemma blk_or_zero: "blk (x OR BTT_MAP_ENTRY_ZERO) = blk x"
  unfolding blk_def entry_consts entry_bits by simp

lemma initial_zero: "map_entry_is_initial 0" "effective p 0 = of_nat p OR BTT_MAP_ENTRY_NORMAL"
  by (simp_all add: map_entry_is_initial_def effective_def)

lemma init_flog_pair: "flog_pair_ok (init_flog ext j) Zflog (init_flog ext j) 1"
  by (simp add: flog_pair_ok_def init_flog_def Zflog_def seq_ok_def)

text \<open>An info block that fits at an offset of the namespace, for \<open>F\<close> lanes and blocks of \<open>lbs\<close> bytes.\<close>

definition info_placed :: "nat \<Rightarrow> nat \<Rightarrow> nat \<Rightarrow> u64 \<Rightarrow> btt_info \<Rightarrow> nat \<Rightarrow> bool" where
  "info_placed sz F lbs off i asz \<longleftrightarrow>
     info_regions i asz \<and> lbs \<le> unat (bi_internal_lbasize i) \<and> F = unat (bi_nfree i) \<and> 0 < F \<and>
     unat off + asz \<le> sz \<and> sz < 2 ^ 64 \<and> 64 dvd unat off \<and> 64 dvd unat (bi_mapoff i) \<and> 64 dvd unat (bi_flogoff i)"

lemma placed_offsets:
  assumes "info_placed sz F lbs off i asz"
  shows "unat (off + bi_dataoff i) = unat off + 4096" "unat (off + bi_mapoff i) = unat off + unat (bi_mapoff i)"
    "unat (off + bi_flogoff i) = unat off + unat (bi_flogoff i)" "unat (off + bi_infooff i) = unat off + unat (bi_infooff i)"
  using assms by (auto simp: info_placed_def info_regions_def intro!: trans [OF unat_plus_u64])

lemma fresh_arena_simps:
  assumes "info_placed sz F lbs off i asz"
  defines "ar \<equiv> fresh_arena off i F"
  shows "a_start ar = unat off" "a_data ar = unat off + 4096" "a_map ar = unat off + unat (bi_mapoff i)"
    "a_flog ar = unat off + unat (bi_flogoff i)" "a_ext ar = unat (bi_external_nlba i)" "a_int ar = unat (bi_internal_nlba i)"
    "a_lbs ar = unat (bi_internal_lbasize i)" "runtime_flogs ar = map (\<lambda>j. (init_flog (bi_external_nlba i) j, 1)) [0..<F]"
  using placed_offsets [OF assms(1)] by (simp_all add: ar_def fresh_arena_def runtime_flogs_def)

lemma fresh_geom:
  assumes "info_placed sz F lbs off i asz"
  shows "geom sz F lbs (fresh_arena off i F)"
proof -
  have r: "info_regions i asz" "lbs \<le> unat (bi_internal_lbasize i)" "F = unat (bi_nfree i)" "unat off + asz \<le> sz" "sz < 2 ^ 64"
    and a: "64 dvd unat off" "64 dvd unat (bi_mapoff i)" "64 dvd unat (bi_flogoff i)"
    using assms by (auto simp: info_placed_def)
  have "64 dvd unat off + unat (bi_mapoff i)" "64 dvd unat off + unat (bi_flogoff i)" using a by simp_all
  then have "4 dvd unat off + unat (bi_mapoff i)" "8 dvd unat off + unat (bi_flogoff i)"
    by (auto intro: dvd_trans [of _ 64])
  then show ?thesis
    unfolding geom_def fresh_arena_simps [OF assms] using r by (auto simp: info_regions_def)
qed

lemma fresh_media:
  assumes pl: "info_placed sz F lbs off i asz"
    and mp: "\<And>x. unat off + unat (bi_mapoff i) \<le> x \<Longrightarrow> x < unat off + unat (bi_mapoff i) + 4 * unat (bi_external_nlba i) \<Longrightarrow> m x = 0"
    and fl: "has_init_flogs m (unat off + unat (bi_flogoff i)) (bi_external_nlba i) 0 F"
  defines "ar \<equiv> fresh_arena off i F"
  shows "media_ok F m ar (runtime_flogs ar)" and "p < a_ext ar \<Longrightarrow> block_of lbs m ar p = BZero"
proof -
  note s = fresh_arena_simps [OF pl, folded ar_def]
  let ?e = "unat (bi_external_nlba i)"
  have r: "?e + F = unat (bi_internal_nlba i)" "F \<le> ?e" "unat (bi_internal_nlba i) < 2 ^ 30" "0 < F"
    using pl by (auto simp: info_placed_def info_regions_def)
  have me: "mapent m ar p = 0" if "p < ?e" for p
    unfolding mapent_def s using that by (intro rd32_zero mp) auto
  have u: "unat (of_nat j :: u32) = j" if "j < F" for j using that r by (simp add: unat_of_nat)
  have bl: "blk (bi_external_nlba i + of_nat j) = ?e + j" if "j < F" for j
  proof -
    have "unat (bi_external_nlba i + of_nat j) = ?e + j"
      using that r u [OF that] by (subst unat_add_lem [THEN iffD1]) simp_all
    then show ?thesis using that r by (simp add: blk_of_small)
  qed
  have ph: "phys m ar (runtime_flogs ar) = [0..<?e + F]"
  proof (rule nth_equalityI)
    fix j assume "j < length (phys m ar (runtime_flogs ar))"
    then have j: "j < ?e + F" using s by simp
    show "phys m ar (runtime_flogs ar) ! j = [0..<?e + F] ! j"
    proof (cases "j < ?e")
      case True
      have uj: "unat (of_nat j :: u32) = j" using True r by (simp add: unat_of_nat)
      have "blk (of_nat j) = j" using True r uj by (subst blk_of_small) simp_all
      then show ?thesis using True s(5) nth_phys(1) [of j ar m] me [OF True] by (simp add: initial_zero)
    next
      case False
      then obtain k where k: "j = ?e + k" "k < F" using j by (metis add_less_cancel_left le_Suc_ex not_less)
      then show ?thesis using s(5,8) nth_phys(2) [of k "runtime_flogs ar" m ar] bl [OF k(2)] by (simp add: init_flog_def blk_or_zero)
    qed
  qed (simp add: s)
  have "pairs_ok m ar (runtime_flogs ar)"
    unfolding pairs_ok_def Let_def s
  proof (intro allI impI)
    fix j assume "j < length (map (\<lambda>j. (init_flog (bi_external_nlba i) j, 1 :: nat)) [0..<F])"
    then have j: "j < F" by simp
    then have "flog_at m (unat off + unat (bi_flogoff i) + 64 * j) = init_flog (bi_external_nlba i) j"
      "flog_at m (unat off + unat (bi_flogoff i) + 64 * j + 16) = Zflog" using fl by (simp_all add: has_init_flogs_def)
    moreover have "unat (fl_lba (init_flog (bi_external_nlba i) j)) < ?e" "unat (fl_lba Zflog) < ?e"
      using u [OF j] j r by (simp_all add: init_flog_def Zflog_def)
    ultimately show "flog_pair_ok (flog_at m (unat off + unat (bi_flogoff i) + 64 * j)) (flog_at m (unat off + unat (bi_flogoff i) + 64 * j + 16))
        (fst (map (\<lambda>j. (init_flog (bi_external_nlba i) j, 1)) [0..<F] ! j)) (snd (map (\<lambda>j. (init_flog (bi_external_nlba i) j, 1 :: nat)) [0..<F] ! j)) \<and>
      unat (fl_lba (flog_at m (unat off + unat (bi_flogoff i) + 64 * j))) < ?e \<and>
      unat (fl_lba (flog_at m (unat off + unat (bi_flogoff i) + 64 * j + 16))) < ?e"
      using j init_flog_pair by simp
  qed
  then show "media_ok F m ar (runtime_flogs ar)" using ph r s by (simp add: media_ok_def)
  show "block_of lbs m ar p = BZero" if "p < a_ext ar"
    using me that s initial_not_error [OF initial_zero(1)] by (simp add: block_of_def Let_def)
qed

lemma fresh_arena_ok:
  assumes "info_placed sz F lbs off i asz" and "media_ok F m (fresh_arena off i F) (runtime_flogs (fresh_arena off i F))"
  shows "arena_ok sz F lbs m (fresh_arena off i F)"
  using assms(2) fresh_geom [OF assms(1)] unfolding arena_ok_def
  by (simp add: fresh_arena_def del: of_nat_mult)

section \<open>Writing an arena\<close>

text \<open>The info block that is written for an arena.\<close>

definition final_info :: "'ns btt \<Rightarrow> btt_info \<Rightarrow> btt_info" where
  "final_info s i = info_checksum_insert (i\<lparr>bi_sig := Sig, bi_uuid := bt_uuid s, bi_parent_uuid := bt_parent_uuid s,
     bi_major := 1, bi_minor := 1\<rparr>)"

definition uuids_ok :: "'ns btt \<Rightarrow> bool" where
  "uuids_ok s \<longleftrightarrow> length (bt_uuid s) = 16 \<and> length (bt_parent_uuid s) = 16"

lemma final_info_spec:
  assumes "length (bi_unused i) = 3968" and "uuids_ok s"
  shows "read_info (bt_parent_uuid s) (btt_info_convert2le (final_info s i)) = Some (final_info s i)"
    "btt_info_convert2h (btt_info_convert2le (final_info s i)) = final_info s i"
    "length (btt_info_convert2le (final_info s i)) = 4096"
    "describes (final_info s i) ar = describes i ar" "bi_infooff (final_info s i) = bi_infooff i"
    "bi_nextoff (final_info s i) = bi_nextoff i" "bi_external_lbasize (final_info s i) = bi_external_lbasize i"
    "bi_nfree (final_info s i) = bi_nfree i" "bi_external_nlba (final_info s i) = bi_external_nlba i"
proof -
  let ?i = "i\<lparr>bi_sig := Sig, bi_uuid := bt_uuid s, bi_parent_uuid := bt_parent_uuid s, bi_major := 1, bi_minor := 1\<rparr>"
  have wf: "info_wf ?i" using assms by (simp add: info_wf_def uuids_ok_def Sig_def)
  from read_info_inserted [OF wf] show
    "read_info (bt_parent_uuid s) (btt_info_convert2le (final_info s i)) = Some (final_info s i)"
    "btt_info_convert2h (btt_info_convert2le (final_info s i)) = final_info s i"
    "length (btt_info_convert2le (final_info s i)) = 4096" by (simp_all add: final_info_def)
  obtain c where "info_checksum_insert ?i = ?i\<lparr>bi_checksum := c\<rparr>" using info_checksum_inserted [OF wf] .
  then have "final_info s i = ?i\<lparr>bi_checksum := c\<rparr>" by (simp add: final_info_def)
  then show "describes (final_info s i) ar = describes i ar" "bi_infooff (final_info s i) = bi_infooff i"
    "bi_nextoff (final_info s i) = bi_nextoff i" "bi_external_lbasize (final_info s i) = bi_external_lbasize i"
    "bi_nfree (final_info s i) = bi_nfree i" "bi_external_nlba (final_info s i) = bi_external_nlba i"
    by (simp_all add: describes_def)
qed

lemma has_init_flogs_cong:
  assumes "has_init_flogs m base ext i F" and same: "\<And>x. base \<le> x \<Longrightarrow> x < base + 64 * F \<Longrightarrow> m' x = m x"
  shows "has_init_flogs m' base ext i F"
  unfolding has_init_flogs_def
proof (intro allI impI)
  fix j assume j: "i \<le> j" "j < F"
  then have "flog_at m' (base + 64 * j) = flog_at m (base + 64 * j)" "flog_at m' (base + 64 * j + 16) = flog_at m (base + 64 * j + 16)"
    by (auto intro!: flog_at_cong same)
  then show "flog_at m' (base + 64 * j) = init_flog ext j \<and> flog_at m' (base + 64 * j + 16) = Zflog"
    using assms(1) j by (simp add: has_init_flogs_def)
qed

context reliable_namespace
begin

lemma write_arena_spec:
  fixes asz left :: u64
  assumes zeroed: "cb_ns_is_zeroed cb \<or> off = 0"
    and un: "length (bi_unused info) = 3968" "uuids_ok s"
    and F: "F = unat (bt_nfree s)"
  defines "i \<equiv> btt_info_set_offs info asz left"
  assumes pl: "info_placed nssize F lbs off i (unat asz)"
    and ms: "unat (bi_mapoff i) + unat (btt_map_size (bi_external_nlba i)) \<le> unat (bi_flogoff i)"
      "4 * unat (bi_external_nlba i) \<le> unat (btt_map_size (bi_external_nlba i))"
    and z: "cb_ns_is_zeroed cb \<Longrightarrow> \<forall>x. unat off \<le> x \<and> x < unat off + unat asz \<longrightarrow> content (bt_ns s) x = 0"
  shows "\<exists>ns'. write_arena cb s lane info asz left off = Some (Inr (off + bi_nextoff i), s\<lparr>bt_ns := ns'\<rparr>) \<and>
    (\<forall>x. x < unat off \<or> unat off + unat asz \<le> x \<longrightarrow> content ns' x = content (bt_ns s) x) \<and>
    bytes_at (content ns') (unat off) 4096 = btt_info_convert2le (final_info s i) \<and>
    media_ok F (content ns') (fresh_arena off i F) (runtime_flogs (fresh_arena off i F)) \<and>
    (\<forall>p < unat (bi_external_nlba i). block_of lbs (content ns') (fresh_arena off i F) p = BZero)"
proof -
  let ?m = "content (bt_ns s)" and ?mo = "unat (bi_mapoff i)" and ?fo = "unat (bi_flogoff i)" and ?io = "unat (bi_infooff i)"
  have r: "4096 \<le> ?mo" "?mo + 4 * unat (bi_external_nlba i) \<le> ?fo" "?fo + 64 * F \<le> ?io" "?io + 4096 = unat asz"
    "unat off + unat asz \<le> nssize" "64 dvd unat off + ?fo"
    using pl by (auto simp: info_placed_def info_regions_def)
  note po = placed_offsets [OF pl]
  obtain ns0 where z0: "(if cb_ns_is_zeroed cb then Some (Inr (), s)
      else ns_zero cb s lane (btt_map_size (bi_external_nlba i)) (bi_mapoff i)) = Some (Inr (), s\<lparr>bt_ns := ns0\<rparr>)"
    and c0: "\<And>x. unat off + ?mo \<le> x \<Longrightarrow> x < unat off + ?mo + 4 * unat (bi_external_nlba i) \<Longrightarrow> content ns0 x = 0"
      "\<And>x. x < unat off + ?mo \<or> unat off + ?fo \<le> x \<Longrightarrow> content ns0 x = ?m x"
  proof (cases "cb_ns_is_zeroed cb")
    case True
    then show ?thesis using z r by (intro that [of "bt_ns s"]) auto
  next
    case False
    then have off: "off = 0" using zeroed by simp
    have "?mo + unat (btt_map_size (bi_external_nlba i)) \<le> nssize" using ms r by linarith
    from nszero_law [OF this, of "bt_ns s" lane] obtain ns0 where
      "cb_nszero cb (bt_ns s) lane (btt_map_size (bi_external_nlba i)) (bi_mapoff i) = (None, ns0)"
      "content ns0 = store ?m ?mo (replicate (unat (btt_map_size (bi_external_nlba i))) 0)" by blast
    then show ?thesis using False off ms by (intro that [of ns0]) (auto simp: ns_zero_def store_def)
  qed
  let ?s0 = "s\<lparr>bt_ns := ns0\<rparr>"
  from write_flogs_spec [where i = 0 and F = F and base = "off + bi_flogoff i" and off = "off + bi_flogoff i" and s = ?s0 and lane = lane
      and ext = "bi_external_nlba i"] obtain ns1 where
    f1: "write_flogs_loop cb ?s0 lane [0..<F] (off + bi_flogoff i) (bi_external_nlba i) = Some (Inr (), s\<lparr>bt_ns := ns1\<rparr>)"
    and c1: "\<And>x. x < unat off + ?fo \<or> unat off + ?fo + 64 * F \<le> x \<Longrightarrow> content ns1 x = content ns0 x"
      "has_init_flogs (content ns1) (unat off + ?fo) (bi_external_nlba i) 0 F"
    using r po by auto
  let ?s1 = "s\<lparr>bt_ns := ns1\<rparr>" and ?J = "final_info s i"
  have ui: "length (bi_unused i) = 3968" using un(1) by (simp add: i_def btt_info_set_offs_def Let_def)
  note J = final_info_spec [OF ui un(2)]
  let ?bs = "btt_info_convert2le ?J"
  obtain ns2 where w2: "ns_write cb ?s1 lane ?bs off = Some (Inr (), ?s1\<lparr>bt_ns := ns2\<rparr>)" "content ns2 = store (content ns1) (unat off) ?bs"
    using ns_write_reliable [of off ?bs ?s1 lane] J(3) r by auto
  let ?s2 = "s\<lparr>bt_ns := ns2\<rparr>"
  obtain ns3 where w3: "ns_write cb ?s2 lane ?bs (off + bi_infooff i) = Some (Inr (), ?s2\<lparr>bt_ns := ns3\<rparr>)"
    "content ns3 = store (content ns2) (unat off + ?io) ?bs"
    using ns_write_reliable [of "off + bi_infooff i" ?bs ?s2 lane] J(3) r po(4) by auto
  have c3: "content ns3 x = content ns1 x" if "x < unat off \<or> unat off + 4096 \<le> x \<and> x < unat off + ?io \<or> unat off + unat asz \<le> x" for x
    unfolding w3(2) w2(2) using that r J(3) by (auto simp: store_out)
  have io: "bi_infooff (final_info s i) = bi_infooff i" "bi_nextoff (final_info s i) = bi_nextoff i" using J by simp_all
  have wa: "write_arena cb s lane info asz left off = Some (Inr (off + bi_nextoff i), s\<lparr>bt_ns := ns3\<rparr>)"
    unfolding write_arena_def Let_def i_def [symmetric] z0 seqE_simps
    using f1 w2(1) w3(1) F io by (simp add: seqE_simps final_info_def)
  have "bytes_at (content ns3) (unat off) 4096 = ?bs"
  proof -
    have "bytes_at (content ns3) (unat off) 4096 = bytes_at (content ns2) (unat off) 4096"
      unfolding w3(2) using r by (intro bytes_at_store_disjoint) simp
    then show ?thesis unfolding w2(2) using J(3) by (simp add: bytes_at_store_same)
  qed
  moreover have "content ns3 x = 0" if "unat off + ?mo \<le> x" "x < unat off + ?mo + 4 * unat (bi_external_nlba i)" for x
    using c3 [of x] c1(1) [of x] c0(1) [of x] that r by simp
  moreover have "has_init_flogs (content ns3) (unat off + ?fo) (bi_external_nlba i) 0 F"
    using r by (intro has_init_flogs_cong [OF c1(2)] c3) auto
  moreover have "content ns3 x = ?m x" if "x < unat off \<or> unat off + unat asz \<le> x" for x
    using c3 [of x] c1(1) [of x] c0(2) [of x] that r by auto
  ultimately show ?thesis
    using wa fresh_media [OF pl, of "content ns3"] fresh_arena_simps(5) [OF pl] by (intro exI [of _ ns3]) simp
qed
end

section \<open>Writing all arenas\<close>

lemma params_unused:
  assumes "btt_info_set_params zero_info L ils nfree asz = Inr info"
  shows "length (bi_unused info) = 3968" "bi_flags info = 0"
  using assms by (auto simp: btt_info_set_params_def Let_def zero_info_def split: if_splits)

lemma params_placed:
  fixes left :: u64
  assumes set: "btt_info_set_params zero_info L (internal_lbasize L) nfree asz = Inr info"
    and nz: "internal_lbasize L \<noteq> 0" and asz: "2 ^ 24 \<le> unat asz" "unat asz \<le> 2 ^ 39" "4096 dvd unat asz"
    and nf: "0 < unat nfree" "unat nfree \<le> 256" and off: "64 dvd unat off" "unat off + unat asz \<le> sz" "sz < 2 ^ 64"
  defines "i \<equiv> btt_info_set_offs info asz left"
  shows "info_placed sz (unat nfree) (unat L) off i (unat asz)"
    "unat (bi_mapoff i) + unat (btt_map_size (bi_external_nlba i)) \<le> unat (bi_flogoff i)"
    "4 * unat (bi_external_nlba i) \<le> unat (btt_map_size (bi_external_nlba i))"
    "bi_external_lbasize i = L" "bi_nfree i = nfree" "bi_external_nlba i = bi_external_nlba info" "bi_external_nlba i \<noteq> 0"
    "bi_nextoff i = (if BTT_MIN_SIZE \<le> left then asz else 0)"
proof -
  note l = internal_lbasize_bounds [OF nz]
  have a16: "16384 + 64 * unat nfree \<le> unat asz" "unat nfree < 2 ^ 31" using asz nf by simp_all
  note ro = set_offs_regions [OF set asz(2) a16(1) l(1,2) a16(2), of left, folded i_def]
  have i: "bi_external_nlba i = bi_external_nlba info" "bi_nextoff i = (if BTT_MIN_SIZE \<le> left then asz else 0)"
    "bi_external_lbasize i = bi_external_lbasize info" "bi_nfree i = bi_nfree info" "bi_internal_lbasize i = bi_internal_lbasize info"
    by (simp_all add: i_def btt_info_set_offs_def Let_def)
  have p: "bi_external_lbasize info = L" "bi_nfree info = nfree" "bi_internal_lbasize info = internal_lbasize L"
    using set by (auto simp: btt_info_set_params_def Let_def split: if_splits)
  show "bi_external_lbasize i = L" "bi_nfree i = nfree" "bi_external_nlba i = bi_external_nlba info"
    "bi_nextoff i = (if BTT_MIN_SIZE \<le> left then asz else 0)" using i p by simp_all
  let ?ms = "unat (btt_map_size (bi_external_nlba i))" and ?fs = "unat (btt_flog_size nfree)"
  have e: "unat (bi_external_nlba i) < 2 ^ 30" "unat nfree \<le> unat (bi_external_nlba i)"
    using ro(1) i p by (auto simp: info_regions_def)
  then show "bi_external_nlba i \<noteq> 0" using nf by auto
  note m = map_size_bounds [OF e(1)]
  from m(1) show "4 * unat (bi_external_nlba i) \<le> ?ms" .
  have mo: "unat (bi_mapoff i) = unat asz - 4096 - ?fs - ?ms" "unat (bi_flogoff i) = unat asz - 4096 - ?fs" using ro(2,3) i(1) by simp_all
  have r: "4096 \<le> unat (bi_mapoff i)" using ro(1) by (auto simp: info_regions_def)
  from r mo show "unat (bi_mapoff i) + ?ms \<le> unat (bi_flogoff i)" by linarith
  have "4096 dvd unat asz - 4096 - ?fs" "4096 dvd unat asz - 4096 - ?fs - ?ms"
    using asz(3) flog_size_bounds(2) [of nfree] m(3) by (auto intro!: dvd_diff_nat)
  then have "64 dvd unat (bi_mapoff i)" "64 dvd unat (bi_flogoff i)" unfolding mo by (auto intro: dvd_trans [of 64 4096])
  then show "info_placed sz (unat nfree) (unat L) off i (unat asz)"
    using ro(1) l(3) i p nf off by (simp add: info_placed_def)
qed

text \<open>The number of arenas of a namespace.\<close>

definition narenas :: "nat \<Rightarrow> nat" where
  "narenas raw = raw div 2 ^ 39 + (if 2 ^ 24 \<le> raw mod 2 ^ 39 then 1 else 0)"

lemma narenas_step:
  "2 ^ 39 \<le> raw \<Longrightarrow> narenas raw = Suc (narenas (raw - 2 ^ 39))" "2 ^ 24 \<le> raw \<Longrightarrow> raw < 2 ^ 39 \<Longrightarrow> narenas raw = 1" "raw < 2 ^ 24 \<Longrightarrow> narenas raw = 0"
  by (simp_all add: narenas_def le_div_geq le_mod_geq)

text \<open>What \<open>write_layout\<close> leaves from the offset \<open>off\<close> on: the arenas, in order, formatted and zero.\<close>

definition laid_out :: "nat \<Rightarrow> 'ns btt \<Rightarrow> mem \<Rightarrow> u64 \<Rightarrow> u64 \<Rightarrow> arena list \<Rightarrow> bool" where
  "laid_out sz s m raw off ars \<longleftrightarrow>
     formatted m (bt_parent_uuid s) (bt_lbasize s) (bt_nfree s) raw off ars \<and>
     (\<forall>ar \<in> set ars. arena_ok sz (unat (bt_nfree s)) (unat (bt_lbasize s)) m ar \<and> unat off \<le> a_start ar \<and> ar_flags ar = 0 \<and>
        a_int ar = a_ext ar + unat (bt_nfree s) \<and>
        (\<forall>p < a_ext ar. block_of (unat (bt_lbasize s)) m ar p = BZero)) \<and>
     apart (unat (bt_nfree s)) ars \<and> length ars = narenas (unat raw)"

lemma arena_ok_frame:
  assumes "arena_ok sz F lbs m ar" and "\<And>x. a_start ar \<le> x \<Longrightarrow> x < a_flog ar + 64 * F \<Longrightarrow> m' x = m x"
  shows "arena_ok sz F lbs m' ar" "p < a_ext ar \<Longrightarrow> block_of lbs m' ar p = block_of lbs m ar p"
  using assms arena_frame [of sz F lbs ar m "runtime_flogs ar" m'] by (auto simp: arena_ok_def)

text \<open>An arena in front of the others.\<close>

lemma laid_out_Cons:
  assumes pl: "info_placed sz (unat (bt_nfree s)) (unat (bt_lbasize s)) off i asz"
    and bs: "bytes_at m1 (unat off) 4096 = btt_info_convert2le (final_info s i)"
    and mo: "media_ok (unat (bt_nfree s)) m1 (fresh_arena off i (unat (bt_nfree s))) (runtime_flogs (fresh_arena off i (unat (bt_nfree s))))"
    and bz: "\<forall>p < unat (bi_external_nlba i). block_of (unat (bt_lbasize s)) m1 (fresh_arena off i (unat (bt_nfree s))) p = BZero"
    and same: "\<And>x. x < unat off + asz \<Longrightarrow> m' x = m1 x"
    and i: "length (bi_unused i) = 3968" "uuids_ok s" "bi_external_lbasize i = bt_lbasize s" "bi_nfree i = bt_nfree s" "bi_external_nlba i \<noteq> 0"
      "bi_flags i = 0"
    and raw: "BTT_MIN_SIZE \<le> raw"
    and rest: "if ars = [] then bi_nextoff i = 0 \<and> narenas (unat raw) = 1
      else bi_nextoff i = BTT_MAX_ARENA \<and> BTT_MAX_ARENA \<le> raw \<and> unat (off + BTT_MAX_ARENA) = unat off + asz \<and>
        laid_out sz s m' (raw - BTT_MAX_ARENA) (off + BTT_MAX_ARENA) ars"
  shows "laid_out sz s m' raw off (fresh_arena off i (unat (bt_nfree s)) # ars)"
proof -
  let ?F = "unat (bt_nfree s)" and ?lbs = "unat (bt_lbasize s)"
  let ?ar = "fresh_arena off i ?F"
  note fs = fresh_arena_simps [OF pl]
  note J = final_info_spec [OF i(1,2)]
  have rg: "unat (bi_flogoff i) + 64 * ?F \<le> asz" "4096 \<le> asz" using pl by (auto simp: info_placed_def info_regions_def)
  have ok1: "arena_ok sz ?F ?lbs m1 ?ar" by (rule fresh_arena_ok [OF pl mo])
  have "arena_ok sz ?F ?lbs m' ?ar" "p < a_ext ?ar \<Longrightarrow> block_of ?lbs m' ?ar p = BZero" for p
    using arena_ok_frame [OF ok1, of m'] same fs rg bz by auto
  moreover have bs': "bytes_at m' (unat off) 4096 = btt_info_convert2le (final_info s i)"
    unfolding bs [symmetric] using rg by (intro bytes_at_eqI same) auto
  moreover have "a_flog ?ar + 64 * ?F \<le> unat off + asz" using fs rg by simp
  moreover have "describes (final_info s i) ?ar" using J(4) fresh_describes by simp
  moreover have "a_int ?ar = a_ext ?ar + ?F" using pl fs by (auto simp: info_placed_def info_regions_def)
  moreover have "ars \<noteq> [] \<Longrightarrow> length ars = narenas (unat raw - 2 ^ 39)" "ars \<noteq> [] \<Longrightarrow> 2 ^ 39 \<le> unat raw"
    using rest by (auto simp: laid_out_def unat_sub BTT_MAX_ARENA_def word_le_nat_alt)
  ultimately show ?thesis
    unfolding laid_out_def formatted.simps Let_def bs' J(2) using rest i raw J narenas_step(1) [of "unat raw"]
    by (cases "ars = []") (auto simp: laid_out_def apart_def fresh_arena_def)
qed

lemma laid_out_ns: "laid_out sz (s\<lparr>bt_ns := ns\<rparr>) = laid_out sz s"
  by (intro ext) (simp add: laid_out_def)

lemma BTT_sizes: "unat BTT_MIN_SIZE = 2 ^ 24" "unat BTT_MAX_ARENA = 2 ^ 39"
  by (simp_all add: BTT_MIN_SIZE_def BTT_MAX_ARENA_def)

text \<open>One step of the loop, when it only counts and when it writes.\<close>

lemma layout_loop_step:
  assumes "BTT_MIN_SIZE \<le> raw"
  defines "asz \<equiv> if raw > BTT_MAX_ARENA then BTT_MAX_ARENA else raw"
  shows "layout_loop cb s lane False ils raw tot off =
     (case btt_info_set_params zero_info (bt_lbasize s) ils (bt_nfree s) asz of
        Inl e \<Rightarrow> Some (Inl e, s)
      | Inr info \<Rightarrow> layout_loop cb s lane False ils (raw - asz) (tot + ucast (bi_external_nlba info)) off)"
    and "btt_info_set_params zero_info (bt_lbasize s) ils (bt_nfree s) asz = Inr info \<Longrightarrow>
      write_arena cb s lane info asz (raw - asz) off = Some (Inr off', s') \<Longrightarrow>
      layout_loop cb s lane True ils raw tot off =
        layout_loop cb s' lane True ils (raw - asz) (tot + ucast (bi_external_nlba info)) off'"
proof -
  have nl: "\<not> raw < BTT_MIN_SIZE" using assms(1) by simp
  show "layout_loop cb s lane False ils raw tot off =
     (case btt_info_set_params zero_info (bt_lbasize s) ils (bt_nfree s) asz of
        Inl e \<Rightarrow> Some (Inl e, s)
      | Inr info \<Rightarrow> layout_loop cb s lane False ils (raw - asz) (tot + ucast (bi_external_nlba info)) off)"
    by (subst layout_loop.simps) (simp add: nl Let_def asz_def [symmetric] split: sum.split)
  show "layout_loop cb s lane True ils raw tot off =
        layout_loop cb s' lane True ils (raw - asz) (tot + ucast (bi_external_nlba info)) off'"
    if "btt_info_set_params zero_info (bt_lbasize s) ils (bt_nfree s) asz = Inr info"
      "write_arena cb s lane info asz (raw - asz) off = Some (Inr off', s')"
    by (subst layout_loop.simps) (simp add: nl Let_def asz_def [symmetric] that)
qed

lemma layout_loop_end: "raw < BTT_MIN_SIZE \<Longrightarrow> layout_loop cb s lane wr ils raw tot off = Some (Inr tot, s)"
  by (subst layout_loop.simps) simp

lemma arena_size_bounds:
  assumes "BTT_MIN_SIZE \<le> raw" and "4096 dvd unat raw"
  defines "asz \<equiv> if raw > BTT_MAX_ARENA then BTT_MAX_ARENA else raw"
  shows "2 ^ 24 \<le> unat asz" "unat asz \<le> 2 ^ 39" "4096 dvd unat asz" "unat asz \<le> unat raw" "unat (raw - asz) = unat raw - unat asz"
    "BTT_MIN_SIZE \<le> raw - asz \<Longrightarrow> asz = BTT_MAX_ARENA"
    "\<not> BTT_MIN_SIZE \<le> raw - asz \<Longrightarrow> narenas (unat raw) = 1"
proof -
  have r: "2 ^ 24 \<le> unat raw" using assms(1) by (simp add: word_le_nat_alt BTT_sizes)
  have a: "unat asz = (if unat raw > 2 ^ 39 then 2 ^ 39 else unat raw)" by (simp add: asz_def word_less_nat_alt BTT_sizes)
  show b: "2 ^ 24 \<le> unat asz" "unat asz \<le> 2 ^ 39" "4096 dvd unat asz" "unat asz \<le> unat raw" using r assms(2) by (auto simp: a)
  from b(4) show s: "unat (raw - asz) = unat raw - unat asz" by (simp add: unat_sub word_le_nat_alt)
  show "BTT_MIN_SIZE \<le> raw - asz \<Longrightarrow> asz = BTT_MAX_ARENA"
    using a s by (auto simp: word_le_nat_alt BTT_sizes asz_def word_less_nat_alt)
  show "narenas (unat raw) = 1" if "\<not> BTT_MIN_SIZE \<le> raw - asz"
  proof (cases "2 ^ 39 \<le> unat raw")
    case True
    then have "unat asz = 2 ^ 39" using a by auto
    then show ?thesis using that s narenas_step(1) [OF True] narenas_step(3) [of "unat raw - 2 ^ 39"]
      by (simp add: word_le_nat_alt BTT_sizes)
  qed (use narenas_step(2) r in simp)
qed

context reliable_namespace
begin

lemma layout_loop_spec:
  assumes "layout_loop cb s0 l0 False (internal_lbasize (bt_lbasize s)) raw tot off0 = Some (Inr tot', s1)"
    and "bt_lbasize s0 = bt_lbasize s" "bt_nfree s0 = bt_nfree s"
    and "BTT_MIN_SIZE \<le> raw" and "internal_lbasize (bt_lbasize s) \<noteq> 0" and "uuids_ok s"
    and "0 < unat (bt_nfree s)" "unat (bt_nfree s) \<le> 256" and "64 dvd unat off" and "4096 dvd unat raw" and "unat off + unat raw \<le> nssize"
    and "cb_ns_is_zeroed cb \<and> (\<forall>x. unat off \<le> x \<and> x < unat off + unat raw \<longrightarrow> content (bt_ns s) x = 0) \<or>
      \<not> cb_ns_is_zeroed cb \<and> off = 0 \<and> narenas (unat raw) = 1"
  shows "\<exists>ns' ars. layout_loop cb s lane True (internal_lbasize (bt_lbasize s)) raw tot off = Some (Inr tot', s\<lparr>bt_ns := ns'\<rparr>) \<and>
    laid_out nssize s (content ns') raw off ars \<and> (\<forall>x < unat off. content ns' x = content (bt_ns s) x) \<and>
    tot' = tot + sum_list (map (\<lambda>ar. ucast (ar_external_nlba ar)) ars)"
  using assms
proof (induction "unat raw" arbitrary: raw tot off s rule: less_induct)
  case less
  note pm = less.prems
  let ?ils = "internal_lbasize (bt_lbasize s)" and ?F = "unat (bt_nfree s)" and ?lbs = "unat (bt_lbasize s)"
  define asz where "asz = (if raw > BTT_MAX_ARENA then BTT_MAX_ARENA else raw)"
  note ab = arena_size_bounds [OF pm(4,10), folded asz_def]
  obtain info where set: "btt_info_set_params zero_info (bt_lbasize s) ?ils (bt_nfree s) asz = Inr info"
    and l0: "layout_loop cb s0 l0 False ?ils (raw - asz) (tot + ucast (bi_external_nlba info)) off0 = Some (Inr tot', s1)"
    using pm(1) unfolding layout_loop_step(1) [OF pm(4), folded asz_def] pm(2,3) by (auto split: sum.splits)
  let ?i = "btt_info_set_offs info asz (raw - asz)"
  have le: "unat off + unat asz \<le> nssize" using pm(11) ab(4) by simp
  note un = params_unused [OF set]
  note pp = params_placed [OF set pm(5) ab(1-3) pm(7,8,9) le nssize, of "raw - asz"]
  have zr: "cb_ns_is_zeroed cb \<or> off = 0" "cb_ns_is_zeroed cb \<Longrightarrow> \<forall>x. unat off \<le> x \<and> x < unat off + unat asz \<longrightarrow> content (bt_ns s) x = 0"
    using pm(12) ab(4) by auto
  obtain ns1 where wa: "write_arena cb s lane info asz (raw - asz) off = Some (Inr (off + bi_nextoff ?i), s\<lparr>bt_ns := ns1\<rparr>)"
    and out: "\<forall>x. x < unat off \<or> unat off + unat asz \<le> x \<longrightarrow> content ns1 x = content (bt_ns s) x"
    and bs: "bytes_at (content ns1) (unat off) 4096 = btt_info_convert2le (final_info s ?i)"
    and mo: "media_ok ?F (content ns1) (fresh_arena off ?i ?F) (runtime_flogs (fresh_arena off ?i ?F))"
    and bz: "\<forall>p < unat (bi_external_nlba ?i). block_of ?lbs (content ns1) (fresh_arena off ?i ?F) p = BZero"
    using write_arena_spec [OF zr(1) un(1) pm(6) refl pp(1-3) zr(2), of lane] by blast
  let ?s1 = "s\<lparr>bt_ns := ns1\<rparr>" and ?ar = "fresh_arena off ?i ?F"
  have lp: "layout_loop cb s lane True ?ils raw tot off =
      layout_loop cb ?s1 lane True ?ils (raw - asz) (tot + ucast (bi_external_nlba info)) (off + bi_nextoff ?i)"
    by (rule layout_loop_step(2) [OF pm(4), folded asz_def, OF set wa])
  have ext: "ar_external_nlba ?ar = bi_external_nlba info" using pp(6) by (simp add: fresh_arena_def)
  have ui: "length (bi_unused ?i) = 3968" "bi_flags ?i = 0" using un by (simp_all add: btt_info_set_offs_def Let_def)
  note cons = laid_out_Cons [OF pp(1) bs mo bz _ ui(1) pm(6) pp(4,5,7) ui(2) pm(4)]
  show ?case
  proof (cases "BTT_MIN_SIZE \<le> raw - asz")
    case False
    have "laid_out nssize s (content ns1) raw off [?ar]"
      using cons [of "content ns1" "[]"] pp(8) False ab(7) by simp
    moreover have "layout_loop cb s lane True ?ils raw tot off = Some (Inr tot', ?s1)"
      using lp l0 False by (simp add: layout_loop_end not_le)
    moreover have "tot' = tot + ucast (bi_external_nlba info)" using l0 False by (simp add: layout_loop_end not_le)
    ultimately show ?thesis using out ext by (intro exI [of _ ns1] exI [of _ "[?ar]"]) simp
  next
    case True
    have am: "asz = BTT_MAX_ARENA" by (rule ab(6) [OF True])
    have nx: "off + bi_nextoff ?i = off + asz" using pp(8) True by simp
    have mn: "2 ^ 24 \<le> unat (raw - asz)" using True by (simp add: word_le_nat_alt BTT_sizes)
    have "unat off + unat asz < 2 ^ 64" using le nssize by simp
    then have uo: "unat (off + asz) = unat off + unat asz" by (rule unat_plus_u64)
    have lt: "unat (raw - asz) < unat raw" using ab(1,4,5) by simp
    have "2 ^ 39 \<le> unat raw" using am ab(4) by (simp add: BTT_sizes)
    moreover have "0 < narenas (unat raw - 2 ^ 39)"
    proof (cases "2 ^ 39 \<le> unat raw - 2 ^ 39")
      case False
      then show ?thesis using narenas_step(2) [of "unat raw - 2 ^ 39"] mn ab(5) am by (simp add: BTT_sizes)
    qed (simp add: narenas_step(1))
    ultimately have n2: "narenas (unat raw) \<noteq> 1" using narenas_step(1) by simp
    have z': "cb_ns_is_zeroed cb \<and> (\<forall>x. unat (off + asz) \<le> x \<and> x < unat (off + asz) + unat (raw - asz) \<longrightarrow> content (bt_ns ?s1) x = 0)"
      using pm(12) n2 out uo ab(4,5) by auto
    have p': "unat (off + asz) + unat (raw - asz) \<le> nssize" "64 dvd unat (off + asz)" "4096 dvd unat (raw - asz)"
      using pm(9,10,11) uo ab(3,4,5) by (auto intro: dvd_diff_nat dvd_trans [of 64 4096])
    have us: "uuids_ok ?s1" using pm(6) by (simp add: uuids_ok_def)
    from less.hyps [OF lt, where s = ?s1 and tot = "tot + ucast (bi_external_nlba info)" and off = "off + asz"] pm l0 True us p' z'
    obtain ns' ars where l: "layout_loop cb ?s1 lane True ?ils (raw - asz) (tot + ucast (bi_external_nlba info)) (off + asz) = Some (Inr tot', s\<lparr>bt_ns := ns'\<rparr>)"
      and lo: "laid_out nssize s (content ns') (raw - asz) (off + asz) ars"
      and low: "\<forall>x < unat (off + asz). content ns' x = content ns1 x"
      and tt: "tot' = tot + ucast (bi_external_nlba info) + sum_list (map (\<lambda>ar. ucast (ar_external_nlba ar)) ars)"
      by (auto simp: laid_out_ns)
    have ne: "ars \<noteq> []" using lo by (auto simp: laid_out_def formatted.simps)
    have "laid_out nssize s (content ns') raw off (?ar # ars)"
      using cons [of "content ns'" ars] low uo ne pp(8) True lo ab(4) am by (simp add: word_le_nat_alt)
    moreover have "\<forall>x < unat off. content ns' x = content (bt_ns s) x" using low out uo by simp
    ultimately show ?thesis using lp nx l tt ext by (intro exI [of _ ns'] exI [of _ "?ar # ars"]) (simp add: algebra_simps)
  qed
qed
end

section \<open>The first write\<close>

text \<open>A handle for a namespace without a layout, as \<open>btt_init\<close> returns it: the number of blocks is
  known, nothing is written yet. The map area has to read as zeros, or has to be zeroed by the only
  arena.\<close>

definition blank :: "'ns ns_callback \<Rightarrow> nat \<Rightarrow> mem \<Rightarrow> 'ns btt \<Rightarrow> bool" where
  "blank cb sz m s \<longleftrightarrow>
     \<not> bt_laidout s \<and> \<not> bt_layout_write_mutex s \<and> bt_nfree s = BTT_DEFAULT_NFREE \<and> unat (bt_nlane s) \<le> unat (bt_nfree s) \<and>
     length (bt_parent_uuid s) = 16 \<and> bt_oom s = [] \<and> BTT_MIN_SIZE \<le> bt_rawsize s \<and> 4096 dvd unat (bt_rawsize s) \<and>
     unat (bt_rawsize s) \<le> sz \<and> internal_lbasize (bt_lbasize s) \<noteq> 0 \<and>
     layout_loop cb s 0 False (internal_lbasize (bt_lbasize s)) (bt_rawsize s) 0 0 = Some (Inr (bt_nlba s), s) \<and>
     (if cb_ns_is_zeroed cb then \<forall>x < unat (bt_rawsize s). m x = 0 else narenas (unat (bt_rawsize s)) = 1)"

text \<open>Counting does not use the callbacks.\<close>

lemma layout_loop_count:
  "layout_loop cb s lane False ils raw tot off = Some (Inr tot', s1) \<Longrightarrow> bt_lbasize s' = bt_lbasize s \<Longrightarrow> bt_nfree s' = bt_nfree s \<Longrightarrow>
   layout_loop cb' s' lane' False ils raw tot off' = Some (Inr tot', s')"
proof (induction "unat raw" arbitrary: raw tot rule: less_induct)
  case less
  show ?case
  proof (cases "BTT_MIN_SIZE \<le> raw")
    case False
    then show ?thesis using less.prems(1) by (simp add: layout_loop_end)
  next
    case True
    define asz where "asz = (if raw > BTT_MAX_ARENA then BTT_MAX_ARENA else raw)"
    have "unat (raw - asz) < unat raw"
      using True by (auto simp: asz_def BTT_MIN_SIZE_def BTT_MAX_ARENA_def word_less_nat_alt word_le_nat_alt unat_sub)
    note ih = less.hyps [OF this]
    show ?thesis using less.prems ih unfolding layout_loop_step(1) [OF True, folded asz_def] by (auto split: sum.splits)
  qed
qed

lemma narenas_word:
  "unat (ucast (raw div BTT_MAX_ARENA) + (if BTT_MIN_SIZE \<le> raw mod BTT_MAX_ARENA then 1 else 0) :: u32) = narenas (unat raw)"
proof -
  have d: "unat (raw div BTT_MAX_ARENA) = unat raw div 2 ^ 39" "unat (raw mod BTT_MAX_ARENA) = unat raw mod 2 ^ 39"
    by (simp_all add: unat_div unat_mod BTT_sizes)
  have lt: "unat raw div 2 ^ 39 < 2 ^ 25" using unat_lt_u64 [of raw] by (simp add: div_less_iff_less_mult)
  then have "unat (ucast (raw div BTT_MAX_ARENA) :: u32) = unat raw div 2 ^ 39"
    using d by (simp add: unsigned_ucast_eq take_bit_nat_eq_self)
  then show ?thesis using lt d by (auto simp: narenas_def word_le_nat_alt BTT_sizes unat_word_ariths)
qed

lemma narenas_bound: "narenas (unat (raw :: u64)) \<le> 2 ^ 25"
proof -
  have "unat raw div 2 ^ 39 < 2 ^ 25" using unat_lt_u64 [of raw] by (simp add: div_less_iff_less_mult)
  then show ?thesis by (simp add: narenas_def)
qed

lemma sum_ext_bound:
  assumes "\<forall>ar \<in> set ars. a_ext ar \<le> 2 ^ 30" and "length ars \<le> 2 ^ 25"
  shows "sum_list (map a_ext ars) < 2 ^ 64"
proof -
  have "sum_list (map a_ext ars) \<le> length ars * 2 ^ 30" using assms(1) by (induction ars) auto
  also have "\<dots> \<le> 2 ^ 25 * 2 ^ 30" using assms(2) by simp
  finally show ?thesis by simp
qed

text \<open>The arenas that were written make a durable handle.\<close>

lemma laid_out_durable:
  assumes lo: "laid_out sz s m (bt_rawsize s) 0 ars" and nf: "0 < unat (bt_nfree s)" "bt_nfree s \<le> BTT_DEFAULT_NFREE"
    and s: "bt_laidout s" "\<not> bt_layout_write_mutex s" "unat (bt_nlane s) \<le> unat (bt_nfree s)" "bt_arenas s = ars"
      "unat (bt_narena s) = narenas (unat (bt_rawsize s))" "bt_nlba s = sum_list (map (\<lambda>ar. ucast (ar_external_nlba ar)) ars)"
  shows "durable sz m s" "\<not> invalid_lba s x \<Longrightarrow> btt_view m s x = BZero"
proof -
  have l: "length ars = narenas (unat (bt_rawsize s))" "apart (unat (bt_nfree s)) ars"
    and f: "formatted m (bt_parent_uuid s) (bt_lbasize s) (bt_nfree s) (bt_rawsize s) 0 ars"
    and ao: "\<And>ar. ar \<in> set ars \<Longrightarrow> arena_ok sz (unat (bt_nfree s)) (unat (bt_lbasize s)) m ar"
    and bz: "\<And>ar p. ar \<in> set ars \<Longrightarrow> p < a_ext ar \<Longrightarrow> block_of (unat (bt_lbasize s)) m ar p = BZero"
    using lo by (auto simp: laid_out_def)
  have "\<forall>ar \<in> set ars. a_ext ar \<le> 2 ^ 30" using ao by (fastforce simp: arena_ok_def geom_def)
  moreover have "length ars \<le> 2 ^ 25" using l(1) narenas_bound by simp
  ultimately have sm: "sum_list (map a_ext ars) < 2 ^ 64" by (rule sum_ext_bound)
  have "unat (bt_nlba s) = sum_list (map a_ext ars)"
    unfolding s(6) of_nat_sum_ext [symmetric] using sm by (rule unat_of_nat_u64)
  then have ok: "btt_ok sz m s"
    using s l nf ao by (auto simp: btt_ok_def the_arena_def apart_def sorted_wrt_iff_nth_less)
  then show "durable sz m s" using f nf(2) s(4) by (simp add: durable_def)
  show "btt_view m s x = BZero" if x: "\<not> invalid_lba s x"
  proof -
    obtain a p where "lba_to_arena_lba s x = Some (a, p)" "a < length (bt_arenas s)" "unat p < a_ext (the_arena s a)"
      using lba_to_arena [OF ok x] by metis
    then show ?thesis using bz s(4) by (simp add: btt_view_def the_arena_def)
  qed
qed

context reliable_namespace
begin

lemma first_layout_spec:
  assumes bl: "blank cb nssize (content (bt_ns s)) s" and lane: "lane < unat (bt_nfree s)" and u: "length u = 16"
  shows "\<exists>s'. first_layout (Inr u) cb s lane = Some (Inr (), s') \<and> durable nssize (content (bt_ns s')) s' \<and>
    bt_nlba s' = bt_nlba s \<and> bt_nlane s' = bt_nlane s \<and> bt_lbasize s' = bt_lbasize s \<and> bt_rawsize s' = bt_rawsize s \<and>
    bt_parent_uuid s' = bt_parent_uuid s \<and> (\<forall>a < length (bt_arenas s'). ar_flags (the_arena s' a) = 0 \<and> a_int (the_arena s' a) = a_ext (the_arena s' a) + unat (bt_nfree s')) \<and>
    (\<forall>x. \<not> invalid_lba s' x \<longrightarrow> btt_view (content (bt_ns s')) s' x = BZero)"
proof -
  have b: "\<not> bt_laidout s" "\<not> bt_layout_write_mutex s" "bt_nfree s = BTT_DEFAULT_NFREE" "unat (bt_nlane s) \<le> unat (bt_nfree s)"
    "length (bt_parent_uuid s) = 16" "bt_oom s = []" "BTT_MIN_SIZE \<le> bt_rawsize s" "4096 dvd unat (bt_rawsize s)"
    "unat (bt_rawsize s) \<le> nssize" "internal_lbasize (bt_lbasize s) \<noteq> 0"
    "if cb_ns_is_zeroed cb then \<forall>x < unat (bt_rawsize s). content (bt_ns s) x = 0 else narenas (unat (bt_rawsize s)) = 1"
    "layout_loop cb s 0 False (internal_lbasize (bt_lbasize s)) (bt_rawsize s) 0 0 = Some (Inr (bt_nlba s), s)"
    using bl unfolding blank_def by blast+
  define na :: u32 where "na = ucast (bt_rawsize s div BTT_MAX_ARENA) + (if BTT_MIN_SIZE \<le> bt_rawsize s mod BTT_MAX_ARENA then 1 else 0)"
  let ?s2 = "s\<lparr>bt_layout_write_mutex := True, bt_uuid := u, bt_narena := na\<rparr>" and ?L = "internal_lbasize (bt_lbasize s)"
  have nf: "0 < unat (bt_nfree s)" "unat (bt_nfree s) \<le> 256" using b(3) by (simp_all add: BTT_DEFAULT_NFREE_def)
  have "layout_loop cb s 0 False (internal_lbasize (bt_lbasize ?s2)) (bt_rawsize s) 0 0 = Some (Inr (bt_nlba s), s)"
    "bt_lbasize s = bt_lbasize ?s2" "bt_nfree s = bt_nfree ?s2" "internal_lbasize (bt_lbasize ?s2) \<noteq> 0" "uuids_ok ?s2"
    "0 < unat (bt_nfree ?s2)" "unat (bt_nfree ?s2) \<le> 256" "64 dvd unat (0 :: u64)" "unat (0 :: u64) + unat (bt_rawsize s) \<le> nssize"
    "cb_ns_is_zeroed cb \<and> (\<forall>x. unat (0 :: u64) \<le> x \<and> x < unat (0 :: u64) + unat (bt_rawsize s) \<longrightarrow> content (bt_ns ?s2) x = 0) \<or>
      \<not> cb_ns_is_zeroed cb \<and> (0 :: u64) = 0 \<and> narenas (unat (bt_rawsize s)) = 1"
    using b nf u by (simp_all add: uuids_ok_def split: if_splits)
  from layout_loop_spec [OF this(1-3) b(7) this(4-8) b(8) this(9,10), of lane]
  obtain ns' ars where
    l: "layout_loop cb ?s2 lane True ?L (bt_rawsize s) 0 0 = Some (Inr (bt_nlba s), ?s2\<lparr>bt_ns := ns'\<rparr>)"
    and lo: "laid_out nssize ?s2 (content ns') (bt_rawsize s) 0 ars"
    and nl: "bt_nlba s = sum_list (map (\<lambda>ar. ucast (ar_external_nlba ar)) ars)"
    by auto
  let ?s3 = "?s2\<lparr>bt_ns := ns'\<rparr>"
  let ?t = "\<lambda>ns. ?s3\<lparr>bt_ns := ns, bt_arenas := ars, bt_laidout := True, bt_layout_write_mutex := False\<rparr>"
  have loT: "laid_out nssize (?t ns) (content ns') (bt_rawsize (?t ns)) 0 ars" for ns
    using lo by (simp add: laid_out_def)
  note du = laid_out_durable [OF loT]
  have d: "durable nssize (content ns') (?t ns)" "\<not> invalid_lba (?t ns) x \<Longrightarrow> btt_view (content ns') (?t ns) x = BZero" for ns x
    using du [of ns] b nf nl narenas_word [of "bt_rawsize s", folded na_def] by simp_all
  have ld: "\<forall>ar \<in> set ars. loadable nssize (unat (bt_nfree s)) (unat (bt_lbasize s)) (content ns') ar \<and> a_ext ar \<le> unat (bt_nlba s)"
    using durable_loadable(1) [OF d(1) [of ns']] ext_le_nlba [of nssize "content ns'" "?t ns'"] d(1) [of ns'] by (simp add: durable_def)
  have ch: "chained 0 ars" using lo formatted_chained by (auto simp: laid_out_def)
  have ap: "apart (unat (bt_nfree s)) ars" and nr: "unat na = length ars" using lo narenas_word [of "bt_rawsize s", folded na_def] by (auto simp: laid_out_def)
  from read_arenas_spec [where t = ?s3 and narena = na and ars = ars and F = "unat (bt_nfree s)" and lbs = "unat (bt_lbasize s)", OF nr] ld ap ch lane b(6)
  obtain ns'' where r: "read_arenas cb ?s3 lane na = Some (Inr (), ?s3\<lparr>bt_ns := ns'', bt_arenas := ars, bt_laidout := True\<rparr>)"
    and c: "content ns'' = recover_arenas ars (content ns')" by auto
  have c': "content ns'' = content ns'" using durable_loadable(2) [OF d(1) [of ns']] c by simp
  have "first_layout (Inr u) cb s lane = Some (Inr (), ?t ns'')"
    unfolding first_layout_def write_layout_def using b(1,2,10) l r by (simp add: seqE_simps Let_def na_def [symmetric])
  moreover have "ar_flags ar = 0 \<and> a_int ar = a_ext ar + unat (bt_nfree s)" if "ar \<in> set ars" for ar using lo that by (simp add: laid_out_def)
  ultimately show ?thesis using d [of ns''] c' by (intro exI [of _ "?t ns''"]) (auto simp: the_arena_def)
qed
end

end
