(* ===== verification/Btt_Table.thy ===== *)
theory Btt_Table
  imports Btt_Format
begin

text \<open>
  The block translation table as a whole, over a namespace whose writes do not fail. A table is blank
  before its first write and durable afterwards; reads, writes and changes of a block's state are
  shown to act on what its blocks hold, and opening to keep it. The last section is about the
  consistency check, which is compared with a reference definition.
\<close>

unbundle bit_operations_syntax

section \<open>Tables\<close>

text \<open>A table is either blank or durable. What its blocks hold:\<close>

definition table_ok :: "'ns ns_callback \<Rightarrow> nat \<Rightarrow> ('ns \<Rightarrow> mem) \<Rightarrow> 'ns btt \<Rightarrow> bool" where
  "table_ok cb sz content s \<longleftrightarrow> blank cb sz (content (bt_ns s)) s \<or> durable sz (content (bt_ns s)) s"

definition table_view :: "('ns \<Rightarrow> mem) \<Rightarrow> 'ns btt \<Rightarrow> u64 \<Rightarrow> block" where
  "table_view content s lba = (if bt_laidout s then btt_view (content (bt_ns s)) s lba else BZero)"

text \<open>No arena is in the error state, and every arena has the number of blocks that its map and its flog
  account for.\<close>

definition healthy :: "'ns btt \<Rightarrow> bool" where
  "healthy s \<longleftrightarrow> (\<forall>a < length (bt_arenas s). ar_flags (the_arena s a) AND BTTINFO_FLAG_ERROR_MASK = 0 \<and>
     a_int (the_arena s a) = a_ext (the_arena s a) + unat (bt_nfree s))"

lemma durable_laidout: "durable sz m s \<Longrightarrow> bt_laidout s"
  by (simp add: durable_def btt_ok_def)

lemma blank_not_laidout: "blank cb sz m s \<Longrightarrow> \<not> bt_laidout s"
  by (simp add: blank_def)

lemma healthy_change: "healthy s \<Longrightarrow> a < length (bt_arenas s) \<Longrightarrow> header (f (the_arena s a)) = header (the_arena s a) \<Longrightarrow> healthy (upd_arena s a f)"
proof -
  assume h: "healthy s" "a < length (bt_arenas s)" "header (f (the_arena s a)) = header (the_arena s a)"
  have "ar_flags (header x) = ar_flags x" "a_int (header x) = a_int x" "a_ext (header x) = a_ext x" for x by (simp_all add: header_def)
  then have "ar_flags (f (the_arena s a)) = ar_flags (the_arena s a)" "a_int (f (the_arena s a)) = a_int (the_arena s a)"
    "a_ext (f (the_arena s a)) = a_ext (the_arena s a)" using h(3) by metis+
  then show ?thesis using h by (auto simp: healthy_def btt_state)
qed

lemma ns_irrelevant:
  "durable sz m (t\<lparr>bt_ns := x\<rparr>) = durable sz m t" "btt_view m (t\<lparr>bt_ns := x\<rparr>) = btt_view m t"
  "healthy (t\<lparr>bt_ns := x\<rparr>) = healthy t" "invalid_lba (t\<lparr>bt_ns := x\<rparr>) = invalid_lba t"
  by (auto simp: durable_def btt_ok_def the_arena_def btt_view_def lba_to_arena_lba_def healthy_def invalid_lba_def fun_eq_iff split: option.splits)

lemma set_map_lock_back:
  assumes "arena_ok sz F lbs m (the_arena s a)" and "F = unat (bt_nfree s)" "0 < F" and "a < length (bt_arenas s)"
  shows "set_map_lock ((set_map_lock s a p True)\<lparr>bt_ns := ns\<rparr>) a p False = s\<lparr>bt_ns := ns\<rparr>"
proof -
  have "(ar_map_locks (the_arena s a))[unat (get_map_lock_num p (bt_nfree s)) := False] = ar_map_locks (the_arena s a)"
    using assms map_lock_index [of "bt_nfree s" p] by (simp add: arena_ok_def list_update_same_conv)
  then show ?thesis
    using assms(4) unfolding set_map_lock_def by (simp add: btt_state) (rule upd_arena_id, simp, simp add: btt_state)
qed

lemma or_normal: "\<not> map_entry_is_zero_or_initial (x OR BTT_MAP_ENTRY_NORMAL)"
proof -
  have n: "BTT_MAP_ENTRY_NORMAL = NOT (mask 30)" by (simp add: BTT_MAP_ENTRY_NORMAL_def mask_eq_exp_minus_1)
  have "(x OR NOT (mask 30)) AND NOT (mask 30) = NOT (mask 30 :: u32)" by (rule bit_word_eqI) (auto simp: bit_simps)
  then show ?thesis unfolding map_entry_is_zero_or_initial_def n entry_consts(1,4) Let_def by (simp add: push_bit_30 mask_eq_exp_minus_1)
qed

lemma zero_not_error: "map_entry_is_zero_or_initial e \<Longrightarrow> \<not> map_entry_is_error e"
  by (auto simp: map_entry_is_zero_or_initial_def map_entry_is_error_def entry_consts push_bit_30 Let_def)

text \<open>Setting the state bits of a map entry.\<close>

definition setf_block :: "u32 \<Rightarrow> block" where
  "setf_block setf = (if setf = BTT_MAP_ENTRY_ZERO then BZero else BError)"

lemma setf_media:
  assumes g: "geom sz F lbs ar" and ok: "media_ok F m ar fls" and p: "p < a_ext ar"
    and setf: "setf = BTT_MAP_ENTRY_ZERO \<or> setf = BTT_MAP_ENTRY_ERROR"
  defines "m' \<equiv> step_map m ar p ((effective p (mapent m ar p) AND BTT_MAP_ENTRY_LBA_MASK) OR setf)"
  shows "media_ok F m' ar fls" "block_of lbs m' ar p = setf_block setf"
    "q < a_ext ar \<Longrightarrow> q \<noteq> p \<Longrightarrow> block_of lbs m' ar q = block_of lbs m ar q"
proof -
  let ?e = "(effective p (mapent m ar p) AND BTT_MAP_ENTRY_LBA_MASK) OR setf"
  have me: "mapent m' ar q = (if q = p then ?e else mapent m ar q)" if "q < a_ext ar" for q
    unfolding m'_def by (rule mapent_step_map [OF that p])
  have e: "effective p ?e = ?e" "blk ?e = blk (effective p (mapent m ar p))"
    using setf entry_zero(3) entry_error(2) by (auto simp: effective_def)
  have "phys m' ar fls = phys m ar fls"
    unfolding phys_def using me e by (intro arg_cong2 [where f = append] map_cong) auto
  moreover have "pairs_ok m' ar fls = pairs_ok m ar fls"
    using g p by (intro pairs_ok_cong) (auto simp: m'_def geom_def intro!: step_map_other)
  ultimately show "media_ok F m' ar fls" using ok by (simp add: media_ok_def)
  show "block_of lbs m' ar p = setf_block setf"
    using me [OF p] setf entry_zero(1,2) entry_error(1) by (auto simp: block_of_def setf_block_def Let_def BTT_MAP_ENTRY_ZERO_def BTT_MAP_ENTRY_ERROR_def)
  show "block_of lbs m' ar q = block_of lbs m ar q" if "q < a_ext ar" "q \<noteq> p"
    unfolding m'_def by (rule block_of_step_map [OF g phys_bound(1) [OF ok that(1)] p that])
qed

context reliable_namespace
begin

lemma never_dead: "\<not> dead ns"
proof -
  obtain r ns' where w: "cb_nswrite cb ns 0 [] 0 = (r, ns')" by force
  have "r = None" using nswrite_ok [of 0 "[]" ns 0] w by simp
  then show ?thesis using nswrite_law [OF _ w] by simp
qed

lemma write_block_durable:
  assumes d: "durable nssize (content (bt_ns s)) s" and h: "healthy s" and lane: "lane < unat (bt_nlane s)" and lba: "\<not> invalid_lba s lba"
    and buf: "length buf = unat (bt_lbasize s)"
  shows "\<exists>s'. write_block cb s lane lba buf = Some (Inr (), s') \<and> durable nssize (content (bt_ns s')) s' \<and> healthy s' \<and>
    bt_nlba s' = bt_nlba s \<and> bt_nlane s' = bt_nlane s \<and> bt_lbasize s' = bt_lbasize s \<and>
    (\<forall>x. \<not> invalid_lba s x \<longrightarrow> btt_view (content (bt_ns s')) s' x = (if x = lba then BData buf else btt_view (content (bt_ns s)) s x))"
proof -
  let ?m = "content (bt_ns s)"
  have ok: "btt_ok nssize ?m s" using d by (simp add: durable_def)
  obtain a p where ap: "lba_to_arena_lba s lba = Some (a, p)" "a < length (bt_arenas s)" "unat p < a_ext (the_arena s a)"
    using lba_to_arena [OF ok lba] by metis
  have fl: "ar_flags (the_arena s a) AND BTTINFO_FLAG_ERROR_MASK = 0" using h ap(2) by (simp add: healthy_def)
  let ?ar = "the_arena s a" let ?fls = "runtime_flogs ?ar"
  let ?f = "lane_written lane (new_flog ?m ?ar ?fls lane (unat p))"
  obtain r s' where w: "write_block cb s lane lba buf = Some (r, s')"
    and cs: "case r of Inr _ \<Rightarrow> \<not> dead (bt_ns s') \<and> content (bt_ns s') = w4 ?m ?ar ?fls lane (unat p) buf \<and> s' = upd_arena (s\<lparr>bt_ns := bt_ns s'\<rparr>) a ?f
       | Inl e \<Rightarrow> dead (bt_ns s') \<and> crash_image ?m ?ar ?fls lane (unat p) buf (content (bt_ns s'))"
    using write_block_spec [OF ok lane ap buf never_dead fl] by blast
  have r: "r = Inr ()" using cs never_dead by (cases r) auto
  note we = write_effect [OF ok lane lba ap(1) buf] and wd = write_durable [OF d lane lba ap(1) buf]
  obtain ns' where m': "content ns' = w4 ?m ?ar ?fls lane (unat p) buf" and s': "s' = (upd_arena s a ?f)\<lparr>bt_ns := ns'\<rparr>"
    using cs r by (auto simp: btt_state)
  have "durable nssize (content (bt_ns s')) s'" "healthy s'" "bt_nlba s' = bt_nlba s" "bt_nlane s' = bt_nlane s" "bt_lbasize s' = bt_lbasize s"
    using wd m' healthy_change [where f = ?f, OF h ap(2) header_written] by (simp_all add: s' ns_irrelevant upd_arena_simps)
  moreover have "btt_view (content (bt_ns s')) s' x = (if x = lba then BData buf else btt_view ?m s x)" if "\<not> invalid_lba s x" for x
    using we(2) [OF that] m' by (simp add: s' ns_irrelevant)
  ultimately show ?thesis using w r by blast
qed

lemma setf_durable:
  assumes d: "durable nssize (content (bt_ns s)) s" and h: "healthy s" and lane: "lane < unat (bt_nlane s)" and lba: "\<not> invalid_lba s lba"
    and setf: "setf = BTT_MAP_ENTRY_ZERO \<or> setf = BTT_MAP_ENTRY_ERROR"
  shows "\<exists>ns'. map_entry_setf gen cb s lane lba setf = Some (Inr (), s\<lparr>bt_ns := ns'\<rparr>) \<and> durable nssize (content ns') s \<and>
    (\<forall>x. \<not> invalid_lba s x \<longrightarrow> btt_view (content ns') s x = (if x = lba then setf_block setf else btt_view (content (bt_ns s)) s x))"
proof -
  let ?m = "content (bt_ns s)" and ?F = "unat (bt_nfree s)" and ?lbs = "unat (bt_lbasize s)"
  have ok: "btt_ok nssize ?m s" using d by (simp add: durable_def)
  obtain a p where ap: "lba_to_arena_lba s lba = Some (a, p)" "a < length (bt_arenas s)" "unat p < a_ext (the_arena s a)"
    using lba_to_arena [OF ok lba] by metis
  let ?ar = "the_arena s a" and ?q = "unat p"
  have fl: "ar_flags ?ar AND BTTINFO_FLAG_ERROR_MASK = 0" using h ap(2) by (simp add: healthy_def)
  note ao = btt_ok_arena [OF ok ap(2)]
  then have g: "geom nssize ?F ?lbs ?ar" and mo: "media_ok ?F ?m ?ar (runtime_flogs ?ar)" by (auto simp: arena_ok_def)
  have F: "0 < ?F" "bt_laidout s" using ok by (auto simp: btt_ok_def)
  let ?e = "effective ?q (mapent ?m ?ar ?q)" let ?n = "(?e AND BTT_MAP_ENTRY_LBA_MASK) OR setf" and ?t = "set_map_lock s a p True"
  have ml: "map_lock cb s lane a p = Some (Inr ?e, ?t)"
    by (rule map_lock_spec [OF ao refl F(1) refl _ ap(2,3), of "bt_ns s"]) simp
  have mp: "map_entry_setf gen cb s lane lba setf =
      (if setf = BTT_MAP_ENTRY_ZERO \<and> map_entry_is_zero_or_initial ?e then Some (Inr (), map_abort ?t a p)
       else map_unlock cb ?t lane a ?n p)"
    unfolding map_entry_setf_def first_layout_def using lba F(2) ap(1) fl ml by (simp add: seqE_simps)
  show ?thesis
  proof (cases "setf = BTT_MAP_ENTRY_ZERO \<and> map_entry_is_zero_or_initial ?e")
    case True
    have "map_abort ?t a p = s" using set_map_lock_back [OF ao refl F(1) ap(2), where p = p and ns = "bt_ns s"] by (simp add: map_abort_def set_map_lock_def btt_state)
    moreover have "?e = mapent ?m ?ar ?q"
      using True or_normal [of "of_nat ?q"] by (auto simp: effective_def split: if_splits)
    moreover have "btt_view ?m s lba = BZero"
      using calculation(2) True zero_not_error ap(1) by (simp add: btt_view_def block_of_def)
    ultimately show ?thesis using mp if_P [OF True] d True by (intro exI [of _ "bt_ns s"]) (auto simp: setf_block_def)
  next
    case False
    let ?off = "map_entry_off ?ar p"
    have off: "unat ?off = a_map ?ar + 4 * ?q" by (rule map_entry_off_nat [OF g ap(3)])
    have "unat ?off + length (u32_bytes ?n) \<le> nssize" using off g ap(3) by (simp add: geom_def)
    from ns_write_reliable [OF this, of ?t lane] obtain ns' where
      w: "ns_write cb ?t lane (u32_bytes ?n) ?off = Some (Inr (), ?t\<lparr>bt_ns := ns'\<rparr>)"
      and c: "content ns' = step_map ?m ?ar ?q ?n"
      using off by (auto simp: step_map_def wr32_def set_map_lock_def btt_state)
    have "map_entry_off (the_arena ?t a) p = ?off" using ap(2) by (simp add: set_map_lock_def btt_state map_entry_off_def)
    then have mu: "map_unlock cb ?t lane a ?n p = Some (Inr (), s\<lparr>bt_ns := ns'\<rparr>)"
      using w set_map_lock_back [OF ao refl F(1) ap(2)] by (simp add: map_unlock_def)
    note sm = setf_media [OF g mo ap(3) setf]
    have i: "inside ?F ?ar ?m (content ns')" unfolding c by (rule step_map_inside [OF g ap(3)])
    have ao': "arena_ok nssize ?F ?lbs (content ns') (id ?ar)" using ao sm(1) c by (simp add: arena_ok_def)
    have u: "upd_arena s a id = s" using ap(2) by (simp add: upd_arena_id)
    have "durable nssize (content ns') s"
      using durable_change [where f = id, OF d ap(2) _ i ao'] u by simp
    moreover have "btt_view (content ns') s x = (if x = lba then setf_block setf else btt_view ?m s x)" if "\<not> invalid_lba s x" for x
      using btt_view_change [where f = id, OF ok ap(1) lba _ i ao' _ _ that, of "setf_block setf"] sm(2,3) c u by (simp add: same_geom_def)
    moreover have "map_entry_setf gen cb s lane lba setf = Some (Inr (), s\<lparr>bt_ns := ns'\<rparr>)" unfolding mp if_not_P [OF False] mu ..
    ultimately show ?thesis by blast
  qed
qed
end

section \<open>Operations of a table\<close>

text \<open>The block number is valid, the lane exists, the table is in order.\<close>

definition can_access :: "'ns btt \<Rightarrow> nat \<Rightarrow> u64 \<Rightarrow> bool" where
  "can_access s lane lba \<longleftrightarrow> lane < unat (bt_nlane s) \<and> \<not> invalid_lba s lba"

text \<open>The parameters of a table that no operation changes.\<close>

definition same_params :: "'ns btt \<Rightarrow> 'ns btt \<Rightarrow> bool" where
  "same_params s s' \<longleftrightarrow> bt_nlba s' = bt_nlba s \<and> bt_nlane s' = bt_nlane s \<and> bt_lbasize s' = bt_lbasize s"

lemma same_params_access: "same_params s s' \<Longrightarrow> can_access s' = can_access s"
  by (intro ext) (simp add: same_params_def can_access_def invalid_lba_def)

context reliable_namespace
begin

lemma table_read:
  assumes "table_ok cb nssize content s" and "can_access s lane lba"
  shows "btt_read cb s lane lba = Some (read_result s (table_view content s lba), s)"
  using assms(1) unfolding table_ok_def
proof
  assume "blank cb nssize (content (bt_ns s)) s"
  then show ?thesis using assms(2) by (simp add: btt_read_def table_view_def blank_def can_access_def read_result_def)
next
  assume d: "durable nssize (content (bt_ns s)) s"
  then show ?thesis using btt_read_spec [of s lane lba] assms(2) durable_laidout [OF d]
    by (simp add: durable_def table_view_def can_access_def)
qed

text \<open>The first write of a blank table, and later ones, come to a durable table.\<close>

lemma table_formatted:
  assumes ok: "table_ok cb nssize content s" and h: "healthy s" and lane: "lane < unat (bt_nlane s)" and u: "length u = 16"
  shows "\<exists>s'. first_layout (Inr u) cb s lane = Some (Inr (), s') \<and> durable nssize (content (bt_ns s')) s' \<and> healthy s' \<and> same_params s s' \<and>
    (\<forall>x. \<not> invalid_lba s x \<longrightarrow> btt_view (content (bt_ns s')) s' x = table_view content s x)"
  using ok unfolding table_ok_def
proof
  assume bl: "blank cb nssize (content (bt_ns s)) s"
  have "lane < unat (bt_nfree s)" using bl lane unfolding blank_def by linarith
  from first_layout_spec [OF bl this u] obtain s' where s': "first_layout (Inr u) cb s lane = Some (Inr (), s')"
    "durable nssize (content (bt_ns s')) s'" "bt_nlba s' = bt_nlba s" "bt_nlane s' = bt_nlane s" "bt_lbasize s' = bt_lbasize s"
    "\<forall>a < length (bt_arenas s'). ar_flags (the_arena s' a) = 0 \<and> a_int (the_arena s' a) = a_ext (the_arena s' a) + unat (bt_nfree s')"
    "\<forall>x. \<not> invalid_lba s' x \<longrightarrow> btt_view (content (bt_ns s')) s' x = BZero"
    by blast
  then show ?thesis using blank_not_laidout [OF bl]
    by (intro exI [of _ s']) (simp add: healthy_def same_params_def table_view_def invalid_lba_def)
next
  assume d: "durable nssize (content (bt_ns s)) s"
  then show ?thesis using h durable_laidout [OF d]
    by (intro exI [of _ s]) (simp add: first_layout_def same_params_def table_view_def)
qed

lemma table_write:
  assumes ok: "table_ok cb nssize content s" and h: "healthy s" and ac: "can_access s lane lba" and u: "length u = 16"
    and buf: "length buf = unat (bt_lbasize s)"
  shows "\<exists>s'. btt_write (Inr u) cb s lane lba buf = Some (Inr (), s') \<and> durable nssize (content (bt_ns s')) s' \<and> healthy s' \<and> same_params s s' \<and>
    (\<forall>x. \<not> invalid_lba s x \<longrightarrow> table_view content s' x = (if x = lba then BData buf else table_view content s x))"
proof -
  have lane: "lane < unat (bt_nlane s)" and lba: "\<not> invalid_lba s lba" using ac by (auto simp: can_access_def)
  from table_formatted [OF ok h lane u] obtain t where t: "first_layout (Inr u) cb s lane = Some (Inr (), t)"
    "durable nssize (content (bt_ns t)) t" "healthy t" "same_params s t"
    "\<forall>x. \<not> invalid_lba s x \<longrightarrow> btt_view (content (bt_ns t)) t x = table_view content s x" by blast
  have tp: "lane < unat (bt_nlane t)" "\<not> invalid_lba t lba" "length buf = unat (bt_lbasize t)" "invalid_lba t = invalid_lba s"
    using t(4) lane lba buf by (auto simp: same_params_def invalid_lba_def)
  from write_block_durable [OF t(2,3) tp(1-3)] obtain s' where s': "write_block cb t lane lba buf = Some (Inr (), s')"
    "durable nssize (content (bt_ns s')) s'" "healthy s'" "bt_nlba s' = bt_nlba t" "bt_nlane s' = bt_nlane t" "bt_lbasize s' = bt_lbasize t"
    "\<forall>x. \<not> invalid_lba t x \<longrightarrow> btt_view (content (bt_ns s')) s' x = (if x = lba then BData buf else btt_view (content (bt_ns t)) t x)"
    by blast
  have "btt_write (Inr u) cb s lane lba buf = Some (Inr (), s')" using lba t(1) s'(1) by (simp add: btt_write_def seqE_simps)
  moreover have "same_params s s'" using t(4) s' by (simp add: same_params_def)
  ultimately show ?thesis using s' t(5) tp(4) durable_laidout [OF s'(2)] by (intro exI [of _ s']) (simp add: table_view_def)
qed

lemma table_setf:
  assumes ok: "table_ok cb nssize content s" and h: "healthy s" and ac: "can_access s lane lba" and u: "length u = 16"
    and setf: "setf = BTT_MAP_ENTRY_ZERO \<or> setf = BTT_MAP_ENTRY_ERROR"
  shows "\<exists>s'. map_entry_setf (Inr u) cb s lane lba setf = Some (Inr (), s') \<and> table_ok cb nssize content s' \<and> healthy s' \<and> same_params s s' \<and>
    (\<forall>x. \<not> invalid_lba s x \<longrightarrow> table_view content s' x = (if x = lba then setf_block setf else table_view content s x))"
proof (cases "\<not> bt_laidout s \<and> setf = BTT_MAP_ENTRY_ZERO")
  case True
  then show ?thesis using ok h ac
    by (intro exI [of _ s]) (auto simp: map_entry_setf_def can_access_def same_params_def table_view_def setf_block_def)
next
  case False
  have lane: "lane < unat (bt_nlane s)" and lba: "\<not> invalid_lba s lba" using ac by (auto simp: can_access_def)
  from table_formatted [OF ok h lane u] obtain t where t: "first_layout (Inr u) cb s lane = Some (Inr (), t)"
    "durable nssize (content (bt_ns t)) t" "healthy t" "same_params s t"
    "\<forall>x. \<not> invalid_lba s x \<longrightarrow> btt_view (content (bt_ns t)) t x = table_view content s x" by blast
  have tp: "lane < unat (bt_nlane t)" "\<not> invalid_lba t lba" "invalid_lba t = invalid_lba s"
    using t(4) lane lba by (auto simp: same_params_def invalid_lba_def)
  from setf_durable [OF t(2,3) tp(1,2) setf] obtain ns' where
    s': "map_entry_setf (Inr u) cb t lane lba setf = Some (Inr (), t\<lparr>bt_ns := ns'\<rparr>)" "durable nssize (content ns') t"
    "\<forall>x. \<not> invalid_lba t x \<longrightarrow> btt_view (content ns') t x = (if x = lba then setf_block setf else btt_view (content (bt_ns t)) t x)" by blast
  have ft: "first_layout (Inr u) cb t lane = Some (Inr (), t)" using durable_laidout [OF t(2)] by (simp add: first_layout_def)
  have "map_entry_setf (Inr u) cb s lane lba setf = map_entry_setf (Inr u) cb t lane lba setf"
    unfolding map_entry_setf_def if_not_P [OF lba] if_not_P [OF tp(2)] if_not_P [OF False] t(1) ft seqE_simps
    using durable_laidout [OF t(2)] by simp
  then have "map_entry_setf (Inr u) cb s lane lba setf = Some (Inr (), t\<lparr>bt_ns := ns'\<rparr>)" using s'(1) by simp
  moreover have "table_view content (t\<lparr>bt_ns := ns'\<rparr>) x = (if x = lba then setf_block setf else table_view content s x)" if "\<not> invalid_lba s x" for x
    using s'(3) t(5) tp(3) that durable_laidout [OF t(2)] by (simp add: table_view_def ns_irrelevant)
  moreover have "table_ok cb nssize content (t\<lparr>bt_ns := ns'\<rparr>)" using s'(2) by (simp add: table_ok_def ns_irrelevant)
  moreover have "same_params s (t\<lparr>bt_ns := ns'\<rparr>)" using t(4) by (simp add: same_params_def)
  ultimately show ?thesis using t(3) by (intro exI [of _ "t\<lparr>bt_ns := ns'\<rparr>"]) (simp add: ns_irrelevant)
qed

section \<open>Opening a namespace without a layout\<close>

lemma btt_init_blank:
  assumes init: "btt_init gen raw lbs uuid maxlane [] ns cb = Some (Inr s)"
    and no: "read_info uuid (bytes_at (content ns) 0 4096) = None" and raw: "unat raw \<le> nssize" "4096 dvd unat raw" and uuid: "length uuid = 16"
    and z: "if cb_ns_is_zeroed cb then \<forall>x < unat raw. content ns x = 0 else narenas (unat raw) = 1"
  shows "blank cb nssize (content (bt_ns s)) s" "healthy s" "bt_ns s = ns" "bt_lbasize s = lbs" "bt_rawsize s = raw" "bt_parent_uuid s = uuid"
    "bt_nlane s = (if maxlane \<noteq> 0 \<and> 256 > maxlane then of_nat maxlane else 256)"
proof -
  let ?s = "\<lparr>bt_nlane = 0, bt_layout_write_mutex = False, bt_laidout = False, bt_uuid = replicate 16 0, bt_parent_uuid = uuid, bt_rawsize = raw,
     bt_lbasize = lbs, bt_nfree = BTT_DEFAULT_NFREE, bt_nlba = 0, bt_narena = 0, bt_arenas = [], bt_ns = ns, bt_oom = []\<rparr>"
  have min: "BTT_MIN_SIZE \<le> raw" using init by (auto simp: btt_init_def split: if_splits)
  have "2 ^ 24 \<le> unat raw" using min by (simp add: word_le_nat_alt BTT_sizes)
  then have rd: "cb_nsread cb ns 0 SIZEOF_BTT_INFO 0 = Inr (bytes_at (content ns) 0 4096)"
    using raw nsread_law [of 0 4096 ns 0] by (simp add: SIZEOF_BTT_INFO_def)
  have rl: "read_layout_loop cb ?s 0 raw 0 (- 1) 0 0 = Inr None"
    using min rd no by (subst read_layout_loop.simps) simp
  let ?na = "ucast (raw div BTT_MAX_ARENA) + (if BTT_MIN_SIZE \<le> raw mod BTT_MAX_ARENA then 1 else 0)" and ?L = "internal_lbasize lbs"
  let ?s1 = "?s\<lparr>bt_narena := ?na\<rparr>"
  have rd': "read_layout gen cb (?s\<lparr>bt_nfree := 0\<rparr>) 0 = write_layout gen cb ?s 0 False"
    using rl by (simp add: read_layout_def Let_def)
  have "btt_init gen raw lbs uuid maxlane [] ns cb = map_option (\<lambda>(r, s). case r of Inl e \<Rightarrow> Inl e
     | Inr _ \<Rightarrow> Inr (s\<lparr>bt_nlane := (if maxlane \<noteq> 0 \<and> unat (bt_nfree s) > maxlane then of_nat maxlane else bt_nfree s)\<rparr>))
     (read_layout gen cb (?s\<lparr>bt_nfree := 0\<rparr>) 0)"
    unfolding btt_init_def Let_def bt_malloc_def using min by (simp add: not_less [symmetric])
  note i = this [unfolded rd' init, symmetric]
  have w: "write_layout gen cb ?s 0 False = (if ?L = 0 then Some (Inl EINVAL, ?s1)
     else seqE (layout_loop cb ?s1 0 False ?L raw 0 0) (\<lambda>tot s. Some (Inr (), s\<lparr>bt_nlba := tot\<rparr>)))"
    by (simp add: write_layout_def seqE_simps Let_def)
  obtain t0 where wl: "write_layout gen cb ?s 0 False = Some (Inr (), t0)"
  proof -
    obtain r t0 where "write_layout gen cb ?s 0 False = Some (r, t0)" "r = Inr ()" using i by (fastforce split: sum.splits)
    then show ?thesis using that by simp
  qed
  have L: "?L \<noteq> 0" using wl w by (auto split: if_splits)
  obtain tot t where l: "layout_loop cb ?s1 0 False ?L raw 0 0 = Some (Inr tot, t)"
    using wl w L by (auto simp: seqE_def split: option.splits sum.splits prod.splits)
  have "t = ?s1" using layout_loop_count [OF l, of ?s1 cb 0 0] l by simp
  then have s: "s = ?s1\<lparr>bt_nlba := tot, bt_nlane := (if maxlane \<noteq> 0 \<and> 256 > maxlane then of_nat maxlane else 256)\<rparr>"
    using i w L l by (auto simp: seqE_simps BTT_DEFAULT_NFREE_def split: if_splits)
  show "bt_ns s = ns" "bt_lbasize s = lbs" "bt_rawsize s = raw" "bt_parent_uuid s = uuid"
    "bt_nlane s = (if maxlane \<noteq> 0 \<and> 256 > maxlane then of_nat maxlane else 256)" "healthy s"
    unfolding s by (simp_all add: healthy_def)
  have f: "\<not> bt_laidout s" "\<not> bt_layout_write_mutex s" "bt_nfree s = BTT_DEFAULT_NFREE" "bt_nlba s = tot" "bt_oom s = []"
    unfolding s by simp_all
  have "layout_loop cb s 0 False ?L raw 0 0 = Some (Inr tot, s)"
    by (rule layout_loop_count [OF l]) (simp_all add: f \<open>bt_lbasize s = lbs\<close>)
  moreover have "unat (bt_nlane s) \<le> unat (bt_nfree s)"
    unfolding \<open>bt_nlane s = _\<close> f by (auto simp: BTT_DEFAULT_NFREE_def unat_of_nat)
  ultimately show "blank cb nssize (content (bt_ns s)) s"
    unfolding blank_def \<open>bt_ns s = ns\<close> \<open>bt_lbasize s = lbs\<close> \<open>bt_rawsize s = raw\<close> \<open>bt_parent_uuid s = uuid\<close> f(4)
    using f L min raw uuid z by blast
qed
end

section \<open>The consistency check\<close>

text \<open>Both loops of \<open>check_arena\<close> mark blocks in a bitmap and notice a block that is marked already.\<close>

definition mark :: "nat \<Rightarrow> bool list \<times> bool \<Rightarrow> bool list \<times> bool" where
  "mark b st = (if fst st ! b then (fst st, False) else ((fst st)[b := True], snd st))"

lemma fold_mark:
  assumes "\<forall>b \<in> set bs. b < length bm"
  shows "length (fst (fold mark bs (bm, c))) = length bm"
    "i < length bm \<Longrightarrow> fst (fold mark bs (bm, c)) ! i \<longleftrightarrow> bm ! i \<or> i \<in> set bs"
    "snd (fold mark bs (bm, c)) \<longleftrightarrow> c \<and> distinct bs \<and> (\<forall>b \<in> set bs. \<not> bm ! b)"
proof -
  have "length (fst (fold mark bs (bm, c))) = length bm \<and>
      (\<forall>i < length bm. fst (fold mark bs (bm, c)) ! i \<longleftrightarrow> bm ! i \<or> i \<in> set bs) \<and>
      (snd (fold mark bs (bm, c)) \<longleftrightarrow> c \<and> distinct bs \<and> (\<forall>b \<in> set bs. \<not> bm ! b))"
    using assms
  proof (induction bs arbitrary: bm c)
    case (Cons b bs)
    then have "\<forall>x \<in> set bs. x < length (fst (mark b (bm, c)))" by (simp add: mark_def)
    note ih = Cons.IH [OF this, of "snd (mark b (bm, c))"]
    have "length (fst (mark b (bm, c))) = length bm" by (simp add: mark_def)
    with ih Cons.prems show ?case by (auto simp: mark_def nth_list_update split: if_splits)
  qed simp
  then show "length (fst (fold mark bs (bm, c))) = length bm"
    "i < length bm \<Longrightarrow> fst (fold mark bs (bm, c)) ! i \<longleftrightarrow> bm ! i \<or> i \<in> set bs"
    "snd (fold mark bs (bm, c)) \<longleftrightarrow> c \<and> distinct bs \<and> (\<forall>b \<in> set bs. \<not> bm ! b)" by blast+
qed

lemma check_flog_loop_eq:
  assumes "\<forall>i \<in> set is. blk (fl_old_map (fr_flog (ar_flogs ar ! i))) < length bm"
  shows "check_flog_loop ar is bm c = Some (fold mark (map (\<lambda>i. blk (fl_old_map (fr_flog (ar_flogs ar ! i)))) is) (bm, c))"
  using assms
  by (induction "is" arbitrary: bm c) (simp_all add: Let_def blk_def [symmetric] mark_def)

text \<open>The blocks that an arena uses, each once: the reference for the check.\<close>

definition uses_all_blocks :: "mem \<Rightarrow> arena \<Rightarrow> bool" where
  "uses_all_blocks m ar \<longleftrightarrow> distinct (phys m ar (runtime_flogs ar)) \<and> set (phys m ar (runtime_flogs ar)) \<supseteq> {..<a_int ar}"

context reliable_namespace
begin

lemma check_map_loop_eq:
  assumes "geom nssize F lbs ar" and "0 < F" and "a_int ar \<le> length bm"
    and "\<forall>p < a_ext ar. blk (effective p (mapent (content (bt_ns s)) ar p)) < a_int ar"
    and "i \<le> a_ext ar" and "unat off = a_map ar + 4 * i"
    and "mapped = [] \<or> mapped = bytes_at (content (bt_ns s)) (a_map ar + 4 * i) (4 * (a_ext ar - i))"
  shows "check_map_loop cb s ar [i..<a_ext ar] mapped off bm c =
    Some (Inr (fold mark (map (\<lambda>p. blk (effective p (mapent (content (bt_ns s)) ar p))) [i..<a_ext ar]) (bm, c)))"
  using assms
proof (induction "a_ext ar - i" arbitrary: i off mapped bm c)
  case (Suc k)
  note pm = Suc.prems
  let ?m = "content (bt_ns s)"
  have i: "i < a_ext ar" and up: "[i..<a_ext ar] = i # [Suc i..<a_ext ar]" using Suc.hyps(2) by (auto simp: upt_conv_Cons)
  let ?mp = "bytes_at ?m (a_map ar + 4 * i) (4 * (a_ext ar - i))"
  have b: "a_map ar + 4 * a_ext ar + 64 \<le> nssize" "a_ext ar \<le> 2 ^ 30" using pm(1,2) by (auto simp: geom_def)
  have "unat off + 4 * (a_ext ar - i) < nssize" using b i pm(6) by simp
  from nsmap_law [OF this, of "bt_ns s" 0] have nm: "cb_nsmap cb (bt_ns s) 0 ((a_ext ar - i) * 4) off = Inr ?mp"
    using pm(6) by (simp add: mult.commute)
  have mp: "(if mapped = [] then cb_nsmap cb (bt_ns s) 0 ((a_ext ar - i) * 4) off else Inr mapped) = Inr ?mp"
    using nm pm(7) by auto
  have len: "4 \<le> length ?mp" using i by simp
  let ?e = "mapent ?m ar i" let ?x = "if map_entry_is_initial ?e then of_nat i else ?e AND BTT_MAP_ENTRY_LBA_MASK"
  have "min 4 (4 * (a_ext ar - i)) = 4" using i by (intro min_absorb1) simp
  then have e: "le32toh (take 4 ?mp) = ?e" by (simp only: take_bytes_at le32toh_bytes_at mapent_def)
  have i30: "i < 2 ^ 30" using i b(2) by simp
  then have ui: "unat (of_nat i :: u32) = i" by (simp add: unat_of_nat)
  have x: "unat ?x = blk (effective i ?e)"
  proof (cases "map_entry_is_initial ?e")
    case True
    then show ?thesis using ui i30 by (simp add: effective_def blk_of_small)
  qed (simp add: effective_def blk_def)
  let ?b = "blk (effective i ?e)"
  have bi: "?b < a_int ar" using pm(4) i by simp
  then have nle: "\<not> ar_internal_nlba ar \<le> ?x" using x by (simp add: word_le_nat_alt)
  have dr: "drop 4 ?mp = bytes_at ?m (a_map ar + 4 * Suc i) (4 * (a_ext ar - Suc i))"
    by (simp add: drop_bytes_at algebra_simps diff_mult_distrib2)
  have "a_map ar + 4 * Suc i < 2 ^ 64" using b i nssize by simp
  then have of: "unat (off + 4) = a_map ar + 4 * Suc i" using pm(6) by (subst unat_plus_u64) simp_all
  have st: "check_map_loop cb s ar [i..<a_ext ar] mapped off bm c =
      check_map_loop cb s ar [Suc i..<a_ext ar] (drop 4 ?mp) (off + 4) (fst (mark ?b (bm, c))) (snd (mark ?b (bm, c)))"
    unfolding up check_map_loop.simps mp sum.case using len e x nle by (simp add: Let_def mark_def)
  have lb: "a_int ar \<le> length (fst (mark ?b (bm, c)))" using pm(3) by (simp add: mark_def)
  have "k = a_ext ar - Suc i" "Suc i \<le> a_ext ar" using Suc.hyps(2) i by simp_all
  note ih = Suc.hyps(1) [OF this(1) pm(1,2) lb pm(4) this(2) of, of "drop 4 ?mp" "snd (mark ?b (bm, c))"]
  show ?case unfolding st using ih dr up by simp
qed simp

lemma check_arena_spec:
  assumes g: "geom nssize (unat (bt_nfree s)) lbs ar" and F: "0 < unat (bt_nfree s)" "length (ar_flogs ar) = unat (bt_nfree s)"
    and en: "\<forall>b \<in> set (phys (content (bt_ns s)) ar (runtime_flogs ar)). b < a_int ar"
  shows "check_arena cb s ar True = Some (Inr (uses_all_blocks (content (bt_ns s)) ar))"
proof -
  let ?m = "content (bt_ns s)" and ?F = "unat (bt_nfree s)"
  let ?bits = "bitmap_bits (ar_internal_nlba ar)"
  define xs ys where "xs = map (\<lambda>p. blk (effective p (mapent ?m ar p))) [0..<a_ext ar]"
    and "ys = map (\<lambda>i. blk (fl_old_map (fr_flog (ar_flogs ar ! i)))) [0..<?F]"
  have ph: "phys ?m ar (runtime_flogs ar) = xs @ ys"
    unfolding phys_def xs_def ys_def using F(2) by (auto simp: runtime_flogs_def intro!: nth_equalityI)
  have ai: "a_int ar \<le> 2 ^ 30" using g by (simp add: geom_def)
  have bits: "a_int ar \<le> ?bits"
  proof -
    have "unat (ar_internal_nlba ar + 7) = a_int ar + 7" using ai by (subst unat_add_lem [THEN iffD1]) simp_all
    then show ?thesis by (simp add: bitmap_bits_def unat_div)
  qed
  have xy: "\<forall>b \<in> set xs. b < a_int ar" "\<forall>b \<in> set ys. b < a_int ar" using en ph by auto
  have x1: "\<forall>p < a_ext ar. blk (effective p (mapent ?m ar p)) < a_int ar" using xy(1) by (simp add: xs_def)
  let ?st = "fold mark xs (replicate ?bits False, True)"
  have m1: "check_map_loop cb s ar [0..<a_ext ar] [] (ar_mapoff ar) (replicate ?bits False) True = Some (Inr ?st)"
    unfolding xs_def by (rule check_map_loop_eq [OF g F(1) _ x1]) (simp_all add: bits)
  have xb: "\<forall>b \<in> set xs. b < length (replicate ?bits False)" using xy(1) bits by auto
  note fx = fold_mark [OF xb, where c = True]
  have yb: "\<forall>b \<in> set ys. b < length (fst ?st)" using xy(2) bits fx(1) by auto
  have m2: "check_flog_loop ar [0..<?F] (fst ?st) (snd ?st) = Some (fold mark ys ?st)"
    using yb check_flog_loop_eq [of "[0..<?F]" ar "fst ?st" "snd ?st"] by (simp add: ys_def)
  have "\<forall>b \<in> set (xs @ ys). b < length (replicate ?bits False)" using xy bits by auto
  note fxy = fold_mark [OF this, where c = True]
  have fold: "fold mark ys ?st = fold mark (xs @ ys) (replicate ?bits False, True)" by simp
  have "snd (fold mark ys ?st) \<longleftrightarrow> distinct (xs @ ys)"
    unfolding fold fxy(3) using xy bits by auto
  moreover have "list_all (\<lambda>i. fst (fold mark ys ?st) ! i) [0..<a_int ar] \<longleftrightarrow> {..<a_int ar} \<subseteq> set (xs @ ys)"
    unfolding fold list_all_iff using fxy(2) bits by (auto simp: subset_iff)
  ultimately have "snd (fold mark ys ?st) \<and> list_all (\<lambda>i. fst (fold mark ys ?st) ! i) [0..<a_int ar] \<longleftrightarrow> uses_all_blocks ?m ar"
    by (simp only: uses_all_blocks_def ph)
  then show ?thesis unfolding check_arena_def using m1 m2 by (simp add: case_prod_unfold)
qed

text \<open>The check of a durable table succeeds when the arenas have no more blocks than they use.\<close>

lemma check_durable:
  assumes d: "durable nssize (content (bt_ns s)) s" and oom: "bt_oom s = []"
  shows "btt_check cb s = Some (Inr (\<forall>ar \<in> set (bt_arenas s). a_ext ar + unat (bt_nfree s) \<ge> a_int ar))"
proof -
  let ?m = "content (bt_ns s)" and ?F = "unat (bt_nfree s)"
  have ok: "btt_ok nssize ?m s" using d by (simp add: durable_def)
  have ch: "check_arena cb s ar True = Some (Inr (a_ext ar + ?F \<ge> a_int ar))" if ar: "ar \<in> set (bt_arenas s)" for ar
  proof -
    have ao: "arena_ok nssize ?F (unat (bt_lbasize s)) ?m ar" using ok ar by (auto simp: btt_ok_def the_arena_def in_set_conv_nth)
    let ?p = "phys ?m ar (runtime_flogs ar)"
    have p: "length (ar_flogs ar) = ?F" "distinct ?p" "set ?p \<subseteq> {..<a_int ar}" "geom nssize ?F (unat (bt_lbasize s)) ar" "0 < ?F"
      using ao ok by (auto simp: arena_ok_def media_ok_def btt_ok_def)
    have "card (set ?p) = a_ext ar + ?F" using p(1,2) by (simp add: distinct_card)
    then have cd: "card {..<a_int ar} \<le> card (set ?p) \<longleftrightarrow> a_ext ar + ?F \<ge> a_int ar" by simp
    have "{..<a_int ar} \<subseteq> set ?p \<longleftrightarrow> card {..<a_int ar} \<le> card (set ?p)"
      using card_mono [of "set ?p" "{..<a_int ar}"] card_seteq [of "{..<a_int ar}" "set ?p"] p(3) by blast
    then have "uses_all_blocks ?m ar \<longleftrightarrow> a_ext ar + ?F \<ge> a_int ar"
      using p(2) cd by (simp add: uses_all_blocks_def)
    then show ?thesis using check_arena_spec [OF p(4,5,1)] p(3) by auto
  qed
  have lp: "check_loop cb s ars [] c = Some (Inr (c \<and> (\<forall>ar \<in> set ars. a_ext ar + ?F \<ge> a_int ar)))"
    if "set ars \<subseteq> set (bt_arenas s)" for ars c
    using that by (induction ars arbitrary: c) (auto simp: ch)
  have "take (unat (bt_narena s)) (bt_arenas s) = bt_arenas s" "bt_laidout s" using ok by (auto simp: btt_ok_def)
  then show ?thesis using lp [of "bt_arenas s" True] oom by (simp add: btt_check_def)
qed
end

end
