(* ===== verification/Blk.thy ===== *)
theory Blk
  imports Btt_Table
begin

text \<open>
  Block memory pools, \<^verbatim>\<open>libpmemblk/blk.c\<close> and \<^verbatim>\<open>libpmemblk/blk.h\<close>. The mapping of a pool is a memory
  that begins at address 0 with \<open>struct pool_hdr\<close> and \<open>struct pmemblk\<close>; what \<open>struct pmemblk\<close> keeps there
  at run time is a record beside it. The namespace of the block translation table is the mapping,
  reached through \<open>ns_cb\<close>; the address and the size of the data area do not change after
  \<open>blk_runtime_init\<close> and are an argument of the callbacks. \<open>ns_cb\<close> is one variable for all pools, so
  its flag \<open>ns_is_zeroed\<close> is an argument of the operations too. Pool files are mapped by the pool set
  code, whose answer is an argument of \<open>pmemblk_createU\<close> and \<open>blk_open_common\<close>. With \<open>pmem_msync\<close> and
  \<open>pmem_memcpy_nodrain\<close> a write is the same store.
\<close>

unbundle bit_operations_syntax

section \<open>Access to the data area\<close>

text \<open>The fields \<open>data\<close>, as an offset into the mapping, and \<open>datasize\<close>.\<close>

record blk_area =
  ba_data :: nat
  ba_datasize :: u64

definition nsread :: "blk_area \<Rightarrow> mem \<Rightarrow> nat \<Rightarrow> nat \<Rightarrow> u64 \<Rightarrow> errno + byte list" where
  "nsread pbp ns lane count off =
     (if off + of_nat count > ba_datasize pbp then Inl EINVAL
      else Inr (bytes_at ns (ba_data pbp + unat off) count))"

definition nswrite :: "blk_area \<Rightarrow> mem \<Rightarrow> nat \<Rightarrow> byte list \<Rightarrow> u64 \<Rightarrow> errno option \<times> mem" where
  "nswrite pbp ns lane buf off =
     (if off + of_nat (length buf) > ba_datasize pbp then (Some EINVAL, ns)
      else (None, store ns (ba_data pbp + unat off) buf))"

definition nsmap :: "blk_area \<Rightarrow> mem \<Rightarrow> nat \<Rightarrow> nat \<Rightarrow> u64 \<Rightarrow> errno + byte list" where
  "nsmap pbp ns lane len off =
     (if off + of_nat len \<ge> ba_datasize pbp then Inl EINVAL
      else Inr (bytes_at ns (ba_data pbp + unat off) len))"

definition nszero :: "blk_area \<Rightarrow> mem \<Rightarrow> nat \<Rightarrow> u64 \<Rightarrow> u64 \<Rightarrow> errno option \<times> mem" where
  "nszero pbp ns lane count off =
     (if off + count > ba_datasize pbp then (Some EINVAL, ns)
      else (None, mem_set ns (ba_data pbp + unat off) 0 (unat count)))"

definition ns_cb :: "blk_area \<Rightarrow> bool \<Rightarrow> mem ns_callback" where
  "ns_cb pbp ns_is_zeroed =
     \<lparr>cb_nsread = nsread pbp, cb_nswrite = nswrite pbp, cb_nszero = nszero pbp, cb_nsmap = nsmap pbp,
      cb_ns_is_zeroed = ns_is_zeroed\<rparr>"

section \<open>Pool descriptor and run-time state\<close>

definition BLK_FORMAT_DATA_ALIGN :: u64 where "BLK_FORMAT_DATA_ALIGN = 4096"

text \<open>\<open>sizeof(struct pmemblk)\<close> without \<open>DEBUG\<close>, and the offsets of its persistent fields.\<close>

definition SIZEOF_PMEMBLK :: u64 where "SIZEOF_PMEMBLK = 4200"
definition bsize_p :: nat where "bsize_p = SIZEOF_POOL_HDR"
definition is_zeroed_p :: nat where "is_zeroed_p = SIZEOF_POOL_HDR + 4"
definition poolset_uuid_p :: nat where "poolset_uuid_p = 24"

record pmemblk =
  pb_rdonly :: bool
  pb_area :: blk_area
  pb_bttp :: "mem btt"
  pb_nlane :: u32
  pb_next_lane :: u32
  pb_locks :: "bool list"

definition blk_descr_create :: "mem \<Rightarrow> u32 \<Rightarrow> bool \<Rightarrow> mem" where
  "blk_descr_create m bsize zeroed = wr32 (wr32 m bsize_p bsize) is_zeroed_p (if zeroed then 1 else 0)"

definition blk_descr_check :: "mem \<Rightarrow> u64 \<Rightarrow> errno + u64" where
  "blk_descr_check m bsize =
     (let hdr_bsize = ucast (rd32 m bsize_p)
      in if bsize \<noteq> 0 \<and> bsize \<noteq> hdr_bsize then Inl EINVAL else Inr hdr_bsize)"

text \<open>\<open>gen\<close> is the answer of \<open>util_uuid_generate\<close>, \<open>ncpus\<close> that of \<open>sysconf\<close> and \<open>oom\<close> those of the
  allocator. The flag \<open>ns_is_zeroed\<close> of \<open>ns_cb\<close> is returned with the result.\<close>

definition blk_runtime_init ::
  "(errno + byte list) \<Rightarrow> int \<Rightarrow> bool list \<Rightarrow> mem \<Rightarrow> u64 \<Rightarrow> u64 \<Rightarrow> bool \<Rightarrow> (errno + pmemblk) option \<times> bool" where
  "blk_runtime_init gen ncpus oom m psize bsize rdonly =
     (let data = roundup SIZEOF_PMEMBLK BLK_FORMAT_DATA_ALIGN;
          area = \<lparr>ba_data = unat data, ba_datasize = psize - data\<rparr>;
          ncpus = (if ncpus < 1 then 1 else ncpus);
          is_zeroed = (rd32 m is_zeroed_p \<noteq> 0)
      in (case btt_init gen (ba_datasize area) (ucast bsize) (bytes_at m poolset_uuid_p 16)
                 (unat (of_int ncpus * 2 :: u32)) oom m (ns_cb area is_zeroed) of
            None \<Rightarrow> None
          | Some (Inl e) \<Rightarrow> Some (Inl e)
          | Some (Inr bttp) \<Rightarrow>
              (case bt_malloc bttp of
                 (False, _) \<Rightarrow> Some (Inl ENOMEM)
               | (True, bttp) \<Rightarrow>
                   Some (Inr \<lparr>pb_rdonly = rdonly, pb_area = area, pb_bttp = bttp, pb_nlane = btt_nlane bttp,
                           pb_next_lane = 0, pb_locks = replicate (unat (btt_nlane bttp)) False\<rparr>)),
          is_zeroed))"

text \<open>\<open>created\<close> is what \<open>util_pool_create\<close> delivers: the mapping, its size \<open>repsize\<close> and the flag
  \<open>zeroed\<close> of the set, and \<open>chmod\<close> the answer of \<open>util_poolset_chmod\<close>. The second component is the
  flag of \<open>ns_cb\<close>, when the call sets it.\<close>

definition pmemblk_createU ::
  "(errno + byte list) \<Rightarrow> int \<Rightarrow> bool list \<Rightarrow> errno + mem \<times> u64 \<times> bool \<Rightarrow> errno option \<Rightarrow> u64 \<Rightarrow>
   (errno + pmemblk) option \<times> bool option" where
  "pmemblk_createU gen ncpus oom created chmod bsize =
     (if bsize = 0 then (Some (Inl EINVAL), None)
      else if bsize > 0xFFFFFFFF then (Some (Inl EINVAL), None)
      else case created of
        Inl e \<Rightarrow> (Some (Inl e), None)
      | Inr (m, repsize, zeroed) \<Rightarrow>
          let m = blk_descr_create m (ucast bsize) zeroed
          in (case blk_runtime_init gen ncpus oom m repsize bsize False of
                (Some (Inr pbp), z) \<Rightarrow>
                  (case chmod of Some e \<Rightarrow> (Some (Inl e), Some z) | None \<Rightarrow> (Some (Inr pbp), Some z))
              | (r, z) \<Rightarrow> (r, Some z)))"

text \<open>\<open>opened\<close> is what \<open>util_pool_open\<close> delivers: the mapping, \<open>repsize\<close>, \<open>rdonly\<close> and \<open>nreplicas\<close>.\<close>

definition blk_open_common ::
  "(errno + byte list) \<Rightarrow> int \<Rightarrow> bool list \<Rightarrow> errno + mem \<times> u64 \<times> bool \<times> nat \<Rightarrow> u64 \<Rightarrow>
   (errno + pmemblk) option \<times> bool option" where
  "blk_open_common gen ncpus oom opened bsize =
     (case opened of
        Inl e \<Rightarrow> (Some (Inl e), None)
      | Inr (m, repsize, rdonly, nreplicas) \<Rightarrow>
          if nreplicas > 1 then (Some (Inl ENOTSUP), None)
          else case blk_descr_check m bsize of
            Inl e \<Rightarrow> (Some (Inl e), None)
          | Inr bsize \<Rightarrow> map_prod id Some (blk_runtime_init gen ncpus oom m repsize bsize rdonly))"

section \<open>Lanes\<close>

text \<open>\<open>None\<close>: the lock of the lane is held, the thread waits (and a division by 0 lanes traps).\<close>

definition lane_enter :: "pmemblk \<Rightarrow> (nat \<times> pmemblk) option" where
  "lane_enter pbp =
     (if pb_nlane pbp = 0 then None
      else let mylane = unat (pb_next_lane pbp mod pb_nlane pbp);
               pbp = pbp\<lparr>pb_next_lane := pb_next_lane pbp + 1\<rparr>
           in if pb_locks pbp ! mylane then None
              else Some (mylane, pbp\<lparr>pb_locks := (pb_locks pbp)[mylane := True]\<rparr>))"

definition lane_exit :: "pmemblk \<Rightarrow> nat \<Rightarrow> pmemblk" where
  "lane_exit pbp mylane = pbp\<lparr>pb_locks := (pb_locks pbp)[mylane := False]\<rparr>"

text \<open>An operation of the table between \<open>lane_enter\<close> and \<open>lane_exit\<close>.\<close>

definition with_lane :: "pmemblk \<Rightarrow> (nat \<Rightarrow> mem btt \<Rightarrow> (mem, 'a) bres) \<Rightarrow> ((errno + 'a) \<times> pmemblk) option" where
  "with_lane pbp f =
     (case lane_enter pbp of
        None \<Rightarrow> None
      | Some (lane, pbp) \<Rightarrow>
          (case f lane (pb_bttp pbp) of
             None \<Rightarrow> None
           | Some (r, bttp) \<Rightarrow> Some (r, lane_exit (pbp\<lparr>pb_bttp := bttp\<rparr>) lane)))"

section \<open>Block operations\<close>

definition pmemblk_bsize :: "pmemblk \<Rightarrow> u64" where
  "pmemblk_bsize pbp = ucast (rd32 (bt_ns (pb_bttp pbp)) bsize_p)"

definition pmemblk_nblock :: "pmemblk \<Rightarrow> u64" where
  "pmemblk_nblock pbp = btt_nlba (pb_bttp pbp)"

definition pmemblk_read :: "bool \<Rightarrow> pmemblk \<Rightarrow> int \<Rightarrow> ((errno + byte list) \<times> pmemblk) option" where
  "pmemblk_read z pbp blockno =
     (if blockno < 0 then Some (Inl EINVAL, pbp)
      else with_lane pbp (\<lambda>lane bttp. btt_read (ns_cb (pb_area pbp) z) bttp lane (of_int blockno)))"

definition pmemblk_write ::
  "(errno + byte list) \<Rightarrow> bool \<Rightarrow> pmemblk \<Rightarrow> byte list \<Rightarrow> int \<Rightarrow> ((errno + unit) \<times> pmemblk) option" where
  "pmemblk_write gen z pbp buf blockno =
     (if pb_rdonly pbp then Some (Inl EROFS, pbp)
      else if blockno < 0 then Some (Inl EINVAL, pbp)
      else with_lane pbp (\<lambda>lane bttp. btt_write gen (ns_cb (pb_area pbp) z) bttp lane (of_int blockno) buf))"

definition pmemblk_set_zero ::
  "(errno + byte list) \<Rightarrow> bool \<Rightarrow> pmemblk \<Rightarrow> int \<Rightarrow> ((errno + unit) \<times> pmemblk) option" where
  "pmemblk_set_zero gen z pbp blockno =
     (if pb_rdonly pbp then Some (Inl EROFS, pbp)
      else if blockno < 0 then Some (Inl EINVAL, pbp)
      else with_lane pbp (\<lambda>lane bttp. btt_set_zero gen (ns_cb (pb_area pbp) z) bttp lane (of_int blockno)))"

definition pmemblk_set_error ::
  "(errno + byte list) \<Rightarrow> bool \<Rightarrow> pmemblk \<Rightarrow> int \<Rightarrow> ((errno + unit) \<times> pmemblk) option" where
  "pmemblk_set_error gen z pbp blockno =
     (if pb_rdonly pbp then Some (Inl EROFS, pbp)
      else if blockno < 0 then Some (Inl EINVAL, pbp)
      else with_lane pbp (\<lambda>lane bttp. btt_set_error gen (ns_cb (pb_area pbp) z) bttp lane (of_int blockno)))"

text \<open>\<open>pmemblk_close\<close> only frees memory after the check.\<close>

definition pmemblk_checkU ::
  "(errno + byte list) \<Rightarrow> int \<Rightarrow> bool list \<Rightarrow> errno + mem \<times> u64 \<times> bool \<times> nat \<Rightarrow> u64 \<Rightarrow> (errno + bool) option" where
  "pmemblk_checkU gen ncpus oom opened bsize =
     (case blk_open_common gen ncpus oom opened bsize of
        (None, _) \<Rightarrow> None
      | (Some (Inl e), _) \<Rightarrow> Some (Inl e)
      | (Some (Inr pbp), z) \<Rightarrow> btt_check (ns_cb (pb_area pbp) (z = Some True)) (pb_bttp pbp))"

end
