(* ===== verification/Btt_Frame.thy ===== *)
theory Btt_Frame
  imports Btt_Format
begin

text \<open>
  What no operation of the block translation table changes, on any media and on every path: a property
  of the namespace that the writing callbacks keep, and the parameters the table was opened with.
\<close>

unbundle bit_operations_syntax

section \<open>What no operation of the table changes\<close>

text \<open>A property of the namespace that its writing callbacks keep is kept by every operation of the
  table, whatever the media holds, and no operation changes the parameters the table was opened with.\<close>

locale ns_invariant =
  fixes cb :: "'ns ns_callback" and Q :: "'ns \<Rightarrow> bool"
  assumes nswrite_keeps: "Q ns \<Longrightarrow> Q (snd (cb_nswrite cb ns lane bs off))"
    and nszero_keeps: "Q ns \<Longrightarrow> Q (snd (cb_nszero cb ns lane k off))"
begin

definition kept :: "'ns btt \<Rightarrow> 'ns btt \<Rightarrow> bool" where
  "kept s s' \<longleftrightarrow> (Q (bt_ns s) \<longrightarrow> Q (bt_ns s')) \<and> bt_rawsize s' = bt_rawsize s \<and> bt_lbasize s' = bt_lbasize s \<and>
     bt_parent_uuid s' = bt_parent_uuid s"

definition keeps :: "'ns btt \<Rightarrow> ('ns, 'a) bres \<Rightarrow> bool" where
  "keeps s r \<longleftrightarrow> (\<forall>x s'. r = Some (x, s') \<longrightarrow> kept s s')"

lemma kept_refl [simp, intro!]: "kept s s"
  by (simp add: kept_def)

lemma kept_trans: "kept s t \<Longrightarrow> kept t u \<Longrightarrow> kept s u"
  by (simp add: kept_def)

lemma kept_update [simp]:
  "kept s (upd_arena t a f) = kept s t" "kept s (upd_flog t a i g) = kept s t" "kept s (set_map_lock t a p b) = kept s t"
  "kept s (map_abort t a p) = kept s t" "kept s (t\<lparr>bt_uuid := u\<rparr>) = kept s t" "kept s (t\<lparr>bt_narena := n\<rparr>) = kept s t"
  "kept s (t\<lparr>bt_nlba := l\<rparr>) = kept s t" "kept s (t\<lparr>bt_nfree := n\<rparr>) = kept s t" "kept s (t\<lparr>bt_arenas := as\<rparr>) = kept s t"
  "kept s (t\<lparr>bt_laidout := b\<rparr>) = kept s t" "kept s (t\<lparr>bt_layout_write_mutex := b\<rparr>) = kept s t" "kept s (t\<lparr>bt_nlane := n\<rparr>) = kept s t"
  "kept s (t\<lparr>bt_oom := os\<rparr>) = kept s t"
  by (simp_all add: kept_def upd_arena_def upd_flog_def set_map_lock_def map_abort_def)

lemma keeps_simps [simp]: "keeps s None" "keeps s (Some (r, t)) = kept s t"
  by (simp_all add: keeps_def)


lemma keeps_case:
  assumes "keeps s r" and "\<And>e t. kept s t \<Longrightarrow> keeps s (f e t)" and "\<And>x t. kept s t \<Longrightarrow> keeps s (g x t)"
  shows "keeps s (case r of None \<Rightarrow> None | Some (Inl e, t) \<Rightarrow> f e t | Some (Inr x, t) \<Rightarrow> g x t)"
proof (cases r)
  case (Some p)
  obtain q t where "p = (q, t)" by force
  then show ?thesis using assms Some by (cases q) simp_all
qed simp

lemma keeps_seqE: "keeps s r \<Longrightarrow> (\<And>x t. kept s t \<Longrightarrow> keeps s (f x t)) \<Longrightarrow> keeps s (seqE r f)"
  unfolding seqE_def by (rule keeps_case) simp_all

lemma keeps_map: "keeps s r \<Longrightarrow> (\<And>x t. kept s t \<Longrightarrow> kept s (snd (f (x, t)))) \<Longrightarrow> keeps s (map_option f r)"
  by (auto simp: keeps_def) (metis snd_conv)

lemma keeps_if: "(b \<Longrightarrow> keeps s x) \<Longrightarrow> (\<not> b \<Longrightarrow> keeps s y) \<Longrightarrow> keeps s (if b then x else y)"
  by simp

lemma keeps_sum: "(\<And>e. keeps s (f e)) \<Longrightarrow> (\<And>x. keeps s (g x)) \<Longrightarrow> keeps s (case q of Inl e \<Rightarrow> f e | Inr x \<Rightarrow> g x)"
  by (cases q) simp_all

lemma kept_malloc: "kept s t \<Longrightarrow> bt_malloc t = (b, t') \<Longrightarrow> kept s t'"
  by (auto simp: bt_malloc_def split: list.splits)

lemma keeps_malloc: "kept s t \<Longrightarrow> (\<And>t. kept s t \<Longrightarrow> keeps s (f t)) \<Longrightarrow> (\<And>t. kept s t \<Longrightarrow> keeps s (g t)) \<Longrightarrow>
   keeps s (case bt_malloc t of (True, t) \<Rightarrow> f t | (False, t) \<Rightarrow> g t)"
  using kept_malloc by (auto split: prod.splits bool.splits)

lemmas keep_rules = keeps_seqE keeps_case keeps_if keeps_map keeps_malloc

lemma ns_keeps:
  "kept s t \<Longrightarrow> keeps s (ns_read cb t lane n off)" "kept s t \<Longrightarrow> keeps s (ns_write cb t lane bs off)"
  "kept s t \<Longrightarrow> keeps s (ns_zero cb t lane k off)"
  using nswrite_keeps [of "bt_ns t" lane bs off] nszero_keeps [of "bt_ns t" lane k off]
  by (auto simp: ns_read_def ns_write_def ns_zero_def kept_def split: prod.splits option.splits)

lemma read_flog_pair_keeps: "kept s t \<Longrightarrow> keeps s (read_flog_pair cb t lane a off i)"
  unfolding read_flog_pair_def Let_def
  by (intro keep_rules ns_keeps) (auto intro!: keep_rules ns_keeps split: option.split)

lemma flog_update_keeps: "kept s t \<Longrightarrow> keeps s (flog_update cb t lane a lba old new)"
  unfolding flog_update_def Let_def by (auto intro!: keep_rules ns_keeps)

lemma arena_setf_keeps: "kept s t \<Longrightarrow> keeps s (arena_setf cb t a lane setf)"
  unfolding arena_setf_def Let_def by (auto intro!: keep_rules ns_keeps)

lemma read_flogs_loop_keeps: "kept s t \<Longrightarrow> keeps s (read_flogs_loop cb t lane a is off)"
  by (induction "is" arbitrary: t off)
     (auto simp: set_arena_error_def intro!: keep_rules read_flog_pair_keeps arena_setf_keeps)

lemma read_arena_keeps: "kept s t \<Longrightarrow> keeps s (read_arena cb t lane off a)"
  unfolding read_arena_def read_flogs_def build_rtt_def build_map_locks_def Let_def
  by (auto intro!: keep_rules ns_keeps read_flogs_loop_keeps)

lemma read_arenas_loop_keeps: "kept s t \<Longrightarrow> keeps s (read_arenas_loop cb t lane as off)"
  by (induction as arbitrary: t off) (auto intro!: keep_rules read_arena_keeps)

lemma read_arenas_keeps: "kept s t \<Longrightarrow> keeps s (read_arenas cb t lane n)"
  unfolding read_arenas_def by (auto intro!: keep_rules read_arenas_loop_keeps split: sum.split)

lemma write_flogs_loop_keeps: "kept s t \<Longrightarrow> keeps s (write_flogs_loop cb t lane is off lba)"
  by (induction "is" arbitrary: t off lba) (auto simp: Let_def intro!: keep_rules ns_keeps)

lemma write_arena_keeps: "kept s t \<Longrightarrow> keeps s (write_arena cb t lane info asz raw off)"
  unfolding write_arena_def Let_def by (auto intro!: keep_rules ns_keeps write_flogs_loop_keeps)

lemma layout_loop_keeps: "kept s t \<Longrightarrow> keeps s (layout_loop cb t lane wr ils raw tot off)"
proof (induction "unat raw" arbitrary: t raw tot off rule: less_induct)
  case less
  show ?case
  proof (cases "BTT_MIN_SIZE \<le> raw")
    case True
    define asz where "asz = (if raw > BTT_MAX_ARENA then BTT_MAX_ARENA else raw)"
    have "unat asz \<le> unat raw" "0 < unat asz"
      using True by (auto simp: asz_def word_less_nat_alt word_le_nat_alt BTT_sizes)
    then have "unat (raw - asz) < unat raw" by (simp add: unat_sub word_le_nat_alt)
    note ih = less.hyps [OF this]
    have nl: "\<not> raw < BTT_MIN_SIZE" using True by simp
    show ?thesis
      apply (subst layout_loop.simps)
      unfolding Let_def if_not_P [OF nl] asz_def [symmetric]
      using less.prems by (intro keeps_sum keeps_if keeps_case ih write_arena_keeps; simp)
  qed (use less.prems in \<open>simp add: layout_loop_end\<close>)
qed

lemma write_layout_keeps: "kept s t \<Longrightarrow> keeps s (write_layout gen cb t lane wr)"
  unfolding write_layout_def Let_def
  by (intro keep_rules layout_loop_keeps read_arenas_keeps) (auto split: sum.split)

lemma read_layout_keeps: "kept s t \<Longrightarrow> keeps s (read_layout gen cb t lane)"
  unfolding read_layout_def Let_def
  by (auto split: sum.split option.split intro!: write_layout_keeps read_arenas_keeps)

lemma btt_init_keeps:
  assumes "btt_init gen raw lbs uuid maxlane oom ns cb = Some (Inr t)"
  shows "Q ns \<Longrightarrow> Q (bt_ns t)" "bt_rawsize t = raw" "bt_lbasize t = lbs" "bt_parent_uuid t = uuid"
proof -
  let ?s = "\<lparr>bt_nlane = 0, bt_layout_write_mutex = False, bt_laidout = False, bt_uuid = replicate 16 0, bt_parent_uuid = uuid, bt_rawsize = raw,
     bt_lbasize = lbs, bt_nfree = 0, bt_nlba = 0, bt_narena = 0, bt_arenas = [], bt_ns = ns, bt_oom = oom\<rparr>"
  obtain s0 r s1 where m: "bt_malloc ?s = (True, s0)" "read_layout gen cb s0 0 = Some (r, s1)" "kept s1 t"
    using assms by (auto simp: btt_init_def Let_def split: if_splits prod.splits bool.splits sum.splits)
  have "kept ?s s0" by (rule kept_malloc [OF kept_refl m(1)])
  then have "kept ?s s1" using read_layout_keeps [of ?s s0 gen 0] m(2) by simp
  then have "kept ?s t" using m(3) by (rule kept_trans)
  then show "Q ns \<Longrightarrow> Q (bt_ns t)" "bt_rawsize t = raw" "bt_lbasize t = lbs" "bt_parent_uuid t = uuid" by (auto simp: kept_def)
qed

lemma first_layout_keeps: "kept s t \<Longrightarrow> keeps s (first_layout gen cb t lane)"
  unfolding first_layout_def by (auto intro!: keep_rules write_layout_keeps)

lemma map_lock_keeps: "kept s t \<Longrightarrow> keeps s (map_lock cb t lane a p)"
  by (auto simp: map_lock_def Let_def split: sum.split)

lemma map_unlock_keeps: "kept s t \<Longrightarrow> keeps s (map_unlock cb t lane a e p)"
  by (auto simp: map_unlock_def intro!: keep_rules ns_keeps)

lemma write_block_keeps:
  assumes "kept s t" shows "keeps s (write_block cb t lane lba buf)"
proof (cases "lba_to_arena_lba t lba")
  case (Some ap)
  then obtain a p where "lba_to_arena_lba t lba = Some (a, p)" by force
  then show ?thesis unfolding write_block_def Let_def set_arena_error_def
    by (simp add: assms del: keeps_simps) (intro conjI impI keep_rules ns_keeps map_lock_keeps flog_update_keeps map_unlock_keeps arena_setf_keeps;
          simp add: assms case_prod_unfold)
qed (simp add: write_block_def)

lemma btt_write_keeps: "keeps s (btt_write gen cb s lane lba buf)"
  unfolding btt_write_def by (auto intro!: keeps_seqE first_layout_keeps write_block_keeps)

lemma map_entry_setf_keeps: "keeps s (map_entry_setf gen cb s lane lba setf)"
  unfolding map_entry_setf_def
  by (auto split: option.split prod.split intro!: keeps_seqE first_layout_keeps map_lock_keeps map_unlock_keeps)

lemma read_track_loop_keeps: "kept s t \<Longrightarrow> keeps s (read_track_loop cb t lane a off e)"
proof -
  have "kept s t \<longrightarrow> kept s (snd y)" if "read_track_loop cb t lane a off e = Some y" for y
    using that
  proof (rule read_track_loop.raw_induct [where P = "\<lambda>cb t lane a off e y. kept s t \<longrightarrow> kept s (snd y)", rotated])
    fix f cb t lane a off e y
    assume ih: "\<And>cb t lane a off e y. f cb t lane a off e = Some y \<Longrightarrow> kept s t \<longrightarrow> kept s (snd y)"
      and y: "(if map_entry_is_error e then Some (Inl EIO, t)
      else if map_entry_is_zero_or_initial e then Some (Inr (Inl (zero_block t)), t)
      else let t = set_rtt t a lane e
           in case cb_nsread cb (bt_ns t) lane 4 off of
                Inl err \<Rightarrow> Some (Inl err, set_rtt t a lane BTT_MAP_ENTRY_ERROR)
              | Inr bs \<Rightarrow>
                  let latest_entry = le32toh bs
                  in if e = latest_entry then Some (Inr (Inr e), t)
                     else f cb t lane a off latest_entry) = Some y"
    show "kept s t \<longrightarrow> kept s (snd y)"
      using y by (auto simp: Let_def set_rtt_def split: if_splits sum.splits dest!: ih)
  qed
  then show "kept s t \<Longrightarrow> keeps s (read_track_loop cb t lane a off e)" by (auto simp: keeps_def)
qed

lemma btt_read_keeps: "keeps s (btt_read cb s lane lba)"
  unfolding btt_read_def ns_read_def Let_def
  by (auto simp: seqE_simps set_rtt_def split: option.split prod.split sum.split intro!: keeps_seqE read_track_loop_keeps)

text \<open>The operations, with what \<open>keeps\<close> says written out.\<close>

definition kept_by :: "(nat \<Rightarrow> 'ns btt \<Rightarrow> ('ns, 'a) bres) \<Rightarrow> bool" where
  "kept_by f \<longleftrightarrow> (\<forall>lane s. keeps s (f lane s))"

lemma kept_byD:
  assumes "kept_by f" and "f lane s = Some (r, s')"
  shows "Q (bt_ns s) \<Longrightarrow> Q (bt_ns s')" "bt_rawsize s' = bt_rawsize s" "bt_lbasize s' = bt_lbasize s" "bt_parent_uuid s' = bt_parent_uuid s"
  using assms by (auto simp: kept_by_def keeps_def kept_def)

lemma operations_keep:
  "kept_by (\<lambda>lane s. btt_read cb s lane lba)" "kept_by (\<lambda>lane s. btt_write gen cb s lane lba buf)"
  "kept_by (\<lambda>lane s. btt_set_zero gen cb s lane lba)" "kept_by (\<lambda>lane s. btt_set_error gen cb s lane lba)"
  by (simp_all add: kept_by_def btt_read_keeps btt_write_keeps map_entry_setf_keeps btt_set_zero_def btt_set_error_def)
end

end
