(* ===== verification/Blk_Theorems.thy ===== *)
theory Blk_Theorems
  imports Blk Btt_Frame Simulation
begin

text \<open>
  What a block pool promises. The callbacks of \<open>blk.c\<close> give a namespace that the block translation
  table can rely on; on top of it a pool is an array of blocks, for every sequence of operations.
  The last sections are about opening a pool again and about failures in the middle of a write.
\<close>

unbundle bit_operations_syntax

section \<open>The data area as a namespace\<close>

definition data_area :: "blk_area \<Rightarrow> mem \<Rightarrow> mem" where
  "data_area a m = (\<lambda>x. m (ba_data a + x))"

lemma data_area_store: "data_area a (store m (ba_data a + off) bs) = store (data_area a m) off bs"
  by (intro ext) (auto simp: data_area_def store_def)

lemma bytes_data_area: "bytes_at (data_area a m) off n = bytes_at m (ba_data a + off) n"
  by (simp add: bytes_at_def data_area_def add.assoc)

lemma in_area: "unat off + n \<le> unat sz \<Longrightarrow> unat (off + of_nat n) = unat off + n" for off sz :: u64
proof -
  assume le: "unat off + n \<le> unat sz"
  then have "n < 2 ^ 64" "unat off + n < 2 ^ 64" using unat_lt_u64 [of sz] by simp_all
  then show ?thesis by (subst unat_plus_u64) (simp_all add: unat_of_nat_u64)
qed

interpretation blk: reliable_namespace "ns_cb a z" "data_area a" "unat (ba_datasize a)" "\<lambda>_. False" for a z
proof
  show "unat (ba_datasize a) < 2 ^ 64" using unat_lt_u64 [of "ba_datasize a"] by simp
  show "cb_nsread (ns_cb a z) ns lane n off = Inr (bytes_at (data_area a ns) (unat off) n)" if "unat off + n \<le> unat (ba_datasize a)" for off n ns lane
    using that in_area [OF that] by (simp add: ns_cb_def nsread_def bytes_data_area word_less_nat_alt)
  show "r = None \<and> \<not> False \<and> \<not> False \<and> data_area a ns' = store (data_area a ns) (unat off) bs \<or>
      r \<noteq> None \<and> False \<and> (if False then data_area a ns' = data_area a ns else torn (data_area a ns) (unat off) bs (data_area a ns'))"
    if "unat off + length bs \<le> unat (ba_datasize a)" "cb_nswrite (ns_cb a z) ns lane bs off = (r, ns')" for off bs ns lane r ns'
    using that in_area [OF that(1)] by (auto simp: ns_cb_def nswrite_def data_area_store word_less_nat_alt)
  show "fst (cb_nswrite (ns_cb a z) ns lane bs off) = None" if "unat off + length bs \<le> unat (ba_datasize a)" for off bs ns lane
    using that in_area [OF that] by (simp add: ns_cb_def nswrite_def word_less_nat_alt)
  show "cb_nsmap (ns_cb a z) ns lane n off = Inr (bytes_at (data_area a ns) (unat off) n)" if "unat off + n < unat (ba_datasize a)" for off n ns lane
    using that in_area [of off n "ba_datasize a"] by (simp add: ns_cb_def nsmap_def bytes_data_area word_le_nat_alt)
  show "\<exists>ns'. cb_nszero (ns_cb a z) ns lane k off = (None, ns') \<and> data_area a ns' = store (data_area a ns) (unat off) (replicate (unat k) 0)"
    if "unat off + unat k \<le> unat (ba_datasize a)" for off k ns lane
    using that in_area [OF that] by (simp add: ns_cb_def nszero_def mem_set_def data_area_store word_less_nat_alt)
qed

section \<open>An array of blocks\<close>

text \<open>What a block pool promises: an array of blocks that are written whole.\<close>

record device =
  dv_rdonly :: bool
  dv_bsize :: nat
  dv_nblock :: nat
  dv_block :: "nat \<Rightarrow> block"

datatype dev_op = OpRead int | OpWrite int "byte list" | OpZero int | OpError int

definition dev_read :: "device \<Rightarrow> int \<Rightarrow> errno + byte list" where
  "dev_read d k =
     (if 0 \<le> k \<and> k < int (dv_nblock d)
      then case dv_block d (nat k) of BError \<Rightarrow> Inl EIO | BZero \<Rightarrow> Inr (replicate (dv_bsize d) 0) | BData bs \<Rightarrow> Inr bs
      else Inl EINVAL)"

definition dev_set :: "device \<Rightarrow> int \<Rightarrow> block \<Rightarrow> (errno + byte list) \<times> device" where
  "dev_set d k b =
     (if dv_rdonly d then (Inl EROFS, d)
      else if 0 \<le> k \<and> k < int (dv_nblock d) then (Inr [], d\<lparr>dv_block := (dv_block d)(nat k := b)\<rparr>)
      else (Inl EINVAL, d))"

fun dev_step :: "device \<Rightarrow> dev_op \<Rightarrow> (errno + byte list) \<times> device" where
  "dev_step d (OpRead k) = (dev_read d k, d)"
| "dev_step d (OpWrite k buf) = dev_set d k (BData buf)"
| "dev_step d (OpZero k) = dev_set d k BZero"
| "dev_step d (OpError k) = dev_set d k BError"

text \<open>Block numbers are of type \<open>long long\<close>, and a buffer holds a block.\<close>

fun dev_op_ok :: "device \<Rightarrow> dev_op \<Rightarrow> bool" where
  "dev_op_ok d (OpWrite k buf) \<longleftrightarrow> - (2 ^ 63) \<le> k \<and> k < 2 ^ 63 \<and> length buf = dv_bsize d"
| "dev_op_ok d (OpRead k) \<longleftrightarrow> - (2 ^ 63) \<le> k \<and> k < 2 ^ 63"
| "dev_op_ok d (OpZero k) \<longleftrightarrow> - (2 ^ 63) \<le> k \<and> k < 2 ^ 63"
| "dev_op_ok d (OpError k) \<longleftrightarrow> - (2 ^ 63) \<le> k \<and> k < 2 ^ 63"

lemma dev_step_params: "dv_bsize (snd (dev_step d op)) = dv_bsize d" "dev_op_ok (snd (dev_step d op)) = dev_op_ok d"
proof -
  show b: "dv_bsize (snd (dev_step d op)) = dv_bsize d" by (cases op) (auto simp: dev_set_def)
  show "dev_op_ok (snd (dev_step d op)) = dev_op_ok d"
  proof
    fix o' show "dev_op_ok (snd (dev_step d op)) o' = dev_op_ok d o'" using b by (cases o') simp_all
  qed
qed

abbreviation dev_run :: "device \<Rightarrow> dev_op list \<Rightarrow> (errno + byte list) list \<times> device" where
  "dev_run \<equiv> spec_run dev_step"

text \<open>An implementation: every step returns, answers what the array answers, and keeps the invariant.\<close>

locale block_device =
  fixes dok :: "'s \<Rightarrow> bool" and device :: "'s \<Rightarrow> device" and step :: "'s \<Rightarrow> dev_op \<Rightarrow> ((errno + byte list) \<times> 's) option"
  assumes step_law: "dok s \<Longrightarrow> dev_op_ok (device s) op \<Longrightarrow>
    \<exists>s'. step s op = Some (fst (dev_step (device s) op), s') \<and> dok s' \<and> device s' = snd (dev_step (device s) op)"

sublocale block_device \<subseteq> simulation dok device step dev_step dev_op_ok
  by unfold_locales (rule step_law, assumption+, rule dev_step_params)

section \<open>Pools as arrays of blocks\<close>

definition pool_ok :: "bool \<Rightarrow> pmemblk \<Rightarrow> bool" where
  "pool_ok z p \<longleftrightarrow>
     table_ok (ns_cb (pb_area p) z) (unat (ba_datasize (pb_area p))) (data_area (pb_area p)) (pb_bttp p) \<and>
     healthy (pb_bttp p) \<and> pb_nlane p = bt_nlane (pb_bttp p) \<and> 0 < unat (pb_nlane p) \<and>
     pb_locks p = replicate (unat (pb_nlane p)) False"

definition pool_device :: "pmemblk \<Rightarrow> device" where
  "pool_device p =
     \<lparr>dv_rdonly = pb_rdonly p, dv_bsize = unat (bt_lbasize (pb_bttp p)), dv_nblock = unat (pmemblk_nblock p),
      dv_block = (\<lambda>n. if n < unat (pmemblk_nblock p) then table_view (data_area (pb_area p)) (pb_bttp p) (of_nat n) else BZero)\<rparr>"

text \<open>The operations as steps; \<open>u\<close> is the identifier that the first write may generate.\<close>

fun pmemblk_step :: "byte list \<Rightarrow> bool \<Rightarrow> pmemblk \<Rightarrow> dev_op \<Rightarrow> ((errno + byte list) \<times> pmemblk) option" where
  "pmemblk_step u z p (OpRead k) = pmemblk_read z p k"
| "pmemblk_step u z p (OpWrite k buf) = map_option (map_prod (map_sum id (\<lambda>_. [])) id) (pmemblk_write (Inr u) z p buf k)"
| "pmemblk_step u z p (OpZero k) = map_option (map_prod (map_sum id (\<lambda>_. [])) id) (pmemblk_set_zero (Inr u) z p k)"
| "pmemblk_step u z p (OpError k) = map_option (map_prod (map_sum id (\<lambda>_. [])) id) (pmemblk_set_error (Inr u) z p k)"

definition lane_of :: "pmemblk \<Rightarrow> nat" where
  "lane_of p = unat (pb_next_lane p mod pb_nlane p)"

lemma with_lane_ok:
  assumes "pool_ok z p"
  shows "lane_of p < unat (bt_nlane (pb_bttp p))"
    and "with_lane p f = map_option (\<lambda>(r, b). (r, p\<lparr>pb_bttp := b, pb_next_lane := pb_next_lane p + 1\<rparr>)) (f (lane_of p) (pb_bttp p))"
proof -
  have n: "0 < unat (pb_nlane p)" "pb_nlane p \<noteq> 0" and lk: "pb_locks p = replicate (unat (pb_nlane p)) False"
    using assms by (auto simp: pool_ok_def)
  have l: "lane_of p < unat (pb_nlane p)" using n by (simp add: unat_mod lane_of_def)
  have rel: "(pb_locks p)[lane_of p := False] = pb_locks p" using lk l by (simp add: list_update_same_conv)
  show "with_lane p f = map_option (\<lambda>(r, b). (r, p\<lparr>pb_bttp := b, pb_next_lane := pb_next_lane p + 1\<rparr>)) (f (lane_of p) (pb_bttp p))"
    using n l lk rel by (auto simp: with_lane_def lane_enter_def lane_exit_def lane_of_def Let_def intro!: pmemblk.equality split: option.split)
  show "lane_of p < unat (bt_nlane (pb_bttp p))" using l assms by (simp add: pool_ok_def)
qed

lemma of_int_block:
  assumes "- (2 ^ 63) \<le> k" "k < 2 ^ 63" and "0 \<le> k"
  shows "unat (of_int k :: u64) = nat k"
proof -
  have "nat k < 2 ^ 63" using assms by (simp add: nat_less_iff)
  then have "unat (of_nat (nat k) :: u64) = nat k" by (intro unat_of_nat_u64) simp
  then show ?thesis using assms(3) by simp
qed

text \<open>A change of one block of the table is a change of one block of the array.\<close>

lemma pool_device_update:
  assumes sp: "same_params (pb_bttp p) s'" and k: "0 \<le> k" "k < int (unat (pmemblk_nblock p))" "k < 2 ^ 63"
    and v: "\<forall>x. \<not> invalid_lba (pb_bttp p) x \<longrightarrow>
      table_view (data_area (pb_area p)) s' x = (if x = of_int k then b else table_view (data_area (pb_area p)) (pb_bttp p) x)"
  shows "pool_device (p\<lparr>pb_bttp := s', pb_next_lane := l\<rparr>) = (pool_device p)\<lparr>dv_block := (dv_block (pool_device p))(nat k := b)\<rparr>"
proof -
  have nb: "bt_nlba s' = bt_nlba (pb_bttp p)" "bt_lbasize s' = bt_lbasize (pb_bttp p)" using sp by (auto simp: same_params_def)
  let ?n = "unat (bt_nlba (pb_bttp p))"
  have kw: "of_nat n = (of_int k :: u64) \<longleftrightarrow> n = nat k" if "n < ?n" for n
  proof -
    have "unat (of_nat n :: u64) = n" using that unat_lt_u64 [of "bt_nlba (pb_bttp p)"] by (intro unat_of_nat_u64) simp
    then show ?thesis using of_int_block [of k] k by (metis order.trans neg_le_0_iff_le zero_le_numeral zero_le_power word_unat_eq_iff)
  qed
  have iv: "\<not> invalid_lba (pb_bttp p) (of_nat n)" if "n < ?n" for n
    using that unat_lt_u64 [of "bt_nlba (pb_bttp p)"] by (simp add: invalid_lba_def word_le_nat_alt unat_of_nat_u64)
  have "nat k < ?n" using k by (simp add: pmemblk_nblock_def btt_nlba_def nat_less_iff)
  then show ?thesis
    using v iv kw nb by (auto simp: pool_device_def pmemblk_nblock_def btt_nlba_def intro!: device.equality)
qed

lemma invalid_block:
  assumes "- (2 ^ 63) \<le> k" "k < 2 ^ 63" and "0 \<le> k"
  shows "invalid_lba (pb_bttp p) (of_int k) \<longleftrightarrow> \<not> k < int (unat (pmemblk_nblock p))"
proof -
  have "k < int (unat (bt_nlba (pb_bttp p))) \<longleftrightarrow> nat k < unat (bt_nlba (pb_bttp p))" using assms(3) by (metis int_nat_eq of_nat_less_iff)
  then show ?thesis using of_int_block [OF assms] by (simp only: invalid_lba_def pmemblk_nblock_def btt_nlba_def word_le_nat_alt not_less)
qed

lemma pool_ok_step:
  assumes "pool_ok z p" and "table_ok (ns_cb (pb_area p) z) (unat (ba_datasize (pb_area p))) (data_area (pb_area p)) s'"
    and "healthy s'" and "same_params (pb_bttp p) s'"
  shows "pool_ok z (p\<lparr>pb_bttp := s', pb_next_lane := l\<rparr>)"
  using assms by (auto simp: pool_ok_def same_params_def)

lemma pool_keep: "pool_ok z (p\<lparr>pb_next_lane := l\<rparr>) = pool_ok z p" "pool_device (p\<lparr>pb_next_lane := l\<rparr>) = pool_device p"
  by (auto simp: pool_ok_def pool_device_def pmemblk_nblock_def fun_eq_iff)

lemma modify_refines:
  assumes ok: "pool_ok z p" and k: "- (2 ^ 63) \<le> k" "k < 2 ^ 63"
    and f: "\<And>lane. can_access (pb_bttp p) lane (of_int k) \<Longrightarrow>
      \<exists>s'. f lane (pb_bttp p) = Some (Inr (), s') \<and> table_ok (ns_cb (pb_area p) z) (unat (ba_datasize (pb_area p))) (data_area (pb_area p)) s' \<and>
        healthy s' \<and> same_params (pb_bttp p) s' \<and>
        (\<forall>x. \<not> invalid_lba (pb_bttp p) x \<longrightarrow>
          table_view (data_area (pb_area p)) s' x = (if x = of_int k then b else table_view (data_area (pb_area p)) (pb_bttp p) x))"
    and inv: "\<And>lane. invalid_lba (pb_bttp p) (of_int k) \<Longrightarrow> f lane (pb_bttp p) = Some (Inl EINVAL, pb_bttp p)"
  shows "\<exists>p'. map_option (map_prod (map_sum id (\<lambda>_. [])) id)
      (if pb_rdonly p then Some (Inl EROFS, p) else if k < 0 then Some (Inl EINVAL, p) else with_lane p f) =
      Some (fst (dev_set (pool_device p) k b), p') \<and> pool_ok z p' \<and> pool_device p' = snd (dev_set (pool_device p) k b)"
proof (cases "pb_rdonly p \<or> k < 0")
  case True
  then show ?thesis using ok by (intro exI [of _ p]) (auto simp: dev_set_def pool_device_def)
next
  case False
  then have k0: "0 \<le> k" and ro: "\<not> pb_rdonly p" by auto
  let ?lane = "lane_of p"
  note lane = with_lane_ok [OF ok]
  note iv = invalid_block [OF k k0]
  show ?thesis
  proof (cases "k < int (unat (pmemblk_nblock p))")
    case True
    then have "can_access (pb_bttp p) ?lane (of_int k)" using iv lane(1) by (simp add: can_access_def)
    from f [OF this] obtain s' where s': "f ?lane (pb_bttp p) = Some (Inr (), s')" "table_ok (ns_cb (pb_area p) z) (unat (ba_datasize (pb_area p))) (data_area (pb_area p)) s'"
      "healthy s'" "same_params (pb_bttp p) s'"
      "\<forall>x. \<not> invalid_lba (pb_bttp p) x \<longrightarrow>
          table_view (data_area (pb_area p)) s' x = (if x = of_int k then b else table_view (data_area (pb_area p)) (pb_bttp p) x)" by blast
    let ?p = "p\<lparr>pb_bttp := s', pb_next_lane := pb_next_lane p + 1\<rparr>"
    have d: "dev_set (pool_device p) k b = (Inr [], (pool_device p)\<lparr>dv_block := (dv_block (pool_device p))(nat k := b)\<rparr>)"
      using True k0 ro by (simp add: dev_set_def) (simp add: pool_device_def)
    have "with_lane p f = Some (Inr (), ?p)" using s'(1) by (simp add: with_lane_ok(2) [OF ok])
    then show ?thesis
      unfolding d using False pool_ok_step [OF ok s'(2,3,4), of "pb_next_lane p + 1"] pool_device_update [OF s'(4) k0 True k(2) s'(5), of "pb_next_lane p + 1"]
      by (intro exI [of _ ?p]) simp
  next
    case nk: False
    then show ?thesis using False iv inv ok by (simp add: dev_set_def pool_keep with_lane_ok(2) [OF ok]) (simp add: pool_device_def)
  qed
qed

lemma read_refines:
  assumes ok: "pool_ok z p" and k: "- (2 ^ 63) \<le> k" "k < 2 ^ 63"
  shows "\<exists>p'. pmemblk_read z p k = Some (dev_read (pool_device p) k, p') \<and> pool_ok z p' \<and> pool_device p' = pool_device p"
proof (cases "k < 0")
  case True
  then show ?thesis using ok by (simp add: pmemblk_read_def dev_read_def)
next
  case False
  then have k0: "0 \<le> k" by simp
  let ?cb = "ns_cb (pb_area p) z"
  let ?lane = "lane_of p"
  note lane = with_lane_ok [OF ok]
  note iv = invalid_block [OF k k0]
  have "btt_read ?cb (pb_bttp p) ?lane (of_int k) = Some (dev_read (pool_device p) k, pb_bttp p)"
  proof (cases "k < int (unat (pmemblk_nblock p))")
    case True
    then have "can_access (pb_bttp p) ?lane (of_int k)" using iv lane(1) by (simp add: can_access_def)
    from blk.table_read [OF _ this] ok
    have "btt_read ?cb (pb_bttp p) ?lane (of_int k) = Some (read_result (pb_bttp p) (table_view (data_area (pb_area p)) (pb_bttp p) (of_int k)), pb_bttp p)"
      by (simp add: pool_ok_def)
    moreover have "nat k < unat (pmemblk_nblock p)" using True k0 by (simp add: nat_less_iff)
    ultimately show ?thesis using True k0 by (simp add: dev_read_def pool_device_def read_result_def zero_block_def split: block.split)
  next
    case nk: False
    then show ?thesis using iv by (simp add: btt_read_def dev_read_def) (simp add: pool_device_def)
  qed
  then show ?thesis using False ok by (simp add: pmemblk_read_def pool_keep with_lane_ok(2) [OF ok])
qed

lemma write_refines:
  assumes ok: "pool_ok z p" and k: "- (2 ^ 63) \<le> k" "k < 2 ^ 63" and buf: "length buf = unat (bt_lbasize (pb_bttp p))" and u: "length u = 16"
  shows "\<exists>p'. pmemblk_step u z p (OpWrite k buf) = Some (fst (dev_set (pool_device p) k (BData buf)), p') \<and> pool_ok z p' \<and>
    pool_device p' = snd (dev_set (pool_device p) k (BData buf))"
proof -
  let ?cb = "ns_cb (pb_area p) z"
  let ?f = "\<lambda>lane bttp. btt_write (Inr u) ?cb bttp lane (of_int k) buf"
  have tb: "table_ok ?cb (unat (ba_datasize (pb_area p))) (data_area (pb_area p)) (pb_bttp p)" "healthy (pb_bttp p)"
    using ok by (simp_all add: pool_ok_def)
  have "\<exists>s'. ?f lane (pb_bttp p) = Some (Inr (), s') \<and> table_ok ?cb (unat (ba_datasize (pb_area p))) (data_area (pb_area p)) s' \<and> healthy s' \<and>
      same_params (pb_bttp p) s' \<and> (\<forall>x. \<not> invalid_lba (pb_bttp p) x \<longrightarrow>
        table_view (data_area (pb_area p)) s' x = (if x = of_int k then BData buf else table_view (data_area (pb_area p)) (pb_bttp p) x))"
    if "can_access (pb_bttp p) lane (of_int k)" for lane
    using blk.table_write [OF tb that u buf] by (auto simp: table_ok_def)
  from modify_refines [where f = ?f and b = "BData buf", OF ok k this] show ?thesis
    by (simp add: pmemblk_write_def btt_write_def)
qed

lemma setf_refines:
  assumes ok: "pool_ok z p" and k: "- (2 ^ 63) \<le> k" "k < 2 ^ 63" and u: "length u = 16"
    and setf: "setf = BTT_MAP_ENTRY_ZERO \<or> setf = BTT_MAP_ENTRY_ERROR"
  shows "\<exists>p'. map_option (map_prod (map_sum id (\<lambda>_. [])) id)
      (if pb_rdonly p then Some (Inl EROFS, p) else if k < 0 then Some (Inl EINVAL, p)
       else with_lane p (\<lambda>lane bttp. map_entry_setf (Inr u) (ns_cb (pb_area p) z) bttp lane (of_int k) setf)) =
      Some (fst (dev_set (pool_device p) k (setf_block setf)), p') \<and> pool_ok z p' \<and> pool_device p' = snd (dev_set (pool_device p) k (setf_block setf))"
proof -
  have tb: "table_ok (ns_cb (pb_area p) z) (unat (ba_datasize (pb_area p))) (data_area (pb_area p)) (pb_bttp p)" "healthy (pb_bttp p)"
    using ok by (simp_all add: pool_ok_def)
  show ?thesis
    by (rule modify_refines [where f = "\<lambda>lane bttp. map_entry_setf (Inr u) (ns_cb (pb_area p) z) bttp lane (of_int k) setf" and b = "setf_block setf", OF ok k])
       (use blk.table_setf [OF tb _ u setf] in \<open>auto simp: map_entry_setf_def\<close>)
qed

interpretation pool: block_device "\<lambda>p. length u = 16 \<and> pool_ok z p" pool_device "pmemblk_step u z" for u z
proof
  fix s op assume ok: "length u = 16 \<and> pool_ok z s" and op: "dev_op_ok (pool_device s) op"
  note w = write_refines [OF conjunct2 [OF ok] _ _ _ conjunct1 [OF ok]] and f = setf_refines [OF conjunct2 [OF ok] _ _ conjunct1 [OF ok]]
  have "\<exists>s'. pmemblk_step u z s op = Some (fst (dev_step (pool_device s) op), s') \<and> pool_ok z s' \<and> pool_device s' = snd (dev_step (pool_device s) op)"
  proof (cases op)
    case (OpRead k)
    then show ?thesis using read_refines [OF conjunct2 [OF ok], of k] op by simp
  next
    case (OpWrite k buf)
    then show ?thesis using w [of k buf] op by (simp add: pool_device_def)
  next
    case (OpZero k)
    then have k: "- (2 ^ 63) \<le> k" "k < 2 ^ 63" using op by auto
    have sb: "setf_block BTT_MAP_ENTRY_ZERO = BZero" by (simp add: setf_block_def)
    show ?thesis unfolding OpZero pmemblk_step.simps pmemblk_set_zero_def btt_set_zero_def dev_step.simps
      by (rule f [OF k disjI1 [OF refl], unfolded sb])
  next
    case (OpError k)
    then have k: "- (2 ^ 63) \<le> k" "k < 2 ^ 63" using op by auto
    have sb: "setf_block BTT_MAP_ENTRY_ERROR = BError" by (simp add: setf_block_def BTT_MAP_ENTRY_ERROR_def BTT_MAP_ENTRY_ZERO_def)
    show ?thesis unfolding OpError pmemblk_step.simps pmemblk_set_error_def btt_set_error_def dev_step.simps
      by (rule f [OF k disjI2 [OF refl], unfolded sb])
  qed
  with ok show "\<exists>s'. pmemblk_step u z s op = Some (fst (dev_step (pool_device s) op), s') \<and> (length u = 16 \<and> pool_ok z s') \<and>
    pool_device s' = snd (dev_step (pool_device s) op)" by blast
qed

section \<open>Creating a pool\<close>

lemma data_offset: "roundup SIZEOF_PMEMBLK BLK_FORMAT_DATA_ALIGN = 8192"
  by (simp add: roundup_def SIZEOF_PMEMBLK_def BLK_FORMAT_DATA_ALIGN_def)

lemma zero_no_layout:
  assumes "\<And>x. x < 4096 \<Longrightarrow> m x = 0"
  shows "read_info uuid (bytes_at m 0 4096) = None"
proof -
  have "bytes_at (buffer (bytes_at m 0 4096)) 0 16 = bytes_at m 0 16"
    by (simp add: buffer_def bytes_at_store_inside take_bytes_at)
  also have "\<dots> = replicate 16 0" using assms by (intro nth_equalityI) auto
  finally have "bi_sig (btt_info_convert2h (bytes_at m 0 4096)) = replicate 16 0" by (simp add: btt_info_convert2h_def info_at_def)
  moreover have "replicate 16 0 \<noteq> Sig"
  proof
    assume "replicate 16 0 = Sig"
    then have "hd (replicate 16 0) = hd Sig" by simp
    then show False by (simp add: Sig_def)
  qed
  ultimately show ?thesis by (simp add: read_info_def Let_def)
qed

lemma runtime_init_zeroed:
  assumes init: "blk_runtime_init gen ncpus [] m psize bsize rdonly = (Some (Inr p), z)" and zf: "rd32 m is_zeroed_p \<noteq> 0"
    and al: "4096 dvd unat (psize - 8192)" and zr: "\<forall>x < unat (psize - 8192). m (8192 + x) = 0"
  shows "z" "pool_ok True p" "bt_ns (pb_bttp p) = m" "bt_lbasize (pb_bttp p) = ucast bsize" "pb_rdonly p = rdonly" "\<not> bt_laidout (pb_bttp p)"
    "bt_rawsize (pb_bttp p) = psize - 8192" "bt_parent_uuid (pb_bttp p) = bytes_at m poolset_uuid_p 16"
    "pb_area p = \<lparr>ba_data = 8192, ba_datasize = psize - 8192\<rparr>"
proof -
  let ?a = "\<lparr>ba_data = 8192, ba_datasize = psize - 8192\<rparr>"
  let ?ml = "unat (of_int (if ncpus < 1 then 1 else ncpus) * 2 :: u32)" and ?uuid = "bytes_at m poolset_uuid_p 16"
  obtain b where bi: "btt_init gen (psize - 8192) (ucast bsize) ?uuid ?ml [] m (ns_cb ?a True) = Some (Inr b)"
  proof (cases "btt_init gen (psize - 8192) (ucast bsize) ?uuid ?ml [] m (ns_cb ?a True)")
    case (Some r)
    then show ?thesis using init zf that by (cases r) (simp_all add: blk_runtime_init_def Let_def data_offset)
  qed (use init zf in \<open>simp add: blk_runtime_init_def Let_def data_offset\<close>)
  have zr: "\<forall>x < unat (psize - 8192). data_area ?a m x = 0" using zr by (simp add: data_area_def)
  have "BTT_MIN_SIZE \<le> psize - 8192" using bi by (auto simp: btt_init_def split: if_splits)
  then have "4096 \<le> unat (psize - 8192)" by (simp add: word_le_nat_alt BTT_sizes)
  then have no: "read_info ?uuid (bytes_at (data_area ?a m) 0 4096) = None" using zr by (intro zero_no_layout) auto
  note bb = blk.btt_init_blank [where a = ?a and z = True, OF bi no _ al]
  have c: "unat (psize - 8192) \<le> unat (ba_datasize ?a)" "length ?uuid = 16"
    "if cb_ns_is_zeroed (ns_cb ?a True) then \<forall>x < unat (psize - 8192). data_area ?a m x = 0 else narenas (unat (psize - 8192)) = 1"
    using zr by (simp_all add: ns_cb_def)
  note bb = bb [OF c]
  have "bt_malloc b = (True, b)" using bb(1) by (simp add: bt_malloc_def blank_def)
  then have p: "p = \<lparr>pb_rdonly = rdonly, pb_area = ?a, pb_bttp = b, pb_nlane = btt_nlane b, pb_next_lane = 0, pb_locks = replicate (unat (btt_nlane b)) False\<rparr>"
    and "z" using init zf bi by (simp_all add: blk_runtime_init_def Let_def data_offset)
  then show "z" "bt_ns (pb_bttp p) = m" "bt_lbasize (pb_bttp p) = ucast bsize" "pb_rdonly p = rdonly" "\<not> bt_laidout (pb_bttp p)" "bt_rawsize (pb_bttp p) = psize - 8192"
    "bt_parent_uuid (pb_bttp p) = bytes_at m poolset_uuid_p 16" "pb_area p = \<lparr>ba_data = 8192, ba_datasize = psize - 8192\<rparr>"
    using bb blank_not_laidout [OF bb(1)] by simp_all
  have "0 < unat (bt_nlane b)" using bb(7) by (auto simp: unat_of_nat)
  then show "pool_ok True p" using bb(1,2) by (simp add: pool_ok_def p table_ok_def btt_nlane_def)
qed

text \<open>Creation succeeds for blocks of up to 32512 bytes: every arena has at least twice as many blocks
  as free blocks.\<close>

lemma set_params_fit:
  assumes asz: "2 ^ 24 \<le> unat asz" "unat asz \<le> 2 ^ 39" and ils: "512 \<le> unat ils" "unat ils \<le> 32512"
  shows "\<exists>info. btt_info_set_params zero_info L ils BTT_DEFAULT_NFREE asz = Inr info"
proof -
  have fs: "unat (btt_flog_size BTT_DEFAULT_NFREE) = 16384" by (simp add: flog_size_nat BTT_DEFAULT_NFREE_def)
  have d1: "unat (asz - 8192) = unat asz - 8192" using asz by (subst unat_sub) (simp_all add: word_le_nat_alt)
  have d: "unat (btt_arena_datasize asz BTT_DEFAULT_NFREE) = unat asz - 24576"
    unfolding btt_arena_datasize_def using asz d1 fs by (subst unat_sub) (simp_all add: word_le_nat_alt SIZEOF_BTT_INFO_def)
  have d2: "unat (btt_arena_datasize asz BTT_DEFAULT_NFREE - BTT_ALIGNMENT) = unat asz - 28672"
    using asz d by (subst unat_sub) (simp_all add: word_le_nat_alt BTT_ALIGNMENT_def)
  have l: "unat (ils + BTT_MAP_ENTRY_SIZE) = unat ils + 4"
    using ils by (subst unat_add_lem [THEN iffD1]) (simp_all add: BTT_MAP_ENTRY_SIZE_def)
  have "(unat asz - 28672) div (unat ils + 4) \<ge> (2 ^ 24 - 28672) div (32512 + 4)"
    using asz ils by (intro order.trans [OF div_le_mono div_le_mono2]) auto
  then have "512 \<le> unat ((btt_arena_datasize asz BTT_DEFAULT_NFREE - BTT_ALIGNMENT) div ucast (ils + BTT_MAP_ENTRY_SIZE))"
    by (simp add: unat_div d2 l)
  then show ?thesis by (simp add: btt_info_set_params_def Let_def BTT_DEFAULT_NFREE_def word_less_nat_alt)
qed

lemma count_returns:
  assumes "512 \<le> unat ils" "unat ils \<le> 32512" and "bt_nfree s = BTT_DEFAULT_NFREE"
  shows "\<exists>tot'. layout_loop cb s lane False ils raw tot off = Some (Inr tot', s)"
proof (induction "unat raw" arbitrary: raw tot rule: less_induct)
  case less
  show ?case
  proof (cases "BTT_MIN_SIZE \<le> raw")
    case True
    define asz where "asz = (if raw > BTT_MAX_ARENA then BTT_MAX_ARENA else raw)"
    have b: "2 ^ 24 \<le> unat asz" "unat asz \<le> 2 ^ 39" "unat asz \<le> unat raw"
      using True by (auto simp: asz_def word_less_nat_alt word_le_nat_alt BTT_sizes)
    then have "unat (raw - asz) < unat raw" by (simp add: unat_sub word_le_nat_alt)
    note ih = less.hyps [OF this]
    show ?thesis unfolding layout_loop_step(1) [OF True, folded asz_def] assms(3)
      using set_params_fit [OF b(1,2) assms(1,2), of "bt_lbasize s"] ih by auto
  qed (simp add: layout_loop_end)
qed

lemma internal_small:
  assumes "unat ext \<le> 32512"
  shows "internal_lbasize ext \<noteq> 0" "unat (internal_lbasize ext) \<le> 32512"
proof -
  let ?s = "if ext < BTT_MIN_LBA_SIZE then BTT_MIN_LBA_SIZE else ext"
  have s: "512 \<le> unat ?s" "unat ?s \<le> 32512" using assms by (auto simp: BTT_MIN_LBA_SIZE_def word_less_nat_alt)
  have s1: "unat (?s + 255) = unat ?s + 255" using s by (subst unat_add_lem [THEN iffD1]) simp_all
  have dv: "(unat ?s + 255) div 256 \<le> 127" using s(2) by simp
  have r: "unat (roundup ?s BTT_INTERNAL_LBA_ALIGNMENT) = (unat ?s + 255) div 256 * 256"
    unfolding roundup_def using dv by (subst unat_mult_lem [THEN iffD1]) (simp_all add: unat_div s1 BTT_INTERNAL_LBA_ALIGNMENT_def)
  have ge: "unat ?s \<le> (unat ?s + 255) div 256 * 256" using roundup_bounds(1) [of 256 "unat ?s"] by simp
  then have "\<not> roundup ?s BTT_INTERNAL_LBA_ALIGNMENT < BTT_INTERNAL_LBA_ALIGNMENT" using s r by (simp add: word_less_nat_alt BTT_INTERNAL_LBA_ALIGNMENT_def)
  then have e: "internal_lbasize ext = roundup ?s BTT_INTERNAL_LBA_ALIGNMENT" by (simp add: internal_lbasize_def Let_def)
  show "unat (internal_lbasize ext) \<le> 32512" using e r dv by simp
  show "internal_lbasize ext \<noteq> 0"
  proof
    assume "internal_lbasize ext = 0"
    then have "unat (roundup ?s BTT_INTERNAL_LBA_ALIGNMENT) = 0" using e by simp
    then show False using r ge s by linarith
  qed
qed

text \<open>The header of a pool agrees with the parameters of its table.\<close>

definition pool_hdr :: "u64 \<Rightarrow> pmemblk \<Rightarrow> bool" where
  "pool_hdr psize p \<longleftrightarrow>
     (let m = bt_ns (pb_bttp p)
      in pb_area p = \<lparr>ba_data = 8192, ba_datasize = psize - 8192\<rparr> \<and> bt_rawsize (pb_bttp p) = psize - 8192 \<and>
         rd32 m bsize_p = bt_lbasize (pb_bttp p) \<and> rd32 m is_zeroed_p \<noteq> 0 \<and>
         bytes_at m poolset_uuid_p 16 = bt_parent_uuid (pb_bttp p))"

definition unwritten :: "pmemblk \<Rightarrow> u64 \<Rightarrow> u64 \<Rightarrow> bool" where
  "unwritten p psize bsize \<longleftrightarrow>
     \<not> bt_laidout (pb_bttp p) \<and> pool_hdr psize p \<and> bt_lbasize (pb_bttp p) = ucast bsize"

lemma created_zeroed:
  assumes "pmemblk_createU gen ncpus [] (Inr (m, psize, True)) None bsize = (Some (Inr p), z)"
    and "8192 \<le> unat psize" and "4096 dvd unat psize" and "\<forall>x. 8192 \<le> x \<and> x < unat psize \<longrightarrow> m x = 0"
  shows "z = Some True \<and> pool_ok True p \<and> pmemblk_bsize p = bsize \<and>
    unwritten p psize bsize \<and>
    pool_device p = \<lparr>dv_rdonly = False, dv_bsize = unat bsize, dv_nblock = unat (pmemblk_nblock p), dv_block = \<lambda>_. BZero\<rparr>"
proof -
  let ?m = "blk_descr_create m (ucast bsize) True"
  have bs: "bsize \<noteq> 0" "unat bsize < 2 ^ 32"
    using assms(1) by (auto simp: pmemblk_createU_def word_less_nat_alt split: if_splits)
  then have u: "unat (ucast bsize :: u32) = unat bsize" by (simp add: unsigned_ucast_eq take_bit_nat_eq_self)
  obtain z' where bi: "blk_runtime_init gen ncpus [] ?m psize bsize False = (Some (Inr p), z')" "z = Some z'"
    using assms(1) bs by (auto simp: pmemblk_createU_def word_less_nat_alt Let_def split: if_splits prod.splits option.splits sum.splits)
  have zf: "rd32 ?m is_zeroed_p \<noteq> 0" by (simp add: blk_descr_create_def)
  have ds: "unat (psize - 8192) = unat psize - 8192" using assms(2) by (simp add: unat_sub word_le_nat_alt)
  have al: "4096 dvd unat (psize - 8192)" unfolding ds using assms(3) by (intro dvd_diff_nat) auto
  have zr: "\<forall>x < unat (psize - 8192). ?m (8192 + x) = 0"
    using assms(4) ds by (simp add: blk_descr_create_def wr32_def store_out bsize_p_def is_zeroed_p_def SIZEOF_POOL_HDR_def)
  note ri = runtime_init_zeroed [OF bi(1) zf al zr]
  have bp: "rd32 ?m bsize_p = ucast bsize"
    by (simp add: blk_descr_create_def rd32_wr32_disjoint bsize_p_def is_zeroed_p_def)
  have "ucast (ucast bsize :: u32) = bsize" using u by (simp add: word_unat_eq_iff)
  then have "pmemblk_bsize p = bsize" using ri(3) bp by (simp add: pmemblk_bsize_def)
  moreover have "pool_device p = \<lparr>dv_rdonly = False, dv_bsize = unat bsize, dv_nblock = unat (pmemblk_nblock p), dv_block = \<lambda>_. BZero\<rparr>"
    using ri u by (auto simp: pool_device_def table_view_def fun_eq_iff)
  ultimately show ?thesis using ri bi(2) bp zf by (simp add: unwritten_def pool_hdr_def)
qed

lemma btt_init_returns:
  assumes raw: "BTT_MIN_SIZE \<le> raw" "unat raw \<le> unat (ba_datasize a)" and no: "read_info uuid (bytes_at (data_area a m) 0 4096) = None"
    and il: "internal_lbasize lbs \<noteq> 0"
    and cnt: "layout_loop cb s0 0 False (internal_lbasize lbs) raw 0 0 = Some (Inr tot, s0)" "bt_lbasize s0 = lbs" "bt_nfree s0 = BTT_DEFAULT_NFREE"
  shows "\<exists>s. btt_init gen raw lbs uuid maxlane [] m (ns_cb a z) = Some (Inr s) \<and> bt_nlba s = tot"
proof -
  let ?cb = "ns_cb a z"
  let ?s = "\<lparr>bt_nlane = 0, bt_layout_write_mutex = False, bt_laidout = False, bt_uuid = replicate 16 0, bt_parent_uuid = uuid, bt_rawsize = raw,
     bt_lbasize = lbs, bt_nfree = BTT_DEFAULT_NFREE, bt_nlba = 0, bt_narena = 0, bt_arenas = [], bt_ns = m, bt_oom = []\<rparr>"
  have "2 ^ 24 \<le> unat raw" using raw(1) by (simp add: word_le_nat_alt BTT_sizes)
  then have rd: "cb_nsread ?cb m 0 SIZEOF_BTT_INFO 0 = Inr (bytes_at (data_area a m) 0 4096)"
    using raw(2) blk.nsread_law [of 0 4096 a z m 0] by (simp add: SIZEOF_BTT_INFO_def)
  have rl: "read_layout_loop ?cb ?s 0 raw 0 (- 1) 0 0 = Inr None"
    using raw(1) rd no by (subst read_layout_loop.simps) simp
  let ?s1 = "?s\<lparr>bt_narena := ucast (raw div BTT_MAX_ARENA) + (if BTT_MIN_SIZE \<le> raw mod BTT_MAX_ARENA then 1 else 0)\<rparr>"
  have "layout_loop ?cb ?s1 0 False (internal_lbasize lbs) raw 0 0 = Some (Inr tot, ?s1)"
    by (rule layout_loop_count [OF cnt(1)]) (simp_all add: cnt)
  then have w: "write_layout gen ?cb ?s 0 False = Some (Inr (), ?s1\<lparr>bt_nlba := tot\<rparr>)"
    using il by (simp add: write_layout_def seqE_simps Let_def)
  have "read_layout gen ?cb (?s\<lparr>bt_nfree := 0\<rparr>) 0 = write_layout gen ?cb ?s 0 False" using rl by (simp add: read_layout_def Let_def)
  then show ?thesis
    unfolding btt_init_def Let_def bt_malloc_def using raw(1) w by (simp add: not_less [symmetric])
qed

lemma new_pool:
  assumes "0 < unat bsize" and "unat bsize \<le> 32512" and "8192 + 2 ^ 24 \<le> unat psize" and "4096 dvd unat psize"
    and "\<forall>x. 8192 \<le> x \<and> x < unat psize \<longrightarrow> m x = 0"
  shows "\<exists>p. pmemblk_createU gen ncpus [] (Inr (m, psize, True)) None bsize = (Some (Inr p), Some True) \<and> pool_ok True p \<and>
    pmemblk_bsize p = bsize \<and> unwritten p psize bsize \<and>
    pool_device p = \<lparr>dv_rdonly = False, dv_bsize = unat bsize, dv_nblock = unat (pmemblk_nblock p), dv_block = \<lambda>_. BZero\<rparr>"
proof -
  let ?m = "blk_descr_create m (ucast bsize) True" and ?a = "\<lparr>ba_data = 8192, ba_datasize = psize - 8192\<rparr>"
  have b0: "bsize \<noteq> 0" "\<not> bsize > 0xFFFFFFFF" using assms(1,2) by (auto simp: word_less_nat_alt)
  have u: "unat (ucast bsize :: u32) \<le> 32512" using assms(2) by (simp add: unsigned_ucast_eq take_bit_nat_eq_self)
  have ds: "unat (psize - 8192) = unat psize - 8192" using assms(3) by (simp add: unat_sub word_le_nat_alt)
  have zr: "?m x = 0" if "8192 \<le> x" "x < unat psize" for x
    using assms(5) that by (simp add: blk_descr_create_def wr32_def store_out bsize_p_def is_zeroed_p_def SIZEOF_POOL_HDR_def)
  have no: "read_info uuid (bytes_at (data_area ?a ?m) 0 4096) = None" for uuid
    using zr assms(3) by (intro zero_no_layout) (simp add: data_area_def)
  have mn: "BTT_MIN_SIZE \<le> psize - 8192" using ds assms(3) by (simp add: word_le_nat_alt BTT_sizes)
  define s0 :: "mem btt" where "s0 = undefined\<lparr>bt_lbasize := ucast bsize, bt_nfree := BTT_DEFAULT_NFREE\<rparr>"
  obtain tot where cnt: "layout_loop (ns_cb ?a True) s0 0 False (internal_lbasize (ucast bsize)) (psize - 8192) 0 0 = Some (Inr tot, s0)"
      "bt_lbasize s0 = ucast bsize" "bt_nfree s0 = BTT_DEFAULT_NFREE"
    using count_returns [of "internal_lbasize (ucast bsize)" s0 "ns_cb ?a True" 0 "psize - 8192" 0 0] internal_small [OF u] internal_lbasize_bounds(1)
    by (auto simp: s0_def)
  obtain b where bi: "btt_init gen (psize - 8192) (ucast bsize) (bytes_at ?m poolset_uuid_p 16)
      (unat (of_int (if ncpus < 1 then 1 else ncpus) * 2 :: u32)) [] ?m (ns_cb ?a True) = Some (Inr b)"
    using btt_init_returns [where a = ?a and gen = gen and z = True, OF mn _ no internal_small(1) [OF u] cnt] by fastforce
  have zf: "rd32 ?m is_zeroed_p \<noteq> 0" by (simp add: blk_descr_create_def)
  have al: "4096 dvd unat (psize - 8192)" unfolding ds using assms(4) by (intro dvd_diff_nat) auto
  have "blank (ns_cb ?a True) (unat (ba_datasize ?a)) (data_area ?a (bt_ns b)) b"
    by (rule blk.btt_init_blank(1) [where a = ?a and z = True, OF bi no _ al]) (use zr ds in \<open>auto simp: ns_cb_def data_area_def\<close>)
  then have ml: "bt_malloc b = (True, b)" by (simp add: bt_malloc_def blank_def)
  obtain p where cr: "pmemblk_createU gen ncpus [] (Inr (m, psize, True)) None bsize = (Some (Inr p), Some True)"
    using b0 bi zf ml by (simp add: pmemblk_createU_def blk_runtime_init_def Let_def data_offset)
  then show ?thesis using created_zeroed [OF cr _ assms(4,5)] assms(3) by auto
qed

text \<open>A pool of 16 MiB with blocks of 512 bytes.\<close>

lemma unwritten_blank:
  assumes "pool_ok z p" and "unwritten p psize bsize"
  shows "blank (ns_cb (pb_area p) z) (unat (ba_datasize (pb_area p))) (data_area (pb_area p) (bt_ns (pb_bttp p))) (pb_bttp p)"
  using assms by (auto simp: pool_ok_def unwritten_def table_ok_def durable_def btt_ok_def)

lemma sample_count: "bt_lbasize s = 512 \<Longrightarrow> bt_nfree s = BTT_DEFAULT_NFREE \<Longrightarrow>
   layout_loop cb s 0 False (internal_lbasize 512) 0x1000000 0 0 = Some (Inr 32202, s)"
  by (subst layout_loop_step(1)) (simp_all add: layout_loop_end btt_info_set_params_def btt_arena_datasize_def btt_flog_size_def roundup_def
    BTT_MAX_ARENA_def BTT_MIN_SIZE_def BTT_DEFAULT_NFREE_def BTT_FLOG_PAIR_ALIGN_def BTT_ALIGNMENT_def SIZEOF_BTT_INFO_def
    internal_lbasize_def BTT_MAP_ENTRY_SIZE_def BTT_MIN_LBA_SIZE_def BTT_INTERNAL_LBA_ALIGNMENT_def)

lemma sample_pool:
  obtains p where "pmemblk_createU (Inr (replicate 16 1)) 4 [] (Inr (\<lambda>_. 0, 0x1002000, True)) None 512 = (Some (Inr p), Some True)"
    "pool_ok True p" "pool_device p = \<lparr>dv_rdonly = False, dv_bsize = 512, dv_nblock = 32202, dv_block = \<lambda>_. BZero\<rparr>"
    "pool_hdr 0x1002000 p"
proof -
  have "4096 dvd unat (0x1002000 :: u64)" by simp
  then obtain p where p: "pmemblk_createU (Inr (replicate 16 1)) 4 [] (Inr (\<lambda>_. 0, 0x1002000, True)) None 512 = (Some (Inr p), Some True)"
    "pool_ok True p" "unwritten p 0x1002000 512"
    "pool_device p = \<lparr>dv_rdonly = False, dv_bsize = 512, dv_nblock = unat (pmemblk_nblock p), dv_block = \<lambda>_. BZero\<rparr>"
    using new_pool [of 512 "0x1002000" "\<lambda>_. 0" "Inr (replicate 16 1)" 4] by fastforce
  have "bt_lbasize (pb_bttp p) = 512" "bt_rawsize (pb_bttp p) = 0x1000000" using p(3) by (simp_all add: unwritten_def pool_hdr_def Let_def)
  then have "bt_nlba (pb_bttp p) = 32202"
    using unwritten_blank [OF p(2,3)] sample_count [of "pb_bttp p" "ns_cb (pb_area p) True"] by (simp add: blank_def)
  then show thesis using p that by (simp add: pmemblk_nblock_def btt_nlba_def unwritten_def)
qed

text \<open>Creating a pool of at least 16 MiB on a mapping that reads as zeros succeeds for every block
  size up to 32512 bytes. The new pool is in order, and all its blocks read as zeros; nothing of the
  translation table is written yet. Every history of a pool starts here.\<close>

lemma pmemblk_create_zeroed:
  assumes "0 < unat bsize" and "unat bsize \<le> 32512" and "8192 + 2 ^ 24 \<le> unat psize" and "4096 dvd unat psize"
    and "\<forall>x. 8192 \<le> x \<and> x < unat psize \<longrightarrow> m x = 0"
  shows "\<exists>p. pmemblk_createU gen ncpus [] (Inr (m, psize, True)) None bsize = (Some (Inr p), Some True) \<and> pool_ok True p \<and>
    pool_hdr psize p \<and> pmemblk_bsize p = bsize \<and>
    pool_device p = \<lparr>dv_rdonly = False, dv_bsize = unat bsize, dv_nblock = unat (pmemblk_nblock p), dv_block = \<lambda>_. BZero\<rparr>"
  using new_pool [OF assms] by (auto simp: unwritten_def)

section \<open>Every sequence of operations\<close>

text \<open>C5. A block pool is an array of blocks. Any sequence of reads, writes, and changes of blocks to
  the zero or error state returns, and answers like the array: a block reads as it was last written,
  as zeros, or with \<open>EIO\<close>; a block number outside the pool is answered with \<open>EINVAL\<close> and a change of a
  read-only pool with \<open>EROFS\<close>, both without an effect.\<close>

theorem pmemblk_refines_device:
  assumes "pool_ok z p" and "length u = 16" and "\<forall>op \<in> set ops. dev_op_ok (pool_device p) op"
  shows "\<exists>p'. run_ops (pmemblk_step u z) p ops = Some (fst (dev_run (pool_device p) ops), p') \<and>
    pool_ok z p' \<and> pool_device p' = snd (dev_run (pool_device p) ops)"
  using pool.run_refines [of u z p ops] assms by blast

theorem pmemblk_refines_device_witness:
  "\<exists>p p'. pool_ok True p \<and> run_ops (pmemblk_step (replicate 16 7) True) p [OpRead 0, OpWrite 0 (replicate 512 5), OpRead 0, OpError 0, OpRead 0, OpRead (- 1)] =
     Some ([Inr (replicate 512 0), Inr [], Inr (replicate 512 5), Inr [], Inl EIO, Inl EINVAL], p')"
proof -
  obtain p where p: "pool_ok True p" "pool_device p = \<lparr>dv_rdonly = False, dv_bsize = 512, dv_nblock = 32202, dv_block = \<lambda>_. BZero\<rparr>"
    by (rule sample_pool)
  have "\<forall>op \<in> set [OpRead 0, OpWrite 0 (replicate 512 5), OpRead 0, OpError 0, OpRead 0, OpRead (- 1)]. dev_op_ok (pool_device p) op"
    unfolding p(2) by simp
  from pmemblk_refines_device [OF p(1) _ this, of "replicate 16 7"] show ?thesis using p
    by (simp add: dev_read_def dev_set_def) blast
qed

end
