(* ===== verification/Blk_Durability.thy ===== *)
theory Blk_Durability
  imports Blk_Theorems
begin

text \<open>
  What a block pool keeps: its header over all operations, its blocks when it is closed and opened
  again, and each block, old or new, when the power fails in the middle of a write.
\<close>

unbundle bit_operations_syntax

section \<open>The header of a pool\<close>

interpretation hdr: ns_invariant "ns_cb a z" "\<lambda>m. \<forall>x < ba_data a. m x = h x" for a z h
proof
  show "\<forall>x < ba_data a. snd (cb_nswrite (ns_cb a z) m lane bs off) x = h x" if "\<forall>x < ba_data a. m x = h x" for m lane bs off
    using that by (simp add: ns_cb_def nswrite_def store_out)
  show "\<forall>x < ba_data a. snd (cb_nszero (ns_cb a z) m lane k off) x = h x" if "\<forall>x < ba_data a. m x = h x" for m lane k off
    using that by (simp add: ns_cb_def nszero_def mem_set_def store_out)
qed

lemma hdr_same:
  assumes "\<forall>x < 8192. m' x = m x"
  shows "rd32 m' bsize_p = rd32 m bsize_p" "rd32 m' is_zeroed_p = rd32 m is_zeroed_p"
    "bytes_at m' poolset_uuid_p 16 = bytes_at m poolset_uuid_p 16"
proof -
  have "bytes_at m' a n = bytes_at m a n" if "a + n \<le> 8192" for a n using assms that by (simp add: bytes_at_def)
  then show "rd32 m' bsize_p = rd32 m bsize_p" "rd32 m' is_zeroed_p = rd32 m is_zeroed_p"
    "bytes_at m' poolset_uuid_p 16 = bytes_at m poolset_uuid_p 16"
    by (simp_all add: rd32_def bsize_p_def is_zeroed_p_def poolset_uuid_p_def SIZEOF_POOL_HDR_def)
qed

lemma pool_hdr_keep:
  assumes h: "pool_hdr psize p" and ns: "\<forall>x < ba_data (pb_area p). bt_ns b x = bt_ns (pb_bttp p) x"
    and par: "bt_rawsize b = bt_rawsize (pb_bttp p)" "bt_lbasize b = bt_lbasize (pb_bttp p)" "bt_parent_uuid b = bt_parent_uuid (pb_bttp p)"
  shows "pool_hdr psize (p\<lparr>pb_bttp := b, pb_next_lane := l\<rparr>)"
proof -
  have "\<forall>x < 8192. bt_ns b x = bt_ns (pb_bttp p) x" using ns h by (simp add: pool_hdr_def Let_def)
  from hdr_same [OF this] show ?thesis using h par by (simp add: pool_hdr_def Let_def)
qed

lemma with_lane_hdr:
  assumes ok: "pool_ok z p" and h: "pool_hdr psize p" and f: "hdr.kept_by (pb_area p) (bt_ns (pb_bttp p)) f"
    and st: "with_lane p f = Some (r, p')"
  shows "pool_hdr psize p'"
proof -
  obtain b where "f (lane_of p) (pb_bttp p) = Some (r, b)" "p' = p\<lparr>pb_bttp := b, pb_next_lane := pb_next_lane p + 1\<rparr>"
    using st unfolding with_lane_ok(2) [OF ok] by auto
  with hdr.kept_byD [OF f this(1)] show ?thesis using pool_hdr_keep [OF h] by auto
qed

lemma pool_hdr_step:
  assumes ok: "pool_ok z p" and h: "pool_hdr psize p" and st: "pmemblk_step u z p op = Some (r, p')"
  shows "pool_hdr psize p'"
proof -
  note keep = with_lane_hdr [OF ok h] hdr.operations_keep [where a = "pb_area p" and z = z and h = "bt_ns (pb_bttp p)"]
  show ?thesis
  proof (cases op)
    case (OpRead k)
    then show ?thesis using st h keep(1) [OF keep(2)] by (auto simp: pmemblk_read_def split: if_splits)
  next
    case (OpWrite k buf)
    then show ?thesis using st h keep(1) [OF keep(3)] by (auto simp: pmemblk_write_def split: if_splits)
  next
    case (OpZero k)
    then show ?thesis using st h keep(1) [OF keep(4)] by (auto simp: pmemblk_set_zero_def split: if_splits)
  next
    case (OpError k)
    then show ?thesis using st h keep(1) [OF keep(5)] by (auto simp: pmemblk_set_error_def split: if_splits)
  qed
qed

text \<open>Pools with a header in order are block devices too.\<close>

interpretation pool_file: block_device "\<lambda>p. length u = 16 \<and> pool_ok z p \<and> pool_hdr psize p" pool_device "pmemblk_step u z" for u z psize
proof
  fix p op
  assume p: "length u = 16 \<and> pool_ok z p \<and> pool_hdr psize p" and op: "dev_op_ok (pool_device p) op"
  from pool.step_law [of u z p op] p op obtain p' where
    "pmemblk_step u z p op = Some (fst (dev_step (pool_device p) op), p')" "pool_ok z p'" "pool_device p' = snd (dev_step (pool_device p) op)" by blast
  then show "\<exists>p'. pmemblk_step u z p op = Some (fst (dev_step (pool_device p) op), p') \<and> (length u = 16 \<and> pool_ok z p' \<and> pool_hdr psize p') \<and>
      pool_device p' = snd (dev_step (pool_device p) op)" using pool_hdr_step p by blast
qed

section \<open>Opening a pool again\<close>

lemma table_reopens:
  fixes b :: "mem btt"
  assumes ok: "table_ok (ns_cb a True) (unat (ba_datasize a)) (data_area a) b" and h: "healthy b"
  shows "\<exists>b'. btt_init gen (bt_rawsize b) (bt_lbasize b) (bt_parent_uuid b) maxlane [] (bt_ns b) (ns_cb a True) = Some (Inr b') \<and>
    table_ok (ns_cb a True) (unat (ba_datasize a)) (data_area a) b' \<and> healthy b' \<and> bt_nlba b' = bt_nlba b \<and> bt_oom b' = [] \<and>
    0 < unat (bt_nlane b') \<and> table_view (data_area a) b' = table_view (data_area a) b"
proof (rule disjE [OF ok [unfolded table_ok_def]])
  assume bl: "blank (ns_cb a True) (unat (ba_datasize a)) (data_area a (bt_ns b)) b"
  then have zr: "\<forall>x < unat (bt_rawsize b). data_area a (bt_ns b) x = 0" and raw: "BTT_MIN_SIZE \<le> bt_rawsize b" "unat (bt_rawsize b) \<le> unat (ba_datasize a)"
    by (simp_all add: blank_def ns_cb_def)
  have "4096 \<le> unat (bt_rawsize b)" using raw(1) by (simp add: word_le_nat_alt BTT_sizes)
  then have no: "read_info (bt_parent_uuid b) (bytes_at (data_area a (bt_ns b)) 0 4096) = None" using zr by (intro zero_no_layout) auto
  have cnt: "internal_lbasize (bt_lbasize b) \<noteq> 0"
    "layout_loop (ns_cb a True) b 0 False (internal_lbasize (bt_lbasize b)) (bt_rawsize b) 0 0 = Some (Inr (bt_nlba b), b)"
    "bt_nfree b = BTT_DEFAULT_NFREE" "length (bt_parent_uuid b) = 16" "4096 dvd unat (bt_rawsize b)"
    using bl by (simp_all add: blank_def)
  obtain b' where b': "btt_init gen (bt_rawsize b) (bt_lbasize b) (bt_parent_uuid b) maxlane [] (bt_ns b) (ns_cb a True) = Some (Inr b')" "bt_nlba b' = bt_nlba b"
    using btt_init_returns [OF raw no cnt(1,2) refl cnt(3)] by blast
  have "if cb_ns_is_zeroed (ns_cb a True) then \<forall>x < unat (bt_rawsize b). data_area a (bt_ns b) x = 0 else narenas (unat (bt_rawsize b)) = 1"
    using zr by (simp add: ns_cb_def)
  note bb = blk.btt_init_blank [OF b'(1) no raw(2) cnt(5,4) this]
  have "0 < unat (bt_nlane b')" using bb(7) by (auto simp: unat_of_nat)
  moreover have "table_view (data_area a) b' = table_view (data_area a) b"
    using blank_not_laidout [OF bb(1)] blank_not_laidout [OF bl] by (simp add: table_view_def fun_eq_iff)
  ultimately show ?thesis unfolding table_ok_def using b' bb(1,2) by (intro exI [of _ b']) (auto simp: blank_def)
next
  assume d: "durable (unat (ba_datasize a)) (data_area a (bt_ns b)) b"
  obtain ns' where ns': "btt_init gen (bt_rawsize b) (bt_lbasize b) (bt_parent_uuid b) maxlane [] (bt_ns b) (ns_cb a True) = Some (Inr (reopened maxlane ns' b))"
    "data_area a ns' = data_area a (bt_ns b)" using blk.durable_reopens [OF d] by blast
  note ro = reopened_durable [OF d, of maxlane ns']
  have "0 < unat (bt_nfree b)" using d by (simp add: durable_def btt_ok_def)
  moreover have "unat (of_nat maxlane :: u32) = maxlane" if "maxlane < unat (bt_nfree b)"
    using that unat_lt_u32 [of "bt_nfree b"] by (simp add: unat_of_nat)
  ultimately have "0 < unat (bt_nlane (reopened maxlane ns' b))" by (auto simp: reopened_def)
  moreover have "table_view (data_area a) (reopened maxlane ns' b) = table_view (data_area a) b"
    using durable_laidout [OF d] durable_laidout [OF ro(1)] by (intro ext) (simp add: table_view_def ro(2) ns'(2) reopened_simps)
  moreover have "healthy (reopened maxlane ns' b)" using h by (simp add: healthy_def reopened_simps the_arena_def)
  moreover have "bt_oom (reopened maxlane ns' b) = []" by (simp add: reopened_def)
  ultimately show ?thesis using ns' ro(1)
    by (intro exI [of _ "reopened maxlane ns' b"]) (auto simp: table_ok_def reopened_simps)
qed

lemma pool_reopens:
  assumes ok: "pool_ok True p" and h: "pool_hdr psize p" and bs: "bsize = 0 \<or> bsize = pmemblk_bsize p"
  shows "\<exists>p'. blk_open_common gen ncpus [] (Inr (bt_ns (pb_bttp p), psize, ro, 1)) bsize = (Some (Inr p'), Some True) \<and>
    pool_ok True p' \<and> pool_hdr psize p' \<and> bt_oom (pb_bttp p') = [] \<and> pool_device p' = (pool_device p)\<lparr>dv_rdonly := ro\<rparr>"
proof -
  let ?b = "pb_bttp p" and ?a = "pb_area p" let ?m = "bt_ns ?b"
  let ?ml = "unat (of_int (if ncpus < 1 then 1 else ncpus) * 2 :: u32)"
  have hd: "?a = \<lparr>ba_data = 8192, ba_datasize = psize - 8192\<rparr>" "bt_rawsize ?b = psize - 8192" "rd32 ?m bsize_p = bt_lbasize ?b"
    "rd32 ?m is_zeroed_p \<noteq> 0" "bytes_at ?m poolset_uuid_p 16 = bt_parent_uuid ?b" using h by (auto simp: pool_hdr_def Let_def)
  obtain b' where bi: "btt_init gen (bt_rawsize ?b) (bt_lbasize ?b) (bt_parent_uuid ?b) ?ml [] ?m (ns_cb ?a True) = Some (Inr b')"
    and b': "table_ok (ns_cb ?a True) (unat (ba_datasize ?a)) (data_area ?a) b'" "healthy b'" "bt_nlba b' = bt_nlba ?b" "bt_oom b' = []"
      "0 < unat (bt_nlane b')" "table_view (data_area ?a) b' = table_view (data_area ?a) ?b"
    using table_reopens [of ?a ?b gen ?ml] ok by (auto simp: pool_ok_def)
  note keep = hdr.btt_init_keeps(1) [OF bi, where h = ?m] hdr.btt_init_keeps(2-4) [OF bi]
  let ?p = "\<lparr>pb_rdonly = ro, pb_area = ?a, pb_bttp = b', pb_nlane = btt_nlane b', pb_next_lane = 0, pb_locks = replicate (unat (btt_nlane b')) False\<rparr>"
  have "ucast (ucast (bt_lbasize ?b) :: u64) = bt_lbasize ?b" by (rule bit_word_eqI) (simp add: bit_simps)
  moreover have "bt_malloc b' = (True, b')" using b'(4) by (simp add: bt_malloc_def)
  ultimately have "blk_runtime_init gen ncpus [] ?m psize (ucast (bt_lbasize ?b)) ro = (Some (Inr ?p), True)"
    using bi hd by (simp add: blk_runtime_init_def Let_def data_offset)
  moreover have "blk_descr_check ?m bsize = Inr (ucast (bt_lbasize ?b))"
    using bs hd(3) by (auto simp: blk_descr_check_def Let_def pmemblk_bsize_def)
  ultimately have "blk_open_common gen ncpus [] (Inr (?m, psize, ro, 1)) bsize = (Some (Inr ?p), Some True)"
    by (simp add: blk_open_common_def)
  moreover have "pool_ok True ?p" using b' by (simp add: pool_ok_def btt_nlane_def)
  moreover have "bt_oom (pb_bttp ?p) = []" using b'(4) by simp
  moreover have "pool_hdr psize ?p" using pool_hdr_keep [OF h, of b' 0] keep by (simp add: pool_hdr_def)
  moreover have "pool_device ?p = (pool_device p)\<lparr>dv_rdonly := ro\<rparr>"
    using b' keep by (auto simp: pool_device_def pmemblk_nblock_def btt_nlba_def fun_eq_iff)
  ultimately show ?thesis by blast
qed

text \<open>C21. A pool survives being closed and opened: after any sequence of operations, opening the
  mapping again, with the right block size or without one, gives a pool that holds what the array
  of blocks holds then. The other lanes, locks and the generator of identifiers of the new handle do
  not matter, and neither does how many processors the machine has.\<close>

theorem pmemblk_reopen:
  assumes "pool_ok True p" and "pool_hdr psize p" and "length u = 16" and "\<forall>op \<in> set ops. dev_op_ok (pool_device p) op"
    and "bsize = 0 \<or> bsize = pmemblk_bsize p"
  shows "\<exists>p1 p2. run_ops (pmemblk_step u True) p ops = Some (fst (dev_run (pool_device p) ops), p1) \<and>
    blk_open_common gen ncpus [] (Inr (bt_ns (pb_bttp p1), psize, ro, 1)) bsize = (Some (Inr p2), Some True) \<and>
    pool_ok True p2 \<and> pool_hdr psize p2 \<and> pool_device p2 = (snd (dev_run (pool_device p) ops))\<lparr>dv_rdonly := ro\<rparr>"
proof -
  from pool_file.run_refines [where u = u and z = True and psize = psize and s = p and ops = ops] assms obtain p1 where
    p1: "run_ops (pmemblk_step u True) p ops = Some (fst (dev_run (pool_device p) ops), p1)" "pool_ok True p1" "pool_hdr psize p1"
      "pool_device p1 = snd (dev_run (pool_device p) ops)" by blast
  have "dv_bsize (snd (dev_run d ops)) = dv_bsize d" for d
    by (induction ops arbitrary: d) (auto simp: Let_def split_def dev_step_params)
  then have "dv_bsize (pool_device p1) = dv_bsize (pool_device p)" using p1(4) by simp
  then have "bt_lbasize (pb_bttp p1) = bt_lbasize (pb_bttp p)" by (simp add: pool_device_def word_unat_eq_iff)
  then have "pmemblk_bsize p1 = pmemblk_bsize p" using assms(2) p1(3) by (simp add: pmemblk_bsize_def pool_hdr_def Let_def)
  then have "bsize = 0 \<or> bsize = pmemblk_bsize p1" using assms(5) by simp
  from pool_reopens [OF p1(2,3) this] show ?thesis using p1 by fastforce
qed

theorem pmemblk_reopen_witness:
  "\<exists>p p1 p2. pool_ok True p \<and>
     run_ops (pmemblk_step (replicate 16 7) True) p [OpWrite 5 (replicate 512 9), OpError 6] = Some ([Inr [], Inr []], p1) \<and>
     blk_open_common (Inl ENOMEM) 8 [] (Inr (bt_ns (pb_bttp p1), 0x1002000, True, 1)) 0 = (Some (Inr p2), Some True) \<and>
     dv_block (pool_device p2) 5 = BData (replicate 512 9) \<and> dv_block (pool_device p2) 6 = BError \<and> dv_block (pool_device p2) 7 = BZero"
proof -
  obtain p where p: "pool_ok True p" "pool_device p = \<lparr>dv_rdonly = False, dv_bsize = 512, dv_nblock = 32202, dv_block = \<lambda>_. BZero\<rparr>"
    "pool_hdr 0x1002000 p" by (rule sample_pool)
  have "\<forall>op \<in> set [OpWrite 5 (replicate 512 9), OpError 6]. dev_op_ok (pool_device p) op" unfolding p(2) by simp
  from pmemblk_reopen [OF p(1,3) _ this, of "replicate 16 7" 0 "Inl ENOMEM" 8 True] obtain p1 p2 where
    "run_ops (pmemblk_step (replicate 16 7) True) p [OpWrite 5 (replicate 512 9), OpError 6] =
       Some (fst (dev_run (pool_device p) [OpWrite 5 (replicate 512 9), OpError 6]), p1)"
    "blk_open_common (Inl ENOMEM) 8 [] (Inr (bt_ns (pb_bttp p1), 0x1002000, True, 1)) 0 = (Some (Inr p2), Some True)"
    "pool_device p2 = (snd (dev_run (pool_device p) [OpWrite 5 (replicate 512 9), OpError 6]))\<lparr>dv_rdonly := True\<rparr>" by auto
  then show ?thesis using p(1) unfolding p(2)
    by (intro exI [of _ p] exI [of _ p1] exI [of _ p2]) (simp add: dev_set_def)
qed

section \<open>The check of a pool\<close>

lemma healthy_check:
  assumes "table_ok (ns_cb a z) (unat (ba_datasize a)) (data_area a) b" and "healthy b" and "bt_oom b = []"
  shows "btt_check (ns_cb a z) b = Some (Inr True)"
proof (cases "bt_laidout b")
  case True
  then have d: "durable (unat (ba_datasize a)) (data_area a (bt_ns b)) b" using assms(1) by (auto simp: table_ok_def blank_def)
  have "\<forall>ar \<in> set (bt_arenas b). a_ext ar + unat (bt_nfree b) \<ge> a_int ar"
    using assms(2) by (auto simp: healthy_def in_set_conv_nth the_arena_def)
  then show ?thesis using blk.check_durable [OF d assms(3), of z] by simp
qed (simp add: btt_check_def)

text \<open>C30. The check of a pool finds no fault that the library made: after any sequence of operations
  \<open>pmemblk_checkU\<close> returns and reports a consistent pool, whether it has a layout or not.\<close>

theorem pmemblk_check_consistent:
  assumes "pool_ok True p" and "pool_hdr psize p" and "length u = 16" and "\<forall>op \<in> set ops. dev_op_ok (pool_device p) op"
  shows "\<exists>p1. run_ops (pmemblk_step u True) p ops = Some (fst (dev_run (pool_device p) ops), p1) \<and>
    pmemblk_checkU gen ncpus [] (Inr (bt_ns (pb_bttp p1), psize, ro, 1)) 0 = Some (Inr True)"
proof -
  from pool_file.run_refines [where u = u and z = True and psize = psize and s = p and ops = ops] assms obtain p1 where
    p1: "run_ops (pmemblk_step u True) p ops = Some (fst (dev_run (pool_device p) ops), p1)" "pool_ok True p1" "pool_hdr psize p1" by blast
  obtain p2 where p2: "blk_open_common gen ncpus [] (Inr (bt_ns (pb_bttp p1), psize, ro, 1)) 0 = (Some (Inr p2), Some True)"
    "pool_ok True p2" "bt_oom (pb_bttp p2) = []" using pool_reopens [OF p1(2,3), of 0 gen ncpus ro] by blast
  have "btt_check (ns_cb (pb_area p2) True) (pb_bttp p2) = Some (Inr True)"
    by (rule healthy_check) (use p2 in \<open>auto simp: pool_ok_def\<close>)
  then show ?thesis using p1(1) p2(1) by (auto simp: pmemblk_checkU_def)
qed

theorem pmemblk_check_consistent_witness:
  "\<exists>p p1. pool_ok True p \<and>
     run_ops (pmemblk_step (replicate 16 7) True) p [OpWrite 5 (replicate 512 9), OpError 6] = Some ([Inr [], Inr []], p1) \<and>
     pmemblk_checkU (Inl ENOMEM) 2 [] (Inr (bt_ns (pb_bttp p1), 0x1002000, True, 1)) 0 = Some (Inr True)"
proof -
  obtain p where p: "pool_ok True p" "pool_device p = \<lparr>dv_rdonly = False, dv_bsize = 512, dv_nblock = 32202, dv_block = \<lambda>_. BZero\<rparr>"
    "pool_hdr 0x1002000 p" by (rule sample_pool)
  have "\<forall>op \<in> set [OpWrite 5 (replicate 512 9), OpError 6]. dev_op_ok (pool_device p) op" unfolding p(2) by simp
  from pmemblk_check_consistent [OF p(1,3) _ this, of "replicate 16 7" "Inl ENOMEM" 2 True] obtain p1 where
    "run_ops (pmemblk_step (replicate 16 7) True) p [OpWrite 5 (replicate 512 9), OpError 6] =
       Some (fst (dev_run (pool_device p) [OpWrite 5 (replicate 512 9), OpError 6]), p1)"
    "pmemblk_checkU (Inl ENOMEM) 2 [] (Inr (bt_ns (pb_bttp p1), 0x1002000, True, 1)) 0 = Some (Inr True)" by auto
  then show ?thesis using p(1) unfolding p(2) by (intro exI [of _ p] exI [of _ p1]) (simp add: dev_set_def)
qed

section \<open>Power failures\<close>

text \<open>The namespace of a pool during a power failure: after \<open>cr_left\<close> more writes, the next one only
  reaches the words of eight bytes that \<open>cr_keep\<close> chooses, and nothing is written after it.\<close>

record crash_ns =
  cr_mem :: mem
  cr_left :: nat
  cr_keep :: "nat \<Rightarrow> bool"
  cr_dead :: bool

definition partial_store :: "nat \<Rightarrow> (nat \<Rightarrow> bool) \<Rightarrow> mem \<Rightarrow> mem \<Rightarrow> mem" where
  "partial_store base keep m m' = (\<lambda>x. if base \<le> x \<and> keep ((x - base) div 8) then m' x else m x)"

definition crash_nswrite :: "blk_area \<Rightarrow> crash_ns \<Rightarrow> nat \<Rightarrow> byte list \<Rightarrow> u64 \<Rightarrow> errno option \<times> crash_ns" where
  "crash_nswrite a ns lane buf off =
     (case nswrite a (cr_mem ns) lane buf off of
        (Some e, _) \<Rightarrow> (Some e, ns)
      | (None, m) \<Rightarrow>
          if cr_dead ns then (Some EIO, ns)
          else case cr_left ns of
            0 \<Rightarrow> (Some EIO, ns\<lparr>cr_mem := partial_store (ba_data a) (cr_keep ns) (cr_mem ns) m, cr_dead := True\<rparr>)
          | Suc n \<Rightarrow> (None, ns\<lparr>cr_mem := m, cr_left := n\<rparr>))"

text \<open>A table with a layout is not zeroed again, so \<open>nszero\<close> and \<open>nsmap\<close> are those of the pool.\<close>

definition crash_cb :: "blk_area \<Rightarrow> bool \<Rightarrow> crash_ns ns_callback" where
  "crash_cb a z =
     \<lparr>cb_nsread = (\<lambda>ns. nsread a (cr_mem ns)), cb_nswrite = crash_nswrite a,
      cb_nszero = (\<lambda>ns lane count off. map_prod id (\<lambda>m. ns\<lparr>cr_mem := m\<rparr>) (nszero a (cr_mem ns) lane count off)),
      cb_nsmap = (\<lambda>ns. nsmap a (cr_mem ns)), cb_ns_is_zeroed = z\<rparr>"

lemma torn_partial_store:
  "torn (data_area a m) off bs (data_area a (partial_store (ba_data a) keep m (store m (ba_data a + off) bs)))"
  unfolding torn_def data_area_store [symmetric] by (auto simp: data_area_def partial_store_def)

interpretation crash: namespace "crash_cb a z" "\<lambda>ns. data_area a (cr_mem ns)" "unat (ba_datasize a)" cr_dead for a z
proof
  show "unat (ba_datasize a) < 2 ^ 64" using unat_lt_u64 [of "ba_datasize a"] by simp
  show "cb_nsread (crash_cb a z) ns lane n off = Inr (bytes_at (data_area a (cr_mem ns)) (unat off) n)"
    if "unat off + n \<le> unat (ba_datasize a)" for off n ns lane
    using blk.nsread_law [OF that, of z "cr_mem ns"] by (simp add: crash_cb_def ns_cb_def)
  show "r = None \<and> \<not> cr_dead ns \<and> \<not> cr_dead ns' \<and> data_area a (cr_mem ns') = store (data_area a (cr_mem ns)) (unat off) bs \<or>
      r \<noteq> None \<and> cr_dead ns' \<and> (if cr_dead ns then data_area a (cr_mem ns') = data_area a (cr_mem ns)
        else torn (data_area a (cr_mem ns)) (unat off) bs (data_area a (cr_mem ns')))"
    if w: "unat off + length bs \<le> unat (ba_datasize a)" "cb_nswrite (crash_cb a z) ns lane bs off = (r, ns')" for off bs ns lane r ns'
  proof -
    have "nswrite a (cr_mem ns) lane bs off = (None, store (cr_mem ns) (ba_data a + unat off) bs)"
      using w(1) in_area [OF w(1)] by (simp add: nswrite_def word_less_nat_alt)
    then show ?thesis using w(2) torn_partial_store [of a "cr_mem ns" "unat off" bs "cr_keep ns"]
      by (auto simp: crash_cb_def crash_nswrite_def data_area_store split: if_splits nat.splits)
  qed
qed

text \<open>A write that may end in a power failure, and what opening the table finds then.\<close>

lemma btt_write_crash:
  fixes s :: "crash_ns btt"
  assumes d: "durable (unat (ba_datasize a)) (data_area a (cr_mem (bt_ns s))) s" and h: "healthy s" and alive: "\<not> cr_dead (bt_ns s)"
    and lane: "lane < unat (bt_nlane s)" and lba: "\<not> invalid_lba s lba" and buf: "length buf = unat (bt_lbasize s)"
  shows "\<exists>r s' t. btt_write gen (crash_cb a z) s lane lba buf = Some (r, s') \<and>
    btt_init gen' (bt_rawsize s) (bt_lbasize s) (bt_parent_uuid s) maxlane [] (cr_mem (bt_ns s')) (ns_cb a z') = Some (Inr t) \<and>
    durable (unat (ba_datasize a)) (data_area a (bt_ns t)) t \<and> bt_nlba t = bt_nlba s \<and>
    ((\<forall>x. \<not> invalid_lba s x \<longrightarrow> btt_view (data_area a (bt_ns t)) t x = (if x = lba then BData buf else btt_view (data_area a (cr_mem (bt_ns s))) s x)) \<or>
     r \<noteq> Inr () \<and> (\<forall>x. \<not> invalid_lba s x \<longrightarrow> btt_view (data_area a (bt_ns t)) t x = btt_view (data_area a (cr_mem (bt_ns s))) s x))"
proof -
  let ?c = "\<lambda>ns. data_area a (cr_mem ns)" and ?sz = "unat (ba_datasize a)"
  let ?m = "?c (bt_ns s)"
  have ok: "btt_ok ?sz ?m s" using d by (simp add: durable_def)
  obtain b p where ap: "lba_to_arena_lba s lba = Some (b, p)" "b < length (bt_arenas s)" "unat p < a_ext (the_arena s b)"
    using lba_to_arena [OF ok lba] by metis
  have fl: "ar_flags (the_arena s b) AND BTTINFO_FLAG_ERROR_MASK = 0" using h ap(2) by (simp add: healthy_def)
  let ?ar = "the_arena s b" let ?fls = "runtime_flogs ?ar"
  let ?t = "upd_arena s b (lane_written lane (new_flog ?m ?ar ?fls lane (unat p)))" and ?m4 = "w4 ?m ?ar ?fls lane (unat p) buf"
  obtain r s' where w: "write_block (crash_cb a z) s lane lba buf = Some (r, s')"
    and cs: "case r of Inr _ \<Rightarrow> \<not> cr_dead (bt_ns s') \<and> ?c (bt_ns s') = ?m4 \<and> s' = upd_arena (s\<lparr>bt_ns := bt_ns s'\<rparr>) b (lane_written lane (new_flog ?m ?ar ?fls lane (unat p)))
       | Inl e \<Rightarrow> cr_dead (bt_ns s') \<and> crash_image ?m ?ar ?fls lane (unat p) buf (?c (bt_ns s'))"
    using crash.write_block_spec [OF ok lane ap buf alive fl] by blast
  have bw: "btt_write gen (crash_cb a z) s lane lba buf = Some (r, s')"
    using w lba durable_laidout [OF d] by (simp add: btt_write_def first_layout_def seqE_simps)
  show ?thesis
  proof (cases r)
    case (Inl e)
    then have "crash_image ?m ?ar ?fls lane (unat p) buf (data_area a (cr_mem (bt_ns s')))" using cs by simp
    from blk.crash_reopens [OF d lane lba ap(1) buf this, of gen' maxlane z'] show ?thesis using bw Inl by blast
  next
    case (Inr x)
    then have m': "data_area a (cr_mem (bt_ns s')) = ?m4" using cs by simp
    have dt: "durable ?sz (data_area a (cr_mem (bt_ns s'))) ?t" unfolding m' by (rule write_durable [OF d lane lba ap(1) buf])
    have par: "bt_rawsize ?t = bt_rawsize s" "bt_lbasize ?t = bt_lbasize s" "bt_parent_uuid ?t = bt_parent_uuid s" "bt_nlba ?t = bt_nlba s"
      by (simp_all add: upd_arena_simps)
    obtain ns' where ns': "btt_init gen' (bt_rawsize s) (bt_lbasize s) (bt_parent_uuid s) maxlane [] (cr_mem (bt_ns s')) (ns_cb a z') = Some (Inr (reopened maxlane ns' ?t))"
      "data_area a ns' = ?m4" using blk.durable_reopens [OF dt, of gen' maxlane z'] par m' by auto
    note ro = reopened_durable [OF dt [unfolded m'], of maxlane ns']
    have "\<forall>x. \<not> invalid_lba s x \<longrightarrow> btt_view ?m4 ?t x = (if x = lba then BData buf else btt_view ?m s x)"
      using write_effect(2) [OF ok lane lba ap(1) buf] by blast
    then show ?thesis using bw ns' ro par by (intro exI [of _ r] exI [of _ s'] exI [of _ "reopened maxlane ns' ?t"]) (simp add: reopened_simps)
  qed
qed

text \<open>The table of a pool, moved to a namespace that fails.\<close>

definition failing :: "nat \<Rightarrow> (nat \<Rightarrow> bool) \<Rightarrow> mem btt \<Rightarrow> crash_ns btt" where
  "failing left keep b =
     \<lparr>bt_nlane = bt_nlane b, bt_layout_write_mutex = bt_layout_write_mutex b, bt_laidout = bt_laidout b, bt_uuid = bt_uuid b,
      bt_parent_uuid = bt_parent_uuid b, bt_rawsize = bt_rawsize b, bt_lbasize = bt_lbasize b, bt_nfree = bt_nfree b,
      bt_nlba = bt_nlba b, bt_narena = bt_narena b, bt_arenas = bt_arenas b,
      bt_ns = \<lparr>cr_mem = bt_ns b, cr_left = left, cr_keep = keep, cr_dead = False\<rparr>, bt_oom = bt_oom b\<rparr>"

lemma failing_table:
  "durable sz m (failing left keep b) = durable sz m b" "btt_view m (failing left keep b) = btt_view m b"
  "healthy (failing left keep b) = healthy b" "invalid_lba (failing left keep b) = invalid_lba b"
  by (auto simp: failing_def durable_def btt_ok_def the_arena_def btt_view_def lba_to_arena_lba_def healthy_def invalid_lba_def fun_eq_iff split: option.splits)

text \<open>C2. Writing a block is atomic with respect to power failures, for every lane. When the power
  fails during any of the writes of \<open>btt_write\<close>, with any part of the words of that write on the
  media, then opening the pool succeeds and every block holds what it held before, except that the
  written block may hold all of the new data; after a write that reported success it does.\<close>

theorem pmemblk_write_crash_atomic:
  assumes "pool_ok z p" and "bt_laidout (pb_bttp p)" and "lane < unat (pb_nlane p)" and "k < unat (pmemblk_nblock p)"
    and "length buf = unat (bt_lbasize (pb_bttp p))"
  shows "\<exists>r s t. btt_write gen (crash_cb (pb_area p) z) (failing left keep (pb_bttp p)) lane (of_nat k) buf = Some (r, s) \<and>
    btt_init gen' (bt_rawsize (pb_bttp p)) (bt_lbasize (pb_bttp p)) (bt_parent_uuid (pb_bttp p)) maxlane [] (cr_mem (bt_ns s))
      (ns_cb (pb_area p) z') = Some (Inr t) \<and>
    table_ok (ns_cb (pb_area p) z') (unat (ba_datasize (pb_area p))) (data_area (pb_area p)) t \<and> btt_nlba t = pmemblk_nblock p \<and>
    ((\<forall>n < unat (pmemblk_nblock p). table_view (data_area (pb_area p)) t (of_nat n) = ((dv_block (pool_device p))(k := BData buf)) n) \<or>
     r \<noteq> Inr () \<and> (\<forall>n < unat (pmemblk_nblock p). table_view (data_area (pb_area p)) t (of_nat n) = dv_block (pool_device p) n))"
proof -
  let ?b = "pb_bttp p" and ?a = "pb_area p"
  let ?f = "failing left keep ?b" and ?d = "data_area ?a"
  have d: "durable (unat (ba_datasize ?a)) (?d (bt_ns ?b)) ?b" and h: "healthy ?b" and nl: "pb_nlane p = bt_nlane ?b"
    using assms(1,2) by (auto simp: pool_ok_def table_ok_def blank_def)
  have w: "of_nat n = (of_nat k :: u64) \<longleftrightarrow> n = k" "\<not> invalid_lba ?b (of_nat n)" if "n < unat (bt_nlba ?b)" for n
  proof -
    have "unat (of_nat n :: u64) = n" "unat (of_nat k :: u64) = k"
      using that assms(4) unat_lt_u64 [of "bt_nlba ?b"] by (auto simp: pmemblk_nblock_def btt_nlba_def intro!: unat_of_nat_u64)
    then show "of_nat n = (of_nat k :: u64) \<longleftrightarrow> n = k" "\<not> invalid_lba ?b (of_nat n)" using that
      by (auto simp: invalid_lba_def word_le_nat_alt word_unat_eq_iff)
  qed
  have nb: "pmemblk_nblock p = bt_nlba ?b" by (simp add: pmemblk_nblock_def btt_nlba_def)
  have f: "bt_ns ?f = \<lparr>cr_mem = bt_ns ?b, cr_left = left, cr_keep = keep, cr_dead = False\<rparr>" "bt_nlane ?f = bt_nlane ?b" "bt_lbasize ?f = bt_lbasize ?b"
    "bt_rawsize ?f = bt_rawsize ?b" "bt_parent_uuid ?f = bt_parent_uuid ?b" "bt_nlba ?f = bt_nlba ?b" by (simp_all add: failing_def)
  have k: "k < unat (bt_nlba ?b)" using assms(4) nb by simp
  obtain r s t where wr: "btt_write gen (crash_cb ?a z) ?f lane (of_nat k) buf = Some (r, s)"
    "btt_init gen' (bt_rawsize ?b) (bt_lbasize ?b) (bt_parent_uuid ?b) maxlane [] (cr_mem (bt_ns s)) (ns_cb ?a z') = Some (Inr t)"
    "durable (unat (ba_datasize ?a)) (?d (bt_ns t)) t" "bt_nlba t = bt_nlba ?b"
    and v: "(\<forall>x. \<not> invalid_lba ?b x \<longrightarrow> btt_view (?d (bt_ns t)) t x = (if x = of_nat k then BData buf else btt_view (?d (bt_ns ?b)) ?b x)) \<or>
     r \<noteq> Inr () \<and> (\<forall>x. \<not> invalid_lba ?b x \<longrightarrow> btt_view (?d (bt_ns t)) t x = btt_view (?d (bt_ns ?b)) ?b x)"
    using btt_write_crash [of ?a ?f lane "of_nat k" buf gen z gen' maxlane z'] d h assms(3,5) w(2) [OF k] nl
    by (auto simp: f failing_table)
  have bl: "dv_block (pool_device p) n = btt_view (?d (bt_ns ?b)) ?b (of_nat n)" if "n < unat (bt_nlba ?b)" for n
    using that assms(2) by (simp add: pool_device_def nb table_view_def)
  have "(\<forall>n < unat (bt_nlba ?b). table_view ?d t (of_nat n) = ((dv_block (pool_device p))(k := BData buf)) n) \<or>
     r \<noteq> Inr () \<and> (\<forall>n < unat (bt_nlba ?b). table_view ?d t (of_nat n) = dv_block (pool_device p) n)"
    using v w bl durable_laidout [OF wr(3)] by (auto simp: table_view_def)
  then show ?thesis using wr nb by (intro exI [of _ r] exI [of _ s] exI [of _ t]) (simp add: table_ok_def btt_nlba_def)
qed

theorem pmemblk_write_crash_atomic_witness:
  "\<exists>p r s t. pool_ok True p \<and>
     btt_write (Inl ENOMEM) (crash_cb (pb_area p) True) (failing 2 (\<lambda>w. even w) (pb_bttp p)) 0 3 (replicate 512 8) = Some (r, s) \<and>
     btt_init (Inl ENOMEM) (bt_rawsize (pb_bttp p)) 512 (bt_parent_uuid (pb_bttp p)) 4 [] (cr_mem (bt_ns s)) (ns_cb (pb_area p) True) = Some (Inr t) \<and>
     table_view (data_area (pb_area p)) t 0 = BData (replicate 512 5) \<and>
     table_view (data_area (pb_area p)) t 3 \<in> {BZero, BData (replicate 512 8)}"
proof -
  obtain q where q: "pool_ok True q" "pool_device q = \<lparr>dv_rdonly = False, dv_bsize = 512, dv_nblock = 32202, dv_block = \<lambda>_. BZero\<rparr>"
    by (rule sample_pool)
  have "\<forall>op \<in> set [OpWrite 0 (replicate 512 5)]. dev_op_ok (pool_device q) op" unfolding q(2) by simp
  from pool.run_refines [of "replicate 16 7" True q, OF _ this] q(1) obtain p where p: "pool_ok True p"
    "pool_device p = snd (dev_run (pool_device q) [OpWrite 0 (replicate 512 5)])" by auto
  then have d: "pool_device p = \<lparr>dv_rdonly = False, dv_bsize = 512, dv_nblock = 32202, dv_block = (\<lambda>_. BZero)(0 := BData (replicate 512 5))\<rparr>"
    unfolding q(2) by (simp add: dev_set_def)
  have "dv_block (pool_device p) 0 = BData (replicate 512 5)" unfolding d by simp
  then have laid: "bt_laidout (pb_bttp p)" by (auto simp: pool_device_def table_view_def split: if_splits)
  have "dv_bsize (pool_device p) = 512" "dv_nblock (pool_device p) = 32202" unfolding d by simp_all
  then have par: "unat (bt_lbasize (pb_bttp p)) = 512" "bt_lbasize (pb_bttp p) = 512" "unat (pmemblk_nblock p) = 32202"
    by (simp_all add: pool_device_def word_unat_eq_iff)
  have "0 < unat (pb_nlane p)" using p(1) unfolding pool_ok_def by blast
  from pmemblk_write_crash_atomic [OF p(1) laid this, where k = 3 and buf = "replicate 512 8" and gen = "Inl ENOMEM" and left = 2 and
      keep = "\<lambda>w. even w" and gen' = "Inl ENOMEM" and maxlane = 4 and z' = True]
  obtain r s t where "btt_write (Inl ENOMEM) (crash_cb (pb_area p) True) (failing 2 (\<lambda>w. even w) (pb_bttp p)) 0 3 (replicate 512 8) = Some (r, s)"
    "btt_init (Inl ENOMEM) (bt_rawsize (pb_bttp p)) 512 (bt_parent_uuid (pb_bttp p)) 4 [] (cr_mem (bt_ns s)) (ns_cb (pb_area p) True) = Some (Inr t)"
    "\<forall>n < 32202. table_view (data_area (pb_area p)) t (of_nat n) \<in> {dv_block (pool_device p) n, ((dv_block (pool_device p))(3 := BData (replicate 512 8))) n}"
    unfolding par by auto
  moreover from this(3) [rule_format, of 0] this(3) [rule_format, of 3] have
    "table_view (data_area (pb_area p)) t 0 = BData (replicate 512 5)" "table_view (data_area (pb_area p)) t 3 \<in> {BZero, BData (replicate 512 8)}"
    unfolding d by auto
  ultimately show ?thesis using p(1) by blast
qed

section \<open>The check of an arena\<close>

text \<open>C31. The consistency check of an arena is exact: with map and flog entries inside the arena it
  accepts just when they name every block of the arena once. It does not depend on how the map is
  delivered by \<open>nsmap\<close>.\<close>

theorem check_arena_reference:
  assumes "geom (unat (ba_datasize a)) (unat (bt_nfree s)) lbs ar" and "0 < unat (bt_nfree s)" and "length (ar_flogs ar) = unat (bt_nfree s)"
    and "\<forall>b \<in> set (phys (data_area a (bt_ns s)) ar (runtime_flogs ar)). b < a_int ar"
  shows "check_arena (ns_cb a z) s ar True = Some (Inr (uses_all_blocks (data_area a (bt_ns s)) ar))"
  by (rule blk.check_arena_spec [OF assms])

text \<open>An arena of a pool that has been written.\<close>

lemma sample_arena:
  obtains a ar and s :: "mem btt" where "ar \<in> set (bt_arenas s)"
    "arena_ok (unat (ba_datasize a)) (unat (bt_nfree s)) (unat (bt_lbasize s)) (data_area a (bt_ns s)) ar" "0 < unat (bt_nfree s)"
    "a_int ar = a_ext ar + unat (bt_nfree s)" "a_int ar \<le> 32458"
proof -
  obtain q where q: "pool_ok True q" "pool_device q = \<lparr>dv_rdonly = False, dv_bsize = 512, dv_nblock = 32202, dv_block = \<lambda>_. BZero\<rparr>"
    by (rule sample_pool)
  have "\<forall>op \<in> set [OpWrite 0 (replicate 512 5)]. dev_op_ok (pool_device q) op" unfolding q(2) by simp
  from pool.run_refines [of "replicate 16 7" True q, OF _ this] q(1) obtain p where p: "pool_ok True p"
    "pool_device p = snd (dev_run (pool_device q) [OpWrite 0 (replicate 512 5)])" by auto
  have "dv_block (pool_device p) 0 = BData (replicate 512 5)" unfolding p(2) q(2) by (simp add: dev_set_def)
  then have "bt_laidout (pb_bttp p)" by (auto simp: pool_device_def table_view_def split: if_splits)
  then have d: "durable (unat (ba_datasize (pb_area p))) (data_area (pb_area p) (bt_ns (pb_bttp p))) (pb_bttp p)" and h: "healthy (pb_bttp p)"
    using p(1) by (auto simp: pool_ok_def table_ok_def blank_def)
  have nf: "unat (bt_nfree (pb_bttp p)) \<le> 256" using d by (simp add: durable_def BTT_DEFAULT_NFREE_def word_le_nat_alt)
  have "dv_nblock (pool_device p) = 32202" unfolding p(2) q(2) by (simp add: dev_set_def)
  then have nb: "unat (bt_nlba (pb_bttp p)) = 32202" by (simp add: pool_device_def pmemblk_nblock_def btt_nlba_def)
  have "bt_arenas (pb_bttp p) \<noteq> []" using d by (cases "bt_arenas (pb_bttp p)") (auto simp: durable_def formatted.simps)
  then have n: "0 < length (bt_arenas (pb_bttp p))" by simp
  then have "the_arena (pb_bttp p) 0 \<in> set (bt_arenas (pb_bttp p))" by (simp add: the_arena_def)
  then have "a_ext (the_arena (pb_bttp p) 0) \<le> 32202" using ext_le_nlba d nb unfolding durable_def by metis
  moreover have "a_int (the_arena (pb_bttp p) 0) = a_ext (the_arena (pb_bttp p) 0) + unat (bt_nfree (pb_bttp p))" using h n by (simp add: healthy_def)
  ultimately have ai: "a_int (the_arena (pb_bttp p) 0) \<le> 32458" using nf by simp
  show thesis
    by (rule that [of "the_arena (pb_bttp p) 0" "pb_bttp p" "pb_area p"])
       (use d h n ai btt_ok_arena [OF _ n] in \<open>auto simp: durable_def btt_ok_def healthy_def the_arena_def\<close>)
qed

lemma arena_uses_all:
  assumes "arena_ok sz F lbs m ar" and "a_int ar = a_ext ar + F"
  shows "uses_all_blocks m ar"
proof -
  let ?p = "phys m ar (runtime_flogs ar)"
  have p: "length (ar_flogs ar) = F" "distinct ?p" "set ?p \<subseteq> {..<a_int ar}" using assms(1) by (auto simp: arena_ok_def media_ok_def)
  have "card (set ?p) = a_int ar" using p(1,2) assms(2) by (simp add: distinct_card)
  then have "set ?p = {..<a_int ar}" using p(3) by (intro card_subset_eq) auto
  then show ?thesis using p(2) by (simp add: uses_all_blocks_def)
qed

theorem check_arena_reference_witness:
  "\<exists>a s ar. ar \<in> set (bt_arenas s) \<and> check_arena (ns_cb a True) s ar True = Some (Inr True)"
proof -
  obtain a ar and s :: "mem btt" where o: "ar \<in> set (bt_arenas s)"
    "arena_ok (unat (ba_datasize a)) (unat (bt_nfree s)) (unat (bt_lbasize s)) (data_area a (bt_ns s)) ar" "0 < unat (bt_nfree s)"
    "a_int ar = a_ext ar + unat (bt_nfree s)" by (rule sample_arena)
  have "check_arena (ns_cb a True) s ar True = Some (Inr (uses_all_blocks (data_area a (bt_ns s)) ar))"
    by (rule check_arena_reference) (use o in \<open>auto simp: arena_ok_def media_ok_def\<close>)
  then show ?thesis using o arena_uses_all [OF o(2,4)] by auto
qed

text \<open>The check does not look at the range of a flog entry before it marks the block: a flog entry
  that lies outside the bitmap, which opening the table does not reject, leads to an access past the
  end of the bitmap.\<close>

lemma check_arena_flog_range:
  assumes "geom (unat (ba_datasize a)) (unat (bt_nfree s)) lbs ar" and "i < unat (bt_nfree s)"
    and "\<forall>p < a_ext ar. blk (effective p (mapent (data_area a (bt_ns s)) ar p)) < a_int ar"
    and "bitmap_bits (ar_internal_nlba ar) \<le> blk (fl_old_map (fr_flog (ar_flogs ar ! i)))"
  shows "check_arena (ns_cb a z) s ar True = None"
proof -
  let ?m = "data_area a (bt_ns s)" and ?bits = "bitmap_bits (ar_internal_nlba ar)"
  have "a_int ar \<le> 2 ^ 30" using assms(1) by (simp add: geom_def)
  then have "unat (ar_internal_nlba ar + 7) = a_int ar + 7" by (subst unat_add_lem [THEN iffD1]) simp_all
  then have bits: "a_int ar \<le> ?bits" by (simp add: bitmap_bits_def unat_div)
  let ?xs = "map (\<lambda>p. blk (effective p (mapent ?m ar p))) [0..<a_ext ar]"
  have F: "0 < unat (bt_nfree s)" using assms(2) by simp
  have m1: "check_map_loop (ns_cb a z) s ar [0..<a_ext ar] [] (ar_mapoff ar) (replicate ?bits False) True =
      Some (Inr (fold mark ?xs (replicate ?bits False, True)))"
    by (rule blk.check_map_loop_eq [OF assms(1) F _ assms(3)]) (simp_all add: bits)
  have "\<forall>b \<in> set ?xs. b < length (replicate ?bits False)" using assms(3) bits by auto
  from fold_mark(1) [OF this] have len: "length (fst (fold mark ?xs (replicate ?bits False, True))) = ?bits" by simp
  have oob: "check_flog_loop ar is bm c = None" if "length bm = ?bits" "i \<in> set is" for "is" bm c
    using that assms(4) by (induction "is" arbitrary: bm c) (auto simp: Let_def blk_def [symmetric])
  have "check_flog_loop ar [0..<unat (bt_nfree s)] bm c = None" if "length bm = ?bits" for bm c
    using oob [OF that] assms(2) by simp
  then show ?thesis unfolding check_arena_def using m1 len by (auto split: prod.split)
qed

end
