(* ===== verification/Plog.thy ===== *)
theory Plog
  imports Prelude
begin

text \<open>
  Log memory pools, \<^verbatim>\<open>libpmemlog/log.c\<close> and \<^verbatim>\<open>libpmemlog/log.h\<close>. The mapping of a pool is a memory that
  begins at address 0 with \<open>struct pool_hdr\<close> and the persistent fields of \<open>struct pmemlog\<close>; its run-time
  fields are a record beside it. A store reaches the memory that the processor sees at once and the
  media only when its range is made durable, by \<open>pmem_drain\<close> after \<open>pmem_memcpy_nodrain\<close>, by
  \<open>pmem_persist\<close> or by \<open>pmem_msync\<close>; both memories are part of the state, and every state that they pass
  through is recorded, so that a power failure can be considered at each point. What the pool set code
  and the allocator answer are arguments, and so is the answer of each call that takes the lock of the
  log; an operation that has to wait for the lock has no result.
\<close>

unbundle bit_operations_syntax

section \<open>Persistent memory\<close>

record pm =
  pm_mem :: mem
  pm_media :: mem

record pmemlog =
  pl_pm :: pm
  pl_trace :: "pm list"
  pl_size :: u64
  pl_rdonly :: bool
  pl_readers :: nat
  pl_writer :: bool

abbreviation "pl_mem plp \<equiv> pm_mem (pl_pm plp)"

definition pm_set :: "pm \<Rightarrow> pmemlog \<Rightarrow> pmemlog" where
  "pm_set p plp = plp\<lparr>pl_pm := p, pl_trace := pl_trace plp @ [p]\<rparr>"

definition pm_store :: "nat \<Rightarrow> byte list \<Rightarrow> pmemlog \<Rightarrow> pmemlog" where
  "pm_store off bs plp = pm_set ((pl_pm plp)\<lparr>pm_mem := store (pl_mem plp) off bs\<rparr>) plp"

definition pm_persist :: "nat \<Rightarrow> nat \<Rightarrow> pmemlog \<Rightarrow> pmemlog" where
  "pm_persist off len plp =
     pm_set ((pl_pm plp)\<lparr>pm_media := store (pm_media (pl_pm plp)) off (bytes_at (pl_mem plp) off len)\<rparr>) plp"

section \<open>Pool descriptor\<close>

definition LOG_FORMAT_DATA_ALIGN :: u64 where "LOG_FORMAT_DATA_ALIGN = 4096"
definition SIZEOF_PMEMLOG :: u64 where "SIZEOF_PMEMLOG = 4176"
definition start_offset_p :: nat where "start_offset_p = SIZEOF_POOL_HDR"
definition end_offset_p :: nat where "end_offset_p = SIZEOF_POOL_HDR + 8"
definition write_offset_p :: nat where "write_offset_p = SIZEOF_POOL_HDR + 16"

definition log_descr_create :: "pmemlog \<Rightarrow> u64 \<Rightarrow> pmemlog" where
  "log_descr_create plp poolsize =
     (let plp = pm_store start_offset_p (u64_bytes (roundup SIZEOF_PMEMLOG LOG_FORMAT_DATA_ALIGN)) plp;
          plp = pm_store end_offset_p (u64_bytes poolsize) plp;
          plp = pm_store write_offset_p (bytes_at (pl_mem plp) start_offset_p 8) plp
      in pm_persist start_offset_p 24 plp)"

definition log_descr_check :: "mem \<Rightarrow> u64 \<Rightarrow> errno option" where
  "log_descr_check m poolsize =
     (let hdr_start = rd64 m start_offset_p; hdr_end = rd64 m end_offset_p; hdr_write = rd64 m write_offset_p
      in if hdr_start \<noteq> roundup SIZEOF_PMEMLOG LOG_FORMAT_DATA_ALIGN \<or> hdr_end \<noteq> poolsize \<or> hdr_start > hdr_end
         then Some EINVAL
         else if hdr_write > hdr_end \<or> hdr_write < hdr_start then Some EINVAL
         else None)"

text \<open>\<open>malloc_ok\<close> and \<open>rwinit\<close> are the answers of the allocator and of \<open>os_rwlock_init\<close>.\<close>

definition log_runtime_init :: "bool \<Rightarrow> errno option \<Rightarrow> pmemlog \<Rightarrow> bool \<Rightarrow> errno + pmemlog" where
  "log_runtime_init malloc_ok rwinit plp rdonly =
     (let plp = plp\<lparr>pl_rdonly := rdonly\<rparr>
      in if \<not> malloc_ok then Inl ENOMEM
         else case rwinit of Some e \<Rightarrow> Inl e | None \<Rightarrow> Inr (plp\<lparr>pl_readers := 0, pl_writer := False\<rparr>))"

text \<open>A mapping that was just made: what the processor sees is what the media holds.\<close>

definition mapped_log :: "mem \<Rightarrow> u64 \<Rightarrow> pmemlog" where
  "mapped_log m repsize = \<lparr>pl_pm = \<lparr>pm_mem = m, pm_media = m\<rparr>, pl_trace = [], pl_size = repsize, pl_rdonly = False,
     pl_readers = 0, pl_writer = False\<rparr>"

text \<open>\<open>created\<close> is what \<open>util_pool_create\<close> delivers, the mapping and its size, and \<open>chmod\<close> the answer of
  \<open>util_poolset_chmod\<close>.\<close>

definition pmemlog_createU ::
  "bool \<Rightarrow> errno option \<Rightarrow> errno + mem \<times> u64 \<Rightarrow> errno option \<Rightarrow> errno + pmemlog" where
  "pmemlog_createU malloc_ok rwinit created chmod =
     (case created of
        Inl e \<Rightarrow> Inl e
      | Inr (m, repsize) \<Rightarrow>
          (case log_runtime_init malloc_ok rwinit (log_descr_create (mapped_log m repsize) repsize) False of
             Inl e \<Rightarrow> Inl e
           | Inr plp \<Rightarrow> (case chmod of Some e \<Rightarrow> Inl e | None \<Rightarrow> Inr plp)))"

text \<open>\<open>opened\<close> is what \<open>util_pool_open\<close> delivers: the mapping, its size, \<open>rdonly\<close> and \<open>nreplicas\<close>.\<close>

definition log_open_common ::
  "bool \<Rightarrow> errno option \<Rightarrow> errno + mem \<times> u64 \<times> bool \<times> nat \<Rightarrow> errno + pmemlog" where
  "log_open_common malloc_ok rwinit opened =
     (case opened of
        Inl e \<Rightarrow> Inl e
      | Inr (m, repsize, rdonly, nreplicas) \<Rightarrow>
          if nreplicas > 1 then Inl ENOTSUP
          else case log_descr_check m repsize of
            Some e \<Rightarrow> Inl e
          | None \<Rightarrow> log_runtime_init malloc_ok rwinit (mapped_log m repsize) rdonly)"

section \<open>The lock of the log\<close>

definition log_rdlock :: "pmemlog \<Rightarrow> pmemlog option" where
  "log_rdlock plp = (if pl_writer plp then None else Some (plp\<lparr>pl_readers := Suc (pl_readers plp)\<rparr>))"

definition log_wrlock :: "pmemlog \<Rightarrow> pmemlog option" where
  "log_wrlock plp = (if pl_writer plp \<or> 0 < pl_readers plp then None else Some (plp\<lparr>pl_writer := True\<rparr>))"

definition log_unlock :: "pmemlog \<Rightarrow> pmemlog" where
  "log_unlock plp = (if pl_writer plp then plp\<lparr>pl_writer := False\<rparr> else plp\<lparr>pl_readers := pl_readers plp - 1\<rparr>)"

text \<open>A section of an operation under a lock; \<open>lk\<close> is an error of the locking function.\<close>

definition locked ::
  "(pmemlog \<Rightarrow> pmemlog option) \<Rightarrow> errno option \<Rightarrow> pmemlog \<Rightarrow> (pmemlog \<Rightarrow> (errno + 'a) \<times> pmemlog) \<Rightarrow>
   ((errno + 'a) \<times> pmemlog) option" where
  "locked lock lk plp body =
     (case lk of
        Some e \<Rightarrow> Some (Inl e, plp)
      | None \<Rightarrow>
          (case lock plp of
             None \<Rightarrow> None
           | Some plp \<Rightarrow> (case body plp of (r, plp) \<Rightarrow> Some (r, log_unlock plp))))"

section \<open>Appending\<close>

definition log_persist :: "pmemlog \<Rightarrow> u64 \<Rightarrow> pmemlog" where
  "log_persist plp new_write_offset =
     (let old_write_offset = rd64 (pl_mem plp) write_offset_p;
          len = new_write_offset - old_write_offset;
          plp = pm_persist (unat old_write_offset) (unat len) plp;
          plp = pm_store write_offset_p (u64_bytes new_write_offset) plp
      in pm_persist write_offset_p 8 plp)"

definition pmemlog_append :: "errno option \<Rightarrow> pmemlog \<Rightarrow> byte list \<Rightarrow> ((errno + int) \<times> pmemlog) option" where
  "pmemlog_append lk plp buf =
     (if pl_rdonly plp then Some (Inl EROFS, plp)
      else locked log_wrlock lk plp (\<lambda>plp.
        let end_offset = rd64 (pl_mem plp) end_offset_p;
            write_offset = rd64 (pl_mem plp) write_offset_p;
            count = of_nat (length buf)
        in if write_offset \<ge> end_offset then (Inl ENOSPC, plp)
           else if count > end_offset - write_offset then (Inl ENOSPC, plp)
           else let plp = pm_store (unat write_offset) buf plp
                in (Inr 0, log_persist plp (write_offset + count))))"

fun appendv_loop :: "byte list list \<Rightarrow> u64 \<Rightarrow> pmemlog \<Rightarrow> u64 \<times> pmemlog" where
  "appendv_loop [] write_offset plp = (write_offset, plp)"
| "appendv_loop (buf # iov) write_offset plp =
     appendv_loop iov (write_offset + of_nat (length buf)) (pm_store (unat write_offset) buf plp)"

text \<open>The array \<open>iov\<close> has at least \<open>iovcnt\<close> entries, as its caller promises.\<close>

definition pmemlog_appendv ::
  "errno option \<Rightarrow> pmemlog \<Rightarrow> byte list list \<Rightarrow> int \<Rightarrow> ((errno + int) \<times> pmemlog) option" where
  "pmemlog_appendv lk plp iov iovcnt =
     (if iovcnt < 0 then Some (Inl EINVAL, plp)
      else if pl_rdonly plp then Some (Inl EROFS, plp)
      else locked log_wrlock lk plp (\<lambda>plp.
        let end_offset = rd64 (pl_mem plp) end_offset_p;
            write_offset = rd64 (pl_mem plp) write_offset_p;
            iov = take (nat iovcnt) iov;
            count = sum_list (map (\<lambda>buf. of_nat (length buf)) iov)
        in if write_offset \<ge> end_offset then (Inl ENOSPC, plp)
           else if count > end_offset - write_offset then (Inl ENOSPC, plp)
           else let (write_offset, plp) = appendv_loop iov write_offset plp
                in (Inr 0, log_persist plp write_offset)))"

section \<open>The other operations\<close>

definition pmemlog_nbyte :: "errno option \<Rightarrow> pmemlog \<Rightarrow> ((errno + int) \<times> pmemlog) option" where
  "pmemlog_nbyte lk plp =
     locked log_rdlock lk plp (\<lambda>plp. (Inr (uint (rd64 (pl_mem plp) end_offset_p - rd64 (pl_mem plp) start_offset_p)), plp))"

definition pmemlog_tell :: "errno option \<Rightarrow> pmemlog \<Rightarrow> ((errno + int) \<times> pmemlog) option" where
  "pmemlog_tell lk plp =
     locked log_rdlock lk plp (\<lambda>plp. (Inr (sint (rd64 (pl_mem plp) write_offset_p - rd64 (pl_mem plp) start_offset_p)), plp))"

definition pmemlog_rewind :: "errno option \<Rightarrow> pmemlog \<Rightarrow> ((errno + int) \<times> pmemlog) option" where
  "pmemlog_rewind lk plp =
     (if pl_rdonly plp then Some (Inl EROFS, plp)
      else locked log_wrlock lk plp (\<lambda>plp.
        let plp = pm_store write_offset_p (bytes_at (pl_mem plp) start_offset_p 8) plp
        in (Inr 0, pm_persist write_offset_p 8 plp)))"

text \<open>The loop of \<open>pmemlog_walk\<close>: the callback takes a chunk and its own state, and says whether to go on.\<close>

partial_function (option) walk_loop ::
  "mem \<Rightarrow> u64 \<Rightarrow> u64 \<Rightarrow> u64 \<Rightarrow> (byte list \<Rightarrow> 'a \<Rightarrow> bool \<times> 'a) \<Rightarrow> 'a \<Rightarrow> 'a option" where
  "walk_loop data chunksize write_offset data_offset process_chunk arg =
     (if data_offset < write_offset
      then let len = u64_min chunksize (write_offset - data_offset)
           in case process_chunk (bytes_at data (unat data_offset) (unat len)) arg of
                (go, arg) \<Rightarrow>
                  if \<not> go then Some arg
                  else walk_loop data chunksize write_offset (data_offset + chunksize) process_chunk arg
      else Some arg)"

definition pmemlog_walk ::
  "errno option \<Rightarrow> pmemlog \<Rightarrow> u64 \<Rightarrow> (byte list \<Rightarrow> 'a \<Rightarrow> bool \<times> 'a) \<Rightarrow> 'a \<Rightarrow> ((errno + 'a) \<times> pmemlog) option" where
  "pmemlog_walk lk plp chunksize process_chunk arg =
     (case lk of
        Some e \<Rightarrow> Some (Inl e, plp)
      | None \<Rightarrow>
          (case log_rdlock plp of
             None \<Rightarrow> None
           | Some plp \<Rightarrow>
               let write_offset = rd64 (pl_mem plp) write_offset_p;
                   data_offset = rd64 (pl_mem plp) start_offset_p
               in map_option (\<lambda>arg. (Inr arg, log_unlock plp))
                    (if chunksize = 0
                     then Some (snd (process_chunk (bytes_at (pl_mem plp) (unat data_offset) (unat (write_offset - data_offset))) arg))
                     else walk_loop (pl_mem plp) chunksize write_offset data_offset process_chunk arg)))"

definition pmemlog_checkU ::
  "bool \<Rightarrow> errno option \<Rightarrow> errno + mem \<times> u64 \<times> bool \<times> nat \<Rightarrow> errno + bool" where
  "pmemlog_checkU malloc_ok rwinit opened =
     (case log_open_common malloc_ok rwinit opened of
        Inl e \<Rightarrow> Inl e
      | Inr plp \<Rightarrow>
          let hdr_start = rd64 (pl_mem plp) start_offset_p;
              hdr_end = rd64 (pl_mem plp) end_offset_p;
              hdr_write = rd64 (pl_mem plp) write_offset_p
          in Inr (\<not> (hdr_start \<noteq> roundup SIZEOF_PMEMLOG LOG_FORMAT_DATA_ALIGN \<or> hdr_end \<noteq> pl_size plp \<or>
                 hdr_start > hdr_end \<or> hdr_start > hdr_write \<or> hdr_write > hdr_end)))"

end
