(* ===== verification/Plog_Theorems.thy ===== *)
theory Plog_Theorems
  imports Plog Simulation
begin

text \<open>
  What a log pool promises: it is a sequence of bytes for every sequence of operations, an operation
  is atomic with respect to power failures, and a walk visits the data in order and ends. The last
  property shows what a chunk size near the largest 64-bit number does.
\<close>

unbundle bit_operations_syntax

section \<open>Logs\<close>

lemmas log_offsets = start_offset_p_def end_offset_p_def write_offset_p_def SIZEOF_POOL_HDR_def

lemma log_start: "roundup SIZEOF_PMEMLOG LOG_FORMAT_DATA_ALIGN = 8192"
  by (simp add: roundup_def SIZEOF_PMEMLOG_def LOG_FORMAT_DATA_ALIGN_def)

text \<open>A memory that holds a log with the given data in a pool of the given size.\<close>

definition log_image :: "mem \<Rightarrow> u64 \<Rightarrow> byte list \<Rightarrow> bool" where
  "log_image m sz d \<longleftrightarrow>
     rd64 m start_offset_p = 8192 \<and> rd64 m end_offset_p = sz \<and> unat sz < 2 ^ 63 \<and>
     8192 \<le> unat (rd64 m write_offset_p) \<and> unat (rd64 m write_offset_p) \<le> unat sz \<and>
     d = bytes_at m 8192 (unat (rd64 m write_offset_p) - 8192)"

text \<open>A log between two operations: nothing is waiting to reach the media.\<close>

definition log_ok :: "pmemlog \<Rightarrow> bool" where
  "log_ok plp \<longleftrightarrow>
     pm_media (pl_pm plp) = pl_mem plp \<and> (\<exists>d. log_image (pl_mem plp) (pl_size plp) d) \<and> pl_readers plp = 0 \<and> \<not> pl_writer plp"

definition log_data :: "pmemlog \<Rightarrow> byte list" where
  "log_data plp = bytes_at (pl_mem plp) 8192 (unat (rd64 (pl_mem plp) write_offset_p) - 8192)"

lemma log_ok_image: "log_ok plp \<Longrightarrow> log_image (pl_mem plp) (pl_size plp) (log_data plp)"
  by (auto simp: log_ok_def log_image_def log_data_def)

section \<open>Power failures\<close>

text \<open>What the media may hold after a power failure: each word of eight bytes is the one that was
  durable or the one that the processor saw.\<close>

definition pm_image :: "pm \<Rightarrow> mem \<Rightarrow> bool" where
  "pm_image p img \<longleftrightarrow>
     (\<forall>w. (\<forall>x. x div 8 = w \<longrightarrow> img x = pm_media p x) \<or> (\<forall>x. x div 8 = w \<longrightarrow> img x = pm_mem p x))"

definition survives :: "u64 \<Rightarrow> byte list set \<Rightarrow> pm \<Rightarrow> bool" where
  "survives sz ds p \<longleftrightarrow> (\<forall>img. pm_image p img \<longrightarrow> (\<exists>d \<in> ds. log_image img sz d))"

lemma pm_image_same: "pm_image p img \<Longrightarrow> pm_media p x = v \<Longrightarrow> pm_mem p x = v \<Longrightarrow> img x = v"
  unfolding pm_image_def by metis

lemma log_image_cong:
  assumes "log_image m sz d" and "\<And>x. x < unat (rd64 m write_offset_p) \<Longrightarrow> m' x = m x"
  shows "log_image m' sz d"
proof -
  have le: "8192 \<le> unat (rd64 m write_offset_p)" using assms(1) by (simp add: log_image_def)
  then have "rd64 m' a = rd64 m a" if "a + 8 \<le> 8192" for a using assms(2) that by (intro rd64_cong) auto
  then have r: "rd64 m' start_offset_p = rd64 m start_offset_p" "rd64 m' end_offset_p = rd64 m end_offset_p" "rd64 m' write_offset_p = rd64 m write_offset_p"
    by (simp_all add: log_offsets)
  have "bytes_at m' 8192 (unat (rd64 m write_offset_p) - 8192) = bytes_at m 8192 (unat (rd64 m write_offset_p) - 8192)"
    using le assms(2) by (intro bytes_at_eqI) auto
  then show ?thesis using assms(1) r by (simp add: log_image_def)
qed

text \<open>Changes behind the write offset do not matter.\<close>

lemma survives_behind:
  assumes "log_image m sz d" and "d \<in> ds"
    and "\<And>x. x < unat (rd64 m write_offset_p) \<Longrightarrow> pm_media p x = m x \<and> pm_mem p x = m x"
  shows "survives sz ds p"
  unfolding survives_def using log_image_cong [OF assms(1)] pm_image_same assms(2,3) by blast

text \<open>The write offset is one word.\<close>

lemma survives_offset:
  assumes "log_image m sz d" and "log_image (wr64 m write_offset_p v) sz d'" and "d \<in> ds" "d' \<in> ds"
    and p: "pm_media p = m" "pm_mem p = wr64 m write_offset_p v"
  shows "survives sz ds p"
  unfolding survives_def
proof (intro allI impI)
  fix img assume img: "pm_image p img"
  have out: "img x = m x" "wr64 m write_offset_p v x = m x" if "x div 8 \<noteq> 514" for x
  proof -
    have "x < write_offset_p \<or> write_offset_p + 8 \<le> x" using that by (simp add: log_offsets) presburger
    then show "wr64 m write_offset_p v x = m x" by (rule wr64_out)
    then show "img x = m x" using pm_image_same [OF img, of x "m x"] p by simp
  qed
  have "(\<forall>x. x div 8 = 514 \<longrightarrow> img x = m x) \<or> (\<forall>x. x div 8 = 514 \<longrightarrow> img x = wr64 m write_offset_p v x)"
    using img p unfolding pm_image_def by auto
  then have "img = m \<or> img = wr64 m write_offset_p v" using out by (metis ext)
  then show "\<exists>d \<in> ds. log_image img sz d" using assms(1-4) by blast
qed

section \<open>Traces\<close>

definition grows :: "(pm \<Rightarrow> bool) \<Rightarrow> pmemlog \<Rightarrow> pmemlog \<Rightarrow> bool" where
  "grows P s s' \<longleftrightarrow> (\<exists>ps. pl_trace s' = pl_trace s @ ps \<and> (\<forall>p \<in> set ps. P p))"

lemma grows_refl [simp]: "grows P s s"
  by (simp add: grows_def)

lemma grows_trans: "grows P s t \<Longrightarrow> grows P t u \<Longrightarrow> grows P s u"
  by (fastforce simp: grows_def)

lemma grows_mono: "grows P s t \<Longrightarrow> (\<And>p. P p \<Longrightarrow> Q p) \<Longrightarrow> grows Q s t"
  by (auto simp: grows_def)

text \<open>Stores and persists only change the memories and extend the trace.\<close>

definition same_log :: "pmemlog \<Rightarrow> pmemlog \<Rightarrow> bool" where
  "same_log s s' \<longleftrightarrow> pl_size s' = pl_size s \<and> pl_rdonly s' = pl_rdonly s \<and> pl_readers s' = pl_readers s \<and> pl_writer s' = pl_writer s"

lemma same_log_refl [simp]: "same_log s s"
  by (simp add: same_log_def)

lemma pm_set_simps:
  "pl_pm (pm_set p s) = p" "same_log t (pm_set p s) = same_log t s" "pl_trace (pm_set p s) = pl_trace s @ [p]"
  by (simp_all add: pm_set_def same_log_def)

lemma grows_set: "grows P t s \<Longrightarrow> P p \<Longrightarrow> grows P t (pm_set p s)"
  by (auto simp: grows_def pm_set_simps)

section \<open>Appending\<close>

lemma appendv_loop_spec:
  assumes "unat wo + length (concat iov) < 2 ^ 64"
  shows "unat (fst (appendv_loop iov wo s)) = unat wo + length (concat iov)"
    "pl_pm (snd (appendv_loop iov wo s)) = (pl_pm s)\<lparr>pm_mem := store (pl_mem s) (unat wo) (concat iov)\<rparr>"
    "same_log s (snd (appendv_loop iov wo s))"
    "grows (\<lambda>p. pm_media p = pm_media (pl_pm s) \<and> (\<forall>x < unat wo. pm_mem p x = pl_mem s x)) s (snd (appendv_loop iov wo s))"
proof -
  have "unat (fst (appendv_loop iov wo s)) = unat wo + length (concat iov) \<and>
    pl_pm (snd (appendv_loop iov wo s)) = (pl_pm s)\<lparr>pm_mem := store (pl_mem s) (unat wo) (concat iov)\<rparr> \<and>
    same_log s (snd (appendv_loop iov wo s)) \<and>
    grows (\<lambda>p. pm_media p = pm_media (pl_pm s) \<and> (\<forall>x < unat wo. pm_mem p x = pl_mem s x)) s (snd (appendv_loop iov wo s))"
    using assms
  proof (induction iov arbitrary: wo s)
    case (Cons buf iov)
    let ?t = "pm_store (unat wo) buf s" and ?wo = "wo + of_nat (length buf)"
    have wo: "unat ?wo = unat wo + length buf" using Cons.prems by (subst unat_plus_u64) (simp_all add: unat_of_nat_u64)
    have "unat ?wo + length (concat iov) < 2 ^ 64" using Cons.prems wo by simp
    note ih = Cons.IH [OF this, of ?t]
    have t: "pl_pm ?t = (pl_pm s)\<lparr>pm_mem := store (pl_mem s) (unat wo) buf\<rparr>" by (simp add: pm_store_def pm_set_simps)
    have g: "grows (\<lambda>p. pm_media p = pm_media (pl_pm s) \<and> (\<forall>x < unat wo. pm_mem p x = pl_mem s x)) s ?t"
      unfolding pm_store_def by (rule grows_set) (auto simp: store_out)
    have "grows (\<lambda>p. pm_media p = pm_media (pl_pm s) \<and> (\<forall>x < unat wo. pm_mem p x = pl_mem s x)) ?t (snd (appendv_loop iov ?wo ?t))"
      using ih t wo by (auto elim!: grows_mono simp: store_out)
    with grows_trans [OF g] show ?case using ih t wo by (auto simp: store_append same_log_def pm_store_def pm_set_def)
  qed (simp add: same_log_def)
  then show "unat (fst (appendv_loop iov wo s)) = unat wo + length (concat iov)"
    "pl_pm (snd (appendv_loop iov wo s)) = (pl_pm s)\<lparr>pm_mem := store (pl_mem s) (unat wo) (concat iov)\<rparr>"
    "same_log s (snd (appendv_loop iov wo s))"
    "grows (\<lambda>p. pm_media p = pm_media (pl_pm s) \<and> (\<forall>x < unat wo. pm_mem p x = pl_mem s x)) s (snd (appendv_loop iov wo s))" by blast+
qed

lemma log_imageD:
  assumes "log_image m sz d"
  shows "unat (rd64 m write_offset_p) = 8192 + length d" "8192 + length d \<le> unat sz" "unat sz < 2 ^ 63"
    "rd64 m start_offset_p = 8192" "rd64 m end_offset_p = sz" "bytes_at m 8192 (length d) = d"
  using assms by (auto simp: log_image_def)

lemma log_imageI:
  assumes "rd64 m start_offset_p = 8192" "rd64 m end_offset_p = sz" "unat sz < 2 ^ 63"
    "unat (rd64 m write_offset_p) = 8192 + length d" "8192 + length d \<le> unat sz" "bytes_at m 8192 (length d) = d"
  shows "log_image m sz d"
  using assms by (auto simp: log_image_def)

lemma rd64_header_store: "8192 \<le> a \<Longrightarrow> h + 8 \<le> 8192 \<Longrightarrow> rd64 (store m a bs) h = rd64 m h"
  by (intro rd64_store_disjoint) auto

lemma appended_image:
  assumes im: "log_image m sz d" and fit: "8192 + length d + length bs \<le> unat sz" and wo: "unat wo = 8192 + length d + length bs"
  defines "m1 \<equiv> store m (8192 + length d) bs"
  shows "log_image m1 sz d" "log_image (wr64 m1 write_offset_p wo) sz (d @ bs)"
proof -
  note D = log_imageD [OF im]
  have h: "rd64 m1 a = rd64 m a" if "a + 8 \<le> 8192" for a unfolding m1_def using that by (intro rd64_header_store) auto
  have dt: "bytes_at m1 8192 (length d) = d" unfolding m1_def using D(6) by (subst bytes_at_store_disjoint) auto
  show "log_image m1 sz d" using D dt h by (intro log_imageI) (simp_all add: log_offsets)
  have "bytes_at m1 8192 (length d + length bs) = d @ bs"
    unfolding bytes_at_append dt by (simp add: m1_def bytes_at_store_same)
  moreover have "bytes_at (wr64 m1 write_offset_p wo) 8192 n = bytes_at m1 8192 n" for n
    by (intro bytes_at_eqI wr64_out) (simp add: log_offsets)
  ultimately show "log_image (wr64 m1 write_offset_p wo) sz (d @ bs)"
    using D fit wo h by (intro log_imageI) (simp_all add: log_offsets rd64_wr64_disjoint)
qed

lemma store_bytes_at: "store m a (bytes_at m' a n) = (\<lambda>x. if a \<le> x \<and> x < a + n then m' x else m x)"
  by (auto simp: store_def fun_eq_iff)

lemma append_body:
  assumes im: "log_image (pl_mem s) (pl_size s) d" and media: "pm_media (pl_pm s) = pl_mem s"
    and fit: "8192 + length d + length (concat iov) \<le> unat (pl_size s)"
  defines "m \<equiv> pl_mem s"
  defines "l \<equiv> appendv_loop iov (rd64 m write_offset_p) s"
  defines "m' \<equiv> wr64 (store m (8192 + length d) (concat iov)) write_offset_p (fst l)"
  shows "pl_pm (log_persist (snd l) (fst l)) = \<lparr>pm_mem = m', pm_media = m'\<rparr>" "log_image m' (pl_size s) (d @ concat iov)"
    "same_log s (log_persist (snd l) (fst l))" "grows (survives (pl_size s) {d, d @ concat iov}) s (log_persist (snd l) (fst l))"
proof -
  let ?sz = "pl_size s" and ?bs = "concat iov" and ?wo = "rd64 m write_offset_p" and ?ds = "{d, d @ concat iov}"
  note D = log_imageD [OF im, folded m_def]
  have "unat ?wo + length ?bs < 2 ^ 64" using D fit by simp
  note al = appendv_loop_spec [OF this, of s, folded l_def]
  let ?m1 = "store m (8192 + length d) ?bs"
  have wo: "unat (fst l) = 8192 + length d + length ?bs" using al(1) D(1) by simp
  have p1: "pl_pm (snd l) = \<lparr>pm_mem = ?m1, pm_media = m\<rparr>" using al(2) media D(1) by (simp add: m_def)
  note ai = appended_image [OF im [folded m_def] fit wo]
  have old: "rd64 ?m1 write_offset_p = ?wo" by (rule rd64_header_store) (simp_all add: log_offsets)
  have "?wo \<le> fst l" using wo D(1) by (simp add: word_le_nat_alt)
  then have "unat (fst l - ?wo) = length ?bs" using wo D(1) by (simp add: unat_sub)
  then have dr: "store m (unat ?wo) (bytes_at ?m1 (unat ?wo) (unat (fst l - ?wo))) = ?m1"
    unfolding store_bytes_at using D(1) by (auto simp: fun_eq_iff store_out)
  let ?s2 = "pm_set \<lparr>pm_mem = ?m1, pm_media = ?m1\<rparr> (snd l)"
  have e2: "pm_persist (unat ?wo) (unat (fst l - ?wo)) (snd l) = ?s2" using p1 dr by (simp add: pm_persist_def)
  let ?s3 = "pm_set \<lparr>pm_mem = m', pm_media = ?m1\<rparr> ?s2"
  have e3: "pm_store write_offset_p (u64_bytes (fst l)) ?s2 = ?s3" by (simp add: pm_store_def pm_set_simps m'_def wr64_def)
  have "store ?m1 write_offset_p (bytes_at m' write_offset_p 8) = m'"
    unfolding store_bytes_at m'_def by (auto simp: fun_eq_iff wr64_out)
  then have lp: "log_persist (snd l) (fst l) = pm_set \<lparr>pm_mem = m', pm_media = m'\<rparr> ?s3"
    using p1 old e2 e3 by (simp add: log_persist_def Let_def pm_persist_def pm_set_simps)
  then show "pl_pm (log_persist (snd l) (fst l)) = \<lparr>pm_mem = m', pm_media = m'\<rparr>" by (simp add: pm_set_simps)
  show "log_image m' ?sz (d @ ?bs)" unfolding m'_def by (rule ai(2))
  show "same_log s (log_persist (snd l) (fst l))" unfolding lp using al(3) by (simp add: pm_set_simps)
  have "grows (survives ?sz ?ds) s (snd l)"
    using al(4) by (rule grows_mono) (rule survives_behind [OF im], auto simp: media m_def)
  moreover have "survives ?sz ?ds \<lparr>pm_mem = ?m1, pm_media = ?m1\<rparr>" by (rule survives_behind [OF ai(1)]) auto
  moreover have "survives ?sz ?ds \<lparr>pm_mem = m', pm_media = ?m1\<rparr>"
    by (rule survives_offset [OF ai]) (simp_all add: m'_def)
  moreover have "survives ?sz ?ds \<lparr>pm_mem = m', pm_media = m'\<rparr>"
    by (rule survives_behind [OF ai(2)]) (auto simp: m'_def)
  ultimately show "grows (survives ?sz ?ds) s (log_persist (snd l) (fst l))" unfolding lp by (intro grows_set)
qed

section \<open>Logs as byte sequences\<close>

text \<open>What a log pool promises: a sequence of bytes up to a given length that only grows at its end,
  until it is emptied.\<close>

record logdev =
  lg_rdonly :: bool
  lg_size :: nat
  lg_data :: "byte list"

datatype log_op = LAppend "byte list" | LAppendv "byte list list" int | LRewind | LTell | LNbyte

definition lg_add :: "logdev \<Rightarrow> byte list \<Rightarrow> (errno + int) \<times> logdev" where
  "lg_add d bs =
     (if lg_size d \<le> length (lg_data d) \<or> lg_size d < length (lg_data d) + length bs then (Inl ENOSPC, d)
      else (Inr 0, d\<lparr>lg_data := lg_data d @ bs\<rparr>))"

text \<open>An operation comes with the answer of the locking function.\<close>

fun lg_step :: "logdev \<Rightarrow> errno option \<times> log_op \<Rightarrow> (errno + int) \<times> logdev" where
  "lg_step d (lk, LAppend buf) =
     (if lg_rdonly d then (Inl EROFS, d) else case lk of Some e \<Rightarrow> (Inl e, d) | None \<Rightarrow> lg_add d buf)"
| "lg_step d (lk, LAppendv iov n) =
     (if n < 0 then (Inl EINVAL, d) else if lg_rdonly d then (Inl EROFS, d)
      else case lk of Some e \<Rightarrow> (Inl e, d) | None \<Rightarrow> lg_add d (concat (take (nat n) iov)))"
| "lg_step d (lk, LRewind) =
     (if lg_rdonly d then (Inl EROFS, d) else case lk of Some e \<Rightarrow> (Inl e, d) | None \<Rightarrow> (Inr 0, d\<lparr>lg_data := []\<rparr>))"
| "lg_step d (lk, LTell) = ((case lk of Some e \<Rightarrow> Inl e | None \<Rightarrow> Inr (int (length (lg_data d)))), d)"
| "lg_step d (lk, LNbyte) = ((case lk of Some e \<Rightarrow> Inl e | None \<Rightarrow> Inr (int (lg_size d))), d)"

text \<open>The sizes of the buffers of one call add up to less than \<open>SIZE_MAX\<close>.\<close>

fun lg_op_ok :: "logdev \<Rightarrow> errno option \<times> log_op \<Rightarrow> bool" where
  "lg_op_ok d (lk, LAppend buf) \<longleftrightarrow> length buf < 2 ^ 64"
| "lg_op_ok d (lk, LAppendv iov n) \<longleftrightarrow> length (concat (take (nat n) iov)) < 2 ^ 64"
| "lg_op_ok d (lk, op) \<longleftrightarrow> True"

fun pmemlog_step :: "pmemlog \<Rightarrow> errno option \<times> log_op \<Rightarrow> ((errno + int) \<times> pmemlog) option" where
  "pmemlog_step plp (lk, LAppend buf) = pmemlog_append lk plp buf"
| "pmemlog_step plp (lk, LAppendv iov n) = pmemlog_appendv lk plp iov n"
| "pmemlog_step plp (lk, LRewind) = pmemlog_rewind lk plp"
| "pmemlog_step plp (lk, LTell) = pmemlog_tell lk plp"
| "pmemlog_step plp (lk, LNbyte) = pmemlog_nbyte lk plp"

definition log_dev :: "pmemlog \<Rightarrow> logdev" where
  "log_dev plp = \<lparr>lg_rdonly = pl_rdonly plp, lg_size = unat (pl_size plp) - 8192, lg_data = log_data plp\<rparr>"

text \<open>What an operation of the code does to a log: it answers like the specification and keeps the log
  in order, and every state in between is one that survives a power failure.\<close>

definition log_does :: "pmemlog \<Rightarrow> ((errno + int) \<times> pmemlog) option \<Rightarrow> (errno + int) \<times> logdev \<Rightarrow> bool" where
  "log_does s res a \<longleftrightarrow>
     (\<exists>s'. res = Some (fst a, s') \<and> log_ok s' \<and> log_dev s' = snd a \<and> pl_size s' = pl_size s \<and>
        grows (survives (pl_size s) {log_data s, log_data s'}) s s')"

lemma log_does_nothing: "log_ok s \<Longrightarrow> log_does s (Some (r, s)) (r, log_dev s)"
  by (simp add: log_does_def)

lemma log_ok_change:
  assumes "log_ok s" and "same_log s s'" and "pl_pm s' = \<lparr>pm_mem = m, pm_media = m\<rparr>" and "log_image m (pl_size s) d"
  shows "log_ok s'" "log_dev s' = (log_dev s)\<lparr>lg_data := d\<rparr>" "log_data s' = d" "pl_size s' = pl_size s"
proof -
  note D = log_imageD [OF assms(4)]
  show d: "log_data s' = d" using assms(3) D(1,6) by (simp add: log_data_def)
  show "pl_size s' = pl_size s" "log_ok s'" "log_dev s' = (log_dev s)\<lparr>lg_data := d\<rparr>"
    using assms d by (auto simp: log_ok_def same_log_def log_dev_def)
qed

text \<open>Under the write lock.\<close>

lemma locked_does:
  assumes ok: "log_ok s"
    and body: "\<And>t. t = s\<lparr>pl_writer := True\<rparr> \<Longrightarrow> \<exists>m. fst (body t) = fst a \<and> pl_pm (snd (body t)) = \<lparr>pm_mem = m, pm_media = m\<rparr> \<and>
      log_image m (pl_size s) (lg_data (snd a)) \<and> same_log t (snd (body t)) \<and>
      grows (survives (pl_size s) {log_data s, lg_data (snd a)}) s (snd (body t))"
    and a: "snd a = (log_dev s)\<lparr>lg_data := lg_data (snd a)\<rparr>"
  shows "log_does s (locked log_wrlock None s body) a"
proof -
  let ?t = "s\<lparr>pl_writer := True\<rparr>"
  from body [OF refl] obtain m where b: "fst (body ?t) = fst a" "pl_pm (snd (body ?t)) = \<lparr>pm_mem = m, pm_media = m\<rparr>"
    "log_image m (pl_size s) (lg_data (snd a))" "same_log ?t (snd (body ?t))"
    "grows (survives (pl_size s) {log_data s, lg_data (snd a)}) s (snd (body ?t))" by blast
  let ?u = "log_unlock (snd (body ?t))"
  have u: "same_log s ?u" "pl_pm ?u = \<lparr>pm_mem = m, pm_media = m\<rparr>" "pl_trace ?u = pl_trace (snd (body ?t))"
    using b(2,4) ok by (auto simp: log_unlock_def same_log_def log_ok_def)
  note c = log_ok_change [OF ok u(1,2) b(3)]
  have "locked log_wrlock None s body = Some (fst a, ?u)"
    using ok b(1) by (simp add: locked_def log_wrlock_def log_ok_def case_prod_unfold)
  moreover have "grows (survives (pl_size s) {log_data s, log_data ?u}) s ?u" using b(5) c(3) u(3) by (simp add: grows_def)
  ultimately show ?thesis unfolding log_does_def using c a by auto
qed

lemma lg_data_same: "log_ok s \<Longrightarrow> snd a = log_dev s \<Longrightarrow> log_image (pl_mem s) (pl_size s) (lg_data (snd a))"
  using log_ok_image by (simp add: log_dev_def)

lemma sum_lengths:
  assumes "length (concat iov) < 2 ^ 64"
  shows "unat (sum_list (map (\<lambda>buf. of_nat (length buf)) iov) :: u64) = length (concat iov)"
  using assms by (induction iov) (auto simp: unat_of_nat_u64 intro!: trans [OF unat_plus_u64])

lemma add_does:
  assumes ok: "log_ok s" and len: "length (concat iov) < 2 ^ 64"
    and body: "\<And>t. body t =
       (let end_offset = rd64 (pl_mem t) end_offset_p; write_offset = rd64 (pl_mem t) write_offset_p;
            count = sum_list (map (\<lambda>buf. of_nat (length buf)) iov)
        in if write_offset \<ge> end_offset then (Inl ENOSPC, t)
           else if count > end_offset - write_offset then (Inl ENOSPC, t)
           else let l = appendv_loop iov write_offset t in (Inr 0, log_persist (snd l) (fst l)))"
  shows "log_does s (locked log_wrlock None s body) (lg_add (log_dev s) (concat iov))"
proof (rule locked_does [OF ok])
  let ?d = "log_data s" and ?bs = "concat iov" and ?sz = "pl_size s"
  note im = log_ok_image [OF ok] and D = log_imageD [OF log_ok_image [OF ok]]
  show "snd (lg_add (log_dev s) ?bs) = (log_dev s)\<lparr>lg_data := lg_data (snd (lg_add (log_dev s) ?bs))\<rparr>"
    by (simp add: lg_add_def)
  fix t assume t: "t = s\<lparr>pl_writer := True\<rparr>"
  then have pt: "pl_pm t = pl_pm s" "pl_size t = ?sz" "grows P s t" for P by (simp_all add: grows_def)
  have md: "pm_media (pl_pm s) = pl_mem s" using ok by (simp add: log_ok_def)
  then have ps: "pl_pm s = \<lparr>pm_mem = pl_mem s, pm_media = pl_mem s\<rparr>" by (cases "pl_pm s") simp
  have full: "rd64 (pl_mem s) write_offset_p \<ge> rd64 (pl_mem s) end_offset_p \<longleftrightarrow> unat ?sz \<le> 8192 + length ?d"
    using D by (simp add: word_le_nat_alt)
  have free: "unat (rd64 (pl_mem s) end_offset_p - rd64 (pl_mem s) write_offset_p) = unat ?sz - (8192 + length ?d)"
    using D by (subst unat_sub) (simp_all add: word_le_nat_alt)
  have "(sum_list (map (\<lambda>buf. of_nat (length buf)) iov) > rd64 (pl_mem s) end_offset_p - rd64 (pl_mem s) write_offset_p) \<longleftrightarrow>
      unat ?sz < 8192 + length ?d + length ?bs" using D free sum_lengths [OF len] by (auto simp: word_less_nat_alt)
  note cond = full this
  show "\<exists>m. fst (body t) = fst (lg_add (log_dev s) ?bs) \<and> pl_pm (snd (body t)) = \<lparr>pm_mem = m, pm_media = m\<rparr> \<and>
      log_image m ?sz (lg_data (snd (lg_add (log_dev s) ?bs))) \<and> same_log t (snd (body t)) \<and>
      grows (survives ?sz {?d, lg_data (snd (lg_add (log_dev s) ?bs))}) s (snd (body t))"
  proof (cases "unat ?sz \<le> 8192 + length ?d \<or> unat ?sz < 8192 + length ?d + length ?bs")
    case True
    then have "body t = (Inl ENOSPC, t)" unfolding body Let_def pt(1) cond by auto
    moreover have "lg_add (log_dev s) ?bs = (Inl ENOSPC, log_dev s)" using True D by (auto simp: lg_add_def log_dev_def)
    ultimately show ?thesis using im ps pt by (intro exI [of _ "pl_mem s"]) (simp add: log_dev_def same_log_def)
  next
    case False
    let ?l = "appendv_loop iov (rd64 (pl_mem t) write_offset_p) t"
    have "body t = (Inr 0, log_persist (snd ?l) (fst ?l))" using False unfolding body Let_def pt(1) cond by simp
    moreover have "lg_add (log_dev s) ?bs = (Inr 0, (log_dev s)\<lparr>lg_data := ?d @ ?bs\<rparr>)" using False D by (auto simp: lg_add_def log_dev_def)
    moreover note append_body [of t ?d iov] im md False pt grows_trans [OF pt(3)]
    ultimately show ?thesis by (auto simp: not_less)
  qed
qed

lemma append_does:
  assumes ok: "log_ok s" and op: "lg_op_ok (log_dev s) (lk, LAppend buf)"
  shows "log_does s (pmemlog_append lk s buf) (lg_step (log_dev s) (lk, LAppend buf))"
proof -
  have len: "length (concat [buf]) < 2 ^ 64" using op by simp
  note ad = add_does [OF ok len refl]
  have "pmemlog_append None s buf = locked log_wrlock None s (\<lambda>t.
       let end_offset = rd64 (pl_mem t) end_offset_p; write_offset = rd64 (pl_mem t) write_offset_p;
            count = sum_list (map (\<lambda>buf. of_nat (length buf)) [buf])
        in if write_offset \<ge> end_offset then (Inl ENOSPC, t)
           else if count > end_offset - write_offset then (Inl ENOSPC, t)
           else let l = appendv_loop [buf] write_offset t in (Inr 0, log_persist (snd l) (fst l)))" if "\<not> pl_rdonly s"
    unfolding pmemlog_append_def using that by (simp add: Let_def cong: if_cong)
  then show ?thesis using ad log_does_nothing [OF ok]
    by (cases "pl_rdonly s"; cases lk) (simp_all add: log_dev_def pmemlog_append_def locked_def)
qed

lemma appendv_does:
  assumes ok: "log_ok s" and op: "lg_op_ok (log_dev s) (lk, LAppendv iov n)"
  shows "log_does s (pmemlog_appendv lk s iov n) (lg_step (log_dev s) (lk, LAppendv iov n))"
proof -
  have len: "length (concat (take (nat n) iov)) < 2 ^ 64" using op by simp
  note ad = add_does [OF ok len refl]
  have "pmemlog_appendv None s iov n = locked log_wrlock None s (\<lambda>t.
       let end_offset = rd64 (pl_mem t) end_offset_p; write_offset = rd64 (pl_mem t) write_offset_p;
            count = sum_list (map (\<lambda>buf. of_nat (length buf)) (take (nat n) iov))
        in if write_offset \<ge> end_offset then (Inl ENOSPC, t)
           else if count > end_offset - write_offset then (Inl ENOSPC, t)
           else let l = appendv_loop (take (nat n) iov) write_offset t in (Inr 0, log_persist (snd l) (fst l)))" if "\<not> n < 0" "\<not> pl_rdonly s"
    unfolding pmemlog_appendv_def using that by (simp add: Let_def case_prod_unfold cong: if_cong)
  then show ?thesis using ad log_does_nothing [OF ok]
    by (cases "n < 0"; cases "pl_rdonly s"; cases lk) (simp_all add: log_dev_def pmemlog_appendv_def locked_def)
qed

lemma rewind_body:
  assumes im: "log_image m sz d"
  shows "bytes_at m start_offset_p 8 = u64_bytes 8192" "log_image (wr64 m write_offset_p 8192) sz []"
    "store m write_offset_p (bytes_at (wr64 m write_offset_p 8192) write_offset_p 8) = wr64 m write_offset_p 8192"
proof -
  note D = log_imageD [OF im]
  show "bytes_at m start_offset_p 8 = u64_bytes 8192" using D(4) by (simp only: rd64_conv)
  show "log_image (wr64 m write_offset_p 8192) sz []" using D by (intro log_imageI) (simp_all add: log_offsets rd64_wr64_disjoint)
  show "store m write_offset_p (bytes_at (wr64 m write_offset_p 8192) write_offset_p 8) = wr64 m write_offset_p 8192"
    unfolding store_bytes_at by (auto simp: fun_eq_iff wr64_out)
qed

lemma rewind_does:
  assumes ok: "log_ok s"
  shows "log_does s (pmemlog_rewind lk s) (lg_step (log_dev s) (lk, LRewind))"
proof (cases "pl_rdonly s \<or> lk \<noteq> None")
  case True
  then show ?thesis using log_does_nothing [OF ok] by (cases lk) (auto simp: log_dev_def pmemlog_rewind_def locked_def)
next
  case False
  note im = log_ok_image [OF ok] and rb = rewind_body [OF log_ok_image [OF ok]]
  have md: "pm_media (pl_pm s) = pl_mem s" using ok by (simp add: log_ok_def)
  let ?m = "wr64 (pl_mem s) write_offset_p 8192" and ?ds = "{log_data s, []}"
  let ?p1 = "\<lparr>pm_mem = ?m, pm_media = pl_mem s\<rparr>" and ?p2 = "\<lparr>pm_mem = ?m, pm_media = ?m\<rparr>"
  have sv: "survives (pl_size s) ?ds ?p1" "survives (pl_size s) ?ds ?p2"
    by (rule survives_offset [OF im rb(2)]; simp) (rule survives_behind [OF rb(2)]; simp)
  have eq: "pm_persist write_offset_p 8 (pm_store write_offset_p (bytes_at (pl_mem t) start_offset_p 8) t) = pm_set ?p2 (pm_set ?p1 t)"
    if "pl_pm t = pl_pm s" for t
    using that rb(1,3) md by (cases "pl_pm s") (simp add: pm_persist_def pm_store_def pm_set_simps wr64_def)
  let ?body = "\<lambda>plp. let plp = pm_store write_offset_p (bytes_at (pl_mem plp) start_offset_p 8) plp in (Inr 0, pm_persist write_offset_p 8 plp)"
  let ?a = "(Inr 0 :: errno + int, (log_dev s)\<lparr>lg_data := []\<rparr>)"
  have "log_does s (locked log_wrlock None s ?body) ?a"
  proof (rule locked_does [OF ok])
    fix t assume t: "t = s\<lparr>pl_writer := True\<rparr>"
    then have b: "?body t = (Inr 0, pm_set ?p2 (pm_set ?p1 t))" using eq [of t] by (simp add: Let_def)
    have "grows (survives (pl_size s) ?ds) s t" by (simp add: t grows_def)
    then have "grows (survives (pl_size s) ?ds) s (pm_set ?p2 (pm_set ?p1 t))" using sv by (intro grows_set)
    then show "\<exists>m. fst (?body t) = fst ?a \<and> pl_pm (snd (?body t)) = \<lparr>pm_mem = m, pm_media = m\<rparr> \<and>
      log_image m (pl_size s) (lg_data (snd ?a)) \<and> same_log t (snd (?body t)) \<and>
      grows (survives (pl_size s) {log_data s, lg_data (snd ?a)}) s (snd (?body t))"
      unfolding b using rb(2) by (intro exI [of _ ?m]) (simp add: pm_set_simps)
  qed simp
  then show ?thesis using False by (simp add: pmemlog_rewind_def log_dev_def)
qed

lemma read_does:
  assumes ok: "log_ok s"
  shows "log_does s (pmemlog_tell lk s) (lg_step (log_dev s) (lk, LTell))" "log_does s (pmemlog_nbyte lk s) (lg_step (log_dev s) (lk, LNbyte))"
proof -
  note D = log_imageD [OF log_ok_image [OF ok]]
  let ?t = "s\<lparr>pl_readers := Suc (pl_readers s)\<rparr>"
  have u: "log_unlock ?t = s" using ok by (simp add: log_unlock_def log_ok_def)
  have lk: "locked log_rdlock None s (\<lambda>t. (f (pl_mem t), t)) = Some (f (pl_mem s), s)" for f :: "mem \<Rightarrow> errno + int"
    using ok u by (simp add: locked_def log_rdlock_def log_ok_def)
  have w: "unat (rd64 (pl_mem s) write_offset_p - 8192) = length (log_data s)"
    using D by (subst unat_sub) (simp_all add: word_le_nat_alt)
  then have "uint (rd64 (pl_mem s) write_offset_p - 8192) = int (length (log_data s))" by (simp add: uint_nat)
  then have "sint (rd64 (pl_mem s) write_offset_p - 8192) = int (length (log_data s))"
    using D(2,3) by (simp add: sint_uint signed_take_bit_int_eq_self)
  moreover have "unat (pl_size s - 8192) = unat (pl_size s) - 8192" using D(2) by (subst unat_sub) (simp_all add: word_le_nat_alt)
  then have "uint (pl_size s - 8192) = int (unat (pl_size s) - 8192)" by (simp add: uint_nat)
  ultimately show "log_does s (pmemlog_tell lk s) (lg_step (log_dev s) (lk, LTell))" "log_does s (pmemlog_nbyte lk s) (lg_step (log_dev s) (lk, LNbyte))"
    using log_does_nothing [OF ok] lk [of "\<lambda>m. Inr (sint (rd64 m write_offset_p - rd64 m start_offset_p))"]
      lk [of "\<lambda>m. Inr (uint (rd64 m end_offset_p - rd64 m start_offset_p))"] D(4,5)
    by (cases lk; simp add: pmemlog_tell_def pmemlog_nbyte_def log_dev_def locked_def)+
qed

lemma step_does:
  assumes "log_ok s" and "lg_op_ok (log_dev s) op"
  shows "log_does s (pmemlog_step s op) (lg_step (log_dev s) op)"
proof -
  obtain lk o' where op: "op = (lk, o')" by force
  show ?thesis unfolding op
    using assms append_does appendv_does rewind_does read_does by (cases o') (simp_all add: op del: lg_step.simps)
qed

interpretation plog: simulation log_ok log_dev pmemlog_step lg_step lg_op_ok
proof
  show "\<exists>s'. pmemlog_step s op = Some (fst (lg_step (log_dev s) op), s') \<and> log_ok s' \<and> log_dev s' = snd (lg_step (log_dev s) op)"
    if "log_ok s" "lg_op_ok (log_dev s) op" for s op
    using step_does [OF that] by (auto simp: log_does_def)
  show "lg_op_ok (snd (lg_step a op)) = lg_op_ok a" for a op
  proof
    fix o' :: "errno option \<times> log_op"
    obtain lk p where "o' = (lk, p)" by force
    then show "lg_op_ok (snd (lg_step a op)) o' = lg_op_ok a o'" by (cases p) simp_all
  qed
qed

section \<open>Creating, opening and checking\<close>

lemma open_image:
  assumes "log_image m sz d"
  shows "\<exists>q. log_open_common True None (Inr (m, sz, ro, 1)) = Inr q \<and> log_ok q \<and>
      log_dev q = \<lparr>lg_rdonly = ro, lg_size = unat sz - 8192, lg_data = d\<rparr> \<and> pmemlog_checkU True None (Inr (m, sz, ro, 1)) = Inr True"
proof -
  note D = log_imageD [OF assms]
  have "8192 \<le> rd64 m write_offset_p" "rd64 m write_offset_p \<le> sz" "8192 \<le> sz" using D by (simp_all add: word_le_nat_alt)
  then have "log_descr_check m sz = None" using D by (auto simp: log_descr_check_def Let_def log_start not_less)
  then have o: "log_open_common True None (Inr (m, sz, ro, 1)) = Inr ((mapped_log m sz)\<lparr>pl_rdonly := ro\<rparr>)"
    by (simp add: log_open_common_def log_runtime_init_def mapped_log_def)
  let ?q = "(mapped_log m sz)\<lparr>pl_rdonly := ro\<rparr>"
  have dt: "log_data ?q = d" using D(1,6) by (simp add: log_data_def mapped_log_def)
  have "log_ok ?q" using assms by (auto simp: log_ok_def mapped_log_def)
  moreover have "log_dev ?q = \<lparr>lg_rdonly = ro, lg_size = unat sz - 8192, lg_data = d\<rparr>" using dt by (simp add: log_dev_def mapped_log_def)
  moreover have "pmemlog_checkU True None (Inr (m, sz, ro, 1)) = Inr True"
    using D \<open>8192 \<le> rd64 m write_offset_p\<close> \<open>rd64 m write_offset_p \<le> sz\<close> \<open>8192 \<le> sz\<close>
    unfolding pmemlog_checkU_def o by (simp add: Let_def log_start mapped_log_def not_less)
  ultimately show ?thesis using o by blast
qed

lemma created_log:
  assumes "8192 \<le> unat sz" and "unat sz < 2 ^ 63"
  shows "\<exists>p. pmemlog_createU True None (Inr (m, sz)) None = Inr p \<and> log_ok p \<and> log_dev p = \<lparr>lg_rdonly = False, lg_size = unat sz - 8192, lg_data = []\<rparr>"
proof -
  let ?m1 = "wr64 (wr64 m start_offset_p 8192) end_offset_p sz"
  let ?m2 = "wr64 ?m1 write_offset_p 8192"
  have st: "bytes_at ?m1 start_offset_p 8 = u64_bytes 8192" by (subst rd64_conv [symmetric]) (simp add: log_offsets rd64_wr64_disjoint)
  have "store m start_offset_p (bytes_at ?m2 start_offset_p 24) = ?m2"
    unfolding store_bytes_at by (auto simp: fun_eq_iff log_offsets wr64_out)
  then have "pl_pm (log_descr_create (mapped_log m sz) sz) = \<lparr>pm_mem = ?m2, pm_media = ?m2\<rparr>"
    using st by (simp add: log_descr_create_def Let_def pm_store_def pm_persist_def pm_set_simps mapped_log_def log_start wr64_def)
  moreover have "same_log (mapped_log m sz) (log_descr_create (mapped_log m sz) sz)"
    by (simp add: log_descr_create_def Let_def pm_store_def pm_persist_def pm_set_simps)
  moreover have "log_image ?m2 sz []"
    using assms by (intro log_imageI) (simp_all add: log_offsets rd64_wr64_disjoint)
  ultimately show ?thesis
    by (auto simp: pmemlog_createU_def log_runtime_init_def log_ok_def same_log_def mapped_log_def log_dev_def log_data_def)
qed

section \<open>Walking\<close>

text \<open>The chunks of a log, and a callback that is given them in order until it ends the walk.\<close>

function chunks :: "nat \<Rightarrow> byte list \<Rightarrow> byte list list" where
  "chunks n bs = (if n = 0 \<or> bs = [] then [] else take n bs # chunks n (drop n bs))"
  by pat_completeness auto
termination
  by (relation "measure (\<lambda>(n, bs). length bs)") auto

declare chunks.simps [simp del]

fun feed :: "(byte list \<Rightarrow> 'a \<Rightarrow> bool \<times> 'a) \<Rightarrow> byte list list \<Rightarrow> 'a \<Rightarrow> 'a" where
  "feed f [] arg = arg"
| "feed f (c # cs) arg = (case f c arg of (go, arg) \<Rightarrow> if go then feed f cs arg else arg)"

lemma concat_chunks: "0 < n \<Longrightarrow> concat (chunks n bs) = bs"
  by (induction n bs rule: chunks.induct) (subst chunks.simps, auto)

lemma walk_step:
  "walk_loop m c w off f arg =
     (if off < w then case f (bytes_at m (unat off) (min (unat c) (unat w - unat off))) arg of
        (go, arg) \<Rightarrow> if go then walk_loop m c w (off + c) f arg else Some arg
      else Some arg)"
proof (cases "off < w")
  case True
  then have "unat (w - off) = unat w - unat off" by (intro unat_sub) simp
  then show ?thesis using True by (subst walk_loop.simps) (auto simp: Let_def unat_u64_min split: prod.split)
qed (subst walk_loop.simps, simp)

lemma walk_loop_chunks:
  assumes "0 < unat c" and "unat w + unat c < 2 ^ 64"
  shows "walk_loop m c w off f arg = Some (feed f (chunks (unat c) (bytes_at m (unat off) (unat w - unat off))) arg)"
proof (induction "unat w - unat off" arbitrary: off arg rule: less_induct)
  case less
  show ?case
  proof (cases "off < w")
    case True
    then have lt: "unat off < unat w" by (simp add: word_less_nat_alt)
    have of: "unat (off + c) = unat off + unat c" using lt assms(2) by (intro unat_plus_u64) simp
    let ?bs = "bytes_at m (unat off) (unat w - unat off)"
    have ne: "?bs \<noteq> []" using lt by (metis length_bytes_at length_greater_0_conv zero_less_diff)
    have ch: "chunks (unat c) ?bs = bytes_at m (unat off) (min (unat c) (unat w - unat off)) #
        chunks (unat c) (bytes_at m (unat (off + c)) (unat w - unat (off + c)))"
      using ne assms(1) of by (subst chunks.simps) (simp add: take_bytes_at drop_bytes_at)
    have "unat w - unat (off + c) < unat w - unat off" using of lt assms(1) by simp
    from less.hyps [OF this] show ?thesis unfolding ch by (subst walk_step) (simp add: True split: prod.split)
  next
    case False
    then have "bytes_at m (unat off) (unat w - unat off) = []" by (simp add: word_less_nat_alt)
    then show ?thesis using False by (subst walk_step) (simp add: chunks.simps)
  qed
qed

text \<open>A chunk size of at least \<open>2 ^ 63\<close> moves the position down by its distance from \<open>2 ^ 64\<close>, or past the end.\<close>

lemma walk_loop_returns:
  assumes c: "2 ^ 63 \<le> unat c" and w: "unat w \<le> 2 ^ 63"
  shows "\<exists>arg'. walk_loop m c w off f arg = Some arg'"
proof (induction "unat off" arbitrary: off arg rule: less_induct)
  case less
  have cb: "unat c < 2 ^ 64" using unat_lt_u64 [of c] by simp
  show ?case
  proof (cases "off < w")
    case True
    obtain go arg1 where fa: "f (bytes_at m (unat off) (min (unat c) (unat w - unat off))) arg = (go, arg1)" by force
    have "\<exists>arg'. walk_loop m c w (off + c) f arg1 = Some arg'"
    proof (cases "unat off + unat c < 2 ^ 64")
      case True
      then have "unat (off + c) = unat off + unat c" by (rule unat_plus_u64)
      then have "\<not> off + c < w" using c w by (simp add: word_less_nat_alt)
      then show ?thesis by (subst walk_step) simp
    next
      case wrap: False
      then have "unat (off + c) = unat off + unat c - 2 ^ 64"
        using unat_lt_u64 [of off] cb by (simp add: unat_word_ariths mod_if)
      then have "unat (off + c) < unat off" using cb wrap by simp
      then show ?thesis by (rule less.hyps)
    qed
    then show ?thesis using fa by (subst walk_step) (simp add: True)
  qed (subst walk_step, simp)
qed

lemma walk_locked:
  assumes ok: "log_ok s" and r: "(if c = 0 then Some (snd (f (log_data s) arg))
     else walk_loop (pl_mem s) c (rd64 (pl_mem s) write_offset_p) 8192 f arg) = Some arg'"
  shows "pmemlog_walk None s c f arg = Some (Inr arg', s)"
proof -
  note D = log_imageD [OF log_ok_image [OF ok]]
  have "unat (rd64 (pl_mem s) write_offset_p - 8192) = length (log_data s)" using D by (subst unat_sub) (simp_all add: word_le_nat_alt)
  moreover have "log_unlock (s\<lparr>pl_readers := Suc (pl_readers s)\<rparr>) = s" using ok by (simp add: log_unlock_def log_ok_def)
  ultimately show ?thesis using ok r D
    by (simp add: pmemlog_walk_def log_rdlock_def log_ok_def Let_def split: if_splits)
qed

text \<open>With \<open>SIZE_MAX\<close> the position moves down byte by byte.\<close>

lemma unat_size_max: "unat (- 1 :: u64) = 2 ^ 64 - 1"
  by (simp add: unsigned_minus_1_eq_mask mask_eq_exp_minus_1)

lemma walk_loop_down:
  assumes "unat off < unat w"
  shows "walk_loop m (- 1) w off (\<lambda>c cs. (True, cs @ [c])) acc =
    Some (acc @ map (\<lambda>a. bytes_at m a (unat w - a)) (rev [0..<Suc (unat off)]))"
  using assms
proof (induction "unat off" arbitrary: off acc)
  case 0
  then have off: "off = 0" by (simp add: word_unat_eq_iff)
  have nl: "\<not> (- 1 :: u64) < w" "min (unat (- 1 :: u64)) (unat w) = unat w"
    using unat_lt_u64 [of w] by (simp_all add: word_less_nat_alt unat_size_max)
  have st: "walk_loop m (- 1) w (- 1) (\<lambda>c cs. (True, cs @ [c])) acc' = Some acc'" for acc' using nl(1) by (subst walk_step) simp
  have "0 < w" using 0 off by (simp add: word_less_nat_alt)
  then show ?case unfolding off using st nl(2) by (subst walk_step) simp
next
  case (Suc n)
  have nz: "off \<noteq> 0" using Suc.hyps(2) by auto
  then have o1: "unat (off + (- 1)) = n" using Suc.hyps(2) by (simp add: unat_minus_one)
  have lt: "off < w" using Suc.prems by (simp add: word_less_nat_alt)
  have mn: "min (unat (- 1 :: u64)) (unat w - unat off) = unat w - unat off" using unat_lt_u64 [of w] by (simp add: unat_size_max)
  have "n = unat (off + (- 1))" "unat (off + (- 1)) < unat w" using o1 Suc.hyps(2) Suc.prems by simp_all
  note ih = Suc.hyps(1) [OF this]
  show ?case using lt mn ih o1 Suc.hyps(2) [symmetric] by (subst walk_step) (simp del: add_uminus_conv_diff upt_Suc add: upt_Suc [of 0 "Suc n"])
qed

section \<open>Properties\<close>

text \<open>C22. A log pool is an append-only sequence of bytes. Any sequence of operations on a log returns and
  answers like it: data is appended whole and only when it fits, \<open>ENOSPC\<close>, \<open>EROFS\<close>, \<open>EINVAL\<close> and an error of the
  lock are answered without an effect, the position and the capacity are the length of the data and
  of the space. A new pool is the empty sequence.\<close>

theorem pmemlog_refines_sequence:
  assumes "8192 \<le> unat sz" and "unat sz < 2 ^ 63"
    and "\<forall>op \<in> set ops. lg_op_ok \<lparr>lg_rdonly = False, lg_size = unat sz - 8192, lg_data = []\<rparr> op"
  shows "\<exists>p p'. pmemlog_createU True None (Inr (m, sz)) None = Inr p \<and>
    run_ops pmemlog_step p ops = Some (fst (spec_run lg_step \<lparr>lg_rdonly = False, lg_size = unat sz - 8192, lg_data = []\<rparr> ops), p') \<and> log_ok p' \<and>
    log_dev p' = snd (spec_run lg_step \<lparr>lg_rdonly = False, lg_size = unat sz - 8192, lg_data = []\<rparr> ops)"
proof -
  obtain p where p: "pmemlog_createU True None (Inr (m, sz)) None = Inr p" "log_ok p"
    "log_dev p = \<lparr>lg_rdonly = False, lg_size = unat sz - 8192, lg_data = []\<rparr>" using created_log [OF assms(1,2)] by blast
  show ?thesis using plog.run_refines [OF p(2), of ops] p assms(3) by auto
qed

theorem pmemlog_refines_sequence_witness:
  "\<exists>p p'. pmemlog_createU True None (Inr (\<lambda>_. 0, 8195)) None = Inr p \<and>
     run_ops pmemlog_step p [(None, LAppend [1, 2]), (None, LTell), (None, LAppendv [[3, 4]] 1), (Some EAGAIN, LTell), (None, LAppendv [[3], [4]] 1), (None, LAppend []), (None, LNbyte)] =
       Some ([Inr 0, Inr 2, Inl ENOSPC, Inl EAGAIN, Inr 0, Inl ENOSPC, Inr 3], p') \<and> log_data p' = [1, 2, 3]"
proof -
  let ?ops = "[(None, LAppend [1, 2]), (None, LTell), (None, LAppendv [[3, 4]] 1), (Some EAGAIN, LTell), (None, LAppendv [[3], [4]] 1), (None, LAppend []), (None, LNbyte)]"
  let ?d = "\<lparr>lg_rdonly = False, lg_size = unat (8195 :: u64) - 8192, lg_data = []\<rparr>"
  have "\<forall>op \<in> set ?ops. lg_op_ok ?d op" by simp
  from pmemlog_refines_sequence [OF _ _ this, of "\<lambda>_. 0"] obtain p p' where "pmemlog_createU True None (Inr (\<lambda>_. 0, 8195)) None = Inr p"
    "run_ops pmemlog_step p ?ops = Some (fst (spec_run lg_step ?d ?ops), p')" "log_dev p' = snd (spec_run lg_step ?d ?ops)" by auto
  moreover have "spec_run lg_step ?d ?ops = ([Inr 0, Inr 2, Inl ENOSPC, Inl EAGAIN, Inr 0, Inl ENOSPC, Inr 3], \<lparr>lg_rdonly = False, lg_size = 3, lg_data = [1, 2, 3]\<rparr>)"
    by (simp add: lg_add_def)
  ultimately show ?thesis by (intro exI [of _ p] exI [of _ p']) (simp add: log_dev_def)
qed

text \<open>C3. Appending to a log and emptying it are atomic with respect to power failures. After a failure at
  any point of an operation, with any of its words that are not durable yet on the media or not,
  opening the pool succeeds, the check finds it consistent, and it holds the data from before or after the
  operation. When the operation has returned it is durable.\<close>

theorem pmemlog_crash_atomic:
  assumes "log_ok s" and "lg_op_ok (log_dev s) op"
  shows "\<exists>r s' ps. pmemlog_step s op = Some (r, s') \<and> pl_trace s' = pl_trace s @ ps \<and>
    (\<forall>p \<in> set ps. \<forall>img. pm_image p img \<longrightarrow>
       (\<exists>q. log_open_common True None (Inr (img, pl_size s, ro, 1)) = Inr q \<and> log_ok q \<and> log_data q \<in> {log_data s, log_data s'} \<and>
          pmemlog_checkU True None (Inr (img, pl_size s, ro, 1)) = Inr True)) \<and>
    (\<forall>img. pm_image (pl_pm s') img \<longrightarrow>
       (\<exists>q. log_open_common True None (Inr (img, pl_size s, ro, 1)) = Inr q \<and> log_ok q \<and> log_data q = log_data s'))"
proof -
  obtain s' where s': "pmemlog_step s op = Some (fst (lg_step (log_dev s) op), s')" "log_ok s'" "pl_size s' = pl_size s"
    "grows (survives (pl_size s) {log_data s, log_data s'}) s s'" using step_does [OF assms] by (auto simp: log_does_def)
  then obtain ps where ps: "pl_trace s' = pl_trace s @ ps" "\<forall>p \<in> set ps. survives (pl_size s) {log_data s, log_data s'} p" by (auto simp: grows_def)
  have op: "\<exists>q. log_open_common True None (Inr (img, pl_size s, ro, 1)) = Inr q \<and> log_ok q \<and> log_data q = d \<and>
      pmemlog_checkU True None (Inr (img, pl_size s, ro, 1)) = Inr True" if "log_image img (pl_size s) d" for img d
    using open_image [OF that, of ro] by (auto simp: log_dev_def)
  have "survives (pl_size s) {log_data s'} (pl_pm s')"
    using log_ok_image [OF s'(2)] s'(2,3) by (intro survives_behind [of "pl_mem s'"]) (auto simp: log_ok_def)
  then have "\<exists>q. log_open_common True None (Inr (img, pl_size s, ro, 1)) = Inr q \<and> log_ok q \<and> log_data q = log_data s'"
    if "pm_image (pl_pm s') img" for img using that op unfolding survives_def by blast
  moreover have "\<exists>q. log_open_common True None (Inr (img, pl_size s, ro, 1)) = Inr q \<and> log_ok q \<and> log_data q \<in> {log_data s, log_data s'} \<and>
      pmemlog_checkU True None (Inr (img, pl_size s, ro, 1)) = Inr True" if "p \<in> set ps" "pm_image p img" for p img
    using ps(2) that op unfolding survives_def by blast
  ultimately show ?thesis using s'(1) ps(1) by blast
qed

theorem pmemlog_crash_atomic_witness:
  "\<exists>s s' ps. log_data s = [1, 2] \<and> pmemlog_step s (None, LAppend [3]) = Some (Inr 0, s') \<and> pl_trace s' = pl_trace s @ ps \<and>
     (\<forall>p \<in> set ps. \<forall>img. pm_image p img \<longrightarrow>
       (\<exists>q. log_open_common True None (Inr (img, 8195, False, 1)) = Inr q \<and> log_data q \<in> {[1, 2], [1, 2, 3]}))"
proof -
  obtain p where p: "log_ok p" "log_dev p = \<lparr>lg_rdonly = False, lg_size = 3, lg_data = []\<rparr>" "pl_size p = 8195"
    using created_log [of 8195 "\<lambda>_. 0"] by (auto simp: log_dev_def pmemlog_createU_def log_runtime_init_def log_descr_create_def Let_def
      pm_store_def pm_persist_def pm_set_def mapped_log_def)
  from step_does [OF p(1), of "(None, LAppend [1, 2])"] obtain s where s: "log_ok s"
    "log_dev s = snd (lg_step (log_dev p) (None, LAppend [1, 2]))" "pl_size s = 8195" using p(3) by (auto simp: log_does_def)
  then have d: "log_dev s = \<lparr>lg_rdonly = False, lg_size = 3, lg_data = [1, 2]\<rparr>" unfolding p(2) by (simp add: lg_add_def)
  from step_does [OF s(1), of "(None, LAppend [3])"] obtain s1 where s1: "pmemlog_step s (None, LAppend [3]) = Some (fst (lg_step (log_dev s) (None, LAppend [3])), s1)"
    "log_dev s1 = snd (lg_step (log_dev s) (None, LAppend [3]))" by (auto simp: log_does_def)
  then have "pmemlog_step s (None, LAppend [3]) = Some (Inr 0, s1)" "log_data s = [1, 2]" "log_data s1 = [1, 2, 3]"
    unfolding d using d by (simp_all add: lg_add_def log_dev_def)
  moreover obtain ps where "pl_trace s1 = pl_trace s @ ps" "\<forall>p \<in> set ps. \<forall>img. pm_image p img \<longrightarrow>
      (\<exists>q. log_open_common True None (Inr (img, 8195, False, 1)) = Inr q \<and> log_data q \<in> {log_data s, log_data s1})"
    using pmemlog_crash_atomic [OF s(1), of "(None, LAppend [3])" False] s1(1) s(3) by fastforce
  ultimately show ?thesis by (intro exI [of _ s] exI [of _ s1] exI [of _ ps]) simp
qed

text \<open>Walking a log visits its data in order and leaves it alone: with a chunk size of 0 in one piece, and
  otherwise in pieces of that size, of which the last may be shorter and which make up the data,
  until the callback ends the walk.\<close>

lemma pmemlog_walk_chunks:
  assumes "log_ok s" and "unat c + 8192 + length (log_data s) < 2 ^ 64"
  shows "pmemlog_walk None s c f arg =
      Some (Inr (if c = 0 then snd (f (log_data s) arg) else feed f (chunks (unat c) (log_data s)) arg), s) \<and>
    (c \<noteq> 0 \<longrightarrow> concat (chunks (unat c) (log_data s)) = log_data s)"
proof -
  note D = log_imageD [OF log_ok_image [OF assms(1)]]
  have nz: "c \<noteq> 0 \<Longrightarrow> 0 < unat c" by (simp add: unat_gt_0)
  then have "c \<noteq> 0 \<longrightarrow> concat (chunks (unat c) (log_data s)) = log_data s" using concat_chunks by blast
  moreover have "unat (rd64 (pl_mem s) write_offset_p) + unat c < 2 ^ 64" using assms(2) D(1) by simp
  then have "walk_loop (pl_mem s) c (rd64 (pl_mem s) write_offset_p) 8192 f arg = Some (feed f (chunks (unat c) (log_data s)) arg)" if "c \<noteq> 0"
    using walk_loop_chunks [OF nz [OF that], of "rd64 (pl_mem s) write_offset_p" "pl_mem s" 8192 f arg] D(1,6) by simp
  then have "pmemlog_walk None s c f arg =
    Some (Inr (if c = 0 then snd (f (log_data s) arg) else feed f (chunks (unat c) (log_data s)) arg), s)"
    by (intro walk_locked [OF assms(1)]) simp
  ultimately show ?thesis by blast
qed

text \<open>A log of three bytes, and a callback that collects what it is given.\<close>

lemma sample_plog:
  obtains s where "log_ok s" "log_data s = [1, 2, 3]"
proof -
  obtain p where p: "log_ok p" "log_dev p = \<lparr>lg_rdonly = False, lg_size = 4096, lg_data = []\<rparr>"
    using created_log [of "0x3000" "\<lambda>_. 0"] by auto
  from step_does [OF p(1), of "(None, LAppend [1, 2, 3])"] obtain s where s: "log_ok s"
    "log_dev s = snd (lg_step (log_dev p) (None, LAppend [1, 2, 3]))" by (auto simp: log_does_def)
  then have "log_data s = [1, 2, 3]" unfolding p(2) by (simp add: lg_add_def log_dev_def)
  then show thesis using s(1) that by blast
qed

definition collect :: "byte list \<Rightarrow> byte list list \<Rightarrow> bool \<times> byte list list" where
  "collect chunk acc = (True, acc @ [chunk])"

text \<open>Walking a log returns for every chunk size and every callback, also for chunk sizes that make the
  position in the log wrap around.\<close>

lemma pmemlog_walk_terminates:
  assumes "log_ok s"
  shows "\<exists>arg'. pmemlog_walk None s c f arg = Some (Inr arg', s)"
proof -
  note D = log_imageD [OF log_ok_image [OF assms]]
  let ?w = "rd64 (pl_mem s) write_offset_p"
  have w: "unat ?w < 2 ^ 63" using D(1-3) by linarith
  have "\<exists>arg'. (if c = 0 then Some (snd (f (log_data s) arg)) else walk_loop (pl_mem s) c ?w 8192 f arg) = Some arg'"
  proof (cases "unat c < 2 ^ 63")
    case True
    then have "unat ?w + unat c < 2 ^ 64" using w by simp
    then show ?thesis using walk_loop_chunks [of c ?w "pl_mem s" 8192 f arg] by (auto simp: unat_gt_0)
  next
    case False
    then show ?thesis using walk_loop_returns [of c ?w "pl_mem s" 8192 f arg] w by auto
  qed
  then obtain arg' where "(if c = 0 then Some (snd (f (log_data s) arg)) else walk_loop (pl_mem s) c ?w 8192 f arg) = Some arg'" by blast
  from walk_locked [OF assms this] show ?thesis by blast
qed

text \<open>A chunk size of \<open>SIZE_MAX\<close> is not the same as one larger than the log: the position wraps around, and
  after the data the callback is also given, one byte longer each time, what lies in front of it: the
  pool descriptor and the pool header.\<close>

lemma pmemlog_walk_wraps:
  assumes "log_ok s" and "log_data s \<noteq> []"
  shows "pmemlog_walk None s (- 1) collect [] =
    Some (Inr (map (\<lambda>a. bytes_at (pl_mem s) a (8192 + length (log_data s) - a)) (rev [0..<8193])), s)"
proof -
  note D = log_imageD [OF log_ok_image [OF assms(1)]]
  have "unat (8192 :: u64) < unat (rd64 (pl_mem s) write_offset_p)" using D(1) assms(2) by (simp add: unat_of_nat)
  from walk_loop_down [OF this, of "pl_mem s" "[]"] have
    "walk_loop (pl_mem s) (- 1) (rd64 (pl_mem s) write_offset_p) 8192 collect [] =
       Some (map (\<lambda>a. bytes_at (pl_mem s) a (8192 + length (log_data s) - a)) (rev [0..<8193]))"
    using D(1) by (simp add: collect_def [abs_def] del: upt_Suc upt_rec_numeral)
  then show ?thesis by (intro walk_locked [OF assms(1)]) simp
qed

end
