(* ===== verification/Spec2Isabelle.thy ===== *)
theory Spec2Isabelle
  imports Lane_Recovery Lane_Threads Lane_Records Alloc_Class_Gen Containers Cuckoo Blk_Durability Plog_Theorems
begin

text \<open>
  \<^bold>\<open>A verification development for the persistent memory libraries of PMDK 1.5.\<close>

  The repository keeps PMDK 1.5 under \<^verbatim>\<open>src/pmdk-1.5/src\<close> beside experiments with it. PMDK is a set of C
  libraries that build data structures in memory-mapped persistent memory and keep them consistent
  when a program or a machine fails. This development models the parts of it that carry that promise.
  File names below are relative to \<^verbatim>\<open>src/pmdk-1.5/src\<close>.

  \<^bold>\<open>Parts and how they interact.\<close>
  \<^item> \<^verbatim>\<open>libpmemobj\<close>, the object store. Its unified log (\<^verbatim>\<open>ulog.c\<close>) is the format of redo and undo logs;
    the operation context (\<^verbatim>\<open>memops.c\<close>) collects changes in a shadow log, merges them with the help of
    a ring buffer (\<^verbatim>\<open>common/vecq.h\<close>) and applies them through the log. Checksums (\<^verbatim>\<open>common/util.c\<close>) tell a
    complete log from a torn one. Persistent lists (\<^verbatim>\<open>list.c\<close>, with the macros of
    \<^verbatim>\<open>include/libpmemobj/lists_atomic.h\<close>) change several words of the heap at once through the operation context of a
    lane. A lane (\<^verbatim>\<open>lane.c\<close>) has three logs at the front of the pool, for redo and undo; a thread takes a lane for an
    operation, and opening a pool recovers the logs of all lanes, the heap between redo and undo. The heap is
    made of zones of chunks; a chunk is a block by itself or part of a run, whose bitmap says which of its units are in use
    (\<^verbatim>\<open>memblock.c\<close>, layout in \<^verbatim>\<open>heap_layout.h\<close>), and blocks are allocated and freed by adding words of a bitmap or chunk
    headers to an operation context. Allocation classes (\<^verbatim>\<open>alloc_class.c\<close>) fix the size of the units of runs; a class is
    found by the size of an allocation, and by the parameters of a run in the same kind of hash table that lanes use. The allocator keeps free memory blocks in containers
    (\<^verbatim>\<open>container_ravl.c\<close> over the balanced tree \<^verbatim>\<open>ravl.c\<close>, and \<^verbatim>\<open>container_seglists.c\<close>), and a
    thread finds its record of the lanes of a pool in a hash table (\<^verbatim>\<open>cuckoo.c\<close>).
  \<^item> \<^verbatim>\<open>libpmemblk\<close>, arrays of blocks. \<^verbatim>\<open>blk.c\<close> hands the data area of a mapped pool to the block translation
    table (\<^verbatim>\<open>btt.c\<close>, layout in \<^verbatim>\<open>btt_layout.h\<close>) through callbacks; the table makes block writes atomic with
    a map, a log of free blocks for each lane (the flog) and a recovery step when a pool is opened.
  \<^item> \<^verbatim>\<open>libpmemlog\<close>, append-only logs (\<^verbatim>\<open>log.c\<close>): data first, then the write offset.

  \<^bold>\<open>Theories.\<close>
  \<^item> \<open>Prelude\<close>: bytes, words and memories (total functions from addresses to bytes), little-endian loads
    and stores, alignment macros. \<open>Simulation\<close>: sequences of operations and the locales that relate the
    operations of the code to a specification, and the locale of step relations with an invariant.
  \<^item> \<open>Checksum\<close>: the two Fletcher checksum functions; an inserted checksum verifies.
  \<^item> \<open>Vecq\<close>: the macros of the ring buffer over an explicit buffer; it is a queue as long as growing does
    not have to move elements, and two lemmas show what happens when it does.
  \<^item> \<open>Ulog\<close> (every function of \<^verbatim>\<open>ulog.c\<close>), \<open>Ulog_Recovery\<close> (what a log in memory means, as a list of
    entries), \<open>Ulog_Theorems\<close>: creating, storing, applying and recovering logs. Recovery applies all
    entries from any memory in which some of them are applied already.
  \<^item> \<open>Memops\<close> (the operation context and every function of \<^verbatim>\<open>memops.c\<close>), \<open>Memops_Theorems\<close>: merging does not
    change what the entries mean, processing a redo context is atomic, an undo log restores.
  \<^item> \<open>Plist\<close> (the functions of \<^verbatim>\<open>list.c\<close> over the memory, the lane's context and the list locks, and the loops over a
    list). \<open>Ring\<close>: circular lists as two functions. \<open>Heap_Redo\<close>: the words of the heap that any operation collects in the
    shadow log of its lane, to be set or combined with the old contents, and what processing and recovery make of
    them; \<open>Plist_Log\<close> is its instance for lists. \<open>Plist_Words\<close>: which words each function
    changes and what they do to the list. \<open>Plist_Theorems\<close> interprets \<open>guarded_simulation\<close> on the list operations,
    and shows that changes, also of two lists at once, are atomic.
  \<^item> \<open>Lane\<close> (the functions of \<^verbatim>\<open>lane.c\<close>). \<open>Lane_Threads\<close>: the search for a free lane, threads that take, nest,
    release and hand over lanes as an inductive step relation with one atomic access for each step, on which
    \<open>step_system\<close> is interpreted, and the calls of the code as sequences of steps. \<open>Lane_Records\<close>: the records of a
    thread, a client of the hash table through the locale \<open>kv_table\<close>. \<open>Lane_Logs\<close>: the logs of a pool, idle and new
    ones, recovery and the contexts that \<open>lane_boot\<close> makes. \<open>Lane_Recovery\<close>: lists and lanes together, from a new pool to
    the recovery after a failure in a list operation, and three errors that are reported as success.
  \<^item> \<open>Memblock\<close> (the functions of \<^verbatim>\<open>memblock.c\<close> over the heap in memory). \<open>Memblock_Bitmap\<close>: sizes of bitmaps, fixed and
    flexible, the units that a bitmap says are in use, and blocks as sets of units. \<open>Memblock_Ops\<close>: blocks of any number
    of runs allocated and freed in one operation, as changes of sets of units, atomic with respect to failures.
    \<open>Memblock_Scan\<close>: the scans for free and used blocks and the count of free units against their definition by
    sets. \<open>Memblock_Blocks\<close>: headers of objects and the resolution of offsets. \<open>Memblock_Init\<close>: new runs and the
    places of their units.
  \<^item> \<open>Alloc_Class\<close> (the functions of \<^verbatim>\<open>alloc_class.c\<close>). \<open>Alloc_Class_Inv\<close>: consistent collections and new classes, a second
    client of \<open>kv_table\<close>. \<open>Alloc_Class_Sizes\<close>: the class with the least waste for a size, against a definition over numbers.
    \<open>Alloc_Class_Gen\<close>: the generation of the default classes ends and gives a consistent collection; the single precision
    arithmetic of its steps is exact integer arithmetic with rounding to 24 bits.
  \<^item> \<open>Ravl\<close> (the tree with a zipper for parent pointers), \<open>Ravl_Theorems\<close>, \<open>Containers\<close>: sorted contents, the
    rank rule, and that both containers give out a best fit.
  \<^item> \<open>Cuckoo\<close>: the hash table with its rehashing; a map, except for the cases that its lemmas on errors name.
  \<^item> \<open>Btt_Layout\<close> (on-media structures and sizes) and \<open>Btt\<close> (the functions of \<^verbatim>\<open>btt.c\<close> in their order, over
    any provider of callbacks). \<open>Btt_Layout_Theorems\<close>: regions do not overlap. \<open>Btt_Arena\<close>: the locales
    \<open>namespace\<close> and \<open>reliable_namespace\<close>, which say what the table relies on, and what the media of an
    arena means. \<open>Btt_Ops\<close>: reads and writes. \<open>Btt_Recovery\<close>: opening, after a clean end or a failure.
    \<open>Btt_Format\<close>: the first layout. \<open>Btt_Frame\<close>: what no operation changes. \<open>Btt_Table\<close>: the table as a whole
    and the consistency check against a reference definition.
  \<^item> \<open>Blk\<close> (pools, callbacks, lanes, block operations). \<open>Blk_Theorems\<close> interprets \<open>reliable_namespace\<close> on
    the callbacks of \<^verbatim>\<open>blk.c\<close> and the locale \<open>block_device\<close>, an array of blocks, on pools. \<open>Blk_Durability\<close>
    is about opening a pool again, the check, and power failures, with an interpretation of \<open>namespace\<close>
    on a memory that fails after any number of writes and tears the last one.
  \<^item> \<open>Plog\<close> (the functions of \<^verbatim>\<open>log.c\<close>, with the memory that the processor sees and the media as two memories)
    and \<open>Plog_Theorems\<close>: a byte sequence, atomic appends, walks that visit the data and end.

  \<^bold>\<open>How code corresponds to definitions.\<close> A definition has the name of the function, macro, type or field
  it models. Structures in mapped memory are offsets into a memory (with the suffix \<open>_p\<close>) or records that
  are converted to bytes; run-time structures are records. Sizes and offsets keep their C width as
  words. Error returns are values of \<open>errno\<close>. A result \<open>None\<close> stands for a call that does not return: a loop
  that does not end, a lock that is held, an access outside an array. What comes from outside (memory
  allocation, the random generator of identifiers, the pool set code that maps files, the answers of
  locking functions) is an argument. Loops are recursion on lists or functions with a measure, or
  partial functions where the code may loop for ever; no fuel is used except where the code itself
  counts rounds (\<open>MAX_INSERTS\<close> of the hash table). The interleaving of threads is
  modelled where they share data without a lock, in the assignment of lanes; every other call is executed by
  itself, in its own lane, and the locks that it takes are part of the state and are shown to be free again after
  each operation.

  \<^bold>\<open>Failures.\<close> A failure leaves each word of eight bytes as it was before or after a store that was not
  yet durable. The redo log is considered after it has been stored: that a torn log is recognised by its
  checksum is a matter of probability and not a theorem.

  \<^bold>\<open>Not modelled.\<close> Of \<^verbatim>\<open>libpmemobj\<close>: the allocator over memory blocks (\<^verbatim>\<open>heap.c\<close>, \<^verbatim>\<open>palloc.c\<close>,
  \<^verbatim>\<open>bucket.c\<close>, \<^verbatim>\<open>recycler.c\<close> beyond its comparison), whose boot is an argument of the recovery, the list operations that also allocate or free an object, transactions beyond the comparison of ranges, locks in persistent memory, object pools and statistics. Of the common code: pool
  sets, files and mappings, the configuration tree, shutdown state and bad blocks, which are mostly
  operating system calls. \<^verbatim>\<open>libpmem\<close> is the instruction level of flushing. \<^verbatim>\<open>libpmempool\<close>, \<^verbatim>\<open>librpmem\<close>, the
  tools, examples, benchmarks and tests, the vendored allocators and collectors and the C++ code are not
  part of the core. Logging, Valgrind annotations and the write protection of the debug build have no
  effect on the modelled state and are left out.
\<close>

end
